(* ===== verification/Prelude.thy ===== *)
theory Prelude
  imports Complex_Main "HOL-Library.Word" "HOL-Library.Monad_Syntax"
begin

text \<open>
  Shared vocabulary of the development.

  The modelled program is C++ compiled for a 64-bit little-endian machine. An execution that has
  no defined result (an access outside an object, a division by zero, a signed overflow, a
  conversion of a float that does not fit the integer type) is \<^const>\<open>None\<close>; every other
  execution is \<^const>\<open>Some\<close> of its result. Values of type \<open>size_t\<close> are natural numbers
  with the wrap-around at \<open>2 ^ 64\<close> written out (\<open>uadd\<close>, \<open>usub\<close>, \<open>umul\<close>), values of type
  \<open>int\<close> are integers checked with \<open>c_int\<close>, and bit fields are words.
\<close>

unbundle bit_operations_syntax

type_synonym byte = "8 word"
type_synonym u8 = "8 word"
type_synonym u16 = "16 word"
type_synonym u32 = "32 word"
type_synonym u64 = "64 word"

named_theorems wrap "facts that remove a wrap-around when the operands are in range"
named_theorems mem "facts about loads and stores in byte blocks"


section \<open>Unsigned 64-bit arithmetic on natural numbers\<close>

definition uadd :: "nat \<Rightarrow> nat \<Rightarrow> nat" where
  "uadd a b = (a + b) mod 2 ^ 64"

definition usub :: "nat \<Rightarrow> nat \<Rightarrow> nat" where
  "usub a b = nat ((int a - int b) mod 2 ^ 64)"

definition umul :: "nat \<Rightarrow> nat \<Rightarrow> nat" where
  "umul a b = (a * b) mod 2 ^ 64"

text \<open>The remainder and the quotient by zero are undefined.\<close>

definition umod :: "nat \<Rightarrow> nat \<Rightarrow> nat option" where
  "umod a b = (if b = 0 then None else Some (a mod b))"

definition udiv :: "nat \<Rightarrow> nat \<Rightarrow> nat option" where
  "udiv a b = (if b = 0 then None else Some (a div b))"

lemma uadd_small [wrap]: "a + b < 2 ^ 64 \<Longrightarrow> uadd a b = a + b"
  by (simp add: uadd_def)

lemma usub_le [wrap]:
  assumes "b \<le> a" and "a < 2 ^ 64"
  shows "usub a b = a - b"
proof -
  have "(int a - int b) mod 2 ^ 64 = int (a - b)"
    using assms by (simp add: of_nat_diff)
  then show ?thesis by (simp only: usub_def nat_int)
qed

lemma usub_self [simp]: "usub a a = 0"
  by (simp add: usub_def)

lemma usub_wrap_add:
  assumes "a \<le> b" and "b \<le> n" and "n < 2 ^ 64"
  shows "uadd (usub a b) n = a + n - b"
proof -
  have "(a + n - b) mod 2 ^ 64 = (usub a b + n) mod 2 ^ 64"
  proof -
    have "int (usub a b) = (int a - int b) mod 2 ^ 64"
      by (simp add: usub_def)
    then have "int (usub a b + n) mod 2 ^ 64 = (int a - int b + int n) mod 2 ^ 64"
      by (simp add: mod_add_left_eq)
    also have "\<dots> = int (a + n - b) mod 2 ^ 64"
      using assms by (simp add: of_nat_diff algebra_simps)
    finally have "int ((usub a b + n) mod 2 ^ 64) = int ((a + n - b) mod 2 ^ 64)"
      by (simp add: of_nat_mod)
    then show ?thesis by linarith
  qed
  moreover have "a + n - b < 2 ^ 64" using assms by linarith
  ultimately show ?thesis by (simp add: uadd_def)
qed

lemma umul_small [wrap]: "a * b < 2 ^ 64 \<Longrightarrow> umul a b = a * b"
  by (simp add: umul_def)

lemma umod_pos [simp]: "0 < b \<Longrightarrow> umod a b = Some (a mod b)"
  by (simp add: umod_def)

lemma umod_zero [simp]: "umod a 0 = None"
  by (simp add: umod_def)

lemma udiv_pos [simp]: "0 < b \<Longrightarrow> udiv a b = Some (a div b)"
  by (simp add: udiv_def)

lemma udiv_zero [simp]: "udiv a 0 = None"
  by (simp add: udiv_def)


section \<open>Signed 32-bit arithmetic\<close>

text \<open>The value of an \<open>int\<close> expression, undefined when it does not fit 32 bits.\<close>

definition c_int :: "int \<Rightarrow> int option" where
  "c_int x = (if - (2 ^ 31) \<le> x \<and> x < 2 ^ 31 then Some x else None)"

lemma c_int_Some [wrap]: "- (2 ^ 31) \<le> x \<Longrightarrow> x < 2 ^ 31 \<Longrightarrow> c_int x = Some x"
  by (simp add: c_int_def)

lemma c_int_nat [wrap]: "n < 2 ^ 31 \<Longrightarrow> c_int (int n) = Some (int n)"
  by (simp add: c_int_def)

lemma c_int_mult [wrap]: "m * n < 2 ^ 31 \<Longrightarrow> c_int (int m * int n) = Some (int (m * n))"
  by (simp only: of_nat_mult [symmetric] c_int_nat)

lemma c_int_add [wrap]: "m + n < 2 ^ 31 \<Longrightarrow> c_int (int m + int n) = Some (int (m + n))"
  by (simp only: of_nat_add [symmetric] c_int_nat)

text \<open>Division truncates towards zero; division by zero and \<open>INT_MIN / -1\<close> are undefined.\<close>

definition c_div :: "int \<Rightarrow> int \<Rightarrow> int option" where
  "c_div a b = (if b = 0 then None else c_int (sgn a * sgn b * (\<bar>a\<bar> div \<bar>b\<bar>)))"

lemma c_div_zero [simp]: "c_div a 0 = None"
  by (simp add: c_div_def)

lemma c_div_pos [wrap]:
  assumes "0 \<le> a" and "a < 2 ^ 31" and "0 < b"
  shows "c_div a b = Some (a div b)"
proof -
  have "a div b \<le> a" using zdiv_mono2 [of a 1 b] assms by simp
  moreover have "0 \<le> a div b" using assms by (simp add: pos_imp_zdiv_nonneg_iff)
  ultimately show ?thesis
    using assms by (cases "a = 0") (auto simp: c_div_def c_int_def)
qed

lemma c_div_nat [wrap]: "a < 2 ^ 31 \<Longrightarrow> 0 < b \<Longrightarrow> c_div (int a) (int b) = Some (int (a div b))"
  by (subst c_div_pos) (auto simp: zdiv_int)

text \<open>The conversion of a wider value to \<open>int\<close> keeps its low 32 bits.\<close>

definition to_i32 :: "int \<Rightarrow> int" where
  "to_i32 x = (x + 2 ^ 31) mod 2 ^ 32 - 2 ^ 31"

lemma to_i32_small [wrap]: "- (2 ^ 31) \<le> x \<Longrightarrow> x < 2 ^ 31 \<Longrightarrow> to_i32 x = x"
  by (simp add: to_i32_def)

text \<open>The conversion of an \<open>int\<close> to \<open>size_t\<close>.\<close>

definition to_size :: "int \<Rightarrow> nat" where
  "to_size x = nat (x mod 2 ^ 64)"

lemma to_size_small [wrap]: "0 \<le> x \<Longrightarrow> x < 2 ^ 64 \<Longrightarrow> to_size x = nat x"
  by (simp add: to_size_def)

lemma to_size_nat [wrap]: "n < 2 ^ 64 \<Longrightarrow> to_size (int n) = n"
  by (simp add: to_size_def)

lemma to_i32_nat [wrap]: "n < 2 ^ 31 \<Longrightarrow> to_i32 (int n) = int n"
  by (simp add: to_i32_def)

text \<open>The conversions to \<open>uint16_t\<close> and \<open>uint8_t\<close> of an assignment.\<close>

definition to_u16 :: "int \<Rightarrow> nat" where
  "to_u16 x = nat (x mod 2 ^ 16)"

definition to_u8 :: "int \<Rightarrow> nat" where
  "to_u8 x = nat (x mod 2 ^ 8)"

lemma to_u16_small [wrap]: "0 \<le> x \<Longrightarrow> x < 2 ^ 16 \<Longrightarrow> to_u16 x = nat x"
  by (simp add: to_u16_def)

lemma to_u16_nat [wrap]: "n < 2 ^ 16 \<Longrightarrow> to_u16 (int n) = n"
  by (simp add: to_u16_def)

lemma to_u16_less: "to_u16 x < 2 ^ 16"
  unfolding to_u16_def by (simp add: nat_less_iff)

lemma to_u8_small [wrap]: "0 \<le> x \<Longrightarrow> x < 2 ^ 8 \<Longrightarrow> to_u8 x = nat x"
  by (simp add: to_u8_def)

lemma to_u8_nat [wrap]: "n < 2 ^ 8 \<Longrightarrow> to_u8 (int n) = n"
  by (simp add: to_u8_def)

lemma to_u8_less: "to_u8 x < 2 ^ 8"
  unfolding to_u8_def by (simp add: nat_less_iff)


section \<open>Blocks of memory\<close>

text \<open>
  A block is a list of cells. \<open>mem_load b i n\<close> and \<open>mem_store b i xs\<close> are the two sides of a
  \<open>memcpy\<close>; they are undefined outside the block.
\<close>

definition blit :: "'a list \<Rightarrow> nat \<Rightarrow> 'a list \<Rightarrow> 'a list" where
  "blit b i xs = take i b @ xs @ drop (i + length xs) b"

definition mem_load :: "'a list \<Rightarrow> nat \<Rightarrow> nat \<Rightarrow> 'a list option" where
  "mem_load b i n = (if i + n \<le> length b then Some (take n (drop i b)) else None)"

definition mem_store :: "'a list \<Rightarrow> nat \<Rightarrow> 'a list \<Rightarrow> 'a list option" where
  "mem_store b i xs = (if i + length xs \<le> length b then Some (blit b i xs) else None)"

lemma length_blit [simp]: "i + length xs \<le> length b \<Longrightarrow> length (blit b i xs) = length b"
  by (simp add: blit_def)

lemma blit_Nil [simp]: "blit b i [] = b"
  by (simp add: blit_def)

lemma nth_blit:
  assumes "i + length xs \<le> length b" and "j < length b"
  shows "blit b i xs ! j = (if i \<le> j \<and> j < i + length xs then xs ! (j - i) else b ! j)"
proof -
  consider "j < i" | "i \<le> j" "j < i + length xs" | "i + length xs \<le> j" by linarith
  then show ?thesis
    by cases (use assms in \<open>auto simp: blit_def nth_append\<close>)
qed

lemma mem_load_Some [mem]: "i + n \<le> length b \<Longrightarrow> mem_load b i n = Some (take n (drop i b))"
  by (simp add: mem_load_def)

lemma mem_store_Some [mem]: "i + length xs \<le> length b \<Longrightarrow> mem_store b i xs = Some (blit b i xs)"
  by (simp add: mem_store_def)

lemma mem_load_length: "mem_load b i n = Some xs \<Longrightarrow> length xs = n"
  by (auto simp: mem_load_def split: if_splits)

lemma mem_store_length: "mem_store b i xs = Some b' \<Longrightarrow> length b' = length b"
  by (auto simp: mem_store_def split: if_splits)

lemma blit_append:
  "i + length xs + length ys \<le> length b \<Longrightarrow>
     blit (blit b i xs) (i + length xs) ys = blit b i (xs @ ys)"
  by (simp add: blit_def add.commute add.left_commute)

lemma take_blit: "i + length xs \<le> length b \<Longrightarrow> take i (blit b i xs) = take i b"
  by (simp add: blit_def)

lemma blit_0: "blit b 0 xs = xs @ drop (length xs) b"
  by (simp add: blit_def)


section \<open>Counting loops\<close>

text \<open>
  \<open>for_loop i n f s\<close> runs the body \<open>f\<close> for the \<open>n\<close> indices \<open>i, i + 1, \<dots>\<close> in that order, as
  \<open>for (k = i; k < i + n; k++)\<close> does. An undefined iteration makes the loop undefined.
\<close>

fun for_loop :: "nat \<Rightarrow> nat \<Rightarrow> (nat \<Rightarrow> 's \<Rightarrow> 's option) \<Rightarrow> 's \<Rightarrow> 's option" where
  "for_loop i 0 f s = Some s"
| "for_loop i (Suc n) f s = Option.bind (f i s) (for_loop (Suc i) n f)"

lemma for_loop_append:
  "for_loop i (m + n) f s = Option.bind (for_loop i m f s) (for_loop (i + m) n f)"
proof (induction m arbitrary: i s)
  case (Suc m)
  show ?case by (cases "f i s") (simp_all add: Suc.IH)
qed simp

lemma for_loop_Suc_right:
  "for_loop i (Suc n) f s = Option.bind (for_loop i n f s) (f (i + n))"
proof -
  have "for_loop i (n + 1) f s = Option.bind (for_loop i n f s) (for_loop (i + n) 1 f)"
    by (rule for_loop_append)
  moreover have "for_loop (i + n) 1 f = f (i + n)"
  proof (rule ext)
    fix t
    show "for_loop (i + n) 1 f t = f (i + n) t"
      by (cases "f (i + n) t") simp_all
  qed
  ultimately show ?thesis by simp
qed

lemma for_loop_inv:
  assumes "P i s"
    and "\<And>k s. i \<le> k \<Longrightarrow> k < i + n \<Longrightarrow> P k s \<Longrightarrow> \<exists>s'. f k s = Some s' \<and> P (Suc k) s'"
  shows "\<exists>s'. for_loop i n f s = Some s' \<and> P (i + n) s'"
  using assms
proof (induction n arbitrary: i s)
  case (Suc n)
  from Suc.prems(1) Suc.prems(2) [of i s] obtain s1 where s1: "f i s = Some s1" "P (Suc i) s1"
    by auto
  have "\<exists>s'. for_loop (Suc i) n f s1 = Some s' \<and> P (Suc i + n) s'"
    using s1(2) Suc.prems(2) by (intro Suc.IH) auto
  with s1(1) show ?case by simp
qed simp

lemma for_loop_cong:
  "(\<And>k s. i \<le> k \<Longrightarrow> k < i + n \<Longrightarrow> f k s = g k s) \<Longrightarrow> for_loop i n f s = for_loop i n g s"
proof (induction n arbitrary: i s)
  case (Suc n)
  then have "f i s = g i s" "\<And>s. for_loop (Suc i) n f s = for_loop (Suc i) n g s" by auto
  then show ?case by (metis for_loop.simps(2) ext)
qed simp

text \<open>A loop that stores one block of \<open>w\<close> cells per iteration, one after the other.\<close>

lemma length_concat_blocks:
  "(\<And>k. k < n \<Longrightarrow> length (g k) = w) \<Longrightarrow> length (concat (map g [0..<n])) = n * w"
  by (induction n) (simp_all add: add.commute)

lemma for_loop_blocks:
  assumes body: "\<And>k d. k < n \<Longrightarrow> length d = length dst \<Longrightarrow> f k d = mem_store d (k * w) (g k)"
    and len: "\<And>k. k < n \<Longrightarrow> length (g k) = w"
    and fits: "n * w \<le> length dst"
  shows "for_loop 0 n f dst = Some (blit dst 0 (concat (map g [0..<n])))"
  using assms
proof (induction n)
  case (Suc n)
  have lens: "length (concat (map g [0..<n])) = n * w"
    using Suc.prems(2) by (intro length_concat_blocks) simp
  have IH: "for_loop 0 n f dst = Some (blit dst 0 (concat (map g [0..<n])))"
    using Suc.prems by (intro Suc.IH) auto
  have ln: "length (g n) = w" using Suc.prems(2) by simp
  have "for_loop 0 (Suc n) f dst = f n (blit dst 0 (concat (map g [0..<n])))"
    by (simp only: for_loop_Suc_right IH) simp
  also have "\<dots> = mem_store (blit dst 0 (concat (map g [0..<n]))) (n * w) (g n)"
    using Suc.prems(3) lens by (intro Suc.prems(1)) auto
  also have "\<dots> = Some (blit (blit dst 0 (concat (map g [0..<n]))) (n * w) (g n))"
    using Suc.prems(3) lens ln by (simp add: mem)
  also have "blit (blit dst 0 (concat (map g [0..<n]))) (n * w) (g n)
      = blit dst 0 (concat (map g [0..<n]) @ g n)"
    using blit_append [of 0 "concat (map g [0..<n])" "g n" dst] lens ln Suc.prems(3) by simp
  finally show ?case by simp
qed simp


section \<open>Characters and strings\<close>

text \<open>A C string literal as the bytes in memory, without the terminating zero.\<close>

definition bytes_of :: "string \<Rightarrow> byte list" where
  "bytes_of s = map (\<lambda>c. of_char c) s"

lemma length_bytes_of [simp]: "length (bytes_of s) = length s"
  by (simp add: bytes_of_def)

text \<open>The string a character array holds: the bytes before the first zero.\<close>

definition cstr :: "byte list \<Rightarrow> byte list" where
  "cstr b = takeWhile (\<lambda>c. c \<noteq> 0) b"

lemma cstr_nonzero: "0 \<notin> set (cstr b)"
  by (auto simp: cstr_def dest: set_takeWhileD)

lemma length_cstr_le: "length (cstr b) \<le> length b"
  by (simp add: cstr_def length_takeWhile_le)

lemma cstr_append_zero: "0 \<notin> set s \<Longrightarrow> cstr (s @ 0 # t) = s"
  unfolding cstr_def by (subst takeWhile_append2) auto

lemma cstr_no_zero: "0 \<notin> set s \<Longrightarrow> cstr s = s"
  unfolding cstr_def by (subst takeWhile_eq_all_conv) auto

end
