(* ===== verification/Byte_Fifo.thy ===== *)
theory Byte_Fifo
  imports Prelude
begin

text \<open>
  The interface through which the rest of the program uses a byte ring: a bounded first-in
  first-out queue of bytes with partial transfers. The operations are those a client calls
  (the two space queries, the write and the read); the laws say what they do to the queue's
  contents. The ring buffer provides it, the frame transport of the receiver uses it.
\<close>

section \<open>Runs of transfers\<close>

text \<open>
  A run of transfers through any queue: \<open>Put xs\<close> writes the block \<open>xs\<close>, \<open>Get n\<close> reads up to
  \<open>n\<close> bytes into a block of \<open>n\<close> bytes. The run returns the final queue, the bytes accepted and
  the bytes delivered, in order.
\<close>

datatype fifo_op = Put "byte list" | Get nat

fun fifo_run :: "('q \<Rightarrow> byte list \<Rightarrow> nat \<Rightarrow> ('q \<times> nat) option) \<Rightarrow>
    ('q \<Rightarrow> byte list \<Rightarrow> nat \<Rightarrow> ('q \<times> byte list \<times> nat) option) \<Rightarrow>
    fifo_op list \<Rightarrow> 'q \<Rightarrow> ('q \<times> byte list \<times> byte list) option" where
  "fifo_run push pull [] q = Some (q, [], [])"
| "fifo_run push pull (Put xs # ops) q = do {
     (q1, n) \<leftarrow> push q xs (length xs);
     (q2, ins, outs) \<leftarrow> fifo_run push pull ops q1;
     Some (q2, take n xs @ ins, outs) }"
| "fifo_run push pull (Get n # ops) q = do {
     (q1, d, k) \<leftarrow> pull q (replicate n 0) n;
     (q2, ins, outs) \<leftarrow> fifo_run push pull ops q1;
     Some (q2, ins, take k d @ outs) }"


section \<open>The contract\<close>

locale byte_fifo =
  fixes ok :: "'q \<Rightarrow> bool"
    and contents :: "'q \<Rightarrow> byte list"
    and cap :: "'q \<Rightarrow> nat"
    and avail :: "'q \<Rightarrow> nat option"
    and space :: "'q \<Rightarrow> nat option"
    and push :: "'q \<Rightarrow> byte list \<Rightarrow> nat \<Rightarrow> ('q \<times> nat) option"
    and pull :: "'q \<Rightarrow> byte list \<Rightarrow> nat \<Rightarrow> ('q \<times> byte list \<times> nat) option"
  assumes bounded: "ok q \<Longrightarrow> length (contents q) \<le> cap q"
    and avail_law: "ok q \<Longrightarrow> avail q = Some (length (contents q))"
    and space_law: "ok q \<Longrightarrow> space q = Some (cap q - length (contents q))"
    and push_law: "ok q \<Longrightarrow> cnt \<le> length src \<Longrightarrow> n = min cnt (cap q - length (contents q)) \<Longrightarrow>
      \<exists>q'. push q src cnt = Some (q', n) \<and> ok q' \<and> cap q' = cap q \<and>
        contents q' = contents q @ take n src"
    and pull_law: "ok q \<Longrightarrow> cnt \<le> length dest \<Longrightarrow> n = min cnt (length (contents q)) \<Longrightarrow>
      \<exists>q'. pull q dest cnt = Some (q', blit dest 0 (take n (contents q)), n) \<and> ok q' \<and>
        cap q' = cap q \<and> contents q' = drop n (contents q)"
begin

text \<open>A block that fits is accepted whole; a block that is available is delivered whole.\<close>

lemma push_whole:
  assumes "ok q" and "length xs \<le> cap q - length (contents q)"
  shows "\<exists>q'. push q xs (length xs) = Some (q', length xs) \<and> ok q' \<and> cap q' = cap q \<and>
    contents q' = contents q @ xs"
  using push_law [of q "length xs" xs "length xs"] assms by simp

lemma pull_whole:
  assumes "ok q" and "length (contents q) \<ge> n" and "length dest = n"
  shows "\<exists>q'. pull q dest n = Some (q', take n (contents q), n) \<and> ok q' \<and> cap q' = cap q \<and>
    contents q' = drop n (contents q)"
  using pull_law [of q n dest n] assms by (simp add: blit_def)

text \<open>
  Order and integrity: in any run, what comes out followed by what is still inside is what was
  inside followed by what was accepted. Nothing is lost, duplicated or reordered.
\<close>

lemma run_order:
  "ok q \<Longrightarrow> \<exists>q' ins outs. fifo_run push pull ops q = Some (q', ins, outs) \<and> ok q' \<and>
     cap q' = cap q \<and> outs @ contents q' = contents q @ ins"
proof (induction ops arbitrary: q)
  case (Cons opn ops)
  show ?case
  proof (cases opn)
    case (Put xs)
    obtain q1 n where q1: "push q xs (length xs) = Some (q1, n)" "ok q1" "cap q1 = cap q"
        "contents q1 = contents q @ take n xs"
      using push_law [OF Cons.prems order_refl refl] by blast
    from Cons.IH [OF q1(2)] obtain q2 ins outs where
        "fifo_run push pull ops q1 = Some (q2, ins, outs)" "ok q2" "cap q2 = cap q1"
        "outs @ contents q2 = contents q1 @ ins" by blast
    then show ?thesis using q1 Put by simp
  next
    case (Get n)
    let ?k = "min n (length (contents q))"
    obtain q1 where q1: "pull q (replicate n 0) n = Some (q1, blit (replicate n 0) 0 (take ?k (contents q)), ?k)"
        "ok q1" "cap q1 = cap q" "contents q1 = drop ?k (contents q)"
      using pull_law [OF Cons.prems, of n "replicate n 0" ?k] by auto
    from Cons.IH [OF q1(2)] obtain q2 ins outs where
        "fifo_run push pull ops q1 = Some (q2, ins, outs)" "ok q2" "cap q2 = cap q1"
        "outs @ contents q2 = contents q1 @ ins" by blast
    moreover have "take ?k (blit (replicate n (0::byte)) 0 (take ?k (contents q))) = take ?k (contents q)"
      by (simp add: blit_def)
    ultimately show ?thesis using q1 Get by simp
  qed
qed simp

end

end
