(* ===== verification/Ringbuffer.thy ===== *)
theory Ringbuffer
  imports Byte_Fifo
begin

text \<open>
  The byte ring buffer of \<open>vban_common/ringbuffer.h\<close>: the structure, every operation of the
  header, the abstraction of a ring to the list of bytes it holds, and the refinement of each
  operation to the corresponding list operation.

  A ring of \<open>size\<close> bytes holds at most \<open>size - 1\<close>: equal pointers mean "empty". Pointers and
  sizes are \<open>size_t\<close>; the remainders by \<open>rb->size\<close> are undefined for a ring of size 0.
\<close>

section \<open>The structure\<close>

record ringbuffer =
  rb_buf :: "byte list"
  write_ptr :: nat
  read_ptr :: nat
  rb_size :: nat
  mlocked :: int

text \<open>
  \<open>ringbuffer_create\<close> calls \<open>malloc\<close> twice. Its answers are arguments: whether the structure was
  allocated, and the block for the bytes (\<^const>\<open>None\<close> for \<open>NULL\<close>), whose content is arbitrary.
\<close>

definition ringbuffer_create :: "bool \<Rightarrow> byte list option \<Rightarrow> nat \<Rightarrow> ringbuffer option" where
  "ringbuffer_create rb_mem buf_mem sz =
     (if \<not> rb_mem then None
      else case buf_mem of
          None \<Rightarrow> None
        | Some b \<Rightarrow> Some \<lparr>rb_buf = b, write_ptr = 0, read_ptr = 0, rb_size = sz, mlocked = 0\<rparr>)"


section \<open>Space\<close>

definition ringbuffer_read_space :: "ringbuffer \<Rightarrow> nat option" where
  "ringbuffer_read_space rb =
     (let w = write_ptr rb; r = read_ptr rb in
      if w > r then Some (usub w r)
      else umod (uadd (usub w r) (rb_size rb)) (rb_size rb))"

definition ringbuffer_write_space :: "ringbuffer \<Rightarrow> nat option" where
  "ringbuffer_write_space rb =
     (let w = write_ptr rb; r = read_ptr rb in
      if w > r then
        map_option (\<lambda>x. usub x 1) (umod (uadd (usub r w) (rb_size rb)) (rb_size rb))
      else if w < r then Some (usub (usub r w) 1)
      else Some (usub (rb_size rb) 1))"


section \<open>Vectors\<close>

text \<open>
  The pieces of the ring that a transfer of \<open>n\<close> bytes from position \<open>p\<close> touches. The code
  computes them in the same way in \<open>ringbuffer_read\<close>, \<open>ringbuffer_peek\<close> and
  \<open>ringbuffer_write\<close>: \<open>n1\<close> bytes up to the end of the block and \<open>n2\<close> from its start.
\<close>

definition rb_split :: "nat \<Rightarrow> nat \<Rightarrow> nat \<Rightarrow> (nat \<times> nat) option" where
  "rb_split p n sz =
     (let cnt2 = uadd p n in
      if cnt2 > sz then map_option (\<lambda>n2. (usub sz p, n2)) (umod cnt2 sz)
      else Some (n, 0))"

text \<open>
  A \<open>ringbuffer_data_t\<close> is an offset into \<open>rb->buf\<close> and a length. The offset of the second
  element is not written when there is one part only (\<^const>\<open>None\<close>).
\<close>

record ringbuffer_data =
  rd_off :: "nat option"
  rd_len :: nat

definition ringbuffer_get_read_vector :: "ringbuffer \<Rightarrow> (ringbuffer_data \<times> ringbuffer_data) option" where
  "ringbuffer_get_read_vector rb =
     (let w = write_ptr rb; r = read_ptr rb in do {
        free_cnt \<leftarrow> (if w > r then Some (usub w r)
                    else umod (uadd (usub w r) (rb_size rb)) (rb_size rb));
        let cnt2 = uadd r free_cnt;
        if cnt2 > rb_size rb then do {
          n2 \<leftarrow> umod cnt2 (rb_size rb);
          Some (\<lparr>rd_off = Some r, rd_len = usub (rb_size rb) r\<rparr>, \<lparr>rd_off = Some 0, rd_len = n2\<rparr>)
        } else Some (\<lparr>rd_off = Some r, rd_len = free_cnt\<rparr>, \<lparr>rd_off = None, rd_len = 0\<rparr>)
      })"

definition ringbuffer_get_write_vector :: "ringbuffer \<Rightarrow> (ringbuffer_data \<times> ringbuffer_data) option" where
  "ringbuffer_get_write_vector rb =
     (let w = write_ptr rb; r = read_ptr rb in do {
        free_cnt \<leftarrow>
          (if w > r then
             map_option (\<lambda>x. usub x 1) (umod (uadd (usub r w) (rb_size rb)) (rb_size rb))
           else if w < r then Some (usub (usub r w) 1)
           else Some (usub (rb_size rb) 1));
        let cnt2 = uadd w free_cnt;
        if cnt2 > rb_size rb then do {
          n2 \<leftarrow> umod cnt2 (rb_size rb);
          Some (\<lparr>rd_off = Some w, rd_len = usub (rb_size rb) w\<rparr>, \<lparr>rd_off = Some 0, rd_len = n2\<rparr>)
        } else Some (\<lparr>rd_off = Some w, rd_len = free_cnt\<rparr>, \<lparr>rd_off = None, rd_len = 0\<rparr>)
      })"


section \<open>Transfers\<close>

text \<open>
  \<open>ringbuffer_read\<close> copies into the caller's block \<open>dest\<close> and returns the ring, the block and
  the count. \<open>ringbuffer_write\<close> copies from the caller's block \<open>src\<close>.
\<close>

definition ringbuffer_read :: "ringbuffer \<Rightarrow> byte list \<Rightarrow> nat \<Rightarrow> (ringbuffer \<times> byte list \<times> nat) option" where
  "ringbuffer_read rb dest cnt = do {
     free_cnt \<leftarrow> ringbuffer_read_space rb;
     if free_cnt = 0 then Some (rb, dest, 0)
     else do {
       let to_read = (if cnt > free_cnt then free_cnt else cnt);
       (n1, n2) \<leftarrow> rb_split (read_ptr rb) to_read (rb_size rb);
       xs \<leftarrow> mem_load (rb_buf rb) (read_ptr rb) n1;
       dest1 \<leftarrow> mem_store dest 0 xs;
       r1 \<leftarrow> umod (uadd (read_ptr rb) n1) (rb_size rb);
       if n2 \<noteq> 0 then do {
         ys \<leftarrow> mem_load (rb_buf rb) r1 n2;
         dest2 \<leftarrow> mem_store dest1 n1 ys;
         r2 \<leftarrow> umod (uadd r1 n2) (rb_size rb);
         Some (rb\<lparr>read_ptr := r2\<rparr>, dest2, to_read)
       } else Some (rb\<lparr>read_ptr := r1\<rparr>, dest1, to_read)
     }
   }"

definition ringbuffer_peek :: "ringbuffer \<Rightarrow> byte list \<Rightarrow> nat \<Rightarrow> (byte list \<times> nat) option" where
  "ringbuffer_peek rb dest cnt = do {
     free_cnt \<leftarrow> ringbuffer_read_space rb;
     if free_cnt = 0 then Some (dest, 0)
     else do {
       let to_read = (if cnt > free_cnt then free_cnt else cnt);
       (n1, n2) \<leftarrow> rb_split (read_ptr rb) to_read (rb_size rb);
       xs \<leftarrow> mem_load (rb_buf rb) (read_ptr rb) n1;
       dest1 \<leftarrow> mem_store dest 0 xs;
       tmp \<leftarrow> umod (uadd (read_ptr rb) n1) (rb_size rb);
       if n2 \<noteq> 0 then do {
         ys \<leftarrow> mem_load (rb_buf rb) tmp n2;
         dest2 \<leftarrow> mem_store dest1 n1 ys;
         Some (dest2, to_read)
       } else Some (dest1, to_read)
     }
   }"

definition ringbuffer_write :: "ringbuffer \<Rightarrow> byte list \<Rightarrow> nat \<Rightarrow> (ringbuffer \<times> nat) option" where
  "ringbuffer_write rb src cnt = do {
     free_cnt \<leftarrow> ringbuffer_write_space rb;
     if free_cnt = 0 then Some (rb, 0)
     else do {
       let to_write = (if cnt > free_cnt then free_cnt else cnt);
       (n1, n2) \<leftarrow> rb_split (write_ptr rb) to_write (rb_size rb);
       xs \<leftarrow> mem_load src 0 n1;
       b1 \<leftarrow> mem_store (rb_buf rb) (write_ptr rb) xs;
       w1 \<leftarrow> umod (uadd (write_ptr rb) n1) (rb_size rb);
       if n2 \<noteq> 0 then do {
         ys \<leftarrow> mem_load src n1 n2;
         b2 \<leftarrow> mem_store b1 w1 ys;
         w2 \<leftarrow> umod (uadd w1 n2) (rb_size rb);
         Some (rb\<lparr>rb_buf := b2, write_ptr := w2\<rparr>, to_write)
       } else Some (rb\<lparr>rb_buf := b1, write_ptr := w1\<rparr>, to_write)
     }
   }"

definition ringbuffer_read_advance :: "ringbuffer \<Rightarrow> nat \<Rightarrow> ringbuffer option" where
  "ringbuffer_read_advance rb cnt = do {
     tmp \<leftarrow> umod (uadd (read_ptr rb) cnt) (rb_size rb);
     Some (rb\<lparr>read_ptr := tmp\<rparr>)
   }"

definition ringbuffer_write_advance :: "ringbuffer \<Rightarrow> nat \<Rightarrow> ringbuffer option" where
  "ringbuffer_write_advance rb cnt = do {
     tmp \<leftarrow> umod (uadd (write_ptr rb) cnt) (rb_size rb);
     Some (rb\<lparr>write_ptr := tmp\<rparr>)
   }"

text \<open>\<open>USE_MLOCK\<close> is not defined by any build file: the call only sets the flag.\<close>

definition ringbuffer_mlock :: "ringbuffer \<Rightarrow> ringbuffer \<times> int" where
  "ringbuffer_mlock rb = (rb\<lparr>mlocked := 1\<rparr>, 0)"

definition ringbuffer_reset :: "ringbuffer \<Rightarrow> ringbuffer" where
  "ringbuffer_reset rb = rb\<lparr>read_ptr := 0, write_ptr := 0\<rparr>"

text \<open>
  \<open>ringbuffer_reset_size\<close> writes \<open>sz\<close> zero bytes from the start and empties the ring; \<open>zeros\<close>
  is the block \<open>calloc\<close> returned (\<open>sz\<close> zero bytes when it succeeded).
\<close>

definition ringbuffer_reset_size :: "ringbuffer \<Rightarrow> byte list \<Rightarrow> nat \<Rightarrow> ringbuffer option" where
  "ringbuffer_reset_size rb zeros sz = do {
     (rb', _) \<leftarrow> ringbuffer_write (rb\<lparr>read_ptr := 0, write_ptr := 0\<rparr>) zeros sz;
     Some (rb'\<lparr>read_ptr := 0, write_ptr := 0\<rparr>)
   }"


section \<open>The bytes in a circular block\<close>

definition circ :: "'a list \<Rightarrow> nat \<Rightarrow> nat \<Rightarrow> 'a list" where
  "circ b p n = map (\<lambda>i. b ! ((p + i) mod length b)) [0..<n]"

definition circ_store :: "'a list \<Rightarrow> nat \<Rightarrow> 'a list \<Rightarrow> 'a list" where
  "circ_store b p xs =
     (let n1 = min (length xs) (length b - p) in blit (blit b p (take n1 xs)) 0 (drop n1 xs))"

lemma length_circ [simp]: "length (circ b p n) = n"
  by (simp add: circ_def)

lemma nth_circ [simp]: "i < n \<Longrightarrow> circ b p n ! i = b ! ((p + i) mod length b)"
  by (simp add: circ_def)

lemma circ_0 [simp]: "circ b p 0 = []"
  by (simp add: circ_def)

lemma take_circ: "n \<le> m \<Longrightarrow> take n (circ b p m) = circ b p n"
  by (rule nth_equalityI) simp_all

lemma drop_circ: "drop n (circ b p m) = circ b ((p + n) mod length b) (m - n)"
  by (rule nth_equalityI) (simp_all add: mod_add_left_eq add.assoc)

lemma circ_append: "circ b p (m + n) = circ b p m @ circ b ((p + m) mod length b) n"
proof -
  have "circ b p (m + n) = take m (circ b p (m + n)) @ drop m (circ b p (m + n))"
    by simp
  then show ?thesis by (simp only: take_circ drop_circ le_add1 diff_add_inverse)
qed

text \<open>A circular region is a piece up to the end of the block and one from its start.\<close>

lemma mod_wrap:
  fixes k len :: nat
  assumes "k < 2 * len"
  shows "k mod len = (if k < len then k else k - len)"
  using assms by (auto simp: le_mod_geq)

lemma circ_parts:
  assumes "p < length b" and "n \<le> length b"
  shows "circ b p n = take (min n (length b - p)) (drop p b) @ take (n - (length b - p)) b"
proof (rule nth_equalityI)
  show "length (circ b p n) =
      length (take (min n (length b - p)) (drop p b) @ take (n - (length b - p)) b)"
    using assms by simp
next
  fix i assume "i < length (circ b p n)"
  then have "i < n" by simp
  moreover have "(p + i) mod length b = (if p + i < length b then p + i else p + i - length b)"
    using assms \<open>i < n\<close> by (intro mod_wrap) linarith
  ultimately show "circ b p n ! i =
      (take (min n (length b - p)) (drop p b) @ take (n - (length b - p)) b) ! i"
    using assms by (auto simp: nth_append add.commute)
qed

lemma length_circ_store [simp]:
  "p < length b \<Longrightarrow> length xs \<le> length b \<Longrightarrow> length (circ_store b p xs) = length b"
  by (simp add: circ_store_def Let_def)

lemma nth_circ_store:
  assumes p: "p < length b" and xs: "length xs \<le> length b" and i: "i < length b"
  shows "circ_store b p xs ! ((p + i) mod length b) =
     (if i < length xs then xs ! i else b ! ((p + i) mod length b))"
proof -
  let ?len = "length b" and ?n1 = "min (length xs) (length b - p)"
  let ?j = "(p + i) mod ?len"
  have j: "?j = (if p + i < ?len then p + i else p + i - ?len)"
    using p i by (intro mod_wrap) linarith
  have jl: "?j < ?len" using p by (intro mod_less_divisor) linarith
  show ?thesis
  proof (cases "length xs \<le> ?len - p")
    case True
    then have "circ_store b p xs = blit b p xs"
      by (simp add: circ_store_def Let_def)
    then show ?thesis
      using True p i j jl by (auto simp: nth_blit)
  next
    case False
    let ?b1 = "blit b p (take (?len - p) xs)"
    have cs: "circ_store b p xs = blit ?b1 0 (drop (?len - p) xs)"
      using False by (simp add: circ_store_def Let_def min_def)
    have b1: "length ?b1 = ?len" using p False by simp
    have "circ_store b p xs ! ?j =
        (if ?j < length xs - (?len - p) then xs ! (?len - p + ?j) else ?b1 ! ?j)"
      unfolding cs using xs p False jl b1 by (subst nth_blit) auto
    also have "?b1 ! ?j = (if p \<le> ?j then xs ! (?j - p) else b ! ?j)"
      using p False jl by (subst nth_blit) auto
    finally show ?thesis using p i j xs False by auto
  qed
qed

text \<open>Storing after the \<open>m\<close> bytes that start at \<open>p\<close> keeps them, and appends the new ones.\<close>

lemma circ_store_extend:
  assumes p: "p < length b" and fits: "m + length xs \<le> length b"
    and w: "w = (p + m) mod length b"
  shows "circ (circ_store b w xs) p (m + length xs) = circ b p m @ xs"
proof -
  let ?len = "length b"
  have lenp: "0 < ?len" using p by linarith
  have wl: "w < ?len" using lenp w by simp
  have xl: "length xs \<le> ?len" using fits by simp
  have len: "length (circ_store b w xs) = ?len" using wl xl by simp
  have first: "circ_store b w xs ! ((p + i) mod ?len) = b ! ((p + i) mod ?len)" if "i < m" for i
  proof -
    have "(w + (?len - m + i)) mod ?len = (p + m + (?len - m + i)) mod ?len"
      by (simp add: w mod_add_left_eq)
    also have "p + m + (?len - m + i) = p + i + ?len" using fits that by simp
    finally have eq: "(w + (?len - m + i)) mod ?len = (p + i) mod ?len" by simp
    have "circ_store b w xs ! ((w + (?len - m + i)) mod ?len) =
        (if ?len - m + i < length xs then xs ! (?len - m + i)
         else b ! ((w + (?len - m + i)) mod ?len))"
      using fits that by (intro nth_circ_store wl xl) linarith
    moreover have "\<not> ?len - m + i < length xs" using fits by linarith
    ultimately show ?thesis using eq by (simp only: if_False)
  qed
  have second: "circ_store b w xs ! ((p + (m + i)) mod ?len) = xs ! i" if "i < length xs" for i
  proof -
    have "(w + i) mod ?len = (p + (m + i)) mod ?len"
      by (simp add: w mod_add_left_eq add.assoc)
    moreover have "circ_store b w xs ! ((w + i) mod ?len) = xs ! i"
      using nth_circ_store [OF wl xl, of i] xl that by simp
    ultimately show ?thesis by simp
  qed
  show ?thesis
  proof (rule nth_equalityI)
    fix i assume "i < length (circ (circ_store b w xs) p (m + length xs))"
    then have i: "i < m + length xs" by simp
    show "circ (circ_store b w xs) p (m + length xs) ! i = (circ b p m @ xs) ! i"
    proof (cases "i < m")
      case True
      then show ?thesis using i len first by (simp add: nth_append)
    next
      case False
      then have "i = m + (i - m)" "i - m < length xs" using i by auto
      then show ?thesis using i len second [of "i - m"] False by (simp add: nth_append)
    qed
  qed simp
qed


section \<open>The invariant and the abstraction\<close>

definition rb_ok :: "ringbuffer \<Rightarrow> bool" where
  "rb_ok rb \<longleftrightarrow> 0 < rb_size rb \<and> rb_size rb < 2 ^ 63 \<and> length (rb_buf rb) = rb_size rb \<and>
     write_ptr rb < rb_size rb \<and> read_ptr rb < rb_size rb"

definition rb_fill :: "ringbuffer \<Rightarrow> nat" where
  "rb_fill rb = (if read_ptr rb \<le> write_ptr rb then write_ptr rb - read_ptr rb
     else write_ptr rb + rb_size rb - read_ptr rb)"

definition rb_free :: "ringbuffer \<Rightarrow> nat" where
  "rb_free rb = rb_size rb - 1 - rb_fill rb"

definition rb_abs :: "ringbuffer \<Rightarrow> byte list" where
  "rb_abs rb = circ (rb_buf rb) (read_ptr rb) (rb_fill rb)"

lemma length_rb_abs [simp]: "length (rb_abs rb) = rb_fill rb"
  by (simp add: rb_abs_def)

lemma rb_fill_less: "rb_ok rb \<Longrightarrow> rb_fill rb < rb_size rb"
  by (auto simp: rb_ok_def rb_fill_def)

lemma rb_write_ptr: "rb_ok rb \<Longrightarrow> write_ptr rb = (read_ptr rb + rb_fill rb) mod rb_size rb"
  by (auto simp: rb_ok_def rb_fill_def)

lemma read_space_ok: "rb_ok rb \<Longrightarrow> ringbuffer_read_space rb = Some (rb_fill rb)"
proof -
  assume ok: "rb_ok rb"
  show ?thesis
  proof (cases "write_ptr rb > read_ptr rb")
    case True
    then show ?thesis
      using ok by (simp add: ringbuffer_read_space_def Let_def rb_ok_def rb_fill_def wrap)
  next
    case False
    then have le: "write_ptr rb \<le> read_ptr rb" by simp
    have "uadd (usub (write_ptr rb) (read_ptr rb)) (rb_size rb)
        = write_ptr rb + rb_size rb - read_ptr rb"
      using ok le by (intro usub_wrap_add) (auto simp: rb_ok_def)
    then show ?thesis
      using ok le by (auto simp: ringbuffer_read_space_def Let_def rb_ok_def rb_fill_def)
  qed
qed

lemma write_space_ok: "rb_ok rb \<Longrightarrow> ringbuffer_write_space rb = Some (rb_free rb)"
proof -
  assume ok: "rb_ok rb"
  have le: "rb_size rb < 2 ^ 64" using ok by (simp add: rb_ok_def)
  consider "write_ptr rb > read_ptr rb" | "write_ptr rb < read_ptr rb"
    | "write_ptr rb = read_ptr rb" by linarith
  then show ?thesis
  proof cases
    case 1
    have "uadd (usub (read_ptr rb) (write_ptr rb)) (rb_size rb)
        = read_ptr rb + rb_size rb - write_ptr rb"
      using ok 1 le by (intro usub_wrap_add) (auto simp: rb_ok_def)
    then show ?thesis
      using ok 1 le
      by (auto simp: ringbuffer_write_space_def Let_def rb_ok_def rb_fill_def rb_free_def wrap)
  next
    case 2
    then show ?thesis
      using ok le
      by (auto simp: ringbuffer_write_space_def Let_def rb_ok_def rb_fill_def rb_free_def wrap)
  next
    case 3
    then show ?thesis
      using ok le
      by (auto simp: ringbuffer_write_space_def Let_def rb_ok_def rb_fill_def rb_free_def wrap)
  qed
qed


section \<open>Refinement of the transfers\<close>

lemma rb_split_ok:
  assumes "p < sz" and "n < sz" and "sz < 2 ^ 63"
  shows "rb_split p n sz = Some (min n (sz - p), n - (sz - p))"
proof -
  have "uadd p n = p + n" using assms by (intro uadd_small) simp
  moreover have "(p + n) mod sz = p + n - sz" if "p + n > sz"
    using that assms by (simp add: le_mod_geq)
  ultimately show ?thesis
    using assms by (auto simp: rb_split_def Let_def wrap)
qed

text \<open>The pointer after the two steps of a transfer is the one after a single step.\<close>

lemma two_steps:
  assumes p: "p < sz" and n: "n < sz" and sz: "sz < 2 ^ 63"
  defines "n1 \<equiv> min n (sz - p)" and "n2 \<equiv> n - (sz - p)"
  shows "umod (uadd p n1) sz = Some ((p + n1) mod sz)"
    and "n2 \<noteq> 0 \<Longrightarrow> (p + n1) mod sz = 0"
    and "n2 \<noteq> 0 \<Longrightarrow> umod (uadd 0 n2) sz = Some ((p + n) mod sz)"
    and "n2 = 0 \<Longrightarrow> n1 = n"
proof -
  have "uadd p n1 = p + n1" using p n sz by (intro uadd_small) (auto simp: n1_def)
  then show "umod (uadd p n1) sz = Some ((p + n1) mod sz)" using p by simp
  show "(p + n1) mod sz = 0" if "n2 \<noteq> 0" using that p by (simp add: n1_def n2_def min_def)
  show "umod (uadd 0 n2) sz = Some ((p + n) mod sz)" if "n2 \<noteq> 0"
  proof -
    have "n2 < sz" using n by (simp add: n2_def)
    moreover have "p + n = sz + n2" using that p by (simp add: n2_def)
    ultimately have "(p + n) mod sz = n2" by simp
    with \<open>n2 < sz\<close> sz show ?thesis by (simp add: uadd_small)
  qed
  show "n1 = n" if "n2 = 0" using that by (simp add: n1_def n2_def)
qed

text \<open>Both halves of a copy out of the ring amount to one circular region.\<close>

lemma load_circ:
  assumes p: "p < length b" and n: "n < length b" and d: "n \<le> length dest"
  defines "n1 \<equiv> min n (length b - p)" and "n2 \<equiv> n - (length b - p)"
  shows "mem_load b p n1 = Some (take n1 (drop p b))"
    and "mem_store dest 0 (take n1 (drop p b)) = Some (blit dest 0 (take n1 (drop p b)))"
    and "mem_load b 0 n2 = Some (take n2 b)"
    and "n2 = 0 \<Longrightarrow> blit dest 0 (take n1 (drop p b)) = blit dest 0 (circ b p n)"
    and "n2 \<noteq> 0 \<Longrightarrow> mem_store (blit dest 0 (take n1 (drop p b))) n1 (take n2 b)
      = Some (blit dest 0 (circ b p n))"
proof -
  have parts: "circ b p n = take n1 (drop p b) @ take n2 b"
    using circ_parts [OF p, of n] n by (simp add: n1_def n2_def)
  have l1: "length (take n1 (drop p b)) = n1" and l2: "length (take n2 b) = n2"
    using p n by (auto simp: n1_def n2_def)
  have sum: "n1 + n2 = n" using p by (simp add: n1_def n2_def)
  show "mem_load b p n1 = Some (take n1 (drop p b))"
    using p by (intro mem_load_Some) (simp add: n1_def)
  show "mem_store dest 0 (take n1 (drop p b)) = Some (blit dest 0 (take n1 (drop p b)))"
    using l1 d sum by (intro mem_store_Some) simp
  show "mem_load b 0 n2 = Some (take n2 b)"
    using n by (simp add: mem_load_def n2_def)
  show "blit dest 0 (take n1 (drop p b)) = blit dest 0 (circ b p n)" if "n2 = 0"
    using that parts by simp
  show "mem_store (blit dest 0 (take n1 (drop p b))) n1 (take n2 b)
      = Some (blit dest 0 (circ b p n))" if "n2 \<noteq> 0"
  proof -
    have "blit (blit dest 0 (take n1 (drop p b))) n1 (take n2 b) = blit dest 0 (circ b p n)"
      using blit_append [of 0 "take n1 (drop p b)" "take n2 b" dest] l1 l2 sum d parts by simp
    moreover have "length (blit dest 0 (take n1 (drop p b))) = length dest"
      using l1 d sum by (intro length_blit) simp
    ultimately show ?thesis using l2 sum d by (simp add: mem_store_def)
  qed
qed

lemma ringbuffer_read_ok:
  assumes ok: "rb_ok rb" and n: "n = min cnt (rb_fill rb)" and d: "n \<le> length dest"
  shows "ringbuffer_read rb dest cnt =
    Some (rb\<lparr>read_ptr := (read_ptr rb + n) mod rb_size rb\<rparr>, blit dest 0 (take n (rb_abs rb)), n)"
proof (cases "rb_fill rb = 0")
  case True
  then show ?thesis
    using ok n by (simp add: ringbuffer_read_def read_space_ok rb_ok_def)
next
  case False
  let ?p = "read_ptr rb" and ?sz = "rb_size rb" and ?b = "rb_buf rb"
  let ?n1 = "min n (?sz - ?p)" and ?n2 = "n - (?sz - ?p)"
  have sz: "?p < ?sz" "?sz < 2 ^ 63" and lb: "length ?b = ?sz" using ok by (auto simp: rb_ok_def)
  have nsz: "n < ?sz" using rb_fill_less [OF ok] n by simp
  have abs: "take n (rb_abs rb) = circ ?b ?p n" using n by (simp add: rb_abs_def take_circ)
  note ld = load_circ [of ?p ?b n dest, unfolded lb, OF sz(1) nsz d]
  note st = two_steps [OF sz(1) nsz sz(2)]
  have to_read: "(if cnt > rb_fill rb then rb_fill rb else cnt) = n" using n by simp
  show ?thesis
  proof (cases "?n2 = 0")
    case True
    then have "?n1 = n" by simp
    with True ld st show ?thesis
      unfolding ringbuffer_read_def read_space_ok [OF ok] to_read abs
      using False by (simp add: to_read rb_split_ok [OF sz(1) nsz sz(2)])
  next
    case nz: False
    show ?thesis
      unfolding ringbuffer_read_def read_space_ok [OF ok] abs
      using False nz ld st(1) st(2,3) [OF nz]
      by (simp add: to_read rb_split_ok [OF sz(1) nsz sz(2)])
  qed
qed

lemma ringbuffer_peek_ok:
  assumes ok: "rb_ok rb" and n: "n = min cnt (rb_fill rb)" and d: "n \<le> length dest"
  shows "ringbuffer_peek rb dest cnt = Some (blit dest 0 (take n (rb_abs rb)), n)"
proof (cases "rb_fill rb = 0")
  case True
  then show ?thesis
    using ok n by (simp add: ringbuffer_peek_def read_space_ok)
next
  case False
  let ?p = "read_ptr rb" and ?sz = "rb_size rb" and ?b = "rb_buf rb"
  have sz: "?p < ?sz" "?sz < 2 ^ 63" and lb: "length ?b = ?sz" using ok by (auto simp: rb_ok_def)
  have nsz: "n < ?sz" using rb_fill_less [OF ok] n by simp
  have abs: "take n (rb_abs rb) = circ ?b ?p n" using n by (simp add: rb_abs_def take_circ)
  note ld = load_circ [of ?p ?b n dest, unfolded lb, OF sz(1) nsz d]
  note st = two_steps [OF sz(1) nsz sz(2)]
  have to_read: "(if cnt > rb_fill rb then rb_fill rb else cnt) = n" using n by simp
  show ?thesis
  proof (cases "n - (?sz - ?p) = 0")
    case True
    then have "min n (?sz - ?p) = n" by simp
    with True ld st show ?thesis
      unfolding ringbuffer_peek_def read_space_ok [OF ok] to_read abs
      using False by (simp add: to_read rb_split_ok [OF sz(1) nsz sz(2)])
  next
    case nz: False
    show ?thesis
      unfolding ringbuffer_peek_def read_space_ok [OF ok] abs
      using False nz ld st(1) st(2) [OF nz]
      by (simp add: to_read rb_split_ok [OF sz(1) nsz sz(2)])
  qed
qed

text \<open>Both halves of a copy into the ring amount to one circular store.\<close>

lemma store_circ:
  assumes p: "p < length b" and n: "n < length b" and src: "n \<le> length src"
  defines "n1 \<equiv> min n (length b - p)" and "n2 \<equiv> n - (length b - p)"
  shows "mem_load src 0 n1 = Some (take n1 src)"
    and "mem_store b p (take n1 src) = Some (blit b p (take n1 src))"
    and "mem_load src n1 n2 = Some (take n2 (drop n1 src))"
    and "n2 = 0 \<Longrightarrow> blit b p (take n1 src) = circ_store b p (take n src)"
    and "n2 \<noteq> 0 \<Longrightarrow> mem_store (blit b p (take n1 src)) 0 (take n2 (drop n1 src))
      = Some (circ_store b p (take n src))"
proof -
  have n1: "n1 \<le> length src" "p + n1 \<le> length b" using src p by (auto simp: n1_def)
  have sum: "n1 + n2 = n" using p by (simp add: n1_def n2_def)
  have lb1: "length (blit b p (take n1 src)) = length b"
    using n1 by (intro length_blit) simp
  have rest: "take n2 (drop n1 src) = drop n1 (take n src)"
    using sum by (simp add: drop_take) (metis add_diff_cancel_left')
  have cs: "circ_store b p (take n src) = blit (blit b p (take n1 src)) 0 (take n2 (drop n1 src))"
    using src n1 sum unfolding rest
    by (simp add: circ_store_def Let_def min_def n1_def)
  show "mem_load src 0 n1 = Some (take n1 src)"
    using n1 by (simp add: mem_load_def)
  show "mem_store b p (take n1 src) = Some (blit b p (take n1 src))"
    using n1 by (intro mem_store_Some) simp
  show "mem_load src n1 n2 = Some (take n2 (drop n1 src))"
    using src sum by (intro mem_load_Some) simp
  show "blit b p (take n1 src) = circ_store b p (take n src)" if "n2 = 0"
    using that cs by simp
  show "mem_store (blit b p (take n1 src)) 0 (take n2 (drop n1 src))
      = Some (circ_store b p (take n src))" if "n2 \<noteq> 0"
    unfolding cs using lb1 n by (intro mem_store_Some) (simp add: n2_def)
qed

lemma ringbuffer_write_ok:
  assumes ok: "rb_ok rb" and n: "n = min cnt (rb_free rb)" and src: "n \<le> length src"
  shows "ringbuffer_write rb src cnt =
    Some (rb\<lparr>rb_buf := circ_store (rb_buf rb) (write_ptr rb) (take n src),
             write_ptr := (write_ptr rb + n) mod rb_size rb\<rparr>, n)"
proof (cases "rb_free rb = 0")
  case True
  have "circ_store (rb_buf rb) (write_ptr rb) [] = rb_buf rb"
    by (simp add: circ_store_def Let_def)
  then show ?thesis
    using True ok n by (simp add: ringbuffer_write_def write_space_ok rb_ok_def)
next
  case False
  let ?p = "write_ptr rb" and ?sz = "rb_size rb" and ?b = "rb_buf rb"
  have sz: "?p < ?sz" "?sz < 2 ^ 63" and lb: "length ?b = ?sz" using ok by (auto simp: rb_ok_def)
  have nsz: "n < ?sz" using sz n by (simp add: rb_free_def)
  note ld = store_circ [of ?p ?b n src, unfolded lb, OF sz(1) nsz src]
  note st = two_steps [OF sz(1) nsz sz(2)]
  have to_write: "(if cnt > rb_free rb then rb_free rb else cnt) = n" using n by simp
  show ?thesis
  proof (cases "n - (?sz - ?p) = 0")
    case True
    then have "min n (?sz - ?p) = n" by simp
    with True ld st show ?thesis
      unfolding ringbuffer_write_def write_space_ok [OF ok] to_write
      using False by (simp add: to_write rb_split_ok [OF sz(1) nsz sz(2)])
  next
    case nz: False
    show ?thesis
      unfolding ringbuffer_write_def write_space_ok [OF ok]
      using False nz ld st(1) st(2,3) [OF nz]
      by (simp add: to_write rb_split_ok [OF sz(1) nsz sz(2)])
  qed
qed


section \<open>What the transfers do to the contents\<close>

lemma rb_fill_advance_read:
  assumes ok: "rb_ok rb" and n: "n \<le> rb_fill rb"
  shows "rb_fill (rb\<lparr>read_ptr := (read_ptr rb + n) mod rb_size rb\<rparr>) = rb_fill rb - n"
proof -
  have "(read_ptr rb + n) mod rb_size rb =
      (if read_ptr rb + n < rb_size rb then read_ptr rb + n else read_ptr rb + n - rb_size rb)"
    using ok rb_fill_less [OF ok] n by (intro mod_wrap) (simp add: rb_ok_def)
  then show ?thesis using ok n by (auto simp: rb_ok_def rb_fill_def split: if_splits)
qed

lemma rb_fill_advance_write:
  assumes ok: "rb_ok rb" and n: "n \<le> rb_free rb"
  shows "rb_fill (rb\<lparr>write_ptr := (write_ptr rb + n) mod rb_size rb\<rparr>) = rb_fill rb + n"
proof -
  have "(write_ptr rb + n) mod rb_size rb =
      (if write_ptr rb + n < rb_size rb then write_ptr rb + n else write_ptr rb + n - rb_size rb)"
    using ok n by (intro mod_wrap) (auto simp: rb_ok_def rb_free_def)
  then show ?thesis
    using ok n by (auto simp: rb_ok_def rb_fill_def rb_free_def split: if_splits)
qed

lemma rb_ok_advance_read:
  "rb_ok rb \<Longrightarrow> rb_ok (rb\<lparr>read_ptr := (read_ptr rb + n) mod rb_size rb\<rparr>)"
  by (simp add: rb_ok_def)

lemma rb_abs_advance_read:
  assumes ok: "rb_ok rb" and n: "n \<le> rb_fill rb"
  shows "rb_abs (rb\<lparr>read_ptr := (read_ptr rb + n) mod rb_size rb\<rparr>) = drop n (rb_abs rb)"
  using rb_fill_advance_read [OF ok n] ok by (simp add: rb_abs_def drop_circ rb_ok_def)

lemma rb_store_ok:
  assumes ok: "rb_ok rb" and n: "length xs \<le> rb_free rb"
  defines "rb' \<equiv> rb\<lparr>rb_buf := circ_store (rb_buf rb) (write_ptr rb) xs,
      write_ptr := (write_ptr rb + length xs) mod rb_size rb\<rparr>"
  shows "rb_ok rb'" and "rb_abs rb' = rb_abs rb @ xs" and "rb_fill rb' = rb_fill rb + length xs"
proof -
  have lxs: "length xs \<le> length (rb_buf rb)" using ok n by (simp add: rb_ok_def rb_free_def)
  then have lcs: "length (circ_store (rb_buf rb) (write_ptr rb) xs) = rb_size rb"
    using ok by (simp add: rb_ok_def)
  then show "rb_ok rb'" using ok by (simp add: rb'_def rb_ok_def)
  have "rb_fill rb' = rb_fill (rb\<lparr>write_ptr := (write_ptr rb + length xs) mod rb_size rb\<rparr>)"
    unfolding rb'_def rb_fill_def by simp
  then show fill: "rb_fill rb' = rb_fill rb + length xs"
    using rb_fill_advance_write [OF ok n] by simp
  have "circ (circ_store (rb_buf rb) (write_ptr rb) xs) (read_ptr rb) (rb_fill rb + length xs)
      = circ (rb_buf rb) (read_ptr rb) (rb_fill rb) @ xs"
    using ok n rb_write_ptr [OF ok] rb_fill_less [OF ok]
    by (intro circ_store_extend) (auto simp: rb_ok_def rb_free_def)
  then show "rb_abs rb' = rb_abs rb @ xs"
    using fill by (simp add: rb_abs_def rb'_def)
qed


section \<open>The ring provides the queue contract\<close>

definition rb_cap :: "ringbuffer \<Rightarrow> nat" where
  "rb_cap rb = rb_size rb - 1"

interpretation ring: byte_fifo rb_ok rb_abs rb_cap ringbuffer_read_space ringbuffer_write_space
  ringbuffer_write ringbuffer_read
proof unfold_locales
  fix rb assume ok: "rb_ok rb"
  show "length (rb_abs rb) \<le> rb_cap rb"
    using rb_fill_less [OF ok] by (simp add: rb_cap_def)
  show "ringbuffer_read_space rb = Some (length (rb_abs rb))"
    by (simp add: read_space_ok [OF ok])
  show "ringbuffer_write_space rb = Some (rb_cap rb - length (rb_abs rb))"
    by (simp add: write_space_ok [OF ok] rb_cap_def rb_free_def)
next
  fix rb cnt n and src :: "byte list"
  assume ok: "rb_ok rb" and "cnt \<le> length src" and "n = min cnt (rb_cap rb - length (rb_abs rb))"
  then have n: "n = min cnt (rb_free rb)" and src: "n \<le> length src"
    by (auto simp: rb_cap_def rb_free_def)
  have len: "length (take n src) = n" using src by simp
  then have fits: "length (take n src) \<le> rb_free rb" using n by simp
  show "\<exists>rb'. ringbuffer_write rb src cnt = Some (rb', n) \<and> rb_ok rb' \<and> rb_cap rb' = rb_cap rb \<and>
      rb_abs rb' = rb_abs rb @ take n src"
    using ringbuffer_write_ok [OF ok n src] rb_store_ok [OF ok fits] len
    by (simp add: rb_cap_def)
next
  fix rb cnt n and dest :: "byte list"
  assume ok: "rb_ok rb" and "cnt \<le> length dest" and "n = min cnt (length (rb_abs rb))"
  then have n: "n = min cnt (rb_fill rb)" and d: "n \<le> length dest" by auto
  show "\<exists>rb'. ringbuffer_read rb dest cnt = Some (rb', blit dest 0 (take n (rb_abs rb)), n) \<and>
      rb_ok rb' \<and> rb_cap rb' = rb_cap rb \<and> rb_abs rb' = drop n (rb_abs rb)"
    using ringbuffer_read_ok [OF ok n d] rb_ok_advance_read [OF ok] rb_abs_advance_read [OF ok] n
    by (simp add: rb_cap_def)
qed


section \<open>Creation, reset and advance\<close>

lemma ringbuffer_create_ok:
  assumes "ringbuffer_create True (Some b) sz = Some rb"
    and "length b = sz" and "0 < sz" and "sz < 2 ^ 63"
  shows "rb_ok rb" and "rb_abs rb = []" and "rb_cap rb = sz - 1"
  using assms by (auto simp: ringbuffer_create_def rb_ok_def rb_abs_def rb_fill_def rb_cap_def)

lemma ringbuffer_reset_ok:
  assumes "rb_ok rb"
  shows "rb_ok (ringbuffer_reset rb)" and "rb_abs (ringbuffer_reset rb) = []"
    and "rb_cap (ringbuffer_reset rb) = rb_cap rb"
  using assms by (auto simp: ringbuffer_reset_def rb_ok_def rb_abs_def rb_fill_def rb_cap_def)

lemma ringbuffer_read_advance_ok:
  assumes ok: "rb_ok rb" and n: "n \<le> rb_fill rb"
  shows "\<exists>rb'. ringbuffer_read_advance rb n = Some rb' \<and> rb_ok rb' \<and> rb_abs rb' = drop n (rb_abs rb)"
proof -
  have "uadd (read_ptr rb) n = read_ptr rb + n"
    using ok rb_fill_less [OF ok] n by (intro uadd_small) (simp add: rb_ok_def)
  then show ?thesis
    using ok rb_ok_advance_read [OF ok] rb_abs_advance_read [OF ok n]
    by (simp add: ringbuffer_read_advance_def rb_ok_def)
qed

text \<open>
  The write vector and \<open>ringbuffer_write_advance\<close> together write: storing through the vector
  leaves the readable bytes alone, and advancing publishes the stored ones.
\<close>

lemma ringbuffer_write_advance_ok:
  assumes ok: "rb_ok rb" and n: "length xs \<le> rb_free rb"
  shows "ringbuffer_write_advance (rb\<lparr>rb_buf := circ_store (rb_buf rb) (write_ptr rb) xs\<rparr>) (length xs)
    = map_option fst (ringbuffer_write rb xs (length xs))"
proof -
  have "uadd (write_ptr rb) (length xs) = write_ptr rb + length xs"
    using ok n by (intro uadd_small) (auto simp: rb_ok_def rb_free_def)
  then show ?thesis
    using ok n ringbuffer_write_ok [OF ok, of "length xs" "length xs" xs]
    by (simp add: ringbuffer_write_advance_def rb_ok_def min_def)
qed

text \<open>The bytes a vector describes, in the order a client walks them.\<close>

definition vec_bytes :: "byte list \<Rightarrow> ringbuffer_data \<Rightarrow> byte list" where
  "vec_bytes b v = (case rd_off v of None \<Rightarrow> [] | Some i \<Rightarrow> take (rd_len v) (drop i b))"

lemma ringbuffer_get_read_vector_ok:
  assumes ok: "rb_ok rb"
  shows "\<exists>v1 v2. ringbuffer_get_read_vector rb = Some (v1, v2) \<and>
    vec_bytes (rb_buf rb) v1 @ vec_bytes (rb_buf rb) v2 = rb_abs rb \<and>
    rd_len v1 + rd_len v2 = rb_fill rb"
proof -
  let ?p = "read_ptr rb" and ?sz = "rb_size rb" and ?b = "rb_buf rb" and ?n = "rb_fill rb"
  have sz: "?p < ?sz" "?sz < 2 ^ 63" and lb: "length ?b = ?sz" using ok by (auto simp: rb_ok_def)
  have n: "?n < ?sz" by (rule rb_fill_less [OF ok])
  have fc: "(if write_ptr rb > ?p then Some (usub (write_ptr rb) ?p)
      else umod (uadd (usub (write_ptr rb) ?p) ?sz) ?sz) = Some ?n"
    using read_space_ok [OF ok] by (simp add: ringbuffer_read_space_def Let_def)
  have cnt2: "uadd ?p ?n = ?p + ?n" using sz n by (intro uadd_small) simp
  have parts: "rb_abs rb = take (min ?n (?sz - ?p)) (drop ?p ?b) @ take (?n - (?sz - ?p)) ?b"
    unfolding rb_abs_def using circ_parts [of ?p ?b ?n] sz n lb by simp
  show ?thesis
  proof (cases "?p + ?n > ?sz")
    case True
    have "(?p + ?n) mod ?sz = ?n - (?sz - ?p)" using True sz n by (simp add: le_mod_geq)
    then show ?thesis
      using True sz n lb parts
      by (simp add: ringbuffer_get_read_vector_def Let_def fc cnt2 vec_bytes_def wrap min_def)
  next
    case False
    then show ?thesis
      using sz n lb parts
      by (simp add: ringbuffer_get_read_vector_def Let_def fc cnt2 vec_bytes_def min_def)
  qed
qed

lemma ringbuffer_get_write_vector_ok:
  assumes ok: "rb_ok rb"
  shows "\<exists>v1 v2. ringbuffer_get_write_vector rb = Some (v1, v2) \<and>
    rd_off v1 = Some (write_ptr rb) \<and> rd_len v1 = min (rb_free rb) (rb_size rb - write_ptr rb) \<and>
    rd_len v2 = rb_free rb - rd_len v1 \<and> (0 < rd_len v2 \<longrightarrow> rd_off v2 = Some 0)"
proof -
  let ?p = "write_ptr rb" and ?r = "read_ptr rb" and ?sz = "rb_size rb" and ?n = "rb_free rb"
  have sz: "?p < ?sz" "?sz < 2 ^ 63" using ok by (auto simp: rb_ok_def)
  have n: "?n < ?sz" using sz by (simp add: rb_free_def)
  have fc: "(if ?p > ?r then map_option (\<lambda>x. usub x 1) (umod (uadd (usub ?r ?p) ?sz) ?sz)
      else if ?p < ?r then Some (usub (usub ?r ?p) 1) else Some (usub ?sz 1)) = Some ?n"
    using write_space_ok [OF ok] by (simp add: ringbuffer_write_space_def Let_def)
  have cnt2: "uadd ?p ?n = ?p + ?n" using sz n by (intro uadd_small) simp
  show ?thesis
  proof (cases "?p + ?n > ?sz")
    case True
    have "(?p + ?n) mod ?sz = ?n - (?sz - ?p)" using True sz n by (simp add: le_mod_geq)
    then show ?thesis
      using True sz n by (simp add: ringbuffer_get_write_vector_def Let_def fc cnt2 wrap min_def)
  next
    case False
    then show ?thesis
      using sz n by (auto simp: ringbuffer_get_write_vector_def Let_def fc cnt2 min_def)
  qed
qed

lemma ringbuffer_reset_size_ok:
  assumes ok: "rb_ok rb" and sz: "sz = length zeros"
  shows "\<exists>rb'. ringbuffer_reset_size rb zeros sz = Some rb' \<and> rb_ok rb' \<and> rb_abs rb' = [] \<and>
    rb_cap rb' = rb_cap rb \<and>
    take (min sz (rb_cap rb)) (rb_buf rb') = take (min sz (rb_cap rb)) zeros"
proof -
  let ?rb = "rb\<lparr>read_ptr := 0, write_ptr := 0\<rparr>" and ?n = "min sz (rb_cap rb)"
  have ok0: "rb_ok ?rb" using ok by (simp add: rb_ok_def)
  have free: "rb_free ?rb = rb_cap rb" by (simp add: rb_free_def rb_fill_def rb_cap_def)
  have w: "ringbuffer_write ?rb zeros sz = Some (?rb\<lparr>rb_buf := circ_store (rb_buf rb) 0 (take ?n zeros),
      write_ptr := ?n mod rb_size rb\<rparr>, ?n)"
    using ringbuffer_write_ok [OF ok0, of ?n sz zeros] free sz by simp
  have n: "?n \<le> rb_size rb" by (simp add: rb_cap_def)
  have lb: "length (rb_buf rb) = rb_size rb" using ok by (simp add: rb_ok_def)
  have st: "circ_store (rb_buf rb) 0 (take ?n zeros) = blit (rb_buf rb) 0 (take ?n zeros)"
    using n lb sz by (simp add: circ_store_def Let_def min.absorb1)
  have "take ?n (blit (rb_buf rb) 0 (take ?n zeros)) = take ?n zeros"
    using sz by (simp add: blit_def)
  moreover have "length (blit (rb_buf rb) 0 (take ?n zeros)) = rb_size rb"
    using n lb sz by (subst length_blit) auto
  ultimately show ?thesis
    using w st ok by (auto simp: ringbuffer_reset_size_def rb_ok_def rb_abs_def rb_fill_def rb_cap_def)
qed

section \<open>Properties\<close>

text \<open>
  C3: The ring is a first-in first-out queue of bytes. In any sequence of writes and reads on a
  well-formed ring, every call is defined, the ring stays well-formed, and the bytes delivered
  followed by the bytes still inside are the bytes that were inside followed by those accepted:
  nothing is lost, duplicated or reordered.
\<close>

theorem ring_fifo:
  assumes "rb_ok rb"
  shows "\<exists>rb' ins outs. fifo_run ringbuffer_write ringbuffer_read ops rb = Some (rb', ins, outs) \<and>
    rb_ok rb' \<and> rb_cap rb' = rb_cap rb \<and> outs @ rb_abs rb' = rb_abs rb @ ins"
  using assms by (rule ring.run_order)

definition ring_example :: ringbuffer where
  "ring_example = \<lparr>rb_buf = [1, 2, 3, 4], write_ptr = 1, read_ptr = 3, rb_size = 4, mlocked = 0\<rparr>"

lemma ring_example_ok: "rb_ok ring_example" "rb_abs ring_example = [4, 1]"
  by (simp_all add: ring_example_def rb_ok_def rb_abs_def rb_fill_def circ_def upt_rec)

theorem ring_fifo_witness:
  "\<exists>rb' ins outs. fifo_run ringbuffer_write ringbuffer_read [Put [9, 8], Get 3, Put [7]] ring_example =
      Some (rb', ins, outs) \<and> rb_ok rb' \<and> rb_cap rb' = rb_cap ring_example \<and>
      outs @ rb_abs rb' = rb_abs ring_example @ ins"
  by (rule ring_fifo [OF ring_example_ok(1)])

text \<open>
  What one write and one read do: a write of \<open>cnt\<close> bytes accepts as many as there is room for
  (the size less one less the fill) and appends them; a read of \<open>cnt\<close> bytes delivers as many as are
  there, in order, at the start of the destination, and removes them. Counts are reported exactly.
\<close>

theorem ring_write_read_effect:
  assumes "rb_ok rb" and "cnt \<le> length src" and "cnt' \<le> length dest"
  shows "(\<exists>rb'. ringbuffer_write rb src cnt = Some (rb', min cnt (rb_size rb - 1 - rb_fill rb)) \<and>
      rb_ok rb' \<and> rb_abs rb' = rb_abs rb @ take (min cnt (rb_size rb - 1 - rb_fill rb)) src) \<and>
    (\<exists>rb'. ringbuffer_read rb dest cnt' =
        Some (rb', blit dest 0 (take cnt' (rb_abs rb)), min cnt' (rb_fill rb)) \<and>
      rb_ok rb' \<and> rb_abs rb' = drop cnt' (rb_abs rb))"
proof
  show "\<exists>rb'. ringbuffer_write rb src cnt = Some (rb', min cnt (rb_size rb - 1 - rb_fill rb)) \<and>
      rb_ok rb' \<and> rb_abs rb' = rb_abs rb @ take (min cnt (rb_size rb - 1 - rb_fill rb)) src"
    using ring.push_law [OF assms(1,2) refl] by (auto simp: rb_cap_def)
  have t: "take (min cnt' (rb_fill rb)) (rb_abs rb) = take cnt' (rb_abs rb)"
      "drop (min cnt' (rb_fill rb)) (rb_abs rb) = drop cnt' (rb_abs rb)"
    by (auto simp: min_def)
  show "\<exists>rb'. ringbuffer_read rb dest cnt' =
        Some (rb', blit dest 0 (take cnt' (rb_abs rb)), min cnt' (rb_fill rb)) \<and>
      rb_ok rb' \<and> rb_abs rb' = drop cnt' (rb_abs rb)"
    using ring.pull_law [OF assms(1,3) refl] t by auto
qed

theorem ring_write_read_effect_witness:
  "(\<exists>rb'. ringbuffer_write ring_example [5, 6] 2 =
        Some (rb', min 2 (rb_size ring_example - 1 - rb_fill ring_example)) \<and> rb_ok rb' \<and>
      rb_abs rb' = rb_abs ring_example @ take (min 2 (rb_size ring_example - 1 - rb_fill ring_example)) [5, 6]) \<and>
    (\<exists>rb'. ringbuffer_read ring_example [0, 0, 0] 3 =
        Some (rb', blit [0, 0, 0] 0 (take 3 (rb_abs ring_example)), min 3 (rb_fill ring_example)) \<and>
      rb_ok rb' \<and> rb_abs rb' = drop 3 (rb_abs ring_example))"
  by (rule ring_write_read_effect [OF ring_example_ok(1)]) simp_all

text \<open>
  \<open>ringbuffer_peek\<close> delivers exactly what \<open>ringbuffer_read\<close> would, with the same count, and
  the read vector describes exactly the bytes that are in the ring.
\<close>

theorem peek_and_vector_agree:
  assumes "rb_ok rb" and "cnt \<le> length dest"
  shows "ringbuffer_peek rb dest cnt = map_option snd (ringbuffer_read rb dest cnt) \<and>
    (\<exists>v1 v2. ringbuffer_get_read_vector rb = Some (v1, v2) \<and>
      vec_bytes (rb_buf rb) v1 @ vec_bytes (rb_buf rb) v2 = rb_abs rb)"
  using ringbuffer_peek_ok [OF assms(1) refl, of cnt dest] ringbuffer_read_ok [OF assms(1) refl, of cnt dest]
    ringbuffer_get_read_vector_ok [OF assms(1)] assms(2) by auto

theorem peek_and_vector_agree_witness:
  "ringbuffer_peek ring_example [0, 0] 2 = map_option snd (ringbuffer_read ring_example [0, 0] 2) \<and>
    (\<exists>v1 v2. ringbuffer_get_read_vector ring_example = Some (v1, v2) \<and>
      vec_bytes (rb_buf ring_example) v1 @ vec_bytes (rb_buf ring_example) v2 = rb_abs ring_example)"
  by (rule peek_and_vector_agree [OF ring_example_ok(1)]) simp

text \<open>
  The zero-copy way of writing (store through the write vector, then \<open>ringbuffer_write_advance\<close>)
  is equivalent to \<open>ringbuffer_write\<close>, and \<open>ringbuffer_read_advance\<close> drops bytes like a read.
\<close>

theorem advance_equivalence:
  assumes "rb_ok rb" and "length xs \<le> rb_free rb" and "n \<le> rb_fill rb"
  shows "ringbuffer_write_advance (rb\<lparr>rb_buf := circ_store (rb_buf rb) (write_ptr rb) xs\<rparr>) (length xs) =
      map_option fst (ringbuffer_write rb xs (length xs)) \<and>
    (\<exists>rb'. ringbuffer_read_advance rb n = Some rb' \<and> rb_ok rb' \<and> rb_abs rb' = drop n (rb_abs rb))"
  using ringbuffer_write_advance_ok [OF assms(1,2)] ringbuffer_read_advance_ok [OF assms(1,3)] by blast

theorem advance_equivalence_witness:
  "ringbuffer_write_advance (ring_example\<lparr>rb_buf := circ_store (rb_buf ring_example) (write_ptr ring_example) [6]\<rparr>)
      (length [6::byte]) = map_option fst (ringbuffer_write ring_example [6] (length [6::byte])) \<and>
    (\<exists>rb'. ringbuffer_read_advance ring_example 1 = Some rb' \<and> rb_ok rb' \<and>
      rb_abs rb' = drop 1 (rb_abs ring_example))"
  by (rule advance_equivalence [OF ring_example_ok(1)]) (simp_all add: ring_example_def rb_free_def rb_fill_def)

end
