(* ===== verification/Ringbuffer_Spsc.thy ===== *)
theory Ringbuffer_Spsc
  imports Ringbuffer
begin

text \<open>
  The concurrency claim of \<open>vban_common/ringbuffer.h\<close> (the file comment): one reader thread and
  one writer thread may use the ring at the same time without a lock.

  \<open>ringbuffer_write\<close> and \<open>ringbuffer_read\<close> are split into their shared-memory accesses: the
  call's load of the pointers, every single byte of a \<open>memcpy\<close>, and every store of a pointer is
  one step, and the steps of the two threads interleave in any order. Accesses to the two
  \<open>volatile\<close> pointers are taken in program order (sequential consistency).

  History variables, which the program does not have, record what the writer has published and
  what the reader has received and released.
\<close>

section \<open>States and steps\<close>

text \<open>
  A thread's program counter with its locals: \<open>W1 src n1 n2 k\<close> has stored \<open>k\<close> of the \<open>n1\<close> bytes
  before the end of the block, \<open>W2 src n2 k\<close> has stored \<open>k\<close> of the \<open>n2\<close> bytes at its start; the
  reader is alike, with the bytes it has copied so far in \<open>dst\<close>.
\<close>

datatype writer = WIdle | W1 "byte list" nat nat nat | W2 "byte list" nat nat
datatype reader = RIdle | R1 nat nat "byte list" | R2 nat "byte list"

record spsc =
  ring :: ringbuffer
  wpc :: writer
  rpc :: reader
  published :: "byte list"
  received :: "byte list"

text \<open>The size of the next transfer, as both functions compute it from the space they see.\<close>

definition clip :: "nat \<Rightarrow> nat \<Rightarrow> nat" where
  "clip cnt space = (if cnt > space then space else cnt)"

inductive spsc_step :: "spsc \<Rightarrow> spsc \<Rightarrow> bool" where
  w_call: "wpc s = WIdle \<Longrightarrow> cnt \<le> length src \<Longrightarrow>
     ringbuffer_write_space (ring s) = Some free \<Longrightarrow> free \<noteq> 0 \<Longrightarrow>
     rb_split (write_ptr (ring s)) (clip cnt free) (rb_size (ring s)) = Some (n1, n2) \<Longrightarrow>
     spsc_step s (s\<lparr>wpc := W1 src n1 n2 0\<rparr>)"
| w_copy1: "wpc s = W1 src n1 n2 k \<Longrightarrow> k < n1 \<Longrightarrow>
     spsc_step s (s\<lparr>ring := (ring s)\<lparr>rb_buf := (rb_buf (ring s))[write_ptr (ring s) + k := src ! k]\<rparr>,
       wpc := W1 src n1 n2 (Suc k)\<rparr>)"
| w_publish1: "wpc s = W1 src n1 n2 n1 \<Longrightarrow>
     umod (uadd (write_ptr (ring s)) n1) (rb_size (ring s)) = Some w \<Longrightarrow>
     spsc_step s (s\<lparr>ring := (ring s)\<lparr>write_ptr := w\<rparr>,
       wpc := (if n2 \<noteq> 0 then W2 (drop n1 src) n2 0 else WIdle),
       published := published s @ take n1 src\<rparr>)"
| w_copy2: "wpc s = W2 src n2 k \<Longrightarrow> k < n2 \<Longrightarrow>
     spsc_step s (s\<lparr>ring := (ring s)\<lparr>rb_buf := (rb_buf (ring s))[write_ptr (ring s) + k := src ! k]\<rparr>,
       wpc := W2 src n2 (Suc k)\<rparr>)"
| w_publish2: "wpc s = W2 src n2 n2 \<Longrightarrow>
     umod (uadd (write_ptr (ring s)) n2) (rb_size (ring s)) = Some w \<Longrightarrow>
     spsc_step s (s\<lparr>ring := (ring s)\<lparr>write_ptr := w\<rparr>, wpc := WIdle,
       published := published s @ take n2 src\<rparr>)"
| r_call: "rpc s = RIdle \<Longrightarrow>
     ringbuffer_read_space (ring s) = Some avail \<Longrightarrow> avail \<noteq> 0 \<Longrightarrow>
     rb_split (read_ptr (ring s)) (clip cnt avail) (rb_size (ring s)) = Some (n1, n2) \<Longrightarrow>
     spsc_step s (s\<lparr>rpc := R1 n1 n2 []\<rparr>)"
| r_copy1: "rpc s = R1 n1 n2 dst \<Longrightarrow> length dst < n1 \<Longrightarrow>
     spsc_step s (s\<lparr>rpc := R1 n1 n2 (dst @ [rb_buf (ring s) ! (read_ptr (ring s) + length dst)])\<rparr>)"
| r_release1: "rpc s = R1 n1 n2 dst \<Longrightarrow> length dst = n1 \<Longrightarrow>
     umod (uadd (read_ptr (ring s)) n1) (rb_size (ring s)) = Some r \<Longrightarrow>
     spsc_step s (s\<lparr>ring := (ring s)\<lparr>read_ptr := r\<rparr>,
       rpc := (if n2 \<noteq> 0 then R2 n2 [] else RIdle), received := received s @ dst\<rparr>)"
| r_copy2: "rpc s = R2 n2 dst \<Longrightarrow> length dst < n2 \<Longrightarrow>
     spsc_step s (s\<lparr>rpc := R2 n2 (dst @ [rb_buf (ring s) ! (read_ptr (ring s) + length dst)])\<rparr>)"
| r_release2: "rpc s = R2 n2 dst \<Longrightarrow> length dst = n2 \<Longrightarrow>
     umod (uadd (read_ptr (ring s)) n2) (rb_size (ring s)) = Some r \<Longrightarrow>
     spsc_step s (s\<lparr>ring := (ring s)\<lparr>read_ptr := r\<rparr>, rpc := RIdle, received := received s @ dst\<rparr>)"

definition spsc_init :: "ringbuffer \<Rightarrow> spsc" where
  "spsc_init rb = \<lparr>ring = rb, wpc = WIdle, rpc = RIdle, published = [], received = []\<rparr>"

inductive spsc_reach :: "ringbuffer \<Rightarrow> spsc \<Rightarrow> bool" for rb0 where
  spsc_start: "spsc_reach rb0 (spsc_init rb0)"
| spsc_next: "spsc_reach rb0 s \<Longrightarrow> spsc_step s t \<Longrightarrow> spsc_reach rb0 t"


section \<open>The invariant\<close>

text \<open>
  Position \<open>i\<close> of the published stream lives in cell \<open>i mod size\<close>. The live window runs from the
  number of released bytes to the number of published bytes and is shorter than the ring; a
  transfer in progress works on cells outside the other thread's part of the window.
\<close>

definition window_ok :: "spsc \<Rightarrow> bool" where
  "window_ok s \<longleftrightarrow>
     (let sz = rb_size (ring s); b = rb_buf (ring s); P = length (published s); C = length (received s) in
      0 < sz \<and> sz < 2 ^ 63 \<and> length b = sz \<and>
      write_ptr (ring s) = P mod sz \<and> read_ptr (ring s) = C mod sz \<and>
      C \<le> P \<and> P < C + sz \<and> received s = take C (published s) \<and>
      (\<forall>i. C \<le> i \<and> i < P \<longrightarrow> b ! (i mod sz) = published s ! i))"

fun writer_ok :: "spsc \<Rightarrow> writer \<Rightarrow> bool" where
  "writer_ok s WIdle = True"
| "writer_ok s (W1 src n1 n2 k) =
     (let sz = rb_size (ring s); P = length (published s) in
      k \<le> n1 \<and> n1 + n2 \<le> length src \<and> P + n1 + n2 < length (received s) + sz \<and>
      P mod sz + n1 \<le> sz \<and> (n2 \<noteq> 0 \<longrightarrow> P mod sz + n1 = sz) \<and>
      (\<forall>j<k. rb_buf (ring s) ! ((P + j) mod sz) = src ! j))"
| "writer_ok s (W2 src n2 k) =
     (let sz = rb_size (ring s); P = length (published s) in
      k \<le> n2 \<and> n2 \<le> length src \<and> P + n2 < length (received s) + sz \<and> P mod sz = 0 \<and>
      (\<forall>j<k. rb_buf (ring s) ! ((P + j) mod sz) = src ! j))"

fun reader_ok :: "spsc \<Rightarrow> reader \<Rightarrow> bool" where
  "reader_ok s RIdle = True"
| "reader_ok s (R1 n1 n2 dst) =
     (let sz = rb_size (ring s); C = length (received s) in
      length dst \<le> n1 \<and> C + n1 + n2 \<le> length (published s) \<and>
      C mod sz + n1 \<le> sz \<and> (n2 \<noteq> 0 \<longrightarrow> C mod sz + n1 = sz) \<and>
      dst = take (length dst) (drop C (published s)))"
| "reader_ok s (R2 n2 dst) =
     (let sz = rb_size (ring s); C = length (received s) in
      length dst \<le> n2 \<and> C + n2 \<le> length (published s) \<and> C mod sz = 0 \<and>
      dst = take (length dst) (drop C (published s)))"

definition spsc_inv :: "spsc \<Rightarrow> bool" where
  "spsc_inv s \<longleftrightarrow> window_ok s \<and> writer_ok s (wpc s) \<and> reader_ok s (rpc s)"


section \<open>Positions in the ring\<close>

text \<open>Two stream positions less than a ring apart live in different cells.\<close>

lemma mod_distinct:
  fixes a b n :: nat
  assumes "a < b" and "b < a + n"
  shows "a mod n \<noteq> b mod n"
proof
  assume "a mod n = b mod n"
  then have "n dvd b - a" using assms by (metis less_imp_le mod_eq_dvd_iff_nat)
  then show False using assms by (auto dest!: dvd_imp_le)
qed

lemma mod_add_no_wrap:
  fixes p n k :: nat
  assumes "p mod n + m \<le> n" and "k < m"
  shows "(p + k) mod n = p mod n + k"
  using assms by (metis add_less_mono1 add.commute mod_add_left_eq mod_less nat_add_left_cancel_less
      order_less_le_trans)

lemma next_ptr:
  assumes "0 < sz" and "sz < 2 ^ 63" and "p mod sz + n \<le> sz"
  shows "umod (uadd (p mod sz) n) sz = Some ((p + n) mod sz)"
proof -
  have "uadd (p mod sz) n = p mod sz + n" using assms by (intro uadd_small) simp
  then show ?thesis using assms by (simp add: mod_add_left_eq)
qed

lemma window_rb_ok:
  assumes "window_ok s"
  shows "rb_ok (ring s)" and "rb_fill (ring s) = length (published s) - length (received s)"
proof -
  let ?sz = "rb_size (ring s)" and ?P = "length (published s)" and ?C = "length (received s)"
  have w: "0 < ?sz" "write_ptr (ring s) = ?P mod ?sz" "read_ptr (ring s) = ?C mod ?sz"
      "?C \<le> ?P" "?P < ?C + ?sz"
    using assms by (auto simp: window_ok_def Let_def)
  then show ok: "rb_ok (ring s)" using assms by (auto simp: window_ok_def rb_ok_def Let_def)
  define d where "d = ?P - ?C"
  have d: "?P = ?C + d" "d < ?sz" using w by (auto simp: d_def)
  have "?P mod ?sz = (if ?C mod ?sz + d < ?sz then ?C mod ?sz + d else ?C mod ?sz + d - ?sz)"
    using d w by (metis add_less_mono mod_add_left_eq mod_less_divisor mod_wrap mult_2)
  then show "rb_fill (ring s) = ?P - ?C"
    using w d by (auto simp: rb_fill_def)
qed

lemma spsc_inv_init:
  assumes "rb_ok rb" and "write_ptr rb = 0" and "read_ptr rb = 0"
  shows "spsc_inv (spsc_init rb)"
  using assms by (simp add: spsc_inv_def spsc_init_def window_ok_def rb_ok_def)


section \<open>Every step keeps the invariant\<close>

text \<open>The store of a byte of the running transfer: it stays in the block and changes no live cell.\<close>

lemma store_ahead:
  fixes s :: spsc and k :: nat and x :: byte
  assumes w: "window_ok s" and room: "length (published s) + k < length (received s) + rb_size (ring s)"
    and ptr: "length (published s) mod rb_size (ring s) + k < rb_size (ring s)"
  defines "b' \<equiv> (rb_buf (ring s))[write_ptr (ring s) + k := x]"
  shows "window_ok (s\<lparr>ring := (ring s)\<lparr>rb_buf := b'\<rparr>, wpc := pc\<rparr>)"
    and "b' ! ((length (published s) + k) mod rb_size (ring s)) = x"
    and "j < k \<Longrightarrow> b' ! ((length (published s) + j) mod rb_size (ring s))
      = rb_buf (ring s) ! ((length (published s) + j) mod rb_size (ring s))"
proof -
  let ?P = "length (published s)" and ?C = "length (received s)" and ?sz = "rb_size (ring s)"
  have facts: "0 < ?sz" "length (rb_buf (ring s)) = ?sz" "write_ptr (ring s) = ?P mod ?sz"
    using w by (auto simp: window_ok_def Let_def)
  have cell: "write_ptr (ring s) + k = (?P + k) mod ?sz"
    using facts ptr mod_add_no_wrap [of ?P ?sz "Suc k" k] by simp
  have live: "b' ! (i mod ?sz) = rb_buf (ring s) ! (i mod ?sz)" if "?C \<le> i" "i < ?P + k" for i
    using mod_distinct [of i "?P + k" ?sz] that room unfolding b'_def cell by simp
  show "window_ok (s\<lparr>ring := (ring s)\<lparr>rb_buf := b'\<rparr>, wpc := pc\<rparr>)"
    using w live by (auto simp: window_ok_def Let_def b'_def)
  show "b' ! ((?P + k) mod ?sz) = x" using facts unfolding b'_def cell by simp
  show "b' ! ((?P + j) mod ?sz) = rb_buf (ring s) ! ((?P + j) mod ?sz)" if "j < k"
    using live that w by (auto simp: window_ok_def Let_def)
qed

text \<open>Publishing \<open>n\<close> stored bytes moves them into the window.\<close>

lemma window_publish:
  assumes w: "window_ok s" and n: "n \<le> length src"
    and room: "length (published s) + n < length (received s) + rb_size (ring s)"
    and stored: "\<forall>j<n. rb_buf (ring s) ! ((length (published s) + j) mod rb_size (ring s)) = src ! j"
    and p: "p = (length (published s) + n) mod rb_size (ring s)"
  shows "window_ok (s\<lparr>ring := (ring s)\<lparr>write_ptr := p\<rparr>, wpc := pc,
    published := published s @ take n src\<rparr>)"
proof -
  let ?P = "length (published s)" and ?sz = "rb_size (ring s)"
  have "rb_buf (ring s) ! (i mod ?sz) = (published s @ take n src) ! i"
    if "length (received s) \<le> i" "i < ?P + n" for i
  proof (cases "i < ?P")
    case True
    then show ?thesis using w that by (simp add: window_ok_def Let_def nth_append)
  next
    case False
    then show ?thesis using stored [rule_format, of "i - ?P"] that by (simp add: nth_append)
  qed
  then show ?thesis using w room n p by (auto simp: window_ok_def Let_def)
qed

lemma reader_ok_publish:
  "reader_ok s pc \<Longrightarrow> reader_ok (s\<lparr>ring := (ring s)\<lparr>write_ptr := p\<rparr>, wpc := w,
     published := published s @ xs\<rparr>) pc"
  by (cases pc) (auto simp: Let_def)

text \<open>The byte the reader copies next is the next published one.\<close>

lemma load_live:
  assumes w: "window_ok s" and k: "length (received s) + k < length (published s)"
    and ptr: "length (received s) mod rb_size (ring s) + k < rb_size (ring s)"
  shows "rb_buf (ring s) ! (read_ptr (ring s) + k) = published s ! (length (received s) + k)"
proof -
  let ?C = "length (received s)" and ?sz = "rb_size (ring s)"
  have "read_ptr (ring s) + k = (?C + k) mod ?sz"
    using w ptr mod_add_no_wrap [of ?C ?sz "Suc k" k] by (simp add: window_ok_def Let_def)
  then show ?thesis using w k by (simp add: window_ok_def Let_def)
qed

text \<open>Releasing the bytes copied shrinks the window from its front.\<close>

lemma window_release:
  assumes w: "window_ok s" and n: "length (received s) + length dst \<le> length (published s)"
    and dst: "dst = take (length dst) (drop (length (received s)) (published s))"
    and p: "p = (length (received s) + length dst) mod rb_size (ring s)"
  shows "window_ok (s\<lparr>ring := (ring s)\<lparr>read_ptr := p\<rparr>, rpc := pc, received := received s @ dst\<rparr>)"
proof -
  have "received s @ dst = take (length (received s)) (published s) @
      take (length dst) (drop (length (received s)) (published s))"
    using w dst by (simp add: window_ok_def Let_def)
  then have "received s @ dst = take (length (received s) + length dst) (published s)"
    by (simp add: take_add)
  then show ?thesis using w n p by (auto simp: window_ok_def Let_def)
qed

lemma writer_ok_release:
  "writer_ok s pc \<Longrightarrow> writer_ok (s\<lparr>ring := (ring s)\<lparr>read_ptr := p\<rparr>, rpc := r,
     received := received s @ xs\<rparr>) pc"
  by (cases pc) (auto simp: Let_def)

text \<open>The transfer a call starts fits the space or the content the call saw.\<close>

lemma clip_le: "clip cnt n \<le> cnt" "clip cnt n \<le> n"
  by (auto simp: clip_def)

lemma w_call_ok:
  assumes inv: "spsc_inv s" and cnt: "cnt \<le> length src"
    and space: "ringbuffer_write_space (ring s) = Some free"
    and split: "rb_split (write_ptr (ring s)) (clip cnt free) (rb_size (ring s)) = Some (n1, n2)"
  shows "spsc_inv (s\<lparr>wpc := W1 src n1 n2 0\<rparr>)"
proof -
  let ?P = "length (published s)" and ?C = "length (received s)" and ?sz = "rb_size (ring s)"
  have w: "window_ok s" using inv by (simp add: spsc_inv_def)
  have free: "free = ?sz - 1 - (?P - ?C)"
    using space write_space_ok [OF window_rb_ok(1) [OF w]] window_rb_ok(2) [OF w]
    by (simp add: rb_free_def)
  have f: "0 < ?sz" "?sz < 2 ^ 63" "write_ptr (ring s) = ?P mod ?sz" "?C \<le> ?P" "?P < ?C + ?sz"
    using w by (auto simp: window_ok_def Let_def)
  have ptr: "?P mod ?sz < ?sz" using f(1) by simp
  have c: "clip cnt free \<le> cnt" "clip cnt free \<le> free" by (rule clip_le)+
  have "n1 = min (clip cnt free) (?sz - ?P mod ?sz)" "n2 = clip cnt free - (?sz - ?P mod ?sz)"
    using split rb_split_ok [of "?P mod ?sz" ?sz "clip cnt free"] f c free ptr by auto
  then have n: "n1 + n2 = clip cnt free" "?P mod ?sz + n1 \<le> ?sz" "n2 \<noteq> 0 \<longrightarrow> ?P mod ?sz + n1 = ?sz"
    using ptr by auto
  have "reader_ok (s\<lparr>wpc := W1 src n1 n2 0\<rparr>) (rpc s) = reader_ok s (rpc s)"
    by (cases "rpc s") simp_all
  moreover have "window_ok (s\<lparr>wpc := W1 src n1 n2 0\<rparr>)" using w by (simp add: window_ok_def)
  ultimately show ?thesis using inv n c cnt free f by (simp add: spsc_inv_def Let_def)
qed

lemma r_call_ok:
  assumes inv: "spsc_inv s"
    and space: "ringbuffer_read_space (ring s) = Some avail"
    and split: "rb_split (read_ptr (ring s)) (clip cnt avail) (rb_size (ring s)) = Some (n1, n2)"
  shows "spsc_inv (s\<lparr>rpc := R1 n1 n2 []\<rparr>)"
proof -
  let ?P = "length (published s)" and ?C = "length (received s)" and ?sz = "rb_size (ring s)"
  have w: "window_ok s" using inv by (simp add: spsc_inv_def)
  have avail: "avail = ?P - ?C"
    using space read_space_ok [OF window_rb_ok(1) [OF w]] window_rb_ok(2) [OF w] by simp
  have f: "0 < ?sz" "?sz < 2 ^ 63" "read_ptr (ring s) = ?C mod ?sz" "?C \<le> ?P" "?P < ?C + ?sz"
    using w by (auto simp: window_ok_def Let_def)
  have ptr: "?C mod ?sz < ?sz" using f(1) by simp
  have c: "clip cnt avail \<le> avail" by (rule clip_le)
  have "n1 = min (clip cnt avail) (?sz - ?C mod ?sz)" "n2 = clip cnt avail - (?sz - ?C mod ?sz)"
    using split rb_split_ok [of "?C mod ?sz" ?sz "clip cnt avail"] f c avail ptr by auto
  then have n: "n1 + n2 = clip cnt avail" "?C mod ?sz + n1 \<le> ?sz" "n2 \<noteq> 0 \<longrightarrow> ?C mod ?sz + n1 = ?sz"
    using ptr by auto
  have "writer_ok (s\<lparr>rpc := R1 n1 n2 []\<rparr>) (wpc s) = writer_ok s (wpc s)"
    by (cases "wpc s") simp_all
  moreover have "window_ok (s\<lparr>rpc := R1 n1 n2 []\<rparr>)" using w by (simp add: window_ok_def)
  ultimately show ?thesis using inv n c avail f by (simp add: spsc_inv_def Let_def)
qed


text \<open>What the running transfers may assume, in the form the steps use.\<close>

lemma spsc_invD:
  assumes "spsc_inv s"
  shows "window_ok s" and "writer_ok s (wpc s)" and "reader_ok s (rpc s)"
    and "write_ptr (ring s) = length (published s) mod rb_size (ring s)"
    and "read_ptr (ring s) = length (received s) mod rb_size (ring s)"
    and "0 < rb_size (ring s)" and "rb_size (ring s) < 2 ^ 63"
  using assms by (auto simp: spsc_inv_def window_ok_def Let_def)

lemma reader_ok_store:
  "reader_ok s pc \<Longrightarrow> reader_ok (s\<lparr>ring := (ring s)\<lparr>rb_buf := b\<rparr>, wpc := w\<rparr>) pc"
  by (cases pc) (auto simp: Let_def)

lemma take_snoc_nth: "n < length xs \<Longrightarrow> dst = take n xs \<Longrightarrow> dst @ [xs ! n] = take (Suc n) xs"
  by (simp add: take_Suc_conv_app_nth)

lemma w_copy1_ok:
  assumes inv: "spsc_inv s"
    and pc: "wpc s = W1 src n1 n2 k"
    and more: "k < n1"
  shows "spsc_inv (s\<lparr>ring := (ring s)\<lparr>rb_buf := (rb_buf (ring s))[write_ptr (ring s) + k := src ! k]\<rparr>,
       wpc := W1 src n1 n2 (Suc k)\<rparr>)"
proof -
  note D = spsc_invD [OF inv]
  have w: "k < n1" "length (published s) + n1 + n2 < length (received s) + rb_size (ring s)"
      "length (published s) mod rb_size (ring s) + n1 \<le> rb_size (ring s)"
    using pc more D(2) by (auto simp: Let_def)
  have "length (published s) + k < length (received s) + rb_size (ring s)"
    "length (published s) mod rb_size (ring s) + k < rb_size (ring s)" using w by auto
  note st = store_ahead [OF D(1) this]
  show ?thesis
    using pc more D(2,3) st(1) reader_ok_store st(2,3)
    by (auto simp: spsc_inv_def Let_def less_Suc_eq)
qed

lemma w_publish1_ok:
  assumes inv: "spsc_inv s"
    and pc: "wpc s = W1 src n1 n2 n1"
    and upd: "umod (uadd (write_ptr (ring s)) n1) (rb_size (ring s)) = Some w"
  shows "spsc_inv (s\<lparr>ring := (ring s)\<lparr>write_ptr := w\<rparr>,
       wpc := (if n2 \<noteq> 0 then W2 (drop n1 src) n2 0 else WIdle),
       published := published s @ take n1 src\<rparr>)"
proof -
  note D = spsc_invD [OF inv]
  have w: "n1 + n2 \<le> length src" "length (published s) + n1 + n2 < length (received s) + rb_size (ring s)"
      "length (published s) mod rb_size (ring s) + n1 \<le> rb_size (ring s)"
      "n2 \<noteq> 0 \<Longrightarrow> length (published s) mod rb_size (ring s) + n1 = rb_size (ring s)"
      "\<forall>j<n1. rb_buf (ring s) ! ((length (published s) + j) mod rb_size (ring s)) = src ! j"
    using pc upd D(2) by (auto simp: Let_def)
  have ptr: "w = (length (published s) + n1) mod rb_size (ring s)"
    using upd next_ptr [OF D(6,7) w(3)] D(4) by simp
  have zero: "(length (published s) + n1) mod rb_size (ring s) = 0" if "n2 \<noteq> 0"
    using w(4) [OF that] by (metis mod_add_left_eq mod_self)
  show ?thesis
    using pc window_publish [OF D(1) _ _ w(5) ptr, of "if n2 \<noteq> 0 then W2 (drop n1 src) n2 0 else WIdle"]
      reader_ok_publish [OF D(3)] w zero
    by (auto simp: spsc_inv_def Let_def)
qed

lemma w_copy2_ok:
  assumes inv: "spsc_inv s"
    and pc: "wpc s = W2 src n2 k"
    and more: "k < n2"
  shows "spsc_inv (s\<lparr>ring := (ring s)\<lparr>rb_buf := (rb_buf (ring s))[write_ptr (ring s) + k := src ! k]\<rparr>,
       wpc := W2 src n2 (Suc k)\<rparr>)"
proof -
  note D = spsc_invD [OF inv]
  have w: "k < n2" "length (published s) + n2 < length (received s) + rb_size (ring s)"
      "length (published s) mod rb_size (ring s) = 0" "length (received s) \<le> length (published s)"
    using pc more D(1,2) by (auto simp: Let_def window_ok_def)
  have "length (published s) + k < length (received s) + rb_size (ring s)"
    "length (published s) mod rb_size (ring s) + k < rb_size (ring s)" using w by auto
  note st = store_ahead [OF D(1) this]
  show ?thesis
    using pc more D(2,3) st(1) reader_ok_store st(2,3)
    by (auto simp: spsc_inv_def Let_def less_Suc_eq)
qed

lemma w_publish2_ok:
  assumes inv: "spsc_inv s"
    and pc: "wpc s = W2 src n2 n2"
    and upd: "umod (uadd (write_ptr (ring s)) n2) (rb_size (ring s)) = Some w"
  shows "spsc_inv (s\<lparr>ring := (ring s)\<lparr>write_ptr := w\<rparr>, wpc := WIdle,
       published := published s @ take n2 src\<rparr>)"
proof -
  note D = spsc_invD [OF inv]
  have w: "n2 \<le> length src" "length (published s) + n2 < length (received s) + rb_size (ring s)"
      "length (published s) mod rb_size (ring s) = 0" "length (received s) \<le> length (published s)"
      "\<forall>j<n2. rb_buf (ring s) ! ((length (published s) + j) mod rb_size (ring s)) = src ! j"
    using pc upd D(1,2) by (auto simp: Let_def window_ok_def)
  have ptr: "w = (length (published s) + n2) mod rb_size (ring s)"
    using upd next_ptr [OF D(6,7), of "length (published s)" n2] D(4) w by simp
  show ?thesis
    using pc window_publish [OF D(1) w(1,2,5) ptr] reader_ok_publish [OF D(3)]
    by (auto simp: spsc_inv_def Let_def)
qed

lemma r_copy1_ok:
  assumes inv: "spsc_inv s"
    and pc: "rpc s = R1 n1 n2 dst"
    and more: "length dst < n1"
  shows "spsc_inv (s\<lparr>rpc := R1 n1 n2 (dst @ [rb_buf (ring s) ! (read_ptr (ring s) + length dst)])\<rparr>)"
proof -
  note D = spsc_invD [OF inv]
  have r: "length (received s) + n1 + n2 \<le> length (published s)"
      "length (received s) mod rb_size (ring s) + n1 \<le> rb_size (ring s)"
      "dst = take (length dst) (drop (length (received s)) (published s))"
    using pc more D(3) by (auto simp: Let_def)
  have "dst @ [drop (length (received s)) (published s) ! length dst] =
      take (Suc (length dst)) (drop (length (received s)) (published s))"
    using r pc more by (intro take_snoc_nth) auto
  then have "dst @ [rb_buf (ring s) ! (read_ptr (ring s) + length dst)] =
      take (Suc (length dst)) (drop (length (received s)) (published s))"
    using load_live [OF D(1), of "length dst"] r pc more by simp
  then show ?thesis
    using pc more D(1,2,3) by (cases "wpc s") (auto simp: spsc_inv_def Let_def window_ok_def)
qed

lemma r_release1_ok:
  assumes inv: "spsc_inv s"
    and pc: "rpc s = R1 n1 n2 dst"
    and full: "length dst = n1"
    and upd: "umod (uadd (read_ptr (ring s)) n1) (rb_size (ring s)) = Some r"
  shows "spsc_inv (s\<lparr>ring := (ring s)\<lparr>read_ptr := r\<rparr>,
       rpc := (if n2 \<noteq> 0 then R2 n2 [] else RIdle), received := received s @ dst\<rparr>)"
proof -
  note D = spsc_invD [OF inv]
  have r: "length (received s) + n1 + n2 \<le> length (published s)"
      "length (received s) mod rb_size (ring s) + n1 \<le> rb_size (ring s)"
      "n2 \<noteq> 0 \<Longrightarrow> length (received s) mod rb_size (ring s) + n1 = rb_size (ring s)"
      "dst = take (length dst) (drop (length (received s)) (published s))"
    using pc full upd D(3) by (auto simp: Let_def)
  have ptr: "r = (length (received s) + length dst) mod rb_size (ring s)"
    using full upd next_ptr [OF D(6,7) r(2)] D(5) by simp
  have zero: "(length (received s) + n1) mod rb_size (ring s) = 0" if "n2 \<noteq> 0"
    using r(3) [OF that] by (metis mod_add_left_eq mod_self)
  have "length (received s) + length dst \<le> length (published s)" using r pc full upd by simp
  from window_release [OF D(1) this r(4) ptr]
  show ?thesis
    using full writer_ok_release [OF D(2)] r zero
    by (auto simp: spsc_inv_def Let_def)
qed

lemma r_copy2_ok:
  assumes inv: "spsc_inv s"
    and pc: "rpc s = R2 n2 dst"
    and more: "length dst < n2"
  shows "spsc_inv (s\<lparr>rpc := R2 n2 (dst @ [rb_buf (ring s) ! (read_ptr (ring s) + length dst)])\<rparr>)"
proof -
  note D = spsc_invD [OF inv]
  have r: "length (received s) + n2 \<le> length (published s)"
      "length (received s) mod rb_size (ring s) = 0"
      "dst = take (length dst) (drop (length (received s)) (published s))"
      "length (published s) < length (received s) + rb_size (ring s)"
    using pc more D(1,3) by (auto simp: Let_def window_ok_def)
  have "dst @ [drop (length (received s)) (published s) ! length dst] =
      take (Suc (length dst)) (drop (length (received s)) (published s))"
    using r pc more by (intro take_snoc_nth) auto
  then have "dst @ [rb_buf (ring s) ! (read_ptr (ring s) + length dst)] =
      take (Suc (length dst)) (drop (length (received s)) (published s))"
    using load_live [OF D(1), of "length dst"] r pc more by simp
  then show ?thesis
    using pc more D(1,2,3) by (cases "wpc s") (auto simp: spsc_inv_def Let_def window_ok_def)
qed

lemma r_release2_ok:
  assumes inv: "spsc_inv s"
    and pc: "rpc s = R2 n2 dst"
    and full: "length dst = n2"
    and upd: "umod (uadd (read_ptr (ring s)) n2) (rb_size (ring s)) = Some r"
  shows "spsc_inv (s\<lparr>ring := (ring s)\<lparr>read_ptr := r\<rparr>, rpc := RIdle, received := received s @ dst\<rparr>)"
proof -
  note D = spsc_invD [OF inv]
  have r: "length (received s) + n2 \<le> length (published s)"
      "length (received s) mod rb_size (ring s) = 0"
      "dst = take (length dst) (drop (length (received s)) (published s))"
      "length (published s) < length (received s) + rb_size (ring s)"
    using pc full upd D(1,3) by (auto simp: Let_def window_ok_def)
  have ptr: "r = (length (received s) + length dst) mod rb_size (ring s)"
    using full upd next_ptr [OF D(6,7), of "length (received s)" n2] D(5) r by simp
  have "length (received s) + length dst \<le> length (published s)" using r pc full upd by simp
  from window_release [OF D(1) this r(3) ptr]
  show ?thesis
    using  writer_ok_release [OF D(2)] by (auto simp: spsc_inv_def)
qed

lemma spsc_step_inv:
  assumes "spsc_step s t" and "spsc_inv s"
  shows "spsc_inv t"
  using assms
  by (induction rule: spsc_step.induct)
    (blast intro: w_call_ok w_copy1_ok w_publish1_ok w_copy2_ok w_publish2_ok
      r_call_ok r_copy1_ok r_release1_ok r_copy2_ok r_release2_ok)+

lemma spsc_reach_inv:
  assumes "rb_ok rb" and "write_ptr rb = 0" and "read_ptr rb = 0"
  shows "spsc_reach rb s \<Longrightarrow> spsc_inv s"
  by (induction rule: spsc_reach.induct) (use assms in \<open>auto intro: spsc_inv_init spsc_step_inv\<close>)


section \<open>The cells the two threads touch\<close>

text \<open>The cell of the block a thread's next \<open>memcpy\<close> access touches, when it is in a \<open>memcpy\<close>.\<close>

definition writer_cell :: "spsc \<Rightarrow> nat option" where
  "writer_cell s = (case wpc s of WIdle \<Rightarrow> None
     | W1 src n1 n2 k \<Rightarrow> if k < n1 then Some (write_ptr (ring s) + k) else None
     | W2 src n2 k \<Rightarrow> if k < n2 then Some (write_ptr (ring s) + k) else None)"

definition reader_cell :: "spsc \<Rightarrow> nat option" where
  "reader_cell s = (case rpc s of RIdle \<Rightarrow> None
     | R1 n1 n2 dst \<Rightarrow> if length dst < n1 then Some (read_ptr (ring s) + length dst) else None
     | R2 n2 dst \<Rightarrow> if length dst < n2 then Some (read_ptr (ring s) + length dst) else None)"

lemma writer_cell_pos:
  assumes inv: "spsc_inv s" and "writer_cell s = Some i"
  shows "\<exists>a. i = a mod rb_size (ring s) \<and> length (published s) \<le> a \<and>
    a < length (received s) + rb_size (ring s)"
proof -
  note D = spsc_invD [OF inv]
  have le: "length (received s) \<le> length (published s)" using D(1) by (simp add: window_ok_def Let_def)
  obtain k m where k: "i = length (published s) mod rb_size (ring s) + k" "k < m"
      "length (published s) mod rb_size (ring s) + m \<le> rb_size (ring s)"
      "length (published s) + m < length (received s) + rb_size (ring s)"
  proof (cases "wpc s")
    case (W1 src n1 n2 k)
    then show thesis using assms D(2,4) by (intro that [of k n1]) (auto simp: writer_cell_def Let_def split: if_splits)
  next
    case (W2 src n2 k)
    then show thesis using assms D(2,4) le by (intro that [of k n2]) (auto simp: writer_cell_def Let_def split: if_splits)
  qed (use assms in \<open>simp add: writer_cell_def\<close>)
  then have "i = (length (published s) + k) mod rb_size (ring s)"
    using mod_add_no_wrap [OF k(3,2)] by simp
  then show ?thesis using k by (intro exI [of _ "length (published s) + k"]) auto
qed

lemma reader_cell_pos:
  assumes inv: "spsc_inv s" and "reader_cell s = Some j"
  shows "\<exists>a. j = a mod rb_size (ring s) \<and> length (received s) \<le> a \<and> a < length (published s)"
proof -
  note D = spsc_invD [OF inv]
  have le: "length (published s) < length (received s) + rb_size (ring s)"
    using D(1) by (simp add: window_ok_def Let_def)
  obtain k m where k: "j = length (received s) mod rb_size (ring s) + k" "k < m"
      "length (received s) mod rb_size (ring s) + m \<le> rb_size (ring s)"
      "length (received s) + m \<le> length (published s)"
  proof (cases "rpc s")
    case (R1 n1 n2 dst)
    then show thesis using assms D(3,5)
      by (intro that [of "length dst" n1]) (auto simp: reader_cell_def Let_def split: if_splits)
  next
    case (R2 n2 dst)
    then show thesis using assms D(3,5) le
      by (intro that [of "length dst" n2]) (auto simp: reader_cell_def Let_def split: if_splits)
  qed (use assms in \<open>simp add: reader_cell_def\<close>)
  then have "j = (length (received s) + k) mod rb_size (ring s)"
    using mod_add_no_wrap [OF k(3,2)] by simp
  then show ?thesis using k by (intro exI [of _ "length (received s) + k"]) auto
qed


section \<open>The steps of one call make up the function\<close>

text \<open>The byte copies of a call, run without interruption, are its \<open>memcpy\<close>.\<close>

lemma blit_step:
  assumes "i < length b" and "k < length xs" and "i + (length xs - k) \<le> length b"
  shows "blit (b[i := xs ! k]) (Suc i) (drop (Suc k) xs) = blit b i (drop k xs)"
proof -
  have "drop k xs = xs ! k # drop (Suc k) xs" using assms by (simp add: Cons_nth_drop_Suc)
  then show ?thesis using assms by (simp add: blit_def take_Suc_conv_app_nth)
qed

lemma copy1_run:
  assumes "wpc s = W1 src n1 n2 k" and "k \<le> n1" and "n1 \<le> length src"
    and "write_ptr (ring s) + n1 \<le> length (rb_buf (ring s))"
  shows "spsc_step\<^sup>*\<^sup>* s (s\<lparr>ring := (ring s)\<lparr>rb_buf :=
      blit (rb_buf (ring s)) (write_ptr (ring s) + k) (drop k (take n1 src))\<rparr>, wpc := W1 src n1 n2 n1\<rparr>)"
  using assms
proof (induction "n1 - k" arbitrary: s k)
  case 0
  then show ?case by (cases s) simp
next
  case (Suc d)
  let ?t = "s\<lparr>ring := (ring s)\<lparr>rb_buf := (rb_buf (ring s))[write_ptr (ring s) + k := src ! k]\<rparr>,
       wpc := W1 src n1 n2 (Suc k)\<rparr>"
  have lt: "k < n1" using Suc.hyps by simp
  have step: "spsc_step s ?t" by (rule spsc_step.w_copy1 [OF Suc.prems(1) lt])
  have "spsc_step\<^sup>*\<^sup>* ?t (?t\<lparr>ring := (ring ?t)\<lparr>rb_buf :=
      blit (rb_buf (ring ?t)) (write_ptr (ring ?t) + Suc k) (drop (Suc k) (take n1 src))\<rparr>, wpc := W1 src n1 n2 n1\<rparr>)"
    using Suc lt by (intro Suc.hyps(1)) auto
  moreover have "blit ((rb_buf (ring s))[write_ptr (ring s) + k := src ! k]) (Suc (write_ptr (ring s) + k))
      (drop (Suc k) (take n1 src)) = blit (rb_buf (ring s)) (write_ptr (ring s) + k) (drop k (take n1 src))"
    using blit_step [of "write_ptr (ring s) + k" "rb_buf (ring s)" k "take n1 src"] Suc.prems lt by simp
  ultimately show ?case using step by (simp add: converse_rtranclp_into_rtranclp)
qed

lemma copy2_run:
  assumes "wpc s = W2 src n2 k" and "k \<le> n2" and "n2 \<le> length src"
    and "write_ptr (ring s) + n2 \<le> length (rb_buf (ring s))"
  shows "spsc_step\<^sup>*\<^sup>* s (s\<lparr>ring := (ring s)\<lparr>rb_buf :=
      blit (rb_buf (ring s)) (write_ptr (ring s) + k) (drop k (take n2 src))\<rparr>, wpc := W2 src n2 n2\<rparr>)"
  using assms
proof (induction "n2 - k" arbitrary: s k)
  case 0
  then show ?case by (cases s) simp
next
  case (Suc d)
  let ?t = "s\<lparr>ring := (ring s)\<lparr>rb_buf := (rb_buf (ring s))[write_ptr (ring s) + k := src ! k]\<rparr>,
       wpc := W2 src n2 (Suc k)\<rparr>"
  have lt: "k < n2" using Suc.hyps by simp
  have step: "spsc_step s ?t" by (rule spsc_step.w_copy2 [OF Suc.prems(1) lt])
  have "spsc_step\<^sup>*\<^sup>* ?t (?t\<lparr>ring := (ring ?t)\<lparr>rb_buf :=
      blit (rb_buf (ring ?t)) (write_ptr (ring ?t) + Suc k) (drop (Suc k) (take n2 src))\<rparr>, wpc := W2 src n2 n2\<rparr>)"
    using Suc lt by (intro Suc.hyps(1)) auto
  moreover have "blit ((rb_buf (ring s))[write_ptr (ring s) + k := src ! k]) (Suc (write_ptr (ring s) + k))
      (drop (Suc k) (take n2 src)) = blit (rb_buf (ring s)) (write_ptr (ring s) + k) (drop k (take n2 src))"
    using blit_step [of "write_ptr (ring s) + k" "rb_buf (ring s)" k "take n2 src"] Suc.prems lt by simp
  ultimately show ?case using step by (simp add: converse_rtranclp_into_rtranclp)
qed

lemma read1_run:
  assumes "rpc s = R1 n1 n2 dst" and "length dst \<le> n1"
    and "read_ptr (ring s) + n1 \<le> length (rb_buf (ring s))"
    and "dst = take (length dst) (drop (read_ptr (ring s)) (rb_buf (ring s)))"
  shows "spsc_step\<^sup>*\<^sup>* s (s\<lparr>rpc := R1 n1 n2 (take n1 (drop (read_ptr (ring s)) (rb_buf (ring s))))\<rparr>)"
  using assms
proof (induction "n1 - length dst" arbitrary: s dst)
  case 0
  then have "length dst = n1" by simp
  with 0 show ?case by (cases s) simp
next
  case (Suc d)
  let ?x = "rb_buf (ring s) ! (read_ptr (ring s) + length dst)"
  let ?t = "s\<lparr>rpc := R1 n1 n2 (dst @ [?x])\<rparr>"
  have lt: "length dst < n1" using Suc.hyps by simp
  have step: "spsc_step s ?t" by (rule spsc_step.r_copy1 [OF Suc.prems(1) lt])
  have "dst @ [drop (read_ptr (ring s)) (rb_buf (ring s)) ! length dst] =
      take (Suc (length dst)) (drop (read_ptr (ring s)) (rb_buf (ring s)))"
    using Suc.prems lt by (intro take_snoc_nth) auto
  then have dst': "dst @ [?x] = take (Suc (length dst)) (drop (read_ptr (ring s)) (rb_buf (ring s)))"
    using Suc.prems lt by simp
  have "spsc_step\<^sup>*\<^sup>* ?t (?t\<lparr>rpc := R1 n1 n2 (take n1 (drop (read_ptr (ring ?t)) (rb_buf (ring ?t))))\<rparr>)"
    using Suc.hyps(2) Suc.prems lt dst' by (intro Suc.hyps(1) [of "dst @ [?x]" ?t]) auto
  then show ?case using step by (simp add: converse_rtranclp_into_rtranclp)
qed

lemma read2_run:
  assumes "rpc s = R2 n2 dst" and "length dst \<le> n2"
    and "read_ptr (ring s) + n2 \<le> length (rb_buf (ring s))"
    and "dst = take (length dst) (drop (read_ptr (ring s)) (rb_buf (ring s)))"
  shows "spsc_step\<^sup>*\<^sup>* s (s\<lparr>rpc := R2 n2 (take n2 (drop (read_ptr (ring s)) (rb_buf (ring s))))\<rparr>)"
  using assms
proof (induction "n2 - length dst" arbitrary: s dst)
  case 0
  then have "length dst = n2" by simp
  with 0 show ?case by (cases s) simp
next
  case (Suc d)
  let ?x = "rb_buf (ring s) ! (read_ptr (ring s) + length dst)"
  let ?t = "s\<lparr>rpc := R2 n2 (dst @ [?x])\<rparr>"
  have lt: "length dst < n2" using Suc.hyps by simp
  have step: "spsc_step s ?t" by (rule spsc_step.r_copy2 [OF Suc.prems(1) lt])
  have "dst @ [drop (read_ptr (ring s)) (rb_buf (ring s)) ! length dst] =
      take (Suc (length dst)) (drop (read_ptr (ring s)) (rb_buf (ring s)))"
    using Suc.prems lt by (intro take_snoc_nth) auto
  then have dst': "dst @ [?x] = take (Suc (length dst)) (drop (read_ptr (ring s)) (rb_buf (ring s)))"
    using Suc.prems lt by simp
  have "spsc_step\<^sup>*\<^sup>* ?t (?t\<lparr>rpc := R2 n2 (take n2 (drop (read_ptr (ring ?t)) (rb_buf (ring ?t))))\<rparr>)"
    using Suc.hyps(2) Suc.prems lt dst' by (intro Suc.hyps(1) [of "dst @ [?x]" ?t]) auto
  then show ?case using step by (simp add: converse_rtranclp_into_rtranclp)
qed

text \<open>A call that no step of the other thread interrupts has the effect of the function.\<close>

lemma write_call_run:
  assumes ok: "rb_ok (ring s)" and idle: "wpc s = WIdle" and cnt: "cnt \<le> length src"
    and call: "ringbuffer_write (ring s) src cnt = Some (rb', n)" and n: "n \<noteq> 0"
  shows "spsc_step\<^sup>*\<^sup>* s (s\<lparr>ring := rb', published := published s @ take n src\<rparr>)"
proof -
  let ?rb = "ring s" let ?p = "write_ptr ?rb" and ?sz = "rb_size ?rb" and ?b = "rb_buf ?rb"
  have res: "n = min cnt (rb_free ?rb)" "rb' = ?rb\<lparr>rb_buf := circ_store ?b ?p (take n src),
      write_ptr := (?p + n) mod ?sz\<rparr>"
    using call ringbuffer_write_ok [OF ok refl, of cnt src] cnt by auto
  have sz: "?p < ?sz" "?sz < 2 ^ 63" and lb: "length ?b = ?sz" using ok by (auto simp: rb_ok_def)
  have nsz: "n < ?sz" using res sz by (auto simp: rb_free_def)
  have src: "n \<le> length src" using res cnt by simp
  define n1 n2 where "n1 = min n (?sz - ?p)" and "n2 = n - (?sz - ?p)"
  have sum: "n1 + n2 = n" using sz by (simp add: n1_def n2_def)
  have "clip cnt (rb_free ?rb) = n" using res by (simp add: clip_def min_def)
  then have split: "rb_split ?p (clip cnt (rb_free ?rb)) ?sz = Some (n1, n2)"
    using rb_split_ok [OF sz(1) nsz sz(2)] by (simp add: n1_def n2_def)
  let ?s1 = "s\<lparr>wpc := W1 src n1 n2 0\<rparr>"
  have call1: "spsc_step s ?s1"
    using res n by (intro spsc_step.w_call [OF idle cnt write_space_ok [OF ok] _ split]) auto
  let ?s2 = "?s1\<lparr>ring := ?rb\<lparr>rb_buf := blit ?b ?p (take n1 src)\<rparr>, wpc := W1 src n1 n2 n1\<rparr>"
  have copy1: "spsc_step\<^sup>*\<^sup>* ?s1 ?s2"
    using copy1_run [of ?s1 src n1 n2 0] src sum sz lb by (simp add: n1_def)
  let ?s3 = "?s2\<lparr>ring := (ring ?s2)\<lparr>write_ptr := (?p + n1) mod ?sz\<rparr>,
       wpc := (if n2 \<noteq> 0 then W2 (drop n1 src) n2 0 else WIdle), published := published s @ take n1 src\<rparr>"
  note two = two_steps [OF sz(1) nsz sz(2), folded n1_def n2_def]
  have pub1: "spsc_step ?s2 ?s3"
    using spsc_step.w_publish1 [of ?s2 src n1 n2 "(?p + n1) mod ?sz"] two(1) by simp
  note store = store_circ [of ?p ?b n src, unfolded lb, OF sz(1) nsz src, folded n1_def n2_def]
  have "spsc_step\<^sup>*\<^sup>* ?s1 ?s3" using copy1 pub1 by (rule rtranclp.rtrancl_into_rtrancl)
  with call1 have to_s3: "spsc_step\<^sup>*\<^sup>* s ?s3" by (rule converse_rtranclp_into_rtranclp)
  show ?thesis
  proof (cases "n2 = 0")
    case True
    then have "?s3 = s\<lparr>ring := rb', published := published s @ take n src\<rparr>"
      using store(4) sum idle unfolding res(2) by simp
    with to_s3 show ?thesis by (simp only:)
  next
    case False
    let ?s4 = "?s3\<lparr>ring := (ring ?s3)\<lparr>rb_buf := blit (blit ?b ?p (take n1 src)) 0 (take n2 (drop n1 src))\<rparr>,
      wpc := W2 (drop n1 src) n2 n2\<rparr>"
    have lb1: "length (blit ?b ?p (take n1 src)) = ?sz" using src sum sz lb by (subst length_blit) (auto simp: n1_def)
    have z: "(?p + n1) mod ?sz = 0" by (rule two(2) [OF False])
    have copy2: "spsc_step\<^sup>*\<^sup>* ?s3 ?s4"
      using copy2_run [of ?s3 "drop n1 src" n2 0] False src sum nsz lb1 z by simp
    have b2: "blit (blit ?b ?p (take n1 src)) 0 (take n2 (drop n1 src)) = circ_store ?b ?p (take n src)"
      using store(5) [OF False] by (auto simp: mem_store_def split: if_splits)
    have "spsc_step ?s4 (?s4\<lparr>ring := (ring ?s4)\<lparr>write_ptr := (?p + n) mod ?sz\<rparr>, wpc := WIdle,
       published := published ?s4 @ take n2 (drop n1 src)\<rparr>)" (is "spsc_step _ ?s5")
      using spsc_step.w_publish2 [of ?s4 "drop n1 src" n2 "(?p + n) mod ?sz"] two(3) [OF False] z by simp
    with copy2 have "spsc_step\<^sup>*\<^sup>* ?s3 ?s5" by (rule rtranclp.rtrancl_into_rtrancl)
    with to_s3 have run: "spsc_step\<^sup>*\<^sup>* s ?s5" by (rule rtranclp_trans)
    have "?s5 = s\<lparr>ring := rb', published := published s @ take n src\<rparr>"
      using b2 sum idle take_add [of n1 n2 src] unfolding res(2) by simp
    with run show ?thesis by (simp only:)
  qed
qed

lemma read_call_run:
  assumes ok: "rb_ok (ring s)" and idle: "rpc s = RIdle" and cnt: "cnt \<le> length dest"
    and call: "ringbuffer_read (ring s) dest cnt = Some (rb', dest', n)" and n: "n \<noteq> 0"
  shows "spsc_step\<^sup>*\<^sup>* s (s\<lparr>ring := rb', received := received s @ take n dest'\<rparr>)"
proof -
  let ?rb = "ring s" let ?p = "read_ptr ?rb" and ?sz = "rb_size ?rb" and ?b = "rb_buf ?rb"
  have res: "n = min cnt (rb_fill ?rb)" "rb' = ?rb\<lparr>read_ptr := (?p + n) mod ?sz\<rparr>"
      "dest' = blit dest 0 (take n (rb_abs ?rb))"
    using call ringbuffer_read_ok [OF ok refl, of cnt dest] cnt by auto
  have sz: "?p < ?sz" "?sz < 2 ^ 63" and lb: "length ?b = ?sz" using ok by (auto simp: rb_ok_def)
  have nsz: "n < ?sz" using res rb_fill_less [OF ok] by simp
  define n1 n2 where "n1 = min n (?sz - ?p)" and "n2 = n - (?sz - ?p)"
  have sum: "n1 + n2 = n" using sz by (simp add: n1_def n2_def)
  have "take n (rb_abs ?rb) = circ ?b ?p n" using res by (simp add: rb_abs_def take_circ)
  also have "\<dots> = take n1 (drop ?p ?b) @ take n2 ?b"
    using circ_parts [of ?p ?b n] sz lb nsz by (simp add: n1_def n2_def)
  finally have "take n (rb_abs ?rb) = take n1 (drop ?p ?b) @ take n2 ?b" .
  moreover have "take n dest' = take n (rb_abs ?rb)" using res(1) unfolding res(3) by (simp add: blit_def)
  ultimately have got: "take n dest' = take n1 (drop ?p ?b) @ take n2 ?b" by (simp only:)
  have "clip cnt (rb_fill ?rb) = n" using res by (simp add: clip_def min_def)
  then have split: "rb_split ?p (clip cnt (rb_fill ?rb)) ?sz = Some (n1, n2)"
    using rb_split_ok [OF sz(1) nsz sz(2)] by (simp add: n1_def n2_def)
  let ?s1 = "s\<lparr>rpc := R1 n1 n2 []\<rparr>"
  have call1: "spsc_step s ?s1"
    using res n by (intro spsc_step.r_call [OF idle read_space_ok [OF ok] _ split]) auto
  let ?s2 = "s\<lparr>rpc := R1 n1 n2 (take n1 (drop ?p ?b))\<rparr>"
  have copy1: "spsc_step\<^sup>*\<^sup>* ?s1 ?s2"
    using read1_run [of ?s1 n1 n2 "[]"] sum sz lb by (simp add: n1_def)
  let ?s3 = "?s2\<lparr>ring := ?rb\<lparr>read_ptr := (?p + n1) mod ?sz\<rparr>,
       rpc := (if n2 \<noteq> 0 then R2 n2 [] else RIdle), received := received s @ take n1 (drop ?p ?b)\<rparr>"
  note two = two_steps [OF sz(1) nsz sz(2), folded n1_def n2_def]
  have l1: "length (take n1 (drop ?p ?b)) = n1" using sz lb by (simp add: n1_def)
  have pub1: "spsc_step ?s2 ?s3"
    using spsc_step.r_release1 [of ?s2 n1 n2 "take n1 (drop ?p ?b)" "(?p + n1) mod ?sz"] two(1) l1 by simp
  have "spsc_step\<^sup>*\<^sup>* ?s1 ?s3" using copy1 pub1 by (rule rtranclp.rtrancl_into_rtrancl)
  with call1 have to_s3: "spsc_step\<^sup>*\<^sup>* s ?s3" by (rule converse_rtranclp_into_rtranclp)
  show ?thesis
  proof (cases "n2 = 0")
    case True
    then have "?s3 = s\<lparr>ring := rb', received := received s @ take n dest'\<rparr>"
      using sum idle unfolding res(2) got by simp
    with to_s3 show ?thesis by (simp only:)
  next
    case False
    let ?s4 = "?s3\<lparr>rpc := R2 n2 (take n2 ?b)\<rparr>"
    have z: "(?p + n1) mod ?sz = 0" by (rule two(2) [OF False])
    have l2: "length (take n2 ?b) = n2" using sum nsz lb by simp
    have copy2: "spsc_step\<^sup>*\<^sup>* ?s3 ?s4"
      using read2_run [of ?s3 n2 "[]"] False sum nsz lb z by simp
    have "spsc_step ?s4 (?s4\<lparr>ring := (ring ?s4)\<lparr>read_ptr := (?p + n) mod ?sz\<rparr>, rpc := RIdle,
       received := received ?s4 @ take n2 ?b\<rparr>)" (is "spsc_step _ ?s5")
      using spsc_step.r_release2 [of ?s4 n2 "take n2 ?b" "(?p + n) mod ?sz"] two(3) [OF False] z l2 by simp
    with copy2 have "spsc_step\<^sup>*\<^sup>* ?s3 ?s5" by (rule rtranclp.rtrancl_into_rtrancl)
    with to_s3 have run: "spsc_step\<^sup>*\<^sup>* s ?s5" by (rule rtranclp_trans)
    have "?s5 = s\<lparr>ring := rb', received := received s @ take n dest'\<rparr>"
      using idle unfolding res(2) got by simp
    with run show ?thesis by (simp only:)
  qed
qed

section \<open>Properties\<close>

text \<open>
  C1: Lock-free use by one reader and one writer is correct: after any interleaving of the byte
  accesses and the pointer updates of the two threads, on a ring of any size, what the reader has
  received is a prefix of what the writer has published, less than a ring behind, and every
  published byte that is not yet released is unchanged in its cell.
\<close>

theorem spsc_delivers_prefix:
  assumes "rb_ok rb" and "write_ptr rb = 0" and "read_ptr rb = 0" and "spsc_reach rb s"
  shows "received s = take (length (received s)) (published s) \<and>
    length (published s) < length (received s) + rb_size (ring s) \<and>
    rb_ok (ring s) \<and> length (rb_abs (ring s)) = length (published s) - length (received s)"
proof -
  have w: "window_ok s" using spsc_reach_inv [OF assms] by (rule spsc_invD(1))
  show ?thesis using w window_rb_ok [OF w] by (simp add: window_ok_def Let_def)
qed

definition spsc_ring :: ringbuffer where
  "spsc_ring = \<lparr>rb_buf = [0, 0, 0], write_ptr = 0, read_ptr = 0, rb_size = 3, mlocked = 0\<rparr>"

lemma spsc_ring_ok: "rb_ok spsc_ring" "write_ptr spsc_ring = 0" "read_ptr spsc_ring = 0"
  by (simp_all add: spsc_ring_def rb_ok_def)

theorem spsc_delivers_prefix_witness:
  "let s = (spsc_init spsc_ring)\<lparr>wpc := W1 [5, 6] 2 0 0\<rparr> in
     received s = take (length (received s)) (published s) \<and>
     length (published s) < length (received s) + rb_size (ring s) \<and>
     rb_ok (ring s) \<and> length (rb_abs (ring s)) = length (published s) - length (received s)"
proof -
  let ?s = "(spsc_init spsc_ring)\<lparr>wpc := W1 [5, 6] 2 0 0\<rparr>"
  have "spsc_step (spsc_init spsc_ring) ?s"
    by (rule spsc_step.w_call [where cnt = 2 and free = 2])
      (simp_all add: spsc_init_def spsc_ring_def ringbuffer_write_space_def Let_def rb_split_def clip_def
        uadd_def usub_le)
  then have "spsc_reach spsc_ring ?s" by (rule spsc_next [OF spsc_start])
  from spsc_delivers_prefix [OF spsc_ring_ok this] show ?thesis by (simp only: Let_def)
qed

text \<open>
  C2: There is no data race on the bytes: in every reachable state the cell the writer stores to
  next and the cell the reader loads next are different cells of the block.
\<close>

theorem spsc_no_race:
  assumes "rb_ok rb" and "write_ptr rb = 0" and "read_ptr rb = 0" and "spsc_reach rb s"
    and "writer_cell s = Some i" and "reader_cell s = Some j"
  shows "i \<noteq> j \<and> i < length (rb_buf (ring s)) \<and> j < length (rb_buf (ring s))"
proof -
  have inv: "spsc_inv s" by (rule spsc_reach_inv [OF assms(1-4)])
  obtain a b where a: "i = a mod rb_size (ring s)" "length (published s) \<le> a"
      "a < length (received s) + rb_size (ring s)"
    and b: "j = b mod rb_size (ring s)" "length (received s) \<le> b" "b < length (published s)"
    using writer_cell_pos [OF inv assms(5)] reader_cell_pos [OF inv assms(6)] by blast
  have "i \<noteq> j" using mod_distinct [of b a "rb_size (ring s)"] a b by auto
  then show ?thesis using a(1) b(1) spsc_invD(1,6) [OF inv] by (simp add: window_ok_def Let_def)
qed

text \<open>The write of a byte, its publication, and two calls in progress.\<close>

definition spsc_busy :: spsc where
  "spsc_busy = \<lparr>ring = \<lparr>rb_buf = [5, 0, 0], write_ptr = 1, read_ptr = 0, rb_size = 3, mlocked = 0\<rparr>,
     wpc = W1 [6] 1 0 0, rpc = R1 1 0 [], published = [5], received = []\<rparr>"

lemma spsc_busy_reach: "spsc_reach spsc_ring spsc_busy"
proof -
  let ?s1 = "(spsc_init spsc_ring)\<lparr>wpc := W1 [5] 1 0 0\<rparr>"
  let ?s2 = "?s1\<lparr>ring := (ring ?s1)\<lparr>rb_buf := [5, 0, 0]\<rparr>, wpc := W1 [5] 1 0 1\<rparr>"
  let ?s3 = "?s2\<lparr>ring := (ring ?s2)\<lparr>write_ptr := 1\<rparr>, wpc := WIdle, published := [5]\<rparr>"
  let ?s4 = "?s3\<lparr>wpc := W1 [6] 1 0 0\<rparr>"
  have s1: "spsc_step (spsc_init spsc_ring) ?s1"
    by (rule spsc_step.w_call [where cnt = 1 and free = 2])
      (simp_all add: spsc_init_def spsc_ring_def ringbuffer_write_space_def Let_def rb_split_def clip_def
        uadd_def usub_le)
  have s2: "spsc_step ?s1 ?s2"
    using spsc_step.w_copy1 [of ?s1 "[5]" 1 0 0] by (simp add: spsc_init_def spsc_ring_def)
  have s3: "spsc_step ?s2 ?s3"
    using spsc_step.w_publish1 [of ?s2 "[5]" 1 0 1] by (simp add: spsc_init_def spsc_ring_def uadd_def)
  have s4: "spsc_step ?s3 ?s4"
    by (rule spsc_step.w_call [where cnt = 1 and free = 1])
      (simp_all add: spsc_init_def spsc_ring_def ringbuffer_write_space_def Let_def rb_split_def clip_def
        uadd_def usub_def)
  have s5: "spsc_step ?s4 spsc_busy"
    using spsc_step.r_call [of ?s4 1 1 1 0]
    by (simp add: spsc_busy_def spsc_init_def spsc_ring_def ringbuffer_read_space_def Let_def
        rb_split_def clip_def uadd_def usub_le)
  show ?thesis
    by (rule spsc_next [OF spsc_next [OF spsc_next [OF spsc_next [OF spsc_next [OF spsc_start s1] s2] s3] s4] s5])
qed

theorem spsc_no_race_witness:
  "(1::nat) \<noteq> 0 \<and> 1 < length (rb_buf (ring spsc_busy)) \<and> 0 < length (rb_buf (ring spsc_busy))"
  by (rule spsc_no_race [OF spsc_ring_ok spsc_busy_reach])
    (simp_all add: spsc_busy_def writer_cell_def reader_cell_def)

text \<open>
  The steps are those of the functions: a call of \<open>ringbuffer_write\<close> or \<open>ringbuffer_read\<close> that
  transfers something is a run of its thread's steps from idle to idle, with the function's result,
  publishing or receiving exactly the bytes transferred.
\<close>

theorem spsc_steps_implement_calls:
  assumes "rb_ok (ring s)" and "wpc s = WIdle" and "rpc s = RIdle" and "cnt \<le> length src" and "cnt' \<le> length dest"
    and "ringbuffer_write (ring s) src cnt = Some (rbw, n)" and "n \<noteq> 0"
    and "ringbuffer_read (ring s) dest cnt' = Some (rbr, dest', m)" and "m \<noteq> 0"
  shows "spsc_step\<^sup>*\<^sup>* s (s\<lparr>ring := rbw, published := published s @ take n src\<rparr>) \<and>
    spsc_step\<^sup>*\<^sup>* s (s\<lparr>ring := rbr, received := received s @ take m dest'\<rparr>)"
  using write_call_run [OF assms(1,2,4,6,7)] read_call_run [OF assms(1,3,5,8,9)] by blast

theorem spsc_steps_implement_calls_witness:
  "let s = (spsc_init ring_example) in
   spsc_step\<^sup>*\<^sup>* s (s\<lparr>ring := ring_example\<lparr>rb_buf := [1, 7, 3, 4], write_ptr := 2\<rparr>,
      published := published s @ take 1 [7]\<rparr>) \<and>
   spsc_step\<^sup>*\<^sup>* s (s\<lparr>ring := ring_example\<lparr>read_ptr := 1\<rparr>, received := received s @ take 2 [4, 1]\<rparr>)"
proof -
  have "ringbuffer_write ring_example [7] 1 = Some (ring_example\<lparr>rb_buf := [1, 7, 3, 4], write_ptr := 2\<rparr>, 1)"
    using ringbuffer_write_ok [OF ring_example_ok(1) refl, of 1 "[7]"]
    by (simp add: ring_example_def rb_free_def rb_fill_def circ_store_def blit_def)
  moreover have "ringbuffer_read ring_example [0, 0] 2 = Some (ring_example\<lparr>read_ptr := 1\<rparr>, [4, 1], 2)"
    using ringbuffer_read_ok [OF ring_example_ok(1) refl, of 2 "[0, 0]"] ring_example_ok(2)
    by (simp add: ring_example_def rb_fill_def blit_def)
  ultimately show ?thesis
    unfolding Let_def
    by (intro spsc_steps_implement_calls [where cnt = 1 and dest = "[0, 0]" and cnt' = 2])
      (simp_all add: spsc_init_def ring_example_ok)
qed

end
