(* ===== verification/Vban.thy ===== *)
theory Vban
  imports Prelude
begin

text \<open>
  The wire protocol of \<open>vban_common/vban.h\<close>: the packet structures and their layout in memory
  (which is their layout on the wire), the tables of sample rates and of sample sizes, and the
  lookup of a rate's index.
\<close>

section \<open>Constants and tables\<close>

definition VBAN_HEADER_SIZE :: nat where
  "VBAN_HEADER_SIZE = 4 + 4 + 16 + 4"

definition VBAN_HEADER_FOURC :: u32 where
  "VBAN_HEADER_FOURC = 0x4E414256"

definition VBAN_STREAM_NAME_SIZE :: nat where
  "VBAN_STREAM_NAME_SIZE = 16"

definition VBAN_PROTOCOL_MAX_SIZE :: nat where
  "VBAN_PROTOCOL_MAX_SIZE = 1464"

definition VBAN_DATA_MAX_SIZE :: nat where
  "VBAN_DATA_MAX_SIZE = VBAN_PROTOCOL_MAX_SIZE - VBAN_HEADER_SIZE"

definition VBAN_CHANNELS_MAX_NB :: nat where
  "VBAN_CHANNELS_MAX_NB = 256"

definition VBAN_SAMPLES_MAX_NB :: nat where
  "VBAN_SAMPLES_MAX_NB = 256"

lemmas vban_sizes = VBAN_HEADER_SIZE_def VBAN_STREAM_NAME_SIZE_def VBAN_PROTOCOL_MAX_SIZE_def
  VBAN_DATA_MAX_SIZE_def VBAN_CHANNELS_MAX_NB_def VBAN_SAMPLES_MAX_NB_def

definition VBanSRList :: "int list" where
  "VBanSRList =
    [6000, 12000, 24000, 48000, 96000, 192000, 384000,
     8000, 16000, 32000, 64000, 128000, 256000, 512000,
     11025, 22050, 44100, 88200, 176400, 352800, 705600]"

text \<open>An access outside the table is undefined.\<close>

definition sr_at :: "nat \<Rightarrow> int option" where
  "sr_at i = (if i < length VBanSRList then Some (VBanSRList ! i) else None)"

datatype VBanBitResolution =
    VBAN_BITFMT_8_INT | VBAN_BITFMT_16_INT | VBAN_BITFMT_24_INT | VBAN_BITFMT_32_INT
  | VBAN_BITFMT_32_FLOAT | VBAN_BITFMT_64_FLOAT | VBAN_BITFMT_12_INT | VBAN_BITFMT_10_INT

fun bitfmt_val :: "VBanBitResolution \<Rightarrow> nat" where
  "bitfmt_val VBAN_BITFMT_8_INT = 0"
| "bitfmt_val VBAN_BITFMT_16_INT = 1"
| "bitfmt_val VBAN_BITFMT_24_INT = 2"
| "bitfmt_val VBAN_BITFMT_32_INT = 3"
| "bitfmt_val VBAN_BITFMT_32_FLOAT = 4"
| "bitfmt_val VBAN_BITFMT_64_FLOAT = 5"
| "bitfmt_val VBAN_BITFMT_12_INT = 6"
| "bitfmt_val VBAN_BITFMT_10_INT = 7"

text \<open>
  The table has eight entries and six initialisers: the sizes of the 12-bit and the 10-bit format
  are zero.
\<close>

definition VBanBitResolutionSize :: "nat list" where
  "VBanBitResolutionSize = [1, 2, 3, 4, 4, 8, 0, 0]"

definition bit_size :: "nat \<Rightarrow> nat option" where
  "bit_size i = (if i < length VBanBitResolutionSize then Some (VBanBitResolutionSize ! i) else None)"

datatype VBanProtocol =
    VBAN_PROTOCOL_AUDIO | VBAN_PROTOCOL_SERIAL | VBAN_PROTOCOL_TXT | VBAN_PROTOCOL_SERVICE
  | VBAN_PROTOCOL_UNDEFINED_1 | VBAN_PROTOCOL_UNDEFINED_2 | VBAN_PROTOCOL_UNDEFINED_3
  | VBAN_PROTOCOL_USER

fun protocol_val :: "VBanProtocol \<Rightarrow> u8" where
  "protocol_val VBAN_PROTOCOL_AUDIO = 0x00"
| "protocol_val VBAN_PROTOCOL_SERIAL = 0x20"
| "protocol_val VBAN_PROTOCOL_TXT = 0x40"
| "protocol_val VBAN_PROTOCOL_SERVICE = 0x60"
| "protocol_val VBAN_PROTOCOL_UNDEFINED_1 = 0x80"
| "protocol_val VBAN_PROTOCOL_UNDEFINED_2 = 0xA0"
| "protocol_val VBAN_PROTOCOL_UNDEFINED_3 = 0xC0"
| "protocol_val VBAN_PROTOCOL_USER = 0xE0"

definition VBAN_PROTOCOL_MASK :: u8 where
  "VBAN_PROTOCOL_MASK = 0xE0"

text \<open>The test \<open>(format_SR & VBAN_PROTOCOL_MASK) == p\<close> of the receivers.\<close>

definition is_protocol :: "VBanProtocol \<Rightarrow> u8 \<Rightarrow> bool" where
  "is_protocol p sr \<longleftrightarrow> sr AND VBAN_PROTOCOL_MASK = protocol_val p"


section \<open>Packets\<close>

record vban_header =
  vban :: u32
  format_SR :: u8
  format_nbs :: u8
  format_nbc :: u8
  format_bit :: u8
  streamname :: "byte list"
  nuFrame :: u32

record vban_packet =
  header :: vban_header
  pdata :: "byte list"

definition header_ok :: "vban_header \<Rightarrow> bool" where
  "header_ok h \<longleftrightarrow> length (streamname h) = VBAN_STREAM_NAME_SIZE"

definition packet_ok :: "vban_packet \<Rightarrow> bool" where
  "packet_ok p \<longleftrightarrow> header_ok (header p) \<and> length (pdata p) = VBAN_DATA_MAX_SIZE"

text \<open>Little-endian 32-bit fields.\<close>

definition le32 :: "u32 \<Rightarrow> byte list" where
  "le32 w = [ucast w, ucast (drop_bit 8 w), ucast (drop_bit 16 w), ucast (drop_bit 24 w)]"

definition of_le32 :: "byte list \<Rightarrow> u32" where
  "of_le32 b = ucast (b ! 0) OR push_bit 8 (ucast (b ! 1)) OR push_bit 16 (ucast (b ! 2))
     OR push_bit 24 (ucast (b ! 3))"

lemma length_le32 [simp]: "length (le32 w) = 4"
  by (simp add: le32_def)

lemma of_le32_le32 [simp]: "of_le32 (le32 w @ xs) = w"
proof (rule bit_word_eqI)
  fix n assume n: "n < LENGTH(32)"
  then show "bit (of_le32 (le32 w @ xs)) n = bit w n"
    by (cases "n < 24"; cases "n < 16") (auto simp: of_le32_def le32_def bit_simps)
qed

lemma of_le32_4: "of_le32 [a, b, c, d] =
    ucast a OR push_bit 8 (ucast b) OR push_bit 16 (ucast c) OR push_bit 24 (ucast d)"
  by (simp add: of_le32_def)

lemma byte_of_4:
  fixes a b c d :: byte
  defines "w \<equiv> (ucast a OR push_bit 8 (ucast b) OR push_bit 16 (ucast c) OR push_bit 24 (ucast d) :: u32)"
  shows "ucast w = a" and "ucast (drop_bit 8 w) = b" and "ucast (drop_bit 16 w) = c"
    and "ucast (drop_bit 24 w) = d"
  by (rule bit_word_eqI; auto simp: w_def bit_simps dest: bit_imp_le_length)+

lemma le32_of_le32:
  assumes "length b = 4"
  shows "le32 (of_le32 b) = b"
proof -
  obtain x y z w where b: "b = [x, y, z, w]"
    using assms by (auto simp: numeral_eq_Suc length_Suc_conv)
  show ?thesis unfolding b le32_def of_le32_4 byte_of_4 ..
qed

text \<open>The packed structure in memory, and the structure a block of memory holds.\<close>

definition header_bytes :: "vban_header \<Rightarrow> byte list" where
  "header_bytes h = le32 (vban h) @ [format_SR h, format_nbs h, format_nbc h, format_bit h] @
     streamname h @ le32 (nuFrame h)"

definition header_of_bytes :: "byte list \<Rightarrow> vban_header" where
  "header_of_bytes b =
     \<lparr>vban = of_le32 b, format_SR = b ! 4, format_nbs = b ! 5, format_nbc = b ! 6,
      format_bit = b ! 7, streamname = take 16 (drop 8 b), nuFrame = of_le32 (drop 24 b)\<rparr>"

definition packet_bytes :: "vban_packet \<Rightarrow> byte list" where
  "packet_bytes p = header_bytes (header p) @ pdata p"

definition packet_of_bytes :: "byte list \<Rightarrow> vban_packet" where
  "packet_of_bytes b = \<lparr>header = header_of_bytes b, pdata = drop VBAN_HEADER_SIZE b\<rparr>"

lemma length_header_bytes: "header_ok h \<Longrightarrow> length (header_bytes h) = VBAN_HEADER_SIZE"
  by (simp add: header_bytes_def header_ok_def vban_sizes)

lemma length_packet_bytes: "packet_ok p \<Longrightarrow> length (packet_bytes p) = VBAN_PROTOCOL_MAX_SIZE"
  by (simp add: packet_bytes_def packet_ok_def length_header_bytes) (simp add: vban_sizes)

lemma header_of_bytes_header_bytes:
  assumes "header_ok h"
  shows "header_of_bytes (header_bytes h @ xs) = h"
proof -
  have s: "length (streamname h) = 16" using assms by (simp add: header_ok_def vban_sizes)
  have "drop 8 (header_bytes h @ xs) = streamname h @ le32 (nuFrame h) @ xs"
    by (simp add: header_bytes_def)
  moreover have "drop 24 (header_bytes h @ xs) = le32 (nuFrame h) @ xs"
    using s by (simp add: header_bytes_def)
  moreover have "(header_bytes h @ xs) ! 4 = format_SR h" "(header_bytes h @ xs) ! 5 = format_nbs h"
      "(header_bytes h @ xs) ! 6 = format_nbc h" "(header_bytes h @ xs) ! 7 = format_bit h"
    by (simp_all add: header_bytes_def nth_append)
  moreover have "of_le32 (header_bytes h @ xs) = vban h" by (simp add: header_bytes_def)
  ultimately show ?thesis using s by (simp add: header_of_bytes_def)
qed

lemma packet_of_bytes_packet_bytes: "packet_ok p \<Longrightarrow> packet_of_bytes (packet_bytes p) = p"
  by (simp add: packet_of_bytes_def packet_bytes_def packet_ok_def header_of_bytes_header_bytes
      length_header_bytes)

text \<open>Bytes received into a packet overwrite its front and leave the rest.\<close>

definition packet_store :: "vban_packet \<Rightarrow> byte list \<Rightarrow> vban_packet" where
  "packet_store p bs = packet_of_bytes (blit (packet_bytes p) 0 bs)"

lemma packet_of_bytes_ok: "length b = VBAN_PROTOCOL_MAX_SIZE \<Longrightarrow> packet_ok (packet_of_bytes b)"
  by (simp add: packet_ok_def packet_of_bytes_def header_ok_def header_of_bytes_def vban_sizes)

lemma packet_store_ok:
  assumes "packet_ok p" and "length bs \<le> VBAN_PROTOCOL_MAX_SIZE"
  shows "packet_ok (packet_store p bs)"
  unfolding packet_store_def
  using assms length_packet_bytes [of p] by (intro packet_of_bytes_ok) (simp add: length_blit)

text \<open>The loop-back of the wire format: what is sent is what is received.\<close>

lemma packet_store_whole:
  assumes "packet_ok p" and "packet_ok q"
  shows "packet_store q (packet_bytes p) = p"
proof -
  have "blit (packet_bytes q) 0 (packet_bytes p) = packet_bytes p"
    using assms by (simp add: blit_0 length_packet_bytes)
  then show ?thesis using assms by (simp add: packet_store_def packet_of_bytes_packet_bytes)
qed

definition vban_inc_nuFrame :: "vban_header \<Rightarrow> vban_header" where
  "vban_inc_nuFrame h = h\<lparr>nuFrame := nuFrame h + 1\<rparr>"

definition zero_header :: vban_header where
  "zero_header = \<lparr>vban = 0, format_SR = 0, format_nbs = 0, format_nbc = 0, format_bit = 0,
     streamname = replicate VBAN_STREAM_NAME_SIZE 0, nuFrame = 0\<rparr>"

definition zero_packet :: vban_packet where
  "zero_packet = \<lparr>header = zero_header, pdata = replicate VBAN_DATA_MAX_SIZE 0\<rparr>"

lemma zero_packet_ok [simp]: "packet_ok zero_packet"
  by (simp add: packet_ok_def header_ok_def zero_packet_def zero_header_def)


lemma packet_bytes_packet_of_bytes:
  assumes "length b = VBAN_PROTOCOL_MAX_SIZE"
  shows "packet_bytes (packet_of_bytes b) = b"
proof -
  have len: "length b = 1464" using assms(1) by (simp add: vban_sizes)
  have l4: "le32 (of_le32 b) = take 4 b"
  proof -
    have "of_le32 b = of_le32 (take 4 b)" using len by (simp add: of_le32_def)
    then show ?thesis using len by (simp add: le32_of_le32)
  qed
  have l24: "le32 (of_le32 (drop 24 b)) = take 4 (drop 24 b)"
  proof -
    have "of_le32 (drop 24 b) = of_le32 (take 4 (drop 24 b))" using len by (simp add: of_le32_def)
    then show ?thesis using len by (simp add: le32_of_le32)
  qed
  have four: "take 4 (drop 4 b) = [b ! 4, b ! 5, b ! 6, b ! 7]"
    using len by (intro nth_equalityI) (auto simp: less_Suc_eq numeral_eq_Suc)
  have d: "drop 4 (drop 24 b) = drop 28 b" "drop 16 (drop 8 b) = drop 24 b" "drop 4 (drop 4 b) = drop 8 b"
    by simp_all
  have "packet_bytes (packet_of_bytes b) = take 4 b @ take 4 (drop 4 b) @ take 16 (drop 8 b) @
      take 4 (drop 24 b) @ drop 28 b"
    by (simp add: packet_bytes_def packet_of_bytes_def header_bytes_def header_of_bytes_def l4 l24 four vban_sizes)
  also have "\<dots> = b" by (metis append_take_drop_id d)
  finally show ?thesis .
qed


section \<open>The protocol field\<close>

lemma protocol_val_inj: "protocol_val p = protocol_val q \<longleftrightarrow> p = q"
  by (cases p; cases q) simp_all

lemma masked_bits:
  fixes sr :: u8
  shows "sr AND VBAN_PROTOCOL_MASK = push_bit 5 (of_bool (bit sr 5)) OR push_bit 6 (of_bool (bit sr 6)) OR
    push_bit 7 (of_bool (bit sr 7))"
proof (rule bit_word_eqI)
  fix n assume "n < LENGTH(8)"
  then have "n \<in> {0, 1, 2, 3, 4, 5, 6, 7}" by auto
  then show "bit (sr AND VBAN_PROTOCOL_MASK) n = bit (push_bit 5 (of_bool (bit sr 5)) OR
      push_bit 6 (of_bool (bit sr 6)) OR push_bit 7 (of_bool (bit sr 7)) :: u8) n"
    by (auto simp: VBAN_PROTOCOL_MASK_def bit_simps bit_numeral_rec numeral_eq_Suc split: if_splits)
qed

lemma masked_protocol: "\<exists>p. sr AND VBAN_PROTOCOL_MASK = protocol_val p"
proof -
  have "sr AND VBAN_PROTOCOL_MASK \<in> protocol_val ` {VBAN_PROTOCOL_AUDIO, VBAN_PROTOCOL_SERIAL,
      VBAN_PROTOCOL_TXT, VBAN_PROTOCOL_SERVICE, VBAN_PROTOCOL_UNDEFINED_1, VBAN_PROTOCOL_UNDEFINED_2,
      VBAN_PROTOCOL_UNDEFINED_3, VBAN_PROTOCOL_USER}"
    unfolding masked_bits by simp
  then show ?thesis by blast
qed

text \<open>Every first byte selects exactly one protocol.\<close>

lemma is_protocol_unique: "\<exists>!p. is_protocol p sr"
  using masked_protocol [of sr] by (auto simp: is_protocol_def protocol_val_inj)


section \<open>Sample rates\<close>

text \<open>The loop of \<open>vban_get_format_SR\<close> from index \<open>i\<close> on.\<close>

fun find_SR :: "int \<Rightarrow> int list \<Rightarrow> int \<Rightarrow> int" where
  "find_SR rate [] i = -1"
| "find_SR rate (r # rs) i = (if rate = r then i else find_SR rate rs (i + 1))"

definition vban_get_format_SR :: "int \<Rightarrow> int" where
  "vban_get_format_SR host_samplerate = find_SR host_samplerate VBanSRList 0"

lemma find_SR_range: "find_SR r rs i = -1 \<and> r \<notin> set rs \<or>
    (\<exists>k < length rs. find_SR r rs i = i + int k \<and> rs ! k = r)"
proof (induction rs arbitrary: i)
  case (Cons a rs)
  show ?case
  proof (cases "r = a")
    case False
    from Cons.IH [of "i + 1"] show ?thesis
    proof
      assume "\<exists>k<length rs. find_SR r rs (i + 1) = i + 1 + int k \<and> rs ! k = r"
      then obtain k where "k < length rs" "find_SR r rs (i + 1) = i + 1 + int k" "rs ! k = r" by blast
      then show ?thesis using False by (intro disjI2 exI [of _ "Suc k"]) simp
    qed (use False in simp)
  qed (intro disjI2 exI [of _ 0]; simp)
qed simp

lemma distinct_VBanSRList: "distinct VBanSRList"
  by (simp add: VBanSRList_def)

lemma vban_get_format_SR_nth:
  assumes "i < 21"
  shows "vban_get_format_SR (VBanSRList ! i) = int i"
proof -
  have len: "length VBanSRList = 21" by (simp add: VBanSRList_def)
  from find_SR_range [of "VBanSRList ! i" VBanSRList 0] show ?thesis
  proof
    assume "find_SR (VBanSRList ! i) VBanSRList 0 = - 1 \<and> VBanSRList ! i \<notin> set VBanSRList"
    then show ?thesis using assms len by simp
  next
    assume "\<exists>k<length VBanSRList. find_SR (VBanSRList ! i) VBanSRList 0 = 0 + int k \<and>
      VBanSRList ! k = VBanSRList ! i"
    then obtain k where "k < length VBanSRList" "find_SR (VBanSRList ! i) VBanSRList 0 = int k"
        "VBanSRList ! k = VBanSRList ! i" by auto
    then show ?thesis
      using assms len distinct_VBanSRList by (simp add: vban_get_format_SR_def nth_eq_iff_index_eq)
  qed
qed

section \<open>Properties\<close>



text \<open>
  Every value of the first format byte selects exactly one sub-protocol, and the bytes on the
  wire of an audio packet start with the characters \<open>VBAN\<close>.
\<close>

theorem protocol_dispatch:
  "(\<exists>!p. is_protocol p sr) \<and>
    take 4 (header_bytes (h\<lparr>vban := VBAN_HEADER_FOURC\<rparr>)) = bytes_of ''VBAN''"
proof
  show "\<exists>!p. is_protocol p sr" by (rule is_protocol_unique)
  have "le32 VBAN_HEADER_FOURC = bytes_of ''VBAN''"
    by (simp add: le32_def VBAN_HEADER_FOURC_def bytes_of_def)
  then show "take 4 (header_bytes (h\<lparr>vban := VBAN_HEADER_FOURC\<rparr>)) = bytes_of ''VBAN''"
    by (simp add: header_bytes_def)
qed

text \<open>
  \<open>vban_get_format_SR\<close> inverts the sample rate table: the index of an entry is found, an index
  found names the rate, and -1 is returned exactly for rates that are not in the table.
\<close>

theorem format_SR_inverts_table:
  "(i < 21 \<longrightarrow> vban_get_format_SR (VBanSRList ! i) = int i) \<and>
    (vban_get_format_SR r = -1 \<longleftrightarrow> r \<notin> set VBanSRList) \<and>
    (r \<in> set VBanSRList \<longrightarrow> sr_at (nat (vban_get_format_SR r)) = Some r)"
  using vban_get_format_SR_nth [of i] find_SR_range [of r VBanSRList 0]
  by (auto simp: vban_get_format_SR_def sr_at_def)

theorem format_SR_inverts_table_witness:
  "vban_get_format_SR (VBanSRList ! 3) = 3 \<and> (vban_get_format_SR 48001 = -1) = (48001 \<notin> set VBanSRList) \<and>
    sr_at (nat (vban_get_format_SR 48000)) = Some 48000"
proof -
  have "48000 \<in> set VBanSRList" by (simp add: VBanSRList_def)
  then show ?thesis
    using format_SR_inverts_table [of 3 48000] format_SR_inverts_table [of 3 48001] by simp
qed

end
