(* ===== verification/Packets.thy ===== *)
theory Packets
  imports Vban Ringbuffer
begin

text \<open>
  The size computations of \<open>vban_common/vban_functions.h\<close>: how much of a packet holds whole
  frames, how a period is cut into packets, and the ring and the buffers allocated for them.
  Sizes of type \<open>uint\<close>, \<open>uint16_t\<close> and \<open>uint8_t\<close> are natural numbers with their wrap-around.
\<close>

section \<open>Whole frames in a packet\<close>

definition vban_strip_vban_packet :: "nat \<Rightarrow> nat \<Rightarrow> nat option" where
  "vban_strip_vban_packet fb nbchannels = do {
     size \<leftarrow> bit_size fb;
     let framesize = (size * nbchannels) mod 2 ^ 32;
     nframes \<leftarrow> udiv VBAN_DATA_MAX_SIZE framesize;
     let nframes = (if nframes > VBAN_SAMPLES_MAX_NB then VBAN_SAMPLES_MAX_NB else nframes);
     Some ((nframes * framesize) mod 2 ^ 32) }"

definition vban_strip_vban_data :: "nat \<Rightarrow> nat \<Rightarrow> nat \<Rightarrow> nat option" where
  "vban_strip_vban_data datasize fb nbchannels = do {
     size \<leftarrow> bit_size fb;
     let framesize = (size * nbchannels) mod 2 ^ 32;
     nframes \<leftarrow> udiv datasize framesize;
     let nframes = (if nframes > VBAN_SAMPLES_MAX_NB then VBAN_SAMPLES_MAX_NB else nframes);
     Some ((nframes * framesize) mod 2 ^ 32) }"

definition vban_calc_nbs :: "nat \<Rightarrow> nat \<Rightarrow> nat \<Rightarrow> nat option" where
  "vban_calc_nbs datasize resolution nbchannels = do {
     size \<leftarrow> bit_size resolution;
     q \<leftarrow> udiv datasize size;
     Some ((q * nbchannels) mod 2 ^ 32) }"

definition vban_packet_to_float_buffer :: "nat \<Rightarrow> nat \<Rightarrow> nat option" where
  "vban_packet_to_float_buffer pktdatalen resolution = do {
     size \<leftarrow> bit_size resolution;
     q \<leftarrow> udiv (umul 4 pktdatalen) size;
     Some (q mod 2 ^ 32) }"


section \<open>Cutting a period into packets\<close>

text \<open>
  \<open>*pacdatalen\<close> and \<open>*pacnum\<close> are \<open>uint16_t\<close>. The quotient of the loop test is evaluated only
  when the first test fails. The loop halves \<open>*pacdatalen\<close>, so it ends.
\<close>

function tx_packets_loop :: "int \<Rightarrow> nat \<Rightarrow> nat \<Rightarrow> (nat \<times> nat) option" where
  "tx_packets_loop fsize pacdatalen pacnum =
     (if pacdatalen > VBAN_DATA_MAX_SIZE
      then tx_packets_loop fsize (pacdatalen div 2) ((pacnum * 2) mod 2 ^ 16)
      else case c_div (int pacdatalen) fsize of
          None \<Rightarrow> None
        | Some q \<Rightarrow>
            if q > 256 then tx_packets_loop fsize (pacdatalen div 2) ((pacnum * 2) mod 2 ^ 16)
            else Some (pacdatalen, pacnum))"
  by pat_completeness auto
termination
proof (relation "measure (\<lambda>(f, l, n). l)")
  fix fsize q :: int and pacdatalen pacnum :: nat
  assume "c_div (int pacdatalen) fsize = Some q" and "256 < q"
  then have "pacdatalen \<noteq> 0" by (cases "pacdatalen = 0") (auto simp: c_div_def c_int_def split: if_splits)
  then show "((fsize, pacdatalen div 2, (pacnum * 2) mod 2 ^ 16), (fsize, pacdatalen, pacnum))
      \<in> measure (\<lambda>(f, l, n). l)" by simp
qed (simp_all add: vban_sizes)

declare tx_packets_loop.simps [simp del]

definition vban_compute_tx_packets :: "int \<Rightarrow> int \<Rightarrow> int \<Rightarrow> (nat \<times> nat \<times> nat) option" where
  "vban_compute_tx_packets nframes nbchannels bitres = do {
     p1 \<leftarrow> c_int (nframes * nbchannels);
     p2 \<leftarrow> c_int (p1 * bitres);
     fsize \<leftarrow> c_int (bitres * nbchannels);
     (pacdatalen, pacnum) \<leftarrow> tx_packets_loop fsize (to_u16 p2) 1;
     q \<leftarrow> c_div (int pacdatalen) fsize;
     Some (to_u8 (q - 1), pacdatalen, pacnum) }"


section \<open>The ring of a receiver\<close>

text \<open>
  \<open>calloc\<close> and the two \<open>malloc\<close> of \<open>ringbuffer_create\<close> are the arguments \<open>rb_mem\<close> and \<open>alloc\<close>:
  \<open>alloc n\<close> is the block of \<open>n\<close> bytes the allocator returns. The old ring, if any, is freed.
  \<open>rbsize\<close> is an \<open>int\<close>; a failed allocation makes the following \<open>memset\<close> undefined.
\<close>

definition vban_compute_rx_ringbuffer ::
    "bool \<Rightarrow> (nat \<Rightarrow> byte list option) \<Rightarrow> int \<Rightarrow> int \<Rightarrow> int \<Rightarrow> int \<Rightarrow> ringbuffer option" where
  "vban_compute_rx_ringbuffer rb_mem alloc nframes nframes_pac nbchannels redundancy = do {
     let nframes = (if nframes > nframes_pac then nframes else nframes_pac);
     a \<leftarrow> c_int (2 * nframes);
     b \<leftarrow> c_int (a * nbchannels);
     r1 \<leftarrow> c_int (redundancy + 1);
     c \<leftarrow> c_int (b * r1);
     let rbsize = to_size (to_i32 (int (umul (to_size c) 4)));
     rb \<leftarrow> ringbuffer_create rb_mem (alloc rbsize) rbsize;
     buf \<leftarrow> mem_store (rb_buf rb) 0 (replicate (rb_size rb) 0);
     let rb = rb\<lparr>rb_buf := buf\<rparr>;
     if redundancy > 0 then do {
       let div' = (if redundancy < 2 then 2 else 1);
       let sz = drop_bit div' (rb_size rb);
       (rb', _) \<leftarrow> ringbuffer_write rb (replicate sz 0) sz;
       Some rb'
     } else Some rb }"


section \<open>Line buffers\<close>

text \<open>
  A buffer is \<^const>\<open>None\<close> (a null pointer) or its content. \<open>vban_free_line_buffer\<close> assigns its
  parameter \<open>bufsize\<close>, not the integer it points to: the caller's length is unchanged.
\<close>

definition vban_free_line_buffer :: "'a list option \<Rightarrow> int \<Rightarrow> 'a list option \<times> int" where
  "vban_free_line_buffer buffer bufsize =
     ((case buffer of None \<Rightarrow> None | Some b \<Rightarrow> None), bufsize)"

definition vban_compute_rx_buffer ::
    "(nat \<Rightarrow> 'a list option) \<Rightarrow> int \<Rightarrow> int \<Rightarrow> 'a list option \<Rightarrow> int \<Rightarrow> int \<Rightarrow> ('a list option \<times> int) option" where
  "vban_compute_rx_buffer alloc nframes nbchannels rxbuffer rxbuflen lagrange_add = do {
     let (rxbuffer, rxbuflen) = vban_free_line_buffer rxbuffer rxbuflen;
     a \<leftarrow> c_int (nframes + lagrange_add);
     rxbuflen \<leftarrow> c_int (nbchannels * a);
     Some (alloc (to_size rxbuflen), rxbuflen) }"

definition vban_compute_line_buffer ::
    "(nat \<Rightarrow> byte list option) \<Rightarrow> byte list option \<Rightarrow> int \<Rightarrow> int \<Rightarrow> int \<Rightarrow> (byte list option \<times> int) option" where
  "vban_compute_line_buffer alloc buffer nframes nbchannels bitres = do {
     a \<leftarrow> c_int (nframes * nbchannels);
     size \<leftarrow> c_int (a * bitres);
     let (buffer, _) = vban_free_line_buffer buffer 0;
     Some (alloc (to_size size), size) }"


section \<open>Properties of the stripped sizes\<close>

lemma bit_size_simps [simp]:
  "bit_size 0 = Some 1" "bit_size (Suc 0) = Some 2" "bit_size 1 = Some 2" "bit_size 2 = Some 3"
  "bit_size 3 = Some 4" "bit_size 4 = Some 4" "bit_size 5 = Some 8" "bit_size 6 = Some 0"
  "bit_size 7 = Some 0"
  by (simp_all add: bit_size_def VBanBitResolutionSize_def)

lemma bit_size_le:
  assumes "bit_size i = Some n"
  shows "n \<le> 8"
proof -
  have "n \<in> set VBanBitResolutionSize"
    using assms by (auto simp: bit_size_def split: if_splits)
  then show ?thesis by (auto simp: VBanBitResolutionSize_def)
qed

text \<open>The number of bytes of the whole frames in \<open>tot\<close> bytes, at most 256 of them.\<close>

definition whole_frames :: "nat \<Rightarrow> nat \<Rightarrow> nat" where
  "whole_frames tot fs = min (tot div fs) 256 * fs"

lemma whole_frames_le: "whole_frames tot fs \<le> tot"
proof -
  have "min (tot div fs) 256 * fs \<le> tot div fs * fs" by simp
  also have "\<dots> \<le> tot" by (rule div_times_less_eq_dividend)
  finally show ?thesis by (simp add: whole_frames_def)
qed

lemma whole_frames_max:
  "0 < fs \<Longrightarrow> k \<le> 256 \<Longrightarrow> k * fs \<le> tot \<Longrightarrow> k * fs \<le> whole_frames tot fs"
  by (simp add: whole_frames_def less_eq_div_iff_mult_less_eq)

lemma framesize_small: "bit_size fb = Some sz \<Longrightarrow> nb < 65536 \<Longrightarrow> sz * nb < 2 ^ 32"
proof -
  assume "bit_size fb = Some sz" "nb < 65536"
  then have "sz * nb \<le> 8 * 65536" by (intro mult_mono) (auto dest: bit_size_le)
  then show ?thesis by simp
qed

lemma strip_data_eq:
  assumes "bit_size fb = Some sz" and "nb < 65536" and "0 < sz * nb" and "datasize < 2 ^ 32"
  shows "vban_strip_vban_data datasize fb nb = Some (whole_frames datasize (sz * nb))"
proof -
  have fs: "(sz * nb) mod 2 ^ 32 = sz * nb" using framesize_small assms by simp
  have "whole_frames datasize (sz * nb) mod 2 ^ 32 = whole_frames datasize (sz * nb)"
    using whole_frames_le [of datasize "sz * nb"] assms by simp
  then show ?thesis
    using assms fs
    by (simp add: vban_strip_vban_data_def Let_def VBAN_SAMPLES_MAX_NB_def whole_frames_def min_def
        split: if_splits)
qed

lemma strip_packet_eq:
  assumes "bit_size fb = Some sz" and "nb < 65536" and "0 < sz * nb"
  shows "vban_strip_vban_packet fb nb = Some (whole_frames VBAN_DATA_MAX_SIZE (sz * nb))"
proof -
  have "vban_strip_vban_packet fb nb = vban_strip_vban_data VBAN_DATA_MAX_SIZE fb nb"
    by (simp add: vban_strip_vban_packet_def vban_strip_vban_data_def)
  then show ?thesis using strip_data_eq [OF assms] by (simp add: vban_sizes)
qed


section \<open>Properties of the cutting loop\<close>

text \<open>The packet length after \<open>k\<close> halvings is small enough.\<close>

definition packet_fits :: "nat \<Rightarrow> nat \<Rightarrow> bool" where
  "packet_fits fs len \<longleftrightarrow> len \<le> VBAN_DATA_MAX_SIZE \<and> len div fs \<le> 256"

lemma tx_packets_loop_step:
  assumes "0 < fs" and "fs < 2 ^ 31" and "len < 2 ^ 16"
  shows "tx_packets_loop (int fs) len num =
    (if packet_fits fs len then Some (len, num)
     else tx_packets_loop (int fs) (len div 2) ((num * 2) mod 2 ^ 16))"
proof -
  have "c_div (int len) (int fs) = Some (int (len div fs))" using assms by (simp add: c_div_nat)
  then show ?thesis
    by (subst tx_packets_loop.simps) (simp add: packet_fits_def not_le)
qed

lemma packet_fits_zero [simp]: "packet_fits fs 0"
  by (simp add: packet_fits_def)

lemma tx_packets_loop_ok:
  assumes "0 < fs" and "fs < 2 ^ 31" and "len < 2 ^ 16" and "num < 2 ^ 16"
  shows "\<exists>k. tx_packets_loop (int fs) len num = Some (len div 2 ^ k, (num * 2 ^ k) mod 2 ^ 16) \<and>
    packet_fits fs (len div 2 ^ k) \<and> (\<forall>j<k. \<not> packet_fits fs (len div 2 ^ j))"
  using assms(3,4)
proof (induction len arbitrary: num rule: less_induct)
  case (less len)
  show ?case
  proof (cases "packet_fits fs len")
    case True
    then show ?thesis
      using tx_packets_loop_step [OF assms(1,2) less.prems(1)] less.prems(2)
      by (intro exI [of _ 0]) simp
  next
    case False
    then have "0 < len" by (cases "len = 0") auto
    then have "len div 2 < len" "len div 2 < 2 ^ 16" using less.prems(1) by auto
    moreover have "(num * 2) mod 2 ^ 16 < (2::nat) ^ 16" by simp
    ultimately obtain k where k: "tx_packets_loop (int fs) (len div 2) ((num * 2) mod 2 ^ 16) =
        Some (len div 2 div 2 ^ k, ((num * 2) mod 2 ^ 16 * 2 ^ k) mod 2 ^ 16)"
        "packet_fits fs (len div 2 div 2 ^ k)" "\<forall>j<k. \<not> packet_fits fs (len div 2 div 2 ^ j)"
      using less.IH [of "len div 2" "(num * 2) mod 2 ^ 16"] by blast
    have "((num * 2) mod 2 ^ 16 * 2 ^ k) mod 2 ^ 16 = (num * 2 ^ Suc k) mod (2 ^ 16 :: nat)"
      by (simp add: mod_mult_left_eq mult.assoc)
    moreover have "\<not> packet_fits fs (len div 2 ^ j)" if "j < Suc k" for j
      using k(3) that False by (cases j) (auto simp: div_mult2_eq)
    ultimately show ?thesis
      using k(1,2) False tx_packets_loop_step [OF assms(1,2) less.prems(1), of num]
      by (intro exI [of _ "Suc k"]) (simp add: div_mult2_eq)
  qed
qed

lemma halvings_bound:
  assumes "0 < fs" and "len < 2 ^ 16" and "\<forall>j<k. \<not> packet_fits fs (len div 2 ^ j)"
  shows "k \<le> 8"
proof (rule ccontr)
  assume "\<not> k \<le> 8"
  then have "8 < k" by simp
  with assms(3) have nofit: "\<not> packet_fits fs (len div 2 ^ 8)" by blast
  have "len div 2 ^ 8 < 256" using assms(2) by (simp add: less_mult_imp_div_less)
  moreover have "len div 2 ^ 8 div fs \<le> len div 2 ^ 8" by (rule div_le_dividend)
  ultimately have "packet_fits fs (len div 2 ^ 8)" unfolding packet_fits_def vban_sizes by linarith
  then show False using nofit by simp
qed

text \<open>
  Positive sizes that fit the 16-bit length: the period is cut into \<open>2 ^ k\<close> packets with the
  least \<open>k\<close> for which a packet fits the datagram and the 256-sample limit.
\<close>

lemma compute_tx_packets_ok:
  assumes pos: "0 < nframes" "0 < nb" "0 < res" and small: "nframes * nb * res < 2 ^ 16"
  defines "tot \<equiv> nframes * nb * res" and "fs \<equiv> res * nb"
  shows "\<exists>k \<le> 8. vban_compute_tx_packets (int nframes) (int nb) (int res) =
      Some (to_u8 (int (tot div 2 ^ k div fs) - 1), tot div 2 ^ k, 2 ^ k) \<and>
    packet_fits fs (tot div 2 ^ k) \<and> (\<forall>j<k. \<not> packet_fits fs (tot div 2 ^ j))"
proof -
  have tot: "tot = nframes * fs" by (simp add: tot_def fs_def)
  have fs: "0 < fs" "fs \<le> tot" using pos by (auto simp: fs_def tot_def)
  have tl: "tot < 2 ^ 16" using small by (simp add: tot_def)
  have nnb: "nframes * nb \<le> tot" using pos by (simp add: tot_def)
  have c1: "c_int (int nframes * int nb) = Some (int (nframes * nb))"
    using tl nnb by (intro c_int_mult) simp
  have c2: "c_int (int (nframes * nb) * int res) = Some (int tot)"
    using tl unfolding tot_def by (intro c_int_mult) simp
  have c3: "c_int (int res * int nb) = Some (int fs)"
    using tl fs unfolding fs_def by (intro c_int_mult) simp
  have u16: "to_u16 (int tot) = tot" using tl by (simp add: to_u16_small)
  obtain k where k: "tx_packets_loop (int fs) tot 1 = Some (tot div 2 ^ k, (1 * 2 ^ k) mod 2 ^ 16)"
      "packet_fits fs (tot div 2 ^ k)" "\<forall>j<k. \<not> packet_fits fs (tot div 2 ^ j)"
    using tx_packets_loop_ok [of fs tot 1] fs tl by auto
  have k8: "k \<le> 8" using halvings_bound [OF fs(1) tl k(3)] .
  then have "(2::nat) ^ k \<le> 2 ^ 8" by (intro power_increasing) auto
  then have num: "(1 * 2 ^ k) mod 2 ^ 16 = (2::nat) ^ k" by simp
  have "tot div 2 ^ k < 2 ^ 31" using order_le_less_trans [OF div_le_dividend tl, of "2 ^ k"] by simp
  then have q: "c_div (int (tot div 2 ^ k)) (int fs) = Some (int (tot div 2 ^ k div fs))"
    using fs by (simp only: c_div_nat)
  have "vban_compute_tx_packets (int nframes) (int nb) (int res) =
      Some (to_u8 (int (tot div 2 ^ k div fs) - 1), tot div 2 ^ k, 2 ^ k)"
    by (simp only: vban_compute_tx_packets_def c1 c2 c3 u16 k(1) num q Option.bind.bind_lunit
        case_prod_conv)
  then show ?thesis using k8 k(2,3) by blast
qed


text \<open>With a frame count that is a multiple of the number of packets no byte is left over.\<close>

lemma even_cut:
  fixes k nframes fs :: nat
  assumes "2 ^ k dvd nframes" and "0 < fs"
  shows "nframes * fs div 2 ^ k = (nframes div 2 ^ k) * fs"
    and "nframes * fs div 2 ^ k div fs = nframes div 2 ^ k"
    and "2 ^ k * (nframes * fs div 2 ^ k) = nframes * fs"
  using assms by (auto simp: dvd_def)

text \<open>A period of a power of two frames is always cut into whole frames.\<close>

lemma pow2_cut:
  assumes k: "\<forall>j<k. \<not> packet_fits fs (2 ^ m * fs div 2 ^ j)" and fs: "0 < fs" "fs \<le> VBAN_DATA_MAX_SIZE"
  shows "k \<le> m"
proof (rule ccontr)
  assume "\<not> k \<le> m"
  then have "m < k" by simp
  with k have "\<not> packet_fits fs (2 ^ m * fs div 2 ^ m)" by blast
  then show False using fs by (simp add: packet_fits_def)
qed


section \<open>Properties of the receiver's ring\<close>

text \<open>
  The ring is empty without redundancy and otherwise starts with a quarter or a half of its size in
  zero bytes; it holds whole frames.
\<close>

definition rx_prefill :: "nat \<Rightarrow> nat \<Rightarrow> nat" where
  "rx_prefill redundancy sz = (if redundancy = 0 then 0 else if redundancy = 1 then sz div 4 else sz div 2)"

lemma compute_rx_ringbuffer_ok:
  assumes pos: "0 < nframes" "0 < nb" and small: "2 * max nframes nfp * nb * (red + 1) < 2 ^ 28"
    and alloc: "\<And>n. \<exists>b. alloc n = Some b \<and> length b = n"
  defines "sz \<equiv> 8 * max nframes nfp * nb * (red + 1)"
  shows "\<exists>rb. vban_compute_rx_ringbuffer True alloc (int nframes) (int nfp) (int nb) (int red) = Some rb \<and>
    rb_ok rb \<and> rb_size rb = sz \<and> rb_abs rb = replicate (rx_prefill red sz) 0"
proof -
  let ?f = "max nframes nfp"
  have le: "2 * ?f \<le> 2 * ?f * nb" "2 * ?f * nb \<le> 2 * ?f * nb * (red + 1)" "red + 1 \<le> 2 * ?f * nb * (red + 1)"
    using mult_le_mono [of "2 * ?f" "2 * ?f" 1 nb] mult_le_mono [of "2 * ?f * nb" "2 * ?f * nb" 1 "red + 1"]
      mult_le_mono [of 1 "2 * ?f * nb" "red + 1" "red + 1"] pos by (simp_all add: Suc_le_eq)
  have f: "(if int nframes > int nfp then int nframes else int nfp) = int ?f" by (simp add: max_def)
  have c1: "c_int (2 * int ?f) = Some (int (2 * ?f))"
    using le small c_int_mult [of 2 ?f] by simp
  have c2: "c_int (int (2 * ?f) * int nb) = Some (int (2 * ?f * nb))"
    by (rule c_int_mult [OF order_le_less_trans [OF le(2) order_less_le_trans [OF small]]]) simp
  have c3: "c_int (int red + 1) = Some (int (red + 1))"
    using le small c_int_add [of red 1] by simp
  have c4: "c_int (int (2 * ?f * nb) * int (red + 1)) = Some (int (2 * ?f * nb * (red + 1)))"
    using small by (intro c_int_mult) simp
  have "to_size (int (2 * ?f * nb * (red + 1))) = 2 * ?f * nb * (red + 1)"
    using small by (intro to_size_nat) simp
  then have um: "umul (to_size (int (2 * ?f * nb * (red + 1)))) 4 = sz"
    using small by (simp add: umul_def sz_def)
  have szb: "sz < 2 ^ 30" "0 < sz" using small pos by (auto simp: sz_def)
  have sz: "to_size (to_i32 (int sz)) = sz" using szb by (simp add: to_i32_nat to_size_nat)
  obtain b where b: "alloc sz = Some b" "length b = sz" using alloc by blast
  define rb where "rb = \<lparr>rb_buf = replicate sz 0, write_ptr = 0, read_ptr = 0, rb_size = sz, mlocked = 0\<rparr>"
  have cr: "ringbuffer_create True (alloc sz) sz =
      Some \<lparr>rb_buf = b, write_ptr = 0, read_ptr = 0, rb_size = sz, mlocked = 0\<rparr>"
    by (simp add: ringbuffer_create_def b)
  have ms: "mem_store b 0 (replicate sz 0) = Some (replicate sz 0)"
    using b by (simp add: mem_store_def blit_0)
  have rb: "rb_ok rb" "rb_abs rb = []" "rb_size rb = sz" "rb_cap rb = sz - 1"
    using szb by (auto simp: rb_def rb_ok_def rb_abs_def rb_fill_def rb_cap_def)
  have run: "vban_compute_rx_ringbuffer True alloc (int nframes) (int nfp) (int nb) (int red) =
     (if red > 0 then map_option fst (ringbuffer_write rb (replicate (rx_prefill red sz) 0) (rx_prefill red sz))
      else Some rb)"
    unfolding vban_compute_rx_ringbuffer_def Let_def f c1 c2 c3 c4 Option.bind.bind_lunit um sz cr
    by (auto simp: ms rb_def rx_prefill_def drop_bit_eq_div split: Option.bind_splits option.splits)
  show ?thesis
  proof (cases "red = 0")
    case True
    then show ?thesis using run rb by (simp add: rx_prefill_def)
  next
    case False
    have "rx_prefill red sz \<le> sz - 1" using szb by (auto simp: rx_prefill_def)
    then obtain rb' where "ringbuffer_write rb (replicate (rx_prefill red sz) 0) (rx_prefill red sz) =
        Some (rb', rx_prefill red sz)" "rb_ok rb'" "rb_cap rb' = rb_cap rb"
        "rb_abs rb' = rb_abs rb @ replicate (rx_prefill red sz) 0"
      using ring.push_whole [OF rb(1), of "replicate (rx_prefill red sz) 0"] rb by auto
    moreover from this rb szb have "rb_size rb' = sz" by (auto simp: rb_cap_def rb_ok_def)
    ultimately show ?thesis using run rb False by simp
  qed
qed

text \<open>\<open>rx_prefill\<close> is a whole number of frames of \<open>nb\<close> floats.\<close>

lemma rx_prefill_aligned: "4 * nb dvd rx_prefill red (8 * f * nb * (red + 1))"
proof -
  have "8 * f * nb * (red + 1) div 2 = (4 * nb) * (f * (red + 1))" by (simp add: algebra_simps)
  moreover have "8 * f * nb * 2 div 4 = (4 * nb) * f" by (simp add: algebra_simps)
  ultimately show ?thesis by (auto simp: rx_prefill_def)
qed

section \<open>Properties\<close>

text \<open>
  \<open>vban_strip_vban_packet\<close> and \<open>vban_strip_vban_data\<close> return the largest whole number of frames
  that fits the given size and the limit of 256 samples, for every format with a non-zero size and
  any channel count that fits 16 bits.
\<close>

theorem strip_maximal:
  assumes "bit_size fb = Some sz" and "nb < 65536" and "0 < sz * nb" and "datasize < 2 ^ 32"
  shows "\<exists>n m. vban_strip_vban_packet fb nb = Some (n * (sz * nb)) \<and>
    n \<le> 256 \<and> n * (sz * nb) \<le> VBAN_DATA_MAX_SIZE \<and> (n < 256 \<longrightarrow> VBAN_DATA_MAX_SIZE < Suc n * (sz * nb)) \<and>
    vban_strip_vban_data datasize fb nb = Some (m * (sz * nb)) \<and>
    m \<le> 256 \<and> m * (sz * nb) \<le> datasize \<and> (m < 256 \<longrightarrow> datasize < Suc m * (sz * nb))"
proof -
  have max: "n < 256 \<longrightarrow> t < Suc n * fs" if "n = min (t div fs) 256" "0 < fs" for n t fs :: nat
  proof
    assume "n < 256"
    then have "n = t div fs" using that by simp
    then show "t < Suc n * fs" using dividend_less_div_times [OF that(2), of t] by simp
  qed
  let ?fs = "sz * nb"
  show ?thesis
    using strip_packet_eq [OF assms(1-3)] strip_data_eq [OF assms] max [OF refl assms(3)]
      whole_frames_le [of VBAN_DATA_MAX_SIZE ?fs] whole_frames_le [of datasize ?fs]
    unfolding whole_frames_def
    by (intro exI [of _ "min (VBAN_DATA_MAX_SIZE div ?fs) 256"] exI [of _ "min (datasize div ?fs) 256"])
      (simp del: mult_Suc)
qed

theorem strip_maximal_witness:
  "\<exists>n m. vban_strip_vban_packet 1 2 = Some (n * (2 * 2)) \<and>
    n \<le> 256 \<and> n * (2 * 2) \<le> VBAN_DATA_MAX_SIZE \<and> (n < 256 \<longrightarrow> VBAN_DATA_MAX_SIZE < Suc n * (2 * 2)) \<and>
    vban_strip_vban_data 1000 1 2 = Some (m * (2 * 2)) \<and>
    m \<le> 256 \<and> m * (2 * 2) \<le> 1000 \<and> (m < 256 \<longrightarrow> 1000 < Suc m * (2 * 2))"
  by (rule strip_maximal) (simp_all del: One_nat_def add: bit_size_simps)

text \<open>
  A period of a power of two frames, with frames that fit a datagram and a total below 65536
  bytes, is cut without loss: the packets have the same length, hold whole frames, fit the datagram
  and the 256-sample limit, their number times their length is the whole period, and the sample
  field is the number of frames of a packet minus one.
\<close>

theorem tx_packets_cut_whole_frames:
  assumes nf: "nframes = 2 ^ j" and nb: "0 < nb" and res: "0 < res" "res * nb \<le> VBAN_DATA_MAX_SIZE"
    and small: "nframes * nb * res < 2 ^ 16"
  shows "\<exists>k. vban_compute_tx_packets (int nframes) (int nb) (int res) =
      Some (nframes div 2 ^ k - 1, (nframes div 2 ^ k) * (res * nb), 2 ^ k) \<and>
    2 ^ k dvd nframes \<and> 2 ^ k * ((nframes div 2 ^ k) * (res * nb)) = nframes * nb * res \<and>
    0 < nframes div 2 ^ k \<and> nframes div 2 ^ k \<le> 256 \<and>
    (nframes div 2 ^ k) * (res * nb) \<le> VBAN_DATA_MAX_SIZE"
proof -
  let ?fs = "res * nb" and ?tot = "nframes * nb * res"
  have fs: "0 < ?fs" using nb res by simp
  have tot: "?tot = nframes * ?fs" by simp
  have "0 < nframes" using nf by simp
  from compute_tx_packets_ok [OF this nb res(1) small] obtain k where
      k: "vban_compute_tx_packets (int nframes) (int nb) (int res) =
        Some (to_u8 (int (?tot div 2 ^ k div ?fs) - 1), ?tot div 2 ^ k, 2 ^ k)"
      "packet_fits ?fs (?tot div 2 ^ k)" "\<forall>i<k. \<not> packet_fits ?fs (?tot div 2 ^ i)" by blast
  have "\<forall>i<k. \<not> packet_fits ?fs (2 ^ j * ?fs div 2 ^ i)" 
  proof -
    have "?tot = 2 ^ j * ?fs" using nf by simp
    with k(3) show ?thesis by (simp only:)
  qed
  then have "k \<le> j" using pow2_cut fs res(2) by blast
  then have dvd: "2 ^ k dvd nframes" using nf by (simp add: le_imp_power_dvd)
  note cut = even_cut [OF dvd fs, folded tot]
  have pos: "0 < nframes div 2 ^ k" using \<open>k \<le> j\<close> nf by (simp add: div_greater_zero_iff)
  have le: "nframes div 2 ^ k \<le> 256" "nframes div 2 ^ k * ?fs \<le> VBAN_DATA_MAX_SIZE"
    using k(2) cut(1,2) by (auto simp: packet_fits_def)
  have "to_u8 (int (nframes div 2 ^ k) - 1) = nframes div 2 ^ k - 1"
    using pos le(1) to_u8_nat [of "nframes div 2 ^ k - 1"] by (simp add: of_nat_diff)
  then show ?thesis using k(1) cut dvd pos le by auto
qed

theorem tx_packets_cut_whole_frames_witness:
  "\<exists>k. vban_compute_tx_packets (int 1024) (int 2) (int 2) =
      Some (1024 div 2 ^ k - 1, (1024 div 2 ^ k) * (2 * 2), 2 ^ k) \<and>
    2 ^ k dvd (1024::nat) \<and> 2 ^ k * ((1024 div 2 ^ k) * (2 * 2)) = 1024 * 2 * (2::nat) \<and>
    0 < 1024 div (2 ^ k :: nat) \<and> 1024 div 2 ^ k \<le> (256::nat) \<and>
    (1024 div 2 ^ k) * (2 * 2) \<le> VBAN_DATA_MAX_SIZE"
  by (rule tx_packets_cut_whole_frames [where j = 10]) (simp_all add: vban_sizes)

text \<open>
  From 65536 bytes on, the 16-bit length of \<open>vban_compute_tx_packets\<close> wraps: a period of 1024
  frames of 32 channels of 16 bits is cut into one packet of length 0, with 255 as sample field.
\<close>

theorem tx_packets_length_wraps:
  "vban_compute_tx_packets 1024 32 2 = Some (255, 0, 1)"
  by (simp add: vban_compute_tx_packets_def c_int_def to_u16_def tx_packets_loop.simps vban_sizes
      c_div_def to_u8_def)

text \<open>
  \<open>vban_compute_rx_ringbuffer\<close> makes a well-formed ring of twice the period for every copy, holding
  the documented head start of silence (nothing, a quarter or a half of the ring), and the head
  start is a whole number of float frames. The allocator may return any block of the size asked for.
\<close>

theorem rx_ringbuffer_prefill:
  assumes "0 < nframes" and "0 < nb" and "2 * max nframes nfp * nb * (red + 1) < 2 ^ 28"
    and "\<And>n. \<exists>b. alloc n = Some b \<and> length b = n"
  shows "\<exists>rb. vban_compute_rx_ringbuffer True alloc (int nframes) (int nfp) (int nb) (int red) = Some rb \<and>
    rb_ok rb \<and> rb_size rb = 8 * max nframes nfp * nb * (red + 1) \<and>
    rb_abs rb = replicate (rx_prefill red (rb_size rb)) 0 \<and> 4 * nb dvd length (rb_abs rb)"
proof -
  let ?sz = "8 * max nframes nfp * nb * (red + 1)"
  obtain rb where rb: "vban_compute_rx_ringbuffer True alloc (int nframes) (int nfp) (int nb) (int red) = Some rb"
      "rb_ok rb" "rb_size rb = ?sz" "rb_abs rb = replicate (rx_prefill red ?sz) 0"
    using compute_rx_ringbuffer_ok [OF assms] by blast
  have "length (rb_abs rb) = rx_prefill red ?sz" unfolding rb(4) by (rule length_replicate)
  then have "4 * nb dvd length (rb_abs rb)" using rx_prefill_aligned [of nb red "max nframes nfp"] by (simp only:)
  then show ?thesis using rb by (intro exI [of _ rb]) simp
qed

theorem rx_ringbuffer_prefill_witness:
  "\<exists>rb. vban_compute_rx_ringbuffer True (\<lambda>n. Some (replicate n 7)) (int 64) (int 0) (int 2) (int 1) = Some rb \<and>
    rb_ok rb \<and> rb_size rb = 8 * max 64 0 * 2 * (1 + 1) \<and>
    rb_abs rb = replicate (rx_prefill 1 (rb_size rb)) 0 \<and> 4 * 2 dvd length (rb_abs rb)"
  by (rule rx_ringbuffer_prefill) auto

text \<open>
  \<open>vban_calc_nbs\<close> multiplies where it should divide: for a block of \<open>n\<close> frames of \<open>nb\<close> channels
  it returns \<open>n * nb * nb\<close>, the number of frames only for mono.
\<close>

theorem calc_nbs_not_frames:
  assumes "bit_size fb = Some sz" and "0 < sz" and "n * nb * nb < 2 ^ 32"
  shows "vban_calc_nbs (n * (sz * nb)) fb nb = Some (n * nb * nb)"
  using assms by (simp add: vban_calc_nbs_def)

theorem calc_nbs_not_frames_witness: "vban_calc_nbs (10 * (2 * 4)) 1 4 = Some (10 * 4 * 4)"
  by (rule calc_nbs_not_frames) (simp_all add: bit_size_simps del: One_nat_def)

end
