(* ===== verification/Client_List.thy ===== *)
theory Client_List
  imports Vban
begin

text \<open>
  The linked list of connected clients, \<open>vban_common/vban_client_list.cpp\<close>: nodes on an explicit
  heap, every operation of the file, and the refinement of the operations to operations on the
  abstract list of clients. The interface the multistream receiver relies on is the locale
  \<open>registry\<close>; the heap operations provide it.
\<close>

section \<open>Nodes and the heap\<close>

text \<open>A pointer is \<^const>\<open>None\<close> for \<open>NULL\<close> or an address. A node is a client with a link.\<close>

type_synonym ptr = "nat option"

record client =
  cl_ip :: u32
  cl_port :: nat
  cl_header :: vban_header
  pipename :: "byte list"
  pipedesc :: int
  txpipedesc :: int
  process :: ptr
  pipe :: ptr
  pid :: int
  txpid :: int
  timer :: nat

record client_node = client +
  nxt :: ptr

type_synonym heap = "nat \<rightharpoonup> client_node"

definition zero_node :: client_node where
  "zero_node = \<lparr>cl_ip = 0, cl_port = 0, cl_header = zero_header, pipename = replicate 36 0,
     pipedesc = 0, txpipedesc = 0, process = None, pipe = None, pid = 0, txpid = 0, timer = 0,
     nxt = None\<rparr>"

text \<open>An access through a null or a dangling pointer is undefined.\<close>

definition deref :: "heap \<Rightarrow> ptr \<Rightarrow> client_node option" where
  "deref h p = Option.bind p h"

lemma deref_simps [simp]: "deref h None = None" "deref h (Some a) = h a"
  by (simp_all add: deref_def)

definition free_node :: "heap \<Rightarrow> nat \<Rightarrow> heap" where
  "free_node h a = h(a := None)"


section \<open>The operations\<close>

text \<open>
  The answer of \<open>malloc\<close> is the argument \<open>mem\<close>: \<^const>\<open>None\<close> or the address of an unused block.
  Every operation returns the heap, the caller's head pointer where it is passed by reference,
  and the return code.
\<close>

text \<open>The parameter \<open>list\<close> is a copy: the caller's pointer does not change.\<close>

definition create_list_head :: "heap \<Rightarrow> ptr \<Rightarrow> ptr \<Rightarrow> (heap \<times> int) option" where
  "create_list_head h mem list =
     (case mem of None \<Rightarrow> None | Some a \<Rightarrow> Some (h(a \<mapsto> zero_node\<lparr>nxt := None\<rparr>), 0))"

partial_function (option) last_node :: "heap \<Rightarrow> nat \<Rightarrow> nat option" where
  "last_node h p = Option.bind (h p) (\<lambda>c. case nxt c of None \<Rightarrow> Some p | Some q \<Rightarrow> last_node h q)"

definition append_to_list :: "heap \<Rightarrow> ptr \<Rightarrow> ptr \<Rightarrow> (heap \<times> int) option" where
  "append_to_list h mem list = do {
     p \<leftarrow> list;
     l \<leftarrow> last_node h p;
     c \<leftarrow> h l;
     a \<leftarrow> mem;
     Some ((h(l \<mapsto> c\<lparr>nxt := Some a\<rparr>))(a \<mapsto> zero_node\<lparr>nxt := None\<rparr>), 0) }"

text \<open>The block \<open>malloc\<close> returns to \<open>push\<close> is not cleared: \<open>junk\<close> is its content.\<close>

definition push :: "heap \<Rightarrow> ptr \<Rightarrow> client_node \<Rightarrow> ptr \<Rightarrow> heap \<times> ptr \<times> int" where
  "push h mem junk list =
     (case mem of None \<Rightarrow> (h, list, 1)
      | Some a \<Rightarrow> (h(a \<mapsto> junk\<lparr>nxt := list\<rparr>), Some a, 0))"

definition pop :: "heap \<Rightarrow> ptr \<Rightarrow> (heap \<times> ptr \<times> int) option" where
  "pop h list =
     (case list of None \<Rightarrow> Some (h, None, 1)
      | Some a \<Rightarrow> do {
          c \<leftarrow> h a;
          Some (free_node h a, nxt c, 0) })"

text \<open>The loop of \<open>remove_last\<close>: the node before the last one.\<close>

partial_function (option) before_last :: "heap \<Rightarrow> nat \<Rightarrow> nat option" where
  "before_last h p = do {
     c \<leftarrow> h p;
     q \<leftarrow> nxt c;
     d \<leftarrow> h q;
     (case nxt d of None \<Rightarrow> Some p | Some _ \<Rightarrow> before_last h q) }"

definition remove_last :: "heap \<Rightarrow> ptr \<Rightarrow> (heap \<times> int) option" where
  "remove_last h list = do {
     p \<leftarrow> list;
     c \<leftarrow> h p;
     case nxt c of
       None \<Rightarrow> Some (free_node h p, 0)
     | Some _ \<Rightarrow> do {
         b \<leftarrow> before_last h p;
         d \<leftarrow> h b;
         l \<leftarrow> nxt d;
         Some ((free_node h l)(b \<mapsto> d\<lparr>nxt := None\<rparr>), 0) } }"

text \<open>
  The loop of \<open>remove_by_index\<close> steps \<open>k\<close> times; \<open>Inl ()\<close> is its early \<open>return 1\<close>.
\<close>

fun step_nodes :: "heap \<Rightarrow> nat \<Rightarrow> ptr \<Rightarrow> (unit + ptr) option" where
  "step_nodes h 0 current = Some (Inr current)"
| "step_nodes h (Suc k) current = do {
     c \<leftarrow> deref h current;
     case nxt c of None \<Rightarrow> Some (Inl ()) | Some q \<Rightarrow> step_nodes h k (Some q) }"

definition remove_by_index :: "heap \<Rightarrow> ptr \<Rightarrow> int \<Rightarrow> (heap \<times> ptr \<times> int) option" where
  "remove_by_index h list n =
     (if n = 0 then pop h list
      else do {
        r \<leftarrow> step_nodes h (nat (n - 1)) list;
        case r of Inl _ \<Rightarrow> Some (h, list, 1)
        | Inr current \<Rightarrow> do {
            a \<leftarrow> current;
            c \<leftarrow> h a;
            case nxt c of None \<Rightarrow> Some (h, list, 1)
            | Some temp_node \<Rightarrow> do {
                t \<leftarrow> h temp_node;
                Some ((free_node (h(a \<mapsto> c\<lparr>nxt := nxt t\<rparr>)) temp_node), list, 0) } } })"


section \<open>The abstract list\<close>

text \<open>\<open>chain h p as\<close>: from \<open>p\<close> the links run through the addresses \<open>as\<close> to \<open>NULL\<close>.\<close>

fun chain :: "heap \<Rightarrow> ptr \<Rightarrow> nat list \<Rightarrow> bool" where
  "chain h p [] \<longleftrightarrow> p = None"
| "chain h p (a # as) \<longleftrightarrow> p = Some a \<and> (\<exists>c. h a = Some c \<and> chain h (nxt c) as)"

definition clients_at :: "heap \<Rightarrow> nat list \<Rightarrow> client list" where
  "clients_at h as = map (\<lambda>a. client.truncate (the (h a))) as"

definition list_repr :: "heap \<Rightarrow> ptr \<Rightarrow> client list \<Rightarrow> bool" where
  "list_repr h p cs \<longleftrightarrow> (\<exists>as. chain h p as \<and> distinct as \<and> clients_at h as = cs)"

lemma chain_cong: "(\<And>a. a \<in> set as \<Longrightarrow> h' a = h a) \<Longrightarrow> chain h' p as = chain h p as"
  by (induction as arbitrary: p) auto

lemma clients_at_cong: "(\<And>a. a \<in> set as \<Longrightarrow> h' a = h a) \<Longrightarrow> clients_at h' as = clients_at h as"
  by (simp add: clients_at_def)

lemma clients_at_simps [simp]:
  "clients_at h [] = []"
  "clients_at h (a # as) = client.truncate (the (h a)) # clients_at h as"
  "clients_at h (as @ bs) = clients_at h as @ clients_at h bs"
  "length (clients_at h as) = length as"
  by (simp_all add: clients_at_def)

lemma chain_snoc: "chain h p (as @ [b]) \<Longrightarrow> \<exists>c. h b = Some c \<and> nxt c = None"
  by (induction as arbitrary: p) auto

lemma chain_mapped: "chain h p as \<Longrightarrow> a \<in> set as \<Longrightarrow> \<exists>c. h a = Some c"
  by (induction as arbitrary: p) auto

lemma chain_unique: "chain h p as \<Longrightarrow> chain h p bs \<Longrightarrow> as = bs"
proof (induction as arbitrary: p bs)
  case Nil
  then show ?case by (cases bs) auto
next
  case (Cons a as)
  then show ?case by (cases bs) auto
qed

text \<open>Changing the link of the node \<open>b\<close> keeps the nodes before it and redirects the rest.\<close>

lemma chain_relink:
  assumes "chain h p (as @ b # bs)" and "distinct (as @ b # bs)" and "h b = Some c"
    and "chain (h(b \<mapsto> c\<lparr>nxt := q\<rparr>)) q cs"
  shows "chain (h(b \<mapsto> c\<lparr>nxt := q\<rparr>)) p (as @ b # cs)"
  using assms by (induction as arbitrary: p) auto

lemma clients_at_relink:
  "h b = Some c \<Longrightarrow> clients_at (h(b \<mapsto> c\<lparr>nxt := q\<rparr>)) as = clients_at h as"
  by (simp add: clients_at_def client.truncate_def)

lemma clients_at_append: "clients_at h (as @ bs) = clients_at h as @ clients_at h bs"
  by simp

lemma chain_suffix: "chain h p (as @ b # bs) \<Longrightarrow> \<exists>c. h b = Some c \<and> chain h (nxt c) bs"
  by (induction as arbitrary: p) auto

lemma list_reprE:
  assumes "list_repr h p cs"
  obtains as where "chain h p as" "distinct as" "clients_at h as = cs" "length as = length cs"
  using assms by (auto simp: list_repr_def)

lemma chain_free: "chain h p as \<Longrightarrow> a \<notin> set as \<Longrightarrow> chain (free_node h a) p as"
  by (subst chain_cong [of as "free_node h a" h]) (auto simp: free_node_def)

lemma clients_at_free: "a \<notin> set as \<Longrightarrow> clients_at (free_node h a) as = clients_at h as"
  by (rule clients_at_cong) (auto simp: free_node_def)


section \<open>Refinement of the operations\<close>

lemma last_node_ok: "chain h (Some p) (as @ [b]) \<Longrightarrow> last_node h p = Some b"
proof (induction as arbitrary: p)
  case Nil
  then show ?case by (auto simp: last_node.simps)
next
  case (Cons a as)
  then obtain c where c: "p = a" "h a = Some c" "chain h (nxt c) (as @ [b])" by auto
  then obtain q where "nxt c = Some q" by (cases as) auto
  then show ?case using c Cons.IH by (subst last_node.simps) simp
qed

text \<open>Fields other than the link can change without a change of the list's shape.\<close>

lemma chain_update: "h a = Some c \<Longrightarrow> nxt c' = nxt c \<Longrightarrow> chain (h(a \<mapsto> c')) p as = chain h p as"
  by (induction as arbitrary: p) auto

lemma clients_at_update:
  assumes "distinct as" and "i < length as"
  shows "clients_at (h(as ! i \<mapsto> c')) as = (clients_at h as)[i := client.truncate c']"
  using assms unfolding clients_at_def by (intro nth_equalityI) (auto simp: nth_list_update nth_eq_iff_index_eq)

text \<open>Linking a fresh node behind the last one appends its client.\<close>

lemma link_ok:
  assumes "chain h list as" and "distinct as" and "clients_at h as = cs" and "as \<noteq> []" and "h a = None"
    and "nxt new = None" and "h (last as) = Some d"
  shows "list_repr ((h(last as \<mapsto> d\<lparr>nxt := Some a\<rparr>))(a \<mapsto> new)) list (cs @ [client.truncate new])"
proof -
  obtain bs b where bs: "as = bs @ [b]" using assms(4) by (cases as rule: rev_exhaust) auto
  have fresh: "a \<notin> set as" using assms(5) chain_mapped [OF assms(1)] by fastforce
  let ?h = "h(a \<mapsto> new)"
  have d: "?h b = Some d" using assms(7) fresh bs by auto
  have eq: "(h(last as \<mapsto> d\<lparr>nxt := Some a\<rparr>))(a \<mapsto> new) = ?h(b \<mapsto> d\<lparr>nxt := Some a\<rparr>)"
    using fresh bs by (auto intro: fun_upd_twist)
  have "chain ?h list (bs @ b # [])" using assms(1) bs fresh by (subst chain_cong [of _ ?h h]) auto
  then have "chain (?h(b \<mapsto> d\<lparr>nxt := Some a\<rparr>)) list (bs @ b # [a])"
    using assms(2,6) bs fresh d by (intro chain_relink) auto
  moreover have "clients_at (?h(b \<mapsto> d\<lparr>nxt := Some a\<rparr>)) (as @ [a]) = cs @ [client.truncate new]"
  proof -
    have "clients_at (?h(b \<mapsto> d\<lparr>nxt := Some a\<rparr>)) as = clients_at ?h as"
      by (rule clients_at_relink [of ?h, OF d])
    also have "\<dots> = cs" using assms(3) fresh by (subst clients_at_cong [of _ ?h h]) auto
    finally show ?thesis using fresh bs by auto
  qed
  ultimately show ?thesis
    using assms(2) bs fresh unfolding list_repr_def eq
    by (intro exI [of _ "as @ [a]"]) (simp del: clients_at_simps)
qed

lemma append_ok:
  assumes "list_repr h list cs" and "cs \<noteq> []" and "h a = None"
  shows "\<exists>h'. append_to_list h (Some a) list = Some (h', 0) \<and>
    list_repr h' list (cs @ [client.truncate zero_node])"
proof -
  from assms(1) obtain as where as: "chain h list as" "distinct as" "clients_at h as = cs"
    by (rule list_reprE) auto
  have "as \<noteq> []" using as(3) assms(2) by auto
  then obtain bs b where bs: "as = bs @ [b]" by (cases as rule: rev_exhaust) auto
  obtain p where p: "list = Some p" using as(1) \<open>as \<noteq> []\<close> by (cases as) auto
  obtain d where d: "h b = Some d" using chain_snoc as(1) bs by blast
  have "list_repr ((h(last as \<mapsto> d\<lparr>nxt := Some a\<rparr>))(a \<mapsto> zero_node\<lparr>nxt := None\<rparr>)) list
      (cs @ [client.truncate (zero_node\<lparr>nxt := None\<rparr>)])"
    using as \<open>as \<noteq> []\<close> assms(3) d bs by (intro link_ok) auto
  then show ?thesis
    using last_node_ok [of h p bs b] as(1) bs p d by (simp add: append_to_list_def client.truncate_def)
qed

lemma push_ok:
  assumes "list_repr h list cs" and "h a = None"
  shows "\<exists>h' p'. push h (Some a) junk list = (h', p', 0) \<and>
    list_repr h' p' (client.truncate junk # cs)"
proof -
  from assms(1) obtain as where as: "chain h list as" "distinct as" "clients_at h as = cs"
    by (rule list_reprE) auto
  have fresh: "a \<notin> set as" using assms(2) chain_mapped [OF as(1)] by fastforce
  let ?h = "h(a \<mapsto> junk\<lparr>nxt := list\<rparr>)"
  have "chain ?h list as" using as(1) fresh by (subst chain_cong [of as ?h h]) auto
  then have "chain ?h (Some a) (a # as)" by simp
  moreover have "clients_at ?h as = clients_at h as"
    using fresh by (intro clients_at_cong) auto
  then have "clients_at ?h (a # as) = client.truncate junk # cs"
    using as(3) by (simp add: client.truncate_def)
  ultimately have "list_repr ?h (Some a) (client.truncate junk # cs)"
    using as(2) fresh unfolding list_repr_def by (intro exI [of _ "a # as"]) simp
  then show ?thesis by (simp add: push_def)
qed

lemma pop_ok:
  assumes "list_repr h list (c # cs)"
  shows "\<exists>h' p'. pop h list = Some (h', p', 0) \<and> list_repr h' p' cs"
proof -
  from assms obtain as where as: "chain h list as" "distinct as" "clients_at h as = c # cs"
    by (rule list_reprE) auto
  then obtain a bs where bs: "as = a # bs" by (cases as) auto
  then obtain n where n: "list = Some a" "h a = Some n" "chain h (nxt n) bs" using as by auto
  have "list_repr (free_node h a) (nxt n) cs"
    using n(3) as bs unfolding list_repr_def
    by (intro exI [of _ bs]) (simp add: chain_free clients_at_free)
  then show ?thesis using n by (simp add: pop_def)
qed

lemma before_last_ok: "chain h (Some p) (as @ [b, l]) \<Longrightarrow> before_last h p = Some b"
proof (induction as arbitrary: p)
  case Nil
  then show ?case by (subst before_last.simps) auto
next
  case (Cons a as)
  then obtain c where c: "p = a" "h a = Some c" "chain h (nxt c) (as @ [b, l])" by auto
  then obtain q d where q: "nxt c = Some q" "h q = Some d" "nxt d \<noteq> None"
    by (cases as; cases "tl as") auto
  then show ?case using c Cons.IH by (subst before_last.simps) auto
qed

lemma remove_last_ok:
  assumes "list_repr h list (cs @ [c])" and "cs \<noteq> []"
  shows "\<exists>h'. remove_last h list = Some (h', 0) \<and> list_repr h' list cs"
proof -
  from assms(1) obtain as where as: "chain h list as" "distinct as" "clients_at h as = cs @ [c]"
    by (rule list_reprE) auto
  have len: "length as = Suc (length cs)" using arg_cong [OF as(3), of length] by simp
  then obtain as' l where l: "as = as' @ [l]" by (cases as rule: rev_exhaust) auto
  have "as' \<noteq> []" using l len assms(2) by auto
  with l obtain bs b where bs: "as = bs @ b # [l]" by (cases as' rule: rev_exhaust) auto
  obtain p where p: "list = Some p" using as(1) bs by (cases bs) auto
  obtain d where d: "h b = Some d" "nxt d = Some l" using chain_suffix as(1) bs by fastforce
  obtain e where e: "h p = Some e" "nxt e \<noteq> None"
    using as(1) bs p by (cases bs; cases "tl bs") auto
  have bl: "before_last h p = Some b" using before_last_ok as(1) bs p by simp
  have eq: "(free_node h l)(b \<mapsto> d\<lparr>nxt := None\<rparr>) = free_node (h(b \<mapsto> d\<lparr>nxt := None\<rparr>)) l"
    using as(2) bs unfolding free_node_def by (intro fun_upd_twist) auto
  have "chain (h(b \<mapsto> d\<lparr>nxt := None\<rparr>)) list (bs @ b # [])"
    using as(1,2) bs d by (intro chain_relink [where bs = "[l]"]) auto
  moreover have "clients_at (h(b \<mapsto> d\<lparr>nxt := None\<rparr>)) (bs @ [b]) = cs"
    using as(3) bs clients_at_relink [of h b d, OF d(1)] d(1)
    by (simp add: client.truncate_def)
  ultimately have "list_repr (free_node (h(b \<mapsto> d\<lparr>nxt := None\<rparr>)) l) list cs"
    using as(2) bs unfolding list_repr_def
    by (intro exI [of _ "bs @ [b]"]) (simp add: chain_free clients_at_free del: clients_at_simps)
  then show ?thesis using p e bl d eq by (auto simp: remove_last_def)
qed

lemma step_nodes_ok:
  assumes "chain h p as"
  shows "k < length as \<Longrightarrow> step_nodes h k p = Some (Inr (Some (as ! k)))"
    and "as \<noteq> [] \<Longrightarrow> length as \<le> k \<Longrightarrow> step_nodes h k p = Some (Inl ())"
  using assms
proof (induction as arbitrary: p k)
  case (Cons a as)
  {
    case 1
    then show ?case
    proof (cases k)
      case (Suc m)
      obtain c q where "p = Some a" "h a = Some c" "nxt c = Some q" "chain h (Some q) as"
        using 1 Suc by (cases as) auto
      then show ?thesis using Suc 1 Cons.IH(1) [of m "Some q"] by simp
    qed auto
  next
    case 2
    then obtain m where m: "k = Suc m" by (cases k) auto
    obtain c where c: "p = Some a" "h a = Some c" "chain h (nxt c) as" using 2 by auto
    then show ?case using 2 m Cons.IH(2) [of m "nxt c"] by (cases as) auto
  }
qed auto

lemma remove_by_index_ok:
  assumes "list_repr h list cs" and "n < length cs"
  shows "\<exists>h' p'. remove_by_index h list (int n) = Some (h', p', 0) \<and>
    list_repr h' p' (take n cs @ drop (Suc n) cs)"
proof (cases n)
  case 0
  then show ?thesis using assms pop_ok [of h list "hd cs" "tl cs"] by (cases cs) (auto simp: remove_by_index_def)
next
  case (Suc m)
  from assms(1) obtain as where as: "chain h list as" "distinct as" "clients_at h as = cs"
      and len: "length as = length cs"
    by (rule list_reprE)
  let ?b = "as ! m" and ?t = "as ! n" and ?bs = "take m as" and ?ts = "drop (Suc n) as"
  have split: "as = ?bs @ ?b # ?t # ?ts"
    using assms(2) len Suc by (simp add: Cons_nth_drop_Suc)
  then have ch: "chain h list (?bs @ ?b # ?t # ?ts)" and di: "distinct (?bs @ ?b # ?t # ?ts)"
    using as(1,2) by metis+
  obtain c where c: "h ?b = Some c" "nxt c = Some ?t" "chain h (nxt c) (?t # ?ts)"
    using chain_suffix [OF ch] by auto
  then obtain t where t: "h ?t = Some t" "chain h (nxt t) ?ts" by auto
  let ?h = "h(?b \<mapsto> c\<lparr>nxt := nxt t\<rparr>)"
  have "chain ?h (nxt t) ?ts" using t(2) di by (subst chain_cong [of _ ?h h]) auto
  then have "chain ?h list (?bs @ ?b # ?ts)" by (rule chain_relink [OF ch di c(1)])
  moreover have "?t \<notin> set (?bs @ ?b # ?ts)" using di by auto
  ultimately have fr: "chain (free_node ?h ?t) list (?bs @ ?b # ?ts)"
      "clients_at (free_node ?h ?t) (?bs @ ?b # ?ts) = clients_at ?h (?bs @ ?b # ?ts)"
    by (auto intro: chain_free clients_at_free simp del: clients_at_simps)
  have "clients_at h (?bs @ ?b # ?ts) = take n (clients_at h as) @ drop (Suc n) (clients_at h as)"
    using assms(2) len Suc
    by (simp add: clients_at_def take_map drop_map take_Suc_conv_app_nth)
  then have "clients_at (free_node ?h ?t) (?bs @ ?b # ?ts) = take n cs @ drop (Suc n) cs"
    using fr(2) as(3) clients_at_relink [of h ?b c, OF c(1)] by (simp del: clients_at_simps)
  moreover have "distinct (?bs @ ?b # ?ts)" using di by auto
  ultimately have repr: "list_repr (free_node ?h ?t) list (take n cs @ drop (Suc n) cs)"
    using fr(1) unfolding list_repr_def by blast
  have "step_nodes h m list = Some (Inr (Some ?b))"
    using step_nodes_ok(1) [OF as(1), of m] assms(2) len Suc by simp
  then show ?thesis using Suc c t repr by (simp add: remove_by_index_def)
qed

lemma remove_by_index_out_of_range:
  assumes "list_repr h list cs" and "cs \<noteq> []" and "length cs \<le> n"
  shows "remove_by_index h list (int n) = Some (h, list, 1)"
proof -
  from assms(1) obtain as where as: "chain h list as" and len: "length as = length cs"
    by (rule list_reprE)
  obtain m where m: "n = Suc m" using assms by (cases n) auto
  show ?thesis
  proof (cases "m < length as")
    case True
    then have "as = butlast as @ [as ! m]"
      using m assms(3) len by (metis append_butlast_last_id le_SucE last_conv_nth length_0_conv
          less_Suc_eq_le diff_Suc_1 not_less0 order_antisym_conv Suc_leI)
    then obtain c where "h (as ! m) = Some c" "nxt c = None" using chain_snoc as by metis
    then show ?thesis using m step_nodes_ok(1) [OF as True] by (simp add: remove_by_index_def)
  next
    case False
    then have "step_nodes h m list = Some (Inl ())"
      using step_nodes_ok(2) [OF as, of m] assms(2) len by fastforce
    then show ?thesis using m by (simp add: remove_by_index_def)
  qed
qed



section \<open>The interface of the client registry\<close>

text \<open>
  What the multistream receiver needs of the list: \<open>repr h p cs\<close> relates a store and a head to the
  clients in order; the first client and any client can be removed, and one can be appended.
\<close>

locale registry =
  fixes repr :: "'h \<Rightarrow> 'p \<Rightarrow> 'c list \<Rightarrow> bool"
    and remove_first :: "'h \<Rightarrow> 'p \<Rightarrow> ('h \<times> 'p \<times> int) option"
    and remove_at :: "'h \<Rightarrow> 'p \<Rightarrow> int \<Rightarrow> ('h \<times> 'p \<times> int) option"
  assumes remove_first_law: "repr h p (c # cs) \<Longrightarrow>
      \<exists>h' p'. remove_first h p = Some (h', p', 0) \<and> repr h' p' cs"
    and remove_at_law: "repr h p cs \<Longrightarrow> n < length cs \<Longrightarrow>
      \<exists>h' p'. remove_at h p (int n) = Some (h', p', 0) \<and> repr h' p' (take n cs @ drop (Suc n) cs)"
begin

text \<open>The removal the time-out thread performs: the first client by one call, another by the other.\<close>

lemma drop_client:
  assumes "repr h p cs" and "n < length cs"
  shows "\<exists>h' p'. (if n = 0 then remove_first h p else remove_at h p (int n)) = Some (h', p', 0) \<and>
    repr h' p' (take n cs @ drop (Suc n) cs)"
proof (cases n)
  case 0
  then show ?thesis using assms remove_first_law [of h p "hd cs" "tl cs"] by (cases cs) auto
qed (use remove_at_law [OF assms] in \<open>simp del: of_nat_Suc\<close>)

end

interpretation client_list: registry list_repr pop remove_by_index
  by unfold_locales (rule pop_ok, assumption, rule remove_by_index_ok, assumption+)


section \<open>Defective operations\<close>

text \<open>
  \<open>remove_last\<close> of a single client frees the node and cannot change the caller's pointer: the next
  use of the pointer is undefined. The clean-up loop of the multistream receiver does that.
\<close>

lemma remove_last_dangling:
  assumes "list_repr h list [c]"
  shows "\<exists>h'. remove_last h list = Some (h', 0) \<and> list \<noteq> None \<and> remove_last h' list = None"
proof -
  from assms obtain a n where "list = Some a" "h a = Some n" "nxt n = None"
    by (auto simp: list_repr_def Cons_eq_map_conv clients_at_def)
  then show ?thesis by (simp add: remove_last_def free_node_def)
qed

text \<open>\<open>create_list_head\<close> never gives the caller a list: the new node is lost.\<close>

lemma create_list_head_leaks:
  assumes "h a = None"
  shows "create_list_head h (Some a) None = Some (h(a \<mapsto> zero_node\<lparr>nxt := None\<rparr>), 0)"
    and "create_list_head h None list = None"
  by (simp_all add: create_list_head_def)

text \<open>The calls with \<open>NULL\<close>, and a negative index.\<close>

lemma list_repr_empty: "list_repr h p [] \<longleftrightarrow> p = None"
proof -
  have "chain h p as \<and> distinct as \<and> clients_at h as = [] \<longleftrightarrow> as = [] \<and> p = None" for as
    by (cases as) auto
  then show ?thesis by (auto simp: list_repr_def)
qed

lemma empty_calls:
  "append_to_list h mem None = None" "pop h None = Some (h, None, 1)" "remove_last h None = None"
  by (simp_all add: append_to_list_def pop_def remove_last_def)

lemma remove_by_index_null:
  "remove_by_index h None (int n) = (if n = 0 then Some (h, None, 1) else None)"
proof (cases n)
  case (Suc m)
  then have "nat (int n - 1) = m" by simp
  then show ?thesis using Suc by (cases m) (simp_all add: remove_by_index_def del: of_nat_Suc)
qed (simp add: remove_by_index_def pop_def)

lemma remove_by_index_negative:
  "remove_by_index h list (- 1 - int n) = remove_by_index h list 1"
  by (simp add: remove_by_index_def)

lemma remove_last_cases:
  assumes "list_repr h list cs" and "cs \<noteq> []"
  shows "if length cs = 1 then \<exists>h'. remove_last h list = Some (h', 0) \<and> list \<noteq> None \<and> deref h' list = None
    else \<exists>h'. remove_last h list = Some (h', 0) \<and> list_repr h' list (butlast cs)"
proof (cases "butlast cs = []")
  case True
  then obtain c where c: "cs = [c]" using assms(2) by (cases cs) (auto split: if_splits)
  then obtain a n where "list = Some a" "h a = Some n" "nxt n = None"
    using assms(1) by (auto simp: list_repr_def Cons_eq_map_conv clients_at_def)
  then show ?thesis using c by (simp add: remove_last_def free_node_def)
next
  case False
  then have "length cs \<noteq> 1" by (cases cs) auto
  moreover have "list_repr h list (butlast cs @ [last cs])" using assms by simp
  ultimately show ?thesis using remove_last_ok [OF _ False] by auto
qed

section \<open>Properties\<close>

text \<open>
  C12: The list operations refine list operations, on every well-formed list, the empty one and the
  list of one client included. \<open>append_to_list\<close> adds a cleared client at the end (called with
  \<open>NULL\<close> it dereferences it: undefined); \<open>push\<close> puts the new node in front; \<open>pop\<close> removes the first
  client, and the caller's pointer is \<open>NULL\<close> when it was the only one; on the empty list it returns 1
  and changes nothing. \<open>remove_last\<close> removes the last of several clients; the only client is freed
  but the caller's pointer stays, so it dangles; on \<open>NULL\<close> the call is undefined.
  \<open>remove_by_index\<close> removes the client at the index (a negative index acts as 1), returns 1 and
  changes nothing past the end of a non-empty list, and is undefined on \<open>NULL\<close> but for index 0.
  In all other cases the call returns 0 and the result is well-formed and holds the other clients in
  order.
\<close>

theorem client_list_refines:
  assumes "list_repr h list cs" and "h a = None"
  shows "(if cs = [] then append_to_list h (Some a) list = None
      else \<exists>h'. append_to_list h (Some a) list = Some (h', 0) \<and>
        list_repr h' list (cs @ [client.truncate zero_node])) \<and>
    (\<exists>h' p'. push h (Some a) junk list = (h', p', 0) \<and> list_repr h' p' (client.truncate junk # cs)) \<and>
    (if cs = [] then pop h list = Some (h, None, 1)
      else \<exists>h' p'. pop h list = Some (h', p', 0) \<and> list_repr h' p' (tl cs) \<and>
        (length cs = 1 \<longrightarrow> p' = None)) \<and>
    (if cs = [] then remove_last h list = None
      else if length cs = 1 then \<exists>h'. remove_last h list = Some (h', 0) \<and> list \<noteq> None \<and> deref h' list = None
      else \<exists>h'. remove_last h list = Some (h', 0) \<and> list_repr h' list (butlast cs)) \<and>
    (if n < length cs then \<exists>h' p'. remove_by_index h list (int n) = Some (h', p', 0) \<and>
        list_repr h' p' (take n cs @ drop (Suc n) cs)
      else if cs \<noteq> [] then remove_by_index h list (int n) = Some (h, list, 1)
      else if n = 0 then remove_by_index h list (int n) = Some (h, None, 1)
      else remove_by_index h list (int n) = None) \<and>
    remove_by_index h list (- int (Suc n)) = remove_by_index h list 1"
proof (cases "cs = []")
  case True
  then have "list = None" using assms(1) by (simp add: list_repr_empty)
  then show ?thesis
    using True push_ok [OF assms, of junk] remove_by_index_null [of h n] by (auto simp: empty_calls remove_by_index_negative)
next
  case False
  then have "list_repr h list (hd cs # tl cs)" using assms(1) by simp
  from pop_ok [OF this] obtain h' p' where pop: "pop h list = Some (h', p', 0)" "list_repr h' p' (tl cs)"
    by blast
  then have "length cs = 1 \<longrightarrow> p' = None" by (cases cs) (auto simp: list_repr_empty)
  then show ?thesis
    using False pop append_ok [OF assms(1) False assms(2)] push_ok [OF assms, of junk]
      remove_last_cases [OF assms(1) False] remove_by_index_ok [OF assms(1), of n]
      remove_by_index_out_of_range [OF assms(1) False, of n]
    by (auto simp: remove_by_index_negative not_less)
qed

definition two_clients :: heap where
  "two_clients = [1 \<mapsto> zero_node\<lparr>nxt := Some 2\<rparr>, 2 \<mapsto> zero_node\<lparr>pid := 9\<rparr>]"

lemma two_clients_repr:
  "list_repr two_clients (Some 1) [client.truncate zero_node, client.truncate (zero_node\<lparr>pid := 9\<rparr>)]"
  unfolding list_repr_def
  by (intro exI [of _ "[1, 2]"]) (simp add: two_clients_def zero_node_def client.truncate_def)

theorem client_list_refines_witness:
  "(let c = client.truncate zero_node; cs = [c, client.truncate (zero_node\<lparr>pid := 9\<rparr>)]; h = two_clients in
    (\<exists>h'. append_to_list h (Some 3) (Some 1) = Some (h', 0) \<and> list_repr h' (Some 1) (cs @ [c])) \<and>
    (\<exists>h' p'. pop h (Some 1) = Some (h', p', 0) \<and> list_repr h' p' (tl cs)) \<and>
    (\<exists>h'. remove_last h (Some 1) = Some (h', 0) \<and> list_repr h' (Some 1) [c]) \<and>
    (\<exists>h' p'. remove_by_index h (Some 1) (int 1) = Some (h', p', 0) \<and> list_repr h' p' [c])) \<and>
    (\<exists>h'. pop [1 \<mapsto> zero_node] (Some 1) = Some (h', None, 0)) \<and>
    append_to_list Map.empty (Some 3) None = None"
proof -
  have one: "list_repr [1 \<mapsto> zero_node] (Some 1) [client.truncate zero_node]"
    unfolding list_repr_def by (intro exI [of _ "[1]"]) (simp add: zero_node_def client.truncate_def)
  have none: "list_repr Map.empty None []" by (simp add: list_repr_empty)
  note two = client_list_refines [where a = 3 and n = 1 and junk = zero_node, OF two_clients_repr]
  have "\<exists>h'. pop [1 \<mapsto> zero_node] (Some 1) = Some (h', None, 0)"
    using client_list_refines [where a = 3 and n = 0 and junk = zero_node, OF one] by auto
  moreover have "append_to_list Map.empty (Some 3) None = None"
    using client_list_refines [where a = 3 and n = 0 and junk = zero_node, OF none] by auto
  ultimately show ?thesis using two by (simp add: two_clients_def Let_def)
qed

text \<open>
  An index past the end of a non-empty list is reported with 1 and changes nothing.
\<close>

theorem remove_by_index_error:
  assumes "list_repr h list cs" and "cs \<noteq> []" and "length cs \<le> n"
  shows "remove_by_index h list (int n) = Some (h, list, 1)"
  using assms by (rule remove_by_index_out_of_range)

theorem remove_by_index_error_witness:
  "remove_by_index two_clients (Some 1) (int 5) = Some (two_clients, Some 1, 1)"
  by (rule remove_by_index_error [OF two_clients_repr]) simp_all

text \<open>
  \<open>remove_last\<close> of the only client frees it but cannot clear the caller's pointer: the next use
  of that pointer, which the clean-up loop \<open>while (clients != NULL) remove_last(clients)\<close> makes, is
  undefined. \<open>create_list_head\<close> succeeds without giving the caller the list, and is undefined when
  the allocation fails, because the block is cleared before the test.
\<close>

theorem list_head_defects:
  assumes "list_repr h list [c]" and "h' a = None"
  shows "(\<exists>h1. remove_last h list = Some (h1, 0) \<and> list \<noteq> None \<and> remove_last h1 list = None) \<and>
    create_list_head h' (Some a) None = Some (h'(a \<mapsto> zero_node\<lparr>nxt := None\<rparr>), 0) \<and>
    create_list_head h' None None = None"
  using remove_last_dangling [OF assms(1)] create_list_head_leaks [of h' a] assms(2) by blast

theorem list_head_defects_witness:
  "(\<exists>h1. remove_last [1 \<mapsto> zero_node] (Some 1) = Some (h1, 0) \<and> Some (1::nat) \<noteq> None \<and>
      remove_last h1 (Some 1) = None) \<and>
    create_list_head Map.empty (Some 1) None = Some ([1 \<mapsto> zero_node\<lparr>nxt := None\<rparr>], 0) \<and>
    create_list_head Map.empty None None = None"
proof (rule list_head_defects [where c = "client.truncate zero_node"])
  show "list_repr [1 \<mapsto> zero_node] (Some 1) [client.truncate zero_node]"
    unfolding list_repr_def by (intro exI [of _ "[1]"]) (simp add: zero_node_def client.truncate_def)
qed simp

end
