(* ===== verification/Floats.thy ===== *)
theory Floats
  imports Prelude
begin

text \<open>
  The floating-point arithmetic of the target (IEEE 754, round to nearest even) as executable
  functions on rationals: values, rounding to single and double precision, the operations the
  program uses, conversions from and to integers, and the four bytes of a \<open>float\<close>.

  A NaN carries no payload: \<open>encode_f32\<close> gives the quiet NaN of the hardware.
\<close>

section \<open>Values\<close>

text \<open>A number is its sign and its magnitude, so that the two zeros differ.\<close>

datatype fl = FNum bool rat | FInf bool | FNaN

record fmt =
  prec :: nat
  emin :: int
  emax :: int

text \<open>\<open>emin\<close> and \<open>emax\<close> are the exponents of the smallest and the largest unit in the last place.\<close>

definition f32 :: fmt where
  "f32 = \<lparr>prec = 24, emin = - 149, emax = 104\<rparr>"

definition f64 :: fmt where
  "f64 = \<lparr>prec = 53, emin = - 1074, emax = 971\<rparr>"

fun fl_val :: "fl \<Rightarrow> rat" where
  "fl_val (FNum s m) = (if s then - m else m)"
| "fl_val _ = 0"

fun is_num :: "fl \<Rightarrow> bool" where
  "is_num (FNum s m) = True"
| "is_num _ = False"


section \<open>Rounding\<close>

fun nlog2 :: "nat \<Rightarrow> nat" where
  "nlog2 n = (if n \<le> 1 then 0 else Suc (nlog2 (n div 2)))"

declare nlog2.simps [simp del]

text \<open>\<open>nlog2_up n\<close> is the least \<open>k\<close> with \<open>n \<le> 2 ^ k\<close>; \<open>flog2 r\<close> the exponent of \<open>r > 0\<close>.\<close>

definition nlog2_up :: "nat \<Rightarrow> nat" where
  "nlog2_up n = (if n \<le> 1 then 0 else Suc (nlog2 (n - 1)))"

definition flog2 :: "rat \<Rightarrow> int" where
  "flog2 r = (if 1 \<le> r then int (nlog2 (nat \<lfloor>r\<rfloor>)) else - int (nlog2_up (nat \<lceil>1 / r\<rceil>)))"

definition rne :: "rat \<Rightarrow> int" where
  "rne r = (let f = \<lfloor>r\<rfloor>; d = r - of_int f in
     if d < 1 / 2 then f else if 1 / 2 < d then f + 1 else if even f then f else f + 1)"

definition ulp_exp :: "fmt \<Rightarrow> rat \<Rightarrow> int" where
  "ulp_exp f r = max (emin f) (flog2 r - int (prec f - 1))"

definition max_fin :: "fmt \<Rightarrow> rat" where
  "max_fin f = (2 ^ prec f - 1) * 2 powi emax f"

definition rnd :: "fmt \<Rightarrow> bool \<Rightarrow> rat \<Rightarrow> fl" where
  "rnd f s r =
     (if r = 0 then FNum s 0
      else let e = ulp_exp f r; v = of_int (rne (r / 2 powi e)) * 2 powi e in
        if max_fin f < v then FInf s else FNum s v)"


section \<open>Operations\<close>

fun fneg :: "fl \<Rightarrow> fl" where
  "fneg (FNum s m) = FNum (\<not> s) m"
| "fneg (FInf s) = FInf (\<not> s)"
| "fneg FNaN = FNaN"

fun fadd :: "fmt \<Rightarrow> fl \<Rightarrow> fl \<Rightarrow> fl" where
  "fadd f (FNum s m) (FNum t n) =
     (let v = fl_val (FNum s m) + fl_val (FNum t n) in
      if v = 0 then FNum (s \<and> t) 0 else rnd f (v < 0) \<bar>v\<bar>)"
| "fadd f (FInf s) (FInf t) = (if s = t then FInf s else FNaN)"
| "fadd f (FInf s) (FNum t n) = FInf s"
| "fadd f (FNum s m) (FInf t) = FInf t"
| "fadd f FNaN y = FNaN"
| "fadd f x FNaN = FNaN"

definition fsub :: "fmt \<Rightarrow> fl \<Rightarrow> fl \<Rightarrow> fl" where
  "fsub f x y = fadd f x (fneg y)"

fun fmul :: "fmt \<Rightarrow> fl \<Rightarrow> fl \<Rightarrow> fl" where
  "fmul f (FNum s m) (FNum t n) = rnd f (s \<noteq> t) (m * n)"
| "fmul f (FInf s) (FInf t) = FInf (s \<noteq> t)"
| "fmul f (FInf s) (FNum t n) = (if n = 0 then FNaN else FInf (s \<noteq> t))"
| "fmul f (FNum s m) (FInf t) = (if m = 0 then FNaN else FInf (s \<noteq> t))"
| "fmul f FNaN y = FNaN"
| "fmul f x FNaN = FNaN"

fun fdiv :: "fmt \<Rightarrow> fl \<Rightarrow> fl \<Rightarrow> fl" where
  "fdiv f (FNum s m) (FNum t n) =
     (if n = 0 then (if m = 0 then FNaN else FInf (s \<noteq> t)) else rnd f (s \<noteq> t) (m / n))"
| "fdiv f (FInf s) (FInf t) = FNaN"
| "fdiv f (FInf s) (FNum t n) = FInf (s \<noteq> t)"
| "fdiv f (FNum s m) (FInf t) = FNum (s \<noteq> t) 0"
| "fdiv f FNaN y = FNaN"
| "fdiv f x FNaN = FNaN"

text \<open>The order; every comparison with a NaN is false.\<close>

fun flt :: "fl \<Rightarrow> fl \<Rightarrow> bool" where
  "flt (FNum s m) (FNum t n) \<longleftrightarrow> fl_val (FNum s m) < fl_val (FNum t n)"
| "flt (FInf s) (FInf t) \<longleftrightarrow> s \<and> \<not> t"
| "flt (FInf s) (FNum t n) \<longleftrightarrow> s"
| "flt (FNum s m) (FInf t) \<longleftrightarrow> \<not> t"
| "flt FNaN y \<longleftrightarrow> False"
| "flt x FNaN \<longleftrightarrow> False"

fun feq :: "fl \<Rightarrow> fl \<Rightarrow> bool" where
  "feq (FNum s m) (FNum t n) \<longleftrightarrow> fl_val (FNum s m) = fl_val (FNum t n)"
| "feq (FInf s) (FInf t) \<longleftrightarrow> s = t"
| "feq _ _ \<longleftrightarrow> False"

definition of_int_fl :: "fmt \<Rightarrow> int \<Rightarrow> fl" where
  "of_int_fl f i = rnd f (i < 0) (of_int \<bar>i\<bar>)"

text \<open>A change of format rounds; a decimal literal is the nearest value of its format.\<close>

fun to_fmt :: "fmt \<Rightarrow> fl \<Rightarrow> fl" where
  "to_fmt f (FNum s m) = rnd f s m"
| "to_fmt f (FInf s) = FInf s"
| "to_fmt f FNaN = FNaN"

definition lit :: "fmt \<Rightarrow> rat \<Rightarrow> fl" where
  "lit f r = rnd f (r < 0) \<bar>r\<bar>"

text \<open>\<open>roundf\<close>: to the nearest integer, halves away from zero.\<close>

fun fround :: "fl \<Rightarrow> fl" where
  "fround (FNum s m) = FNum s (of_int \<lfloor>m + 1 / 2\<rfloor>)"
| "fround (FInf s) = FInf s"
| "fround FNaN = FNaN"

text \<open>The conversion to a signed integer of \<open>w\<close> bits truncates and is undefined out of range.\<close>

fun fl_to_int :: "nat \<Rightarrow> fl \<Rightarrow> int option" where
  "fl_to_int w (FNum s m) =
     (let i = (if s then - \<lfloor>m\<rfloor> else \<lfloor>m\<rfloor>) in
      if - (2 ^ (w - 1)) \<le> i \<and> i < 2 ^ (w - 1) then Some i else None)"
| "fl_to_int w _ = None"


section \<open>The bytes of a float\<close>

definition decode_f32 :: "u32 \<Rightarrow> fl" where
  "decode_f32 w =
     (let n = unat w; s = (2 ^ 31 \<le> n); ex = (n div 2 ^ 23) mod 256; mn = n mod 2 ^ 23 in
      if ex = 255 then (if mn = 0 then FInf s else FNaN)
      else if ex = 0 then FNum s (of_nat mn * 2 powi - 149)
      else FNum s (of_nat (2 ^ 23 + mn) * 2 powi (int ex - 150)))"

definition f32_fields :: "bool \<Rightarrow> nat \<Rightarrow> nat \<Rightarrow> u32" where
  "f32_fields s ex mn = word_of_nat ((if s then 2 ^ 31 else 0) + ex * 2 ^ 23 + mn)"

fun encode_f32 :: "fl \<Rightarrow> u32" where
  "encode_f32 (FNum s m) =
     (if m < 2 powi - 126 then f32_fields s 0 (nat \<lfloor>m / 2 powi - 149\<rfloor>)
      else let e = flog2 m in
        f32_fields s (nat (e + 127)) (nat \<lfloor>m / 2 powi (e - 23)\<rfloor> - 2 ^ 23))"
| "encode_f32 (FInf s) = f32_fields s 255 0"
| "encode_f32 FNaN = f32_fields False 255 (2 ^ 22)"


section \<open>Exponents\<close>

lemma nlog2_bounds: "0 < n \<Longrightarrow> 2 ^ nlog2 n \<le> n \<and> n < 2 ^ Suc (nlog2 n)"
proof (induction n rule: nlog2.induct)
  case (1 n)
  show ?case
  proof (cases "n \<le> 1")
    case True
    then show ?thesis using 1 by (simp add: nlog2.simps)
  next
    case False
    then have "2 ^ nlog2 (n div 2) \<le> n div 2" "n div 2 < 2 ^ Suc (nlog2 (n div 2))"
      using 1 by auto
    then show ?thesis using False by (subst (1 2) nlog2.simps) auto
  qed
qed

lemma nlog2_up_bounds: "1 < n \<Longrightarrow> \<exists>j. nlog2_up n = Suc j \<and> n \<le> 2 ^ Suc j \<and> 2 ^ j + 1 \<le> n"
  using nlog2_bounds [of "n - 1"] by (auto simp: nlog2_up_def)

lemma flog2_bounds:
  assumes "0 < r"
  shows "2 powi flog2 r \<le> r" and "r < 2 powi (flog2 r + 1)"
proof -
  have "2 powi flog2 r \<le> r \<and> r < 2 powi (flog2 r + 1)"
  proof (cases "1 \<le> r")
    case True
    let ?n = "nat \<lfloor>r\<rfloor>" and ?k = "nlog2 (nat \<lfloor>r\<rfloor>)"
    have n: "0 < ?n" "of_nat ?n \<le> r" "r < of_nat ?n + 1"
      using True floor_correct [of r] by (auto simp: le_floor_iff)
    have "2 ^ ?k \<le> ?n" "?n + 1 \<le> 2 ^ Suc ?k" using nlog2_bounds [OF n(1)] by auto
    then have "(of_nat (2 ^ ?k) :: rat) \<le> of_nat ?n" "(of_nat (?n + 1) :: rat) \<le> of_nat (2 ^ Suc ?k)"
      by (simp_all only: of_nat_le_iff)
    then have "(2::rat) ^ ?k \<le> of_nat ?n" "of_nat ?n + 1 \<le> (2::rat) ^ Suc ?k"
      by (simp_all only: of_nat_power of_nat_numeral of_nat_add of_nat_1)
    then have "(2::rat) ^ ?k \<le> r" "r < 2 ^ Suc ?k" using n(2,3) by linarith+
    moreover have "(2::rat) powi (int ?k + 1) = 2 ^ Suc ?k"
      by (metis of_nat_Suc add.commute power_int_of_nat)
    ultimately show ?thesis using True by (simp add: flog2_def)
  next
    case False
    let ?n = "nat \<lceil>1 / r\<rceil>" and ?k = "nlog2_up (nat \<lceil>1 / r\<rceil>)"
    have "1 < 1 / r" using False assms by simp
    then have n: "1 < ?n" "1 / r \<le> of_nat ?n" "of_nat ?n < 1 / r + 1"
      by (auto simp: less_ceiling_iff of_nat_nat) linarith+
    obtain j where k: "?k = Suc j" and "?n \<le> 2 ^ Suc j" "2 ^ j + 1 \<le> ?n"
      using nlog2_up_bounds [OF n(1)] by blast
    then have "(of_nat ?n :: rat) \<le> of_nat (2 ^ Suc j)" "(of_nat (2 ^ j + 1) :: rat) \<le> of_nat ?n"
      by (simp_all only: of_nat_le_iff)
    then have "of_nat ?n \<le> (2::rat) ^ Suc j" "(2::rat) ^ j + 1 \<le> of_nat ?n"
      by (simp_all only: of_nat_power of_nat_numeral of_nat_add of_nat_1)
    then have "1 / r \<le> 2 ^ Suc j" "2 ^ j < 1 / r" using n(2,3) by linarith+
    then have "1 / 2 ^ Suc j \<le> r" "r < 1 / 2 ^ j" using assms by (auto simp: field_simps)
    moreover have "(2::rat) powi (- int (Suc j)) = 1 / 2 ^ Suc j"
      by (simp only: power_int_minus power_int_of_nat inverse_eq_divide)
    moreover have "(2::rat) powi (- int (Suc j) + 1) = 1 / 2 ^ j"
      by (simp add: power_int_minus inverse_eq_divide)
    ultimately show ?thesis using False k by (simp add: flog2_def)
  qed
  then show "2 powi flog2 r \<le> r" "r < 2 powi (flog2 r + 1)" by auto
qed


lemma powi_mono_iff: "(2::rat) powi a \<le> 2 powi b \<longleftrightarrow> a \<le> b"
  by (metis linorder_not_le one_less_numeral_iff order_less_imp_le power_int_increasing
      power_int_strict_increasing semiring_norm(76) one_le_numeral)

lemma powi_less_iff: "(2::rat) powi a < 2 powi b \<longleftrightarrow> a < b"
  by (metis linorder_not_le powi_mono_iff)

lemma flog2_unique: "2 powi k \<le> r \<Longrightarrow> r < 2 powi (k + 1) \<Longrightarrow> flog2 r = k"
proof -
  assume k: "2 powi k \<le> r" "r < 2 powi (k + 1)"
  have "(0::rat) < 2 powi k" by simp
  then have r: "0 < r" using k by linarith
  have "(2::rat) powi k < 2 powi (flog2 r + 1)" "(2::rat) powi flog2 r < 2 powi (k + 1)"
    using k flog2_bounds [OF r] by linarith+
  then show ?thesis by (simp add: powi_less_iff)
qed

lemma powi_add: "(2::rat) powi (a + b) = 2 powi a * 2 powi b"
  by (simp add: power_int_add)

lemma powi_diff: "(2::rat) powi (a - b) = 2 powi a / 2 powi b"
  by (simp add: power_int_diff)


section \<open>Exact results\<close>

text \<open>The magnitudes a format holds exactly: \<open>n * 2 powi e\<close> with \<open>n\<close> of at most \<open>prec\<close> bits.\<close>

definition exact_mag :: "fmt \<Rightarrow> rat \<Rightarrow> bool" where
  "exact_mag f r \<longleftrightarrow> (\<exists>n e. r = of_nat n * 2 powi e \<and> n < 2 ^ prec f \<and> emin f \<le> e \<and> e \<le> emax f)"

fun exact :: "fmt \<Rightarrow> fl \<Rightarrow> bool" where
  "exact f (FNum s m) \<longleftrightarrow> exact_mag f m"
| "exact f _ \<longleftrightarrow> True"

lemma rne_of_int [simp]: "rne (of_int i) = i"
  by (simp add: rne_def)

lemma exact_mag_nonneg: "exact_mag f r \<Longrightarrow> 0 \<le> r"
  by (auto simp: exact_mag_def)

lemma ulp_exp_le:
  assumes "0 < n" and "n < 2 ^ prec f" and "emin f \<le> e" and "0 < prec f"
  shows "ulp_exp f (of_nat n * 2 powi e) \<le> e"
proof -
  let ?r = "of_nat n * 2 powi e :: rat"
  have r: "0 < ?r" using assms by simp
  have "(of_nat n :: rat) < of_nat (2 ^ prec f)" using assms(2) by (simp only: of_nat_less_iff)
  then have "?r < 2 powi (int (prec f)) * 2 powi e" by simp
  with flog2_bounds(1) [OF r] have "2 powi flog2 ?r < (2::rat) powi int (prec f) * 2 powi e"
    by (rule order_le_less_trans)
  then have "2 powi flog2 ?r < (2::rat) powi (int (prec f) + e)" by (simp only: powi_add)
  then have "flog2 ?r < int (prec f) + e" by (simp only: powi_less_iff)
  then show ?thesis using assms(3,4) by (simp add: ulp_exp_def)
qed

lemma rnd_exact:
  assumes "exact_mag f r" and "0 < prec f"
  shows "rnd f s r = FNum s r"
proof (cases "r = 0")
  case True
  then show ?thesis by (simp add: rnd_def)
next
  case False
  from assms(1) obtain n e where r: "r = of_nat n * 2 powi e" "n < 2 ^ prec f" "emin f \<le> e" "e \<le> emax f"
    by (auto simp: exact_mag_def)
  have n: "0 < n" using False r(1) by (cases n) auto
  define k where "k = ulp_exp f r"
  have "k \<le> e" using ulp_exp_le [OF n r(2,3) assms(2)] r(1) k_def by simp
  then obtain j where j: "e = k + int j" by (metis zle_iff_zadd)
  have "r / 2 powi k = of_nat n * 2 ^ j" using r(1) j by (simp add: powi_add)
  then have q: "r / 2 powi k = of_int (int n * 2 ^ j)" by simp
  have "(of_nat n :: rat) \<le> 2 ^ prec f - 1"
  proof -
    have "(of_nat (n + 1) :: rat) \<le> of_nat (2 ^ prec f)"
      using r(2) by (simp only: of_nat_le_iff)
    then show ?thesis by simp
  qed
  moreover have "(2::rat) powi e \<le> 2 powi emax f" using r(4) by (simp add: powi_mono_iff)
  ultimately have "r \<le> max_fin f" unfolding r(1) max_fin_def by (intro mult_mono) auto
  moreover have "of_int (rne (r / 2 powi k)) * 2 powi k = r"
    unfolding q rne_of_int using r(1) j by (simp add: powi_add)
  ultimately show ?thesis using False by (simp add: rnd_def Let_def k_def [symmetric])
qed

lemma of_int_fl_exact:
  assumes "\<bar>i\<bar> < 2 ^ prec f" and "0 < prec f" and "emin f \<le> 0" and "0 \<le> emax f"
  shows "of_int_fl f i = FNum (i < 0) (of_int \<bar>i\<bar>)"
proof -
  have "exact_mag f (of_int \<bar>i\<bar>)"
    unfolding exact_mag_def using assms
    by (intro exI [of _ "nat \<bar>i\<bar>"] exI [of _ 0]) (auto simp: nat_less_iff of_nat_nat)
  then show ?thesis using assms(2) by (simp add: of_int_fl_def rnd_exact)
qed



section \<open>The bytes of a float and its value\<close>

lemma unat_f32_fields:
  assumes "ex < 256" and "mn < 2 ^ 23"
  shows "unat (f32_fields s ex mn) = (if s then 2 ^ 31 else 0) + ex * 2 ^ 23 + mn"
proof -
  have "ex * 2 ^ 23 \<le> 255 * 2 ^ 23" using assms(1) by (intro mult_right_mono) auto
  then have "(if s then 2 ^ 31 else 0) + ex * 2 ^ 23 + mn < 2 ^ 32" using assms(2) by auto
  then show ?thesis unfolding f32_fields_def by (simp only: unat_of_nat) simp
qed

lemma decode_fields:
  assumes "ex < 256" and "mn < 2 ^ 23"
  shows "decode_f32 (f32_fields s ex mn) =
     (if ex = 255 then (if mn = 0 then FInf s else FNaN)
      else if ex = 0 then FNum s (of_nat mn * 2 powi - 149)
      else FNum s (of_nat (2 ^ 23 + mn) * 2 powi (int ex - 150)))"
proof -
  let ?n = "(if s then 2 ^ 31 else 0) + ex * 2 ^ 23 + mn"
  have "ex * 2 ^ 23 \<le> 255 * 2 ^ 23" using assms(1) by (intro mult_right_mono) auto
  then have s: "(2 ^ 31 \<le> ?n) = s" using assms(2) by auto
  have "?n mod 2 ^ 23 = mn"
  proof -
    have "?n = mn + ((if s then 256 else 0) + ex) * 2 ^ 23" by simp
    then show ?thesis using assms(2) by (simp only: mod_mult_self1 mod_less)
  qed
  moreover have "?n div 2 ^ 23 mod 256 = ex"
  proof -
    have "?n = mn + ((if s then 256 else 0) + ex) * 2 ^ 23" by simp
    then have "?n div 2 ^ 23 = (if s then 256 else 0) + ex" using assms(2) by (simp only: div_mult_self1) simp
    then show ?thesis using assms(1) by simp
  qed
  ultimately show ?thesis
    using s unat_f32_fields [OF assms, of s] by (simp only: decode_f32_def Let_def)
qed

lemma f32_fields_cover: "\<exists>s ex mn. w = f32_fields s ex mn \<and> ex < 256 \<and> mn < 2 ^ 23"
proof -
  let ?n = "unat w"
  have n: "?n < 2 ^ 32" using unsigned_less [of w] by simp
  define s where "s = (2 ^ 31 \<le> ?n)"
  define ex mn where "ex = ?n div 2 ^ 23 mod 256" and "mn = ?n mod 2 ^ 23"
  have "?n div 2 ^ 23 < 512" using n by (simp add: less_mult_imp_div_less)
  moreover have "256 \<le> ?n div 2 ^ 23 \<longleftrightarrow> s" unfolding s_def by (simp add: less_eq_div_iff_mult_less_eq)
  ultimately have "?n div 2 ^ 23 = (if s then 256 else 0) + ex"
    by (auto simp: ex_def le_mod_geq not_le)
  then have "?n = ((if s then 256 else 0) + ex) * 2 ^ 23 + mn"
    unfolding mn_def by (metis div_mult_mod_eq)
  then have "?n = (if s then 2 ^ 31 else 0) + ex * 2 ^ 23 + mn" by simp
  then have "w = f32_fields s ex mn" unfolding f32_fields_def by (metis of_nat_unat ucast_id)
  then show ?thesis by (intro exI [of _ s] exI [of _ ex] exI [of _ mn]) (simp add: ex_def mn_def)
qed

lemma decode_exact: "exact f32 (decode_f32 w)"
proof -
  obtain s ex mn where w: "w = f32_fields s ex mn" "ex < 256" "mn < 2 ^ 23"
    using f32_fields_cover by blast
  have "exact_mag f32 (of_nat mn * 2 powi - 149)"
    unfolding exact_mag_def using w(3) by (intro exI [of _ mn] exI [of _ "-149"]) (auto simp: f32_def)
  moreover have "exact_mag f32 (of_nat (2 ^ 23 + mn) * 2 powi (int ex - 150))" if "ex \<noteq> 0" "ex \<noteq> 255"
    unfolding exact_mag_def using w(2,3) that
    by (intro exI [of _ "2 ^ 23 + mn"] exI [of _ "int ex - 150"]) (auto simp: f32_def)
  ultimately show ?thesis using w by (simp add: decode_fields)
qed

text \<open>An exact magnitude is a whole number of units of any exponent not above its own unit.\<close>

lemma exact_mag_units:
  assumes "exact_mag f r" and "0 < r" and "0 < prec f" and "k = ulp_exp f r"
  shows "\<exists>q. r = of_nat q * 2 powi k"
proof -
  from assms(1) obtain n e where r: "r = of_nat n * 2 powi e" "n < 2 ^ prec f" "emin f \<le> e" "e \<le> emax f"
    by (auto simp: exact_mag_def)
  have n: "0 < n" using assms(2) r(1) by (cases n) auto
  have "k \<le> e" using ulp_exp_le [OF n r(2,3) assms(3)] r(1) assms(4) by simp
  then obtain j where "e = k + int j" by (metis zle_iff_zadd)
  then have "r = of_nat (n * 2 ^ j) * 2 powi k" using r(1) by (simp add: powi_add)
  then show ?thesis by blast
qed

lemma exact_mag_f32_less: "exact_mag f32 r \<Longrightarrow> r < 2 powi 128"
proof -
  assume "exact_mag f32 r"
  then obtain n e where r: "r = of_nat n * 2 powi e" "n < 2 ^ 24" "e \<le> 104"
    by (auto simp: exact_mag_def f32_def)
  have "(of_nat n :: rat) < of_nat (2 ^ 24)" using r(2) by (simp only: of_nat_less_iff)
  then have "r < 2 powi 24 * 2 powi e" using r(1) by simp
  also have "\<dots> \<le> 2 powi 24 * 2 powi 104" using r(3) powi_mono_iff [of e 104] by (intro mult_left_mono) auto
  also have "\<dots> = (2::rat) powi 128" by (simp flip: power_int_add)
  finally show ?thesis .
qed

lemma decode_encode:
  assumes "exact f32 x"
  shows "decode_f32 (encode_f32 x) = x"
proof (cases x)
  case (FNum s m)
  then have ex: "exact_mag f32 m" using assms by simp
  show ?thesis
  proof (cases "m < 2 powi - 126")
    case True
    have "\<exists>q. m = of_nat q * 2 powi - 149"
    proof (cases "m = 0")
      case False
      then have m: "0 < m" using exact_mag_nonneg [OF ex] by simp
      have "2 powi flog2 m < (2::rat) powi - 126" using True flog2_bounds(1) [OF m] by linarith
      then have "ulp_exp f32 m = - 149" by (simp only: powi_less_iff) (simp add: ulp_exp_def f32_def)
      then show ?thesis using exact_mag_units [OF ex m] by (simp add: f32_def)
    qed (intro exI [of _ 0]; simp)
    then obtain q where q: "m = of_nat q * 2 powi - 149" by blast
    have "(2::rat) powi - 126 = 2 ^ 23 * 2 powi - 149" by (simp add: power_int_minus)
    then have "(of_nat q :: rat) < of_nat (2 ^ 23)" using True q by simp
    then have "q < 2 ^ 23" by (simp only: of_nat_less_iff)
    moreover have "nat \<lfloor>m / 2 powi - 149\<rfloor> = q" using q by simp
    ultimately show ?thesis using FNum True q by (simp add: decode_fields)
  next
    case False
    define e where "e = flog2 m"
    have "(0::rat) < 2 powi - 126" by simp
    then have m: "0 < m" using False by linarith
    have b: "2 powi e \<le> m" "m < 2 powi (e + 1)" using flog2_bounds [OF m] by (auto simp: e_def)
    have "(2::rat) powi - 126 < 2 powi (e + 1)" "(2::rat) powi e < 2 powi 128"
      using b False exact_mag_f32_less [OF ex] by linarith+
    then have e: "- 126 \<le> e" "e \<le> 127" by (simp_all only: powi_less_iff)
    have "ulp_exp f32 m = e - 23" using e by (simp add: ulp_exp_def f32_def e_def)
    then obtain q where q: "m = of_nat q * 2 powi (e - 23)"
      using exact_mag_units [OF ex m] by (auto simp: f32_def)
    have p: "(2::rat) powi e = 2 ^ 23 * 2 powi (e - 23)" "(2::rat) powi (e + 1) = 2 ^ 24 * 2 powi (e - 23)"
      by (simp_all add: power_int_diff power_int_add)
    have "of_nat (2 ^ 23) \<le> (of_nat q :: rat)" "(of_nat q :: rat) < of_nat (2 ^ 24)"
      using b unfolding q p by simp_all
    then have ql: "2 ^ 23 \<le> q" "q < 2 ^ 24" by (simp_all only: of_nat_less_iff of_nat_le_iff)
    have "nat \<lfloor>m / 2 powi (e - 23)\<rfloor> = q" using q by simp
    then have "encode_f32 x = f32_fields s (nat (e + 127)) (q - 2 ^ 23)"
      using FNum False by (simp add: Let_def e_def)
    then show ?thesis
      using FNum e ql q by (simp add: decode_fields of_nat_diff)
  qed
qed (simp_all add: decode_fields)

lemma encode_decode:
  assumes "decode_f32 w \<noteq> FNaN"
  shows "encode_f32 (decode_f32 w) = w"
proof -
  obtain s ex mn where w: "w = f32_fields s ex mn" "ex < 256" "mn < 2 ^ 23"
    using f32_fields_cover by blast
  consider "ex = 255" "mn = 0" | "ex = 0" | "ex \<noteq> 0" "ex \<noteq> 255"
    using assms w by (auto simp: decode_fields split: if_splits)
  then show ?thesis
  proof cases
    case 1
    then show ?thesis using w by (simp add: decode_fields)
  next
    case 2
    have "(of_nat mn :: rat) < of_nat (2 ^ 23)" using w(3) by (simp only: of_nat_less_iff)
    then have "(of_nat mn :: rat) * 2 powi - 149 < 2 powi - 126" by (simp add: power_int_minus field_simps)
    then show ?thesis using w 2 by (simp add: decode_fields)
  next
    case 3
    let ?q = "2 ^ 23 + mn" and ?e = "int ex - 127"
    let ?m = "of_nat ?q * 2 powi (int ex - 150) :: rat"
    have p: "(2::rat) powi ?e = 2 ^ 23 * 2 powi (int ex - 150)"
        "(2::rat) powi (?e + 1) = 2 ^ 24 * 2 powi (int ex - 150)"
      by (simp_all flip: power_int_add_numeral add: power_int_diff power_int_add)
    have "2 ^ 23 \<le> ?q" "?q < 2 ^ 24" using w(3) by auto
    then have "of_nat (2 ^ 23) \<le> (of_nat ?q :: rat)" "(of_nat ?q :: rat) < of_nat (2 ^ 24)"
      by (simp_all only: of_nat_less_iff of_nat_le_iff)
    then have "2 powi ?e \<le> ?m" "?m < 2 powi (?e + 1)" unfolding p by simp_all
    then have fl: "flog2 ?m = ?e" by (rule flog2_unique)
    have "(2::rat) powi - 126 \<le> 2 powi ?e" unfolding powi_mono_iff using 3 by simp
    then have "\<not> ?m < 2 powi - 126" using \<open>2 powi ?e \<le> ?m\<close> by linarith
    moreover have "nat \<lfloor>?m / 2 powi (?e - 23)\<rfloor> = ?q" by simp
    ultimately show ?thesis using w 3 fl by (simp add: decode_fields Let_def)
  qed
qed

end
