(* ===== verification/Bytes.thy ===== *)
theory Bytes
  imports Floats Vban
begin

text \<open>
  Little-endian integers in byte blocks, and floats in byte blocks: what a cast of a \<open>char*\<close> to a
  pointer to a wider type reads and writes.
\<close>

section \<open>Integers\<close>

fun le_val :: "byte list \<Rightarrow> nat" where
  "le_val [] = 0"
| "le_val (b # bs) = unat b + 256 * le_val bs"

definition sle :: "byte list \<Rightarrow> int" where
  "sle bs = (let n = int (le_val bs) in
     if 2 * n < 256 ^ length bs then n else n - 256 ^ length bs)"

fun le_bytes :: "nat \<Rightarrow> int \<Rightarrow> byte list" where
  "le_bytes 0 i = []"
| "le_bytes (Suc n) i = word_of_int i # le_bytes n (i div 256)"

lemma length_le_bytes [simp]: "length (le_bytes n i) = n"
  by (induction n arbitrary: i) simp_all

lemma le_val_less: "le_val bs < 256 ^ length bs"
proof (induction bs)
  case (Cons b bs)
  have "unat b < 256" using unsigned_less [of b] by simp
  then have "unat b + 256 * le_val bs < 256 * (le_val bs + 1)" by simp
  also have "\<dots> \<le> 256 * 256 ^ length bs" using Cons by (intro mult_left_mono) auto
  finally show ?case by simp
qed simp

lemma le_val_le_bytes: "int (le_val (le_bytes n i)) = i mod 256 ^ n"
proof (induction n arbitrary: i)
  case (Suc n)
  have "int (unat (word_of_int i :: byte)) = i mod 256" by (simp add: unsigned_of_int take_bit_eq_mod)
  then have "int (le_val (le_bytes (Suc n) i)) = i mod 256 + 256 * (i div 256 mod 256 ^ n)"
    by (simp add: Suc)
  then show ?case by (simp add: zmod_zmult2_eq)
qed simp

lemma sle_bounds: "- (256 ^ length bs) \<le> 2 * sle bs" "2 * sle bs < 256 ^ length bs"
proof -
  have n: "int (le_val bs) < 256 ^ length bs" using le_val_less [of bs]
    by (metis of_nat_less_iff of_nat_numeral of_nat_power)
  have half: "0 \<le> x \<Longrightarrow> x < w \<Longrightarrow> - w \<le> 2 * (if 2 * x < w then x else x - w) \<and>
      2 * (if 2 * x < w then x else x - w) < w" for x w :: int
    by auto
  have "- (256 ^ length bs) \<le> 2 * sle bs \<and> 2 * sle bs < 256 ^ length bs"
    unfolding sle_def Let_def by (rule half [OF _ n]) simp
  then show "- (256 ^ length bs) \<le> 2 * sle bs" "2 * sle bs < 256 ^ length bs" by blast+
qed

lemma sle_le_bytes:
  assumes "- (256 ^ n) \<le> 2 * i" and "2 * i < 256 ^ n"
  shows "sle (le_bytes n i) = i"
proof (cases "0 \<le> i")
  case True
  then have "i mod 256 ^ n = i" using assms by simp
  then show ?thesis using assms by (simp add: sle_def Let_def le_val_le_bytes)
next
  case False
  have "i mod 256 ^ n = (i + 256 ^ n) mod 256 ^ n" by simp
  also have "\<dots> = i + 256 ^ n" using False assms by (intro mod_pos_pos_trivial) linarith+
  finally show ?thesis using assms by (simp add: sle_def Let_def le_val_le_bytes)
qed

lemma le_bytes_mod: "le_bytes n (i mod 256 ^ n) = le_bytes n i"
proof (induction n arbitrary: i)
  case (Suc n)
  have "(word_of_int (i mod 256 ^ Suc n) :: byte) = word_of_int i"
    by (simp only: word_of_int_eq_iff) (simp add: take_bit_eq_mod mod_mod_cancel)
  moreover have "i mod 256 ^ Suc n div 256 = i div 256 mod 256 ^ n"
    by (simp add: zmod_zmult2_eq)
  ultimately show ?case by (simp add: Suc)
qed simp

lemma le_bytes_le_val: "le_bytes (length bs) (int (le_val bs)) = bs"
proof (induction bs)
  case (Cons b bs)
  have b: "unat b < 256" using unsigned_less [of b] by simp
  have "(int m + 256 * x) div 256 = x" if "m < 256" for m :: nat and x using that by simp
  from this [OF b] have "(int (unat b) + 256 * int (le_val bs)) div 256 = int (le_val bs)" .
  moreover have "(word_of_int (int (unat b) + 256 * int (le_val bs)) :: byte) = b"
  proof -
    have "(256 :: byte) = 0" by simp
    then have z: "(256 :: byte) * x = 0" for x by (simp only: mult_zero_left)
    show ?thesis unfolding of_int_add of_int_mult of_int_numeral z by simp
  qed
  ultimately show ?case using Cons by simp
qed simp

lemma le_bytes_sle: "length bs = n \<Longrightarrow> le_bytes n (sle bs) = bs"
proof -
  assume n: "length bs = n"
  have "sle bs mod 256 ^ n = int (le_val bs) mod 256 ^ n" by (simp add: sle_def Let_def n)
  then have "le_bytes n (sle bs) = le_bytes n (int (le_val bs))" by (metis le_bytes_mod)
  then show ?thesis using le_bytes_le_val [of bs] n by simp
qed

lemma drop_le_bytes: "drop j (le_bytes n i) = le_bytes (n - j) (i div 256 ^ j)"
proof (induction j arbitrary: n i)
  case (Suc j)
  show ?case
  proof (cases n)
    case (Suc m)
    then show ?thesis by (simp add: Suc.IH zdiv_zmult2_eq)
  qed simp
qed simp

lemma int_div_bounds:
  fixes a b i q :: int
  assumes "0 < q" and "a * q \<le> i" and "i < b * q"
  shows "a \<le> i div q" and "i div q < b"
proof -
  show "a \<le> i div q" using zdiv_mono1 [OF assms(2,1)] assms(1) by simp
  have "i div q * q \<le> i" using assms(1) by (simp add: minus_mod_eq_div_mult [symmetric])
  then have "i div q * q < b * q" using assms(3) by linarith
  then show "i div q < b" using assms(1) by simp
qed

text \<open>Dropping low bytes divides rounding down, adding low zero bytes multiplies.\<close>

lemma sle_drop:
  assumes "j < length bs"
  shows "sle (drop j bs) = sle bs div 256 ^ j"
proof -
  let ?n = "length bs" and ?i = "sle bs"
  have pow: "(256::int) ^ ?n = 256 ^ (?n - j) * 256 ^ j"
    using assms by (simp flip: power_add)
  have b: "- (256 ^ ?n) \<le> 2 * ?i" "2 * ?i < 256 ^ ?n" using sle_bounds [of bs] assms by fastforce+
  have "drop j bs = le_bytes (?n - j) (?i div 256 ^ j)"
    using drop_le_bytes [of j ?n ?i] le_bytes_sle [of bs] by simp
  moreover have "sle (le_bytes (?n - j) (?i div 256 ^ j)) = ?i div 256 ^ j"
  proof (rule sle_le_bytes)
    obtain m where m: "?n - j = Suc m" using assms by (cases "?n - j") auto
    have half: "(256::int) ^ (?n - j) = 2 * (128 * 256 ^ m)" using m by simp
    have "- (128 * 256 ^ m) * 256 ^ j \<le> ?i" "?i < 128 * 256 ^ m * 256 ^ j"
      using b unfolding pow half by linarith+
    moreover have "(0::int) < 256 ^ j" by simp
    ultimately have "- (128 * 256 ^ m) \<le> ?i div 256 ^ j" "?i div 256 ^ j < 128 * 256 ^ m"
      using int_div_bounds by blast+
    then show "- (256 ^ (?n - j)) \<le> 2 * (?i div 256 ^ j)" "2 * (?i div 256 ^ j) < 256 ^ (?n - j)"
      unfolding half by linarith+
  qed
  ultimately show ?thesis by simp
qed

lemma le_val_zeros: "le_val (replicate j 0 @ bs) = 256 ^ j * le_val bs"
  by (induction j) simp_all

lemma sle_zeros: "sle (replicate j 0 @ bs) = sle bs * 256 ^ j"
proof -
  have "2 * (256 ^ j * int (le_val bs)) < 256 ^ (j + length bs) \<longleftrightarrow> 2 * int (le_val bs) < 256 ^ length bs"
    by (simp add: power_add)
  then show ?thesis by (simp add: sle_def Let_def le_val_zeros power_add algebra_simps)
qed


section \<open>Floats\<close>

definition f32_bytes :: "fl \<Rightarrow> byte list" where
  "f32_bytes x = le32 (encode_f32 x)"

definition f32_of :: "byte list \<Rightarrow> fl" where
  "f32_of bs = decode_f32 (of_le32 bs)"

text \<open>Element \<open>i\<close> of the block seen as an array of floats.\<close>

definition load_f32 :: "byte list \<Rightarrow> nat \<Rightarrow> fl option" where
  "load_f32 b i = map_option f32_of (mem_load b (4 * i) 4)"

definition store_f32 :: "byte list \<Rightarrow> nat \<Rightarrow> fl \<Rightarrow> byte list option" where
  "store_f32 b i x = mem_store b (4 * i) (f32_bytes x)"

lemma length_f32_bytes [simp]: "length (f32_bytes x) = 4"
  by (simp add: f32_bytes_def)

lemma f32_of_bytes [simp]: "exact f32 x \<Longrightarrow> f32_of (f32_bytes x) = x"
  using of_le32_le32 [of "encode_f32 x" "[]"] by (simp add: f32_of_def f32_bytes_def decode_encode)

lemma exact_f32_of: "exact f32 (f32_of bs)"
  by (simp add: f32_of_def decode_exact)

lemma load_f32_Some [mem]: "4 * i + 4 \<le> length b \<Longrightarrow> load_f32 b i = Some (f32_of (take 4 (drop (4 * i) b)))"
  by (simp add: load_f32_def mem_load_def)

lemma store_f32_Some [mem]: "4 * i + 4 \<le> length b \<Longrightarrow> store_f32 b i x = Some (blit b (4 * i) (f32_bytes x))"
  by (simp add: store_f32_def mem_store_def)

end
