(* ===== verification/Sample_Convert.thy ===== *)
theory Sample_Convert
  imports Bytes
begin

text \<open>
  The sample format conversions of \<open>vban_common/vban_functions.h\<close>: \<open>vban_sample_convert\<close> and the
  two byte-order helpers.
\<close>

section \<open>Byte order\<close>

text \<open>\<open>u_int16_t\<close> and \<open>uint32_t\<close> arguments; the sums are \<open>int\<close> and are converted on return.\<close>

definition int16betole :: "u16 \<Rightarrow> u16" where
  "int16betole input =
     push_bit 8 (ucast (ucast input :: byte)) + ucast (ucast (drop_bit 8 input) :: byte)"

definition int32betole :: "u32 \<Rightarrow> u32" where
  "int32betole input =
     (let b = (\<lambda>i. ucast (ucast (drop_bit (8 * i) input) :: byte) :: u32) in
      push_bit 8 (push_bit 8 (push_bit 8 (b 0) + b 1) + b 2) + b 3)"


section \<open>The conversion of one sample\<close>

text \<open>
  \<open>pick src i\<close> is \<open>sptr[i]\<close>. The constants are \<open>(float)(1<<7)\<close>, \<open>(float)(1<<15)\<close>,
  \<open>(float)(1<<23)\<close> and \<open>(float)(1<<31)\<close>; the last shift gives the most negative \<open>int\<close>.
\<close>

definition pick :: "byte list \<Rightarrow> nat \<Rightarrow> byte option" where
  "pick src i = (if i < length src then Some (src ! i) else None)"

definition f_7 :: fl where "f_7 = FNum False (2 ^ 7)"
definition f_15 :: fl where "f_15 = FNum False (2 ^ 15)"
definition f_23 :: fl where "f_23 = FNum False (2 ^ 23)"
definition f_31 :: fl where "f_31 = FNum True (2 ^ 31)"

lemmas f_consts = f_7_def f_15_def f_23_def f_31_def

text \<open>The \<open>int32_t tmp\<close> of the float sources, as its four bytes.\<close>

definition float_to_tmp :: "byte list \<Rightarrow> nat \<Rightarrow> byte list option" where
  "float_to_tmp src sample = do {
     x \<leftarrow> load_f32 src sample;
     tmp \<leftarrow> fl_to_int 32 (fround (fmul f32 f_31 x));
     Some (le_bytes 4 tmp) }"

text \<open>
  What one iteration stores for sample number \<open>sample\<close>; \<open>ss\<close> is \<open>src_sample_size\<close>. The first
  level of \<^const>\<open>None\<close> is an unsupported pair of formats.
\<close>

fun convert_sample :: "nat \<Rightarrow> nat \<Rightarrow> (nat \<Rightarrow> byte list \<Rightarrow> nat \<Rightarrow> byte list option) option" where
  "convert_sample dst src =
     (if dst = 0 then
        if src = 1 then Some (\<lambda>ss sptr sample. do { a \<leftarrow> pick sptr (1 + sample * ss); Some [a] })
        else if src = 2 then Some (\<lambda>ss sptr sample. do { a \<leftarrow> pick sptr (2 + sample * ss); Some [a] })
        else if src = 3 then Some (\<lambda>ss sptr sample. do { a \<leftarrow> pick sptr (3 + sample * ss); Some [a] })
        else if src = 4 then Some (\<lambda>ss sptr sample. do {
          x \<leftarrow> load_f32 sptr sample;
          i \<leftarrow> fl_to_int 8 (fround (fmul f32 f_7 x));
          Some (le_bytes 1 i) })
        else None
      else if dst = 1 then
        if src = 0 then Some (\<lambda>ss sptr sample. do { a \<leftarrow> pick sptr (0 + sample * ss); Some [0, a] })
        else if src = 2 then Some (\<lambda>ss sptr sample. do {
          a \<leftarrow> pick sptr (1 + sample * ss); b \<leftarrow> pick sptr (2 + sample * ss); Some [a, b] })
        else if src = 3 then Some (\<lambda>ss sptr sample. do {
          a \<leftarrow> pick sptr (2 + sample * ss); b \<leftarrow> pick sptr (3 + sample * ss); Some [a, b] })
        else if src = 4 then Some (\<lambda>ss sptr sample. do {
          t \<leftarrow> float_to_tmp sptr sample; Some (drop 2 t) })
        else None
      else if dst = 2 then
        if src = 0 then Some (\<lambda>ss sptr sample. do { a \<leftarrow> pick sptr (0 + sample * ss); Some [0, 0, a] })
        else if src = 1 then Some (\<lambda>ss sptr sample. do {
          a \<leftarrow> pick sptr (0 + sample * ss); b \<leftarrow> pick sptr (1 + sample * ss); Some [0, a, b] })
        else if src = 3 then Some (\<lambda>ss sptr sample. do {
          a \<leftarrow> pick sptr (1 + sample * ss); b \<leftarrow> pick sptr (2 + sample * ss);
          c \<leftarrow> pick sptr (3 + sample * ss); Some [a, b, c] })
        else if src = 4 then Some (\<lambda>ss sptr sample. do {
          t \<leftarrow> float_to_tmp sptr sample; Some (drop 1 t) })
        else None
      else if dst = 3 then
        if src = 0 then Some (\<lambda>ss sptr sample. do { a \<leftarrow> pick sptr (0 + sample * ss); Some [0, 0, 0, a] })
        else if src = 1 then Some (\<lambda>ss sptr sample. do {
          a \<leftarrow> pick sptr (0 + sample * ss); b \<leftarrow> pick sptr (1 + sample * ss); Some [0, 0, a, b] })
        else if src = 2 then Some (\<lambda>ss sptr sample. do {
          a \<leftarrow> pick sptr (0 + sample * ss); b \<leftarrow> pick sptr (1 + sample * ss);
          c \<leftarrow> pick sptr (2 + sample * ss); Some [0, a, b, c] })
        else if src = 4 then Some (\<lambda>ss sptr sample. float_to_tmp sptr sample)
        else None
      else if dst = 4 then
        if src = 0 then Some (\<lambda>ss sptr sample. do {
          a \<leftarrow> pick sptr sample;
          Some (f32_bytes (fdiv f32 (of_int_fl f32 (uint a)) f_7)) })
        else if src = 1 then Some (\<lambda>ss sptr sample. do {
          v \<leftarrow> mem_load sptr (2 * sample) 2;
          Some (f32_bytes (fdiv f32 (of_int_fl f32 (sle v)) f_15)) })
        else if src = 2 then Some (\<lambda>ss sptr sample. do {
          c \<leftarrow> pick sptr (2 + sample * ss);
          b \<leftarrow> pick sptr (1 + sample * ss);
          a \<leftarrow> pick sptr (0 + sample * ss);
          Some (f32_bytes (fdiv f32 (of_int_fl f32 (sint c * 2 ^ 16 + uint b * 2 ^ 8 + uint a)) f_23)) })
        else if src = 3 then Some (\<lambda>ss sptr sample. do {
          v \<leftarrow> mem_load sptr (4 * sample) 4;
          Some (f32_bytes (fdiv f32 (of_int_fl f32 (sle v)) f_31)) })
        else None
      else None)"

declare convert_sample.simps [simp del]


section \<open>The conversion of a block\<close>

text \<open>
  The result is the destination block and the return code. Formats are \<open>uint8_t\<close> values; the size
  table is read before they are checked, so a value above 7 is undefined.
\<close>

definition vban_sample_convert ::
    "byte list \<Rightarrow> nat \<Rightarrow> byte list \<Rightarrow> nat \<Rightarrow> nat \<Rightarrow> (byte list \<times> int) option" where
  "vban_sample_convert dstptr format_bit_dst srcptr format_bit_src num =
     (if format_bit_dst = format_bit_src then do {
        sz \<leftarrow> bit_size format_bit_dst;
        xs \<leftarrow> mem_load srcptr 0 (sz * num);
        d \<leftarrow> mem_store dstptr 0 xs;
        Some (d, 0)
      } else do {
        ds \<leftarrow> bit_size format_bit_dst;
        ss \<leftarrow> bit_size format_bit_src;
        case convert_sample format_bit_dst format_bit_src of
          None \<Rightarrow> Some (dstptr, 1)
        | Some cv \<Rightarrow> do {
            d \<leftarrow> for_loop 0 num (\<lambda>sample d. do {
              bs \<leftarrow> cv ss srcptr sample;
              mem_store d (sample * ds) bs }) dstptr;
            Some (d, 0) } })"


section \<open>Byte order: the helpers reverse the bytes\<close>

lemma shift_in_byte: "push_bit 8 x + ucast b = push_bit 8 x OR ucast b" for x :: u32 and b :: byte
  by (rule disjunctive_add_eq_or, rule bit_word_eqI) (auto simp: bit_simps dest: bit_imp_le_length)

lemma int32betole_rev: "le32 (int32betole w) = rev (le32 w)"
proof -
  obtain a b c d where abcd: "le32 w = [a, b, c, d]"
    using length_le32 [of w] by (auto simp: numeral_eq_Suc length_Suc_conv simp del: length_le32)
  then have w: "w = ucast a OR push_bit 8 (ucast b) OR push_bit 16 (ucast c) OR push_bit 24 (ucast d)"
    using of_le32_le32 [of w "[]"] of_le32_4 [of a b c d] by simp
  have "int32betole w = push_bit 8 (push_bit 8 (push_bit 8 (ucast a) OR ucast b) OR ucast c) OR ucast d"
    using byte_of_4 [of a b c d, folded w]
    by (simp only: int32betole_def Let_def shift_in_byte) simp
  also have "\<dots> = of_le32 [d, c, b, a]"
    by (simp only: of_le32_4) (simp add: push_bit_or or.assoc or.commute or.left_commute)
  finally show ?thesis using abcd by (simp add: le32_of_le32)
qed

lemma int16betole_involution: "int16betole (int16betole w) = w"
proof -
  have "int16betole v = push_bit 8 (ucast (ucast v :: byte)) OR ucast (ucast (drop_bit 8 v) :: byte)" for v
    unfolding int16betole_def
    by (rule disjunctive_add_eq_or, rule bit_word_eqI) (auto simp: bit_simps dest: bit_imp_le_length)
  then show ?thesis
    by (intro bit_word_eqI) (auto simp: bit_simps)
qed


section \<open>Whole blocks\<close>

lemma bit_size_simps' [simp]:
  "bit_size 0 = Some 1" "bit_size (Suc 0) = Some 2" "bit_size 2 = Some 3"
  "bit_size 3 = Some 4" "bit_size 4 = Some 4" "bit_size 5 = Some 8" "bit_size 6 = Some 0"
  "bit_size 7 = Some 0"
  by (simp_all add: bit_size_def VBanBitResolutionSize_def)

lemma convert_block:
  assumes "fd \<noteq> fs" and "convert_sample fd fs = Some cv" and "bit_size fd = Some ds" and "bit_size fs = Some ss"
    and "\<And>k. k < num \<Longrightarrow> cv ss src k = Some (g k)" and "\<And>k. k < num \<Longrightarrow> length (g k) = ds"
    and "num * ds \<le> length dst"
  shows "vban_sample_convert dst fd src fs num = Some (blit dst 0 (concat (map g [0..<num])), 0)"
proof -
  have "for_loop 0 num (\<lambda>k d. do { bs \<leftarrow> cv ss src k; mem_store d (k * ds) bs }) dst
      = Some (blit dst 0 (concat (map g [0..<num])))"
    using assms(5-7) by (intro for_loop_blocks) auto
  then show ?thesis using assms(1-4) by (simp add: vban_sample_convert_def)
qed

text \<open>A sample of one integer size as a sample of another: the high bytes are kept.\<close>

definition resize :: "nat \<Rightarrow> byte list \<Rightarrow> byte list" where
  "resize n bs = (if n \<le> length bs then drop (length bs - n) bs else replicate (n - length bs) 0 @ bs)"

lemma length_resize [simp]: "length (resize n bs) = n"
  by (simp add: resize_def)

lemma resize_value:
  assumes "0 < n"
  shows "sle (resize n bs) = (if n \<le> length bs then sle bs div 256 ^ (length bs - n)
     else sle bs * 256 ^ (n - length bs))"
proof (cases "n \<le> length bs")
  case True
  then show ?thesis using sle_drop [of "length bs - n" bs] assms by (simp add: resize_def)
next
  case False
  then show ?thesis by (simp add: resize_def sle_zeros)
qed

lemma resize_round_trip: "length bs \<le> n \<Longrightarrow> resize (length bs) (resize n bs) = bs"
  by (cases "length bs = n") (simp_all add: resize_def)

text \<open>The bytes of sample number \<open>k\<close> of a block of samples of \<open>w\<close> bytes.\<close>

definition sample_at :: "nat \<Rightarrow> byte list \<Rightarrow> nat \<Rightarrow> byte list" where
  "sample_at w src k = take w (drop (k * w) src)"

lemma sample_in: "k < num \<Longrightarrow> num * w \<le> length src \<Longrightarrow> k * w + w \<le> length (src :: 'a list)"
  using mult_le_mono1 [of "Suc k" num w] by simp

lemma length_sample_at: "k < num \<Longrightarrow> num * w \<le> length src \<Longrightarrow> length (sample_at w src k) = w"
  using sample_in [of k num w src] by (simp add: sample_at_def)

lemma pick_sample:
  "k < num \<Longrightarrow> num * w \<le> length src \<Longrightarrow> j < w \<Longrightarrow> pick src (j + k * w) = Some (sample_at w src k ! j)"
  using sample_in [of k num w src] by (simp add: pick_def sample_at_def add.commute)

lemma list_of_length:
  "length xs = Suc 0 \<Longrightarrow> xs = [xs ! 0]"
  "length xs = 2 \<Longrightarrow> xs = [xs ! 0, xs ! 1]"
  "length xs = 3 \<Longrightarrow> xs = [xs ! 0, xs ! 1, xs ! 2]"
  "length xs = 4 \<Longrightarrow> xs = [xs ! 0, xs ! 1, xs ! 2, xs ! 3]"
  by (auto simp: length_Suc_conv numeral_eq_Suc)

lemma resize_1: "length xs = 2 \<Longrightarrow> resize 1 xs = [xs ! 1]" "length xs = 3 \<Longrightarrow> resize 1 xs = [xs ! 2]"
    "length xs = 4 \<Longrightarrow> resize 1 xs = [xs ! 3]"
  by (auto simp: resize_def length_Suc_conv numeral_eq_Suc)

lemma resize_2: "length xs = 1 \<Longrightarrow> resize 2 xs = [0, xs ! 0]" "length xs = 3 \<Longrightarrow> resize 2 xs = [xs ! 1, xs ! 2]"
    "length xs = 4 \<Longrightarrow> resize 2 xs = [xs ! 2, xs ! 3]"
  by (auto simp: resize_def length_Suc_conv numeral_eq_Suc)

lemma resize_3: "length xs = 1 \<Longrightarrow> resize 3 xs = [0, 0, xs ! 0]" "length xs = 2 \<Longrightarrow> resize 3 xs = [0, xs ! 0, xs ! 1]"
    "length xs = 4 \<Longrightarrow> resize 3 xs = [xs ! 1, xs ! 2, xs ! 3]"
  by (auto simp: resize_def length_Suc_conv numeral_eq_Suc)

lemma resize_4: "length xs = 1 \<Longrightarrow> resize 4 xs = [0, 0, 0, xs ! 0]"
    "length xs = 2 \<Longrightarrow> resize 4 xs = [0, 0, xs ! 0, xs ! 1]"
    "length xs = 3 \<Longrightarrow> resize 4 xs = [0, xs ! 0, xs ! 1, xs ! 2]"
  by (auto simp: resize_def length_Suc_conv numeral_eq_Suc)

lemmas resize_lists = resize_1 resize_2 resize_3 resize_4

text \<open>The integer formats are 0 to 3, of \<open>f + 1\<close> bytes.\<close>

lemma int_sample:
  assumes fd: "fd < 4" and fs: "fs < 4" and ne: "fd \<noteq> fs" and k: "k < num" and src: "num * (fs + 1) \<le> length src"
  shows "\<exists>cv. convert_sample fd fs = Some cv \<and>
    cv (fs + 1) src k = Some (resize (fd + 1) (sample_at (fs + 1) src k))"
proof -
  have len: "length (sample_at (fs + 1) src k) = fs + 1" using length_sample_at [OF k src] .
  note p = pick_sample [OF k src]
  consider "fd = 0" "fs = 1" | "fd = 0" "fs = 2" | "fd = 0" "fs = 3"
    | "fd = 1" "fs = 0" | "fd = 1" "fs = 2" | "fd = 1" "fs = 3"
    | "fd = 2" "fs = 0" | "fd = 2" "fs = 1" | "fd = 2" "fs = 3"
    | "fd = 3" "fs = 0" | "fd = 3" "fs = 1" | "fd = 3" "fs = 2"
  proof -
    have "fd = 0 \<or> fd = 1 \<or> fd = 2 \<or> fd = 3" "fs = 0 \<or> fs = 1 \<or> fs = 2 \<or> fs = 3"
      using fd fs by auto
    then show thesis using ne that by blast
  qed
  then show ?thesis
  proof cases
    case 1
    then show ?thesis using p [of 1] len by (simp add: convert_sample.simps resize_lists del: One_nat_def)
  next
    case 2
    then show ?thesis using p [of 2] len by (simp add: convert_sample.simps resize_lists del: One_nat_def)
  next
    case 3
    then show ?thesis using p [of 3] len by (simp add: convert_sample.simps resize_lists del: One_nat_def)
  next
    case 4
    then show ?thesis using p [of 0] len by (simp add: convert_sample.simps resize_lists del: One_nat_def)
  next
    case 5
    then show ?thesis using p [of 1] p [of 2] len by (simp add: convert_sample.simps resize_lists del: One_nat_def)
  next
    case 6
    then show ?thesis using p [of 2] p [of 3] len by (simp add: convert_sample.simps resize_lists del: One_nat_def)
  next
    case 7
    then show ?thesis using p [of 0] len by (simp add: convert_sample.simps resize_lists del: One_nat_def)
  next
    case 8
    then show ?thesis using p [of 0] p [of 1] len by (simp add: convert_sample.simps resize_lists del: One_nat_def)
  next
    case 9
    then show ?thesis using p [of 1] p [of 2] p [of 3] len by (simp add: convert_sample.simps resize_lists del: One_nat_def)
  next
    case 10
    then show ?thesis using p [of 0] len by (simp add: convert_sample.simps resize_lists del: One_nat_def)
  next
    case 11
    then show ?thesis using p [of 0] p [of 1] len by (simp add: convert_sample.simps resize_lists del: One_nat_def)
  next
    case 12
    then show ?thesis using p [of 0] p [of 1] p [of 2] len by (simp add: convert_sample.simps resize_lists del: One_nat_def)
  qed
qed


lemma concat_samples:
  "num * w \<le> length src \<Longrightarrow> concat (map (sample_at w src) [0..<num]) = take (num * w) src"
proof (induction num)
  case (Suc n)
  then have "concat (map (sample_at w src) [0..<n]) = take (n * w) src" by simp
  moreover have "take (Suc n * w) src = take (n * w) src @ sample_at w src n"
    unfolding sample_at_def by (simp add: take_add [symmetric] add.commute)
  ultimately show ?case by simp
qed simp

lemma sample_at_blocks:
  assumes "\<And>j. j < n \<Longrightarrow> length (g j) = w" and "k < n"
  shows "sample_at w (concat (map g [0..<n]) @ rest) k = g k"
proof -
  have l: "length (concat (map g [0..<k])) = k * w"
    using assms by (intro length_concat_blocks) auto
  have "[0..<n] = [0..<k] @ k # [Suc k..<n]" using assms(2) by (metis le_add1 less_imp_add_positive
      upt_add_eq_append upt_conv_Cons add_0)
  then have "concat (map g [0..<n]) @ rest = concat (map g [0..<k]) @ g k @ concat (map g [Suc k..<n]) @ rest"
    by simp
  then show ?thesis using l assms by (simp add: sample_at_def)
qed

text \<open>The conversion between integer formats, for whole blocks.\<close>

lemma int_convert_block:
  assumes fd: "fd < 4" and fs: "fs < 4" and src: "num * (fs + 1) \<le> length src"
    and dst: "num * (fd + 1) \<le> length dst"
  shows "vban_sample_convert dst fd src fs num =
    Some (blit dst 0 (concat (map (\<lambda>k. resize (fd + 1) (sample_at (fs + 1) src k)) [0..<num])), 0)"
proof (cases "fd = fs")
  case True
  have sz: "bit_size f = Some (f + 1)" if "f < 4" for f
  proof -
    have "f = 0 \<or> f = 1 \<or> f = 2 \<or> f = 3" using that by auto
    then show ?thesis by auto
  qed
  have "concat (map (\<lambda>k. resize (fd + 1) (sample_at (fs + 1) src k)) [0..<num])
      = concat (map (sample_at (fs + 1) src) [0..<num])"
    using length_sample_at [OF _ src] True by (intro arg_cong [of _ _ concat] map_cong) (auto simp: resize_def)
  also have "\<dots> = take (num * (fs + 1)) src" by (rule concat_samples [OF src])
  finally show ?thesis
    using True src dst sz [OF fs] by (simp add: vban_sample_convert_def mem_load_def mem_store_def mult.commute)
next
  case False
  have sz: "bit_size f = Some (f + 1)" if "f < 4" for f
  proof -
    have "f = 0 \<or> f = 1 \<or> f = 2 \<or> f = 3" using that by auto
    then show ?thesis by auto
  qed
  show ?thesis
  proof (cases "num = 0")
    case True
    have "\<exists>cv. convert_sample fd fs = Some cv"
      using int_sample [OF fd fs False, of 0 1 "replicate (fs + 1) 0"] by auto
    then show ?thesis using True False sz fd fs by (auto simp: vban_sample_convert_def)
  next
    case nonempty: False
    obtain cv where cv: "convert_sample fd fs = Some cv"
      using int_sample [OF fd fs False _ src, of 0] nonempty by auto
    show ?thesis
      using int_sample [OF fd fs False _ src] cv dst sz fd fs
      by (intro convert_block [OF False cv sz sz]) auto
  qed
qed

text \<open>Widening and narrowing again gives back the samples.\<close>

lemma int_convert_round_trip:
  assumes le: "fs \<le> fd" "fd < 4" and src: "length src = num * (fs + 1)"
    and mid: "length mid = num * (fd + 1)" and dst: "length dst = num * (fs + 1)"
  shows "\<exists>m. vban_sample_convert mid fd src fs num = Some (m, 0) \<and>
    vban_sample_convert dst fs m fd num = Some (src, 0)"
proof -
  let ?g = "\<lambda>k. resize (fd + 1) (sample_at (fs + 1) src k)"
  define m where "m = concat (map ?g [0..<num])"
  have lm: "length m = num * (fd + 1)" unfolding m_def by (rule length_concat_blocks) simp
  have "vban_sample_convert mid fd src fs num = Some (blit mid 0 m, 0)"
    unfolding m_def using le src mid by (intro int_convert_block) auto
  moreover have "blit mid 0 m = m" using lm mid by (simp add: blit_0)
  moreover have "vban_sample_convert dst fs m fd num =
      Some (blit dst 0 (concat (map (\<lambda>k. resize (fs + 1) (sample_at (fd + 1) m k)) [0..<num])), 0)"
    using le lm dst by (intro int_convert_block) auto
  moreover have "concat (map (\<lambda>k. resize (fs + 1) (sample_at (fd + 1) m k)) [0..<num]) = src"
  proof -
    have "resize (fs + 1) (sample_at (fd + 1) m k) = sample_at (fs + 1) src k" if "k < num" for k
      using sample_at_blocks [of num ?g "fd + 1" k "[]"] that le src
        resize_round_trip [of "sample_at (fs + 1) src k" "fd + 1"] length_sample_at [of k num "fs + 1" src]
      by (simp add: m_def)
    then have "concat (map (\<lambda>k. resize (fs + 1) (sample_at (fd + 1) m k)) [0..<num])
        = concat (map (sample_at (fs + 1) src) [0..<num])"
      by (intro arg_cong [of _ _ concat] map_cong) auto
    then show ?thesis using concat_samples [of num "fs + 1" src] src by simp
  qed
  ultimately show ?thesis using src dst by (simp add: blit_0)
qed


section \<open>Float samples\<close>

text \<open>The float with the value \<open>i / 2 ^ k\<close>: a sample of \<open>k + 1\<close> bits on the scale from -1 to 1.\<close>

definition samp :: "nat \<Rightarrow> int \<Rightarrow> fl" where
  "samp k i = FNum (i < 0) (of_int \<bar>i\<bar> / 2 ^ k)"

lemma exact_scaled:
  assumes "\<bar>i\<bar> < 2 ^ 24" and "- 149 \<le> e" and "e \<le> 104"
  shows "exact_mag f32 (of_int \<bar>i\<bar> * 2 powi e)"
  unfolding exact_mag_def using assms
  by (intro exI [of _ "nat \<bar>i\<bar>"] exI [of _ e]) (auto simp: f32_def nat_less_iff of_nat_nat)

lemma div_pow2: "x / 2 ^ k = x * 2 powi - int k" for x :: rat
  by (simp add: power_int_minus field_simps)

lemma mult_pow2: "x * 2 ^ k = x * 2 powi int k" for x :: rat
  by simp

lemma exact_samp: "\<bar>i\<bar> < 2 ^ 24 \<Longrightarrow> k \<le> 149 \<Longrightarrow> exact f32 (samp k i)"
  unfolding samp_def exact.simps div_pow2 by (rule exact_scaled) auto

lemma f32_prec [simp]: "0 < prec f32"
  by (simp add: f32_def)

text \<open>An integer with 24 significant bits converts exactly; so does its quotient by a power of two.\<close>

lemma of_int_scaled:
  assumes "\<bar>i\<bar> < 2 ^ 24" and "j \<le> 104"
  shows "of_int_fl f32 (i * 2 ^ j) = FNum (i < 0) (of_int \<bar>i\<bar> * 2 ^ j)"
proof -
  have "exact_mag f32 (of_int \<bar>i\<bar> * 2 ^ j)"
    unfolding mult_pow2 using assms by (intro exact_scaled) auto
  moreover have "of_int \<bar>i * 2 ^ j\<bar> = (of_int \<bar>i\<bar> * 2 ^ j :: rat)" by (simp add: abs_mult)
  moreover have "i * 2 ^ j < 0 \<longleftrightarrow> i < 0" by (simp add: mult_less_0_iff)
  ultimately show ?thesis by (simp add: of_int_fl_def rnd_exact)
qed

lemma fdiv_scaled:
  assumes "\<bar>i\<bar> < 2 ^ 24" and "j \<le> k" and "k \<le> 104"
  shows "fdiv f32 (of_int_fl f32 (i * 2 ^ j)) (FNum s (2 ^ k)) = FNum ((i < 0) \<noteq> s) (of_int \<bar>i\<bar> / 2 ^ (k - j))"
proof -
  have "exact_mag f32 (of_int \<bar>i\<bar> / 2 ^ (k - j))"
    unfolding div_pow2 using assms by (intro exact_scaled) auto
  moreover have "of_int \<bar>i\<bar> * 2 ^ j / 2 ^ k = (of_int \<bar>i\<bar> / 2 ^ (k - j) :: rat)"
    using assms(2) by (simp add: field_simps flip: power_add)
  ultimately show ?thesis
    using of_int_scaled [OF assms(1), of j] assms(2,3) by (simp add: rnd_exact)
qed

lemma fmul_samp:
  assumes "\<bar>i\<bar> < 2 ^ 24" and "k \<le> j" and "j \<le> 104"
  shows "fmul f32 (FNum s (2 ^ j)) (samp k i) = FNum (s \<noteq> (i < 0)) (of_int (\<bar>i\<bar> * 2 ^ (j - k)))"
proof -
  have "2 ^ j * (of_int \<bar>i\<bar> / 2 ^ k) = (of_int \<bar>i\<bar> * 2 ^ (j - k) :: rat)"
    using assms(2) by (simp add: field_simps flip: power_add)
  moreover have "exact_mag f32 (of_int \<bar>i\<bar> * 2 ^ (j - k))"
    unfolding mult_pow2 using assms by (intro exact_scaled) auto
  ultimately show ?thesis by (simp add: samp_def rnd_exact)
qed

lemma fround_int: "fround (FNum s (of_int n)) = FNum s (of_int n)"
proof -
  have "\<lfloor>of_int n + 1 / 2 :: rat\<rfloor> = n" by (simp add: floor_eq_iff)
  then show ?thesis by simp
qed



section \<open>Float to integer and back\<close>

text \<open>The 32-bit intermediate has the opposite sign of the sample; -1.0 has none.\<close>

lemma float_to_tmp_samp:
  assumes x: "load_f32 src n = Some (samp k i)" and k: "k \<le> 23" and i: "- (2 ^ k) < i" "i \<le> 2 ^ k"
  shows "float_to_tmp src n = Some (le_bytes 4 (- i * 2 ^ (31 - k)))"
proof -
  have "(2::int) ^ k \<le> 8388608" using power_increasing [of k 23 "2::int"] k by simp
  then have i24: "\<bar>i\<bar> < 2 ^ 24" using i by auto
  define N where "N = \<bar>i\<bar> * 2 ^ (31 - k)"
  have m: "fmul f32 f_31 (samp k i) = FNum (\<not> i < 0) (of_int N)"
    unfolding f_31_def N_def using fmul_samp [OF i24, of k 31 True] k by simp
  have p: "(2::int) ^ k * 2 ^ (31 - k) = 2 ^ 31" using k by (simp flip: power_add)
  have "- i * 2 ^ (31 - k) < 2 ^ k * 2 ^ (31 - k)" using i(1) by (intro mult_strict_right_mono) auto
  moreover have "- (2 ^ k) * 2 ^ (31 - k) \<le> - i * 2 ^ (31 - k)" using i(2) by (intro mult_right_mono) auto
  ultimately have b: "- (2 ^ 31) \<le> - i * 2 ^ (31 - k)" "- i * 2 ^ (31 - k) < 2 ^ 31" using p by auto
  have v: "(if \<not> i < 0 then - N else N) = - i * 2 ^ (31 - k)" by (simp add: N_def)
  have "fl_to_int 32 (FNum (\<not> i < 0) (of_int N)) = Some (- i * 2 ^ (31 - k))"
    using b unfolding fl_to_int.simps Let_def floor_of_int v by simp
  then show ?thesis using x unfolding float_to_tmp_def by (simp only: m fround_int bind.simps)
qed

lemma float_to_tmp_minus_one:
  assumes "load_f32 src n = Some (samp k (- (2 ^ k)))" and "k \<le> 23"
  shows "float_to_tmp src n = None"
proof -
  have "(2::int) ^ k \<le> 2 ^ 23" using assms(2) by (intro power_increasing) auto
  then have i24: "\<bar>- (2 ^ k) :: int\<bar> < 2 ^ 24" by simp
  have p: "(2::int) ^ k * 2 ^ (31 - k) = 2 ^ 31" using assms(2) by (simp flip: power_add)
  define N :: int where "N = \<bar>- (2 ^ k)\<bar> * 2 ^ (31 - k)"
  have N: "N = 2 ^ 31" using p by (simp add: N_def)
  have m: "fmul f32 f_31 (samp k (- (2 ^ k))) = FNum False (of_int N)"
    unfolding f_31_def N_def using fmul_samp [OF i24, of k 31 True] assms(2) by simp
  have "fl_to_int 32 (FNum False (of_int N)) = None"
    unfolding fl_to_int.simps Let_def floor_of_int using N by simp
  then show ?thesis using assms(1) unfolding float_to_tmp_def by (simp only: m fround_int bind.simps)
qed

lemma shift_tmp:
  assumes "k + 8 * m = 31" and "m \<le> 4"
  shows "drop m (le_bytes 4 (i * 2 ^ (31 - k))) = le_bytes (4 - m) i"
proof -
  have "(256::int) ^ m = (2 ^ 8) ^ m" by simp
  also have "\<dots> = 2 ^ (8 * m)" by (simp only: power_mult)
  also have "8 * m = 31 - k" using assms(1) by simp
  finally have "(256::int) ^ m = 2 ^ (31 - k)" .
  then show ?thesis by (simp add: drop_le_bytes)
qed


text \<open>The block of the samples \<open>is\<close> as floats.\<close>

definition float_block :: "nat \<Rightarrow> int list \<Rightarrow> byte list" where
  "float_block k is = concat (map (\<lambda>i. f32_bytes (samp k i)) is)"

definition int_block :: "nat \<Rightarrow> int list \<Rightarrow> byte list" where
  "int_block w is = concat (map (le_bytes w) is)"

lemma concat_map_nth: "concat (map f xs) = concat (map (\<lambda>j. f (xs ! j)) [0..<length xs])"
  by (rule arg_cong [of _ _ concat], rule nth_equalityI) simp_all

lemma length_blocks [simp]:
  "length (float_block k is) = 4 * length is" "length (int_block w is) = length is * w"
  by (induction "is") (simp_all add: float_block_def int_block_def)

lemma load_float_block:
  assumes "j < length is" and "\<forall>i \<in> set is. \<bar>i\<bar> < 2 ^ 24" and "k \<le> 149"
  shows "load_f32 (float_block k is) j = Some (samp k (is ! j))"
proof -
  let ?g = "\<lambda>j. f32_bytes (samp k (is ! j))"
  have "sample_at 4 (concat (map ?g [0..<length is]) @ []) j = ?g j"
    using assms(1) by (intro sample_at_blocks) auto
  then have "take 4 (drop (4 * j) (float_block k is)) = ?g j"
    by (simp add: float_block_def sample_at_def mult.commute concat_map_nth [of "\<lambda>i. f32_bytes (samp k i)" "is"])
  then show ?thesis using assms by (simp add: load_f32_Some exact_samp)
qed

lemma load_int_block:
  assumes "j < length is"
  shows "mem_load (int_block w is) (w * j) w = Some (le_bytes w (is ! j))"
proof -
  let ?g = "\<lambda>j. le_bytes w (is ! j)"
  have "sample_at w (concat (map ?g [0..<length is]) @ []) j = ?g j"
    using assms by (intro sample_at_blocks) auto
  moreover have "j * w + w \<le> length (int_block w is)"
    using sample_in [OF assms, of w "int_block w is"] by simp
  ultimately show ?thesis
    by (simp add: int_block_def sample_at_def mem_load_def mult.commute concat_map_nth [of "le_bytes w" "is"])
qed

text \<open>Float samples to 16, 24 and 32 bits: the integers stored are the negated samples.\<close>

lemma float_to_int_block:
  assumes w: "w = 2 \<or> w = 3" and rng: "\<forall>i \<in> set is. - (2 ^ (8 * w - 1)) < i \<and> i \<le> 2 ^ (8 * w - 1)"
    and dst: "length dst = length is * w"
  shows "vban_sample_convert dst (w - 1) (float_block (8 * w - 1) is) 4 (length is) =
    Some (int_block w (map uminus is), 0)"
proof -
  let ?k = "8 * w - 1" and ?src = "float_block (8 * w - 1) is"
  have k: "?k \<le> 23" "?k + 8 * (4 - w) = 31" using w by auto
  have "(2::int) ^ ?k \<le> 8388608" using power_increasing [of ?k 23 "2::int"] k by simp
  then have i24: "\<forall>i \<in> set is. \<bar>i\<bar> < 2 ^ 24" using rng by fastforce
  have tmp: "float_to_tmp ?src j = Some (le_bytes 4 (- (is ! j) * 2 ^ (31 - ?k)))" if "j < length is" for j
    using load_float_block [OF that i24, of ?k] k rng that by (intro float_to_tmp_samp) auto
  have sh: "drop (4 - w) (le_bytes 4 (- i * 2 ^ (31 - ?k))) = le_bytes w (- i)" for i
    using shift_tmp [of ?k "4 - w" "- i"] k w by auto
  let ?g = "\<lambda>j. le_bytes w (- (is ! j))"
  have "vban_sample_convert dst (w - 1) ?src 4 (length is) = Some (blit dst 0 (concat (map ?g [0..<length is])), 0)"
  proof (rule convert_block)
    show "convert_sample (w - 1) 4 = Some (\<lambda>ss sptr sample. do { t \<leftarrow> float_to_tmp sptr sample; Some (drop (4 - w) t) })"
      using w by (auto simp: convert_sample.simps)
    show "bit_size (w - 1) = Some w" "bit_size 4 = Some 4" "w - 1 \<noteq> 4" using w by auto
    show "do { t \<leftarrow> float_to_tmp ?src j; Some (drop (4 - w) t) } = Some (?g j)" if "j < length is" for j
      using tmp [OF that] sh by simp
  qed (use dst in auto)
  moreover have "concat (map ?g [0..<length is]) = int_block w (map uminus is)"
    by (simp add: int_block_def comp_def concat_map_nth [of "\<lambda>i. le_bytes w (- i)" "is"])
  ultimately show ?thesis using dst by (simp add: blit_0)
qed

text \<open>16-bit and 24-bit integers to floats: the sign is kept.\<close>

lemma int16_to_float_block:
  assumes rng: "\<forall>i \<in> set is. - (2 ^ 15) \<le> i \<and> i < 2 ^ 15" and dst: "length dst = 4 * length is"
  shows "vban_sample_convert dst 4 (int_block 2 is) 1 (length is) = Some (float_block 15 is, 0)"
proof -
  let ?g = "\<lambda>j. f32_bytes (samp 15 (is ! j))"
  have "vban_sample_convert dst 4 (int_block 2 is) 1 (length is) =
      Some (blit dst 0 (concat (map ?g [0..<length is])), 0)"
  proof (rule convert_block)
    show "convert_sample 4 1 = Some (\<lambda>ss sptr sample. do {
        v \<leftarrow> mem_load sptr (2 * sample) 2;
        Some (f32_bytes (fdiv f32 (of_int_fl f32 (sle v)) f_15)) })"
      by (simp add: convert_sample.simps)
    show "do { v \<leftarrow> mem_load (int_block 2 is) (2 * j) 2;
        Some (f32_bytes (fdiv f32 (of_int_fl f32 (sle v)) f_15)) } = Some (?g j)" if "j < length is" for j
    proof -
      have r: "- (2 ^ 15) \<le> is ! j" "is ! j < 2 ^ 15" using rng that by auto
      then have "sle (le_bytes 2 (is ! j)) = is ! j" by (intro sle_le_bytes) auto
      moreover have "fdiv f32 (of_int_fl f32 (is ! j)) f_15 = samp 15 (is ! j)"
        using fdiv_scaled [of "is ! j" 0 15 False] r by (auto simp: f_15_def samp_def)
      ultimately show ?thesis using load_int_block [OF that, of 2] by simp
    qed
  qed (use dst in auto)
  moreover have "concat (map ?g [0..<length is]) = float_block 15 is"
    by (simp add: float_block_def concat_map_nth [of "\<lambda>i. f32_bytes (samp 15 i)" "is"])
  ultimately show ?thesis using dst by (simp add: blit_0)
qed


lemma sint_byte: "sint c = (if uint c < 128 then uint c else uint c - 256)" for c :: byte
proof -
  have u: "0 \<le> uint c" "uint c < 256" using unsigned_less [of c, where ?'a = int] by simp_all
  have "sint c = (uint c + 128) mod 256 - 128"
    by (simp add: sint_uint signed_take_bit_eq_take_bit_shift take_bit_eq_mod)
  moreover have "(uint c + 128) mod 256 = (if uint c < 128 then uint c + 128 else uint c - 128)"
  proof (cases "uint c < 128")
    case False
    have "(uint c + 128) mod 256 = (uint c - 128 + 256) mod 256" by (simp add: add.commute)
    also have "\<dots> = (uint c - 128) mod 256" by (rule mod_add_self2)
    finally show ?thesis using False u by simp
  qed (use u in simp)
  ultimately show ?thesis by simp
qed

lemma sle_3: "sint c * 2 ^ 16 + uint b * 2 ^ 8 + uint a = sle [a, b, c]"
proof -
  have key: "(if z < 128 then z else z - 256) * 2 ^ 16 + y * 2 ^ 8 + x =
      (let n = x + 256 * (y + 256 * z) in if 2 * n < 256 ^ 3 then n else n - 256 ^ 3)"
    if "0 \<le> x" "x < 256" "0 \<le> y" "y < 256" "0 \<le> z" "z < 256" for x y z :: int
    using that by (auto simp: Let_def)
  have u: "0 \<le> uint w" "uint w < 256" for w :: byte
    using unsigned_less [of w, where ?'a = int] by simp_all
  have lv: "int (le_val [a, b, c]) = uint a + 256 * (uint b + 256 * uint c)" by simp
  have len: "length [a, b, c] = 3" by simp
  show ?thesis unfolding sint_byte sle_def lv len by (rule key [OF u u u])
qed

text \<open>24-bit integers to floats: the sign is kept.\<close>

lemma int24_to_float_block:
  assumes rng: "\<forall>i \<in> set is. - (2 ^ 23) \<le> i \<and> i < 2 ^ 23" and dst: "length dst = 4 * length is"
  shows "vban_sample_convert dst 4 (int_block 3 is) 2 (length is) = Some (float_block 23 is, 0)"
proof -
  let ?src = "int_block 3 is" and ?g = "\<lambda>j. f32_bytes (samp 23 (is ! j))"
  have "vban_sample_convert dst 4 ?src 2 (length is) = Some (blit dst 0 (concat (map ?g [0..<length is])), 0)"
  proof (rule convert_block)
    show "convert_sample 4 2 = Some (\<lambda>ss sptr sample. do {
          c \<leftarrow> pick sptr (2 + sample * ss);
          b \<leftarrow> pick sptr (1 + sample * ss);
          a \<leftarrow> pick sptr (0 + sample * ss);
          Some (f32_bytes (fdiv f32 (of_int_fl f32 (sint c * 2 ^ 16 + uint b * 2 ^ 8 + uint a)) f_23)) })"
      by (simp add: convert_sample.simps)
    show "do {
          c \<leftarrow> pick ?src (2 + j * 3);
          b \<leftarrow> pick ?src (1 + j * 3);
          a \<leftarrow> pick ?src (0 + j * 3);
          Some (f32_bytes (fdiv f32 (of_int_fl f32 (sint c * 2 ^ 16 + uint b * 2 ^ 8 + uint a)) f_23)) }
        = Some (?g j)" if j: "j < length is" for j
    proof -
      have len: "length is * 3 \<le> length ?src" by simp
      have s: "sample_at 3 ?src j = le_bytes 3 (is ! j)"
        using load_int_block [OF j, of 3] by (auto simp: mem_load_def sample_at_def mult.commute split: if_splits)
      have r: "- (2 ^ 23) \<le> is ! j" "is ! j < 2 ^ 23" using rng j by auto
      then have v: "sle (le_bytes 3 (is ! j)) = is ! j" by (intro sle_le_bytes) auto
      have l: "length (le_bytes 3 (is ! j)) = 3" by simp
      have "sint (le_bytes 3 (is ! j) ! 2) * 2 ^ 16 + uint (le_bytes 3 (is ! j) ! 1) * 2 ^ 8 +
          uint (le_bytes 3 (is ! j) ! 0) = is ! j"
        unfolding sle_3 list_of_length(3) [OF l, symmetric] by (rule v)
      moreover have "fdiv f32 (of_int_fl f32 (is ! j)) f_23 = samp 23 (is ! j)"
        using fdiv_scaled [of "is ! j" 0 23 False] r by (auto simp: f_23_def samp_def)
      ultimately show ?thesis
        using pick_sample [OF j len, of 0] pick_sample [OF j len, of 1] pick_sample [OF j len, of 2] s by simp
    qed
  qed (use dst in auto)
  moreover have "concat (map ?g [0..<length is]) = float_block 23 is"
    by (simp add: float_block_def concat_map_nth [of "\<lambda>i. f32_bytes (samp 23 i)" "is"])
  ultimately show ?thesis using dst by (simp add: blit_0)
qed


text \<open>8 bits: the encoder stores signed bytes, the decoder reads unsigned ones.\<close>

lemma float_to_int8_block:
  assumes rng: "\<forall>i \<in> set is. - 128 \<le> i \<and> i < 128" and dst: "length dst = length is"
  shows "vban_sample_convert dst 0 (float_block 7 is) 4 (length is) = Some (int_block 1 is, 0)"
proof -
  let ?src = "float_block 7 is" and ?g = "\<lambda>j. le_bytes 1 (is ! j)"
  have i24: "\<forall>i \<in> set is. \<bar>i\<bar> < 2 ^ 24" using rng by fastforce
  have "vban_sample_convert dst 0 ?src 4 (length is) = Some (blit dst 0 (concat (map ?g [0..<length is])), 0)"
  proof (rule convert_block)
    show "convert_sample 0 4 = Some (\<lambda>ss sptr sample. do {
          x \<leftarrow> load_f32 sptr sample;
          i \<leftarrow> fl_to_int 8 (fround (fmul f32 f_7 x));
          Some (le_bytes 1 i) })"
      by (simp add: convert_sample.simps)
    show "do { x \<leftarrow> load_f32 ?src j; i \<leftarrow> fl_to_int 8 (fround (fmul f32 f_7 x)); Some (le_bytes 1 i) }
        = Some (?g j)" if j: "j < length is" for j
    proof -
      let ?i = "is ! j"
      have r: "- 128 \<le> ?i" "?i < 128" using rng j by auto
      then have "\<bar>?i\<bar> < 2 ^ 24" by auto
      then have m: "fmul f32 f_7 (samp 7 ?i) = FNum (?i < 0) (of_int \<bar>?i\<bar>)"
        unfolding f_7_def using fmul_samp [of ?i 7 7 False] by simp
      have v: "(if ?i < 0 then - \<bar>?i\<bar> else \<bar>?i\<bar>) = ?i" by simp
      have c: "fl_to_int 8 (FNum (?i < 0) (of_int \<bar>?i\<bar>)) = Some ?i"
        using r unfolding fl_to_int.simps Let_def floor_of_int v by simp
      show ?thesis using load_float_block [OF j i24, of 7] by (simp only: m fround_int c bind.simps)
    qed
  qed (use dst in auto)
  moreover have "concat (map ?g [0..<length is]) = int_block 1 is"
    unfolding int_block_def by (rule concat_map_nth [of "le_bytes 1" "is", symmetric])
  ultimately show ?thesis using dst by (simp add: blit_0)
qed

lemma int8_to_float_block:
  assumes dst: "length dst = 4 * length is"
  shows "vban_sample_convert dst 4 (int_block 1 is) 0 (length is) =
    Some (float_block 7 (map (\<lambda>i. i mod 256) is), 0)"
proof -
  let ?src = "int_block 1 is" and ?g = "\<lambda>j. f32_bytes (samp 7 (is ! j mod 256))"
  have "vban_sample_convert dst 4 ?src 0 (length is) = Some (blit dst 0 (concat (map ?g [0..<length is])), 0)"
  proof (rule convert_block)
    show "convert_sample 4 0 = Some (\<lambda>ss sptr sample. do {
          a \<leftarrow> pick sptr sample;
          Some (f32_bytes (fdiv f32 (of_int_fl f32 (uint a)) f_7)) })"
      by (simp add: convert_sample.simps)
    show "do { a \<leftarrow> pick ?src j; Some (f32_bytes (fdiv f32 (of_int_fl f32 (uint a)) f_7)) } = Some (?g j)"
      if j: "j < length is" for j
    proof -
      have "take 1 (drop j ?src) = [word_of_int (is ! j)]" and "j + 1 \<le> length ?src"
        using load_int_block [OF j, of 1] by (auto simp: mem_load_def split: if_splits)
      then have "pick ?src j = Some (word_of_int (is ! j))"
        by (simp add: pick_def take_Suc_conv_app_nth)
      moreover have "uint (word_of_int (is ! j) :: byte) = is ! j mod 256"
        by (simp add: unsigned_of_int take_bit_eq_mod)
      moreover have "fdiv f32 (of_int_fl f32 (is ! j mod 256)) f_7 = samp 7 (is ! j mod 256)"
      proof -
        have r: "0 \<le> is ! j mod 256" "is ! j mod 256 < 256" by simp_all
        then have "\<bar>is ! j mod 256\<bar> < 2 ^ 24" by auto
        then show ?thesis using fdiv_scaled [of "is ! j mod 256" 0 7 False] by (simp add: f_7_def samp_def)
      qed
      ultimately show ?thesis by simp
    qed
  qed (use dst in auto)
  moreover have "concat (map ?g [0..<length is]) = float_block 7 (map (\<lambda>i. i mod 256) is)"
    by (simp add: float_block_def comp_def concat_map_nth [of "\<lambda>i. f32_bytes (samp 7 (i mod 256))" "is"])
  ultimately show ?thesis using dst by (simp add: blit_0)
qed

text \<open>32 bits: both directions change the sign.\<close>

lemma float_to_int32_block:
  assumes rng: "\<forall>i \<in> set is. - (2 ^ 23) < i \<and> i \<le> 2 ^ 23" and dst: "length dst = 4 * length is"
  shows "vban_sample_convert dst 3 (float_block 23 is) 4 (length is) =
    Some (int_block 4 (map (\<lambda>i. - i * 2 ^ 8) is), 0)"
proof -
  let ?src = "float_block 23 is" and ?g = "\<lambda>j. le_bytes 4 (- (is ! j) * 2 ^ 8)"
  have i24: "\<forall>i \<in> set is. \<bar>i\<bar> < 2 ^ 24" using rng by fastforce
  have "vban_sample_convert dst 3 ?src 4 (length is) = Some (blit dst 0 (concat (map ?g [0..<length is])), 0)"
  proof (rule convert_block)
    show "convert_sample 3 4 = Some (\<lambda>ss sptr sample. float_to_tmp sptr sample)"
      by (simp add: convert_sample.simps)
    show "float_to_tmp ?src j = Some (?g j)" if j: "j < length is" for j
      using float_to_tmp_samp [OF load_float_block [OF j i24, of 23]] rng j by simp
  qed (use dst in auto)
  moreover have "concat (map ?g [0..<length is]) = int_block 4 (map (\<lambda>i. - i * 2 ^ 8) is)"
    unfolding int_block_def map_map comp_def
    by (rule concat_map_nth [of "\<lambda>i. le_bytes 4 (- i * 2 ^ 8)" "is", symmetric])
  ultimately show ?thesis using dst by (simp add: blit_0)
qed

lemma int32_to_float_block:
  assumes rng: "\<forall>i \<in> set is. - (2 ^ 23) \<le> i \<and> i < 2 ^ 23" and dst: "length dst = 4 * length is"
  shows "vban_sample_convert dst 4 (int_block 4 (map (\<lambda>i. i * 2 ^ 8) is)) 3 (length is) =
    Some (concat (map (\<lambda>i. f32_bytes (FNum (0 \<le> i) (of_int \<bar>i\<bar> / 2 ^ 23))) is), 0)"
proof -
  let ?src = "int_block 4 (map (\<lambda>i. i * 2 ^ 8) is)"
  let ?g = "\<lambda>j. f32_bytes (FNum (0 \<le> is ! j) (of_int \<bar>is ! j\<bar> / 2 ^ 23))"
  have "vban_sample_convert dst 4 ?src 3 (length is) = Some (blit dst 0 (concat (map ?g [0..<length is])), 0)"
  proof (rule convert_block)
    show "convert_sample 4 3 = Some (\<lambda>ss sptr sample. do {
          v \<leftarrow> mem_load sptr (4 * sample) 4;
          Some (f32_bytes (fdiv f32 (of_int_fl f32 (sle v)) f_31)) })"
      by (simp add: convert_sample.simps)
    show "do { v \<leftarrow> mem_load ?src (4 * j) 4; Some (f32_bytes (fdiv f32 (of_int_fl f32 (sle v)) f_31)) }
        = Some (?g j)" if j: "j < length is" for j
    proof -
      let ?i = "is ! j"
      have r: "- (2 ^ 23) \<le> ?i" "?i < 2 ^ 23" using rng j by auto
      then have "sle (le_bytes 4 (?i * 2 ^ 8)) = ?i * 2 ^ 8" by (intro sle_le_bytes) auto
      moreover have "fdiv f32 (of_int_fl f32 (?i * 2 ^ 8)) f_31 = FNum (0 \<le> ?i) (of_int \<bar>?i\<bar> / 2 ^ 23)"
        using fdiv_scaled [of ?i 8 31 True] r by (auto simp: f_31_def)
      ultimately show ?thesis using load_int_block [of j "map (\<lambda>i. i * 2 ^ 8) is" 4] j by simp
    qed
  qed (use dst in auto)
  moreover have "concat (map ?g [0..<length is]) =
      concat (map (\<lambda>i. f32_bytes (FNum (0 \<le> i) (of_int \<bar>i\<bar> / 2 ^ 23))) is)"
    by (rule concat_map_nth [of "\<lambda>i. f32_bytes (FNum (0 \<le> i) (of_int \<bar>i\<bar> / 2 ^ 23))" "is", symmetric])
  moreover have "length (concat (map (\<lambda>i. f32_bytes (FNum (0 \<le> i) (of_int \<bar>i\<bar> / 2 ^ 23))) is)) = 4 * length is"
    by (induction "is") simp_all
  ultimately show ?thesis using dst by (simp add: blit_0)
qed



section \<open>Properties\<close>

text \<open>
  Converting a block of integer samples (8, 16, 24 or 32 bits) to an integer format that is at
  least as wide and back again returns every byte of the original block, and both calls succeed.
\<close>

theorem widen_narrow_round_trip:
  assumes "fs \<le> fd" and "fd < 4" and "length src = num * (fs + 1)"
    and "length mid = num * (fd + 1)" and "length dst = num * (fs + 1)"
  shows "\<exists>m. vban_sample_convert mid fd src fs num = Some (m, 0) \<and>
    vban_sample_convert dst fs m fd num = Some (src, 0)"
  using assms by (rule int_convert_round_trip)

theorem widen_narrow_round_trip_witness:
  "\<exists>m. vban_sample_convert [0, 0, 0, 0, 0, 0] 2 [1, 2, 3, 4] 1 2 = Some (m, 0) \<and>
    vban_sample_convert [0, 0, 0, 0] 1 m 2 2 = Some ([1, 2, 3, 4], 0)"
  by (rule widen_narrow_round_trip) simp_all

text \<open>
  C10: The value of an integer sample after a conversion: narrowing divides by the power of 256 of
  the bytes dropped and rounds down, widening multiplies. The code does it by copying bytes; the
  statement is about the signed integers they represent.
\<close>

theorem int_convert_values:
  assumes "fd < 4" and "fs < 4" and "num * (fs + 1) \<le> length src" and "length dst = num * (fd + 1)"
    and "k < num"
  shows "\<exists>d. vban_sample_convert dst fd src fs num = Some (d, 0) \<and>
    sle (sample_at (fd + 1) d k) =
      (if fd \<le> fs then sle (sample_at (fs + 1) src k) div 256 ^ (fs - fd)
       else sle (sample_at (fs + 1) src k) * 256 ^ (fd - fs))"
proof -
  let ?g = "\<lambda>k. resize (fd + 1) (sample_at (fs + 1) src k)"
  have "length (concat (map ?g [0..<num])) = num * (fd + 1)" by (rule length_concat_blocks) simp
  then have "vban_sample_convert dst fd src fs num = Some (concat (map ?g [0..<num]), 0)"
    using int_convert_block [OF assms(1-3), of dst] assms(4) by (simp add: blit_0)
  moreover have "sample_at (fd + 1) (concat (map ?g [0..<num])) k = ?g k"
    using sample_at_blocks [of num ?g "fd + 1" k "[]"] assms(5) by simp
  ultimately show ?thesis
    using length_sample_at [OF assms(5,3)] resize_value [of "fd + 1" "sample_at (fs + 1) src k"] by simp
qed

theorem int_convert_values_witness:
  "\<exists>d. vban_sample_convert [0] 0 [0x34, 0x92] 1 1 = Some (d, 0) \<and>
    sle (sample_at (0 + 1) d 0) = (if 0 \<le> (1::nat) then sle (sample_at (1 + 1) [0x34, 0x92] 0) div 256 ^ (1 - 0)
       else sle (sample_at (1 + 1) [0x34, 0x92] 0) * 256 ^ (0 - 1))"
  by (rule int_convert_values) simp_all

text \<open>
  Float samples encoded to 16-bit integers and decoded to floats again come back with the
  opposite sign: the encoder scales by \<open>(float)(1 << 31)\<close>, which is negative, the decoder by
  \<open>(float)(1 << 15)\<close>, which is positive. The samples \<open>i / 2 ^ 15\<close> are those a 16-bit stream carries.
\<close>

theorem float16_polarity:
  assumes "\<forall>i \<in> set is. - (2 ^ 15) < i \<and> i < 2 ^ 15"
    and "length mid = length is * 2" and "length dst = 4 * length is"
  shows "\<exists>m. vban_sample_convert mid 1 (float_block 15 is) 4 (length is) = Some (m, 0) \<and>
    vban_sample_convert dst 4 m 1 (length is) = Some (float_block 15 (map uminus is), 0)"
proof -
  have "vban_sample_convert mid (2 - 1) (float_block (8 * 2 - 1) is) 4 (length is) =
      Some (int_block 2 (map uminus is), 0)"
    using assms by (intro float_to_int_block) auto
  moreover have "vban_sample_convert dst 4 (int_block 2 (map uminus is)) 1 (length (map uminus is)) =
      Some (float_block 15 (map uminus is), 0)"
    using assms by (intro int16_to_float_block) auto
  ultimately show ?thesis by simp
qed

theorem float16_polarity_witness:
  "\<exists>m. vban_sample_convert [0, 0] 1 (float_block 15 [16384]) 4 (length [16384::int]) = Some (m, 0) \<and>
    vban_sample_convert [0, 0, 0, 0] 4 m 1 (length [16384::int]) = Some (float_block 15 (map uminus [16384]), 0)"
  by (rule float16_polarity) simp_all

text \<open>
  In the 24-bit format the sign is lost in the same way: encoding and decoding negates.
\<close>

theorem float24_polarity:
  assumes "\<forall>i \<in> set is. - (2 ^ 23) < i \<and> i < 2 ^ 23"
    and "length mid = length is * 3" and "length dst = 4 * length is"
  shows "\<exists>m. vban_sample_convert mid 2 (float_block 23 is) 4 (length is) = Some (m, 0) \<and>
    vban_sample_convert dst 4 m 2 (length is) = Some (float_block 23 (map uminus is), 0)"
proof -
  have "vban_sample_convert mid (3 - 1) (float_block (8 * 3 - 1) is) 4 (length is) =
      Some (int_block 3 (map uminus is), 0)"
    using assms by (intro float_to_int_block) auto
  moreover have "vban_sample_convert dst 4 (int_block 3 (map uminus is)) 2 (length (map uminus is)) =
      Some (float_block 23 (map uminus is), 0)"
    using assms by (intro int24_to_float_block) auto
  ultimately show ?thesis by simp
qed

theorem float24_polarity_witness:
  "\<exists>m. vban_sample_convert [0, 0, 0] 2 (float_block 23 [5]) 4 (length [5::int]) = Some (m, 0) \<and>
    vban_sample_convert [0, 0, 0, 0] 4 m 2 (length [5::int]) = Some (float_block 23 (map uminus [5]), 0)"
  by (rule float24_polarity) simp_all

text \<open>
  In the 32-bit integer format the two negations cancel: a block of samples of up to 24 bits is
  decoded to floats with the original values.
\<close>

theorem float32_round_trip:
  assumes rng: "\<forall>i \<in> set is. - (2 ^ 23) < i \<and> i < 2 ^ 23"
    and "length mid = 4 * length is" and "length dst = 4 * length is" and j: "j < length is"
  shows "\<exists>m d y. vban_sample_convert mid 3 (float_block 23 is) 4 (length is) = Some (m, 0) \<and>
    vban_sample_convert dst 4 m 3 (length is) = Some (d, 0) \<and>
    load_f32 d j = Some y \<and> fl_val y = of_int (is ! j) / 2 ^ 23"
proof -
  let ?f = "\<lambda>i. FNum (0 \<le> i) (of_int \<bar>i\<bar> / 2 ^ 23)" and ?is = "map uminus is"
  have r1: "\<forall>i \<in> set is. - (2 ^ 23) < i \<and> i \<le> 2 ^ 23" using rng by fastforce
  have r2: "\<forall>i \<in> set ?is. - (2 ^ 23) \<le> i \<and> i < 2 ^ 23" using rng by fastforce
  have "map (\<lambda>i. - i * 2 ^ 8) is = map (\<lambda>i. i * 2 ^ 8) ?is" by simp
  then have enc: "vban_sample_convert mid 3 (float_block 23 is) 4 (length is) =
      Some (int_block 4 (map (\<lambda>i. i * 2 ^ 8) ?is), 0)"
    using float_to_int32_block [OF r1 assms(2)] by (simp add: comp_def)
  let ?d = "concat (map (\<lambda>i. f32_bytes (?f i)) ?is)"
  have dec: "vban_sample_convert dst 4 (int_block 4 (map (\<lambda>i. i * 2 ^ 8) ?is)) 3 (length is) = Some (?d, 0)"
    using int32_to_float_block [OF r2, of dst] assms(3) by simp
  have ld: "length ?d = 4 * length ?is" by (induction "is") simp_all
  have "sample_at 4 (concat (map (\<lambda>j. f32_bytes (?f (?is ! j))) [0..<length ?is]) @ []) j = f32_bytes (?f (?is ! j))"
    using j by (intro sample_at_blocks) auto
  then have "take 4 (drop (4 * j) ?d) = f32_bytes (?f (?is ! j))"
    by (simp only: concat_map_nth [of "\<lambda>i. f32_bytes (?f i)" ?is] sample_at_def append_Nil2 mult.commute)
  moreover have "exact f32 (?f (?is ! j))"
  proof -
    have "- (2 ^ 23) < is ! j" "is ! j < 2 ^ 23" using rng j by auto
    then have "\<bar>?is ! j\<bar> < 2 ^ 24" using j by auto
    then show ?thesis using exact_samp [of "?is ! j" 23] by (simp add: samp_def)
  qed
  ultimately have ld: "load_f32 ?d j = Some (?f (?is ! j))" using ld j by (simp add: load_f32_Some)
  have "fl_val (?f (?is ! j)) = of_int (is ! j) / 2 ^ 23" using j by simp
  then show ?thesis using enc dec ld by blast
qed

theorem float32_round_trip_witness:
  "\<exists>m d y. vban_sample_convert (replicate 4 0) 3 (float_block 23 [-7]) 4 (length [-7::int]) = Some (m, 0) \<and>
    vban_sample_convert (replicate 4 0) 4 m 3 (length [-7::int]) = Some (d, 0) \<and>
    load_f32 d 0 = Some y \<and> fl_val y = of_int ([-7] ! 0) / 2 ^ 23"
  by (rule float32_round_trip) simp_all

text \<open>
  In the 8-bit format the encoder stores signed bytes and the decoder reads unsigned ones: a
  sample \<open>i / 128\<close> is decoded as \<open>(i mod 256) / 128\<close>, so every negative sample comes back above 1.
\<close>

theorem float8_signedness:
  assumes "\<forall>i \<in> set is. - 128 \<le> i \<and> i < 128" and "length mid = length is" and "length dst = 4 * length is"
  shows "\<exists>m. vban_sample_convert mid 0 (float_block 7 is) 4 (length is) = Some (m, 0) \<and>
    vban_sample_convert dst 4 m 0 (length is) = Some (float_block 7 (map (\<lambda>i. i mod 256) is), 0)"
  using float_to_int8_block [OF assms(1,2)] int8_to_float_block [OF assms(3)] by blast

theorem float8_signedness_witness:
  "\<exists>m. vban_sample_convert [0] 0 (float_block 7 [-1]) 4 (length [-1::int]) = Some (m, 0) \<and>
    vban_sample_convert (replicate 4 0) 4 m 0 (length [-1::int]) = Some (float_block 7 (map (\<lambda>i. i mod 256) [-1]), 0)"
  by (rule float8_signedness) simp_all

text \<open>
  A sample of exactly -1.0 has no defined 16-bit encoding: the intermediate is \<open>2 ^ 31\<close>, out of
  the range of \<open>int32_t\<close>.
\<close>

theorem minus_one_undefined:
  assumes "length mid = 2"
  shows "vban_sample_convert mid 1 (float_block 15 [- (2 ^ 15)]) 4 1 = None"
proof -
  have "load_f32 (float_block 15 [- (2 ^ 15)]) 0 = Some (samp 15 (- (2 ^ 15)))"
    using load_float_block [of 0 "[- (2 ^ 15)]" 15] by simp
  then have "float_to_tmp (float_block 15 [- (2 ^ 15)]) 0 = None"
    by (rule float_to_tmp_minus_one) simp
  then show ?thesis
    by (simp add: vban_sample_convert_def convert_sample.simps)
qed

theorem minus_one_undefined_witness:
  "vban_sample_convert [0, 0] 1 (float_block 15 [- (2 ^ 15)]) 4 1 = None"
  by (rule minus_one_undefined) simp

text \<open>
  The two byte-order helpers reverse the bytes of their argument: \<open>int32betole\<close> turns a word
  into the word with the reversed byte sequence and \<open>int16betole\<close> is its own inverse.
\<close>

theorem byte_order_reversal:
  "le32 (int32betole w) = rev (le32 w) \<and> int16betole (int16betole v) = v"
  using int32betole_rev int16betole_involution by blast

end
