(* ===== verification/Udp.thy ===== *)
theory Udp
  imports Vban
begin

text \<open>
  The UDP socket wrapper of \<open>vban_common/udp.h\<close> and \<open>udp.cpp\<close>. The calls into the operating
  system are events, in the order the program makes them; the system's answers are arguments.
\<close>

section \<open>Sockets\<close>

text \<open>Ports and addresses are stored in network order; \<open>htons\<close> swaps the bytes of a port.\<close>

record udpc =
  fd :: int
  sin_family :: nat
  sin_addr :: u32
  sin_port :: u16

definition AF_INET :: nat where "AF_INET = 2"

definition htons :: "u16 \<Rightarrow> u16" where
  "htons w = push_bit 8 (ucast (ucast w :: byte)) OR ucast (ucast (drop_bit 8 w) :: byte)"

lemma htons_htons [simp]: "htons (htons w) = w"
  by (rule bit_word_eqI) (auto simp: htons_def bit_simps)

text \<open>What the program asks of the system, with the arguments.\<close>

datatype io =
    Sendto int "byte list" u32 u16
  | Write int "byte list"
  | Socket int
  | Setsockopt int string
  | Bind int u16 u32
  | Close int
  | Kill int string
  | Waitpid int
  | Spawn int "byte list"
  | Settime int "nat \<times> nat" "nat \<times> nat"

text \<open>\<open>udp_send\<close>: the new socket record, the datagram and the result (0 for an error).\<close>

definition udp_send :: "udpc \<Rightarrow> u16 \<Rightarrow> byte list \<Rightarrow> nat \<Rightarrow> u32 \<Rightarrow> int \<Rightarrow> (udpc \<times> io \<times> int) option" where
  "udp_send c txport data n txip ret = do {
     let ip = sin_addr c;
     let c = (if txport \<noteq> 0 then c\<lparr>sin_port := htons txport\<rparr> else c);
     let c = (if txip \<noteq> 0 then c\<lparr>sin_addr := txip\<rparr> else c);
     bs \<leftarrow> mem_load data 0 n;
     let ev = Sendto (fd c) bs (sin_addr c) (sin_port c);
     let c = c\<lparr>sin_addr := ip\<rparr>;
     Some (c, ev, if ret < 0 then 0 else ret) }"

text \<open>
  \<open>recvfrom\<close> answers with a negative code or with the bytes, the sender's address and port; the
  bytes land at the start of the packet.
\<close>

definition udp_recv :: "udpc \<Rightarrow> vban_packet \<Rightarrow> (int + byte list \<times> u32 \<times> u16) \<Rightarrow> udpc \<times> vban_packet \<times> int" where
  "udp_recv c p answer =
     (case answer of
        Inl e \<Rightarrow> (c, p, 0)
      | Inr (bs, ip, port) \<Rightarrow>
          (c\<lparr>sin_family := AF_INET, sin_addr := ip, sin_port := port\<rparr>, packet_store p bs, int (length bs)))"

text \<open>
  \<open>recvmsg\<close>: whether the control data were truncated, the address family, and the software time
  stamp when there is one.
\<close>

record 't msg_answer =
  m_bytes :: "byte list"
  m_ip :: u32
  m_port :: u16
  m_inet :: bool
  m_ctrunc :: bool
  m_stamp :: "'t option"

definition udp_recv_m :: "udpc \<Rightarrow> vban_packet \<Rightarrow> 't \<Rightarrow> (int + 't msg_answer) \<Rightarrow> udpc \<times> vban_packet \<times> 't \<times> int" where
  "udp_recv_m c p stamp answer =
     (case answer of
        Inl e \<Rightarrow> (c, p, stamp, -1)
      | Inr m \<Rightarrow>
          (if \<not> m_ctrunc m \<and> m_inet m
           then c\<lparr>sin_family := AF_INET, sin_addr := m_ip m, sin_port := m_port m\<rparr> else c,
           packet_store p (m_bytes m),
           case m_stamp m of None \<Rightarrow> stamp | Some t \<Rightarrow> t,
           int (length (m_bytes m))))"

definition udp_get_sender_port :: "udpc \<Rightarrow> u16" where
  "udp_get_sender_port c = htons (sin_port c)"

text \<open>
  \<open>udp_init\<close>: the answers of the system are whether \<open>malloc\<close> succeeds and the results of
  \<open>socket\<close>, of the broadcast option and of \<open>bind\<close>; the failures of the other options are only
  reported. \<open>addr\<close> is \<open>inet_addr\<close>. The result is the socket or \<^const>\<open>None\<close>, with the calls made.
\<close>

record init_answers =
  a_malloc :: bool
  a_socket :: int
  a_bcast :: int
  a_bind :: int

definition udp_init :: "(string \<Rightarrow> u32) \<Rightarrow> init_answers \<Rightarrow> u16 \<Rightarrow> u16 \<Rightarrow> string option \<Rightarrow> string option \<Rightarrow>
    nat \<Rightarrow> nat \<Rightarrow> int \<Rightarrow> udpc option \<times> io list" where
  "udp_init addr a rx_port tx_port rx_ip tx_ip t priority broadcast =
     (if \<not> a_malloc a then (None, [])
      else
        let s = a_socket a; c = \<lparr>fd = s, sin_family = 0, sin_addr = 0, sin_port = 0\<rparr>; tr = [Socket s] in
        if s < 0 then (None, tr)
        else
          let tr = (if broadcast \<noteq> 0 then tr @ [Setsockopt s ''SO_BROADCAST''] else tr) in
          if broadcast \<noteq> 0 \<and> a_bcast a < 0 then (None, tr)
          else
            let tr = tr @ (if t \<noteq> 0 then [Setsockopt s ''SO_RCVTIMEO''] else []) @
                  (if priority > 7 then [] else [Setsockopt s ''SO_PRIORITY'']) @
                  [Setsockopt s ''SO_TIMESTAMPING''];
                tr = (if rx_port \<noteq> 0
                  then tr @ [Bind s (htons rx_port) (case rx_ip of None \<Rightarrow> 0 | Some i \<Rightarrow> addr i)] else tr) in
            if rx_port \<noteq> 0 \<and> a_bind a < 0 then (None, tr)
            else
              let c = (if tx_port \<noteq> 0
                then c\<lparr>sin_family := AF_INET, sin_addr := (case tx_ip of None \<Rightarrow> 0 | Some i \<Rightarrow> addr i),
                  sin_port := htons tx_port\<rparr> else c) in
              (Some c, tr))"

definition udp_free :: "udpc \<Rightarrow> io list" where
  "udp_free c = [Close (fd c)]"


section \<open>Properties\<close>

text \<open>
  \<open>udp_send\<close> sends exactly the bytes given, to the address passed when there is one, and leaves
  the socket's own address as it was: a reply to another address does not redirect the stream. The
  port passed stays.
\<close>

theorem udp_send_keeps_address:
  assumes "n \<le> length data"
  shows "\<exists>c' r. udp_send c txport data n txip ret =
      Some (c', Sendto (fd c) (take n data) (if txip = 0 then sin_addr c else txip)
        (if txport = 0 then sin_port c else htons txport), r) \<and>
    sin_addr c' = sin_addr c \<and> sin_port c' = (if txport = 0 then sin_port c else htons txport) \<and> 0 \<le> r"
  using assms by (auto simp: udp_send_def Let_def mem_load_def)

theorem udp_send_keeps_address_witness:
  "\<exists>c' r. udp_send zero_udpc 6980 [1, 2, 3] 2 7 5 =
      Some (c', Sendto (fd zero_udpc) (take 2 [1, 2, 3]) (if 7 = (0::u32) then sin_addr zero_udpc else 7)
        (if 6980 = (0::u16) then sin_port zero_udpc else htons 6980), r) \<and>
    sin_addr c' = sin_addr zero_udpc \<and>
    sin_port c' = (if 6980 = (0::u16) then sin_port zero_udpc else htons 6980) \<and> 0 \<le> r"
  by (rule udp_send_keeps_address) simp

text \<open>
  When the broadcast option or \<open>bind\<close> fails, \<open>udp_init\<close> returns no socket and never closes the
  descriptor it opened: the caller cannot close it either.
\<close>

theorem udp_init_leaks_descriptor:
  assumes "a_malloc a" and "0 \<le> a_socket a"
    and "(broadcast \<noteq> 0 \<and> a_bcast a < 0) \<or> (rx_port \<noteq> 0 \<and> a_bind a < 0)"
  shows "\<exists>tr. udp_init addr a rx_port tx_port rx_ip tx_ip t priority broadcast = (None, tr) \<and>
    Socket (a_socket a) \<in> set tr \<and> Close (a_socket a) \<notin> set tr"
  using assms by (auto simp: udp_init_def Let_def split: option.splits)

theorem udp_init_leaks_descriptor_witness:
  "\<exists>tr. udp_init (\<lambda>_. 0) \<lparr>a_malloc = True, a_socket = 3, a_bcast = 0, a_bind = -1\<rparr> 6980 0 None None 0 6 1 =
      (None, tr) \<and>
    Socket (a_socket \<lparr>a_malloc = True, a_socket = 3, a_bcast = 0, a_bind = -1\<rparr>) \<in> set tr \<and>
    Close (a_socket \<lparr>a_malloc = True, a_socket = 3, a_bcast = 0, a_bind = -1\<rparr>) \<notin> set tr"
  by (rule udp_init_leaks_descriptor) simp_all

end
