(* ===== verification/Vresampler.thy ===== *)
theory Vresampler
  imports Bytes
begin

text \<open>
  The variable-ratio resampler \<open>VResampler\<close> of \<open>vban_common/zita-resampler/vresampler.cc\<close> (the
  portable code: the build defines neither \<open>ENABLE_SSE2\<close> nor \<open>ENABLE_NEON\<close>). The caller's sample
  blocks are byte blocks seen as arrays of floats with a position; the object's own arrays are
  lists of floats. Positions inside the arrays are integers, and an access outside is
  \<^const>\<open>None\<close>. The memory a fresh array holds is an argument (\<open>alloc\<close>), as is the filter table
  that \<open>Resampler_table::create\<close> returns.
\<close>

section \<open>The object\<close>

record resampler_table =
  t_ctab :: "fl list"
  t_fr :: fl
  t_hl :: nat
  t_np :: nat

type_synonym sample_ptr = "(byte list \<times> nat) option"

record vresampler =
  inp_count :: nat
  out_count :: nat
  inp_data :: sample_ptr
  out_data :: sample_ptr
  v_table :: "resampler_table option"
  v_nchan :: nat
  v_inmax :: nat
  v_index :: nat
  v_nread :: nat
  v_nzero :: nat
  v_ratio :: fl
  v_phase :: fl
  v_pstep :: fl
  v_qstep :: fl
  v_wstep :: fl
  v_buff :: "fl list"
  v_c1 :: "fl list"
  v_c2 :: "fl list"

definition NPHASE :: nat where
  "NPHASE = 120"

definition d_nat :: "nat \<Rightarrow> fl" where
  "d_nat n = of_int_fl f64 (int n)"

definition d_one :: fl where
  "d_one = FNum False 1"

definition d_zero :: fl where
  "d_zero = FNum False 0"

text \<open>Rounding functions of the library, and the conversion of a double to \<open>unsigned int\<close>.\<close>

fun d_floor :: "fl \<Rightarrow> fl" where
  "d_floor (FNum s m) = FNum s (of_int (if s then \<lceil>m\<rceil> else \<lfloor>m\<rfloor>))"
| "d_floor x = x"

fun d_ceil :: "fl \<Rightarrow> fl" where
  "d_ceil (FNum s m) = FNum s (of_int (if s then \<lfloor>m\<rfloor> else \<lceil>m\<rceil>))"
| "d_ceil x = x"

fun d_uint :: "fl \<Rightarrow> nat option" where
  "d_uint (FNum s m) =
     (if (s \<and> 1 \<le> m) \<or> 2 ^ 32 \<le> m then None else if s then Some 0 else Some (nat \<lfloor>m\<rfloor>))"
| "d_uint x = None"

definition u32_mod :: "nat \<Rightarrow> nat" where
  "u32_mod n = n mod 2 ^ 32"

text \<open>Accesses to the arrays.\<close>

definition rd :: "'a list \<Rightarrow> int \<Rightarrow> 'a option" where
  "rd b i = (if 0 \<le> i \<and> i < int (length b) then Some (b ! nat i) else None)"

definition wr :: "'a list \<Rightarrow> int \<Rightarrow> 'a \<Rightarrow> 'a list option" where
  "wr b i x = (if 0 \<le> i \<and> i < int (length b) then Some (b[nat i := x]) else None)"


section \<open>Setting up\<close>

definition vr_reset :: "vresampler \<Rightarrow> vresampler \<times> int" where
  "vr_reset r =
     (case v_table r of
        None \<Rightarrow> (r, 1)
      | Some t \<Rightarrow>
          (r\<lparr>inp_count := 0, out_count := 0, inp_data := None, out_data := None, v_index := 0,
             v_nread := 2 * t_hl t, v_nzero := 0, v_phase := d_zero\<rparr>, 0))"

definition vr_clear :: "vresampler \<Rightarrow> vresampler" where
  "vr_clear r =
     fst (vr_reset (r\<lparr>v_buff := [], v_c1 := [], v_c2 := [], v_table := None, v_nchan := 0,
       v_inmax := 0, v_pstep := d_zero, v_qstep := d_zero, v_wstep := d_one\<rparr>))"

text \<open>
  The four-argument \<open>setup\<close>. \<open>create\<close> is \<open>Resampler_table::create\<close>; the arguments \<open>nchan\<close> and
  \<open>hlen\<close> are \<open>unsigned int\<close>.
\<close>

definition vr_setup_frel :: "(fl \<Rightarrow> nat \<Rightarrow> nat \<Rightarrow> resampler_table) \<Rightarrow> (nat \<Rightarrow> fl list) \<Rightarrow> vresampler \<Rightarrow>
    fl \<Rightarrow> nat \<Rightarrow> nat \<Rightarrow> fl \<Rightarrow> (vresampler \<times> int) option" where
  "vr_setup_frel create alloc r ratio nchan hlen frel =
     (if nchan = 0 \<or> hlen < 8 \<or> hlen > 96 \<or> flt (fmul f64 (d_nat 64) ratio) d_one \<or> flt (d_nat 256) ratio
      then Some (vr_clear r, 1)
      else do {
        let dp = fdiv f64 (d_nat NPHASE) ratio;
        (frel, hl, mi) \<leftarrow>
          (if flt ratio d_one
           then do {
             hl \<leftarrow> d_uint (d_ceil (fdiv f64 (d_nat hlen) ratio));
             mi \<leftarrow> d_uint (d_ceil (fdiv f64 (d_nat 32) ratio));
             Some (fmul f64 frel ratio, hl, mi) }
           else Some (frel, hlen, 32));
        let t = create frel hl NPHASE;
        let r = vr_clear r;
        let n = u32_mod (nchan * (2 * hl + mi));
        Some (vr_reset (r\<lparr>v_table := Some t, v_buff := alloc n, v_c1 := alloc hl, v_c2 := alloc hl,
          v_nchan := nchan, v_ratio := ratio, v_inmax := mi, v_pstep := dp, v_qstep := dp,
          v_wstep := d_one\<rparr>)) })"

definition vr_setup :: "(fl \<Rightarrow> nat \<Rightarrow> nat \<Rightarrow> resampler_table) \<Rightarrow> (nat \<Rightarrow> fl list) \<Rightarrow> vresampler \<Rightarrow>
    fl \<Rightarrow> nat \<Rightarrow> nat \<Rightarrow> (vresampler \<times> int) option" where
  "vr_setup create alloc r ratio nchan hlen =
     vr_setup_frel create alloc r ratio nchan hlen (fsub f64 d_one (fdiv f64 (lit f64 (26 / 10)) (d_nat hlen)))"

definition vr_new :: "vresampler" where
  "vr_new = \<lparr>inp_count = 0, out_count = 0, inp_data = None, out_data = None, v_table = None,
     v_nchan = 0, v_inmax = 0, v_index = 0, v_nread = 0, v_nzero = 0, v_ratio = d_zero,
     v_phase = d_zero, v_pstep = d_zero, v_qstep = d_zero, v_wstep = d_zero, v_buff = [],
     v_c1 = [], v_c2 = []\<rparr>"

definition vr_set_phase :: "vresampler \<Rightarrow> fl \<Rightarrow> vresampler" where
  "vr_set_phase r p =
     (case v_table r of
        None \<Rightarrow> r
      | Some t \<Rightarrow> r\<lparr>v_phase := fmul f64 (fsub f64 p (d_floor p)) (d_nat (t_np t))\<rparr>)"

definition vr_set_rratio :: "vresampler \<Rightarrow> fl \<Rightarrow> vresampler" where
  "vr_set_rratio r x =
     (case v_table r of
        None \<Rightarrow> r
      | Some t \<Rightarrow>
          let x = (if flt (d_nat 16) x then d_nat 16 else x);
              x = (if flt x (lit f64 (95 / 100)) then lit f64 (95 / 100) else x)
          in r\<lparr>v_qstep := fdiv f64 (d_nat (t_np t)) (fmul f64 (v_ratio r) x)\<rparr>)"

definition vr_inpsize :: "vresampler \<Rightarrow> nat" where
  "vr_inpsize r = (case v_table r of None \<Rightarrow> 0 | Some t \<Rightarrow> 2 * t_hl t)"


section \<open>Processing\<close>

text \<open>The local variables of \<open>process\<close>; \<open>p1\<close> and \<open>p2\<close> are positions in the sample buffer.\<close>

record vr_locals =
  l_in :: nat
  l_nr :: nat
  l_nz :: nat
  l_ph :: fl
  l_dp :: fl
  l_p1 :: int
  l_p2 :: int

text \<open>One input frame goes to position \<open>p2\<close> of every channel's part of the buffer.\<close>

definition vr_take_frame :: "resampler_table \<Rightarrow> vresampler \<Rightarrow> vr_locals \<Rightarrow> (vresampler \<times> vr_locals) option" where
  "vr_take_frame t r l =
     (let di = int (2 * t_hl t + v_inmax r) in
      case inp_data r of
        Some (d, pos) \<Rightarrow> do {
          b \<leftarrow> for_loop 0 (v_nchan r) (\<lambda>j b. do {
            x \<leftarrow> load_f32 d (pos + j);
            wr b (l_p2 l + int j * di) x }) (v_buff r);
          Some (r\<lparr>v_buff := b, inp_data := Some (d, pos + v_nchan r)\<rparr>, l\<lparr>l_nz := 0\<rparr>) }
      | None \<Rightarrow> do {
          b \<leftarrow> for_loop 0 (v_nchan r) (\<lambda>j b. wr b (l_p2 l + int j * di) d_zero) (v_buff r);
          Some (r\<lparr>v_buff := b\<rparr>, l\<lparr>l_nz := (if l_nz l < 2 * t_hl t then l_nz l + 1 else l_nz l)\<rparr>) })"

text \<open>The inner loop: read frames while some are needed and some are left.\<close>

function vr_fill :: "resampler_table \<Rightarrow> vresampler \<Rightarrow> vr_locals \<Rightarrow> (vresampler \<times> vr_locals) option" where
  "vr_fill t r l =
     (if l_nr l = 0 \<or> inp_count r = 0 then Some (r, l)
      else case vr_take_frame t r l of
          None \<Rightarrow> None
        | Some (r', l') \<Rightarrow>
            vr_fill t (r'\<lparr>inp_count := inp_count r - 1\<rparr>) (l'\<lparr>l_p2 := l_p2 l + 1, l_nr := l_nr l - 1\<rparr>))"
  by pat_completeness auto
termination
  by (relation "measure (\<lambda>(t, r, l). inp_count r)") auto

declare vr_fill.simps [simp del]

text \<open>The interpolated filter coefficients for the phase \<open>ph\<close>, between rows \<open>n\<close> and \<open>n + 1\<close> of the table.\<close>

definition vr_coefs :: "resampler_table \<Rightarrow> nat \<Rightarrow> fl \<Rightarrow> fl \<Rightarrow> fl list \<times> fl list \<Rightarrow> (fl list \<times> fl list) option" where
  "vr_coefs t n a b =
     (let hl = int (t_hl t); q1 = hl * int n; q2 = hl * (int (t_np t) - int n) in
      for_loop 0 (t_hl t) (\<lambda>i (c1, c2). do {
        x \<leftarrow> rd (t_ctab t) (q1 + int i);
        y \<leftarrow> rd (t_ctab t) (q1 + int i + hl);
        c1 \<leftarrow> wr c1 (int i) (fadd f32 (fmul f32 a x) (fmul f32 b y));
        x \<leftarrow> rd (t_ctab t) (q2 + int i);
        y \<leftarrow> rd (t_ctab t) (q2 + int i - hl);
        c2 \<leftarrow> wr c2 (int i) (fadd f32 (fmul f32 a x) (fmul f32 b y));
        Some (c1, c2) }))"

definition f_tiny :: fl where
  "f_tiny = lit f32 (1 / 10 ^ 30)"

text \<open>One channel's output: \<open>q1\<close> runs upwards from \<open>p1\<close>, \<open>q2\<close> downwards from \<open>p2\<close>.\<close>

definition vr_dot :: "nat \<Rightarrow> fl list \<Rightarrow> fl list \<Rightarrow> fl list \<Rightarrow> int \<Rightarrow> int \<Rightarrow> fl option" where
  "vr_dot hl buff c1 c2 q1 q2 =
     for_loop 0 hl (\<lambda>i s. do {
       x \<leftarrow> rd buff (q1 + int i);
       a \<leftarrow> rd c1 (int i);
       y \<leftarrow> rd buff (q2 - int i - 1);
       b \<leftarrow> rd c2 (int i);
       Some (fadd f32 s (fadd f32 (fmul f32 x a) (fmul f32 y b))) }) f_tiny"

definition vr_output :: "resampler_table \<Rightarrow> vresampler \<Rightarrow> vr_locals \<Rightarrow> vresampler option" where
  "vr_output t r l =
     (case out_data r of
        None \<Rightarrow> Some r
      | Some (d, pos) \<Rightarrow>
          (let di = int (2 * t_hl t + v_inmax r) in
           if l_nz l < 2 * t_hl t then do {
             n \<leftarrow> d_uint (l_ph l);
             let b = to_fmt f32 (fsub f64 (l_ph l) (d_nat n));
             let a = fsub f32 d_one b;
             (c1, c2) \<leftarrow> vr_coefs t n a b (v_c1 r, v_c2 r);
             d \<leftarrow> for_loop 0 (v_nchan r) (\<lambda>j d. do {
               s \<leftarrow> vr_dot (t_hl t) (v_buff r) c1 c2 (l_p1 l + int j * di) (l_p2 l + int j * di);
               store_f32 d (pos + j) (fsub f32 s f_tiny) }) d;
             Some (r\<lparr>v_c1 := c1, v_c2 := c2, out_data := Some (d, pos + v_nchan r)\<rparr>) }
           else do {
             d \<leftarrow> for_loop 0 (v_nchan r) (\<lambda>j d. store_f32 d (pos + j) d_zero) d;
             Some (r\<lparr>out_data := Some (d, pos + v_nchan r)\<rparr>) }))"

definition vr_step_dp :: "vresampler \<Rightarrow> fl \<Rightarrow> fl" where
  "vr_step_dp r dp =
     (let dd = fsub f64 (v_qstep r) dp in
      if flt dd (lit f64 (1 / 10 ^ 20)) \<and> flt (fneg (lit f64 (1 / 10 ^ 20))) dd then v_qstep r
      else fadd f64 dp (fmul f64 (v_wstep r) dd))"

text \<open>The advance of the phase, and the move of the buffer's tail to its head when it is used up.\<close>

definition vr_advance :: "resampler_table \<Rightarrow> vresampler \<Rightarrow> vr_locals \<Rightarrow> (vresampler \<times> vr_locals) option" where
  "vr_advance t r l = do {
     let dp = vr_step_dp r (l_dp l);
     let ph = fadd f64 (l_ph l) dp;
     let np = d_nat (t_np t);
     if flt ph np \<or> ph = FNaN then Some (r, l\<lparr>l_ph := ph, l_dp := dp\<rparr>)
     else do {
       nr \<leftarrow> d_uint (d_floor (fdiv f64 ph np));
       k \<leftarrow> c_int (int nr * int (t_np t));
       let ph = fsub f64 ph (of_int_fl f64 k);
       let inx = u32_mod (l_in l + nr);
       let p1 = l_p1 l + int nr;
       let l = l\<lparr>l_ph := ph, l_dp := dp, l_nr := nr, l_in := inx, l_p1 := p1\<rparr>;
       if v_inmax r \<le> inx then do {
         let n = 2 * int (t_hl t) - int nr;
         let di = 2 * t_hl t + v_inmax r;
         b \<leftarrow> for_loop 0 (v_nchan r) (\<lambda>j b.
           if n < 0 then None
           else do {
             xs \<leftarrow> mem_load b (nat (p1 + int (j * di))) (nat n);
             mem_store b (j * di) xs }) (v_buff r);
         Some (r\<lparr>v_buff := b\<rparr>, l\<lparr>l_in := 0, l_p1 := 0, l_p2 := n\<rparr>) }
       else Some (r, l) } }"

text \<open>The outer loop: one iteration per output frame, until the input runs out.\<close>

fun vr_loop :: "nat \<Rightarrow> resampler_table \<Rightarrow> vresampler \<Rightarrow> vr_locals \<Rightarrow> (vresampler \<times> vr_locals) option" where
  "vr_loop 0 t r l = Some (r\<lparr>out_count := 0\<rparr>, l)"
| "vr_loop (Suc oc) t r l = do {
     (r, l) \<leftarrow> vr_fill t r l;
     if l_nr l \<noteq> 0 then Some (r\<lparr>out_count := Suc oc\<rparr>, l)
     else do {
       r \<leftarrow> vr_output t r l;
       (r, l) \<leftarrow> vr_advance t r l;
       vr_loop oc t r l } }"

definition vr_process :: "vresampler \<Rightarrow> (vresampler \<times> int) option" where
  "vr_process r =
     (case v_table r of
        None \<Rightarrow> Some (r, 1)
      | Some t \<Rightarrow> do {
          let l = \<lparr>l_in = v_index r, l_nr = v_nread r, l_nz = v_nzero r, l_ph = v_phase r,
            l_dp = v_pstep r, l_p1 = int (v_index r),
            l_p2 = int (v_index r) + 2 * int (t_hl t) - int (v_nread r)\<rparr>;
          (r, l) \<leftarrow> vr_loop (out_count r) t r l;
          Some (r\<lparr>v_index := l_in l, v_nread := l_nr l, v_phase := l_ph l, v_pstep := l_dp l,
            v_nzero := l_nz l\<rparr>, 0) })"

end
