(* ===== verification/Context.thy ===== *)
theory Context
  imports Udp Bytes Ringbuffer Vresampler
begin

text \<open>
  The state of a stream, \<open>vban_stream_context_t\<close> of \<open>vban_common/vban_functions.h\<close>, and its flags.
  Locks are not part of the state: every access the code makes under a lock is a step of the
  operation that makes it.
\<close>

section \<open>Flags\<close>

definition RECEIVER :: u16 where "RECEIVER = 0x0001"
definition TRANSMITTER :: u16 where "TRANSMITTER = 0x0002"
definition RECEIVING :: u16 where "RECEIVING = 0x0004"
definition SENDING :: u16 where "SENDING = 0x0008"
definition CMD_PRESENT :: u16 where "CMD_PRESENT = 0x0010"
definition CONNECTED :: u16 where "CONNECTED = 0x0020"
definition CORRECTION_ON :: u16 where "CORRECTION_ON = 0x0040"
definition SLICING :: u16 where "SLICING = 0x0080"
definition MULTISTREAM :: u16 where "MULTISTREAM = 0x0100"
definition DEVICE_MODE :: u16 where "DEVICE_MODE = 0x0200"
definition AUTOCONNECT :: u16 where "AUTOCONNECT = 0x0400"
definition RESAMPLER :: u16 where "RESAMPLER = 0x0800"
definition MSG_PRESENT :: u16 where "MSG_PRESENT = 0x1000"
definition DUPLEX :: u16 where "DUPLEX = 0x2000"
definition NET_XRUN :: u16 where "NET_XRUN = 0x4000"
definition HALT :: u16 where "HALT = 0x8000"

lemmas flag_defs = RECEIVER_def TRANSMITTER_def RECEIVING_def SENDING_def CMD_PRESENT_def
  CONNECTED_def CORRECTION_ON_def SLICING_def MULTISTREAM_def DEVICE_MODE_def AUTOCONNECT_def
  RESAMPLER_def MSG_PRESENT_def DUPLEX_def NET_XRUN_def HALT_def

definition flag_set :: "u16 \<Rightarrow> u16 \<Rightarrow> bool" where
  "flag_set f m \<longleftrightarrow> f AND m \<noteq> 0"

lemma flag_set_or [simp]: "flag_set (f OR m) m' \<longleftrightarrow> flag_set f m' \<or> flag_set m m'"
proof
  assume "flag_set (f OR m) m'"
  then show "flag_set f m' \<or> flag_set m m'" by (auto simp: flag_set_def bit.conj_disj_distrib2)
next
  have "\<exists>n. bit w n" if "w \<noteq> 0" for w :: u16 using that bit_eqI [of w 0] by auto
  moreover have "w \<noteq> 0" if "bit w n" for w :: u16 and n using that by auto
  ultimately show "flag_set (f OR m) m'" if "flag_set f m' \<or> flag_set m m'"
    using that unfolding flag_set_def by (metis bit_and_iff bit_or_iff)
qed


section \<open>The stream context\<close>

text \<open>
  The integers are kept at the range of their C type: \<open>uint16_t\<close> and \<open>uint8_t\<close> members are
  natural numbers below \<open>2 ^ 16\<close> and \<open>2 ^ 8\<close>, \<open>int\<close> members integers. Buffers are byte blocks
  (\<^const>\<open>None\<close> for a null pointer). Time stamps are seconds and nanoseconds. \<open>txtimer\<close> is the
  descriptor in the timer's block.
\<close>

type_synonym timespec = "int \<times> int"

record timestamp_delta =
  ts_new :: timespec
  ts_old :: timespec
  deltat :: int
  deltatf :: "fl list"

record stream_context =
  rx_streamname :: "byte list"
  tx_streamname :: "byte list"
  servername :: "byte list"
  nbinputs :: nat
  nboutputs :: nat
  nframes :: nat
  samplerate :: int
  samplerate_resampler :: int
  txbuf :: "byte list option"
  rxbuf :: "byte list"
  txbuflen :: int
  rxbuflen :: int
  lagrange_num :: nat
  ringbuffer :: "ringbuffer option"
  ringbuffer_midi :: "ringbuffer option"
  iptx :: u32
  txport :: u16
  iprx :: u32
  iplocal :: u32
  rxport :: u16
  ansport :: u16
  stream_pipedesc :: int
  nu_frame :: u32
  vban_output_format :: nat
  redundancy :: nat
  vban_nframes_pac :: int
  pacnum :: nat
  pacnum_t32 :: nat
  txdata_ind :: nat
  pacdatalen :: nat
  tx_transactions :: nat
  tx_nframes :: nat
  slice_period :: nat
  lost_pac_cnt :: nat
  rxsock :: udpc
  txsock :: udpc
  flags :: u16
  command :: "byte list option"
  txpacket :: vban_packet
  txmidipac :: vban_packet
  info :: vban_packet
  txmeta :: vban_packet
  resampler :: "vresampler option"
  resampler_inbuf :: "byte list option"
  resampler_inbuflen :: int
  resampler_outbuf :: "byte list option"
  resampler_outbuflen :: int
  input_ts :: timespec
  time_old :: timespec
  time_cycle_start :: timespec
  rx_cycle_delta :: timestamp_delta
  cycle_pac_cnt :: int
  cycle_frames :: int
  cframes_marr :: "int list"
  cframes :: int
  cfind :: nat
  rbfill :: int
  rratio :: fl
  rratiof :: fl
  rbfill_integral :: fl
  add_delay_frames :: nat
  xlen :: nat
  xaddress :: "byte list"
  iptxaddr :: "byte list"
  stream_pipename :: "byte list"
  jack_server_name :: "byte list option"
  txtimer :: "int option"

definition zero_udpc :: udpc where
  "zero_udpc = \<lparr>fd = 0, sin_family = 0, sin_addr = 0, sin_port = 0\<rparr>"

definition zero_delta :: timestamp_delta where
  "zero_delta = \<lparr>ts_new = (0, 0), ts_old = (0, 0), deltat = 0, deltatf = replicate 5 (FNum False 0)\<rparr>"

text \<open>The context after the \<open>memset\<close> at the start of every \<open>main\<close>.\<close>

definition zero_context :: stream_context where
  "zero_context = \<lparr>rx_streamname = replicate 16 0, tx_streamname = replicate 16 0,
     servername = replicate 32 0, nbinputs = 0, nboutputs = 0, nframes = 0, samplerate = 0,
     samplerate_resampler = 0, txbuf = None, rxbuf = [], txbuflen = 0, rxbuflen = 0,
     lagrange_num = 0, ringbuffer = None, ringbuffer_midi = None, iptx = 0, txport = 0, iprx = 0,
     iplocal = 0, rxport = 0, ansport = 0, stream_pipedesc = 0, nu_frame = 0,
     vban_output_format = 0, redundancy = 0, vban_nframes_pac = 0, pacnum = 0, pacnum_t32 = 0,
     txdata_ind = 0, pacdatalen = 0, tx_transactions = 0, tx_nframes = 0, slice_period = 0,
     lost_pac_cnt = 0, rxsock = zero_udpc, txsock = zero_udpc, flags = 0, command = None,
     txpacket = zero_packet, txmidipac = zero_packet, info = zero_packet, txmeta = zero_packet, resampler = None, resampler_inbuf = None,
     resampler_inbuflen = 0, resampler_outbuf = None, resampler_outbuflen = 0, input_ts = (0, 0),
     time_old = (0, 0), time_cycle_start = (0, 0), rx_cycle_delta = zero_delta, cycle_pac_cnt = 0,
     cycle_frames = 0, cframes_marr = replicate 5 0, cframes = 0, cfind = 0, rbfill = 0,
     rratio = FNum False 0, rratiof = FNum False 0, rbfill_integral = FNum False 0,
     add_delay_frames = 0, xlen = 0, xaddress = replicate 6 0,
     iptxaddr = replicate 16 0, stream_pipename = replicate 32 0, jack_server_name = None, txtimer = None\<rparr>"

end
