(* ===== verification/Key_Value.thy ===== *)
theory Key_Value
  imports Context
begin

text \<open>
  The text messages of the program: the lookup of a value by its key (\<open>get_value_by_key\<close>), the
  information packet of a receptor (\<open>vban_fill_receptor_info\<close>), the match of a receptor against an
  emitter's stream (\<open>scan_receptor\<close>) and the parser of an extended address (\<open>parse_passport\<close>), all of
  \<open>vban_common/vban_functions.cpp\<close>.

  A C string is the list of its bytes before the terminating zero; position \<open>length s\<close> reads the
  zero and a position beyond is undefined.
\<close>

section \<open>The lookup\<close>

definition c_at :: "byte list \<Rightarrow> nat \<Rightarrow> byte option" where
  "c_at s i = (if i < length s then Some (s ! i) else if i = length s then Some 0 else None)"

text \<open>\<open>strstr\<close>: the first position at which the key occurs.\<close>

fun strstr :: "byte list \<Rightarrow> byte list \<Rightarrow> nat option" where
  "strstr key [] = (if key = [] then Some 0 else None)"
| "strstr key (x # xs) =
     (if take (length key) (x # xs) = key then Some 0 else map_option Suc (strstr key xs))"

definition chr_sp :: byte where "chr_sp = 0x20"
definition chr_comma :: byte where "chr_comma = 0x2C"
definition chr_semi :: byte where "chr_semi = 0x3B"
definition chr_eq :: byte where "chr_eq = 0x3D"
definition chr_dq :: byte where "chr_dq = 0x22"
definition chr_sq :: byte where "chr_sq = 0x27"

lemmas chr_defs = chr_sp_def chr_comma_def chr_semi_def chr_eq_def chr_dq_def chr_sq_def

definition is_sep :: "byte \<Rightarrow> bool" where
  "is_sep c \<longleftrightarrow> c = chr_sp \<or> c = chr_comma \<or> c = chr_semi"

text \<open>The value that starts at \<open>val_start\<close>, quoted or not.\<close>

definition value_at :: "byte list \<Rightarrow> nat \<Rightarrow> byte list" where
  "value_at source val_start =
     (let v = drop val_start source in
      if v \<noteq> [] \<and> (hd v = chr_dq \<or> hd v = chr_sq) then takeWhile (\<lambda>c. c \<noteq> hd v) (tl v)
      else takeWhile (\<lambda>c. \<not> is_sep c) v)"

text \<open>
  The search loop from position \<open>ptr\<close>. The result is the caller's block and the return code.
\<close>

function gvk_loop :: "byte list \<Rightarrow> byte list \<Rightarrow> byte list \<Rightarrow> nat \<Rightarrow> nat \<Rightarrow> (byte list \<times> int) option" where
  "gvk_loop source key res res_size ptr =
     (if length source < ptr then None
      else case strstr key (drop ptr source) of
          None \<Rightarrow> Some (res, 0)
        | Some d \<Rightarrow>
            (let q = ptr + d;
                 left_ok = (q = 0 \<or> is_sep (source ! (q - 1)));
                 right_ok = (c_at source (q + length key) = Some chr_eq) in
             if left_ok \<and> right_ok then
               (let v = value_at source (q + length key + 1) in
                if length v \<ge> res_size then Some (res, 0)
                else map_option (\<lambda>r. (r, 1)) (mem_store res 0 (v @ [0])))
             else gvk_loop source key res res_size (q + 1)))"
  by pat_completeness auto
termination
  by (relation "measure (\<lambda>(s, k, r, n, p). Suc (length s) - p)") auto

declare gvk_loop.simps [simp del]

definition get_value_by_key ::
    "byte list option \<Rightarrow> byte list option \<Rightarrow> byte list option \<Rightarrow> nat \<Rightarrow> (byte list option \<times> int) option" where
  "get_value_by_key source key res res_size =
     (case (source, key, res) of
        (Some s, Some k, Some r) \<Rightarrow>
          if res_size = 0 then Some (Some r, 0)
          else map_option (\<lambda>(r, n). (Some r, n)) (gvk_loop s k r res_size 0)
      | _ \<Rightarrow> Some (res, 0))"


section \<open>Numbers in text\<close>

text \<open>\<open>%d\<close>.\<close>

fun dec_nat :: "nat \<Rightarrow> byte list" where
  "dec_nat n = (if n < 10 then [0x30 + word_of_nat n] else dec_nat (n div 10) @ [0x30 + word_of_nat (n mod 10)])"

declare dec_nat.simps [simp del]

definition dec_int :: "int \<Rightarrow> byte list" where
  "dec_int i = (if i < 0 then 0x2D # dec_nat (nat (- i)) else dec_nat (nat i))"


section \<open>The information packet\<close>

text \<open>A character array read with \<open>%s\<close> must hold a zero.\<close>

definition c_string :: "byte list \<Rightarrow> byte list option" where
  "c_string b = (if 0 \<in> set b then Some (cstr b) else None)"

text \<open>\<open>sprintf\<close> or \<open>strcpy\<close> to a block: the characters and a zero.\<close>

definition put_string :: "byte list \<Rightarrow> nat \<Rightarrow> byte list \<Rightarrow> byte list option" where
  "put_string b i s = mem_store b i (s @ [0])"

text \<open>The \<open>memset\<close> clears \<open>VBAN_PROTOCOL_MAX_SIZE\<close> bytes: the whole packet.\<close>

definition vban_fill_receptor_info :: "stream_context \<Rightarrow> stream_context option" where
  "vban_fill_receptor_info context = do {
     nm \<leftarrow> put_string (replicate VBAN_STREAM_NAME_SIZE 0) 0 (bytes_of ''INFO'');
     let h = zero_header\<lparr>vban := VBAN_HEADER_FOURC, format_SR := protocol_val VBAN_PROTOCOL_TXT, streamname := nm\<rparr>;
     let data = replicate VBAN_DATA_MAX_SIZE 0;
     name \<leftarrow> c_string (rx_streamname context);
     data \<leftarrow> (if flag_set (flags context) MULTISTREAM
       then put_string data 0 (bytes_of ''servername='' @ name @ bytes_of '' '')
       else put_string data 0 (bytes_of ''streamnamerx='' @ name @ bytes_of '' nbchannels='' @
              dec_int (int (nboutputs context)) @ bytes_of '' ''));
     data \<leftarrow> put_string data (length (cstr data)) (bytes_of ''samplerate='' @ dec_int (samplerate context) @
       bytes_of '' format='' @ dec_int (int (vban_output_format context)) @ bytes_of '' flags='' @
       dec_int (int (unat (flags context))));
     Some (context\<lparr>info := \<lparr>header = h, pdata = data\<rparr>\<rparr>) }"


section \<open>Matching a receptor\<close>

text \<open>
  What \<open>scan_receptor\<close> does with one answer: a text packet of more than a header, not from one of
  the host's own addresses, is a match when the emitter has no server name and the stream name it
  asks for starts with the receptor's. The result is the context and whether the wait ends.
\<close>

definition scan_answer :: "stream_context \<Rightarrow> u32 list \<Rightarrow> vban_packet \<Rightarrow> int \<Rightarrow> u32 \<Rightarrow> (stream_context \<times> bool) option" where
  "scan_answer stream ips answer received from_ip =
     (if received > int VBAN_HEADER_SIZE \<and> vban (header answer) = VBAN_HEADER_FOURC \<and>
         is_protocol VBAN_PROTOCOL_TXT (format_SR (header answer))
      then
        if from_ip \<notin> set ips then
          if hd (servername stream) \<noteq> 0 then Some (stream, False)
          else do {
            s \<leftarrow> c_string (pdata answer);
            (r, _) \<leftarrow> get_value_by_key (Some s) (Some (bytes_of ''streamnamerx'')) (Some (replicate 32 0)) 32;
            rxname \<leftarrow> r;
            let n = length (cstr rxname);
            tx \<leftarrow> Some (cstr (tx_streamname stream));
            if take n tx = take n (cstr rxname) then Some (stream\<lparr>iptx := from_ip\<rparr>, True)
            else Some (stream, False) }
        else Some (stream, False)
      else Some (stream, False))"


section \<open>Extended addresses\<close>

text \<open>
  \<open>parse_passport\<close>: \<open>scan\<close> is \<open>sscanf(input, "%15[^:]:%d%c", \<dots>)\<close> (its return value, the first
  15 characters or fewer when the first conversion succeeded, the number when the second did), and
  \<open>pton\<close> is \<open>inet_pton(AF_INET, \<dots>)\<close>. Variables that were not assigned have no defined value. The
  return value of \<open>sscanf\<close> is only compared with zero, and both outcomes leave \<open>len\<close> at 6.
\<close>

definition parse_passport ::
    "(byte list \<Rightarrow> int \<times> byte list option \<times> int option) \<Rightarrow> (byte list \<Rightarrow> u32 option) \<Rightarrow> byte list \<Rightarrow>
     (nat \<times> (u32 \<times> u16) option) option" where
  "parse_passport scan pton input =
     (let (r, host, port) = scan input; len = (6::nat); len = (if r \<noteq> 0 then 6 else len) in do {
        xport_val \<leftarrow> port;
        let len = (if xport_val < 0 \<or> xport_val > 65535 then 0 else len);
        xip_buff \<leftarrow> host;
        let len = (if pton xip_buff = None then 0 else len);
        if len = 6 then do {
          xa \<leftarrow> pton xip_buff;
          Some (len, Some (xa, htons (word_of_int xport_val)))
        } else Some (len, None) })"


section \<open>What the lookup finds\<close>

text \<open>A position at which the key starts an assignment.\<close>

definition hit :: "byte list \<Rightarrow> byte list \<Rightarrow> nat \<Rightarrow> bool" where
  "hit s key q \<longleftrightarrow> q + length key < length s \<and> take (length key) (drop q s) = key \<and>
     (q = 0 \<or> is_sep (s ! (q - 1))) \<and> s ! (q + length key) = chr_eq"

lemma strstr_Some:
  "strstr key s = Some d \<Longrightarrow> take (length key) (drop d s) = key \<and> d + length key \<le> length s \<and>
     (\<forall>i<d. take (length key) (drop i s) \<noteq> key)"
proof (induction key s arbitrary: d rule: strstr.induct)
  case (2 key x xs)
  show ?case
  proof (cases "take (length key) (x # xs) = key")
    case True
    then have "length key \<le> length (x # xs)" by (metis length_take min.cobounded2 min_def nat_le_linear)
    then show ?thesis using True 2 by auto
  next
    case False
    then obtain e where e: "strstr key xs = Some e" "d = Suc e" using 2 by auto
    then show ?thesis using 2(1) [OF False e(1)] False by (auto simp: less_Suc_eq_0_disj)
  qed
qed (auto split: if_splits)

lemma strstr_None: "strstr key s = None \<Longrightarrow> take (length key) (drop i s) \<noteq> key \<or> length s < i + length key"
proof (induction key s arbitrary: i rule: strstr.induct)
  case (2 key x xs)
  then show ?case by (cases i) (auto split: if_splits)
qed (auto split: if_splits)

lemma gvk_step:
  assumes "ptr \<le> length s" and d: "strstr key (drop ptr s) = Some d"
  shows "ptr + d + length key \<le> length s"
    and "gvk_loop s key res n ptr =
     (if hit s key (ptr + d) then
        (let v = value_at s (ptr + d + length key + 1) in
         if length v \<ge> n then Some (res, 0) else map_option (\<lambda>r. (r, 1)) (mem_store res 0 (v @ [0])))
      else gvk_loop s key res n (ptr + d + 1))"
proof -
  let ?p = "ptr + d"
  note S = strstr_Some [OF d]
  have at: "take (length key) (drop ?p s) = key" using S by (simp add: add.commute)
  show fits: "?p + length key \<le> length s" using conjunct1 [OF conjunct2 [OF S]] assms(1) by simp
  have hp: "((?p = 0 \<or> is_sep (s ! (?p - 1))) \<and> c_at s (?p + length key) = Some chr_eq) = hit s key ?p"
    using at fits by (auto simp: hit_def c_at_def chr_eq_def)
  have le: "\<not> length s < ptr" using assms(1) by simp
  show "gvk_loop s key res n ptr =
     (if hit s key (ptr + d) then
        (let v = value_at s (ptr + d + length key + 1) in
         if length v \<ge> n then Some (res, 0) else map_option (\<lambda>r. (r, 1)) (mem_store res 0 (v @ [0])))
      else gvk_loop s key res n (ptr + d + 1))"
    by (subst gvk_loop.simps) (simp only: le d Let_def hp if_False option.case)
qed

lemma gvk_first_hit:
  assumes "key \<noteq> []" and "ptr \<le> length s" and "hit s key q" and "ptr \<le> q"
    and "\<forall>i. ptr \<le> i \<and> i < q \<longrightarrow> \<not> hit s key i"
  shows "gvk_loop s key res n ptr =
     (let v = value_at s (q + length key + 1) in
      if length v \<ge> n then Some (res, 0) else map_option (\<lambda>r. (r, 1)) (mem_store res 0 (v @ [0])))"
  using assms
proof (induction "length s - ptr" arbitrary: ptr rule: less_induct)
  case less
  have hq: "take (length key) (drop (q - ptr) (drop ptr s)) = key" "q + length key < length s"
    using less.prems(3,4) by (auto simp: hit_def)
  then obtain d where d: "strstr key (drop ptr s) = Some d"
    using strstr_None [of key "drop ptr s" "q - ptr"] less.prems(2,4) by (cases "strstr key (drop ptr s)") auto
  note S = strstr_Some [OF d]
  have dq: "ptr + d \<le> q"
  proof (rule ccontr)
    assume "\<not> ptr + d \<le> q"
    then have "q - ptr < d" using less.prems(4) by linarith
    then show False using S hq(1) by blast
  qed
  note step = gvk_step(2) [OF less.prems(2) d, of res n]
  show ?case
  proof (cases "hit s key (ptr + d)")
    case True
    then have "ptr + d = q" using dq less.prems(5) by (metis le_add1 le_neq_implies_less)
    then show ?thesis using step True by (simp only: if_True)
  next
    case False
    then have "ptr + d \<noteq> q" using less.prems(3) by auto
    then have lt: "ptr + d + 1 \<le> q" using dq by simp
    have "gvk_loop s key res n (ptr + d + 1) =
     (let v = value_at s (q + length key + 1) in
      if length v \<ge> n then Some (res, 0) else map_option (\<lambda>r. (r, 1)) (mem_store res 0 (v @ [0])))"
      using less.prems lt hq(2) by (intro less.hyps) auto
    then show ?thesis using step False by (simp only: if_False)
  qed
qed

lemma gvk_no_hit:
  assumes "key \<noteq> []" and "ptr \<le> length s" and "\<forall>i. ptr \<le> i \<longrightarrow> \<not> hit s key i"
  shows "gvk_loop s key res n ptr = Some (res, 0)"
  using assms
proof (induction "length s - ptr" arbitrary: ptr rule: less_induct)
  case less
  show ?case
  proof (cases "strstr key (drop ptr s)")
    case None
    then show ?thesis using less.prems(2) by (subst gvk_loop.simps) simp
  next
    case (Some d)
    note step = gvk_step(1) [OF less.prems(2) Some] gvk_step(2) [OF less.prems(2) Some, of res n]
    have nh: "\<not> hit s key (ptr + d)" using less.prems(3) by simp
    have "1 \<le> length key" using less.prems(1) by (cases key) auto
    then have "gvk_loop s key res n (ptr + d + 1) = Some (res, 0)"
      using less.prems step(1) by (intro less.hyps) auto
    then show ?thesis using step(2) nh by (simp only: if_False)
  qed
qed


section \<open>Assignments separated by spaces\<close>

text \<open>The text of a list of assignments, as the information packets have it.\<close>

fun render :: "(byte list \<times> byte list) list \<Rightarrow> byte list" where
  "render [] = []"
| "render [(k, v)] = k @ chr_eq # v"
| "render ((k, v) # kvs) = k @ chr_eq # v @ chr_sp # render kvs"

text \<open>A key and a value that need no quoting.\<close>

definition plain_key :: "byte list \<Rightarrow> bool" where
  "plain_key k \<longleftrightarrow> k \<noteq> [] \<and> (\<forall>c \<in> set k. \<not> is_sep c \<and> c \<noteq> chr_eq)"

definition plain_value :: "byte list \<Rightarrow> bool" where
  "plain_value v \<longleftrightarrow> (\<forall>c \<in> set v. \<not> is_sep c) \<and> (v \<noteq> [] \<longrightarrow> hd v \<noteq> chr_dq \<and> hd v \<noteq> chr_sq)"

lemma plain_no_sep: "plain_key k \<Longrightarrow> plain_value v \<Longrightarrow> i < length (k @ chr_eq # v) \<Longrightarrow>
    \<not> is_sep ((k @ chr_eq # v) ! i)"
  by (auto simp: plain_key_def plain_value_def nth_append nth_Cons' is_sep_def chr_defs)

text \<open>Inside a token only its start can begin an assignment, and then its key is the key sought.\<close>

lemma take_key_eq:
  assumes "plain_key k" and "plain_key key" and "take (length key) (k @ chr_eq # r) = key"
    and "(k @ chr_eq # r) ! length key = chr_eq" and "length key < length (k @ chr_eq # r)"
  shows "k = key"
proof -
  have "length k \<le> length key"
  proof (rule ccontr)
    assume "\<not> length k \<le> length key"
    then have lt: "length key < length k" by simp
    then have "k ! length key = chr_eq" using assms(4) by (simp add: nth_append)
    with nth_mem [OF lt] have "chr_eq \<in> set k" by simp
    then show False using assms(1) by (auto simp: plain_key_def)
  qed
  moreover have "\<not> length k < length key"
  proof
    assume lt: "length k < length key"
    then have "key ! length k = chr_eq" using assms(3) by (metis nth_append_length nth_take)
    then show False using assms(2) lt nth_mem [OF lt] by (auto simp: plain_key_def)
  qed
  ultimately have "length k = length key" by simp
  then show ?thesis using assms(3) by simp
qed

lemma hit_token:
  assumes "plain_key k" and "plain_value v" and "plain_key key"
    and "s = k @ chr_eq # v @ rest" and "rest = [] \<or> hd rest = chr_sp" and "q \<le> length (k @ chr_eq # v)"
  shows "hit s key q \<longleftrightarrow> q = 0 \<and> k = key"
proof
  assume "q = 0 \<and> k = key"
  then show "hit s key q" using assms(4) by (auto simp: hit_def)
next
  assume h: "hit s key q"
  have q: "q = 0"
  proof (rule ccontr)
    assume "q \<noteq> 0"
    then have "is_sep (s ! (q - 1))" using h by (auto simp: hit_def)
    moreover have "q - 1 < length (k @ chr_eq # v)" using \<open>q \<noteq> 0\<close> assms(6) by simp
    moreover from this have "s ! (q - 1) = (k @ chr_eq # v) ! (q - 1)"
      using nth_append [of "k @ chr_eq # v" rest "q - 1"] assms(4) by simp
    ultimately show False using plain_no_sep [OF assms(1,2)] by metis
  qed
  have "k = key"
    using h q assms(4) by (intro take_key_eq [OF assms(1,3), of "v @ rest"]) (auto simp: hit_def)
  then show "q = 0 \<and> k = key" using q by simp
qed

text \<open>Past a token and its space the search goes on as in the rest of the text.\<close>

lemma hit_shift:
  assumes "s = t @ chr_sp # r"
  shows "hit s key (length t + 1 + q) \<longleftrightarrow> hit r key q"
proof -
  have d: "drop (length t + 1 + q) s = drop q r" unfolding assms by simp
  have n: "s ! (length t + 1 + q + length key) = r ! (q + length key)"
    unfolding assms by (simp add: nth_append nth_Cons')
  have p: "is_sep (s ! (length t + 1 + q - 1)) \<longleftrightarrow> q = 0 \<or> is_sep (r ! (q - 1))"
    unfolding assms by (cases q) (auto simp: nth_append is_sep_def)
  have l: "length t + 1 + q + length key < length s \<longleftrightarrow> q + length key < length r" unfolding assms by auto
  show ?thesis unfolding hit_def d n l using p by auto
qed

lemma value_at_append: "value_at (t @ r) (length t + i) = value_at r i"
  by (simp add: value_at_def)

lemma value_of_token:
  assumes "plain_value v" and "rest = [] \<or> hd rest = chr_sp"
  shows "value_at (k @ chr_eq # v @ rest) (length k + 1) = v"
proof -
  have "takeWhile (\<lambda>c. \<not> is_sep c) (v @ rest) = v"
    using assms by (cases rest) (auto simp: plain_value_def is_sep_def takeWhile_append2 takeWhile_append)
  moreover have "\<not> (v @ rest \<noteq> [] \<and> (hd (v @ rest) = chr_dq \<or> hd (v @ rest) = chr_sq))"
    using assms by (cases v; cases rest) (auto simp: plain_value_def chr_defs)
  moreover have "drop (length k + 1) (k @ chr_eq # v @ rest) = v @ rest" by simp
  ultimately show ?thesis unfolding value_at_def by (simp only: Let_def if_False)
qed

definition plain :: "(byte list \<times> byte list) list \<Rightarrow> bool" where
  "plain kvs \<longleftrightarrow> (\<forall>(k, v) \<in> set kvs. plain_key k \<and> plain_value v)"

lemma render_Cons:
  "render ((k, v) # kvs) = k @ chr_eq # v @ (if kvs = [] then [] else chr_sp # render kvs)"
  by (cases kvs) auto

lemma first_hit_render:
  assumes "plain kvs" and "plain_key key" and "map_of kvs key = Some v"
  shows "\<exists>q. hit (render kvs) key q \<and> (\<forall>i<q. \<not> hit (render kvs) key i) \<and>
    value_at (render kvs) (q + length key + 1) = v"
  using assms
proof (induction kvs)
  case (Cons kv kvs)
  obtain k w where kv: "kv = (k, w)" by (cases kv)
  let ?rest = "if kvs = [] then [] else chr_sp # render kvs"
  have s: "render (kv # kvs) = k @ chr_eq # w @ ?rest" using kv render_Cons by simp
  have pl: "plain_key k" "plain_value w" "plain kvs" using Cons.prems(1) kv by (auto simp: plain_def)
  have r: "?rest = [] \<or> hd ?rest = chr_sp" by simp
  note tok = hit_token [OF pl(1,2) Cons.prems(2) s r]
  show ?case
  proof (cases "k = key")
    case True
    then show ?thesis
      using tok [of 0] value_of_token [OF pl(2) r, of k] Cons.prems(3) kv s by (intro exI [of _ 0]) simp
  next
    case False
    then have m: "map_of kvs key = Some v" using Cons.prems(3) kv by simp
    then have ne: "kvs \<noteq> []" by auto
    let ?t = "k @ chr_eq # w"
    have s': "render (kv # kvs) = ?t @ chr_sp # render kvs" using s ne by simp
    from Cons.IH [OF pl(3) Cons.prems(2) m] obtain q where q: "hit (render kvs) key q"
        "\<forall>i<q. \<not> hit (render kvs) key i" "value_at (render kvs) (q + length key + 1) = v" by blast
    have "\<not> hit (render (kv # kvs)) key i" if "i < length ?t + 1 + q" for i
    proof (cases "i \<le> length ?t")
      case True
      then show ?thesis using tok [of i] False by simp
    next
      case f: False
      then obtain j where "i = length ?t + 1 + j" by (metis add.assoc add.commute le_add1 less_iff_Suc_add not_le
          plus_1_eq_Suc)
      then show ?thesis using hit_shift [OF s', of key j] q(2) that by simp
    qed
    moreover have "value_at (render (kv # kvs)) (length ?t + 1 + q + length key + 1) = v"
      using value_at_append [of "?t @ [chr_sp]" "render kvs" "q + length key + 1"] q(3) s' by (simp add: add.assoc)
    ultimately show ?thesis using hit_shift [OF s', of key q] q(1) by blast
  qed
qed simp

lemma no_hit_render:
  assumes "plain kvs" and "plain_key key" and "map_of kvs key = None"
  shows "\<not> hit (render kvs) key i"
  using assms
proof (induction kvs arbitrary: i)
  case Nil
  then show ?case by (simp add: hit_def)
next
  case (Cons kv kvs)
  obtain k w where kv: "kv = (k, w)" by (cases kv)
  let ?rest = "if kvs = [] then [] else chr_sp # render kvs"
  let ?t = "k @ chr_eq # w"
  have s: "render (kv # kvs) = k @ chr_eq # w @ ?rest" using kv render_Cons by simp
  have pl: "plain_key k" "plain_value w" "plain kvs" using Cons.prems(1) kv by (auto simp: plain_def)
  have r: "?rest = [] \<or> hd ?rest = chr_sp" by simp
  have kn: "k \<noteq> key" "map_of kvs key = None" using Cons.prems(3) kv by (auto split: if_splits)
  show ?case
  proof (cases "i \<le> length ?t")
    case True
    then show ?thesis using hit_token [OF pl(1,2) Cons.prems(2) s r] kn(1) by simp
  next
    case False
    show ?thesis
    proof (cases "kvs = []")
      case True
      then show ?thesis using False s by (auto simp: hit_def)
    next
      case ne: False
      then have s': "render (kv # kvs) = ?t @ chr_sp # render kvs" using s by simp
      obtain j where "i = length ?t + 1 + j" using False by (metis add.assoc add.commute le_add1
          less_iff_Suc_add not_le plus_1_eq_Suc)
      then show ?thesis using hit_shift [OF s', of key j] Cons.IH [OF pl(3) Cons.prems(2) kn(2)] by simp
    qed
  qed
qed

text \<open>The lookup in a rendered list is the lookup in the list.\<close>

lemma get_value_render:
  assumes "plain kvs" and "plain_key key" and "0 < n" and "n \<le> length res"
  shows "get_value_by_key (Some (render kvs)) (Some key) (Some res) n =
    (case map_of kvs key of
       None \<Rightarrow> Some (Some res, 0)
     | Some v \<Rightarrow> if n \<le> length v then Some (Some res, 0) else Some (Some (blit res 0 (v @ [0])), 1))"
proof -
  have key: "key \<noteq> []" using assms(2) by (simp add: plain_key_def)
  show ?thesis
  proof (cases "map_of kvs key")
    case None
    then show ?thesis
      using gvk_no_hit [OF key, of 0 "render kvs" res n] no_hit_render [OF assms(1,2)] assms(3)
      by (simp add: get_value_by_key_def)
  next
    case (Some v)
    from first_hit_render [OF assms(1,2) Some] obtain q where q: "hit (render kvs) key q"
        "\<forall>i<q. \<not> hit (render kvs) key i" "value_at (render kvs) (q + length key + 1) = v" by blast
    have "gvk_loop (render kvs) key res n 0 =
      (if length v \<ge> n then Some (res, 0) else map_option (\<lambda>r. (r, 1)) (mem_store res 0 (v @ [0])))"
      using gvk_first_hit [OF key _ q(1), of 0 res n] q(2,3) by (simp add: Let_def)
    then show ?thesis using Some assms(3,4) by (simp add: get_value_by_key_def mem_store_def)
  qed
qed



section \<open>Printed numbers\<close>

text \<open>Printable characters other than separators and quotes.\<close>

definition plain_char :: "byte \<Rightarrow> bool" where
  "plain_char c \<longleftrightarrow> \<not> is_sep c \<and> c \<noteq> chr_dq \<and> c \<noteq> chr_sq \<and> c \<noteq> 0"

lemma digit_plain:
  assumes "d < 10"
  shows "plain_char (0x30 + word_of_nat d)"
proof -
  have "d \<in> {0, 1, 2, 3, 4, 5, 6, 7, 8, 9}" using assms by auto
  then show ?thesis by (auto simp: plain_char_def is_sep_def chr_defs)
qed

lemma dec_nat_plain: "\<forall>c \<in> set (dec_nat n). plain_char c"
proof (induction n rule: dec_nat.induct)
  case (1 n)
  show ?case
  proof (cases "n < 10")
    case True
    then show ?thesis by (subst dec_nat.simps) (simp add: digit_plain)
  next
    case False
    then show ?thesis using 1 by (subst dec_nat.simps) (auto simp: digit_plain)
  qed
qed

lemma length_dec_nat: "n < 10 ^ k \<Longrightarrow> 0 < k \<Longrightarrow> length (dec_nat n) \<le> k"
proof (induction n arbitrary: k rule: dec_nat.induct)
  case (1 n)
  show ?case
  proof (cases "n < 10")
    case True
    then show ?thesis using 1 by (subst dec_nat.simps) simp
  next
    case False
    then obtain j where j: "k = Suc j" "0 < j" using 1 by (cases k; cases "k - 1") auto
    have "n div 10 < 10 ^ j" using 1(2) j by (simp add: less_mult_imp_div_less mult.commute)
    then show ?thesis using 1(1) [OF False _ j(2)] j False by (subst dec_nat.simps) simp
  qed
qed

lemma dec_int_plain: "\<forall>c \<in> set (dec_int i). plain_char c"
  using dec_nat_plain by (auto simp: dec_int_def plain_char_def is_sep_def chr_defs)

lemma length_dec_int: "\<bar>i\<bar> < 10 ^ k \<Longrightarrow> 0 < k \<Longrightarrow> length (dec_int i) \<le> Suc k"
  using length_dec_nat [of "nat \<bar>i\<bar>" k] by (cases "i < 0") (auto simp: dec_int_def nat_less_iff)

lemma plain_chars_value: "\<forall>c \<in> set v. plain_char c \<Longrightarrow> plain_value v"
  by (auto simp: plain_value_def plain_char_def)


section \<open>The information packet carries its fields\<close>

definition k_streamnamerx :: "byte list" where "k_streamnamerx = bytes_of ''streamnamerx''"

lemma bytes_of_append: "bytes_of (a @ b) = bytes_of a @ bytes_of b"
  by (simp add: bytes_of_def)

text \<open>The fields a single-stream receptor prints.\<close>

definition info_fields :: "stream_context \<Rightarrow> byte list \<Rightarrow> (byte list \<times> byte list) list" where
  "info_fields c name =
    [(k_streamnamerx, name), (bytes_of ''nbchannels'', dec_int (int (nboutputs c))),
     (bytes_of ''samplerate'', dec_int (samplerate c)),
     (bytes_of ''format'', dec_int (int (vban_output_format c))),
     (bytes_of ''flags'', dec_int (int (unat (flags c))))]"

lemma key_plain:
  "plain_key k_streamnamerx" "plain_key (bytes_of ''nbchannels'')" "plain_key (bytes_of ''samplerate'')"
  "plain_key (bytes_of ''format'')" "plain_key (bytes_of ''flags'')"
  by (simp_all add: plain_key_def k_streamnamerx_def bytes_of_def is_sep_def chr_defs)

lemma info_fields_plain: "plain_value name \<Longrightarrow> plain (info_fields c name)"
  by (simp add: plain_def info_fields_def key_plain plain_chars_value dec_int_plain)

lemma info_text:
  "(bytes_of ''streamnamerx='' @ name @ bytes_of '' nbchannels='' @ dec_int (int (nboutputs c)) @ bytes_of '' '') @
   (bytes_of ''samplerate='' @ dec_int (samplerate c) @ bytes_of '' format='' @
    dec_int (int (vban_output_format c)) @ bytes_of '' flags='' @ dec_int (int (unat (flags c))))
   = render (info_fields c name)"
  by (simp add: info_fields_def k_streamnamerx_def bytes_of_def chr_defs)

lemma cstr_blit_zero:
  assumes "0 \<notin> set s" and "length s < length b"
  shows "cstr (blit b 0 (s @ [0])) = s"
  using assms by (simp add: blit_0 cstr_append_zero)

lemma no_zero_bytes: "0 \<notin> set (bytes_of s)" if "\<forall>c \<in> set s. of_char c \<noteq> (0 :: byte)"
  using that by (auto simp: bytes_of_def)

lemma fill_info_ok:
  assumes name: "0 \<in> set (rx_streamname c)" "length (rx_streamname c) = 16"
    and mode: "\<not> flag_set (flags c) MULTISTREAM"
    and rng: "nboutputs c < 2 ^ 16" "\<bar>samplerate c\<bar> < 2 ^ 31" "vban_output_format c < 2 ^ 8"
  shows "\<exists>c'. vban_fill_receptor_info c = Some c' \<and> packet_ok (info c') \<and>
    c' = c\<lparr>info := info c'\<rparr> \<and> vban (header (info c')) = VBAN_HEADER_FOURC \<and>
    format_SR (header (info c')) = protocol_val VBAN_PROTOCOL_TXT \<and> 0 \<in> set (pdata (info c')) \<and>
    cstr (pdata (info c')) = render (info_fields c (cstr (rx_streamname c)))"
proof -
  let ?n = "cstr (rx_streamname c)" and ?N = VBAN_DATA_MAX_SIZE
  let ?a = "bytes_of ''streamnamerx='' @ ?n @ bytes_of '' nbchannels='' @ dec_int (int (nboutputs c)) @ bytes_of '' ''"
  let ?b = "bytes_of ''samplerate='' @ dec_int (samplerate c) @ bytes_of '' format='' @
    dec_int (int (vban_output_format c)) @ bytes_of '' flags='' @ dec_int (int (unat (flags c)))"
  have fl: "unat (flags c) < 2 ^ 16" using unsigned_less [of "flags c", where ?'a = nat] by simp
  have f16: "length (dec_int (int n)) \<le> 6" if "n < 2 ^ 16" for n
    using that length_dec_int [of "int n" 5] by simp
  have l: "length ?n \<le> 16" "length (dec_int (int (nboutputs c))) \<le> 6" "length (dec_int (samplerate c)) \<le> 11"
      "length (dec_int (int (vban_output_format c))) \<le> 4" "length (dec_int (int (unat (flags c)))) \<le> 6"
    using length_cstr_le [of "rx_streamname c"] name(2) f16 [OF rng(1)]
      length_dec_int [of "samplerate c" 10] length_dec_int [of "int (vban_output_format c)" 3]
      f16 [OF fl] rng(2,3) by simp_all
  then have la: "length ?a + 100 < ?N" and lb: "length ?b < 100" by (simp_all add: vban_sizes)
  have d0: "0 \<notin> set (dec_int i)" for i using dec_int_plain [of i] by (auto simp: plain_char_def)
  have a0: "0 \<notin> set ?a" and b0: "0 \<notin> set ?b"
    using cstr_nonzero [of "rx_streamname c"] d0 by (auto simp: bytes_of_def)
  let ?d0 = "replicate ?N (0::byte)"
  let ?d1 = "blit ?d0 0 (?a @ [0])"
  have p1: "put_string ?d0 0 ?a = Some ?d1" using la by (simp add: put_string_def mem_store_def)
  have len1: "length ?d1 = ?N" using la by (simp add: length_blit)
  have c1: "cstr ?d1 = ?a" using la a0 by (intro cstr_blit_zero) auto
  let ?d2 = "blit ?d1 (length ?a) (?b @ [0])"
  have p2: "put_string ?d1 (length ?a) ?b = Some ?d2"
    using la lb len1 by (simp add: put_string_def mem_store_def)
  have d2: "?d2 = (?a @ ?b) @ 0 # drop (length ?a + length (?b @ [0])) ?d1"
    using c1 len1 la by (simp add: blit_def)
  have c2: "cstr ?d2 = ?a @ ?b" unfolding d2 using a0 b0 by (intro cstr_append_zero) auto
  have len2: "length ?d2 = ?N" using la lb len1 by (simp add: length_blit)
  let ?nm = "blit (replicate VBAN_STREAM_NAME_SIZE 0) 0 (bytes_of ''INFO'' @ [0])"
  have nm: "put_string (replicate VBAN_STREAM_NAME_SIZE 0) 0 (bytes_of ''INFO'') = Some ?nm"
    by (simp add: put_string_def mem_store_def vban_sizes)
  let ?h = "zero_header\<lparr>vban := VBAN_HEADER_FOURC, format_SR := protocol_val VBAN_PROTOCOL_TXT, streamname := ?nm\<rparr>"
  have cs: "c_string (rx_streamname c) = Some ?n" using name(1) by (simp add: c_string_def)
  have run: "vban_fill_receptor_info c = Some (c\<lparr>info := \<lparr>header = ?h, pdata = ?d2\<rparr>\<rparr>)"
    unfolding vban_fill_receptor_info_def
    by (simp only: nm cs mode if_False p1 c1 p2 Let_def Option.bind.bind_lunit)
  have "packet_ok \<lparr>header = ?h, pdata = ?d2\<rparr>"
    using len2 by (simp add: packet_ok_def header_ok_def zero_header_def length_blit vban_sizes)
  moreover have "0 \<in> set ?d2" unfolding d2 by simp
  ultimately show ?thesis using run c2 info_text [of ?n c] by (intro exI [of _ "c\<lparr>info := \<lparr>header = ?h, pdata = ?d2\<rparr>\<rparr>"]) simp
qed


text \<open>What an emitter reads from a text answer that assigns plain values.\<close>

lemma scan_answer_render:
  assumes "received > int VBAN_HEADER_SIZE" and "vban (header p) = VBAN_HEADER_FOURC"
    and "format_SR (header p) = protocol_val VBAN_PROTOCOL_TXT" and "from_ip \<notin> set ips"
    and "hd (servername s) = 0" and "0 \<in> set (pdata p)" and text_is: "cstr (pdata p) = render kvs"
    and plain: "plain kvs"
    and v: "map_of kvs k_streamnamerx = None \<and> v = [] \<or>
      map_of kvs k_streamnamerx = Some v \<and> length v < 32 \<and> 0 \<notin> set v"
  shows "scan_answer s ips p received from_ip =
    (if take (length v) (cstr (tx_streamname s)) = v then Some (s\<lparr>iptx := from_ip\<rparr>, True) else Some (s, False))"
proof -
  let ?res = "replicate 32 (0::byte)"
  have txt_p: "is_protocol VBAN_PROTOCOL_TXT (format_SR (header p))"
    using assms(3) by (simp add: is_protocol_def VBAN_PROTOCOL_MASK_def)
  have cs: "c_string (pdata p) = Some (render kvs)" using assms(6) text_is by (simp add: c_string_def)
  obtain r n where g: "get_value_by_key (Some (render kvs)) (Some k_streamnamerx) (Some ?res) 32 = Some (Some r, n)"
      and r: "cstr r = v"
  proof (cases "map_of kvs k_streamnamerx")
    case None
    then show thesis using v get_value_render [OF plain key_plain(1), of 32 ?res]
      by (intro that [of ?res 0]) (auto simp: cstr_def)
  next
    case (Some w)
    then have "cstr (blit ?res 0 (v @ [0])) = v" using v by (intro cstr_blit_zero) auto
    then show thesis using v Some get_value_render [OF plain key_plain(1), of 32 ?res]
      by (intro that [of "blit ?res 0 (v @ [0])" 1]) auto
  qed
  have "take (length v) v = v" by simp
  then show ?thesis
    using assms(1-5) txt_p cs g [unfolded k_streamnamerx_def] r by (simp add: scan_answer_def Let_def)
qed


section \<open>Properties\<close>

text \<open>
  C13: Looking a key up in a text of space-separated assignments (as the program prints them) is the
  lookup in the list of assignments: the value of the first assignment of the key is copied with its
  terminator when it fits the buffer, and 0 is returned when the key is missing or the value is too
  long. A value that contains the key's text, or a longer key that contains it, is never mistaken.
\<close>

theorem lookup_in_assignments:
  assumes "plain kvs" and "plain_key key" and "0 < n" and "n \<le> length res"
  shows "get_value_by_key (Some (render kvs)) (Some key) (Some res) n =
    (case map_of kvs key of
       None \<Rightarrow> Some (Some res, 0)
     | Some v \<Rightarrow> if n \<le> length v then Some (Some res, 0) else Some (Some (blit res 0 (v @ [0])), 1))"
  using assms by (rule get_value_render)

theorem lookup_in_assignments_witness:
  "get_value_by_key (Some (render [(bytes_of ''xrate'', bytes_of ''1''), (bytes_of ''rate'', bytes_of ''48'')]))
      (Some (bytes_of ''rate'')) (Some [7, 7, 7, 7]) 4 =
    (case map_of [(bytes_of ''xrate'', bytes_of ''1''), (bytes_of ''rate'', bytes_of ''48'')] (bytes_of ''rate'') of
       None \<Rightarrow> Some (Some [7, 7, 7, 7], 0)
     | Some v \<Rightarrow> if 4 \<le> length v then Some (Some [7, 7, 7, 7], 0)
         else Some (Some (blit [7, 7, 7, 7] 0 (v @ [0])), 1))"
  by (rule lookup_in_assignments)
    (simp_all add: plain_def plain_key_def plain_value_def bytes_of_def is_sep_def chr_defs)

text \<open>
  Discovery works end to end: an emitter that receives the information packet of a single-stream
  receptor from another host takes the receptor's address as its target exactly when its stream name
  starts with the receptor's, and otherwise changes nothing.
\<close>

theorem discovery_matches_stream:
  assumes "0 \<in> set (rx_streamname c)" and "length (rx_streamname c) = 16"
    and "\<not> flag_set (flags c) MULTISTREAM" and "plain_value (cstr (rx_streamname c))"
    and "nboutputs c < 2 ^ 16" and "\<bar>samplerate c\<bar> < 2 ^ 31" and "vban_output_format c < 2 ^ 8"
    and "from_ip \<notin> set ips" and "hd (servername s) = 0" and "received > int VBAN_HEADER_SIZE"
  shows "\<exists>c'. vban_fill_receptor_info c = Some c' \<and>
    scan_answer s ips (info c') received from_ip =
     (let name = cstr (rx_streamname c) in
      if take (length name) (cstr (tx_streamname s)) = name then Some (s\<lparr>iptx := from_ip\<rparr>, True)
      else Some (s, False))"
proof -
  let ?n = "cstr (rx_streamname c)"
  from fill_info_ok [OF assms(1-3,5-7)] obtain c' where c': "vban_fill_receptor_info c = Some c'"
      "vban (header (info c')) = VBAN_HEADER_FOURC"
      "format_SR (header (info c')) = protocol_val VBAN_PROTOCOL_TXT" "0 \<in> set (pdata (info c'))"
      "cstr (pdata (info c')) = render (info_fields c ?n)" by blast
  have "map_of (info_fields c ?n) k_streamnamerx = Some ?n" by (simp add: info_fields_def)
  moreover have "length ?n < 32" using length_cstr_le [of "rx_streamname c"] assms(2) by simp
  ultimately show ?thesis
    using scan_answer_render [OF assms(10) c'(2,3) assms(8,9) c'(4,5) info_fields_plain [OF assms(4)], of ?n]
      cstr_nonzero [of "rx_streamname c"] c'(1) by (intro exI [of _ c']) (simp add: Let_def)
qed

theorem discovery_matches_stream_witness:
  "let c = zero_context\<lparr>rx_streamname := bytes_of ''Stream1'' @ replicate 9 0, samplerate := 48000\<rparr> in
   \<exists>c'. vban_fill_receptor_info c = Some c' \<and>
    scan_answer zero_context [1] (info c') 100 2 =
     (let name = cstr (rx_streamname c) in
      if take (length name) (cstr (tx_streamname zero_context)) = name then Some (zero_context\<lparr>iptx := 2\<rparr>, True)
      else Some (zero_context, False))"
  unfolding Let_def [of "zero_context\<lparr>rx_streamname := _, samplerate := _\<rparr>"]
  by (rule discovery_matches_stream)
    (simp_all add: zero_context_def flag_set_def cstr_def plain_value_def bytes_of_def is_sep_def chr_defs vban_sizes)

text \<open>
  A text answer without the key \<open>streamnamerx\<close> (a multistream receptor, which prints
  \<open>servername\<close>, or any other text packet) is taken as a match by every emitter: the name read is
  empty and zero characters are compared.
\<close>

theorem answer_without_name_matches:
  assumes "received > int VBAN_HEADER_SIZE" and "vban (header p) = VBAN_HEADER_FOURC"
    and "format_SR (header p) = protocol_val VBAN_PROTOCOL_TXT" and "from_ip \<notin> set ips"
    and "hd (servername s) = 0" and "0 \<in> set (pdata p)" and "cstr (pdata p) = render kvs" and "plain kvs"
    and "map_of kvs k_streamnamerx = None"
  shows "scan_answer s ips p received from_ip = Some (s\<lparr>iptx := from_ip\<rparr>, True)"
  using scan_answer_render [OF assms(1-8), of "[]"] assms(9) by simp

theorem answer_without_name_matches_witness:
  "scan_answer zero_context [] (zero_packet\<lparr>header := zero_header\<lparr>vban := VBAN_HEADER_FOURC, format_SR := 0x40\<rparr>\<rparr>)
     100 9 = Some (zero_context\<lparr>iptx := 9\<rparr>, True)"
  by (rule answer_without_name_matches [where kvs = "[]"])
    (simp_all add: zero_packet_def zero_context_def cstr_def plain_def vban_sizes)

text \<open>
  \<open>parse_passport\<close> accepts exactly the texts whose address part is valid and whose port is in
  range; text left over after the port, which \<open>sscanf\<close> reports, is ignored. The port is stored in
  network order.
\<close>

theorem passport_accepts:
  assumes "scan input = (r, Some host, Some port)"
  shows "parse_passport scan pton input =
    (case pton host of
       None \<Rightarrow> Some (0, None)
     | Some a \<Rightarrow> if 0 \<le> port \<and> port \<le> 65535 then Some (6, Some (a, htons (word_of_int port))) else Some (0, None))"
  using assms by (auto simp: parse_passport_def Let_def split: option.splits)

theorem passport_accepts_witness:
  "parse_passport (\<lambda>_. (3, Some [0x31], Some 80)) (\<lambda>_. Some 1) [0x31, 0x3A, 0x38, 0x30, 0x78] =
    (case (\<lambda>_. Some 1) [0x31] of
       None \<Rightarrow> Some (0, None)
     | Some a \<Rightarrow> if 0 \<le> (80::int) \<and> 80 \<le> (65535::int) then Some (6, Some (a, htons (word_of_int 80)))
         else Some (0, None))"
  by (rule passport_accepts) simp

end
