(* ===== verification/Float_Bounds.thy ===== *)
theory Float_Bounds
  imports Floats
begin

text \<open>
  Error bounds for double-precision arithmetic: every operation whose exact result is not huge
  gives a number within a relative and absolute error of \<open>2 ^ - 53\<close>, rounding respects the order
  with respect to integers, and the remainder of a subtraction of an integer is exact. The
  components that compute with doubles (the rate control, the resampler's phase) use these facts
  instead of the definition of rounding.
\<close>

section \<open>Rounding\<close>

lemma rne_error: "\<bar>of_int (rne x) - x\<bar> \<le> 1 / 2"
proof -
  have "of_int \<lfloor>x\<rfloor> \<le> x" "x < of_int \<lfloor>x\<rfloor> + 1" by linarith+
  then show ?thesis unfolding rne_def Let_def by (auto simp: abs_le_iff)
qed

lemma rne_ge: "of_int i \<le> x \<Longrightarrow> i \<le> rne x"
proof -
  assume "of_int i \<le> x"
  then have "i \<le> \<lfloor>x\<rfloor>" by (simp add: le_floor_iff)
  then show ?thesis unfolding rne_def Let_def by auto
qed

lemma rne_le: "x \<le> of_int i \<Longrightarrow> rne x \<le> i"
proof -
  assume x: "x \<le> of_int i"
  consider "\<lfloor>x\<rfloor> < i" | "\<lfloor>x\<rfloor> = i" "x = of_int i"
    using x floor_mono [OF x] of_int_floor_le [of x] by fastforce
  then show ?thesis
    by cases (auto simp: rne_def Let_def)
qed

lemma ulp_exp_f64_bound:
  assumes "0 < r"
  shows "2 powi ulp_exp f64 r \<le> (r + 1) / 2 ^ 52"
proof -
  have f: "2 powi flog2 r \<le> r" by (rule flog2_bounds(1) [OF assms])
  have "(2::rat) powi (flog2 r - 52) = 2 powi flog2 r / 2 ^ 52" by (simp only: powi_diff) simp
  then have a: "(2::rat) powi (flog2 r - 52) \<le> (r + 1) / 2 ^ 52" using f by (simp add: divide_right_mono)
  have "(2::rat) powi - 1074 \<le> 2 powi - 52" by (rule powi_mono_iff [THEN iffD2]) simp
  also have "\<dots> = 1 / 2 ^ 52" by (simp only: power_int_minus divide_inverse) simp
  also have "\<dots> \<le> (r + 1) / 2 ^ 52" using assms by (intro divide_right_mono) auto
  finally have b: "(2::rat) powi - 1074 \<le> (r + 1) / 2 ^ 52" .
  show ?thesis using a b by (simp add: ulp_exp_def f64_def max_def)
qed

lemma rnd_f64:
  assumes "0 \<le> r" and "r \<le> 2 ^ 500"
  shows "\<exists>v. rnd f64 s r = FNum s v \<and> 0 \<le> v \<and> \<bar>v - r\<bar> \<le> (r + 1) / 2 ^ 53"
proof (cases "r = 0")
  case True
  then show ?thesis by (simp add: rnd_def)
next
  case False
  then have r: "0 < r" using assms(1) by simp
  let ?e = "ulp_exp f64 r"
  let ?u = "(2::rat) powi ?e"
  let ?v = "of_int (rne (r / ?u)) * ?u"
  have u: "0 < ?u" by simp
  have "\<bar>of_int (rne (r / ?u)) - r / ?u\<bar> * ?u \<le> 1 / 2 * ?u"
    by (rule mult_right_mono [OF rne_error]) simp
  moreover have "\<bar>of_int (rne (r / ?u)) - r / ?u\<bar> * ?u = \<bar>?v - r\<bar>"
  proof -
    have "(of_int (rne (r / ?u)) - r / ?u) * ?u = ?v - r" by (simp add: left_diff_distrib)
    then show ?thesis by (metis abs_mult abs_of_pos u)
  qed
  ultimately have "\<bar>?v - r\<bar> \<le> ?u / 2" by simp
  with ulp_exp_f64_bound [OF r] have err: "\<bar>?v - r\<bar> \<le> (r + 1) / 2 ^ 53" by simp
  have nn: "0 \<le> rne (r / ?u)" using r u by (intro rne_ge) simp
  have "?v \<le> r + (r + 1) / 2 ^ 53" using err by linarith
  also have "\<dots> \<le> 2 ^ 500 + (2 ^ 500 + 1) / 2 ^ 53" using assms(2) by (intro add_mono divide_right_mono) auto
  also have "\<dots> \<le> (2 ^ 53 - 1) * 2 ^ 971"
    by (simp add: field_simps)
  also have "\<dots> = max_fin f64" by (simp add: max_fin_def f64_def)
  finally show ?thesis using False err nn by (auto simp: rnd_def Let_def)
qed

text \<open>Rounding is monotone with respect to integers.\<close>

lemma ulp_exp_f64_le_0: "0 < r \<Longrightarrow> r < 2 ^ 53 \<Longrightarrow> ulp_exp f64 r \<le> 0"
proof -
  assume r: "0 < r" "r < 2 ^ 53"
  have "2 powi flog2 r < (2::rat) powi 53" using flog2_bounds(1) [OF r(1)] r(2) by simp
  then have "flog2 r < 53" by (simp only: powi_less_iff)
  then show ?thesis by (simp add: ulp_exp_def f64_def)
qed

lemma int_in_units:
  assumes "e \<le> 0"
  shows "of_int m / 2 powi e = (of_int (m * 2 ^ nat (- e)) :: rat)"
proof -
  obtain k where e: "e = - int k" using assms by (metis nonpos_int_cases)
  show ?thesis unfolding e by (simp add: power_int_minus divide_inverse)
qed

lemma rnd_f64_int:
  assumes "rnd f64 s r = FNum s v" and "0 \<le> r" and "r < 2 ^ 53"
  shows "of_int m \<le> r \<Longrightarrow> of_int m \<le> v" and "r \<le> of_int m \<Longrightarrow> v \<le> of_int m"
proof -
  have *: "(of_int m \<le> r \<longrightarrow> of_int m \<le> v) \<and> (r \<le> of_int m \<longrightarrow> v \<le> of_int m)"
  proof (cases "r = 0")
    case True
    then show ?thesis using assms by (auto simp: rnd_def)
  next
    case False
    then have r: "0 < r" using assms(2) by simp
    let ?e = "ulp_exp f64 r"
    let ?u = "(2::rat) powi ?e"
    have v: "v = of_int (rne (r / ?u)) * ?u" using assms(1) False by (auto simp: rnd_def Let_def split: if_splits)
    have e: "?e \<le> 0" by (rule ulp_exp_f64_le_0 [OF r assms(3)])
    let ?m = "m * 2 ^ nat (- ?e)"
    have m: "of_int m / ?u = (of_int ?m :: rat)" by (rule int_in_units [OF e])
    then have mu: "of_int m = of_int ?m * ?u" by (simp add: field_simps)
    show ?thesis
    proof (intro conjI impI)
      assume "of_int m \<le> r"
      then have "of_int m / ?u \<le> r / ?u" by (intro divide_right_mono) auto
      then have "?m \<le> rne (r / ?u)" unfolding m by (rule rne_ge)
      then have "(of_int ?m :: rat) \<le> of_int (rne (r / ?u))" by (simp only: of_int_le_iff)
      then show "of_int m \<le> v" unfolding v mu by (intro mult_right_mono) auto
    next
      assume "r \<le> of_int m"
      then have "r / ?u \<le> of_int m / ?u" by (intro divide_right_mono) auto
      then have "rne (r / ?u) \<le> ?m" unfolding m by (rule rne_le)
      then have "(of_int (rne (r / ?u)) :: rat) \<le> of_int ?m" by (simp only: of_int_le_iff)
      then show "v \<le> of_int m" unfolding v mu by (intro mult_right_mono) auto
    qed
  qed
  then show "of_int m \<le> r \<Longrightarrow> of_int m \<le> v" and "r \<le> of_int m \<Longrightarrow> v \<le> of_int m" by blast+
qed

text \<open>A rounded value is a multiple of its unit, so that subtracting an integer is exact.\<close>

lemma rnd_f64_sub_int:
  assumes "rnd f64 s r = FNum s v" and "0 < r" and "r < 2 ^ 53" and "\<bar>v - of_int k\<bar> < v"
  shows "exact_mag f64 \<bar>v - of_int k\<bar>"
proof -
  let ?e = "ulp_exp f64 r"
  let ?u = "(2::rat) powi ?e"
  let ?n = "rne (r / ?u)"
  have v: "v = of_int ?n * ?u" using assms(1,2) by (auto simp: rnd_def Let_def split: if_splits)
  have e: "?e \<le> 0" by (rule ulp_exp_f64_le_0 [OF assms(2,3)])
  have u: "0 < ?u" by simp
  have "flog2 r - 52 \<le> ?e" by (simp add: ulp_exp_def f64_def)
  then have "(2::rat) powi (flog2 r + 1) \<le> 2 powi (53 + ?e)" by (simp only: powi_mono_iff)
  also have "\<dots> = 2 ^ 53 * ?u" by (simp only: powi_add) simp
  finally have "r < 2 ^ 53 * ?u" using flog2_bounds(2) [OF assms(2)] by linarith
  then have "r / ?u \<le> of_int (2 ^ 53)" using u by (simp add: divide_le_eq)
  then have n: "?n \<le> 2 ^ 53" by (rule rne_le)
  let ?k = "k * 2 ^ nat (- ?e)"
  have k: "of_int k = of_int ?k * ?u" using int_in_units [OF e, of k] u by (simp add: field_simps)
  have d: "v - of_int k = of_int (?n - ?k) * ?u" unfolding v k by (simp only: of_int_diff left_diff_distrib)
  have ab: "\<bar>v - of_int k\<bar> = of_int \<bar>?n - ?k\<bar> * ?u" unfolding d by (simp add: abs_mult)
  have "of_int \<bar>?n - ?k\<bar> * ?u < of_int ?n * ?u" using assms(4) ab v by simp
  then have "of_int \<bar>?n - ?k\<bar> < (of_int ?n :: rat)" using u by (simp only: mult_less_cancel_right_pos)
  then have lt: "\<bar>?n - ?k\<bar> < 2 ^ 53" using n by (simp only: of_int_less_iff)
  have "emin f64 \<le> ?e" by (simp add: ulp_exp_def)
  then show ?thesis unfolding exact_mag_def ab using lt e
    by (intro exI [of _ "nat \<bar>?n - ?k\<bar>"] exI [of _ ?e]) (auto simp: f64_def nat_less_iff)
qed


section \<open>Operations\<close>

text \<open>\<open>z\<close> is a number that approximates \<open>v\<close>.\<close>

definition near :: "fl \<Rightarrow> rat \<Rightarrow> bool" where
  "near z v \<longleftrightarrow> is_num z \<and> \<bar>fl_val z - v\<bar> \<le> (\<bar>v\<bar> + 1) / 2 ^ 53"

fun mag_ok :: "fl \<Rightarrow> bool" where
  "mag_ok (FNum s m) \<longleftrightarrow> 0 \<le> m"
| "mag_ok _ \<longleftrightarrow> True"

lemma near_rnd:
  assumes "\<bar>v\<bar> \<le> 2 ^ 500" and "v \<noteq> 0 \<Longrightarrow> s = (v < 0)"
  shows "near (rnd f64 s \<bar>v\<bar>) v" and "mag_ok (rnd f64 s \<bar>v\<bar>)"
proof -
  obtain w where w: "rnd f64 s \<bar>v\<bar> = FNum s w" "0 \<le> w" "\<bar>w - \<bar>v\<bar>\<bar> \<le> (\<bar>v\<bar> + 1) / 2 ^ 53"
    using rnd_f64 [of "\<bar>v\<bar>" s] assms(1) by auto
  have "\<bar>fl_val (FNum s w) - v\<bar> \<le> (\<bar>v\<bar> + 1) / 2 ^ 53"
  proof (cases "v = 0")
    case True
    then have "w = 0" using w by (simp add: rnd_def)
    then show ?thesis using True by simp
  next
    case False
    then have "\<bar>fl_val (FNum s w) - v\<bar> = \<bar>w - \<bar>v\<bar>\<bar>" using assms(2) by (auto simp: abs_if)
    then show ?thesis using w(3) by simp
  qed
  then show "near (rnd f64 s \<bar>v\<bar>) v" "mag_ok (rnd f64 s \<bar>v\<bar>)" using w by (simp_all add: near_def)
qed

lemma near_fadd:
  assumes "is_num x" and "is_num y" and "\<bar>fl_val x + fl_val y\<bar> \<le> 2 ^ 500"
  shows "near (fadd f64 x y) (fl_val x + fl_val y)" and "mag_ok (fadd f64 x y)"
proof -
  let ?v = "fl_val x + fl_val y"
  obtain s m t n where xy: "x = FNum s m" "y = FNum t n" using assms(1,2) by (cases x; cases y) auto
  have eq: "fadd f64 x y = (if ?v = 0 then FNum (s \<and> t) 0 else rnd f64 (?v < 0) \<bar>?v\<bar>)"
    unfolding xy by (simp only: fadd.simps Let_def)
  show "near (fadd f64 x y) ?v" "mag_ok (fadd f64 x y)"
    using near_rnd [OF assms(3) refl] unfolding eq by (cases "?v = 0"; simp add: near_def)+
qed

lemma fl_val_fneg [simp]: "fl_val (fneg x) = - fl_val x"
  by (cases x) auto

lemma is_num_fneg [simp]: "is_num (fneg x) = is_num x"
  by (cases x) auto

lemma near_fsub:
  assumes "is_num x" and "is_num y" and "\<bar>fl_val x - fl_val y\<bar> \<le> 2 ^ 500"
  shows "near (fsub f64 x y) (fl_val x - fl_val y)" and "mag_ok (fsub f64 x y)"
  using near_fadd [of x "fneg y"] assms by (simp_all add: fsub_def)

lemma near_fmul:
  assumes "is_num x" and "is_num y" and "mag_ok x" and "mag_ok y" and "\<bar>fl_val x * fl_val y\<bar> \<le> 2 ^ 500"
  shows "near (fmul f64 x y) (fl_val x * fl_val y)" and "mag_ok (fmul f64 x y)"
proof -
  obtain s m t n where xy: "x = FNum s m" "y = FNum t n" "0 \<le> m" "0 \<le> n"
    using assms by (cases x; cases y) auto
  have ab: "\<bar>fl_val x * fl_val y\<bar> = m * n" using xy by (simp add: abs_mult)
  have sg: "(s \<noteq> t) = (fl_val x * fl_val y < 0)" if "fl_val x * fl_val y \<noteq> 0"
    using that xy by (auto simp: mult_less_0_iff)
  show "near (fmul f64 x y) (fl_val x * fl_val y)" "mag_ok (fmul f64 x y)"
    using near_rnd [OF assms(5) sg] xy ab by simp_all
qed

lemma near_fdiv:
  assumes "is_num x" and "is_num y" and "mag_ok x" and "mag_ok y" and "fl_val y \<noteq> 0"
    and "\<bar>fl_val x / fl_val y\<bar> \<le> 2 ^ 500"
  shows "near (fdiv f64 x y) (fl_val x / fl_val y)" and "mag_ok (fdiv f64 x y)"
proof -
  obtain s m t n where xy: "x = FNum s m" "y = FNum t n" "0 \<le> m" "0 \<le> n"
    using assms by (cases x; cases y) auto
  have n: "n \<noteq> 0" using assms(5) unfolding xy by (metis fl_val.simps(1) neg_equal_0_iff_equal)
  have ab: "\<bar>fl_val x / fl_val y\<bar> = m / n" using xy by (simp add: abs_mult)
  have sg: "(s \<noteq> t) = (fl_val x / fl_val y < 0)" if "fl_val x / fl_val y \<noteq> 0"
    using that xy by (auto simp: divide_less_0_iff)
  show "near (fdiv f64 x y) (fl_val x / fl_val y)" "mag_ok (fdiv f64 x y)"
    using near_rnd [OF assms(6) sg] xy ab n by simp_all
qed

lemma near_lit: "\<bar>r\<bar> \<le> 2 ^ 500 \<Longrightarrow> near (lit f64 r) r" and mag_ok_lit: "\<bar>r\<bar> \<le> 2 ^ 500 \<Longrightarrow> mag_ok (lit f64 r)"
  using near_rnd [of r "r < 0"] by (simp_all add: lit_def)

lemma near_is_num [simp]: "near z v \<Longrightarrow> is_num z"
  by (simp add: near_def)

lemma near_bounds: "near z v \<Longrightarrow> v - (\<bar>v\<bar> + 1) / 2 ^ 53 \<le> fl_val z \<and> fl_val z \<le> v + (\<bar>v\<bar> + 1) / 2 ^ 53"
  unfolding near_def by linarith

text \<open>For moderate values the error is below a millionth.\<close>

lemma near_micro:
  assumes "near z v" and "- 1073741824 \<le> v" and "v \<le> 1073741824"
  shows "v - 1 / 1000000 \<le> fl_val z" and "fl_val z \<le> v + 1 / 1000000"
proof -
  have "\<bar>v\<bar> + 1 \<le> 1073741825" using assms(2,3) by (simp add: abs_le_iff)
  then have "(\<bar>v\<bar> + 1) / 2 ^ 53 \<le> 1073741825 / 2 ^ 53" by (rule divide_right_mono) simp
  also have "\<dots> \<le> (1 / 1000000 :: rat)" by simp
  finally have "(\<bar>v\<bar> + 1) / 2 ^ 53 \<le> 1 / 1000000" .
  with near_bounds [OF assms(1)] show "v - 1 / 1000000 \<le> fl_val z" "fl_val z \<le> v + 1 / 1000000" by linarith+
qed

lemma flt_num [simp]: "is_num x \<Longrightarrow> is_num y \<Longrightarrow> flt x y \<longleftrightarrow> fl_val x < fl_val y"
  by (cases x; cases y) auto

text \<open>Clamping anything but a NaN between two numbers gives a number between them.\<close>

lemma clamp_ok:
  assumes "x \<noteq> FNaN" and "mag_ok x" and "is_num lo" and "mag_ok lo" and "is_num hi" and "mag_ok hi"
    and "fl_val lo \<le> fl_val hi" and "z = (let x = (if flt hi x then hi else x) in if flt x lo then lo else x)"
  shows "is_num z \<and> mag_ok z \<and> fl_val lo \<le> fl_val z \<and> fl_val z \<le> fl_val hi"
proof (cases x)
  case (FNum s m)
  then have "is_num x" by simp
  then show ?thesis using assms by (simp add: Let_def)
next
  case (FInf s)
  obtain a b c d where "lo = FNum a b" "hi = FNum c d" using assms(3,5) by (cases lo; cases hi) auto
  then show ?thesis using assms FInf by (cases s) (simp_all add: Let_def)
qed (use assms in simp)

end
