(* ===== verification/Vresampler_Safety.thy ===== *)
theory Vresampler_Safety
  imports Vresampler Float_Bounds
begin

text \<open>
  Safety and progress of the resampler: once \<open>setup\<close> has accepted a ratio, \<open>process\<close> never leaves
  its sample buffer, its filter table, its coefficient rows or the caller's blocks, whatever the
  samples are and however the ratio is corrected between calls, and it stops only when the input
  or the room for output is used up. The phase is a double: that it stays below the number of
  phases, so that the table rows used exist, depends on how the rounding of the addition, the
  division and the subtraction work together.
\<close>

section \<open>Invariant\<close>

definition qs_ok :: "resampler_table \<Rightarrow> fl \<Rightarrow> bool" where
  "qs_ok t x \<longleftrightarrow> is_num x \<and> mag_ok x \<and> 1 / 50 \<le> fl_val x \<and> fl_val x \<le> of_nat (30 * t_hl t)"

definition dp_ok :: "resampler_table \<Rightarrow> fl \<Rightarrow> bool" where
  "dp_ok t x \<longleftrightarrow> is_num x \<and> mag_ok x \<and> 1 / 100 \<le> fl_val x \<and> fl_val x \<le> of_nat (60 * t_hl t)"

definition ph_ok :: "fl \<Rightarrow> bool" where
  "ph_ok x \<longleftrightarrow> is_num x \<and> mag_ok x \<and> - (1 / 2) \<le> fl_val x \<and> fl_val x < of_nat NPHASE"

definition ratio_ok :: "resampler_table \<Rightarrow> fl \<Rightarrow> bool" where
  "ratio_ok t x \<longleftrightarrow> is_num x \<and> mag_ok x \<and> 1 / 64 \<le> fl_val x \<and> fl_val x \<le> 256 \<and> 7 \<le> of_nat (t_hl t) * fl_val x"

definition vr_wf :: "resampler_table \<Rightarrow> vresampler \<Rightarrow> bool" where
  "vr_wf t r \<longleftrightarrow> v_table r = Some t \<and> 8 \<le> t_hl t \<and> t_hl t \<le> 2 ^ 13 \<and> t_np t = NPHASE \<and>
     length (t_ctab t) = t_hl t * (t_np t + 1) \<and> v_inmax r \<le> 2 ^ 12 \<and>
     length (v_buff r) = v_nchan r * (2 * t_hl t + v_inmax r) \<and>
     length (v_c1 r) = t_hl t \<and> length (v_c2 r) = t_hl t \<and> v_wstep r = d_one \<and> ratio_ok t (v_ratio r) \<and>
     qs_ok t (v_qstep r)"

text \<open>The locals of \<open>process\<close>: the positions, the frames still to read, the phase and its step.\<close>

definition vl_ok :: "resampler_table \<Rightarrow> vresampler \<Rightarrow> vr_locals \<Rightarrow> bool" where
  "vl_ok t r l \<longleftrightarrow> l_in l < v_inmax r \<and> l_nr l \<le> 2 * t_hl t \<and> l_p1 l = int (l_in l) \<and>
     l_p2 l = int (l_in l) + 2 * int (t_hl t) - int (l_nr l) \<and> ph_ok (l_ph l) \<and> dp_ok t (l_dp l)"

text \<open>The state between calls.\<close>

definition vr_ok :: "resampler_table \<Rightarrow> vresampler \<Rightarrow> bool" where
  "vr_ok t r \<longleftrightarrow> vr_wf t r \<and> v_index r < v_inmax r \<and> v_nread r \<le> 2 * t_hl t \<and>
     ph_ok (v_phase r) \<and> dp_ok t (v_pstep r)"

text \<open>A caller's block has room for \<open>n\<close> more samples; it is the same block, \<open>n\<close> samples further on.\<close>

definition room :: "sample_ptr \<Rightarrow> nat \<Rightarrow> bool" where
  "room p n \<longleftrightarrow> (case p of None \<Rightarrow> True | Some (d, pos) \<Rightarrow> 4 * (pos + n) \<le> length d)"

fun moved :: "sample_ptr \<Rightarrow> nat \<Rightarrow> sample_ptr \<Rightarrow> bool" where
  "moved None n q \<longleftrightarrow> q = None"
| "moved (Some (d, pos)) n q \<longleftrightarrow>
     (\<exists>d'. q = Some (d', pos + n) \<and> length d' = length d \<and> take (4 * pos) d' = take (4 * pos) d)"

lemma moved_0 [simp]: "moved p 0 p"
  by (cases p) auto

lemma moved_trans: "moved p m q \<Longrightarrow> moved q n s \<Longrightarrow> moved p (m + n) s"
proof (cases p)
  case (Some a)
  obtain d pos where a: "a = (d, pos)" by (cases a)
  assume "moved p m q" "moved q n s"
  then obtain d1 d2 where "length d1 = length d" "take (4 * pos) d1 = take (4 * pos) d"
      "s = Some (d2, pos + m + n)" "length d2 = length d1" "take (4 * (pos + m)) d2 = take (4 * (pos + m)) d1"
    using Some a by auto
  note d = this
  have "take (4 * pos) x = take (4 * pos) (take (4 * (pos + m)) x)" for x :: "byte list"
    by (simp add: min_def)
  then have "take (4 * pos) d2 = take (4 * pos) d" using d(2,5) by metis
  then show ?thesis using Some a d by (simp add: add.assoc)
qed auto

lemma moved_room: "moved p m q \<Longrightarrow> room p (m + n) \<Longrightarrow> room q n"
  by (cases "(p, m, q)" rule: moved.cases) (auto simp: room_def algebra_simps)

lemma room_mono: "room p n \<Longrightarrow> m \<le> n \<Longrightarrow> room p m"
  by (auto simp: room_def split: option.splits)


section \<open>Positions\<close>

lemma slot:
  assumes "j < c" and "0 \<le> x" and "x < int w"
  shows "0 \<le> x + int j * int w" and "x + int j * int w < int (c * w)"
proof -
  show "0 \<le> x + int j * int w" using assms(2) by simp
  have "x + int j * int w < (int j + 1) * int w" using assms(3) by (simp add: algebra_simps)
  also have "\<dots> \<le> int c * int w" using assms(1) by (intro mult_right_mono) auto
  finally show "x + int j * int w < int (c * w)" by simp
qed

lemma rd_Some: "0 \<le> i \<Longrightarrow> i < int (length b) \<Longrightarrow> rd b i = Some (b ! nat i)"
  by (simp add: rd_def)

lemma wr_Some: "0 \<le> i \<Longrightarrow> i < int (length b) \<Longrightarrow> wr b i x = Some (b[nat i := x])"
  by (simp add: wr_def)


section \<open>Reading input\<close>

lemma take_frame_ok:
  assumes wf: "vr_wf t r" and l: "vl_ok t r l" and nr: "0 < l_nr l" and rm: "room (inp_data r) (v_nchan r * k)" "0 < k"
  shows "\<exists>b ip nz. vr_take_frame t r l = Some (r\<lparr>v_buff := b, inp_data := ip\<rparr>, l\<lparr>l_nz := nz\<rparr>) \<and>
    length b = length (v_buff r) \<and> moved (inp_data r) (v_nchan r) ip"
proof -
  define w where "w = 2 * t_hl t + v_inmax r"
  have p2: "0 \<le> l_p2 l" "l_p2 l < int w" using l nr by (auto simp: vl_ok_def w_def)
  have st: "wr b (l_p2 l + int j * int w) x = Some (b[nat (l_p2 l + int j * int w) := x])"
    if "j < v_nchan r" "length b = length (v_buff r)" for b j x
    using slot [OF that(1) p2] that(2) wf by (intro wr_Some) (auto simp: vr_wf_def w_def)
  show ?thesis
  proof (cases "inp_data r")
    case None
    have "\<exists>b. for_loop 0 (v_nchan r) (\<lambda>j b. wr b (l_p2 l + int j * int w) d_zero) (v_buff r) = Some b \<and>
        length b = length (v_buff r)"
      by (rule for_loop_inv [where P = "\<lambda>_ b. length b = length (v_buff r)"]) (auto simp: st)
    then obtain b where b: "for_loop 0 (v_nchan r) (\<lambda>j b. wr b (l_p2 l + int j * int w) d_zero) (v_buff r) = Some b"
        "length b = length (v_buff r)" by blast
    have "vr_take_frame t r l = Some (r\<lparr>v_buff := b, inp_data := inp_data r\<rparr>,
        l\<lparr>l_nz := (if l_nz l < 2 * t_hl t then l_nz l + 1 else l_nz l)\<rparr>)"
      unfolding vr_take_frame_def Let_def None option.case w_def [symmetric] b(1) by (simp add: None [symmetric])
    then show ?thesis using b(2) None
      by (intro exI [of _ b] exI [of _ "inp_data r"] exI [of _ "if l_nz l < 2 * t_hl t then l_nz l + 1 else l_nz l"]) auto
  next
    case (Some a)
    obtain d pos where a: "a = (d, pos)" by (cases a)
    have ld: "load_f32 d (pos + j) = Some (f32_of (take 4 (drop (4 * (pos + j)) d)))" if "j < v_nchan r" for j
    proof (rule load_f32_Some)
      have "j + 1 \<le> v_nchan r * 1" using that by simp
      also have "\<dots> \<le> v_nchan r * k" using rm(2) by (intro mult_le_mono2) simp
      finally have "4 * (pos + j) + 4 \<le> 4 * (pos + v_nchan r * k)" by simp
      then show "4 * (pos + j) + 4 \<le> length d" using rm(1) by (simp add: room_def Some a)
    qed
    let ?f = "\<lambda>j b. do { x \<leftarrow> load_f32 d (pos + j); wr b (l_p2 l + int j * int w) x }"
    have "\<exists>b. for_loop 0 (v_nchan r) ?f (v_buff r) = Some b \<and> length b = length (v_buff r)"
      by (rule for_loop_inv [where P = "\<lambda>_ b. length b = length (v_buff r)"]) (auto simp: st ld)
    then obtain b where b: "for_loop 0 (v_nchan r) ?f (v_buff r) = Some b" "length b = length (v_buff r)" by blast
    have "vr_take_frame t r l = Some (r\<lparr>v_buff := b, inp_data := Some (d, pos + v_nchan r)\<rparr>, l\<lparr>l_nz := 0\<rparr>)"
      unfolding vr_take_frame_def Let_def Some a option.case prod.case w_def [symmetric] b(1) by simp
    then show ?thesis using b(2) Some a
      by (intro exI [of _ b] exI [of _ "Some (d, pos + v_nchan r)"] exI [of _ "0::nat"]) auto
  qed
qed

lemma fill_ok:
  assumes "vr_wf t r" and "vl_ok t r l" and "room (inp_data r) (v_nchan r * inp_count r)"
  shows "\<exists>r' l'. vr_fill t r l = Some (r', l') \<and> vr_wf t r' \<and> vl_ok t r' l' \<and>
    v_nchan r' = v_nchan r \<and> out_data r' = out_data r \<and> inp_count r' \<le> inp_count r \<and>
    moved (inp_data r) (v_nchan r * (inp_count r - inp_count r')) (inp_data r') \<and>
    (l_nr l' = 0 \<or> inp_count r' = 0) \<and> l_nr l' + inp_count r = l_nr l + inp_count r' \<and>
    l_in l' = l_in l \<and> l_ph l' = l_ph l \<and> l_dp l' = l_dp l \<and> v_qstep r' = v_qstep r"
  using assms
proof (induction t r l rule: vr_fill.induct)
  case (1 t r l)
  show ?case
  proof (cases "l_nr l = 0 \<or> inp_count r = 0")
    case True
    then show ?thesis using 1 by (auto simp: vr_fill.simps)
  next
    case False
    then have nr: "0 < l_nr l" and ic: "0 < inp_count r" by auto
    obtain b ip nz where tf: "vr_take_frame t r l = Some (r\<lparr>v_buff := b, inp_data := ip\<rparr>, l\<lparr>l_nz := nz\<rparr>)"
        "length b = length (v_buff r)" "moved (inp_data r) (v_nchan r) ip"
      using take_frame_ok [OF "1.prems"(1,2) nr "1.prems"(3) ic] by blast
    let ?r = "r\<lparr>v_buff := b, inp_data := ip, inp_count := inp_count r - 1\<rparr>"
    let ?l = "l\<lparr>l_nz := nz, l_p2 := l_p2 l + 1, l_nr := l_nr l - 1\<rparr>"
    have eq: "vr_fill t r l = vr_fill t ?r ?l"
      using False tf(1) by (subst vr_fill.simps) simp
    have wf: "vr_wf t ?r" using "1.prems"(1) tf(2) by (simp add: vr_wf_def)
    have lo: "vl_ok t ?r ?l" using "1.prems"(2) nr by (auto simp: vl_ok_def)
    have split: "v_nchan r * inp_count r = v_nchan r + v_nchan r * (inp_count r - 1)"
      using ic by (cases "inp_count r") auto
    have rm: "room (inp_data ?r) (v_nchan ?r * inp_count ?r)"
      using moved_room [OF tf(3)] "1.prems"(3) split by simp
    obtain r' l' where r': "vr_fill t ?r ?l = Some (r', l')" "vr_wf t r'" "vl_ok t r' l'"
        "v_nchan r' = v_nchan ?r" "out_data r' = out_data ?r" "inp_count r' \<le> inp_count ?r"
        "moved (inp_data ?r) (v_nchan ?r * (inp_count ?r - inp_count r')) (inp_data r')"
        "l_nr l' = 0 \<or> inp_count r' = 0" "l_nr l' + inp_count ?r = l_nr ?l + inp_count r'"
        "l_in l' = l_in ?l \<and> l_ph l' = l_ph ?l \<and> l_dp l' = l_dp ?l \<and> v_qstep r' = v_qstep ?r"
      using "1.IH" [OF False tf(1) refl] wf lo rm by auto
    have "moved (inp_data r) (v_nchan r + v_nchan r * (inp_count r - 1 - inp_count r')) (inp_data r')"
      using moved_trans [OF tf(3)] r'(7) by simp
    moreover have "v_nchan r + v_nchan r * (inp_count r - 1 - inp_count r') = v_nchan r * (inp_count r - inp_count r')"
    proof -
      have "inp_count r - inp_count r' = Suc (inp_count r - 1 - inp_count r')" using r'(6) ic by simp
      then show ?thesis by simp
    qed
    moreover have "l_nr l' + inp_count r = l_nr l + inp_count r'" using r'(9) nr ic by simp
    ultimately show ?thesis using r' eq by auto
  qed
qed


section \<open>Writing output\<close>

lemma d_uint_phase: "ph_ok x \<Longrightarrow> \<exists>n. d_uint x = Some n \<and> n < NPHASE"
proof -
  assume x: "ph_ok x"
  then obtain s m where sm: "x = FNum s m" "0 \<le> m" by (cases x) (auto simp: ph_ok_def)
  show ?thesis
  proof (cases s)
    case True
    then show ?thesis using x sm by (auto simp: ph_ok_def NPHASE_def)
  next
    case False
    then have "m < 120" using x sm by (simp add: ph_ok_def NPHASE_def)
    moreover from this have "nat \<lfloor>m\<rfloor> < 120" using sm(2) by (simp add: nat_less_iff floor_less_iff)
    ultimately show ?thesis using False sm by (simp add: NPHASE_def)
  qed
qed

lemma coefs_ok:
  assumes wf: "vr_wf t r" and n: "n < t_np t" and len: "length c1 = t_hl t" "length c2 = t_hl t"
  shows "\<exists>d1 d2. vr_coefs t n a b (c1, c2) = Some (d1, d2) \<and> length d1 = t_hl t \<and> length d2 = t_hl t"
proof -
  let ?hl = "t_hl t"
  have row: "\<exists>x. rd (t_ctab t) (int ?hl * int j + int i) = Some x" if "i < ?hl" "j \<le> t_np t" for i j
  proof -
    have "0 \<le> int ?hl * int j + int i \<and> int ?hl * int j + int i < int (length (t_ctab t))"
      using slot [of j "t_np t + 1" "int i" ?hl] that wf by (simp add: vr_wf_def algebra_simps)
    then show ?thesis by (auto simp: rd_def)
  qed
  have rows: "\<exists>x1 y1 x2 y2. rd (t_ctab t) (int ?hl * int n + int i) = Some x1 \<and>
      rd (t_ctab t) (int ?hl * int n + int i + int ?hl) = Some y1 \<and>
      rd (t_ctab t) (int ?hl * (int (t_np t) - int n) + int i) = Some x2 \<and>
      rd (t_ctab t) (int ?hl * (int (t_np t) - int n) + int i - int ?hl) = Some y2" if "i < ?hl" for i
  proof -
    have e: "int ?hl * int n + int i + int ?hl = int ?hl * int (n + 1) + int i"
      "int ?hl * (int (t_np t) - int n) = int ?hl * int (t_np t - n)"
      "int ?hl * int (t_np t - n) + int i - int ?hl = int ?hl * int (t_np t - n - 1) + int i"
      using n by (simp_all add: algebra_simps of_nat_diff)
    show ?thesis unfolding e(1,2) e(3)
      using row [OF that, of n] row [OF that, of "n + 1"] row [OF that, of "t_np t - n"]
        row [OF that, of "t_np t - n - 1"] n by simp
  qed
  let ?P = "\<lambda>_ (c :: fl list \<times> fl list). length (fst c) = ?hl \<and> length (snd c) = ?hl"
  have "\<exists>c'. vr_coefs t n a b (c1, c2) = Some c' \<and> ?P (0 + ?hl) c'"
    unfolding vr_coefs_def Let_def
  proof (rule for_loop_inv [where P = ?P], goal_cases)
    case 1
    show ?case using len by simp
  next
    case (2 k c)
    obtain u v where c: "c = (u, v)" by (cases c)
    have k: "k < ?hl" using 2 by simp
    obtain x1 y1 x2 y2 where "rd (t_ctab t) (int ?hl * int n + int k) = Some x1"
      "rd (t_ctab t) (int ?hl * int n + int k + int ?hl) = Some y1"
      "rd (t_ctab t) (int ?hl * (int (t_np t) - int n) + int k) = Some x2"
      "rd (t_ctab t) (int ?hl * (int (t_np t) - int n) + int k - int ?hl) = Some y2"
      using rows [OF k] by blast
    then show ?case using 2 k c by (simp add: wr_def)
  qed
  then show ?thesis by auto
qed

lemma dot_ok:
  assumes "length c1 = hl" and "length c2 = hl"
    and "\<And>i. i < hl \<Longrightarrow> 0 \<le> q1 + int i \<and> q1 + int i < int (length buff)"
    and "\<And>i. i < hl \<Longrightarrow> 0 \<le> q2 - int i - 1 \<and> q2 - int i - 1 < int (length buff)"
  shows "\<exists>s. vr_dot hl buff c1 c2 q1 q2 = Some s"
proof -
  have "\<exists>s. vr_dot hl buff c1 c2 q1 q2 = Some s \<and> True"
    unfolding vr_dot_def
    by (rule for_loop_inv [where P = "\<lambda>_ _. True"]) (use assms in \<open>auto simp: rd_Some\<close>)
  then show ?thesis by blast
qed

lemma take_blit_before: "n \<le> i \<Longrightarrow> i + length xs \<le> length b \<Longrightarrow> take n (blit b i xs) = take n b"
  by (simp add: blit_def)

text \<open>A loop that stores one float per channel fills the next places of the caller's block.\<close>

lemma store_floats:
  assumes "\<And>j e. j < c \<Longrightarrow> length e = length d \<Longrightarrow> \<exists>s. f j e = store_f32 e (pos + j) s"
    and "4 * (pos + c) \<le> length d"
  shows "\<exists>d'. for_loop 0 c f d = Some d' \<and> length d' = length d \<and> take (4 * pos) d' = take (4 * pos) d"
proof -
  have "\<exists>d'. for_loop 0 c f d = Some d' \<and> length d' = length d \<and> take (4 * pos) d' = take (4 * pos) d"
  proof (rule for_loop_inv [where P = "\<lambda>_ e. length e = length d \<and> take (4 * pos) e = take (4 * pos) d"], goal_cases)
    case (2 k e)
    obtain s where s: "f k e = store_f32 e (pos + k) s" using assms(1) [of k e] 2 by auto
    have "4 * (pos + k) + 4 \<le> length e" using 2 assms(2) by simp
    then show ?case using 2 s by (simp add: mem take_blit_before)
  qed simp
  then show ?thesis .
qed

lemma output_ok:
  assumes wf: "vr_wf t r" and l: "vl_ok t r l" and nr: "l_nr l = 0" and rm: "room (out_data r) (v_nchan r)"
  shows "\<exists>c1 c2 op. vr_output t r l = Some (r\<lparr>v_c1 := c1, v_c2 := c2, out_data := op\<rparr>) \<and>
    length c1 = t_hl t \<and> length c2 = t_hl t \<and> moved (out_data r) (v_nchan r) op"
proof (cases "out_data r")
  case None
  then have "vr_output t r l = Some (r\<lparr>v_c1 := v_c1 r, v_c2 := v_c2 r, out_data := out_data r\<rparr>)"
    by (simp add: vr_output_def)
  then show ?thesis using wf None
    by (intro exI [of _ "v_c1 r", OF exI [of _ "v_c2 r", OF exI [of _ "out_data r"]]]) (auto simp: vr_wf_def)
next
  case (Some a)
  obtain d pos where a: "a = (d, pos)" by (cases a)
  have fits: "4 * (pos + v_nchan r) \<le> length d" using rm Some a by (simp add: room_def)
  show ?thesis
  proof (cases "l_nz l < 2 * t_hl t")
    case False
    have "\<exists>d'. for_loop 0 (v_nchan r) (\<lambda>j d. store_f32 d (pos + j) d_zero) d = Some d' \<and>
        length d' = length d \<and> take (4 * pos) d' = take (4 * pos) d"
      by (rule store_floats [OF _ fits]) blast
    then obtain d' where d': "for_loop 0 (v_nchan r) (\<lambda>j d. store_f32 d (pos + j) d_zero) d = Some d'"
        "length d' = length d" "take (4 * pos) d' = take (4 * pos) d" by blast
    then have "vr_output t r l = Some (r\<lparr>v_c1 := v_c1 r, v_c2 := v_c2 r, out_data := Some (d', pos + v_nchan r)\<rparr>)"
      using Some a False by (simp add: vr_output_def Let_def)
    then show ?thesis using wf Some a d'
      by (intro exI [of _ "v_c1 r", OF exI [of _ "v_c2 r", OF exI [of _ "Some (d', pos + v_nchan r)"]]])
        (auto simp: vr_wf_def)
  next
    case True
    obtain n where n: "d_uint (l_ph l) = Some n" "n < t_np t"
      using d_uint_phase [of "l_ph l"] l wf by (auto simp: vl_ok_def vr_wf_def)
    define b where "b = to_fmt f32 (fsub f64 (l_ph l) (d_nat n))"
    define w where "w = 2 * t_hl t + v_inmax r"
    obtain c1 c2 where c: "vr_coefs t n (fsub f32 d_one b) b (v_c1 r, v_c2 r) = Some (c1, c2)"
        "length c1 = t_hl t" "length c2 = t_hl t"
      using coefs_ok [OF wf n(2), of "v_c1 r" "v_c2 r" "fsub f32 d_one b" b] wf by (auto simp: vr_wf_def)
    have dot: "\<exists>s. vr_dot (t_hl t) (v_buff r) c1 c2 (l_p1 l + int j * int w) (l_p2 l + int j * int w) = Some s"
      if j: "j < v_nchan r" for j
    proof (rule dot_ok [OF c(2,3)])
      fix i assume i: "i < t_hl t"
      have len: "length (v_buff r) = v_nchan r * w" using wf by (simp add: vr_wf_def w_def)
      have "0 \<le> l_p1 l + int i" "l_p1 l + int i < int w" "0 \<le> l_p2 l - int i - 1" "l_p2 l - int i - 1 < int w"
        using l nr i by (auto simp: vl_ok_def w_def)
      then show "0 \<le> l_p1 l + int j * int w + int i \<and> l_p1 l + int j * int w + int i < int (length (v_buff r))"
        "0 \<le> l_p2 l + int j * int w - int i - 1 \<and> l_p2 l + int j * int w - int i - 1 < int (length (v_buff r))"
        using slot [OF j, of "l_p1 l + int i" w] slot [OF j, of "l_p2 l - int i - 1" w] unfolding len
        by (simp_all add: algebra_simps)
    qed
    let ?f = "\<lambda>j d. do {
        s \<leftarrow> vr_dot (t_hl t) (v_buff r) c1 c2 (l_p1 l + int j * int w) (l_p2 l + int j * int w);
        store_f32 d (pos + j) (fsub f32 s f_tiny) }"
    have "\<exists>d'. for_loop 0 (v_nchan r) ?f d = Some d' \<and> length d' = length d \<and> take (4 * pos) d' = take (4 * pos) d"
    proof (rule store_floats [OF _ fits])
      fix j e assume "j < v_nchan r"
      then obtain s where "vr_dot (t_hl t) (v_buff r) c1 c2 (l_p1 l + int j * int w) (l_p2 l + int j * int w) = Some s"
        using dot by blast
      then show "\<exists>s. ?f j e = store_f32 e (pos + j) s" by (intro exI [of _ "fsub f32 s f_tiny"]) simp
    qed
    then obtain d' where d': "for_loop 0 (v_nchan r) ?f d = Some d'"
        "length d' = length d" "take (4 * pos) d' = take (4 * pos) d" by blast
    have "vr_output t r l = Some (r\<lparr>v_c1 := c1, v_c2 := c2, out_data := Some (d', pos + v_nchan r)\<rparr>)"
      unfolding vr_output_def Let_def Some a option.case prod.case w_def [symmetric]
      using True n(1) c(1) d'(1) by (simp add: b_def)
    then show ?thesis using Some a d' c
      by (intro exI [of _ c1, OF exI [of _ c2, OF exI [of _ "Some (d', pos + v_nchan r)"]]]) auto
  qed
qed


section \<open>The phase\<close>

lemma absD: "\<bar>a - b\<bar> \<le> e \<Longrightarrow> a \<le> b + e \<and> b - e \<le> a" for a b e :: rat
  by linarith

lemma absI: "a \<le> e \<Longrightarrow> - e \<le> a \<Longrightarrow> \<bar>a\<bar> \<le> e" for a e :: rat
  by linarith

lemma abs_leD: "\<bar>a\<bar> \<le> e \<Longrightarrow> a \<le> e \<and> - e \<le> a" for a e :: rat
  by linarith

lemma d_nat_exact: "n < 2 ^ 53 \<Longrightarrow> d_nat n = FNum False (of_nat n)"
  unfolding d_nat_def by (subst of_int_fl_exact) (auto simp: f64_def)

lemma dp_step_ok:
  assumes "vr_wf t r" and "dp_ok t d"
  shows "dp_ok t (vr_step_dp r d)" and "\<bar>fl_val (vr_step_dp r d) - fl_val (v_qstep r)\<bar> \<le> 3 / 1073741824"
proof -
  let ?q = "v_qstep r"
  define h where "h = (of_nat (t_hl t) :: rat)"
  have h: "8 \<le> h" "h \<le> 8192" using assms(1) by (simp_all add: vr_wf_def h_def)
  have q: "is_num ?q" "mag_ok ?q" "1 / 50 \<le> fl_val ?q" "fl_val ?q \<le> 30 * h"
    using assms(1) by (simp_all add: vr_wf_def qs_ok_def h_def)
  have d: "is_num d" "mag_ok d" "1 / 100 \<le> fl_val d" "fl_val d \<le> 60 * h"
    using assms(2) by (simp_all add: dp_ok_def h_def)
  have qd: "dp_ok t ?q" using q h by (auto simp: dp_ok_def h_def)
  let ?dd = "fsub f64 ?q d"
  have b1: "\<bar>fl_val ?q - fl_val d\<bar> \<le> 524288" using q d h by (intro absI) linarith+
  have dd: "near ?dd (fl_val ?q - fl_val d)" "mag_ok ?dd"
    using near_fsub [OF q(1) d(1)] b1 by auto
  have e1: "\<bar>fl_val ?dd - (fl_val ?q - fl_val d)\<bar> \<le> 1 / 1073741824"
    using dd(1) b1 by (simp add: near_def)
  let ?mm = "fmul f64 (v_wstep r) ?dd"
  have w: "v_wstep r = FNum False 1" using assms(1) by (simp add: vr_wf_def d_one_def)
  have b2: "\<bar>fl_val ?dd\<bar> \<le> 1048576" using absD [OF e1] abs_leD [OF b1] by (intro absI) linarith+
  have mm: "near ?mm (fl_val ?dd)" "mag_ok ?mm"
    using near_fmul [of "v_wstep r" ?dd] dd b2 near_is_num [OF dd(1)] unfolding w by auto
  have e2: "\<bar>fl_val ?mm - fl_val ?dd\<bar> \<le> 1 / 1073741824" using mm(1) b2 by (simp add: near_def)
  have b3: "\<bar>fl_val ?mm\<bar> \<le> 2097152" using absD [OF e2] abs_leD [OF b2] by (intro absI) linarith+
  let ?s = "fadd f64 d ?mm"
  have b4: "\<bar>fl_val d + fl_val ?mm\<bar> \<le> 4194304" using abs_leD [OF b3] d h by (intro absI) linarith+
  have s: "near ?s (fl_val d + fl_val ?mm)" "mag_ok ?s"
    using near_fadd [OF d(1) near_is_num [OF mm(1)]] b4 by auto
  have e3: "\<bar>fl_val ?s - (fl_val d + fl_val ?mm)\<bar> \<le> 1 / 1073741824" using s(1) b4 by (simp add: near_def)
  have sq: "fl_val ?s \<le> fl_val ?q + 3 / 1073741824" "fl_val ?q - 3 / 1073741824 \<le> fl_val ?s"
    using absD [OF e1] absD [OF e2] absD [OF e3] by linarith+
  then have "\<bar>fl_val ?s - fl_val ?q\<bar> \<le> 3 / 1073741824" by (intro absI) linarith+
  then show "\<bar>fl_val (vr_step_dp r d) - fl_val ?q\<bar> \<le> 3 / 1073741824" by (simp add: vr_step_dp_def Let_def)
  from sq have "1 / 100 \<le> fl_val ?s" "fl_val ?s \<le> 60 * h" using q(3,4) h(1) by linarith+
  then have "dp_ok t ?s" using s near_is_num [OF s(1)] by (simp add: dp_ok_def h_def)
  then show "dp_ok t (vr_step_dp r d)" using qd by (simp add: vr_step_dp_def Let_def)
qed

text \<open>
  The phase after a step: either it is still below the number of phases, or taking off the whole
  multiples counted by the rounded division leaves it there, and at most half the filter length of
  input is asked for.
\<close>

lemma phase_step:
  assumes wf: "vr_wf t r" and ph: "ph_ok x" and dp: "dp_ok t d"
  defines "y \<equiv> fadd f64 x d"
  shows "is_num y \<and> \<bar>fl_val y - (fl_val x + fl_val d)\<bar> \<le> 1 / 1073741824 \<and> (if flt y (d_nat (t_np t)) then ph_ok y
    else \<exists>nr. d_uint (d_floor (fdiv f64 y (d_nat (t_np t)))) = Some nr \<and> nr \<le> t_hl t \<and>
      ph_ok (fsub f64 y (of_int_fl f64 (int nr * int (t_np t)))) \<and>
      fl_val (fsub f64 y (of_int_fl f64 (int nr * int (t_np t)))) = fl_val y - 120 * of_nat nr)"
proof -
  define h where "h = (of_nat (t_hl t) :: rat)"
  have h: "8 \<le> h" "h \<le> 8192" using wf by (simp_all add: vr_wf_def h_def)
  have np: "t_np t = 120" using wf by (simp add: vr_wf_def NPHASE_def)
  have npd: "d_nat (t_np t) = FNum False 120" using d_nat_exact [of 120] np by simp
  have x: "is_num x" "- (1 / 2) \<le> fl_val x" "fl_val x < 120" using ph by (simp_all add: ph_ok_def NPHASE_def)
  have d: "is_num d" "1 / 100 \<le> fl_val d" "fl_val d \<le> 60 * h" using dp by (simp_all add: dp_ok_def h_def)
  let ?v = "fl_val x + fl_val d"
  have b: "\<bar>?v\<bar> \<le> 524288" using x d h by (intro absI) linarith+
  have y: "near y ?v" "mag_ok y" using near_fadd [OF x(1) d(1)] b unfolding y_def by auto
  have num: "is_num y" by (rule near_is_num [OF y(1)])
  have ey: "\<bar>fl_val y - ?v\<bar> \<le> 1 / 1073741824" using y(1) b by (simp add: near_def)
  show ?thesis
  proof (cases "flt y (d_nat (t_np t))")
    case True
    then have lt: "fl_val y < 120" using num npd by simp
    have "- (1 / 2) \<le> fl_val y" using absD [OF ey] x(2) d(2) by linarith
    then show ?thesis using True num y(2) lt ey by (simp add: ph_ok_def NPHASE_def)
  next
    case False
    then have ge: "120 \<le> fl_val y" using num npd by simp
    obtain m where m: "y = FNum False m" using num y(2) ge by (cases y) (auto split: if_splits)
    have m1: "120 \<le> m" "m \<le> 1048576" using ge absD [OF ey] abs_leD [OF b] unfolding m fl_val.simps if_False by linarith+
    have "0 < ?v" using ge absD [OF ey] by linarith
    then have yr: "rnd f64 False ?v = FNum False m"
      using x(1) d(1) m unfolding y_def by (cases x; cases d) (auto simp: Let_def)
    have v: "0 < ?v" "?v < 2 ^ 53" using \<open>0 < ?v\<close> abs_leD [OF b] by simp_all
    obtain zv where z: "rnd f64 False (m / 120) = FNum False zv" "0 \<le> zv" "\<bar>zv - m / 120\<bar> \<le> (m / 120 + 1) / 2 ^ 53"
      using rnd_f64 [of "m / 120" False] m1 by auto
    have zd: "fdiv f64 y (d_nat (t_np t)) = FNum False zv" using z(1) m npd by simp
    have ez: "\<bar>zv - m / 120\<bar> \<le> 1 / 1073741824" using z(3) m1 by simp
    define nr where "nr = nat \<lfloor>zv\<rfloor>"
    have nr: "of_nat nr \<le> zv" "zv < of_nat nr + 1" using z(2) floor_correct [of zv] by (simp_all add: nr_def)
    have zb: "zv < 1073741824" using absD [OF ez] m1 by linarith
    have du: "d_uint (d_floor (fdiv f64 y (d_nat (t_np t)))) = Some nr"
      using zb by (simp add: zd nr_def)
    have "m / 120 < of_int (int nr + 1)"
    proof (rule ccontr)
      assume "\<not> ?thesis"
      then have "of_int (int nr + 1) \<le> zv" using m1 by (intro rnd_f64_int(1) [OF z(1)]) auto
      then show False using nr(2) by simp
    qed
    then have up: "m - of_nat (nr * 120) < 120" by simp
    have lo: "- (1 / 2) \<le> m - of_nat (nr * 120)" using nr(1) absD [OF ez] by simp
    have "fl_val y \<le> 120 + 60 * h + 1 / 1073741824" using absD [OF ey] x(3) d(3) by linarith
    then have "zv \<le> h" using absD [OF ez] h(1) unfolding m fl_val.simps if_False by linarith
    then have hl: "nr \<le> t_hl t" using nr(1) unfolding h_def by (metis of_nat_le_iff order_trans)
    have ki: "of_int_fl f64 (int nr * int (t_np t)) = FNum False (of_nat (nr * 120))"
    proof -
      have "nr * 120 \<le> 8192 * 120" using hl wf by (intro mult_right_mono) (auto simp: vr_wf_def)
      then show ?thesis using d_nat_exact [of "nr * 120"] np by (simp add: d_nat_def)
    qed
    have ex: "exact_mag f64 \<bar>m - of_nat (nr * 120)\<bar>"
      using rnd_f64_sub_int [OF yr v, of "int (nr * 120)"] up lo m1 by (simp add: abs_less_iff)
    let ?w = "fsub f64 y (of_int_fl f64 (int nr * int (t_np t)))"
    have w: "is_num ?w \<and> mag_ok ?w \<and> fl_val ?w = m - of_nat (nr * 120)"
      unfolding ki m fsub_def using rnd_exact [OF ex] by (auto simp: Let_def f64_def)
    then have "ph_ok ?w" using up lo by (simp add: ph_ok_def NPHASE_def)
    moreover have "fl_val ?w = fl_val y - 120 * of_nat nr" using w unfolding m by simp
    ultimately show ?thesis using False num du hl ey by auto
  qed
qed


section \<open>The whole call\<close>

text \<open>
  What counts the frames: the frames asked for less those still offered, in phases, and the phase.
  Reading a frame keeps it, and every output frame adds the target step up to rounding.
\<close>

definition phase_total :: "vresampler \<Rightarrow> vr_locals \<Rightarrow> rat" where
  "phase_total r l = 120 * (of_nat (l_nr l) - of_nat (inp_count r)) + fl_val (l_ph l)"

lemma advance_ok:
  assumes wf: "vr_wf t r" and l: "vl_ok t r l" and nr0: "l_nr l = 0"
  shows "\<exists>b l'. vr_advance t r l = Some (r\<lparr>v_buff := b\<rparr>, l') \<and> length b = length (v_buff r) \<and> vl_ok t r l' \<and>
    \<bar>phase_total r l' - phase_total r l - fl_val (v_qstep r)\<bar> \<le> 1 / 2 ^ 28"
proof -
  let ?dp = "vr_step_dp r (l_dp l)"
  let ?y = "fadd f64 (l_ph l) ?dp"
  have dp: "dp_ok t ?dp" "\<bar>fl_val ?dp - fl_val (v_qstep r)\<bar> \<le> 3 / 1073741824"
    using dp_step_ok [OF wf] l by (simp_all add: vl_ok_def)
  have ph: "ph_ok (l_ph l)" using l by (simp add: vl_ok_def)
  note step = phase_step [OF wf ph dp(1)]
  have "\<bar>fl_val ?y - (fl_val (l_ph l) + fl_val ?dp)\<bar> \<le> 1 / 1073741824" using step by blast
  from absD [OF this] absD [OF dp(2)]
  have yq: "\<bar>fl_val ?y - fl_val (l_ph l) - fl_val (v_qstep r)\<bar> \<le> 1 / 2 ^ 28" by (intro absI) (simp; linarith)+
  show ?thesis
  proof (cases "flt ?y (d_nat (t_np t))")
    case True
    then have "vr_advance t r l = Some (r\<lparr>v_buff := v_buff r\<rparr>, l\<lparr>l_ph := ?y, l_dp := ?dp\<rparr>)"
      by (simp add: vr_advance_def Let_def)
    moreover have "vl_ok t r (l\<lparr>l_ph := ?y, l_dp := ?dp\<rparr>)"
      using True step l dp(1) by (simp add: vl_ok_def)
    moreover have "\<bar>phase_total r (l\<lparr>l_ph := ?y, l_dp := ?dp\<rparr>) - phase_total r l - fl_val (v_qstep r)\<bar> \<le> 1 / 2 ^ 28"
      using yq nr0 by (simp add: phase_total_def)
    ultimately show ?thesis by blast
  next
    case False
    then obtain nr where nr: "d_uint (d_floor (fdiv f64 ?y (d_nat (t_np t)))) = Some nr" "nr \<le> t_hl t"
        "ph_ok (fsub f64 ?y (of_int_fl f64 (int nr * int (t_np t))))"
        "fl_val (fsub f64 ?y (of_int_fl f64 (int nr * int (t_np t)))) = fl_val ?y - 120 * of_nat nr"
      using step by auto
    have nan: "?y \<noteq> FNaN" using step by auto
    have hl: "t_hl t \<le> 8192" "t_np t = 120" "v_inmax r \<le> 4096" using wf by (simp_all add: vr_wf_def NPHASE_def)
    have ci: "c_int (int nr * int (t_np t)) = Some (int nr * int (t_np t))"
      using nr(2) hl by (simp add: c_int_def)
    let ?ph = "fsub f64 ?y (of_int_fl f64 (int nr * int (t_np t)))"
    have inx: "u32_mod (l_in l + nr) = l_in l + nr" using l nr(2) hl by (simp add: u32_mod_def vl_ok_def)
    let ?l = "l\<lparr>l_ph := ?ph, l_dp := ?dp, l_nr := nr, l_in := l_in l + nr, l_p1 := l_p1 l + int nr\<rparr>"
    have pt: "\<bar>phase_total r ?l - phase_total r l - fl_val (v_qstep r)\<bar> \<le> 1 / 2 ^ 28"
      using yq nr0 nr(4) by (simp add: phase_total_def algebra_simps)
    show ?thesis
    proof (cases "v_inmax r \<le> l_in l + nr")
      case small: False
      have "vr_advance t r l = Some (r\<lparr>v_buff := v_buff r\<rparr>, ?l)"
        using False nan small by (simp add: vr_advance_def Let_def nr(1) ci inx)
      moreover have "vl_ok t r ?l"
        using l nr(2,3) dp(1) small nr0 by (simp add: vl_ok_def)
      ultimately show ?thesis using pt by blast
    next
      case True
      let ?n = "2 * int (t_hl t) - int nr"
      define w where "w = 2 * t_hl t + v_inmax r"
      let ?f = "\<lambda>j b. if ?n < 0 then None else do {
          xs \<leftarrow> mem_load b (nat (l_p1 l + int nr + int (j * w))) (nat ?n);
          mem_store b (j * w) xs }"
      have len: "length (v_buff r) = v_nchan r * w" using wf by (simp add: vr_wf_def w_def)
      have body: "\<exists>b'. ?f j b = Some b' \<and> length b' = length b"
        if j: "j < v_nchan r" and b: "length b = v_nchan r * w" for j b
      proof -
        have jw: "j * w + w \<le> v_nchan r * w"
          using mult_le_mono1 [of "Suc j" "v_nchan r" w] j by simp
        have p: "nat (l_p1 l + int nr + int (j * w)) = l_in l + nr + j * w" "nat ?n = 2 * t_hl t - nr"
          using l nr(2) by (simp_all add: vl_ok_def nat_eq_iff)
        have n0: "\<not> ?n < 0" using nr(2) by simp
        have "l_in l + nr + j * w + (2 * t_hl t - nr) \<le> length b"
          using l nr(2) jw b unfolding w_def by (simp add: vl_ok_def)
        moreover have "j * w + (2 * t_hl t - nr) \<le> length b" using jw b w_def by simp
        ultimately show ?thesis using n0 unfolding p by (simp add: mem)
      qed
      have "\<exists>b. for_loop 0 (v_nchan r) ?f (v_buff r) = Some b \<and> length b = v_nchan r * w"
      proof (rule for_loop_inv [where P = "\<lambda>_ b. length b = v_nchan r * w"], goal_cases)
        case 1
        show ?case by (rule len)
      next
        case (2 k b)
        have k: "k < v_nchan r" using 2(2) by simp
        show ?case using body [OF k 2(3)] unfolding 2(3) .
      qed
      then obtain b where b: "for_loop 0 (v_nchan r) ?f (v_buff r) = Some b" "length b = length (v_buff r)"
        using len by auto
      have "vr_advance t r l = Some (r\<lparr>v_buff := b\<rparr>, ?l\<lparr>l_in := 0, l_p1 := 0, l_p2 := ?n\<rparr>)"
        unfolding vr_advance_def Let_def w_def [symmetric]
        using False nan True b(1) by (simp add: nr(1) ci inx)
      moreover have "vl_ok t r (?l\<lparr>l_in := 0, l_p1 := 0, l_p2 := ?n\<rparr>)"
        using l nr(2,3) dp(1) by (auto simp: vl_ok_def)
      moreover have "phase_total r (?l\<lparr>l_in := 0, l_p1 := 0, l_p2 := ?n\<rparr>) = phase_total r ?l" by (simp add: phase_total_def)
      ultimately show ?thesis using b(2) pt by (intro exI conjI) (assumption | simp)+
    qed
  qed
qed

lemma loop_ok:
  assumes "vr_wf t r" and "vl_ok t r l" and "room (inp_data r) (v_nchan r * inp_count r)"
    and "room (out_data r) (v_nchan r * oc)"
  shows "\<exists>r' l'. vr_loop oc t r l = Some (r', l') \<and> vr_wf t r' \<and> vl_ok t r' l' \<and>
    v_nchan r' = v_nchan r \<and> inp_count r' \<le> inp_count r \<and> out_count r' \<le> oc \<and>
    moved (inp_data r) (v_nchan r * (inp_count r - inp_count r')) (inp_data r') \<and>
    moved (out_data r) (v_nchan r * (oc - out_count r')) (out_data r') \<and>
    (inp_count r' = 0 \<or> out_count r' = 0) \<and> v_qstep r' = v_qstep r \<and>
    \<bar>phase_total r' l' - phase_total r l - (of_nat oc - of_nat (out_count r')) * fl_val (v_qstep r)\<bar> \<le>
      (of_nat oc - of_nat (out_count r')) / 2 ^ 28"
  using assms
proof (induction oc arbitrary: r l)
  case 0
  then have "vr_wf t (r\<lparr>out_count := 0\<rparr>)" "vl_ok t (r\<lparr>out_count := 0\<rparr>) l"
    by (simp_all add: vr_wf_def vl_ok_def)
  then show ?case by (simp add: phase_total_def)
next
  case (Suc oc)
  obtain r1 l1 where f: "vr_fill t r l = Some (r1, l1)" "vr_wf t r1" "vl_ok t r1 l1" "v_nchan r1 = v_nchan r"
      "out_data r1 = out_data r" "inp_count r1 \<le> inp_count r"
      "moved (inp_data r) (v_nchan r * (inp_count r - inp_count r1)) (inp_data r1)"
      "l_nr l1 = 0 \<or> inp_count r1 = 0"
      "l_nr l1 + inp_count r = l_nr l + inp_count r1" "l_ph l1 = l_ph l" "v_qstep r1 = v_qstep r"
    using fill_ok [OF Suc.prems(1-3)] by blast
  have "of_nat (l_nr l1 + inp_count r) = (of_nat (l_nr l + inp_count r1) :: rat)" by (simp only: f(9))
  then have pt1: "phase_total r1 l1 = phase_total r l" using f(10) by (simp add: phase_total_def)
  show ?case
  proof (cases "l_nr l1 = 0")
    case False
    have "vr_wf t (r1\<lparr>out_count := Suc oc\<rparr>)" "vl_ok t (r1\<lparr>out_count := Suc oc\<rparr>) l1"
      using f(2,3) by (simp_all add: vr_wf_def vl_ok_def)
    moreover have "phase_total (r1\<lparr>out_count := Suc oc\<rparr>) l1 = phase_total r l" using pt1 by (simp add: phase_total_def)
    ultimately show ?thesis using False f by simp
  next
    case nr: True
    have rm: "room (out_data r1) (v_nchan r1)"
      using room_mono [OF Suc.prems(4)] f(4,5) by simp
    obtain c1 c2 op where o: "vr_output t r1 l1 = Some (r1\<lparr>v_c1 := c1, v_c2 := c2, out_data := op\<rparr>)"
        "length c1 = t_hl t" "length c2 = t_hl t" "moved (out_data r1) (v_nchan r1) op"
      using output_ok [OF f(2,3) nr rm] by blast
    let ?r2 = "r1\<lparr>v_c1 := c1, v_c2 := c2, out_data := op\<rparr>"
    have w2: "vr_wf t ?r2" and l2: "vl_ok t ?r2 l1" using f(2,3) o(2,3) by (simp_all add: vr_wf_def vl_ok_def)
    obtain b l3 where a: "vr_advance t ?r2 l1 = Some (?r2\<lparr>v_buff := b\<rparr>, l3)" "length b = length (v_buff ?r2)"
        "vl_ok t ?r2 l3" "\<bar>phase_total ?r2 l3 - phase_total ?r2 l1 - fl_val (v_qstep ?r2)\<bar> \<le> 1 / 2 ^ 28"
      using advance_ok [OF w2 l2 nr] by blast
    let ?r3 = "?r2\<lparr>v_buff := b\<rparr>"
    have w3: "vr_wf t ?r3" and l3: "vl_ok t ?r3 l3" using w2 a(2,3) by (simp_all add: vr_wf_def vl_ok_def)
    have ri: "room (inp_data ?r3) (v_nchan ?r3 * inp_count ?r3)"
    proof -
      have "v_nchan r * inp_count r = v_nchan r * (inp_count r - inp_count r1) + v_nchan r * inp_count r1"
        using f(6) by (simp flip: distrib_left)
      then show ?thesis using moved_room [OF f(7)] Suc.prems(3) f(4) by simp
    qed
    have ro: "room (out_data ?r3) (v_nchan ?r3 * oc)"
      using moved_room [OF o(4), of "v_nchan r1 * oc"] Suc.prems(4) f(4,5) by simp
    obtain r' l' where IH: "vr_loop oc t ?r3 l3 = Some (r', l')" "vr_wf t r'" "vl_ok t r' l'"
        "v_nchan r' = v_nchan ?r3" "inp_count r' \<le> inp_count ?r3" "out_count r' \<le> oc"
        "moved (inp_data ?r3) (v_nchan ?r3 * (inp_count ?r3 - inp_count r')) (inp_data r')"
        "moved (out_data ?r3) (v_nchan ?r3 * (oc - out_count r')) (out_data r')"
        "inp_count r' = 0 \<or> out_count r' = 0" "v_qstep r' = v_qstep ?r3"
        "\<bar>phase_total r' l' - phase_total ?r3 l3 - (of_nat oc - of_nat (out_count r')) * fl_val (v_qstep ?r3)\<bar> \<le>
          (of_nat oc - of_nat (out_count r')) / 2 ^ 28"
      using Suc.IH [OF w3 l3 ri ro] by blast
    have q: "v_qstep ?r3 = v_qstep r" "v_qstep ?r2 = v_qstep r" using f(11) by simp_all
    have pts: "phase_total ?r3 l3 = phase_total ?r2 l3" "phase_total ?r2 l1 = phase_total r l"
      using pt1 by (simp_all add: phase_total_def)
    have "(of_nat (Suc oc) - of_nat (out_count r')) * fl_val (v_qstep r) =
        (of_nat oc - of_nat (out_count r')) * fl_val (v_qstep r) + fl_val (v_qstep r)"
      "(of_nat (Suc oc) - of_nat (out_count r')) / (2 ^ 28 :: rat) = (of_nat oc - of_nat (out_count r')) / 2 ^ 28 + 1 / 2 ^ 28"
      by (simp_all add: algebra_simps add_divide_distrib diff_divide_distrib)
    note sums = this
    have law: "\<bar>phase_total r' l' - phase_total r l - (of_nat (Suc oc) - of_nat (out_count r')) * fl_val (v_qstep r)\<bar> \<le>
        (of_nat (Suc oc) - of_nat (out_count r')) / 2 ^ 28"
      unfolding sums using abs_leD [OF IH(11) [unfolded q]] abs_leD [OF a(4) [unfolded q]] unfolding pts
      by (intro absI) linarith+
    have "vr_loop (Suc oc) t r l = Some (r', l')" using f(1) nr o(1) a(1) IH(1) by simp
    moreover have "moved (inp_data r) (v_nchan r * (inp_count r - inp_count r')) (inp_data r')"
    proof -
      have "v_nchan r * (inp_count r - inp_count r1) + v_nchan r * (inp_count r1 - inp_count r') =
          v_nchan r * (inp_count r - inp_count r')"
        using f(6) IH(5) by (simp flip: distrib_left)
      moreover have "moved (inp_data r1) (v_nchan r * (inp_count r1 - inp_count r')) (inp_data r')"
        using IH(7) f(4) by simp
      ultimately show ?thesis using moved_trans [OF f(7)] by metis
    qed
    moreover have "moved (out_data r) (v_nchan r * (Suc oc - out_count r')) (out_data r')"
    proof -
      have "Suc oc - out_count r' = Suc (oc - out_count r')" using IH(6) by simp
      then show ?thesis using moved_trans [OF o(4)] IH(8) f(4,5) by simp
    qed
    ultimately show ?thesis using IH(2-6,9,10) law f(4,6,11) by (intro exI conjI) (assumption | simp)+
  qed
qed

lemma process_ok:
  assumes ok: "vr_ok t r" and "room (inp_data r) (v_nchan r * inp_count r)"
    and "room (out_data r) (v_nchan r * out_count r)"
  shows "\<exists>r'. vr_process r = Some (r', 0) \<and> vr_ok t r' \<and> v_nchan r' = v_nchan r \<and>
    inp_count r' \<le> inp_count r \<and> out_count r' \<le> out_count r \<and>
    moved (inp_data r) (v_nchan r * (inp_count r - inp_count r')) (inp_data r') \<and>
    moved (out_data r) (v_nchan r * (out_count r - out_count r')) (out_data r') \<and>
    (inp_count r' = 0 \<or> out_count r' = 0) \<and> v_qstep r' = v_qstep r \<and> v_table r' = v_table r \<and>
    \<bar>120 * of_int (int (inp_count r - inp_count r') + int (v_nread r') - int (v_nread r)) + fl_val (v_phase r') -
      fl_val (v_phase r) - of_nat (out_count r - out_count r') * fl_val (v_qstep r)\<bar> \<le>
      of_nat (out_count r - out_count r') / 2 ^ 28"
proof -
  let ?l = "\<lparr>l_in = v_index r, l_nr = v_nread r, l_nz = v_nzero r, l_ph = v_phase r,
    l_dp = v_pstep r, l_p1 = int (v_index r), l_p2 = int (v_index r) + 2 * int (t_hl t) - int (v_nread r)\<rparr>"
  have wf: "vr_wf t r" and l: "vl_ok t r ?l" using ok by (simp_all add: vr_ok_def vl_ok_def)
  obtain r' l' where r': "vr_loop (out_count r) t r ?l = Some (r', l')" "vr_wf t r'" "vl_ok t r' l'"
    "v_nchan r' = v_nchan r" "inp_count r' \<le> inp_count r" "out_count r' \<le> out_count r"
    "moved (inp_data r) (v_nchan r * (inp_count r - inp_count r')) (inp_data r')"
    "moved (out_data r) (v_nchan r * (out_count r - out_count r')) (out_data r')"
    "inp_count r' = 0 \<or> out_count r' = 0" "v_qstep r' = v_qstep r"
    "\<bar>phase_total r' l' - phase_total r ?l - (of_nat (out_count r) - of_nat (out_count r')) * fl_val (v_qstep r)\<bar> \<le>
      (of_nat (out_count r) - of_nat (out_count r')) / 2 ^ 28"
    using loop_ok [OF wf l assms(2,3)] by blast
  have law: "\<bar>120 * of_int (int (inp_count r - inp_count r') + int (l_nr l') - int (v_nread r)) + fl_val (l_ph l') -
      fl_val (v_phase r) - of_nat (out_count r - out_count r') * fl_val (v_qstep r)\<bar> \<le>
      of_nat (out_count r - out_count r') / 2 ^ 28"
  proof -
    have ic: "(of_nat (inp_count r - inp_count r') :: rat) = of_nat (inp_count r) - of_nat (inp_count r')"
      using r'(5) by (simp add: of_nat_diff)
    have oc: "of_nat (out_count r - out_count r') = (of_nat (out_count r) - of_nat (out_count r') :: rat)"
      using r'(6) by (simp add: of_nat_diff)
    have "phase_total r' l' - phase_total r ?l =
        120 * of_int (int (inp_count r - inp_count r') + int (l_nr l') - int (v_nread r)) + fl_val (l_ph l') - fl_val (v_phase r)"
      unfolding phase_total_def vr_locals.simps of_int_add of_int_diff of_int_of_nat_eq ic
      by (simp only: right_diff_distrib distrib_left)
    with r'(11) show ?thesis by (simp only: oc)
  qed
  let ?r = "r'\<lparr>v_index := l_in l', v_nread := l_nr l', v_phase := l_ph l', v_pstep := l_dp l', v_nzero := l_nz l'\<rparr>"
  have "v_table r = Some t" using wf by (simp add: vr_wf_def)
  then have "vr_process r = Some (?r, 0)" using r'(1) by (simp add: vr_process_def)
  moreover have "vr_ok t ?r" using r'(2,3) by (simp add: vr_ok_def vr_wf_def vl_ok_def)
  moreover have "v_table ?r = v_table r" using r'(2) wf by (simp add: vr_wf_def)
  ultimately show ?thesis using r'(4-10) law by (intro exI [of _ ?r]) simp
qed


section \<open>Setting up and changing the ratio\<close>

lemma set_rratio_ok:
  assumes ok: "vr_ok t r" and x: "x \<noteq> FNaN" "mag_ok x"
  shows "vr_ok t (vr_set_rratio r x)" and "v_nchan (vr_set_rratio r x) = v_nchan r"
proof -
  have wf: "vr_wf t r" using ok by (simp add: vr_ok_def)
  have t: "v_table r = Some t" "t_np t = 120" "8 \<le> t_hl t" using wf by (simp_all add: vr_wf_def NPHASE_def)
  define v where "v = fl_val (v_ratio r)"
  define h where "h = (of_nat (t_hl t) :: rat)"
  have h8: "8 \<le> h" using t(3) by (simp add: h_def)
  have ro: "is_num (v_ratio r)" "mag_ok (v_ratio r)" "1 / 64 \<le> v" "v \<le> 256" "7 \<le> h * v"
    using wf by (simp_all add: vr_wf_def ratio_ok_def v_def h_def)
  let ?lo = "lit f64 (95 / 100)"
  have lo: "near ?lo (95 / 100)" "mag_ok ?lo" by (rule near_lit mag_ok_lit, simp)+
  have lov: "94 / 100 \<le> fl_val ?lo" "fl_val ?lo \<le> 96 / 100" using near_bounds [OF lo(1)] by simp_all
  have hi: "d_nat 16 = FNum False 16" using d_nat_exact [of 16] by simp
  define z where "z = (let x = (if flt (d_nat 16) x then d_nat 16 else x) in if flt x ?lo then ?lo else x)"
  have z: "is_num z" "mag_ok z" "94 / 100 \<le> fl_val z" "fl_val z \<le> 16"
    using clamp_ok [OF x near_is_num [OF lo(1)] lo(2), of "d_nat 16" z] lov z_def unfolding hi by auto
  let ?p = "fmul f64 (v_ratio r) z"
  define w where "w = v * fl_val z"
  have w: "94 / 6400 \<le> w" "w \<le> 4096" "94 / 100 * v \<le> w"
  proof -
    have "1 / 64 * (94 / 100) \<le> v * fl_val z" using ro z by (intro mult_mono) auto
    moreover have "v * fl_val z \<le> 256 * 16" using ro z by (intro mult_mono) auto
    moreover have "v * (94 / 100) \<le> v * fl_val z" using ro z by (intro mult_left_mono) auto
    ultimately show "94 / 6400 \<le> w" "w \<le> 4096" "94 / 100 * v \<le> w" by (simp_all add: w_def mult.commute)
  qed
  have p: "near ?p w" "mag_ok ?p" using near_fmul [OF ro(1) z(1) ro(2) z(2)] w unfolding w_def v_def by auto
  have pv: "w - 1 / 1000000 \<le> fl_val ?p" "fl_val ?p \<le> w + 1 / 1000000"
    using near_micro [OF p(1)] w by simp_all
  have n: "d_nat (t_np t) = FNum False 120" using d_nat_exact [of 120] t by simp
  let ?q = "fdiv f64 (d_nat (t_np t)) ?p"
  have pp: "1 / 100 \<le> fl_val ?p" "fl_val ?p \<le> 4097" using pv w by linarith+
  have q1: "120 / 4097 \<le> 120 / fl_val ?p" using pp by (intro divide_left_mono) auto
  have q3: "120 / fl_val ?p \<le> 12000" using pp by (simp add: divide_le_eq)
  have q2: "120 / fl_val ?p \<le> 20 * h"
  proof -
    have "90 / 100 * v \<le> fl_val ?p" using pv w(3) ro(3) by linarith
    then have "h * (90 / 100 * v) \<le> h * fl_val ?p" by (intro mult_left_mono) (auto simp: h_def)
    then have "120 \<le> 20 * h * fl_val ?p" using ro(5) by linarith
    then show ?thesis using pp by (simp add: divide_le_eq)
  qed
  have q: "near ?q (120 / fl_val ?p)" "mag_ok ?q"
    using near_fdiv [of "d_nat (t_np t)" ?p] near_is_num [OF p(1)] p(2) pp q1 q3 unfolding n by auto
  have "1 / 50 \<le> fl_val ?q" "fl_val ?q \<le> 30 * h"
    using near_micro [OF q(1)] q1 q2 q3 h8 by simp_all
  then have "qs_ok t ?q" using near_is_num [OF q(1)] q(2) by (simp add: qs_ok_def h_def)
  then show "vr_ok t (vr_set_rratio r x)" "v_nchan (vr_set_rratio r x) = v_nchan r"
    using ok t(1) by (simp_all add: vr_set_rratio_def z_def [unfolded Let_def] vr_ok_def vr_wf_def Let_def)
qed

text \<open>
  The contract of the table source that \<open>setup\<close> relies on: the table has the size asked for.
\<close>

definition table_shape :: "resampler_table \<Rightarrow> nat \<Rightarrow> nat \<Rightarrow> bool" where
  "table_shape t hl np \<longleftrightarrow> t_hl t = hl \<and> t_np t = np \<and> length (t_ctab t) = hl * (np + 1)"

lemma rounded_up:
  assumes "near z v" and "mag_ok z" and "1 \<le> v" and "v \<le> 100000"
  shows "\<exists>n. d_uint (d_ceil z) = Some n \<and> v - 1 / 1000000 \<le> of_nat n \<and> of_nat n < v + 1 + 1 / 1000000"
proof -
  note e = near_micro [OF assms(1)]
  obtain s m where z: "z = FNum s m" "0 \<le> m" using assms(1,2) by (cases z) (auto simp: near_def)
  have ns: "\<not> s" using e assms(3,4) z by (cases s) auto
  have m: "v - 1 / 1000000 \<le> m" "m \<le> v + 1 / 1000000" using e assms(3,4) z ns by auto
  have c: "of_int \<lceil>m\<rceil> < m + 1" "m \<le> of_int \<lceil>m\<rceil>" using ceiling_correct [of m] by linarith+
  have p: "0 < \<lceil>m\<rceil>" using m(1) assms(3) by (simp add: less_ceiling_iff)
  have n: "of_nat (nat \<lceil>m\<rceil>) = (of_int \<lceil>m\<rceil> :: rat)" using p by simp
  have "of_int \<lceil>m\<rceil> < (4294967296 :: rat)" using c(1) m(2) assms(4) by linarith
  then have "d_uint (d_ceil z) = Some (nat \<lceil>m\<rceil>)" using z ns by simp
  moreover have "v - 1 / 1000000 \<le> of_nat (nat \<lceil>m\<rceil>)" "of_nat (nat \<lceil>m\<rceil>) < v + 1 + 1 / 1000000"
    unfolding n using c m by linarith+
  ultimately show ?thesis by blast
qed

locale table_source =
  fixes create :: "fl \<Rightarrow> nat \<Rightarrow> nat \<Rightarrow> resampler_table"
  assumes shape: "table_shape (create fr hl np) hl np"
begin

lemma setup_frel_ok:
  assumes nchan: "0 < nchan" "nchan \<le> 65536" and hlen: "8 \<le> hlen" "hlen \<le> 96"
    and ratio: "ratio = FNum False x" "1 / 64 \<le> x" "x \<le> 256" and al: "\<And>n. length (alloc n) = n"
  shows "\<exists>r' t. vr_setup_frel create alloc r ratio nchan hlen frel = Some (r', 0) \<and> vr_ok t r' \<and> v_nchan r' = nchan"
proof -
  have n: "d_nat k = FNum False (of_nat k)" if "k < 1000" for k using d_nat_exact [of k] that by simp
  have g1: "\<not> flt (fmul f64 (d_nat 64) ratio) d_one"
  proof -
    obtain v where v: "rnd f64 False (64 * x) = FNum False v" using rnd_f64 [of "64 * x" False] ratio by auto
    have "of_int 1 \<le> v" using ratio by (intro rnd_f64_int(1) [OF v]) auto
    then show ?thesis using v n [of 64] ratio(1) by (simp add: d_one_def)
  qed
  have g2: "\<not> flt (d_nat 256) ratio" using n [of 256] ratio by simp
  let ?dp = "fdiv f64 (d_nat NPHASE) ratio"
  have q120: "120 / 256 \<le> 120 / x" "120 / x \<le> 7680" using ratio by (simp_all add: field_simps)
  have dp: "near ?dp (120 / x)" "mag_ok ?dp"
    using near_fdiv [of "d_nat NPHASE" ratio] n [of NPHASE] q120 ratio by (auto simp: NPHASE_def)
  obtain frel' hl mi where sz: "(if flt ratio d_one then do {
             hl \<leftarrow> d_uint (d_ceil (fdiv f64 (d_nat hlen) ratio));
             mi \<leftarrow> d_uint (d_ceil (fdiv f64 (d_nat 32) ratio));
             Some (fmul f64 frel ratio, hl, mi) }
           else Some (frel, hlen, 32)) = Some (frel', hl, mi)"
      and hl: "8 \<le> hl" "hl \<le> 6146" "8 - 1 / 1000 \<le> of_nat hl * x" and mi: "0 < mi" "mi \<le> 2050"
  proof (cases "flt ratio d_one")
    case False
    then have "1 \<le> x" using ratio by (simp add: d_one_def)
    then have "8 * 1 \<le> of_nat hlen * x" using hlen by (intro mult_mono) auto
    then show thesis using that [of frel hlen 32] False hlen by simp
  next
    case True
    then have x1: "x < 1" using ratio by (simp add: d_one_def)
    have dv: "near (fdiv f64 (d_nat k) ratio) (of_nat k / x)" "mag_ok (fdiv f64 (d_nat k) ratio)"
      "of_nat k \<le> of_nat k / x" "of_nat k / x \<le> of_nat (k * 64)" if k: "8 \<le> k" "k \<le> 96" for k
    proof -
      have kb: "(8::rat) \<le> of_nat k" "of_nat k \<le> (96::rat)" using k by simp_all
      show a: "of_nat k \<le> of_nat k / x" using kb x1 ratio by (simp add: le_divide_eq)
      have "of_nat k * 1 \<le> of_nat k * (64 * x)" using kb ratio by (intro mult_left_mono) auto
      then show b: "of_nat k / x \<le> of_nat (k * 64)" using ratio by (simp add: divide_le_eq)
      have "\<bar>of_nat k / x\<bar> \<le> 2 ^ 500" using a b kb by (simp add: abs_le_iff)
      then show "near (fdiv f64 (d_nat k) ratio) (of_nat k / x)" "mag_ok (fdiv f64 (d_nat k) ratio)"
        using near_fdiv [of "d_nat k" ratio] n [of k] k ratio by auto
    qed
    have up: "\<exists>m. d_uint (d_ceil (fdiv f64 (d_nat k) ratio)) = Some m \<and> of_nat k / x - 1 / 1000000 \<le> of_nat m \<and>
        of_nat m < of_nat (k * 64) + 1 + 1 / (1000000 :: rat) \<and> k \<le> m" if k: "8 \<le> k" "k \<le> 96" for k
    proof -
      have kb: "(8::rat) \<le> of_nat k" "of_nat k \<le> (96::rat)" using k by simp_all
      obtain m where m: "d_uint (d_ceil (fdiv f64 (d_nat k) ratio)) = Some m"
          "of_nat k / x - 1 / 1000000 \<le> of_nat m" "of_nat m < of_nat k / x + 1 + 1 / 1000000"
        using rounded_up [OF dv(1,2) [OF k]] dv(3,4) [OF k] kb by auto
      have "of_nat k < (of_nat (Suc m) :: rat)" using m(2) dv(3) [OF k] by simp
      then have "k \<le> m" by (simp only: of_nat_less_iff)
      moreover have "of_nat m < of_nat (k * 64) + 1 + 1 / (1000000 :: rat)"
        using m(3) dv(4) [OF k] by linarith
      ultimately show ?thesis using m by blast
    qed
    obtain hl where h: "d_uint (d_ceil (fdiv f64 (d_nat hlen) ratio)) = Some hl"
        "of_nat hlen / x - 1 / 1000000 \<le> of_nat hl" "of_nat hl < of_nat (hlen * 64) + 1 + 1 / (1000000 :: rat)" "hlen \<le> hl"
      using up [OF hlen] by blast
    obtain mi where m: "d_uint (d_ceil (fdiv f64 (d_nat 32) ratio)) = Some mi"
        "of_nat mi < of_nat (32 * 64) + 1 + 1 / (1000000 :: rat)" "32 \<le> mi"
      using up [of 32] by auto
    have "(of_nat hl :: rat) < of_nat 6146" using h(3) hlen by simp
    then have hu: "hl \<le> 6146" by (simp only: of_nat_less_iff)
    have "(of_nat mi :: rat) < of_nat 2050" using m(2) by simp
    then have mu: "mi \<le> 2050" by (simp only: of_nat_less_iff)
    have "(of_nat hlen / x - 1 / 1000000) * x \<le> of_nat hl * x" using h(2) ratio by (intro mult_right_mono) auto
    moreover have "(of_nat hlen / x - 1 / 1000000) * x = of_nat hlen - x / 1000000"
      using ratio by (simp add: left_diff_distrib)
    ultimately have "8 - 1 / 1000 \<le> of_nat hl * x" using hlen x1 by simp
    then show thesis using that [of "fmul f64 frel ratio" hl mi] True h(1,4) m(1,3) hu mu hlen by simp
  qed
  let ?t = "create frel' hl NPHASE"
  have tt: "t_hl ?t = hl" "t_np ?t = NPHASE" "length (t_ctab ?t) = hl * (NPHASE + 1)"
    using shape [of frel' hl NPHASE] by (simp_all add: table_shape_def)
  have nb: "u32_mod (nchan * (2 * hl + mi)) = nchan * (2 * hl + mi)"
  proof -
    have "nchan * (2 * hl + mi) \<le> 65536 * (2 * 6146 + 2050)" using nchan hl mi by (intro mult_mono) auto
    then show ?thesis by (simp add: u32_mod_def)
  qed
  let ?r = "(vr_clear r)\<lparr>v_table := Some ?t, v_buff := alloc (nchan * (2 * hl + mi)), v_c1 := alloc hl,
    v_c2 := alloc hl, v_nchan := nchan, v_ratio := ratio, v_inmax := mi, v_pstep := ?dp, v_qstep := ?dp, v_wstep := d_one\<rparr>"
  have run: "vr_setup_frel create alloc r ratio nchan hlen frel = Some (vr_reset ?r)"
    unfolding vr_setup_frel_def Let_def sz using g1 g2 nchan hlen by (simp add: nb)
  have hx: "120 / x \<le> 16 * of_nat hl"
  proof -
    have "120 \<le> 16 * (of_nat hl * x)" using hl(3) by linarith
    then have "120 \<le> 16 * of_nat hl * x" by (simp only: mult.assoc)
    then show ?thesis using ratio by (simp add: divide_le_eq)
  qed
  have h8: "(8::rat) \<le> of_nat hl" using hl(1) by simp
  note e = near_micro [OF dp(1)]
  have "1 / 50 \<le> fl_val ?dp" "fl_val ?dp \<le> 30 * of_nat hl" using e q120 hx h8 by linarith+
  then have qs: "qs_ok ?t ?dp" "dp_ok ?t ?dp"
    using near_is_num [OF dp(1)] dp(2) h8 by (simp_all add: qs_ok_def dp_ok_def tt)
  have ro: "ratio_ok ?t ratio" using ratio hl(3) by (simp add: ratio_ok_def tt)
  have "vr_wf ?t (fst (vr_reset ?r))"
    using qs ro tt hl mi al by (simp add: vr_wf_def vr_reset_def)
  then have "vr_ok ?t (fst (vr_reset ?r))"
    using qs mi by (simp add: vr_ok_def vr_reset_def ph_ok_def d_zero_def NPHASE_def)
  moreover have "snd (vr_reset ?r) = 0" "v_nchan (fst (vr_reset ?r)) = nchan" by (simp_all add: vr_reset_def)
  ultimately show ?thesis using run by (metis prod.collapse)
qed

end

end
