(* ===== verification/Resampler_Table.thy ===== *)
theory Resampler_Table
  imports Vresampler_Safety "HOL-Library.Multiset"
begin

text \<open>
  The filter tables of the resampler, \<open>vban_common/zita-resampler/resampler-table.cc\<close>: their
  computation, and the list of shared, reference-counted tables. \<open>sin\<close> and \<open>cos\<close> of the C library
  are arguments. An address names a table in the list; a destroy of an address that is not there
  is an access to freed memory and is \<^const>\<open>None\<close>. The mutex makes each operation one step.
\<close>

section \<open>The table\<close>

definition M_PI :: fl where
  "M_PI = lit f64 (314159265358979323846 / 100000000000000000000)"

definition d_abs :: "fl \<Rightarrow> fl" where
  "d_abs x = (case x of FNum s m \<Rightarrow> FNum False m | FInf s \<Rightarrow> FInf False | FNaN \<Rightarrow> FNaN)"

definition fle :: "fl \<Rightarrow> fl \<Rightarrow> bool" where
  "fle x y \<longleftrightarrow> flt x y \<or> feq x y"

definition sinc :: "(fl \<Rightarrow> fl) \<Rightarrow> fl \<Rightarrow> fl" where
  "sinc sn x =
     (let x = d_abs x in
      if flt x (lit f64 (1 / 10 ^ 6)) then d_one
      else let x = fmul f64 x M_PI in fdiv f64 (sn x) x)"

definition wind :: "(fl \<Rightarrow> fl) \<Rightarrow> fl \<Rightarrow> fl" where
  "wind cs x =
     (let x = d_abs x in
      if fle d_one x then d_zero
      else let x = fmul f64 x M_PI in
        fadd f64 (fadd f64 (lit f64 (384 / 1000)) (fmul f64 (lit f64 (1 / 2)) (cs x)))
          (fmul f64 (lit f64 (116 / 1000)) (cs (fmul f64 (d_nat 2) x))))"

text \<open>A row for the phase \<open>t\<close>, computed from the last place to the first while \<open>t\<close> grows by one.\<close>

fun table_row :: "(fl \<Rightarrow> fl) \<Rightarrow> (fl \<Rightarrow> fl) \<Rightarrow> fl \<Rightarrow> nat \<Rightarrow> nat \<Rightarrow> fl \<Rightarrow> fl list" where
  "table_row sn cs fr hl 0 t = []"
| "table_row sn cs fr hl (Suc n) t =
     table_row sn cs fr hl n (fadd f64 t d_one) @
     [to_fmt f32 (fmul f64 (fmul f64 fr (sinc sn (fmul f64 t fr))) (wind cs (fdiv f64 t (d_nat hl))))]"

definition new_table :: "(fl \<Rightarrow> fl) \<Rightarrow> (fl \<Rightarrow> fl) \<Rightarrow> fl \<Rightarrow> nat \<Rightarrow> nat \<Rightarrow> resampler_table" where
  "new_table sn cs fr hl np =
     \<lparr>t_ctab = concat (map (\<lambda>j. table_row sn cs fr hl hl (fdiv f64 (d_nat j) (d_nat np))) [0..<np + 1]),
      t_fr = fr, t_hl = hl, t_np = np\<rparr>"

lemma length_table_row [simp]: "length (table_row sn cs fr hl n t) = n"
  by (induction n arbitrary: t) simp_all

lemma new_table_shape: "table_shape (new_table sn cs fr hl np) hl np"
proof -
  have "length (concat (map (\<lambda>j. table_row sn cs fr hl hl (fdiv f64 (d_nat j) (d_nat np))) [0..<np + 1])) =
      (np + 1) * hl"
    by (rule length_concat_blocks) simp
  then show ?thesis by (simp add: table_shape_def new_table_def mult.commute)
qed

text \<open>The tables of the constructor meet the contract of \<open>setup\<close>.\<close>

interpretation fresh: table_source "new_table sn cs" for sn cs
  by unfold_locales (rule new_table_shape)


section \<open>The list of shared tables\<close>

record table_store =
  ts_list :: "(nat \<times> nat \<times> resampler_table) list"
  ts_next :: nat

definition same_table :: "fl \<Rightarrow> nat \<Rightarrow> nat \<Rightarrow> resampler_table \<Rightarrow> bool" where
  "same_table fr hl np t \<longleftrightarrow> fle (fmul f64 (t_fr t) (lit f64 (999 / 1000))) fr \<and>
     fle fr (fmul f64 (t_fr t) (lit f64 (1001 / 1000))) \<and> hl = t_hl t \<and> np = t_np t"

text \<open>The search of \<open>create\<close>: the first table that fits gets one more reference.\<close>

fun rt_share :: "fl \<Rightarrow> nat \<Rightarrow> nat \<Rightarrow> (nat \<times> nat \<times> resampler_table) list \<Rightarrow>
    (nat \<times> (nat \<times> nat \<times> resampler_table) list) option" where
  "rt_share fr hl np [] = None"
| "rt_share fr hl np ((a, n, t) # xs) =
     (if same_table fr hl np t then Some (a, (a, u32_mod (n + 1), t) # xs)
      else map_option (\<lambda>(b, ys). (b, (a, n, t) # ys)) (rt_share fr hl np xs))"

definition rt_create :: "(fl \<Rightarrow> fl) \<Rightarrow> (fl \<Rightarrow> fl) \<Rightarrow> fl \<Rightarrow> nat \<Rightarrow> nat \<Rightarrow> table_store \<Rightarrow> nat \<times> table_store" where
  "rt_create sn cs fr hl np st =
     (case rt_share fr hl np (ts_list st) of
        Some (a, xs) \<Rightarrow> (a, st\<lparr>ts_list := xs\<rparr>)
      | None \<Rightarrow> (ts_next st, \<lparr>ts_list = (ts_next st, 1, new_table sn cs fr hl np) # ts_list st,
          ts_next = ts_next st + 1\<rparr>))"

text \<open>\<open>destroy\<close>: one reference less; the last one unlinks and frees the table.\<close>

fun rt_release :: "nat \<Rightarrow> (nat \<times> nat \<times> resampler_table) list \<Rightarrow> (nat \<times> nat \<times> resampler_table) list option" where
  "rt_release a [] = None"
| "rt_release a ((b, n, t) # xs) =
     (if a = b then
        (let n' = u32_mod (n + 2 ^ 32 - 1) in if n' = 0 then Some xs else Some ((b, n', t) # xs))
      else map_option (\<lambda>ys. (b, n, t) # ys) (rt_release a xs))"

definition rt_destroy :: "nat option \<Rightarrow> table_store \<Rightarrow> table_store option" where
  "rt_destroy p st =
     (case p of
        None \<Rightarrow> Some st
      | Some a \<Rightarrow> map_option (\<lambda>xs. st\<lparr>ts_list := xs\<rparr>) (rt_release a (ts_list st)))"

text \<open>
  The states that resamplers can bring the list to, with the references they hold: a resampler
  destroys a table only when it holds it.
\<close>

inductive rt_reach :: "table_store \<Rightarrow> nat multiset \<Rightarrow> bool" where
  rt_start: "rt_reach \<lparr>ts_list = [], ts_next = 0\<rparr> {#}"
| rt_got: "rt_reach st H \<Longrightarrow> size H < 2 ^ 32 - 1 \<Longrightarrow> rt_create sn cs fr hl np st = (a, st') \<Longrightarrow>
    rt_reach st' (add_mset a H)"
| rt_gave: "rt_reach st H \<Longrightarrow> a \<in># H \<Longrightarrow> rt_destroy (Some a) st = Some st' \<Longrightarrow> rt_reach st' (H - {#a#})"


section \<open>The reference counts are right\<close>

definition rt_inv :: "table_store \<Rightarrow> nat multiset \<Rightarrow> bool" where
  "rt_inv st H \<longleftrightarrow> distinct (map fst (ts_list st)) \<and>
     (\<forall>a. a \<in># H \<longleftrightarrow> (\<exists>n t. (a, n, t) \<in> set (ts_list st))) \<and>
     (\<forall>a n t. (a, n, t) \<in> set (ts_list st) \<longrightarrow> n = count H a \<and> a < ts_next st) \<and>
     (\<forall>a n t. (a, n, t) \<in> set (ts_list st) \<longrightarrow> table_shape t (t_hl t) (t_np t)) \<and>
     size H < 2 ^ 32"

lemma key_once: "distinct (map fst (us @ (a, n, t) # vs)) \<Longrightarrow> (b, k, s) \<in> set us \<or> (b, k, s) \<in> set vs \<Longrightarrow> b \<noteq> a"
  by force

lemma rt_share_Some:
  "rt_share fr hl np xs = Some (a, ys) \<Longrightarrow>
     \<exists>us n t vs. xs = us @ (a, n, t) # vs \<and> ys = us @ (a, u32_mod (n + 1), t) # vs \<and> same_table fr hl np t"
proof (induction xs arbitrary: ys)
  case (Cons x xs)
  obtain b n t where x: "x = (b, n, t)" by (cases x)
  show ?case
  proof (cases "same_table fr hl np t")
    case True
    then show ?thesis using Cons.prems x by (intro exI [of _ "[]"]) auto
  next
    case False
    then obtain zs where zs: "rt_share fr hl np xs = Some (a, zs)" "ys = (b, n, t) # zs"
      using Cons.prems x by auto
    from Cons.IH [OF zs(1)] obtain us m s vs where
      "xs = us @ (a, m, s) # vs" "zs = us @ (a, u32_mod (m + 1), s) # vs" "same_table fr hl np s" by blast
    then show ?thesis using x zs(2) by (intro exI [of _ "x # us"]) auto
  qed
qed simp

lemma rt_release_in:
  assumes "distinct (map fst xs)" and "(a, n, t) \<in> set xs"
  shows "\<exists>us vs. xs = us @ (a, n, t) # vs \<and> rt_release a xs =
    Some (us @ (let n' = u32_mod (n + 2 ^ 32 - 1) in if n' = 0 then vs else (a, n', t) # vs))"
  using assms
proof (induction xs)
  case (Cons x xs)
  obtain b m s where x: "x = (b, m, s)" by (cases x)
  show ?case
  proof (cases "a = b")
    case True
    then have "x = (a, n, t)" using Cons.prems x by (auto simp: image_iff rev_image_eqI)
    then show ?thesis by (intro exI [of _ "[]"] exI [of _ xs]) (auto simp: Let_def)
  next
    case False
    then obtain us vs where "xs = us @ (a, n, t) # vs" "rt_release a xs =
        Some (us @ (let n' = u32_mod (n + 2 ^ 32 - 1) in if n' = 0 then vs else (a, n', t) # vs))"
      using Cons x by auto
    then show ?thesis using x False by (intro exI [of _ "x # us"] exI [of _ vs]) auto
  qed
qed simp

lemma rt_create_inv:
  assumes inv: "rt_inv st H" and sz: "size H < 2 ^ 32 - 1" and cr: "rt_create sn cs fr hl np st = (a, st')"
  shows "rt_inv st' (add_mset a H)"
proof (cases "rt_share fr hl np (ts_list st)")
  case None
  then have st': "a = ts_next st" "ts_list st' = (a, 1, new_table sn cs fr hl np) # ts_list st"
      "ts_next st' = ts_next st + 1"
    using cr by (auto simp: rt_create_def)
  have less: "b < ts_next st" if "b \<in># H" for b
    using inv that unfolding rt_inv_def by metis
  then have fresh: "a \<notin># H" using st'(1) by blast
  have sh: "table_shape (new_table sn cs fr hl np) (t_hl (new_table sn cs fr hl np)) (t_np (new_table sn cs fr hl np))"
    using new_table_shape [of sn cs fr hl np] by (simp add: table_shape_def)
  have c: "count H a = 0" using fresh by (simp add: not_in_iff)
  have out: "a \<notin> fst ` set (ts_list st)" using fresh inv by (force simp: rt_inv_def)
  have ne: "b \<noteq> a" if "(b, k, s) \<in> set (ts_list st)" for b k s using out that by force
  show ?thesis
    unfolding rt_inv_def
  proof (intro conjI)
    show "distinct (map fst (ts_list st'))" using inv out st' by (simp add: rt_inv_def)
    show "\<forall>b. b \<in># add_mset a H \<longleftrightarrow> (\<exists>n t. (b, n, t) \<in> set (ts_list st'))"
      using inv st' by (auto simp: rt_inv_def)
    show "\<forall>b n t. (b, n, t) \<in> set (ts_list st') \<longrightarrow> n = count (add_mset a H) b \<and> b < ts_next st'"
      using inv st' c ne by (fastforce simp: rt_inv_def)
    show "\<forall>b n t. (b, n, t) \<in> set (ts_list st') \<longrightarrow> table_shape t (t_hl t) (t_np t)"
      using inv st' sh by (auto simp: rt_inv_def)
    show "size (add_mset a H) < 2 ^ 32" using sz by simp
  qed
next
  case (Some p)
  then obtain b ys where p: "rt_share fr hl np (ts_list st) = Some (b, ys)" by (cases p) auto
  then have st': "a = b" "st' = st\<lparr>ts_list := ys\<rparr>" using cr by (auto simp: rt_create_def)
  obtain us n t vs where xs: "ts_list st = us @ (a, n, t) # vs" "ys = us @ (a, u32_mod (n + 1), t) # vs"
    using rt_share_Some [OF p] st' by blast
  have n: "n = count H a" using inv xs by (auto simp: rt_inv_def)
  have "n \<le> size H" using n count_le_size by simp
  then have n1: "u32_mod (n + 1) = n + 1" using sz by (simp add: u32_mod_def)
  have aH: "a \<in># H" using inv xs by (auto simp: rt_inv_def)
  have ne: "b \<noteq> a" if "(b, k, s) \<in> set us \<or> (b, k, s) \<in> set vs" for b k s
    using key_once [of us a n t vs] inv xs(1) that by (auto simp: rt_inv_def)
  show ?thesis
    unfolding rt_inv_def
  proof (intro conjI)
    show "distinct (map fst (ts_list st'))" using inv xs st' by (simp add: rt_inv_def)
    show "\<forall>b. b \<in># add_mset a H \<longleftrightarrow> (\<exists>n t. (b, n, t) \<in> set (ts_list st'))"
      using inv xs st' aH by (auto simp: rt_inv_def)
    show "\<forall>b m s. (b, m, s) \<in> set (ts_list st') \<longrightarrow> m = count (add_mset a H) b \<and> b < ts_next st'"
      using inv xs st' n n1 ne by (auto simp: rt_inv_def)
    show "\<forall>b m s. (b, m, s) \<in> set (ts_list st') \<longrightarrow> table_shape s (t_hl s) (t_np s)"
      using inv xs st' by (auto simp: rt_inv_def)
    show "size (add_mset a H) < 2 ^ 32" using sz by simp
  qed
qed

lemma u32_dec: "0 < n \<Longrightarrow> n < 2 ^ 32 \<Longrightarrow> u32_mod (n + 2 ^ 32 - 1) = n - 1"
  by (cases n) (simp_all add: u32_mod_def)

lemma rt_destroy_inv:
  assumes inv: "rt_inv st H" and a: "a \<in># H"
  shows "\<exists>st'. rt_destroy (Some a) st = Some st' \<and> rt_inv st' (H - {#a#})"
proof -
  obtain n t where m: "(a, n, t) \<in> set (ts_list st)" using inv a by (auto simp: rt_inv_def)
  obtain us vs where xs: "ts_list st = us @ (a, n, t) # vs" "rt_release a (ts_list st) =
      Some (us @ (let n' = u32_mod (n + 2 ^ 32 - 1) in if n' = 0 then vs else (a, n', t) # vs))"
    using rt_release_in [OF _ m] inv by (auto simp: rt_inv_def)
  have nc: "n = count H a" using inv m by (auto simp: rt_inv_def)
  then have n: "n = count H a" "0 < n" using a by simp_all
  have "n \<le> size H" using n count_le_size by simp
  then have n1: "u32_mod (n + 2 ^ 32 - 1) = n - 1" using inv n(2) by (intro u32_dec) (auto simp: rt_inv_def)
  have ne: "b \<noteq> a" if "(b, k, s) \<in> set us \<or> (b, k, s) \<in> set vs" for b k s
    using key_once [of us a n t vs] inv xs(1) that by (auto simp: rt_inv_def)
  have ctb: "count (H - {#a#}) b = (if b = a then n - 1 else count H b)" for b using n by auto
  have mem: "b \<in># H - {#a#} \<longleftrightarrow> (if b = a then 1 < n else b \<in># H)" for b
    using n by (auto simp: in_diff_count)
  let ?st = "st\<lparr>ts_list := us @ (if n - 1 = 0 then vs else (a, n - 1, t) # vs)\<rparr>"
  have "rt_destroy (Some a) st = Some ?st" using xs(2) n1 by (simp add: rt_destroy_def Let_def)
  moreover have "rt_inv ?st (H - {#a#})"
    unfolding rt_inv_def
  proof (intro conjI)
    show "distinct (map fst (ts_list ?st))" using inv xs(1) by (auto simp: rt_inv_def)
    show "\<forall>b. b \<in># H - {#a#} \<longleftrightarrow> (\<exists>n t. (b, n, t) \<in> set (ts_list ?st))"
      using inv xs(1) mem n(2) ne by (auto simp: rt_inv_def)
    show "\<forall>b k s. (b, k, s) \<in> set (ts_list ?st) \<longrightarrow> k = count (H - {#a#}) b \<and> b < ts_next ?st"
      using inv xs(1) ne ctb by (auto simp: rt_inv_def split: if_splits)
    show "\<forall>b k s. (b, k, s) \<in> set (ts_list ?st) \<longrightarrow> table_shape s (t_hl s) (t_np s)"
      using inv xs(1) by (auto simp: rt_inv_def split: if_splits)
    show "size (H - {#a#}) < 2 ^ 32"
      using inv size_mset_mono [OF diff_subset_eq_self, of H "{#a#}"] unfolding rt_inv_def by linarith
  qed
  ultimately show ?thesis by blast
qed

lemma rt_reach_inv: "rt_reach st H \<Longrightarrow> rt_inv st H"
proof (induction rule: rt_reach.induct)
  case rt_start
  show ?case by (simp add: rt_inv_def)
next
  case (rt_got st H sn cs fr hl np a st')
  then show ?case by (intro rt_create_inv)
next
  case (rt_gave st H a st')
  then show ?case using rt_destroy_inv [of st H a] by auto
qed


section \<open>Use of a resampler\<close>

text \<open>
  What a receiver does with a resampler after \<open>setup\<close>: it corrects the ratio, and it hands over
  input and output blocks and calls \<open>process\<close>.
\<close>

datatype vr_call = Rate fl | Process sample_ptr nat sample_ptr nat

fun vr_calls :: "vr_call list \<Rightarrow> vresampler \<Rightarrow> vresampler option" where
  "vr_calls [] r = Some r"
| "vr_calls (Rate x # ks) r = vr_calls ks (vr_set_rratio r x)"
| "vr_calls (Process ip ic op oc # ks) r = do {
     (r, e) \<leftarrow> vr_process (r\<lparr>inp_count := ic, inp_data := ip, out_count := oc, out_data := op\<rparr>);
     vr_calls ks r }"

fun call_ok :: "nat \<Rightarrow> vr_call \<Rightarrow> bool" where
  "call_ok nchan (Rate x) \<longleftrightarrow> x \<noteq> FNaN \<and> mag_ok x"
| "call_ok nchan (Process ip ic op oc) \<longleftrightarrow> room ip (nchan * ic) \<and> room op (nchan * oc)"

lemma vr_calls_ok:
  "vr_ok t r \<Longrightarrow> list_all (call_ok (v_nchan r)) ks \<Longrightarrow> \<exists>r'. vr_calls ks r = Some r' \<and> vr_ok t r'"
proof (induction ks arbitrary: r)
  case (Cons k ks)
  show ?case
  proof (cases k)
    case (Rate x)
    then have x: "x \<noteq> FNaN" "mag_ok x" using Cons.prems(2) by auto
    show ?thesis using Cons.IH [OF set_rratio_ok(1) [OF Cons.prems(1) x]] Cons.prems(2) Rate
        set_rratio_ok(2) [OF Cons.prems(1) x] by simp
  next
    case (Process ip ic op oc)
    let ?r = "r\<lparr>inp_count := ic, inp_data := ip, out_count := oc, out_data := op\<rparr>"
    have "vr_ok t ?r" using Cons.prems(1) by (simp add: vr_ok_def vr_wf_def)
    moreover have "room (inp_data ?r) (v_nchan ?r * inp_count ?r)" "room (out_data ?r) (v_nchan ?r * out_count ?r)"
      using Cons.prems(2) Process by simp_all
    ultimately obtain r' where r': "vr_process ?r = Some (r', 0)" "vr_ok t r'" "v_nchan r' = v_nchan r"
      using process_ok [of t ?r] by auto
    then show ?thesis using Cons.IH [OF r'(2)] Cons.prems(2) Process by simp
  qed
qed simp

text \<open>
  The silence a receiver feeds before the first packet: one frame less than the filter needs, so
  that the first frame of the stream gives the first output.
\<close>

lemma prime_ok:
  assumes ok: "vr_ok t r" and nr: "v_nread r = 2 * t_hl t" and oc: "0 < oc"
  defines "r1 \<equiv> r\<lparr>inp_count := vr_inpsize r - 1, inp_data := None, out_count := oc, out_data := None\<rparr>"
  shows "\<exists>r'. vr_process r1 = Some (r', 0) \<and> vr_ok t r' \<and> v_nread r' = 1 \<and> v_index r' = v_index r \<and>
    v_phase r' = v_phase r \<and> out_count r' = oc \<and> inp_count r' = 0"
proof -
  let ?l = "\<lparr>l_in = v_index r, l_nr = v_nread r, l_nz = v_nzero r, l_ph = v_phase r,
    l_dp = v_pstep r, l_p1 = int (v_index r), l_p2 = int (v_index r) + 2 * int (t_hl t) - int (v_nread r)\<rparr>"
  have tab: "v_table r = Some t" "8 \<le> t_hl t" using ok by (simp_all add: vr_ok_def vr_wf_def)
  have ok1: "vr_ok t r1" using ok by (simp add: vr_ok_def vr_wf_def r1_def)
  have wf: "vr_wf t r1" and l: "vl_ok t r1 ?l" using ok1 by (simp_all add: vr_ok_def vl_ok_def r1_def)
  have "room (inp_data r1) (v_nchan r1 * inp_count r1)" by (simp add: room_def r1_def)
  then obtain r' l' where f: "vr_fill t r1 ?l = Some (r', l')" "vr_wf t r'" "vl_ok t r' l'"
      "l_nr l' = 0 \<or> inp_count r' = 0" "l_nr l' + inp_count r1 = l_nr ?l + inp_count r'"
      "l_in l' = l_in ?l" "l_ph l' = l_ph ?l" "l_dp l' = l_dp ?l"
    using fill_ok [OF wf l] by blast
  have ic: "inp_count r1 = 2 * t_hl t - 1" using tab by (simp add: r1_def vr_inpsize_def)
  have one: "l_nr l' = 1" "inp_count r' = 0" using f(4,5) ic nr tab(2) by auto
  obtain oc' where oc': "oc = Suc oc'" using oc by (cases oc) auto
  let ?r = "r'\<lparr>out_count := oc, v_index := l_in l', v_nread := l_nr l', v_phase := l_ph l', v_pstep := l_dp l',
    v_nzero := l_nz l'\<rparr>"
  have "vr_process r1 = Some (?r, 0)"
    using f(1) one tab(1) oc' by (simp add: vr_process_def r1_def)
  moreover have "vr_ok t ?r" using f(2,3) by (simp add: vr_ok_def vr_wf_def vl_ok_def)
  ultimately show ?thesis using one f(6,7) by (intro exI [of _ ?r]) simp
qed


text \<open>
  A correction that is not a number: no comparison holds, so both clamps pass it on, the target
  step is not a number, and neither is the phase after the next output frame; the conversion of the
  phase to a row of the table, one output frame later, is undefined.
\<close>

lemma nan_step: "vr_step_dp (vr_set_rratio r FNaN) d = FNaN" if "v_table r = Some t" "is_num d" "is_num (v_wstep r)"
proof -
  have f: "fmul f64 x FNaN = FNaN" "fdiv f64 x FNaN = FNaN" "fadd f64 x FNaN = FNaN" for x by (cases x; simp)+
  have "flt FNaN x \<longleftrightarrow> False" "flt x FNaN \<longleftrightarrow> False" for x by (cases x; simp)+
  then show ?thesis using that by (simp add: vr_set_rratio_def vr_step_dp_def fsub_def Let_def f)
qed

lemma nan_output: "out_data r = Some p \<Longrightarrow> l_ph l = FNaN \<Longrightarrow> l_nz l < 2 * t_hl t \<Longrightarrow> vr_output t r l = None"
  by (cases p) (simp add: vr_output_def)

lemma step_dp_cong: "v_qstep a = v_qstep b \<Longrightarrow> v_wstep a = v_wstep b \<Longrightarrow> vr_step_dp a d = vr_step_dp b d"
  by (simp only: vr_step_dp_def)

lemma output_qstep: "vr_output t (r\<lparr>v_qstep := q\<rparr>) l = map_option (\<lambda>r. r\<lparr>v_qstep := q\<rparr>) (vr_output t r l)"
  by (cases "out_data r"; cases "l_nz l < 2 * t_hl t")
    (auto simp: vr_output_def Let_def split: prod.splits Option.bind_splits)

lemma nan_ratio_undefined:
  assumes ok: "vr_ok t r" and nr: "v_nread r = 0" and nz: "v_nzero r < 2 * t_hl t"
    and rm: "room (out_data r) (v_nchan r)" "out_data r \<noteq> None" and oc: "2 \<le> out_count r"
  shows "vr_process (vr_set_rratio r FNaN) = None"
proof -
  let ?n = "vr_set_rratio r FNaN"
  let ?l = "\<lparr>l_in = v_index r, l_nr = v_nread r, l_nz = v_nzero r, l_ph = v_phase r,
    l_dp = v_pstep r, l_p1 = int (v_index r), l_p2 = int (v_index r) + 2 * int (t_hl t) - int (v_nread r)\<rparr>"
  have wf: "vr_wf t r" and l: "vl_ok t r ?l" using ok by (simp_all add: vr_ok_def vl_ok_def)
  obtain q where q: "?n = r\<lparr>v_qstep := q\<rparr>" using wf by (auto simp: vr_wf_def vr_set_rratio_def Let_def)
  obtain k where k: "out_count r = Suc (Suc k)" using oc by (cases "out_count r"; cases "out_count r - 1") auto
  obtain c1 c2 op where o: "vr_output t r ?l = Some (r\<lparr>v_c1 := c1, v_c2 := c2, out_data := op\<rparr>)"
      "moved (out_data r) (v_nchan r) op"
    using output_ok [OF wf l _ rm(1)] nr by auto
  have on: "vr_output t ?n ?l = Some (?n\<lparr>v_c1 := c1, v_c2 := c2, out_data := op\<rparr>)"
    using o(1) unfolding q output_qstep by simp
  let ?m = "?n\<lparr>v_c1 := c1, v_c2 := c2, out_data := op\<rparr>"
  have d: "vr_step_dp ?m (v_pstep r) = FNaN"
    using nan_step [of r t "v_pstep r"] step_dp_cong [of ?m ?n "v_pstep r"] wf ok
    by (simp add: vr_wf_def vr_ok_def dp_ok_def d_one_def)
  have f: "fadd f64 x FNaN = FNaN" for x by (cases x) simp_all
  let ?l2 = "?l\<lparr>l_ph := FNaN, l_dp := FNaN\<rparr>"
  have adv: "vr_advance t ?m ?l = Some (?m, ?l2)" by (simp add: vr_advance_def d f Let_def)
  have fill: "vr_fill t x y = Some (x, y)" if "l_nr y = 0" for x y using that by (simp add: vr_fill.simps)
  obtain p where p: "op = Some p" using o(2) rm(2) by (cases "out_data r") (auto elim!: moved.elims)
  have "vr_output t ?m ?l2 = None" by (rule nan_output [of _ p]) (simp_all add: p nz)
  then have "vr_loop (Suc (Suc k)) t ?n ?l = None"
    using nr by (simp add: fill on [unfolded nr, simplified] adv [unfolded nr, simplified])
  moreover have "v_table ?n = Some t" "out_count ?n = Suc (Suc k)" using wf k unfolding q by (simp_all add: vr_wf_def)
  moreover have "v_index ?n = v_index r \<and> v_nread ?n = v_nread r \<and> v_nzero ?n = v_nzero r \<and> v_phase ?n = v_phase r \<and>
      v_pstep ?n = v_pstep r" unfolding q by simp
  ultimately show ?thesis by (simp add: vr_process_def del: vr_loop.simps)
qed


section \<open>Properties\<close>

text \<open>
  C4: The resampler never leaves its memory. After \<open>setup\<close> has accepted a ratio (between 1/64 and
  256), every sequence of ratio corrections and calls of \<open>process\<close> on blocks that are large enough
  for the counts given is defined: no access outside the sample buffer, the filter table, the
  coefficient rows or the caller's blocks, whatever the samples, the corrections (any number or
  infinity) and the rounding of the phase. A correction that is not a number is excluded: it passes
  both clamps of \<open>set_rratio\<close>, and the next calls are undefined (lemma \<open>nan_ratio_undefined\<close>).
\<close>

theorem resampler_memory_safe:
  assumes "0 < nchan" and "nchan \<le> 65536" and "8 \<le> hlen" and "hlen \<le> 96"
    and "1 / 64 \<le> x" and "x \<le> 256" and "\<And>n. length (alloc n) = n"
    and "list_all (call_ok nchan) ks"
  shows "\<exists>r r'. vr_setup (new_table sn cs) alloc vr_new (FNum False x) nchan hlen = Some (r, 0) \<and>
    vr_calls ks r = Some r'"
proof -
  obtain r t where "vr_setup (new_table sn cs) alloc vr_new (FNum False x) nchan hlen = Some (r, 0)"
      "vr_ok t r" "v_nchan r = nchan"
    using fresh.setup_frel_ok [OF assms(1-4) refl assms(5,6,7)] unfolding vr_setup_def by blast
  then show ?thesis using vr_calls_ok [of t r ks] assms(8) by blast
qed

theorem resampler_memory_safe_witness:
  "\<exists>r r'. vr_setup (new_table (\<lambda>x. x) (\<lambda>x. x)) (\<lambda>n. replicate n d_zero) vr_new (FNum False (1 / 2)) 1 8 = Some (r, 0) \<and>
    vr_calls [Process None 15 None 9, Rate (FInf False), Process (Some (replicate 8 0, 0)) 2 (Some (replicate 4 0, 0)) 1] r =
      Some r'"
  by (rule resampler_memory_safe) (simp_all add: room_def)

text \<open>
  C8: What one call of \<open>process\<close> does to a resampler in a good state: it stops exactly when the
  input or the room for output is used up, it moves both pointers by the frames it has counted off,
  it writes only inside the output block and only behind the output pointer, and it leaves the
  resampler in a good state with the same target step. And the counts agree with the ratio: in
  phases of 1/120 frame, the input frames taken (with those still to be read, less those to be read
  before) and the change of the phase are the output frames times the target step, up to
  \<open>2 ^ - 28\<close> of a phase for every output frame. So input is not taken without giving output, and no
  output is given without its input.
\<close>

theorem resampler_process_effect:
  assumes "vr_ok t r" and "room (inp_data r) (v_nchan r * inp_count r)"
    and "room (out_data r) (v_nchan r * out_count r)"
  shows "\<exists>r'. vr_process r = Some (r', 0) \<and> vr_ok t r' \<and> v_qstep r' = v_qstep r \<and>
    inp_count r' \<le> inp_count r \<and> out_count r' \<le> out_count r \<and>
    (inp_count r' = 0 \<or> out_count r' = 0) \<and>
    moved (inp_data r) (v_nchan r * (inp_count r - inp_count r')) (inp_data r') \<and>
    moved (out_data r) (v_nchan r * (out_count r - out_count r')) (out_data r') \<and>
    \<bar>120 * of_int (int (inp_count r - inp_count r') + int (v_nread r') - int (v_nread r)) + fl_val (v_phase r') -
      fl_val (v_phase r) - of_nat (out_count r - out_count r') * fl_val (v_qstep r)\<bar> \<le>
      of_nat (out_count r - out_count r') / 2 ^ 28"
  using process_ok [OF assms] by blast

definition example_table :: resampler_table where
  "example_table = \<lparr>t_ctab = replicate (8 * 121) d_zero, t_fr = d_one, t_hl = 8, t_np = 120\<rparr>"

definition example_resampler :: vresampler where
  "example_resampler = vr_new\<lparr>v_table := Some example_table,
     v_nchan := 1, v_inmax := 32, v_nread := 16, v_ratio := d_one, v_pstep := FNum False 120,
     v_qstep := FNum False 120, v_wstep := d_one, v_buff := replicate 48 d_zero, v_c1 := replicate 8 d_zero,
     v_c2 := replicate 8 d_zero\<rparr>"

lemma example_resampler_ok:
  "vr_ok example_table example_resampler"
  by (simp add: example_table_def vr_ok_def vr_wf_def example_resampler_def vr_new_def NPHASE_def ratio_ok_def qs_ok_def ph_ok_def
      dp_ok_def d_one_def d_zero_def)

text \<open>
  Twenty input frames and room for four output frames at the ratio 1: all four output frames are
  written, whatever the samples are.
\<close>

definition loaded_resampler :: vresampler where
  "loaded_resampler = example_resampler\<lparr>inp_count := 20, inp_data := Some (replicate 80 7, 0), out_count := 4,
     out_data := Some (replicate 16 9, 0)\<rparr>"

theorem resampler_process_effect_witness:
  "\<exists>r'. vr_process loaded_resampler = Some (r', 0) \<and> vr_ok example_table r' \<and> out_count r' = 0 \<and>
    moved (Some (replicate 80 7, 0)) (20 - inp_count r') (inp_data r') \<and>
    moved (Some (replicate 16 9, 0)) 4 (out_data r') \<and>
    \<bar>120 * of_int (int (20 - inp_count r') + int (v_nread r') - 16) + fl_val (v_phase r') - 480\<bar> \<le> 4 / 2 ^ 28"
proof -
  have sel: "inp_count loaded_resampler = 20" "out_count loaded_resampler = 4" "v_nchan loaded_resampler = 1"
    "inp_data loaded_resampler = Some (replicate 80 7, 0)" "out_data loaded_resampler = Some (replicate 16 9, 0)"
    "v_nread loaded_resampler = 16" "fl_val (v_phase loaded_resampler) = 0" "fl_val (v_qstep loaded_resampler) = 120"
    by (simp_all add: loaded_resampler_def example_resampler_def vr_new_def d_zero_def)
  have ok: "vr_ok example_table loaded_resampler"
    using example_resampler_ok by (simp add: loaded_resampler_def vr_ok_def vr_wf_def)
  have rm: "room (inp_data loaded_resampler) (v_nchan loaded_resampler * inp_count loaded_resampler)"
    "room (out_data loaded_resampler) (v_nchan loaded_resampler * out_count loaded_resampler)"
    unfolding sel by (simp_all add: room_def)
  obtain r' where r': "vr_process loaded_resampler = Some (r', 0)" "vr_ok example_table r'" "out_count r' \<le> 4"
      "inp_count r' = 0 \<or> out_count r' = 0" "moved (Some (replicate 80 7, 0)) (20 - inp_count r') (inp_data r')"
      "moved (Some (replicate 16 9, 0)) (4 - out_count r') (out_data r')"
      "\<bar>120 * of_int (int (20 - inp_count r') + int (v_nread r') - int 16) + fl_val (v_phase r') - 0 -
        of_nat (4 - out_count r') * 120\<bar> \<le> of_nat (4 - out_count r') / 2 ^ 28"
    using resampler_process_effect [OF ok rm] unfolding sel nat_mult_1 by blast
  have law: "\<bar>120 * of_int (int (20 - inp_count r') + int (v_nread r') - 16) + fl_val (v_phase r') -
      of_nat (4 - out_count r') * 120\<bar> \<le> of_nat (4 - out_count r') / 2 ^ 28"
    using r'(7) by (simp only: diff_zero of_nat_numeral)
  have "out_count r' = 0"
  proof (rule ccontr)
    assume oc: "out_count r' \<noteq> 0"
    then have "int (20 - inp_count r') + int (v_nread r') - 16 = 4 + int (v_nread r')" using r'(4) by simp
    then have "\<bar>480 + 120 * of_nat (v_nread r') + fl_val (v_phase r') - of_nat (4 - out_count r') * 120\<bar> \<le>
        of_nat (4 - out_count r') / 2 ^ 28"
      using law by (simp add: algebra_simps)
    moreover have "of_nat (4 - out_count r') \<le> (of_nat 3 :: rat)" using oc by (subst of_nat_le_iff) simp
    moreover have "- (1 / 2) \<le> fl_val (v_phase r')" using r'(2) by (simp add: vr_ok_def ph_ok_def)
    moreover have "(0 :: rat) \<le> of_nat (v_nread r')" by simp
    ultimately show False by (simp add: abs_le_iff)
  qed
  then show ?thesis using r'(1,2,5,6) law by (intro exI [of _ r']) simp
qed

text \<open>
  The silence a receiver feeds before the first packet (one frame less than \<open>inpsize\<close>, no data,
  more output than can be asked for) is taken completely, gives no output and leaves exactly one
  frame to read, so that the first frame of the stream gives the first output.
\<close>

theorem resampler_priming:
  assumes "vr_ok t r" and "v_nread r = 2 * t_hl t" and "0 < oc"
  shows "\<exists>r'. vr_process (r\<lparr>inp_count := vr_inpsize r - 1, inp_data := None, out_count := oc, out_data := None\<rparr>) =
      Some (r', 0) \<and> vr_ok t r' \<and> v_nread r' = 1 \<and> v_index r' = v_index r \<and>
    v_phase r' = v_phase r \<and> out_count r' = oc \<and> inp_count r' = 0"
  using prime_ok [OF assms] by blast

theorem resampler_priming_witness:
  "\<exists>r'. vr_process (example_resampler\<lparr>inp_count := vr_inpsize example_resampler - 1, inp_data := None,
      out_count := 999999, out_data := None\<rparr>) = Some (r', 0) \<and>
    vr_ok example_table r' \<and>
    v_nread r' = 1 \<and> v_index r' = v_index example_resampler \<and>
    v_phase r' = v_phase example_resampler \<and> out_count r' = 999999 \<and> inp_count r' = 0"
proof (rule resampler_priming [OF example_resampler_ok])
  show "v_nread example_resampler = 2 * t_hl example_table"
    by (simp add: example_resampler_def example_table_def)
qed simp

text \<open>
  C9: The shared filter tables are counted right. In every state that creates and destroys can
  bring the list to, the tables in the list are exactly those some resampler holds, each counted as
  often as it is held; so a table is freed with its last holder and never before, a destroy by a
  holder is always defined, and when nobody holds a table the list is empty.
\<close>

theorem resampler_tables_counted:
  assumes "rt_reach st H"
  shows "fst ` set (ts_list st) = set_mset H \<and> (\<forall>(a, n, t) \<in> set (ts_list st). n = count H a) \<and>
    (\<forall>a. a \<in># H \<longrightarrow> rt_destroy (Some a) st \<noteq> None) \<and> (H = {#} \<longrightarrow> ts_list st = [])"
proof -
  have inv: "rt_inv st H" by (rule rt_reach_inv [OF assms])
  then have in_H: "a \<in># H \<longleftrightarrow> (\<exists>n t. (a, n, t) \<in> set (ts_list st))" for a by (simp only: rt_inv_def)
  have "fst ` set (ts_list st) = set_mset H"
  proof (rule set_eqI)
    show "a \<in> fst ` set (ts_list st) \<longleftrightarrow> a \<in># H" for a unfolding in_H by force
  qed
  moreover have "\<forall>(a, n, t) \<in> set (ts_list st). n = count H a" using inv by (auto simp: rt_inv_def)
  moreover have "rt_destroy (Some a) st \<noteq> None" if "a \<in># H" for a using rt_destroy_inv [OF inv that] by auto
  moreover have "H = {#} \<longrightarrow> ts_list st = []" using calculation(1) by auto
  ultimately show ?thesis by blast
qed

theorem resampler_tables_counted_witness:
  "let t = new_table (\<lambda>x. x) (\<lambda>x. x) d_one 8 1; st = \<lparr>ts_list = [(0, 1, t)], ts_next = 1\<rparr>; H = {#0#} in
    fst ` set (ts_list st) = set_mset H \<and> (\<forall>(a, n, t) \<in> set (ts_list st). n = count H a) \<and>
    (\<forall>a. a \<in># H \<longrightarrow> rt_destroy (Some a) st \<noteq> None) \<and> (H = {#} \<longrightarrow> ts_list st = [])"
proof -
  have "rt_reach \<lparr>ts_list = [(0, 1, new_table (\<lambda>x. x) (\<lambda>x. x) d_one 8 1)], ts_next = 1\<rparr> {#0#}"
    using rt_got [OF rt_start, of "\<lambda>x. x" "\<lambda>x. x" d_one 8 1] by (simp add: rt_create_def)
  then show ?thesis unfolding Let_def by (rule resampler_tables_counted)
qed

end
