(* ===== verification/Rate.thy ===== *)
theory Rate
  imports Context Resampler_Table
begin

text \<open>
  The rate control of a receiver (\<open>vban_common/vban_functions.h\<close>): the time-stamp filter, the
  frames-per-cycle filter, the controller that turns the fill level of the ring into a resampling
  ratio, and the measurement of the input cycles. Arithmetic on \<open>long\<close> is checked at 64 bits.
\<close>

section \<open>The frames-per-cycle filter\<close>

definition CFMSIZE :: nat where
  "CFMSIZE = 5"

text \<open>\<open>cfmed\<close> sorts a copy by selection, and stops after the place it returns.\<close>

definition cfmed_min :: "int list \<Rightarrow> nat \<Rightarrow> int \<times> nat" where
  "cfmed_min array i =
     fold (\<lambda>j (mn, mind). if array ! j < mn then (array ! j, j) else (mn, mind)) [Suc i..<CFMSIZE] (array ! i, i)"

definition cfmed_pass :: "int list \<Rightarrow> nat \<Rightarrow> int list" where
  "cfmed_pass array i = (let (mn, mind) = cfmed_min array i in array[mind := array ! i, i := mn])"

function cfmed_loop :: "nat \<Rightarrow> nat \<Rightarrow> int list \<Rightarrow> int list" where
  "cfmed_loop mid i array =
     (if i < CFMSIZE - 1 then
        (let array = cfmed_pass array i in if i = mid then array else cfmed_loop mid (Suc i) array)
      else array)"
  by pat_completeness auto
termination
  by (relation "measure (\<lambda>(mid, i, array). CFMSIZE - i)") (auto simp: CFMSIZE_def)

declare cfmed_loop.simps [simp del]

definition cfmed :: "int list \<Rightarrow> int option" where
  "cfmed median_array = do {
     let mid = CFMSIZE div 2 + 1;
     array \<leftarrow> mem_load median_array 0 CFMSIZE;
     Some (cfmed_loop mid 0 array ! mid) }"


section \<open>The filter of time differences\<close>

definition c_long :: "int \<Rightarrow> int option" where
  "c_long x = (if - (2 ^ 63) \<le> x \<and> x < 2 ^ 63 then Some x else None)"

lemma c_long_Some [wrap]: "- (2 ^ 63) \<le> x \<Longrightarrow> x < 2 ^ 63 \<Longrightarrow> c_long x = Some x"
  by (simp add: c_long_def)

definition d_int :: "int \<Rightarrow> fl" where
  "d_int i = of_int_fl f64 i"

text \<open>The difference of two time stamps in nanoseconds.\<close>

definition ts_diff :: "timespec \<Rightarrow> timespec \<Rightarrow> int option" where
  "ts_diff a b = do {
     s \<leftarrow> c_long (fst a - fst b);
     n \<leftarrow> c_long (s * 1000000000);
     x \<leftarrow> c_long (n + snd a);
     c_long (x - snd b) }"

text \<open>\<open>clock\<close> is the time \<open>clock_gettime\<close> would give; \<open>weight\<close> is a \<open>float\<close>.\<close>

definition calc_delta_filtered :: "timespec \<Rightarrow> timestamp_delta \<Rightarrow> nat \<Rightarrow> fl \<Rightarrow> timestamp_delta option" where
  "calc_delta_filtered clock d order weight = do {
     let d = (if ts_new d = ts_old d then d\<lparr>ts_new := clock\<rparr> else d);
     let order = (if order > 5 then 5 else order);
     d \<leftarrow> (if fst (ts_old d) \<noteq> 0
       then do {
         x \<leftarrow> ts_diff (ts_new d) (ts_old d);
         let d = d\<lparr>deltat := to_i32 x\<rparr>;
         let v = d_int (deltat d);
         let keep = to_fmt f64 (fsub f32 d_one weight);
         let take_in = to_fmt f64 weight;
         last_stage \<leftarrow> (if order = 0 then None else Some (deltatf d ! (order - 1)));
         let fs = (if feq last_stage d_zero then replicate order v @ drop order (deltatf d)
           else fold (\<lambda>f fs. fs[f := fadd f64 (fmul f64 keep (fs ! f)) (fmul f64 take_in (fs ! (f - 1)))])
             [1..<order]
             ((deltatf d)[0 := fadd f64 (fmul f64 keep (deltatf d ! 0)) (fmul f64 take_in v)]));
         Some (d\<lparr>deltatf := fs\<rparr>) }
       else Some d);
     Some (d\<lparr>ts_old := ts_new d\<rparr>) }"


section \<open>The controller\<close>

definition calc_rbfill_pi :: "int \<Rightarrow> int \<Rightarrow> fl option \<Rightarrow> fl \<Rightarrow> fl \<Rightarrow> fl \<Rightarrow> (fl option \<times> fl) option" where
  "calc_rbfill_pi rbfill_needed rbfill_real rbf_integral weight kp ki =
     (case rbf_integral of
        None \<Rightarrow> Some (None, d_zero)
      | Some i \<Rightarrow> do {
          rbfill_delta \<leftarrow> c_int (rbfill_needed - rbfill_real);
          let i = fadd f64 i (d_int rbfill_delta);
          let i = (if flt (d_int 1000) i then d_int 1000 else i);
          let i = (if flt i (d_int (- 1000)) then d_int (- 1000) else i);
          let ppm = fmul f64 weight (fadd f64 (fmul f64 kp (d_int rbfill_delta)) (fmul f64 ki i));
          Some (Some i, if flt ppm d_zero then fadd f64 d_one ppm
            else fadd f64 d_one (fmul f64 (d_int 2) ppm)) })"

text \<open>
  \<open>calc_ratio_correction\<close>; \<open>abs\<close> is the overload for \<open>double\<close>. The local \<open>w\<close> is computed and never
  used: the controller is always called with the weight 0.0001.
\<close>

definition d_mag :: "fl \<Rightarrow> fl" where
  "d_mag x = (if flt x d_zero then fneg x else x)"

definition calc_ratio_correction :: "stream_context \<Rightarrow> int \<Rightarrow> stream_context option" where
  "calc_ratio_correction context rbfill_target = do {
     let rf = (if flt (lit f64 (25 / 10000)) (d_mag (fsub f64 (rratiof context) d_one)) then d_one
               else rratiof context);
     a \<leftarrow> c_int (int (nframes context) + cframes context);
     a \<leftarrow> c_int (a + int (lagrange_num context));
     thrsh \<leftarrow> c_int (a * 2);
     excess \<leftarrow> c_int (rbfill context - rbfill_target);
     (i, pi) \<leftarrow> calc_rbfill_pi rbfill_target (rbfill context) (Some (rbfill_integral context))
       (lit f64 (1 / 10000)) (d_int 5) (lit f64 (5 / 1000));
     i \<leftarrow> i;
     let r = fadd f64 (fmul f64 (lit f64 (99 / 100)) rf) (fmul f64 (lit f64 (1 / 100)) pi);
     let r = (if flt (lit f64 (1003 / 1000)) r then lit f64 (1003 / 1000)
              else if flt r (lit f64 (998 / 1000)) then lit f64 (998 / 1000) else r);
     Some (context\<lparr>rratiof := rf, rbfill_integral := i, rratio := r\<rparr>) }"

definition correct_samplerate :: "stream_context \<Rightarrow> int \<Rightarrow> stream_context option" where
  "correct_samplerate context framesize = do {
     ust \<leftarrow> c_int (cframes context + int (nframes context));
     ust \<leftarrow> c_int (ust + int (lagrange_num context));
     c \<leftarrow> (if cframes context \<le> int (nframes context)
       then do {
         rb \<leftarrow> ringbuffer context;
         n \<leftarrow> ringbuffer_read_space rb;
         q \<leftarrow> udiv n (to_size framesize);
         Some (context\<lparr>rbfill := to_i32 (int q)\<rparr>) }
       else Some context);
     target \<leftarrow> c_int (ust + int (add_delay_frames c));
     c \<leftarrow> calc_ratio_correction c target;
     r \<leftarrow> resampler c;
     Some (c\<lparr>resampler := Some (vr_set_rratio r (rratio c))\<rparr>) }"


section \<open>Cycles of the input\<close>

text \<open>
  \<open>calc_input_samplerate\<close>: a pause of more than 100 microseconds before a packet starts a new
  cycle. The result is the return code with the context.
\<close>

definition calc_input_samplerate :: "timespec \<Rightarrow> stream_context \<Rightarrow> vban_header \<Rightarrow> (stream_context \<times> int) option" where
  "calc_input_samplerate clock context h = do {
     let timetmp = input_ts context;
     dt \<leftarrow> ts_diff timetmp (time_old context);
     let n = uint (format_nbs h) + 1;
     (c, ret) \<leftarrow> (if dt > 100000 then do {
         (c, ret) \<leftarrow> (if fst (time_cycle_start context) \<noteq> 0 then do {
             d \<leftarrow> calc_delta_filtered clock ((rx_cycle_delta context)\<lparr>ts_new := timetmp\<rparr>) 3
               (to_fmt f32 (lit f64 (5 / 1000)));
             marr \<leftarrow> mem_store (cframes_marr context) (cfind context) [cycle_frames context];
             m \<leftarrow> cfmed marr;
             Some (context\<lparr>rx_cycle_delta := d, cframes_marr := marr,
               cfind := (if cfind context = CFMSIZE - 1 then 0 else cfind context + 1),
               cframes := m, cycle_pac_cnt := 1, cycle_frames := n,
               flags := flags context AND NOT NET_XRUN\<rparr>, 0) }
           else Some (context, 3));
         Some (c\<lparr>time_cycle_start := timetmp\<rparr>, ret) }
       else do {
         pc \<leftarrow> c_int (cycle_pac_cnt context + 1);
         cf \<leftarrow> c_int (cycle_frames context + n);
         Some (context\<lparr>flags := (if nuFrame h \<noteq> nu_frame context + 1 then flags context OR NET_XRUN
             else flags context), cycle_pac_cnt := pc, cycle_frames := cf\<rparr>, 1) });
     Some (c\<lparr>time_old := timetmp\<rparr>, ret) }"


section \<open>The filter sorts\<close>

lemma cfmed_min_scan:
  assumes "i < n"
  shows "\<exists>mind. fold (\<lambda>j (mn, mind). if array ! j < mn then (array ! j, j) else (mn, mind)) [Suc i..<n] (array ! i, i) =
      (array ! mind, mind) \<and> i \<le> mind \<and> mind < n \<and> (\<forall>j. i \<le> j \<longrightarrow> j < n \<longrightarrow> array ! mind \<le> (array ! j :: int))"
  using assms
proof (induction n)
  case (Suc n)
  show ?case
  proof (cases "i = n")
    case False
    then have i: "i < n" using Suc.prems by simp
    then obtain mind where "fold (\<lambda>j (mn, mind). if array ! j < mn then (array ! j, j) else (mn, mind)) [Suc i..<n] (array ! i, i) =
        (array ! mind, mind)" "i \<le> mind" "mind < n" "\<forall>j. i \<le> j \<longrightarrow> j < n \<longrightarrow> array ! mind \<le> array ! j"
      using Suc.IH by blast
    then show ?thesis using i
      by (intro exI [of _ "if array ! n < array ! mind then n else mind"]) (auto simp: less_Suc_eq dest: less_imp_le)
  qed (auto simp: le_less_Suc_eq)
qed simp

definition selected :: "int list \<Rightarrow> nat \<Rightarrow> int list \<Rightarrow> bool" where
  "selected a k b \<longleftrightarrow> length b = CFMSIZE \<and> mset b = mset a \<and> (\<forall>p q. p < k \<longrightarrow> p < q \<longrightarrow> q < CFMSIZE \<longrightarrow> b ! p \<le> b ! q)"

lemma cfmed_pass_selected:
  assumes "selected a k b" and "k < CFMSIZE"
  shows "selected a (Suc k) (cfmed_pass b k)"
proof -
  obtain m where m: "cfmed_min b k = (b ! m, m)" "k \<le> m" "m < CFMSIZE" "\<forall>j. k \<le> j \<longrightarrow> j < CFMSIZE \<longrightarrow> b ! m \<le> b ! j"
    using cfmed_min_scan [OF assms(2), of b] unfolding cfmed_min_def by blast
  have len: "length b = CFMSIZE" using assms(1) by (simp add: selected_def)
  have pass: "cfmed_pass b k = b[m := b ! k, k := b ! m]" using m(1) by (simp add: cfmed_pass_def)
  have "mset (cfmed_pass b k) = mset b" unfolding pass using len assms(2) m(3) by (intro mset_swap) auto
  moreover have "cfmed_pass b k ! p \<le> cfmed_pass b k ! q" if "p < Suc k" "p < q" "q < CFMSIZE" for p q
    using that assms len m unfolding pass selected_def by (auto simp: nth_list_update less_Suc_eq)
  ultimately show ?thesis using assms(1) by (auto simp: selected_def pass)
qed

lemma cfmed_sort:
  assumes "length a = CFMSIZE"
  shows "cfmed a = Some (sort a ! 3)"
proof -
  have s: "selected a 0 a" using assms by (simp add: selected_def)
  let ?b = "cfmed_pass (cfmed_pass (cfmed_pass (cfmed_pass a 0) 1) 2) 3"
  have "selected a 1 (cfmed_pass a 0)" using cfmed_pass_selected [OF s] by (simp add: CFMSIZE_def)
  then have "selected a 2 (cfmed_pass (cfmed_pass a 0) 1)"
    using cfmed_pass_selected [of a 1] by (simp add: CFMSIZE_def numeral_2_eq_2)
  then have "selected a 3 (cfmed_pass (cfmed_pass (cfmed_pass a 0) 1) 2)"
    using cfmed_pass_selected [of a 2] by (simp add: CFMSIZE_def numeral_3_eq_3)
  then have b: "selected a 4 ?b" using cfmed_pass_selected [of a 3] by (simp add: CFMSIZE_def)
  have "sorted ?b" using b by (auto simp: selected_def CFMSIZE_def sorted_iff_nth_mono_less)
  then have "?b = sort a" using b by (metis properties_for_sort selected_def)
  moreover have "cfmed_loop 3 0 a = ?b"
    by (simp add: cfmed_loop.simps CFMSIZE_def Let_def numeral_2_eq_2 numeral_3_eq_3)
  ultimately show ?thesis using assms by (simp add: cfmed_def mem_load_def CFMSIZE_def)
qed


section \<open>The controller law\<close>

lemma d_int_exact: "\<bar>i\<bar> < 2 ^ 53 \<Longrightarrow> d_int i = FNum (i < 0) (of_int \<bar>i\<bar>)"
  unfolding d_int_def by (subst of_int_fl_exact) (auto simp: f64_def)

lemma d_int_num: "\<bar>i\<bar> < 2 ^ 53 \<Longrightarrow> is_num (d_int i) \<and> mag_ok (d_int i) \<and> fl_val (d_int i) = of_int i"
  by (simp add: d_int_exact)

text \<open>The errors of a product with a literal and of a sum, for operands within a bound.\<close>

lemma near_by: "near z v \<Longrightarrow> \<bar>v\<bar> \<le> B \<Longrightarrow> \<bar>fl_val z - v\<bar> \<le> (B + 1) / 2 ^ 53"
  unfolding near_def by (auto elim!: order_trans intro: divide_right_mono)

lemma lit_times_by:
  assumes c: "\<bar>c\<bar> \<le> 1" and x: "is_num x" "mag_ok x" "\<bar>fl_val x\<bar> \<le> B" and B: "B \<le> 2 ^ 100"
  shows "is_num (fmul f64 (lit f64 c) x) \<and> mag_ok (fmul f64 (lit f64 c) x) \<and>
    \<bar>fl_val (fmul f64 (lit f64 c) x) - c * fl_val x\<bar> \<le> (4 * B + 2) / 2 ^ 53"
proof -
  let ?l = "lit f64 c"
  have big: "\<bar>c\<bar> \<le> 2 ^ 500" using c by (rule order_trans) simp
  have l: "near ?l c" "mag_ok ?l" using near_lit [OF big] mag_ok_lit [OF big] .
  have le: "\<bar>fl_val ?l - c\<bar> \<le> 2 / 2 ^ 53" using near_by [OF l(1) c] by simp
  have B0: "0 \<le> B" using x(3) by linarith
  have e1: "\<bar>fl_val ?l * fl_val x - c * fl_val x\<bar> \<le> 2 / 2 ^ 53 * B"
    unfolding left_diff_distrib [symmetric] abs_mult using le x(3) by (intro mult_mono) auto
  have "\<bar>c * fl_val x\<bar> \<le> 1 * B" unfolding abs_mult using c x(3) by (intro mult_mono) auto
  then have b: "\<bar>fl_val ?l * fl_val x\<bar> \<le> 2 * B"
    using absD [OF e1] abs_leD [of "c * fl_val x" "1 * B"] B0 by (intro absI) auto
  have m: "near (fmul f64 ?l x) (fl_val ?l * fl_val x)" "mag_ok (fmul f64 ?l x)"
    using near_fmul [OF near_is_num [OF l(1)] x(1) l(2) x(2)] order_trans [OF b, of "2 ^ 500"] B by auto
  have "(4 * B + 2) / 2 ^ 53 = (2 * B + 1) / 2 ^ 53 + 2 / 2 ^ 53 * B + 1 / (2 ^ 53 :: rat)"
    by (simp add: add_divide_distrib)
  moreover have "(0 :: rat) \<le> 1 / 2 ^ 53" by simp
  ultimately have "\<bar>fl_val (fmul f64 ?l x) - c * fl_val x\<bar> \<le> (4 * B + 2) / 2 ^ 53"
    using absD [OF near_by [OF m(1) b]] absD [OF e1] by (intro absI) linarith+
  then show ?thesis using m near_is_num [OF m(1)] by blast
qed

lemma add_by:
  assumes "is_num x" and "is_num y" and "\<bar>fl_val x + fl_val y\<bar> \<le> B" and B: "B \<le> 2 ^ 100"
  shows "is_num (fadd f64 x y) \<and> mag_ok (fadd f64 x y) \<and>
    \<bar>fl_val (fadd f64 x y) - (fl_val x + fl_val y)\<bar> \<le> (B + 1) / 2 ^ 53"
proof -
  have b: "\<bar>fl_val x + fl_val y\<bar> \<le> 2 ^ 500" using assms(3) B by (auto elim!: order_trans)
  have n: "near (fadd f64 x y) (fl_val x + fl_val y)" "mag_ok (fadd f64 x y)"
    using near_fadd [OF assms(1,2) b] .
  then show ?thesis using near_by [OF n(1) assms(3)] near_is_num [OF n(1)] by blast
qed

lemma lit_times:
  assumes "\<bar>c\<bar> \<le> 1" and "is_num x" and "mag_ok x" and "\<bar>fl_val x\<bar> \<le> 10000000"
  shows "is_num (fmul f64 (lit f64 c) x) \<and> mag_ok (fmul f64 (lit f64 c) x) \<and>
    \<bar>fl_val (fmul f64 (lit f64 c) x) - c * fl_val x\<bar> \<le> 2 / 1000000"
  using lit_times_by [OF assms] by auto

lemma add_micro:
  assumes "is_num x" and "is_num y" and "\<bar>fl_val x + fl_val y\<bar> \<le> 100000000"
  shows "is_num (fadd f64 x y) \<and> mag_ok (fadd f64 x y) \<and> \<bar>fl_val (fadd f64 x y) - (fl_val x + fl_val y)\<bar> \<le> 1 / 1000000"
  using add_by [OF assms] by auto

text \<open>The ideal law: proportional and integral part, a steeper slope upwards, and the limits.\<close>

definition ideal_ppm :: "rat \<Rightarrow> rat \<Rightarrow> rat" where
  "ideal_ppm d i = (5 * d + 5 / 1000 * i) / 10000"

definition ideal_pi :: "rat \<Rightarrow> rat" where
  "ideal_pi p = 1 + max p (2 * p)"

definition ideal_ratio :: "rat \<Rightarrow> rat \<Rightarrow> rat" where
  "ideal_ratio d i = max (998 / 1000) (min (1003 / 1000) (99 / 100 + ideal_pi (ideal_ppm d i) / 100))"

lemma clamp_integral:
  assumes "is_num x"
  defines "z \<equiv> (let i = (if flt (d_int 1000) x then d_int 1000 else x) in if flt i (d_int (- 1000)) then d_int (- 1000) else i)"
  shows "is_num z \<and> (mag_ok x \<longrightarrow> mag_ok z) \<and> fl_val z = max (- 1000) (min 1000 (fl_val x))"
  using assms(1) d_int_num [of 1000] d_int_num [of "- 1000"] unfolding z_def Let_def
  by (auto simp: max_def min_def)

lemma rbfill_pi_law:
  assumes i: "is_num i" "mag_ok i" "\<bar>fl_val i\<bar> \<le> 1000" and d: "\<bar>needed - fill\<bar> \<le> 1000000"
  shows "\<exists>i' y. calc_rbfill_pi needed fill (Some i) (lit f64 (1 / 10000)) (d_int 5) (lit f64 (5 / 1000)) = Some (Some i', y) \<and>
    is_num i' \<and> mag_ok i' \<and> \<bar>fl_val i'\<bar> \<le> 1000 \<and>
    \<bar>fl_val i' - max (- 1000) (min 1000 (fl_val i + of_int (needed - fill)))\<bar> \<le> 1 / 1000000000 \<and>
    is_num y \<and> mag_ok y \<and> \<bar>fl_val y - ideal_pi (ideal_ppm (of_int (needed - fill)) (fl_val i'))\<bar> \<le> 10 / 1000000000"
proof -
  let ?d = "needed - fill"
  define dd where "dd = (of_int ?d :: rat)"
  have dd: "\<bar>dd\<bar> \<le> 1000000" using d unfolding dd_def by (metis of_int_abs of_int_le_iff of_int_numeral)
  have D: "is_num (d_int ?d)" "mag_ok (d_int ?d)" "fl_val (d_int ?d) = dd"
    using d_int_num [of ?d] d by (auto simp: dd_def)
  have ci: "c_int ?d = Some ?d" using d by (simp add: c_int_def abs_le_iff)
  let ?i1 = "fadd f64 i (d_int ?d)"
  have i1: "is_num ?i1" "mag_ok ?i1" "\<bar>fl_val ?i1 - (fl_val i + dd)\<bar> \<le> 1 / 1000000000"
    using add_by [OF i(1) D(1), of 1001000] abs_leD [OF i(3)] abs_leD [OF dd] D(3) by (auto simp: abs_le_iff)
  define i' where "i' = (let i = (if flt (d_int 1000) ?i1 then d_int 1000 else ?i1) in
    if flt i (d_int (- 1000)) then d_int (- 1000) else i)"
  have i': "is_num i'" "mag_ok i'" "fl_val i' = max (- 1000) (min 1000 (fl_val ?i1))"
    using clamp_integral [OF i1(1)] i1(2) unfolding i'_def by auto
  have ib: "\<bar>fl_val i'\<bar> \<le> 1000" using i'(3) by (auto simp: abs_le_iff)
  have ie: "\<bar>fl_val i' - max (- 1000) (min 1000 (fl_val i + dd))\<bar> \<le> 1 / 1000000000"
    using i1(3) unfolding i'(3) by (auto simp: max_def min_def abs_le_iff)
  let ?a = "fmul f64 (d_int 5) (d_int ?d)"
  have five: "is_num (d_int 5)" "mag_ok (d_int 5)" "fl_val (d_int 5) = 5" using d_int_num [of 5] by auto
  have ab: "- 5000000 \<le> 5 * dd" "5 * dd \<le> 5000000" using abs_leD [OF dd] by linarith+
  have a: "near ?a (5 * dd)" "mag_ok ?a"
    using near_fmul [OF five(1) D(1) five(2) D(2)] ab unfolding five(3) D(3) by (auto simp: abs_le_iff)
  note an = near_is_num [OF a(1)]
  have ae: "\<bar>fl_val ?a - 5 * dd\<bar> \<le> 1 / 1000000000" using near_by [OF a(1), of 5000000] ab by (auto simp: abs_le_iff)
  let ?b = "fmul f64 (lit f64 (5 / 1000)) i'"
  have b: "is_num ?b" "mag_ok ?b" "\<bar>fl_val ?b - 5 / 1000 * fl_val i'\<bar> \<le> 2 / 1000000000"
    using lit_times_by [of "5 / 1000" i' 1000] i'(1,2) ib by auto
  let ?s = "fadd f64 ?a ?b"
  have av: "5 * dd - 1 / 1000000000 \<le> fl_val ?a" "fl_val ?a \<le> 5 * dd + 1 / 1000000000" using absD [OF ae] by auto
  have bv: "fl_val ?b \<le> 5 / 1000 * fl_val i' + 2 / 1000000000" "5 / 1000 * fl_val i' - 2 / 1000000000 \<le> fl_val ?b"
    using absD [OF b(3)] by auto
  have iv: "fl_val i' \<le> 1000" "- 1000 \<le> fl_val i'" using abs_leD [OF ib] by auto
  have "\<bar>fl_val ?a + fl_val ?b\<bar> \<le> 5100000" using av bv iv ab by (intro absI) linarith+
  then have s: "is_num ?s" "mag_ok ?s" "\<bar>fl_val ?s - (fl_val ?a + fl_val ?b)\<bar> \<le> 1 / 1000000000"
    using add_by [OF an b(1), of 5100000] by auto
  have sv: "fl_val ?s \<le> 5 * dd + 5 / 1000 * fl_val i' + 4 / 1000000000"
    "5 * dd + 5 / 1000 * fl_val i' - 4 / 1000000000 \<le> fl_val ?s"
    using absD [OF s(3)] av bv by linarith+
  have sb: "\<bar>fl_val ?s\<bar> \<le> 5100000" using sv iv ab by (intro absI) linarith+
  let ?p = "fmul f64 (lit f64 (1 / 10000)) ?s"
  have p: "is_num ?p" "mag_ok ?p" "\<bar>fl_val ?p - 1 / 10000 * fl_val ?s\<bar> \<le> 25 / 10000000000"
    using lit_times_by [OF _ s(1,2) sb, of "1 / 10000"] by auto
  define q where "q = ideal_ppm dd (fl_val i')"
  have pq: "fl_val ?p \<le> q + 3 / 1000000000" "q - 3 / 1000000000 \<le> fl_val ?p"
    using absD [OF p(3)] sv unfolding q_def ideal_ppm_def by (simp_all add: field_simps)
  have qb: "- 1000 \<le> q" "q \<le> 1000" using ab iv unfolding q_def ideal_ppm_def by (simp_all add: field_simps)
  have one: "is_num d_one" "fl_val d_one = 1" "is_num d_zero" "fl_val d_zero = 0" by (simp_all add: d_one_def d_zero_def)
  have two: "is_num (d_int 2)" "mag_ok (d_int 2)" "fl_val (d_int 2) = 2" using d_int_num [of 2] by auto
  let ?y = "if flt ?p d_zero then fadd f64 d_one ?p else fadd f64 d_one (fmul f64 (d_int 2) ?p)"
  have y: "is_num ?y \<and> mag_ok ?y \<and> \<bar>fl_val ?y - ideal_pi q\<bar> \<le> 10 / 1000000000"
  proof (cases "flt ?p d_zero")
    case True
    then have neg: "fl_val ?p < 0" using p(1) one by simp
    have "\<bar>fl_val d_one + fl_val ?p\<bar> \<le> 10000" using pq qb one(2) by (intro absI) linarith+
    note t = add_by [OF one(1) p(1) this]
    have te: "\<bar>fl_val (fadd f64 d_one ?p) - (1 + fl_val ?p)\<bar> \<le> 1 / 1000000000" using t one(2) by simp
    have "\<bar>fl_val (fadd f64 d_one ?p) - ideal_pi q\<bar> \<le> 10 / 1000000000"
      using absD [OF te] pq neg unfolding ideal_pi_def max_def by (intro absI) (auto split: if_splits)
    then show ?thesis using True t by simp
  next
    case False
    then have pos: "0 \<le> fl_val ?p" using p(1) one by simp
    let ?m = "fmul f64 (d_int 2) ?p"
    have mb: "- 5000 \<le> 2 * fl_val ?p" "2 * fl_val ?p \<le> 5000" using pq qb by linarith+
    have m: "near ?m (2 * fl_val ?p)" "mag_ok ?m"
      using near_fmul [OF two(1) p(1) two(2) p(2)] mb unfolding two(3) by (auto simp: abs_le_iff)
    have "\<bar>fl_val ?m - 2 * fl_val ?p\<bar> \<le> 1 / 1000000000" using near_by [OF m(1), of 5000] mb by (auto simp: abs_le_iff)
    then have me: "2 * fl_val ?p - 1 / 1000000000 \<le> fl_val ?m" "fl_val ?m \<le> 2 * fl_val ?p + 1 / 1000000000"
      using absD by blast+
    have "\<bar>fl_val d_one + fl_val ?m\<bar> \<le> 10000" using me mb one(2) by (intro absI) linarith+
    note t = add_by [OF one(1) near_is_num [OF m(1)] this]
    have te: "\<bar>fl_val (fadd f64 d_one ?m) - (1 + fl_val ?m)\<bar> \<le> 1 / 1000000000" using t one(2) by simp
    have "\<bar>fl_val (fadd f64 d_one ?m) - ideal_pi q\<bar> \<le> 10 / 1000000000"
      using absD [OF te] me pq pos unfolding ideal_pi_def max_def by (intro absI) (auto split: if_splits)
    then show ?thesis using False t by simp
  qed
  have "calc_rbfill_pi needed fill (Some i) (lit f64 (1 / 10000)) (d_int 5) (lit f64 (5 / 1000)) = Some (Some i', ?y)"
    unfolding calc_rbfill_pi_def option.case ci Let_def i'_def by simp
  then show ?thesis using i' ib ie y unfolding dd_def q_def by blast
qed

lemma rratiof_reset:
  assumes "x = d_zero \<or> x = d_one"
  shows "(if flt (lit f64 (25 / 10000)) (d_mag (fsub f64 x d_one)) then d_one else x) = d_one"
proof -
  have l: "near (lit f64 (25 / 10000)) (25 / 10000)" by (rule near_lit) simp
  have lb: "is_num (lit f64 (25 / 10000))" "0 < fl_val (lit f64 (25 / 10000))" "fl_val (lit f64 (25 / 10000)) < 1"
    using near_is_num [OF l] near_micro [OF l] by auto
  show ?thesis
  proof (cases "x = d_one")
    case True
    have "fsub f64 d_one d_one = d_zero" by (simp add: fsub_def d_one_def d_zero_def)
    moreover have "is_num d_zero" "fl_val d_zero = 0" by (simp_all add: d_zero_def)
    ultimately show ?thesis using True lb by (simp add: d_mag_def)
  next
    case False
    then have "x = d_zero" using assms by simp
    have "exact_mag f64 1" unfolding exact_mag_def by (intro exI [of _ 1] exI [of _ 0]) (simp add: f64_def)
    then have "fsub f64 d_zero d_one = FNum True 1"
      using rnd_exact [of f64 1 True] by (simp add: fsub_def d_one_def d_zero_def f64_def)
    then have "d_mag (fsub f64 d_zero d_one) = d_one" by (simp add: d_mag_def d_one_def d_zero_def)
    moreover have "is_num d_one" "fl_val d_one = 1" by (simp_all add: d_one_def)
    ultimately show ?thesis using \<open>x = d_zero\<close> lb by simp
  qed
qed

definition rate_ok :: "stream_context \<Rightarrow> bool" where
  "rate_ok c \<longleftrightarrow> (rratiof c = d_zero \<or> rratiof c = d_one) \<and> is_num (rbfill_integral c) \<and>
     mag_ok (rbfill_integral c) \<and> \<bar>fl_val (rbfill_integral c)\<bar> \<le> 1000 \<and> 0 \<le> cframes c \<and>
     cframes c < 2 ^ 28 \<and> nframes c < 2 ^ 16 \<and> lagrange_num c < 2 ^ 16 \<and> add_delay_frames c < 2 ^ 16"

lemma ratio_correction_ok:
  assumes ok: "rate_ok c" and d: "\<bar>target - rbfill c\<bar> \<le> 1000000"
  shows "\<exists>i r. calc_ratio_correction c target = Some (c\<lparr>rratiof := d_one, rbfill_integral := i, rratio := r\<rparr>) \<and>
    is_num i \<and> mag_ok i \<and> \<bar>fl_val i\<bar> \<le> 1000 \<and>
    \<bar>fl_val i - max (- 1000) (min 1000 (fl_val (rbfill_integral c) + of_int (target - rbfill c)))\<bar> \<le> 1 / 1000000000 \<and>
    is_num r \<and> mag_ok r \<and> fl_val (lit f64 (998 / 1000)) \<le> fl_val r \<and> fl_val r \<le> fl_val (lit f64 (1003 / 1000)) \<and>
    \<bar>fl_val r - ideal_ratio (of_int (target - rbfill c)) (fl_val i)\<bar> \<le> 1 / 1000000000"
proof -
  have I: "is_num (rbfill_integral c)" "mag_ok (rbfill_integral c)" "\<bar>fl_val (rbfill_integral c)\<bar> \<le> 1000"
    using ok by (simp_all add: rate_ok_def)
  obtain i y where pi: "calc_rbfill_pi target (rbfill c) (Some (rbfill_integral c)) (lit f64 (1 / 10000)) (d_int 5)
        (lit f64 (5 / 1000)) = Some (Some i, y)"
    and i: "is_num i" "mag_ok i" "\<bar>fl_val i\<bar> \<le> 1000"
      "\<bar>fl_val i - max (- 1000) (min 1000 (fl_val (rbfill_integral c) + of_int (target - rbfill c)))\<bar> \<le> 1 / 1000000000"
    and y: "is_num y" "mag_ok y" "\<bar>fl_val y - ideal_pi (ideal_ppm (of_int (target - rbfill c)) (fl_val i))\<bar> \<le> 10 / 1000000000"
    using rbfill_pi_law [OF I d] by blast
  define e where "e = ideal_pi (ideal_ppm (of_int (target - rbfill c)) (fl_val i))"
  have eb: "- 1000 \<le> e" "e \<le> 2001"
  proof -
    have "\<bar>of_int (target - rbfill c)\<bar> \<le> (1000000 :: rat)" using d by (metis of_int_abs of_int_le_iff of_int_numeral)
    then have "- 501 \<le> ideal_ppm (of_int (target - rbfill c)) (fl_val i)" "ideal_ppm (of_int (target - rbfill c)) (fl_val i) \<le> 501"
      using i(3) unfolding ideal_ppm_def by (simp_all add: field_simps abs_le_iff)
    then show "- 1000 \<le> e" "e \<le> 2001" unfolding e_def ideal_pi_def max_def by auto
  qed
  have ye: "fl_val y \<le> e + 10 / 1000000000" "e - 10 / 1000000000 \<le> fl_val y" using absD [OF y(3)] by (auto simp: e_def)
  have one: "is_num d_one" "mag_ok d_one" "fl_val d_one = 1" by (simp_all add: d_one_def)
  let ?a = "fmul f64 (lit f64 (99 / 100)) d_one" and ?b = "fmul f64 (lit f64 (1 / 100)) y"
  have a: "is_num ?a" "\<bar>fl_val ?a - 99 / 100\<bar> \<le> 1 / 10000000000" using lit_times_by [of "99 / 100" d_one 1] one by auto
  have "\<bar>fl_val y\<bar> \<le> 2100" using ye eb by (intro absI) linarith+
  then have b: "is_num ?b" "\<bar>fl_val ?b - 1 / 100 * fl_val y\<bar> \<le> 1 / 10000000000"
    using lit_times_by [of "1 / 100" y 2100] y(1,2) by auto
  let ?s = "fadd f64 ?a ?b"
  have "\<bar>fl_val ?a + fl_val ?b\<bar> \<le> 10000" using absD [OF a(2)] absD [OF b(2)] ye eb by (intro absI) linarith+
  then have s: "is_num ?s" "mag_ok ?s" "\<bar>fl_val ?s - (fl_val ?a + fl_val ?b)\<bar> \<le> 1 / 10000000000"
    using add_by [OF a(1) b(1), of 10000] by auto
  have sv: "fl_val ?s \<le> 99 / 100 + e / 100 + 6 / 10000000000" "99 / 100 + e / 100 - 6 / 10000000000 \<le> fl_val ?s"
    using absD [OF s(3)] absD [OF a(2)] absD [OF b(2)] ye by linarith+
  let ?hi = "lit f64 (1003 / 1000)" and ?lo = "lit f64 (998 / 1000)"
  have h: "near ?hi (1003 / 1000)" "mag_ok ?hi" and l: "near ?lo (998 / 1000)" "mag_ok ?lo"
    by (rule near_lit mag_ok_lit, simp)+
  have hv: "1003 / 1000 - 1 / 10000000000 \<le> fl_val ?hi" "fl_val ?hi \<le> 1003 / 1000 + 1 / 10000000000"
    and lv: "998 / 1000 - 1 / 10000000000 \<le> fl_val ?lo" "fl_val ?lo \<le> 998 / 1000 + 1 / 10000000000"
    using near_bounds [OF h(1)] near_bounds [OF l(1)] by auto
  define r where "r = (if flt ?hi ?s then ?hi else if flt ?s ?lo then ?lo else ?s)"
  have r: "is_num r" "mag_ok r" "fl_val ?lo \<le> fl_val r" "fl_val r \<le> fl_val ?hi"
    using s h(2) l(2) near_is_num [OF h(1)] near_is_num [OF l(1)] hv lv unfolding r_def by auto
  have "\<bar>fl_val r - max (998 / 1000) (min (1003 / 1000) (99 / 100 + e / 100))\<bar> \<le> 1 / 1000000000"
    using s(1) near_is_num [OF h(1)] near_is_num [OF l(1)] hv lv sv unfolding r_def max_def min_def
    by (intro absI) (auto split: if_splits)
  then have rl: "\<bar>fl_val r - ideal_ratio (of_int (target - rbfill c)) (fl_val i)\<bar> \<le> 1 / 1000000000"
    by (simp add: ideal_ratio_def e_def)
  have n: "int (nframes c) < 2 ^ 16" "int (lagrange_num c) < 2 ^ 16" "0 \<le> cframes c" "cframes c < 2 ^ 28"
    using ok by (simp_all add: rate_ok_def)
  have ci: "c_int (int (nframes c) + cframes c) = Some (int (nframes c) + cframes c)"
    "c_int (int (nframes c) + cframes c + int (lagrange_num c)) = Some (int (nframes c) + cframes c + int (lagrange_num c))"
    "c_int ((int (nframes c) + cframes c + int (lagrange_num c)) * 2) = Some ((int (nframes c) + cframes c + int (lagrange_num c)) * 2)"
    "c_int (rbfill c - target) = Some (rbfill c - target)"
    using n d by (simp_all add: c_int_def abs_le_iff)
  have rf: "(if flt (lit f64 (25 / 10000)) (d_mag (fsub f64 (rratiof c) d_one)) then d_one else rratiof c) = d_one"
    using ok by (intro rratiof_reset) (simp add: rate_ok_def)
  have "calc_ratio_correction c target = Some (c\<lparr>rratiof := d_one, rbfill_integral := i, rratio := r\<rparr>)"
    unfolding calc_ratio_correction_def rf Let_def r_def
    by (simp only: ci pi Option.bind.bind_lunit prod.case)
  then show ?thesis using i r rl by blast
qed


text \<open>The whole correction: the ratio reaches the resampler, which stays in a good state.\<close>

lemma correct_samplerate_ok:
  assumes ok: "rate_ok c" and rs: "resampler c = Some r" "vr_ok t r"
    and rb: "ringbuffer c = Some rb" "rb_ok rb" and fs: "0 < framesize" "framesize < 2 ^ 20"
    and fill: "fillv = (if cframes c \<le> int (nframes c) then int (rb_fill rb div nat framesize) else rbfill c)"
    and tgt: "target = cframes c + int (nframes c) + int (lagrange_num c) + int (add_delay_frames c)"
    and small: "\<bar>target - fillv\<bar> \<le> 1000000" "rb_size rb < 2 ^ 31"
  shows "\<exists>i x r'. correct_samplerate c framesize =
      Some (c\<lparr>rbfill := fillv, rratiof := d_one, rbfill_integral := i, rratio := x, resampler := Some r'\<rparr>) \<and>
    r' = vr_set_rratio r x \<and> vr_ok t r' \<and> rate_ok (c\<lparr>rbfill := fillv, rratiof := d_one, rbfill_integral := i, rratio := x, resampler := Some r'\<rparr>) \<and>
    \<bar>fl_val i - max (- 1000) (min 1000 (fl_val (rbfill_integral c) + of_int (target - fillv)))\<bar> \<le> 1 / 1000000000 \<and>
    \<bar>fl_val x - ideal_ratio (of_int (target - fillv)) (fl_val i)\<bar> \<le> 1 / 1000000000"
proof -
  have n: "int (nframes c) < 2 ^ 16" "int (lagrange_num c) < 2 ^ 16" "0 \<le> cframes c" "cframes c < 2 ^ 28"
      "int (add_delay_frames c) < 2 ^ 16"
    using ok by (simp_all add: rate_ok_def)
  have ci: "c_int (cframes c + int (nframes c)) = Some (cframes c + int (nframes c))"
    "c_int (cframes c + int (nframes c) + int (lagrange_num c)) = Some (cframes c + int (nframes c) + int (lagrange_num c))"
    "c_int (cframes c + int (nframes c) + int (lagrange_num c) + int (add_delay_frames c)) = Some target"
    using n by (simp_all add: c_int_def tgt)
  let ?c = "c\<lparr>rbfill := fillv\<rparr>"
  have upd: "(if cframes c \<le> int (nframes c)
       then do { rb \<leftarrow> ringbuffer c; n \<leftarrow> ringbuffer_read_space rb; q \<leftarrow> udiv n (to_size framesize);
         Some (c\<lparr>rbfill := to_i32 (int q)\<rparr>) }
       else Some c) = Some ?c"
  proof (cases "cframes c \<le> int (nframes c)")
    case True
    have f: "to_size framesize = nat framesize" using fs by (simp add: to_size_def)
    have "rb_fill rb < rb_size rb" by (rule rb_fill_less [OF rb(2)])
    then have "rb_fill rb div nat framesize < 2 ^ 31"
      using small(2) div_le_dividend [of "rb_fill rb" "nat framesize"] by linarith
    then have "to_i32 (int (rb_fill rb div nat framesize)) = int (rb_fill rb div nat framesize)"
      by (rule to_i32_nat)
    then show ?thesis using True rb fs f read_space_ok [OF rb(2)] by (simp add: fill)
  next
    case False
    then show ?thesis by (simp add: fill)
  qed
  have ok': "rate_ok ?c" using ok by (simp add: rate_ok_def)
  obtain i x where ix: "calc_ratio_correction ?c target = Some (?c\<lparr>rratiof := d_one, rbfill_integral := i, rratio := x\<rparr>)"
      "is_num i" "mag_ok i" "\<bar>fl_val i\<bar> \<le> 1000" "is_num x" "mag_ok x"
      "\<bar>fl_val x - ideal_ratio (of_int (target - fillv)) (fl_val i)\<bar> \<le> 1 / 1000000000"
      "\<bar>fl_val i - max (- 1000) (min 1000 (fl_val (rbfill_integral c) + of_int (target - fillv)))\<bar> \<le> 1 / 1000000000"
    using ratio_correction_ok [OF ok', of target] small(1) by auto
  have "x \<noteq> FNaN" using ix(5) by auto
  then have r': "vr_ok t (vr_set_rratio r x)" using set_rratio_ok(1) [OF rs(2) _ ix(6)] by blast
  have "correct_samplerate c framesize =
      Some (?c\<lparr>rratiof := d_one, rbfill_integral := i, rratio := x, resampler := Some (vr_set_rratio r x)\<rparr>)"
    unfolding correct_samplerate_def by (simp add: upd ci ix(1) rs(1))
  then show ?thesis using r' ix ok' by (intro exI [of _ i] exI [of _ x] exI [of _ "vr_set_rratio r x"]) (simp add: rate_ok_def)
qed


section \<open>Bursts\<close>

text \<open>
  The packets of one cycle, as the time stamp, the sample field and the number each arrives with;
  the sender's packet number is remembered after every packet, as the packet handler does.
\<close>

fun cycle_run :: "timespec \<Rightarrow> (timespec \<times> vban_header) list \<Rightarrow> stream_context \<Rightarrow> stream_context option" where
  "cycle_run clock [] c = Some c"
| "cycle_run clock ((ts, h) # ps) c = do {
     (c, _) \<leftarrow> calc_input_samplerate clock (c\<lparr>input_ts := ts\<rparr>) h;
     cycle_run clock ps (c\<lparr>nu_frame := nuFrame h\<rparr>) }"

fun close_by :: "timespec \<Rightarrow> (timespec \<times> vban_header) list \<Rightarrow> bool" where
  "close_by t [] \<longleftrightarrow> True"
| "close_by t ((ts, h) # ps) \<longleftrightarrow> (\<exists>d. ts_diff ts t = Some d \<and> d \<le> 100000) \<and> close_by ts ps"

definition frames_of :: "(timespec \<times> vban_header) list \<Rightarrow> int" where
  "frames_of ps = (\<Sum>(ts, h) \<leftarrow> ps. uint (format_nbs h) + 1)"

lemma frames_of_nonneg: "0 \<le> frames_of ps"
  by (induction ps) (auto simp: frames_of_def add_nonneg_nonneg)

lemma frames_of_Cons: "frames_of ((ts, h) # ps) = uint (format_nbs h) + 1 + frames_of ps"
  by (simp add: frames_of_def)

lemma burst_counts:
  assumes "close_by (time_old c) ps" and "0 \<le> cycle_frames c" and "cycle_frames c + frames_of ps < 2 ^ 31"
    and "0 \<le> cycle_pac_cnt c" and "cycle_pac_cnt c + int (length ps) < 2 ^ 31"
  shows "\<exists>c'. cycle_run clock ps c = Some c' \<and> cycle_frames c' = cycle_frames c + frames_of ps \<and>
    cycle_pac_cnt c' = cycle_pac_cnt c + int (length ps) \<and> cframes_marr c' = cframes_marr c \<and> cfind c' = cfind c \<and>
    time_cycle_start c' = time_cycle_start c \<and> rx_cycle_delta c' = rx_cycle_delta c \<and> cframes c' = cframes c \<and>
    time_old c' = (if ps = [] then time_old c else fst (last ps))"
  using assms
proof (induction ps arbitrary: c)
  case Nil
  then show ?case by (simp add: frames_of_def)
next
  case (Cons p ps)
  obtain ts h where p: "p = (ts, h)" by (cases p)
  obtain d where d: "ts_diff ts (time_old c) = Some d" "d \<le> 100000" "close_by ts ps"
    using Cons.prems(1) p by auto
  let ?n = "uint (format_nbs h) + 1"
  have n: "0 \<le> ?n" by (simp add: add_nonneg_nonneg)
  have f: "cycle_frames c + ?n + frames_of ps < 2 ^ 31" using Cons.prems(3) p by (simp add: frames_of_Cons)
  have ci: "c_int (cycle_pac_cnt c + 1) = Some (cycle_pac_cnt c + 1)" "c_int (cycle_frames c + ?n) = Some (cycle_frames c + ?n)"
    using Cons.prems n f frames_of_nonneg [of ps] by (simp_all add: c_int_def)
  let ?c = "c\<lparr>input_ts := ts, flags := (if nuFrame h \<noteq> nu_frame c + 1 then flags c OR NET_XRUN else flags c),
    cycle_pac_cnt := cycle_pac_cnt c + 1, cycle_frames := cycle_frames c + ?n, time_old := ts, nu_frame := nuFrame h\<rparr>"
  have step: "cycle_run clock (p # ps) c = cycle_run clock ps ?c"
    using d p ci by (simp add: calc_input_samplerate_def Let_def)
  have "close_by (time_old ?c) ps" "0 \<le> cycle_frames ?c" "cycle_frames ?c + frames_of ps < 2 ^ 31"
    "0 \<le> cycle_pac_cnt ?c" "cycle_pac_cnt ?c + int (length ps) < 2 ^ 31"
    using d Cons.prems n f by simp_all
  from Cons.IH [OF this] show ?case unfolding step using p by (auto simp: frames_of_Cons)
qed

definition ts_ok :: "timespec \<Rightarrow> bool" where
  "ts_ok t \<longleftrightarrow> 0 \<le> fst t \<and> fst t < 2 ^ 32 \<and> 0 \<le> snd t \<and> snd t < 1000000000"

definition nanos :: "timespec \<Rightarrow> int" where
  "nanos t = fst t * 1000000000 + snd t"

lemma ts_diff_ok: "ts_ok a \<Longrightarrow> ts_ok b \<Longrightarrow> ts_diff a b = Some (nanos a - nanos b)"
  by (simp add: ts_ok_def ts_diff_def c_long_def nanos_def algebra_simps)

lemma delta_filtered_ok:
  assumes "ts_ok (ts_new d)" and "ts_ok (ts_old d)" and "ts_ok clock" and "0 < order"
  shows "\<exists>d'. calc_delta_filtered clock d order w = Some d' \<and> ts_ok (ts_old d')"
  using assms unfolding calc_delta_filtered_def by (simp add: ts_diff_ok Let_def)

definition cyc_ok :: "stream_context \<Rightarrow> bool" where
  "cyc_ok c \<longleftrightarrow> length (cframes_marr c) = CFMSIZE \<and> cfind c < CFMSIZE \<and> ts_ok (time_old c) \<and>
     ts_ok (ts_old (rx_cycle_delta c))"

lemma cycle_start_ok:
  assumes ok: "cyc_ok c" and st: "fst (time_cycle_start c) \<noteq> 0" and ts: "ts_ok ts" "ts_ok clock"
    and pause: "nanos ts - nanos (time_old c) > 100000"
  shows "\<exists>c'. calc_input_samplerate clock (c\<lparr>input_ts := ts\<rparr>) h = Some (c', 0) \<and> cyc_ok c' \<and>
    cframes_marr c' = (cframes_marr c)[cfind c := cycle_frames c] \<and> cfind c' = (cfind c + 1) mod CFMSIZE \<and>
    cframes c' = sort (cframes_marr c') ! 3 \<and> cycle_frames c' = uint (format_nbs h) + 1 \<and> cycle_pac_cnt c' = 1 \<and>
    time_cycle_start c' = ts \<and> time_old c' = ts"
proof -
  let ?c = "c\<lparr>input_ts := ts\<rparr>"
  let ?marr = "(cframes_marr c)[cfind c := cycle_frames c]"
  have len: "length (cframes_marr c) = CFMSIZE" "cfind c < CFMSIZE" using ok by (simp_all add: cyc_ok_def)
  obtain d where d: "calc_delta_filtered clock ((rx_cycle_delta c)\<lparr>ts_new := ts\<rparr>) 3 (to_fmt f32 (lit f64 (5 / 1000))) = Some d"
      "ts_ok (ts_old d)"
    using delta_filtered_ok [of "(rx_cycle_delta c)\<lparr>ts_new := ts\<rparr>" clock 3] ok ts by (auto simp: cyc_ok_def)
  have dt: "ts_diff ts (time_old c) = Some (nanos ts - nanos (time_old c))"
    using ok ts by (intro ts_diff_ok) (auto simp: cyc_ok_def)
  have st1: "mem_store (cframes_marr c) (cfind c) [cycle_frames c] = Some ?marr"
    using len by (simp add: mem_store_def blit_def upd_conv_take_nth_drop)
  have cf: "cfmed ?marr = Some (sort ?marr ! 3)" using len by (intro cfmed_sort) simp
  let ?r = "?c\<lparr>rx_cycle_delta := d, cframes_marr := ?marr, cfind := (cfind c + 1) mod CFMSIZE,
    cframes := sort ?marr ! 3, cycle_pac_cnt := 1, cycle_frames := uint (format_nbs h) + 1,
    flags := flags c AND NOT NET_XRUN, time_cycle_start := ts, time_old := ts\<rparr>"
  have "calc_input_samplerate clock ?c h = Some (?r, 0)"
    unfolding calc_input_samplerate_def Let_def
    using pause st len(2) by (simp add: dt d(1) [simplified] st1 cf)
  moreover have "cyc_ok ?r" using len d(2) ts by (simp add: cyc_ok_def CFMSIZE_def)
  ultimately show ?thesis by (intro exI [of _ ?r]) simp
qed

fun burst_after :: "timespec \<Rightarrow> (timespec \<times> vban_header) list \<Rightarrow> bool" where
  "burst_after t [] \<longleftrightarrow> True"
| "burst_after t ((ts, h) # ps) \<longleftrightarrow> ts_ok ts \<and> nanos ts - nanos t \<le> 100000 \<and> burst_after ts ps"

lemma burst_close: "burst_after t ps \<Longrightarrow> ts_ok t \<Longrightarrow> close_by t ps \<and> ts_ok (if ps = [] then t else fst (last ps))"
  by (induction t ps rule: burst_after.induct) (auto simp: ts_diff_ok)

lemma cycle_run_append:
  "cycle_run clock (ps @ qs) c = Option.bind (cycle_run clock ps c) (cycle_run clock qs)"
proof (induction ps arbitrary: c)
  case (Cons p ps)
  then show ?case by (cases p) (auto split: Option.bind_split)
qed simp


section \<open>Properties\<close>

text \<open>
  C7: The controller of the receiver follows its law: from the fill of the ring (measured when a
  cycle brings no more than a period) it adds the missing frames to the integral, which is held
  between -1000 and 1000, and computes a resampling ratio from both (proportional and integral part,
  twice as steep upwards, held between 0.998 and 1.003); the integral and the ratio are within
  \<open>10 ^ - 9\<close> of those of exact arithmetic, where one missing frame moves the ratio by
  \<open>5 * 10 ^ - 6\<close> or twice that directly and by a thousandth of it through the integral. The resampler
  takes the ratio and stays in a good state. All arithmetic is the rounded one of the code.
\<close>

theorem controller_law:
  assumes "rate_ok c" and "resampler c = Some r" and "vr_ok t r" and "ringbuffer c = Some rb" and "rb_ok rb"
    and "0 < framesize" and "framesize < 2 ^ 20" and "rb_size rb < 2 ^ 31"
    and "fillv = (if cframes c \<le> int (nframes c) then int (rb_fill rb div nat framesize) else rbfill c)"
    and "target = cframes c + int (nframes c) + int (lagrange_num c) + int (add_delay_frames c)"
    and "\<bar>target - fillv\<bar> \<le> 1000000"
  shows "\<exists>c'. correct_samplerate c framesize = Some c' \<and> rate_ok c' \<and> rbfill c' = fillv \<and>
    \<bar>fl_val (rbfill_integral c') - max (- 1000) (min 1000 (fl_val (rbfill_integral c) + of_int (target - fillv)))\<bar> \<le>
      1 / 10 ^ 9 \<and>
    \<bar>fl_val (rbfill_integral c')\<bar> \<le> 1000 \<and>
    \<bar>fl_val (rratio c') - ideal_ratio (of_int (target - fillv)) (fl_val (rbfill_integral c'))\<bar> \<le> 1 / 10 ^ 9 \<and>
    resampler c' = Some (vr_set_rratio r (rratio c')) \<and> vr_ok t (vr_set_rratio r (rratio c'))"
proof -
  show ?thesis
    using correct_samplerate_ok [OF assms(1-7,9-11,8)]
  proof (elim exE conjE)
    fix i x r'
    let ?c = "c\<lparr>rbfill := fillv, rratiof := d_one, rbfill_integral := i, rratio := x, resampler := Some r'\<rparr>"
    assume run: "correct_samplerate c framesize = Some ?c" "r' = vr_set_rratio r x" "vr_ok t r'" "rate_ok ?c"
      "\<bar>fl_val i - max (- 1000) (min 1000 (fl_val (rbfill_integral c) + of_int (target - fillv)))\<bar> \<le> 1 / 1000000000"
      "\<bar>fl_val x - ideal_ratio (of_int (target - fillv)) (fl_val i)\<bar> \<le> 1 / 1000000000"
    then have "\<bar>fl_val i\<bar> \<le> 1000" by (simp add: rate_ok_def)
    then show ?thesis using run by (intro exI [of _ ?c]) simp
  qed
qed

theorem controller_law_witness:
  "let c = zero_context\<lparr>resampler := Some example_resampler, ringbuffer := Some ring_example, nframes := 4\<rparr>;
       fillv = int (rb_fill ring_example div nat 1) in
   \<exists>c'. correct_samplerate c 1 = Some c' \<and> rate_ok c' \<and> rbfill c' = fillv \<and>
    \<bar>fl_val (rbfill_integral c') - max (- 1000) (min 1000 (fl_val (rbfill_integral c) + of_int (4 - fillv)))\<bar> \<le> 1 / 10 ^ 9 \<and>
    \<bar>fl_val (rbfill_integral c')\<bar> \<le> 1000 \<and>
    \<bar>fl_val (rratio c') - ideal_ratio (of_int (4 - fillv)) (fl_val (rbfill_integral c'))\<bar> \<le> 1 / 10 ^ 9 \<and>
    resampler c' = Some (vr_set_rratio example_resampler (rratio c')) \<and>
    vr_ok example_table (vr_set_rratio example_resampler (rratio c'))"
proof -
  have f: "rb_fill ring_example < rb_size ring_example" by (rule rb_fill_less [OF ring_example_ok(1)])
  have s: "rb_size ring_example = 4" by (simp add: ring_example_def)
  show ?thesis
    unfolding Let_def
    by (rule controller_law [OF _ _ example_resampler_ok _ ring_example_ok(1)])
      (use f s in \<open>simp_all add: zero_context_def rate_ok_def d_zero_def\<close>)
qed

text \<open>
  \<open>cfmed\<close> is the fourth smallest of the five last cycles, not their median (the third smallest):
  for 1, 2, 3, 4, 5 it is 4.
\<close>

theorem cfmed_fourth_smallest:
  assumes "length a = CFMSIZE"
  shows "cfmed a = Some (sort a ! 3)"
  using assms by (rule cfmed_sort)

theorem cfmed_fourth_smallest_witness:
  "cfmed [5, 1, 4, 2, 3] = Some (sort [5, 1, 4, 2, 3] ! 3) \<and> sort [5, 1, 4, 2, 3 :: int] ! 3 = 4"
  using cfmed_fourth_smallest [of "[5, 1, 4, 2, 3]"] by (simp add: CFMSIZE_def)

text \<open>
  Cycles are measured exactly. When a packet opens a cycle, a burst of packets follows, each at
  most 100 microseconds after the one before, and then a packet comes after a longer pause, the
  number of frames of the whole burst, the opening packet included, is stored at the current place
  of the filter, the place advances round the five places, and the frames per cycle become the
  filter's value.
\<close>

theorem cycle_measured:
  assumes "cyc_ok c" and "fst (time_cycle_start c) \<noteq> 0" and "ts_ok clock"
    and "ts_ok t0" and "fst t0 \<noteq> 0" and "nanos t0 - nanos (time_old c) > 100000" and "burst_after t0 ps"
    and "ts_ok t1" and "nanos t1 - nanos (if ps = [] then t0 else fst (last ps)) > 100000"
    and "frames_of ((t0, h0) # ps) < 2 ^ 31" and "length ps < 2 ^ 30"
  shows "\<exists>c'. cycle_run clock ((t0, h0) # ps @ [(t1, h1)]) c = Some c' \<and>
    cframes_marr c' = (cframes_marr c)[cfind c := cycle_frames c, (cfind c + 1) mod CFMSIZE := frames_of ((t0, h0) # ps)] \<and>
    cfind c' = (cfind c + 2) mod CFMSIZE \<and> cframes c' = sort (cframes_marr c') ! 3 \<and>
    cycle_frames c' = uint (format_nbs h1) + 1"
proof -
  obtain c1 where c1: "calc_input_samplerate clock (c\<lparr>input_ts := t0\<rparr>) h0 = Some (c1, 0)" "cyc_ok c1"
      "cframes_marr c1 = (cframes_marr c)[cfind c := cycle_frames c]" "cfind c1 = (cfind c + 1) mod CFMSIZE"
      "cycle_frames c1 = uint (format_nbs h0) + 1" "cycle_pac_cnt c1 = 1" "time_cycle_start c1 = t0" "time_old c1 = t0"
    using cycle_start_ok [OF assms(1,2,4,3,6)] by blast
  let ?c1 = "c1\<lparr>nu_frame := nuFrame h0\<rparr>"
  have cl: "close_by (time_old ?c1) ps" "ts_ok (if ps = [] then t0 else fst (last ps))"
    using burst_close [OF assms(7,4)] c1(8) by auto
  have fr: "cycle_frames ?c1 + frames_of ps = frames_of ((t0, h0) # ps)" using c1(5) by (simp add: frames_of_Cons)
  have "0 \<le> cycle_frames ?c1" using c1(5) by (simp add: add_nonneg_nonneg)
  then obtain c2 where c2: "cycle_run clock ps ?c1 = Some c2" "cycle_frames c2 = frames_of ((t0, h0) # ps)"
      "cframes_marr c2 = cframes_marr c1" "cfind c2 = cfind c1" "time_cycle_start c2 = t0"
      "rx_cycle_delta c2 = rx_cycle_delta c1" "time_old c2 = (if ps = [] then t0 else fst (last ps))"
    using burst_counts [OF cl(1), of clock] c1 fr assms(10,11) by auto
  have ok2: "cyc_ok c2" using c1(2) c2 cl(2) by (simp add: cyc_ok_def)
  have st2: "fst (time_cycle_start c2) \<noteq> 0" using c2(5) assms(5) by simp
  have pause2: "nanos t1 - nanos (time_old c2) > 100000" using assms(9) c2(7) by simp
  obtain c3 where c3: "calc_input_samplerate clock (c2\<lparr>input_ts := t1\<rparr>) h1 = Some (c3, 0)"
      "cframes_marr c3 = (cframes_marr c2)[cfind c2 := cycle_frames c2]" "cfind c3 = (cfind c2 + 1) mod CFMSIZE"
      "cframes c3 = sort (cframes_marr c3) ! 3" "cycle_frames c3 = uint (format_nbs h1) + 1"
    using cycle_start_ok [OF ok2 st2 assms(8,3) pause2] by blast
  have "cycle_run clock ((t0, h0) # ps @ [(t1, h1)]) c = Some (c3\<lparr>nu_frame := nuFrame h1\<rparr>)"
    using c1(1) c2(1) c3(1) by (simp add: cycle_run_append)
  moreover have "((cfind c + 1) mod CFMSIZE + 1) mod CFMSIZE = (cfind c + 2) mod CFMSIZE" by (simp add: mod_Suc_eq)
  ultimately show ?thesis using c1 c2 c3 by (intro exI [of _ "c3\<lparr>nu_frame := nuFrame h1\<rparr>"]) simp
qed

theorem cycle_measured_witness:
  "let c = zero_context\<lparr>time_cycle_start := (1, 0), time_old := (1, 0)\<rparr>; h = zero_header\<lparr>format_nbs := 63\<rparr> in
   \<exists>c'. cycle_run (9, 0) (((2, 0), h) # [((2, 50000), h)] @ [((3, 0), h)]) c = Some c' \<and>
    cframes_marr c' = (cframes_marr c)[cfind c := cycle_frames c, (cfind c + 1) mod CFMSIZE := frames_of (((2, 0), h) # [((2, 50000), h)])] \<and>
    cfind c' = (cfind c + 2) mod CFMSIZE \<and> cframes c' = sort (cframes_marr c') ! 3 \<and>
    cycle_frames c' = uint (format_nbs h) + 1"
  unfolding Let_def
  by (rule cycle_measured)
    (simp_all add: cyc_ok_def ts_ok_def nanos_def CFMSIZE_def zero_context_def zero_delta_def frames_of_def zero_header_def)

end
