(* ===== verification/Transmit.thy ===== *)
theory Transmit
  imports Context Packets
begin

text \<open>
  The sending side (\<open>vban_common/vban_functions.h\<close>, \<open>vban_functions.cpp\<close>, \<open>udp.h\<close>): how a period is
  cut into packets (\<open>tune_tx_packets\<close>) and how the packets leave, with redundancy and with the
  repetition after an ICMP error (\<open>vban_send_txbuffer\<close>, \<open>vban_send_t32_fragment\<close>). What the error
  queue of the socket answers to the \<open>n\<close>-th question is an argument.
\<close>

section \<open>The error queue\<close>

record cmsg =
  cm_recverr :: bool
  cm_origin :: nat
  cm_type :: nat
  cm_errno :: int

text \<open>\<open>check_send_status\<close> without a place for time stamps, as the senders call it.\<close>

fun first_unreach :: "cmsg list \<Rightarrow> int" where
  "first_unreach [] = 0"
| "first_unreach (m # ms) =
     (if cm_recverr m \<and> (cm_origin m = 2 \<or> cm_origin m = 3) \<and> cm_type m = 3 then cm_errno m
      else first_unreach ms)"

definition check_send_status :: "(int + cmsg list) \<Rightarrow> int" where
  "check_send_status answer = (case answer of Inl e \<Rightarrow> -1 | Inr ms \<Rightarrow> first_unreach ms)"

definition ECONNREFUSED :: int where
  "ECONNREFUSED = 111"


section \<open>Cutting a period into packets\<close>

function tune_loop :: "nat \<Rightarrow> nat \<Rightarrow> int \<Rightarrow> nat \<Rightarrow> nat \<times> int \<times> nat" where
  "tune_loop mx pn nf pl =
     (if pl > VBAN_DATA_MAX_SIZE \<or> nf > int mx
      then tune_loop mx (to_u16 (int pn * 2)) (sgn nf * (\<bar>nf\<bar> div 2)) (pl div 2)
      else (pn, nf, pl))"
  by pat_completeness auto
termination
  by (relation "measure (\<lambda>(mx, pn, nf, pl). pl + nat \<bar>nf\<bar>)") (auto simp: vban_sizes abs_mult sgn_if)

declare tune_loop.simps [simp del]

text \<open>
  \<open>alloc\<close> is \<open>malloc\<close> (\<^const>\<open>None\<close> when it fails: the code uses the result unchecked).
\<close>

definition tune_tx_packets :: "(nat \<Rightarrow> byte list option) \<Rightarrow> stream_context \<Rightarrow> stream_context option" where
  "tune_tx_packets alloc stream = do {
     sz \<leftarrow> bit_size (vban_output_format stream);
     a \<leftarrow> c_int (int (nframes stream) * int (nbinputs stream));
     len \<leftarrow> c_int (a * int sz);
     buf \<leftarrow> alloc (to_size len);
     buf \<leftarrow> mem_store buf 0 (replicate (to_size len) 0);
     let s = stream\<lparr>pacnum := 1, vban_nframes_pac := int (nframes stream), txbuflen := len,
       txbuf := Some buf, pacdatalen := to_u16 len\<rparr>;
     let s = (if flag_set (flags s) SLICING
       then if samplerate s < 88200 then s\<lparr>tx_nframes := 64\<rparr>
         else if samplerate s < 176400 then s\<lparr>tx_nframes := 128\<rparr>
         else if samplerate s < 352800 then s\<lparr>tx_nframes := 256\<rparr>
         else s\<lparr>tx_nframes := VBAN_SAMPLES_MAX_NB, flags := flags s AND NOT SLICING\<rparr>
       else s);
     let max_frames = (if flag_set (flags stream) SLICING then tx_nframes s else VBAN_SAMPLES_MAX_NB);
     let (pn, nf, pl) = tune_loop max_frames (pacnum s) (vban_nframes_pac s) (pacdatalen s);
     let p = txpacket s;
     let s = s\<lparr>pacnum := pn, vban_nframes_pac := nf, pacdatalen := pl,
       txpacket := p\<lparr>header := (header p)\<lparr>format_nbs := word_of_int (nf - 1)\<rparr>\<rparr>\<rparr>;
     if flag_set (flags s) SLICING then do {
       tr \<leftarrow> c_div (int (nframes s)) (int (tx_nframes s));
       x \<leftarrow> c_int (int (pacnum s) * int (tx_nframes s));
       t32 \<leftarrow> c_div x (int (nframes s));
       q \<leftarrow> udiv (tx_nframes s * 1000000000) (to_size (samplerate s));
       Some (s\<lparr>tx_transactions := to_u16 tr, pacnum_t32 := to_u16 t32, slice_period := (q + 1) mod 2 ^ 32\<rparr>)
     } else Some s }"


section \<open>Sending\<close>

record tx =
  t_ctx :: stream_context
  t_io :: "io list"
  t_chk :: nat

text \<open>The first \<open>n\<close> bytes of the packet go to the network.\<close>

definition send_udp :: "nat \<Rightarrow> u32 \<Rightarrow> tx \<Rightarrow> tx option" where
  "send_udp n txip s = do {
     let c = t_ctx s;
     (k, ev, _) \<leftarrow> udp_send (txsock c) (txport c) (packet_bytes (txpacket c)) n txip 0;
     Some (s\<lparr>t_ctx := c\<lparr>txsock := k\<rparr>, t_io := t_io s @ [ev]\<rparr>) }"

text \<open>
  The repetition while the error queue reports a refused connection, at most \<open>left\<close> more times; the
  queue is asked once more than that. The result counts the repetitions (\<open>icnt\<close>).
\<close>

fun resend :: "nat \<Rightarrow> (nat \<Rightarrow> int + cmsg list) \<Rightarrow> nat \<Rightarrow> u32 \<Rightarrow> tx \<Rightarrow> (tx \<times> nat) option" where
  "resend 0 answers n txip s = Some (s\<lparr>t_chk := t_chk s + 1\<rparr>, 0)"
| "resend (Suc left) answers n txip s =
     (if check_send_status (answers (t_chk s)) = ECONNREFUSED
      then do {
        s \<leftarrow> send_udp n txip (s\<lparr>t_chk := t_chk s + 1\<rparr>);
        (s, k) \<leftarrow> resend left answers n txip s;
        Some (s, k + 1) }
      else Some (s\<lparr>t_chk := t_chk s + 1\<rparr>, 0))"

text \<open>
  One copy of the packet: \<open>n\<close> bytes by UDP or \<open>m\<close> bytes into the pipe. The last component is the
  return code collected so far.
\<close>

definition send_copy :: "(nat \<Rightarrow> int + cmsg list) \<Rightarrow> nat \<Rightarrow> nat \<Rightarrow> u32 \<Rightarrow> nat \<Rightarrow> tx \<times> int \<Rightarrow> (tx \<times> int) option" where
  "send_copy answers n m txip attempts = (\<lambda>(s, ret).
     if txport (t_ctx s) \<noteq> 0 then do {
       s \<leftarrow> send_udp n txip s;
       (s, icnt) \<leftarrow> resend 2 answers n txip s;
       Some (s, if icnt = attempts then 1 else ret)
     } else do {
       bs \<leftarrow> mem_load (packet_bytes (txpacket (t_ctx s))) 0 m;
       Some (s\<lparr>t_io := t_io s @ [Write (stream_pipedesc (t_ctx s)) bs]\<rparr>, ret) })"

text \<open>
  All copies: the counter is a \<open>uint8_t\<close> compared with \<open>\<le>\<close>, so a redundancy of 255 never ends
  (\<^const>\<open>None\<close>).
\<close>

definition send_copies :: "(nat \<Rightarrow> int + cmsg list) \<Rightarrow> nat \<Rightarrow> nat \<Rightarrow> u32 \<Rightarrow> nat \<Rightarrow> tx \<times> int \<Rightarrow> (tx \<times> int) option" where
  "send_copies answers n m txip attempts = (\<lambda>(s, ret).
     if redundancy (t_ctx s) = 255 then None
     else for_loop 0 (redundancy (t_ctx s) + 1) (\<lambda>red. send_copy answers n m txip attempts) (s, ret))"

text \<open>The packet's data come from the buffer, and its number counts up after the copies.\<close>

definition load_packet :: "nat \<Rightarrow> tx \<Rightarrow> tx option" where
  "load_packet pos s = do {
     let c = t_ctx s;
     buf \<leftarrow> txbuf c;
     d \<leftarrow> mem_load buf pos (pacdatalen c);
     pd \<leftarrow> mem_store (pdata (txpacket c)) 0 d;
     Some (s\<lparr>t_ctx := c\<lparr>txpacket := (txpacket c)\<lparr>pdata := pd\<rparr>\<rparr>\<rparr>) }"

definition next_number :: "tx \<Rightarrow> tx" where
  "next_number s =
     (let c = t_ctx s; p = txpacket c in
      s\<lparr>t_ctx := c\<lparr>txpacket := p\<lparr>header := vban_inc_nuFrame (header p)\<rparr>\<rparr>\<rparr>)"

definition vban_send_txbuffer :: "(nat \<Rightarrow> int + cmsg list) \<Rightarrow> u32 \<Rightarrow> nat \<Rightarrow> tx \<Rightarrow> (tx \<times> int) option" where
  "vban_send_txbuffer answers txip attempts s =
     (let c = t_ctx s;
          xl = (if (txport c = 0 \<or> iptx c = 0x0100007F) \<and> xlen c = 6 then 6 else 0) in
      for_loop 0 (pacnum c) (\<lambda>pac (s, ret). do {
        pos \<leftarrow> c_int (int pac * int (pacdatalen c));
        s \<leftarrow> load_packet (nat pos) s;
        s \<leftarrow> (if xl = 6 then do {
            let c = t_ctx s;
            xs \<leftarrow> mem_load (xaddress c) 0 (xlen c);
            pd \<leftarrow> mem_store (pdata (txpacket c)) (pacdatalen c) xs;
            Some (s\<lparr>t_ctx := c\<lparr>txpacket := (txpacket c)\<lparr>pdata := pd\<rparr>\<rparr>\<rparr>) }
          else Some s);
        (s, ret) \<leftarrow> send_copies answers (VBAN_HEADER_SIZE + pacdatalen c + xl)
          (VBAN_HEADER_SIZE + pacdatalen c + xlen c) txip attempts (s, ret);
        Some (next_number s, ret) }) (s, 0))"

definition vban_send_t32_fragment :: "(nat \<Rightarrow> int + cmsg list) \<Rightarrow> u32 \<Rightarrow> nat \<Rightarrow> tx \<Rightarrow> (tx \<times> int) option" where
  "vban_send_t32_fragment answers txip attempts s =
     (let c = t_ctx s in
      for_loop 0 (pacnum_t32 c) (\<lambda>pac (s, ret). do {
        a \<leftarrow> c_int (int (txdata_ind c) * int (pacnum_t32 c));
        b \<leftarrow> c_int (a + int pac);
        txbuf_pos \<leftarrow> c_int (b * int (pacdatalen c));
        s \<leftarrow> load_packet (nat txbuf_pos) s;
        (s, ret) \<leftarrow> send_copies answers (VBAN_HEADER_SIZE + pacdatalen c) (VBAN_HEADER_SIZE + pacdatalen c)
          txip attempts (s, ret);
        Some (next_number s, ret) }) (s, 0))"


section \<open>The cut\<close>

lemma tune_loop_pow2:
  assumes fs: "fs \<le> VBAN_DATA_MAX_SIZE" and mx: "0 < mx" and ij: "i + j < 16"
  shows "\<exists>k. tune_loop mx (2 ^ i) (2 ^ j) (2 ^ j * fs) = (2 ^ (i + k), 2 ^ (j - k), 2 ^ (j - k) * fs) \<and> k \<le> j \<and>
    2 ^ (j - k) * fs \<le> VBAN_DATA_MAX_SIZE \<and> 2 ^ (j - k) \<le> mx"
  using ij
proof (induction j arbitrary: i)
  case 0
  have "tune_loop mx (2 ^ i) 1 fs = (2 ^ i, 1, fs)"
    using fs mx by (subst tune_loop.simps) simp
  then show ?case using fs mx by (intro exI [of _ 0]) simp
next
  case (Suc j)
  show ?case
  proof (cases "2 ^ Suc j * fs > VBAN_DATA_MAX_SIZE \<or> (2 :: int) ^ Suc j > int mx")
    case False
    then have fit: "2 ^ Suc j * fs \<le> VBAN_DATA_MAX_SIZE" "int (2 ^ Suc j) \<le> int mx" by auto
    then have "2 ^ Suc j \<le> mx" by (simp only: of_nat_le_iff)
    moreover have "tune_loop mx (2 ^ i) (2 ^ Suc j) (2 ^ Suc j * fs) = (2 ^ i, 2 ^ Suc j, 2 ^ Suc j * fs)"
      using False by (subst tune_loop.simps) simp
    ultimately show ?thesis using fit by (intro exI [of _ 0]) simp
  next
    case True
    have "(2 :: nat) ^ Suc i < 2 ^ 16" using Suc.prems by (intro power_strict_increasing) auto
    then have u: "to_u16 (int (2 ^ i) * 2) = 2 ^ Suc i"
      using to_u16_nat [of "2 ^ Suc i"] by (simp add: mult.commute)
    have "tune_loop mx (2 ^ i) (2 ^ Suc j) (2 ^ Suc j * fs) = tune_loop mx (2 ^ Suc i) (2 ^ j) (2 ^ j * fs)"
      using True u by (subst tune_loop.simps) (simp add: mult.assoc)
    moreover obtain k where "tune_loop mx (2 ^ Suc i) (2 ^ j) (2 ^ j * fs) = (2 ^ (Suc i + k), 2 ^ (j - k), 2 ^ (j - k) * fs)"
        "k \<le> j" "2 ^ (j - k) * fs \<le> VBAN_DATA_MAX_SIZE" "2 ^ (j - k) \<le> mx"
      using Suc.IH [of "Suc i"] Suc.prems by auto
    ultimately show ?thesis by (intro exI [of _ "Suc k"]) simp
  qed
qed

text \<open>What a tuned sender holds; \<open>sl\<close> is the number of frames of a slice.\<close>

definition tuned :: "nat \<Rightarrow> nat \<Rightarrow> stream_context \<Rightarrow> bool" where
  "tuned nf fs s \<longleftrightarrow> (\<exists>k j. nf = 2 ^ j \<and> k \<le> j \<and> pacnum s = 2 ^ k \<and> vban_nframes_pac s = 2 ^ (j - k) \<and>
     pacdatalen s = 2 ^ (j - k) * fs \<and> pacdatalen s \<le> VBAN_DATA_MAX_SIZE \<and> 2 ^ (j - k) \<le> VBAN_SAMPLES_MAX_NB \<and>
     format_nbs (header (txpacket s)) = word_of_int (2 ^ (j - k) - 1)) \<and>
     txbuf s = Some (replicate (nf * fs) 0) \<and> txbuflen s = int (nf * fs)"

lemma flag_clear [simp]: "\<not> flag_set (f AND NOT m) m"
  by (simp add: flag_set_def and.assoc)

lemma pow2_div: "b \<le> a \<Longrightarrow> (2 :: nat) ^ a div 2 ^ b = 2 ^ (a - b)"
  by (simp add: power_diff)

lemma tune_ok:
  assumes nf: "nframes s = 2 ^ j" and fs: "bit_size (vban_output_format s) = Some sz" "fs = nbinputs s * sz" "0 < fs"
    "fs \<le> VBAN_DATA_MAX_SIZE" and small: "2 ^ j * fs < 2 ^ 16" and al: "\<And>n. \<exists>b. alloc n = Some b \<and> length b = n"
    and sr: "0 < samplerate s" "samplerate s < 2 ^ 31"
  shows "\<exists>s'. tune_tx_packets alloc s = Some s' \<and> tuned (2 ^ j) fs s' \<and>
    (flag_set (flags s) SLICING \<and> samplerate s < 352800 \<and> tx_nframes s' \<le> 2 ^ j \<longrightarrow>
       flag_set (flags s') SLICING \<and> pacnum_t32 s' * tx_transactions s' = pacnum s' \<and>
       pacnum_t32 s' * pacdatalen s' = tx_nframes s' * fs)"
proof -
  have j: "j < 16"
  proof (rule ccontr)
    assume "\<not> ?thesis"
    then have "(2 :: nat) ^ 16 \<le> 2 ^ j" by (intro power_increasing) auto
    then have "2 ^ 16 * 1 \<le> 2 ^ j * fs" using fs(3) by (intro mult_le_mono) auto
    then show False using small by simp
  qed
  have sz1: "1 \<le> sz" using fs(2,3) by (cases sz) auto
  have nn: "2 ^ j * nbinputs s * sz = 2 ^ j * fs" using fs(2) by simp
  have "2 ^ j * nbinputs s * 1 \<le> 2 ^ j * nbinputs s * sz" using sz1 by (intro mult_le_mono2) auto
  then have "2 ^ j * nbinputs s \<le> 2 ^ j * fs" by (simp only: nn mult_1_right)
  then have m: "2 ^ j * nbinputs s < 2 ^ 31" by (rule order_le_less_trans) (use small in simp)
  have ci: "c_int (int (nframes s) * int (nbinputs s)) = Some (int (2 ^ j * nbinputs s))"
    "c_int (int (2 ^ j * nbinputs s) * int sz) = Some (int (2 ^ j * fs))"
    using c_int_mult [of "2 ^ j" "nbinputs s"] c_int_mult [of "2 ^ j * nbinputs s" sz] m small unfolding nn nf by auto
  have tsz: "to_size (int (2 ^ j * fs)) = 2 ^ j * fs" "to_u16 (int (2 ^ j * fs)) = 2 ^ j * fs"
    using small by (intro to_size_nat to_u16_nat; simp)+
  obtain b where b: "alloc (2 ^ j * fs) = Some b" "length b = 2 ^ j * fs" using al by blast
  have ms: "mem_store b 0 (replicate (2 ^ j * fs) 0) = Some (replicate (2 ^ j * fs) 0)"
    using b(2) by (simp add: mem_store_def blit_0)
  define mx where "mx = (if flag_set (flags s) SLICING then (if samplerate s < 88200 then 64
     else if samplerate s < 176400 then 128 else if samplerate s < 352800 then 256 else VBAN_SAMPLES_MAX_NB) else VBAN_SAMPLES_MAX_NB)"
  have mx: "0 < mx" "mx \<le> VBAN_SAMPLES_MAX_NB" by (auto simp: mx_def vban_sizes)
  obtain k where k: "tune_loop mx 1 (2 ^ j) (2 ^ j * fs) = (2 ^ k, 2 ^ (j - k), 2 ^ (j - k) * fs)" "k \<le> j"
      "2 ^ (j - k) * fs \<le> VBAN_DATA_MAX_SIZE" "2 ^ (j - k) \<le> mx"
    using tune_loop_pow2 [OF fs(4) mx(1), of 0 j] j by auto
  note run = tune_tx_packets_def [of alloc s, unfolded fs(1) ci Option.bind.bind_lunit tsz b(1) ms Let_def]
  show ?thesis
  proof (cases "flag_set (flags s) SLICING")
    case False
    then have mxe: "mx = VBAN_SAMPLES_MAX_NB" by (simp add: mx_def)
    show ?thesis using k unfolding run mxe by (auto simp: False nf tuned_def)
  next
    case True
    show ?thesis
    proof (cases "samplerate s < 352800")
      case False
      then have mxe: "mx = VBAN_SAMPLES_MAX_NB" using True by (simp add: mx_def)
      show ?thesis using k False unfolding run mxe by (auto simp: True nf tuned_def)
    next
      case sr2: True
      obtain a where a: "mx = 2 ^ a" "a \<le> 8"
      proof -
        have "mx = 2 ^ (if samplerate s < 88200 then 6 else if samplerate s < 176400 then 7 else 8)"
          using True sr2 by (simp add: mx_def)
        then show thesis by (rule that) auto
      qed
      define s1 where "s1 = s\<lparr>pacnum := 2 ^ k, vban_nframes_pac := 2 ^ (j - k), txbuflen := int (2 ^ j * fs),
        txbuf := Some (replicate (2 ^ j * fs) 0), pacdatalen := 2 ^ (j - k) * fs, tx_nframes := mx,
        txpacket := (txpacket s)\<lparr>header := (header (txpacket s))\<lparr>format_nbs := word_of_int (2 ^ (j - k) - 1)\<rparr>\<rparr>\<rparr>"
      have kj: "(2 :: nat) ^ k \<le> 2 ^ 15" using k(2) j by (intro power_increasing) auto
      have "(2 :: nat) ^ j \<le> 2 ^ 15" using j by (intro power_increasing) auto
      moreover have mxb: "mx \<le> 256" using mx(2) by (simp add: vban_sizes)
      moreover have "2 ^ k * mx \<le> 2 ^ 15 * 256" using kj mxb by (intro mult_le_mono) auto
      ultimately have cd: "c_div (2 ^ j) (int mx) = Some (int (2 ^ j div mx))"
        "c_int (2 ^ k * int mx) = Some (int (2 ^ k * mx))" "c_div (int (2 ^ k * mx)) (2 ^ j) = Some (int (2 ^ k * mx div 2 ^ j))"
        using c_div_nat [of "2 ^ j" mx] c_int_mult [of "2 ^ k" mx] c_div_nat [of "2 ^ k * mx" "2 ^ j"] mx(1) by simp_all
      have ud: "udiv (mx * 1000000000) (to_size (samplerate s)) = Some (mx * 1000000000 div to_size (samplerate s))"
        using sr by (simp add: to_size_def udiv_def)
      let ?r = "s1\<lparr>tx_transactions := to_u16 (int (2 ^ j div mx)), pacnum_t32 := to_u16 (int (2 ^ k * mx div 2 ^ j)),
        slice_period := (mx * 1000000000 div to_size (samplerate s) + 1) mod 2 ^ 32\<rparr>"
      have res: "tune_tx_packets alloc s = Some ?r"
        using k(1) True sr2 cd ud unfolding run by (auto simp: mx_def s1_def nf split: if_splits)
      have "tuned (2 ^ j) fs ?r" using k mx by (auto simp: tuned_def s1_def)
      moreover have "flag_set (flags ?r) SLICING" using True by (simp add: s1_def)
      moreover have "pacnum_t32 ?r * tx_transactions ?r = pacnum ?r \<and> pacnum_t32 ?r * pacdatalen ?r = tx_nframes ?r * fs"
        if "mx \<le> 2 ^ j"
      proof -
        have aj: "a \<le> j" using that a(1) by simp
        have ka: "j \<le> k + a" using k(2,4) a(1) by simp
        have "2 ^ j div mx = 2 ^ (j - a)" using aj a(1) by (simp add: pow2_div)
        moreover have "2 ^ k * mx div 2 ^ j = 2 ^ (k + a - j)"
          using ka a(1) pow2_div [of j "k + a"] by (simp add: power_add)
        moreover have "(2 :: nat) ^ (j - a) < 2 ^ 16" "(2 :: nat) ^ (k + a - j) < 2 ^ 16"
          using j k(2) a(2) by (intro power_strict_increasing; simp)+
        ultimately have u: "to_u16 (int (2 ^ j div mx)) = 2 ^ (j - a)" "to_u16 (int (2 ^ k * mx div 2 ^ j)) = 2 ^ (k + a - j)"
          using to_u16_nat [of "2 ^ (j - a)"] to_u16_nat [of "2 ^ (k + a - j)"] by simp_all
        have "(2 :: nat) ^ (k + a - j) * 2 ^ (j - a) = 2 ^ k" "(2 :: nat) ^ (k + a - j) * 2 ^ (j - k) = 2 ^ a"
          using aj ka k(2) by (simp_all flip: power_add)
        then show ?thesis using u a(1) by (simp add: s1_def mult.assoc [symmetric])
      qed
      moreover have "tx_nframes ?r = mx" by (simp add: s1_def)
      ultimately show ?thesis using res by auto
    qed
  qed
qed


section \<open>What is sent\<close>

definition quiet :: "(nat \<Rightarrow> int + cmsg list) \<Rightarrow> bool" where
  "quiet answers \<longleftrightarrow> (\<forall>n. check_send_status (answers n) \<noteq> ECONNREFUSED)"

definition refusing :: "(nat \<Rightarrow> int + cmsg list) \<Rightarrow> bool" where
  "refusing answers \<longleftrightarrow> (\<forall>n. check_send_status (answers n) = ECONNREFUSED)"

text \<open>The datagram a packet leaves in, and the state that sending keeps (the address of the socket).\<close>

definition datagram :: "stream_context \<Rightarrow> nat \<Rightarrow> u32 \<Rightarrow> io" where
  "datagram c n txip = Sendto (fd (txsock c)) (take n (packet_bytes (txpacket c)))
     (if txip = 0 then sin_addr (txsock c) else txip) (htons (txport c))"

definition same_sock :: "stream_context \<Rightarrow> stream_context \<Rightarrow> bool" where
  "same_sock c d \<longleftrightarrow> d = c\<lparr>txsock := txsock d\<rparr> \<and> fd (txsock d) = fd (txsock c) \<and> sin_addr (txsock d) = sin_addr (txsock c)"

lemma same_sock_refl [simp]: "same_sock c c"
  by (simp add: same_sock_def)

lemma same_sock_trans:
  assumes "same_sock a b" and "same_sock b c"
  shows "same_sock a c"
proof -
  have "c = b\<lparr>txsock := txsock c\<rparr>" and b: "b = a\<lparr>txsock := txsock b\<rparr>" using assms by (simp_all add: same_sock_def)
  then have "c = a\<lparr>txsock := txsock b\<rparr>\<lparr>txsock := txsock c\<rparr>" by (subst (asm) b)
  then have "c = a\<lparr>txsock := txsock c\<rparr>" by simp
  then show ?thesis using assms by (simp add: same_sock_def)
qed

lemma send_udp_ok:
  assumes "packet_ok (txpacket (t_ctx s))" and "n \<le> VBAN_PROTOCOL_MAX_SIZE" and "txport (t_ctx s) \<noteq> 0"
  shows "\<exists>s'. send_udp n txip s = Some s' \<and> same_sock (t_ctx s) (t_ctx s') \<and>
    t_io s' = t_io s @ [datagram (t_ctx s) n txip] \<and> t_chk s' = t_chk s"
  using assms length_packet_bytes [OF assms(1)]
  by (auto simp: send_udp_def udp_send_def Let_def mem_load_def datagram_def same_sock_def)

lemma same_sock_keeps:
  assumes "same_sock c d"
  shows "txpacket d = txpacket c \<and> txport d = txport c \<and> redundancy d = redundancy c \<and> txbuf d = txbuf c \<and>
    pacdatalen d = pacdatalen c \<and> datagram d n ip = datagram c n ip"
proof -
  have d: "d = c\<lparr>txsock := txsock d\<rparr>" using assms by (simp add: same_sock_def)
  have "txpacket d = txpacket c" "txport d = txport c" "redundancy d = redundancy c" "txbuf d = txbuf c"
    "pacdatalen d = pacdatalen c"
    by (subst d, simp)+
  then show ?thesis using assms by (simp add: datagram_def same_sock_def)
qed

text \<open>
  One copy, for every network. The queue is asked once after every datagram of a copy, so the
  datagrams of the copy whose first question has number \<open>c\<close> depend on the answers from \<open>c\<close> on, and
  the next copy starts that many questions later. A copy that leaves three times has failed.
\<close>

lemma split_range: "(\<exists>k<n. P (m + k)) \<or> (\<exists>k<m. P k) \<longleftrightarrow> (\<exists>k<m + n. P (k :: nat))"
  by (metis add_diff_inverse_nat add_less_cancel_left trans_less_add1)

definition refused :: "(nat \<Rightarrow> int + cmsg list) \<Rightarrow> nat \<Rightarrow> bool" where
  "refused answers c \<longleftrightarrow> check_send_status (answers c) = ECONNREFUSED"

definition copy_sends :: "(nat \<Rightarrow> int + cmsg list) \<Rightarrow> nat \<Rightarrow> nat" where
  "copy_sends answers c = (if \<not> refused answers c then 1 else if \<not> refused answers (c + 1) then 2 else 3)"

primrec after_copies :: "(nat \<Rightarrow> int + cmsg list) \<Rightarrow> nat \<Rightarrow> nat \<Rightarrow> nat" where
  "after_copies answers c 0 = c"
| "after_copies answers c (Suc k) = after_copies answers c k + copy_sends answers (after_copies answers c k)"

definition copy_failed :: "(nat \<Rightarrow> int + cmsg list) \<Rightarrow> nat \<Rightarrow> nat \<Rightarrow> bool" where
  "copy_failed answers c k \<longleftrightarrow> copy_sends answers (after_copies answers c k) = 3"

lemma after_copies_mono: "j \<le> k \<Longrightarrow> after_copies answers c j \<le> after_copies answers c k"
proof (induction k)
  case (Suc k)
  then show ?case by (cases "j = Suc k") (auto intro: trans_le_add1)
qed simp

lemma after_copies_add:
  "after_copies answers (after_copies answers c j) k = after_copies answers c (j + k)"
  by (induction k) simp_all

lemma copy_failed_after: "copy_failed answers (after_copies answers c j) k = copy_failed answers c (j + k)"
  by (simp add: copy_failed_def after_copies_add)

lemma send_copy_any:
  assumes "packet_ok (txpacket (t_ctx s))" and "n \<le> VBAN_PROTOCOL_MAX_SIZE" and "txport (t_ctx s) \<noteq> 0"
  shows "\<exists>s'. send_copy answers n m txip 2 (s, ret) =
      Some (s', if copy_sends answers (t_chk s) = 3 then 1 else ret) \<and> same_sock (t_ctx s) (t_ctx s') \<and>
    t_io s' = t_io s @ replicate (copy_sends answers (t_chk s)) (datagram (t_ctx s) n txip) \<and>
    t_chk s' = t_chk s + copy_sends answers (t_chk s)"
proof -
  have one: "\<exists>s'. send_udp n txip (s0\<lparr>t_chk := k\<rparr>) = Some s' \<and> same_sock (t_ctx s) (t_ctx s') \<and>
      t_io s' = t_io s0 @ [datagram (t_ctx s) n txip] \<and> t_chk s' = k" if "same_sock (t_ctx s) (t_ctx s0)" for s0 k
    using send_udp_ok [of "s0\<lparr>t_chk := k\<rparr>" n txip] same_sock_keeps [OF that] assms(1-3) same_sock_trans [OF that] by force
  obtain s1 where s1: "send_udp n txip s = Some s1" "same_sock (t_ctx s) (t_ctx s1)" "t_io s1 = t_io s @ [datagram (t_ctx s) n txip]"
      "t_chk s1 = t_chk s"
    using one [of s "t_chk s"] by auto
  obtain s2 where s2: "send_udp n txip (s1\<lparr>t_chk := t_chk s + 1\<rparr>) = Some s2" "same_sock (t_ctx s) (t_ctx s2)"
      "t_io s2 = t_io s1 @ [datagram (t_ctx s) n txip]" "t_chk s2 = t_chk s + 1"
    using one [OF s1(2)] by blast
  obtain s3 where s3: "send_udp n txip (s2\<lparr>t_chk := t_chk s + 1 + 1\<rparr>) = Some s3" "same_sock (t_ctx s) (t_ctx s3)"
      "t_io s3 = t_io s2 @ [datagram (t_ctx s) n txip]" "t_chk s3 = t_chk s + 1 + 1"
    using one [OF s2(2)] by blast
  consider "\<not> refused answers (t_chk s)" | "refused answers (t_chk s)" "\<not> refused answers (t_chk s + 1)"
    | "refused answers (t_chk s)" "refused answers (t_chk s + 1)" by blast
  then show ?thesis
  proof cases
    case 1
    then have "resend 2 answers n txip s1 = Some (s1\<lparr>t_chk := t_chk s + 1\<rparr>, 0)"
      using s1(4) by (simp add: numeral_2_eq_2 refused_def)
    then show ?thesis using 1 s1 assms(3) by (simp add: send_copy_def copy_sends_def)
  next
    case 2
    then have "resend 2 answers n txip s1 = Some (s2\<lparr>t_chk := t_chk s + 1 + 1\<rparr>, 1)"
      using s1(4) s2(1,4) by (simp add: numeral_2_eq_2 refused_def)
    then show ?thesis using 2 s1 s2 assms(3) by (simp add: send_copy_def copy_sends_def numeral_2_eq_2)
  next
    case 3
    then have "resend 2 answers n txip s1 = Some (s3\<lparr>t_chk := t_chk s + 1 + 1 + 1\<rparr>, 2)"
      using s1(4) s2(1,4) s3(1,4) by (simp add: numeral_2_eq_2 refused_def)
    then show ?thesis using 3 s1 s2 s3 assms(3) by (simp add: send_copy_def copy_sends_def numeral_3_eq_3)
  qed
qed

text \<open>All copies of one packet.\<close>

lemma send_copies_any:
  assumes "packet_ok (txpacket (t_ctx s))" and "n \<le> VBAN_PROTOCOL_MAX_SIZE" and "txport (t_ctx s) \<noteq> 0"
    and "redundancy (t_ctx s) < 255" and R: "R = redundancy (t_ctx s) + 1"
  shows "\<exists>s'. send_copies answers n m txip 2 (s, ret) =
      Some (s', if \<exists>j<R. copy_failed answers (t_chk s) j then 1 else ret) \<and> same_sock (t_ctx s) (t_ctx s') \<and>
    t_io s' = t_io s @ replicate (after_copies answers (t_chk s) R - t_chk s) (datagram (t_ctx s) n txip) \<and>
    t_chk s' = after_copies answers (t_chk s) R"
proof -
  let ?a = "after_copies answers (t_chk s)"
  let ?P = "\<lambda>i (st :: tx \<times> int). same_sock (t_ctx s) (t_ctx (fst st)) \<and>
     t_io (fst st) = t_io s @ replicate (?a i - t_chk s) (datagram (t_ctx s) n txip) \<and> t_chk (fst st) = ?a i \<and>
     snd st = (if \<exists>j<i. copy_failed answers (t_chk s) j then 1 else ret)"
  have "\<exists>st. for_loop 0 (redundancy (t_ctx s) + 1) (\<lambda>red. send_copy answers n m txip 2) (s, ret) = Some st \<and>
      ?P (0 + (redundancy (t_ctx s) + 1)) st"
  proof (rule for_loop_inv [where P = ?P], goal_cases)
    case 1
    show ?case by simp
  next
    case (2 i st)
    obtain s0 r0 where st: "st = (s0, r0)" by (cases st)
    have ss: "same_sock (t_ctx s) (t_ctx s0)" and chk: "t_chk s0 = ?a i" using 2 st by simp_all
    note kp = same_sock_keeps [OF ss]
    obtain s' where s': "send_copy answers n m txip 2 (s0, r0) =
          Some (s', if copy_sends answers (?a i) = 3 then 1 else r0)" "same_sock (t_ctx s0) (t_ctx s')"
        "t_io s' = t_io s0 @ replicate (copy_sends answers (?a i)) (datagram (t_ctx s0) n txip)"
        "t_chk s' = ?a (Suc i)"
      using send_copy_any [of s0 n answers m txip r0] assms(1-3) kp chk by auto
    have "t_chk s \<le> ?a i" using after_copies_mono [of 0 i answers "t_chk s"] by simp
    then have "?a (Suc i) - t_chk s = (?a i - t_chk s) + copy_sends answers (?a i)" by simp
    then have io: "t_io s' = t_io s @ replicate (?a (Suc i) - t_chk s) (datagram (t_ctx s) n txip)"
      using 2 st s'(3) kp by (simp only: fst_conv) (simp add: replicate_add)
    have "(if copy_sends answers (?a i) = 3 then 1 else r0) =
        (if \<exists>j<Suc i. copy_failed answers (t_chk s) j then 1 else ret)"
      using 2 st by (auto simp: copy_failed_def less_Suc_eq)
    then show ?case using st s' io same_sock_trans [OF ss s'(2)] by auto
  qed
  then show ?thesis using assms(4) R by (auto simp: send_copies_def)
qed

text \<open>
  A network that is quiet and one that keeps refusing are the two ends: \<open>k\<close> datagrams per copy and
  the result \<open>e\<close>.
\<close>

definition per_copy :: "(nat \<Rightarrow> int + cmsg list) \<Rightarrow> nat \<Rightarrow> int \<Rightarrow> bool" where
  "per_copy answers k e \<longleftrightarrow> quiet answers \<and> k = 1 \<and> e = 0 \<or> refusing answers \<and> k = 3 \<and> e = 1"

lemma per_copy_sends: "per_copy answers k e \<Longrightarrow> copy_sends answers c = k"
  by (auto simp: per_copy_def quiet_def refusing_def copy_sends_def refused_def)

lemma per_copy_after: "per_copy answers k e \<Longrightarrow> after_copies answers c j = c + j * k"
  by (induction j) (simp_all add: per_copy_sends)

lemma per_copy_failed: "per_copy answers k e \<Longrightarrow> copy_failed answers c j \<longleftrightarrow> e = 1"
  by (simp add: copy_failed_def per_copy_sends) (auto simp: per_copy_def)

text \<open>A run of packets taken from the places \<open>pos 0, pos 1, \<dots>\<close> of the buffer.\<close>

definition packet_step :: "(nat \<Rightarrow> int + cmsg list) \<Rightarrow> (nat \<Rightarrow> nat) \<Rightarrow> nat \<Rightarrow> nat \<Rightarrow> u32 \<Rightarrow> nat \<Rightarrow> tx \<times> int \<Rightarrow> (tx \<times> int) option" where
  "packet_step answers pos n m txip i = (\<lambda>(s, ret). do {
     s \<leftarrow> load_packet (pos i) s;
     (s, ret) \<leftarrow> send_copies answers n m txip 2 (s, ret);
     Some (next_number s, ret) })"

definition nth_datagram :: "stream_context \<Rightarrow> byte list \<Rightarrow> (nat \<Rightarrow> nat) \<Rightarrow> u32 \<Rightarrow> nat \<Rightarrow> io" where
  "nth_datagram c buf pos txip i =
     Sendto (fd (txsock c))
       (header_bytes ((header (txpacket c))\<lparr>nuFrame := nuFrame (header (txpacket c)) + of_nat i\<rparr>) @
        take (pacdatalen c) (drop (pos i) buf))
       (if txip = 0 then sin_addr (txsock c) else txip) (htons (txport c))"

definition sender_ok :: "stream_context \<Rightarrow> bool" where
  "sender_ok c \<longleftrightarrow> packet_ok (txpacket c) \<and> pacdatalen c \<le> VBAN_DATA_MAX_SIZE \<and> txport c \<noteq> 0 \<and> redundancy c < 255"

text \<open>After \<open>i\<close> packets only the packet's data and number and the socket's port have changed.\<close>

definition sent_state :: "stream_context \<Rightarrow> nat \<Rightarrow> stream_context \<Rightarrow> bool" where
  "sent_state c i d \<longleftrightarrow> d = c\<lparr>txsock := txsock d, txpacket := txpacket d\<rparr> \<and> fd (txsock d) = fd (txsock c) \<and>
     sin_addr (txsock d) = sin_addr (txsock c) \<and> packet_ok (txpacket d) \<and>
     header (txpacket d) = (header (txpacket c))\<lparr>nuFrame := nuFrame (header (txpacket c)) + of_nat i\<rparr>"

lemma sent_state_keeps:
  assumes "sent_state c i d"
  shows "txport d = txport c \<and> redundancy d = redundancy c \<and> txbuf d = txbuf c \<and> pacdatalen d = pacdatalen c"
proof -
  have d: "d = c\<lparr>txsock := txsock d, txpacket := txpacket d\<rparr>" using assms by (simp add: sent_state_def)
  have "txport d = txport c" "redundancy d = redundancy c" "txbuf d = txbuf c" "pacdatalen d = pacdatalen c"
    by (subst d, simp)+
  then show ?thesis by blast
qed

lemma packet_step_ok:
  assumes c: "sender_ok c" "sent_state c i (t_ctx s)" and buf: "txbuf c = Some buf" "pos i + pacdatalen c \<le> length buf"
    and n: "n = VBAN_HEADER_SIZE + pacdatalen c" and R: "R = redundancy c + 1"
  shows "\<exists>s'. packet_step answers pos n m txip i (s, ret) =
      Some (s', if \<exists>j<R. copy_failed answers (t_chk s) j then 1 else ret) \<and> sent_state c (Suc i) (t_ctx s') \<and>
    t_io s' = t_io s @ replicate (after_copies answers (t_chk s) R - t_chk s) (nth_datagram c buf pos txip i) \<and>
    t_chk s' = after_copies answers (t_chk s) R"
proof -
  note kp = sent_state_keeps [OF c(2)]
  let ?d = "t_ctx s"
  let ?sl = "take (pacdatalen c) (drop (pos i) buf)"
  have sl: "length ?sl = pacdatalen c" using buf(2) by simp
  have pk: "packet_ok (txpacket ?d)" "pacdatalen c \<le> length (pdata (txpacket ?d))"
    using c by (simp_all add: sent_state_def sender_ok_def packet_ok_def header_ok_def)
  let ?p = "(txpacket ?d)\<lparr>pdata := blit (pdata (txpacket ?d)) 0 ?sl\<rparr>"
  let ?s = "s\<lparr>t_ctx := ?d\<lparr>txpacket := ?p\<rparr>\<rparr>"
  have ld: "load_packet (pos i) s = Some ?s"
    using kp buf pk(2) sl by (simp add: load_packet_def mem_load_def mem_store_def Let_def)
  have pok: "packet_ok ?p" using pk sl by (simp add: packet_ok_def)
  have hd: "header_ok (header (txpacket ?d))" using pk(1) by (simp add: packet_ok_def)
  have n1: "n \<le> VBAN_PROTOCOL_MAX_SIZE" using c(1) n by (simp add: sender_ok_def vban_sizes)
  have dg: "datagram (t_ctx ?s) n txip = nth_datagram c buf pos txip i"
  proof -
    have "take n (packet_bytes ?p) = header_bytes (header (txpacket ?d)) @ ?sl"
      using length_header_bytes [OF hd] sl by (simp add: packet_bytes_def n blit_0)
    then show ?thesis using c(2) kp by (simp add: datagram_def nth_datagram_def sent_state_def)
  qed
  let ?e = "if \<exists>j<R. copy_failed answers (t_chk s) j then 1 else ret"
  obtain s1 where s1: "send_copies answers n m txip 2 (?s, ret) = Some (s1, ?e)" "same_sock (t_ctx ?s) (t_ctx s1)"
      "t_io s1 = t_io ?s @ replicate (after_copies answers (t_chk s) R - t_chk s) (datagram (t_ctx ?s) n txip)"
      "t_chk s1 = after_copies answers (t_chk s) R"
    using send_copies_any [of ?s n R answers m txip ret] c(1) kp pok n1 R by (auto simp: sender_ok_def)
  have t1: "txpacket (t_ctx s1) = ?p" using same_sock_keeps [OF s1(2)] by simp
  have d1: "t_ctx s1 = ?d\<lparr>txpacket := ?p, txsock := txsock (t_ctx s1)\<rparr>" "fd (txsock (t_ctx s1)) = fd (txsock ?d)"
    "sin_addr (txsock (t_ctx s1)) = sin_addr (txsock ?d)"
    using s1(2) by (simp_all add: same_sock_def)
  have "sent_state c (Suc i) (t_ctx (next_number s1))"
  proof -
    have dd: "?d = c\<lparr>txsock := txsock ?d, txpacket := txpacket ?d\<rparr>" using c(2) by (simp add: sent_state_def)
    have "t_ctx (next_number s1) = (t_ctx s1)\<lparr>txpacket := ?p\<lparr>header := vban_inc_nuFrame (header ?p)\<rparr>\<rparr>"
      by (simp add: next_number_def t1)
    also have "\<dots> = ?d\<lparr>txsock := txsock (t_ctx s1), txpacket := ?p\<lparr>header := vban_inc_nuFrame (header ?p)\<rparr>\<rparr>"
      by (subst d1(1)) simp
    also have "\<dots> = c\<lparr>txsock := txsock (t_ctx s1), txpacket := ?p\<lparr>header := vban_inc_nuFrame (header ?p)\<rparr>\<rparr>"
      by (subst dd) simp
    finally have e: "t_ctx (next_number s1) =
      c\<lparr>txsock := txsock (t_ctx s1), txpacket := ?p\<lparr>header := vban_inc_nuFrame (header ?p)\<rparr>\<rparr>" .
    show ?thesis unfolding e using c(2) d1(2,3) pok
      by (simp add: sent_state_def vban_inc_nuFrame_def packet_ok_def header_ok_def)
  qed
  moreover have "t_io (next_number s1) = t_io s1" "t_chk (next_number s1) = t_chk s1"
    by (simp_all add: next_number_def Let_def)
  ultimately show ?thesis using ld s1(1,3,4) dg by (simp add: packet_step_def)
qed

text \<open>
  The run for every network: \<open>c\<close> is the number of questions asked before, packet \<open>i\<close> takes the copies
  \<open>R * i\<close> to \<open>R * (i + 1)\<close>.
\<close>

lemma packets_any:
  assumes c: "sender_ok (t_ctx s)" and buf: "txbuf (t_ctx s) = Some buf"
    and inside: "\<And>i. i < N \<Longrightarrow> pos i + pacdatalen (t_ctx s) \<le> length buf"
    and n: "n = VBAN_HEADER_SIZE + pacdatalen (t_ctx s)" and R: "R = redundancy (t_ctx s) + 1"
  shows "\<exists>s'. for_loop 0 N (packet_step answers pos n m txip) (s, 0) =
      Some (s', if \<exists>j<R * N. copy_failed answers (t_chk s) j then 1 else 0) \<and>
    sent_state (t_ctx s) N (t_ctx s') \<and>
    t_io s' = t_io s @ concat (map (\<lambda>i. replicate
      (after_copies answers (t_chk s) (R * Suc i) - after_copies answers (t_chk s) (R * i))
      (nth_datagram (t_ctx s) buf pos txip i)) [0..<N])"
proof -
  let ?a = "after_copies answers (t_chk s)"
  let ?f = "\<lambda>k. (if \<exists>j<k. copy_failed answers (t_chk s) j then 1 else 0) :: int"
  let ?P = "\<lambda>i (st :: tx \<times> int). sent_state (t_ctx s) i (t_ctx (fst st)) \<and> snd st = ?f (R * i) \<and>
    t_chk (fst st) = ?a (R * i) \<and>
    t_io (fst st) = t_io s @ concat (map (\<lambda>i. replicate (?a (R * Suc i) - ?a (R * i))
      (nth_datagram (t_ctx s) buf pos txip i)) [0..<i])"
  have "\<exists>st. for_loop 0 N (packet_step answers pos n m txip) (s, 0) = Some st \<and> ?P (0 + N) st"
  proof (rule for_loop_inv [where P = ?P], goal_cases)
    case 1
    show ?case using c by (simp add: sent_state_def sender_ok_def)
  next
    case (2 i st)
    obtain s0 r0 where st: "st = (s0, r0)" by (cases st)
    have ss: "sent_state (t_ctx s) i (t_ctx s0)" and r0: "r0 = ?f (R * i)" and chk: "t_chk s0 = ?a (R * i)"
      using 2 st by simp_all
    have i: "pos i + pacdatalen (t_ctx s) \<le> length buf" using 2 inside by simp
    have ac: "after_copies answers (t_chk s0) R = ?a (R * Suc i)"
      by (simp add: chk after_copies_add add.commute)
    obtain s' where s': "packet_step answers pos n m txip i (s0, r0) =
          Some (s', if \<exists>j<R. copy_failed answers (t_chk s0) j then 1 else r0)" "sent_state (t_ctx s) (Suc i) (t_ctx s')"
        "t_io s' = t_io s0 @ replicate (?a (R * Suc i) - ?a (R * i)) (nth_datagram (t_ctx s) buf pos txip i)"
        "t_chk s' = ?a (R * Suc i)"
      using packet_step_ok [where pos = pos and i = i and s = s0 and ret = r0 and answers = answers and m = m and txip = txip, OF c ss buf i n R]
      unfolding ac unfolding chk by blast
    have "(\<exists>j<R. copy_failed answers (t_chk s0) j) \<or> (\<exists>j<R * i. copy_failed answers (t_chk s) j) \<longleftrightarrow>
        (\<exists>j<R * Suc i. copy_failed answers (t_chk s) j)"
      using chk split_range [where m = "R * i" and n = R and P = "copy_failed answers (t_chk s)"]
      by (simp add: copy_failed_after add.commute [of R])
    then have "(if \<exists>j<R. copy_failed answers (t_chk s0) j then 1 else r0) = ?f (R * Suc i)"
      unfolding r0 by (simp split: if_splits) blast
    then show ?case using 2 st s' by auto
  qed
  then show ?thesis by auto
qed

lemma packets_ok:
  assumes c: "sender_ok (t_ctx s)" and buf: "txbuf (t_ctx s) = Some buf"
    and inside: "\<And>i. i < N \<Longrightarrow> pos i + pacdatalen (t_ctx s) \<le> length buf" and ans: "per_copy answers k e"
    and n: "n = VBAN_HEADER_SIZE + pacdatalen (t_ctx s)"
  shows "\<exists>s'. for_loop 0 N (packet_step answers pos n m txip) (s, 0) = Some (s', if N = 0 then 0 else e) \<and>
    sent_state (t_ctx s) N (t_ctx s') \<and>
    t_io s' = t_io s @ concat (map (\<lambda>i. replicate ((redundancy (t_ctx s) + 1) * k)
      (nth_datagram (t_ctx s) buf pos txip i)) [0..<N])"
proof -
  let ?R = "redundancy (t_ctx s) + 1"
  have len: "after_copies answers (t_chk s) (?R * Suc i) - after_copies answers (t_chk s) (?R * i) = ?R * k" for i
    unfolding per_copy_after [OF ans] by (simp add: algebra_simps)
  have "e = 0 \<or> e = 1" using ans by (auto simp: per_copy_def)
  then have res: "(if \<exists>j<?R * N. copy_failed answers (t_chk s) j then 1 else 0) = (if N = 0 then 0 else e)"
    by (auto simp: per_copy_failed [OF ans])
  show ?thesis using packets_any [of s buf N pos n ?R answers m txip] c buf inside n unfolding len res by blast
qed

lemma c_int_small: "0 \<le> x \<Longrightarrow> x < 2 ^ 31 \<Longrightarrow> c_int x = Some x"
  by (simp add: c_int_def)

lemma send_txbuffer_run:
  assumes c: "sender_ok (t_ctx s)" "xlen (t_ctx s) \<noteq> 6 \<or> iptx (t_ctx s) \<noteq> 0x0100007F"
    and buf: "txbuf (t_ctx s) = Some buf" "pacnum (t_ctx s) * pacdatalen (t_ctx s) \<le> length buf"
      "pacnum (t_ctx s) * pacdatalen (t_ctx s) < 2 ^ 31"
  shows "vban_send_txbuffer answers txip 2 s =
    for_loop 0 (pacnum (t_ctx s)) (packet_step answers (\<lambda>i. i * pacdatalen (t_ctx s))
      (VBAN_HEADER_SIZE + pacdatalen (t_ctx s)) (VBAN_HEADER_SIZE + pacdatalen (t_ctx s) + xlen (t_ctx s)) txip) (s, 0)"
proof -
  have xl: "(if (txport (t_ctx s) = 0 \<or> iptx (t_ctx s) = 0x0100007F) \<and> xlen (t_ctx s) = 6 then 6 else 0) = (0 :: nat)"
    using c by (auto simp: sender_ok_def)
  have ci: "c_int (int i * int (pacdatalen (t_ctx s))) = Some (int (i * pacdatalen (t_ctx s)))" if "i < pacnum (t_ctx s)" for i
  proof -
    have "i * pacdatalen (t_ctx s) \<le> pacnum (t_ctx s) * pacdatalen (t_ctx s)" using that by simp
    then show ?thesis using buf(3) by (intro c_int_mult) linarith
  qed
  show ?thesis
    unfolding vban_send_txbuffer_def Let_def xl
    by (rule for_loop_cong) (auto simp: ci packet_step_def fun_eq_iff simp del: of_nat_mult)
qed

lemma send_t32_run:
  assumes c: "sender_ok (t_ctx s)"
    and buf: "txbuf (t_ctx s) = Some buf" "(txdata_ind (t_ctx s) + 1) * pacnum_t32 (t_ctx s) * pacdatalen (t_ctx s) \<le> length buf"
      "(txdata_ind (t_ctx s) + 1) * pacnum_t32 (t_ctx s) * pacdatalen (t_ctx s) < 2 ^ 31"
      "(txdata_ind (t_ctx s) + 1) * pacnum_t32 (t_ctx s) < 2 ^ 31"
  shows "vban_send_t32_fragment answers txip 2 s =
    for_loop 0 (pacnum_t32 (t_ctx s)) (packet_step answers
      (\<lambda>i. (txdata_ind (t_ctx s) * pacnum_t32 (t_ctx s) + i) * pacdatalen (t_ctx s))
      (VBAN_HEADER_SIZE + pacdatalen (t_ctx s)) (VBAN_HEADER_SIZE + pacdatalen (t_ctx s)) txip) (s, 0)"
proof -
  let ?d = "txdata_ind (t_ctx s)" and ?t = "pacnum_t32 (t_ctx s)" and ?l = "pacdatalen (t_ctx s)"
  have ci: "c_int (int ?d * int ?t) = Some (int (?d * ?t))" "c_int (int (?d * ?t) + int i) = Some (int (?d * ?t + i))"
    "c_int (int (?d * ?t + i) * int ?l) = Some (int ((?d * ?t + i) * ?l))" if i: "i < ?t" for i
  proof -
    have le: "?d * ?t + i \<le> (?d + 1) * ?t" using i by simp
    then have "(?d * ?t + i) * ?l \<le> (?d + 1) * ?t * ?l" by (rule mult_le_mono1)
    then have "(?d * ?t + i) * ?l < 2 ^ 31" using buf(3) by linarith
    moreover have "?d * ?t + i < 2 ^ 31" using le buf(4) by linarith
    ultimately show "c_int (int ?d * int ?t) = Some (int (?d * ?t))" "c_int (int (?d * ?t) + int i) = Some (int (?d * ?t + i))"
      "c_int (int (?d * ?t + i) * int ?l) = Some (int ((?d * ?t + i) * ?l))"
      by (intro c_int_mult c_int_add; linarith)+
  qed
  show ?thesis
    unfolding vban_send_t32_fragment_def Let_def
    by (rule for_loop_cong) (simp add: ci packet_step_def fun_eq_iff del: of_nat_mult of_nat_add)
qed

lemma concat_slices: "concat (map (\<lambda>i. take l (drop (i * l) b)) [0..<n]) = take (n * l) b"
proof (induction n)
  case (Suc n)
  have "Suc n * l = n * l + l" by simp
  then show ?case using Suc by (simp only: take_add) simp
qed simp

lemma concat_slices_from:
  "concat (map (\<lambda>i. take l (drop ((m + i) * l) b)) [0..<n]) = take (n * l) (drop (m * l) b)"
  using concat_slices [of l "drop (m * l) b" n] by (simp add: add_mult_distrib add.commute)


lemma send_whole:
  assumes "sender_ok (t_ctx s)" and "xlen (t_ctx s) \<noteq> 6 \<or> iptx (t_ctx s) \<noteq> 0x0100007F"
    and "txbuf (t_ctx s) = Some buf" and "length buf = pacnum (t_ctx s) * pacdatalen (t_ctx s)" and "length buf < 2 ^ 31"
    and "0 < pacnum (t_ctx s)" and "per_copy answers k e"
  shows "\<exists>s'. vban_send_txbuffer answers txip 2 s = Some (s', e) \<and>
    t_io s' = t_io s @ concat (map (\<lambda>i. replicate ((redundancy (t_ctx s) + 1) * k)
      (nth_datagram (t_ctx s) buf (\<lambda>i. i * pacdatalen (t_ctx s)) txip i)) [0..<pacnum (t_ctx s)]) \<and>
    concat (map (\<lambda>i. take (pacdatalen (t_ctx s)) (drop (i * pacdatalen (t_ctx s)) buf)) [0..<pacnum (t_ctx s)]) = buf \<and>
    sent_state (t_ctx s) (pacnum (t_ctx s)) (t_ctx s')"
proof -
  let ?l = "pacdatalen (t_ctx s)"
  have inside: "i * ?l + ?l \<le> length buf" if "i < pacnum (t_ctx s)" for i
    using mult_le_mono1 [of "Suc i" "pacnum (t_ctx s)" ?l] that assms(4) by simp
  have run: "vban_send_txbuffer answers txip 2 s = for_loop 0 (pacnum (t_ctx s)) (packet_step answers (\<lambda>i. i * ?l)
      (VBAN_HEADER_SIZE + ?l) (VBAN_HEADER_SIZE + ?l + xlen (t_ctx s)) txip) (s, 0)"
    using assms(4,5) by (intro send_txbuffer_run [OF assms(1-3)]) auto
  obtain s' where s': "for_loop 0 (pacnum (t_ctx s)) (packet_step answers (\<lambda>i. i * ?l) (VBAN_HEADER_SIZE + ?l)
        (VBAN_HEADER_SIZE + ?l + xlen (t_ctx s)) txip) (s, 0) = Some (s', if pacnum (t_ctx s) = 0 then 0 else e)"
      "sent_state (t_ctx s) (pacnum (t_ctx s)) (t_ctx s')"
      "t_io s' = t_io s @ concat (map (\<lambda>i. replicate ((redundancy (t_ctx s) + 1) * k)
        (nth_datagram (t_ctx s) buf (\<lambda>i. i * ?l) txip i)) [0..<pacnum (t_ctx s)])"
    using packets_ok [where pos = "\<lambda>i. i * ?l" and N = "pacnum (t_ctx s)", OF assms(1,3) inside assms(7) refl] by blast
  have "take (pacnum (t_ctx s) * ?l) buf = buf" using assms(4) by simp
  then show ?thesis unfolding run concat_slices using s' assms(6) by auto
qed


lemma send_slice:
  assumes "sender_ok (t_ctx s)" and "txbuf (t_ctx s) = Some buf" and "txdata_ind (t_ctx s) = d"
    and "t = pacnum_t32 (t_ctx s)" and "0 < t" and "l = pacdatalen (t_ctx s)" and "d < n"
    and "length buf = n * (t * l)" and "length buf < 2 ^ 31" and "n * t < 2 ^ 31" and "per_copy answers k e"
  shows "(\<exists>s'. vban_send_t32_fragment answers txip 2 s = Some (s', e) \<and>
      t_io s' = t_io s @ concat (map (\<lambda>i. replicate ((redundancy (t_ctx s) + 1) * k)
        (nth_datagram (t_ctx s) buf (\<lambda>i. (d * t + i) * l) txip i)) [0..<t]) \<and> sent_state (t_ctx s) t (t_ctx s')) \<and>
    concat (map (\<lambda>i. take l (drop ((d * t + i) * l) buf)) [0..<t]) = take (t * l) (drop (d * (t * l)) buf) \<and>
    concat (map (\<lambda>d. take (t * l) (drop (d * (t * l)) buf)) [0..<n]) = buf"
proof (intro conjI)
  have d1: "(d + 1) * t \<le> n * t" using assms(7) by (intro mult_le_mono1) simp
  then have d2: "(d + 1) * t * l \<le> n * t * l" by (rule mult_le_mono1)
  have len: "length buf = n * t * l" using assms(8) by (simp add: mult.assoc)
  have fits: "(d + 1) * t * l \<le> length buf" unfolding len by (rule d2)
  have total: "(d + 1) * t * l < 2 ^ 31" using fits assms(9) by linarith
  have short: "(d + 1) * t < 2 ^ 31" using d1 assms(10) by linarith
  have inside: "(d * t + i) * l + l \<le> length buf" if "i < t" for i
  proof -
    have "(d * t + i) * l + l = (d * t + i + 1) * l" by simp
    also have "\<dots> \<le> (d + 1) * t * l" using that by (intro mult_le_mono1) simp
    also have "\<dots> \<le> length buf" unfolding len by (rule d2)
    finally show ?thesis .
  qed
  have run: "vban_send_t32_fragment answers txip 2 s = for_loop 0 t (packet_step answers (\<lambda>i. (d * t + i) * l)
      (VBAN_HEADER_SIZE + l) (VBAN_HEADER_SIZE + l) txip) (s, 0)"
    using send_t32_run [OF assms(1,2), of answers txip] fits total short
    unfolding assms(3) assms(4,6) [symmetric] by (simp only: simp_thms)
  obtain s' where "for_loop 0 t (packet_step answers (\<lambda>i. (d * t + i) * l) (VBAN_HEADER_SIZE + l) (VBAN_HEADER_SIZE + l) txip) (s, 0) =
        Some (s', if t = 0 then 0 else e)"
      "sent_state (t_ctx s) t (t_ctx s')"
      "t_io s' = t_io s @ concat (map (\<lambda>i. replicate ((redundancy (t_ctx s) + 1) * k)
        (nth_datagram (t_ctx s) buf (\<lambda>i. (d * t + i) * l) txip i)) [0..<t])"
    using packets_ok [where pos = "\<lambda>i. (d * t + i) * l" and N = t and txip = txip and m = "VBAN_HEADER_SIZE + l",
        OF assms(1,2) _ assms(11) refl] inside
    unfolding assms(6) [symmetric] by blast
  then show "\<exists>s'. vban_send_t32_fragment answers txip 2 s = Some (s', e) \<and>
      t_io s' = t_io s @ concat (map (\<lambda>i. replicate ((redundancy (t_ctx s) + 1) * k)
        (nth_datagram (t_ctx s) buf (\<lambda>i. (d * t + i) * l) txip i)) [0..<t]) \<and> sent_state (t_ctx s) t (t_ctx s')"
    unfolding run using assms(5) by auto
  show "concat (map (\<lambda>i. take l (drop ((d * t + i) * l) buf)) [0..<t]) = take (t * l) (drop (d * (t * l)) buf)"
    using concat_slices_from [of l "d * t" buf t] by (simp add: mult.assoc)
  show "concat (map (\<lambda>d. take (t * l) (drop (d * (t * l)) buf)) [0..<n]) = buf"
    unfolding concat_slices assms(8) [symmetric] by simp
qed


section \<open>Properties\<close>

lemma send_whole_any:
  assumes "sender_ok (t_ctx s)" and "xlen (t_ctx s) \<noteq> 6 \<or> iptx (t_ctx s) \<noteq> 0x0100007F"
    and "txbuf (t_ctx s) = Some buf" and "length buf = pacnum (t_ctx s) * pacdatalen (t_ctx s)" and "length buf < 2 ^ 31"
    and R: "R = redundancy (t_ctx s) + 1"
  shows "\<exists>s'. vban_send_txbuffer answers txip 2 s =
      Some (s', if \<exists>j<R * pacnum (t_ctx s). copy_failed answers (t_chk s) j then 1 else 0) \<and>
    t_io s' = t_io s @ concat (map (\<lambda>i. replicate
      (after_copies answers (t_chk s) (R * Suc i) - after_copies answers (t_chk s) (R * i))
      (nth_datagram (t_ctx s) buf (\<lambda>i. i * pacdatalen (t_ctx s)) txip i)) [0..<pacnum (t_ctx s)]) \<and>
    concat (map (\<lambda>i. take (pacdatalen (t_ctx s)) (drop (i * pacdatalen (t_ctx s)) buf)) [0..<pacnum (t_ctx s)]) = buf \<and>
    sent_state (t_ctx s) (pacnum (t_ctx s)) (t_ctx s')"
proof -
  let ?l = "pacdatalen (t_ctx s)"
  have inside: "i * ?l + ?l \<le> length buf" if "i < pacnum (t_ctx s)" for i
    using mult_le_mono1 [of "Suc i" "pacnum (t_ctx s)" ?l] that assms(4) by simp
  have run: "vban_send_txbuffer answers txip 2 s = for_loop 0 (pacnum (t_ctx s)) (packet_step answers (\<lambda>i. i * ?l)
      (VBAN_HEADER_SIZE + ?l) (VBAN_HEADER_SIZE + ?l + xlen (t_ctx s)) txip) (s, 0)"
    using assms(4,5) by (intro send_txbuffer_run [OF assms(1-3)]) auto
  have "take (pacnum (t_ctx s) * ?l) buf = buf" using assms(4) by simp
  then show ?thesis
    unfolding run concat_slices
    using packets_any [where pos = "\<lambda>i. i * ?l" and N = "pacnum (t_ctx s)", OF assms(1,3) inside refl R] by blast
qed

text \<open>
  C5: A period leaves whole and in order, whatever the network answers. With a datagram port,
  \<open>vban_send_txbuffer\<close> sends for every packet of the cut the header with consecutive packet numbers
  and the next slice of the buffer to the address given (or the socket's own); the slices in order
  are the buffer. Packet \<open>i\<close> leaves in redundancy plus one copies, the copies \<open>R * i\<close> to
  \<open>R * (i + 1) - 1\<close>; the error queue is asked once after every datagram, and a copy is sent once when
  the first answer is no refusal, twice when only the first is one, and three times when the first
  two are (\<open>copy_sends\<close>, added up by \<open>after_copies\<close>). The result is 1 exactly when some copy of some
  packet had to be sent three times, also when the network is quiet afterwards, else 0.
\<close>

theorem period_leaves_whole:
  assumes "sender_ok (t_ctx s)" and "xlen (t_ctx s) \<noteq> 6 \<or> iptx (t_ctx s) \<noteq> 0x0100007F"
    and "txbuf (t_ctx s) = Some buf" and "length buf = pacnum (t_ctx s) * pacdatalen (t_ctx s)" and "length buf < 2 ^ 31"
    and "R = redundancy (t_ctx s) + 1"
  shows "\<exists>s'. vban_send_txbuffer answers txip 2 s =
      Some (s', if \<exists>j<R * pacnum (t_ctx s). copy_failed answers (t_chk s) j then 1 else 0) \<and>
    t_io s' = t_io s @ concat (map (\<lambda>i. replicate
      (after_copies answers (t_chk s) (R * Suc i) - after_copies answers (t_chk s) (R * i))
      (nth_datagram (t_ctx s) buf (\<lambda>i. i * pacdatalen (t_ctx s)) txip i)) [0..<pacnum (t_ctx s)]) \<and>
    concat (map (\<lambda>i. take (pacdatalen (t_ctx s)) (drop (i * pacdatalen (t_ctx s)) buf)) [0..<pacnum (t_ctx s)]) = buf \<and>
    sent_state (t_ctx s) (pacnum (t_ctx s)) (t_ctx s')"
  using assms by (rule send_whole_any)

text \<open>
  C6: The cut of \<open>tune_tx_packets\<close> (power-of-two period, frames that fit a datagram, less than 65536
  bytes): the buffer is cleared and has the period's size, it is cut into a power of two of equal
  packets of whole frames within both limits, and the sample field is their number of frames less
  one. In slicing mode, when a slice is not longer than the period, the slices are whole numbers of
  packets and together all packets of the period.
\<close>

theorem tune_cuts_period:
  assumes "nframes s = 2 ^ j" and "bit_size (vban_output_format s) = Some sz" and "fs = nbinputs s * sz" and "0 < fs"
    and "fs \<le> VBAN_DATA_MAX_SIZE" and "2 ^ j * fs < 2 ^ 16" and "\<And>n. \<exists>b. alloc n = Some b \<and> length b = n"
    and "0 < samplerate s" and "samplerate s < 2 ^ 31"
  shows "\<exists>s'. tune_tx_packets alloc s = Some s' \<and> tuned (2 ^ j) fs s' \<and> pacnum s' * pacdatalen s' = 2 ^ j * fs \<and>
    (flag_set (flags s) SLICING \<and> samplerate s < 352800 \<and> tx_nframes s' \<le> 2 ^ j \<longrightarrow>
       flag_set (flags s') SLICING \<and> pacnum_t32 s' * tx_transactions s' = pacnum s' \<and>
       pacnum_t32 s' * pacdatalen s' = tx_nframes s' * fs)"
proof -
  have "pacnum s' * pacdatalen s' = 2 ^ j * fs" if "tuned (2 ^ j) fs s'" for s'
  proof -
    obtain k j' where *: "(2 :: nat) ^ j = 2 ^ j'" "k \<le> j'" "pacnum s' = 2 ^ k" "pacdatalen s' = 2 ^ (j' - k) * fs"
      using \<open>tuned (2 ^ j) fs s'\<close> unfolding tuned_def by blast
    have "(2 :: nat) ^ k * 2 ^ (j' - k) = 2 ^ j'" using *(2) by (simp flip: power_add)
    then show ?thesis using * by (simp add: mult.assoc [symmetric])
  qed
  then show ?thesis using tune_ok [OF assms] by blast
qed

definition alloc_zeros :: "nat \<Rightarrow> byte list option" where
  "alloc_zeros n = Some (replicate n 0)"

theorem tune_cuts_period_witness:
  "let s = zero_context\<lparr>nframes := 2 ^ 8, nbinputs := 2, vban_output_format := 1, samplerate := 48000, flags := SLICING\<rparr> in
   \<exists>s'. tune_tx_packets alloc_zeros s = Some s' \<and> tuned (2 ^ 8) 4 s' \<and> pacnum s' * pacdatalen s' = 2 ^ 8 * 4 \<and>
    (flag_set (flags s) SLICING \<and> samplerate s < 352800 \<and> tx_nframes s' \<le> 2 ^ 8 \<longrightarrow>
       flag_set (flags s') SLICING \<and> pacnum_t32 s' * tx_transactions s' = pacnum s' \<and>
       pacnum_t32 s' * pacdatalen s' = tx_nframes s' * 4)"
  unfolding Let_def by (rule tune_cuts_period) (simp_all add: alloc_zeros_def vban_sizes)

definition example_sender :: stream_context where
  "example_sender = zero_context\<lparr>txport := 6980, txbuf := Some [1, 2, 3, 4], pacnum := 2, pacdatalen := 2, redundancy := 1\<rparr>"

text \<open>A network that refuses the first two datagrams and is quiet afterwards.\<close>

definition two_refusals :: "nat \<Rightarrow> int + cmsg list" where
  "two_refusals n =
     (if n < 2 then Inr [\<lparr>cm_recverr = True, cm_origin = 2, cm_type = 3, cm_errno = 111\<rparr>] else Inr [])"

theorem period_leaves_whole_witness:
  "let s = \<lparr>t_ctx = example_sender, t_io = [], t_chk = 0\<rparr>; d = nth_datagram example_sender [1, 2, 3, 4] (\<lambda>i. i * 2) 7 in
   (\<exists>s'. vban_send_txbuffer two_refusals 7 2 s = Some (s', 1) \<and> t_io s' = [d 0, d 0, d 0, d 0, d 1, d 1]) \<and>
   (\<exists>s'. vban_send_txbuffer (\<lambda>_. Inr []) 7 2 s = Some (s', 0) \<and> t_io s' = [d 0, d 0, d 1, d 1])"
proof -
  let ?s = "\<lparr>t_ctx = example_sender, t_io = [], t_chk = 0\<rparr>"
  have s: "sender_ok (t_ctx ?s)" "xlen (t_ctx ?s) \<noteq> 6 \<or> iptx (t_ctx ?s) \<noteq> 0x0100007F"
    "txbuf (t_ctx ?s) = Some [1, 2, 3, 4]" "length [1, 2, 3, 4 :: byte] = pacnum (t_ctx ?s) * pacdatalen (t_ctx ?s)"
    "length [1, 2, 3, 4 :: byte] < 2 ^ 31" "2 = redundancy (t_ctx ?s) + 1"
    by (simp_all add: example_sender_def sender_ok_def zero_context_def vban_sizes)
  have two: "copy_sends two_refusals 0 = 3" "copy_sends two_refusals 3 = 1" "copy_sends two_refusals 4 = 1"
    "copy_sends two_refusals 5 = 1" "copy_sends (\<lambda>_. Inr []) c = 1" for c
    by (simp_all add: copy_sends_def refused_def two_refusals_def check_send_status_def ECONNREFUSED_def)
  have failed: "\<exists>j<4. copy_failed two_refusals 0 j" "\<not> copy_failed (\<lambda>_. Inr []) 0 j" for j
    using two by (auto simp: copy_failed_def intro: exI [of _ 0])
  have two': "after_copies two_refusals 0 2 = 4" "after_copies two_refusals 0 4 = 5 + 1"
    using two by (simp_all add: numeral_eq_Suc)
  have ac: "after_copies (\<lambda>_. Inr []) 0 j = j" for j by (induction j) (simp_all add: two)
  have c: "t_ctx ?s = example_sender" "t_chk ?s = 0" "t_io ?s = []" "pacnum example_sender = 2" "pacdatalen example_sender = 2"
    by (simp_all add: example_sender_def)
  have l: "[] @ concat (map (\<lambda>i. replicate (a (2 * Suc i) - a (2 * i)) (d i)) [0..<2]) =
      replicate (a 2 - a 0) (d 0) @ replicate (a 4 - a 2) (d 1)" for a :: "nat \<Rightarrow> nat" and d :: "nat \<Rightarrow> io"
    by (simp add: upt_rec numeral_2_eq_2 numeral_eq_Suc)
  have f: "\<exists>j<2 * 2. copy_failed two_refusals 0 j" "\<not> (\<exists>j<2 * 2. copy_failed (\<lambda>_. Inr []) 0 j)"
    using failed by simp_all
  note l' = l [where a = "after_copies two_refusals 0", unfolded two' after_copies.simps(1)]
    l [where a = "\<lambda>x. x"]
  have n: "4 - 0 = (4 :: nat)" "5 + 1 - 4 = (2 :: nat)" "2 - 0 = (2 :: nat)" "4 - 2 = (2 :: nat)" by simp_all
  have x: "replicate 4 x @ replicate 2 y = [x, x, x, x, y, y]" "replicate 2 x @ replicate 2 y = [x, x, y, y]" for x y :: io
    by (simp_all add: numeral_eq_Suc)
  show ?thesis
    using period_leaves_whole [OF s, of two_refusals 7] period_leaves_whole [OF s, of "\<lambda>_. Inr []" 7]
    unfolding c ac l' n x Let_def if_P [OF f(1)] if_not_P [OF f(2)]
    by (elim exE conjE, intro conjI) (rule exI, rule conjI, assumption, assumption)+
qed


text \<open>
  In slicing mode the timer sends the period in fragments: fragment \<open>d\<close> carries the \<open>d\<close>-th share
  of the buffer, packet by packet with consecutive numbers, and the shares of all fragments in
  order are the buffer.
\<close>

theorem slices_cover_period:
  assumes "sender_ok (t_ctx s)" and "txbuf (t_ctx s) = Some buf" and "txdata_ind (t_ctx s) = d"
    and "t = pacnum_t32 (t_ctx s)" and "0 < t" and "l = pacdatalen (t_ctx s)" and "d < n"
    and "length buf = n * (t * l)" and "length buf < 2 ^ 31" and "n * t < 2 ^ 31" and "per_copy answers k e"
  shows "(\<exists>s'. vban_send_t32_fragment answers txip 2 s = Some (s', e) \<and>
      t_io s' = t_io s @ concat (map (\<lambda>i. replicate ((redundancy (t_ctx s) + 1) * k)
        (nth_datagram (t_ctx s) buf (\<lambda>i. (d * t + i) * l) txip i)) [0..<t]) \<and> sent_state (t_ctx s) t (t_ctx s')) \<and>
    concat (map (\<lambda>i. take l (drop ((d * t + i) * l) buf)) [0..<t]) = take (t * l) (drop (d * (t * l)) buf) \<and>
    concat (map (\<lambda>d. take (t * l) (drop (d * (t * l)) buf)) [0..<n]) = buf"
  using assms by (rule send_slice)

theorem slices_cover_period_witness:
  "let s = \<lparr>t_ctx = example_sender\<lparr>pacnum_t32 := 1, txdata_ind := 1\<rparr>, t_io = [], t_chk = 0\<rparr>; buf = [1, 2, 3, 4] in
   (\<exists>s'. vban_send_t32_fragment (\<lambda>_. Inr []) 0 2 s = Some (s', 0) \<and>
      t_io s' = t_io s @ concat (map (\<lambda>i. replicate ((redundancy (t_ctx s) + 1) * 1)
        (nth_datagram (t_ctx s) buf (\<lambda>i. (1 * 1 + i) * 2) 0 i)) [0..<1]) \<and> sent_state (t_ctx s) 1 (t_ctx s')) \<and>
    concat (map (\<lambda>i. take 2 (drop ((1 * 1 + i) * 2) buf)) [0..<1]) = take (1 * 2) (drop (1 * (1 * 2)) buf) \<and>
    concat (map (\<lambda>d. take (1 * 2) (drop (d * (1 * 2)) buf)) [0..<2]) = buf"
  unfolding Let_def
  by (rule slices_cover_period)
    (simp_all add: example_sender_def sender_ok_def zero_context_def vban_sizes per_copy_def quiet_def
      check_send_status_def ECONNREFUSED_def)

text \<open>
  The extended address does not fit behind a nearly full packet: with the six bytes of a
  duplex passport, a stream to the local host and packets of more than 1430 bytes, the sender
  writes past the end of the packet's data.
\<close>

theorem passport_overflows_packet:
  assumes "sender_ok (t_ctx s)" and "xlen (t_ctx s) = 6" and "iptx (t_ctx s) = 0x0100007F"
    and "length (xaddress (t_ctx s)) = 6" and "txbuf (t_ctx s) = Some buf" and "pacdatalen (t_ctx s) \<le> length buf"
    and "0 < pacnum (t_ctx s)" and "1430 < pacdatalen (t_ctx s)"
  shows "vban_send_txbuffer answers txip attempts s = None"
proof -
  obtain n where n: "pacnum (t_ctx s) = Suc n" using assms(7) by (cases "pacnum (t_ctx s)") auto
  have pk: "length (pdata (txpacket (t_ctx s))) = VBAN_DATA_MAX_SIZE" "pacdatalen (t_ctx s) \<le> VBAN_DATA_MAX_SIZE"
    using assms(1) by (simp_all add: sender_ok_def packet_ok_def)
  show ?thesis
    using assms(2-6,8) pk
    by (simp add: vban_send_txbuffer_def n load_packet_def mem_load_def mem_store_def vban_sizes Let_def c_int_def)
qed

theorem passport_overflows_packet_witness:
  "vban_send_txbuffer (\<lambda>_. Inr []) 0 2 \<lparr>t_ctx = zero_context\<lparr>txport := 6980, txbuf := Some (replicate 1432 0), pacnum := 1,
     pacdatalen := 1432, xlen := 6, iptx := 0x0100007F\<rparr>, t_io = [], t_chk = 0\<rparr> = None"
  by (rule passport_overflows_packet [where buf = "replicate 1432 0"])
    (simp_all add: sender_ok_def zero_context_def vban_sizes)

text \<open>
  Slicing a period shorter than a slice reads outside the buffer: for 32 frames at 48 kHz the
  cut gives one packet, no transaction and two packets per fragment, and the first fragment's
  second packet starts behind the end of the buffer.
\<close>

theorem slicing_short_period:
  "\<exists>s. tune_tx_packets alloc_zeros (zero_context\<lparr>nframes := 32, nbinputs := 2, vban_output_format := 1,
       samplerate := 48000, flags := SLICING, txport := 6980\<rparr>) = Some s \<and>
     pacnum s = 1 \<and> pacnum_t32 s = 2 \<and> tx_transactions s = 0 \<and>
     vban_send_t32_fragment (\<lambda>_. Inr []) txip 2 \<lparr>t_ctx = s, t_io = [], t_chk = 0\<rparr> = None"
proof -
  let ?c = "zero_context\<lparr>nframes := 32, nbinputs := 2, vban_output_format := 1, samplerate := 48000, flags := SLICING, txport := 6980\<rparr>"
  let ?s = "?c\<lparr>pacnum := 1, vban_nframes_pac := 32, txbuflen := 128, txbuf := Some (replicate 128 0), pacdatalen := 128,
    tx_nframes := 64, txpacket := (txpacket ?c)\<lparr>header := (header (txpacket ?c))\<lparr>format_nbs := 31\<rparr>\<rparr>,
    tx_transactions := 0, pacnum_t32 := 2, slice_period := 1333334\<rparr>"
  have run: "tune_tx_packets alloc_zeros ?c = Some ?s"
    by (simp add: tune_tx_packets_def c_int_def alloc_zeros_def mem_store_def blit_0 to_size_def to_u16_def
        flag_set_def SLICING_def tune_loop.simps vban_sizes c_div_def udiv_def Let_def)
  let ?x = "\<lparr>t_ctx = ?s, t_io = [], t_chk = 0\<rparr>"
  have ok: "sender_ok (t_ctx ?x)"
    by (simp add: sender_ok_def zero_context_def zero_packet_def packet_ok_def header_ok_def zero_header_def vban_sizes)
  have load1: "load_packet 128 y = None" if "sent_state (t_ctx ?x) 1 (t_ctx y)" for y
    using sent_state_keeps [OF that] by (simp add: load_packet_def mem_load_def Let_def)
  have "per_copy (\<lambda>_. Inr []) 1 0" by (simp add: per_copy_def quiet_def check_send_status_def ECONNREFUSED_def)
  then have "\<exists>s'. for_loop 0 1 (packet_step (\<lambda>_. Inr []) (\<lambda>i. i * 128) (VBAN_HEADER_SIZE + 128) (VBAN_HEADER_SIZE + 128) txip) (?x, 0) =
      Some (s', if (1::nat) = 0 then 0 else 0) \<and> sent_state (t_ctx ?x) 1 (t_ctx s') \<and>
      t_io s' = t_io ?x @ concat (map (\<lambda>i. replicate ((redundancy (t_ctx ?x) + 1) * 1)
        (nth_datagram (t_ctx ?x) (replicate 128 0) (\<lambda>i. i * 128) txip i)) [0..<1])"
    by (intro packets_ok [OF ok]) simp_all
  then obtain s' where s': "for_loop 0 1 (packet_step (\<lambda>_. Inr []) (\<lambda>i. i * 128) (VBAN_HEADER_SIZE + 128) (VBAN_HEADER_SIZE + 128) txip) (?x, 0) =
      Some (s', 0)" "sent_state (t_ctx ?x) 1 (t_ctx s')"
    unfolding if_cancel by blast
  have "vban_send_t32_fragment (\<lambda>_. Inr []) txip 2 ?x =
      for_loop 0 2 (packet_step (\<lambda>_. Inr []) (\<lambda>i. i * 128) (VBAN_HEADER_SIZE + 128) (VBAN_HEADER_SIZE + 128) txip) (?x, 0)"
    unfolding vban_send_t32_fragment_def Let_def
    by (simp add: zero_context_def, rule for_loop_cong) (auto simp: packet_step_def c_int_def fun_eq_iff nat_mult_distrib)
  also have "\<dots> = None"
    using s'(1) load1 [OF s'(2)] by (simp add: numeral_2_eq_2 for_loop_Suc_right packet_step_def del: for_loop.simps(2))
  finally show ?thesis using run by (intro exI [of _ ?s]) simp
qed

end
