(* ===== verification/Jack_Client.thy ===== *)
theory Jack_Client
  imports Transmit Key_Value Rate
begin

text \<open>
  The JACK client of \<open>vban_common/jack_backend.cpp\<close>: its ports, its start and stop, and the automatic
  connections. The calls into the JACK server are a list of events; what the server answers (its
  sample rate and buffer size, the ports of the graph) is an argument.
\<close>

section \<open>The client\<close>

datatype jack_options = JackNullOption | JackServerName
datatype port_flag = JackPortIsInput | JackPortIsOutput | JackPortIsPhysical
datatype port_type = JACK_DEFAULT_AUDIO_TYPE | JACK_DEFAULT_MIDI_TYPE

datatype jack_call =
    Client_open "byte list" jack_options "byte list option"
  | Port_register "byte list" port_type "port_flag list"
  | Set_process_callback
  | Activate
  | Deactivate
  | Client_close
  | Connect "byte list" "byte list"

text \<open>The ports are the names they were registered with.\<close>

record jack_stream_data =
  joptions :: jack_options
  input_ports :: "byte list list"
  output_ports :: "byte list list"
  callback_delta :: timestamp_delta
  jcalls :: "jack_call list"

definition jack_call :: "jack_call \<Rightarrow> jack_stream_data \<Rightarrow> jack_stream_data" where
  "jack_call x d = d\<lparr>jcalls := jcalls d @ [x]\<rparr>"

definition zero_jack :: jack_stream_data where
  "zero_jack = \<lparr>joptions = JackNullOption, input_ports = [], output_ports = [], callback_delta = zero_delta, jcalls = []\<rparr>"

text \<open>
  What the server answers when the client starts. A client that could not be opened is a null pointer
  that is passed on: undefined.
\<close>

record jack_server =
  opens :: bool
  sample_rate :: nat
  buffer_size :: nat
  callback_set :: bool

text \<open>The name of port \<open>index\<close>, printed into 32 cleared bytes.\<close>

definition port_name :: "string \<Rightarrow> nat \<Rightarrow> byte list option" where
  "port_name prefix index = do {
     name \<leftarrow> put_string (replicate 32 0) 0 (bytes_of prefix @ dec_nat (index + 1));
     Some (cstr name) }"

definition register_ports :: "string \<Rightarrow> string \<Rightarrow> port_flag list \<Rightarrow> nat \<Rightarrow> jack_stream_data \<Rightarrow>
    (jack_stream_data \<times> byte list list) option" where
  "register_ports prefix midi fl nb d = do {
     (d, ps) \<leftarrow> for_loop 0 nb (\<lambda>index (d, ps). do {
       name \<leftarrow> port_name prefix index;
       Some (jack_call (Port_register name JACK_DEFAULT_AUDIO_TYPE fl) d, ps @ [name]) }) (d, []);
     name \<leftarrow> put_string (replicate 32 0) 0 (bytes_of midi);
     let d = jack_call (Port_register (cstr name) JACK_DEFAULT_MIDI_TYPE fl) d;
     Some (d, ps @ [cstr name]) }"

definition jack_init_tx_stream :: "(nat \<Rightarrow> byte list option) \<Rightarrow> jack_server \<Rightarrow> jack_stream_data \<Rightarrow> stream_context \<Rightarrow>
    (jack_stream_data \<times> stream_context \<times> int) option" where
  "jack_init_tx_stream alloc server client stream = do {
     let port_flags = (if flag_set (flags stream) DEVICE_MODE then [JackPortIsInput, JackPortIsPhysical] else [JackPortIsInput]);
     let client = (if jack_server_name stream \<noteq> None then client\<lparr>joptions := JackServerName\<rparr> else client);
     let client = jack_call (Client_open (cstr (tx_streamname stream)) (joptions client) (jack_server_name stream)) client;
     if \<not> opens server then None
     else do {
       let stream = stream\<lparr>samplerate := to_i32 (int (sample_rate server)), nframes := to_u16 (int (buffer_size server))\<rparr>;
       stream \<leftarrow> tune_tx_packets alloc stream;
       (client, ports) \<leftarrow> register_ports ''Input_'' ''Input_MIDI'' port_flags (nbinputs stream) client;
       let client = jack_call Set_process_callback (client\<lparr>input_ports := ports\<rparr>);
       Some (client, stream, if callback_set server then 0 else 1) } }"

definition jack_init_rx_stream :: "jack_server \<Rightarrow> jack_stream_data \<Rightarrow> stream_context \<Rightarrow>
    (jack_stream_data \<times> stream_context \<times> int) option" where
  "jack_init_rx_stream server client stream = do {
     let port_flags = (if flag_set (flags stream) DEVICE_MODE then [JackPortIsOutput, JackPortIsPhysical] else [JackPortIsOutput]);
     named_server \<leftarrow> (case jack_server_name stream of None \<Rightarrow> Some False
       | Some name \<Rightarrow> do { x \<leftarrow> mem_load name 0 1; Some (x \<noteq> [0]) });
     let client = (if named_server then client\<lparr>joptions := JackServerName\<rparr> else client);
     let client = jack_call (Client_open (cstr (rx_streamname stream)) (joptions client) (jack_server_name stream)) client;
     if \<not> opens server then None
     else do {
       let stream = stream\<lparr>samplerate := to_i32 (int (sample_rate server)), nframes := to_u16 (int (buffer_size server))\<rparr>;
       let client = jack_call Set_process_callback client;
       if \<not> callback_set server then Some (client, stream, 1)
       else do {
         (client, ports) \<leftarrow> register_ports ''Output_'' ''Output_MIDI'' port_flags (nboutputs stream) client;
         Some (client\<lparr>output_ports := ports\<rparr>, stream, 0) } } }"


section \<open>Automatic connections\<close>

text \<open>\<open>strstr(name, "midi")\<close>.\<close>

definition has_midi :: "byte list \<Rightarrow> bool" where
  "has_midi name \<longleftrightarrow> (\<exists>i \<in> set [0..<length name]. take 4 (drop i name) = bytes_of ''midi'')"

text \<open>
  \<open>ports\<close> is the array of names the server gives, ended by a null pointer (\<^const>\<open>None\<close> for no array).
  Only the first 1024 are counted; \<open>pports\<close> goes on counting from the other direction.
\<close>

definition count_ports :: "byte list list \<Rightarrow> nat \<Rightarrow> nat" where
  "count_ports ports pports = pports + length (filter (\<lambda>p. \<not> has_midi p) (take 1024 ports))"

definition connect_port :: "byte list list \<Rightarrow> nat \<Rightarrow> nat list option \<Rightarrow> byte list list \<Rightarrow> bool \<Rightarrow> nat \<Rightarrow>
    jack_stream_data \<Rightarrow> jack_stream_data option" where
  "connect_port ports pports matrix own inputs port_id client = do {
     port_ind \<leftarrow> (case matrix of None \<Rightarrow> Some port_id | Some m \<Rightarrow> if port_id < length m then Some (m ! port_id) else None);
     if port_ind \<le> pports then
       if port_ind < length ports then
         if \<not> has_midi (ports ! port_ind) then
           if port_id < length own then
             Some (jack_call (if inputs then Connect (ports ! port_ind) (own ! port_id)
               else Connect (own ! port_id) (ports ! port_ind)) client)
           else None
         else Some client
       else if port_ind = length ports then Some client
       else None
     else Some client }"

definition connect_side :: "byte list list option \<Rightarrow> nat list option \<Rightarrow> byte list list \<Rightarrow> bool \<Rightarrow> int \<Rightarrow> nat \<times> jack_stream_data \<Rightarrow>
    (nat \<times> jack_stream_data) option" where
  "connect_side ports matrix own inputs n = (\<lambda>(pports, client).
     if n > 0 then
       case ports of
         None \<Rightarrow> Some (pports, client)
       | Some ps \<Rightarrow> do {
           let pports = count_ports ps pports;
           client \<leftarrow> for_loop 0 (nat n + 1) (connect_port ps pports matrix own inputs) client;
           Some (pports, client) }
     else Some (pports, client))"

definition jack_connect_stream :: "byte list list option \<Rightarrow> byte list list option \<Rightarrow> stream_context \<Rightarrow> int \<Rightarrow> int \<Rightarrow>
    nat list option \<Rightarrow> nat list option \<Rightarrow> jack_stream_data \<Rightarrow> (jack_stream_data \<times> int) option" where
  "jack_connect_stream sources sinks stream inputs outputs input_matrix output_matrix client =
     (if flag_set (flags stream) AUTOCONNECT then do {
        (pports, client) \<leftarrow> connect_side sources input_matrix (input_ports client) True inputs (0, client);
        (pports, client) \<leftarrow> connect_side sinks output_matrix (output_ports client) False outputs (pports, client);
        Some (client, 0) }
      else Some (client, 0))"

definition jack_run_tx_stream :: "byte list list option \<Rightarrow> byte list list option \<Rightarrow> int \<Rightarrow> stream_context \<Rightarrow> jack_stream_data \<Rightarrow>
    (jack_stream_data \<times> int) option" where
  "jack_run_tx_stream sources sinks ret stream client = do {
     let client = jack_call Activate client;
     (client, _) \<leftarrow> (if \<not> flag_set (flags stream) DEVICE_MODE
       then jack_connect_stream sources sinks stream (int (nbinputs stream)) 0 None None client else Some (client, 0));
     Some (client, ret) }"

definition jack_run_rx_stream :: "byte list list option \<Rightarrow> byte list list option \<Rightarrow> int \<Rightarrow> stream_context \<Rightarrow> jack_stream_data \<Rightarrow>
    (jack_stream_data \<times> int) option" where
  "jack_run_rx_stream sources sinks ret stream client = do {
     let client = jack_call Activate client;
     (client, _) \<leftarrow> (if \<not> flag_set (flags stream) DEVICE_MODE
       then jack_connect_stream sources sinks stream 0 (int (nboutputs stream)) None None client else Some (client, 0));
     Some (client, ret) }"

definition jack_stop_tx_stream :: "jack_stream_data \<Rightarrow> jack_stream_data" where
  "jack_stop_tx_stream client = (jack_call Client_close (jack_call Deactivate client))\<lparr>input_ports := []\<rparr>"

definition jack_stop_rx_stream :: "jack_stream_data \<Rightarrow> jack_stream_data" where
  "jack_stop_rx_stream client = (jack_call Client_close (jack_call Deactivate client))\<lparr>output_ports := []\<rparr>"


section \<open>Connections by index\<close>

text \<open>The ports of the graph that get a connection: counted ports, by their place in the array.\<close>

definition joined :: "byte list list \<Rightarrow> nat \<Rightarrow> nat list" where
  "joined ps n = filter (\<lambda>i. i \<le> count_ports ps 0 \<and> i < length ps \<and> \<not> has_midi (ps ! i)) [0..<n]"

definition link_ports :: "byte list list \<Rightarrow> byte list list \<Rightarrow> bool \<Rightarrow> nat \<Rightarrow> jack_call" where
  "link_ports ps own inputs i = (if inputs then Connect (ps ! i) (own ! i) else Connect (own ! i) (ps ! i))"

lemma count_ports_le: "count_ports ps 0 \<le> length ps"
proof -
  have "length (filter (\<lambda>p. \<not> has_midi p) (take 1024 ps)) \<le> length (take 1024 ps)" by (rule length_filter_le)
  then show ?thesis by (simp add: count_ports_def)
qed

lemma connect_port_step:
  assumes "i < length own"
  shows "connect_port ps (count_ports ps 0) None own inputs i client =
    Some (if i \<le> count_ports ps 0 \<and> i < length ps \<and> \<not> has_midi (ps ! i) then jack_call (link_ports ps own inputs i) client else client)"
  using assms count_ports_le [of ps] by (auto simp: connect_port_def link_ports_def)

lemma connect_side_ok:
  assumes "0 < n" and "length own = n + 1"
  shows "connect_side (Some ps) None own inputs (int n) (0, client) =
    Some (count_ports ps 0, client\<lparr>jcalls := jcalls client @ map (link_ports ps own inputs) (joined ps (n + 1))\<rparr>)"
proof -
  let ?P = "\<lambda>i c. c = client\<lparr>jcalls := jcalls client @ map (link_ports ps own inputs) (joined ps i)\<rparr>"
  have "\<exists>c. for_loop 0 (n + 1) (connect_port ps (count_ports ps 0) None own inputs) client = Some c \<and> ?P (0 + (n + 1)) c"
  proof (rule for_loop_inv [where P = ?P], goal_cases)
    case (2 i c)
    then have "i < length own" using assms by simp
    from connect_port_step [OF this, of ps inputs c] show ?case using 2 by (auto simp: joined_def jack_call_def)
  qed (simp add: joined_def)
  then show ?thesis using assms(1) by (simp add: connect_side_def Let_def del: for_loop.simps)
qed


section \<open>Names of ports\<close>

lemma port_name_ok:
  assumes "index < 9999" and "length prefix \<le> 20" and "0 \<notin> set (bytes_of prefix)"
  shows "port_name prefix index = Some (bytes_of prefix @ dec_nat (index + 1))"
proof -
  have len: "length (dec_nat (index + 1)) \<le> 4" using assms(1) by (intro length_dec_nat) auto
  have nz: "0 \<notin> set (dec_nat (index + 1))" using dec_nat_plain [of "index + 1"] by (auto simp: plain_char_def)
  have "length (bytes_of prefix) = length prefix" by (simp add: bytes_of_def)
  then have "put_string (replicate 32 0) 0 (bytes_of prefix @ dec_nat (index + 1)) =
      Some (blit (replicate 32 0) 0 ((bytes_of prefix @ dec_nat (index + 1)) @ [0]))"
    using len assms(2) by (simp add: put_string_def mem_store_def)
  moreover have "cstr (blit (replicate 32 0) 0 ((bytes_of prefix @ dec_nat (index + 1)) @ [0])) = bytes_of prefix @ dec_nat (index + 1)"
    using assms(2,3) nz len by (intro cstr_blit_zero) (auto simp: bytes_of_def)
  ultimately show ?thesis by (simp add: port_name_def)
qed


definition port_names :: "string \<Rightarrow> string \<Rightarrow> nat \<Rightarrow> byte list list" where
  "port_names prefix midi nb = map (\<lambda>i. bytes_of prefix @ dec_nat (i + 1)) [0..<nb] @ [bytes_of midi]"

lemma register_ports_ok:
  assumes "nb < 9999" and "length prefix \<le> 20" and "0 \<notin> set (bytes_of prefix)" and "length midi \<le> 20" and "0 \<notin> set (bytes_of midi)"
  shows "\<exists>cs. register_ports prefix midi fl nb d = Some (d\<lparr>jcalls := jcalls d @ cs\<rparr>, port_names prefix midi nb)"
proof -
  let ?names = "\<lambda>n. map (\<lambda>i. bytes_of prefix @ dec_nat (i + 1)) [0..<n]"
  let ?f = "\<lambda>index (d, ps). do {
       name \<leftarrow> port_name prefix index;
       Some (jack_call (Port_register name JACK_DEFAULT_AUDIO_TYPE fl) d, ps @ [name]) }"
  let ?P = "\<lambda>i st. \<exists>cs. st = (d\<lparr>jcalls := jcalls d @ cs\<rparr>, ?names i)"
  have "\<exists>st. for_loop 0 nb ?f (d, []) = Some st \<and> ?P (0 + nb) st"
  proof (rule for_loop_inv [where P = ?P], goal_cases)
    case 1
    show ?case by (intro exI [of _ "[]"]) simp
  next
    case (2 i st)
    then obtain cs where st: "st = (d\<lparr>jcalls := jcalls d @ cs\<rparr>, ?names i)" by blast
    have "port_name prefix i = Some (bytes_of prefix @ dec_nat (i + 1))" using 2 assms by (intro port_name_ok) auto
    then show ?case by (auto simp: st jack_call_def)
  qed
  then obtain cs where loop: "for_loop 0 nb ?f (d, []) = Some (d\<lparr>jcalls := jcalls d @ cs\<rparr>, ?names nb)" by auto
  have "length (bytes_of midi) = length midi" by (simp add: bytes_of_def)
  then have m: "put_string (replicate 32 0) 0 (bytes_of midi) = Some (blit (replicate 32 0) 0 (bytes_of midi @ [0]))"
    "cstr (blit (replicate 32 0) 0 (bytes_of midi @ [0])) = bytes_of midi"
    using assms(4,5) by (auto simp: put_string_def mem_store_def intro!: cstr_blit_zero)
  show ?thesis unfolding register_ports_def loop by (auto simp: m jack_call_def port_names_def)
qed

lemma length_port_names [simp]: "length (port_names prefix midi nb) = nb + 1"
  by (simp add: port_names_def)


lemma connect_side_any:
  assumes "0 < n" and "length own = n + 1"
  shows "\<exists>p cs. connect_side ps None own inputs (int n) (0, client) = Some (p, client\<lparr>jcalls := jcalls client @ cs\<rparr>)"
proof (cases ps)
  case None
  then show ?thesis by (intro exI [of _ 0] exI [of _ "[]"]) (simp add: connect_side_def)
next
  case (Some x)
  then show ?thesis using connect_side_ok [OF assms, of x inputs client] by blast
qed

lemma jack_run_tx_ok:
  assumes "0 < nbinputs stream" and "length (input_ports client) = nbinputs stream + 1"
  shows "\<exists>cs. jack_run_tx_stream sources sinks ret stream client = Some (client\<lparr>jcalls := jcalls client @ cs\<rparr>, ret)"
proof -
  let ?c = "jack_call Activate client"
  obtain p cs where side: "connect_side sources None (input_ports ?c) True (int (nbinputs stream)) (0, ?c) =
      Some (p, ?c\<lparr>jcalls := jcalls ?c @ cs\<rparr>)"
    using connect_side_any [OF assms(1), of "input_ports ?c" sources True ?c] assms(2) by (auto simp: jack_call_def)
  have "\<exists>cs. jack_connect_stream sources sinks stream (int (nbinputs stream)) 0 None None ?c = Some (?c\<lparr>jcalls := jcalls ?c @ cs\<rparr>, 0)"
  proof (cases "flag_set (flags stream) AUTOCONNECT")
    case True
    then show ?thesis using side by (auto simp: jack_connect_stream_def connect_side_def [of _ _ _ _ 0])
  next
    case False
    then show ?thesis by (intro exI [of _ "[]"]) (simp add: jack_connect_stream_def)
  qed
  then show ?thesis by (auto simp: jack_run_tx_stream_def jack_call_def Let_def)
qed

lemma jack_run_rx_ok:
  assumes "0 < nboutputs stream" and "length (output_ports client) = nboutputs stream + 1"
  shows "\<exists>cs. jack_run_rx_stream sources sinks ret stream client = Some (client\<lparr>jcalls := jcalls client @ cs\<rparr>, ret)"
proof -
  let ?c = "jack_call Activate client"
  obtain p cs where side: "connect_side sinks None (output_ports ?c) False (int (nboutputs stream)) (0, ?c) =
      Some (p, ?c\<lparr>jcalls := jcalls ?c @ cs\<rparr>)"
    using connect_side_any [OF assms(1), of "output_ports ?c" sinks False ?c] assms(2) by (auto simp: jack_call_def)
  have "\<exists>cs. jack_connect_stream sources sinks stream 0 (int (nboutputs stream)) None None ?c = Some (?c\<lparr>jcalls := jcalls ?c @ cs\<rparr>, 0)"
  proof (cases "flag_set (flags stream) AUTOCONNECT")
    case True
    then show ?thesis using side by (auto simp: jack_connect_stream_def connect_side_def [of _ _ _ _ 0])
  next
    case False
    then show ?thesis by (intro exI [of _ "[]"]) (simp add: jack_connect_stream_def)
  qed
  then show ?thesis by (auto simp: jack_run_rx_stream_def jack_call_def Let_def)
qed

lemma jack_init_rx_ok:
  assumes "opens server" and "callback_set server" and "nboutputs stream < 9999"
    and "\<And>name. jack_server_name stream = Some name \<Longrightarrow> name \<noteq> []"
  shows "\<exists>cl. jack_init_rx_stream server client stream = Some (cl, stream\<lparr>samplerate := to_i32 (int (sample_rate server)),
      nframes := to_u16 (int (buffer_size server))\<rparr>, 0) \<and>
    output_ports cl = port_names ''Output_'' ''Output_MIDI'' (nboutputs stream) \<and> Set_process_callback \<in> set (jcalls cl)"
proof -
  have "\<forall>fl cl. \<exists>cs. register_ports ''Output_'' ''Output_MIDI'' fl (nboutputs stream) cl =
      Some (cl\<lparr>jcalls := jcalls cl @ cs\<rparr>, port_names ''Output_'' ''Output_MIDI'' (nboutputs stream))"
    using register_ports_ok [OF assms(3), of "''Output_''" "''Output_MIDI''"] by (simp add: bytes_of_def)
  then obtain cs where cs: "\<And>fl cl. register_ports ''Output_'' ''Output_MIDI'' fl (nboutputs stream) cl =
      Some (cl\<lparr>jcalls := jcalls cl @ cs fl cl\<rparr>, port_names ''Output_'' ''Output_MIDI'' (nboutputs stream))" by metis
  have "\<exists>x. (case jack_server_name stream of None \<Rightarrow> Some False
       | Some name \<Rightarrow> do { x \<leftarrow> mem_load name 0 1; Some (x \<noteq> [0]) }) = Some x"
    using assms(4) by (cases "jack_server_name stream") (auto simp: mem_load_def Suc_le_eq)
  then obtain x where x: "(case jack_server_name stream of None \<Rightarrow> Some False
       | Some name \<Rightarrow> do { x \<leftarrow> mem_load name 0 1; Some (x \<noteq> [0]) }) = Some x" ..
  show ?thesis
    unfolding jack_init_rx_stream_def Let_def x Option.bind.bind_lunit using assms(1,2) by (simp add: cs jack_call_def)
qed


section \<open>Properties\<close>

text \<open>
  Automatic connection goes by the place in the server's list. Port \<open>i\<close> of the client, the MIDI
  port with the number \<open>n\<close> of audio ports included, is connected with the \<open>i\<close>-th port of the list
  when that is not a MIDI port and \<open>i\<close> is not above the number of audio ports; the list is never
  read behind its end, for one direction at a time.
\<close>

theorem autoconnect_by_index:
  assumes "flag_set (flags stream) AUTOCONNECT" and "0 < n"
  shows "(length (input_ports client) = n + 1 \<longrightarrow>
      jack_connect_stream (Some ps) sinks stream (int n) 0 None None client =
        Some (client\<lparr>jcalls := jcalls client @ map (\<lambda>i. Connect (ps ! i) (input_ports client ! i)) (joined ps (n + 1))\<rparr>, 0)) \<and>
    (length (output_ports client) = n + 1 \<longrightarrow>
      jack_connect_stream sources (Some ps) stream 0 (int n) None None client =
        Some (client\<lparr>jcalls := jcalls client @ map (\<lambda>i. Connect (output_ports client ! i) (ps ! i)) (joined ps (n + 1))\<rparr>, 0))"
  using assms connect_side_ok [OF assms(2), of "input_ports client" ps True client]
    connect_side_ok [OF assms(2), of "output_ports client" ps False client]
  by (auto simp: jack_connect_stream_def connect_side_def [of _ _ _ _ 0] link_ports_def [abs_def])

theorem autoconnect_by_index_witness:
  "let client = zero_jack\<lparr>input_ports := [[1], [2]]\<rparr>; stream = zero_context\<lparr>flags := AUTOCONNECT\<rparr>; ps = [[7], [8]] in
   (length (input_ports client) = 1 + 1 \<longrightarrow>
      jack_connect_stream (Some ps) None stream (int 1) 0 None None client =
        Some (client\<lparr>jcalls := jcalls client @ map (\<lambda>i. Connect (ps ! i) (input_ports client ! i)) (joined ps (1 + 1))\<rparr>, 0)) \<and>
    (length (output_ports client) = 1 + 1 \<longrightarrow>
      jack_connect_stream None (Some ps) stream 0 (int 1) None None client =
        Some (client\<lparr>jcalls := jcalls client @ map (\<lambda>i. Connect (output_ports client ! i) (ps ! i)) (joined ps (1 + 1))\<rparr>, 0))"
  unfolding Let_def by (rule autoconnect_by_index) (simp_all add: flag_set_def AUTOCONNECT_def)

end
