(* ===== verification/Discovery.thy ===== *)
theory Discovery
  imports Transmit Key_Value
begin

text \<open>
  Discovery on the emitter's side: the addresses of the host (\<open>getipaddresses\<close> and
  \<open>get_ip_by_name\<close> of \<open>vban_common/udp.cpp\<close>) and the search for a receptor by its stream name
  (\<open>scan_receptor\<close> of \<open>vban_common/vban_functions.cpp\<close>). What the network answers while the emitter
  waits on one address is a list of results of \<open>recvfrom\<close>; the list ends when \<open>poll\<close> reports
  nothing more.
\<close>

section \<open>Addresses of the host\<close>

text \<open>
  An entry of the list \<open>getifaddrs\<close> gives: one without an address, or a name with the family and the
  address \<open>getnameinfo\<close> and \<open>inet_addr\<close> find (\<^const>\<open>None\<close> when \<open>getnameinfo\<close> fails).
\<close>

datatype iface =
    No_address
  | Address "byte list" bool "u32 option"

text \<open>
  The second component is the number of addresses, \<^const>\<open>None\<close> when the function returned early and
  left it as it was.
\<close>

fun ip_loop :: "iface list \<Rightarrow> u32 list \<Rightarrow> nat \<Rightarrow> (u32 list \<times> nat option) option" where
  "ip_loop [] ips num = Some (ips, Some num)"
| "ip_loop (No_address # ifa) ips num = ip_loop ifa ips num"
| "ip_loop (Address name inet host # ifa) ips num =
     (if inet then
        case host of
          None \<Rightarrow> Some (ips, None)
        | Some ip \<Rightarrow> do { ips \<leftarrow> mem_store ips num [ip]; ip_loop ifa ips (num + 1) }
      else ip_loop ifa ips num)"

text \<open>A failure of \<open>getifaddrs\<close> ends the process: the result is \<open>Inl ()\<close>.\<close>

definition getipaddresses :: "iface list option \<Rightarrow> u32 list \<Rightarrow> nat \<Rightarrow> (unit + u32 list \<times> nat) option" where
  "getipaddresses ifaddr ips ipnum =
     (case ifaddr of
        None \<Rightarrow> Some (Inl ())
      | Some ifa \<Rightarrow> do {
          (ips, num) \<leftarrow> ip_loop ifa ips 0;
          Some (Inr (ips, case num of None \<Rightarrow> ipnum | Some n \<Rightarrow> n)) })"

fun ip_by_name :: "iface list \<Rightarrow> byte list \<Rightarrow> u32" where
  "ip_by_name [] ifname = 0"
| "ip_by_name (No_address # ifa) ifname = ip_by_name ifa ifname"
| "ip_by_name (Address name inet host # ifa) ifname =
     (if inet then
        case host of
          None \<Rightarrow> 0
        | Some ip \<Rightarrow> if name = ifname then ip else ip_by_name ifa ifname
      else ip_by_name ifa ifname)"

definition get_ip_by_name :: "iface list option \<Rightarrow> byte list \<Rightarrow> unit + u32" where
  "get_ip_by_name ifaddr ifname =
     (case ifaddr of None \<Rightarrow> Inl () | Some ifa \<Rightarrow> Inr (ip_by_name ifa ifname))"


section \<open>The search\<close>

type_synonym reply = "int + byte list \<times> u32 \<times> u16"

text \<open>The request: both texts are appended to cleared fields.\<close>

definition inforequest :: "vban_packet option" where
  "inforequest = do {
     nm \<leftarrow> put_string (replicate VBAN_STREAM_NAME_SIZE 0) 0 (bytes_of ''INFO'');
     d \<leftarrow> put_string (replicate VBAN_DATA_MAX_SIZE 0) 0 (bytes_of ''/info'');
     Some \<lparr>header = zero_header\<lparr>vban := VBAN_HEADER_FOURC, format_SR := protocol_val VBAN_PROTOCOL_TXT, streamname := nm\<rparr>,
       pdata = d\<rparr> }"

text \<open>The replies on one address; \<open>info\<close> is the packet they are read into, which is never cleared.\<close>

fun scan_wait :: "u32 list \<Rightarrow> reply list \<Rightarrow> int \<Rightarrow> tx \<times> vban_packet \<Rightarrow> (tx \<times> vban_packet) option" where
  "scan_wait ips [] received st = Some st"
| "scan_wait ips (answer # answers) received st =
     (if received > 0 then
        let (s, info) = st; (k, info, received) = udp_recv (txsock (t_ctx s)) info answer in do {
          (c, found) \<leftarrow> scan_answer ((t_ctx s)\<lparr>txsock := k\<rparr>) ips info received (sin_addr k);
          let st = (s\<lparr>t_ctx := c\<rparr>, info);
          if found then Some st else scan_wait ips answers received st }
      else Some st)"

definition scan_address :: "u32 list \<Rightarrow> vban_packet \<Rightarrow> (nat \<Rightarrow> reply list) \<Rightarrow> nat \<Rightarrow> tx \<times> vban_packet \<Rightarrow>
    (tx \<times> vban_packet) option" where
  "scan_address ips request answers i = (\<lambda>(s, info). do {
     let c = t_ctx s;
     ip \<leftarrow> (if i < length ips then Some (ips ! i) else None);
     (k, ev, _) \<leftarrow> udp_send (txsock c) (txport c) (packet_bytes request) (VBAN_HEADER_SIZE + 5) (ip OR 0xFF000000) 0;
     scan_wait ips (answers i) 1500 (s\<lparr>t_ctx := c\<lparr>txsock := k\<rparr>, t_io := t_io s @ [ev]\<rparr>, info) })"

text \<open>
  The rounds repeat until an address is found. With no more rounds given and no address found the
  search still runs: \<^const>\<open>None\<close>.
\<close>

fun scan_rounds :: "u32 list \<Rightarrow> vban_packet \<Rightarrow> (nat \<Rightarrow> reply list) list \<Rightarrow> tx \<times> vban_packet \<Rightarrow> (tx \<times> vban_packet) option" where
  "scan_rounds ips request [] st = (if iptx (t_ctx (fst st)) = 0 then None else Some st)"
| "scan_rounds ips request (r # rs) st =
     (if iptx (t_ctx (fst st)) = 0
      then do { st \<leftarrow> for_loop 1 (length ips - 1) (scan_address ips request r) st; scan_rounds ips request rs st }
      else Some st)"

definition scan_receptor :: "iface list option \<Rightarrow> (nat \<Rightarrow> reply list) list \<Rightarrow> tx \<Rightarrow> (unit + tx) option" where
  "scan_receptor ifaddr rounds s = do {
     request \<leftarrow> inforequest;
     r \<leftarrow> getipaddresses ifaddr (replicate 16 0) 0;
     case r of
       Inl e \<Rightarrow> Some (Inl e)
     | Inr (ips, ipnum) \<Rightarrow> do {
         ips \<leftarrow> mem_load ips 0 ipnum;
         (s, _) \<leftarrow> scan_rounds ips request rounds (s, zero_packet);
         Some (Inr s) } }"


section \<open>Addresses\<close>

text \<open>The addresses of the host in the order of its interfaces.\<close>

definition inet_addresses :: "iface list \<Rightarrow> u32 list" where
  "inet_addresses ifa = concat (map (\<lambda>i. case i of Address _ True (Some ip) \<Rightarrow> [ip] | _ \<Rightarrow> []) ifa)"

definition named :: "iface list \<Rightarrow> bool" where
  "named ifa \<longleftrightarrow> (\<forall>i \<in> set ifa. case i of Address _ inet host \<Rightarrow> inet \<longrightarrow> host \<noteq> None | _ \<Rightarrow> True)"

lemma ip_loop_ok:
  assumes "named ifa" and "num + length (inet_addresses ifa) \<le> length ips"
  shows "ip_loop ifa ips num = Some (blit ips num (inet_addresses ifa), Some (num + length (inet_addresses ifa)))"
  using assms
proof (induction ifa ips num rule: ip_loop.induct)
  case (3 name inet host ifa ips num)
  then show ?case
    by (cases inet; cases host)
      (auto simp: named_def inet_addresses_def mem_store_def length_blit blit_def min_def add.commute)
qed (auto simp: named_def inet_addresses_def blit_def)

lemma ip_loop_many:
  assumes "named ifa" and "length ips < num + length (inet_addresses ifa)" and "num \<le> length ips"
  shows "ip_loop ifa ips num = None"
  using assms
proof (induction ifa ips num rule: ip_loop.induct)
  case (3 name inet host ifa ips num)
  then show ?case
    by (cases inet; cases host) (auto simp: named_def inet_addresses_def mem_store_def length_blit)
qed (auto simp: named_def inet_addresses_def)


section \<open>Rounds\<close>

definition request_to :: "stream_context \<Rightarrow> vban_packet \<Rightarrow> u32 \<Rightarrow> io" where
  "request_to c request ip = Sendto (fd (txsock c)) (take (VBAN_HEADER_SIZE + 5) (packet_bytes request))
     (ip OR 0xFF000000) (htons (txport c))"

text \<open>
  The state after some addresses: the target \<open>x\<close>, the socket's address \<open>y\<close>, the packet read last
  and the requests sent.
\<close>

definition scanned :: "tx \<Rightarrow> u32 \<Rightarrow> u32 \<Rightarrow> vban_packet \<Rightarrow> io list \<Rightarrow> tx \<times> vban_packet \<Rightarrow> bool" where
  "scanned s0 x y p io st \<longleftrightarrow> (\<exists>k. fst st = s0\<lparr>t_ctx := (t_ctx s0)\<lparr>iptx := x, txsock := k\<rparr>, t_io := t_io s0 @ io\<rparr> \<and>
     fd k = fd (txsock (t_ctx s0)) \<and> sin_addr k = y \<and> snd st = p)"

lemma or_high [simp]: "w OR 0xFF000000 \<noteq> (0 :: u32)"
proof
  assume "w OR 0xFF000000 = 0"
  then have "bit (w OR 0xFF000000) 31 = bit (0 :: u32) 31" by simp
  then show False by (simp add: bit_or_iff)
qed

lemma upd_order: "c\<lparr>txsock := k, iptx := x\<rparr> = c\<lparr>iptx := x, txsock := k\<rparr>"
  by simp

text \<open>Nothing answers: only the request leaves.\<close>

lemma scan_silent:
  assumes "scanned s0 x y p io st" and "i < length ips" and "answers i = []" and "txport (t_ctx s0) \<noteq> 0"
    and "packet_ok request"
  shows "\<exists>st'. scan_address ips request answers i st = Some st' \<and>
    scanned s0 x y p (io @ [request_to (t_ctx s0) request (ips ! i)]) st'"
proof -
  obtain k where st: "st = (s0\<lparr>t_ctx := (t_ctx s0)\<lparr>iptx := x, txsock := k\<rparr>, t_io := t_io s0 @ io\<rparr>, p)"
      "fd k = fd (txsock (t_ctx s0))" "sin_addr k = y"
    using assms(1) by (cases st) (auto simp: scanned_def)
  let ?k = "k\<lparr>sin_port := htons (txport (t_ctx s0))\<rparr>"
  have up: "udp_send k (txport (t_ctx s0)) (packet_bytes request) (VBAN_HEADER_SIZE + 5) (ips ! i OR 0xFF000000) 0 =
      Some (?k, request_to (t_ctx s0) request (ips ! i), 0)"
    using assms(4) length_packet_bytes [OF assms(5)] st(2)
    by (simp add: udp_send_def Let_def mem_load_def request_to_def vban_sizes)
  have "scan_address ips request answers i st = Some (s0\<lparr>t_ctx := (t_ctx s0)\<lparr>iptx := x, txsock := ?k\<rparr>,
      t_io := t_io s0 @ io @ [request_to (t_ctx s0) request (ips ! i)]\<rparr>, p)"
    using assms(2,3) up by (simp add: scan_address_def st(1) Let_def)
  then show ?thesis using st(2,3) by (auto simp: scanned_def intro!: exI [of _ ?k])
qed

text \<open>One answer: it is read over the packet, its sender becomes the socket's address, and it is judged.\<close>

lemma scan_one:
  assumes "scanned s0 x y p io st" and "i < length ips" and "answers i = [Inr (bs, a, port)]" and "txport (t_ctx s0) \<noteq> 0"
    and "packet_ok request" and q: "q = packet_store p bs"
    and judge: "\<And>k. scan_answer ((t_ctx s0)\<lparr>iptx := x, txsock := k\<rparr>) ips q (int (length bs)) a =
      Some ((t_ctx s0)\<lparr>iptx := x', txsock := k\<rparr>, found)"
  shows "\<exists>st'. scan_address ips request answers i st = Some st' \<and>
    scanned s0 x' a q (io @ [request_to (t_ctx s0) request (ips ! i)]) st'"
proof -
  obtain k where st: "st = (s0\<lparr>t_ctx := (t_ctx s0)\<lparr>iptx := x, txsock := k\<rparr>, t_io := t_io s0 @ io\<rparr>, p)"
      "fd k = fd (txsock (t_ctx s0))" "sin_addr k = y"
    using assms(1) by (cases st) (auto simp: scanned_def)
  let ?k = "k\<lparr>sin_port := htons (txport (t_ctx s0))\<rparr>"
  let ?k2 = "?k\<lparr>sin_family := AF_INET, sin_addr := a, sin_port := port\<rparr>"
  have up: "udp_send k (txport (t_ctx s0)) (packet_bytes request) (VBAN_HEADER_SIZE + 5) (ips ! i OR 0xFF000000) 0 =
      Some (?k, request_to (t_ctx s0) request (ips ! i), 0)"
    using assms(4) length_packet_bytes [OF assms(5)] st(2)
    by (simp add: udp_send_def Let_def mem_load_def request_to_def vban_sizes)
  have rv: "udp_recv ?k p (Inr (bs, a, port)) = (?k2, q, int (length bs))" by (simp add: udp_recv_def q)
  have "scan_address ips request answers i st = Some (s0\<lparr>t_ctx := (t_ctx s0)\<lparr>iptx := x', txsock := ?k2\<rparr>,
      t_io := t_io s0 @ io @ [request_to (t_ctx s0) request (ips ! i)]\<rparr>, q)"
    using assms(2,3) up rv judge [of ?k2] by (cases found) (simp_all add: scan_address_def st(1) Let_def)
  then show ?thesis using st(2,3) by (auto simp: scanned_def intro!: exI [of _ ?k2])
qed

text \<open>A packet too short to hold text, and an answer with the right name.\<close>

lemma scan_short: "received \<le> int VBAN_HEADER_SIZE \<Longrightarrow> scan_answer s ips p received a = Some (s, False)"
  by (simp add: scan_answer_def)

definition right_answer :: "stream_context \<Rightarrow> u32 list \<Rightarrow> byte list \<Rightarrow> u32 \<Rightarrow> bool" where
  "right_answer c ips bs a \<longleftrightarrow> (\<exists>kvs v. let p = packet_store zero_packet bs in
     VBAN_HEADER_SIZE < length bs \<and> vban (header p) = VBAN_HEADER_FOURC \<and>
     format_SR (header p) = protocol_val VBAN_PROTOCOL_TXT \<and> a \<notin> set ips \<and> hd (servername c) = 0 \<and>
     0 \<in> set (pdata p) \<and> cstr (pdata p) = render kvs \<and> plain kvs \<and>
     (map_of kvs k_streamnamerx = None \<and> v = [] \<or> map_of kvs k_streamnamerx = Some v \<and> length v < 32 \<and> 0 \<notin> set v) \<and>
     take (length v) (cstr (tx_streamname c)) = v)"

lemma right_answer_found:
  assumes "right_answer c ips bs a"
  shows "scan_answer (c\<lparr>iptx := x, txsock := k\<rparr>) ips (packet_store zero_packet bs) (int (length bs)) a =
    Some (c\<lparr>iptx := a, txsock := k\<rparr>, True)"
proof -
  obtain kvs v where *: "VBAN_HEADER_SIZE < length bs" "vban (header (packet_store zero_packet bs)) = VBAN_HEADER_FOURC"
      "format_SR (header (packet_store zero_packet bs)) = protocol_val VBAN_PROTOCOL_TXT" "a \<notin> set ips" "hd (servername c) = 0"
      "0 \<in> set (pdata (packet_store zero_packet bs))" "cstr (pdata (packet_store zero_packet bs)) = render kvs" "plain kvs"
      "map_of kvs k_streamnamerx = None \<and> v = [] \<or> map_of kvs k_streamnamerx = Some v \<and> length v < 32 \<and> 0 \<notin> set v"
      "take (length v) (cstr (tx_streamname c)) = v"
    using assms unfolding right_answer_def Let_def by blast
  show ?thesis
    using scan_answer_render [of "int (length bs)" "packet_store zero_packet bs" a ips "c\<lparr>iptx := x, txsock := k\<rparr>" kvs v] *
    by simp
qed

text \<open>
  One round: the right answer comes on address \<open>k\<close>, and a short packet on a later address \<open>j\<close> (when
  there is one).
\<close>

definition replies :: "nat \<Rightarrow> reply \<Rightarrow> nat \<Rightarrow> reply \<Rightarrow> nat \<Rightarrow> reply list" where
  "replies k r j r' i = (if i = k then [r] else if i = j then [r'] else [])"

lemma scan_round:
  assumes c: "iptx (t_ctx s) = 0" "txport (t_ctx s) \<noteq> 0" and rq: "packet_ok request"
    and k: "1 \<le> k" "k < length ips" "k < j" and hit: "right_answer (t_ctx s) ips bs a"
    and junk: "length bs' \<le> VBAN_HEADER_SIZE"
  shows "\<exists>st q. for_loop 1 (length ips - 1) (scan_address ips request (replies k (Inr (bs, a, p)) j (Inr (bs', b, p')))) (s, zero_packet) =
      Some st \<and> scanned s a (if j < length ips then b else a) q (map (request_to (t_ctx s) request) (tl ips)) st"
proof -
  let ?q = "packet_store zero_packet bs"
  let ?P = "\<lambda>i st. scanned s (if i \<le> k then 0 else a) (if i \<le> k then sin_addr (txsock (t_ctx s)) else if i \<le> j then a else b)
    (if i \<le> k then zero_packet else if i \<le> j then ?q else packet_store ?q bs')
    (map (request_to (t_ctx s) request) (map ((!) ips) [1..<i])) st"
  have "\<exists>st. for_loop 1 (length ips - 1) (scan_address ips request (replies k (Inr (bs, a, p)) j (Inr (bs', b, p')))) (s, zero_packet) =
      Some st \<and> ?P (1 + (length ips - 1)) st"
  proof (rule for_loop_inv [where P = ?P], goal_cases)
    case 1
    show ?case using k c by (auto simp: scanned_def intro!: exI [of _ "txsock (t_ctx s)"])
  next
    case (2 i st)
    then have i: "1 \<le> i" "i < length ips" by auto
    consider "i = k" | "i = j" "k < i" | "i \<noteq> k" "i \<noteq> j" using k(3) by blast
    then show ?case
    proof cases
      case 1
      then show ?thesis
        using scan_one [where st = st and answers = "replies k (Inr (bs, a, p)) j (Inr (bs', b, p'))" and port = p and x = 0,
            OF _ i(2) _ c(2) rq refl right_answer_found [OF hit]] 2 k i by (auto simp: replies_def)
    next
      case late: 2
      have "scan_answer ((t_ctx s)\<lparr>iptx := a, txsock := kk\<rparr>) ips (packet_store ?q bs') (int (length bs')) b =
          Some ((t_ctx s)\<lparr>iptx := a, txsock := kk\<rparr>, False)" for kk
        using junk by (intro scan_short) simp
      then show ?thesis
        using scan_one [where st = st and answers = "replies k (Inr (bs, a, p)) j (Inr (bs', b, p'))" and port = p' and x = a
            and x' = a and found = False and a = b and bs = bs' and p = ?q, OF _ i(2) _ c(2) rq refl] 2 late k i
        by (auto simp: replies_def)
    next
      case 3
      then have nil: "replies k (Inr (bs, a, p)) j (Inr (bs', b, p')) i = []" by (simp add: replies_def)
      have "(Suc i \<le> k) = (i \<le> k)" "(Suc i \<le> j) = (i \<le> j)" using 3 by auto
      then show ?thesis using scan_silent [where answers = "replies k (Inr (bs, a, p)) j (Inr (bs', b, p'))" and i = i,
          OF 2(3) i(2) nil c(2) rq] i by (simp split: if_splits)
    qed
  qed
  moreover have "1 + (length ips - 1) = length ips" using k by simp
  ultimately obtain st where st: "for_loop 1 (length ips - 1) (scan_address ips request (replies k (Inr (bs, a, p)) j (Inr (bs', b, p')))) (s, zero_packet) =
      Some st" "?P (length ips) st"
    by metis
  have "map ((!) ips) [1..<length ips] = tl ips" by (rule nth_equalityI) (auto simp: nth_tl)
  then show ?thesis using st k by (auto split: if_splits)
qed


lemma inforequest_ok: "\<exists>request. inforequest = Some request \<and> packet_ok request \<and>
    vban (header request) = VBAN_HEADER_FOURC \<and> format_SR (header request) = protocol_val VBAN_PROTOCOL_TXT \<and>
    cstr (streamname (header request)) = bytes_of ''INFO'' \<and> cstr (pdata request) = bytes_of ''/info''"
  by (simp add: inforequest_def put_string_def mem_store_def vban_sizes packet_ok_def header_ok_def bytes_of_def blit_def cstr_def)

text \<open>The whole search, when the first round brings the right answer.\<close>

lemma scan_receptor_round:
  assumes c: "iptx (t_ctx s) = 0" "txport (t_ctx s) \<noteq> 0" and ifa: "named ifa" "inet_addresses ifa = ips" "length ips \<le> 16"
    and k: "1 \<le> k" "k < length ips" "k < j" and hit: "right_answer (t_ctx s) ips bs a" "a \<noteq> 0"
    and junk: "length bs' \<le> VBAN_HEADER_SIZE"
  shows "\<exists>s' request. inforequest = Some request \<and> packet_ok request \<and>
    scan_receptor (Some ifa) [replies k (Inr (bs, a, p)) j (Inr (bs', b, p'))] s = Some (Inr s') \<and>
    iptx (t_ctx s') = a \<and> sin_addr (txsock (t_ctx s')) = (if j < length ips then b else a) \<and>
    t_ctx s' = (t_ctx s)\<lparr>iptx := a, txsock := txsock (t_ctx s')\<rparr> \<and>
    t_io s' = t_io s @ map (request_to (t_ctx s) request) (tl ips)"
proof -
  obtain rq where rq: "inforequest = Some rq" "packet_ok rq" using inforequest_ok by blast
  obtain st q where st: "for_loop 1 (length ips - 1) (scan_address ips rq (replies k (Inr (bs, a, p)) j (Inr (bs', b, p')))) (s, zero_packet) =
      Some st" "scanned s a (if j < length ips then b else a) q (map (request_to (t_ctx s) rq) (tl ips)) st"
    using scan_round [OF c rq(2) k hit(1) junk] by blast
  obtain s' where s': "st = (s', q)" using st(2) by (cases st) (auto simp: scanned_def)
  have ips: "getipaddresses (Some ifa) (replicate 16 0) 0 = Some (Inr (blit (replicate 16 0) 0 ips, length ips))"
    using ip_loop_ok [OF ifa(1), of 0 "replicate 16 0"] ifa(2,3) by (simp add: getipaddresses_def)
  have ld: "mem_load (blit (replicate 16 0) 0 ips) 0 (length ips) = Some ips"
    using ifa(3) by (simp add: mem_load_def blit_0)
  have x: "iptx (t_ctx s') = a" using st(2) s' by (auto simp: scanned_def)
  have "scan_receptor (Some ifa) [replies k (Inr (bs, a, p)) j (Inr (bs', b, p'))] s = Some (Inr s')"
    unfolding scan_receptor_def rq(1) Option.bind.bind_lunit ips sum.case prod.case ld
    using st(1) c(1) x hit(2) by (simp add: s')
  moreover obtain k' where e: "s' = s\<lparr>t_ctx := (t_ctx s)\<lparr>iptx := a, txsock := k'\<rparr>, t_io := t_io s @ map (request_to (t_ctx s) rq) (tl ips)\<rparr>"
      "sin_addr k' = (if j < length ips then b else a)"
    using st(2) s' by (auto simp: scanned_def)
  moreover have "sin_addr (txsock (t_ctx s')) = (if j < length ips then b else a)"
    "t_ctx s' = (t_ctx s)\<lparr>iptx := a, txsock := txsock (t_ctx s')\<rparr>"
    "t_io s' = t_io s @ map (request_to (t_ctx s) rq) (tl ips)"
    by (simp_all add: e)
  ultimately show ?thesis using rq x by blast
qed


section \<open>Properties\<close>

definition example_ifaces :: "iface list" where
  "example_ifaces = [No_address, Address (bytes_of ''lo'') True (Some 0x0100007F), Address (bytes_of ''lo'') False None,
     Address (bytes_of ''eth0'') True (Some 0x0501A8C0), Address (bytes_of ''wlan0'') True (Some 0x0502A8C0)]"

definition example_answer :: "byte list" where
  "example_answer = take 29 (packet_bytes (zero_packet\<lparr>header := zero_header\<lparr>vban := VBAN_HEADER_FOURC, format_SR := 0x40\<rparr>\<rparr>))"

lemma example_answer_packet:
  "packet_store zero_packet example_answer = zero_packet\<lparr>header := zero_header\<lparr>vban := VBAN_HEADER_FOURC, format_SR := 0x40\<rparr>\<rparr>"
  (is "_ = ?p")
proof -
  have ok: "packet_ok ?p" by (simp add: zero_packet_def zero_header_def packet_ok_def header_ok_def)
  have "blit (packet_bytes zero_packet) 0 example_answer = packet_bytes ?p"
    by (simp add: example_answer_def packet_bytes_def header_bytes_def zero_packet_def zero_header_def le32_def blit_def
        vban_sizes VBAN_HEADER_FOURC_def flip: replicate_Suc replicate_add)
  then show ?thesis using packet_of_bytes_packet_bytes [OF ok] by (simp add: packet_store_def)
qed

lemma example_answer_right: "c = 3 \<Longrightarrow> right_answer zero_context [0x0100007F, 0x0501A8C0, 0x0502A8C0] example_answer c"
  unfolding right_answer_def Let_def example_answer_packet
  by (rule exI [of _ "[]"], rule exI [of _ "[]"])
    (simp add: zero_packet_def zero_context_def cstr_def plain_def vban_sizes example_answer_def packet_bytes_def
      header_bytes_def le32_def zero_header_def)

lemma right_answer_context [simp]: "right_answer (c\<lparr>txport := q\<rparr>) ips bs a = right_answer c ips bs a"
  by (simp add: right_answer_def)



text \<open>
  A late answer redirects the stream. When after the right answer any host answers on a later
  address with a packet too short to be judged, the search ends with the right target, but the
  socket keeps the address of the last sender, and that is where the sender's packets go (they are
  sent to the socket's address).
\<close>

theorem late_answer_redirects:
  assumes "iptx (t_ctx s) = 0" and "txport (t_ctx s) \<noteq> 0" and "named ifa" and "inet_addresses ifa = ips" and "length ips \<le> 16"
    and "1 \<le> k" and "k < j" and "j < length ips" and "right_answer (t_ctx s) ips bs a" and "a \<noteq> 0"
    and "length bs' \<le> VBAN_HEADER_SIZE"
  shows "\<exists>s'. scan_receptor (Some ifa) [replies k (Inr (bs, a, p)) j (Inr (bs', b, p'))] s = Some (Inr s') \<and>
    iptx (t_ctx s') = a \<and> (\<forall>c buf pos i. txsock c = txsock (t_ctx s') \<longrightarrow>
      (\<exists>d. nth_datagram c buf pos 0 i = Sendto (fd (txsock c)) d b (htons (txport c))))"
proof -
  obtain s' where "scan_receptor (Some ifa) [replies k (Inr (bs, a, p)) j (Inr (bs', b, p'))] s = Some (Inr s')"
      "iptx (t_ctx s') = a" "sin_addr (txsock (t_ctx s')) = b"
    using scan_receptor_round [OF assms(1-6) order_less_trans [OF assms(7,8)] assms(7,9,10,11), of p b p'] assms(8) by auto
  then show ?thesis by (auto simp: nth_datagram_def)
qed

theorem late_answer_redirects_witness:
  "let s = \<lparr>t_ctx = zero_context\<lparr>txport := 6980\<rparr>, t_io = [], t_chk = 0\<rparr> in
   \<exists>s'. scan_receptor (Some example_ifaces) [replies 1 (Inr (example_answer, 3, 6980)) 2 (Inr ([], 9, 7))] s = Some (Inr s') \<and>
    iptx (t_ctx s') = 3 \<and> (\<forall>c buf pos i. txsock c = txsock (t_ctx s') \<longrightarrow>
      (\<exists>d. nth_datagram c buf pos 0 i = Sendto (fd (txsock c)) d 9 (htons (txport c))))"
  unfolding Let_def
  by (rule late_answer_redirects [where ips = "[0x0100007F, 0x0501A8C0, 0x0502A8C0]"])
    (simp_all add: example_ifaces_def named_def inet_addresses_def example_answer_right, simp_all add: zero_context_def)

text \<open>
  A host with more than 16 addresses writes behind the array of addresses.
\<close>

theorem many_addresses_overflow:
  assumes "named ifa" and "16 < length (inet_addresses ifa)"
  shows "scan_receptor (Some ifa) rounds s = None"
proof -
  have "ip_loop ifa (replicate 16 0) 0 = None" using assms by (intro ip_loop_many) simp_all
  then have "getipaddresses (Some ifa) (replicate 16 0) 0 = None" by (simp add: getipaddresses_def)
  then show ?thesis by (cases inforequest) (simp_all add: scan_receptor_def)
qed

theorem many_addresses_overflow_witness:
  "scan_receptor (Some (replicate 17 (Address [] True (Some 1)))) [] \<lparr>t_ctx = zero_context, t_io = [], t_chk = 0\<rparr> = None"
  by (rule many_addresses_overflow) (simp_all add: named_def inet_addresses_def)

end
