(* ===== verification/Receive.thy ===== *)
theory Receive
  imports Rate Packets
begin

text \<open>
  The playing side of a receiver (\<open>vban_common/vban_functions.h\<close>): how a callback takes its frames
  out of the ring (\<open>vban_read_frame_from_ringbuffer\<close>, \<open>vban_add_frame_from_ringbuffer\<close>) and how the
  two readers of a period (\<open>read_from_ringbuffer_async\<close> and its non-interleaved form) conceal what is
  missing. Arrays of floats are blocks of bytes; positions in them are counted in floats as in the
  code, and a position below the block's start is undefined. The locks of the readers have no effect
  here: the reads are the steps of the single reader of the ring.
\<close>

section \<open>Frames out of the ring\<close>

text \<open>The destination is float number \<open>pos\<close> of the block \<open>b\<close>; \<open>num\<close> is an \<open>int\<close>.\<close>

definition vban_read_frame_from_ringbuffer :: "byte list \<Rightarrow> nat \<Rightarrow> ringbuffer \<Rightarrow> int \<Rightarrow> (byte list \<times> ringbuffer \<times> int) option" where
  "vban_read_frame_from_ringbuffer b pos rb num = do {
     let size = umul (to_size num) 4;
     n \<leftarrow> ringbuffer_read_space rb;
     if size \<le> n then
       if 4 * pos \<le> length b then do {
         (rb, d, _) \<leftarrow> ringbuffer_read rb (drop (4 * pos) b) size;
         Some (take (4 * pos) b @ d, rb, 0) }
       else None
     else Some (b, rb, 1) }"

definition vban_add_frame_from_ringbuffer :: "byte list \<Rightarrow> nat \<Rightarrow> ringbuffer \<Rightarrow> int \<Rightarrow> (byte list \<times> ringbuffer \<times> int) option" where
  "vban_add_frame_from_ringbuffer b pos rb num = do {
     let size = umul (to_size num) 4;
     n \<leftarrow> ringbuffer_read_space rb;
     if size \<le> n then do {
       (rb, fsamples, _) \<leftarrow> ringbuffer_read rb (replicate (4 * 256) 0) size;
       b \<leftarrow> for_loop 0 (nat num) (\<lambda>i b. do {
         x \<leftarrow> load_f32 b (pos + i);
         y \<leftarrow> load_f32 fsamples i;
         store_f32 b (pos + i) (fdiv f32 (fadd f32 x y) (of_int_fl f32 2)) }) b;
       Some (b, rb, 0) }
     else Some (b, rb, 1) }"


section \<open>Concealment\<close>

text \<open>
  The extrapolation of a lost frame from the three before it, and the smoothing of a frame with the
  three before it: the products are taken in double precision and the sum is stored as a float.
\<close>

definition extrapolate :: "fl \<Rightarrow> fl \<Rightarrow> fl \<Rightarrow> fl" where
  "extrapolate x1 x2 x3 =
     (let k = fmul f64 (lit f64 (8 / 10)) (d_nat 3) in
      to_fmt f32 (fadd f64 (fsub f64 (fmul f64 k x1) (fmul f64 k x2)) (fmul f64 (lit f64 (8 / 10)) x3)))"

definition smooth :: "fl \<Rightarrow> fl \<Rightarrow> fl \<Rightarrow> fl \<Rightarrow> fl" where
  "smooth x0 x1 x2 x3 =
     to_fmt f32 (fadd f64 (fsub f64 (fadd f64 (fmul f64 (lit f64 (3 / 10)) x0) (fmul f64 (lit f64 (9 / 10)) x1))
       (fmul f64 (lit f64 (9 / 10)) x2)) (fmul f64 (lit f64 (3 / 10)) x3))"

definition ld :: "byte list \<Rightarrow> int \<Rightarrow> fl option" where
  "ld b i = (if i < 0 then None else load_f32 b (nat i))"

definition conceal_frame :: "nat \<Rightarrow> nat \<Rightarrow> byte list \<Rightarrow> byte list option" where
  "conceal_frame nb pos b = for_loop 0 nb (\<lambda>channel b. do {
     x1 \<leftarrow> ld b (int pos - int nb + int channel);
     x2 \<leftarrow> ld b (int pos - 2 * int nb + int channel);
     x3 \<leftarrow> ld b (int pos - 3 * int nb + int channel);
     store_f32 b (pos + channel) (extrapolate x1 x2 x3) }) b"

definition smooth_frame :: "nat \<Rightarrow> nat \<Rightarrow> byte list \<Rightarrow> byte list option" where
  "smooth_frame nb pos b = for_loop 0 nb (\<lambda>channel b. do {
     x0 \<leftarrow> ld b (int pos + int channel);
     x1 \<leftarrow> ld b (int pos - int nb + int channel);
     x2 \<leftarrow> ld b (int pos - 2 * int nb + int channel);
     x3 \<leftarrow> ld b (int pos - 3 * int nb + int channel);
     store_f32 b (pos + channel) (smooth x0 x1 x2 x3) }) b"

text \<open>Frame \<open>f\<close> of the interleaved buffer goes to place \<open>g\<close> of every channel's block.\<close>

definition out_frame :: "nat \<Rightarrow> nat \<Rightarrow> nat \<Rightarrow> byte list \<Rightarrow> byte list list \<Rightarrow> byte list list option" where
  "out_frame nb f g b outs = for_loop 0 nb (\<lambda>channel outs. do {
     x \<leftarrow> mem_load b (4 * (nb * f + channel)) 4;
     if channel < length outs then do {
       y \<leftarrow> mem_store (outs ! channel) (4 * g) x;
       Some (outs[channel := y]) }
     else None }) outs"


section \<open>The readers of a period\<close>

text \<open>
  The variables of the loop over the frames. The two readers differ in when they smooth a frame they
  have read (\<open>cond\<close>, a test of the number of frames lost before it) and in what they do with a frame
  they have placed (\<open>emit\<close>).
\<close>

record rd_state =
  rd_buf :: "byte list"
  rd_rb :: ringbuffer
  rd_lframe :: nat
  rd_lost :: nat
  rd_llost :: nat
  rd_out :: "byte list list"

definition rd_step :: "(nat \<Rightarrow> bool) \<Rightarrow> (nat \<Rightarrow> byte list \<Rightarrow> byte list list \<Rightarrow> byte list list option) \<Rightarrow>
    nat \<Rightarrow> nat \<Rightarrow> rd_state \<Rightarrow> rd_state option" where
  "rd_step cond emit nb lag s = do {
     let rxbuf_pos = nb * (rd_lframe s + lag);
     n \<leftarrow> ringbuffer_read_space (rd_rb s);
     if to_size (to_i32 (int n)) < umul 4 nb then do {
       let s = s\<lparr>rd_llost := rd_llost s + 1, rd_lost := rd_lost s + 1\<rparr>;
       if rd_llost s < 3 then do {
         b \<leftarrow> conceal_frame nb rxbuf_pos (rd_buf s);
         outs \<leftarrow> emit (rd_lframe s) b (rd_out s);
         Some (s\<lparr>rd_buf := b, rd_out := outs, rd_lframe := rd_lframe s + 1\<rparr>) }
       else Some s }
     else do {
       (b, rb, _) \<leftarrow> vban_read_frame_from_ringbuffer (rd_buf s) rxbuf_pos (rd_rb s) (int nb);
       b \<leftarrow> (if cond (rd_llost s) then smooth_frame nb rxbuf_pos b else Some b);
       outs \<leftarrow> emit (rd_lframe s) b (rd_out s);
       Some (s\<lparr>rd_buf := b, rd_rb := rb, rd_llost := 0, rd_out := outs, rd_lframe := rd_lframe s + 1\<rparr>) } }"

text \<open>The tail of the buffer goes to its head; a \<open>memcpy\<close> between overlapping parts is undefined.\<close>

definition tail_to_head :: "nat \<Rightarrow> nat \<Rightarrow> nat \<Rightarrow> byte list \<Rightarrow> byte list option" where
  "tail_to_head nb lag n b =
     (if n * nb < lag * nb then None
      else do { xs \<leftarrow> mem_load b (4 * (n * nb)) (4 * (lag * nb)); mem_store b 0 xs })"

text \<open>When less than half of the period was placed, what was placed moves to the end.\<close>

definition move_up :: "nat \<Rightarrow> nat \<Rightarrow> nat \<Rightarrow> nat \<Rightarrow> byte list \<Rightarrow> byte list option" where
  "move_up nb lag n lframe b = do {
     xs \<leftarrow> mem_load b (4 * (nb * lframe + lag)) (4 * (nb * lframe));
     mem_store b (4 * (nb * (n - 1 - lframe) + lag)) xs }"

definition read_from_ringbuffer_async :: "stream_context \<Rightarrow> stream_context option" where
  "read_from_ringbuffer_async context = do {
     let nb = nboutputs context; let n = nframes context; let lag = lagrange_num context;
     rb \<leftarrow> ringbuffer context;
     b \<leftarrow> tail_to_head nb lag n (rxbuf context);
     s \<leftarrow> for_loop 0 n (\<lambda>bframe. rd_step (\<lambda>llost. llost < 3) (\<lambda>_ _ outs. Some outs) nb lag)
       \<lparr>rd_buf = b, rd_rb = rb, rd_lframe = 0, rd_lost = 0, rd_llost = 0, rd_out = []\<rparr>;
     b \<leftarrow> (if rd_lframe s < n div 2 then move_up nb lag n (rd_lframe s) (rd_buf s) else Some (rd_buf s));
     let context = context\<lparr>rxbuf := b, ringbuffer := Some (rd_rb s)\<rparr>;
     if rd_lost s = 0 then Some (context\<lparr>lost_pac_cnt := 0\<rparr>)
     else if rd_lost s = n then do {
       let cnt = (if lost_pac_cnt context < 10 then lost_pac_cnt context + 1 else lost_pac_cnt context);
       b \<leftarrow> (if cnt = 9 then mem_store (rxbuf context) 0 (replicate (umul (to_size (rxbuflen context)) 4) 0)
         else Some (rxbuf context));
       Some (context\<lparr>lost_pac_cnt := cnt, rxbuf := b\<rparr>) }
     else Some context }"

definition read_from_ringbuffer_async_non_interleaved ::
    "stream_context \<Rightarrow> byte list list \<Rightarrow> (stream_context \<times> byte list list) option" where
  "read_from_ringbuffer_async_non_interleaved context buffers = do {
     let nb = nboutputs context; let n = nframes context; let lag = lagrange_num context;
     rb \<leftarrow> ringbuffer context;
     b \<leftarrow> tail_to_head nb lag n (rxbuf context);
     s \<leftarrow> for_loop 0 n (\<lambda>bframe. rd_step (\<lambda>llost. 0 < llost \<and> llost < 3) (\<lambda>lframe b outs. out_frame nb lframe lframe b outs) nb lag)
       \<lparr>rd_buf = b, rd_rb = rb, rd_lframe = 0, rd_lost = 0, rd_llost = 0, rd_out = buffers\<rparr>;
     (b, outs) \<leftarrow>
       (if rd_lframe s < n div 2 then do {
          b \<leftarrow> move_up nb lag n (rd_lframe s) (rd_buf s);
          outs \<leftarrow> for_loop (n - 1 - rd_lframe s) (rd_lframe s + 1) (\<lambda>bframe. out_frame nb bframe bframe b) (rd_out s);
          Some (b, outs) }
        else Some (rd_buf s, rd_out s));
     let context = context\<lparr>rxbuf := b, ringbuffer := Some (rd_rb s)\<rparr>;
     if rd_lost s \<noteq> 0 \<and> rd_lost s = n then do {
       let cnt = (if lost_pac_cnt context < 10 then lost_pac_cnt context + 1 else lost_pac_cnt context);
       outs \<leftarrow> (if 9 \<le> cnt then for_loop 0 nb (\<lambda>channel outs.
           if channel < length outs then do {
             y \<leftarrow> for_loop 0 n (\<lambda>frame o1. mem_store o1 (4 * frame) (replicate 4 0)) (outs ! channel);
             Some (outs[channel := y]) }
           else None) outs
         else Some outs);
       Some (context\<lparr>lost_pac_cnt := cnt\<rparr>, outs) }
     else Some (context, outs) }"


section \<open>Blocks of frames\<close>

text \<open>
  Float number \<open>i\<close> of a block as its four bytes, and the first \<open>n\<close> samples of channel \<open>ch\<close> of a
  block of interleaved frames.
\<close>

definition cell :: "byte list \<Rightarrow> nat \<Rightarrow> byte list" where
  "cell b i = take 4 (drop (4 * i) b)"

definition track :: "nat \<Rightarrow> nat \<Rightarrow> nat \<Rightarrow> byte list \<Rightarrow> byte list" where
  "track nb ch n b = concat (map (\<lambda>f. cell b (nb * f + ch)) [0..<n])"

lemma length_cell [simp]: "4 * i + 4 \<le> length b \<Longrightarrow> length (cell b i) = 4"
  by (simp add: cell_def)

lemma track_Suc: "track nb ch (Suc n) b = track nb ch n b @ cell b (nb * n + ch)"
  by (simp add: track_def)

lemma track_0 [simp]: "track nb ch 0 b = []"
  by (simp add: track_def)

lemma cell_cong:
  assumes "take m b = take m b'" and "4 * i + 4 \<le> m"
  shows "cell b i = cell b' i"
proof -
  have "cell b i = take 4 (drop (4 * i) (take m b))" using assms(2) by (simp add: cell_def drop_take min_def)
  also have "\<dots> = cell b' i" unfolding assms(1) using assms(2) by (simp add: cell_def drop_take min_def)
  finally show ?thesis .
qed

lemma frame_inside: "ch < nb \<Longrightarrow> 4 * (nb * f + ch) + 4 \<le> 4 * (nb * (f + 1 :: nat))"
  by (simp add: algebra_simps)

lemma frames_inside:
  fixes f n nb m :: nat
  assumes "ch < nb" and "f < n" and "4 * (nb * n) \<le> m"
  shows "4 * (nb * f + ch) + 4 \<le> m"
proof -
  have "nb * (f + 1) \<le> nb * n" using assms(2) by (intro mult_le_mono2) simp
  then show ?thesis using frame_inside [OF assms(1), of f] assms(3) by linarith
qed

lemma length_track: "4 * (nb * n) \<le> length b \<Longrightarrow> ch < nb \<Longrightarrow> length (track nb ch n b) = 4 * n"
proof (induction n)
  case (Suc n)
  have "4 * (nb * n + ch) + 4 \<le> length b" using frames_inside [OF Suc.prems(2) lessI Suc.prems(1)] .
  moreover have "4 * (nb * n) \<le> length b" using Suc.prems(1) by simp
  ultimately show ?case using Suc by (simp add: track_Suc)
qed simp

lemma track_cong:
  assumes "take m b = take m b'" and "4 * (nb * n) \<le> m" and "ch < nb"
  shows "track nb ch n b = track nb ch n b'"
proof -
  have "cell b (nb * f + ch) = cell b' (nb * f + ch)" if "f < n" for f
    using cell_cong [OF assms(1) frames_inside [OF assms(3) that assms(2)]] .
  then show ?thesis by (auto simp: track_def intro!: arg_cong [where f = concat])
qed

lemma track_add: "track nb ch (m + n) b = track nb ch m b @ track nb ch n (drop (4 * (nb * m)) b)"
proof (induction n)
  case (Suc n)
  have "cell b (nb * (m + n) + ch) = cell (drop (4 * (nb * m)) b) (nb * n + ch)"
    by (simp add: cell_def algebra_simps)
  then show ?case using Suc by (simp add: track_Suc)
qed simp

text \<open>Loops that store into a block behind a prefix keep the prefix and the length.\<close>

lemma store_loop:
  assumes "\<And>k b'. k < n \<Longrightarrow> length b' = length b \<Longrightarrow>
      \<exists>i x. f k b' = mem_store b' i x \<and> p \<le> i \<and> i + length x \<le> length b"
  shows "\<exists>b'. for_loop 0 n f b = Some b' \<and> length b' = length b \<and> take p b' = take p b"
proof -
  have "\<exists>b'. for_loop 0 n f b = Some b' \<and> (length b' = length b \<and> take p b' = take p b)"
  proof (rule for_loop_inv [where P = "\<lambda>_ b'. length b' = length b \<and> take p b' = take p b"], goal_cases)
    case (2 k b')
    then obtain i x where *: "f k b' = mem_store b' i x" "p \<le> i" "i + length x \<le> length b" using assms by force
    have "take p (blit b' i x) = take p (take i (blit b' i x))" using *(2) by (simp add: min_def)
    also have "\<dots> = take p (take i b')" using * 2 by (simp add: take_blit)
    also have "\<dots> = take p b" using 2 *(2) by (simp add: min_def)
    finally show ?case using * 2 by (simp add: mem_store_def)
  qed simp
  then show ?thesis .
qed

lemma ld_Some: "0 \<le> i \<Longrightarrow> 4 * nat i + 4 \<le> length b \<Longrightarrow> ld b i = Some (f32_of (cell b (nat i)))"
  by (simp add: ld_def mem cell_def)

lemma conceal_frame_ok:
  assumes "3 * nb \<le> pos" and "4 * (pos + nb) \<le> length b"
  shows "\<exists>b'. conceal_frame nb pos b = Some b' \<and> length b' = length b \<and> take (4 * pos) b' = take (4 * pos) b"
  unfolding conceal_frame_def
proof (rule store_loop)
  fix ch b'
  assume "ch < nb" "length (b' :: byte list) = length b"
  then show "\<exists>i x. do {
       x1 \<leftarrow> ld b' (int pos - int nb + int ch);
       x2 \<leftarrow> ld b' (int pos - 2 * int nb + int ch);
       x3 \<leftarrow> ld b' (int pos - 3 * int nb + int ch);
       store_f32 b' (pos + ch) (extrapolate x1 x2 x3) } = mem_store b' i x \<and> 4 * pos \<le> i \<and> i + length x \<le> length b"
    using assms by (intro exI [of _ "4 * (pos + ch)"]) (auto simp: ld_Some store_f32_def nat_le_iff)
qed

lemma smooth_frame_ok:
  assumes "3 * nb \<le> pos" and "4 * (pos + nb) \<le> length b"
  shows "\<exists>b'. smooth_frame nb pos b = Some b' \<and> length b' = length b \<and> take (4 * pos) b' = take (4 * pos) b"
  unfolding smooth_frame_def
proof (rule store_loop)
  fix ch b'
  assume "ch < nb" "length (b' :: byte list) = length b"
  then show "\<exists>i x. do {
       x0 \<leftarrow> ld b' (int pos + int ch);
       x1 \<leftarrow> ld b' (int pos - int nb + int ch);
       x2 \<leftarrow> ld b' (int pos - 2 * int nb + int ch);
       x3 \<leftarrow> ld b' (int pos - 3 * int nb + int ch);
       store_f32 b' (pos + ch) (smooth x0 x1 x2 x3) } = mem_store b' i x \<and> 4 * pos \<le> i \<and> i + length x \<le> length b"
    using assms by (intro exI [of _ "4 * (pos + ch)"]) (auto simp: ld_Some store_f32_def nat_le_iff)
qed

text \<open>Blocks of the channels: \<open>nb\<close> of them, with room for \<open>n\<close> samples each.\<close>

definition chans :: "nat \<Rightarrow> nat \<Rightarrow> byte list list \<Rightarrow> bool" where
  "chans nb n outs \<longleftrightarrow> length outs = nb \<and> (\<forall>o1 \<in> set outs. 4 * n \<le> length o1)"

lemma chans_nth: "chans nb n outs \<Longrightarrow> ch < nb \<Longrightarrow> 4 * n \<le> length (outs ! ch)"
  by (auto simp: chans_def)

lemma out_frame_ok:
  assumes "chans nb n outs" and "g < n" and "4 * (nb * (f + 1)) \<le> length b"
  shows "\<exists>outs'. out_frame nb f g b outs = Some outs' \<and> chans nb n outs' \<and>
    (\<forall>ch < nb. outs' ! ch = blit (outs ! ch) (4 * g) (cell b (nb * f + ch)))"
proof -
  let ?P = "\<lambda>k o2. length o2 = nb \<and> (\<forall>ch < nb. o2 ! ch =
    (if ch < k then blit (outs ! ch) (4 * g) (cell b (nb * f + ch)) else outs ! ch))"
  have cells: "length (cell b (nb * f + ch)) = 4" "mem_load b (4 * (nb * f + ch)) 4 = Some (cell b (nb * f + ch))"
    if "ch < nb" for ch
    using frame_inside [OF that, of f] assms(3) by (simp_all add: mem cell_def)
  have "\<exists>o2. for_loop 0 nb (\<lambda>channel outs. do {
      x \<leftarrow> mem_load b (4 * (nb * f + channel)) 4;
      if channel < length outs then do {
        y \<leftarrow> mem_store (outs ! channel) (4 * g) x;
        Some (outs[channel := y]) }
      else None }) outs = Some o2 \<and> ?P (0 + nb) o2"
  proof (rule for_loop_inv [where P = ?P], goal_cases)
    case 1
    show ?case using assms(1) by (simp add: chans_def)
  next
    case (2 k o2)
    then have k: "k < nb" by simp
    moreover have "4 * g + 4 \<le> length (outs ! k)" using chans_nth [OF assms(1) k] assms(2) by simp
    ultimately show ?case using 2 cells [OF k] by (auto simp: mem nth_list_update less_Suc_eq)
  qed
  then obtain o2 where o2: "out_frame nb f g b outs = Some o2" "length o2 = nb"
      "\<forall>ch < nb. o2 ! ch = blit (outs ! ch) (4 * g) (cell b (nb * f + ch))"
    unfolding out_frame_def by auto
  have "4 * n \<le> length (o2 ! ch)" if "ch < nb" for ch
    using o2(3) that cells(1) [OF that] chans_nth [OF assms(1) that] assms(2) by simp
  then have "chans nb n o2" using o2(2) by (auto simp: chans_def in_set_conv_nth)
  then show ?thesis using o2 by blast
qed

lemma read_frame_ok:
  assumes "rb_ok rb" and "4 * nb \<le> rb_fill rb" and "4 * pos + 4 * nb \<le> length b" and "nb < 2 ^ 16"
  shows "\<exists>rb'. vban_read_frame_from_ringbuffer b pos rb (int nb) =
      Some (blit b (4 * pos) (take (4 * nb) (rb_abs rb)), rb', 0) \<and>
    rb_ok rb' \<and> rb_size rb' = rb_size rb \<and> rb_abs rb' = drop (4 * nb) (rb_abs rb)"
proof -
  have size: "umul (to_size (int nb)) 4 = 4 * nb" using assms(4) by (simp add: wrap mult.commute)
  have room: "4 * nb \<le> length (drop (4 * pos) b)" and n: "4 * nb = min (4 * nb) (length (rb_abs rb))"
    using assms(2,3) by simp_all
  obtain rb' where rb': "ringbuffer_read rb (drop (4 * pos) b) (4 * nb) =
        Some (rb', blit (drop (4 * pos) b) 0 (take (4 * nb) (rb_abs rb)), 4 * nb)"
      "rb_ok rb'" "rb_cap rb' = rb_cap rb" "rb_abs rb' = drop (4 * nb) (rb_abs rb)"
    using ring.pull_law [OF assms(1) room n] by blast
  moreover have "rb_size rb' = rb_size rb" using rb'(2,3) assms(1) by (simp add: rb_cap_def rb_ok_def, linarith)
  ultimately show ?thesis
    using assms by (simp add: vban_read_frame_from_ringbuffer_def size read_space_ok blit_def add.commute Let_def)
qed


section \<open>The loop of the readers\<close>

text \<open>The sizes of a reader: channels, extra frames, frames of the period and the buffer.\<close>

definition rd_wf :: "nat \<Rightarrow> nat \<Rightarrow> nat \<Rightarrow> byte list \<Rightarrow> bool" where
  "rd_wf nb lag n b \<longleftrightarrow> 0 < nb \<and> nb < 2 ^ 16 \<and> 3 \<le> lag \<and> lag \<le> n \<and> n < 2 ^ 16 \<and> 4 * (nb * (n + lag)) \<le> length b"

lemma rd_wf_place:
  assumes "rd_wf nb lag n b" and "f < n"
  shows "3 * nb \<le> nb * (f + lag)" and "4 * (nb * (f + lag) + nb) \<le> length b"
    and "4 * (nb * (f + lag)) + 4 * nb \<le> length b" and "4 * (nb * (f + 1)) \<le> 4 * (nb * (f + lag))"
proof -
  have w: "3 \<le> lag" "4 * (nb * (n + lag)) \<le> length b" using assms(1) by (simp_all add: rd_wf_def)
  have "nb * 3 \<le> nb * (f + lag)" using w(1) by (intro mult_le_mono2) simp
  then show "3 * nb \<le> nb * (f + lag)" by (simp only: mult.commute)
  have "nb * (f + lag) + nb = nb * (f + lag + 1)" by simp
  also have "\<dots> \<le> nb * (n + lag)" using assms(2) by (intro mult_le_mono2) simp
  finally have "4 * (nb * (f + lag) + nb) \<le> 4 * (nb * (n + lag))" by (rule mult_le_mono2)
  then show "4 * (nb * (f + lag) + nb) \<le> length b" using w(2) by (rule order_trans)
  then show "4 * (nb * (f + lag)) + 4 * nb \<le> length b" by simp
  show "4 * (nb * (f + 1)) \<le> 4 * (nb * (f + lag))" using w(1) by (intro mult_le_mono2 mult_le_mono2) simp
qed

text \<open>
  What a reader has to supply: for a property \<open>P\<close> of the frames placed, the buffer and the channel
  blocks, \<open>emit\<close> succeeds and extends \<open>P\<close> by one frame, both for a frame that was read (which is
  the next one of the stream \<open>S\<close>, unless it is smoothed) and for a frame that was made up. The
  stream is the buffer's first \<open>lag\<close> frames and the ring, \<open>avail\<close> the number of whole frames in it.
\<close>

locale period_reader =
  fixes cond :: "nat \<Rightarrow> bool"
    and emit :: "nat \<Rightarrow> nat \<Rightarrow> byte list \<Rightarrow> byte list list \<Rightarrow> byte list list option"
    and P :: "nat \<Rightarrow> nat \<Rightarrow> nat \<Rightarrow> byte list \<Rightarrow> nat \<Rightarrow> nat \<Rightarrow> byte list \<Rightarrow> byte list list \<Rightarrow> bool"
  assumes read_law: "rd_wf nb lag n b \<Longrightarrow> f < n \<Longrightarrow> f < avail \<Longrightarrow> P nb lag n S avail f b outs \<Longrightarrow> length b' = length b \<Longrightarrow>
      take (4 * (nb * (f + lag))) b' = take (4 * (nb * (f + lag))) b \<Longrightarrow>
      (\<not> cond 0 \<Longrightarrow> take (4 * nb) (drop (4 * (nb * (f + lag))) b') = take (4 * nb) (drop (4 * (nb * (f + lag))) S)) \<Longrightarrow>
      \<exists>outs'. emit nb f b' outs = Some outs' \<and> P nb lag n S avail (f + 1) b' outs'"
    and conceal_law: "rd_wf nb lag n b \<Longrightarrow> f < n \<Longrightarrow> avail \<le> f \<Longrightarrow> f < avail + 2 \<Longrightarrow> P nb lag n S avail f b outs \<Longrightarrow>
      length b' = length b \<Longrightarrow> take (4 * (nb * (f + lag))) b' = take (4 * (nb * (f + lag))) b \<Longrightarrow>
      \<exists>outs'. emit nb f b' outs = Some outs' \<and> P nb lag n S avail (f + 1) b' outs'"
begin

lemma step_read:
  assumes wf: "rd_wf nb lag n (rd_buf s)" and k: "rd_lframe s < n" "rd_lframe s < avail" and l0: "rd_llost s = 0"
    and rb: "rb_ok (rd_rb s)" "rb_size (rd_rb s) < 2 ^ 31" "4 * nb \<le> rb_fill (rd_rb s)"
    and P: "P nb lag n S avail (rd_lframe s) (rd_buf s) (rd_out s)"
    and S: "take (4 * nb) (drop (4 * (nb * (rd_lframe s + lag))) S) = take (4 * nb) (rb_abs (rd_rb s))"
  shows "\<exists>s'. rd_step cond (emit nb) nb lag s = Some s' \<and> length (rd_buf s') = length (rd_buf s) \<and>
    rb_ok (rd_rb s') \<and> rb_size (rd_rb s') = rb_size (rd_rb s) \<and> rb_abs (rd_rb s') = drop (4 * nb) (rb_abs (rd_rb s)) \<and>
    rd_lframe s' = rd_lframe s + 1 \<and> rd_lost s' = rd_lost s \<and> rd_llost s' = 0 \<and>
    P nb lag n S avail (rd_lframe s') (rd_buf s') (rd_out s')"
proof -
  let ?pos = "nb * (rd_lframe s + lag)" and ?b = "rd_buf s" and ?f = "rd_lframe s"
  have nb: "nb < 2 ^ 16" using wf by (simp add: rd_wf_def)
  note place = rd_wf_place [OF wf k(1)]
  have "rb_fill (rd_rb s) < 2 ^ 31" using rb_fill_less [OF rb(1)] rb(2) by simp
  then have enough: "\<not> to_size (to_i32 (int (rb_fill (rd_rb s)))) < umul 4 nb"
    using rb(3) nb by (simp add: wrap)
  obtain rb' where rb': "vban_read_frame_from_ringbuffer ?b ?pos (rd_rb s) (int nb) =
        Some (blit ?b (4 * ?pos) (take (4 * nb) (rb_abs (rd_rb s))), rb', 0)"
      "rb_ok rb'" "rb_size rb' = rb_size (rd_rb s)" "rb_abs rb' = drop (4 * nb) (rb_abs (rd_rb s))"
    using read_frame_ok [OF rb(1,3) place(3) nb] by blast
  let ?b1 = "blit ?b (4 * ?pos) (take (4 * nb) (rb_abs (rd_rb s)))"
  have lx: "length (take (4 * nb) (rb_abs (rd_rb s))) = 4 * nb" using rb(3) by simp
  have b1: "length ?b1 = length ?b" "take (4 * ?pos) ?b1 = take (4 * ?pos) ?b"
      "take (4 * nb) (drop (4 * ?pos) ?b1) = take (4 * nb) (drop (4 * ?pos) S)"
    using place(3) lx S by (simp_all add: take_blit) (simp add: blit_def)
  have "\<exists>b'. (if cond 0 then smooth_frame nb ?pos ?b1 else Some ?b1) = Some b' \<and> length b' = length ?b \<and>
      take (4 * ?pos) b' = take (4 * ?pos) ?b \<and>
      (\<not> cond 0 \<longrightarrow> take (4 * nb) (drop (4 * ?pos) b') = take (4 * nb) (drop (4 * ?pos) S))"
  proof (cases "cond 0")
    case True
    then show ?thesis using smooth_frame_ok [OF place(1), of ?b1] place(2) b1 by auto
  next
    case False
    then show ?thesis using b1 by simp
  qed
  then obtain b' where b': "(if cond 0 then smooth_frame nb ?pos ?b1 else Some ?b1) = Some b'" "length b' = length ?b"
      "take (4 * ?pos) b' = take (4 * ?pos) ?b"
      "\<not> cond 0 \<Longrightarrow> take (4 * nb) (drop (4 * ?pos) b') = take (4 * nb) (drop (4 * ?pos) S)"
    by blast
  obtain outs' where outs': "emit nb ?f b' (rd_out s) = Some outs'" "P nb lag n S avail (?f + 1) b' outs'"
    using read_law [OF wf k P b'(2,3,4)] by blast
  show ?thesis
    using rb'(1) b'(1) outs' enough l0 b'(2) rb'(2-4)
    by (simp add: rd_step_def read_space_ok [OF rb(1)] Let_def)
qed

lemma step_conceal:
  assumes wf: "rd_wf nb lag n (rd_buf s)" and k: "rd_lframe s < n" "avail \<le> rd_lframe s" "rd_lframe s < avail + 2"
    and l: "rd_llost s < 2"
    and rb: "rb_ok (rd_rb s)" "rb_size (rd_rb s) < 2 ^ 31" "rb_fill (rd_rb s) < 4 * nb"
    and P: "P nb lag n S avail (rd_lframe s) (rd_buf s) (rd_out s)"
  shows "\<exists>b outs. rd_step cond (emit nb) nb lag s = Some (s\<lparr>rd_llost := rd_llost s + 1, rd_lost := rd_lost s + 1,
      rd_buf := b, rd_out := outs, rd_lframe := rd_lframe s + 1\<rparr>) \<and> length b = length (rd_buf s) \<and>
    P nb lag n S avail (rd_lframe s + 1) b outs"
proof -
  have nb: "nb < 2 ^ 16" using wf by (simp add: rd_wf_def)
  have "rb_fill (rd_rb s) < 2 ^ 31" using rb_fill_less [OF rb(1)] rb(2) by simp
  then have short: "to_size (to_i32 (int (rb_fill (rd_rb s)))) < umul 4 nb" using rb(3) nb by (simp add: wrap)
  obtain b where b: "conceal_frame nb (nb * (rd_lframe s + lag)) (rd_buf s) = Some b" "length b = length (rd_buf s)"
      "take (4 * (nb * (rd_lframe s + lag))) b = take (4 * (nb * (rd_lframe s + lag))) (rd_buf s)"
    using conceal_frame_ok [OF rd_wf_place(1,2) [OF wf k(1)]] by blast
  obtain outs where "emit nb (rd_lframe s) b (rd_out s) = Some outs" "P nb lag n S avail (rd_lframe s + 1) b outs"
    using conceal_law [OF wf k P b(2,3)] by blast
  then show ?thesis
    using b short l by (intro exI [of _ b] exI [of _ outs]) (simp add: rd_step_def read_space_ok [OF rb(1)] Let_def)
qed

text \<open>The state after \<open>k\<close> iterations from \<open>s0\<close>: the whole frames are read, then up to two are made up.\<close>

lemma step_loop:
  assumes wf: "rd_wf nb lag n (rd_buf s0)" and rb: "rb_ok (rd_rb s0)" "rb_size (rd_rb s0) < 2 ^ 31"
    and s0: "rd_lframe s0 = 0" "rd_lost s0 = 0" "rd_llost s0 = 0"
    and S: "S = take (4 * (nb * lag)) (rd_buf s0) @ rb_abs (rd_rb s0)" and av: "avail = rb_fill (rd_rb s0) div (4 * nb)"
    and P: "P nb lag n S avail 0 (rd_buf s0) (rd_out s0)" and "k \<le> n"
  shows "\<exists>s. for_loop 0 k (\<lambda>_. rd_step cond (emit nb) nb lag) s0 = Some s \<and> length (rd_buf s) = length (rd_buf s0) \<and>
    rb_ok (rd_rb s) \<and> rb_size (rd_rb s) = rb_size (rd_rb s0) \<and>
    rb_abs (rd_rb s) = drop (4 * nb * min k avail) (rb_abs (rd_rb s0)) \<and>
    rd_lost s = k - avail \<and> rd_llost s = k - avail \<and> rd_lframe s = min k avail + min 2 (k - avail) \<and>
    P nb lag n S avail (rd_lframe s) (rd_buf s) (rd_out s)"
  using \<open>k \<le> n\<close>
proof (induction k)
  case 0
  show ?case using s0 P rb by simp
next
  case (Suc k)
  from Suc obtain s where s: "for_loop 0 k (\<lambda>_. rd_step cond (emit nb) nb lag) s0 = Some s" "length (rd_buf s) = length (rd_buf s0)"
      "rb_ok (rd_rb s)" "rb_size (rd_rb s) = rb_size (rd_rb s0)"
      "rb_abs (rd_rb s) = drop (4 * nb * min k avail) (rb_abs (rd_rb s0))"
      "rd_lost s = k - avail" "rd_llost s = k - avail" "rd_lframe s = min k avail + min 2 (k - avail)"
      "P nb lag n S avail (rd_lframe s) (rd_buf s) (rd_out s)"
    by auto
  have nb: "0 < nb" using wf by (simp add: rd_wf_def)
  have wfs: "rd_wf nb lag n (rd_buf s)" using wf s(2) by (simp add: rd_wf_def)
  have size: "rb_size (rd_rb s) < 2 ^ 31" using s(4) rb(2) by simp
  have fill: "rb_fill (rd_rb s) = rb_fill (rd_rb s0) - 4 * nb * min k avail"
    using arg_cong [OF s(5), of length] by simp
  have run: "for_loop 0 (Suc k) (\<lambda>_. rd_step cond (emit nb) nb lag) s0 = rd_step cond (emit nb) nb lag s"
    unfolding for_loop_Suc_right s(1) by simp
  have avm: "avail * (4 * nb) \<le> rb_fill (rd_rb s0)" unfolding av by (rule div_times_less_eq_dividend)
  consider "k < avail" | "avail \<le> k" "k < avail + 2" | "avail + 2 \<le> k" by linarith
  then show ?case
  proof cases
    case 1
    have "(k + 1) * (4 * nb) \<le> avail * (4 * nb)" using 1 by (intro mult_le_mono1) simp
    then have more: "4 * nb \<le> rb_fill (rd_rb s)" using avm 1 unfolding fill by (simp add: algebra_simps)
    have T: "length (take (4 * (nb * lag)) (rd_buf s0)) = 4 * (nb * lag)" using wf by (simp add: rd_wf_def algebra_simps)
    have "drop (4 * (nb * (k + lag))) S = drop (4 * nb * k) (rb_abs (rd_rb s0))"
      unfolding S using T by (simp add: algebra_simps)
    then have slice: "take (4 * nb) (drop (4 * (nb * (rd_lframe s + lag))) S) = take (4 * nb) (rb_abs (rd_rb s))"
      using 1 s(5,8) by simp
    have k: "rd_lframe s < n" "rd_lframe s < avail" "rd_llost s = 0" using 1 s(7,8) Suc.prems by simp_all
    obtain s' where "rd_step cond (emit nb) nb lag s = Some s'" "length (rd_buf s') = length (rd_buf s)"
        "rb_ok (rd_rb s')" "rb_size (rd_rb s') = rb_size (rd_rb s)" "rb_abs (rd_rb s') = drop (4 * nb) (rb_abs (rd_rb s))"
        "rd_lframe s' = rd_lframe s + 1" "rd_lost s' = rd_lost s" "rd_llost s' = 0"
        "P nb lag n S avail (rd_lframe s') (rd_buf s') (rd_out s')"
      using step_read [OF wfs k s(3) size more s(9) slice] by blast
    then show ?thesis unfolding run using s 1 by (intro exI [of _ s']) (simp add: algebra_simps)
  next
    case 2
    have less: "rb_fill (rd_rb s) < 4 * nb"
    proof -
      have "rb_fill (rd_rb s) = rb_fill (rd_rb s0) mod (4 * nb)"
        using 2(1) unfolding fill by (simp add: av min_absorb2 minus_mult_div_eq_mod)
      then show ?thesis using nb by simp
    qed
    have k: "rd_lframe s < n" "avail \<le> rd_lframe s" "rd_lframe s < avail + 2" "rd_llost s < 2"
      using 2 s(7,8) Suc.prems by simp_all
    show ?thesis unfolding run
      using step_conceal [OF wfs k s(3) size less s(9)] s 2 by (elim exE conjE) (intro exI conjI, assumption, simp_all)
  next
    case 3
    have less: "rb_fill (rd_rb s) < 4 * nb"
    proof -
      have "rb_fill (rd_rb s) = rb_fill (rd_rb s0) mod (4 * nb)"
        using 3 unfolding fill by (simp add: av min_absorb2 minus_mult_div_eq_mod)
      then show ?thesis using nb by simp
    qed
    have "rb_fill (rd_rb s) < 2 ^ 31" using rb_fill_less [OF s(3)] size by simp
    then have short: "to_size (to_i32 (int (rb_fill (rd_rb s)))) < umul 4 nb" using less wf by (simp add: wrap rd_wf_def)
    have many: "\<not> rd_llost s < 2" using 3 s(7) by simp
    have "rd_step cond (emit nb) nb lag s = Some (s\<lparr>rd_llost := rd_llost s + 1, rd_lost := rd_lost s + 1\<rparr>)"
      using short many by (simp add: rd_step_def read_space_ok [OF s(3)] Let_def)
    then show ?thesis unfolding run using s 3 by simp
  qed
qed

end

section \<open>The two readers\<close>

text \<open>
  The channel blocks of the non-interleaved reader hold the first \<open>f\<close> frames of the stream, and the
  buffer holds the stream as far as it was read.
\<close>

definition placed :: "nat \<Rightarrow> nat \<Rightarrow> nat \<Rightarrow> byte list \<Rightarrow> nat \<Rightarrow> nat \<Rightarrow> byte list \<Rightarrow> byte list list \<Rightarrow> bool" where
  "placed nb lag n S avail f b outs \<longleftrightarrow> chans nb n outs \<and>
     take (4 * (nb * (min f avail + lag))) b = take (4 * (nb * (min f avail + lag))) S \<and>
     (\<forall>ch < nb. take (4 * f) (outs ! ch) = track nb ch f S)"

lemma placed_next:
  assumes P: "placed nb lag n S avail f b outs" and f: "f < n" and m: "f < min f avail + lag"
    and pre: "take (4 * (nb * (min f avail + lag))) b' = take (4 * (nb * (min f avail + lag))) b"
    and len: "4 * (nb * (f + 1)) \<le> length b'"
    and S: "take (4 * (nb * (min (f + 1) avail + lag))) b' = take (4 * (nb * (min (f + 1) avail + lag))) S"
  shows "\<exists>outs'. out_frame nb f f b' outs = Some outs' \<and> placed nb lag n S avail (f + 1) b' outs'"
proof -
  have ch: "chans nb n outs" using P by (simp add: placed_def)
  obtain outs' where o: "out_frame nb f f b' outs = Some outs'" "chans nb n outs'"
      "\<forall>ch < nb. outs' ! ch = blit (outs ! ch) (4 * f) (cell b' (nb * f + ch))"
    using out_frame_ok [OF ch f len] by blast
  have "take (4 * (f + 1)) (outs' ! ch) = track nb ch (f + 1) S" if "ch < nb" for ch
  proof -
    have in_m: "4 * (nb * f + ch) + 4 \<le> 4 * (nb * (min f avail + lag))"
      using frames_inside [OF that m order_refl] .
    have "take (4 * (nb * (min f avail + lag))) b' = take (4 * (nb * (min f avail + lag))) S"
      using P pre by (simp add: placed_def)
    from cell_cong [OF this in_m] have "cell b' (nb * f + ch) = cell S (nb * f + ch)" .
    moreover have "4 * f + 4 \<le> length (outs ! ch)" using chans_nth [OF ch that] f by simp
    moreover have "length (cell b' (nb * f + ch)) = 4" using frame_inside [OF that, of f] len by simp
    ultimately have "take (4 * (f + 1)) (outs' ! ch) = take (4 * f) (outs ! ch) @ cell S (nb * f + ch)"
      using o(3) that by (simp add: blit_def)
    then show ?thesis using P that by (simp add: placed_def track_Suc)
  qed
  then show ?thesis using o S by (simp add: placed_def)
qed

interpretation planar: period_reader "\<lambda>llost. 0 < llost \<and> llost < 3" "\<lambda>nb lframe b outs. out_frame nb lframe lframe b outs" placed
proof (unfold_locales, goal_cases)
  case (1 nb lag n b f avail S outs b')
  note place = rd_wf_place [OF 1(1,2)]
  have "take (4 * (nb * (f + 1 + lag))) b' = take (4 * (nb * (f + lag)) + 4 * nb) b'" by (simp add: algebra_simps)
  also have "\<dots> = take (4 * (nb * (f + lag))) b' @ take (4 * nb) (drop (4 * (nb * (f + lag))) b')" by (rule take_add)
  also have "\<dots> = take (4 * (nb * (f + lag))) S @ take (4 * nb) (drop (4 * (nb * (f + lag))) S)"
    using 1 by (simp add: placed_def)
  also have "\<dots> = take (4 * (nb * (f + lag)) + 4 * nb) S" by (rule take_add [symmetric])
  also have "\<dots> = take (4 * (nb * (f + 1 + lag))) S" by (simp add: algebra_simps)
  finally show ?case
    using 1 place by (intro placed_next [where b = b]) (auto simp: rd_wf_def)
next
  case (2 nb lag n b f avail S outs b')
  have le: "4 * (nb * (avail + lag)) \<le> 4 * (nb * (f + lag))" using 2(3) by (intro mult_le_mono2) simp
  have pre: "take (4 * (nb * (avail + lag))) b' = take (4 * (nb * (avail + lag))) b"
    using arg_cong [OF 2(7), of "take (4 * (nb * (avail + lag)))"] le by (simp add: min_absorb1)
  show ?case
    using 2 pre rd_wf_place(2,4) [OF 2(1,2)] by (intro placed_next [where b = b]) (auto simp: rd_wf_def placed_def min_absorb2)
qed

text \<open>The interleaved reader smooths every frame it reads and has no channel blocks.\<close>

interpretation interleaved: period_reader "\<lambda>llost. llost < 3" "\<lambda>nb lframe b outs. Some outs" "\<lambda>nb lag n S avail f b outs. True"
  by unfold_locales auto

definition reader_ok :: "stream_context \<Rightarrow> bool" where
  "reader_ok c \<longleftrightarrow> (\<exists>rb. ringbuffer c = Some rb \<and> rb_ok rb \<and> rb_size rb < 2 ^ 31) \<and>
     rd_wf (nboutputs c) (lagrange_num c) (nframes c) (rxbuf c)"

text \<open>What is still to be played: the extra frames at the end of the buffer, and the ring.\<close>

definition pending :: "stream_context \<Rightarrow> byte list" where
  "pending c = take (4 * (nboutputs c * lagrange_num c)) (drop (4 * (nboutputs c * nframes c)) (rxbuf c)) @
     (case ringbuffer c of None \<Rightarrow> [] | Some rb \<Rightarrow> rb_abs rb)"

lemma pending_upd:
  "pending (c\<lparr>rxbuf := b, ringbuffer := Some rb\<rparr>) =
    take (4 * (nboutputs c * lagrange_num c)) (drop (4 * (nboutputs c * nframes c)) b) @ rb_abs rb"
  by (simp add: pending_def)

lemma tail_to_head_ok:
  assumes "rd_wf nb lag n b"
  shows "\<exists>b'. tail_to_head nb lag n b = Some b' \<and> length b' = length b \<and>
    take (4 * (nb * lag)) b' = take (4 * (nb * lag)) (drop (4 * (nb * n)) b)"
proof -
  let ?x = "take (4 * (lag * nb)) (drop (4 * (n * nb)) b)"
  have w: "lag * nb \<le> n * nb" "4 * (n * nb) + 4 * (lag * nb) \<le> length b"
    using assms by (simp_all add: rd_wf_def algebra_simps)
  have l: "length ?x = 4 * (lag * nb)" using w(2) by simp
  have "tail_to_head nb lag n b = Some (blit b 0 ?x)"
    using w l unfolding tail_to_head_def by (simp add: mem not_less [symmetric] del: length_take mult_le_cancel2 mult_less_cancel2)
  moreover have "take (4 * (nb * lag)) (blit b 0 ?x) = ?x" using l by (simp add: blit_0 mult.commute del: length_take)
  moreover have "length (blit b 0 ?x) = length b" using w l by simp
  ultimately show ?thesis by (simp add: mult.commute)
qed

lemma move_up_ok:
  assumes "rd_wf nb lag n b" and "l < n div 2"
  shows "\<exists>b'. move_up nb lag n l b = Some b' \<and> length b' = length b"
proof -
  have w: "0 < nb" "4 * (nb * (n + lag)) \<le> length b" using assms(1) by (simp_all add: rd_wf_def)
  have lag: "lag \<le> nb * lag" using w(1) by simp
  have L: "4 * (nb * n) + 4 * (nb * lag) \<le> length b" using w(2) by (simp add: algebra_simps)
  have fits: "x + y \<le> nb * n \<Longrightarrow> 4 * (x + lag) + 4 * y \<le> length b" for x y
  proof -
    assume "x + y \<le> nb * n"
    then have "4 * (x + y) + 4 * lag \<le> 4 * (nb * n) + 4 * (nb * lag)" by (intro add_mono mult_le_mono2 lag)
    then show ?thesis using L by simp
  qed
  have "nb * l + nb * l = nb * (2 * l)" by simp
  also have "\<dots> \<le> nb * n" using assms(2) by (intro mult_le_mono2) linarith
  finally have a: "4 * (nb * l + lag) + 4 * (nb * l) \<le> length b" by (rule fits)
  have "nb * (n - 1 - l) + nb * l = nb * (n - 1 - l + l)" by (simp only: add_mult_distrib2)
  also have "\<dots> \<le> nb * n" by (intro mult_le_mono2) (use assms(2) in linarith)
  finally have b: "4 * (nb * (n - 1 - l) + lag) + 4 * (nb * l) \<le> length b" by (rule fits)
  let ?x = "take (4 * (nb * l)) (drop (4 * (nb * l + lag)) b)"
  have "length ?x = 4 * (nb * l)"
    unfolding length_take length_drop by (rule min_absorb2) (use a in linarith)
  with b have x: "4 * (nb * (n - 1 - l) + lag) + length ?x \<le> length b" by simp
  have "move_up nb lag n l b = Some (blit b (4 * (nb * (n - 1 - l) + lag)) ?x)"
    unfolding move_up_def mem_load_Some [OF a] bind.bind_lunit by (rule mem_store_Some [OF x])
  then show ?thesis using length_blit [OF x] by blast
qed

text \<open>The loop of the non-interleaved reader from a good state.\<close>

lemma planar_run:
  assumes "reader_ok c" and "ringbuffer c = Some rb" and "chans (nboutputs c) (nframes c) outs"
    and "avail = rb_fill rb div (4 * nboutputs c)"
  shows "\<exists>b s. tail_to_head (nboutputs c) (lagrange_num c) (nframes c) (rxbuf c) = Some b \<and>
    for_loop 0 (nframes c) (\<lambda>_. rd_step (\<lambda>llost. 0 < llost \<and> llost < 3)
        (\<lambda>lframe b outs. out_frame (nboutputs c) lframe lframe b outs) (nboutputs c) (lagrange_num c))
      \<lparr>rd_buf = b, rd_rb = rb, rd_lframe = 0, rd_lost = 0, rd_llost = 0, rd_out = outs\<rparr> = Some s \<and>
    rd_wf (nboutputs c) (lagrange_num c) (nframes c) (rd_buf s) \<and>
    rb_ok (rd_rb s) \<and> rb_size (rd_rb s) = rb_size rb \<and> rb_size rb < 2 ^ 31 \<and>
    rb_abs (rd_rb s) = drop (4 * nboutputs c * min (nframes c) avail) (rb_abs rb) \<and>
    rd_lost s = nframes c - avail \<and> rd_lframe s = min (nframes c) avail + min 2 (nframes c - avail) \<and>
    placed (nboutputs c) (lagrange_num c) (nframes c) (pending c) avail (rd_lframe s) (rd_buf s) (rd_out s)"
proof -
  let ?nb = "nboutputs c" and ?lag = "lagrange_num c" and ?n = "nframes c"
  have wf: "rd_wf ?nb ?lag ?n (rxbuf c)" and rb: "rb_ok rb" "rb_size rb < 2 ^ 31"
    using assms(1,2) by (auto simp: reader_ok_def)
  obtain b where b: "tail_to_head ?nb ?lag ?n (rxbuf c) = Some b" "length b = length (rxbuf c)"
      "take (4 * (?nb * ?lag)) b = take (4 * (?nb * ?lag)) (drop (4 * (?nb * ?n)) (rxbuf c))"
    using tail_to_head_ok [OF wf] by blast
  let ?s0 = "\<lparr>rd_buf = b, rd_rb = rb, rd_lframe = 0, rd_lost = 0, rd_llost = 0, rd_out = outs\<rparr>"
  have wfb: "rd_wf ?nb ?lag ?n b" using wf b(2) by (simp add: rd_wf_def)
  have S: "pending c = take (4 * (?nb * ?lag)) b @ rb_abs rb" using b(3) assms(2) by (simp add: pending_def)
  have "placed ?nb ?lag ?n (pending c) avail 0 b outs"
    using assms(3) wfb unfolding placed_def S by (simp add: rd_wf_def algebra_simps)
  then obtain s where s: "for_loop 0 ?n (\<lambda>_. rd_step (\<lambda>llost. 0 < llost \<and> llost < 3)
        (\<lambda>lframe b outs. out_frame ?nb lframe lframe b outs) ?nb ?lag) ?s0 = Some s"
      "length (rd_buf s) = length b" "rb_ok (rd_rb s)" "rb_size (rd_rb s) = rb_size rb"
      "rb_abs (rd_rb s) = drop (4 * ?nb * min ?n avail) (rb_abs rb)" "rd_lost s = ?n - avail"
      "rd_lframe s = min ?n avail + min 2 (?n - avail)"
      "placed ?nb ?lag ?n (pending c) avail (rd_lframe s) (rd_buf s) (rd_out s)"
    using planar.step_loop [of ?nb ?lag ?n ?s0 "pending c" avail ?n] wfb rb S assms(4) by auto
  moreover have "rd_wf ?nb ?lag ?n (rd_buf s)" using wfb s(2) by (simp add: rd_wf_def)
  ultimately show ?thesis using b(1) rb(2) by blast
qed

text \<open>With a period's frames in the ring, the next frames of the stream are played.\<close>

lemma period_read:
  assumes "reader_ok c" and "ringbuffer c = Some rb" and "chans (nboutputs c) (nframes c) outs"
    and "4 * (nboutputs c * nframes c) \<le> rb_fill rb"
  shows "\<exists>b rb' outs'. read_from_ringbuffer_async_non_interleaved c outs =
      Some (c\<lparr>rxbuf := b, ringbuffer := Some rb'\<rparr>, outs') \<and> reader_ok (c\<lparr>rxbuf := b, ringbuffer := Some rb'\<rparr>) \<and>
    rb_ok rb' \<and> rb_size rb' = rb_size rb \<and> rb_fill rb' = rb_fill rb - 4 * (nboutputs c * nframes c) \<and>
    (\<forall>ch < nboutputs c. take (4 * nframes c) (outs' ! ch) = track (nboutputs c) ch (nframes c) (pending c)) \<and>
    pending (c\<lparr>rxbuf := b, ringbuffer := Some rb'\<rparr>) = drop (4 * (nboutputs c * nframes c)) (pending c)"
proof -
  let ?nb = "nboutputs c" and ?lag = "lagrange_num c" and ?n = "nframes c" and ?a = "rb_fill rb div (4 * nboutputs c)"
  obtain b s where run: "tail_to_head ?nb ?lag ?n (rxbuf c) = Some b"
      "for_loop 0 ?n (\<lambda>_. rd_step (\<lambda>llost. 0 < llost \<and> llost < 3)
        (\<lambda>lframe b outs. out_frame ?nb lframe lframe b outs) ?nb ?lag)
      \<lparr>rd_buf = b, rd_rb = rb, rd_lframe = 0, rd_lost = 0, rd_llost = 0, rd_out = outs\<rparr> = Some s"
    and s: "rd_wf ?nb ?lag ?n (rd_buf s)" "rb_ok (rd_rb s)" "rb_size (rd_rb s) = rb_size rb" "rb_size rb < 2 ^ 31"
      "rb_abs (rd_rb s) = drop (4 * ?nb * min ?n ?a) (rb_abs rb)"
      "rd_lost s = ?n - ?a" "rd_lframe s = min ?n ?a + min 2 (?n - ?a)"
      "placed ?nb ?lag ?n (pending c) ?a (rd_lframe s) (rd_buf s) (rd_out s)"
    using planar_run [OF assms(1-3) refl] by blast
  have nb: "0 < ?nb" "3 \<le> ?n" "4 * (?nb * (?n + ?lag)) \<le> length (rd_buf s)" using s(1) by (auto simp: rd_wf_def)
  have enough: "?n \<le> ?a" using assms(4) nb(1) by (simp add: less_eq_div_iff_mult_less_eq algebra_simps)
  have not_half: "\<not> ?n < ?n div 2" by simp
  have l: "rd_lframe s = ?n" "rd_lost s = 0" using s(6,7) enough by simp_all
  have abs: "rb_abs (rd_rb s) = drop (4 * (?nb * ?n)) (rb_abs rb)" using s(5) enough by (simp add: min_absorb1 mult.assoc)
  let ?c = "c\<lparr>rxbuf := rd_buf s, ringbuffer := Some (rd_rb s)\<rparr>"
  let ?d = "4 * (?nb * ?n)" and ?m = "4 * (?nb * ?lag)"
  have "take (4 * (?nb * (?n + ?lag))) (rd_buf s) = take (4 * (?nb * (?n + ?lag))) (pending c)"
    using s(8) enough unfolding l(1) placed_def by (simp add: min_absorb1)
  then have "take ?m (drop ?d (rd_buf s)) = take ?m (drop ?d (pending c))"
    by (simp add: take_drop add_mult_distrib2 add.commute)
  moreover have "rb_abs (rd_rb s) = drop ?m (drop ?d (pending c))"
  proof -
    have "length (take ?m (drop ?d (rxbuf c))) = ?m"
      using assms(1) by (auto simp: reader_ok_def rd_wf_def algebra_simps)
    then have "drop ?d (rb_abs rb) = drop (?d + ?m) (pending c)" by (simp add: pending_def assms(2) del: length_take)
    then show ?thesis unfolding abs by (simp add: add.commute)
  qed
  ultimately have "pending ?c = drop ?d (pending c)"
    unfolding pending_upd by (simp only: append_take_drop_id)
  moreover have "read_from_ringbuffer_async_non_interleaved c outs = Some (?c, rd_out s)"
    using run l by (simp add: read_from_ringbuffer_async_non_interleaved_def assms(2) Let_def not_half)
  moreover have "reader_ok ?c" using s(1-4) by (simp add: reader_ok_def)
  moreover have "rb_fill (rd_rb s) = rb_fill rb - ?d" using arg_cong [OF abs, of length] by simp
  moreover have "take (4 * ?n) (rd_out s ! ch) = track ?nb ch ?n (pending c)" if "ch < ?nb" for ch
    using s(8) that unfolding l(1) placed_def by blast
  ultimately show ?thesis using s(2,3) by blast
qed

text \<open>With less, what is there is played, the period is counted lost when nothing was there, and the state stays good.\<close>

lemma out_frames_ok:
  assumes "chans nb n outs" and "f + k \<le> n" and "4 * (nb * n) \<le> length b"
  shows "\<exists>outs'. for_loop f k (\<lambda>bframe. out_frame nb bframe bframe b) outs = Some outs' \<and> chans nb n outs'"
proof (rule for_loop_inv [where P = "\<lambda>_. chans nb n", OF assms(1)])
  fix g o1
  assume g: "f \<le> g" "g < f + k" "chans nb n o1"
  have "4 * (nb * (g + 1)) \<le> length b"
    using order_trans [OF mult_le_mono2 [OF mult_le_mono2 [of "g + 1" n nb]] assms(3)] g assms(2) by simp
  then show "\<exists>s'. out_frame nb g g b o1 = Some s' \<and> chans nb n s'"
    using out_frame_ok [OF g(3), of g g b] g assms(2) by auto
qed

lemma silence_ok:
  assumes "chans nb n outs"
  shows "\<exists>outs'. for_loop 0 nb (\<lambda>channel outs.
      if channel < length outs then do {
        y \<leftarrow> for_loop 0 n (\<lambda>frame o1. mem_store o1 (4 * frame) (replicate 4 0)) (outs ! channel);
        Some (outs[channel := y]) }
      else None) outs = Some outs' \<and> chans nb n outs' \<and> (\<forall>ch < nb. take (4 * n) (outs' ! ch) = replicate (4 * n) 0)"
proof -
  let ?P = "\<lambda>k o2. chans nb n o2 \<and> (\<forall>ch < k. take (4 * n) (o2 ! ch) = replicate (4 * n) (0 :: byte))"
  have z: "concat (map (\<lambda>_. replicate 4 0) [0..<n]) = replicate (4 * n) (0 :: byte)"
    by (induction n) (simp_all add: replicate_add [symmetric] add.commute)
  have "\<exists>o2. for_loop 0 nb (\<lambda>channel outs.
      if channel < length outs then do {
        y \<leftarrow> for_loop 0 n (\<lambda>frame o1. mem_store o1 (4 * frame) (replicate 4 0)) (outs ! channel);
        Some (outs[channel := y]) }
      else None) outs = Some o2 \<and> ?P (0 + nb) o2"
  proof (rule for_loop_inv [where P = ?P], goal_cases)
    case 1
    show ?case using assms by simp
  next
    case (2 k o2)
    then have k: "k < nb" "k < length o2" "4 * n \<le> length (o2 ! k)" by (auto simp: chans_def)
    have "for_loop 0 n (\<lambda>frame o1. mem_store o1 (4 * frame) (replicate 4 0)) (o2 ! k) =
        Some (blit (o2 ! k) 0 (concat (map (\<lambda>_. replicate 4 0) [0..<n])))"
      using k(3) by (intro for_loop_blocks [where w = 4]) (auto simp: mult.commute)
    then have run: "for_loop 0 n (\<lambda>frame o1. mem_store o1 (4 * frame) (replicate 4 0)) (o2 ! k) =
        Some (blit (o2 ! k) 0 (replicate (4 * n) 0))" unfolding z .
    have "chans nb n (o2[k := blit (o2 ! k) 0 (replicate (4 * n) 0)])"
      using 2 k by (auto simp: chans_def dest!: set_update_subset_insert [THEN subsetD])
    moreover have "take (4 * n) (o2[k := blit (o2 ! k) 0 (replicate (4 * n) 0)] ! ch) = replicate (4 * n) 0" if "ch < Suc k" for ch
      using 2 k that by (cases "ch = k") (auto simp: blit_0)
    ultimately show ?case using run k by simp
  qed
  then show ?thesis by simp
qed

lemma underrun:
  assumes "reader_ok c" and "ringbuffer c = Some rb" and "chans (nboutputs c) (nframes c) outs"
    and "avail = min (nframes c) (rb_fill rb div (4 * nboutputs c))"
  shows "\<exists>b rb' cnt outs'. read_from_ringbuffer_async_non_interleaved c outs =
      Some (c\<lparr>rxbuf := b, ringbuffer := Some rb', lost_pac_cnt := cnt\<rparr>, outs') \<and>
    reader_ok (c\<lparr>rxbuf := b, ringbuffer := Some rb', lost_pac_cnt := cnt\<rparr>) \<and>
    rb_abs rb' = drop (4 * nboutputs c * avail) (rb_abs rb) \<and> chans (nboutputs c) (nframes c) outs' \<and>
    cnt = (if avail = 0 \<and> lost_pac_cnt c < 10 then lost_pac_cnt c + 1 else lost_pac_cnt c) \<and>
    (nframes c \<le> 2 * avail \<longrightarrow> (\<forall>ch < nboutputs c. take (4 * avail) (outs' ! ch) = track (nboutputs c) ch avail (pending c))) \<and>
    (avail = 0 \<and> 8 \<le> lost_pac_cnt c \<longrightarrow> (\<forall>ch < nboutputs c. take (4 * nframes c) (outs' ! ch) = replicate (4 * nframes c) 0))"
proof -
  let ?nb = "nboutputs c" and ?lag = "lagrange_num c" and ?n = "nframes c" and ?a = "rb_fill rb div (4 * nboutputs c)"
  obtain b s where run: "tail_to_head ?nb ?lag ?n (rxbuf c) = Some b"
      "for_loop 0 ?n (\<lambda>_. rd_step (\<lambda>llost. 0 < llost \<and> llost < 3)
        (\<lambda>lframe b outs. out_frame ?nb lframe lframe b outs) ?nb ?lag)
      \<lparr>rd_buf = b, rd_rb = rb, rd_lframe = 0, rd_lost = 0, rd_llost = 0, rd_out = outs\<rparr> = Some s"
    and s: "rd_wf ?nb ?lag ?n (rd_buf s)" "rb_ok (rd_rb s)" "rb_size (rd_rb s) = rb_size rb" "rb_size rb < 2 ^ 31"
      "rb_abs (rd_rb s) = drop (4 * ?nb * min ?n ?a) (rb_abs rb)"
      "rd_lost s = ?n - ?a" "rd_lframe s = min ?n ?a + min 2 (?n - ?a)"
      "placed ?nb ?lag ?n (pending c) ?a (rd_lframe s) (rd_buf s) (rd_out s)"
    using planar_run [OF assms(1-3) refl] by blast
  have nb: "0 < ?nb" "3 \<le> ?n" "4 * (?nb * (?n + ?lag)) \<le> length (rd_buf s)" using s(1) by (auto simp: rd_wf_def)
  have ch: "chans ?nb ?n (rd_out s)" using s(8) by (simp add: placed_def)
  have "\<exists>b' o1. (if rd_lframe s < ?n div 2 then do {
          b \<leftarrow> move_up ?nb ?lag ?n (rd_lframe s) (rd_buf s);
          outs \<leftarrow> for_loop (?n - 1 - rd_lframe s) (rd_lframe s + 1) (\<lambda>bframe. out_frame ?nb bframe bframe b) (rd_out s);
          Some (b, outs) }
        else Some (rd_buf s, rd_out s)) = Some (b', o1) \<and> length b' = length (rd_buf s) \<and> chans ?nb ?n o1 \<and>
      (?n div 2 \<le> rd_lframe s \<longrightarrow> o1 = rd_out s)"
  proof (cases "rd_lframe s < ?n div 2")
    case True
    obtain b' where b': "move_up ?nb ?lag ?n (rd_lframe s) (rd_buf s) = Some b'" "length b' = length (rd_buf s)"
      using move_up_ok [OF s(1) True] by blast
    have "4 * (?nb * ?n) \<le> length b'" using nb(3) b'(2) by (simp add: algebra_simps)
    moreover have "?n - 1 - rd_lframe s + (rd_lframe s + 1) \<le> ?n" using True by linarith
    ultimately obtain o1 where "for_loop (?n - 1 - rd_lframe s) (rd_lframe s + 1)
        (\<lambda>bframe. out_frame ?nb bframe bframe b') (rd_out s) = Some o1" "chans ?nb ?n o1"
      using out_frames_ok [OF ch] by blast
    then show ?thesis using True b' by (intro exI [of _ b'] exI [of _ o1]) (simp del: for_loop.simps)
  next
    case False
    then show ?thesis using ch by simp
  qed
  then obtain b' o1 where o1: "(if rd_lframe s < ?n div 2 then do {
          b \<leftarrow> move_up ?nb ?lag ?n (rd_lframe s) (rd_buf s);
          outs \<leftarrow> for_loop (?n - 1 - rd_lframe s) (rd_lframe s + 1) (\<lambda>bframe. out_frame ?nb bframe bframe b) (rd_out s);
          Some (b, outs) }
        else Some (rd_buf s, rd_out s)) = Some (b', o1)" "length b' = length (rd_buf s)" "chans ?nb ?n o1"
      "?n div 2 \<le> rd_lframe s \<Longrightarrow> o1 = rd_out s"
    by blast
  have ok: "reader_ok (c\<lparr>rxbuf := b', ringbuffer := Some (rd_rb s), lost_pac_cnt := m\<rparr>)" for m
    using s(1-4) o1(2) by (simp add: reader_ok_def rd_wf_def)
  have abs: "rb_abs (rd_rb s) = drop (4 * ?nb * avail) (rb_abs rb)" using s(5) assms(4) by simp
  have tr: "take (4 * avail) (o1 ! ch) = track ?nb ch avail (pending c)" if half: "?n \<le> 2 * avail" and i: "ch < ?nb" for ch
  proof -
    have le: "avail \<le> rd_lframe s" unfolding s(7) assms(4) by simp
    have "?n div 2 \<le> avail" using div_le_mono [OF half, of 2] by simp
    from o1(4) [OF order_trans [OF this le]] have "o1 = rd_out s" .
    then have "take (4 * avail) (o1 ! ch) = take (4 * avail) (take (4 * rd_lframe s) (rd_out s ! ch))"
      using le by (simp add: min_absorb1)
    also have "take (4 * rd_lframe s) (rd_out s ! ch) = track ?nb ch (rd_lframe s) (pending c)"
      using s(8) i unfolding placed_def by blast
    also have "take (4 * avail) (track ?nb ch (rd_lframe s) (pending c)) = track ?nb ch avail (pending c)"
    proof -
      have "track ?nb ch (avail + (rd_lframe s - avail)) (pending c) = track ?nb ch avail (pending c) @
          track ?nb ch (rd_lframe s - avail) (drop (4 * (?nb * avail)) (pending c))" by (rule track_add)
      moreover have "length (track ?nb ch avail (pending c)) = 4 * avail"
      proof (rule length_track [OF _ i])
        have "avail * (4 * ?nb) \<le> rb_fill rb"
          by (rule order_trans [OF mult_le_mono1 div_times_less_eq_dividend]) (simp add: assms(4))
        then show "4 * (?nb * avail) \<le> length (pending c)" using assms(2) by (simp add: pending_def algebra_simps)
      qed
      ultimately show ?thesis using le by simp
    qed
    finally show ?thesis .
  qed
  have lost: "rd_lost s \<noteq> 0 \<and> rd_lost s = ?n \<longleftrightarrow> avail = 0" using s(6) nb(2) assms(4) by auto
  obtain o2 where o2: "for_loop 0 ?nb (\<lambda>channel outs.
      if channel < length outs then do {
        y \<leftarrow> for_loop 0 ?n (\<lambda>frame o1. mem_store o1 (4 * frame) (replicate 4 0)) (outs ! channel);
        Some (outs[channel := y]) }
      else None) o1 = Some o2" "chans ?nb ?n o2" "\<forall>ch < ?nb. take (4 * ?n) (o2 ! ch) = replicate (4 * ?n) 0"
    using silence_ok [OF o1(3)] by blast
  let ?cnt = "if avail = 0 \<and> lost_pac_cnt c < 10 then lost_pac_cnt c + 1 else lost_pac_cnt c"
  let ?outs = "if avail = 0 \<and> 9 \<le> ?cnt then o2 else o1"
  have "read_from_ringbuffer_async_non_interleaved c outs =
      Some (c\<lparr>rxbuf := b', ringbuffer := Some (rd_rb s), lost_pac_cnt := ?cnt\<rparr>, ?outs)"
    using run o1(1) o2(1) lost by (simp add: read_from_ringbuffer_async_non_interleaved_def assms(2) Let_def)
  moreover have "chans ?nb ?n ?outs" using o1(3) o2(2) by simp
  moreover have "take (4 * avail) (?outs ! ch) = track ?nb ch avail (pending c)" if "?n \<le> 2 * avail" "ch < ?nb" for ch
    using tr [OF that] that(1) nb(2) by simp
  moreover have "take (4 * ?n) (?outs ! ch) = replicate (4 * ?n) 0" if "avail = 0 \<and> 8 \<le> lost_pac_cnt c" "ch < ?nb" for ch
    using o2(3) that by simp
  ultimately show ?thesis using ok abs by blast
qed

section \<open>Playing period after period\<close>

text \<open>
  The ring is filled and the callback runs, alternately: each period brings the bytes the receiver
  has written since the last one and the channel blocks of the callback.
\<close>

fun play :: "(byte list \<times> byte list list) list \<Rightarrow> stream_context \<Rightarrow> (stream_context \<times> byte list list list) option" where
  "play [] c = Some (c, [])"
| "play ((xs, outs) # ps) c = do {
     rb \<leftarrow> ringbuffer c;
     (rb, _) \<leftarrow> ringbuffer_write rb xs (length xs);
     (c, outs) \<leftarrow> read_from_ringbuffer_async_non_interleaved (c\<lparr>ringbuffer := Some rb\<rparr>) outs;
     (c, rest) \<leftarrow> play ps c;
     Some (c, outs # rest) }"

text \<open>Every arrival fits the ring, and then it holds a period.\<close>

fun steady :: "nat \<Rightarrow> nat \<Rightarrow> nat \<Rightarrow> (byte list \<times> byte list list) list \<Rightarrow> bool" where
  "steady cap period fill [] \<longleftrightarrow> True"
| "steady cap period fill ((xs, outs) # ps) \<longleftrightarrow>
     fill + length xs \<le> cap \<and> period \<le> fill + length xs \<and> steady cap period (fill + length xs - period) ps"

lemma play_steady:
  "reader_ok c \<Longrightarrow> ringbuffer c = Some rb \<Longrightarrow> \<forall>(xs, outs) \<in> set ps. chans (nboutputs c) (nframes c) outs \<Longrightarrow>
    steady (rb_cap rb) (4 * (nboutputs c * nframes c)) (rb_fill rb) ps \<Longrightarrow>
    \<exists>c' os. play ps c = Some (c', os) \<and> length os = length ps \<and> reader_ok c' \<and>
      (\<forall>ch < nboutputs c. concat (map (\<lambda>o1. take (4 * nframes c) (o1 ! ch)) os) =
        track (nboutputs c) ch (nframes c * length ps) (pending c @ concat (map fst ps))) \<and>
      pending c' = drop (4 * (nboutputs c * nframes c) * length ps) (pending c @ concat (map fst ps))"
proof (induction ps arbitrary: c rb)
  case Nil
  then show ?case by simp
next
  case (Cons p ps)
  obtain xs outs where p: "p = (xs, outs)" by (cases p)
  let ?nb = "nboutputs c" and ?n = "nframes c"
  have rb: "rb_ok rb" "rb_size rb < 2 ^ 31" using Cons.prems(1,2) by (auto simp: reader_ok_def)
  have fit: "length xs \<le> rb_cap rb - length (rb_abs rb)" using Cons.prems(4) p by simp linarith
  obtain rb1 where w: "ringbuffer_write rb xs (length xs) = Some (rb1, length xs)" "rb_ok rb1" "rb_cap rb1 = rb_cap rb"
      "rb_abs rb1 = rb_abs rb @ xs"
    using ring.push_whole [OF rb(1) fit] by blast
  have fill: "rb_fill rb1 = rb_fill rb + length xs" using arg_cong [OF w(4), of length] by simp
  have size: "rb_size rb1 = rb_size rb" using w(2,3) rb(1) by (simp add: rb_cap_def rb_ok_def, linarith)
  let ?c = "c\<lparr>ringbuffer := Some rb1\<rparr>"
  have ok1: "reader_ok ?c" using Cons.prems(1) w(2) rb(2) size by (simp add: reader_ok_def)
  have P1: "pending ?c = pending c @ xs" using w(4) Cons.prems(2) by (simp add: pending_def)
  obtain b rb2 outs' where r: "read_from_ringbuffer_async_non_interleaved ?c outs =
        Some (?c\<lparr>rxbuf := b, ringbuffer := Some rb2\<rparr>, outs')" "reader_ok (?c\<lparr>rxbuf := b, ringbuffer := Some rb2\<rparr>)"
      "rb_ok rb2" "rb_size rb2 = rb_size rb1" "rb_fill rb2 = rb_fill rb1 - 4 * (?nb * ?n)"
      "\<forall>ch < ?nb. take (4 * ?n) (outs' ! ch) = track ?nb ch ?n (pending ?c)"
      "pending (?c\<lparr>rxbuf := b, ringbuffer := Some rb2\<rparr>) = drop (4 * (?nb * ?n)) (pending ?c)"
    using period_read [OF ok1, of rb1 outs] Cons.prems(3,4) fill p by auto
  let ?c2 = "?c\<lparr>rxbuf := b, ringbuffer := Some rb2\<rparr>"
  have "rb_cap rb2 = rb_cap rb" using r(4) size by (simp add: rb_cap_def)
  then have "\<exists>c' os. play ps ?c2 = Some (c', os) \<and> length os = length ps \<and> reader_ok c' \<and>
      (\<forall>ch < ?nb. concat (map (\<lambda>o1. take (4 * ?n) (o1 ! ch)) os) =
        track ?nb ch (?n * length ps) (pending ?c2 @ concat (map fst ps))) \<and>
      pending c' = drop (4 * (?nb * ?n) * length ps) (pending ?c2 @ concat (map fst ps))"
    using Cons.IH [of ?c2 rb2] Cons.prems(3,4) r(2,5) fill p by auto
  then obtain c' os where c': "play ps ?c2 = Some (c', os)" "length os = length ps" "reader_ok c'"
      "\<And>ch. ch < ?nb \<Longrightarrow> concat (map (\<lambda>o1. take (4 * ?n) (o1 ! ch)) os) =
        track ?nb ch (?n * length ps) (pending ?c2 @ concat (map fst ps))"
      "pending c' = drop (4 * (?nb * ?n) * length ps) (pending ?c2 @ concat (map fst ps))"
    by blast
  let ?W = "pending c @ concat (map fst (p # ps))"
  have enough: "4 * (?nb * ?n) \<le> length (pending c @ xs)"
    using Cons.prems(2,4) p by (simp add: pending_def)
  then have W: "pending ?c2 @ concat (map fst ps) = drop (4 * (?nb * ?n)) ?W" using r(7) P1 p by simp
  have "concat (map (\<lambda>o1. take (4 * ?n) (o1 ! ch)) (outs' # os)) = track ?nb ch (?n * length (p # ps)) ?W"
    if "ch < ?nb" for ch
  proof -
    have "take (4 * ?n) (outs' ! ch) = track ?nb ch ?n ?W"
      using r(6) that P1 enough p by (simp, intro track_cong [where m = "4 * (?nb * ?n)"]) auto
    moreover have "track ?nb ch (?n + ?n * length ps) ?W = track ?nb ch ?n ?W @ track ?nb ch (?n * length ps) (drop (4 * (?nb * ?n)) ?W)"
      by (rule track_add)
    ultimately show ?thesis using c'(4) [OF that] W by simp
  qed
  moreover have "play (p # ps) c = Some (c', outs' # os)" using Cons.prems(2) w(1) r(1) c'(1) p by simp
  moreover have "pending c' = drop (4 * (?nb * ?n) * length (p # ps)) ?W" unfolding c'(5) W drop_drop by (simp only: length_Cons mult_Suc_right add.commute)
  ultimately show ?case using c'(2,3) by (intro exI [of _ c'] exI [of _ "outs' # os"]) simp
qed


section \<open>Properties\<close>

definition example_receiver :: stream_context where
  "example_receiver = zero_context\<lparr>nboutputs := 1, nframes := 3, lagrange_num := 3, rxbuf := replicate 24 0,
     ringbuffer := Some \<lparr>rb_buf = replicate 32 1, write_ptr = 12, read_ptr = 0, rb_size = 32, mlocked = 0\<rparr>\<rparr>"

text \<open>
  Playback is seamless. When before each callback of the non-interleaved reader the ring holds a
  period, the samples played on every channel, one period after the other, are exactly the samples
  of that channel in the stream: the extra frames kept from before, the ring, and everything that
  arrives, without a gap, a repetition or a change; and what is not yet played is the rest of it.
\<close>

theorem playback_seamless:
  assumes "reader_ok c" and "ringbuffer c = Some rb" and "\<forall>(xs, outs) \<in> set ps. chans (nboutputs c) (nframes c) outs"
    and "steady (rb_cap rb) (4 * (nboutputs c * nframes c)) (rb_fill rb) ps"
  shows "\<exists>c' os. play ps c = Some (c', os) \<and> length os = length ps \<and> reader_ok c' \<and>
    (\<forall>ch < nboutputs c. concat (map (\<lambda>o1. take (4 * nframes c) (o1 ! ch)) os) =
      track (nboutputs c) ch (nframes c * length ps) (pending c @ concat (map fst ps))) \<and>
    pending c' = drop (4 * (nboutputs c * nframes c) * length ps) (pending c @ concat (map fst ps))"
  using assms by (rule play_steady)

theorem playback_seamless_witness:
  "let ps = [([], [replicate 12 0]), (replicate 12 2, [replicate 12 0])] in
   \<exists>c' os. play ps example_receiver = Some (c', os) \<and> length os = length ps \<and> reader_ok c' \<and>
    (\<forall>ch < nboutputs example_receiver. concat (map (\<lambda>o1. take (4 * nframes example_receiver) (o1 ! ch)) os) =
      track (nboutputs example_receiver) ch (nframes example_receiver * length ps) (pending example_receiver @ concat (map fst ps))) \<and>
    pending c' = drop (4 * (nboutputs example_receiver * nframes example_receiver) * length ps)
      (pending example_receiver @ concat (map fst ps))"
  unfolding Let_def
  by (rule playback_seamless [where rb = "\<lparr>rb_buf = replicate 32 1, write_ptr = 12, read_ptr = 0, rb_size = 32, mlocked = 0\<rparr>"])
    (simp_all add: example_receiver_def reader_ok_def rb_ok_def rd_wf_def chans_def rb_fill_def rb_cap_def)



end
