(* ===== verification/Frame_Fifo.thy ===== *)
theory Frame_Fifo
  imports Ringbuffer
begin

text \<open>
  The ring as a queue of frames: a client that moves blocks of one size only, and only when a whole
  block fits or is there, keeps the contents a sequence of whole blocks.
\<close>

locale frame_fifo = byte_fifo ok contents cap avail space push pull
  for ok :: "'q \<Rightarrow> bool" and contents :: "'q \<Rightarrow> byte list" and cap :: "'q \<Rightarrow> nat"
    and avail :: "'q \<Rightarrow> nat option" and space :: "'q \<Rightarrow> nat option"
    and push :: "'q \<Rightarrow> byte list \<Rightarrow> nat \<Rightarrow> ('q \<times> nat) option"
    and pull :: "'q \<Rightarrow> byte list \<Rightarrow> nat \<Rightarrow> ('q \<times> byte list \<times> nat) option" +
  fixes fs :: nat
  assumes fs_pos: "0 < fs"
begin

text \<open>
  A loop that offers \<open>n\<close> frames, each written when it fits and dropped otherwise: the first frames
  that fit are appended, in order.
\<close>

lemma offer_frames:
  assumes "ok q" and "\<And>k. k < n \<Longrightarrow> fs \<le> length (src k)"
  shows "\<exists>q'. for_loop 0 n (\<lambda>k q. do {
      room \<leftarrow> space q;
      if fs \<le> room then do { (q, _) \<leftarrow> push q (src k) fs; Some q } else Some q }) q = Some q' \<and>
    ok q' \<and> cap q' = cap q \<and>
    contents q' = contents q @ concat (map (\<lambda>k. take fs (src k)) [0..<min n ((cap q - length (contents q)) div fs)])"
  using assms(2)
proof (induction n)
  case 0
  show ?case using assms(1) by simp
next
  case (Suc n)
  let ?room = "(cap q - length (contents q)) div fs"
  let ?loop = "\<lambda>n. for_loop 0 n (\<lambda>k q. do {
      room \<leftarrow> space q;
      if fs \<le> room then do { (q, _) \<leftarrow> push q (src k) fs; Some q } else Some q }) q"
  obtain q1 where q1: "?loop n = Some q1" "ok q1" "cap q1 = cap q"
      "contents q1 = contents q @ concat (map (\<lambda>k. take fs (src k)) [0..<min n ?room])"
    using Suc by auto
  have lens: "length (contents q1) = length (contents q) + min n ?room * fs"
  proof -
    have "length (concat (map (\<lambda>k. take fs (src k)) [0..<min n ?room])) = min n ?room * fs"
      using Suc.prems by (intro length_concat_blocks) (simp add: min_absorb2)
    then show ?thesis unfolding q1(4) by simp
  qed
  have run: "?loop (Suc n) = do {
      room \<leftarrow> space q1;
      if fs \<le> room then do { (q, _) \<leftarrow> push q1 (src n) fs; Some q } else Some q1 }"
    by (simp only: for_loop_Suc_right q1(1) Option.bind.bind_lunit add_0)
  show ?case
  proof (cases "n < ?room")
    case True
    have "(n + 1) * fs \<le> ?room * fs" using True by (intro mult_le_mono1) simp
    also have "\<dots> \<le> cap q - length (contents q)" by (rule div_times_less_eq_dividend)
    finally have fits: "fs \<le> cap q1 - length (contents q1)" using True lens q1(3) by simp
    obtain q2 where "push q1 (src n) fs = Some (q2, fs)" "ok q2" "cap q2 = cap q1" "contents q2 = contents q1 @ take fs (src n)"
      using push_law [OF q1(2) Suc.prems [OF lessI], of fs] fits by (auto simp: min_absorb1)
    then show ?thesis unfolding run space_law [OF q1(2)] using fits q1(3,4) True by simp
  next
    case False
    have less: "cap q - length (contents q) < fs + ?room * fs"
      by (rule dividend_less_div_times [OF fs_pos])
    have "cap q1 - length (contents q1) = cap q - length (contents q) - ?room * fs"
      using False lens q1(3) by (simp add: min_absorb2)
    then have "\<not> fs \<le> cap q1 - length (contents q1)" using less fs_pos by simp
    moreover have "min (Suc n) ?room = min n ?room" using False by simp
    ultimately show ?thesis unfolding run space_law [OF q1(2)] using q1 by simp
  qed
qed

text \<open>A frame that is there is taken whole, and what is left is a sequence of whole frames again.\<close>

lemma take_frame:
  assumes "ok q" and "fs \<le> length (contents q)" and "fs \<le> length dest"
  shows "\<exists>q'. pull q dest fs = Some (q', blit dest 0 (take fs (contents q)), fs) \<and> ok q' \<and> cap q' = cap q \<and>
    contents q' = drop fs (contents q) \<and> (fs dvd length (contents q) \<longrightarrow> fs dvd length (contents q'))"
proof -
  have "fs = min fs (length (contents q))" using assms(2) by simp
  from pull_law [OF assms(1,3) this] show ?thesis by (auto simp: dvd_diff_nat)
qed

lemma offer_aligned:
  assumes "fs dvd length (contents q)" and "\<And>k. k < n \<Longrightarrow> fs \<le> length (src k)" and "m \<le> n"
  shows "fs dvd length (contents q @ concat (map (\<lambda>k. take fs (src k)) [0..<m]))"
proof -
  have "length (concat (map (\<lambda>k. take fs (src k)) [0..<m])) = m * fs"
    using assms(2,3) by (intro length_concat_blocks) (simp add: min_absorb2)
  then show ?thesis using assms(1) by simp
qed

end

text \<open>The ring buffer is such a queue for every size of a frame.\<close>

interpretation ring_frames: frame_fifo rb_ok rb_abs rb_cap ringbuffer_read_space ringbuffer_write_space
    ringbuffer_write ringbuffer_read "Suc m" for m
  by unfold_locales simp

end
