(* ===== verification/Rx_Packet.thy ===== *)
theory Rx_Packet
  imports Receive Frame_Fifo Sample_Convert Key_Value
begin

text \<open>
  The receiving side of a stream (\<open>vban_common/vban_functions.h\<close>, \<open>vban_functions.cpp\<close>): what
  \<open>vban_rx_handle_packet\<close> does with one packet, and the receiver thread \<open>rxThread\<close> that selects the
  packets of the stream. The answers of the system (what \<open>poll\<close>, \<open>recvmsg\<close> and \<open>read\<close> return, the
  time, whether \<open>calloc\<close> succeeds) are arguments.
\<close>

section \<open>Comparing strings\<close>

text \<open>
  \<open>strcmp\<close> and \<open>strncmp\<close> read their arguments up to the first difference or the end; running off
  the end of a block is undefined.
\<close>

fun str_eq :: "byte list \<Rightarrow> byte list \<Rightarrow> bool option" where
  "str_eq (a # as) (b # bs) = (if a \<noteq> b then Some False else if a = 0 then Some True else str_eq as bs)"
| "str_eq _ _ = None"

fun strn_eq :: "nat \<Rightarrow> byte list \<Rightarrow> byte list \<Rightarrow> bool option" where
  "strn_eq 0 _ _ = Some True"
| "strn_eq (Suc n) (a # as) (b # bs) = (if a \<noteq> b then Some False else if a = 0 then Some True else strn_eq n as bs)"
| "strn_eq (Suc n) _ _ = None"

definition mem_eq :: "nat \<Rightarrow> byte list \<Rightarrow> byte list \<Rightarrow> bool option" where
  "mem_eq n a b = do { x \<leftarrow> mem_load a 0 n; y \<leftarrow> mem_load b 0 n; Some (x = y) }"

text \<open>\<open>strncpy\<close> copies up to the terminator and fills the rest with zeros.\<close>

definition strncpy :: "nat \<Rightarrow> byte list \<Rightarrow> byte list \<Rightarrow> byte list option" where
  "strncpy n dst src = (if n \<le> length src \<or> 0 \<in> set src
     then mem_store dst 0 (take n (cstr src @ replicate n 0)) else None)"

text \<open>\<open>strncat\<close> of \<open>n\<close> characters of \<open>s\<close> to the string in a block, with the new terminator.\<close>

definition strncat :: "byte list \<Rightarrow> byte list \<Rightarrow> nat \<Rightarrow> byte list option" where
  "strncat b s n = do { t \<leftarrow> c_string b; put_string b (length t) (take n s) }"

text \<open>\<open>inet_ntoa\<close>: the four bytes of the address in memory order.\<close>

definition inet_ntoa :: "u32 \<Rightarrow> byte list" where
  "inet_ntoa ip = (let d = map (\<lambda>b. dec_nat (unat b)) (le32 ip) in
     d ! 0 @ bytes_of ''.'' @ d ! 1 @ bytes_of ''.'' @ d ! 2 @ bytes_of ''.'' @ d ! 3)"

definition cmd_present_send :: "stream_context \<Rightarrow> stream_context" where
  "cmd_present_send context = context\<lparr>flags := flags context OR CMD_PRESENT\<rparr>"


section \<open>Audio\<close>

text \<open>The first audio packet of a stream that has no ring yet.\<close>

definition rx_announce :: "stream_context \<Rightarrow> vban_header \<Rightarrow> stream_context option" where
  "rx_announce context h = do {
     let context = (if nboutputs context = 0 then context\<lparr>nboutputs := unat (format_nbc h) + 1\<rparr> else context);
     sr \<leftarrow> sr_at (unat (format_SR h));
     Some (context\<lparr>samplerate_resampler := sr\<rparr>) }"

text \<open>
  The buffers on both sides of the resampler: when the packet is longer than the last one they are
  allocated anew, else only the lengths are set. \<open>calloc n\<close> is whether \<open>n\<close> bytes are available.
\<close>

definition rx_outlen :: "stream_context \<Rightarrow> int \<Rightarrow> int option" where
  "rx_outlen context inlen = do {
     p \<leftarrow> c_int (inlen * samplerate context);
     q \<leftarrow> c_div p (samplerate_resampler context);
     c_int (q + 1) }"

definition rx_calloc :: "(nat \<Rightarrow> bool) \<Rightarrow> stream_context \<Rightarrow> int \<Rightarrow> byte list option option" where
  "rx_calloc calloc context len = do {
     n \<leftarrow> c_int (len * int (nboutputs context));
     let size = umul (to_size n) 4;
     Some (if calloc size then Some (replicate size 0) else None) }"

definition rx_buffers :: "(nat \<Rightarrow> bool) \<Rightarrow> stream_context \<Rightarrow> vban_header \<Rightarrow> stream_context option" where
  "rx_buffers calloc context h = do {
     let inlen = int (unat (format_nbs h)) + 1;
     if resampler_inbuflen context < inlen then do {
       inbuf \<leftarrow> rx_calloc calloc context inlen;
       outlen \<leftarrow> rx_outlen context inlen;
       outbuf \<leftarrow> rx_calloc calloc context outlen;
       Some (context\<lparr>resampler_inbuflen := inlen, resampler_inbuf := inbuf, resampler_outbuflen := outlen,
         resampler_outbuf := outbuf\<rparr>) }
     else do {
       outlen \<leftarrow> rx_outlen context inlen;
       Some (context\<lparr>resampler_inbuflen := inlen, resampler_outbuflen := outlen\<rparr>) } }"

text \<open>Frame \<open>iframe\<close> of the packet is converted to floats at its place in the buffer.\<close>

definition rx_frame :: "nat \<Rightarrow> nat \<Rightarrow> nat \<Rightarrow> nat \<Rightarrow> byte list \<Rightarrow> nat \<Rightarrow> byte list \<Rightarrow> byte list option" where
  "rx_frame nb nbc framesize bitfmt data iframe inbuf =
     (if 4 * (iframe * nb) \<le> length inbuf \<and> iframe * framesize \<le> length data then do {
        (d, _) \<leftarrow> vban_sample_convert (drop (4 * (iframe * nb)) inbuf) 4 (drop (iframe * framesize) data) bitfmt nbc;
        Some (take (4 * (iframe * nb)) inbuf @ d) }
      else None)"

text \<open>The frames that come out of the resampler are written when they fit; the source advances by \<open>nbc\<close> floats.\<close>

definition rx_write :: "byte list option \<Rightarrow> nat \<Rightarrow> nat \<Rightarrow> nat \<Rightarrow> ringbuffer \<Rightarrow> ringbuffer option" where
  "rx_write outbuf nbc outframesize frame rb = do {
     room \<leftarrow> ringbuffer_write_space rb;
     if outframesize \<le> room then do {
       b \<leftarrow> outbuf;
       if 4 * (frame * nbc) \<le> length b then do {
         (rb, _) \<leftarrow> ringbuffer_write rb (drop (4 * (frame * nbc)) b) outframesize;
         Some rb }
       else None }
     else Some rb }"

text \<open>The measurement after the packet; the fill of the ring is counted in frames of the packet.\<close>

definition rx_measure :: "timespec \<Rightarrow> vban_header \<Rightarrow> nat \<Rightarrow> nat \<Rightarrow> stream_context \<Rightarrow> stream_context option" where
  "rx_measure clock h framesize frames context =
     (if flag_set (flags context) CORRECTION_ON then do {
        (context, srerr) \<leftarrow> calc_input_samplerate clock context h;
        if cframes context > int (nframes context) \<and> srerr = 0 then do {
          rb \<leftarrow> ringbuffer context;
          n \<leftarrow> ringbuffer_read_space rb;
          q \<leftarrow> udiv n framesize;
          Some (context\<lparr>rbfill := to_i32 (int (usub (uadd q (to_size (cframes context))) frames))\<rparr>) }
        else Some context }
      else Some context)"

text \<open>An accepted audio packet. \<open>clock\<close> is the time a measurement that needs one gets.\<close>

definition rx_audio :: "(nat \<Rightarrow> bool) \<Rightarrow> timespec \<Rightarrow> vban_packet \<Rightarrow> stream_context \<Rightarrow> stream_context option" where
  "rx_audio calloc clock p context = do {
     let h = header p;
     let nb = nboutputs context;
     let nbc = (if unat (format_nbc h) + 1 < nb then unat (format_nbc h) + 1 else nb);
     size \<leftarrow> bit_size (unat (format_bit h));
     let framesize = (unat (format_nbc h) + 1) * size;
     let outframesize = 4 * nb;
     context \<leftarrow> rx_buffers calloc context h;
     inbuf \<leftarrow> resampler_inbuf context;
     inbuf \<leftarrow> for_loop 0 (unat (format_nbs h) + 1) (rx_frame nb nbc framesize (unat (format_bit h)) (pdata p)) inbuf;
     r \<leftarrow> resampler context;
     let r = r\<lparr>inp_count := to_size (resampler_inbuflen context) mod 2 ^ 32, inp_data := Some (inbuf, 0),
       out_count := to_size (resampler_outbuflen context) mod 2 ^ 32,
       out_data := map_option (\<lambda>b. (b, 0)) (resampler_outbuf context)\<rparr>;
     (r, _) \<leftarrow> vr_process r;
     let outbuf = map_option fst (out_data r);
     let context = context\<lparr>resampler_inbuf := Some inbuf, resampler_outbuf := outbuf, resampler := Some r\<rparr>;
     let frames = nat ((resampler_outbuflen context - int (out_count r)) mod 2 ^ 32);
     rb \<leftarrow> ringbuffer context;
     rb \<leftarrow> for_loop 0 frames (rx_write outbuf nbc outframesize) rb;
     let context = context\<lparr>ringbuffer := Some rb\<rparr>;
     context \<leftarrow> rx_measure clock h framesize frames context;
     Some (context\<lparr>nu_frame := nuFrame h\<rparr>) }"


section \<open>MIDI\<close>

text \<open>
  The events of a serial packet go to the MIDI ring three bytes at a time. While the ring has no
  room the loop tries again; only the player's thread can end that, so alone it does not return.
\<close>

partial_function (option) midi_events :: "byte list \<Rightarrow> int \<Rightarrow> nat \<Rightarrow> ringbuffer \<Rightarrow> ringbuffer option" where
  "midi_events data packetlen eventptr rb =
     (if int eventptr + int VBAN_HEADER_SIZE < packetlen then
        Option.bind (ringbuffer_write_space rb) (\<lambda>room.
          if 3 \<le> room then
            Option.bind (mem_load data eventptr 3) (\<lambda>ev.
              Option.bind (ringbuffer_write rb ev 3) (\<lambda>(rb, _). midi_events data packetlen (to_u16 (int eventptr + 3)) rb))
          else midi_events data packetlen eventptr rb)
      else Some rb)"

definition rx_serial :: "vban_packet \<Rightarrow> int \<Rightarrow> stream_context \<Rightarrow> stream_context option" where
  "rx_serial p packetlen context =
     (if vban (header p) = VBAN_HEADER_FOURC \<and> format_SR (header p) = 0x2E then do {
        own \<leftarrow> str_eq (streamname (header p)) (rx_streamname context);
        named \<leftarrow> (if own then Some True else str_eq (streamname (header p)) (bytes_of ''MIDI1'' @ [0]));
        if named then
          (case ringbuffer_midi context of
             None \<Rightarrow> Some context
           | Some rb \<Rightarrow> do {
               rb \<leftarrow> midi_events (pdata p) packetlen 0 rb;
               Some (context\<lparr>ringbuffer_midi := Some rb\<rparr>) })
        else Some context }
      else Some context)"


section \<open>Text\<close>

text \<open>
  A request for information is answered at once; longer text is kept for the main thread. The code
  takes the size of the pointer \<open>command\<close>, 8, for the size of the block. The result is the context,
  the packet (whose data are cleared after a copy) and what was sent.
\<close>

definition rx_text :: "vban_packet \<Rightarrow> int \<Rightarrow> stream_context \<Rightarrow> u32 \<Rightarrow> u16 \<Rightarrow> (stream_context \<times> vban_packet \<times> io list) option" where
  "rx_text p packetlen context ip_in port_in = do {
     let name = streamname (header p);
     let cleared = p\<lparr>pdata := replicate VBAN_DATA_MAX_SIZE 0\<rparr>;
     let begins = (\<lambda>s. take (length s) name = bytes_of s);
     if begins ''info'' \<or> begins ''INFO'' then
       if packetlen - int VBAN_HEADER_SIZE \<le> 5 \<and> ip_in \<noteq> iplocal context then do {
         s \<leftarrow> c_string (pdata (info context));
         (sock, ev, _) \<leftarrow> udp_send (rxsock context) port_in (packet_bytes (info context)) (VBAN_HEADER_SIZE + length s) ip_in 0;
         Some (context\<lparr>rxsock := sock\<rparr>, p, [ev]) }
       else if 5 < packetlen - int VBAN_HEADER_SIZE then
         (case command context of
            None \<Rightarrow> Some (context, p, [])
          | Some cmd \<Rightarrow> do {
              old \<leftarrow> c_string cmd;
              cmd \<leftarrow> mem_store cmd 0 (replicate (length old) 0);
              cmd \<leftarrow> strncat cmd (bytes_of ''info '') 5;
              text \<leftarrow> c_string (pdata p);
              cmd \<leftarrow> mem_store cmd 5 text;
              t \<leftarrow> c_string cmd;
              if 25 < usub 8 (length t) then do {
                cmd \<leftarrow> strncat cmd (bytes_of '' ipother='') 9;
                cmd \<leftarrow> strncat cmd (inet_ntoa ip_in) (length (inet_ntoa ip_in));
                Some (cmd_present_send (context\<lparr>command := Some cmd\<rparr>), cleared, []) }
              else Some (context\<lparr>command := Some cmd\<rparr>, cleared, []) })
       else Some (context, p, [])
     else if begins ''command'' \<or> begins ''COMMAND'' then
       (case command context of
          None \<Rightarrow> Some (context, p, [])
        | Some cmd \<Rightarrow> do {
            text \<leftarrow> c_string (pdata p);
            cmd \<leftarrow> mem_store cmd 0 text;
            Some (cmd_present_send (context\<lparr>command := Some cmd\<rparr>), cleared, []) })
     else if begins ''message'' \<or> begins ''MESSAGE'' then do {
       text \<leftarrow> c_string (pdata p);
       Some (context, p, []) }
     else Some (context, p, []) }"


section \<open>One packet\<close>

text \<open>An audio packet belongs to the stream when name and address match and its number is new.\<close>

definition rx_accepts :: "vban_packet \<Rightarrow> stream_context \<Rightarrow> u32 \<Rightarrow> bool option" where
  "rx_accepts p context ip_in = do {
     same \<leftarrow> strn_eq VBAN_STREAM_NAME_SIZE (streamname (header p)) (rx_streamname context);
     Some (same \<and> nuFrame (header p) \<noteq> nu_frame context \<and> iprx context = ip_in) }"

definition vban_rx_handle_packet :: "(nat \<Rightarrow> bool) \<Rightarrow> timespec \<Rightarrow> vban_packet \<Rightarrow> int \<Rightarrow> stream_context \<Rightarrow> u32 \<Rightarrow> u16 \<Rightarrow>
    (stream_context \<times> vban_packet \<times> io list \<times> int) option" where
  "vban_rx_handle_packet calloc clock p packetlen context ip_in port_in =
     (let sr = format_SR (header p) in
      if is_protocol VBAN_PROTOCOL_AUDIO sr then
        (case ringbuffer context of
           None \<Rightarrow> do {
             context \<leftarrow> rx_announce context (header p);
             Some (context, p, [], 1) }
         | Some rb \<Rightarrow> do {
             mine \<leftarrow> rx_accepts p context ip_in;
             if mine then do {
               context \<leftarrow> rx_audio calloc clock p context;
               Some (context, p, [], 0) }
             else Some (context, p, [], 0) })
      else if is_protocol VBAN_PROTOCOL_SERIAL sr then do {
        context \<leftarrow> rx_serial p packetlen context;
        Some (context, p, [], 0) }
      else if is_protocol VBAN_PROTOCOL_TXT sr then do {
        (context, p, evs) \<leftarrow> rx_text p packetlen context ip_in port_in;
        Some (context, p, evs, 0) }
      else Some (context, p, [], 0))"


section \<open>The receiver thread\<close>

text \<open>
  One round of \<open>rxThread\<close> after \<open>poll\<close> has reported data: the time, and what \<open>recvmsg\<close> answers on
  a socket, or what the two calls of \<open>read\<close> return on a pipe (the second only when it is made). The
  state of the thread is the context, the packet it reads into and the last sender's address;
  \<open>select_stream\<close> is the decision about an audio or MIDI packet.
\<close>

datatype rx_input = Datagram timespec "int + timespec msg_answer" | Piped timespec "byte list" "byte list"

record rx_thread =
  rt_stream :: stream_context
  rt_packet :: vban_packet
  rt_ip :: u32

definition select_stream :: "stream_context \<Rightarrow> vban_packet \<Rightarrow> u32 \<Rightarrow> (stream_context \<times> bool) option" where
  "select_stream stream p ip_in = do {
     let nm = streamname (header p);
     same \<leftarrow> mem_eq VBAN_STREAM_NAME_SIZE (rx_streamname stream) nm;
     first \<leftarrow> rd (rx_streamname stream) 0;
     if iprx stream = ip_in \<and> same then Some (stream, True)
     else if iprx stream = 0 \<and> first = 0 then do {
       n \<leftarrow> strncpy VBAN_STREAM_NAME_SIZE (rx_streamname stream) nm;
       Some (stream\<lparr>iprx := ip_in, rx_streamname := n\<rparr>, False) }
     else if iprx stream = ip_in \<and> first = 0 then do {
       n \<leftarrow> strncpy VBAN_STREAM_NAME_SIZE (rx_streamname stream) nm;
       Some (stream\<lparr>rx_streamname := n\<rparr>, False) }
     else if iprx stream = 0 \<and> same then Some (stream\<lparr>iprx := ip_in\<rparr>, False)
     else Some (stream, False) }"

text \<open>The socket's branch: the context, the packet, the sender, the length and whether to handle it.\<close>

definition rx_datagram :: "int + timespec msg_answer \<Rightarrow> rx_thread \<Rightarrow> (rx_thread \<times> int \<times> bool) option" where
  "rx_datagram answer t = do {
     let stream = rt_stream t;
     let (sock, p, stamp, packetlen) = udp_recv_m (rxsock stream) (rt_packet t) (input_ts stream) answer;
     let ip_in = sin_addr sock;
     let stream = stream\<lparr>rxsock := sock, input_ts := stamp, ansport := htons (sin_port sock)\<rparr>;
     let sr = format_SR (header p);
     if is_protocol VBAN_PROTOCOL_AUDIO sr \<or> is_protocol VBAN_PROTOCOL_SERIAL sr then do {
       (stream, handle) \<leftarrow> select_stream stream p ip_in;
       Some (\<lparr>rt_stream = stream, rt_packet = p, rt_ip = ip_in\<rparr>, packetlen, handle) }
     else Some (\<lparr>rt_stream = stream, rt_packet = p, rt_ip = ip_in\<rparr>, packetlen, True) }"

text \<open>
  The pipe's branch. \<open>read\<close> returns the number of bytes of its list; the second one goes behind the
  header and counts only when it is complete. \<open>VBAN_BIT_RESOLUTION_MASK\<close> is 7.
\<close>

definition rx_pipe :: "timespec \<Rightarrow> byte list \<Rightarrow> byte list \<Rightarrow> rx_thread \<Rightarrow> (rx_thread \<times> int \<times> bool) option" where
  "rx_pipe ts head body t = do {
     let stream = (rt_stream t)\<lparr>input_ts := ts\<rparr>;
     let p = packet_store (rt_packet t) (take VBAN_HEADER_SIZE head);
     let packetlen = int (length (take VBAN_HEADER_SIZE head));
     let sr = format_SR (header p);
     (stream, p, packetlen) \<leftarrow>
       (if is_protocol VBAN_PROTOCOL_AUDIO sr \<or> is_protocol VBAN_PROTOCOL_TXT sr then do {
          size \<leftarrow> bit_size (unat (format_bit (header p) AND 7));
          let datalen = size * (unat (format_nbc (header p)) + 1) * (unat (format_nbs (header p)) + 1);
          let got = take datalen body;
          data \<leftarrow> mem_store (pdata p) 0 got;
          let packetlen = (if length got = datalen then packetlen + int datalen else packetlen);
          first \<leftarrow> rd (rx_streamname stream) 0;
          n \<leftarrow> (if first = 0 then strncpy VBAN_STREAM_NAME_SIZE (rx_streamname stream) (streamname (header p))
            else Some (rx_streamname stream));
          Some (stream\<lparr>rx_streamname := n\<rparr>, p\<lparr>pdata := data\<rparr>, packetlen) }
        else Some (stream, p, packetlen));
     Some (\<lparr>rt_stream = stream, rt_packet = p, rt_ip = rt_ip t\<rparr>, packetlen,
       int VBAN_HEADER_SIZE \<le> packetlen \<and> vban (header p) = VBAN_HEADER_FOURC) }"

definition rx_round :: "(nat \<Rightarrow> bool) \<Rightarrow> timespec \<Rightarrow> rx_input \<Rightarrow> rx_thread \<Rightarrow> (rx_thread \<times> io list) option" where
  "rx_round calloc clock inp t = do {
     (t, packetlen, handle) \<leftarrow>
       (if rxport (rt_stream t) \<noteq> 0
        then (case inp of Datagram ts answer \<Rightarrow> rx_datagram answer t | Piped _ _ _ \<Rightarrow> None)
        else (case inp of Piped ts head body \<Rightarrow> rx_pipe ts head body t | Datagram _ _ \<Rightarrow> None));
     if handle then do {
       (stream, p, evs, _) \<leftarrow> vban_rx_handle_packet calloc clock (rt_packet t) packetlen (rt_stream t) (rt_ip t)
         (ansport (rt_stream t));
       Some (\<lparr>rt_stream = stream, rt_packet = zero_packet, rt_ip = rt_ip t\<rparr>, evs) }
     else Some (t, []) }"

text \<open>The thread runs while the flag is set; \<^const>\<open>None\<close> in the list is a \<open>poll\<close> that timed out.\<close>

fun rxThread :: "(nat \<Rightarrow> bool) \<Rightarrow> timespec \<Rightarrow> rx_input option list \<Rightarrow> rx_thread \<Rightarrow> (rx_thread \<times> io list) option" where
  "rxThread calloc clock [] t = Some (t, [])"
| "rxThread calloc clock (inp # inps) t =
     (if \<not> flag_set (flags (rt_stream t)) RECEIVING then Some (t, [])
      else case inp of
          None \<Rightarrow> rxThread calloc clock inps t
        | Some i \<Rightarrow> do {
            (t, evs) \<leftarrow> rx_round calloc clock i t;
            (t, evs') \<leftarrow> rxThread calloc clock inps t;
            Some (t, evs @ evs') })"


section \<open>Conversion to floats is total\<close>

lemma convert_to_float_sample:
  assumes "convert_sample 4 fs = Some cv" and "bit_size fs = Some ss" and "num * ss \<le> length src" and "k < num"
  shows "\<exists>bs. cv ss src k = Some bs \<and> length bs = 4"
proof -
  have "(k + 1) * ss \<le> num * ss" using assms(4) by (intro mult_le_mono1) simp
  then have k: "k * ss + ss \<le> length src" using assms(3) by simp
  have "fs \<in> {0, 1, 2, 3}"
    using assms(1) by (simp add: convert_sample.simps split: if_splits)
  then show ?thesis
    using assms(1,2) k by (auto simp: convert_sample.simps pick_def mem mult.commute)
qed

lemma convert_to_float:
  assumes "bit_size fs = Some ss" and "num * ss \<le> length src" and "4 * num \<le> length dst"
  shows "\<exists>d e. vban_sample_convert dst 4 src fs num = Some (d, e) \<and> length d = length dst"
proof (cases "fs = 4")
  case True
  then show ?thesis using assms by (simp add: vban_sample_convert_def mem mult.commute)
next
  case False
  show ?thesis
  proof (cases "convert_sample 4 fs")
    case None
    then show ?thesis using False assms(1) by (simp add: vban_sample_convert_def)
  next
    case (Some cv)
    have "\<exists>b. for_loop 0 num (\<lambda>sample d. do { bs \<leftarrow> cv ss src sample; mem_store d (sample * 4) bs }) dst = Some b \<and>
        length b = length dst"
    proof (rule for_loop_inv [where P = "\<lambda>_ b. length b = length dst", OF refl])
      fix k d
      assume k: "k < 0 + num" "length (d :: byte list) = length dst"
      obtain bs where "cv ss src k = Some bs" "length bs = 4"
        using convert_to_float_sample [OF Some assms(1,2)] k by auto
      moreover have "k * 4 + 4 \<le> length d" using k assms(3) by linarith
      ultimately show "\<exists>s'. do { bs \<leftarrow> cv ss src k; mem_store d (k * 4) bs } = Some s' \<and> length s' = length dst"
        using k by (simp add: mem)
    qed
    then show ?thesis using Some False assms(1) by (auto simp: vban_sample_convert_def)
  qed
qed


section \<open>A packet of the stream\<close>

text \<open>The frames a block of \<open>n\<close> input frames may give, with one to spare.\<close>

definition outlen :: "stream_context \<Rightarrow> nat \<Rightarrow> nat" where
  "outlen c n = n * nat (samplerate c) div nat (samplerate_resampler c) + 1"

definition rx_rates :: "stream_context \<Rightarrow> bool" where
  "rx_rates c \<longleftrightarrow> 0 < samplerate c \<and> samplerate c < 2 ^ 20 \<and> 6000 \<le> samplerate_resampler c \<and>
     samplerate_resampler c < 2 ^ 20 \<and> 0 < nboutputs c \<and> nboutputs c \<le> 256"

definition rx_bufs :: "stream_context \<Rightarrow> nat \<Rightarrow> bool" where
  "rx_bufs c n \<longleftrightarrow> (\<exists>ib ob. resampler_inbuf c = Some ib \<and> resampler_outbuf c = Some ob \<and>
     4 * (n * nboutputs c) \<le> length ib \<and> 4 * (outlen c n * nboutputs c) \<le> length ob)"

definition rx_ok :: "stream_context \<Rightarrow> bool" where
  "rx_ok c \<longleftrightarrow> rx_rates c \<and> (\<exists>rb. ringbuffer c = Some rb \<and> rb_ok rb) \<and>
     (\<exists>t r. resampler c = Some r \<and> vr_ok t r \<and> v_nchan r = nboutputs c) \<and>
     (\<exists>n \<le> 256. resampler_inbuflen c = int n \<and> (n = 0 \<or> rx_bufs c n))"

lemma outlen_mono: "m \<le> n \<Longrightarrow> outlen c m \<le> outlen c n"
  by (simp add: outlen_def div_le_mono mult_le_mono1)

lemma outlen_bound:
  assumes "rx_rates c" and "n \<le> 256"
  shows "outlen c n \<le> 2 ^ 20"
proof -
  have "n * nat (samplerate c) \<le> 256 * 2 ^ 20" using assms by (intro mult_le_mono) (auto simp: rx_rates_def)
  then have "n * nat (samplerate c) div nat (samplerate_resampler c) \<le> 256 * 2 ^ 20 div 6000"
    using assms(1) by (intro div_le_mono2 [THEN order_trans, OF _ _ div_le_mono]) (auto simp: rx_rates_def)
  then show ?thesis by (simp add: outlen_def)
qed

lemma rx_outlen_ok:
  assumes "rx_rates c" and "n \<le> 256"
  shows "rx_outlen c (int n) = Some (int (outlen c n))"
proof -
  have sr: "samplerate c = int (nat (samplerate c))" "samplerate_resampler c = int (nat (samplerate_resampler c))"
    "0 < nat (samplerate_resampler c)"
    using assms(1) by (auto simp: rx_rates_def)
  have "n * nat (samplerate c) \<le> 256 * 2 ^ 20" using assms by (intro mult_le_mono) (auto simp: rx_rates_def)
  then have a: "n * nat (samplerate c) < 2 ^ 31" by simp
  have b: "outlen c n < 2 ^ 31" using outlen_bound [OF assms] by simp
  have "c_int (int (n * nat (samplerate c) div nat (samplerate_resampler c)) + 1) = Some (int (outlen c n))"
    using c_int_nat [OF b] by (simp add: outlen_def add.commute)
  then show ?thesis
    unfolding rx_outlen_def using sr c_int_mult [OF a] c_div_nat [OF a sr(3)] by (metis Option.bind.bind_lunit)
qed

lemma rx_calloc_ok:
  assumes "rx_rates c" and "n \<le> 2 ^ 20"
  shows "rx_calloc (\<lambda>_. True) c (int n) = Some (Some (replicate (4 * (n * nboutputs c)) 0))"
proof -
  have "n * nboutputs c \<le> 2 ^ 20 * 256" using assms by (intro mult_le_mono) (auto simp: rx_rates_def)
  then have "n * nboutputs c < 2 ^ 31" "n * nboutputs c * 4 < 2 ^ 64" by simp_all
  then show ?thesis
    by (simp only: rx_calloc_def c_int_mult Option.bind.bind_lunit to_size_nat umul_small Let_def if_True)
      (simp add: to_size_nat umul_small mult.commute)
qed

lemma rx_buffers_ok:
  assumes "rx_ok c" and n: "n = unat (format_nbs h) + 1"
  shows "\<exists>ib ob. rx_buffers (\<lambda>_. True) c h = Some (c\<lparr>resampler_inbuflen := int n, resampler_inbuf := Some ib,
      resampler_outbuflen := int (outlen c n), resampler_outbuf := Some ob\<rparr>) \<and>
    4 * (n * nboutputs c) \<le> length ib \<and> 4 * (outlen c n * nboutputs c) \<le> length ob"
proof -
  have rates: "rx_rates c" using assms(1) by (simp add: rx_ok_def)
  have "unat (format_nbs h) < 256" using unsigned_less [of "format_nbs h"] by simp
  then have n256: "n \<le> 256" using n by simp
  have inlen: "int (unat (format_nbs h)) + 1 = int n" using n by simp
  note ol = rx_outlen_ok [OF rates n256]
  obtain m where m: "m \<le> 256" "resampler_inbuflen c = int m" "m = 0 \<or> rx_bufs c m"
    using assms(1) by (auto simp: rx_ok_def)
  show ?thesis
  proof (cases "m < n")
    case True
    have n20: "n \<le> 2 ^ 20" using n256 by simp
    let ?ib = "replicate (4 * (n * nboutputs c)) (0 :: byte)" and ?ob = "replicate (4 * (outlen c n * nboutputs c)) (0 :: byte)"
    show ?thesis
      unfolding rx_buffers_def inlen m(2) Let_def rx_calloc_ok [OF rates n20] ol
      using True rx_calloc_ok [OF rates outlen_bound [OF rates n256]]
      by (intro exI [of _ ?ib, OF exI [of _ ?ob]]) simp
  next
    case False
    then have "rx_bufs c m" using m(3) n by auto
    then obtain ib ob where b: "resampler_inbuf c = Some ib" "resampler_outbuf c = Some ob"
        "4 * (m * nboutputs c) \<le> length ib" "4 * (outlen c m * nboutputs c) \<le> length ob"
      by (auto simp: rx_bufs_def)
    have "n * nboutputs c \<le> m * nboutputs c" "outlen c n * nboutputs c \<le> outlen c m * nboutputs c"
      using False outlen_mono [of n m c] by (auto intro!: mult_le_mono1)
    then have len: "4 * (n * nboutputs c) \<le> length ib" "4 * (outlen c n * nboutputs c) \<le> length ob"
      using b(3,4) by linarith+
    have "c\<lparr>resampler_inbuflen := int n, resampler_outbuflen := int (outlen c n)\<rparr> =
        c\<lparr>resampler_inbuflen := int n, resampler_inbuf := Some ib, resampler_outbuflen := int (outlen c n), resampler_outbuf := Some ob\<rparr>"
      using b(1,2) by simp
    moreover have "rx_buffers (\<lambda>_. True) c h = Some (c\<lparr>resampler_inbuflen := int n, resampler_outbuflen := int (outlen c n)\<rparr>)"
      unfolding rx_buffers_def inlen m(2) Let_def ol using False by simp
    ultimately show ?thesis using len by metis
  qed
qed

text \<open>The announced frames are inside the data of the packet.\<close>

definition fits_packet :: "vban_packet \<Rightarrow> bool" where
  "fits_packet p \<longleftrightarrow> (case bit_size (unat (format_bit (header p))) of
      None \<Rightarrow> False
    | Some sz \<Rightarrow> 0 < sz \<and> (unat (format_nbs (header p)) + 1) * ((unat (format_nbc (header p)) + 1) * sz) \<le> length (pdata p))"

lemma rx_frames_ok:
  assumes sz: "bit_size f = Some sz" and room: "n * (nbc' * sz) \<le> length data" and nbc: "nbc \<le> nbc'" "nbc \<le> nb"
    and len: "4 * (n * nb) \<le> length ib"
  shows "\<exists>ib'. for_loop 0 n (rx_frame nb nbc (nbc' * sz) f data) ib = Some ib' \<and> length ib' = length ib"
proof (rule for_loop_inv [where P = "\<lambda>_ b. length b = length ib", OF refl])
  fix k b
  assume k: "0 \<le> k" "k < 0 + n" and b: "length (b :: byte list) = length ib"
  have "(k + 1) * nb \<le> n * nb" "(k + 1) * (nbc' * sz) \<le> n * (nbc' * sz)" using k by (intro mult_le_mono1; simp)+
  then have place: "4 * (k * nb) + 4 * nb \<le> length b" "k * (nbc' * sz) + nbc' * sz \<le> length data"
    using len room b by simp_all
  have "nbc * sz \<le> nbc' * sz" using nbc(1) by (rule mult_le_mono1)
  also have "nbc' * sz \<le> length (drop (k * (nbc' * sz)) data)" using place(2) by simp
  finally have "nbc * sz \<le> length (drop (k * (nbc' * sz)) data)" .
  moreover have "4 * nbc \<le> length (drop (4 * (k * nb)) b)" using place(1) nbc(2) by simp
  ultimately have "nbc * sz \<le> length (drop (k * (nbc' * sz)) data)" "4 * nbc \<le> length (drop (4 * (k * nb)) b)" .
  then obtain d e where d: "vban_sample_convert (drop (4 * (k * nb)) b) 4 (drop (k * (nbc' * sz)) data) f nbc = Some (d, e)"
      "length d = length (drop (4 * (k * nb)) b)"
    using convert_to_float [OF sz] by blast
  have "length d + 4 * (k * nb) = length b" using d(2) place(1) by simp
  then show "\<exists>s'. rx_frame nb nbc (nbc' * sz) f data k b = Some s' \<and> length s' = length ib"
    using d(1) place b by (simp add: rx_frame_def)
qed

lemma rx_writes_ok:
  assumes rb: "rb_ok rb" and nb: "0 < nb" and nbc: "nbc \<le> nb" and len: "4 * (n * nb) \<le> length ob"
  shows "\<exists>rb'. for_loop 0 n (rx_write (Some ob) nbc (4 * nb)) rb = Some rb' \<and> rb_ok rb' \<and> rb_size rb' = rb_size rb \<and>
    rb_abs rb' = rb_abs rb @ concat (map (\<lambda>k. take (4 * nb) (drop (4 * (k * nbc)) ob)) [0..<min n (rb_free rb div (4 * nb))])"
proof -
  obtain m where m: "4 * nb = Suc m" using nb by (cases "4 * nb") auto
  have src: "4 * (k * nbc) \<le> length ob" "4 * nb \<le> length (drop (4 * (k * nbc)) ob)" if "k < n" for k
  proof -
    have "k * nbc + nb \<le> k * nb + nb" using nbc by (intro add_mono mult_le_mono2) auto
    also have "\<dots> = (k + 1) * nb" by simp
    also have "\<dots> \<le> n * nb" using that by (intro mult_le_mono1) simp
    finally have "4 * (k * nbc) + 4 * nb \<le> length ob" using len by linarith
    then show "4 * (k * nbc) \<le> length ob" "4 * nb \<le> length (drop (4 * (k * nbc)) ob)" by simp_all
  qed
  have "for_loop 0 n (rx_write (Some ob) nbc (4 * nb)) rb =
      for_loop 0 n (\<lambda>k q. do {
        room \<leftarrow> ringbuffer_write_space q;
        if Suc m \<le> room then do { (q, _) \<leftarrow> ringbuffer_write q (drop (4 * (k * nbc)) ob) (Suc m); Some q } else Some q }) rb"
    using src(1) by (intro for_loop_cong) (simp add: rx_write_def m cong: if_cong)
  moreover have "Suc m \<le> length (drop (4 * (k * nbc)) ob)" if "k < n" for k using src(2) [OF that] m by simp
  ultimately obtain rb' where rb': "for_loop 0 n (rx_write (Some ob) nbc (4 * nb)) rb = Some rb'" "rb_ok rb'" "rb_cap rb' = rb_cap rb"
      "rb_abs rb' = rb_abs rb @ concat (map (\<lambda>k. take (Suc m) (drop (4 * (k * nbc)) ob)) [0..<min n ((rb_cap rb - length (rb_abs rb)) div Suc m)])"
    using ring_frames.offer_frames [OF rb, of n m "\<lambda>k. drop (4 * (k * nbc)) ob"] by auto
  have "rb_size rb' = rb_size rb" using rb'(2,3) rb by (simp add: rb_cap_def rb_ok_def, linarith)
  then show ?thesis using rb' unfolding m by (simp add: rb_free_def rb_cap_def)
qed

text \<open>The measurement of the input cycles is defined for good times and counters that fit.\<close>

definition meas_ok :: "timespec \<Rightarrow> stream_context \<Rightarrow> bool" where
  "meas_ok clock c \<longleftrightarrow> cyc_ok c \<and> ts_ok clock \<and> ts_ok (input_ts c) \<and> 0 \<le> cycle_pac_cnt c \<and> cycle_pac_cnt c < 2 ^ 30 \<and>
     0 \<le> cycle_frames c \<and> cycle_frames c < 2 ^ 30"

text \<open>The fields a measurement leaves as they are.\<close>

definition kept :: "stream_context \<Rightarrow> stream_context \<Rightarrow> bool" where
  "kept c c' \<longleftrightarrow> ringbuffer c' = ringbuffer c \<and> resampler c' = resampler c \<and> resampler_inbuf c' = resampler_inbuf c \<and>
     resampler_inbuflen c' = resampler_inbuflen c \<and> resampler_outbuf c' = resampler_outbuf c \<and>
     resampler_outbuflen c' = resampler_outbuflen c \<and> nboutputs c' = nboutputs c \<and> nframes c' = nframes c \<and>
     samplerate c' = samplerate c \<and> samplerate_resampler c' = samplerate_resampler c \<and> iprx c' = iprx c \<and>
     rx_streamname c' = rx_streamname c \<and> rxport c' = rxport c \<and> ringbuffer_midi c' = ringbuffer_midi c"

text \<open>
  A measurement keeps its own conditions: it adds at most one packet and 256 frames to the cycle, and
  of the flags it changes only the one for a network error.
\<close>

definition meas_after :: "stream_context \<Rightarrow> stream_context \<Rightarrow> bool" where
  "meas_after c c' \<longleftrightarrow> cyc_ok c' \<and> input_ts c' = input_ts c \<and>
     0 \<le> cycle_pac_cnt c' \<and> cycle_pac_cnt c' \<le> cycle_pac_cnt c + 1 \<and>
     0 \<le> cycle_frames c' \<and> cycle_frames c' \<le> cycle_frames c + 256 \<and>
     (flag_set (flags c') RECEIVING \<longleftrightarrow> flag_set (flags c) RECEIVING) \<and>
     (flag_set (flags c') CORRECTION_ON \<longleftrightarrow> flag_set (flags c) CORRECTION_ON)"

lemma flag_and_not:
  assumes "m AND m' = 0"
  shows "flag_set (f AND NOT m) m' \<longleftrightarrow> flag_set f m'"
proof -
  have "bit (f AND NOT m AND m') n \<longleftrightarrow> bit (f AND m') n" for n
  proof -
    have "\<not> (bit m n \<and> bit m' n)" using assms by (metis bit_and_iff bit_0_eq bot_apply bot_bool_def)
    then show ?thesis by (auto simp: bit_simps dest: bit_imp_le_length)
  qed
  then have "(f AND NOT m) AND m' = f AND m'" by (intro bit_eqI) (simp add: and.assoc)
  then show ?thesis by (simp add: flag_set_def)
qed

lemma measure_ok:
  assumes "meas_ok clock c"
  shows "\<exists>c' ret. calc_input_samplerate clock c h = Some (c', ret) \<and> kept c c' \<and> meas_after c c'"
proof -
  have ok: "cyc_ok c" "ts_ok clock" "ts_ok (input_ts c)" using assms by (simp_all add: meas_ok_def)
  have len: "length (cframes_marr c) = CFMSIZE" "cfind c < CFMSIZE" using ok(1) by (simp_all add: cyc_ok_def)
  have dt: "ts_diff (input_ts c) (time_old c) = Some (nanos (input_ts c) - nanos (time_old c))"
    using ok by (intro ts_diff_ok) (auto simp: cyc_ok_def)
  obtain d where d: "calc_delta_filtered clock ((rx_cycle_delta c)\<lparr>ts_new := input_ts c\<rparr>) 3 (to_fmt f32 (lit f64 (5 / 1000))) = Some d"
      "ts_ok (ts_old d)"
    using delta_filtered_ok [of "(rx_cycle_delta c)\<lparr>ts_new := input_ts c\<rparr>" clock 3] ok by (auto simp: cyc_ok_def)
  let ?marr = "(cframes_marr c)[cfind c := cycle_frames c]"
  have st1: "mem_store (cframes_marr c) (cfind c) [cycle_frames c] = Some ?marr"
    using len by (simp add: mem_store_def blit_def upd_conv_take_nth_drop)
  have cf: "cfmed ?marr = Some (sort ?marr ! 3)" using len by (intro cfmed_sort) simp
  have n: "uint (format_nbs h) < 256" "0 \<le> uint (format_nbs h)" using unsigned_less [of "format_nbs h"] by simp_all
  have ci: "c_int (cycle_pac_cnt c + 1) = Some (cycle_pac_cnt c + 1)"
    "c_int (cycle_frames c + (uint (format_nbs h) + 1)) = Some (cycle_frames c + (uint (format_nbs h) + 1))"
    using assms n by (simp_all add: meas_ok_def c_int_def)
  have fl: "flag_set (flags c AND NOT NET_XRUN) RECEIVING \<longleftrightarrow> flag_set (flags c) RECEIVING"
    "flag_set (flags c AND NOT NET_XRUN) CORRECTION_ON \<longleftrightarrow> flag_set (flags c) CORRECTION_ON"
    "\<not> flag_set NET_XRUN RECEIVING" "\<not> flag_set NET_XRUN CORRECTION_ON"
    by (rule flag_and_not, simp add: flag_defs)+ (simp_all add: flag_set_def flag_defs)
  have cnt: "0 \<le> cycle_pac_cnt c" "0 \<le> cycle_frames c" using assms by (simp_all add: meas_ok_def)
  show ?thesis
    unfolding calc_input_samplerate_def Let_def dt Option.bind.bind_lunit
    using ci ok(1,3) n cnt d(2) fl
    by (simp add: d(1) [simplified] st1 cf kept_def meas_after_def cyc_ok_def CFMSIZE_def)
qed

lemma rx_measure_ok:
  assumes "ringbuffer c = Some rb" and "rb_ok rb" and "0 < framesize"
    and "flag_set (flags c) CORRECTION_ON \<longrightarrow> meas_ok clock c"
  shows "\<exists>c'. rx_measure clock h framesize frames c = Some c' \<and> kept c c' \<and>
    (\<not> flag_set (flags c) CORRECTION_ON \<longrightarrow> flags c' = flags c) \<and> (flag_set (flags c) CORRECTION_ON \<longrightarrow> meas_after c c')"
proof (cases "flag_set (flags c) CORRECTION_ON")
  case True
  then obtain c1 ret where c1: "calc_input_samplerate clock c h = Some (c1, ret)" "kept c c1" "meas_after c c1"
    using measure_ok assms(4) by blast
  have "ringbuffer c1 = Some rb" using c1(2) assms(1) by (simp add: kept_def)
  moreover have "kept c (c1\<lparr>rbfill := x\<rparr>)" for x using c1(2) by (simp add: kept_def)
  moreover have "meas_after c (c1\<lparr>rbfill := x\<rparr>)" for x using c1(3) by (simp add: meas_after_def cyc_ok_def)
  ultimately show ?thesis using True c1 assms(3) by (simp add: rx_measure_def read_space_ok [OF assms(2)])
next
  case False
  then show ?thesis by (simp add: rx_measure_def kept_def)
qed

text \<open>
  What the resampler gives for the frames of a packet: they are converted to floats at their places
  in the input buffer, and one call of \<open>process\<close> takes them. The result is the resampler and the
  block its output is in.
\<close>

definition packet_output :: "vban_packet \<Rightarrow> stream_context \<Rightarrow> (vresampler \<times> byte list) option" where
  "packet_output p c = do {
     let h = header p;
     let n = unat (format_nbs h) + 1;
     let nb = nboutputs c;
     let nbc = min (unat (format_nbc h) + 1) nb;
     size \<leftarrow> bit_size (unat (format_bit h));
     b \<leftarrow> rx_buffers (\<lambda>_. True) c h;
     ib \<leftarrow> resampler_inbuf b;
     ob \<leftarrow> resampler_outbuf b;
     ib \<leftarrow> for_loop 0 n (rx_frame nb nbc ((unat (format_nbc h) + 1) * size) (unat (format_bit h)) (pdata p)) ib;
     r \<leftarrow> resampler c;
     (r, _) \<leftarrow> vr_process (r\<lparr>inp_count := n, inp_data := Some (ib, 0), out_count := outlen c n, out_data := Some (ob, 0)\<rparr>);
     ob \<leftarrow> map_option fst (out_data r);
     Some (r, ob) }"

lemma rx_audio_ok:
  assumes ok: "rx_ok c" and rb: "ringbuffer c = Some rb" and fit: "fits_packet p"
    and meas: "flag_set (flags c) CORRECTION_ON \<longrightarrow> meas_ok clock c"
    and n: "n = unat (format_nbs (header p)) + 1" and nbc: "nbc = min (unat (format_nbc (header p)) + 1) (nboutputs c)"
  shows "\<exists>c' rb' ob r' m. rx_audio (\<lambda>_. True) clock p c = Some c' \<and> ringbuffer c' = Some rb' \<and> rb_ok rb' \<and>
    rb_size rb' = rb_size rb \<and> resampler c' = Some r' \<and> resampler_outbuf c' = Some ob \<and>
    m = min (outlen c n - out_count r') (rb_free rb div (4 * nboutputs c)) \<and>
    rb_abs rb' = rb_abs rb @ concat (map (\<lambda>k. take (4 * nboutputs c) (drop (4 * (k * nbc)) ob)) [0..<m]) \<and>
    (\<forall>k < m. 4 * (k * nbc) + 4 * nboutputs c \<le> length ob) \<and>
    nu_frame c' = nuFrame (header p) \<and> rx_ok c' \<and> iprx c' = iprx c \<and> rx_streamname c' = rx_streamname c \<and>
    nboutputs c' = nboutputs c \<and> rxport c' = rxport c \<and>
    (\<not> flag_set (flags c) CORRECTION_ON \<longrightarrow> flags c' = flags c) \<and>
    packet_output p c = Some (r', ob) \<and> (inp_count r' = 0 \<or> out_count r' = 0) \<and>
    (flag_set (flags c) CORRECTION_ON \<longrightarrow> meas_after c c')"
proof -
  let ?h = "header p" and ?nb = "nboutputs c"
  obtain sz where sz: "bit_size (unat (format_bit ?h)) = Some sz" "0 < sz"
      "n * ((unat (format_nbc ?h) + 1) * sz) \<le> length (pdata p)"
    using fit n by (auto simp: fits_packet_def split: option.splits)
  have rates: "rx_rates c" using ok by (simp add: rx_ok_def)
  have nb: "0 < ?nb" "?nb \<le> 256" using rates by (simp_all add: rx_rates_def)
  have rbok: "rb_ok rb" using ok rb by (auto simp: rx_ok_def)
  have "unat (format_nbs ?h) < 256" using unsigned_less [of "format_nbs ?h"] by simp
  then have n256: "n \<le> 256" using n by simp
  obtain t r where r: "resampler c = Some r" "vr_ok t r" "v_nchan r = ?nb" using ok by (auto simp: rx_ok_def)
  obtain ib ob where b: "rx_buffers (\<lambda>_. True) c ?h = Some (c\<lparr>resampler_inbuflen := int n, resampler_inbuf := Some ib,
        resampler_outbuflen := int (outlen c n), resampler_outbuf := Some ob\<rparr>)"
      "4 * (n * ?nb) \<le> length ib" "4 * (outlen c n * ?nb) \<le> length ob"
    using rx_buffers_ok [OF ok n] by blast
  have nbc': "(if unat (format_nbc ?h) + 1 < ?nb then unat (format_nbc ?h) + 1 else ?nb) = nbc"
    using nbc by (simp add: min_def)
  have nbcs: "nbc \<le> unat (format_nbc ?h) + 1" "nbc \<le> ?nb" using nbc by simp_all
  obtain ib' where ib': "for_loop 0 n (rx_frame ?nb nbc ((unat (format_nbc ?h) + 1) * sz) (unat (format_bit ?h)) (pdata p)) ib = Some ib'"
      "length ib' = length ib"
    using rx_frames_ok [OF sz(1,3) nbcs b(2)] by blast
  have ol: "outlen c n \<le> 2 ^ 20" by (rule outlen_bound [OF rates n256])
  let ?r = "r\<lparr>inp_count := n, inp_data := Some (ib', 0), out_count := outlen c n, out_data := Some (ob, 0)\<rparr>"
  have counts: "to_size (int n) mod 2 ^ 32 = n" "to_size (int (outlen c n)) mod 2 ^ 32 = outlen c n"
    using n256 ol by (simp_all add: to_size_nat)
  have rok: "vr_ok t ?r" using r(2) by (simp add: vr_ok_def vr_wf_def)
  have rooms: "room (inp_data ?r) (v_nchan ?r * inp_count ?r)" "room (out_data ?r) (v_nchan ?r * out_count ?r)"
    using b(2,3) ib'(2) r(3) by (simp_all add: room_def mult.commute)
  obtain r' where r': "vr_process ?r = Some (r', 0)" "vr_ok t r'" "v_nchan r' = v_nchan ?r" "out_count r' \<le> out_count ?r"
      "moved (out_data ?r) (v_nchan ?r * (out_count ?r - out_count r')) (out_data r')" "inp_count r' = 0 \<or> out_count r' = 0"
    using process_ok [OF rok rooms] by blast
  obtain ob' where ob': "out_data r' = Some (ob', v_nchan ?r * (out_count ?r - out_count r'))" "length ob' = length ob"
    using r'(5) by auto
  let ?f = "outlen c n - out_count r'"
  have frames: "nat ((int (outlen c n) - int (out_count r')) mod 2 ^ 32) = ?f"
  proof -
    have "int (outlen c n) - int (out_count r') = int ?f" using r'(4) by (simp add: of_nat_diff)
    moreover have "int ?f mod 2 ^ 32 = int ?f"
    proof (rule mod_pos_pos_trivial)
      have "?f \<le> 2 ^ 20" using ol by linarith
      then show "int ?f < 2 ^ 32" by simp
    qed simp
    ultimately show ?thesis by (simp only: nat_int)
  qed
  have "?f * ?nb \<le> outlen c n * ?nb" by (rule mult_le_mono1) simp
  then have len: "4 * (?f * ?nb) \<le> length ob'" using b(3) ob'(2) by linarith
  obtain rb' where rb': "for_loop 0 ?f (rx_write (Some ob') nbc (4 * ?nb)) rb = Some rb'" "rb_ok rb'" "rb_size rb' = rb_size rb"
      "rb_abs rb' = rb_abs rb @ concat (map (\<lambda>k. take (4 * ?nb) (drop (4 * (k * nbc)) ob')) [0..<min ?f (rb_free rb div (4 * ?nb))])"
    using rx_writes_ok [OF rbok nb(1) nbcs(2) len] by blast
  let ?c = "c\<lparr>resampler_inbuflen := int n, resampler_outbuflen := int (outlen c n), resampler_inbuf := Some ib',
    resampler_outbuf := Some ob', resampler := Some r', ringbuffer := Some rb'\<rparr>"
  obtain c2 where c2: "rx_measure clock ?h ((unat (format_nbc ?h) + 1) * sz) ?f ?c = Some c2" "kept ?c c2"
      "\<not> flag_set (flags c) CORRECTION_ON \<longrightarrow> flags c2 = flags c" "flag_set (flags c) CORRECTION_ON \<longrightarrow> meas_after ?c c2"
    using rx_measure_ok [of ?c rb' "(unat (format_nbc ?h) + 1) * sz" clock ?h ?f] rb'(2) sz(2) meas
    by (auto simp: meas_ok_def cyc_ok_def)
  have run: "rx_audio (\<lambda>_. True) clock p c = Some (c2\<lparr>nu_frame := nuFrame ?h\<rparr>)"
    unfolding rx_audio_def Let_def nbc' sz(1) b(1) n [symmetric] Option.bind.bind_lunit
    using ib'(1) r(1) r'(1) ob'(1) rb rb'(1) c2(1)
    by (simp add: counts [simplified] frames [simplified])
  have "rx_ok (c2\<lparr>nu_frame := nuFrame ?h\<rparr>)"
  proof -
    have "outlen c2 k = outlen c k" for k using c2(2) by (simp add: outlen_def kept_def)
    then have "rx_bufs (c2\<lparr>nu_frame := nuFrame ?h\<rparr>) n"
      using c2(2) b(2,3) ib'(2) ob'(2) by (simp add: rx_bufs_def kept_def outlen_def)
    then show ?thesis
      using c2(2) rates rb'(2) r'(2,3) r(3) n256 by (auto simp: rx_ok_def kept_def rx_rates_def)
  qed
  moreover have "4 * (k * nbc) + 4 * ?nb \<le> length ob'" if "k < min ?f (rb_free rb div (4 * ?nb))" for k
  proof -
    have "k * nbc + ?nb \<le> k * ?nb + ?nb" using nbcs(2) by (intro add_mono mult_le_mono2) auto
    also have "\<dots> = (k + 1) * ?nb" by simp
    also have "\<dots> \<le> ?f * ?nb" using that by (intro mult_le_mono1) simp
    finally show ?thesis using len by linarith
  qed
  moreover have "packet_output p c = Some (r', ob')"
    unfolding packet_output_def Let_def sz(1) b(1) n [symmetric] nbc [symmetric] Option.bind.bind_lunit
    using ib'(1) r(1) r'(1) ob'(1) by simp
  moreover have "meas_after c (c2\<lparr>nu_frame := nuFrame ?h\<rparr>)" if "flag_set (flags c) CORRECTION_ON"
    using c2(4) that by (simp add: meas_after_def cyc_ok_def)
  ultimately show ?thesis using run rb'(2-4) c2(2,3) r'(6)
    by (intro exI [of _ "c2\<lparr>nu_frame := nuFrame ?h\<rparr>"] exI [of _ rb'] exI [of _ ob'] exI [of _ r']
        exI [of _ "min ?f (rb_free rb div (4 * ?nb))"]) (simp add: kept_def)
qed


section \<open>The selection of the stream\<close>

text \<open>A stream is locked when its sender's address and its name are known.\<close>

definition locked :: "stream_context \<Rightarrow> bool" where
  "locked c \<longleftrightarrow> iprx c \<noteq> 0 \<and> length (rx_streamname c) = VBAN_STREAM_NAME_SIZE \<and> rx_streamname c ! 0 \<noteq> 0"

lemma select_locked:
  assumes "locked c" and "packet_ok p"
  shows "select_stream c p ip = Some (c, iprx c = ip \<and> rx_streamname c = streamname (header p))"
  using assms by (simp add: locked_def select_stream_def mem_eq_def mem_load_def packet_ok_def header_ok_def rd_def vban_sizes Let_def)

lemma header_of_blit:
  assumes "VBAN_HEADER_SIZE \<le> length bs" and "length bs \<le> length b"
  shows "header_of_bytes (blit b 0 bs) = header_of_bytes bs"
proof -
  have len: "28 \<le> length bs" using assms(1) by (simp add: vban_sizes)
  then have n: "(bs @ xs) ! i = bs ! i" if "i < 28" for i and xs :: "byte list"
    using that by (simp add: nth_append)
  have d: "drop 24 (bs @ xs) ! i = drop 24 bs ! i" if "i < 4" for i and xs :: "byte list"
    using that len by (simp add: nth_append, linarith)
  have t: "take 16 (drop 8 (bs @ xs)) = take 16 (drop 8 bs)" for xs using len by simp
  have q: "of_le32 (drop 24 (bs @ xs)) = of_le32 (drop 24 bs)" for xs
    unfolding of_le32_def by (simp only: d numeral_less_iff less_numeral_extra semiring_norm one_less_numeral_iff zero_less_numeral)
  have v: "of_le32 (bs @ xs) = of_le32 bs" for xs
    unfolding of_le32_def by (simp only: n numeral_less_iff less_numeral_extra semiring_norm one_less_numeral_iff zero_less_numeral)
  show ?thesis unfolding header_of_bytes_def blit_0 t q v using n by simp
qed

lemma stored_packet:
  assumes "packet_ok p" and "VBAN_HEADER_SIZE \<le> length bs" and "length bs \<le> VBAN_PROTOCOL_MAX_SIZE"
  shows "header (packet_store p bs) = header_of_bytes bs" and "packet_ok (packet_store p bs)"
proof -
  have "length bs \<le> length (packet_bytes p)" using assms(3) length_packet_bytes [OF assms(1)] by simp
  then show "header (packet_store p bs) = header_of_bytes bs"
    using header_of_blit [OF assms(2)] by (simp add: packet_store_def packet_of_bytes_def)
  show "packet_ok (packet_store p bs)" by (rule packet_store_ok [OF assms(1,3)])
qed

text \<open>A strncmp over the whole name field agrees with the memcmp for equal names.\<close>

lemma strn_eq_refl: "n \<le> length a \<Longrightarrow> strn_eq n a a = Some True"
proof (induction n arbitrary: a)
  case (Suc n)
  then show ?case by (cases a) auto
qed simp


section \<open>Properties\<close>

definition example_rx :: stream_context where
  "example_rx = zero_context\<lparr>nboutputs := 1, samplerate := 48000, samplerate_resampler := 48000, iprx := 7, rxport := 6980,
     flags := RECEIVING, rx_streamname := [0x53] @ replicate 15 0, resampler := Some example_resampler,
     ringbuffer := Some \<lparr>rb_buf = replicate 32 0, write_ptr = 0, read_ptr = 0, rb_size = 32, mlocked = 0\<rparr>\<rparr>"

lemma example_rx_ok: "rx_ok example_rx" "locked example_rx"
  using example_resampler_ok
  by (auto simp: rx_ok_def rx_rates_def example_rx_def zero_context_def rb_ok_def locked_def vban_sizes example_resampler_def
      intro!: exI [of _ example_table])

definition example_audio :: vban_packet where
  "example_audio = \<lparr>header = zero_header\<lparr>vban := VBAN_HEADER_FOURC, format_SR := 3, format_nbs := 3, format_bit := 1,
     streamname := [0x53] @ replicate 15 0, nuFrame := 5\<rparr>, pdata = replicate VBAN_DATA_MAX_SIZE 0\<rparr>"

lemma example_audio_facts:
  "packet_ok example_audio" "is_protocol VBAN_PROTOCOL_AUDIO (format_SR (header example_audio))" "fits_packet example_audio"
  by (simp_all add: example_audio_def packet_ok_def header_ok_def zero_header_def vban_sizes is_protocol_def
      VBAN_PROTOCOL_MASK_def fits_packet_def)

text \<open>
  C14: An audio packet of the stream is appended as whole frames, once. A packet that the stream
  accepts and whose announced frames are inside its data is handled without an access outside the
  packet, the buffers and the ring. Its frames, converted to floats, go through the resampler
  (\<open>packet_output\<close>), which stops only when all are taken or its room is used up; of the frames that
  come out exactly as many are appended to the ring as fit, from the first one on, each of all the
  receiver's channels, so that a ring aligned to frames stays aligned (the source advances by the
  channels the packet has, as the code does). The receiver's state stays good, and a further copy of
  the packet is not accepted any more.
\<close>

theorem packet_appends_frames:
  assumes "is_protocol VBAN_PROTOCOL_AUDIO (format_SR (header p))" and "rx_ok c" and "ringbuffer c = Some rb"
    and "rx_accepts p c ip = Some True" and "fits_packet p" and "flag_set (flags c) CORRECTION_ON \<longrightarrow> meas_ok clock c"
    and "n = unat (format_nbs (header p)) + 1" and "nbc = min (unat (format_nbc (header p)) + 1) (nboutputs c)"
  shows "\<exists>c' rb' r' ob m. vban_rx_handle_packet (\<lambda>_. True) clock p len c ip port = Some (c', p, [], 0) \<and> rx_ok c' \<and>
    packet_output p c = Some (r', ob) \<and> resampler c' = Some r' \<and> (inp_count r' = 0 \<or> out_count r' = 0) \<and>
    m = min (outlen c n - out_count r') (rb_free rb div (4 * nboutputs c)) \<and>
    ringbuffer c' = Some rb' \<and> rb_ok rb' \<and> rb_size rb' = rb_size rb \<and>
    rb_abs rb' = rb_abs rb @ concat (map (\<lambda>k. take (4 * nboutputs c) (drop (4 * (k * nbc)) ob)) [0..<m]) \<and>
    rb_fill rb' = rb_fill rb + 4 * nboutputs c * m \<and>
    nu_frame c' = nuFrame (header p) \<and> rx_accepts p c' ip = Some False"
proof -
  let ?nb = "nboutputs c"
  obtain c' rb' ob r' m where X: "rx_audio (\<lambda>_. True) clock p c = Some c'" "ringbuffer c' = Some rb'" "rb_ok rb'"
    "rb_size rb' = rb_size rb" "resampler c' = Some r'" "m = min (outlen c n - out_count r') (rb_free rb div (4 * ?nb))"
    "rb_abs rb' = rb_abs rb @ concat (map (\<lambda>k. take (4 * ?nb) (drop (4 * (k * nbc)) ob)) [0..<m])"
    "\<forall>k < m. 4 * (k * nbc) + 4 * ?nb \<le> length ob" "nu_frame c' = nuFrame (header p)" "rx_ok c'"
    "rx_streamname c' = rx_streamname c" "packet_output p c = Some (r', ob)" "inp_count r' = 0 \<or> out_count r' = 0"
    using rx_audio_ok [OF assms(2,3,5-8)] by (elim exE conjE) (rule that)
  have "length (concat (map (\<lambda>k. take (4 * ?nb) (drop (4 * (k * nbc)) ob)) [0..<m])) = m * (4 * ?nb)"
    using X(8) by (intro length_concat_blocks) (auto simp: min_def)
  then have "rb_fill rb' = rb_fill rb + 4 * ?nb * m"
    using arg_cong [OF X(7), of length] by (simp add: mult.commute)
  moreover have "rx_accepts p c' ip = Some False"
    using assms(4) unfolding rx_accepts_def X(9,11)
    by (cases "strn_eq VBAN_STREAM_NAME_SIZE (streamname (header p)) (rx_streamname c)") simp_all
  moreover have "vban_rx_handle_packet (\<lambda>_. True) clock p len c ip port = Some (c', p, [], 0)"
    using X(1) assms(1,3,4) by (simp add: vban_rx_handle_packet_def Let_def)
  ultimately show ?thesis using X(2-7,9,10,12,13) by blast
qed

theorem packet_appends_frames_witness:
  "let rb = \<lparr>rb_buf = replicate 32 0, write_ptr = 0, read_ptr = 0, rb_size = 32, mlocked = 0\<rparr> in
   \<exists>c' rb' r' ob m. vban_rx_handle_packet (\<lambda>_. True) (0, 0) example_audio 40 example_rx 7 6980 = Some (c', example_audio, [], 0) \<and>
    rx_ok c' \<and> packet_output example_audio example_rx = Some (r', ob) \<and> resampler c' = Some r' \<and>
    (inp_count r' = 0 \<or> out_count r' = 0) \<and>
    m = min (outlen example_rx 4 - out_count r') (rb_free rb div (4 * nboutputs example_rx)) \<and>
    ringbuffer c' = Some rb' \<and> rb_ok rb' \<and> rb_size rb' = rb_size rb \<and>
    rb_abs rb' = rb_abs rb @ concat (map (\<lambda>k. take (4 * nboutputs example_rx) (drop (4 * (k * 1)) ob)) [0..<m]) \<and>
    rb_fill rb' = rb_fill rb + 4 * nboutputs example_rx * m \<and>
    nu_frame c' = nuFrame (header example_audio) \<and> rx_accepts example_audio c' 7 = Some False"
  unfolding Let_def
  by (rule packet_appends_frames [OF example_audio_facts(2) example_rx_ok(1) _ _ example_audio_facts(3)])
    (simp_all add: example_rx_def example_audio_def rx_accepts_def strn_eq_refl vban_sizes zero_context_def zero_header_def
      flag_set_def RECEIVING_def CORRECTION_ON_def)

text \<open>A datagram of the length of a header at least and a packet at most, with its sender known.\<close>

definition datagram_ok :: "timespec msg_answer \<Rightarrow> bool" where
  "datagram_ok m \<longleftrightarrow> VBAN_HEADER_SIZE \<le> length (m_bytes m) \<and> length (m_bytes m) \<le> VBAN_PROTOCOL_MAX_SIZE \<and>
     \<not> m_ctrunc m \<and> m_inet m"

text \<open>What a received datagram always leaves in the context: its sender, its time and the port to answer to.\<close>

definition after_recv :: "timespec msg_answer \<Rightarrow> stream_context \<Rightarrow> stream_context" where
  "after_recv m c = c\<lparr>rxsock := (rxsock c)\<lparr>sin_family := AF_INET, sin_addr := m_ip m, sin_port := m_port m\<rparr>,
     input_ts := (case m_stamp m of None \<Rightarrow> input_ts c | Some t \<Rightarrow> t), ansport := htons (m_port m)\<rparr>"

lemma rx_datagram_locked:
  assumes "locked c" and "packet_ok q" and "datagram_ok m" and "h = header_of_bytes (m_bytes m)"
    and "is_protocol VBAN_PROTOCOL_AUDIO (format_SR h) \<or> is_protocol VBAN_PROTOCOL_SERIAL (format_SR h)"
  shows "rx_datagram (Inr m) \<lparr>rt_stream = c, rt_packet = q, rt_ip = ip\<rparr> =
    Some (\<lparr>rt_stream = after_recv m c, rt_packet = packet_store q (m_bytes m), rt_ip = m_ip m\<rparr>, int (length (m_bytes m)),
      iprx c = m_ip m \<and> rx_streamname c = streamname h)"
proof -
  note st = stored_packet [OF assms(2), of "m_bytes m"]
  have hd: "header (packet_store q (m_bytes m)) = h" "packet_ok (packet_store q (m_bytes m))"
    using assms(3,4) st by (simp_all add: datagram_ok_def)
  have sel: "select_stream (c\<lparr>rxsock := s, input_ts := t, ansport := a\<rparr>) (packet_store q (m_bytes m)) (m_ip m) =
      Some (c\<lparr>rxsock := s, input_ts := t, ansport := a\<rparr>, iprx c = m_ip m \<and> rx_streamname c = streamname h)" for s t a
    using select_locked [of "c\<lparr>rxsock := s, input_ts := t, ansport := a\<rparr>", OF _ hd(2)] assms(1) hd(1) by (simp add: locked_def)
  show ?thesis
    using assms(3,5) hd(1) sel by (simp add: rx_datagram_def udp_recv_m_def datagram_ok_def after_recv_def Let_def)
qed

text \<open>
  C15: A locked stream is not disturbed by others. An audio or MIDI datagram that comes from another
  address or carries another name, and an audio datagram of the stream that carries the number of
  the last packet, leave the stream as it is, except for the address, the port and the time of the
  last datagram, and nothing is sent. A foreign datagram never reaches \<open>vban_rx_handle_packet\<close>; a
  repeated one does, which refuses it (\<open>rx_accepts\<close>), and the packet is cleared.
\<close>

theorem foreign_packet_ignored:
  assumes "locked c" and "rxport c \<noteq> 0" and "packet_ok q" and "datagram_ok m" and "h = header_of_bytes (m_bytes m)"
    and "is_protocol VBAN_PROTOCOL_AUDIO (format_SR h) \<or> is_protocol VBAN_PROTOCOL_SERIAL (format_SR h)"
    and "foreign \<longleftrightarrow> iprx c \<noteq> m_ip m \<or> rx_streamname c \<noteq> streamname h"
    and "foreign \<or> is_protocol VBAN_PROTOCOL_AUDIO (format_SR h) \<and> ringbuffer c \<noteq> None \<and> nuFrame h = nu_frame c"
  shows "rx_round calloc clock (Datagram ts (Inr m)) \<lparr>rt_stream = c, rt_packet = q, rt_ip = ip\<rparr> =
      Some (\<lparr>rt_stream = after_recv m c, rt_packet = (if foreign then packet_store q (m_bytes m) else zero_packet),
        rt_ip = m_ip m\<rparr>, []) \<and>
    (\<not> foreign \<longrightarrow> rx_accepts (packet_store q (m_bytes m)) (after_recv m c) (m_ip m) = Some False \<and>
      vban_rx_handle_packet calloc clock (packet_store q (m_bytes m)) (int (length (m_bytes m))) (after_recv m c) (m_ip m) port =
        Some (after_recv m c, packet_store q (m_bytes m), [], 0))"
proof -
  note dg = rx_datagram_locked [OF assms(1,3-6)]
  let ?p = "packet_store q (m_bytes m)" and ?c = "after_recv m c"
  show ?thesis
  proof (cases foreign)
    case True
    then show ?thesis using dg assms(2,7) by (auto simp: rx_round_def)
  next
    case False
    then have own: "iprx c = m_ip m" "rx_streamname c = streamname h" and au: "is_protocol VBAN_PROTOCOL_AUDIO (format_SR h)"
      and rep: "ringbuffer c \<noteq> None" "nuFrame h = nu_frame c" using assms(7,8) by auto
    have hd: "header ?p = h" using stored_packet(1) [OF assms(3), of "m_bytes m"] assms(4,5) by (simp add: datagram_ok_def)
    have "rx_accepts ?p ?c (m_ip m) = Some False"
      using assms(1) own rep(2) by (simp add: rx_accepts_def after_recv_def hd locked_def strn_eq_refl)
    moreover from this have "vban_rx_handle_packet calloc clock ?p l ?c (m_ip m) prt = Some (?c, ?p, [], 0)" for l prt
      using rep(1) au hd by (auto simp: vban_rx_handle_packet_def after_recv_def)
    ultimately show ?thesis using dg own False assms(2) by (simp add: rx_round_def)
  qed
qed

definition example_datagram :: "timespec msg_answer" where
  "example_datagram = \<lparr>m_bytes = header_bytes (header example_audio) @ replicate 8 0, m_ip = 9, m_port = 6980, m_inet = True,
     m_ctrunc = False, m_stamp = None\<rparr>"

lemma example_datagram_facts:
  "datagram_ok example_datagram" "header_of_bytes (m_bytes example_datagram) = header example_audio"
proof -
  have ok: "header_ok (header example_audio)" using example_audio_facts(1) by (simp add: packet_ok_def)
  show "datagram_ok example_datagram"
    using length_header_bytes [OF ok] by (simp add: datagram_ok_def example_datagram_def vban_sizes)
  show "header_of_bytes (m_bytes example_datagram) = header example_audio"
    using header_of_bytes_header_bytes [OF ok] by (simp add: example_datagram_def)
qed

theorem foreign_packet_ignored_witness:
  "rx_round (\<lambda>_. True) (0, 0) (Datagram (0, 0) (Inr example_datagram))
      \<lparr>rt_stream = example_rx, rt_packet = zero_packet, rt_ip = 0\<rparr> =
    Some (\<lparr>rt_stream = after_recv example_datagram example_rx,
      rt_packet = packet_store zero_packet (m_bytes example_datagram), rt_ip = 9\<rparr>, []) \<and>
   rx_round (\<lambda>_. True) (0, 0) (Datagram (0, 0) (Inr (example_datagram\<lparr>m_ip := 7\<rparr>)))
      \<lparr>rt_stream = example_rx\<lparr>nu_frame := 5\<rparr>, rt_packet = zero_packet, rt_ip = 0\<rparr> =
    Some (\<lparr>rt_stream = after_recv (example_datagram\<lparr>m_ip := 7\<rparr>) (example_rx\<lparr>nu_frame := 5\<rparr>),
      rt_packet = zero_packet, rt_ip = 7\<rparr>, [])"
proof -
  let ?m = "example_datagram\<lparr>m_ip := 7\<rparr>" and ?c = "example_rx\<lparr>nu_frame := 5\<rparr>"
  have h: "header example_audio = header_of_bytes (m_bytes example_datagram)" "header example_audio = header_of_bytes (m_bytes ?m)"
    using example_datagram_facts(2) by simp_all
  have m: "datagram_ok ?m" using example_datagram_facts(1) by (simp add: datagram_ok_def)
  have l: "locked ?c" using example_rx_ok(2) by (simp add: locked_def)
  have a: "is_protocol VBAN_PROTOCOL_AUDIO (format_SR (header example_audio)) \<or>
      is_protocol VBAN_PROTOCOL_SERIAL (format_SR (header example_audio))" using example_audio_facts(2) by simp
  have port: "rxport example_rx \<noteq> 0" "rxport ?c \<noteq> 0" by (simp_all add: example_rx_def)
  have one: "True \<longleftrightarrow> iprx example_rx \<noteq> m_ip example_datagram \<or> rx_streamname example_rx \<noteq> streamname (header example_audio)"
    by (simp add: example_rx_def example_datagram_def)
  have two: "False \<longleftrightarrow> iprx ?c \<noteq> m_ip ?m \<or> rx_streamname ?c \<noteq> streamname (header example_audio)"
    by (simp add: example_rx_def example_datagram_def example_audio_def)
  have rep: "False \<or> is_protocol VBAN_PROTOCOL_AUDIO (format_SR (header example_audio)) \<and> ringbuffer ?c \<noteq> None \<and>
      nuFrame (header example_audio) = nu_frame ?c"
    using example_audio_facts(2) by (simp add: example_rx_def example_audio_def)
  have "m_ip example_datagram = 9" "m_ip ?m = 7" by (simp_all add: example_datagram_def)
  then show ?thesis
    using foreign_packet_ignored [where calloc = "\<lambda>_. True" and clock = "(0, 0)" and ts = "(0, 0)" and ip = 0, OF example_rx_ok(2) port(1) zero_packet_ok example_datagram_facts(1) h(1) a one]
      foreign_packet_ignored [where calloc = "\<lambda>_. True" and clock = "(0, 0)" and ts = "(0, 0)" and ip = 0, OF l port(2) zero_packet_ok m h(2) a two rep] by simp
qed

text \<open>
  What can arrive at a stream locked to an address and a name: a time-out, a failed receive, and any
  datagram of a header's length at least and its sender known. Text is left out (it is answered);
  of the stream's own sender and name, MIDI is left out and the announced frames of audio must be
  inside its data. Other senders and names are not restricted.
\<close>

definition session_input :: "u32 \<Rightarrow> byte list \<Rightarrow> rx_input option \<Rightarrow> bool" where
  "session_input ip nm i \<longleftrightarrow> (case i of
      None \<Rightarrow> True
    | Some (Datagram ts (Inl e)) \<Rightarrow> True
    | Some (Datagram ts (Inr m)) \<Rightarrow> (let h = header_of_bytes (m_bytes m) in
        datagram_ok m \<and> (case m_stamp m of None \<Rightarrow> True | Some t \<Rightarrow> ts_ok t) \<and> \<not> is_protocol VBAN_PROTOCOL_TXT (format_SR h) \<and>
        (ip = m_ip m \<and> nm = streamname h \<longrightarrow> \<not> is_protocol VBAN_PROTOCOL_SERIAL (format_SR h) \<and>
           (is_protocol VBAN_PROTOCOL_AUDIO (format_SR h) \<longrightarrow> fits_packet (packet_store zero_packet (m_bytes m)))))
    | _ \<Rightarrow> False)"

lemma fits_packet_cong: "header p = header q \<Longrightarrow> length (pdata p) = length (pdata q) \<Longrightarrow> fits_packet p = fits_packet q"
  by (simp add: fits_packet_def cong: option.case_cong)

text \<open>
  A good stream that receives on a socket. With the rate correction on, the counters of the cycle
  have room for \<open>k\<close> more packets (the player's thread, which resets them, is not part of the run).
\<close>

definition session_ok :: "nat \<Rightarrow> stream_context \<Rightarrow> bool" where
  "session_ok k c \<longleftrightarrow> rx_ok c \<and> locked c \<and> rxport c \<noteq> 0 \<and> flag_set (flags c) RECEIVING \<and>
     (flag_set (flags c) CORRECTION_ON \<longrightarrow> cyc_ok c \<and> ts_ok (input_ts c) \<and> 0 \<le> cycle_pac_cnt c \<and> cycle_pac_cnt c + int k < 2 ^ 30 \<and>
        0 \<le> cycle_frames c \<and> cycle_frames c + 256 * int k < 2 ^ 30)"

text \<open>The packet in the thread's hands is one that a failed receive may offer again: not the stream's own.\<close>

definition stale_ok :: "rx_thread \<Rightarrow> bool" where
  "stale_ok t \<longleftrightarrow> (let c = rt_stream t; h = header (rt_packet t) in packet_ok (rt_packet t) \<and>
     (is_protocol VBAN_PROTOCOL_AUDIO (format_SR h) \<or> is_protocol VBAN_PROTOCOL_SERIAL (format_SR h)) \<and>
     \<not> (iprx c = sin_addr (rxsock c) \<and> rx_streamname c = streamname h))"

definition extends :: "stream_context \<Rightarrow> stream_context \<Rightarrow> bool" where
  "extends c c' \<longleftrightarrow> (\<exists>rb rb' xs. ringbuffer c = Some rb \<and> ringbuffer c' = Some rb' \<and> rb_ok rb' \<and> rb_size rb' = rb_size rb \<and>
     rb_abs rb' = rb_abs rb @ xs \<and> 4 * nboutputs c dvd length xs) \<and>
     nboutputs c' = nboutputs c \<and> iprx c' = iprx c \<and> rx_streamname c' = rx_streamname c"

lemma extends_refl: "rx_ok c \<Longrightarrow> extends c c"
  by (auto simp: extends_def rx_ok_def)

lemma extends_trans: "extends c d \<Longrightarrow> extends d e \<Longrightarrow> extends c e"
  by (auto simp: extends_def)

lemma session_ok_mono: "session_ok k c \<Longrightarrow> j \<le> k \<Longrightarrow> session_ok j c"
  by (auto simp: session_ok_def)

lemma stale_zero:
  assumes "locked (rt_stream t)" and "rt_packet t = zero_packet"
  shows "stale_ok t"
proof -
  have "streamname (header zero_packet) ! 0 = 0" "is_protocol VBAN_PROTOCOL_AUDIO (format_SR (header zero_packet))"
    by (simp_all add: zero_packet_def zero_header_def vban_sizes is_protocol_def VBAN_PROTOCOL_MASK_def)
  then show ?thesis using assms zero_packet_ok by (auto simp: stale_ok_def locked_def Let_def)
qed

lemma after_recv_ok:
  assumes "session_ok k c" and "case m_stamp m of None \<Rightarrow> True | Some t \<Rightarrow> ts_ok t"
  shows "session_ok k (after_recv m c)" and "extends c (after_recv m c)"
  using assms by (auto simp: session_ok_def after_recv_def rx_ok_def rx_rates_def rx_bufs_def outlen_def locked_def cyc_ok_def
      extends_def split: option.splits)

lemma session_audio:
  assumes "session_ok (Suc k) d" and "ts_ok clock" and "fits_packet p"
  shows "\<exists>e. rx_audio (\<lambda>_. True) clock p d = Some e \<and> session_ok k e \<and> extends d e"
proof -
  let ?nbc = "min (unat (format_nbc (header p)) + 1) (nboutputs d)" and ?nb = "nboutputs d"
  have ok: "rx_ok d" using assms(1) by (simp add: session_ok_def)
  have corr: "flag_set (flags d) CORRECTION_ON \<longrightarrow> meas_ok clock d" using assms(1,2) by (auto simp: session_ok_def meas_ok_def)
  obtain rb where rb: "ringbuffer d = Some rb" using ok(1) by (auto simp: rx_ok_def)
  obtain e rb' ob n where e: "rx_audio (\<lambda>_. True) clock p d = Some e" "ringbuffer e = Some rb'" "rb_ok rb'" "rb_size rb' = rb_size rb"
      "rb_abs rb' = rb_abs rb @ concat (map (\<lambda>k. take (4 * ?nb) (drop (4 * (k * ?nbc)) ob)) [0..<n])"
      "\<forall>j < n. 4 * (j * ?nbc) + 4 * ?nb \<le> length ob" "rx_ok e" "iprx e = iprx d" "rx_streamname e = rx_streamname d"
      "nboutputs e = ?nb" "rxport e = rxport d" "\<not> flag_set (flags d) CORRECTION_ON \<longrightarrow> flags e = flags d"
      "flag_set (flags d) CORRECTION_ON \<longrightarrow> meas_after d e"
    using rx_audio_ok [OF ok rb assms(3) corr refl refl] by (elim exE conjE) (rule that)
  have "length (concat (map (\<lambda>k. take (4 * ?nb) (drop (4 * (k * ?nbc)) ob)) [0..<n])) = n * (4 * ?nb)"
    using e(6) by (intro length_concat_blocks) (auto simp: min_def)
  then have "extends d e" using e rb unfolding extends_def by (metis dvd_triv_right)
  moreover have "session_ok k e"
  proof (cases "flag_set (flags d) CORRECTION_ON")
    case True
    then show ?thesis using e(7-13) assms(1) by (simp add: session_ok_def locked_def meas_after_def)
  next
    case False
    then show ?thesis using e(7-13) assms(1) by (simp add: session_ok_def locked_def)
  qed
  ultimately show ?thesis using e(1) by blast
qed

text \<open>A failed receive offers the packet of the last one again, which is not the stream's own.\<close>

lemma stale_round:
  assumes "session_ok k (rt_stream t)" and "stale_ok t"
  shows "rx_round calloc clock (Datagram ts (Inl e)) t = Some (t\<lparr>rt_stream := (rt_stream t)\<lparr>ansport := htons (sin_port (rxsock (rt_stream t)))\<rparr>,
    rt_ip := sin_addr (rxsock (rt_stream t))\<rparr>, [])"
proof -
  let ?c = "(rt_stream t)\<lparr>ansport := htons (sin_port (rxsock (rt_stream t)))\<rparr>"
  have "locked ?c" "packet_ok (rt_packet t)" "rxport (rt_stream t) \<noteq> 0"
    using assms by (simp_all add: session_ok_def locked_def stale_ok_def Let_def)
  moreover have "(rt_stream t)\<lparr>rxsock := rxsock (rt_stream t), input_ts := input_ts (rt_stream t),
      ansport := htons (sin_port (rxsock (rt_stream t)))\<rparr> = ?c" by simp
  ultimately show ?thesis
    using assms(2) select_locked [of ?c "rt_packet t" "sin_addr (rxsock (rt_stream t))"]
    by (auto simp: rx_round_def rx_datagram_def udp_recv_m_def stale_ok_def Let_def)
qed

lemma session_datagram:
  assumes ok: "session_ok (Suc k) c" and q: "packet_ok q" and clock: "ts_ok clock"
    and i: "session_input (iprx c) (rx_streamname c) (Some (Datagram ts (Inr m)))"
  shows "\<exists>t'. rx_round (\<lambda>_. True) clock (Datagram ts (Inr m)) \<lparr>rt_stream = c, rt_packet = q, rt_ip = ip\<rparr> = Some (t', []) \<and>
    session_ok k (rt_stream t') \<and> stale_ok t' \<and> extends c (rt_stream t')"
proof -
  let ?h = "header_of_bytes (m_bytes m)" and ?p = "packet_store q (m_bytes m)" and ?d = "after_recv m c"
  let ?own = "iprx c = m_ip m \<and> rx_streamname c = streamname ?h"
  let ?audio = "is_protocol VBAN_PROTOCOL_AUDIO (format_SR ?h)" and ?midi = "is_protocol VBAN_PROTOCOL_SERIAL (format_SR ?h)"
  have m: "datagram_ok m" "case m_stamp m of None \<Rightarrow> True | Some t \<Rightarrow> ts_ok t" "\<not> is_protocol VBAN_PROTOCOL_TXT (format_SR ?h)"
      "?own \<Longrightarrow> \<not> ?midi" "?own \<Longrightarrow> ?audio \<Longrightarrow> fits_packet (packet_store zero_packet (m_bytes m))"
    using i by (auto simp: session_input_def Let_def)
  have p: "header ?p = ?h" "packet_ok ?p" "fits_packet ?p = fits_packet (packet_store zero_packet (m_bytes m))"
    using stored_packet [OF q, of "m_bytes m"] stored_packet [OF zero_packet_ok, of "m_bytes m"] m(1)
      fits_packet_cong [of ?p "packet_store zero_packet (m_bytes m)"] by (simp_all add: datagram_ok_def packet_ok_def)
  have c: "locked c" "rxport c \<noteq> 0" "rx_ok c" using ok by (simp_all add: session_ok_def)
  note d = after_recv_ok [OF ok m(2)]
  have d': "session_ok k ?d" using d(1) by (rule session_ok_mono) simp
  have lock: "iprx ?d = iprx c" "rx_streamname ?d = rx_streamname c" "sin_addr (rxsock ?d) = m_ip m" by (simp_all add: after_recv_def)
  have settled: ?thesis if run: "rx_round (\<lambda>_. True) clock (Datagram ts (Inr m)) \<lparr>rt_stream = c, rt_packet = q, rt_ip = ip\<rparr> =
      Some (\<lparr>rt_stream = e, rt_packet = zero_packet, rt_ip = m_ip m\<rparr>, [])" and e: "session_ok k e" "extends ?d e" for e
  proof -
    have "stale_ok \<lparr>rt_stream = e, rt_packet = zero_packet, rt_ip = m_ip m\<rparr>"
      using e(1) by (intro stale_zero) (simp_all add: session_ok_def)
    then show ?thesis using run e(1) extends_trans [OF d(2) e(2)] by simp
  qed
  show ?thesis
  proof (cases "?audio \<or> ?midi")
    case False
    have "vban_rx_handle_packet (\<lambda>_. True) clock ?p l ?d a b = Some (?d, ?p, [], 0)" for l a b
      using False m(3) p(1) by (simp add: vban_rx_handle_packet_def Let_def)
    then have "rx_round (\<lambda>_. True) clock (Datagram ts (Inr m)) \<lparr>rt_stream = c, rt_packet = q, rt_ip = ip\<rparr> =
        Some (\<lparr>rt_stream = ?d, rt_packet = zero_packet, rt_ip = m_ip m\<rparr>, [])"
      using m(1) c(2) False p(1)
      by (simp add: rx_round_def rx_datagram_def udp_recv_m_def datagram_ok_def after_recv_def Let_def)
    then show ?thesis using d' extends_refl [of ?d] by (intro settled [of ?d]) (simp_all add: session_ok_def)
  next
    case True
    note r = rx_datagram_locked [OF c(1) q m(1) refl True, of ip]
    show ?thesis
    proof (cases ?own)
      case False
      have "rx_round (\<lambda>_. True) clock (Datagram ts (Inr m)) \<lparr>rt_stream = c, rt_packet = q, rt_ip = ip\<rparr> =
          Some (\<lparr>rt_stream = ?d, rt_packet = ?p, rt_ip = m_ip m\<rparr>, [])"
        using r False c(2) by (auto simp: rx_round_def)
      then show ?thesis using d' d(2) True False p lock by (simp add: stale_ok_def Let_def)
    next
      case own: True
      obtain rb where rb: "ringbuffer ?d = Some rb" using c(3) by (auto simp: rx_ok_def after_recv_def)
      have audio: ?audio using True m(4) own by simp
      have mine: "rx_accepts ?p ?d (m_ip m) = Some (nuFrame ?h \<noteq> nu_frame ?d)"
        using own c(1) lock by (simp add: rx_accepts_def p(1) locked_def strn_eq_refl)
      have "\<exists>e. vban_rx_handle_packet (\<lambda>_. True) clock ?p (int (length (m_bytes m))) ?d (m_ip m) (ansport ?d) = Some (e, ?p, [], 0) \<and>
          session_ok k e \<and> extends ?d e"
      proof (cases "nuFrame ?h = nu_frame ?d")
        case True
        then show ?thesis using mine rb audio d' extends_refl [of ?d] p(1)
          by (simp add: vban_rx_handle_packet_def session_ok_def Let_def)
      next
        case False
        have "fits_packet ?p" using p(3) m(5) own audio by simp
        then obtain e where "rx_audio (\<lambda>_. True) clock ?p ?d = Some e" "session_ok k e" "extends ?d e"
          using session_audio [OF d(1) clock] by blast
        then show ?thesis using mine False rb audio p(1) by (simp add: vban_rx_handle_packet_def Let_def)
      qed
      then obtain e where e: "vban_rx_handle_packet (\<lambda>_. True) clock ?p (int (length (m_bytes m))) ?d (m_ip m) (ansport ?d) = Some (e, ?p, [], 0)"
        "session_ok k e" "extends ?d e" by blast
      have "rx_round (\<lambda>_. True) clock (Datagram ts (Inr m)) \<lparr>rt_stream = c, rt_packet = q, rt_ip = ip\<rparr> =
          Some (\<lparr>rt_stream = e, rt_packet = zero_packet, rt_ip = m_ip m\<rparr>, [])"
        using r own c(2) e(1) by (simp add: rx_round_def)
      then show ?thesis using e(2,3) by (rule settled)
    qed
  qed
qed

lemma session_round:
  assumes "session_ok (Suc k) (rt_stream t)" and "stale_ok t" and "ts_ok clock"
    and "session_input (iprx (rt_stream t)) (rx_streamname (rt_stream t)) (Some i)"
  shows "\<exists>t'. rx_round (\<lambda>_. True) clock i t = Some (t', []) \<and> session_ok k (rt_stream t') \<and> stale_ok t' \<and>
    extends (rt_stream t) (rt_stream t')"
proof -
  obtain ts a where i: "i = Datagram ts a" using assms(4) by (cases i) (auto simp: session_input_def)
  show ?thesis
  proof (cases a)
    case (Inl e)
    let ?c = "(rt_stream t)\<lparr>ansport := htons (sin_port (rxsock (rt_stream t)))\<rparr>"
    have "session_ok k ?c" "extends (rt_stream t) ?c"
      using assms(1) by (auto simp: session_ok_def rx_ok_def rx_rates_def rx_bufs_def outlen_def locked_def cyc_ok_def extends_def)
    moreover have "stale_ok (t\<lparr>rt_stream := ?c, rt_ip := sin_addr (rxsock (rt_stream t))\<rparr>)"
      using assms(2) by (simp add: stale_ok_def Let_def)
    ultimately show ?thesis using stale_round [OF assms(1,2)] i Inl by simp
  next
    case (Inr m)
    have "packet_ok (rt_packet t)" using assms(2) by (simp add: stale_ok_def Let_def)
    then show ?thesis
      using session_datagram [OF assms(1) _ assms(3), of "rt_packet t" ts m "rt_ip t"] assms(4) unfolding i Inr by (cases t) simp
  qed
qed

lemma session_run:
  "session_ok (length inps) (rt_stream t) \<Longrightarrow> stale_ok t \<Longrightarrow> ts_ok clock \<Longrightarrow>
    \<forall>i \<in> set inps. session_input (iprx (rt_stream t)) (rx_streamname (rt_stream t)) i \<Longrightarrow>
    \<exists>t'. rxThread (\<lambda>_. True) clock inps t = Some (t', []) \<and> session_ok 0 (rt_stream t') \<and> extends (rt_stream t) (rt_stream t')"
proof (induction inps arbitrary: t)
  case Nil
  then show ?case by (auto simp: session_ok_def intro: extends_refl)
next
  case (Cons i inps)
  have on: "flag_set (flags (rt_stream t)) RECEIVING" using Cons.prems(1) by (simp add: session_ok_def)
  show ?case
  proof (cases i)
    case None
    have "session_ok (length inps) (rt_stream t)" using Cons.prems(1) by (rule session_ok_mono) simp
    then show ?thesis using Cons None on by simp
  next
    case (Some j)
    have "session_ok (Suc (length inps)) (rt_stream t)" using Cons.prems(1) by simp
    then obtain t1 where t1: "rx_round (\<lambda>_. True) clock j t = Some (t1, [])" "session_ok (length inps) (rt_stream t1)" "stale_ok t1"
        "extends (rt_stream t) (rt_stream t1)"
      using session_round [OF _ Cons.prems(2,3), of "length inps" j] Cons.prems(4) Some by auto
    have "\<forall>i \<in> set inps. session_input (iprx (rt_stream t1)) (rx_streamname (rt_stream t1)) i"
      using Cons.prems(4) t1(4) by (simp add: extends_def)
    then obtain t2 where "rxThread (\<lambda>_. True) clock inps t1 = Some (t2, [])" "session_ok 0 (rt_stream t2)"
        "extends (rt_stream t1) (rt_stream t2)"
      using Cons.IH [OF t1(2,3) Cons.prems(3)] by auto
    then show ?thesis using on Some t1(1) extends_trans [OF t1(4)] by simp
  qed
qed

text \<open>
  C16: A receiver survives any session. From a good, locked stream that receives on a socket the
  thread \<open>rxThread\<close> is defined for every sequence of time-outs, failed receives and datagrams, in any
  order, with any losses and repetitions: all datagrams of other senders and names (except text),
  all packets of other protocols, and of the stream itself the audio packets whose announced frames
  are inside their data. The rate correction may be on or off; when it is on, the counters of the
  cycle have room for the run. The thread sends nothing, keeps the stream good and its lock
  unchanged, and only appends whole frames to the ring, whose size stays. Not covered are text, the
  stream's own MIDI (\<open>midi_ring_full_spins\<close>), its own oversized announcements
  (\<open>announced_frames_overread\<close>) and datagrams shorter than a header; \<open>calloc\<close> succeeds.
\<close>

theorem session_keeps_stream:
  assumes "session_ok (length inps) (rt_stream t)" and "stale_ok t" and "ts_ok clock"
    and "\<forall>i \<in> set inps. session_input (iprx (rt_stream t)) (rx_streamname (rt_stream t)) i"
  shows "\<exists>t'. rxThread (\<lambda>_. True) clock inps t = Some (t', []) \<and> session_ok 0 (rt_stream t') \<and> extends (rt_stream t) (rt_stream t')"
  using assms by (rule session_run)

theorem session_keeps_stream_witness:
  "let t = \<lparr>rt_stream = example_rx\<lparr>flags := RECEIVING OR CORRECTION_ON, cframes_marr := replicate CFMSIZE 0\<rparr>, rt_packet = zero_packet, rt_ip = 0\<rparr> in
   \<exists>t'. rxThread (\<lambda>_. True) (0, 0) [None, Some (Datagram (0, 0) (Inr example_datagram)), Some (Datagram (0, 0) (Inl (-1))),
      Some (Datagram (0, 0) (Inr (example_datagram\<lparr>m_ip := 7\<rparr>)))] t = Some (t', []) \<and> session_ok 0 (rt_stream t') \<and>
    extends (rt_stream t) (rt_stream t')"
  unfolding Let_def
proof (rule session_keeps_stream)
  let ?c = "example_rx\<lparr>flags := RECEIVING OR CORRECTION_ON, cframes_marr := replicate CFMSIZE 0\<rparr>"
  let ?t = "\<lparr>rt_stream = ?c, rt_packet = zero_packet, rt_ip = 0\<rparr>"
  have ok: "rx_ok ?c" "locked ?c" using example_rx_ok
    by (simp_all add: rx_ok_def rx_rates_def rx_bufs_def outlen_def locked_def)
  then show "stale_ok ?t" by (intro stale_zero) simp_all
  have "cyc_ok ?c" by (simp add: cyc_ok_def example_rx_def zero_context_def zero_delta_def CFMSIZE_def ts_ok_def)
  then show "session_ok (length [None, Some (Datagram (0, 0) (Inr example_datagram)), Some (Datagram (0, 0) (Inl (-1))),
      Some (Datagram (0, 0) (Inr (example_datagram\<lparr>m_ip := 7\<rparr>)))]) (rt_stream ?t)"
    using ok by (simp add: session_ok_def) (simp add: example_rx_def zero_context_def ts_ok_def flag_set_def RECEIVING_def CORRECTION_ON_def)
  have "fits_packet (packet_store zero_packet (m_bytes example_datagram))"
    using stored_packet [OF zero_packet_ok, of "m_bytes example_datagram"] example_datagram_facts example_audio_facts
      fits_packet_cong [of example_audio "packet_store zero_packet (m_bytes example_datagram)"]
    by (simp add: datagram_ok_def packet_ok_def)
  moreover have "m_stamp example_datagram = None" "\<not> is_protocol VBAN_PROTOCOL_TXT (format_SR (header example_audio))"
    "\<not> is_protocol VBAN_PROTOCOL_SERIAL (format_SR (header example_audio))"
    by (simp_all add: example_datagram_def example_audio_def is_protocol_def VBAN_PROTOCOL_MASK_def)
  ultimately show "\<forall>i \<in> set [None, Some (Datagram (0, 0) (Inr example_datagram)), Some (Datagram (0, 0) (Inl (-1))),
      Some (Datagram (0, 0) (Inr (example_datagram\<lparr>m_ip := 7\<rparr>)))]. session_input (iprx (rt_stream ?t)) (rx_streamname (rt_stream ?t)) i"
    using example_datagram_facts by (simp add: session_input_def datagram_ok_def)
qed (simp add: ts_ok_def)

lemma for_loop_last:
  assumes "\<And>s. f n s = None"
  shows "for_loop 0 (n + 1) f s = None"
  using for_loop_Suc_right [of 0 n f s] assms by (cases "for_loop 0 n f s") simp_all

text \<open>
  The announced size of an audio packet is not checked: a packet of the stream whose header
  announces more frames than its data can hold makes the handler read behind the packet.
\<close>

theorem announced_frames_overread:
  assumes "is_protocol VBAN_PROTOCOL_AUDIO (format_SR (header p))" and "rx_ok c" and "rx_accepts p c ip = Some True"
    and "bit_size (unat (format_bit (header p))) = Some sz" and "length (pdata p) = VBAN_DATA_MAX_SIZE"
    and "unat (format_nbs (header p)) * ((unat (format_nbc (header p)) + 1) * sz) > VBAN_DATA_MAX_SIZE"
  shows "vban_rx_handle_packet (\<lambda>_. True) clock p len c ip port = None"
proof -
  let ?h = "header p" and ?n = "unat (format_nbs (header p))"
  obtain ib ob where b: "rx_buffers (\<lambda>_. True) c ?h = Some (c\<lparr>resampler_inbuflen := int (?n + 1), resampler_inbuf := Some ib,
        resampler_outbuflen := int (outlen c (?n + 1)), resampler_outbuf := Some ob\<rparr>)"
    using rx_buffers_ok [OF assms(2) refl] by blast
  have last: "rx_frame nb nbc ((unat (format_nbc ?h) + 1) * sz) f (pdata p) ?n d = None" for nb nbc f d
    using assms(5,6) by (simp add: rx_frame_def del: mult_Suc)
  have "for_loop 0 (?n + 1) (rx_frame nb nbc ((unat (format_nbc ?h) + 1) * sz) f (pdata p)) d = None" for nb nbc f d
    by (rule for_loop_last) (rule last)
  then have "rx_audio (\<lambda>_. True) clock p c = None"
    unfolding rx_audio_def Let_def assms(4) b Option.bind.bind_lunit by simp
  then show ?thesis using assms(1-3) by (auto simp: vban_rx_handle_packet_def rx_ok_def)
qed

theorem announced_frames_overread_witness:
  "vban_rx_handle_packet (\<lambda>_. True) (0, 0) (example_audio\<lparr>header := (header example_audio)\<lparr>format_nbs := 255, format_nbc := 3\<rparr>\<rparr>)
    36 example_rx 7 6980 = None"
proof (rule announced_frames_overread [OF _ example_rx_ok(1), where sz = 2])
  show "is_protocol VBAN_PROTOCOL_AUDIO (format_SR (header (example_audio\<lparr>header := (header example_audio)\<lparr>format_nbs := 255, format_nbc := 3\<rparr>\<rparr>)))"
    using example_audio_facts(2) by simp
qed (simp_all add: example_rx_def example_audio_def rx_accepts_def strn_eq_refl vban_sizes zero_header_def zero_context_def)

text \<open>
  C17: The MIDI loop does not end on its own. With an event waiting and no room for it in the MIDI
  ring, \<open>midi_events\<close> has no result: the receiver thread spins, and with it all audio, until the
  player's thread makes room.
\<close>

theorem midi_ring_full_spins:
  assumes "rb_ok rb" and "rb_free rb < 3" and "int (eventptr + VBAN_HEADER_SIZE) < len"
  shows "midi_events data len eventptr rb = None"
proof -
  have "midi_events d l e q = Some x \<Longrightarrow> q = rb \<longrightarrow> \<not> int (e + VBAN_HEADER_SIZE) < l" for d l e q x
  proof (rule midi_events.raw_induct [where P = "\<lambda>d l e q y. q = rb \<longrightarrow> \<not> int (e + VBAN_HEADER_SIZE) < l"])
    fix f d l e q y
    assume IH: "\<And>d l e q y. f d l e q = Some y \<Longrightarrow> q = rb \<longrightarrow> \<not> int (e + VBAN_HEADER_SIZE) < l"
      and body: "(if int e + int VBAN_HEADER_SIZE < l then
        Option.bind (ringbuffer_write_space q) (\<lambda>room.
          if 3 \<le> room then
            Option.bind (mem_load d e 3) (\<lambda>ev.
              Option.bind (ringbuffer_write q ev 3) (\<lambda>(rb, _). f d l (to_u16 (int e + 3)) rb))
          else f d l e q)
        else Some q) = Some (y :: ringbuffer)"
    show "q = rb \<longrightarrow> \<not> int (e + VBAN_HEADER_SIZE) < l"
      using IH [of d l e q y] body assms(2) by (auto simp: write_space_ok [OF assms(1)] split: if_splits)
  qed
  from this [of data len eventptr rb] show ?thesis using assms(3) by (cases "midi_events data len eventptr rb") auto
qed

theorem midi_ring_full_spins_witness:
  "midi_events (replicate 1436 0) 31 0 \<lparr>rb_buf = [0, 0], write_ptr = 0, read_ptr = 0, rb_size = 2, mlocked = 0\<rparr> = None"
  by (rule midi_ring_full_spins) (simp_all add: rb_ok_def rb_free_def rb_fill_def vban_sizes)

end
