(* ===== verification/Multistream.thy ===== *)
theory Multistream
  imports Client_List Rx_Packet
begin

text \<open>
  The multistream receptor: \<open>popen2.h\<close>, the loop of \<open>vban_receptor_jack/main.cpp\<close> that gives every
  stream its own child process and hands packets on to it, and \<open>timerThread\<close> of
  \<open>vban_common/vban_functions.cpp\<close>, which ends the children of silent streams. The two threads share
  the list of clients without a lock; here a packet and a tick of the timer are one step each.
  What the system answers (\<open>malloc\<close>, \<open>pipe\<close>, \<open>fork\<close>, \<open>recvfrom\<close>, \<open>read\<close>) are arguments.
\<close>

section \<open>Child processes\<close>

text \<open>
  The answers of the two calls of \<open>pipe\<close> (both ends, or failure) and of \<open>fork\<close> in the parent: a
  process identifier or a negative number.
\<close>

record popen_answer =
  pa_stdin :: "(int \<times> int) option"
  pa_stdout :: "(int \<times> int) option"
  pa_fork :: int

text \<open>
  \<open>popen2\<close>: the result, what is stored through \<open>infp\<close> and \<open>outfp\<close> when these are given, and the
  calls. The child runs the command with \<open>/bin/bash -c\<close>.
\<close>

definition popen2 :: "byte list \<Rightarrow> bool \<Rightarrow> bool \<Rightarrow> popen_answer \<Rightarrow> int \<times> int option \<times> int option \<times> io list" where
  "popen2 cmdline infp outfp ans =
     (case pa_stdin ans of None \<Rightarrow> (-1, None, None, [])
      | Some (in_read, in_write) \<Rightarrow>
     (case pa_stdout ans of None \<Rightarrow> (-1, None, None, [])
      | Some (out_read, out_write) \<Rightarrow>
        if pa_fork ans < 0 then (pa_fork ans, None, None, [])
        else (pa_fork ans, if infp then Some in_write else None, if outfp then Some out_read else None,
          [Spawn (pa_fork ans) cmdline, Close in_read, Close out_write] @
          (if infp then [] else [Close in_write]) @ (if outfp then [] else [Close out_read]))))"

definition pclose2 :: "int \<Rightarrow> io list" where
  "pclose2 p = [Waitpid p]"


section \<open>The state of the receptor\<close>

text \<open>The multistream context, the stream, the packet buffer and the variables of the loop.\<close>

record ms =
  ms_heap :: heap
  ms_clients :: ptr
  ms_num :: nat
  ms_max :: nat
  ms_stream :: stream_context
  ms_packet :: vban_packet
  ms_ip :: u32
  ms_port :: u16
  ms_cmd :: "byte list"

record ms_answers =
  a_rx :: popen_answer
  a_tx :: popen_answer

datatype ms_input = Udp_packet "int + byte list \<times> u32 \<times> u16" | Pipe_packet "byte list option" "byte list option"

datatype ms_event = Incoming ms_answers ms_input | Tick

definition CMDLEN_MAX :: nat where "CMDLEN_MAX = 600"

text \<open>\<open>strcat\<close> and \<open>sprintf(b + strlen(b), \<dots>)\<close>.\<close>

definition c_append :: "byte list \<Rightarrow> byte list \<Rightarrow> byte list option" where
  "c_append b s = do { t \<leftarrow> c_string b; put_string b (length t) s }"

text \<open>The command that every child is started with.\<close>

definition child_command :: "byte list \<Rightarrow> stream_context \<Rightarrow> byte list option" where
  "child_command argv0 stream = do {
     let cmd = replicate CMDLEN_MAX 0;
     let cmdlen = to_u16 (int (length argv0));
     cmd \<leftarrow> mem_store cmd 0 (take cmdlen argv0);
     cmd \<leftarrow> c_append cmd (bytes_of '' -m0 -p0 -istdin -q'' @ dec_nat (nframes stream) @ bytes_of '' -n'' @
       dec_nat (redundancy stream));
     cmd \<leftarrow> (if flag_set (flags stream) DEVICE_MODE then c_append cmd (bytes_of '' -dy'') else Some cmd);
     cmd \<leftarrow> (if flag_set (flags stream) AUTOCONNECT then c_append cmd (bytes_of '' -ay'') else Some cmd);
     (if flag_set (flags stream) CORRECTION_ON then c_append cmd (bytes_of '' -ey'') else Some cmd) }"

text \<open>
  The command of the emitter for the way back. The name of the stream comes from the packet and is
  printed as a string that starts in the header.
\<close>

definition tx_command :: "stream_context \<Rightarrow> client_node \<Rightarrow> byte list option" where
  "tx_command stream c = do {
     let txcmd = replicate 256 0;
     name \<leftarrow> c_string (drop 8 (header_bytes (cl_header c)));
     txcmd \<leftarrow> put_string txcmd 0 (bytes_of ''vban_emitter_jack -i127.0.0.1 -p'' @ dec_nat (unat (rxport stream)) @
       bytes_of '' -s'' @ [chr_sq] @ name @ [chr_sq] @ bytes_of '' -c'' @ dec_nat (unat (format_nbc (cl_header c)) + 1));
     txcmd \<leftarrow> (if flag_set (flags stream) AUTOCONNECT then c_append txcmd (bytes_of '' -ay'')
       else if flag_set (flags stream) DEVICE_MODE then c_append txcmd (bytes_of ''-dy'') else Some txcmd);
     c_append txcmd (bytes_of '' -x'' @ inet_ntoa (cl_ip c) @ bytes_of '':'' @ dec_nat (cl_port c)) }"


section \<open>Packets\<close>

text \<open>The search for the client a packet belongs to.\<close>

fun find_client :: "heap \<Rightarrow> u32 \<Rightarrow> byte list \<Rightarrow> nat \<Rightarrow> ptr \<Rightarrow> nat option option" where
  "find_client h ip name 0 client = Some None"
| "find_client h ip name (Suc n) client = do {
     a \<leftarrow> client;
     c \<leftarrow> h a;
     same \<leftarrow> mem_eq VBAN_STREAM_NAME_SIZE name (streamname (cl_header c));
     if ip = cl_ip c \<and> same then Some (Some a) else find_client h ip name n (nxt c) }"

definition ms_deliver :: "nat \<Rightarrow> int \<Rightarrow> ms \<Rightarrow> (ms \<times> io list) option" where
  "ms_deliver a packetlen s = do {
     c \<leftarrow> ms_heap s a;
     bs \<leftarrow> mem_load (packet_bytes (ms_packet s)) 0 (nat packetlen);
     Some (s\<lparr>ms_heap := (ms_heap s)(a \<mapsto> c\<lparr>timer := 0\<rparr>)\<rparr>, [Write (pipedesc c) bs]) }"

text \<open>The processes of a new client; their results go into its node.\<close>

definition start_client :: "ms_answers \<Rightarrow> byte list \<Rightarrow> stream_context \<Rightarrow> client_node \<Rightarrow> (client_node \<times> io list) option" where
  "start_client ans cmd stream c = do {
     cmdline \<leftarrow> c_string cmd;
     let (p, infd, _, evs) = popen2 cmdline True False (a_rx ans);
     let c = c\<lparr>pipedesc := (case infd of None \<Rightarrow> pipedesc c | Some f \<Rightarrow> f), pid := p\<rparr>;
     if rxport stream \<noteq> 0 \<and> flag_set (flags stream) DUPLEX then do {
       txcmd \<leftarrow> tx_command stream c;
       cmdline \<leftarrow> c_string txcmd;
       let (q, _, outfd, evs') = popen2 cmdline False True (a_tx ans);
       Some (c\<lparr>txpipedesc := (case outfd of None \<Rightarrow> txpipedesc c | Some f \<Rightarrow> f), txpid := q\<rparr>, evs @ evs') }
     else Some (c, evs) }"

definition fresh_client :: "ms \<Rightarrow> client_node" where
  "fresh_client s = zero_node\<lparr>cl_ip := ms_ip s, cl_port := unat (ms_port s),
     cl_header := (header (ms_packet s))\<lparr>nuFrame := 0\<rparr>\<rparr>"

text \<open>
  A new client is the first one, or it is linked behind the last one when there is room. \<open>alloc\<close> is
  the address \<open>malloc\<close> gives in a heap; the block is cleared without a test.
\<close>

definition new_client :: "(heap \<Rightarrow> ptr) \<Rightarrow> ms_answers \<Rightarrow> ms \<Rightarrow> (ms \<times> io list) option" where
  "new_client alloc ans s =
     (case ms_clients s of
        None \<Rightarrow> do {
          a \<leftarrow> alloc (ms_heap s);
          (c, evs) \<leftarrow> start_client ans (ms_cmd s) (ms_stream s) (fresh_client s);
          Some (s\<lparr>ms_heap := (ms_heap s)(a \<mapsto> c), ms_clients := Some a, ms_num := to_u8 (int (ms_num s) + 1)\<rparr>, evs) }
      | Some p \<Rightarrow>
          if ms_num s < ms_max s then do {
            l \<leftarrow> last_node (ms_heap s) p;
            d \<leftarrow> ms_heap s l;
            a \<leftarrow> alloc (ms_heap s);
            (c, evs) \<leftarrow> start_client ans (ms_cmd s) (ms_stream s) (fresh_client s);
            Some (s\<lparr>ms_heap := (ms_heap s)(l \<mapsto> d\<lparr>nxt := Some a\<rparr>, a \<mapsto> c), ms_num := to_u8 (int (ms_num s) + 1)\<rparr>, evs) }
          else Some (s, []))"

definition ms_route :: "(heap \<Rightarrow> ptr) \<Rightarrow> ms_answers \<Rightarrow> int \<Rightarrow> ms \<Rightarrow> (ms \<times> io list) option" where
  "ms_route alloc ans packetlen s = do {
     r \<leftarrow> find_client (ms_heap s) (ms_ip s) (streamname (header (ms_packet s))) (ms_num s) (ms_clients s);
     case r of Some a \<Rightarrow> ms_deliver a packetlen s | None \<Rightarrow> new_client alloc ans s }"

text \<open>The answer to a request for information.\<close>

definition ms_info :: "ms \<Rightarrow> (ms \<times> io list) option" where
  "ms_info s = do {
     let p = ms_packet s;
     upper \<leftarrow> strn_eq 4 (streamname (header p)) (bytes_of ''INFO'' @ [0]);
     lower \<leftarrow> strn_eq 4 (streamname (header p)) (bytes_of ''info'' @ [0]);
     asks \<leftarrow> strn_eq 5 (pdata p) (bytes_of ''/info'' @ [0]);
     Asks \<leftarrow> strn_eq 5 (pdata p) (bytes_of ''/INFO'' @ [0]);
     if (upper \<or> lower) \<and> (asks \<or> Asks) then do {
       stream \<leftarrow> vban_fill_receptor_info (ms_stream s);
       data \<leftarrow> c_append (pdata (info stream)) (bytes_of '' max_clients='' @ dec_int (int (nboutputs stream)) @
         bytes_of '' free_clients='' @ dec_int (int (nboutputs stream) - int (ms_num s)));
       let stream = stream\<lparr>info := (info stream)\<lparr>pdata := data\<rparr>\<rparr>;
       if rxport stream \<noteq> 0 then do {
         t \<leftarrow> c_string data;
         (sock, ev, _) \<leftarrow> udp_send (rxsock stream) (ansport stream) (packet_bytes (info stream))
           (VBAN_HEADER_SIZE + length t) 0 0;
         Some (s\<lparr>ms_stream := stream\<lparr>rxsock := sock\<rparr>\<rparr>, [ev]) }
       else Some (s\<lparr>ms_stream := stream\<rparr>, []) }
     else Some (s, []) }"

text \<open>
  A packet with six more bytes goes on, without them, to the address and the port they hold: address
  and port are read from memory in the order of the machine, little endian.
\<close>

definition of_le16 :: "byte list \<Rightarrow> u16" where
  "of_le16 b = ucast (b ! 0) OR push_bit 8 (ucast (b ! 1))"

definition ms_relay :: "int \<Rightarrow> ms \<Rightarrow> (ms \<times> io list) option" where
  "ms_relay rightlen s = do {
     let bs = packet_bytes (ms_packet s);
     ip \<leftarrow> mem_load bs (nat rightlen) 4;
     port \<leftarrow> mem_load bs (nat rightlen + 4) 2;
     let dstip = of_le32 ip;
     let dstport = htons (of_le16 port);
     if rxport (ms_stream s) \<noteq> 0 then do {
       (sock, ev, _) \<leftarrow> udp_send (rxsock (ms_stream s)) dstport bs (nat rightlen) dstip 0;
       Some (s\<lparr>ms_stream := (ms_stream s)\<lparr>rxsock := sock\<rparr>\<rparr>, [ev]) }
     else Some (s, []) }"

definition ms_handle :: "(heap \<Rightarrow> ptr) \<Rightarrow> ms_answers \<Rightarrow> int \<Rightarrow> int \<Rightarrow> ms \<Rightarrow> (ms \<times> io list) option" where
  "ms_handle alloc ans packetlen rightlen s =
     (let h = header (ms_packet s) in
      if packetlen = rightlen then
        if vban h = VBAN_HEADER_FOURC then
          if is_protocol VBAN_PROTOCOL_AUDIO (format_SR h) \<or> is_protocol VBAN_PROTOCOL_SERIAL (format_SR h)
          then ms_route alloc ans packetlen s
          else if is_protocol VBAN_PROTOCOL_TXT (format_SR h) then ms_info s
          else Some (s, [])
        else Some (s, [])
      else if flag_set (flags (ms_stream s)) DUPLEX \<and> packetlen = rightlen + 6 then ms_relay rightlen s
      else Some (s, []))"

text \<open>The length of the data that the header announces.\<close>

definition announced :: "vban_header \<Rightarrow> int option" where
  "announced h = do {
     size \<leftarrow> bit_size (unat (format_bit h AND 7));
     Some (int (size * (unat (format_nbc h) + 1) * (unat (format_nbs h) + 1))) }"

text \<open>
  Reading a packet from the socket or from the pipe: the length that was read and the length that is
  right. On a pipe both are zero unless all announced data came.
\<close>

definition ms_read_udp :: "int + byte list \<times> u32 \<times> u16 \<Rightarrow> ms \<Rightarrow> (ms \<times> int \<times> int) option" where
  "ms_read_udp answer s = do {
     let (sock, p, packetlen) = udp_recv (rxsock (ms_stream s)) (ms_packet s) answer;
     n \<leftarrow> announced (header p);
     Some (s\<lparr>ms_stream := (ms_stream s)\<lparr>rxsock := sock\<rparr>, ms_packet := p, ms_ip := sin_addr sock,
       ms_port := htons (sin_port sock)\<rparr>, packetlen, int VBAN_HEADER_SIZE + n) }"

definition read_len :: "byte list option \<Rightarrow> int" where
  "read_len r = (case r of None \<Rightarrow> -1 | Some bs \<Rightarrow> int (length bs))"

definition ms_read_pipe :: "byte list option \<Rightarrow> byte list option \<Rightarrow> ms \<Rightarrow> (ms \<times> int \<times> int) option" where
  "ms_read_pipe head body s = do {
     let p = (case head of None \<Rightarrow> ms_packet s | Some bs \<Rightarrow> packet_store (ms_packet s) bs);
     let sr = format_SR (header p);
     if is_protocol VBAN_PROTOCOL_AUDIO sr \<or> is_protocol VBAN_PROTOCOL_TXT sr then do {
       rightlen \<leftarrow> announced (header p);
       data \<leftarrow> mem_store (pdata p) 0 (case body of None \<Rightarrow> [] | Some bs \<Rightarrow> bs);
       let s = s\<lparr>ms_packet := p\<lparr>pdata := data\<rparr>\<rparr>;
       if rightlen \<le> read_len body
       then Some (s, read_len head + read_len body, rightlen + int VBAN_HEADER_SIZE)
       else Some (s, 0, 0) }
     else Some (s\<lparr>ms_packet := p\<rparr>, 0, 0) }"

definition ms_incoming :: "(heap \<Rightarrow> ptr) \<Rightarrow> ms_answers \<Rightarrow> ms_input \<Rightarrow> ms \<Rightarrow> (ms \<times> io list) option" where
  "ms_incoming alloc ans inp s = do {
     (s, packetlen, rightlen) \<leftarrow>
       (if rxport (ms_stream s) \<noteq> 0
        then (case inp of Udp_packet answer \<Rightarrow> ms_read_udp answer s | Pipe_packet _ _ \<Rightarrow> None)
        else (case inp of Pipe_packet head body \<Rightarrow> ms_read_pipe head body s | Udp_packet _ \<Rightarrow> None));
     ms_handle alloc ans packetlen rightlen s }"


section \<open>The timer\<close>

text \<open>The calls that end the processes of a client.\<close>

definition end_processes :: "int \<Rightarrow> int \<Rightarrow> io list" where
  "end_processes p q = [Kill p ''SIGINT''] @ pclose2 p @ (if q \<noteq> 0 then [Kill q ''SIGTERM''] @ pclose2 q else [])"

text \<open>
  One pass of \<open>timerThread\<close> over the list; \<open>n\<close> is the number of clients still to come. The pass ends
  with the first client that is removed.
\<close>

fun timer_loop :: "ms \<Rightarrow> ptr \<Rightarrow> nat \<Rightarrow> nat \<Rightarrow> (ms \<times> io list) option" where
  "timer_loop s client index 0 = Some (s, [])"
| "timer_loop s client index (Suc n) = do {
     a \<leftarrow> client;
     c \<leftarrow> ms_heap s a;
     if timer c = 4 then do {
       (h, p) \<leftarrow>
         (if index = 0 then do { (h, p, _) \<leftarrow> pop (ms_heap s) (ms_clients s); Some (h, p) }
          else if index = ms_num s then do { (h, _) \<leftarrow> remove_last (ms_heap s) (ms_clients s); Some (h, ms_clients s) }
          else do { (h, p, _) \<leftarrow> remove_by_index (ms_heap s) (ms_clients s) (int index); Some (h, p) });
       Some (s\<lparr>ms_heap := h, ms_clients := p, ms_num := to_u8 (int (ms_num s) - 1)\<rparr>, end_processes (pid c) (txpid c)) }
     else timer_loop (s\<lparr>ms_heap := (ms_heap s)(a \<mapsto> c\<lparr>timer := to_u8 (int (timer c) + 1)\<rparr>)\<rparr>) (nxt c) (index + 1) n }"

definition timer_tick :: "ms \<Rightarrow> (ms \<times> io list) option" where
  "timer_tick s =
     (if flag_set (flags (ms_stream s)) RECEIVING then timer_loop s (ms_clients s) 0 (ms_num s) else Some (s, []))"


section \<open>Runs\<close>

definition ms_step :: "(heap \<Rightarrow> ptr) \<Rightarrow> ms_event \<Rightarrow> ms \<Rightarrow> (ms \<times> io list) option" where
  "ms_step alloc e s = (case e of Incoming ans inp \<Rightarrow> ms_incoming alloc ans inp s | Tick \<Rightarrow> timer_tick s)"

fun ms_run :: "(heap \<Rightarrow> ptr) \<Rightarrow> ms_event list \<Rightarrow> ms \<Rightarrow> (ms \<times> io list) option" where
  "ms_run alloc [] s = Some (s, [])"
| "ms_run alloc (e # es) s = do {
     (s, evs) \<leftarrow> ms_step alloc e s;
     (s, evs') \<leftarrow> ms_run alloc es s;
     Some (s, evs @ evs') }"


section \<open>Strings in blocks\<close>

definition holds :: "nat \<Rightarrow> byte list \<Rightarrow> byte list \<Rightarrow> bool" where
  "holds n t b \<longleftrightarrow> length b = n \<and> 0 \<in> set b \<and> cstr b = t"

named_theorems no_zero

lemma holds_c_string: "holds n t b \<Longrightarrow> c_string b = Some t"
  by (simp add: holds_def c_string_def)

lemma cstr_split:
  assumes "0 \<in> set b"
  shows "b = cstr b @ 0 # drop (Suc (length (cstr b))) b"
proof -
  have "dropWhile (\<lambda>c. c \<noteq> 0) b \<noteq> []" using assms by auto
  then have "hd (dropWhile (\<lambda>c. c \<noteq> 0) b) = 0" using hd_dropWhile [of "\<lambda>c. c \<noteq> 0" b] by blast
  then obtain r where r: "dropWhile (\<lambda>c. c \<noteq> 0) b = 0 # r"
    using \<open>dropWhile (\<lambda>c. c \<noteq> 0) b \<noteq> []\<close> by (cases "dropWhile (\<lambda>c. c \<noteq> 0) b") auto
  have b: "b = cstr b @ 0 # r" unfolding cstr_def using takeWhile_dropWhile_id [of "\<lambda>c. c \<noteq> 0" b] r by simp
  then have "drop (Suc (length (cstr b))) b = r"
    by (metis append.assoc append_Cons append_Nil append_eq_conv_conj length_append_singleton)
  then show ?thesis using b by simp
qed

lemma put_string_holds:
  assumes "length b = n" and "0 \<notin> set s" and "length s < n"
  shows "\<exists>b'. put_string b 0 s = Some b' \<and> holds n s b'"
  using assms by (simp add: put_string_def mem holds_def blit_0 cstr_append_zero)

lemma c_append_holds:
  assumes "holds n t b" and "0 \<notin> set s" and "length t + length s < n"
  shows "\<exists>b'. c_append b s = Some b' \<and> holds n (t @ s) b'"
proof -
  let ?b = "blit b (length t) (s @ [0])"
  have t: "0 \<notin> set t" using assms(1) cstr_nonzero [of b] by (simp add: holds_def)
  have "take (length t) b = t" using assms(1) cstr_split [of b] by (metis append_eq_conv_conj holds_def)
  then have "?b = (t @ s) @ 0 # drop (length t + length (s @ [0])) b" by (simp add: blit_def)
  moreover have "length ?b = n" using assms(1,3) by (simp add: holds_def)
  ultimately have "holds n (t @ s) ?b"
    unfolding holds_def using assms(2) t cstr_append_zero [of "t @ s"] by (metis UnE in_set_conv_decomp set_append)
  then show ?thesis using assms by (simp add: c_append_def holds_c_string put_string_def mem holds_def)
qed

lemma dec_nat_no_zero [no_zero]: "0 \<notin> set (dec_nat n)"
  using dec_nat_plain [of n] by (auto simp: plain_char_def)

lemma dec_int_no_zero [no_zero]: "0 \<notin> set (dec_int i)"
  using dec_int_plain [of i] by (auto simp: plain_char_def)

lemma inet_ntoa_no_zero [no_zero]: "0 \<notin> set (inet_ntoa ip)"
  using dec_nat_no_zero by (auto simp: inet_ntoa_def le32_def bytes_of_def Let_def)

lemma length_dec_byte: "length (dec_nat (unat (b :: byte))) \<le> 3"
  using unsigned_less [of b, where ?'a = nat] by (intro length_dec_nat) auto

lemma length_inet_ntoa: "length (inet_ntoa ip) \<le> 15"
proof -
  have "length (dec_nat (unat (ucast (drop_bit k ip) :: byte))) \<le> 3" for k by (rule length_dec_byte)
  from this [of 0] this [of 8] this [of 16] this [of 24] show ?thesis
    by (simp add: inet_ntoa_def le32_def Let_def)
qed


section \<open>The commands\<close>

text \<open>The command of the emitter, as a text.\<close>

definition tx_text :: "stream_context \<Rightarrow> client_node \<Rightarrow> byte list" where
  "tx_text stream c = bytes_of ''vban_emitter_jack -i127.0.0.1 -p'' @ dec_nat (unat (rxport stream)) @
     bytes_of '' -s'' @ [chr_sq] @ cstr (streamname (cl_header c)) @ [chr_sq] @
     bytes_of '' -c'' @ dec_nat (unat (format_nbc (cl_header c)) + 1) @
     (if flag_set (flags stream) AUTOCONNECT then bytes_of '' -ay''
      else if flag_set (flags stream) DEVICE_MODE then bytes_of ''-dy'' else []) @
     bytes_of '' -x'' @ inet_ntoa (cl_ip c) @ bytes_of '':'' @ dec_nat (cl_port c)"

lemma name_in_header:
  assumes "nuFrame h = 0" and "length (streamname h) = 16"
  shows "c_string (drop 8 (header_bytes h)) = Some (cstr (streamname h))"
proof -
  have d: "drop 8 (header_bytes h) = streamname h @ [0, 0, 0, 0]"
    using assms by (simp add: header_bytes_def le32_def)
  have "cstr (streamname h @ [0, 0, 0, 0]) = cstr (streamname h)"
  proof (cases "0 \<in> set (streamname h)")
    case True
    then show ?thesis unfolding cstr_def by (rule takeWhile_append1) simp
  next
    case False
    then show ?thesis by (simp add: cstr_append_zero cstr_no_zero)
  qed
  then show ?thesis unfolding c_string_def d by simp
qed

lemma tx_command_ok:
  assumes "nuFrame (cl_header c) = 0" and "length (streamname (cl_header c)) = 16" and "cl_port c < 2 ^ 16"
  shows "\<exists>b. tx_command stream c = Some b \<and> holds 256 (tx_text stream c) b"
proof -
  let ?n = "cstr (streamname (cl_header c))"
  let ?a = "bytes_of ''vban_emitter_jack -i127.0.0.1 -p'' @ dec_nat (unat (rxport stream)) @
       bytes_of '' -s'' @ [chr_sq] @ ?n @ [chr_sq] @ bytes_of '' -c'' @ dec_nat (unat (format_nbc (cl_header c)) + 1)"
  let ?m = "if flag_set (flags stream) AUTOCONNECT then bytes_of '' -ay''
      else if flag_set (flags stream) DEVICE_MODE then bytes_of ''-dy'' else []"
  let ?x = "bytes_of '' -x'' @ inet_ntoa (cl_ip c) @ bytes_of '':'' @ dec_nat (cl_port c)"
  have "unat (format_nbc (cl_header c)) < 256" "unat (rxport stream) < 2 ^ 16"
    using unsigned_less [of "format_nbc (cl_header c)", where ?'a = nat] unsigned_less [of "rxport stream", where ?'a = nat]
    by simp_all
  then have "length ?n \<le> 16" "length (dec_nat (unat (rxport stream))) \<le> 5"
      "length (dec_nat (unat (format_nbc (cl_header c)) + 1)) \<le> 3" "length (dec_nat (cl_port c)) \<le> 5"
    using length_cstr_le [of "streamname (cl_header c)"] assms(2,3)
    by (auto intro!: length_dec_nat)
  then have la: "length ?a \<le> 70" and lx: "length ?x \<le> 25" and lm: "length ?m \<le> 4"
    using length_inet_ntoa [of "cl_ip c"] by simp_all
  have z: "0 \<notin> set ?a" "0 \<notin> set ?m" "0 \<notin> set ?x"
    using no_zero cstr_nonzero [of "streamname (cl_header c)"] by (auto simp: bytes_of_def chr_defs)
  obtain b1 where b1: "put_string (replicate 256 0) 0 ?a = Some b1" "holds 256 ?a b1"
    using put_string_holds [of "replicate 256 0" 256 ?a] z(1) la by auto
  obtain b2 where b2: "(if flag_set (flags stream) AUTOCONNECT then c_append b1 (bytes_of '' -ay'')
       else if flag_set (flags stream) DEVICE_MODE then c_append b1 (bytes_of ''-dy'') else Some b1) = Some b2"
      "holds 256 (?a @ ?m) b2"
    using c_append_holds [OF b1(2) z(2)] la lm b1(2) by (auto split: if_splits)
  obtain b3 where b3: "c_append b2 ?x = Some b3" "holds 256 ((?a @ ?m) @ ?x) b3"
    using c_append_holds [OF b2(2) z(3)] la lm lx by auto
  have "tx_command stream c = Some b3"
    unfolding tx_command_def by (simp only: name_in_header [OF assms(1,2)] b1(1) b2(1) b3(1) Let_def Option.bind.bind_lunit)
  moreover have "(?a @ ?m) @ ?x = tx_text stream c" by (simp add: tx_text_def)
  ultimately show ?thesis using b3(2) by auto
qed


text \<open>The information packet of a receptor, with room for what the multistream receptor adds.\<close>

definition stream_fine :: "stream_context \<Rightarrow> bool" where
  "stream_fine c \<longleftrightarrow> 0 \<in> set (rx_streamname c) \<and> length (rx_streamname c) = 16 \<and> nboutputs c < 2 ^ 16 \<and>
     \<bar>samplerate c\<bar> < 2 ^ 31 \<and> vban_output_format c < 2 ^ 8"

lemma fill_info_short:
  assumes "stream_fine c"
  shows "\<exists>c' t. vban_fill_receptor_info c = Some c' \<and> c' = c\<lparr>info := info c'\<rparr> \<and> header_ok (header (info c')) \<and>
    holds VBAN_DATA_MAX_SIZE t (pdata (info c')) \<and> length t \<le> 200"
proof -
  let ?n = "cstr (rx_streamname c)" and ?N = VBAN_DATA_MAX_SIZE
  let ?a = "if flag_set (flags c) MULTISTREAM then bytes_of ''servername='' @ ?n @ bytes_of '' ''
     else bytes_of ''streamnamerx='' @ ?n @ bytes_of '' nbchannels='' @ dec_int (int (nboutputs c)) @ bytes_of '' ''"
  let ?b = "bytes_of ''samplerate='' @ dec_int (samplerate c) @ bytes_of '' format='' @
    dec_int (int (vban_output_format c)) @ bytes_of '' flags='' @ dec_int (int (unat (flags c)))"
  have fl: "unat (flags c) < 2 ^ 16" using unsigned_less [of "flags c", where ?'a = nat] by simp
  have f16: "length (dec_int (int n)) \<le> 6" if "n < 2 ^ 16" for n
    using that length_dec_int [of "int n" 5] by simp
  have l: "length ?n \<le> 16" "length (dec_int (int (nboutputs c))) \<le> 6" "length (dec_int (samplerate c)) \<le> 11"
      "length (dec_int (int (vban_output_format c))) \<le> 4" "length (dec_int (int (unat (flags c)))) \<le> 6"
    using length_cstr_le [of "rx_streamname c"] assms f16 length_dec_int [of "samplerate c" 10]
      length_dec_int [of "int (vban_output_format c)" 3] f16 [OF fl] by (simp_all add: stream_fine_def)
  then have la: "length ?a \<le> 80" and lb: "length ?b \<le> 100" by simp_all
  have z: "0 \<notin> set ?a" "0 \<notin> set ?b"
    using cstr_nonzero [of "rx_streamname c"] by (auto simp: bytes_of_def no_zero)
  obtain d1 where d1: "put_string (replicate ?N 0) 0 ?a = Some d1" "holds ?N ?a d1"
    using put_string_holds [of "replicate ?N 0" ?N ?a] z(1) la by (auto simp: vban_sizes)
  obtain d2 where d2: "put_string d1 (length (cstr d1)) ?b = Some d2" "holds ?N (?a @ ?b) d2"
    using c_append_holds [OF d1(2) z(2)] la lb d1(2) by (auto simp: vban_sizes c_append_def holds_c_string holds_def)
  let ?nm = "blit (replicate VBAN_STREAM_NAME_SIZE 0) 0 (bytes_of ''INFO'' @ [0])"
  have nm: "put_string (replicate VBAN_STREAM_NAME_SIZE 0) 0 (bytes_of ''INFO'') = Some ?nm"
    by (simp add: put_string_def mem_store_def vban_sizes)
  let ?h = "zero_header\<lparr>vban := VBAN_HEADER_FOURC, format_SR := protocol_val VBAN_PROTOCOL_TXT, streamname := ?nm\<rparr>"
  have "c_string (rx_streamname c) = Some ?n" using assms by (simp add: c_string_def stream_fine_def)
  then have "vban_fill_receptor_info c = Some (c\<lparr>info := \<lparr>header = ?h, pdata = d2\<rparr>\<rparr>)"
    unfolding vban_fill_receptor_info_def using d1(1)
    by (cases "flag_set (flags c) MULTISTREAM") (simp_all only: nm d2(1) Let_def Option.bind.bind_lunit if_True if_False)
  moreover have "header_ok ?h" by (simp add: header_ok_def vban_sizes)
  ultimately show ?thesis using d2(2) la lb
    by (intro exI [of _ "c\<lparr>info := \<lparr>header = ?h, pdata = d2\<rparr>\<rparr>"] exI [of _ "?a @ ?b"]) simp
qed

lemma strn_eq_total: "n \<le> length a \<Longrightarrow> n \<le> length b \<Longrightarrow> strn_eq n a b \<noteq> None"
  by (induction n a b rule: strn_eq.induct) auto

lemma strn_eq_short: "n < length b \<Longrightarrow> n \<le> length a \<Longrightarrow> \<exists>r. strn_eq n a b = Some r"
  using strn_eq_total [of n a b] by auto

lemma udp_send_ok:
  assumes "n \<le> length data"
  shows "\<exists>c'. udp_send c port data n txip ret = Some (c', Sendto (fd c) (take n data)
      (if txip \<noteq> 0 then txip else sin_addr c) (if port \<noteq> 0 then htons port else sin_port c), if ret < 0 then 0 else ret)"
  using assms by (auto simp: udp_send_def mem)

lemma ms_info_ok:
  assumes "stream_fine (ms_stream s)" and "packet_ok (ms_packet s)" and "ms_num s < 256"
  shows "\<exists>i sock evs. ms_info s = Some (s\<lparr>ms_stream := (ms_stream s)\<lparr>info := i, rxsock := sock\<rparr>\<rparr>, evs)"
proof -
  let ?st = "ms_stream s" and ?p = "ms_packet s"
  have len: "length (streamname (header ?p)) = 16" "length (pdata ?p) = VBAN_DATA_MAX_SIZE"
    using assms(2) by (simp_all add: packet_ok_def header_ok_def vban_sizes)
  obtain u l a A where q: "strn_eq 4 (streamname (header ?p)) (bytes_of ''INFO'' @ [0]) = Some u"
      "strn_eq 4 (streamname (header ?p)) (bytes_of ''info'' @ [0]) = Some l"
      "strn_eq 5 (pdata ?p) (bytes_of ''/info'' @ [0]) = Some a" "strn_eq 5 (pdata ?p) (bytes_of ''/INFO'' @ [0]) = Some A"
    using strn_eq_short [of 4 "bytes_of ''INFO'' @ [0]" "streamname (header ?p)"]
      strn_eq_short [of 4 "bytes_of ''info'' @ [0]" "streamname (header ?p)"]
      strn_eq_short [of 5 "bytes_of ''/info'' @ [0]" "pdata ?p"] strn_eq_short [of 5 "bytes_of ''/INFO'' @ [0]" "pdata ?p"] len
    by (auto simp: vban_sizes)
  obtain c' t where c': "vban_fill_receptor_info ?st = Some c'" "c' = ?st\<lparr>info := info c'\<rparr>" "header_ok (header (info c'))"
      "holds VBAN_DATA_MAX_SIZE t (pdata (info c'))" "length t \<le> 200"
    using fill_info_short [OF assms(1)] by blast
  let ?x = "bytes_of '' max_clients='' @ dec_int (int (nboutputs c')) @ bytes_of '' free_clients='' @
    dec_int (int (nboutputs c') - int (ms_num s))"
  have nb: "nboutputs c' < 2 ^ 16"
    using assms(1) by (subst c'(2)) (simp add: stream_fine_def)
  have "\<bar>int (nboutputs c') - int (ms_num s)\<bar> < 10 ^ 5" using nb assms(3) by simp
  then have lx: "length ?x \<le> 50"
    using length_dec_int [of "int (nboutputs c')" 5] length_dec_int [of "int (nboutputs c') - int (ms_num s)" 5] nb by simp
  have zx: "0 \<notin> set ?x" by (auto simp: bytes_of_def no_zero)
  obtain d where d: "c_append (pdata (info c')) ?x = Some d" "holds VBAN_DATA_MAX_SIZE (t @ ?x) d"
    using c_append_holds [OF c'(4) zx] lx c'(5) by (auto simp: vban_sizes)
  let ?i = "(info c')\<lparr>pdata := d\<rparr>"
  have "packet_ok ?i" using c'(3) d(2) by (simp add: packet_ok_def holds_def)
  then have "VBAN_HEADER_SIZE + length (t @ ?x) \<le> length (packet_bytes ?i)"
    using lx c'(5) by (simp add: length_packet_bytes vban_sizes)
  from udp_send_ok [OF this] obtain sock ev r where
    send: "udp_send (rxsock (c'\<lparr>info := ?i\<rparr>)) (ansport (c'\<lparr>info := ?i\<rparr>)) (packet_bytes ?i) (VBAN_HEADER_SIZE + length (t @ ?x)) 0 0
      = Some (sock, ev, r)" by blast
  have upd: "c'\<lparr>info := ?i\<rparr> = ?st\<lparr>info := ?i\<rparr>" by (subst c'(2)) simp
  show ?thesis
  proof (cases "(u \<or> l) \<and> (a \<or> A)")
    case False
    then have "ms_info s = Some (s, [])"
      unfolding ms_info_def Let_def q Option.bind.bind_lunit by (simp only: if_False)
    then show ?thesis by (intro exI [of _ "info ?st"] exI [of _ "rxsock ?st"] exI [of _ "[]"]) simp
  next
    case True
    show ?thesis
    proof (cases "rxport (c'\<lparr>info := ?i\<rparr>) = 0")
      case port: True
      have "ms_info s = Some (s\<lparr>ms_stream := c'\<lparr>info := ?i\<rparr>\<rparr>, [])"
        unfolding ms_info_def Let_def q Option.bind.bind_lunit c'(1) d(1) using True port by simp
      then show ?thesis unfolding upd by (intro exI [of _ ?i] exI [of _ "rxsock ?st"] exI [of _ "[]"]) simp
    next
      case port: False
      have "ms_info s = Some (s\<lparr>ms_stream := c'\<lparr>info := ?i, rxsock := sock\<rparr>\<rparr>, [ev])"
        unfolding ms_info_def Let_def q Option.bind.bind_lunit c'(1) d(1) holds_c_string [OF d(2)] using True port send by simp
      moreover have "c'\<lparr>info := ?i, rxsock := sock\<rparr> = ?st\<lparr>info := ?i, rxsock := sock\<rparr>" unfolding upd by simp
      ultimately show ?thesis by metis
    qed
  qed
qed


section \<open>The clients as a list\<close>

text \<open>
  The abstract receptor: a list of clients with distinct keys (address and name). A packet clears the
  timer of its client or admits a new one when there is room; a tick removes the first client whose
  timer is 4 and counts the timers before it.
\<close>

definition client_key :: "'a client_scheme \<Rightarrow> u32 \<times> byte list" where
  "client_key c = (cl_ip c, streamname (cl_header c))"

fun pos :: "u32 \<times> byte list \<Rightarrow> client list \<Rightarrow> nat option" where
  "pos k [] = None"
| "pos k (c # cs) = (if client_key c = k then Some 0 else map_option Suc (pos k cs))"

definition abs_admit :: "nat \<Rightarrow> client \<Rightarrow> client list \<Rightarrow> client list" where
  "abs_admit m new cs = (if cs = [] \<or> length cs < m then cs @ [new] else cs)"

definition abs_route :: "u32 \<times> byte list \<Rightarrow> nat \<Rightarrow> client \<Rightarrow> client list \<Rightarrow> client list" where
  "abs_route k m new cs =
     (case pos k cs of Some i \<Rightarrow> cs[i := (cs ! i)\<lparr>timer := 0\<rparr>] | None \<Rightarrow> abs_admit m new cs)"

fun abs_tick :: "client list \<Rightarrow> client list \<times> client option" where
  "abs_tick [] = ([], None)"
| "abs_tick (c # cs) =
     (if timer c = 4 then (cs, Some c)
      else (c\<lparr>timer := timer c + 1\<rparr> # fst (abs_tick cs), snd (abs_tick cs)))"

definition clients_fine :: "nat \<Rightarrow> client list \<Rightarrow> bool" where
  "clients_fine m cs \<longleftrightarrow> distinct (map client_key cs) \<and> length cs \<le> max 1 m \<and>
     (\<forall>c \<in> set cs. timer c \<le> 4 \<and> length (streamname (cl_header c)) = 16)"

lemma pos_Some: "pos k cs = Some i \<Longrightarrow> i < length cs \<and> client_key (cs ! i) = k"
  by (induction cs arbitrary: i) (auto split: if_splits)

lemma pos_None: "pos k cs = None \<longleftrightarrow> k \<notin> client_key ` set cs"
  by (induction cs) auto

lemma pos_nth: "distinct (map client_key cs) \<Longrightarrow> i < length cs \<Longrightarrow> pos (client_key (cs ! i)) cs = Some i"
proof (induction cs arbitrary: i)
  case (Cons c cs)
  then show ?case by (cases i) force+
qed simp

lemma client_key_timer [simp]: "client_key (c\<lparr>timer := t\<rparr>) = client_key c"
  by (simp add: client_key_def)

lemma keys_update [simp]: "i < length cs \<Longrightarrow> map client_key (cs[i := (cs ! i)\<lparr>timer := t\<rparr>]) = map client_key cs"
  by (intro nth_equalityI) (auto simp: nth_list_update)

lemma keys_tick: "map client_key (fst (abs_tick cs)) = (case snd (abs_tick cs) of None \<Rightarrow> map client_key cs
    | Some c \<Rightarrow> remove1 (client_key c) (map client_key cs))" if "distinct (map client_key cs)"
  using that
proof (induction cs)
  case (Cons c cs)
  have "d \<in> set cs" if "snd (abs_tick cs) = Some d" for d
    using that by (induction cs) (auto split: if_splits)
  then have "client_key d \<noteq> client_key c" if "snd (abs_tick cs) = Some d" for d
    using that Cons.prems by (metis distinct.simps(2) image_eqI list.simps(9) list.set_map)
  then show ?case using Cons by (auto split: option.split)
qed simp

lemma route_fine:
  assumes "clients_fine m cs" and "client_key new = k" and "timer new = 0" and "length (snd k) = 16"
  shows "clients_fine m (abs_route k m new cs)"
proof (cases "pos k cs")
  case None
  have "length (streamname (cl_header new)) = 16" using assms(2,4) by (auto simp: client_key_def)
  then have "clients_fine m (abs_admit m new cs)" using assms(1-3) None
    by (auto simp: abs_admit_def clients_fine_def pos_None)
  then show ?thesis using None by (simp add: abs_route_def)
next
  case (Some i)
  then have "i < length cs" using pos_Some by blast
  then show ?thesis using assms(1) Some
    by (auto simp: abs_route_def clients_fine_def simp del: map_update dest!: set_update_subset_insert [THEN subsetD])
qed

lemma length_tick: "length (fst (abs_tick cs)) = (if snd (abs_tick cs) = None then length cs else length cs - 1)"
proof (induction cs)
  case (Cons c cs)
  have "cs \<noteq> []" if "snd (abs_tick cs) \<noteq> None" using that by auto
  then show ?case using Cons by auto
qed simp

lemma tick_fine: "clients_fine m cs \<Longrightarrow> clients_fine m (fst (abs_tick cs))"
proof -
  assume a: "clients_fine m cs"
  have "\<forall>c \<in> set (fst (abs_tick cs)). timer c \<le> 4 \<and> length (streamname (cl_header c)) = 16"
    if "\<forall>c \<in> set cs. timer c \<le> 4 \<and> length (streamname (cl_header c)) = 16"
    using that by (induction cs) auto
  moreover have "distinct (map client_key (fst (abs_tick cs)))"
    using a keys_tick [of cs] by (auto simp: clients_fine_def split: option.splits)
  ultimately show ?thesis using a length_tick [of cs] by (auto simp: clients_fine_def split: if_splits)
qed


section \<open>The operations on the heap\<close>

lemma truncate_fields [simp]:
  "cl_ip (client.truncate c) = cl_ip c" "cl_header (client.truncate c) = cl_header c" "cl_port (client.truncate c) = cl_port c"
  "timer (client.truncate c) = timer c" "pipedesc (client.truncate c) = pipedesc c" "pid (client.truncate c) = pid c"
  "txpid (client.truncate c) = txpid c" "client_key (client.truncate c) = client_key c"
  "client.truncate (c\<lparr>timer := t\<rparr>) = (client.truncate c)\<lparr>timer := t\<rparr>"
  by (simp_all add: client.truncate_def client_key_def)

definition ms_ok :: "ms \<Rightarrow> client list \<Rightarrow> bool" where
  "ms_ok s cs \<longleftrightarrow> list_repr (ms_heap s) (ms_clients s) cs \<and> finite (dom (ms_heap s)) \<and> ms_num s = length cs \<and>
     ms_max s < 256 \<and> clients_fine (ms_max s) cs \<and> packet_ok (ms_packet s) \<and> stream_fine (ms_stream s) \<and> 0 \<in> set (ms_cmd s)"

text \<open>What is assumed of \<open>malloc\<close>: an unused address.\<close>

definition good_alloc :: "(heap \<Rightarrow> ptr) \<Rightarrow> bool" where
  "good_alloc alloc \<longleftrightarrow> (\<forall>h. finite (dom h) \<longrightarrow> (\<exists>a. alloc h = Some a \<and> h a = None))"

lemma mem_eq_16: "length a = 16 \<Longrightarrow> length b = 16 \<Longrightarrow> mem_eq VBAN_STREAM_NAME_SIZE a b = Some (a = b)"
  by (simp add: mem_eq_def mem vban_sizes)

lemma find_client_ok:
  assumes "chain h p as" and "clients_at h as = cs" and "length name = 16"
    and "\<forall>c \<in> set cs. length (streamname (cl_header c)) = 16"
  shows "find_client h ip name (length cs) p = Some (map_option (nth as) (pos (ip, name) cs))"
  using assms
proof (induction as arbitrary: p cs)
  case (Cons a as)
  then obtain c where c: "p = Some a" "h a = Some c" "chain h (nxt c) as" by auto
  then have cs: "cs = client.truncate c # clients_at h as" using Cons.prems(2) by simp
  have IH: "find_client h ip name (length (clients_at h as)) (nxt c) = Some (map_option (nth as) (pos (ip, name) (clients_at h as)))"
    using Cons.prems(3,4) c(3) cs by (intro Cons.IH) auto
  have "length (streamname (cl_header c)) = 16" using Cons.prems(4) cs by simp
  then have eq: "mem_eq VBAN_STREAM_NAME_SIZE name (streamname (cl_header c)) = Some (name = streamname (cl_header c))"
    using Cons.prems(3) by (intro mem_eq_16) auto
  show ?case using c cs IH eq
    by (auto simp: client_key_def option.map_comp comp_def simp del: clients_at_simps(4))
qed simp

lemma deliver_ok:
  assumes "ms_ok s cs" and "chain (ms_heap s) (ms_clients s) as" and "distinct as" and "clients_at (ms_heap s) as = cs"
    and "i < length cs" and "0 \<le> n" and "n \<le> int VBAN_PROTOCOL_MAX_SIZE"
  shows "\<exists>h. ms_deliver (as ! i) n s = Some (s\<lparr>ms_heap := h\<rparr>,
      [Write (pipedesc (cs ! i)) (take (nat n) (packet_bytes (ms_packet s)))]) \<and>
    list_repr h (ms_clients s) (cs[i := (cs ! i)\<lparr>timer := 0\<rparr>]) \<and> finite (dom h)"
proof -
  have len: "length as = length cs" using assms(4) by auto
  then have i: "i < length as" "as ! i \<in> set as" using assms(5) by auto
  obtain c where c: "ms_heap s (as ! i) = Some c" using chain_mapped [OF assms(2) i(2)] by blast
  have ci: "cs ! i = client.truncate c" using assms(4) i(1) c by (auto simp: clients_at_def)
  let ?h = "(ms_heap s)(as ! i \<mapsto> c\<lparr>timer := 0\<rparr>)"
  have "chain ?h (ms_clients s) as" using assms(2) c by (subst chain_update) auto
  moreover have "clients_at ?h as = cs[i := (cs ! i)\<lparr>timer := 0\<rparr>]"
    using clients_at_update [OF assms(3) i(1), of "ms_heap s"] assms(4) ci by simp
  ultimately have "list_repr ?h (ms_clients s) (cs[i := (cs ! i)\<lparr>timer := 0\<rparr>])"
    unfolding list_repr_def using assms(3) by blast
  moreover have "nat n \<le> length (packet_bytes (ms_packet s))"
    using assms(1,7) by (simp add: ms_ok_def length_packet_bytes)
  ultimately show ?thesis
    using assms(1) c ci by (intro exI [of _ ?h]) (simp add: ms_deliver_def mem ms_ok_def)
qed


lemma pop_dom: "pop h p = Some (h', p', r) \<Longrightarrow> dom h' \<subseteq> dom h"
  by (auto simp: pop_def free_node_def split: option.splits bind_splits if_splits)

lemma remove_by_index_dom: "remove_by_index h p n = Some (h', p', r) \<Longrightarrow> dom h' \<subseteq> dom h"
  by (auto simp: remove_by_index_def free_node_def dest: pop_dom split: option.splits bind_splits if_splits sum.splits)

text \<open>A new client: its node is the fresh one with the processes' results.\<close>

lemma start_client_ok:
  assumes "stream_fine (ms_stream s)" and "packet_ok (ms_packet s)" and "0 \<in> set (ms_cmd s)"
  shows "\<exists>c evs. start_client ans (ms_cmd s) (ms_stream s) (fresh_client s) = Some (c, evs) \<and> nxt c = None \<and>
    client_key c = (ms_ip s, streamname (header (ms_packet s))) \<and> timer c = 0 \<and>
    pid c = fst (popen2 (cstr (ms_cmd s)) True False (a_rx ans))"
proof -
  obtain p infd x evs where p: "popen2 (cstr (ms_cmd s)) True False (a_rx ans) = (p, infd, x, evs)"
    by (metis surj_pair)
  let ?c = "(fresh_client s)\<lparr>pipedesc := (case infd of None \<Rightarrow> pipedesc (fresh_client s) | Some f \<Rightarrow> f), pid := p\<rparr>"
  have c: "nuFrame (cl_header ?c) = 0" "length (streamname (cl_header ?c)) = 16" "cl_port ?c < 2 ^ 16" "nxt ?c = None"
      "client_key ?c = (ms_ip s, streamname (header (ms_packet s)))" "timer ?c = 0" "pid ?c = p"
    using assms(2) unsigned_less [of "ms_port s", where ?'a = nat]
    by (simp_all add: fresh_client_def packet_ok_def header_ok_def vban_sizes zero_node_def client_key_def)
  obtain b where b: "tx_command (ms_stream s) ?c = Some b" "holds 256 (tx_text (ms_stream s) ?c) b"
    using tx_command_ok [OF c(1-3)] by blast
  obtain q y outfd evs' where q: "popen2 (tx_text (ms_stream s) ?c) False True (a_tx ans) = (q, y, outfd, evs')"
    by (metis surj_pair)
  have cmd: "c_string (ms_cmd s) = Some (cstr (ms_cmd s))" using assms(3) by (simp add: c_string_def)
  show ?thesis
  proof (cases "rxport (ms_stream s) \<noteq> 0 \<and> flag_set (flags (ms_stream s)) DUPLEX")
    case True
    then have "start_client ans (ms_cmd s) (ms_stream s) (fresh_client s) =
        Some (?c\<lparr>txpipedesc := (case outfd of None \<Rightarrow> txpipedesc ?c | Some f \<Rightarrow> f), txpid := q\<rparr>, evs @ evs')"
      by (simp add: start_client_def Let_def cmd p b(1) holds_c_string [OF b(2)] q del: client.update_convs)
    then show ?thesis using c p by (simp add: client_key_def)
  next
    case False
    then have "start_client ans (ms_cmd s) (ms_stream s) (fresh_client s) = Some (?c, evs)"
      by (auto simp: start_client_def cmd p)
    then show ?thesis using c p by (intro exI [of _ ?c] exI [of _ evs]) simp
  qed
qed

definition admitted :: "ms_answers \<Rightarrow> ms \<Rightarrow> client" where
  "admitted ans s = client.truncate (fst (the (start_client ans (ms_cmd s) (ms_stream s) (fresh_client s))))"

lemma new_client_ok:
  assumes "ms_ok s cs" and "good_alloc alloc"
  shows "\<exists>h p evs. new_client alloc ans s = Some (s\<lparr>ms_heap := h, ms_clients := p,
      ms_num := length (abs_admit (ms_max s) (admitted ans s) cs)\<rparr>, evs) \<and>
    list_repr h p (abs_admit (ms_max s) (admitted ans s) cs) \<and> finite (dom h)"
proof -
  have ok: "list_repr (ms_heap s) (ms_clients s) cs" "finite (dom (ms_heap s))" "ms_num s = length cs"
      "ms_max s < 256" "length cs \<le> max 1 (ms_max s)"
    using assms(1) by (simp_all add: ms_ok_def clients_fine_def)
  obtain a where a: "alloc (ms_heap s) = Some a" "ms_heap s a = None" using assms(2) ok(2) unfolding good_alloc_def by blast
  obtain c evs where c: "start_client ans (ms_cmd s) (ms_stream s) (fresh_client s) = Some (c, evs)" "nxt c = None"
    using start_client_ok [of s ans] assms(1) unfolding ms_ok_def by blast
  have adm: "admitted ans s = client.truncate c" by (simp add: admitted_def c(1))
  obtain as where as: "chain (ms_heap s) (ms_clients s) as" "distinct as" "clients_at (ms_heap s) as = cs" "length as = length cs"
    using ok(1) by (rule list_reprE)
  show ?thesis
  proof (cases "ms_clients s")
    case None
    then have cs: "cs = []" using as by (cases as) auto
    have "list_repr ((ms_heap s)(a \<mapsto> c)) (Some a) [client.truncate c]"
      unfolding list_repr_def using c(2) by (intro exI [of _ "[a]"]) simp
    then show ?thesis using None a c(1) cs ok(2,3)
      by (intro exI [of _ "(ms_heap s)(a \<mapsto> c)"] exI [of _ "Some a"] exI [of _ evs])
        (simp add: new_client_def abs_admit_def adm to_u8_def)
  next
    case (Some p)
    then have ne: "as \<noteq> []" "cs \<noteq> []" using as by auto
    then obtain bs b where bs: "as = bs @ [b]" by (cases as rule: rev_exhaust) auto
    obtain d where d: "ms_heap s b = Some d" using chain_snoc as(1) bs by blast
    have last: "last_node (ms_heap s) p = Some b" using last_node_ok as(1) bs Some by simp
    have repr: "list_repr ((ms_heap s)(b \<mapsto> d\<lparr>nxt := Some a\<rparr>, a \<mapsto> c)) (Some p) (cs @ [client.truncate c])"
      using link_ok [OF as(1-3) ne(1) a(2) c(2)] d bs Some by simp
    show ?thesis
    proof (cases "length cs < ms_max s")
      case True
      then have "to_u8 (int (length cs) + 1) = length cs + 1" using ok(4) by (simp add: to_u8_def)
      then show ?thesis using True Some ok(2,3) last d a c(1) repr ne
        by (intro exI [of _ "(ms_heap s)(b \<mapsto> d\<lparr>nxt := Some a\<rparr>, a \<mapsto> c)"] exI [of _ "Some p"] exI [of _ evs])
          (simp add: new_client_def abs_admit_def adm)
    next
      case False
      then show ?thesis using Some ok ne
        by (intro exI [of _ "ms_heap s"] exI [of _ "Some p"] exI [of _ "[]"]) (simp add: new_client_def abs_admit_def)
    qed
  qed
qed


lemma route_ok:
  assumes "ms_ok s cs" and "good_alloc alloc" and "0 \<le> n" and "n \<le> int VBAN_PROTOCOL_MAX_SIZE"
    and "k = (ms_ip s, streamname (header (ms_packet s)))" and "cs' = abs_route k (ms_max s) (admitted ans s) cs"
  shows "\<exists>h p evs. ms_route alloc ans n s = Some (s\<lparr>ms_heap := h, ms_clients := p, ms_num := length cs'\<rparr>, evs) \<and>
    ms_ok (s\<lparr>ms_heap := h, ms_clients := p, ms_num := length cs'\<rparr>) cs' \<and>
    (\<forall>i. pos k cs = Some i \<longrightarrow> evs = [Write (pipedesc (cs ! i)) (take (nat n) (packet_bytes (ms_packet s)))])"
proof -
  have name: "length (streamname (header (ms_packet s))) = 16"
    using assms(1) by (simp add: ms_ok_def packet_ok_def header_ok_def vban_sizes)
  obtain c evs where c: "start_client ans (ms_cmd s) (ms_stream s) (fresh_client s) = Some (c, evs)" "client_key c = k" "timer c = 0"
    using start_client_ok [of s ans] assms(1,5) unfolding ms_ok_def by blast
  have fine: "clients_fine (ms_max s) cs'"
    unfolding assms(6) using assms(1,5) c name by (intro route_fine) (simp_all add: ms_ok_def admitted_def)
  have step: "ms_ok (s\<lparr>ms_heap := h, ms_clients := p, ms_num := length cs'\<rparr>) cs'" if "list_repr h p cs'" "finite (dom h)" for h p
    using assms(1) that fine by (simp add: ms_ok_def)
  obtain as where as: "chain (ms_heap s) (ms_clients s) as" "distinct as" "clients_at (ms_heap s) as = cs" "length as = length cs"
    using assms(1) unfolding ms_ok_def by (auto elim: list_reprE)
  have find: "find_client (ms_heap s) (ms_ip s) (streamname (header (ms_packet s))) (ms_num s) (ms_clients s) =
      Some (map_option (nth as) (pos k cs))"
    using find_client_ok [OF as(1,3) name, of "ms_ip s"] assms(1,5) by (simp add: ms_ok_def clients_fine_def)
  show ?thesis
  proof (cases "pos k cs")
    case None
    then have cs': "cs' = abs_admit (ms_max s) (admitted ans s) cs" using assms(6) by (simp add: abs_route_def)
    obtain h p ev where "new_client alloc ans s = Some (s\<lparr>ms_heap := h, ms_clients := p, ms_num := length cs'\<rparr>, ev)"
        "list_repr h p cs'" "finite (dom h)"
      using new_client_ok [OF assms(1,2), of ans] unfolding cs' by blast
    then show ?thesis using step [of h p] None
      by (intro exI [of _ h] exI [of _ p] exI [of _ ev]) (simp add: ms_route_def find)
  next
    case (Some i)
    then have i: "i < length cs" using pos_Some by blast
    have cs': "cs' = cs[i := (cs ! i)\<lparr>timer := 0\<rparr>]" using assms(6) Some by (simp add: abs_route_def)
    have num: "ms_num s = length cs'" using assms(1) cs' by (simp add: ms_ok_def)
    obtain h where h: "ms_deliver (as ! i) n s = Some (s\<lparr>ms_heap := h\<rparr>,
        [Write (pipedesc (cs ! i)) (take (nat n) (packet_bytes (ms_packet s)))])" "list_repr h (ms_clients s) cs'" "finite (dom h)"
      using deliver_ok [OF assms(1) as(1-3) i assms(3,4)] unfolding cs' by blast
    have "s\<lparr>ms_heap := h\<rparr> = s\<lparr>ms_heap := h, ms_clients := ms_clients s, ms_num := length cs'\<rparr>" using num by simp
    then show ?thesis using h step [of h "ms_clients s"] Some
      by (intro exI [of _ h] exI [of _ "ms_clients s"]
          exI [of _ "[Write (pipedesc (cs ! i)) (take (nat n) (packet_bytes (ms_packet s)))]"]) (simp add: ms_route_def find)
  qed
qed

lemma relay_ok:
  assumes "packet_ok (ms_packet s)" and "0 \<le> n" and "n + 6 \<le> int VBAN_PROTOCOL_MAX_SIZE"
  shows "\<exists>sock evs. ms_relay n s = Some (s\<lparr>ms_stream := (ms_stream s)\<lparr>rxsock := sock\<rparr>\<rparr>, evs)"
proof -
  let ?bs = "packet_bytes (ms_packet s)"
  have len: "nat n + 6 \<le> length ?bs" using assms by (simp add: length_packet_bytes)
  then have l: "mem_load ?bs (nat n) 4 = Some (take 4 (drop (nat n) ?bs))"
      "mem_load ?bs (nat n + 4) 2 = Some (take 2 (drop (nat n + 4) ?bs))" by (simp_all add: mem)
  from len have "nat n \<le> length ?bs" by simp
  from udp_send_ok [OF this] obtain sock ev r where
    "udp_send (rxsock (ms_stream s)) (htons (of_le16 (take 2 (drop (nat n + 4) ?bs)))) ?bs (nat n)
      (of_le32 (take 4 (drop (nat n) ?bs))) 0 = Some (sock, ev, r)" by blast
  then show ?thesis unfolding ms_relay_def Let_def l Option.bind.bind_lunit
    by (cases "rxport (ms_stream s) = 0") (auto intro: exI [of _ "rxsock (ms_stream s)"])
qed

text \<open>The timer's pass over the list.\<close>

definition tick_io :: "client option \<Rightarrow> io list" where
  "tick_io r = (case r of None \<Rightarrow> [] | Some c \<Rightarrow> end_processes (pid c) (txpid c))"

lemma timer_loop_ok:
  assumes "chain (ms_heap s) (ms_clients s) (as @ bs)" and "distinct (as @ bs)"
    and "clients_at (ms_heap s) as = ps" and "clients_at (ms_heap s) bs = cs"
    and "chain (ms_heap s) client bs" and "ms_num s = length ps + length cs" and "ms_num s < 256"
    and "\<forall>c \<in> set cs. timer c \<le> 4"
  shows "\<exists>h p. timer_loop s client (length ps) (length cs) =
      Some (s\<lparr>ms_heap := h, ms_clients := p, ms_num := length ps + length (fst (abs_tick cs))\<rparr>, tick_io (snd (abs_tick cs))) \<and>
    list_repr h p (ps @ fst (abs_tick cs)) \<and> dom h \<subseteq> dom (ms_heap s)"
  using assms
proof (induction bs arbitrary: s as ps cs client)
  case Nil
  then have "list_repr (ms_heap s) (ms_clients s) ps" unfolding list_repr_def by (intro exI [of _ as]) simp
  moreover have "cs = []" using Nil(4) by simp
  moreover have "s = s\<lparr>ms_heap := ms_heap s, ms_clients := ms_clients s, ms_num := length ps\<rparr>"
    using Nil(6) \<open>cs = []\<close> by simp
  ultimately show ?case by (intro exI [of _ "ms_heap s"] exI [of _ "ms_clients s"]) (simp add: tick_io_def)
next
  case (Cons b bs)
  then obtain c where c: "client = Some b" "ms_heap s b = Some c" "chain (ms_heap s) (nxt c) bs" by auto
  obtain ds where ds: "cs = client.truncate c # ds" "clients_at (ms_heap s) bs = ds" using Cons.prems(4) c(2) by auto
  have len: "length as = length ps" using Cons.prems(3) by auto
  show ?case
  proof (cases "timer c = 4")
    case True
    have "clients_at (ms_heap s) (as @ b # bs) = ps @ cs" using Cons.prems(3,4) by simp
    then have repr: "list_repr (ms_heap s) (ms_clients s) (ps @ cs)"
      unfolding list_repr_def using Cons.prems(1,2) by blast
    from client_list.drop_client [OF repr, of "length ps"] ds(1)
    obtain h p where h: "(if length ps = 0 then pop (ms_heap s) (ms_clients s)
        else remove_by_index (ms_heap s) (ms_clients s) (int (length ps))) = Some (h, p, 0)" "list_repr h p (ps @ ds)"
      by auto
    have d: "dom h \<subseteq> dom (ms_heap s)" using h(1) by (auto dest: pop_dom remove_by_index_dom split: if_splits)
    have n: "length ps \<noteq> ms_num s" "to_u8 (int (ms_num s) - 1) = length ps + length ds"
      using Cons.prems(6,7) ds(1) by (simp_all add: to_u8_def)
    have "timer_loop s client (length ps) (length cs) =
        Some (s\<lparr>ms_heap := h, ms_clients := p, ms_num := length ps + length ds\<rparr>, end_processes (pid c) (txpid c))"
      using h(1) n ds(1) c True by (cases "length ps = 0") (simp_all split: if_splits)
    then show ?thesis using h(2) d ds(1) True by (intro exI [of _ h] exI [of _ p]) (simp add: tick_io_def)
  next
    case False
    have t: "to_u8 (int (timer c) + 1) = timer c + 1" using Cons.prems(8) ds(1) by (simp add: to_u8_def)
    let ?c = "c\<lparr>timer := timer c + 1\<rparr>"
    let ?h = "(ms_heap s)(b \<mapsto> ?c)" and ?s = "s\<lparr>ms_heap := (ms_heap s)(b \<mapsto> ?c)\<rparr>"
    have b: "b \<notin> set as" "b \<notin> set bs" using Cons.prems(2) by auto
    have "clients_at ?h xs = clients_at (ms_heap s) xs" if "b \<notin> set xs" for xs
      using that by (intro clients_at_cong) auto
    then have at: "clients_at ?h as = ps" "clients_at ?h bs = ds" using Cons.prems(3) ds(2) b by simp_all
    have ch: "chain ?h (nxt c) bs" using c by (subst chain_update) auto
    have "\<exists>h p. timer_loop ?s (nxt c) (length (ps @ [client.truncate ?c])) (length ds) =
        Some (?s\<lparr>ms_heap := h, ms_clients := p, ms_num := length (ps @ [client.truncate ?c]) + length (fst (abs_tick ds))\<rparr>,
          tick_io (snd (abs_tick ds))) \<and>
      list_repr h p ((ps @ [client.truncate ?c]) @ fst (abs_tick ds)) \<and> dom h \<subseteq> dom (ms_heap ?s)"
    proof (rule Cons.IH [of _ "as @ [b]"])
      show "chain (ms_heap ?s) (ms_clients ?s) ((as @ [b]) @ bs)"
        using Cons.prems(1) c(2) by (simp add: chain_update)
      show "clients_at (ms_heap ?s) (as @ [b]) = ps @ [client.truncate ?c]" using at by simp
      show "clients_at (ms_heap ?s) bs = ds" using at by simp
      show "chain (ms_heap ?s) (nxt c) bs" using ch by simp
    qed (use Cons.prems(2,6-8) ds(1) in simp_all)
    then obtain h p where *: "timer_loop ?s (nxt c) (length ps + 1) (length ds) =
        Some (s\<lparr>ms_heap := h, ms_clients := p, ms_num := length ps + 1 + length (fst (abs_tick ds))\<rparr>, tick_io (snd (abs_tick ds)))"
      "list_repr h p (ps @ client.truncate ?c # fst (abs_tick ds))" "dom h \<subseteq> dom ?h" by auto
    have "timer_loop s client (length ps) (length cs) = timer_loop ?s (nxt c) (length ps + 1) (length ds)"
      using c False t ds(1) by simp
    moreover have "dom ?h = dom (ms_heap s)" using c(2) by auto
    ultimately show ?thesis using * ds(1) False by (intro exI [of _ h] exI [of _ p]) simp
  qed
qed

lemma tick_ok:
  assumes "ms_ok s cs" and "flag_set (flags (ms_stream s)) RECEIVING"
  shows "\<exists>h p. timer_tick s =
      Some (s\<lparr>ms_heap := h, ms_clients := p, ms_num := length (fst (abs_tick cs))\<rparr>, tick_io (snd (abs_tick cs))) \<and>
    ms_ok (s\<lparr>ms_heap := h, ms_clients := p, ms_num := length (fst (abs_tick cs))\<rparr>) (fst (abs_tick cs))"
proof -
  obtain as where as: "chain (ms_heap s) (ms_clients s) as" "distinct as" "clients_at (ms_heap s) as = cs" "length as = length cs"
    using assms(1) unfolding ms_ok_def by (auto elim: list_reprE)
  have n: "ms_num s = length cs" "length cs < 256" "\<forall>c \<in> set cs. timer c \<le> 4"
    using assms(1) by (auto simp: ms_ok_def clients_fine_def)
  obtain h p where h: "timer_loop s (ms_clients s) 0 (length cs) =
      Some (s\<lparr>ms_heap := h, ms_clients := p, ms_num := length (fst (abs_tick cs))\<rparr>, tick_io (snd (abs_tick cs)))"
      "list_repr h p (fst (abs_tick cs))" "dom h \<subseteq> dom (ms_heap s)"
    using timer_loop_ok [of s "[]" as "[]" cs "ms_clients s"] as n by auto
  have "finite (dom h)" using h(3) assms(1) finite_subset unfolding ms_ok_def by blast
  then show ?thesis using h assms n(1) tick_fine [of "ms_max s" cs]
    by (intro exI [of _ h] exI [of _ p]) (simp add: timer_tick_def ms_ok_def)
qed


section \<open>Datagrams\<close>

text \<open>A datagram that carries audio or MIDI data of the length its header announces, and its stream.\<close>

definition stream_packet :: "byte list \<Rightarrow> bool" where
  "stream_packet bs \<longleftrightarrow> VBAN_HEADER_SIZE \<le> length bs \<and>
     (let h = header_of_bytes bs in vban h = VBAN_HEADER_FOURC \<and>
        (is_protocol VBAN_PROTOCOL_AUDIO (format_SR h) \<or> is_protocol VBAN_PROTOCOL_SERIAL (format_SR h)) \<and>
        announced h = Some (int (length bs) - int VBAN_HEADER_SIZE))"

definition datagram_key :: "byte list \<Rightarrow> u32 \<Rightarrow> u32 \<times> byte list" where
  "datagram_key bs ip = (ip, take 16 (drop 8 bs))"

fun event_key :: "ms_event \<Rightarrow> (u32 \<times> byte list) option" where
  "event_key (Incoming _ (Udp_packet (Inr (bs, ip, _)))) = (if stream_packet bs then Some (datagram_key bs ip) else None)"
| "event_key _ = None"

text \<open>Events of a receptor on a socket: \<open>recvfrom\<close> returns at most what was asked for.\<close>

fun event_ok :: "ms_event \<Rightarrow> bool" where
  "event_ok (Incoming _ (Udp_packet (Inr (bs, _, _)))) \<longleftrightarrow> length bs \<le> VBAN_PROTOCOL_MAX_SIZE"
| "event_ok (Incoming _ (Udp_packet (Inl _))) \<longleftrightarrow> True"
| "event_ok (Incoming _ (Pipe_packet _ _)) \<longleftrightarrow> False"
| "event_ok Tick \<longleftrightarrow> True"

definition same_setup :: "ms \<Rightarrow> ms \<Rightarrow> bool" where
  "same_setup s s' \<longleftrightarrow> ms_max s' = ms_max s \<and> rxport (ms_stream s') = rxport (ms_stream s) \<and>
     flags (ms_stream s') = flags (ms_stream s)"

lemma same_setup_trans: "same_setup s t \<Longrightarrow> same_setup t u \<Longrightarrow> same_setup s u"
  by (simp add: same_setup_def)

lemma header_of_prefix:
  assumes "VBAN_HEADER_SIZE \<le> length bs"
  shows "header_of_bytes (bs @ xs) = header_of_bytes bs"
proof -
  have "of_le32 (b @ xs) = of_le32 b" if "4 \<le> length b" for b
    using that by (cases b) (auto simp: of_le32_def nth_append)
  from this [of bs] this [of "drop 24 bs"] show ?thesis
    using assms by (simp add: header_of_bytes_def nth_append vban_sizes)
qed

lemma stored_datagram:
  assumes "packet_ok p" and "length bs \<le> VBAN_PROTOCOL_MAX_SIZE"
  shows "take (length bs) (packet_bytes (packet_store p bs)) = bs"
    and "VBAN_HEADER_SIZE \<le> length bs \<Longrightarrow> header (packet_store p bs) = header_of_bytes bs"
proof -
  have "length (blit (packet_bytes p) 0 bs) = VBAN_PROTOCOL_MAX_SIZE"
    using assms by (simp add: length_packet_bytes)
  then have "packet_bytes (packet_store p bs) = blit (packet_bytes p) 0 bs"
    unfolding packet_store_def by (rule packet_bytes_packet_of_bytes)
  then show "take (length bs) (packet_bytes (packet_store p bs)) = bs" by (simp add: blit_0)
  show "header (packet_store p bs) = header_of_bytes bs" if "VBAN_HEADER_SIZE \<le> length bs"
    using header_of_prefix [OF that] by (simp add: packet_store_def packet_of_bytes_def blit_0)
qed

lemma announced_Some: "\<exists>n. announced h = Some (int n)"
proof -
  have "unat (format_bit h AND 7) \<le> 7" using word_and_le1 [of "format_bit h" 7] word_le_nat_alt by force
  then have "unat (format_bit h AND 7) < length VBanBitResolutionSize" by (simp add: VBanBitResolutionSize_def)
  then show ?thesis unfolding announced_def bit_size_def by (simp only: if_True Option.bind.bind_lunit) blast
qed

lemma handle_cases:
  assumes "\<not> (len = rightlen \<and> vban (header (ms_packet s)) = VBAN_HEADER_FOURC \<and>
    (is_protocol VBAN_PROTOCOL_AUDIO (format_SR (header (ms_packet s))) \<or> is_protocol VBAN_PROTOCOL_SERIAL (format_SR (header (ms_packet s)))))"
  shows "len = rightlen \<and> ms_handle alloc ans len rightlen s = ms_info s \<or>
    len = rightlen + 6 \<and> ms_handle alloc ans len rightlen s = ms_relay rightlen s \<or>
    ms_handle alloc ans len rightlen s = Some (s, [])"
  using assms by (auto simp: ms_handle_def Let_def)

lemma incoming_ok:
  assumes "ms_ok s cs" and "good_alloc alloc" and "rxport (ms_stream s) \<noteq> 0" and "event_ok (Incoming ans inp)"
  shows "\<exists>s' evs new. ms_incoming alloc ans inp s = Some (s', evs) \<and> same_setup s s' \<and>
    (case event_key (Incoming ans inp) of
       None \<Rightarrow> ms_ok s' cs
     | Some k \<Rightarrow> client_key new = k \<and> timer new = 0 \<and>
         pid new = fst (popen2 (cstr (ms_cmd s)) True False (a_rx ans)) \<and> ms_ok s' (abs_route k (ms_max s) new cs) \<and>
         (\<forall>i. pos k cs = Some i \<longrightarrow>
           (\<exists>bs ip port. inp = Udp_packet (Inr (bs, ip, port)) \<and> evs = [Write (pipedesc (cs ! i)) bs])))"
proof (cases inp)
  case (Pipe_packet a b)
  then show ?thesis using assms(4) by simp
next
  case (Udp_packet answer)
  obtain sock p len where u: "udp_recv (rxsock (ms_stream s)) (ms_packet s) answer = (sock, p, len)" by (metis surj_pair)
  obtain n where n: "announced (header p) = Some (int n)" using announced_Some by blast
  let ?s = "s\<lparr>ms_stream := (ms_stream s)\<lparr>rxsock := sock\<rparr>, ms_packet := p, ms_ip := sin_addr sock, ms_port := htons (sin_port sock)\<rparr>"
  have run: "ms_incoming alloc ans inp s = ms_handle alloc ans len (int VBAN_HEADER_SIZE + int n) ?s"
    using Udp_packet assms(3) u n by (simp add: ms_incoming_def ms_read_udp_def)
  have p: "packet_ok p" "len \<le> int VBAN_PROTOCOL_MAX_SIZE" "0 \<le> len"
    using u assms(1,4) Udp_packet
    by (cases answer; auto simp: udp_recv_def ms_ok_def packet_store_ok)+
  have ok: "ms_ok ?s cs" using assms(1) p(1) by (simp add: ms_ok_def stream_fine_def)
  have sames: "same_setup s (?s\<lparr>ms_heap := h, ms_clients := q, ms_num := m\<rparr>)"
      "same_setup s (?s\<lparr>ms_stream := (ms_stream ?s)\<lparr>info := i, rxsock := k\<rparr>\<rparr>)"
      "same_setup s (?s\<lparr>ms_stream := (ms_stream ?s)\<lparr>rxsock := k\<rparr>\<rparr>)" "same_setup s ?s" for h q m i k
    by (simp_all add: same_setup_def)
  show ?thesis
  proof (cases "event_key (Incoming ans inp)")
    case (Some k)
    then obtain bs ip port where bs: "answer = Inr (bs, ip, port)" "stream_packet bs" "k = datagram_key bs ip"
      using Udp_packet by (cases answer) (auto split: if_splits prod.splits)
    have l: "length bs \<le> VBAN_PROTOCOL_MAX_SIZE" using assms(4) Udp_packet bs(1) by simp
    have eqs: "p = packet_store (ms_packet s) bs" "len = int (length bs)" "sin_addr sock = ip"
      using u bs(1) by (auto simp: udp_recv_def)
    have hd: "header p = header_of_bytes bs" and tk: "take (length bs) (packet_bytes p) = bs"
      using stored_datagram [of "ms_packet s" bs] assms(1) l bs(2) unfolding eqs(1) by (auto simp: ms_ok_def stream_packet_def Let_def)
    have "int VBAN_HEADER_SIZE + int n = len" using bs(2) n eqs(2) hd by (simp add: stream_packet_def Let_def)
    then have "ms_incoming alloc ans inp s = ms_route alloc ans len ?s"
      using bs(2) hd unfolding run by (simp add: ms_handle_def stream_packet_def Let_def)
    moreover have k: "k = (ms_ip ?s, streamname (header (ms_packet ?s)))"
      using eqs(3) hd bs(3) by (simp add: datagram_key_def header_of_bytes_def)
    moreover have "client_key (admitted ans ?s) = k \<and> timer (admitted ans ?s) = 0 \<and>
        pid (admitted ans ?s) = fst (popen2 (cstr (ms_cmd s)) True False (a_rx ans))"
      using start_client_ok [of ?s ans] ok k by (auto simp: ms_ok_def admitted_def)
    ultimately obtain h q evs where "ms_incoming alloc ans inp s =
        Some (?s\<lparr>ms_heap := h, ms_clients := q, ms_num := length (abs_route k (ms_max ?s) (admitted ans ?s) cs)\<rparr>, evs)"
      "ms_ok (?s\<lparr>ms_heap := h, ms_clients := q, ms_num := length (abs_route k (ms_max ?s) (admitted ans ?s) cs)\<rparr>)
        (abs_route k (ms_max ?s) (admitted ans ?s) cs)"
      "\<forall>i. pos k cs = Some i \<longrightarrow> evs = [Write (pipedesc (cs ! i)) (take (nat len) (packet_bytes p))]"
      "client_key (admitted ans ?s) = k" "timer (admitted ans ?s) = 0"
      "pid (admitted ans ?s) = fst (popen2 (cstr (ms_cmd s)) True False (a_rx ans))"
      using route_ok [OF ok assms(2) p(3,2) k refl, of ans] by auto
    then show ?thesis unfolding Some using sames(1) tk eqs(2) Udp_packet bs(1)
      by (intro exI [of _ "?s\<lparr>ms_heap := h, ms_clients := q, ms_num := length (abs_route k (ms_max ?s) (admitted ans ?s) cs)\<rparr>"]
          exI [of _ evs] exI [of _ "admitted ans ?s"]) simp
  next
    case None
    have "\<exists>s' evs. ms_handle alloc ans len (int VBAN_HEADER_SIZE + int n) ?s = Some (s', evs) \<and> same_setup s s' \<and> ms_ok s' cs"
    proof -
      let ?stream = "is_protocol VBAN_PROTOCOL_AUDIO (format_SR (header p)) \<or> is_protocol VBAN_PROTOCOL_SERIAL (format_SR (header p))"
      have no: "\<not> (len = int VBAN_HEADER_SIZE + int n \<and> vban (header p) = VBAN_HEADER_FOURC \<and> ?stream)"
      proof (cases answer)
        case (Inl e)
        then show ?thesis using u by (auto simp: udp_recv_def vban_sizes)
      next
        case (Inr r)
        obtain bs ip port where r: "r = (bs, ip, port)" by (cases r) auto
        have "\<not> stream_packet bs" using None Udp_packet Inr r by (auto split: if_splits)
        moreover have "p = packet_store (ms_packet s) bs" "len = int (length bs)"
          using u Inr r by (auto simp: udp_recv_def)
        ultimately show ?thesis
          using stored_datagram(2) [of "ms_packet s" bs] assms(1,4) n Udp_packet Inr r by (auto simp: stream_packet_def Let_def ms_ok_def)
      qed
      consider (info) "len = int VBAN_HEADER_SIZE + int n" "ms_handle alloc ans len (int VBAN_HEADER_SIZE + int n) ?s = ms_info ?s"
        | (relay) "len = int VBAN_HEADER_SIZE + int n + 6"
            "ms_handle alloc ans len (int VBAN_HEADER_SIZE + int n) ?s = ms_relay (int VBAN_HEADER_SIZE + int n) ?s"
        | (skip) "ms_handle alloc ans len (int VBAN_HEADER_SIZE + int n) ?s = Some (?s, [])"
        using handle_cases [of len "int VBAN_HEADER_SIZE + int n" ?s alloc ans] no by auto
      then show ?thesis
      proof cases
        case info
        have "ms_num s < 256" using assms(1) by (auto simp: ms_ok_def clients_fine_def)
        then obtain i k evs where "ms_info ?s = Some (?s\<lparr>ms_stream := (ms_stream ?s)\<lparr>info := i, rxsock := k\<rparr>\<rparr>, evs)"
          using ms_info_ok [of ?s] ok by (auto simp: ms_ok_def)
        moreover have "ms_ok (?s\<lparr>ms_stream := (ms_stream ?s)\<lparr>info := i, rxsock := k\<rparr>\<rparr>) cs"
          using ok by (simp add: ms_ok_def stream_fine_def)
        ultimately show ?thesis using info(2) sames(2) by auto
      next
        case relay
        then obtain k evs where "ms_relay (int VBAN_HEADER_SIZE + int n) ?s = Some (?s\<lparr>ms_stream := (ms_stream ?s)\<lparr>rxsock := k\<rparr>\<rparr>, evs)"
          using relay_ok [of ?s "int VBAN_HEADER_SIZE + int n"] p by auto
        moreover have "ms_ok (?s\<lparr>ms_stream := (ms_stream ?s)\<lparr>rxsock := k\<rparr>\<rparr>) cs"
          using ok by (simp add: ms_ok_def stream_fine_def)
        ultimately show ?thesis using relay(2) sames(3) by auto
      next
        case skip
        then show ?thesis using ok sames(4) by auto
      qed
    qed
    then show ?thesis unfolding None run by auto
  qed
qed

end
