(* ===== verification/Multistream_Run.thy ===== *)
theory Multistream_Run
  imports Multistream
begin

text \<open>
  Runs of the multistream receptor: the packet loop and the timer refine the abstract list of
  clients over any sequence of datagrams and ticks, and the properties of the clients that follow.
\<close>

section \<open>The abstract receptor\<close>

inductive abs_step :: "nat \<Rightarrow> ms_event \<Rightarrow> client list \<Rightarrow> client list \<Rightarrow> bool" for m where
  tick: "abs_step m Tick cs (fst (abs_tick cs))"
| packet: "event_key e = Some k \<Longrightarrow> client_key new = k \<Longrightarrow> timer new = 0 \<Longrightarrow> abs_step m e cs (abs_route k m new cs)"
| other: "event_key e = None \<Longrightarrow> e \<noteq> Tick \<Longrightarrow> abs_step m e cs cs"

inductive abs_run :: "nat \<Rightarrow> ms_event list \<Rightarrow> client list \<Rightarrow> client list \<Rightarrow> bool" for m where
  nil: "abs_run m [] cs cs"
| cons: "abs_step m e cs ds \<Longrightarrow> abs_run m es ds cs' \<Longrightarrow> abs_run m (e # es) cs cs'"

inductive_cases abs_stepE: "abs_step m e cs cs'"

definition ms_receptor :: "(heap \<Rightarrow> ptr) \<Rightarrow> ms \<Rightarrow> client list \<Rightarrow> bool" where
  "ms_receptor alloc s cs \<longleftrightarrow> ms_ok s cs \<and> good_alloc alloc \<and> rxport (ms_stream s) \<noteq> 0 \<and> flag_set (flags (ms_stream s)) RECEIVING"

fun datagram_of :: "ms_event \<Rightarrow> byte list" where
  "datagram_of (Incoming _ (Udp_packet (Inr (bs, _, _)))) = bs"
| "datagram_of _ = []"

text \<open>What a step does outside: a tick ends at most one client, a packet goes to its client.\<close>

definition step_io :: "ms_event \<Rightarrow> client list \<Rightarrow> io list \<Rightarrow> bool" where
  "step_io e cs evs \<longleftrightarrow> (e = Tick \<longrightarrow> evs = tick_io (snd (abs_tick cs))) \<and>
     (\<forall>k i. event_key e = Some k \<and> pos k cs = Some i \<longrightarrow> evs = [Write (pipedesc (cs ! i)) (datagram_of e)])"

lemma receptor_setup: "ms_receptor alloc s cs \<Longrightarrow> same_setup s s' \<Longrightarrow> ms_ok s' cs' \<Longrightarrow> ms_receptor alloc s' cs'"
  by (simp add: ms_receptor_def same_setup_def)

lemma step_refines:
  assumes "ms_receptor alloc s cs" and "event_ok e"
  shows "\<exists>s' evs cs'. ms_step alloc e s = Some (s', evs) \<and> ms_max s' = ms_max s \<and> ms_receptor alloc s' cs' \<and>
    abs_step (ms_max s) e cs cs' \<and> step_io e cs evs"
proof (cases e)
  case Tick
  obtain h p where "timer_tick s = Some (s\<lparr>ms_heap := h, ms_clients := p, ms_num := length (fst (abs_tick cs))\<rparr>, tick_io (snd (abs_tick cs)))"
      "ms_ok (s\<lparr>ms_heap := h, ms_clients := p, ms_num := length (fst (abs_tick cs))\<rparr>) (fst (abs_tick cs))"
    using tick_ok [of s cs] assms(1) unfolding ms_receptor_def by blast
  then show ?thesis using Tick assms(1) abs_step.tick [of "ms_max s" cs]
    by (intro exI [of _ "s\<lparr>ms_heap := h, ms_clients := p, ms_num := length (fst (abs_tick cs))\<rparr>"]
        exI [of _ "tick_io (snd (abs_tick cs))"] exI [of _ "fst (abs_tick cs)"])
      (simp add: ms_step_def ms_receptor_def step_io_def)
next
  case (Incoming ans inp)
  have r: "ms_ok s cs" "good_alloc alloc" "rxport (ms_stream s) \<noteq> 0" using assms(1) by (simp_all add: ms_receptor_def)
  obtain s' evs new where s': "ms_incoming alloc ans inp s = Some (s', evs)" "same_setup s s'"
      "case event_key e of None \<Rightarrow> ms_ok s' cs
       | Some k \<Rightarrow> client_key new = k \<and> timer new = 0 \<and>
           pid new = fst (popen2 (cstr (ms_cmd s)) True False (a_rx ans)) \<and> ms_ok s' (abs_route k (ms_max s) new cs) \<and>
           (\<forall>i. pos k cs = Some i \<longrightarrow> (\<exists>bs ip port. inp = Udp_packet (Inr (bs, ip, port)) \<and> evs = [Write (pipedesc (cs ! i)) bs]))"
    using incoming_ok [OF r, of ans inp] assms(2) Incoming by blast
  have run: "ms_step alloc e s = Some (s', evs)" "ms_max s' = ms_max s"
    using s'(1,2) Incoming by (simp_all add: ms_step_def same_setup_def)
  show ?thesis
  proof (cases "event_key e")
    case None
    then show ?thesis using run s'(2,3) receptor_setup [OF assms(1)] Incoming abs_step.other [of e "ms_max s" cs]
      by (intro exI [of _ s'] exI [of _ evs] exI [of _ cs]) (auto simp: step_io_def)
  next
    case (Some k)
    then have "step_io e cs evs" using s'(3) Incoming by (auto simp: step_io_def)
    then show ?thesis using Some run s'(2,3) receptor_setup [OF assms(1)] abs_step.packet [OF Some, of new "ms_max s" cs]
      by (intro exI [of _ s'] exI [of _ evs] exI [of _ "abs_route k (ms_max s) new cs"]) auto
  qed
qed

lemma run_refines:
  assumes "ms_receptor alloc s cs" and "\<forall>e \<in> set es. event_ok e"
  shows "\<exists>s' evs cs'. ms_run alloc es s = Some (s', evs) \<and> ms_max s' = ms_max s \<and> ms_receptor alloc s' cs' \<and> abs_run (ms_max s) es cs cs'"
  using assms
proof (induction es arbitrary: s cs)
  case Nil
  then show ?case by (auto intro: abs_run.nil)
next
  case (Cons e es)
  then have ev: "event_ok e" "\<forall>e \<in> set es. event_ok e" by simp_all
  obtain s1 evs1 cs1 where 1: "ms_step alloc e s = Some (s1, evs1)" "ms_max s1 = ms_max s" "ms_receptor alloc s1 cs1"
      "abs_step (ms_max s) e cs cs1"
    using step_refines [OF Cons.prems(1) ev(1)] by blast
  obtain s2 evs2 cs2 where 2: "ms_run alloc es s1 = Some (s2, evs2)" "ms_max s2 = ms_max s1" "ms_receptor alloc s2 cs2"
      "abs_run (ms_max s1) es cs1 cs2"
    using Cons.IH [OF 1(3) ev(2)] by blast
  show ?case using 1 2 by (auto intro: abs_run.cons)
qed


section \<open>One client\<close>

text \<open>Where a client is after a step that is not its own packet.\<close>

lemma tick_at:
  assumes "i < length cs"
  shows "timer (cs ! i) = 4 \<and> snd (abs_tick cs) = Some (cs ! i) \<or>
    0 < i \<and> i - 1 < length (fst (abs_tick cs)) \<and> fst (abs_tick cs) ! (i - 1) = cs ! i \<or>
    timer (cs ! i) \<noteq> 4 \<and> i < length (fst (abs_tick cs)) \<and> fst (abs_tick cs) ! i = (cs ! i)\<lparr>timer := timer (cs ! i) + 1\<rparr>"
  using assms
proof (induction cs arbitrary: i)
  case (Cons c cs)
  show ?case
  proof (cases i)
    case 0
    then show ?thesis by simp
  next
    case (Suc j)
    then have "j < length cs" using Cons.prems by simp
    from Cons.IH [OF this] show ?thesis using Suc \<open>j < length cs\<close>
      by (cases j) (auto simp: nth_Cons')
  qed
qed simp

lemma route_at:
  assumes "i < length cs" and "client_key (cs ! i) \<noteq> k"
  shows "i < length (abs_route k m new cs) \<and> abs_route k m new cs ! i = cs ! i"
  using assms pos_Some [of k cs]
  by (auto simp: abs_route_def abs_admit_def nth_append nth_list_update split: option.split)

lemma other_step_at:
  assumes "abs_step m e cs cs1" and "e \<noteq> Tick" and "event_key e \<noteq> Some (client_key (cs ! i))" and "i < length cs"
  shows "i < length cs1 \<and> cs1 ! i = cs ! i"
  using assms route_at [of i cs] by (cases rule: abs_step.cases) auto

text \<open>A client that is gone comes back only with a packet of its own.\<close>

lemma run_absent:
  assumes "abs_run m es cs cs'" and "k \<notin> client_key ` set cs" and "\<forall>e \<in> set es. event_key e \<noteq> Some k"
  shows "k \<notin> client_key ` set cs'"
  using assms
proof induction
  case (cons e cs ds es cs')
  have "k \<notin> client_key ` set ds"
    using cons.hyps(1) cons.prems
  proof cases
    case tick
    have "client_key ` set (fst (abs_tick cs)) \<subseteq> client_key ` set cs" by (induction cs) auto
    then show ?thesis using tick cons.prems(1) by blast
  next
    case (packet k' new)
    then have "k' \<noteq> k" using cons.prems(2) by auto
    then show ?thesis using packet cons.prems(1) pos_Some [of k' cs]
      by (auto simp: abs_route_def abs_admit_def dest!: set_update_subset_insert [THEN subsetD]
          split: option.splits if_splits)
  qed auto
  then show ?case using cons by simp
qed

lemma tick_removes:
  assumes "distinct (map client_key cs)" and "snd (abs_tick cs) = Some c"
  shows "client_key c \<notin> client_key ` set (fst (abs_tick cs))"
proof -
  have "map client_key (fst (abs_tick cs)) = remove1 (client_key c) (map client_key cs)"
    using keys_tick [OF assms(1)] assms(2) by simp
  then have "client_key ` set (fst (abs_tick cs)) = set (remove1 (client_key c) (map client_key cs))"
    by (metis list.set_map)
  then show ?thesis using assms(1) by simp
qed


lemma silent_ended:
  assumes "ms_receptor alloc s cs" and "\<forall>e \<in> set es. event_ok e" and "i < length cs"
    and "\<forall>e \<in> set es. event_key e \<noteq> Some (client_key (cs ! i))" and "4 - timer (cs ! i) + i < count_list es Tick"
  shows "\<exists>s' pre post cs'. ms_run alloc es s = Some (s', pre @ end_processes (pid (cs ! i)) (txpid (cs ! i)) @ post) \<and>
    ms_receptor alloc s' cs' \<and> client_key (cs ! i) \<notin> client_key ` set cs'"
  using assms
proof (induction es arbitrary: s cs i)
  case (Cons e es)
  have ev: "event_ok e" "\<forall>e \<in> set es. event_ok e" "event_key e \<noteq> Some (client_key (cs ! i))"
      "\<forall>e \<in> set es. event_key e \<noteq> Some (client_key (cs ! i))" using Cons.prems(2,4) by simp_all
  obtain s1 evs cs1 where 1: "ms_step alloc e s = Some (s1, evs)" "ms_receptor alloc s1 cs1"
      "abs_step (ms_max s) e cs cs1" "step_io e cs evs"
    using step_refines [OF Cons.prems(1) ev(1)] by blast
  have later: ?case if "j < length cs1" "cs1 ! j = (cs ! i)\<lparr>timer := t\<rparr>" "4 - t + j < count_list es Tick" for j t
  proof -
    note t = that
    have same: "pid (cs1 ! j) = pid (cs ! i)" "txpid (cs1 ! j) = txpid (cs ! i)" "client_key (cs1 ! j) = client_key (cs ! i)"
        "timer (cs1 ! j) = t" using that(2) by simp_all
    obtain s' pre post cs' where "ms_run alloc es s1 = Some (s', pre @ end_processes (pid (cs ! i)) (txpid (cs ! i)) @ post)"
        "ms_receptor alloc s' cs'" "client_key (cs ! i) \<notin> client_key ` set cs'"
      using Cons.IH [OF 1(2) ev(2) t(1)] ev(4) t(3) unfolding same by blast
    then show ?thesis using 1(1) by (intro exI [of _ s'] exI [of _ "evs @ pre"] exI [of _ post] exI [of _ cs']) simp
  qed
  show ?case
  proof (cases "e = Tick")
    case False
    have "i < length cs1 \<and> cs1 ! i = cs ! i"
      by (rule other_step_at [OF 1(3) False ev(3) Cons.prems(3)])
    then show ?thesis using later [of i "timer (cs ! i)"] Cons.prems(5) False by simp
  next
    case True
    have cs1: "cs1 = fst (abs_tick cs)" "evs = tick_io (snd (abs_tick cs))"
      using 1(3,4) True by (auto elim: abs_stepE simp: step_io_def)
    have count: "count_list (e # es) Tick = Suc (count_list es Tick)" using True by simp
    consider (gone) "timer (cs ! i) = 4" "snd (abs_tick cs) = Some (cs ! i)"
      | (moved) "0 < i" "i - 1 < length cs1" "cs1 ! (i - 1) = cs ! i"
      | (counted) "timer (cs ! i) \<noteq> 4" "i < length cs1" "cs1 ! i = (cs ! i)\<lparr>timer := timer (cs ! i) + 1\<rparr>"
      using tick_at [OF Cons.prems(3)] unfolding cs1 by blast
    then show ?thesis
    proof cases
      case gone
      have "distinct (map client_key cs)" using Cons.prems(1) by (simp add: ms_receptor_def ms_ok_def clients_fine_def)
      then have absent: "client_key (cs ! i) \<notin> client_key ` set cs1" unfolding cs1(1) using gone(2) by (rule tick_removes)
      obtain s2 evs2 cs2 where 2: "ms_run alloc es s1 = Some (s2, evs2)" "ms_receptor alloc s2 cs2" "abs_run (ms_max s1) es cs1 cs2"
        using run_refines [OF 1(2) ev(2)] by blast
      show ?thesis using 1(1) 2 run_absent [OF 2(3) absent ev(4)] cs1(2) gone(2)
        by (intro exI [of _ s2] exI [of _ "[]"] exI [of _ evs2] exI [of _ cs2]) (simp add: tick_io_def)
    next
      case moved
      then show ?thesis using later [of "i - 1" "timer (cs ! i)"] Cons.prems(5) count by simp
    next
      case counted
      have "timer (cs ! i) \<le> 4" using Cons.prems(1,3) by (simp add: ms_receptor_def ms_ok_def clients_fine_def)
      then show ?thesis using later [of i "timer (cs ! i) + 1"] counted Cons.prems(5) count by simp
    qed
  qed
qed simp

text \<open>
  \<open>fed k n es\<close>: in the events at most \<open>n\<close> ticks come before the first packet of the client \<open>k\<close>, and
  at most four between any two of its packets and after the last.
\<close>

fun fed :: "u32 \<times> byte list \<Rightarrow> nat \<Rightarrow> ms_event list \<Rightarrow> bool" where
  "fed k n [] \<longleftrightarrow> True"
| "fed k n (e # es) \<longleftrightarrow>
     (if e = Tick then 0 < n \<and> fed k (n - 1) es else if event_key e = Some k then fed k 4 es else fed k n es)"

definition same_processes :: "client \<Rightarrow> client \<Rightarrow> bool" where
  "same_processes c d \<longleftrightarrow> (\<exists>t. d = c\<lparr>timer := t\<rparr>)"

lemma fed_kept:
  assumes "ms_receptor alloc s cs" and "\<forall>e \<in> set es. event_ok e" and "i < length cs"
    and "fed (client_key (cs ! i)) (4 - timer (cs ! i)) es"
  shows "\<exists>s' evs cs' j. ms_run alloc es s = Some (s', evs) \<and> ms_receptor alloc s' cs' \<and> j < length cs' \<and>
    same_processes (cs ! i) (cs' ! j)"
  using assms
proof (induction es arbitrary: s cs i)
  case Nil
  have "same_processes (cs ! i) (cs ! i)" unfolding same_processes_def by (rule exI [of _ "timer (cs ! i)"]) simp
  then show ?case using Nil by auto
next
  case (Cons e es)
  have ev: "event_ok e" "\<forall>e \<in> set es. event_ok e" using Cons.prems(2) by simp_all
  obtain s1 evs cs1 where 1: "ms_step alloc e s = Some (s1, evs)" "ms_receptor alloc s1 cs1" "abs_step (ms_max s) e cs cs1"
    using step_refines [OF Cons.prems(1) ev(1)] by blast
  have fine: "timer (cs ! i) \<le> 4" "distinct (map client_key cs)"
    using Cons.prems(1,3) by (simp_all add: ms_receptor_def ms_ok_def clients_fine_def)
  have later: ?case if "j < length cs1" "cs1 ! j = (cs ! i)\<lparr>timer := t\<rparr>" "fed (client_key (cs ! i)) (4 - t) es" for j t
  proof -
    note t = that
    have "client_key (cs1 ! j) = client_key (cs ! i)" "timer (cs1 ! j) = t" using that(2) by simp_all
    then obtain s' evs' cs' k where *: "ms_run alloc es s1 = Some (s', evs')" "ms_receptor alloc s' cs'" "k < length cs'"
        "same_processes (cs1 ! j) (cs' ! k)"
      using Cons.IH [OF 1(2) ev(2) t(1)] t(3) by auto
    moreover have "same_processes (cs ! i) (cs' ! k)" using *(4) t(2) by (auto simp: same_processes_def)
    ultimately show ?thesis using 1(1) by auto
  qed
  show ?case
  proof (cases "e = Tick")
    case True
    then have cs1: "cs1 = fst (abs_tick cs)" and n: "timer (cs ! i) < 4" "fed (client_key (cs ! i)) (4 - timer (cs ! i) - 1) es"
      using 1(3) Cons.prems(4) by (auto elim: abs_stepE)
    from tick_at [OF Cons.prems(3)] consider
        "0 < i" "i - 1 < length cs1" "cs1 ! (i - 1) = cs ! i"
      | "i < length cs1" "cs1 ! i = (cs ! i)\<lparr>timer := timer (cs ! i) + 1\<rparr>"
      unfolding cs1 using n(1) by fastforce
    then show ?thesis
    proof cases
      case 1
      have "fed k m es \<Longrightarrow> m \<le> m' \<Longrightarrow> fed k m' es" for k m m'
        by (induction k m es arbitrary: m' rule: fed.induct) (auto split: if_splits)
      from this [OF n(2), of "4 - timer (cs ! i)"] show ?thesis using later [of "i - 1" "timer (cs ! i)"] 1 by simp
    next
      case 2
      then show ?thesis using later [of i "timer (cs ! i) + 1"] n(2) by simp
    qed
  next
    case False
    note notick = False
    show ?thesis
    proof (cases "event_key e = Some (client_key (cs ! i))")
      case True
      then have "cs1 = cs[i := (cs ! i)\<lparr>timer := 0\<rparr>]"
        using 1(3) notick pos_nth [OF fine(2) Cons.prems(3)] by (auto elim!: abs_stepE simp: abs_route_def)
      then show ?thesis using later [of i 0] Cons.prems(3,4) True notick by simp
    next
      case False
      have "i < length cs1 \<and> cs1 ! i = cs ! i"
        by (rule other_step_at [OF 1(3) notick False Cons.prems(3)])
      then show ?thesis using later [of i "timer (cs ! i)"] Cons.prems(4) False notick by simp
    qed
  qed
qed


section \<open>Properties\<close>

text \<open>An allocator and a receptor with one client, for the witnesses.\<close>

definition next_free :: "heap \<Rightarrow> ptr" where
  "next_free h = Some (Suc (Max (insert 0 (dom h))))"

lemma next_free_good: "good_alloc next_free"
proof -
  have "h (Suc (Max (insert 0 (dom h)))) = None" if "finite (dom h)" for h :: heap
  proof (rule ccontr)
    assume "h (Suc (Max (insert 0 (dom h)))) \<noteq> None"
    then have "Suc (Max (insert 0 (dom h))) \<in> insert 0 (dom h)" by auto
    then have "Suc (Max (insert 0 (dom h))) \<le> Max (insert 0 (dom h))" using that by (intro Max_ge) simp_all
    then show False by simp
  qed
  then show ?thesis by (simp add: good_alloc_def next_free_def)
qed

definition example_stream_header :: vban_header where
  "example_stream_header = zero_header\<lparr>vban := VBAN_HEADER_FOURC, streamname := [83, 49] @ replicate 14 0\<rparr>"

definition ms_datagram :: "byte list" where
  "ms_datagram = header_bytes example_stream_header @ [0]"

definition example_client :: client_node where
  "example_client = zero_node\<lparr>cl_ip := 7, cl_header := example_stream_header, pipedesc := 5, pid := 42\<rparr>"

definition example_clients :: "client list" where
  "example_clients = [client.truncate example_client]"

definition example_ms :: ms where
  "example_ms = \<lparr>ms_heap = [1 \<mapsto> example_client], ms_clients = Some 1, ms_num = 1, ms_max = 2,
     ms_stream = zero_context\<lparr>rxport := 6980, flags := RECEIVING OR DUPLEX\<rparr>, ms_packet = zero_packet, ms_ip = 0, ms_port = 0,
     ms_cmd = [0]\<rparr>"

definition no_pipes :: ms_answers where
  "no_pipes = \<lparr>a_rx = \<lparr>pa_stdin = None, pa_stdout = None, pa_fork = 0\<rparr>, a_tx = \<lparr>pa_stdin = None, pa_stdout = None, pa_fork = 0\<rparr>\<rparr>"

lemmas example_defs = example_stream_header_def ms_datagram_def example_client_def example_clients_def example_ms_def
  zero_node_def zero_header_def vban_sizes

lemma ms_datagram_facts:
  "header_ok example_stream_header" "length ms_datagram = 29" "stream_packet ms_datagram"
  "datagram_key ms_datagram ip = (ip, streamname example_stream_header)"
proof -
  show ok: "header_ok example_stream_header" by (simp add: header_ok_def example_defs)
  show len: "length ms_datagram = 29" using length_header_bytes [OF ok] by (simp add: ms_datagram_def vban_sizes)
  have hd: "header_of_bytes ms_datagram = example_stream_header"
    unfolding ms_datagram_def by (rule header_of_bytes_header_bytes [OF ok])
  show "stream_packet ms_datagram"
    unfolding stream_packet_def hd len
    by (simp add: example_stream_header_def zero_header_def vban_sizes is_protocol_def announced_def)
  show "datagram_key ms_datagram ip = (ip, streamname example_stream_header)"
    unfolding datagram_key_def using arg_cong [OF hd, of streamname] by (simp add: header_of_bytes_def)
qed

lemma example_ms_ok: "ms_receptor next_free example_ms example_clients"
proof -
  have "list_repr (ms_heap example_ms) (ms_clients example_ms) example_clients"
    unfolding list_repr_def by (intro exI [of _ "[1]"]) (simp add: example_defs)
  moreover have "clients_fine 2 example_clients"
    by (simp add: clients_fine_def example_clients_def) (simp add: example_defs)
  ultimately show ?thesis
    using next_free_good
    by (simp add: ms_receptor_def ms_ok_def)
      (simp add: example_ms_def example_clients_def zero_context_def stream_fine_def flag_set_def RECEIVING_def DUPLEX_def)
qed

text \<open>
  C19: The multistream receptor refines the abstract list of clients. Over any sequence of datagrams
  (also short, foreign or malformed ones, and failed receives) and ticks of the timer no access is
  undefined, and the linked list represents the list that the abstract steps give: clients have
  distinct addresses and names, there are never more than the maximum (or one), the counter is their
  number and no timer is above 4.
\<close>

theorem multistream_refines:
  assumes "ms_receptor alloc s cs" and "\<forall>e \<in> set es. event_ok e"
  shows "\<exists>s' evs cs'. ms_run alloc es s = Some (s', evs) \<and> abs_run (ms_max s) es cs cs' \<and>
    list_repr (ms_heap s') (ms_clients s') cs' \<and> ms_num s' = length cs' \<and> length cs' \<le> max 1 (ms_max s) \<and>
    distinct (map client_key cs') \<and> (\<forall>c \<in> set cs'. timer c \<le> 4)"
proof -
  obtain s' evs cs' where *: "ms_run alloc es s = Some (s', evs)" "ms_max s' = ms_max s" "ms_receptor alloc s' cs'"
      "abs_run (ms_max s) es cs cs'"
    using run_refines [OF assms] by blast
  then show ?thesis
    by (intro exI [of _ s'] exI [of _ evs] exI [of _ cs']) (simp add: ms_receptor_def ms_ok_def clients_fine_def)
qed

theorem multistream_refines_witness:
  "let es = [Incoming no_pipes (Udp_packet (Inr (ms_datagram, 8, 9))), Tick, Incoming no_pipes (Udp_packet (Inl (-1)))] in
   \<exists>s' evs cs'. ms_run next_free es example_ms = Some (s', evs) \<and> abs_run (ms_max example_ms) es example_clients cs' \<and>
    list_repr (ms_heap s') (ms_clients s') cs' \<and> ms_num s' = length cs' \<and> length cs' \<le> max 1 (ms_max example_ms) \<and>
    distinct (map client_key cs') \<and> (\<forall>c \<in> set cs'. timer c \<le> 4)"
  unfolding Let_def
  by (rule multistream_refines [OF example_ms_ok]) (simp add: ms_datagram_facts vban_sizes)

text \<open>
  A packet goes to its client and to no other: a datagram of a stream whose address and name are
  those of the client at a position is written as it came to that client's pipe, and nothing else
  happens than that the client's timer is cleared.
\<close>

theorem packet_reaches_its_client:
  assumes "ms_receptor alloc s cs" and "i < length cs" and "stream_packet bs" and "length bs \<le> VBAN_PROTOCOL_MAX_SIZE"
    and "datagram_key bs ip = client_key (cs ! i)"
  shows "\<exists>s'. ms_step alloc (Incoming ans (Udp_packet (Inr (bs, ip, port)))) s = Some (s', [Write (pipedesc (cs ! i)) bs]) \<and>
    ms_receptor alloc s' (cs[i := (cs ! i)\<lparr>timer := 0\<rparr>])"
proof -
  let ?e = "Incoming ans (Udp_packet (Inr (bs, ip, port)))"
  have key: "event_key ?e = Some (client_key (cs ! i))" using assms(3,5) by simp
  have pos: "pos (client_key (cs ! i)) cs = Some i"
    using assms(1,2) by (intro pos_nth) (simp_all add: ms_receptor_def ms_ok_def clients_fine_def)
  have "event_ok ?e" using assms(4) by simp
  then obtain s' evs cs' where *: "ms_step alloc ?e s = Some (s', evs)" "ms_receptor alloc s' cs'"
      "abs_step (ms_max s) ?e cs cs'" "step_io ?e cs evs"
    using step_refines [OF assms(1), of ?e] by blast
  have "evs = [Write (pipedesc (cs ! i)) (datagram_of ?e)]" using *(4) key pos unfolding step_io_def by blast
  moreover have "cs' = cs[i := (cs ! i)\<lparr>timer := 0\<rparr>]"
    using *(3) key pos by (cases rule: abs_step.cases) (auto simp: abs_route_def)
  ultimately show ?thesis using *(1,2) by auto
qed

theorem packet_reaches_its_client_witness:
  "\<exists>s'. ms_step next_free (Incoming no_pipes (Udp_packet (Inr (ms_datagram, 7, 9)))) example_ms =
      Some (s', [Write (pipedesc (example_clients ! 0)) ms_datagram]) \<and>
    ms_receptor next_free s' (example_clients[0 := (example_clients ! 0)\<lparr>timer := 0\<rparr>])"
  by (rule packet_reaches_its_client [OF example_ms_ok])
    (simp_all add: ms_datagram_facts vban_sizes, simp_all add: example_clients_def example_client_def client_key_def)


text \<open>
  The packet of a new stream admits a client at the end of the list, with the packet's address
  and name and a timer of zero, when there is no client yet or fewer than the maximum; otherwise it
  changes nothing. The first client is admitted whatever the maximum is.
\<close>

theorem new_stream_admitted:
  assumes "ms_receptor alloc s cs" and "stream_packet bs" and "length bs \<le> VBAN_PROTOCOL_MAX_SIZE"
    and "datagram_key bs ip \<notin> client_key ` set cs"
  shows "\<exists>s' evs new. ms_step alloc (Incoming ans (Udp_packet (Inr (bs, ip, port)))) s = Some (s', evs) \<and>
    client_key new = datagram_key bs ip \<and> timer new = 0 \<and>
    ms_receptor alloc s' (if cs = [] \<or> length cs < ms_max s then cs @ [new] else cs)"
proof -
  let ?e = "Incoming ans (Udp_packet (Inr (bs, ip, port)))"
  have key: "event_key ?e = Some (datagram_key bs ip)" "pos (datagram_key bs ip) cs = None"
    using assms(2,4) by (simp_all add: pos_None)
  have "event_ok ?e" using assms(3) by simp
  then obtain s' evs cs' where *: "ms_step alloc ?e s = Some (s', evs)" "ms_receptor alloc s' cs'" "abs_step (ms_max s) ?e cs cs'"
    using step_refines [OF assms(1), of ?e] by blast
  obtain new where "client_key new = datagram_key bs ip" "timer new = 0" "cs' = abs_route (datagram_key bs ip) (ms_max s) new cs"
    using *(3) key(1) by (cases rule: abs_step.cases) auto
  then show ?thesis using *(1,2) key(2)
    by (intro exI [of _ s'] exI [of _ evs] exI [of _ new]) (simp add: abs_route_def abs_admit_def)
qed

theorem new_stream_admitted_witness:
  "\<exists>s' evs new. ms_step next_free (Incoming no_pipes (Udp_packet (Inr (ms_datagram, 8, 9)))) example_ms = Some (s', evs) \<and>
    client_key new = datagram_key ms_datagram 8 \<and> timer new = 0 \<and>
    ms_receptor next_free s' (if example_clients = [] \<or> length example_clients < ms_max example_ms
      then example_clients @ [new] else example_clients)"
  by (rule new_stream_admitted [OF example_ms_ok])
    (simp_all add: ms_datagram_facts vban_sizes, simp_all add: example_clients_def example_client_def client_key_def)

text \<open>
  C20: A silent stream ends. When no packet of the client at position \<open>i\<close> arrives, its processes are
  interrupted and waited for, and the client is gone, after at most \<open>4 - timer + i + 1\<close> ticks, whatever
  the other streams send: a tick ends at most one client, so the clients before it may delay it by one
  tick each.
\<close>

theorem silent_client_ends:
  assumes "ms_receptor alloc s cs" and "\<forall>e \<in> set es. event_ok e" and "i < length cs"
    and "\<forall>e \<in> set es. event_key e \<noteq> Some (client_key (cs ! i))" and "4 - timer (cs ! i) + i < count_list es Tick"
  shows "\<exists>s' pre post cs'. ms_run alloc es s = Some (s', pre @ end_processes (pid (cs ! i)) (txpid (cs ! i)) @ post) \<and>
    ms_receptor alloc s' cs' \<and> client_key (cs ! i) \<notin> client_key ` set cs'"
  using assms by (rule silent_ended)

theorem silent_client_ends_witness:
  "let es = Incoming no_pipes (Udp_packet (Inr (ms_datagram, 8, 9))) # replicate 5 Tick in
   \<exists>s' pre post cs'. ms_run next_free es example_ms =
      Some (s', pre @ end_processes (pid (example_clients ! 0)) (txpid (example_clients ! 0)) @ post) \<and>
    ms_receptor next_free s' cs' \<and> client_key (example_clients ! 0) \<notin> client_key ` set cs'"
  unfolding Let_def
  by (rule silent_client_ends [OF example_ms_ok])
    (simp_all add: ms_datagram_facts vban_sizes numeral_eq_Suc,
      simp_all add: example_clients_def example_client_def client_key_def zero_node_def)




text \<open>
  A child that cannot be started becomes a signal to every process. When \<open>popen2\<close> fails for want
  of pipes its result -1 is stored as the client's process (the test after it is for 0), and five ticks
  later the timer calls \<open>kill(-1, SIGINT)\<close>.
\<close>

theorem failed_start_signals_all:
  assumes "ms_receptor alloc s []" and "stream_packet bs" and "length bs \<le> VBAN_PROTOCOL_MAX_SIZE"
    and "pa_stdin (a_rx ans) = None"
  shows "\<exists>s' evs. ms_run alloc (Incoming ans (Udp_packet (Inr (bs, ip, port))) # replicate 5 Tick) s = Some (s', evs) \<and>
    Kill (-1) ''SIGINT'' \<in> set evs"
proof -
  let ?e = "Incoming ans (Udp_packet (Inr (bs, ip, port)))"
  have r: "ms_ok s []" "good_alloc alloc" "rxport (ms_stream s) \<noteq> 0" using assms(1) by (simp_all add: ms_receptor_def)
  have e: "event_ok ?e" "event_key ?e = Some (datagram_key bs ip)" using assms(2,3) by simp_all
  obtain s1 evs new where 1: "ms_incoming alloc ans (Udp_packet (Inr (bs, ip, port))) s = Some (s1, evs)" "same_setup s s1"
      "timer new = 0" "pid new = fst (popen2 (cstr (ms_cmd s)) True False (a_rx ans))"
      "ms_ok s1 (abs_route (datagram_key bs ip) (ms_max s) new [])"
    using incoming_ok [OF r e(1)] unfolding e(2) option.case by blast
  have new: "ms_receptor alloc s1 [new]" "pid new = -1"
    using receptor_setup [OF assms(1) 1(2,5)] 1(4) assms(4) by (simp_all add: abs_route_def abs_admit_def popen2_def)
  have "\<exists>s' pre post cs'. ms_run alloc (replicate 5 Tick) s1 =
      Some (s', pre @ end_processes (pid ([new] ! 0)) (txpid ([new] ! 0)) @ post) \<and>
    ms_receptor alloc s' cs' \<and> client_key ([new] ! 0) \<notin> client_key ` set cs'"
    using 1(3) by (intro silent_ended [OF new(1)]) (simp_all add: numeral_eq_Suc)
  then obtain s' pre post where "ms_run alloc (replicate 5 Tick) s1 = Some (s', pre @ end_processes (-1) (txpid new) @ post)"
    using new(2) by auto
  then show ?thesis using 1(1)
    by (intro exI [of _ s'] exI [of _ "evs @ pre @ end_processes (-1) (txpid new) @ post"])
      (simp add: ms_step_def end_processes_def)
qed

theorem failed_start_signals_all_witness:
  "let s = example_ms\<lparr>ms_heap := Map.empty, ms_clients := None, ms_num := 0\<rparr> in
   \<exists>s' evs. ms_run next_free (Incoming no_pipes (Udp_packet (Inr (ms_datagram, 7, 9))) # replicate 5 Tick) s = Some (s', evs) \<and>
    Kill (-1) ''SIGINT'' \<in> set evs"
  unfolding Let_def
proof (rule failed_start_signals_all)
  have "list_repr Map.empty None []" unfolding list_repr_def by (intro exI [of _ "[]"]) simp
  then show "ms_receptor next_free (example_ms\<lparr>ms_heap := Map.empty, ms_clients := None, ms_num := 0\<rparr>) []"
    using example_ms_ok by (simp add: ms_receptor_def ms_ok_def clients_fine_def)
qed (simp_all add: ms_datagram_facts vban_sizes no_pipes_def)

text \<open>
  The name of a stream is text of a shell command. Whatever 16 bytes a packet has as its name, the
  command fits its 256 bytes, and the bytes before the first zero stand in it unchanged between two
  quotes: a quote in the name ends the quoting, and what follows is run by \<open>bash -c\<close>.
\<close>

theorem name_in_shell_command:
  assumes "length (streamname (cl_header c)) = 16" and "nuFrame (cl_header c) = 0" and "cl_port c < 2 ^ 16"
  shows "\<exists>b. tx_command stream c = Some b \<and> length b = 256 \<and> c_string b = Some (tx_text stream c) \<and>
    (\<exists>pre post. tx_text stream c = pre @ chr_sq # cstr (streamname (cl_header c)) @ chr_sq # post)"
proof -
  obtain b where "tx_command stream c = Some b" "holds 256 (tx_text stream c) b"
    using tx_command_ok [OF assms(2,1,3)] by blast
  moreover have "\<exists>pre post. tx_text stream c = pre @ chr_sq # cstr (streamname (cl_header c)) @ chr_sq # post"
    unfolding tx_text_def
    by (intro exI [of _ "bytes_of ''vban_emitter_jack -i127.0.0.1 -p'' @ dec_nat (unat (rxport stream)) @ bytes_of '' -s''"]
        exI) (simp only: append_assoc append_Cons append_Nil)
  ultimately show ?thesis by (auto simp: holds_c_string) (simp add: holds_def)
qed

definition quoting_client :: client_node where
  "quoting_client = example_client\<lparr>cl_header := example_stream_header\<lparr>streamname := chr_sq # bytes_of '';id;'' @ chr_sq # replicate 10 0\<rparr>\<rparr>"

theorem name_in_shell_command_witness:
  "\<exists>b. tx_command zero_context quoting_client = Some b \<and> length b = 256 \<and>
    c_string b = Some (tx_text zero_context quoting_client) \<and>
    (\<exists>pre post. tx_text zero_context quoting_client = pre @ chr_sq # cstr (streamname (cl_header quoting_client)) @ chr_sq # post)"
  by (rule name_in_shell_command) (simp_all add: quoting_client_def example_defs)

text \<open>
  In duplex mode the receptor sends on: a datagram that is six bytes longer than its header
  announces goes out, without the six bytes, to the address and port these hold in memory order,
  whoever sent it, and the clients stay as they are.
\<close>

theorem relay_follows_passport:
  assumes "ms_receptor alloc s cs" and "flag_set (flags (ms_stream s)) DUPLEX"
    and "VBAN_HEADER_SIZE \<le> length bs" and "length bs + 6 \<le> VBAN_PROTOCOL_MAX_SIZE"
    and "announced (header_of_bytes bs) = Some (int (length bs) - int VBAN_HEADER_SIZE)" and "ip \<noteq> 0" and "port \<noteq> 0"
  shows "\<exists>s'. ms_step alloc (Incoming ans (Udp_packet (Inr (bs @ le32 ip @ [ucast port, ucast (drop_bit 8 port)], src, sport)))) s =
      Some (s', [Sendto (fd (rxsock (ms_stream s))) bs ip port]) \<and> ms_receptor alloc s' cs"
proof -
  let ?pp = "le32 ip @ [ucast port, ucast (drop_bit 8 port)]"
  let ?e = "Incoming ans (Udp_packet (Inr (bs @ ?pp, src, sport)))"
  have hd: "header_of_bytes (bs @ ?pp) = header_of_bytes bs" by (rule header_of_prefix [OF assms(3)])
  have "event_ok ?e" "event_key ?e = None" using assms(4,5) hd by (simp_all add: stream_packet_def Let_def)
  then obtain s' evs cs' where s': "ms_step alloc ?e s = Some (s', evs)" "ms_receptor alloc s' cs'" "abs_step (ms_max s) ?e cs cs'"
    using step_refines [OF assms(1), of ?e] by blast
  have cs': "cs' = cs" using s'(3) \<open>event_key ?e = None\<close> by (cases rule: abs_step.cases) auto
  let ?p = "packet_store (ms_packet s) (bs @ ?pp)" and ?n = "int (length bs)"
  let ?sock = "(rxsock (ms_stream s))\<lparr>sin_family := AF_INET, sin_addr := src, sin_port := sport\<rparr>"
  let ?s = "s\<lparr>ms_stream := (ms_stream s)\<lparr>rxsock := ?sock\<rparr>, ms_packet := ?p, ms_ip := src, ms_port := htons sport\<rparr>"
  have p: "packet_ok (ms_packet s)" "length (bs @ ?pp) \<le> VBAN_PROTOCOL_MAX_SIZE"
    using assms(1,4) by (simp_all add: ms_receptor_def ms_ok_def)
  have front: "take (length bs + 6) (packet_bytes ?p) = bs @ ?pp" "header ?p = header_of_bytes bs"
    using stored_datagram [OF p] hd assms(3) by simp_all
  then have bytes: "packet_bytes ?p = bs @ ?pp @ drop (length bs + 6) (packet_bytes ?p)"
    by (metis append.assoc append_take_drop_id)
  then obtain rest where rest: "packet_bytes ?p = bs @ ?pp @ rest" by blast
  have loads: "mem_load (packet_bytes ?p) (length bs) 4 = Some (le32 ip)"
      "mem_load (packet_bytes ?p) (length bs + 4) 2 = Some [ucast port, ucast (drop_bit 8 port)]"
      "mem_load (packet_bytes ?p) 0 (length bs) = Some bs"
    unfolding rest by (simp_all add: mem)
  have le: "of_le16 [ucast port, ucast (drop_bit 8 port)] = port"
    by (rule bit_word_eqI) (auto simp: of_le16_def bit_simps)
  have ports: "htons port \<noteq> 0" using assms(7) by (metis htons_htons htons_def and_zero_eq bit.disj_zero_right drop_bit_of_0 push_bit_of_0 unsigned_0)
  have relay: "ms_relay ?n ?s = Some (?s\<lparr>ms_stream := (ms_stream ?s)\<lparr>rxsock := ?sock\<lparr>sin_port := port\<rparr>\<rparr>\<rparr>,
      [Sendto (fd (rxsock (ms_stream s))) bs ip port])"
    using loads le ports assms(1,6) by (simp add: ms_relay_def udp_send_def ms_receptor_def of_le32_le32 [of ip "[]", simplified])
  have "ms_step alloc ?e s = ms_handle alloc ans (?n + 6) ?n ?s"
    using assms(1,5) front(2) by (simp add: ms_step_def ms_incoming_def ms_read_udp_def udp_recv_def ms_receptor_def)
  also have "\<dots> = ms_relay ?n ?s" using assms(2) by (simp add: ms_handle_def Let_def)
  finally show ?thesis using relay s'(1,2) cs' by auto
qed

theorem relay_follows_passport_witness:
  "\<exists>s'. ms_step next_free (Incoming no_pipes (Udp_packet (Inr (ms_datagram @ le32 9 @ [ucast (0x1234 :: u16), ucast (drop_bit 8 (0x1234 :: u16))], 3, 4))))
      example_ms = Some (s', [Sendto (fd (rxsock (ms_stream example_ms))) ms_datagram 9 0x1234]) \<and>
    ms_receptor next_free s' example_clients"
proof (rule relay_follows_passport [OF example_ms_ok])
  show "flag_set (flags (ms_stream example_ms)) DUPLEX"
    by (simp add: example_ms_def flag_set_def RECEIVING_def DUPLEX_def)
  show "announced (header_of_bytes ms_datagram) = Some (int (length ms_datagram) - int VBAN_HEADER_SIZE)"
    using ms_datagram_facts(3) by (simp add: stream_packet_def Let_def)
qed (simp_all add: ms_datagram_facts vban_sizes)

end
