(* ===== verification/Options.thy ===== *)
theory Options
  imports Multistream_Run
begin

text \<open>
  The command lines of \<open>vban_common/jack_backend.cpp\<close>: what \<open>get_emitter_options\<close> and
  \<open>get_receptor_options\<close> make of the options, and what a multistream receptor passes on to its
  children. \<open>getopt_long\<close> gives the options in order, each with its letter and its argument (the bytes
  before the terminating zero); \<open>inet_addr\<close>, \<open>sscanf\<close>, \<open>inet_pton\<close> and \<open>malloc\<close> are in the environment.
\<close>

section \<open>Library functions\<close>

record option_env =
  oe_addr :: "byte list \<Rightarrow> u32"
  oe_scan :: "byte list \<Rightarrow> int \<times> byte list option \<times> int option"
  oe_pton :: "byte list \<Rightarrow> u32 option"
  oe_malloc :: "nat \<Rightarrow> bool"

text \<open>\<open>atoi\<close>: white space, a sign, digits; a value outside the range of \<open>int\<close> is undefined.\<close>

definition is_digit :: "byte \<Rightarrow> bool" where
  "is_digit b \<longleftrightarrow> 0x30 \<le> b \<and> b \<le> 0x39"

definition is_space :: "byte \<Rightarrow> bool" where
  "is_space b \<longleftrightarrow> b = 0x20 \<or> 9 \<le> b \<and> b \<le> 13"

fun digits_val :: "int \<Rightarrow> byte list \<Rightarrow> int" where
  "digits_val acc [] = acc"
| "digits_val acc (b # bs) = (if is_digit b then digits_val (acc * 10 + (int (unat b) - 0x30)) bs else acc)"

definition atoi :: "byte list \<Rightarrow> int option" where
  "atoi s =
     (let t = dropWhile is_space s in
      if t \<noteq> [] \<and> hd t = 0x2D then c_int (- digits_val 0 (tl t))
      else if t \<noteq> [] \<and> hd t = 0x2B then c_int (digits_val 0 (tl t))
      else c_int (digits_val 0 t))"

definition opt0 :: "byte list \<Rightarrow> byte" where
  "opt0 a = (if a = [] then 0 else hd a)"

text \<open>An argument that does not say no: not \<open>0\<close>, \<open>n\<close> or \<open>N\<close>.\<close>

definition says_yes :: "byte list \<Rightarrow> bool" where
  "says_yes a \<longleftrightarrow> opt0 a \<noteq> of_char CHR ''0'' \<and> opt0 a \<noteq> of_char CHR ''n'' \<and> opt0 a \<noteq> of_char CHR ''N''"

text \<open>Clear the first \<open>n\<close> bytes of a field and copy at most \<open>k\<close> characters.\<close>

definition set_field :: "nat \<Rightarrow> nat \<Rightarrow> byte list \<Rightarrow> byte list \<Rightarrow> byte list option" where
  "set_field n k a field = do {
     field \<leftarrow> mem_store field 0 (replicate n 0);
     mem_store field 0 (take k a) }"

text \<open>The options both programs treat alike.\<close>

definition device_option :: "byte list \<Rightarrow> u16 \<Rightarrow> u16" where
  "device_option a f = (if says_yes a then (f AND NOT AUTOCONNECT) OR DEVICE_MODE else f AND NOT DEVICE_MODE)"

definition autoconnect_option :: "byte list \<Rightarrow> u16 \<Rightarrow> u16" where
  "autoconnect_option a f = (if \<not> flag_set f DEVICE_MODE \<and> opt0 a = of_char CHR ''y'' then f OR AUTOCONNECT else f)"

definition jack_name_option :: "option_env \<Rightarrow> byte list \<Rightarrow> stream_context \<Rightarrow> stream_context option" where
  "jack_name_option env a stream =
     (if oe_malloc env (length a) then Some (stream\<lparr>jack_server_name := Some a\<rparr>) else None)"


section \<open>The emitter\<close>

text \<open>
  One option. \<^term>\<open>Inl ()\<close> is a return with 1 or the help text, which ends the program; \<open>nbcd\<close> is the
  number of channels for the way back.
\<close>

definition emitter_option :: "option_env \<Rightarrow> char \<Rightarrow> byte list \<Rightarrow> stream_context \<times> nat \<Rightarrow> (unit + stream_context \<times> nat) option" where
  "emitter_option env c a = (\<lambda>(stream, nbcd).
     if c = CHR ''m'' then do {
       n \<leftarrow> set_field VBAN_STREAM_NAME_SIZE 32 a (servername stream);
       Some (Inr (stream\<lparr>servername := n\<rparr>, nbcd)) }
     else if c = CHR ''i'' then
       if txport stream = 0 then do {
         n \<leftarrow> set_field 32 32 a (stream_pipename stream);
         Some (Inr (stream\<lparr>iptx := 0, stream_pipename := n\<rparr>, nbcd)) }
       else if 15 < length a then Some (Inl ())
       else do {
         n \<leftarrow> mem_store (iptxaddr stream) 0 a;
         Some (Inr (stream\<lparr>iptx := oe_addr env a, iptxaddr := n\<rparr>, nbcd)) }
     else if c = CHR ''p'' then do { v \<leftarrow> atoi a; Some (Inr (stream\<lparr>txport := word_of_int v\<rparr>, nbcd)) }
     else if c = CHR ''s'' then do {
       n \<leftarrow> set_field VBAN_STREAM_NAME_SIZE VBAN_STREAM_NAME_SIZE a (tx_streamname stream);
       Some (Inr (stream\<lparr>tx_streamname := n\<rparr>, nbcd)) }
     else if c = CHR ''r'' then do { v \<leftarrow> atoi a; Some (Inr (stream\<lparr>samplerate := v\<rparr>, nbcd)) }
     else if c = CHR ''q'' then do { v \<leftarrow> atoi a; Some (Inr (stream\<lparr>nframes := to_u16 v\<rparr>, nbcd)) }
     else if c = CHR ''c'' then do { v \<leftarrow> atoi a; Some (Inr (stream\<lparr>nbinputs := to_u16 v\<rparr>, nbcd)) }
     else if c = CHR ''n'' then do { v \<leftarrow> atoi a; Some (Inr (stream\<lparr>redundancy := to_u8 v\<rparr>, nbcd)) }
     else if c = CHR ''d'' then Some (Inr (stream\<lparr>flags := device_option a (flags stream)\<rparr>, nbcd))
     else if c = CHR ''a'' then Some (Inr (stream\<lparr>flags := autoconnect_option a (flags stream)\<rparr>, nbcd))
     else if c = CHR ''f'' then
       Some (Inr (stream\<lparr>vban_output_format :=
         (if strstr (bytes_of ''16'') a \<noteq> None then bitfmt_val VBAN_BITFMT_16_INT
          else if strstr (bytes_of ''24'') a \<noteq> None then bitfmt_val VBAN_BITFMT_24_INT
          else bitfmt_val VBAN_BITFMT_32_FLOAT)\<rparr>, nbcd))
     else if c = CHR ''e'' then
       Some (Inr (stream\<lparr>flags := (if says_yes a then flags stream OR SLICING else flags stream AND NOT SLICING)\<rparr>, nbcd))
     else if c = CHR ''j'' then do { stream \<leftarrow> jack_name_option env a stream; Some (Inr (stream, nbcd)) }
     else if c = CHR ''b'' then do {
       v \<leftarrow> atoi a;
       Some (Inr (stream\<lparr>flags := flags stream OR DUPLEX\<rparr>, to_u16 v)) }
     else if c = CHR ''x'' then do {
       (len, addr) \<leftarrow> parse_passport (oe_scan env) (oe_pton env) a;
       Some (Inr (stream\<lparr>xlen := len, xaddress := (case addr of None \<Rightarrow> xaddress stream
         | Some (ip, port) \<Rightarrow> le32 ip @ [ucast port, ucast (drop_bit 8 port)])\<rparr>, nbcd)) }
     else if c = CHR ''h'' then Some (Inl ())
     else Some (Inr (stream, nbcd)))"

fun option_loop :: "(char \<Rightarrow> byte list \<Rightarrow> 's \<Rightarrow> (unit + 's) option) \<Rightarrow> (char \<times> byte list) list \<Rightarrow> 's \<Rightarrow> (unit + 's) option" where
  "option_loop opt [] s = Some (Inr s)"
| "option_loop opt ((c, a) # os) s = do {
     r \<leftarrow> opt c a s;
     case r of Inl _ \<Rightarrow> Some (Inl ()) | Inr s \<Rightarrow> option_loop opt os s }"

text \<open>Without any option the help text is printed.\<close>

definition get_emitter_options :: "option_env \<Rightarrow> (char \<times> byte list) list \<Rightarrow> stream_context \<Rightarrow> (unit + stream_context) option" where
  "get_emitter_options env os stream =
     (if os = [] then Some (Inl ())
      else do {
        r \<leftarrow> option_loop (emitter_option env) os (stream, 0);
        case r of Inl _ \<Rightarrow> Some (Inl ())
        | Inr (stream, nbcd) \<Rightarrow>
            Some (Inr (if flag_set (flags stream) DUPLEX
              then stream\<lparr>nboutputs := (if nbcd \<noteq> 0 then nbcd else nbinputs stream)\<rparr> else stream)) })"

definition emitter_defaults :: stream_context where
  "emitter_defaults = zero_context\<lparr>nbinputs := 2, samplerate := 48000, txport := 6980,
     vban_output_format := bitfmt_val VBAN_BITFMT_32_FLOAT, tx_nframes := 32\<rparr>"


section \<open>The receptor\<close>

definition receptor_option :: "option_env \<Rightarrow> char \<Rightarrow> byte list \<Rightarrow> stream_context \<Rightarrow> (unit + stream_context) option" where
  "receptor_option env c a stream =
     (if c = CHR ''m'' then
        Some (Inr (stream\<lparr>flags := (if says_yes a then flags stream OR MULTISTREAM else flags stream AND NOT MULTISTREAM)\<rparr>))
      else if c = CHR ''i'' then
        if rxport stream = 0 then do {
          n \<leftarrow> set_field 32 32 a (stream_pipename stream);
          Some (Inr (stream\<lparr>iprx := 0, stream_pipename := n\<rparr>)) }
        else if 15 < length a then Some (Inl ())
        else Some (Inr (stream\<lparr>iprx := oe_addr env a\<rparr>))
      else if c = CHR ''p'' then do { v \<leftarrow> atoi a; Some (Inr (stream\<lparr>rxport := word_of_int v\<rparr>)) }
      else if c = CHR ''s'' then do {
        n \<leftarrow> set_field VBAN_STREAM_NAME_SIZE VBAN_STREAM_NAME_SIZE a (rx_streamname stream);
        Some (Inr (stream\<lparr>rx_streamname := n\<rparr>)) }
      else if c = CHR ''r'' then do { v \<leftarrow> atoi a; Some (Inr (stream\<lparr>samplerate := v\<rparr>)) }
      else if c = CHR ''q'' then do { v \<leftarrow> atoi a; Some (Inr (stream\<lparr>nframes := to_u16 v\<rparr>)) }
      else if c = CHR ''c'' then do { v \<leftarrow> atoi a; Some (Inr (stream\<lparr>nboutputs := to_u16 v\<rparr>)) }
      else if c = CHR ''n'' then do { v \<leftarrow> atoi a; Some (Inr (stream\<lparr>redundancy := to_u8 v\<rparr>)) }
      else if c = CHR ''d'' then Some (Inr (stream\<lparr>flags := device_option a (flags stream)\<rparr>))
      else if c = CHR ''a'' then Some (Inr (stream\<lparr>flags := autoconnect_option a (flags stream)\<rparr>))
      else if c = CHR ''e'' then
        Some (Inr (stream\<lparr>flags := (if says_yes a then flags stream OR CORRECTION_ON else flags stream AND NOT CORRECTION_ON)\<rparr>))
      else if c = CHR ''j'' then do { stream \<leftarrow> jack_name_option env a stream; Some (Inr stream) }
      else if c = CHR ''b'' then
        if opt0 a = 0 then do {
          v \<leftarrow> atoi a;
          Some (Inr (stream\<lparr>nbinputs := to_u16 v, flags := flags stream OR DUPLEX\<rparr>)) }
        else Some (Inr (stream\<lparr>flags := flags stream OR DUPLEX\<rparr>))
      else if c = CHR ''h'' then Some (Inl ())
      else Some (Inr stream))"

definition get_receptor_options :: "option_env \<Rightarrow> (char \<times> byte list) list \<Rightarrow> stream_context \<Rightarrow> (unit + stream_context) option" where
  "get_receptor_options env os stream =
     (if os = [] then Some (Inl ()) else option_loop (receptor_option env) os stream)"

definition receptor_defaults :: stream_context where
  "receptor_defaults = zero_context\<lparr>samplerate := 48000, lagrange_num := 3, iprx := 0,
     vban_output_format := bitfmt_val VBAN_BITFMT_32_FLOAT, flags := CORRECTION_ON\<rparr>"


section \<open>Flags\<close>

lemma flag_gone [simp]: "\<not> flag_set (f AND NOT m) m"
  by (simp add: flag_set_def and.assoc)

lemma flag_clear_other: "m AND m' = 0 \<Longrightarrow> flag_set (f AND NOT m) m' \<longleftrightarrow> flag_set f m'"
proof -
  assume "m AND m' = 0"
  moreover have "m' = (m OR NOT m) AND m'" by simp
  then have "m' = (m AND m') OR (NOT m AND m')" by (simp only: bit.conj_disj_distrib2)
  ultimately have "NOT m AND m' = m'" by simp
  then have "(f AND NOT m) AND m' = f AND m'" by (simp add: and.assoc)
  then show ?thesis by (simp add: flag_set_def)
qed

lemma flag_self [simp]: "flag_set DEVICE_MODE DEVICE_MODE" "flag_set AUTOCONNECT AUTOCONNECT" "flag_set MULTISTREAM MULTISTREAM"
  "flag_set CORRECTION_ON CORRECTION_ON" "flag_set DUPLEX DUPLEX" "flag_set SLICING SLICING"
  by (simp_all add: flag_set_def flag_defs)

lemma flag_apart [simp]:
  "\<not> flag_set DEVICE_MODE AUTOCONNECT" "\<not> flag_set AUTOCONNECT DEVICE_MODE" "\<not> flag_set SLICING DEVICE_MODE"
  "\<not> flag_set SLICING AUTOCONNECT" "\<not> flag_set DUPLEX DEVICE_MODE" "\<not> flag_set DUPLEX AUTOCONNECT"
  "\<not> flag_set MULTISTREAM DEVICE_MODE" "\<not> flag_set MULTISTREAM AUTOCONNECT" "\<not> flag_set CORRECTION_ON DEVICE_MODE"
  "\<not> flag_set CORRECTION_ON AUTOCONNECT" "\<not> flag_set CORRECTION_ON MULTISTREAM" "\<not> flag_set DEVICE_MODE MULTISTREAM"
  "\<not> flag_set AUTOCONNECT MULTISTREAM"
  by (simp_all add: flag_set_def flag_defs)

lemma flag_keep [simp]:
  "flag_set (f AND NOT AUTOCONNECT) DEVICE_MODE = flag_set f DEVICE_MODE"
  "flag_set (f AND NOT DEVICE_MODE) AUTOCONNECT = flag_set f AUTOCONNECT"
  "flag_set (f AND NOT SLICING) DEVICE_MODE = flag_set f DEVICE_MODE" "flag_set (f AND NOT SLICING) AUTOCONNECT = flag_set f AUTOCONNECT"
  "flag_set (f AND NOT MULTISTREAM) DEVICE_MODE = flag_set f DEVICE_MODE"
  "flag_set (f AND NOT MULTISTREAM) AUTOCONNECT = flag_set f AUTOCONNECT"
  "flag_set (f AND NOT MULTISTREAM) CORRECTION_ON = flag_set f CORRECTION_ON"
  "flag_set (f AND NOT CORRECTION_ON) DEVICE_MODE = flag_set f DEVICE_MODE"
  "flag_set (f AND NOT CORRECTION_ON) AUTOCONNECT = flag_set f AUTOCONNECT"
  "flag_set (f AND NOT AUTOCONNECT) CORRECTION_ON = flag_set f CORRECTION_ON"
  "flag_set (f AND NOT AUTOCONNECT) MULTISTREAM = flag_set f MULTISTREAM"
  by (rule flag_clear_other, simp add: flag_defs)+


section \<open>Fields\<close>

text \<open>The fields keep their sizes and ranges, and the program is never both a device and autoconnecting.\<close>

definition fields_ok :: "stream_context \<Rightarrow> bool" where
  "fields_ok s \<longleftrightarrow> length (rx_streamname s) = 16 \<and> length (tx_streamname s) = 16 \<and> length (servername s) = 32 \<and>
     length (stream_pipename s) = 32 \<and> length (iptxaddr s) = 16 \<and> length (xaddress s) = 6 \<and>
     nbinputs s < 2 ^ 16 \<and> nboutputs s < 2 ^ 16 \<and> nframes s < 2 ^ 16 \<and> redundancy s < 2 ^ 8 \<and>
     \<not> (flag_set (flags s) DEVICE_MODE \<and> flag_set (flags s) AUTOCONNECT)"

text \<open>The arguments whose treatment C leaves undefined.\<close>

definition bad_option :: "option_env \<Rightarrow> char \<times> byte list \<Rightarrow> bool" where
  "bad_option env = (\<lambda>(c, a). c \<in> set ''prqcnb'' \<and> atoi a = None \<or> c = CHR ''j'' \<and> \<not> oe_malloc env (length a) \<or>
     c = CHR ''x'' \<and> parse_passport (oe_scan env) (oe_pton env) a = None)"

lemma set_field_ok:
  assumes "length field = m" and "n \<le> m" and "k \<le> m"
  shows "\<exists>f. set_field n k a field = Some f \<and> length f = m"
  using assms by (simp add: set_field_def mem)

text \<open>
  The interface between a program's options and the loop over them: an option keeps the state well
  formed or stops the program, and has no meaning only for bad arguments.
\<close>

locale option_table =
  fixes opt :: "char \<Rightarrow> byte list \<Rightarrow> 's \<Rightarrow> (unit + 's) option"
    and ok :: "'s \<Rightarrow> bool"
    and bad :: "char \<times> byte list \<Rightarrow> bool"
  assumes option_law: "ok s \<Longrightarrow> (case opt c a s of None \<Rightarrow> bad (c, a) | Some (Inl _) \<Rightarrow> True | Some (Inr s') \<Rightarrow> ok s')"
begin

lemma run_options:
  assumes "ok s"
  shows "case option_loop opt os s of None \<Rightarrow> \<exists>o1 \<in> set os. bad o1 | Some (Inl _) \<Rightarrow> True | Some (Inr s') \<Rightarrow> ok s'"
  using assms
proof (induction os arbitrary: s)
  case (Cons o1 os)
  obtain c a where o1: "o1 = (c, a)" by (cases o1)
  show ?case
  proof (cases "opt c a s")
    case None
    then show ?thesis using option_law [OF Cons.prems, of c a] o1 by simp
  next
    case (Some r)
    show ?thesis
    proof (cases r)
      case (Inl u)
      then show ?thesis using Some o1 by simp
    next
      case (Inr s1)
      then have "ok s1" using option_law [OF Cons.prems, of c a] Some by simp
      from Cons.IH [OF this] show ?thesis using Some Inr o1 by (cases "option_loop opt os s1") auto
    qed
  qed
qed simp

end

lemma device_auto [simp]:
  "flag_set (device_option a f) DEVICE_MODE = says_yes a"
  "flag_set (device_option a f) AUTOCONNECT = (flag_set f AUTOCONNECT \<and> \<not> says_yes a)"
  "flag_set (autoconnect_option a f) DEVICE_MODE = flag_set f DEVICE_MODE"
  "flag_set (autoconnect_option a f) AUTOCONNECT = (flag_set f AUTOCONNECT \<or> \<not> flag_set f DEVICE_MODE \<and> opt0 a = of_char CHR ''y'')"
  by (auto simp: device_option_def autoconnect_option_def)

lemma emitter_option_fields:
  assumes "fields_ok (fst st)" and "snd st < 2 ^ 16"
  shows "case emitter_option env c a st of None \<Rightarrow> bad_option env (c, a) | Some (Inl _) \<Rightarrow> True
    | Some (Inr st') \<Rightarrow> fields_ok (fst st') \<and> snd st' < 2 ^ 16"
proof -
  obtain s n where st: "st = (s, n)" by (cases st)
  have f: "fields_ok s" "n < 2 ^ 16" using assms st by simp_all
  obtain f1 f2 f3 where sets: "set_field VBAN_STREAM_NAME_SIZE 32 a (servername s) = Some f1" "length f1 = 32"
      "set_field 32 32 a (stream_pipename s) = Some f2" "length f2 = 32"
      "set_field VBAN_STREAM_NAME_SIZE VBAN_STREAM_NAME_SIZE a (tx_streamname s) = Some f3" "length f3 = 16"
    using set_field_ok [of "servername s" 32 VBAN_STREAM_NAME_SIZE 32 a] set_field_ok [of "stream_pipename s" 32 32 32 a]
      set_field_ok [of "tx_streamname s" 16 VBAN_STREAM_NAME_SIZE VBAN_STREAM_NAME_SIZE a] f(1)
    by (auto simp: fields_ok_def vban_sizes)
  have addr: "\<exists>f. mem_store (iptxaddr s) 0 a = Some f \<and> length f = 16" if "\<not> 15 < length a"
    using f(1) that by (simp add: mem fields_ok_def)
  have w: "to_u16 v < 65536" "to_u8 v < 256" for v using to_u16_less [of v] to_u8_less [of v] by simp_all
  note defs = emitter_option_def st sets bad_option_def jack_name_option_def w
  consider "c = CHR ''m''" | "c = CHR ''i''" | "c \<in> set ''prqcnb''" | "c = CHR ''s''" | "c \<in> set ''dafeh''" | "c = CHR ''j''"
    | "c = CHR ''x''" | "c \<notin> set ''miprqcnbsdafehjx''" by auto
  then show ?thesis
  proof cases
    case 2
    then show ?thesis using f addr by (auto simp: defs fields_ok_def)
  next
    case 3
    then show ?thesis using f by (cases "atoi a") (auto simp: defs fields_ok_def)
  next
    case 7
    then show ?thesis using f
      by (cases "parse_passport (oe_scan env) (oe_pton env) a") (auto simp: defs fields_ok_def split: option.split)
  qed (use f in \<open>auto simp: defs fields_ok_def\<close>)
qed

interpretation emitter_table: option_table "emitter_option env" "\<lambda>st. fields_ok (fst st) \<and> snd st < 2 ^ 16" "bad_option env" for env
  by unfold_locales (elim conjE, rule emitter_option_fields)

lemma receptor_option_fields:
  assumes f: "fields_ok s"
  shows "case receptor_option env c a s of None \<Rightarrow> bad_option env (c, a) | Some (Inl _) \<Rightarrow> True | Some (Inr s') \<Rightarrow> fields_ok s'"
proof -
  obtain f2 f3 where sets: "set_field 32 32 a (stream_pipename s) = Some f2" "length f2 = 32"
      "set_field VBAN_STREAM_NAME_SIZE VBAN_STREAM_NAME_SIZE a (rx_streamname s) = Some f3" "length f3 = 16"
    using set_field_ok [of "stream_pipename s" 32 32 32 a]
      set_field_ok [of "rx_streamname s" 16 VBAN_STREAM_NAME_SIZE VBAN_STREAM_NAME_SIZE a] f
    by (auto simp: fields_ok_def vban_sizes)
  have w: "to_u16 v < 65536" "to_u8 v < 256" for v using to_u16_less [of v] to_u8_less [of v] by simp_all
  note defs = receptor_option_def sets bad_option_def jack_name_option_def w
  consider "c = CHR ''i''" | "c \<in> set ''prqcnb''" | "c = CHR ''s''" | "c \<in> set ''mdaeh''" | "c = CHR ''j''"
    | "c \<notin> set ''miprqcnbsdaehj''" by auto
  then show ?thesis
  proof cases
    case 2
    then show ?thesis using f by (cases "atoi a") (auto simp: defs fields_ok_def)
  qed (use f in \<open>auto simp: defs fields_ok_def\<close>)
qed


interpretation receptor_table: option_table "receptor_option env" fields_ok "bad_option env" for env
  by unfold_locales (rule receptor_option_fields)


section \<open>Numbers\<close>

lemma digits_append: "\<forall>b \<in> set xs. is_digit b \<Longrightarrow> digits_val acc (xs @ ys) = digits_val (digits_val acc xs) ys"
  by (induction xs arbitrary: acc) auto

lemma digit_byte:
  assumes "d < 10"
  shows "is_digit (0x30 + word_of_nat d)" and "int (unat (0x30 + word_of_nat d :: byte)) - 0x30 = int d"
    and "\<not> is_space (0x30 + word_of_nat d)" and "0x30 + word_of_nat d \<noteq> (0x2D :: byte)" and "0x30 + word_of_nat d \<noteq> (0x2B :: byte)"
proof -
  have "d \<in> {0, 1, 2, 3, 4, 5, 6, 7, 8, 9}" using assms by auto
  then show "is_digit (0x30 + word_of_nat d)" and "int (unat (0x30 + word_of_nat d :: byte)) - 0x30 = int d"
    and "\<not> is_space (0x30 + word_of_nat d)" and "0x30 + word_of_nat d \<noteq> (0x2D :: byte)" and "0x30 + word_of_nat d \<noteq> (0x2B :: byte)"
    by (auto simp: is_digit_def is_space_def)
qed

lemma dec_nat_digits: "(\<forall>b \<in> set (dec_nat n). is_digit b) \<and> digits_val 0 (dec_nat n) = int n"
proof (induction n rule: dec_nat.induct)
  case (1 n)
  show ?case
  proof (cases "n < 10")
    case True
    then show ?thesis using digit_byte(1,2) [of n] by (subst (1 2) dec_nat.simps) simp
  next
    case False
    have m: "n mod 10 < 10" by simp
    have d: "dec_nat n = dec_nat (n div 10) @ [0x30 + word_of_nat (n mod 10)]" using False by (subst dec_nat.simps) simp
    have "int (n div 10) * 10 + int (n mod 10) = int n" by presburger
    then show ?thesis
      using 1 [OF False] digit_byte(1,2) [OF m] unfolding d by (auto simp: digits_append)
  qed
qed

lemma atoi_dec_nat:
  assumes "n < 2 ^ 31"
  shows "atoi (dec_nat n) = Some (int n)"
proof -
  have "\<exists>d < 10. hd (dec_nat n) = 0x30 + word_of_nat d \<and> dec_nat n \<noteq> []"
  proof (induction n rule: dec_nat.induct)
    case (1 n)
    then show ?case by (cases "n < 10") (subst dec_nat.simps, auto simp: dec_nat.simps [of n] hd_append)+
  qed
  then obtain d xs where d: "d < 10" "dec_nat n = (0x30 + word_of_nat d) # xs" by (cases "dec_nat n") auto
  have "digits_val 0 (dec_nat n) = int n" using dec_nat_digits by blast
  then show ?thesis using d(1) digit_byte(3-5) [OF d(1)] assms unfolding d(2) atoi_def by (simp add: c_int_nat)
qed


section \<open>What the children are told\<close>

text \<open>The options in the command of a child, and the text they make.\<close>

definition child_options :: "stream_context \<Rightarrow> (char \<times> byte list) list" where
  "child_options s = [(CHR ''m'', bytes_of ''0''), (CHR ''p'', bytes_of ''0''), (CHR ''i'', bytes_of ''stdin''),
      (CHR ''q'', dec_nat (nframes s)), (CHR ''n'', dec_nat (redundancy s))] @
     (if flag_set (flags s) DEVICE_MODE then [(CHR ''d'', bytes_of ''y'')] else []) @
     (if flag_set (flags s) AUTOCONNECT then [(CHR ''a'', bytes_of ''y'')] else []) @
     (if flag_set (flags s) CORRECTION_ON then [(CHR ''e'', bytes_of ''y'')] else [])"

definition options_text :: "(char \<times> byte list) list \<Rightarrow> byte list" where
  "options_text os = concat (map (\<lambda>(c, a). bytes_of [CHR '' '', CHR ''-'', c] @ a) os)"

lemma child_command_text:
  assumes "0 \<notin> set argv0" and "length argv0 \<le> 500" and "nframes s < 2 ^ 16" and "redundancy s < 2 ^ 8"
  shows "\<exists>b. child_command argv0 s = Some b \<and> holds CMDLEN_MAX (argv0 @ options_text (child_options s)) b"
proof -
  let ?q = "bytes_of '' -m0 -p0 -istdin -q'' @ dec_nat (nframes s) @ bytes_of '' -n'' @ dec_nat (redundancy s)"
  let ?d = "if flag_set (flags s) DEVICE_MODE then bytes_of '' -dy'' else []"
  let ?a = "if flag_set (flags s) AUTOCONNECT then bytes_of '' -ay'' else []"
  let ?e = "if flag_set (flags s) CORRECTION_ON then bytes_of '' -ey'' else []"
  have z: "0 \<notin> set ?q" "0 \<notin> set ?d" "0 \<notin> set ?a" "0 \<notin> set ?e" by (auto simp: bytes_of_def no_zero)
  have "length (dec_nat (nframes s)) \<le> 5" "length (dec_nat (redundancy s)) \<le> 3"
    using assms(3,4) by (auto intro!: length_dec_nat)
  then have l: "length ?q \<le> 40" "length ?d \<le> 4" "length ?a \<le> 4" "length ?e \<le> 4" by simp_all
  have cut: "take (to_u16 (int (length argv0))) argv0 = argv0" using assms(2) by (simp add: to_u16_nat)
  let ?b0 = "blit (replicate CMDLEN_MAX 0) 0 argv0"
  have b0: "mem_store (replicate CMDLEN_MAX 0) 0 argv0 = Some ?b0" using assms(2) by (simp add: mem CMDLEN_MAX_def)
  have "?b0 = argv0 @ 0 # replicate (CMDLEN_MAX - length argv0 - 1) 0"
    using assms(2) by (simp add: blit_0 CMDLEN_MAX_def flip: replicate_Suc)
  then have h0: "holds CMDLEN_MAX argv0 ?b0"
    using assms(1,2) cstr_append_zero [OF assms(1)] by (simp add: holds_def CMDLEN_MAX_def)
  obtain b1 where b1: "c_append ?b0 ?q = Some b1" "holds CMDLEN_MAX (argv0 @ ?q) b1"
    using c_append_holds [OF h0 z(1)] assms(2) l by (auto simp: CMDLEN_MAX_def)
  obtain b2 where b2: "(if flag_set (flags s) DEVICE_MODE then c_append b1 (bytes_of '' -dy'') else Some b1) = Some b2"
      "holds CMDLEN_MAX ((argv0 @ ?q) @ ?d) b2"
    using c_append_holds [OF b1(2) z(2)] assms(2) l b1(2) by (auto simp: CMDLEN_MAX_def split: if_splits)
  obtain b3 where b3: "(if flag_set (flags s) AUTOCONNECT then c_append b2 (bytes_of '' -ay'') else Some b2) = Some b3"
      "holds CMDLEN_MAX (((argv0 @ ?q) @ ?d) @ ?a) b3"
    using c_append_holds [OF b2(2) z(3)] assms(2) l b2(2) by (auto simp: CMDLEN_MAX_def split: if_splits)
  obtain b4 where b4: "(if flag_set (flags s) CORRECTION_ON then c_append b3 (bytes_of '' -ey'') else Some b3) = Some b4"
      "holds CMDLEN_MAX ((((argv0 @ ?q) @ ?d) @ ?a) @ ?e) b4"
    using c_append_holds [OF b3(2) z(4)] assms(2) l b3(2) by (auto simp: CMDLEN_MAX_def split: if_splits)
  have "child_command argv0 s = Some b4"
    unfolding child_command_def cut Let_def by (simp only: b0 b1(1) b2(1) b3(1) b4(1) Option.bind.bind_lunit)
  moreover have "(((argv0 @ ?q) @ ?d) @ ?a) @ ?e = argv0 @ options_text (child_options s)"
    by (simp add: child_options_def options_text_def bytes_of_def)
  ultimately show ?thesis using b4(2) by auto
qed


section \<open>Properties\<close>

text \<open>An environment for the witnesses.\<close>

definition plain_env :: option_env where
  "plain_env = \<lparr>oe_addr = (\<lambda>_. 0x0100007F), oe_scan = (\<lambda>_. (0, None, None)), oe_pton = (\<lambda>_. None), oe_malloc = (\<lambda>_. True)\<rparr>"

lemma defaults_fields: "fields_ok emitter_defaults" "fields_ok receptor_defaults"
  by (simp_all add: fields_ok_def emitter_defaults_def receptor_defaults_def zero_context_def flag_set_def flag_defs)

text \<open>
  C22: Options stay in their fields. Whatever options are given in whatever order, names and addresses
  of any length included, the emitter and the receptor either stop or end with every field of its size
  and every number in its range, and never both in device mode and autoconnecting; the only arguments
  without a defined meaning are numbers outside \<open>int\<close>, an extended address that cannot be scanned and a
  server name for which there is no memory.
\<close>

theorem options_keep_fields:
  "(case get_emitter_options env os emitter_defaults of None \<Rightarrow> \<exists>o1 \<in> set os. bad_option env o1
     | Some (Inl _) \<Rightarrow> True | Some (Inr s) \<Rightarrow> fields_ok s) \<and>
   (case get_receptor_options env os receptor_defaults of None \<Rightarrow> \<exists>o1 \<in> set os. bad_option env o1
     | Some (Inl _) \<Rightarrow> True | Some (Inr s) \<Rightarrow> fields_ok s)"
proof
  have "case option_loop (emitter_option env) os (emitter_defaults, 0) of None \<Rightarrow> \<exists>o1 \<in> set os. bad_option env o1
      | Some (Inl _) \<Rightarrow> True | Some (Inr st) \<Rightarrow> fields_ok (fst st) \<and> snd st < 2 ^ 16"
    by (rule emitter_table.run_options) (simp add: defaults_fields)
  then show "case get_emitter_options env os emitter_defaults of None \<Rightarrow> \<exists>o1 \<in> set os. bad_option env o1
    | Some (Inl _) \<Rightarrow> True | Some (Inr s) \<Rightarrow> fields_ok s"
    by (auto simp: get_emitter_options_def fields_ok_def split: option.splits sum.splits prod.splits)
  show "case get_receptor_options env os receptor_defaults of None \<Rightarrow> \<exists>o1 \<in> set os. bad_option env o1
    | Some (Inl _) \<Rightarrow> True | Some (Inr s) \<Rightarrow> fields_ok s"
    using receptor_table.run_options [OF defaults_fields(2), of os env] by (simp add: get_receptor_options_def)
qed

text \<open>
  C23: A multistream receptor tells its children what to do and the children understand it: the command
  of a child is the program name and the text of a list of options, and a receptor started with these
  options is a single-stream receptor on its standard input with the parent's period, redundancy,
  device mode and autoconnection. Rate correction is on in every child, also when it is off in the
  parent: the parent does not pass that on and the default is on.
\<close>

theorem child_inherits_options:
  assumes "0 \<notin> set argv0" and "length argv0 \<le> 500" and "fields_ok s"
  shows "\<exists>b c. child_command argv0 s = Some b \<and> c_string b = Some (argv0 @ options_text (child_options s)) \<and>
    get_receptor_options env (child_options s) receptor_defaults = Some (Inr c) \<and>
    rxport c = 0 \<and> cstr (stream_pipename c) = bytes_of ''stdin'' \<and> nframes c = nframes s \<and> redundancy c = redundancy s \<and>
    \<not> flag_set (flags c) MULTISTREAM \<and> flag_set (flags c) DEVICE_MODE = flag_set (flags s) DEVICE_MODE \<and>
    flag_set (flags c) AUTOCONNECT = flag_set (flags s) AUTOCONNECT \<and> flag_set (flags c) CORRECTION_ON"
proof -
  have r: "nframes s < 2 ^ 16" "redundancy s < 2 ^ 8" "\<not> (flag_set (flags s) DEVICE_MODE \<and> flag_set (flags s) AUTOCONNECT)"
    using assms(3) by (simp_all add: fields_ok_def)
  obtain b where b: "child_command argv0 s = Some b" "c_string b = Some (argv0 @ options_text (child_options s))"
    using child_command_text [OF assms(1,2) r(1,2)] holds_c_string by blast
  have at: "atoi (bytes_of ''0'') = Some 0" "atoi (dec_nat (nframes s)) = Some (int (nframes s))"
      "atoi (dec_nat (redundancy s)) = Some (int (redundancy s))"
    using atoi_dec_nat [of "nframes s"] atoi_dec_nat [of "redundancy s"] r(1,2)
    by (simp_all, simp add: atoi_def bytes_of_def is_space_def is_digit_def c_int_def)
  have yes: "says_yes (bytes_of ''y'')" "\<not> says_yes (bytes_of ''0'')" "opt0 (bytes_of ''y'') = of_char CHR ''y''"
    by (simp_all add: says_yes_def opt0_def bytes_of_def)
  let ?pn = "bytes_of ''stdin'' @ replicate 27 0"
  have pn: "set_field 32 32 (bytes_of ''stdin'') (replicate 32 0) = Some ?pn"
    by (simp add: set_field_def mem blit_0 flip: replicate_Suc)
  have cpn: "cstr ?pn = bytes_of ''stdin''" by (simp add: cstr_def bytes_of_def)
  have small: "to_u16 (int (nframes s)) = nframes s" "to_u8 (int (redundancy s)) = redundancy s"
    using r(1,2) by (simp_all add: to_u16_nat to_u8_nat)
  let ?f = "CORRECTION_ON AND NOT MULTISTREAM"
  have f: "\<not> flag_set ?f MULTISTREAM" "\<not> flag_set ?f DEVICE_MODE" "\<not> flag_set ?f AUTOCONNECT" "flag_set ?f CORRECTION_ON"
    by simp_all
  have run: "option_loop (receptor_option env) (child_options s) receptor_defaults = option_loop (receptor_option env)
      ((if flag_set (flags s) DEVICE_MODE then [(CHR ''d'', bytes_of ''y'')] else []) @
       (if flag_set (flags s) AUTOCONNECT then [(CHR ''a'', bytes_of ''y'')] else []) @
       (if flag_set (flags s) CORRECTION_ON then [(CHR ''e'', bytes_of ''y'')] else []))
      (receptor_defaults\<lparr>flags := ?f, rxport := 0, iprx := 0, stream_pipename := ?pn, nframes := nframes s, redundancy := redundancy s\<rparr>)"
    unfolding child_options_def by (simp add: receptor_option_def at yes pn small receptor_defaults_def zero_context_def)
  show ?thesis
    using b run f r(3) cpn unfolding get_receptor_options_def
    by (cases "flag_set (flags s) DEVICE_MODE"; cases "flag_set (flags s) AUTOCONNECT"; cases "flag_set (flags s) CORRECTION_ON")
      (simp_all add: child_options_def receptor_option_def device_option_def autoconnect_option_def yes)
qed

theorem child_inherits_options_witness:
  "let s = receptor_defaults\<lparr>nframes := 128, redundancy := 2, flags := MULTISTREAM OR AUTOCONNECT\<rparr>; argv0 = bytes_of ''vban_receptor_jack'' in
   \<exists>b c. child_command argv0 s = Some b \<and> c_string b = Some (argv0 @ options_text (child_options s)) \<and>
    get_receptor_options plain_env (child_options s) receptor_defaults = Some (Inr c) \<and>
    rxport c = 0 \<and> cstr (stream_pipename c) = bytes_of ''stdin'' \<and> nframes c = nframes s \<and> redundancy c = redundancy s \<and>
    \<not> flag_set (flags c) MULTISTREAM \<and> flag_set (flags c) DEVICE_MODE = flag_set (flags s) DEVICE_MODE \<and>
    flag_set (flags c) AUTOCONNECT = flag_set (flags s) AUTOCONNECT \<and> flag_set (flags c) CORRECTION_ON"
  unfolding Let_def
proof (rule child_inherits_options)
  show "0 \<notin> set (bytes_of ''vban_receptor_jack'')" "length (bytes_of ''vban_receptor_jack'') \<le> 500"
    by (simp_all add: bytes_of_def)
  show "fields_ok (receptor_defaults\<lparr>nframes := 128, redundancy := 2, flags := MULTISTREAM OR AUTOCONNECT\<rparr>)"
    using defaults_fields(2) by (simp add: fields_ok_def)
qed

text \<open>
  The order of the receptor's options matters. The port is 0 until it is given, so an address that
  comes before the port is taken for the name of a pipe and the filter stays off; after the port it is
  the address to listen to.
\<close>

theorem address_before_port_lost:
  assumes "atoi b = Some v" and "(word_of_int v :: u16) \<noteq> 0" and "length a \<le> 15" and "0 \<notin> set a"
  shows "\<exists>s s'. get_receptor_options env [(CHR ''i'', a), (CHR ''p'', b)] receptor_defaults = Some (Inr s) \<and>
    rxport s = word_of_int v \<and> iprx s = 0 \<and> cstr (stream_pipename s) = a \<and>
    get_receptor_options env [(CHR ''p'', b), (CHR ''i'', a)] receptor_defaults = Some (Inr s') \<and>
    rxport s' = word_of_int v \<and> iprx s' = oe_addr env a"
proof -
  have "set_field 32 32 a (replicate 32 0) = Some (a @ replicate (32 - length a) 0)"
    using assms(3) by (simp add: set_field_def mem blit_0)
  moreover have "replicate (32 - length a) 0 = (0 :: byte) # replicate (31 - length a) 0"
    using assms(3) by (simp add: Suc_diff_le flip: replicate_Suc)
  then have "cstr (a @ replicate (32 - length a) 0) = a" using cstr_append_zero [OF assms(4)] by simp
  ultimately show ?thesis
    using assms by (simp add: get_receptor_options_def receptor_option_def receptor_defaults_def zero_context_def)
qed

theorem address_before_port_lost_witness:
  "\<exists>s s'. get_receptor_options plain_env [(CHR ''i'', bytes_of ''127.0.0.1''), (CHR ''p'', bytes_of ''6980'')] receptor_defaults = Some (Inr s) \<and>
    rxport s = word_of_int 6980 \<and> iprx s = 0 \<and> cstr (stream_pipename s) = bytes_of ''127.0.0.1'' \<and>
    get_receptor_options plain_env [(CHR ''p'', bytes_of ''6980''), (CHR ''i'', bytes_of ''127.0.0.1'')] receptor_defaults = Some (Inr s') \<and>
    rxport s' = word_of_int 6980 \<and> iprx s' = oe_addr plain_env (bytes_of ''127.0.0.1'')"
  by (rule address_before_port_lost) (simp_all add: atoi_def bytes_of_def is_space_def is_digit_def c_int_def)

end
