(* ===== verification/Emitter.thy ===== *)
theory Emitter
  imports Jack_Client Discovery Sample_Convert Options
begin

text \<open>
  The JACK emitter (\<open>vban_emitter_jack/main.cpp\<close>) and its process callback
  (\<open>on_tx_process\<close> of \<open>vban_common/jack_backend.cpp\<close>): how a period of the sound card becomes the
  transmit buffer and leaves, at once or slice by slice by the timer thread, what MIDI events do, and
  how the program starts.
\<close>

section \<open>The period in the transmit buffer\<close>

definition VBAN_SR_MASK :: byte where
  "VBAN_SR_MASK = 0x1F"

text \<open>Sample \<open>frame\<close> of a channel goes behind what was converted before; \<open>index\<close> is an \<open>int\<close>.\<close>

definition put_sample :: "nat \<Rightarrow> byte list list \<Rightarrow> nat \<Rightarrow> nat \<Rightarrow> byte list \<times> nat \<Rightarrow> (byte list \<times> nat) option" where
  "put_sample fmt buffers frame channel = (\<lambda>(buf, index).
     if channel < length buffers \<and> channel < VBAN_CHANNELS_MAX_NB \<and> index \<le> length buf \<and>
        4 * frame \<le> length (buffers ! channel)
     then do {
       (d, _) \<leftarrow> vban_sample_convert (drop index buf) fmt (drop (4 * frame) (buffers ! channel)) 4 1;
       size \<leftarrow> bit_size fmt;
       i \<leftarrow> c_int (int index + int size);
       Some (take index buf @ d, nat i) }
     else None)"

text \<open>The counter of the frames is a \<open>uint16_t\<close>: a period of 65536 frames or more never ends.\<close>

definition fill_txbuf :: "nat \<Rightarrow> nat \<Rightarrow> nat \<Rightarrow> byte list list \<Rightarrow> byte list \<Rightarrow> byte list option" where
  "fill_txbuf nf nb fmt buffers buf =
     (if 2 ^ 16 \<le> nf then None
      else do {
        (buf, _) \<leftarrow> for_loop 0 nf (\<lambda>frame. for_loop 0 nb (put_sample fmt buffers frame)) (buf, 0);
        Some buf })"


section \<open>MIDI events\<close>

definition memset :: "byte list \<Rightarrow> nat \<Rightarrow> byte \<Rightarrow> nat \<Rightarrow> byte list option" where
  "memset b i v n = (if i + n \<le> length b then Some (blit b i (replicate n v)) else None)"

text \<open>
  The events of a period, each the bytes of its buffer. \<open>midipaclen\<close> is a \<open>uint16_t\<close> and still 0 when
  it is used in the size of the block to clear.
\<close>

definition put_event :: "nat \<Rightarrow> byte list list \<Rightarrow> nat \<Rightarrow> byte list \<times> nat \<Rightarrow> (byte list \<times> nat) option" where
  "put_event nf events mi = (\<lambda>(data, midipaclen). do {
     ev \<leftarrow> (if mi < length events then Some (events ! mi) else None);
     data \<leftarrow> for_loop 0 nf (\<lambda>mj data. do { x \<leftarrow> mem_load ev 0 1; mem_store data midipaclen x }) data;
     x \<leftarrow> mem_load ev 1 1;
     data \<leftarrow> mem_store data (midipaclen + 1) x;
     x \<leftarrow> mem_load ev 2 1;
     data \<leftarrow> mem_store data (midipaclen + 2) x;
     Some (data, to_u16 (int midipaclen + 3)) })"

definition tx_midi :: "nat \<Rightarrow> byte list list \<Rightarrow> tx \<Rightarrow> tx option" where
  "tx_midi nf events s =
     (if length events > 0 then do {
        let c = t_ctx s; let p = txmidipac c; let midipaclen = (0 :: nat);
        data \<leftarrow> memset (pdata p) 0 0 (to_size (int midipaclen - int VBAN_HEADER_SIZE));
        (data, midipaclen) \<leftarrow> for_loop 0 (length events) (put_event nf events) (data, midipaclen);
        let p = p\<lparr>pdata := data\<rparr>; let c = c\<lparr>txmidipac := p\<rparr>;
        s \<leftarrow> (if txport c \<noteq> 0 then do {
            (k, ev, _) \<leftarrow> udp_send (txsock c) (txport c) (packet_bytes p) (VBAN_HEADER_SIZE + midipaclen) 0 0;
            Some (s\<lparr>t_ctx := c\<lparr>txsock := k\<rparr>, t_io := t_io s @ [ev]\<rparr>) }
          else do {
            bs \<leftarrow> mem_load (packet_bytes p) 0 midipaclen;
            Some (s\<lparr>t_ctx := c, t_io := t_io s @ [Write (stream_pipedesc c) bs]\<rparr>) });
        Some (s\<lparr>t_ctx := (t_ctx s)\<lparr>txmidipac := p\<lparr>header := (header p)\<lparr>nuFrame := nuFrame (header p) + 1\<rparr>\<rparr>\<rparr>\<rparr>) }
      else Some s)"


section \<open>The process callback\<close>

definition reset_timer :: "int \<Rightarrow> nat \<Rightarrow> nat \<Rightarrow> nat \<Rightarrow> nat \<Rightarrow> io" where
  "reset_timer timerfd delay_sec delay_nsec period_sec period_nsec =
     Settime timerfd (delay_sec, delay_nsec) (period_sec, period_nsec)"

text \<open>\<open>clock\<close> and \<open>raw\<close> are what the two clocks give; \<open>buffers\<close> are the samples of the input ports.\<close>

definition on_tx_process :: "(nat \<Rightarrow> byte list option) \<Rightarrow> (nat \<Rightarrow> int + cmsg list) \<Rightarrow> timespec \<Rightarrow> timespec \<Rightarrow> nat \<Rightarrow>
    byte list list \<Rightarrow> byte list list \<Rightarrow> jack_stream_data \<times> tx \<Rightarrow> (jack_stream_data \<times> tx) option" where
  "on_tx_process alloc answers clock raw nf buffers events = (\<lambda>(data, s). do {
     let delta = (callback_delta data)\<lparr>ts_new := clock\<rparr>; let c = t_ctx s;
     s \<leftarrow> (if flag_set (flags c) SLICING then do {
         tfd \<leftarrow> txtimer c;
         Some (s\<lparr>t_ctx := c\<lparr>txdata_ind := 0\<rparr>,
           t_io := t_io s @ [reset_timer tfd 0 (drop_bit 1 (slice_period c)) 0 (slice_period c)]\<rparr>) }
       else Some s);
     delta \<leftarrow> calc_delta_filtered raw delta 3 (lit f32 (5 / 1000));
     let data = data\<lparr>callback_delta := delta\<rparr>; let c = t_ctx s;
     c \<leftarrow> (if nframes c \<noteq> nf then tune_tx_packets alloc (c\<lparr>nframes := to_u16 (int nf)\<rparr>) else Some c);
     buf \<leftarrow> txbuf c;
     buf \<leftarrow> fill_txbuf nf (nbinputs c) (vban_output_format c) buffers buf;
     let s = s\<lparr>t_ctx := c\<lparr>txbuf := Some buf\<rparr>\<rparr>;
     s \<leftarrow> (if \<not> flag_set (flags c) SLICING then map_option fst (vban_send_txbuffer answers 0 2 s) else Some s);
     s \<leftarrow> tx_midi nf events s;
     Some (data, s) })"


section \<open>The timer thread\<close>

text \<open>One expiration of the timer: a slice leaves, and the next one is due.\<close>

definition timer_expired :: "(nat \<Rightarrow> int + cmsg list) \<Rightarrow> tx \<Rightarrow> tx option" where
  "timer_expired answers s = do {
     (s, _) \<leftarrow> vban_send_t32_fragment answers 0 2 s;
     let c = t_ctx s;
     Some (s\<lparr>t_ctx := c\<lparr>txdata_ind := (if int (txdata_ind c) = int (tx_transactions c) - 1 then 0
       else to_u16 (int (txdata_ind c) + 1))\<rparr>\<rparr>) }"

text \<open>
  The thread over the wake-ups of \<open>epoll_wait\<close>, each with whether the timer expired. \<open>tfd\<close> is the
  result of \<open>timerfd_create\<close>; a failure ends the process (\<open>Inl ()\<close>).
\<close>

fun timer_wakeups :: "(nat \<Rightarrow> int + cmsg list) \<Rightarrow> bool list \<Rightarrow> tx \<Rightarrow> tx option" where
  "timer_wakeups answers [] s = Some s"
| "timer_wakeups answers (w # ws) s =
     (if flag_set (flags (t_ctx s)) SENDING
      then do { s \<leftarrow> (if w then timer_expired answers s else Some s); timer_wakeups answers ws s }
      else Some (s\<lparr>t_io := t_io s @ (case txtimer (t_ctx s) of None \<Rightarrow> [] | Some tfd \<Rightarrow> [Close tfd])\<rparr>))"

definition tx_timer_thread :: "(nat \<Rightarrow> int + cmsg list) \<Rightarrow> int \<Rightarrow> bool list \<Rightarrow> tx \<Rightarrow> (unit + tx) option" where
  "tx_timer_thread answers tfd wakes s =
     (if txtimer (t_ctx s) = None then None
      else if tfd = -1 then Some (Inl ())
      else map_option Inr (timer_wakeups answers wakes (s\<lparr>t_ctx := (t_ctx s)\<lparr>txtimer := Some tfd\<rparr>\<rparr>)))"


section \<open>The program\<close>

text \<open>What the system, the network and the server answer at the start.\<close>

record emitter_env =
  ee_options :: option_env
  ee_socket :: init_answers
  ee_ifaces :: "iface list option"
  ee_rounds :: "(nat \<Rightarrow> reply list) list"
  ee_open :: int
  ee_alloc :: "nat \<Rightarrow> byte list option"
  ee_server :: jack_server
  ee_thread :: bool
  ee_sources :: "byte list list option"
  ee_sinks :: "byte list list option"
  ee_activate :: int

definition text_of :: "byte list \<Rightarrow> string" where
  "text_of bs = map (\<lambda>b. char_of (unat b)) bs"

definition set_recverr :: "int \<Rightarrow> io list" where
  "set_recverr d = [Setsockopt d ''IP_RECVERR'']"

text \<open>The socket or the pipe; \<open>Inl ()\<close> when the program ends.\<close>

definition emitter_open :: "emitter_env \<Rightarrow> stream_context \<Rightarrow> (unit + tx) option" where
  "emitter_open env stream =
     (if txport stream \<noteq> 0 then
        case udp_init (\<lambda>a. oe_addr (ee_options env) (bytes_of a)) (ee_socket env) 0 (txport stream) None
            (Some (text_of (cstr (iptxaddr stream)))) 1000 6 1 of
          (None, tr) \<Rightarrow> Some (Inl ())
        | (Some k, tr) \<Rightarrow>
            let s = \<lparr>t_ctx = stream\<lparr>txsock := k\<rparr>, t_io = tr @ set_recverr (fd k), t_chk = 0\<rparr> in
            if hd (tx_streamname stream) \<noteq> 0 \<and> iptx stream = 0
            then scan_receptor (ee_ifaces env) (ee_rounds env) s else Some (Inr s)
      else
        let name = cstr (stream_pipename stream);
            d = (if name = [] then 1 else if take 6 name \<noteq> bytes_of ''stdout'' then ee_open env else 1) in
        Some (Inr \<lparr>t_ctx = stream\<lparr>stream_pipedesc := d\<rparr>, t_io = [], t_chk = 0\<rparr>))"

text \<open>The headers of the three packets; a name of 16 characters fills its field.\<close>

definition named_header :: "byte list \<Rightarrow> vban_header \<Rightarrow> vban_header option" where
  "named_header name h = do { n \<leftarrow> mem_store (streamname h) 0 (take 16 (cstr name)); Some (h\<lparr>streamname := n\<rparr>) }"

definition emitter_headers :: "stream_context \<Rightarrow> stream_context option" where
  "emitter_headers stream = do {
     let h = (header (txpacket stream))\<lparr>vban := VBAN_HEADER_FOURC,
       format_SR := VBAN_SR_MASK AND word_of_int (vban_get_format_SR (samplerate stream)),
       format_bit := word_of_nat (vban_output_format stream), format_nbc := word_of_int (int (nbinputs stream) - 1),
       format_nbs := word_of_int (vban_nframes_pac stream - 1)\<rparr>;
     h \<leftarrow> named_header (tx_streamname stream) h;
     let stream = stream\<lparr>txpacket := (txpacket stream)\<lparr>header := h\<rparr>\<rparr>;
     let h = (header (txmidipac stream))\<lparr>vban := VBAN_HEADER_FOURC, format_SR := protocol_val VBAN_PROTOCOL_SERIAL\<rparr>;
     h \<leftarrow> named_header (tx_streamname stream) h;
     let stream = stream\<lparr>txmidipac := (txmidipac stream)\<lparr>header := h\<rparr>\<rparr>;
     let h = (header (txmeta stream))\<lparr>vban := VBAN_HEADER_FOURC, format_SR := protocol_val VBAN_PROTOCOL_USER\<rparr>;
     h \<leftarrow> named_header (tx_streamname stream) h;
     d \<leftarrow> mem_store (pdata (txmeta stream)) 0 (bytes_of ''META'');
     Some (stream\<lparr>txmeta := \<lparr>header = h, pdata = d\<rparr>\<rparr>) }"

definition emitter_run :: "emitter_env \<Rightarrow> stream_context \<Rightarrow> (unit + jack_stream_data \<times> tx) option" where
  "emitter_run env stream = do {
     r \<leftarrow> emitter_open env stream;
     case r of
       Inl e \<Rightarrow> Some (Inl e)
     | Inr s \<Rightarrow> do {
         stream \<leftarrow> emitter_headers (t_ctx s);
         let stream = stream\<lparr>flags := flags stream OR TRANSMITTER\<rparr>;
         (client, stream, _) \<leftarrow> jack_init_tx_stream (ee_alloc env) (ee_server env) zero_jack stream;
         let stream = stream\<lparr>flags := flags stream OR SENDING\<rparr>;
         let stream = (if flag_set (flags stream) SLICING
           then let stream = stream\<lparr>txtimer := Some 0\<rparr> in
             if ee_thread env then stream else stream\<lparr>flags := flags stream AND NOT SLICING\<rparr>
           else stream);
         (client, _) \<leftarrow> jack_run_tx_stream (ee_sources env) (ee_sinks env) (ee_activate env) stream client;
         Some (Inr (client, s\<lparr>t_ctx := stream\<rparr>)) } }"

definition emitter_main :: "emitter_env \<Rightarrow> (char \<times> byte list) list \<Rightarrow> (unit + jack_stream_data \<times> tx) option" where
  "emitter_main env os = do {
     r \<leftarrow> get_emitter_options (ee_options env) os emitter_defaults;
     case r of Inl e \<Rightarrow> Some (Inl e) | Inr stream \<Rightarrow> emitter_run env stream }"


section \<open>The interleaved period\<close>

text \<open>A sample of JACK in the format of the stream, and the period in the order it is sent.\<close>

definition enc :: "nat \<Rightarrow> byte list \<Rightarrow> byte list option" where
  "enc fmt x = (case bit_size fmt of None \<Rightarrow> None
     | Some sz \<Rightarrow> map_option fst (vban_sample_convert (replicate sz 0) fmt x 4 1))"

definition interleaved_period :: "(nat \<Rightarrow> nat \<Rightarrow> byte list) \<Rightarrow> nat \<Rightarrow> nat \<Rightarrow> byte list" where
  "interleaved_period g nb n = concat (map (\<lambda>frame. concat (map (g frame) [0..<nb])) [0..<n])"

lemma enc_convert:
  assumes fmt: "fmt \<le> 4" "bit_size fmt = Some sz" and e: "enc fmt (take 4 src) = Some e" and len: "4 \<le> length src" "sz \<le> length d"
  shows "vban_sample_convert d fmt src 4 1 = Some (blit d 0 e, 0) \<and> length e = sz"
proof -
  have ld: "load_f32 (take 4 src) 0 = load_f32 src 0" "mem_load (take 4 src) 0 4 = mem_load src 0 4"
    using len(1) by (simp_all add: load_f32_def mem_load_def)
  consider "fmt = 4" | "fmt = 0" | "fmt = 1" | "fmt = 2" | "fmt = 3" using fmt(1) by linarith
  then show ?thesis
  proof cases
    case 1
    then show ?thesis
      using fmt(2) e len by (auto simp: enc_def vban_sample_convert_def mem_load_def mem_store_def blit_def)
  next
    case 2
    then show ?thesis
      using fmt(2) e len ld
      by (auto simp: enc_def vban_sample_convert_def convert_sample.simps mem_store_def blit_def bind_eq_Some_conv)
  next
    case 3
    then show ?thesis
      using fmt(2) e len ld
      by (auto simp: enc_def vban_sample_convert_def convert_sample.simps mem_store_def blit_def bind_eq_Some_conv float_to_tmp_def
          numeral_2_eq_2)
  next
    case 4
    then show ?thesis
      using fmt(2) e len ld
      by (auto simp: enc_def vban_sample_convert_def convert_sample.simps mem_store_def blit_def bind_eq_Some_conv float_to_tmp_def)
  next
    case 5
    then show ?thesis
      using fmt(2) e len ld
      by (auto simp: enc_def vban_sample_convert_def convert_sample.simps mem_store_def blit_def bind_eq_Some_conv float_to_tmp_def)
  qed
qed


text \<open>What is converted when frame \<open>f\<close> is done up to channel \<open>ch\<close>.\<close>

definition put_so_far :: "(nat \<Rightarrow> nat \<Rightarrow> byte list) \<Rightarrow> nat \<Rightarrow> nat \<Rightarrow> nat \<Rightarrow> nat \<Rightarrow> nat \<Rightarrow> byte list \<times> nat \<Rightarrow> bool" where
  "put_so_far g nb sz L f ch st \<longleftrightarrow> length (fst st) = L \<and> snd st = (f * nb + ch) * sz \<and>
     take (snd st) (fst st) = interleaved_period g nb f @ concat (map (g f) [0..<ch])"

definition port_buffers :: "nat \<Rightarrow> nat \<Rightarrow> nat \<Rightarrow> byte list list \<Rightarrow> (nat \<Rightarrow> nat \<Rightarrow> byte list) \<Rightarrow> bool" where
  "port_buffers fmt nb n buffers g \<longleftrightarrow> nb \<le> length buffers \<and> nb \<le> VBAN_CHANNELS_MAX_NB \<and>
     (\<forall>ch < nb. 4 * n \<le> length (buffers ! ch)) \<and>
     (\<forall>ch < nb. \<forall>f < n. enc fmt (take 4 (drop (4 * f) (buffers ! ch))) = Some (g f ch))"

lemma put_sample_step:
  assumes fmt: "fmt \<le> 4" "bit_size fmt = Some sz" and pb: "port_buffers fmt nb n buffers g"
    and st: "put_so_far g nb sz (n * nb * sz) f ch st" and f: "f < n" and ch: "ch < nb" and small: "n * nb * sz < 2 ^ 31"
  shows "\<exists>st'. put_sample fmt buffers f ch st = Some st' \<and> put_so_far g nb sz (n * nb * sz) f (Suc ch) st'"
proof -
  obtain b i where bi: "st = (b, i)" by (cases st)
  have b: "length b = n * nb * sz" "i = (f * nb + ch) * sz" "take i b = interleaved_period g nb f @ concat (map (g f) [0..<ch])"
    using st unfolding put_so_far_def bi by auto
  have "Suc (f * nb + ch) \<le> Suc f * nb" using ch by simp
  also have "\<dots> \<le> n * nb" using f by (intro mult_le_mono1) simp
  finally have "Suc (f * nb + ch) * sz \<le> n * nb * sz" by (rule mult_le_mono1)
  then have i: "i + sz \<le> length b" using b by simp
  have src: "4 * f + 4 \<le> length (buffers ! ch)" using pb f ch unfolding port_buffers_def by fastforce
  have e: "enc fmt (take 4 (drop (4 * f) (buffers ! ch))) = Some (g f ch)" using pb f ch by (simp add: port_buffers_def)
  have cv: "vban_sample_convert (drop i b) fmt (drop (4 * f) (buffers ! ch)) 4 1 = Some (blit (drop i b) 0 (g f ch), 0)"
    "length (g f ch) = sz"
    using enc_convert [OF fmt e, of "drop i b"] src i by auto
  have "c_int (int i + int sz) = Some (int (i + sz))" using i b(1) small c_int_add [of i sz] by simp
  moreover have "length (drop i b) = length b - i" by simp
  ultimately have "put_sample fmt buffers f ch st = Some (take i b @ blit (drop i b) 0 (g f ch), i + sz)"
    using cv pb ch i src fmt(2) unfolding put_sample_def bi by (simp add: port_buffers_def)
  moreover have "take (i + sz) (take i b @ blit (drop i b) 0 (g f ch)) = take i b @ g f ch"
    "length (take i b @ blit (drop i b) 0 (g f ch)) = length b"
    using i cv(2) by (simp_all add: blit_0)
  moreover have "i + sz = (f * nb + Suc ch) * sz" using b(2) by simp
  moreover have "concat (map (g f) [0..<Suc ch]) = concat (map (g f) [0..<ch]) @ g f ch" by simp
  ultimately show ?thesis unfolding put_so_far_def b(1,3) by (metis append_assoc fst_conv snd_conv)
qed

lemma interleaved_Suc: "interleaved_period g nb (Suc f) = interleaved_period g nb f @ concat (map (g f) [0..<nb])"
  by (simp add: interleaved_period_def)

lemma fill_txbuf_ok:
  assumes fmt: "fmt \<le> 4" "bit_size fmt = Some sz" and pb: "port_buffers fmt nb n buffers g"
    and len: "length buf = n * nb * sz" and small: "n * nb * sz < 2 ^ 31" "n < 2 ^ 16"
  shows "fill_txbuf n nb fmt buffers buf = Some (interleaved_period g nb n) \<and> length (interleaved_period g nb n) = n * nb * sz"
proof -
  have frame: "\<exists>st'. for_loop 0 nb (put_sample fmt buffers f) st = Some st' \<and> put_so_far g nb sz (n * nb * sz) (Suc f) 0 st'"
    if st: "put_so_far g nb sz (n * nb * sz) f 0 st" and f: "f < n" for f st
  proof -
    have "\<exists>st'. for_loop 0 nb (put_sample fmt buffers f) st = Some st' \<and> put_so_far g nb sz (n * nb * sz) f (0 + nb) st'"
      by (rule for_loop_inv [where P = "put_so_far g nb sz (n * nb * sz) f", OF st]) (use put_sample_step [OF fmt pb] f small in auto)
    then show ?thesis by (auto simp: put_so_far_def interleaved_Suc add.commute)
  qed
  have "\<exists>st. for_loop 0 n (\<lambda>f. for_loop 0 nb (put_sample fmt buffers f)) (buf, 0) = Some st \<and>
      put_so_far g nb sz (n * nb * sz) (0 + n) 0 st"
    by (rule for_loop_inv [where P = "\<lambda>f. put_so_far g nb sz (n * nb * sz) f 0"]) (use frame len in \<open>auto simp: put_so_far_def interleaved_period_def\<close>)
  then obtain b i where "for_loop 0 n (\<lambda>f. for_loop 0 nb (put_sample fmt buffers f)) (buf, 0) = Some (b, i)"
      "put_so_far g nb sz (n * nb * sz) n 0 (b, i)" by auto
  moreover from this(2) have "take i b = interleaved_period g nb n" "length b = i" "length b = n * nb * sz" unfolding put_so_far_def by auto
  ultimately show ?thesis using small(2) by (auto simp: fill_txbuf_def)
qed


section \<open>The callback without slicing\<close>

lemma tx_midi_none [simp]: "tx_midi nf [] s = Some s"
  by (simp add: tx_midi_def)

text \<open>What the callback needs of the stream: the buffer of the period it was cut for.\<close>

definition cut_for :: "stream_context \<Rightarrow> nat \<Rightarrow> nat \<Rightarrow> bool" where
  "cut_for c n sz \<longleftrightarrow> nframes c = n \<and> n < 2 ^ 16 \<and> vban_output_format c \<le> 4 \<and> bit_size (vban_output_format c) = Some sz \<and>
     (\<exists>b. txbuf c = Some b \<and> length b = n * nbinputs c * sz) \<and>
     n * nbinputs c * sz = pacnum c * pacdatalen c \<and> n * nbinputs c * sz < 2 ^ 31 \<and> 0 < pacnum c"

lemma on_tx_plain:
  assumes ok: "sender_ok (t_ctx s)" "xlen (t_ctx s) \<noteq> 6 \<or> iptx (t_ctx s) \<noteq> 0x0100007F" and cut: "cut_for (t_ctx s) n sz"
    and pb: "port_buffers (vban_output_format (t_ctx s)) (nbinputs (t_ctx s)) n buffers g"
    and plain: "\<not> flag_set (flags (t_ctx s)) SLICING"
    and delta: "calc_delta_filtered raw ((callback_delta d)\<lparr>ts_new := clock\<rparr>) 3 (lit f32 (5 / 1000)) = Some delta"
    and ans: "per_copy answers k e" and P: "P = interleaved_period g (nbinputs (t_ctx s)) n"
  shows "\<exists>s'. on_tx_process alloc answers clock raw n buffers [] (d, s) = Some (d\<lparr>callback_delta := delta\<rparr>, s') \<and>
    t_io s' = t_io s @ concat (map (\<lambda>i. replicate ((redundancy (t_ctx s) + 1) * k)
      (nth_datagram (t_ctx s) P (\<lambda>i. i * pacdatalen (t_ctx s)) 0 i)) [0..<pacnum (t_ctx s)]) \<and>
    sent_state ((t_ctx s)\<lparr>txbuf := Some P\<rparr>) (pacnum (t_ctx s)) (t_ctx s')"
proof -
  obtain b where b: "txbuf (t_ctx s) = Some b" "length b = n * nbinputs (t_ctx s) * sz" using cut by (auto simp: cut_for_def)
  have "fill_txbuf n (nbinputs (t_ctx s)) (vban_output_format (t_ctx s)) buffers b = Some P \<and> length P = n * nbinputs (t_ctx s) * sz"
    using cut b(2) unfolding P by (intro fill_txbuf_ok [OF _ _ pb]) (auto simp: cut_for_def)
  then have fill: "fill_txbuf n (nbinputs (t_ctx s)) (vban_output_format (t_ctx s)) buffers b = Some P"
    and lenP: "length P = pacnum (t_ctx s) * pacdatalen (t_ctx s)"
    using cut by (simp_all add: cut_for_def)
  let ?s = "s\<lparr>t_ctx := (t_ctx s)\<lparr>txbuf := Some P\<rparr>\<rparr>"
  have "\<exists>s'. vban_send_txbuffer answers 0 2 ?s = Some (s', e) \<and>
    t_io s' = t_io ?s @ concat (map (\<lambda>i. replicate ((redundancy (t_ctx ?s) + 1) * k)
      (nth_datagram (t_ctx ?s) P (\<lambda>i. i * pacdatalen (t_ctx ?s)) 0 i)) [0..<pacnum (t_ctx ?s)]) \<and>
    sent_state (t_ctx ?s) (pacnum (t_ctx ?s)) (t_ctx s')"
    using send_whole [of ?s P answers k e 0] ok lenP cut ans by (simp add: sender_ok_def cut_for_def) blast
  then obtain s' where s': "vban_send_txbuffer answers 0 2 ?s = Some (s', e)"
    "t_io s' = t_io s @ concat (map (\<lambda>i. replicate ((redundancy (t_ctx s) + 1) * k)
      (nth_datagram (t_ctx s) P (\<lambda>i. i * pacdatalen (t_ctx s)) 0 i)) [0..<pacnum (t_ctx s)])"
    "sent_state (t_ctx ?s) (pacnum (t_ctx s)) (t_ctx s')"
    by (auto simp: nth_datagram_def)
  have "nframes (t_ctx s) = n" using cut by (simp add: cut_for_def)
  then have "on_tx_process alloc answers clock raw n buffers [] (d, s) = Some (d\<lparr>callback_delta := delta\<rparr>, s')"
    using plain delta b(1) fill s'(1) by (simp add: on_tx_process_def Let_def)
  then show ?thesis using s'(2,3) by auto
qed



section \<open>The timer's slices\<close>

lemma sent_state_0: "packet_ok (txpacket c) \<Longrightarrow> sent_state c 0 c"
  by (simp add: sent_state_def)

lemma sent_state_add:
  assumes "sent_state c i d" and "sent_state d j e"
  shows "sent_state c (i + j) e"
proof -
  have "d = c\<lparr>txsock := txsock d, txpacket := txpacket d\<rparr>" "e = d\<lparr>txsock := txsock e, txpacket := txpacket e\<rparr>"
    using assms by (simp_all add: sent_state_def)
  then have "e = c\<lparr>txsock := txsock d, txpacket := txpacket d\<rparr>\<lparr>txsock := txsock e, txpacket := txpacket e\<rparr>" by metis
  then have "e = c\<lparr>txsock := txsock e, txpacket := txpacket e\<rparr>" by simp
  then show ?thesis using assms by (simp add: sent_state_def add.assoc)
qed

text \<open>After \<open>k\<close> slices: the state of a sender after \<open>k * t\<close> packets, with slice \<open>k\<close> due.\<close>

definition sliced :: "stream_context \<Rightarrow> nat \<Rightarrow> nat \<Rightarrow> stream_context \<Rightarrow> bool" where
  "sliced c n k d \<longleftrightarrow> sent_state (c\<lparr>txdata_ind := k mod n\<rparr>) (k * pacnum_t32 c) d"

lemma sliced_keeps:
  assumes "sliced c n k d"
  shows "txport d = txport c \<and> redundancy d = redundancy c \<and> txbuf d = txbuf c \<and> pacdatalen d = pacdatalen c \<and>
    txdata_ind d = k mod n \<and> pacnum_t32 d = pacnum_t32 c \<and> tx_transactions d = tx_transactions c \<and> flags d = flags c \<and>
    fd (txsock d) = fd (txsock c) \<and> sin_addr (txsock d) = sin_addr (txsock c) \<and> packet_ok (txpacket d) \<and>
    header (txpacket d) = (header (txpacket c))\<lparr>nuFrame := nuFrame (header (txpacket c)) + of_nat (k * pacnum_t32 c)\<rparr>"
proof -
  have d: "d = c\<lparr>txdata_ind := k mod n\<rparr>\<lparr>txsock := txsock d, txpacket := txpacket d\<rparr>"
    using assms by (simp add: sliced_def sent_state_def)
  have "txport d = txport c" "redundancy d = redundancy c" "txbuf d = txbuf c" "pacdatalen d = pacdatalen c"
    "txdata_ind d = k mod n" "pacnum_t32 d = pacnum_t32 c" "tx_transactions d = tx_transactions c" "flags d = flags c"
    by (subst d, simp)+
  then show ?thesis using assms by (simp add: sliced_def sent_state_def)
qed

lemma nth_datagram_later:
  assumes "sliced c n k d"
  shows "nth_datagram d buf (\<lambda>i. (k * t + i) * l) txip i =
    Sendto (fd (txsock c)) (header_bytes ((header (txpacket c))\<lparr>nuFrame := nuFrame (header (txpacket c)) +
        of_nat (k * pacnum_t32 c + i)\<rparr>) @ take (pacdatalen c) (drop ((k * t + i) * l) buf))
      (if txip = 0 then sin_addr (txsock c) else txip) (htons (txport c))"
  using sliced_keeps [OF assms] by (simp add: nth_datagram_def add.assoc)

text \<open>One expiration.\<close>

lemma timer_step:
  assumes ok: "sender_ok c" and buf: "txbuf c = Some buf" "length buf = n * (pacnum_t32 c * pacdatalen c)" "length buf < 2 ^ 31"
    and n: "tx_transactions c = n" "n < 2 ^ 16" "n * pacnum_t32 c < 2 ^ 31" "0 < pacnum_t32 c" and k: "k < n"
    and ans: "per_copy answers m e" and st: "sliced c n k (t_ctx s)"
  shows "\<exists>s'. timer_expired answers s = Some s' \<and> sliced c n (Suc k) (t_ctx s') \<and>
    t_io s' = t_io s @ concat (map (\<lambda>i. replicate ((redundancy c + 1) * m) (nth_datagram c buf (\<lambda>i. i * pacdatalen c) 0 i))
      [k * pacnum_t32 c..<Suc k * pacnum_t32 c])"
proof -
  let ?t = "pacnum_t32 c" and ?l = "pacdatalen c" and ?r = "(redundancy c + 1) * m"
  note kp = sliced_keeps [OF st]
  have kk: "k mod n = k" using k by simp
  have so: "sender_ok (t_ctx s)" using ok kp by (simp add: sender_ok_def)
  obtain s1 where s1: "vban_send_t32_fragment answers 0 2 s = Some (s1, e)"
      "t_io s1 = t_io s @ concat (map (\<lambda>i. replicate ((redundancy (t_ctx s) + 1) * m)
        (nth_datagram (t_ctx s) buf (\<lambda>i. (k * ?t + i) * ?l) 0 i)) [0..<?t])" "sent_state (t_ctx s) ?t (t_ctx s1)"
    using send_slice [of s buf k ?t ?l n answers m e 0] so buf kp kk n k ans by auto
  have dg: "nth_datagram (t_ctx s) buf (\<lambda>i. (k * ?t + i) * ?l) 0 i = nth_datagram c buf (\<lambda>i. i * ?l) 0 (k * ?t + i)" for i
    using nth_datagram_later [OF st, of buf ?t ?l 0 i] by (simp add: nth_datagram_def)
  have "map (\<lambda>i. replicate ?r (nth_datagram (t_ctx s) buf (\<lambda>i. (k * ?t + i) * ?l) 0 i)) [0..<?t] =
      map (\<lambda>i. replicate ?r (nth_datagram c buf (\<lambda>i. i * ?l) 0 i)) [k * ?t..<Suc k * ?t]"
    by (rule nth_equalityI) (simp_all add: dg)
  then have io: "t_io s1 = t_io s @ concat (map (\<lambda>i. replicate ?r (nth_datagram c buf (\<lambda>i. i * ?l) 0 i)) [k * ?t..<Suc k * ?t])"
    using s1(2) kp by simp
  have t1: "sent_state (c\<lparr>txdata_ind := k\<rparr>) (Suc k * ?t) (t_ctx s1)"
    using sent_state_add [OF st [unfolded sliced_def kk] s1(3)] by (simp add: add.commute)
  have i1: "txdata_ind (t_ctx s1) = k" "tx_transactions (t_ctx s1) = n"
  proof -
    have d: "t_ctx s1 = c\<lparr>txdata_ind := k\<rparr>\<lparr>txsock := txsock (t_ctx s1), txpacket := txpacket (t_ctx s1)\<rparr>"
      using t1 by (simp add: sent_state_def)
    show "txdata_ind (t_ctx s1) = k" "tx_transactions (t_ctx s1) = n" by (subst d, simp add: n(1))+
  qed
  have "(if int k = int n - 1 then 0 else to_u16 (int k + 1)) = Suc k mod n"
    using k n(2) to_u16_nat [of "Suc k"] by (auto simp: add.commute mod_Suc)
  then have run: "timer_expired answers s = Some (s1\<lparr>t_ctx := (t_ctx s1)\<lparr>txdata_ind := Suc k mod n\<rparr>\<rparr>)"
    unfolding timer_expired_def s1(1) Option.bind.bind_lunit prod.case Let_def i1 by (simp only:)
  have "sent_state (c\<lparr>txdata_ind := Suc k mod n\<rparr>) (Suc k * ?t) ((t_ctx s1)\<lparr>txdata_ind := Suc k mod n\<rparr>)"
  proof -
    have "(t_ctx s1)\<lparr>txdata_ind := j\<rparr> = c\<lparr>txdata_ind := j\<rparr>\<lparr>txsock := txsock (t_ctx s1), txpacket := txpacket (t_ctx s1)\<rparr>" for j
    proof -
      have "t_ctx s1 = c\<lparr>txdata_ind := k\<rparr>\<lparr>txsock := txsock (t_ctx s1), txpacket := txpacket (t_ctx s1)\<rparr>"
        using t1 by (simp add: sent_state_def)
      then have "(t_ctx s1)\<lparr>txdata_ind := j\<rparr> =
          c\<lparr>txdata_ind := k\<rparr>\<lparr>txsock := txsock (t_ctx s1), txpacket := txpacket (t_ctx s1)\<rparr>\<lparr>txdata_ind := j\<rparr>" by simp
      then show ?thesis by simp
    qed
    then show ?thesis using t1 by (simp add: sent_state_def)
  qed
  then show ?thesis unfolding run using io by (intro exI [of _ "s1\<lparr>t_ctx := (t_ctx s1)\<lparr>txdata_ind := Suc k mod n\<rparr>\<rparr>"]) (simp add: sliced_def)
qed


text \<open>Any wake-ups, \<open>k\<close> slices having left before.\<close>

lemma wakeups_run:
  assumes ok: "sender_ok c" and buf: "txbuf c = Some buf" "length buf = n * (pacnum_t32 c * pacdatalen c)" "length buf < 2 ^ 31"
    and n: "tx_transactions c = n" "n < 2 ^ 16" "n * pacnum_t32 c < 2 ^ 31" "0 < pacnum_t32 c" and ans: "per_copy answers m e"
    and fl: "flag_set (flags c) SENDING"
  shows "sliced c n k (t_ctx s) \<Longrightarrow> k + count_list ws True \<le> n \<Longrightarrow>
    \<exists>s'. timer_wakeups answers ws s = Some s' \<and> sliced c n (k + count_list ws True) (t_ctx s') \<and>
      t_io s' = t_io s @ concat (map (\<lambda>i. replicate ((redundancy c + 1) * m) (nth_datagram c buf (\<lambda>i. i * pacdatalen c) 0 i))
        [k * pacnum_t32 c..<(k + count_list ws True) * pacnum_t32 c])"
proof (induction ws arbitrary: k s)
  case (Cons w ws)
  let ?g = "\<lambda>i. replicate ((redundancy c + 1) * m) (nth_datagram c buf (\<lambda>i. i * pacdatalen c) 0 i)"
  have fs: "flag_set (flags (t_ctx s)) SENDING" using sliced_keeps [OF Cons.prems(1)] fl by simp
  show ?case
  proof (cases w)
    case True
    then have k: "k < n" "Suc k + count_list ws True \<le> n" using Cons.prems(2) by auto
    obtain s1 where s1: "timer_expired answers s = Some s1" "sliced c n (Suc k) (t_ctx s1)"
        "t_io s1 = t_io s @ concat (map ?g [k * pacnum_t32 c..<Suc k * pacnum_t32 c])"
      using timer_step [OF ok buf n k(1) ans Cons.prems(1)] by blast
    obtain s2 where s2: "timer_wakeups answers ws s1 = Some s2" "sliced c n (Suc k + count_list ws True) (t_ctx s2)"
        "t_io s2 = t_io s1 @ concat (map ?g [Suc k * pacnum_t32 c..<(Suc k + count_list ws True) * pacnum_t32 c])"
      using Cons.IH [OF s1(2) k(2)] by blast
    have "k * pacnum_t32 c \<le> Suc k * pacnum_t32 c" "Suc k * pacnum_t32 c \<le> (Suc k + count_list ws True) * pacnum_t32 c"
      by (simp, intro mult_le_mono1) simp
    then have "[k * pacnum_t32 c..<Suc k * pacnum_t32 c] @ [Suc k * pacnum_t32 c..<(Suc k + count_list ws True) * pacnum_t32 c] =
        [k * pacnum_t32 c..<(Suc k + count_list ws True) * pacnum_t32 c]"
      using upt_add_eq_append [of "k * pacnum_t32 c" "Suc k * pacnum_t32 c"] by (metis le_Suc_ex)
    then have "t_io s2 = t_io s @ concat (map ?g [k * pacnum_t32 c..<(Suc k + count_list ws True) * pacnum_t32 c])"
      unfolding s2(3) s1(3) append_assoc concat_append [symmetric] map_append [symmetric] by (simp only:)
    moreover have "count_list (w # ws) True = Suc (count_list ws True)" using True by simp
    ultimately show ?thesis using s1(1) s2(1,2) fs True by simp
  next
    case False
    then show ?thesis using Cons fs by simp
  qed
qed simp


section \<open>What a MIDI event finds\<close>

lemma for_loop_keeps:
  assumes "for_loop i n f s = Some s'" and "P s" and "\<And>k s s'. P s \<Longrightarrow> f k s = Some s' \<Longrightarrow> P s'"
  shows "P s'"
  using assms(1,2)
proof (induction n arbitrary: i s)
  case (Suc n)
  then obtain s1 where "f i s = Some s1" "for_loop (Suc i) n f s1 = Some s'" by (auto simp: bind_eq_Some_conv)
  then show ?case using Suc.IH assms(3) Suc.prems(2) by blast
qed simp

text \<open>Sending changes the socket and the packet only.\<close>

definition same_stream :: "stream_context \<Rightarrow> stream_context \<Rightarrow> bool" where
  "same_stream c d \<longleftrightarrow> txmidipac d = txmidipac c \<and> nframes d = nframes c \<and> vban_output_format d = vban_output_format c"

lemma send_udp_same: "send_udp n ip s = Some s' \<Longrightarrow> same_stream (t_ctx s) (t_ctx s')"
  by (auto simp: send_udp_def bind_eq_Some_conv Let_def same_stream_def)

lemma resend_same: "resend left answers n ip s = Some (s', k) \<Longrightarrow> same_stream (t_ctx s) (t_ctx s')"
proof (induction left arbitrary: s k)
  case (Suc left)
  then show ?case
    by (fastforce simp: bind_eq_Some_conv same_stream_def split: if_splits dest!: send_udp_same Suc.IH)
qed (auto simp: same_stream_def)

lemma send_copy_same: "send_copy answers n m ip a st = Some st' \<Longrightarrow> same_stream (t_ctx (fst st)) (t_ctx (fst st'))"
  by (cases st) (auto simp: send_copy_def bind_eq_Some_conv same_stream_def split: if_splits dest!: send_udp_same resend_same)

lemma send_copies_same: "send_copies answers n m ip a st = Some st' \<Longrightarrow> same_stream (t_ctx (fst st)) (t_ctx (fst st'))"
  by (cases st) (auto simp: send_copies_def same_stream_def simp del: for_loop.simps split: if_splits
    dest!: for_loop_keeps [where P = "\<lambda>x. same_stream (t_ctx (fst st)) (t_ctx (fst x))"] dest: send_copy_same)

lemma send_txbuffer_same:
  assumes "vban_send_txbuffer answers ip a s = Some (s', r)"
  shows "same_stream (t_ctx s) (t_ctx s')"
proof -
  have "same_stream (t_ctx s) (t_ctx (fst (s', r)))"
    using assms unfolding vban_send_txbuffer_def Let_def
  proof (rule for_loop_keeps, goal_cases)
    case (2 k st st')
    then show ?case
      by (cases st) (auto simp: bind_eq_Some_conv load_packet_def next_number_def Let_def same_stream_def split: if_splits
        dest!: send_copies_same)
  qed (simp add: same_stream_def)
  then show ?thesis by simp
qed

lemma send_txbuffer_midi: "vban_send_txbuffer answers ip a s = Some (s', r) \<Longrightarrow> txmidipac (t_ctx s') = txmidipac (t_ctx s)"
  using send_txbuffer_same by (auto simp: same_stream_def)

lemma tune_keeps:
  assumes "tune_tx_packets alloc s = Some s'"
  shows "nframes s' = nframes s \<and> nbinputs s' = nbinputs s \<and> vban_output_format s' = vban_output_format s \<and>
    samplerate s' = samplerate s \<and> txport s' = txport s \<and> redundancy s' = redundancy s \<and> xlen s' = xlen s \<and>
    iptx s' = iptx s \<and> txsock s' = txsock s \<and> txmidipac s' = txmidipac s \<and> pdata (txpacket s') = pdata (txpacket s) \<and>
    header (txpacket s') = (header (txpacket s))\<lparr>format_nbs := format_nbs (header (txpacket s'))\<rparr> \<and>
    (flags s' = flags s \<or> flags s' = flags s AND NOT SLICING)"
  using assms unfolding tune_tx_packets_def Let_def
  by (auto simp: bind_eq_Some_conv split: if_splits prod.splits)

section \<open>The start\<close>

text \<open>
  A stream of the command line and a system that grants what it needs: a datagram port, no search, a
  format the callback converts, a period of \<open>2 ^ j\<close> frames that fits the counters.
\<close>

definition startable :: "emitter_env \<Rightarrow> stream_context \<Rightarrow> nat \<Rightarrow> nat \<Rightarrow> bool" where
  "startable env c j sz \<longleftrightarrow> txport c \<noteq> 0 \<and> (hd (tx_streamname c) = 0 \<or> iptx c \<noteq> 0) \<and> length (tx_streamname c) = 16 \<and>
     packet_ok (txpacket c) \<and> packet_ok (txmidipac c) \<and> packet_ok (txmeta c) \<and> redundancy c < 255 \<and>
     (xlen c \<noteq> 6 \<or> iptx c \<noteq> 0x0100007F) \<and> \<not> flag_set (flags c) SLICING \<and>
     vban_output_format c \<le> 4 \<and> bit_size (vban_output_format c) = Some sz \<and> 0 < nbinputs c \<and> nbinputs c \<le> VBAN_CHANNELS_MAX_NB \<and>
     nbinputs c * sz \<le> VBAN_DATA_MAX_SIZE \<and> 2 ^ j * (nbinputs c * sz) < 2 ^ 16 \<and>
     opens (ee_server env) \<and> buffer_size (ee_server env) = 2 ^ j \<and> 0 < sample_rate (ee_server env) \<and> sample_rate (ee_server env) < 2 ^ 31 \<and>
     a_malloc (ee_socket env) \<and> 0 \<le> a_socket (ee_socket env) \<and> 0 \<le> a_bcast (ee_socket env) \<and>
     (\<forall>n. \<exists>b. ee_alloc env n = Some b \<and> length b = n)"

lemma emitter_open_ok:
  assumes "startable env c j sz"
  shows "\<exists>k tr. emitter_open env c = Some (Inr \<lparr>t_ctx = c\<lparr>txsock := k\<rparr>, t_io = tr, t_chk = 0\<rparr>) \<and> fd k = a_socket (ee_socket env)"
proof -
  let ?u = "udp_init (\<lambda>a. oe_addr (ee_options env) (bytes_of a)) (ee_socket env) 0 (txport c) None
            (Some (text_of (cstr (iptxaddr c)))) 1000 6 1"
  have st: "txport c \<noteq> 0" "\<not> (hd (tx_streamname c) \<noteq> 0 \<and> iptx c = 0)" "a_malloc (ee_socket env)" "\<not> a_socket (ee_socket env) < 0"
    "\<not> a_bcast (ee_socket env) < 0"
    using assms by (auto simp: startable_def)
  have "\<exists>k. fst ?u = Some k \<and> fd k = a_socket (ee_socket env)"
    by (simp add: udp_init_def Let_def st)
  then obtain k tr where u: "?u = (Some k, tr)" "fd k = a_socket (ee_socket env)" by (cases ?u) auto
  have "emitter_open env c = Some (Inr \<lparr>t_ctx = c\<lparr>txsock := k\<rparr>, t_io = tr @ set_recverr (fd k), t_chk = 0\<rparr>)"
    unfolding emitter_open_def u(1) prod.case option.case Let_def using st(1,2) by auto
  then show ?thesis using u(2) by blast
qed

lemma named_header_ok:
  assumes "header_ok h" and "length name = 16"
  shows "named_header name h = Some (h\<lparr>streamname := blit (streamname h) 0 (take 16 (cstr name))\<rparr>) \<and>
    length (blit (streamname h) 0 (take 16 (cstr name))) = 16"
proof -
  have "length (streamname h) = 16" "length (take 16 (cstr name)) \<le> 16" using assms(1) by (simp_all add: header_ok_def vban_sizes)
  then show ?thesis by (simp add: named_header_def mem_store_def)
qed

definition announced_header :: "stream_context \<Rightarrow> vban_header \<Rightarrow> bool" where
  "announced_header c h \<longleftrightarrow> vban h = VBAN_HEADER_FOURC \<and>
     format_SR h = VBAN_SR_MASK AND word_of_int (vban_get_format_SR (samplerate c)) \<and>
     format_bit h = word_of_nat (vban_output_format c) \<and> format_nbc h = word_of_int (int (nbinputs c) - 1) \<and>
     streamname h = blit (streamname (header (txpacket c))) 0 (take 16 (cstr (tx_streamname c)))"

lemma emitter_headers_ok:
  assumes "packet_ok (txpacket c)" and "packet_ok (txmidipac c)" and "packet_ok (txmeta c)" and "length (tx_streamname c) = 16"
  shows "\<exists>p q r. emitter_headers c = Some (c\<lparr>txpacket := p, txmidipac := q, txmeta := r\<rparr>) \<and> packet_ok p \<and> packet_ok q \<and>
    announced_header c (header p) \<and> vban (header q) = VBAN_HEADER_FOURC \<and> format_SR (header q) = protocol_val VBAN_PROTOCOL_SERIAL"
proof -
  let ?b = "\<lambda>p. blit (streamname (header p)) 0 (take 16 (cstr (tx_streamname c)))"
  have n: "named_header (tx_streamname c) ((header p)\<lparr>vban := v, format_SR := sr\<rparr>) =
      Some ((header p)\<lparr>vban := v, format_SR := sr, streamname := ?b p\<rparr>)"
    "named_header (tx_streamname c) ((header p)\<lparr>vban := v, format_SR := sr, format_bit := x, format_nbc := y, format_nbs := z\<rparr>) =
      Some ((header p)\<lparr>vban := v, format_SR := sr, format_bit := x, format_nbc := y, format_nbs := z, streamname := ?b p\<rparr>)"
    "length (?b p) = 16" if "packet_ok p" for p v sr x y z
    using that named_header_ok [of "(header p)\<lparr>vban := v, format_SR := sr\<rparr>"]
      named_header_ok [of "(header p)\<lparr>vban := v, format_SR := sr, format_bit := x, format_nbc := y, format_nbs := z\<rparr>"] assms(4)
    by (simp_all add: packet_ok_def header_ok_def)
  have "length (pdata (txmeta c)) = 1436" using assms(3) by (simp add: packet_ok_def vban_sizes)
  then have d: "\<exists>d. mem_store (pdata (txmeta c)) 0 (bytes_of ''META'') = Some d" by (simp add: mem_store_def bytes_of_def)
  then obtain d where d: "mem_store (pdata (txmeta c)) 0 (bytes_of ''META'') = Some d" ..
  let ?p = "(txpacket c)\<lparr>header := (header (txpacket c))\<lparr>vban := VBAN_HEADER_FOURC,
      format_SR := VBAN_SR_MASK AND word_of_int (vban_get_format_SR (samplerate c)),
      format_bit := word_of_nat (vban_output_format c), format_nbc := word_of_int (int (nbinputs c) - 1),
      format_nbs := word_of_int (vban_nframes_pac c - 1), streamname := ?b (txpacket c)\<rparr>\<rparr>"
  let ?q = "(txmidipac c)\<lparr>header := (header (txmidipac c))\<lparr>vban := VBAN_HEADER_FOURC,
      format_SR := protocol_val VBAN_PROTOCOL_SERIAL, streamname := ?b (txmidipac c)\<rparr>\<rparr>"
  let ?r = "\<lparr>header = (header (txmeta c))\<lparr>vban := VBAN_HEADER_FOURC, format_SR := protocol_val VBAN_PROTOCOL_USER,
      streamname := ?b (txmeta c)\<rparr>, pdata = d\<rparr>"
  have "emitter_headers c = Some (c\<lparr>txpacket := ?p, txmidipac := ?q, txmeta := ?r\<rparr>)"
    unfolding emitter_headers_def Let_def n(2) [OF assms(1)] Option.bind.bind_lunit
    by (simp add: n(1) [OF assms(2)] n(1) [OF assms(3)] d)
  moreover have "packet_ok ?p" "packet_ok ?q" using assms(1,2) n(3) by (simp_all add: packet_ok_def header_ok_def vban_sizes)
  moreover have "announced_header c (header ?p)" by (simp add: announced_header_def)
  ultimately show ?thesis by (intro exI [of _ ?p] exI [of _ ?q] exI [of _ ?r]) simp
qed


lemma startable_sz:
  assumes "startable env c j sz"
  shows "0 < nbinputs c * sz \<and> 2 ^ j < (2 :: nat) ^ 16"
proof
  note s = assms [unfolded startable_def]
  have "vban_output_format c \<in> {0, 1, 2, 3, 4}" using s by auto
  then have "1 \<le> sz" using s by auto
  then show fs: "0 < nbinputs c * sz" using s by simp
  have "2 ^ j * 1 \<le> 2 ^ j * (nbinputs c * sz)" using fs by (intro mult_le_mono2) simp
  then show "2 ^ j < (2 :: nat) ^ 16" using s by linarith
qed

lemma jack_init_tx_ok:
  assumes st: "startable env c j sz" and same: "nbinputs d = nbinputs c" "vban_output_format d = vban_output_format c"
    and fl: "\<not> flag_set (flags d) SLICING"
  shows "\<exists>cl d' r. jack_init_tx_stream (ee_alloc env) (ee_server env) zero_jack d = Some (cl, d', r) \<and>
    input_ports cl = port_names ''Input_'' ''Input_MIDI'' (nbinputs c) \<and> Set_process_callback \<in> set (jcalls cl) \<and>
    callback_delta cl = zero_delta \<and>
    tuned (2 ^ j) (nbinputs c * sz) d' \<and>
    tune_tx_packets (ee_alloc env) (d\<lparr>samplerate := int (sample_rate (ee_server env)), nframes := 2 ^ j\<rparr>) = Some d'"
proof -
  note s = st [unfolded startable_def]
  note fs = startable_sz [OF st, THEN conjunct1]
  have "2 ^ j < (2 :: nat) ^ 16" using startable_sz [OF st] by simp
  then have nf: "to_u16 (int (buffer_size (ee_server env))) = 2 ^ j" using s to_u16_nat [of "2 ^ j"] by simp
  have sr: "to_i32 (int (sample_rate (ee_server env))) = int (sample_rate (ee_server env))" using s by (intro to_i32_nat) simp
  let ?d = "d\<lparr>samplerate := int (sample_rate (ee_server env)), nframes := 2 ^ j\<rparr>"
  obtain d' where d': "tune_tx_packets (ee_alloc env) ?d = Some d'" "tuned (2 ^ j) (nbinputs c * sz) d'"
    using tune_ok [of ?d j sz "nbinputs c * sz" "ee_alloc env"] s same fs by auto
  have "nbinputs c < 9999" using s by (simp add: vban_sizes)
  then have "\<forall>fl cl. \<exists>cs. register_ports ''Input_'' ''Input_MIDI'' fl (nbinputs c) cl =
      Some (cl\<lparr>jcalls := jcalls cl @ cs\<rparr>, port_names ''Input_'' ''Input_MIDI'' (nbinputs c))"
    using register_ports_ok [of "nbinputs c" "''Input_''" "''Input_MIDI''"] by (simp add: bytes_of_def)
  then obtain cs where cs: "\<And>fl cl. register_ports ''Input_'' ''Input_MIDI'' fl (nbinputs c) cl =
      Some (cl\<lparr>jcalls := jcalls cl @ cs fl cl\<rparr>, port_names ''Input_'' ''Input_MIDI'' (nbinputs c))"
    by metis
  have nb: "nbinputs d' = nbinputs c" using tune_keeps [OF d'(1)] same by simp
  have "\<exists>cl r. jack_init_tx_stream (ee_alloc env) (ee_server env) zero_jack d = Some (cl, d', r) \<and>
      input_ports cl = port_names ''Input_'' ''Input_MIDI'' (nbinputs c) \<and> Set_process_callback \<in> set (jcalls cl) \<and>
      callback_delta cl = zero_delta"
    unfolding jack_init_tx_stream_def Let_def nf sr d'(1) nb Option.bind.bind_lunit cs prod.case
    using s by (simp add: jack_call_def zero_jack_def)
  then show ?thesis using d' by blast
qed

lemma flag_or: "\<not> flag_set f SLICING \<Longrightarrow> \<not> flag_set (f OR TRANSMITTER) SLICING \<and> \<not> flag_set (f OR SENDING) SLICING"
  by (simp, simp add: flag_set_def flag_defs)


lemma slicing_stays_off: "\<not> flag_set f SLICING \<Longrightarrow> \<not> flag_set (f AND NOT SLICING) SLICING"
  by simp

lemma emitter_run_ok:
  assumes st: "startable env c j sz"
  shows "\<exists>client s. emitter_run env c = Some (Inr (client, s)) \<and> sender_ok (t_ctx s) \<and>
    (xlen (t_ctx s) \<noteq> 6 \<or> iptx (t_ctx s) \<noteq> 0x0100007F) \<and> cut_for (t_ctx s) (2 ^ j) sz \<and>
    \<not> flag_set (flags (t_ctx s)) SLICING \<and> nbinputs (t_ctx s) = nbinputs c \<and> vban_output_format (t_ctx s) = vban_output_format c \<and>
    announced_header c (header (txpacket (t_ctx s))) \<and> samplerate (t_ctx s) = int (sample_rate (ee_server env)) \<and>
    input_ports client = port_names ''Input_'' ''Input_MIDI'' (nbinputs c) \<and> Set_process_callback \<in> set (jcalls client) \<and>
    callback_delta client = zero_delta \<and>
    packet_ok (txmidipac (t_ctx s)) \<and> format_SR (header (txmidipac (t_ctx s))) = protocol_val VBAN_PROTOCOL_SERIAL"
proof -
  note s = st [unfolded startable_def]
  obtain k tr where op: "emitter_open env c = Some (Inr \<lparr>t_ctx = c\<lparr>txsock := k\<rparr>, t_io = tr, t_chk = 0\<rparr>)"
    using emitter_open_ok [OF st] by blast
  obtain p q r where hd: "emitter_headers (c\<lparr>txsock := k\<rparr>) = Some (c\<lparr>txsock := k\<rparr>\<lparr>txpacket := p, txmidipac := q, txmeta := r\<rparr>)"
      "packet_ok p" "packet_ok q" "announced_header c (header p)" "format_SR (header q) = protocol_val VBAN_PROTOCOL_SERIAL"
    using emitter_headers_ok [of "c\<lparr>txsock := k\<rparr>"] s by (auto simp: announced_header_def)
  let ?d = "c\<lparr>txsock := k\<rparr>\<lparr>txpacket := p, txmidipac := q, txmeta := r\<rparr>\<lparr>flags := flags c OR TRANSMITTER\<rparr>"
  have fl: "\<not> flag_set (flags ?d) SLICING" using s flag_or [of "flags c"] by simp
  obtain cl d' ret where jk: "jack_init_tx_stream (ee_alloc env) (ee_server env) zero_jack ?d = Some (cl, d', ret)"
      "input_ports cl = port_names ''Input_'' ''Input_MIDI'' (nbinputs c)" "Set_process_callback \<in> set (jcalls cl)"
      "callback_delta cl = zero_delta" "tuned (2 ^ j) (nbinputs c * sz) d'"
      "tune_tx_packets (ee_alloc env) (?d\<lparr>samplerate := int (sample_rate (ee_server env)), nframes := 2 ^ j\<rparr>) = Some d'"
    using jack_init_tx_ok [OF st _ _ fl] by auto
  note kp = tune_keeps [OF jk(6)]
  have fl': "\<not> flag_set (flags d' OR SENDING) SLICING"
  proof -
    have "\<not> flag_set (flags d') SLICING" using kp fl slicing_stays_off [of "flags ?d"] by auto
    then show ?thesis using flag_or by blast
  qed
  let ?e = "d'\<lparr>flags := flags d' OR SENDING\<rparr>"
  obtain cs where run: "jack_run_tx_stream (ee_sources env) (ee_sinks env) (ee_activate env) ?e cl = Some (cl\<lparr>jcalls := jcalls cl @ cs\<rparr>, ee_activate env)"
  proof -
    have "0 < nbinputs ?e" "length (input_ports cl) = nbinputs ?e + 1" using jk(2) kp s by simp_all
    from jack_run_tx_ok [OF this] show ?thesis using that by blast
  qed
  have main: "emitter_run env c = Some (Inr (cl\<lparr>jcalls := jcalls cl @ cs\<rparr>, \<lparr>t_ctx = ?e, t_io = tr, t_chk = 0\<rparr>))"
    unfolding emitter_run_def op Option.bind.bind_lunit sum.case tx.simps hd(1) Let_def
    using jk(1) fl' run by simp
  obtain m i where cut: "2 ^ j = (2 :: nat) ^ m" "i \<le> m" "pacnum d' = 2 ^ i" "vban_nframes_pac d' = 2 ^ (m - i)"
      "pacdatalen d' = 2 ^ (m - i) * (nbinputs c * sz)" "pacdatalen d' \<le> VBAN_DATA_MAX_SIZE"
      "txbuf d' = Some (replicate (2 ^ j * (nbinputs c * sz)) 0)"
    using jk(5) unfolding tuned_def by blast
  have total: "pacnum d' * pacdatalen d' = 2 ^ j * (nbinputs c * sz)"
    using cut(2) by (simp add: cut(1,3,5) mult.assoc [symmetric] power_add [symmetric] del: power_inject_exp)
  have "packet_ok (txpacket d')"
    using hd(2) kp by (simp add: packet_ok_def header_ok_def) (metis vban_header.select_convs vban_header.surjective vban_header.update_convs)
  then have "sender_ok ?e" using cut(6) kp s by (simp add: sender_ok_def)
  moreover have "1 \<le> pacnum d'" by (simp add: cut(3))
  then have "cut_for ?e (2 ^ j) sz"
    using kp s total cut(7) startable_sz [OF st] by (auto simp: cut_for_def)
  moreover have "announced_header c (header (txpacket d'))"
  proof -
    have "header (txpacket d') = (header p)\<lparr>format_nbs := format_nbs (header (txpacket d'))\<rparr>" using kp by simp
    then have "vban (header (txpacket d')) = vban (header p)" "format_SR (header (txpacket d')) = format_SR (header p)"
      "format_bit (header (txpacket d')) = format_bit (header p)" "format_nbc (header (txpacket d')) = format_nbc (header p)"
      "streamname (header (txpacket d')) = streamname (header p)"
      by (metis vban_header.select_convs vban_header.surjective vban_header.update_convs)+
    then show ?thesis using hd(4) by (simp add: announced_header_def)
  qed
  ultimately show ?thesis unfolding main using kp s fl' jk(2-4) hd(3,5) by auto
qed

section \<open>Properties\<close>

text \<open>
  C25: From the start to the network. With options and a system that grant what it needs, the emitter
  starts, announces in its packets the name, the format, the number of ports and the sample rate of
  its options (the stream runs at the server's rate, whatever that is), has a port for every
  channel, and the first period of the sound card leaves completely: all samples of all ports in the
  stream's format, frame by frame, in consecutively numbered packets, each in redundancy plus one
  copies.
\<close>

theorem emitter_sends_sound:
  assumes "startable env c j sz" and "per_copy answers k e"
    and "port_buffers (vban_output_format c) (nbinputs c) (2 ^ j) buffers g" and "P = interleaved_period g (nbinputs c) (2 ^ j)"
  shows "\<exists>client s s'. emitter_run env c = Some (Inr (client, s)) \<and> announced_header c (header (txpacket (t_ctx s))) \<and>
    samplerate (t_ctx s) = int (sample_rate (ee_server env)) \<and>
    input_ports client = port_names ''Input_'' ''Input_MIDI'' (nbinputs c) \<and>
    on_tx_process alloc answers clock raw (2 ^ j) buffers [] (client, s) =
      Some (client\<lparr>callback_delta := zero_delta\<lparr>ts_new := if clock = (0, 0) then raw else clock,
        ts_old := if clock = (0, 0) then raw else clock\<rparr>\<rparr>, s') \<and>
    t_io s' = t_io s @ concat (map (\<lambda>i. replicate ((redundancy (t_ctx s) + 1) * k)
      (nth_datagram (t_ctx s) P (\<lambda>i. i * pacdatalen (t_ctx s)) 0 i)) [0..<pacnum (t_ctx s)]) \<and>
    concat (map (\<lambda>i. take (pacdatalen (t_ctx s)) (drop (i * pacdatalen (t_ctx s)) P)) [0..<pacnum (t_ctx s)]) = P"
proof -
  obtain client s where s: "emitter_run env c = Some (Inr (client, s))" "sender_ok (t_ctx s)"
      "xlen (t_ctx s) \<noteq> 6 \<or> iptx (t_ctx s) \<noteq> 0x0100007F" "cut_for (t_ctx s) (2 ^ j) sz"
      "\<not> flag_set (flags (t_ctx s)) SLICING" "nbinputs (t_ctx s) = nbinputs c" "vban_output_format (t_ctx s) = vban_output_format c"
      "announced_header c (header (txpacket (t_ctx s)))" "samplerate (t_ctx s) = int (sample_rate (ee_server env))"
      "input_ports client = port_names ''Input_'' ''Input_MIDI'' (nbinputs c)" "callback_delta client = zero_delta"
    using emitter_run_ok [OF assms(1)] by blast
  let ?t = "if clock = (0, 0) then raw else clock"
  have delta: "calc_delta_filtered raw ((callback_delta client)\<lparr>ts_new := clock\<rparr>) 3 (lit f32 (5 / 1000)) =
      Some (zero_delta\<lparr>ts_new := ?t, ts_old := ?t\<rparr>)"
    by (simp add: s(11) calc_delta_filtered_def zero_delta_def Let_def)
  have pb: "port_buffers (vban_output_format (t_ctx s)) (nbinputs (t_ctx s)) (2 ^ j) buffers g" using assms(3) s(6,7) by simp
  have P: "P = interleaved_period g (nbinputs (t_ctx s)) (2 ^ j)" using assms(4) s(6) by simp
  obtain s' where s': "on_tx_process alloc answers clock raw (2 ^ j) buffers [] (client, s) =
      Some (client\<lparr>callback_delta := zero_delta\<lparr>ts_new := ?t, ts_old := ?t\<rparr>\<rparr>, s')"
    "t_io s' = t_io s @ concat (map (\<lambda>i. replicate ((redundancy (t_ctx s) + 1) * k)
      (nth_datagram (t_ctx s) P (\<lambda>i. i * pacdatalen (t_ctx s)) 0 i)) [0..<pacnum (t_ctx s)])"
    using on_tx_plain [OF s(2-4) pb s(5) delta assms(2) P] by blast
  have "length P = pacnum (t_ctx s) * pacdatalen (t_ctx s)"
  proof -
    obtain b where "txbuf (t_ctx s) = Some b" "length b = 2 ^ j * nbinputs (t_ctx s) * sz" using s(4) by (auto simp: cut_for_def)
    then show ?thesis
      using fill_txbuf_ok [OF _ _ pb, of sz b] s(4) by (auto simp: cut_for_def P)
  qed
  then have "take (pacnum (t_ctx s) * pacdatalen (t_ctx s)) P = P" by simp
  then show ?thesis using s s' concat_slices [of "pacdatalen (t_ctx s)" P "pacnum (t_ctx s)"] by auto
qed

definition example_env :: emitter_env where
  "example_env = \<lparr>ee_options = \<lparr>oe_addr = \<lambda>_. 0x0501A8C0, oe_scan = \<lambda>_. (0, None, None), oe_pton = \<lambda>_. None, oe_malloc = \<lambda>_. True\<rparr>,
     ee_socket = \<lparr>a_malloc = True, a_socket = 5, a_bcast = 0, a_bind = 0\<rparr>, ee_ifaces = None, ee_rounds = [], ee_open = 0,
     ee_alloc = alloc_zeros, ee_server = \<lparr>opens = True, sample_rate = 44100, buffer_size = 2, callback_set = True\<rparr>, ee_thread = True,
     ee_sources = None, ee_sinks = None, ee_activate = 0\<rparr>"

theorem emitter_sends_sound_witness:
  "let c = emitter_defaults; buffers = [[1, 2, 3, 4, 5, 6, 7, 8], [11, 12, 13, 14, 15, 16, 17, 18]];
       P = interleaved_period (\<lambda>f ch. take 4 (drop (4 * f) (buffers ! ch))) (nbinputs c) (2 ^ 1); clock = (7, 8); raw = (9, 9) in
   \<exists>client s s'. emitter_run example_env c = Some (Inr (client, s)) \<and> announced_header c (header (txpacket (t_ctx s))) \<and>
    samplerate (t_ctx s) = int (sample_rate (ee_server example_env)) \<and>
    input_ports client = port_names ''Input_'' ''Input_MIDI'' (nbinputs c) \<and>
    on_tx_process alloc_zeros (\<lambda>_. Inr []) clock raw (2 ^ 1) buffers [] (client, s) =
      Some (client\<lparr>callback_delta := zero_delta\<lparr>ts_new := if clock = (0, 0) then raw else clock,
        ts_old := if clock = (0, 0) then raw else clock\<rparr>\<rparr>, s') \<and>
    t_io s' = t_io s @ concat (map (\<lambda>i. replicate ((redundancy (t_ctx s) + 1) * 1)
      (nth_datagram (t_ctx s) P (\<lambda>i. i * pacdatalen (t_ctx s)) 0 i)) [0..<pacnum (t_ctx s)]) \<and>
    concat (map (\<lambda>i. take (pacdatalen (t_ctx s)) (drop (i * pacdatalen (t_ctx s)) P)) [0..<pacnum (t_ctx s)]) = P"
  unfolding Let_def
  by (rule emitter_sends_sound [where sz = 4 and e = 0 and g = "\<lambda>f ch. take 4 (drop (4 * f)
      ([[1, 2, 3, 4, 5, 6, 7, 8], [11, 12, 13, 14, 15, 16, 17, 18]] ! ch))"])
    (simp_all add: example_env_def startable_def emitter_defaults_def zero_context_def vban_sizes per_copy_def quiet_def flag_set_def
      check_send_status_def ECONNREFUSED_def port_buffers_def enc_def vban_sample_convert_def mem_load_def alloc_zeros_def
      mem_store_def blit_def less_2_cases_iff)

text \<open>
  C26: Slicing sends what the callback would send. When the timer has expired as often as there are
  slices, whatever other wake-ups came between, the datagrams that have left are exactly those of
  \<open>vban_send_txbuffer\<close> for the same period, in the same order and with the same numbers, and the
  first slice is due again.
\<close>

theorem slices_equal_whole_period:
  assumes "sender_ok c" and "xlen c \<noteq> 6 \<or> iptx c \<noteq> 0x0100007F" and "txbuf c = Some buf"
    and "length buf = pacnum c * pacdatalen c" and "length buf < 2 ^ 31" and "0 < pacnum c" and "pacnum c < 2 ^ 16"
    and "pacnum_t32 c * tx_transactions c = pacnum c" and "txdata_ind c = 0" and "flag_set (flags c) SENDING"
    and "per_copy answers k e" and "t_ctx s = c" and "count_list wakes True = tx_transactions c"
  shows "\<exists>s1 s2. timer_wakeups answers wakes s = Some s1 \<and> vban_send_txbuffer answers 0 2 s = Some (s2, e) \<and>
    t_io s1 = t_io s2 \<and> sent_state c (pacnum c) (t_ctx s1) \<and> sent_state c (pacnum c) (t_ctx s2) \<and> txdata_ind (t_ctx s1) = 0"
proof -
  let ?n = "tx_transactions c" and ?t = "pacnum_t32 c"
  have t0: "0 < ?t" "0 < ?n" using assms(6,8) by (cases ?t; cases ?n; simp)+
  have "1 * ?n \<le> ?t * ?n" using t0 by (intro mult_le_mono1) simp
  then have n16: "?n < 2 ^ 16" "?n * ?t < 2 ^ 31" using assms(7,8) by (simp_all add: mult.commute)
  have len: "length buf = ?n * (?t * pacdatalen c)" unfolding assms(4) assms(8) [symmetric] by (simp only: ac_simps)
  have upd: "c\<lparr>txdata_ind := 0\<rparr> = c" using assms(9) by simp
  have start: "sliced c ?n 0 (t_ctx s)"
    using assms(1,12) sent_state_0 [of c] upd by (simp add: sliced_def sender_ok_def)
  obtain s1 where s1: "timer_wakeups answers wakes s = Some s1" "sliced c ?n ?n (t_ctx s1)"
      "t_io s1 = t_io s @ concat (map (\<lambda>i. replicate ((redundancy c + 1) * k) (nth_datagram c buf (\<lambda>i. i * pacdatalen c) 0 i))
        [0..<?n * ?t])"
    using wakeups_run [OF assms(1,3) len assms(5) refl n16 t0(1) assms(11,10) start, of wakes] assms(13) by auto
  obtain s2 where s2: "vban_send_txbuffer answers 0 2 s = Some (s2, e)" "sent_state c (pacnum c) (t_ctx s2)"
      "t_io s2 = t_io s @ concat (map (\<lambda>i. replicate ((redundancy c + 1) * k) (nth_datagram c buf (\<lambda>i. i * pacdatalen c) 0 i))
        [0..<pacnum c])"
    using send_whole [of s buf answers k e 0] assms by auto
  have "sent_state c (pacnum c) (t_ctx s1)" "txdata_ind (t_ctx s1) = 0"
    using s1(2) assms(8) upd sliced_keeps [OF s1(2)] by (simp_all add: sliced_def mult.commute)
  then show ?thesis using s1(1,3) s2 assms(8) by (auto simp: mult.commute)
qed

theorem slices_equal_whole_period_witness:
  "let c = example_sender\<lparr>pacnum_t32 := 1, tx_transactions := 2, flags := SENDING\<rparr>; s = \<lparr>t_ctx = c, t_io = [], t_chk = 0\<rparr> in
   \<exists>s1 s2. timer_wakeups (\<lambda>_. Inr []) [True, False, True] s = Some s1 \<and> vban_send_txbuffer (\<lambda>_. Inr []) 0 2 s = Some (s2, 0) \<and>
    t_io s1 = t_io s2 \<and> sent_state c (pacnum c) (t_ctx s1) \<and> sent_state c (pacnum c) (t_ctx s2) \<and> txdata_ind (t_ctx s1) = 0"
  unfolding Let_def
  by (rule slices_equal_whole_period [where buf = "[1, 2, 3, 4]" and k = 1])
    (simp_all add: example_sender_def sender_ok_def zero_context_def vban_sizes per_copy_def quiet_def
      check_send_status_def ECONNREFUSED_def flag_set_def SENDING_def)

text \<open>
  A period of the sound card leaves. With a stream cut for the period and no MIDI events, the
  callback sends, at the stream's rate of redundancy and with consecutive numbers, the samples of
  all ports in the stream's format, frame by frame and channel by channel, and updates the filter
  of its time stamps.
\<close>

theorem callback_sends_period:
  assumes "sender_ok (t_ctx s)" and "xlen (t_ctx s) \<noteq> 6 \<or> iptx (t_ctx s) \<noteq> 0x0100007F" and "cut_for (t_ctx s) n sz"
    and "port_buffers (vban_output_format (t_ctx s)) (nbinputs (t_ctx s)) n buffers g"
    and "\<not> flag_set (flags (t_ctx s)) SLICING"
    and "calc_delta_filtered raw ((callback_delta d)\<lparr>ts_new := clock\<rparr>) 3 (lit f32 (5 / 1000)) = Some delta"
    and "per_copy answers k e" and "P = interleaved_period g (nbinputs (t_ctx s)) n"
  shows "\<exists>s'. on_tx_process alloc answers clock raw n buffers [] (d, s) = Some (d\<lparr>callback_delta := delta\<rparr>, s') \<and>
    t_io s' = t_io s @ concat (map (\<lambda>i. replicate ((redundancy (t_ctx s) + 1) * k)
      (nth_datagram (t_ctx s) P (\<lambda>i. i * pacdatalen (t_ctx s)) 0 i)) [0..<pacnum (t_ctx s)]) \<and>
    sent_state ((t_ctx s)\<lparr>txbuf := Some P\<rparr>) (pacnum (t_ctx s)) (t_ctx s')"
  using assms by (rule on_tx_plain)

definition example_tx :: stream_context where
  "example_tx = zero_context\<lparr>nframes := 2, nbinputs := 2, vban_output_format := 4, txport := 6980, txbuf := Some (replicate 16 0),
     pacnum := 1, pacdatalen := 16\<rparr>"

theorem callback_sends_period_witness:
  "let s = \<lparr>t_ctx = example_tx, t_io = [], t_chk = 0\<rparr>; buffers = [[1, 2, 3, 4, 5, 6, 7, 8], [11, 12, 13, 14, 15, 16, 17, 18]];
       P = interleaved_period (\<lambda>f ch. take 4 (drop (4 * f) (buffers ! ch))) 2 2 in
   \<exists>s'. on_tx_process (\<lambda>_. None) (\<lambda>_. Inr []) (7, 8) (9, 9) 2 buffers [] (zero_jack, s) =
      Some (zero_jack\<lparr>callback_delta := zero_delta\<lparr>ts_new := (7, 8), ts_old := (7, 8)\<rparr>\<rparr>, s') \<and>
    t_io s' = t_io s @ concat (map (\<lambda>i. replicate ((redundancy (t_ctx s) + 1) * 1)
      (nth_datagram (t_ctx s) P (\<lambda>i. i * pacdatalen (t_ctx s)) 0 i)) [0..<pacnum (t_ctx s)]) \<and>
    sent_state ((t_ctx s)\<lparr>txbuf := Some P\<rparr>) (pacnum (t_ctx s)) (t_ctx s')"
  unfolding Let_def
  by (rule callback_sends_period [where sz = 4 and g = "\<lambda>f ch. take 4 (drop (4 * f)
      ([[1, 2, 3, 4, 5, 6, 7, 8], [11, 12, 13, 14, 15, 16, 17, 18]] ! ch))"])
    (simp_all add: example_tx_def sender_ok_def zero_context_def vban_sizes per_copy_def quiet_def flag_set_def
      check_send_status_def ECONNREFUSED_def cut_for_def port_buffers_def enc_def vban_sample_convert_def mem_load_def
      mem_store_def blit_def less_2_cases_iff zero_jack_def zero_delta_def calc_delta_filtered_def Let_def)

text \<open>
  Every MIDI event stops the emitter: the size of the block to clear is computed from a length
  that is still 0, less the size of a header, so the callback writes behind the packet, whatever
  the samples, the period and the state of the stream.
\<close>

theorem midi_event_overruns:
  assumes "events \<noteq> []" and "packet_ok (txmidipac (t_ctx s))"
  shows "on_tx_process alloc answers clock raw nf buffers events (d, s) = None"
proof -
  have size: "to_size (int 0 - int VBAN_HEADER_SIZE) = 2 ^ 64 - 28" by (simp add: to_size_def vban_sizes)
  have midi: "\<not> packet_ok (txmidipac (t_ctx s'))" if "tx_midi nf' events s' = Some z" for nf' s' z
    using size that assms(1) by (auto simp: tx_midi_def memset_def packet_ok_def vban_sizes Let_def)
  have tune: "txmidipac c' = txmidipac c" if "tune_tx_packets alloc c = Some c'" for c c'
    using tune_keeps [OF that(1)] by simp
  show ?thesis
  proof (rule ccontr)
    assume "\<not> ?thesis"
    then obtain x where "on_tx_process alloc answers clock raw nf buffers events (d, s) = Some x" by auto
    then show False
      using assms(2) unfolding on_tx_process_def Let_def prod.case
      by (auto simp: bind_eq_Some_conv split: if_splits dest!: midi send_txbuffer_midi tune)
  qed
qed

theorem midi_event_overruns_witness:
  "on_tx_process (\<lambda>_. None) (\<lambda>_. Inr []) (7, 8) (9, 9) 2 [] [[0x90, 60, 100]] (zero_jack, \<lparr>t_ctx = zero_context, t_io = [], t_chk = 0\<rparr>) =
    None"
  by (rule midi_event_overruns) (simp_all add: zero_context_def)

end
