(* ===== verification/Receptor_Jack.thy ===== *)
theory Receptor_Jack
  imports Emitter Rx_Packet
begin

text \<open>
  The JACK receptor of one stream: the process callback of the playing side (\<open>on_rx_process\<close> of
  \<open>vban_common/jack_backend.cpp\<close>) and the start of the player once a stream has been announced
  (\<open>vban_receptor_jack/main.cpp\<close>, the single stream branch). Memory, the ports of the graph and the
  room in the MIDI port's buffer are arguments.
\<close>

section \<open>The process callback\<close>

text \<open>
  The MIDI ring is emptied three bytes at a time into events of the port. \<open>slots\<close> is the number of
  events the port still takes: without room \<open>jack_midi_event_reserve\<close> gives a null pointer, which is
  written through.
\<close>

fun midi_drain :: "nat \<Rightarrow> ringbuffer \<Rightarrow> byte list list \<Rightarrow> (ringbuffer \<times> byte list list) option" where
  "midi_drain slots rb events = do {
     n \<leftarrow> ringbuffer_read_space rb;
     if n \<ge> 3 then
       (case slots of
          0 \<Rightarrow> None
        | Suc slots \<Rightarrow> do {
            (rb, ev, _) \<leftarrow> ringbuffer_read rb (replicate 3 0) 3;
            midi_drain slots rb (events @ [ev]) })
     else Some (rb, events) }"

declare midi_drain.simps [simp del]

text \<open>The buffers for another period: the line buffer counts floats, the ring is made anew.\<close>

definition floats_of :: "(nat \<Rightarrow> byte list option) \<Rightarrow> nat \<Rightarrow> byte list option" where
  "floats_of malloc n = malloc (umul n 4)"

definition new_period :: "bool \<Rightarrow> (nat \<Rightarrow> byte list option) \<Rightarrow> nat \<Rightarrow> stream_context \<Rightarrow> stream_context option" where
  "new_period rb_mem malloc nf context = do {
     let context = context\<lparr>nframes := to_u16 (int nf)\<rparr>;
     (b, len) \<leftarrow> vban_compute_rx_buffer (floats_of malloc) (to_i32 (int nf)) (int (nboutputs context)) (Some (rxbuf context))
       (rxbuflen context) (int (lagrange_num context));
     b \<leftarrow> b;
     rb \<leftarrow> vban_compute_rx_ringbuffer rb_mem malloc (to_i32 (int nf)) (vban_nframes_pac context) (int (nboutputs context))
       (int (redundancy context));
     Some (context\<lparr>rxbuf := b, rxbuflen := len, ringbuffer := Some rb\<rparr>) }"

definition on_rx_process :: "bool \<Rightarrow> (nat \<Rightarrow> byte list option) \<Rightarrow> nat \<Rightarrow> nat \<Rightarrow> byte list list \<Rightarrow> stream_context \<Rightarrow>
    (stream_context \<times> byte list list \<times> byte list list) option" where
  "on_rx_process rb_mem malloc slots nf buffers context = do {
     framesize \<leftarrow> c_int (4 * int (nboutputs context));
     context \<leftarrow> (if flag_set (flags context) CORRECTION_ON then correct_samplerate context framesize else Some context);
     context \<leftarrow> (if nf \<noteq> nframes context then new_period rb_mem malloc nf context else Some context);
     buffers \<leftarrow> (if nboutputs context \<le> length buffers \<and> nboutputs context \<le> VBAN_CHANNELS_MAX_NB
       then Some (take (nboutputs context) buffers) else None);
     (context, buffers) \<leftarrow> read_from_ringbuffer_async_non_interleaved context buffers;
     midi \<leftarrow> ringbuffer_midi context;
     (midi, events) \<leftarrow> midi_drain slots midi [];
     Some (context\<lparr>ringbuffer_midi := Some midi\<rparr>, buffers, events) }"


section \<open>The start of the player\<close>

text \<open>
  \<open>pe_float n\<close> is what \<open>new float[n]\<close> gives, \<open>pe_sin\<close> and \<open>pe_cos\<close> are the library's functions. The
  first \<open>free\<close> calls leave pointers to blocks that are gone, which no access may use.
\<close>

record player_env =
  pe_server :: jack_server
  pe_sin :: "fl \<Rightarrow> fl"
  pe_cos :: "fl \<Rightarrow> fl"
  pe_float :: "nat \<Rightarrow> fl list"
  pe_rb :: bool
  pe_malloc :: "nat \<Rightarrow> byte list option"
  pe_sources :: "byte list list option"
  pe_sinks :: "byte list list option"
  pe_activate :: int

definition player_resampler :: "player_env \<Rightarrow> stream_context \<Rightarrow> (unit + vresampler) option" where
  "player_resampler env stream = do {
     (r, e) \<leftarrow> vr_setup (new_table (pe_sin env) (pe_cos env)) (pe_float env) vr_new
       (fdiv f64 (d_int (samplerate stream)) (d_int (samplerate_resampler stream))) (nboutputs stream) 64;
     if e \<noteq> 0 then Some (Inl ())
     else do {
       (r, _) \<leftarrow> vr_process (r\<lparr>inp_count := vr_inpsize r - 1, inp_data := None, out_count := 999999, out_data := None\<rparr>);
       Some (Inr r) } }"

definition player_buffers :: "player_env \<Rightarrow> stream_context \<Rightarrow> stream_context option" where
  "player_buffers env stream = do {
     n \<leftarrow> c_int (int (nframes stream) + int (lagrange_num stream));
     (b, len) \<leftarrow> vban_compute_rx_buffer (floats_of (pe_malloc env)) n (int (nboutputs stream)) (Some (rxbuf stream)) (rxbuflen stream) 3;
     b \<leftarrow> b;
     rb \<leftarrow> vban_compute_rx_ringbuffer (pe_rb env) (pe_malloc env) (int (nframes stream)) 0 (int (nboutputs stream))
       (int (redundancy stream));
     Some (stream\<lparr>rxbuf := b, rxbuflen := len, ringbuffer := Some rb,
       ringbuffer_midi := ringbuffer_create (pe_rb env) (pe_malloc env 300) 300\<rparr>) }"

definition player_start :: "player_env \<Rightarrow> stream_context \<Rightarrow> (unit + jack_stream_data \<times> stream_context) option" where
  "player_start env stream = do {
     let stream = stream\<lparr>flags := flags stream OR RECEIVER\<rparr>;
     (client, stream, _) \<leftarrow> jack_init_rx_stream (pe_server env) zero_jack stream;
     let stream = stream\<lparr>resampler_inbuf := None, resampler_outbuf := None\<rparr>;
     r \<leftarrow> player_resampler env stream;
     case r of
       Inl e \<Rightarrow> Some (Inl e)
     | Inr r \<Rightarrow> do {
         let stream = stream\<lparr>resampler := Some r\<rparr>;
         stream \<leftarrow> player_buffers env stream;
         let stream = (if rxport stream \<noteq> 0 then stream\<lparr>txport := htons (sin_port (rxsock stream))\<rparr> else stream);
         (client, _) \<leftarrow> jack_run_rx_stream (pe_sources env) (pe_sinks env) (pe_activate env) stream client;
         Some (Inr (client, stream)) } }"


section \<open>The MIDI events of a period\<close>

text \<open>The bytes of the ring in groups of three.\<close>

fun triples :: "byte list \<Rightarrow> byte list list" where
  "triples (a # b # c # xs) = [a, b, c] # triples xs"
| "triples xs = []"

lemma triples_short: "length xs < 3 \<Longrightarrow> triples xs = []"
  by (induction xs rule: triples.induct) auto

lemma triples_step: "3 \<le> length xs \<Longrightarrow> triples xs = take 3 xs # triples (drop 3 xs)"
  by (induction xs rule: triples.induct) (auto simp: numeral_3_eq_3)

lemma length_triples: "length (triples xs) = length xs div 3"
  by (induction xs rule: triples.induct) auto

lemma midi_drain_ok:
  "rb_ok rb \<Longrightarrow> rb_fill rb div 3 \<le> slots \<Longrightarrow>
   \<exists>rb'. midi_drain slots rb events = Some (rb', events @ triples (rb_abs rb)) \<and> rb_ok rb' \<and>
     rb_abs rb' = drop (3 * (rb_fill rb div 3)) (rb_abs rb)"
proof (induction slots arbitrary: rb events)
  case (Suc slots)
  show ?case
  proof (cases "3 \<le> rb_fill rb")
    case True
    let ?rb = "rb\<lparr>read_ptr := (read_ptr rb + 3) mod rb_size rb\<rparr>"
    have r: "ringbuffer_read rb (replicate 3 0) 3 = Some (?rb, blit (replicate 3 0) 0 (take 3 (rb_abs rb)), 3)"
      using ringbuffer_read_ok [OF Suc.prems(1), of 3 3 "replicate 3 0"] True by simp
    have len: "length (rb_abs rb) = rb_fill rb" by simp
    have b: "blit (replicate 3 0) 0 (take 3 (rb_abs rb)) = take 3 (rb_abs rb)" using True len by (simp add: blit_0)
    have rb: "rb_ok ?rb" "rb_abs ?rb = drop 3 (rb_abs rb)" "rb_fill ?rb = rb_fill rb - 3"
      using rb_abs_advance_read [OF Suc.prems(1) True] rb_fill_advance_read [OF Suc.prems(1) True]
        rb_ok_advance_read [OF Suc.prems(1)] by simp_all
    have "rb_fill ?rb div 3 \<le> slots" using Suc.prems(2) rb(3) True by linarith
    then obtain rb' where rb': "midi_drain slots ?rb (events @ [take 3 (rb_abs rb)]) =
        Some (rb', (events @ [take 3 (rb_abs rb)]) @ triples (rb_abs ?rb))" "rb_ok rb'"
        "rb_abs rb' = drop (3 * (rb_fill ?rb div 3)) (rb_abs ?rb)"
      using Suc.IH [OF rb(1), of "events @ [take 3 (rb_abs rb)]"] by blast
    have "triples (rb_abs rb) = take 3 (rb_abs rb) # triples (rb_abs ?rb)"
      using triples_step [of "rb_abs rb"] True len rb(2) by simp
    moreover have "midi_drain (Suc slots) rb events = midi_drain slots ?rb (events @ [take 3 (rb_abs rb)])"
      using True r b by (subst midi_drain.simps) (simp add: read_space_ok [OF Suc.prems(1)])
    moreover have "3 * (rb_fill ?rb div 3) + 3 = 3 * (rb_fill rb div 3)" using True rb(3) by presburger
    ultimately show ?thesis using rb' rb(2) by (auto simp: add.commute)
  next
    case False
    then show ?thesis using Suc.prems by (subst midi_drain.simps) (simp add: read_space_ok triples_short)
  qed
next
  case 0
  then show ?case by (subst midi_drain.simps) (simp add: read_space_ok triples_short)
qed



section \<open>The callback on a good reader\<close>

lemma chans_take:
  assumes "nb \<le> length buffers" and "\<forall>ch < nb. 4 * n \<le> length (buffers ! ch)"
  shows "chans nb n (take nb buffers)"
proof -
  have "4 * n \<le> length o1" if mem: "o1 \<in> set (take nb buffers)" for o1
  proof -
    obtain ch where "ch < nb" "o1 = buffers ! ch" using mem assms(1) by (auto simp: in_set_conv_nth)
    then show ?thesis using assms(2) by simp
  qed
  then show ?thesis using assms(1) by (simp add: chans_def)
qed

lemma ratio_keeps:
  assumes "calc_ratio_correction c t = Some c'"
  shows "\<exists>x y z. c' = c\<lparr>rratiof := x, rbfill_integral := y, rratio := z\<rparr>"
  using assms unfolding calc_ratio_correction_def Let_def bind_eq_Some_conv case_prod_unfold option.inject
  by (elim exE conjE) blast

lemma correct_keeps:
  assumes "correct_samplerate c fs = Some c'"
  shows "nboutputs c' = nboutputs c \<and> nframes c' = nframes c \<and> lagrange_num c' = lagrange_num c \<and> rxbuf c' = rxbuf c \<and>
    ringbuffer c' = ringbuffer c \<and> ringbuffer_midi c' = ringbuffer_midi c \<and> redundancy c' = redundancy c \<and>
    lost_pac_cnt c' = lost_pac_cnt c"
proof -
  obtain c1 c2 r t where c: "(if cframes c \<le> int (nframes c)
       then do {
         rb \<leftarrow> ringbuffer c;
         n \<leftarrow> ringbuffer_read_space rb;
         q \<leftarrow> udiv n (to_size fs);
         Some (c\<lparr>rbfill := to_i32 (int q)\<rparr>) }
       else Some c) = Some c1" "calc_ratio_correction c1 t = Some c2" "c' = c2\<lparr>resampler := Some r\<rparr>"
    using assms unfolding correct_samplerate_def Let_def bind_eq_Some_conv option.inject by (elim exE conjE) blast
  have "\<exists>f. c1 = c\<lparr>rbfill := f\<rparr>"
  proof (cases "cframes c \<le> int (nframes c)")
    case True
    then show ?thesis using c(1) by (auto simp: bind_eq_Some_conv)
  next
    case False
    then show ?thesis using c(1) by (intro exI [of _ "rbfill c"]) simp
  qed
  then obtain f where f: "c1 = c\<lparr>rbfill := f\<rparr>" ..
  obtain x y z where "c2 = c1\<lparr>rratiof := x, rbfill_integral := y, rratio := z\<rparr>" using ratio_keeps [OF c(2)] by blast
  then show ?thesis unfolding c(3) f by simp
qed

lemma reader_ok_cong:
  assumes "nboutputs c' = nboutputs c" and "nframes c' = nframes c" and "lagrange_num c' = lagrange_num c" and "rxbuf c' = rxbuf c"
    and "ringbuffer c' = ringbuffer c"
  shows "reader_ok c' = reader_ok c \<and> pending c' = pending c"
  using assms by (simp add: reader_ok_def pending_def)

lemma on_rx_step:
  assumes c1: "(if flag_set (flags c) CORRECTION_ON then correct_samplerate c (4 * int (nboutputs c)) else Some c) = Some c1"
    and c2: "(if nf \<noteq> nframes c1 then new_period rb_mem malloc nf c1 else Some c1) = Some c2"
    and ok: "reader_ok c2" "ringbuffer c2 = Some rb" "4 * (nboutputs c2 * nf) \<le> rb_fill rb" "nframes c2 = nf" "nboutputs c2 = nboutputs c"
    and buf: "nboutputs c \<le> length buffers" "nboutputs c \<le> VBAN_CHANNELS_MAX_NB" "\<forall>ch < nboutputs c. 4 * nf \<le> length (buffers ! ch)"
    and midi: "ringbuffer_midi c2 = Some m" "rb_ok m" "rb_fill m div 3 \<le> slots"
  shows "\<exists>c' outs. on_rx_process rb_mem malloc slots nf buffers c = Some (c', outs, triples (rb_abs m)) \<and>
    reader_ok c' \<and> (\<forall>ch < nboutputs c. take (4 * nf) (outs ! ch) = track (nboutputs c) ch nf (pending c2)) \<and>
    pending c' = drop (4 * (nboutputs c * nf)) (pending c2) \<and>
    (\<exists>b rb' m'. c' = c2\<lparr>rxbuf := b, ringbuffer := Some rb', ringbuffer_midi := Some m'\<rparr> \<and> rb_ok rb' \<and>
      rb_ok m' \<and> rb_abs m' = drop (3 * (rb_fill m div 3)) (rb_abs m))"
proof -
  have ch: "chans (nboutputs c2) (nframes c2) (take (nboutputs c) buffers)" using chans_take [OF buf(1,3)] ok(4,5) by simp
  obtain b rb' outs where r: "read_from_ringbuffer_async_non_interleaved c2 (take (nboutputs c) buffers) =
        Some (c2\<lparr>rxbuf := b, ringbuffer := Some rb'\<rparr>, outs)" "reader_ok (c2\<lparr>rxbuf := b, ringbuffer := Some rb'\<rparr>)"
      "\<forall>ch < nboutputs c2. take (4 * nframes c2) (outs ! ch) = track (nboutputs c2) ch (nframes c2) (pending c2)"
      "pending (c2\<lparr>rxbuf := b, ringbuffer := Some rb'\<rparr>) = drop (4 * (nboutputs c2 * nframes c2)) (pending c2)" "rb_ok rb'"
    using period_read [OF ok(1,2) ch] ok(3,4) by auto
  obtain m' where m': "midi_drain slots m [] = Some (m', triples (rb_abs m))" "rb_ok m'"
      "rb_abs m' = drop (3 * (rb_fill m div 3)) (rb_abs m)"
    using midi_drain_ok [OF midi(2,3), of "[]"] by auto
  have ci: "c_int (4 * int (nboutputs c)) = Some (4 * int (nboutputs c))"
    using buf(2) by (simp add: c_int_def vban_sizes)
  let ?c = "c2\<lparr>rxbuf := b, ringbuffer := Some rb', ringbuffer_midi := Some m'\<rparr>"
  have "on_rx_process rb_mem malloc slots nf buffers c = Some (?c, outs, triples (rb_abs m))"
    unfolding on_rx_process_def ci Option.bind.bind_lunit c1 c2 using ok(5) buf r(1) m'(1) midi(1) by simp
  moreover have "reader_ok ?c = reader_ok (c2\<lparr>rxbuf := b, ringbuffer := Some rb'\<rparr>) \<and> pending ?c = pending (c2\<lparr>rxbuf := b, ringbuffer := Some rb'\<rparr>)"
    by (rule reader_ok_cong) simp_all
  ultimately show ?thesis using r(2-5) m'(2,3) ok(4,5)
    by (intro exI [of _ ?c] exI [of _ outs] conjI exI [of _ b] exI [of _ rb'] exI [of _ m']) simp_all
qed


section \<open>Fresh buffers\<close>

lemma fresh_line_buffer:
  assumes "nb * (f + add) < 2 ^ 31" and "f + add < 2 ^ 31" and "malloc (4 * (nb * (f + add))) = Some b"
  shows "vban_compute_rx_buffer (floats_of malloc) (int f) (int nb) old len (int add) = Some (Some b, int (nb * (f + add)))"
proof -
  have ci: "c_int (int f + int add) = Some (int (f + add))" "c_int (int nb * int (f + add)) = Some (int (nb * (f + add)))"
    using c_int_add [OF assms(2)] c_int_mult [OF assms(1)] by simp_all
  have fo: "floats_of malloc (to_size (int (nb * (f + add)))) = Some b"
    using assms(1,3) by (simp add: floats_of_def to_size_nat umul_small mult.commute del: of_nat_mult of_nat_add)
  show ?thesis unfolding vban_compute_rx_buffer_def vban_free_line_buffer_def Let_def prod.case ci Option.bind.bind_lunit fo ..
qed

lemma fresh_ring:
  assumes "0 < f" and "0 < nb" and "2 * max f nfp * nb * (red + 1) < 2 ^ 28" and "\<And>k. \<exists>b. malloc k = Some b \<and> length b = k"
  shows "\<exists>rb. vban_compute_rx_ringbuffer True malloc (int f) (int nfp) (int nb) (int red) = Some rb \<and> rb_ok rb \<and>
    rb_abs rb = replicate (rx_prefill red (8 * max f nfp * nb * (red + 1))) 0 \<and> rb_size rb < 2 ^ 31"
proof -
  obtain rb where rb: "vban_compute_rx_ringbuffer True malloc (int f) (int nfp) (int nb) (int red) = Some rb"
      "rb_ok rb" "rb_size rb = 8 * max f nfp * nb * (red + 1)"
      "rb_abs rb = replicate (rx_prefill red (8 * max f nfp * nb * (red + 1))) 0"
    using compute_rx_ringbuffer_ok [OF assms] by auto
  have "rb_size rb = 4 * (2 * max f nfp * nb * (red + 1))" using rb(3) by simp
  moreover have "4 * k < 2 ^ 31" if "k < 2 ^ 28" for k :: nat using that by simp
  ultimately have "rb_size rb < 2 ^ 31" using assms(3) by (simp only:)
  then show ?thesis using rb by auto
qed

lemma line_floats:
  assumes "nb \<le> VBAN_CHANNELS_MAX_NB" and "f < 2 ^ 16" and "add \<le> f + 6"
  shows "nb * (f + add) < 2 ^ 31 \<and> f + add < 2 ^ 31"
proof -
  have "nb * (f + add) \<le> 256 * 2 ^ 18" using assms by (intro mult_le_mono) (auto simp: vban_sizes)
  then show ?thesis using assms by simp
qed

text \<open>With redundancy the ring starts with at least one period of silence.\<close>

lemma prefill_covers:
  assumes "0 < red" and "n \<le> f"
  shows "4 * (nb * n) \<le> rx_prefill red (8 * f * nb * (red + 1))"
proof -
  have "nb * n \<le> f * nb" using assms(2) by (simp add: mult.commute)
  also have "4 * (f * nb) \<le> rx_prefill red (8 * f * nb * (red + 1))"
  proof (cases "red = 1")
    case True
    then show ?thesis by (simp add: rx_prefill_def)
  next
    case False
    have "f * nb * 1 \<le> f * nb * (red + 1)" by (intro mult_le_mono2) simp
    moreover have "8 * f * nb * (red + 1) div 2 = 4 * (f * nb * (red + 1))" by simp
    ultimately show ?thesis using False assms(1) by (simp add: rx_prefill_def del: mult_Suc_right)
  qed
  ultimately show ?thesis by linarith
qed

text \<open>A reader with fresh buffers plays what the line buffer's memory held, then the silence of the ring.\<close>

lemma fresh_reader:
  assumes "ringbuffer c = Some rb" and "rb_ok rb" and "rb_size rb < 2 ^ 31" and "rxbuf c = b" and "0 < nboutputs c"
    and "nboutputs c \<le> VBAN_CHANNELS_MAX_NB" and "3 \<le> lagrange_num c" and "lagrange_num c \<le> nframes c" and "nframes c < 2 ^ 16"
    and "4 * (nboutputs c * (nframes c + lagrange_num c)) \<le> length b"
  shows "reader_ok c \<and> pending c = take (4 * (nboutputs c * lagrange_num c)) (drop (4 * (nboutputs c * nframes c)) b) @ rb_abs rb"
  using assms by (simp add: reader_ok_def rd_wf_def pending_def vban_sizes)

lemma new_period_ok:
  assumes "0 < nboutputs c" and "nboutputs c \<le> VBAN_CHANNELS_MAX_NB" and "3 \<le> lagrange_num c" and "lagrange_num c \<le> nf" and "nf < 2 ^ 16"
    and "vban_nframes_pac c = int p" and "2 * max nf p * nboutputs c * (redundancy c + 1) < 2 ^ 28"
    and al: "\<And>k. \<exists>b. malloc k = Some b \<and> length b = k"
  shows "\<exists>b rb. new_period True malloc nf c =
      Some (c\<lparr>nframes := nf, rxbuf := b, rxbuflen := int (nboutputs c * (nf + lagrange_num c)), ringbuffer := Some rb\<rparr>) \<and>
    malloc (4 * (nboutputs c * (nf + lagrange_num c))) = Some b \<and> length b = 4 * (nboutputs c * (nf + lagrange_num c)) \<and> rb_ok rb \<and>
    rb_size rb < 2 ^ 31 \<and> rb_abs rb = replicate (rx_prefill (redundancy c) (8 * max nf p * nboutputs c * (redundancy c + 1))) 0"
proof -
  obtain b where b: "malloc (4 * (nboutputs c * (nf + lagrange_num c))) = Some b" "length b = 4 * (nboutputs c * (nf + lagrange_num c))"
    using al by blast
  obtain rb where rb: "vban_compute_rx_ringbuffer True malloc (int nf) (int p) (int (nboutputs c)) (int (redundancy c)) = Some rb"
      "rb_ok rb" "rb_abs rb = replicate (rx_prefill (redundancy c) (8 * max nf p * nboutputs c * (redundancy c + 1))) 0" "rb_size rb < 2 ^ 31"
    using fresh_ring [OF _ assms(1,7) al] assms(3,4) by auto
  have line: "vban_compute_rx_buffer (floats_of malloc) (int nf) (int (nboutputs c)) (Some (rxbuf c)) (rxbuflen c) (int (lagrange_num c)) =
      Some (Some b, int (nboutputs c * (nf + lagrange_num c)))"
    using line_floats [of "nboutputs c" nf "lagrange_num c"] assms(2,4,5) by (intro fresh_line_buffer b(1)) auto
  have nf: "to_u16 (int nf) = nf" "to_i32 (int nf) = int nf" using assms(5) by (simp_all add: to_u16_nat to_i32_nat)
  have "new_period True malloc nf c =
      Some (c\<lparr>nframes := nf, rxbuf := b, rxbuflen := int (nboutputs c * (nf + lagrange_num c)), ringbuffer := Some rb\<rparr>)"
    unfolding new_period_def Let_def nf using line rb(1) assms(6) by simp
  then show ?thesis using b rb(2-4) by blast
qed


section \<open>The start\<close>

text \<open>An announced stream, and a system that grants what the player needs.\<close>

definition playable :: "player_env \<Rightarrow> stream_context \<Rightarrow> nat \<Rightarrow> bool" where
  "playable env c n \<longleftrightarrow> opens (pe_server env) \<and> callback_set (pe_server env) \<and> buffer_size (pe_server env) = n \<and>
     3 \<le> n \<and> n < 2 ^ 16 \<and> 8000 \<le> sample_rate (pe_server env) \<and> sample_rate (pe_server env) \<le> 200000 \<and>
     8000 \<le> samplerate_resampler c \<and> samplerate_resampler c \<le> 200000 \<and> 0 < nboutputs c \<and> nboutputs c \<le> VBAN_CHANNELS_MAX_NB \<and>
     lagrange_num c = 3 \<and> 2 * n * nboutputs c * (redundancy c + 1) < 2 ^ 28 \<and> resampler_inbuflen c = 0 \<and>
     (\<forall>name. jack_server_name c = Some name \<longrightarrow> name \<noteq> []) \<and>
     (\<forall>k. length (pe_float env k) = k) \<and> pe_rb env \<and> (\<forall>k. \<exists>b. pe_malloc env k = Some b \<and> length b = k)"

lemma rates_ratio:
  assumes "8000 \<le> a" and "a \<le> 200000" and "8000 \<le> b" and "b \<le> 200000"
  shows "\<exists>x. fdiv f64 (d_int a) (d_int b) = FNum False x \<and> 1 / 64 \<le> x \<and> x \<le> 256"
proof -
  define u w where "u = (of_int a :: rat)" and "w = (of_int b :: rat)"
  let ?v = "u / w" and ?z = "fdiv f64 (d_int a) (d_int b)"
  have ab: "8000 \<le> u" "u \<le> 200000" "8000 \<le> w" "w \<le> 200000"
    using assms unfolding u_def w_def by linarith+
  have v: "1 / 25 \<le> ?v" "?v \<le> 25" using ab by (simp_all add: le_divide_eq divide_le_eq)
  have n: "is_num (d_int a)" "mag_ok (d_int a)" "fl_val (d_int a) = u" "is_num (d_int b)" "mag_ok (d_int b)" "fl_val (d_int b) = w"
    using d_int_num [of a] d_int_num [of b] assms by (auto simp: u_def w_def)
  have "\<bar>?v\<bar> \<le> 25" using v by linarith
  also have "(25 :: rat) \<le> 2 ^ 500" by simp
  finally have big: "\<bar>fl_val (d_int a) / fl_val (d_int b)\<bar> \<le> 2 ^ 500" by (simp only: n)
  have w0: "fl_val (d_int b) \<noteq> 0" using n(6) ab by simp
  note z = near_fdiv [OF n(1,4,2,5) w0 big, unfolded n(3,6)]
  have b: "?v - 1 / 1000000 \<le> fl_val ?z" "fl_val ?z \<le> ?v + 1 / 1000000" using near_micro [OF z(1)] v by linarith+
  obtain s x where x: "?z = FNum s x" "0 \<le> x"
  proof (cases ?z)
    case (FNum s x)
    then show thesis using z(2) that by simp
  qed (use z(1) in \<open>simp_all add: near_def\<close>)
  have "0 < fl_val ?z" using b v by linarith
  then have "\<not> s" using x by (cases s) auto
  then have "fl_val ?z = x" using x(1) by simp
  then have "1 / 64 \<le> x" "x \<le> 256" using b v by linarith+
  then show ?thesis using x(1) \<open>\<not> s\<close> by auto
qed

lemma player_resampler_ok:
  assumes "8000 \<le> samplerate c" and "samplerate c \<le> 200000" and "8000 \<le> samplerate_resampler c" and "samplerate_resampler c \<le> 200000"
    and "0 < nboutputs c" and "nboutputs c \<le> 65536" and "\<And>k. length (pe_float env k) = k"
  shows "\<exists>r t. player_resampler env c = Some (Inr r) \<and> vr_ok t r \<and> v_nchan r = nboutputs c"
proof -
  obtain x where x: "fdiv f64 (d_int (samplerate c)) (d_int (samplerate_resampler c)) = FNum False x" "1 / 64 \<le> x" "x \<le> 256"
    using rates_ratio [OF assms(1-4)] by blast
  obtain r t where r: "vr_setup (new_table (pe_sin env) (pe_cos env)) (pe_float env) vr_new (FNum False x) (nboutputs c) 64 = Some (r, 0)"
      "vr_ok t r" "v_nchan r = nboutputs c"
    using fresh.setup_frel_ok [of "nboutputs c" 64 "FNum False x" x "pe_float env" "pe_sin env" "pe_cos env"] assms(5-7) x(2,3)
    unfolding vr_setup_def by force
  let ?r = "r\<lparr>inp_count := vr_inpsize r - 1, inp_data := None, out_count := 999999, out_data := None\<rparr>"
  have "vr_ok t ?r" using r(2) by (simp add: vr_ok_def vr_wf_def)
  then obtain r' where "vr_process ?r = Some (r', 0)" "vr_ok t r'" "v_nchan r' = nboutputs c"
    using process_ok [of t ?r] r(3) by (auto simp: room_def)
  then show ?thesis using r(1) by (auto simp: player_resampler_def x(1))
qed

lemma player_buffers_ok:
  assumes n: "nframes c = n" "3 \<le> n" "n < 2 ^ 16" and nb: "0 < nboutputs c" "nboutputs c \<le> VBAN_CHANNELS_MAX_NB" and lag: "lagrange_num c = 3"
    and small: "2 * n * nboutputs c * (redundancy c + 1) < 2 ^ 28" and al: "pe_rb env" "\<And>k. \<exists>b. pe_malloc env k = Some b \<and> length b = k"
  shows "\<exists>b rb m. player_buffers env c = Some (c\<lparr>rxbuf := b, rxbuflen := int (nboutputs c * (n + 6)), ringbuffer := Some rb, ringbuffer_midi := Some m\<rparr>) \<and>
    pe_malloc env (4 * (nboutputs c * (n + 6))) = Some b \<and> length b = 4 * (nboutputs c * (n + 6)) \<and> rb_ok rb \<and> rb_size rb < 2 ^ 31 \<and>
    rb_abs rb = replicate (rx_prefill (redundancy c) (8 * n * nboutputs c * (redundancy c + 1))) 0 \<and>
    rb_ok m \<and> rb_abs m = [] \<and> rb_size m = 300"
proof -
  have n6: "n + 3 + 3 = n + 6" by simp
  obtain b where b: "pe_malloc env (4 * (nboutputs c * (n + 6))) = Some b" "length b = 4 * (nboutputs c * (n + 6))" using al(2) by blast
  have rx: "vban_compute_rx_buffer (floats_of (pe_malloc env)) (int (n + 3)) (int (nboutputs c)) (Some (rxbuf c)) (rxbuflen c) 3 =
      Some (Some b, int (nboutputs c * (n + 6)))"
    using fresh_line_buffer [of "nboutputs c" "n + 3" 3 "pe_malloc env" b "Some (rxbuf c)" "rxbuflen c", unfolded n6]
      line_floats [of "nboutputs c" n 6] b(1) n nb by simp
  obtain rb where rb: "vban_compute_rx_ringbuffer True (pe_malloc env) (int n) (int 0) (int (nboutputs c)) (int (redundancy c)) = Some rb"
      "rb_ok rb" "rb_abs rb = replicate (rx_prefill (redundancy c) (8 * n * nboutputs c * (redundancy c + 1))) 0" "rb_size rb < 2 ^ 31"
    using fresh_ring [OF _ nb(1) _ al(2), of n 0 "redundancy c"] small n by auto
  obtain mb where mb: "pe_malloc env 300 = Some mb" "length mb = 300" using al(2) by blast
  let ?m = "\<lparr>rb_buf = mb, write_ptr = 0, read_ptr = 0, rb_size = 300, mlocked = 0\<rparr>"
  have m: "ringbuffer_create (pe_rb env) (pe_malloc env 300) 300 = Some ?m" "rb_ok ?m" "rb_abs ?m = []"
    using al(1) mb by (simp_all add: ringbuffer_create_def rb_ok_def rb_abs_def rb_fill_def)
  have ci: "c_int (int (nframes c) + int (lagrange_num c)) = Some (int (n + 3))" using n lag c_int_add [of n 3] by simp
  have "player_buffers env c = Some (c\<lparr>rxbuf := b, rxbuflen := int (nboutputs c * (n + 6)), ringbuffer := Some rb, ringbuffer_midi := Some ?m\<rparr>)"
    unfolding player_buffers_def ci Option.bind.bind_lunit rx prod.case m(1) using rb(1) al(1) n(1) by simp
  then show ?thesis using b rb(2-4) m(2,3) by (intro exI [of _ b] exI [of _ rb] exI [of _ ?m]) simp
qed

lemma flag_or_keeps: "flag_set (f OR RECEIVER) CORRECTION_ON = flag_set f CORRECTION_ON"
proof -
  have "RECEIVER AND CORRECTION_ON = 0" by (simp add: flag_defs)
  then show ?thesis by (simp add: flag_set_def bit.conj_disj_distrib2)
qed

lemma player_start_ok:
  assumes p: "playable env c n"
  shows "\<exists>client c' b m. player_start env c = Some (Inr (client, c')) \<and> rx_ok c' \<and> reader_ok c' \<and>
    nframes c' = n \<and> samplerate c' = int (sample_rate (pe_server env)) \<and> nboutputs c' = nboutputs c \<and> flags c' = flags c OR RECEIVER \<and>
    output_ports client = port_names ''Output_'' ''Output_MIDI'' (nboutputs c) \<and>
    pe_malloc env (4 * (nboutputs c * (n + 6))) = Some b \<and>
    pending c' = take (4 * (nboutputs c * 3)) (drop (4 * (nboutputs c * n)) b) @
      replicate (rx_prefill (redundancy c) (8 * n * nboutputs c * (redundancy c + 1))) 0 \<and>
    ringbuffer_midi c' = Some m \<and> rb_ok m \<and> rb_abs m = [] \<and> rb_size m = 300 \<and>
    lagrange_num c' = 3"
proof -
  note d = p [unfolded playable_def]
  have sr: "to_i32 (int (sample_rate (pe_server env))) = int (sample_rate (pe_server env))" using d by (intro to_i32_nat) simp
  have nf: "to_u16 (int (buffer_size (pe_server env))) = n" using d by (simp add: to_u16_nat)
  let ?s0 = "c\<lparr>flags := flags c OR RECEIVER\<rparr>"
  obtain cl where cl: "jack_init_rx_stream (pe_server env) zero_jack ?s0 =
        Some (cl, ?s0\<lparr>samplerate := int (sample_rate (pe_server env)), nframes := n\<rparr>, 0)"
      "output_ports cl = port_names ''Output_'' ''Output_MIDI'' (nboutputs c)"
    using jack_init_rx_ok [of "pe_server env" ?s0 zero_jack] d unfolding sr nf by (auto simp: vban_sizes)
  let ?s1 = "?s0\<lparr>samplerate := int (sample_rate (pe_server env)), nframes := n, resampler_inbuf := None, resampler_outbuf := None\<rparr>"
  obtain r t where r: "player_resampler env ?s1 = Some (Inr r)" "vr_ok t r" "v_nchan r = nboutputs c"
    using player_resampler_ok [of ?s1 env] d by (auto simp: vban_sizes)
  let ?s2 = "?s1\<lparr>resampler := Some r\<rparr>"
  obtain b rb m where b: "player_buffers env ?s2 =
        Some (?s2\<lparr>rxbuf := b, rxbuflen := int (nboutputs c * (n + 6)), ringbuffer := Some rb, ringbuffer_midi := Some m\<rparr>)"
      "pe_malloc env (4 * (nboutputs c * (n + 6))) = Some b" "length b = 4 * (nboutputs c * (n + 6))" "rb_ok rb" "rb_size rb < 2 ^ 31"
      "rb_abs rb = replicate (rx_prefill (redundancy c) (8 * n * nboutputs c * (redundancy c + 1))) 0"
      "rb_ok m" "rb_abs m = []" "rb_size m = 300"
    using player_buffers_ok [of ?s2 n env] d by auto
  let ?s3 = "?s2\<lparr>rxbuf := b, rxbuflen := int (nboutputs c * (n + 6)), ringbuffer := Some rb, ringbuffer_midi := Some m\<rparr>"
  define c' where "c' = (if rxport ?s3 \<noteq> 0 then ?s3\<lparr>txport := htons (sin_port (rxsock ?s3))\<rparr> else ?s3)"
  have kp: "flags c' = flags c OR RECEIVER" "nboutputs c' = nboutputs c" "nframes c' = n" "samplerate c' = int (sample_rate (pe_server env))"
    "samplerate_resampler c' = samplerate_resampler c" "resampler c' = Some r" "resampler_inbuflen c' = resampler_inbuflen c"
    "ringbuffer c' = Some rb" "ringbuffer_midi c' = Some m" "rxbuf c' = b" "lagrange_num c' = lagrange_num c"
    by (simp_all add: c'_def)
  have "0 < nboutputs c'" "length (output_ports cl) = nboutputs c' + 1" using cl(2) kp(2) d by simp_all
  then obtain cs where run: "jack_run_rx_stream (pe_sources env) (pe_sinks env) (pe_activate env) c' cl =
      Some (cl\<lparr>jcalls := jcalls cl @ cs\<rparr>, pe_activate env)" using jack_run_rx_ok by blast
  have "player_start env c = Some (Inr (cl\<lparr>jcalls := jcalls cl @ cs\<rparr>, c'))"
    unfolding player_start_def Let_def cl(1) Option.bind.bind_lunit prod.case r(1) sum.case b(1) c'_def [symmetric] run ..
  moreover have "rx_ok c'" using kp r(2,3) b(4) d by (auto simp: rx_ok_def rx_rates_def vban_sizes)
  moreover have "reader_ok c' \<and> pending c' = take (4 * (nboutputs c * 3)) (drop (4 * (nboutputs c * n)) b) @
      replicate (rx_prefill (redundancy c) (8 * n * nboutputs c * (redundancy c + 1))) 0"
    using fresh_reader [of c' rb b] kp b(3-6) d by simp
  ultimately show ?thesis using kp(1-4,9,11) cl(2) b(2,7-9) d by auto
qed


section \<open>Properties\<close>

text \<open>
  C27: The start of the player. Once a stream is announced, a system that grants what is needed makes
  a client with one named port for every channel and one for MIDI, a filter for the two rates, an
  empty MIDI ring, and buffers of the server's period: receiver and reader are in good states. With
  redundancy and without rate correction the first period is played at once, but it begins with
  three frames nobody has sent: they are read from memory that was never written; silence follows.
\<close>

theorem player_starts:
  assumes "playable env c n" and "0 < redundancy c" and "\<not> flag_set (flags c) CORRECTION_ON"
    and "nboutputs c \<le> length buffers" and "\<forall>ch < nboutputs c. 4 * n \<le> length (buffers ! ch)"
    and "pe_malloc env (4 * (nboutputs c * (n + 6))) = Some junk"
    and "queue = take (4 * (nboutputs c * 3)) (drop (4 * (nboutputs c * n)) junk) @
      replicate (rx_prefill (redundancy c) (8 * n * nboutputs c * (redundancy c + 1))) 0"
  shows "\<exists>client c' c'' outs. player_start env c = Some (Inr (client, c')) \<and> rx_ok c' \<and> reader_ok c' \<and> nframes c' = n \<and>
    samplerate c' = int (sample_rate (pe_server env)) \<and>
    output_ports client = port_names ''Output_'' ''Output_MIDI'' (nboutputs c) \<and>
    on_rx_process rb_mem malloc 0 n buffers c' = Some (c'', outs, []) \<and>
    (\<forall>ch < nboutputs c. take (4 * n) (outs ! ch) = track (nboutputs c) ch n queue) \<and>
    pending c'' = drop (4 * (nboutputs c * n)) queue"
proof -
  obtain client c' b m where s: "player_start env c = Some (Inr (client, c'))" "rx_ok c'" "reader_ok c'" "nframes c' = n"
      "samplerate c' = int (sample_rate (pe_server env))" "nboutputs c' = nboutputs c" "flags c' = flags c OR RECEIVER"
      "output_ports client = port_names ''Output_'' ''Output_MIDI'' (nboutputs c)" "pending c' = queue"
      "ringbuffer_midi c' = Some m" "rb_ok m" "rb_abs m = []" and lag: "lagrange_num c' = 3"
    using player_start_ok [OF assms(1)] assms(6,7) by auto
  obtain rb where rb: "ringbuffer c' = Some rb" using s(3) by (auto simp: reader_ok_def)
  have "length junk = 4 * (nboutputs c * (n + 6))" using assms(1,6) by (metis option.inject playable_def)
  then have junk: "length (take (4 * (nboutputs c * 3)) (drop (4 * (nboutputs c * n)) junk)) = 4 * (nboutputs c * 3)"
    by (simp add: distrib_left)
  have "rb_fill rb = length (pending c') - 4 * (nboutputs c * 3)"
    using s(3) rb lag s(4,6) by (auto simp: pending_def reader_ok_def rd_wf_def distrib_left)
  then have "rb_fill rb = rx_prefill (redundancy c) (8 * n * nboutputs c * (redundancy c + 1))"
    using junk s(9) assms(7) by simp
  then have fill: "4 * (nboutputs c' * n) \<le> rb_fill rb"
    using prefill_covers [OF assms(2) order_refl, of "nboutputs c" n] s(6) by simp
  have "\<not> flag_set (flags c') CORRECTION_ON" unfolding s(7) flag_or_keeps by (rule assms(3))
  moreover have "rb_fill m = 0" using s(12) length_rb_abs [of m] by simp
  ultimately show ?thesis
    using on_rx_step [of c' c' n rb_mem malloc c' rb buffers m 0] s rb fill assms(1,4,5)
    by (auto simp: playable_def)
qed

definition example_player :: player_env where
  "example_player = \<lparr>pe_server = \<lparr>opens = True, sample_rate = 48000, buffer_size = 4, callback_set = True\<rparr>,
     pe_sin = (\<lambda>x. x), pe_cos = (\<lambda>x. x), pe_float = (\<lambda>n. replicate n (FNum False 0)), pe_rb = True,
     pe_malloc = (\<lambda>n. Some (replicate n 0xCD)), pe_sources = None, pe_sinks = Some [], pe_activate = 0\<rparr>"

definition example_announced :: stream_context where
  "example_announced = zero_context\<lparr>nboutputs := 1, samplerate_resampler := 44100, redundancy := 1, lagrange_num := 3\<rparr>"

theorem player_starts_witness:
  "let n = 4; c = example_announced; buffers = [replicate 16 0];
       queue = replicate 12 0xCD @ replicate (rx_prefill (redundancy c) (8 * n * nboutputs c * (redundancy c + 1))) 0 in
   \<exists>client c' c'' outs. player_start example_player c = Some (Inr (client, c')) \<and> rx_ok c' \<and> reader_ok c' \<and> nframes c' = n \<and>
    samplerate c' = int (sample_rate (pe_server example_player)) \<and>
    output_ports client = port_names ''Output_'' ''Output_MIDI'' (nboutputs c) \<and>
    on_rx_process True (\<lambda>_. None) 0 n buffers c' = Some (c'', outs, []) \<and>
    (\<forall>ch < nboutputs c. take (4 * n) (outs ! ch) = track (nboutputs c) ch n queue) \<and>
    pending c'' = drop (4 * (nboutputs c * n)) queue"
  unfolding Let_def
  by (rule player_starts [where junk = "replicate 40 0xCD"])
    (simp_all add: example_player_def example_announced_def playable_def zero_context_def vban_sizes flag_set_def)

text \<open>
  A change of the period throws away what has been received. The new buffers are of the new
  period; whatever the ring held is gone, and the next period begins with \<open>lagrange_num\<close> frames of
  memory that was never written and goes on with silence.
\<close>

theorem period_change_restarts:
  assumes "0 < nboutputs c" and "nboutputs c \<le> VBAN_CHANNELS_MAX_NB" and "3 \<le> lagrange_num c" and "lagrange_num c \<le> nf" and "nf < 2 ^ 16"
    and "vban_nframes_pac c = int p" and "2 * max nf p * nboutputs c * (redundancy c + 1) < 2 ^ 28"
    and "\<And>k. \<exists>b. malloc k = Some b \<and> length b = k" and "nf \<noteq> nframes c" and "0 < redundancy c" and "\<not> flag_set (flags c) CORRECTION_ON"
    and "nboutputs c \<le> length buffers" and "\<forall>ch < nboutputs c. 4 * nf \<le> length (buffers ! ch)"
    and "ringbuffer_midi c = Some m" and "rb_ok m" and "rb_fill m div 3 \<le> slots"
    and "malloc (4 * (nboutputs c * (nf + lagrange_num c))) = Some junk"
    and "queue = drop (4 * (nboutputs c * nf)) junk @ replicate (rx_prefill (redundancy c) (8 * max nf p * nboutputs c * (redundancy c + 1))) 0"
  shows "\<exists>c' outs. on_rx_process True malloc slots nf buffers c = Some (c', outs, triples (rb_abs m)) \<and> reader_ok c' \<and> nframes c' = nf \<and>
    (\<forall>ch < nboutputs c. take (4 * nf) (outs ! ch) = track (nboutputs c) ch nf queue) \<and>
    pending c' = drop (4 * (nboutputs c * nf)) queue"
proof -
  obtain rb where np: "new_period True malloc nf c =
      Some (c\<lparr>nframes := nf, rxbuf := junk, rxbuflen := int (nboutputs c * (nf + lagrange_num c)), ringbuffer := Some rb\<rparr>)"
    "length junk = 4 * (nboutputs c * (nf + lagrange_num c))" "rb_ok rb" "rb_size rb < 2 ^ 31"
    "rb_abs rb = replicate (rx_prefill (redundancy c) (8 * max nf p * nboutputs c * (redundancy c + 1))) 0"
    using new_period_ok [OF assms(1-8)] assms(17) by auto
  let ?c = "c\<lparr>nframes := nf, rxbuf := junk, rxbuflen := int (nboutputs c * (nf + lagrange_num c)), ringbuffer := Some rb\<rparr>"
  have fr: "reader_ok ?c" "pending ?c = queue"
    using fresh_reader [of ?c rb junk] np(2-5) assms(1-5,18) by (simp_all add: distrib_left)
  have "rb_fill rb = rx_prefill (redundancy c) (8 * max nf p * nboutputs c * (redundancy c + 1))"
    using np(5) length_rb_abs [of rb] by simp
  then have fill: "4 * (nboutputs c * nf) \<le> rb_fill rb"
    using prefill_covers [OF assms(10), of nf "max nf p" "nboutputs c"] by simp
  show ?thesis
    using on_rx_step [of c c nf True malloc ?c rb buffers m slots] np(1,3) fr fill assms(2,9,11-16) by auto
qed

theorem period_change_restarts_witness:
  "let m = \<lparr>rb_buf = replicate 8 0, write_ptr = 0, read_ptr = 0, rb_size = 8, mlocked = 0\<rparr>;
       c = example_announced\<lparr>nframes := 8, ringbuffer_midi := Some m\<rparr>; buffers = [replicate 16 0];
       queue = replicate 12 0xCD @ replicate (rx_prefill (redundancy c) (8 * max 4 0 * nboutputs c * (redundancy c + 1))) 0 in
   \<exists>c' outs. on_rx_process True (\<lambda>n. Some (replicate n 0xCD)) 0 4 buffers c = Some (c', outs, triples (rb_abs m)) \<and> reader_ok c' \<and> nframes c' = 4 \<and>
    (\<forall>ch < nboutputs c. take (4 * 4) (outs ! ch) = track (nboutputs c) ch 4 queue) \<and>
    pending c' = drop (4 * (nboutputs c * 4)) queue"
  unfolding Let_def
  by (rule period_change_restarts [where junk = "replicate 28 0xCD" and p = 0])
    (simp_all add: example_announced_def zero_context_def vban_sizes flag_set_def rb_ok_def rb_fill_def)

text \<open>
  A period is played. With a good reader, a period in the ring and, under rate correction, a
  correction that is defined, the callback hands every channel exactly the next frames of the
  stream, keeps the rest for the next call, and passes on the MIDI ring's bytes in events of three.
\<close>

theorem callback_plays_period:
  assumes "reader_ok c" and "ringbuffer c = Some rb" and "4 * (nboutputs c * nframes c) \<le> rb_fill rb"
    and "nboutputs c \<le> length buffers" and "nboutputs c \<le> VBAN_CHANNELS_MAX_NB" and "\<forall>ch < nboutputs c. 4 * nframes c \<le> length (buffers ! ch)"
    and "flag_set (flags c) CORRECTION_ON \<longrightarrow> correct_samplerate c (4 * int (nboutputs c)) \<noteq> None"
    and "ringbuffer_midi c = Some m" and "rb_ok m" and "rb_fill m div 3 \<le> slots"
  shows "\<exists>c' outs. on_rx_process rb_mem malloc slots (nframes c) buffers c = Some (c', outs, triples (rb_abs m)) \<and> reader_ok c' \<and>
    (\<forall>ch < nboutputs c. take (4 * nframes c) (outs ! ch) = track (nboutputs c) ch (nframes c) (pending c)) \<and>
    pending c' = drop (4 * (nboutputs c * nframes c)) (pending c) \<and>
    (\<exists>m'. ringbuffer_midi c' = Some m' \<and> rb_abs m' = drop (3 * (rb_fill m div 3)) (rb_abs m))"
proof -
  obtain c1 where c1: "(if flag_set (flags c) CORRECTION_ON then correct_samplerate c (4 * int (nboutputs c)) else Some c) = Some c1"
    using assms(7) by (cases "flag_set (flags c) CORRECTION_ON") auto
  have kp: "nboutputs c1 = nboutputs c \<and> nframes c1 = nframes c \<and> lagrange_num c1 = lagrange_num c \<and> rxbuf c1 = rxbuf c \<and>
    ringbuffer c1 = ringbuffer c \<and> ringbuffer_midi c1 = ringbuffer_midi c"
    using c1 correct_keeps [of c] by (auto split: if_splits)
  have "reader_ok c1" "pending c1 = pending c" using reader_ok_cong [of c1 c] kp assms(1) by auto
  then show ?thesis
    using on_rx_step [OF c1, of "nframes c" rb_mem malloc c1 rb buffers m slots] kp assms(2-6,8-10) by fastforce
qed

theorem callback_plays_period_witness:
  "let m = \<lparr>rb_buf = [1, 2, 3, 4, 0, 0, 0, 0], write_ptr = 4, read_ptr = 0, rb_size = 8, mlocked = 0\<rparr>;
       rb = \<lparr>rb_buf = replicate 32 7, write_ptr = 16, read_ptr = 0, rb_size = 32, mlocked = 0\<rparr>;
       c = example_announced\<lparr>nframes := 4, rxbuf := replicate 40 9, ringbuffer := Some rb, ringbuffer_midi := Some m\<rparr>;
       buffers = [replicate 16 0] in
   \<exists>c' outs. on_rx_process True (\<lambda>_. None) 1 (nframes c) buffers c = Some (c', outs, triples (rb_abs m)) \<and> reader_ok c' \<and>
    (\<forall>ch < nboutputs c. take (4 * nframes c) (outs ! ch) = track (nboutputs c) ch (nframes c) (pending c)) \<and>
    pending c' = drop (4 * (nboutputs c * nframes c)) (pending c) \<and>
    (\<exists>m'. ringbuffer_midi c' = Some m' \<and> rb_abs m' = drop (3 * (rb_fill m div 3)) (rb_abs m))"
  unfolding Let_def
  by (rule callback_plays_period [where rb = "\<lparr>rb_buf = replicate 32 7, write_ptr = 16, read_ptr = 0, rb_size = 32, mlocked = 0\<rparr>"])
    (simp_all add: example_announced_def zero_context_def vban_sizes flag_set_def rb_ok_def rb_fill_def reader_ok_def rd_wf_def)

end
