(* ===== verification/Player.thy ===== *)
theory Player
  imports Receptor_Jack Multistream
begin

text \<open>
  The two threads of the player together: the receiver that handles packets and the callback that
  plays periods, over any sequence of both. A packet and a period are one step each; what they share
  is the ring, whose bytes one thread writes and the other reads (\<open>Ringbuffer_Spsc\<close> shows that
  finer interleavings of the ring's operations give the same queue).
\<close>

section \<open>The run\<close>

datatype player_event =
    Arrives vban_packet int u32 u16
  | Plays nat "byte list list"

fun player_run :: "timespec \<Rightarrow> bool \<Rightarrow> (nat \<Rightarrow> byte list option) \<Rightarrow> player_event list \<Rightarrow> stream_context \<Rightarrow>
    (stream_context \<times> byte list list list) option" where
  "player_run clock rb_mem malloc [] c = Some (c, [])"
| "player_run clock rb_mem malloc (Arrives p len ip port # es) c = do {
     (c, _, _, _) \<leftarrow> vban_rx_handle_packet (\<lambda>_. True) clock p len c ip port;
     player_run clock rb_mem malloc es c }"
| "player_run clock rb_mem malloc (Plays slots buffers # es) c = do {
     (c, outs, _) \<leftarrow> on_rx_process rb_mem malloc slots (nframes c) buffers c;
     (c, rest) \<leftarrow> player_run clock rb_mem malloc es c;
     Some (c, outs # rest) }"

text \<open>
  What a packet has to add to what is still to be played: if the stream accepts it, the frames that
  the resampler gives for it (\<open>packet_output\<close>), from the first one on, as many as the ring has room for.
\<close>

definition packet_frames :: "vban_packet \<Rightarrow> stream_context \<Rightarrow> u32 \<Rightarrow> byte list" where
  "packet_frames p c ip =
     (let h = header p; nb = nboutputs c; nbc = min (unat (format_nbc h) + 1) nb in
      if is_protocol VBAN_PROTOCOL_AUDIO (format_SR h) \<and> rx_accepts p c ip = Some True then
        (case (packet_output p c, ringbuffer c) of
           (Some (r, ob), Some rb) \<Rightarrow> concat (map (\<lambda>k. take (4 * nb) (drop (4 * (k * nbc)) ob))
             [0..<min (outlen c (unat (format_nbs h) + 1) - out_count r) (rb_free rb div (4 * nb))])
         | _ \<Rightarrow> [])
      else [])"

fun received :: "timespec \<Rightarrow> bool \<Rightarrow> (nat \<Rightarrow> byte list option) \<Rightarrow> player_event list \<Rightarrow> stream_context \<Rightarrow> byte list" where
  "received clock rb_mem malloc [] c = []"
| "received clock rb_mem malloc (Arrives p len ip port # es) c =
     (case vban_rx_handle_packet (\<lambda>_. True) clock p len c ip port of
        None \<Rightarrow> []
      | Some (c', _) \<Rightarrow> packet_frames p c ip @ received clock rb_mem malloc es c')"
| "received clock rb_mem malloc (Plays slots buffers # es) c =
     (case on_rx_process rb_mem malloc slots (nframes c) buffers c of
        None \<Rightarrow> []
      | Some (c', _) \<Rightarrow> received clock rb_mem malloc es c')"

text \<open>
  Packets of any protocol but text and MIDI, those the stream accepts announcing what they hold;
  periods that find a period in the ring and buffers of the server that hold one.
\<close>

fun fed :: "timespec \<Rightarrow> bool \<Rightarrow> (nat \<Rightarrow> byte list option) \<Rightarrow> player_event list \<Rightarrow> stream_context \<Rightarrow> bool" where
  "fed clock rb_mem malloc [] c = True"
| "fed clock rb_mem malloc (Arrives p len ip port # es) c \<longleftrightarrow>
     packet_ok p \<and> \<not> is_protocol VBAN_PROTOCOL_TXT (format_SR (header p)) \<and> \<not> is_protocol VBAN_PROTOCOL_SERIAL (format_SR (header p)) \<and>
     (is_protocol VBAN_PROTOCOL_AUDIO (format_SR (header p)) \<and> rx_accepts p c ip = Some True \<longrightarrow> fits_packet p) \<and>
     (case vban_rx_handle_packet (\<lambda>_. True) clock p len c ip port of None \<Rightarrow> True | Some (c', _) \<Rightarrow> fed clock rb_mem malloc es c')"
| "fed clock rb_mem malloc (Plays slots buffers # es) c \<longleftrightarrow>
     nboutputs c \<le> length buffers \<and> (\<forall>o1 \<in> set buffers. 4 * nframes c \<le> length o1) \<and>
     (case ringbuffer c of None \<Rightarrow> False | Some rb \<Rightarrow> 4 * (nboutputs c * nframes c) \<le> rb_fill rb) \<and>
     (case on_rx_process rb_mem malloc slots (nframes c) buffers c of None \<Rightarrow> True | Some (c', _) \<Rightarrow> fed clock rb_mem malloc es c')"


section \<open>The state of a playing stream\<close>

definition playing :: "stream_context \<Rightarrow> bool" where
  "playing c \<longleftrightarrow> rx_ok c \<and> reader_ok c \<and> \<not> flag_set (flags c) CORRECTION_ON \<and> length (rx_streamname c) = VBAN_STREAM_NAME_SIZE \<and>
     (\<exists>m. ringbuffer_midi c = Some m \<and> rb_ok m \<and> rb_fill m = 0)"

lemma rx_audio_keeps:
  assumes "rx_audio calloc clock p c = Some c'" and "\<not> flag_set (flags c) CORRECTION_ON"
  shows "nframes c' = nframes c \<and> lagrange_num c' = lagrange_num c \<and> rxbuf c' = rxbuf c \<and> ringbuffer_midi c' = ringbuffer_midi c"
proof -
  obtain c1 ib r rb x y c2 where run: "rx_buffers calloc c (header p) = Some c1"
      "rx_measure clock (header p) x y (c1\<lparr>resampler_inbuf := Some ib, resampler_outbuf := map_option fst (out_data r),
        resampler := Some r, ringbuffer := Some rb\<rparr>) = Some c2" "c' = c2\<lparr>nu_frame := nuFrame (header p)\<rparr>"
    using assms(1) unfolding rx_audio_def Let_def bind_eq_Some_conv case_prod_unfold option.inject
    by (elim exE conjE) (rule that, assumption, assumption, erule sym)
  have "\<exists>i j k l. c1 = c\<lparr>resampler_inbuflen := i, resampler_inbuf := j, resampler_outbuflen := k, resampler_outbuf := l\<rparr>"
  proof (cases "resampler_inbuflen c < int (unat (format_nbs (header p))) + 1")
    case True
    then show ?thesis using run(1) by (auto simp: rx_buffers_def Let_def bind_eq_Some_conv)
  next
    case False
    then obtain o1 where "c1 = c\<lparr>resampler_inbuflen := int (unat (format_nbs (header p))) + 1, resampler_outbuflen := o1\<rparr>"
      using run(1) by (auto simp: rx_buffers_def Let_def bind_eq_Some_conv)
    then show ?thesis
      by (intro exI [of _ "int (unat (format_nbs (header p))) + 1"] exI [of _ "resampler_inbuf c"] exI [of _ o1]
          exI [of _ "resampler_outbuf c"]) simp
  qed
  then obtain i j k l where c1: "c1 = c\<lparr>resampler_inbuflen := i, resampler_inbuf := j, resampler_outbuflen := k, resampler_outbuf := l\<rparr>"
    by blast
  show ?thesis using run(2,3) assms(2) by (simp add: rx_measure_def c1) auto
qed

lemma arrives_ok:
  assumes pl: "playing c" and p: "packet_ok p" "\<not> is_protocol VBAN_PROTOCOL_TXT (format_SR (header p))"
      "\<not> is_protocol VBAN_PROTOCOL_SERIAL (format_SR (header p))"
    and fit: "is_protocol VBAN_PROTOCOL_AUDIO (format_SR (header p)) \<and> rx_accepts p c ip = Some True \<longrightarrow> fits_packet p"
  shows "\<exists>c'. vban_rx_handle_packet (\<lambda>_. True) clock p len c ip port = Some (c', p, [], 0) \<and> playing c' \<and>
    nboutputs c' = nboutputs c \<and> nframes c' = nframes c \<and> pending c' = pending c @ packet_frames p c ip"
proof -
  obtain rb where rb: "ringbuffer c = Some rb" "rb_size rb < 2 ^ 31" using pl by (auto simp: playing_def reader_ok_def)
  have nocor: "\<not> flag_set (flags c) CORRECTION_ON" using pl by (simp add: playing_def)
  obtain mine where mine: "rx_accepts p c ip = Some mine"
    using strn_eq_total [of VBAN_STREAM_NAME_SIZE "streamname (header p)" "rx_streamname c"] pl p(1)
    by (auto simp: rx_accepts_def playing_def packet_ok_def header_ok_def vban_sizes)
  show ?thesis
  proof (cases "is_protocol VBAN_PROTOCOL_AUDIO (format_SR (header p)) \<and> mine")
    case True
    have ok: "rx_ok c" using pl by (simp add: playing_def)
    have meas: "flag_set (flags c) CORRECTION_ON \<longrightarrow> meas_ok clock c" using nocor by simp
    have fits: "fits_packet p" using fit mine True by simp
    obtain c' rb' ob r' k where c': "rx_audio (\<lambda>_. True) clock p c = Some c'" "ringbuffer c' = Some rb'" "rb_ok rb'" "rb_size rb' = rb_size rb"
        "k = min (outlen c (unat (format_nbs (header p)) + 1) - out_count r') (rb_free rb div (4 * nboutputs c))"
        "rb_abs rb' = rb_abs rb @ concat (map (\<lambda>k. take (4 * nboutputs c)
           (drop (4 * (k * min (unat (format_nbc (header p)) + 1) (nboutputs c))) ob)) [0..<k])"
        "rx_ok c'" "rx_streamname c' = rx_streamname c" "nboutputs c' = nboutputs c"
        "\<not> flag_set (flags c) CORRECTION_ON \<longrightarrow> flags c' = flags c" "packet_output p c = Some (r', ob)"
      using rx_audio_ok [OF ok rb(1) fits meas refl refl] by (elim exE conjE) (rule that)
    note kp = rx_audio_keeps [OF c'(1) nocor]
    have "rb_abs rb' = rb_abs rb @ packet_frames p c ip"
      using c'(5,6,11) True mine rb(1) by (simp add: packet_frames_def Let_def)
    then have pend: "pending c' = pending c @ packet_frames p c ip" using kp c'(2,9) rb(1) by (simp add: pending_def)
    have "playing c'" using pl kp c' rb nocor by (auto simp: playing_def reader_ok_def)
    then show ?thesis using c'(1,9) rb(1) mine True pend kp by (simp add: vban_rx_handle_packet_def Let_def)
  next
    case False
    then show ?thesis using pl p rb(1) mine by (auto simp: vban_rx_handle_packet_def Let_def packet_frames_def)
  qed
qed

lemma plays_ok:
  assumes pl: "playing c" and buf: "nboutputs c \<le> length buffers" "\<forall>o1 \<in> set buffers. 4 * nframes c \<le> length o1"
    and rb: "ringbuffer c = Some rb" "4 * (nboutputs c * nframes c) \<le> rb_fill rb"
  shows "\<exists>c' outs. on_rx_process rb_mem malloc slots (nframes c) buffers c = Some (c', outs, []) \<and> playing c' \<and>
    nboutputs c' = nboutputs c \<and> nframes c' = nframes c \<and>
    (\<forall>ch < nboutputs c. take (4 * nframes c) (outs ! ch) = track (nboutputs c) ch (nframes c) (pending c)) \<and>
    pending c' = drop (4 * (nboutputs c * nframes c)) (pending c)"
proof -
  obtain m where m: "ringbuffer_midi c = Some m" "rb_ok m" "rb_fill m = 0" using pl by (auto simp: playing_def)
  have m0: "rb_abs m = []" using m(3) by (metis length_0_conv length_rb_abs)
  have sides: "reader_ok c" "\<not> flag_set (flags c) CORRECTION_ON" "nboutputs c \<le> VBAN_CHANNELS_MAX_NB"
    "\<forall>ch < nboutputs c. 4 * nframes c \<le> length (buffers ! ch)"
    using pl buf by (auto simp: playing_def rx_ok_def rx_rates_def vban_sizes)
  obtain c' outs b rb' m' where c': "on_rx_process rb_mem malloc slots (nframes c) buffers c = Some (c', outs, [])" "reader_ok c'"
      "\<forall>ch < nboutputs c. take (4 * nframes c) (outs ! ch) = track (nboutputs c) ch (nframes c) (pending c)"
      "pending c' = drop (4 * (nboutputs c * nframes c)) (pending c)"
      "c' = c\<lparr>rxbuf := b, ringbuffer := Some rb', ringbuffer_midi := Some m'\<rparr>" "rb_ok rb'" "rb_ok m'" "rb_abs m' = []"
    using on_rx_step [of c c "nframes c" rb_mem malloc c rb buffers m slots] sides m m0 rb buf(1) by auto
  have "rb_fill m' = 0" using c'(8) length_rb_abs [of m'] by simp
  moreover have "rx_ok c'" using pl c'(6) unfolding c'(5) by (simp add: playing_def rx_ok_def rx_rates_def rx_bufs_def outlen_def)
  ultimately have "playing c'" using pl c'(2,7) unfolding c'(5) by (auto simp: playing_def)
  then show ?thesis using c'(1,3,4) unfolding c'(5) by auto
qed


section \<open>Runs\<close>

lemma track_append:
  assumes "ch < nb" and "4 * (nb * n) \<le> length b"
  shows "track nb ch n (b @ x) = track nb ch n b"
  using track_cong [of "length b" "b @ x" b nb n ch] assms by simp

lemma player_run_ok:
  assumes "playing c" and "fed clock rb_mem malloc es c"
  shows "\<exists>c' outs. player_run clock rb_mem malloc es c = Some (c', outs) \<and> playing c' \<and> nboutputs c' = nboutputs c \<and> nframes c' = nframes c \<and>
    (\<forall>ch < nboutputs c. concat (map (\<lambda>o1. take (4 * nframes c) (o1 ! ch)) outs) =
      track (nboutputs c) ch (length outs * nframes c) (pending c @ received clock rb_mem malloc es c)) \<and>
    pending c' = drop (4 * (nboutputs c * (length outs * nframes c))) (pending c @ received clock rb_mem malloc es c)"
  using assms
proof (induction es arbitrary: c)
  case Nil
  then show ?case by simp
next
  case (Cons e es)
  show ?case
  proof (cases e)
    case (Arrives p len ip port)
    obtain c1 where c1: "vban_rx_handle_packet (\<lambda>_. True) clock p len c ip port = Some (c1, p, [], 0)" "playing c1"
        "nboutputs c1 = nboutputs c" "nframes c1 = nframes c" "pending c1 = pending c @ packet_frames p c ip"
      using arrives_ok [OF Cons.prems(1), of p ip clock len port] Cons.prems(2) Arrives by auto
    have "fed clock rb_mem malloc es c1" using Cons.prems(2) c1(1) Arrives by simp
    from Cons.IH [OF c1(2) this] show ?thesis using c1(3-5) by (simp add: Arrives c1(1))
  next
    case (Plays slots buffers)
    obtain rb where rb: "ringbuffer c = Some rb" "4 * (nboutputs c * nframes c) \<le> rb_fill rb"
      using Cons.prems(2) Plays by (auto split: option.splits)
    let ?P = "4 * (nboutputs c * nframes c)"
    obtain c1 outs where c1: "on_rx_process rb_mem malloc slots (nframes c) buffers c = Some (c1, outs, [])" "playing c1"
        "nboutputs c1 = nboutputs c" "nframes c1 = nframes c"
        "\<forall>ch < nboutputs c. take (4 * nframes c) (outs ! ch) = track (nboutputs c) ch (nframes c) (pending c)" "pending c1 = drop ?P (pending c)"
      using plays_ok [OF Cons.prems(1) _ _ rb, of buffers rb_mem malloc slots] Cons.prems(2) Plays by auto
    have fed: "fed clock rb_mem malloc es c1" using Cons.prems(2) c1(1) Plays by simp
    let ?R = "received clock rb_mem malloc es c1"
    obtain c' rest where r: "player_run clock rb_mem malloc es c1 = Some (c', rest)" "playing c'" "nboutputs c' = nboutputs c" "nframes c' = nframes c"
        "\<forall>ch < nboutputs c. concat (map (\<lambda>o1. take (4 * nframes c) (o1 ! ch)) rest) =
          track (nboutputs c) ch (length rest * nframes c) (pending c1 @ ?R)"
        "pending c' = drop (4 * (nboutputs c * (length rest * nframes c))) (pending c1 @ ?R)"
      using Cons.IH [OF c1(2) fed] c1(3,4) by auto
    have P: "?P \<le> length (pending c)" using rb by (simp add: pending_def)
    have queue: "pending c1 @ ?R = drop ?P (pending c @ ?R)" using c1(6) P by simp
    have "concat (map (\<lambda>o1. take (4 * nframes c) (o1 ! ch)) (outs # rest)) =
        track (nboutputs c) ch (nframes c + length rest * nframes c) (pending c @ ?R)" if "ch < nboutputs c" for ch
      using c1(5) r(5) that P queue by (simp add: track_add track_append)
    moreover have "pending c' = drop (4 * (nboutputs c * (nframes c + length rest * nframes c))) (pending c @ ?R)"
      unfolding r(6) queue drop_drop by (simp only: distrib_left add.commute)
    ultimately show ?thesis using r(1-4) by (simp add: Plays c1(1))
  qed
qed



section \<open>Properties\<close>

text \<open>
  C28: What arrives is what is played. With the rate correction off, in every interleaving of packets
  (of any protocol but text and MIDI; those the stream accepts announce what they hold) and of periods
  that each find one in the ring, what a channel's buffers have received, period after period, is the
  channel's part of one stream: the frames that were pending at the start, followed by the frames
  that the resampler gave for the accepted packets, of each as many as the ring had room for
  (\<open>packet_frames\<close>), in the order of arrival. No frame is lost, doubled or moved on the way, what is
  not yet played stays pending, and the player stays in a good state. Periods that run dry are not
  in the run (\<open>Receive\<close> has them).
\<close>

theorem player_plays_what_arrives:
  assumes "playing c" and "fed clock rb_mem malloc es c" and "S = pending c @ received clock rb_mem malloc es c"
  shows "\<exists>c' outs. player_run clock rb_mem malloc es c = Some (c', outs) \<and> playing c' \<and>
    (\<forall>ch < nboutputs c. concat (map (\<lambda>o1. take (4 * nframes c) (o1 ! ch)) outs) = track (nboutputs c) ch (length outs * nframes c) S) \<and>
    pending c' = drop (4 * (nboutputs c * (length outs * nframes c))) S"
  using player_run_ok [OF assms(1,2)] unfolding assms(3) by blast

definition example_player_state :: stream_context where
  "example_player_state = example_rx\<lparr>nframes := 3, lagrange_num := 3, rxbuf := replicate 24 0,
     ringbuffer := Some \<lparr>rb_buf = replicate 64 0, write_ptr = 12, read_ptr = 0, rb_size = 64, mlocked = 0\<rparr>,
     ringbuffer_midi := Some \<lparr>rb_buf = replicate 8 0, write_ptr = 0, read_ptr = 0, rb_size = 8, mlocked = 0\<rparr>\<rparr>"

lemma example_player_state_ok: "playing example_player_state"
  using example_resampler_ok
  by (auto simp: playing_def reader_ok_def rd_wf_def rx_ok_def rx_rates_def example_player_state_def example_rx_def zero_context_def
      rb_ok_def rb_fill_def vban_sizes flag_set_def RECEIVING_def CORRECTION_ON_def example_resampler_def
      intro!: exI [of _ example_table])

theorem player_plays_what_arrives_witness:
  "let c = example_player_state; es = [Plays 0 [replicate 12 0], Arrives example_audio 40 7 6980];
       S = pending c @ received (0, 0) True (\<lambda>_. None) es c in
   \<exists>c' outs. player_run (0, 0) True (\<lambda>_. None) es c = Some (c', outs) \<and> playing c' \<and>
    (\<forall>ch < nboutputs c. concat (map (\<lambda>o1. take (4 * nframes c) (o1 ! ch)) outs) = track (nboutputs c) ch (length outs * nframes c) S) \<and>
    pending c' = drop (4 * (nboutputs c * (length outs * nframes c))) S"
  unfolding Let_def
proof (rule player_plays_what_arrives)
  show "fed (0, 0) True (\<lambda>_. None) [Plays 0 [replicate 12 0], Arrives example_audio 40 7 6980] example_player_state"
    using example_audio_facts
    by (auto simp: is_protocol_def VBAN_PROTOCOL_MASK_def example_audio_def example_player_state_def example_rx_def zero_context_def rb_fill_def split: option.splits)
qed (simp_all add: example_player_state_ok)

end
