(* ===== verification/Pipewire.thy ===== *)
theory Pipewire
  imports Receptor_Jack
begin

text \<open>
  The PipeWire back end (\<open>vban_common/pipewire_backend.cpp\<close>) and the programs on it
  (\<open>vban_emitter_pw/main.cpp\<close>, the single stream branch of \<open>vban_receptor_pw/main.cpp\<close>): the options,
  the two process callbacks, the start of the streams and the release of their memory. The calls into
  PipeWire are a list of events, its buffers are arguments. Where the code frees memory that may be
  gone or not its own, the state says to whom the block belongs.
\<close>

section \<open>Options\<close>

text \<open>
  The options that are those of the JACK programs have the same text; device mode does not end
  autoconnection here, and \<open>-a\<close>, \<open>-j\<close> and the meaning of \<open>-e\<close> for an emitter do not exist.
\<close>

definition pw_device_option :: "byte list \<Rightarrow> u16 \<Rightarrow> u16" where
  "pw_device_option a f = (if says_yes a then f OR DEVICE_MODE else f AND NOT DEVICE_MODE)"

definition pw_emitter_option :: "option_env \<Rightarrow> char \<Rightarrow> byte list \<Rightarrow> stream_context \<times> nat \<Rightarrow> (unit + stream_context \<times> nat) option" where
  "pw_emitter_option env c a = (\<lambda>(stream, nbcd).
     if c = CHR ''d'' then Some (Inr (stream\<lparr>flags := pw_device_option a (flags stream)\<rparr>, nbcd))
     else if c \<in> set ''aje'' then Some (Inr (stream, nbcd))
     else emitter_option env c a (stream, nbcd))"

definition pw_emitter_options :: "option_env \<Rightarrow> (char \<times> byte list) list \<Rightarrow> stream_context \<Rightarrow> (unit + stream_context) option" where
  "pw_emitter_options env os stream =
     (if os = [] then Some (Inl ())
      else do {
        r \<leftarrow> option_loop (pw_emitter_option env) os (stream, 0);
        case r of Inl _ \<Rightarrow> Some (Inl ())
        | Inr (stream, nbcd) \<Rightarrow>
            Some (Inr (if flag_set (flags stream) DUPLEX
              then stream\<lparr>nboutputs := (if nbcd \<noteq> 0 then nbcd else nbinputs stream)\<rparr> else stream)) })"

text \<open>\<open>-b\<close> goes on into \<open>-h\<close>: there is no \<open>break\<close>.\<close>

definition pw_receptor_option :: "option_env \<Rightarrow> char \<Rightarrow> byte list \<Rightarrow> stream_context \<Rightarrow> (unit + stream_context) option" where
  "pw_receptor_option env c a stream =
     (if c = CHR ''d'' then Some (Inr (stream\<lparr>flags := pw_device_option a (flags stream)\<rparr>))
      else if c \<in> set ''ajf'' then Some (Inr stream)
      else if c = CHR ''b'' then do {
        r \<leftarrow> receptor_option env c a stream;
        case r of Inl e \<Rightarrow> Some (Inl e) | Inr stream \<Rightarrow> receptor_option env (CHR ''h'') a stream }
      else receptor_option env c a stream)"

definition pw_receptor_options :: "option_env \<Rightarrow> (char \<times> byte list) list \<Rightarrow> stream_context \<Rightarrow> (unit + stream_context) option" where
  "pw_receptor_options env os stream =
     (if os = [] then Some (Inl ()) else option_loop (pw_receptor_option env) os stream)"


section \<open>Blocks of memory\<close>

text \<open>
  What a pointer points to: nothing, a block of the program, a block that has been freed, a buffer
  of PipeWire. \<open>free_ptr\<close> is \<open>if (p != NULL) free(p);\<close> and leaves the pointer as it is.
\<close>

datatype life = Null | Owned | Gone | Lent

definition free_ptr :: "life \<Rightarrow> life option" where
  "free_ptr l = (case l of Null \<Rightarrow> Some Null | Owned \<Rightarrow> Some Gone | Gone \<Rightarrow> None | Lent \<Rightarrow> None)"

text \<open>\<open>tune_tx_packets\<close> frees the old buffer before it takes a new one; the callers free the new one.\<close>

definition pw_tune :: "(nat \<Rightarrow> byte list option) \<Rightarrow> life \<times> stream_context \<Rightarrow> (life \<times> stream_context) option" where
  "pw_tune alloc = (\<lambda>(l, c). do {
     _ \<leftarrow> free_ptr l;
     c \<leftarrow> tune_tx_packets alloc c;
     l \<leftarrow> free_ptr Owned;
     Some (l, c) })"


section \<open>The streams\<close>

datatype spa_audio_format = SPA_S8 | SPA_S16_LE | SPA_S24_LE | SPA_S32_LE | SPA_F32_LE | SPA_F64_LE

definition format_vban_to_spa :: "nat \<Rightarrow> spa_audio_format" where
  "format_vban_to_spa f =
     (if f = bitfmt_val VBAN_BITFMT_8_INT then SPA_S8
      else if f = bitfmt_val VBAN_BITFMT_16_INT then SPA_S16_LE
      else if f = bitfmt_val VBAN_BITFMT_24_INT then SPA_S24_LE
      else if f = bitfmt_val VBAN_BITFMT_32_INT then SPA_S32_LE
      else if f = bitfmt_val VBAN_BITFMT_32_FLOAT then SPA_F32_LE
      else if f = bitfmt_val VBAN_BITFMT_64_FLOAT then SPA_F64_LE
      else SPA_F32_LE)"

datatype pw_call =
    Node "byte list" "byte list"
  | Connect_input nat spa_audio_format
  | Connect_output nat spa_audio_format

text \<open>\<open>data->format.info.raw.channels\<close>, the owner of \<open>txbuf\<close>, the sender, and the calls so far.\<close>

record pw_stream =
  raw_channels :: nat
  tx_life :: life
  pw_tx :: tx
  pw_calls :: "pw_call list"

datatype spa_param = No_format | Other_media | Raw_audio nat nat

definition on_stream_param_changed :: "spa_param \<Rightarrow> pw_stream \<Rightarrow> pw_stream" where
  "on_stream_param_changed p d = (case p of Raw_audio rate channels \<Rightarrow> d\<lparr>raw_channels := channels\<rparr> | _ \<Rightarrow> d)"

definition pw_latency :: "stream_context \<Rightarrow> byte list option" where
  "pw_latency c = do {
     t \<leftarrow> put_string (replicate 16 0) 0 (dec_nat (nframes c) @ bytes_of ''/'' @ dec_int (samplerate c));
     Some (cstr t) }"

definition pw_init_tx_stream :: "(nat \<Rightarrow> byte list option) \<Rightarrow> spa_audio_format \<Rightarrow> pw_stream \<Rightarrow> pw_stream option" where
  "pw_init_tx_stream alloc fmt d = do {
     let c = t_ctx (pw_tx d);
     latency \<leftarrow> pw_latency c;
     let calls = [Node latency (cstr (tx_streamname c)), Connect_input (nbinputs c) fmt];
     (l, c) \<leftarrow> pw_tune alloc (tx_life d, c);
     Some (d\<lparr>tx_life := l, pw_tx := (pw_tx d)\<lparr>t_ctx := c\<rparr>, pw_calls := pw_calls d @ calls\<rparr>) }"

definition pw_init_rx_stream :: "spa_audio_format \<Rightarrow> stream_context \<Rightarrow> pw_call list option" where
  "pw_init_rx_stream fmt c = do {
     latency \<leftarrow> pw_latency c;
     Some [Node latency (cstr (rx_streamname c)), Connect_output (nboutputs c) fmt] }"


section \<open>The process callbacks\<close>

text \<open>
  A buffer of PipeWire: its memory (\<^const>\<open>None\<close> for a null pointer), the size of the chunk in it, the
  size of the memory as announced, and the number of frames requested. The offset of the chunk is
  not used by the code. The flag of the result says whether the buffer was given back.
\<close>

record pw_buffer =
  pb_data :: "byte list option"
  chunk_size :: nat
  maxsize :: nat
  requested :: nat

definition pw_chunk_frames :: "nat \<Rightarrow> nat \<Rightarrow> pw_buffer \<Rightarrow> nat option" where
  "pw_chunk_frames fmt channels b = do {
     size \<leftarrow> bit_size fmt;
     q \<leftarrow> udiv (chunk_size b) size;
     udiv (to_u16 (int q)) (to_u16 (int channels)) }"

definition pw_on_tx :: "(nat \<Rightarrow> byte list option) \<Rightarrow> (nat \<Rightarrow> int + cmsg list) \<Rightarrow> pw_buffer option \<Rightarrow> pw_stream \<Rightarrow>
    (pw_stream \<times> bool) option" where
  "pw_on_tx alloc answers buf d =
     (case buf of
        None \<Rightarrow> Some (d, False)
      | Some b \<Rightarrow>
          (case pb_data b of
             None \<Rightarrow> Some (d, False)
           | Some samples \<Rightarrow> do {
               let c = t_ctx (pw_tx d);
               n_frames \<leftarrow> pw_chunk_frames (vban_output_format c) (raw_channels d) b;
               (l, c) \<leftarrow> (if n_frames \<noteq> nframes c then pw_tune alloc (tx_life d, c\<lparr>nframes := to_u16 (int n_frames)\<rparr>)
                 else Some (tx_life d, c));
               (s, _) \<leftarrow> vban_send_txbuffer answers 0 2 ((pw_tx d)\<lparr>t_ctx := c\<lparr>txbuf := Some samples\<rparr>\<rparr>);
               Some (d\<lparr>tx_life := Lent, pw_tx := s\<rparr>, True) }))"

text \<open>What is written to the buffer, with the size of the chunk, when it is given back.\<close>

definition pw_new_period :: "bool \<Rightarrow> (nat \<Rightarrow> byte list option) \<Rightarrow> int \<Rightarrow> stream_context \<Rightarrow> stream_context option" where
  "pw_new_period rb_mem malloc n_frames context = do {
     let context = context\<lparr>nframes := to_u16 n_frames\<rparr>;
     (b, len) \<leftarrow> vban_compute_rx_buffer (floats_of malloc) n_frames (int (nboutputs context)) (Some (rxbuf context)) (rxbuflen context) 3;
     b \<leftarrow> b;
     rb \<leftarrow> vban_compute_rx_ringbuffer rb_mem malloc n_frames (vban_nframes_pac context) (int (nboutputs context))
       (int (redundancy context));
     Some (context\<lparr>rxbuf := b, rxbuflen := len, ringbuffer := Some rb\<rparr>) }"

definition pw_frames :: "pw_buffer \<Rightarrow> nat \<Rightarrow> int" where
  "pw_frames b stride =
     (let n = to_i32 (int (maxsize b div stride)) in
      if requested b \<noteq> 0 then min (to_i32 (int (requested b))) n else n)"

definition pw_on_rx :: "bool \<Rightarrow> (nat \<Rightarrow> byte list option) \<Rightarrow> pw_buffer option \<Rightarrow> stream_context \<Rightarrow>
    (stream_context \<times> (byte list \<times> nat) option) option" where
  "pw_on_rx rb_mem malloc buf context = do {
     stride \<leftarrow> c_int (int (nboutputs context) * 4);
     if stride = 0 then Some (context, None)
     else do {
       context \<leftarrow> (if flag_set (flags context) CORRECTION_ON then correct_samplerate context stride else Some context);
       case buf of
         None \<Rightarrow> Some (context, None)
       | Some b \<Rightarrow>
           (case pb_data b of
              None \<Rightarrow> Some (context, None)
            | Some samples \<Rightarrow> do {
                let n_frames = pw_frames b (nat stride);
                context \<leftarrow> (if n_frames \<noteq> int (nframes context) \<or> ringbuffer context = None
                  then pw_new_period rb_mem malloc n_frames context else Some context);
                context \<leftarrow> read_from_ringbuffer_async context;
                let size = umul (to_size (rxbuflen context)) 4;
                samples \<leftarrow> (if lost_pac_cnt context < 9
                  then do { xs \<leftarrow> mem_load (rxbuf context) 0 size; mem_store samples 0 xs }
                  else mem_store samples 0 (replicate size 0));
                total \<leftarrow> c_int (n_frames * stride);
                Some (context, Some (samples, nat (total mod 2 ^ 32))) }) } }"


section \<open>The end of a stream\<close>

datatype block = Rxsock | Txsock | Ring | Resampler_in | Resampler_out | Txbuf | Rxbuf

fun free_blocks :: "block list \<Rightarrow> (block \<Rightarrow> life) \<Rightarrow> (block \<Rightarrow> life) option" where
  "free_blocks [] m = Some m"
| "free_blocks (b # bs) m = do { l \<leftarrow> free_ptr (m b); free_blocks bs (m(b := l)) }"

text \<open>
  The end of the PipeWire thread, and \<open>pw_stop_stream\<close>, which frees the same blocks, ends the loop of
  the thread and waits for it.
\<close>

definition pw_run_thread_handler :: "u16 \<times> (block \<Rightarrow> life) \<Rightarrow> (u16 \<times> (block \<Rightarrow> life)) option" where
  "pw_run_thread_handler = (\<lambda>(f, m). do {
     m \<leftarrow> free_blocks [Rxsock, Txsock, Ring, Resampler_in, Resampler_out, Txbuf, Rxbuf] m;
     Some (f AND NOT RECEIVING, m) })"

definition pw_stop_stream :: "u16 \<times> (block \<Rightarrow> life) \<Rightarrow> (u16 \<times> (block \<Rightarrow> life)) option" where
  "pw_stop_stream = (\<lambda>(f, m). do {
     m \<leftarrow> free_blocks [Rxsock, Txsock, Ring, Resampler_in, Resampler_out, Txbuf, Rxbuf] m;
     pw_run_thread_handler (f AND NOT RECEIVING, m) })"


section \<open>The programs\<close>

definition pw_emitter_defaults :: stream_context where
  "pw_emitter_defaults = zero_context\<lparr>nbinputs := 2, samplerate := 48000, txport := 6980,
     vban_output_format := bitfmt_val VBAN_BITFMT_32_FLOAT, nframes := 128\<rparr>"

definition pw_emitter_open :: "emitter_env \<Rightarrow> stream_context \<Rightarrow> (unit + tx) option" where
  "pw_emitter_open env stream =
     (if txport stream \<noteq> 0 then emitter_open env stream
      else let d = (if cstr (stream_pipename stream) \<noteq> bytes_of ''stdin'' then ee_open env else 0) in
        Some (Inr \<lparr>t_ctx = stream\<lparr>stream_pipedesc := d\<rparr>, t_io = [], t_chk = 0\<rparr>))"

text \<open>The format of MIDI packets is \<open>VBAN_PROTOCOL_SERIAL & 11\<close>.\<close>

definition pw_emitter_headers :: "stream_context \<Rightarrow> stream_context option" where
  "pw_emitter_headers stream = do {
     let h = (header (txpacket stream))\<lparr>vban := VBAN_HEADER_FOURC,
       format_SR := VBAN_SR_MASK AND word_of_int (vban_get_format_SR (samplerate stream)),
       format_bit := word_of_nat (vban_output_format stream), format_nbc := word_of_int (int (nbinputs stream) - 1),
       format_nbs := word_of_int (vban_nframes_pac stream - 1)\<rparr>;
     h \<leftarrow> named_header (tx_streamname stream) h;
     let stream = stream\<lparr>txpacket := (txpacket stream)\<lparr>header := h\<rparr>\<rparr>;
     let h = (header (txmidipac stream))\<lparr>vban := VBAN_HEADER_FOURC, format_SR := protocol_val VBAN_PROTOCOL_SERIAL AND 11\<rparr>;
     h \<leftarrow> named_header (tx_streamname stream) h;
     Some (stream\<lparr>txmidipac := (txmidipac stream)\<lparr>header := h\<rparr>\<rparr>) }"

definition pw_emitter_run :: "emitter_env \<Rightarrow> stream_context \<Rightarrow> (unit + pw_stream) option" where
  "pw_emitter_run env stream = do {
     r \<leftarrow> pw_emitter_open env stream;
     case r of
       Inl e \<Rightarrow> Some (Inl e)
     | Inr s \<Rightarrow> do {
         stream \<leftarrow> pw_emitter_headers (t_ctx s);
         let stream = stream\<lparr>flags := flags stream OR TRANSMITTER\<rparr>;
         d \<leftarrow> pw_init_tx_stream (ee_alloc env) (format_vban_to_spa (vban_output_format stream))
           \<lparr>raw_channels = 0, tx_life = Null, pw_tx = s\<lparr>t_ctx := stream\<rparr>, pw_calls = []\<rparr>;
         Some (Inr d) } }"

definition pw_emitter_main :: "emitter_env \<Rightarrow> (char \<times> byte list) list \<Rightarrow> (unit + pw_stream) option" where
  "pw_emitter_main env os = do {
     r \<leftarrow> pw_emitter_options (ee_options env) os pw_emitter_defaults;
     case r of Inl e \<Rightarrow> Some (Inl e) | Inr stream \<Rightarrow> pw_emitter_run env stream }"

text \<open>The player once its stream is known.\<close>

definition pw_player_start :: "player_env \<Rightarrow> stream_context \<Rightarrow> (unit + pw_call list \<times> stream_context) option" where
  "pw_player_start env stream = do {
     let stream = stream\<lparr>resampler_inbuf := None, resampler_outbuf := None\<rparr>;
     r \<leftarrow> player_resampler env stream;
     case r of
       Inl e \<Rightarrow> Some (Inl e)
     | Inr r \<Rightarrow> do {
         let stream = stream\<lparr>resampler := Some r\<rparr>;
         (b, len) \<leftarrow> vban_compute_rx_buffer (floats_of (pe_malloc env)) (int (nframes stream)) (int (nboutputs stream))
           (Some (rxbuf stream)) (rxbuflen stream) 3;
         b \<leftarrow> b;
         rb \<leftarrow> vban_compute_rx_ringbuffer (pe_rb env) (pe_malloc env) (int (nframes stream)) 0 (int (nboutputs stream))
           (int (redundancy stream));
         let stream = stream\<lparr>rxbuf := b, rxbuflen := len, ringbuffer := Some rb\<rparr>;
         calls \<leftarrow> pw_init_rx_stream SPA_F32_LE stream;
         Some (Inr (calls, stream)) } }"



section \<open>Reading a period\<close>

text \<open>
  The interleaved reader changes the samples it reads (it smooths every frame), but with a period in
  the ring it takes exactly that period and stays inside its buffer.
\<close>

lemma interleaved_period_read:
  assumes ok: "reader_ok c" and rb: "ringbuffer c = Some rb" and fill: "4 * (nboutputs c * nframes c) \<le> rb_fill rb"
  shows "\<exists>b rb'. read_from_ringbuffer_async c = Some (c\<lparr>rxbuf := b, ringbuffer := Some rb', lost_pac_cnt := 0\<rparr>) \<and>
    reader_ok (c\<lparr>rxbuf := b, ringbuffer := Some rb', lost_pac_cnt := 0\<rparr>) \<and> length b = length (rxbuf c) \<and>
    rb_abs rb' = drop (4 * (nboutputs c * nframes c)) (rb_abs rb)"
proof -
  let ?nb = "nboutputs c" and ?lag = "lagrange_num c" and ?n = "nframes c" and ?a = "rb_fill rb div (4 * nboutputs c)"
  have wf: "rd_wf ?nb ?lag ?n (rxbuf c)" and rbok: "rb_ok rb" "rb_size rb < 2 ^ 31" using ok rb by (auto simp: reader_ok_def)
  obtain b where b: "tail_to_head ?nb ?lag ?n (rxbuf c) = Some b" "length b = length (rxbuf c)"
    using tail_to_head_ok [OF wf] by blast
  let ?s0 = "\<lparr>rd_buf = b, rd_rb = rb, rd_lframe = 0, rd_lost = 0, rd_llost = 0, rd_out = []\<rparr>"
  have wfb: "rd_wf ?nb ?lag ?n b" using wf b(2) by (simp add: rd_wf_def)
  obtain s where s: "for_loop 0 ?n (\<lambda>_. rd_step (\<lambda>llost. llost < 3) (\<lambda>_ _ outs. Some outs) ?nb ?lag) ?s0 = Some s"
      "length (rd_buf s) = length b" "rb_ok (rd_rb s)" "rb_size (rd_rb s) = rb_size rb"
      "rb_abs (rd_rb s) = drop (4 * ?nb * min ?n ?a) (rb_abs rb)" "rd_lost s = ?n - ?a" "rd_lframe s = min ?n ?a + min 2 (?n - ?a)"
    using interleaved.step_loop [of ?nb ?lag ?n ?s0 "take (4 * (?nb * ?lag)) b @ rb_abs rb" ?a ?n] wfb rbok by auto
  have nb: "0 < ?nb" using wf by (simp add: rd_wf_def)
  have enough: "?n \<le> ?a" using fill nb by (simp add: less_eq_div_iff_mult_less_eq algebra_simps)
  have l: "rd_lframe s = ?n" "rd_lost s = 0" using s(6,7) enough by simp_all
  have "\<not> ?n < ?n div 2" by simp
  then have "read_from_ringbuffer_async c = Some (c\<lparr>rxbuf := rd_buf s, ringbuffer := Some (rd_rb s), lost_pac_cnt := 0\<rparr>)"
    using b(1) s(1) l by (simp add: read_from_ringbuffer_async_def rb Let_def)
  moreover have "rb_abs (rd_rb s) = drop (4 * (?nb * ?n)) (rb_abs rb)" using s(5) enough by (simp add: min_absorb1 mult.assoc)
  moreover have "reader_ok (c\<lparr>rxbuf := rd_buf s, ringbuffer := Some (rd_rb s), lost_pac_cnt := 0\<rparr>)"
    using wfb s(2-4) rbok(2) by (simp add: reader_ok_def rd_wf_def)
  ultimately show ?thesis using s(2) b(2) by auto
qed

lemma pw_on_rx_period:
  assumes ok: "reader_ok c" "nboutputs c \<le> VBAN_CHANNELS_MAX_NB" and rb: "ringbuffer c = Some rb" "4 * (nboutputs c * nframes c) \<le> rb_fill rb"
    and len: "rxbuflen c = int (nboutputs c * (nframes c + 3))" "length (rxbuf c) = 4 * (nboutputs c * (nframes c + 3))"
    and nocor: "\<not> flag_set (flags c) CORRECTION_ON" and b: "pb_data b = Some samples" "pw_frames b (4 * nboutputs c) = int (nframes c)"
  shows "(4 * (nboutputs c * (nframes c + 3)) \<le> length samples \<longrightarrow> (\<exists>c' out. pw_on_rx rb_mem malloc (Some b) c =
        Some (c', Some (out, 4 * nboutputs c * nframes c)) \<and> reader_ok c' \<and>
        take (4 * (nboutputs c * (nframes c + 3))) out = rxbuf c')) \<and>
    (length samples < 4 * (nboutputs c * (nframes c + 3)) \<longrightarrow> pw_on_rx rb_mem malloc (Some b) c = None)"
proof -
  let ?k = "nboutputs c * (nframes c + 3)"
  have nb: "0 < nboutputs c" "nboutputs c \<le> 256" "nframes c < 2 ^ 16" using ok by (auto simp: reader_ok_def rd_wf_def vban_sizes)
  have stride: "c_int (int (nboutputs c) * 4) = Some (int (nboutputs c) * 4)" "nat (int (nboutputs c) * 4) = 4 * nboutputs c"
    using nb by (simp_all add: c_int_def)
  obtain b' rb' where r: "read_from_ringbuffer_async c = Some (c\<lparr>rxbuf := b', ringbuffer := Some rb', lost_pac_cnt := 0\<rparr>)"
      "reader_ok (c\<lparr>rxbuf := b', ringbuffer := Some rb', lost_pac_cnt := 0\<rparr>)" "length b' = 4 * ?k"
    using interleaved_period_read [OF ok(1) rb] len(2) by auto
  have "?k \<le> 256 * 2 ^ 17" using nb by (intro mult_le_mono) auto
  then have size: "umul (to_size (int ?k)) 4 = 4 * ?k" by (simp add: to_size_nat umul_small mult.commute del: of_nat_mult of_nat_add)
  have load: "mem_load b' 0 (4 * ?k) = Some b'" using r(3) by (simp add: mem_load_def)
  have small: "nframes c * (nboutputs c * 4) < 2 ^ 31"
  proof -
    have "nframes c * (nboutputs c * 4) \<le> 2 ^ 16 * (256 * 4)" using nb by (intro mult_le_mono) auto
    then show ?thesis by simp
  qed
  have total: "c_int (int (nframes c) * (int (nboutputs c) * 4)) = Some (int (nframes c * (nboutputs c * 4)))"
    using c_int_mult [OF small] by simp
  have "int (nframes c * (nboutputs c * 4)) mod 2 ^ 32 = int (nframes c * (nboutputs c * 4))"
    using small by (intro mod_pos_pos_trivial) (simp_all del: of_nat_mult)
  then have chunk: "nat (int (nframes c * (nboutputs c * 4)) mod 2 ^ 32) = 4 * nboutputs c * nframes c"
    by (simp only: nat_int) simp
  have run: "pw_on_rx rb_mem malloc (Some b) c = do {
      samples \<leftarrow> mem_store samples 0 b';
      Some (c\<lparr>rxbuf := b', ringbuffer := Some rb', lost_pac_cnt := 0\<rparr>, Some (samples, 4 * nboutputs c * nframes c)) }"
    unfolding pw_on_rx_def stride Option.bind.bind_lunit Let_def
    using nb(1) nocor b rb(1) r(1) size load total chunk len(1) by simp
  show ?thesis
    unfolding run using r(2,3) by (auto simp: mem_store_def blit_0)
qed



section \<open>The period of an emitter\<close>

fun pw_tx_run :: "(nat \<Rightarrow> byte list option) \<Rightarrow> (nat \<Rightarrow> int + cmsg list) \<Rightarrow> pw_buffer option list \<Rightarrow> pw_stream \<Rightarrow> pw_stream option" where
  "pw_tx_run alloc answers [] d = Some d"
| "pw_tx_run alloc answers (b # bs) d = do { (d, _) \<leftarrow> pw_on_tx alloc answers b d; pw_tx_run alloc answers bs d }"

text \<open>The number of frames in a buffer that carries samples.\<close>

definition carries :: "pw_stream \<Rightarrow> nat \<Rightarrow> pw_buffer option \<Rightarrow> bool" where
  "carries d n buf \<longleftrightarrow> (case buf of None \<Rightarrow> True | Some b \<Rightarrow>
     pb_data b = None \<or> pw_chunk_frames (vban_output_format (t_ctx (pw_tx d))) (raw_channels d) b = Some n)"

lemma pw_on_tx_lost:
  assumes "tx_life d = Gone \<or> tx_life d = Lent" and "pw_on_tx alloc answers buf d = Some (d', q)"
  shows "carries d (nframes (t_ctx (pw_tx d))) buf \<and> (tx_life d' = Gone \<or> tx_life d' = Lent) \<and> raw_channels d' = raw_channels d \<and>
    same_stream (t_ctx (pw_tx d)) (t_ctx (pw_tx d'))"
proof (cases "\<exists>b samples. buf = Some b \<and> pb_data b = Some samples")
  case True
  then obtain b samples where b: "buf = Some b" "pb_data b = Some samples" by blast
  obtain n l c s r where run: "pw_chunk_frames (vban_output_format (t_ctx (pw_tx d))) (raw_channels d) b = Some n"
      "(if n \<noteq> nframes (t_ctx (pw_tx d)) then pw_tune alloc (tx_life d, (t_ctx (pw_tx d))\<lparr>nframes := to_u16 (int n)\<rparr>)
        else Some (tx_life d, t_ctx (pw_tx d))) = Some (l, c)"
      "vban_send_txbuffer answers 0 2 ((pw_tx d)\<lparr>t_ctx := c\<lparr>txbuf := Some samples\<rparr>\<rparr>) = Some (s, r)"
      "d' = d\<lparr>tx_life := Lent, pw_tx := s\<rparr>"
    using assms(2) b by (fastforce simp: pw_on_tx_def Let_def bind_eq_Some_conv)
  have n: "n = nframes (t_ctx (pw_tx d))" using run(2) assms(1) by (auto simp: pw_tune_def free_ptr_def split: if_splits)
  then have "c = t_ctx (pw_tx d)" using run(2) by simp
  then have "same_stream (t_ctx (pw_tx d)) (t_ctx s)" using send_txbuffer_same [OF run(3)] by (simp add: same_stream_def)
  then show ?thesis using run(1,4) n b by (simp add: carries_def)
next
  case False
  then have "d' = d" using assms(2) by (cases buf) (auto simp: pw_on_tx_def split: option.splits)
  then show ?thesis using False assms(1) by (auto simp: carries_def same_stream_def split: option.splits)
qed

lemma pw_run_lost:
  assumes "tx_life d = Gone \<or> tx_life d = Lent" and "pw_tx_run alloc answers bufs d = Some d'"
  shows "\<forall>b \<in> set bufs. carries d (nframes (t_ctx (pw_tx d))) b"
  using assms
proof (induction bufs arbitrary: d)
  case (Cons b bufs)
  obtain d1 q where d1: "pw_on_tx alloc answers b d = Some (d1, q)" "pw_tx_run alloc answers bufs d1 = Some d'"
    using Cons.prems(2) by (auto simp: bind_eq_Some_conv)
  have k: "carries d (nframes (t_ctx (pw_tx d))) b" "tx_life d1 = Gone \<or> tx_life d1 = Lent" "raw_channels d1 = raw_channels d"
    "same_stream (t_ctx (pw_tx d)) (t_ctx (pw_tx d1))"
    using pw_on_tx_lost [OF Cons.prems(1) d1(1)] by blast+
  have "carries d1 = carries d" using k(3,4) by (intro ext) (simp add: carries_def same_stream_def split: option.split)
  then show ?case using Cons.IH [OF k(2) d1(2)] k(1,4) by (simp add: same_stream_def)
qed simp

lemma pw_init_tx_ok:
  assumes nf: "nframes (t_ctx (pw_tx d)) = 2 ^ j" and sz: "bit_size (vban_output_format (t_ctx (pw_tx d))) = Some sz"
    and fs: "0 < nbinputs (t_ctx (pw_tx d)) * sz" "nbinputs (t_ctx (pw_tx d)) * sz \<le> VBAN_DATA_MAX_SIZE"
      "2 ^ j * (nbinputs (t_ctx (pw_tx d)) * sz) < 2 ^ 16"
    and al: "\<And>n. \<exists>b. alloc n = Some b \<and> length b = n" and sr: "0 < samplerate (t_ctx (pw_tx d))" "samplerate (t_ctx (pw_tx d)) < 10 ^ 9"
    and live: "tx_life d = Null"
  shows "\<exists>d1. pw_init_tx_stream alloc fmt d = Some d1 \<and> tx_life d1 = Gone \<and> raw_channels d1 = raw_channels d \<and>
    tuned (2 ^ j) (nbinputs (t_ctx (pw_tx d)) * sz) (t_ctx (pw_tx d1)) \<and>
    tune_tx_packets alloc (t_ctx (pw_tx d)) = Some (t_ctx (pw_tx d1)) \<and> t_io (pw_tx d1) = t_io (pw_tx d)"
proof -
  let ?c = "t_ctx (pw_tx d)"
  have "nframes ?c * 1 \<le> nframes ?c * (nbinputs ?c * sz)" using fs(1) by (intro mult_le_mono2) simp
  then have "nframes ?c < 2 ^ 16" using fs(3) unfolding nf [symmetric] by linarith
  then have "nframes ?c < 10 ^ 5" by simp
  then have "length (dec_nat (nframes ?c)) \<le> 5" by (intro length_dec_nat) auto
  moreover have "length (dec_nat (nat (samplerate ?c))) \<le> 9" using sr by (intro length_dec_nat) auto
  ultimately have lat: "\<exists>x. pw_latency ?c = Some x"
    using sr(1) by (auto simp: pw_latency_def put_string_def dec_int_def mem_store_def bytes_of_def)
  obtain c' where c': "tune_tx_packets alloc ?c = Some c'" "tuned (2 ^ j) (nbinputs ?c * sz) c'"
    using tune_ok [of ?c j sz "nbinputs ?c * sz" alloc] nf sz fs al sr by auto
  show ?thesis using lat c' live by (auto simp: pw_init_tx_stream_def pw_tune_def free_ptr_def Let_def)
qed



text \<open>The end frees every block it has, so a second end can only meet null pointers.\<close>

lemma free_blocks_all:
  assumes "distinct bs"
  shows "free_blocks bs m = (if \<forall>b \<in> set bs. m b = Null \<or> m b = Owned
    then Some (\<lambda>b. if b \<in> set bs \<and> m b = Owned then Gone else m b) else None)"
  using assms
proof (induction bs arbitrary: m)
  case (Cons a bs)
  then show ?case by (cases "m a") (auto simp: free_ptr_def fun_eq_iff)
qed simp

lemma every_block: "set [Rxsock, Txsock, Ring, Resampler_in, Resampler_out, Txbuf, Rxbuf] = UNIV"
  by (auto intro: block.exhaust)

lemma end_defined:
  "pw_run_thread_handler (f, m) = (if \<forall>b. m b = Null \<or> m b = Owned
    then Some (f AND NOT RECEIVING, \<lambda>b. if m b = Owned then Gone else m b) else None)"
  unfolding pw_run_thread_handler_def prod.case
  by (subst free_blocks_all) (simp, simp only: every_block, simp)

lemma pw_sends:
  assumes "c = t_ctx (pw_tx d)" and "nframes c = 2 ^ j" and "bit_size (vban_output_format c) = Some sz"
    and "0 < nbinputs c * sz" and "nbinputs c * sz \<le> VBAN_DATA_MAX_SIZE" and "2 ^ j * (nbinputs c * sz) < 2 ^ 16" and "nbinputs c < 2 ^ 16"
    and "\<And>n. \<exists>b. alloc n = Some b \<and> length b = n" and "0 < samplerate c" and "samplerate c < 10 ^ 9" and "tx_life d = Null"
    and "packet_ok (txpacket c)" and "txport c \<noteq> 0" and "redundancy c < 255" and "xlen c \<noteq> 6 \<or> iptx c \<noteq> 0x0100007F"
    and "pb_data b = Some samples" and "length samples = 2 ^ j * (nbinputs c * sz)" and "chunk_size b = length samples"
    and "per_copy answers k e"
  shows "\<exists>d1 d2 c1. pw_init_tx_stream alloc fmt d = Some d1 \<and> c1 = t_ctx (pw_tx d1) \<and>
    pw_on_tx alloc answers (Some b) (on_stream_param_changed (Raw_audio rate (nbinputs c)) d1) = Some (d2, True) \<and>
    t_io (pw_tx d2) = t_io (pw_tx d) @ concat (map (\<lambda>i. replicate ((redundancy c + 1) * k)
      (nth_datagram c1 samples (\<lambda>i. i * pacdatalen c1) 0 i)) [0..<pacnum c1]) \<and>
    concat (map (\<lambda>i. take (pacdatalen c1) (drop (i * pacdatalen c1) samples)) [0..<pacnum c1]) = samples"
proof -
  obtain d1 where d1: "pw_init_tx_stream alloc fmt d = Some d1" "tx_life d1 = Gone" "raw_channels d1 = raw_channels d"
      "tuned (2 ^ j) (nbinputs c * sz) (t_ctx (pw_tx d1))" "tune_tx_packets alloc c = Some (t_ctx (pw_tx d1))" "t_io (pw_tx d1) = t_io (pw_tx d)"
    using pw_init_tx_ok [of d j sz alloc fmt] assms(2-6,8-11) unfolding assms(1) by blast
  let ?c1 = "t_ctx (pw_tx d1)" and ?d1 = "on_stream_param_changed (Raw_audio rate (nbinputs c)) d1"
  note kp = tune_keeps [OF d1(5)]
  obtain m i where cut: "2 ^ j = (2 :: nat) ^ m" "i \<le> m" "pacnum ?c1 = 2 ^ i" "pacdatalen ?c1 = 2 ^ (m - i) * (nbinputs c * sz)"
      "pacdatalen ?c1 \<le> VBAN_DATA_MAX_SIZE"
    using d1(4) unfolding tuned_def by blast
  have total: "pacnum ?c1 * pacdatalen ?c1 = 2 ^ j * (nbinputs c * sz)"
    using cut(2) by (simp add: cut(1,3,4) mult.assoc [symmetric] power_add [symmetric] del: power_inject_exp)
  have sz: "0 < sz" "0 < nbinputs c" using assms(4) by simp_all
  have q: "2 ^ j * (nbinputs c * sz) div sz = 2 ^ j * nbinputs c" using sz by (simp add: mult.assoc [symmetric])
  have "2 ^ j * nbinputs c * 1 \<le> 2 ^ j * nbinputs c * sz" using sz by (intro mult_le_mono2) simp
  then have "2 ^ j * nbinputs c < 2 ^ 16" using assms(6) unfolding mult.assoc by linarith
  then have "to_u16 (int (2 ^ j * nbinputs c)) = 2 ^ j * nbinputs c" by (rule to_u16_nat)
  moreover have "to_u16 (int (nbinputs c)) = nbinputs c" using assms(7) by (rule to_u16_nat)
  ultimately have frames: "pw_chunk_frames (vban_output_format c) (nbinputs c) b = Some (2 ^ j)"
    using sz assms(17,18) by (simp add: pw_chunk_frames_def udiv_def assms(3) q del: of_nat_mult of_nat_power)
  let ?s = "(pw_tx d1)\<lparr>t_ctx := ?c1\<lparr>txbuf := Some samples\<rparr>\<rparr>"
  have "packet_ok (txpacket ?c1)"
    using assms(12) kp by (simp add: packet_ok_def header_ok_def) (metis vban_header.select_convs vban_header.surjective vban_header.update_convs)
  then have so: "sender_ok (t_ctx ?s)" using assms(13,14) cut(5) kp by (simp add: sender_ok_def)
  obtain s' where s': "vban_send_txbuffer answers 0 2 ?s = Some (s', e)"
      "t_io s' = t_io ?s @ concat (map (\<lambda>i. replicate ((redundancy (t_ctx ?s) + 1) * k)
        (nth_datagram (t_ctx ?s) samples (\<lambda>i. i * pacdatalen (t_ctx ?s)) 0 i)) [0..<pacnum (t_ctx ?s)])"
      "concat (map (\<lambda>i. take (pacdatalen (t_ctx ?s)) (drop (i * pacdatalen (t_ctx ?s)) samples)) [0..<pacnum (t_ctx ?s)]) = samples"
    using send_whole [OF so, of samples answers k e 0] assms(6,15,17,19) kp total cut(3) by auto
  have "nth_datagram (t_ctx ?s) samples f 0 i = nth_datagram ?c1 samples f 0 i" for f i by (simp add: nth_datagram_def)
  moreover have "pw_on_tx alloc answers (Some b) ?d1 = Some (?d1\<lparr>tx_life := Lent, pw_tx := s'\<rparr>, True)"
    using assms(2,16) frames kp s'(1) by (simp add: pw_on_tx_def on_stream_param_changed_def Let_def)
  ultimately show ?thesis using d1(1,6) s'(2,3) kp
    by (intro exI [of _ d1] exI [of _ "?d1\<lparr>tx_life := Lent, pw_tx := s'\<rparr>"] exI [of _ ?c1]) simp
qed


section \<open>Properties\<close>

text \<open>
  C29: A period is for ever. The emitter frees the buffer that is tuned to its period but keeps the
  pointer, and then lends it the memory of PipeWire: every further change of the period frees memory
  that is gone or not its own. Whatever the network answers, a run of the callback that is defined has
  seen only buffers with the number of frames the stream was started with.
\<close>

theorem pw_period_is_fixed:
  assumes "pw_init_tx_stream alloc fmt d = Some d1" and "pw_tx_run alloc answers bufs (on_stream_param_changed p d1) = Some d2"
    and "buf \<in> set bufs"
  shows "carries (on_stream_param_changed p d1) (nframes (t_ctx (pw_tx d))) buf"
proof -
  have d1: "tx_life d1 = Gone" "nframes (t_ctx (pw_tx d1)) = nframes (t_ctx (pw_tx d))"
    using assms(1) tune_keeps by (auto simp: pw_init_tx_stream_def pw_tune_def free_ptr_def bind_eq_Some_conv Let_def)
  have "tx_life (on_stream_param_changed p d1) = tx_life d1" "pw_tx (on_stream_param_changed p d1) = pw_tx d1"
    by (simp_all add: on_stream_param_changed_def split: spa_param.split)
  then show ?thesis using pw_run_lost [OF _ assms(2)] d1 assms(3) by auto
qed

definition example_pw :: pw_stream where
  "example_pw = \<lparr>raw_channels = 0, tx_life = Null,
     pw_tx = \<lparr>t_ctx = zero_context\<lparr>nframes := 2, nbinputs := 2, vban_output_format := 4, txport := 6980, samplerate := 48000\<rparr>,
       t_io = [], t_chk = 0\<rparr>, pw_calls = []\<rparr>"

definition example_pw_buffer :: pw_buffer where
  "example_pw_buffer = \<lparr>pb_data = Some [1, 2, 3, 4, 5, 6, 7, 8, 9, 10, 11, 12, 13, 14, 15, 16], chunk_size = 16, maxsize = 16, requested = 0\<rparr>"

lemma example_pw_sends:
  "\<exists>d1 d2. pw_init_tx_stream alloc_zeros SPA_F32_LE example_pw = Some d1 \<and>
    pw_tx_run alloc_zeros (\<lambda>_. Inr []) [Some example_pw_buffer] (on_stream_param_changed (Raw_audio 48000 2) d1) = Some d2"
  using pw_sends [OF refl, of example_pw 1 4 alloc_zeros example_pw_buffer "the (pb_data example_pw_buffer)" "\<lambda>_. Inr []" 1 0
      SPA_F32_LE 48000]
  by (auto simp: example_pw_def example_pw_buffer_def zero_context_def vban_sizes per_copy_def quiet_def check_send_status_def
      ECONNREFUSED_def alloc_zeros_def)

theorem pw_period_is_fixed_witness:
  "\<exists>d1 d2. pw_init_tx_stream alloc_zeros SPA_F32_LE example_pw = Some d1 \<and>
    pw_tx_run alloc_zeros (\<lambda>_. Inr []) [Some example_pw_buffer] (on_stream_param_changed (Raw_audio 48000 2) d1) = Some d2 \<and>
    carries (on_stream_param_changed (Raw_audio 48000 2) d1) (nframes (t_ctx (pw_tx example_pw))) (Some example_pw_buffer)"
proof -
  obtain d1 d2 where d: "pw_init_tx_stream alloc_zeros SPA_F32_LE example_pw = Some d1"
    "pw_tx_run alloc_zeros (\<lambda>_. Inr []) [Some example_pw_buffer] (on_stream_param_changed (Raw_audio 48000 2) d1) = Some d2"
    using example_pw_sends by blast
  have "carries (on_stream_param_changed (Raw_audio 48000 2) d1) (nframes (t_ctx (pw_tx example_pw))) (Some example_pw_buffer)"
    by (rule pw_period_is_fixed [OF d]) simp
  then show ?thesis using d by blast
qed

text \<open>
  A period leaves. After the start, a buffer of PipeWire with a period of the stream's channels is
  sent completely, packet by packet with consecutive numbers and in all its copies, straight from
  PipeWire's memory, and given back.
\<close>

theorem pw_sends_period:
  assumes "c = t_ctx (pw_tx d)" and "nframes c = 2 ^ j" and "bit_size (vban_output_format c) = Some sz"
    and "0 < nbinputs c * sz" and "nbinputs c * sz \<le> VBAN_DATA_MAX_SIZE" and "2 ^ j * (nbinputs c * sz) < 2 ^ 16" and "nbinputs c < 2 ^ 16"
    and "\<And>n. \<exists>b. alloc n = Some b \<and> length b = n" and "0 < samplerate c" and "samplerate c < 10 ^ 9" and "tx_life d = Null"
    and "packet_ok (txpacket c)" and "txport c \<noteq> 0" and "redundancy c < 255" and "xlen c \<noteq> 6 \<or> iptx c \<noteq> 0x0100007F"
    and "pb_data b = Some samples" and "length samples = 2 ^ j * (nbinputs c * sz)" and "chunk_size b = length samples"
    and "per_copy answers k e"
  shows "\<exists>d1 d2 c1. pw_init_tx_stream alloc fmt d = Some d1 \<and> c1 = t_ctx (pw_tx d1) \<and>
    pw_on_tx alloc answers (Some b) (on_stream_param_changed (Raw_audio rate (nbinputs c)) d1) = Some (d2, True) \<and>
    t_io (pw_tx d2) = t_io (pw_tx d) @ concat (map (\<lambda>i. replicate ((redundancy c + 1) * k)
      (nth_datagram c1 samples (\<lambda>i. i * pacdatalen c1) 0 i)) [0..<pacnum c1]) \<and>
    concat (map (\<lambda>i. take (pacdatalen c1) (drop (i * pacdatalen c1) samples)) [0..<pacnum c1]) = samples"
  using assms by (rule pw_sends)

theorem pw_sends_period_witness:
  "let c = t_ctx (pw_tx example_pw); samples = the (pb_data example_pw_buffer) in
   \<exists>d1 d2 c1. pw_init_tx_stream alloc_zeros SPA_F32_LE example_pw = Some d1 \<and> c1 = t_ctx (pw_tx d1) \<and>
    pw_on_tx alloc_zeros (\<lambda>_. Inr []) (Some example_pw_buffer) (on_stream_param_changed (Raw_audio 48000 (nbinputs c)) d1) = Some (d2, True) \<and>
    t_io (pw_tx d2) = t_io (pw_tx example_pw) @ concat (map (\<lambda>i. replicate ((redundancy c + 1) * 1)
      (nth_datagram c1 samples (\<lambda>i. i * pacdatalen c1) 0 i)) [0..<pacnum c1]) \<and>
    concat (map (\<lambda>i. take (pacdatalen c1) (drop (i * pacdatalen c1) samples)) [0..<pacnum c1]) = samples"
  unfolding Let_def
  by (rule pw_sends_period [OF refl, where j = 1 and sz = 4 and e = 0])
    (simp_all add: example_pw_def example_pw_buffer_def zero_context_def vban_sizes per_copy_def quiet_def check_send_status_def
      ECONNREFUSED_def alloc_zeros_def)

text \<open>
  A stopped stream is freed twice. The end of the PipeWire thread is defined exactly when no
  pointer is left to a block that is gone or lent (so not for an emitter, whose \<open>txbuf\<close> is one of
  these from its start on); \<open>pw_stop_stream\<close>, which frees the blocks before it lets the thread do the
  same, is defined only for a stream that has no memory at all.
\<close>

theorem pw_stop_frees_twice:
  "(pw_run_thread_handler (f, m) \<noteq> None \<longleftrightarrow> range m \<subseteq> {Null, Owned}) \<and> (pw_stop_stream (f, m) \<noteq> None \<longleftrightarrow> range m \<subseteq> {Null})"
proof -
  have "pw_stop_stream (f, m) = (if \<forall>b. m b = Null \<or> m b = Owned
      then pw_run_thread_handler (f AND NOT RECEIVING, \<lambda>b. if m b = Owned then Gone else m b) else None)"
    unfolding pw_stop_stream_def prod.case by (subst free_blocks_all) (simp, simp only: every_block, auto)
  moreover have "(if m b = Owned then Gone else m b) = Null \<or> (if m b = Owned then Gone else m b) = Owned \<longleftrightarrow> m b = Null" for b
    by auto
  ultimately have "pw_stop_stream (f, m) \<noteq> None \<longleftrightarrow> (\<forall>b. m b = Null)" by (simp add: end_defined)
  moreover have "pw_run_thread_handler (f, m) \<noteq> None \<longleftrightarrow> (\<forall>b. m b = Null \<or> m b = Owned)" by (simp add: end_defined)
  ultimately show ?thesis by blast
qed

text \<open>
  The player writes three frames too many. With a period in the ring and the buffers of its
  period, the callback is defined exactly when PipeWire's memory has room for \<open>lagrange_num\<close> frames
  more than the period it announces; in a buffer that is the period long, which is what PipeWire is
  asked for when it does not request less, it writes behind the end.
\<close>

theorem pw_playback_overruns:
  assumes "reader_ok c" and "nboutputs c \<le> VBAN_CHANNELS_MAX_NB" and "ringbuffer c = Some rb"
    and "4 * (nboutputs c * nframes c) \<le> rb_fill rb" and "rxbuflen c = int (nboutputs c * (nframes c + 3))"
    and "length (rxbuf c) = 4 * (nboutputs c * (nframes c + 3))" and "\<not> flag_set (flags c) CORRECTION_ON"
    and "pb_data b = Some samples" and "pw_frames b (4 * nboutputs c) = int (nframes c)"
  shows "(pw_on_rx rb_mem malloc (Some b) c \<noteq> None \<longleftrightarrow> 4 * (nboutputs c * (nframes c + 3)) \<le> length samples) \<and>
    (maxsize b = length samples \<and> requested b = 0 \<and> length samples < 2 ^ 31 \<longrightarrow> pw_on_rx rb_mem malloc (Some b) c = None)"
proof -
  note two = pw_on_rx_period [OF assms(1-9), of rb_mem malloc]
  have "length samples < 4 * (nboutputs c * (nframes c + 3))"
    if m: "maxsize b = length samples" "requested b = 0" "length samples < 2 ^ 31"
  proof -
    have nb: "0 < nboutputs c" using assms(1) by (auto simp: reader_ok_def rd_wf_def)
    have "length samples div (4 * nboutputs c) < 2 ^ 31" by (rule le_less_trans [OF div_le_dividend m(3)])
    then have small: "int (length samples div (4 * nboutputs c)) < 2 ^ 31" by (simp del: of_nat_div)
    have "to_i32 (int (length samples div (4 * nboutputs c))) = int (length samples div (4 * nboutputs c))"
      using small by (intro to_i32_small) (simp_all del: of_nat_div)
    then have "length samples div (4 * nboutputs c) = nframes c" using assms(9) m(1,2) by (simp add: pw_frames_def del: of_nat_div)
    then have "length samples < 4 * nboutputs c * (nframes c + 1)"
      using dividend_less_div_times [of "4 * nboutputs c" "length samples"] nb by (simp add: algebra_simps)
    then show ?thesis by (simp add: algebra_simps)
  qed
  then show ?thesis using two by fastforce
qed

definition example_pw_player :: stream_context where
  "example_pw_player = zero_context\<lparr>nboutputs := 1, nframes := 4, lagrange_num := 3, rxbuf := replicate 28 9, rxbuflen := 7,
     ringbuffer := Some \<lparr>rb_buf = replicate 32 7, write_ptr = 16, read_ptr = 0, rb_size = 32, mlocked = 0\<rparr>\<rparr>"

theorem pw_playback_overruns_witness:
  "let c = example_pw_player; b = example_pw_buffer in
   (pw_on_rx True (\<lambda>_. None) (Some b) c \<noteq> None \<longleftrightarrow> 4 * (nboutputs c * (nframes c + 3)) \<le> length (the (pb_data b))) \<and>
    (maxsize b = length (the (pb_data b)) \<and> requested b = 0 \<and> length (the (pb_data b)) < 2 ^ 31 \<longrightarrow>
      pw_on_rx True (\<lambda>_. None) (Some b) c = None)"
  unfolding Let_def
  by (rule pw_playback_overruns [where rb = "\<lparr>rb_buf = replicate 32 7, write_ptr = 16, read_ptr = 0, rb_size = 32, mlocked = 0\<rparr>"])
    (simp_all add: example_pw_player_def example_pw_buffer_def zero_context_def vban_sizes flag_set_def rb_ok_def rb_fill_def reader_ok_def
      rd_wf_def pw_frames_def to_i32_def)

text \<open>
  The receptor on PipeWire has no duplex mode. The option that asks for it runs into the help text,
  which ends the program: whenever the options are accepted, \<open>-b\<close> is not among them and the flag is
  as it was.
\<close>

theorem pw_receptor_no_duplex:
  assumes "pw_receptor_options env os stream = Some (Inr s)"
  shows "CHR ''b'' \<notin> fst ` set os \<and> (flag_set (flags s) DUPLEX \<longleftrightarrow> flag_set (flags stream) DUPLEX)"
proof -
  have apart: "\<not> flag_set DEVICE_MODE DUPLEX" "\<not> flag_set MULTISTREAM DUPLEX" "\<not> flag_set CORRECTION_ON DUPLEX" "\<not> flag_set AUTOCONNECT DUPLEX"
    "flag_set (f AND NOT DEVICE_MODE) DUPLEX = flag_set f DUPLEX" "flag_set (f AND NOT MULTISTREAM) DUPLEX = flag_set f DUPLEX"
    "flag_set (f AND NOT CORRECTION_ON) DUPLEX = flag_set f DUPLEX" for f
    by (simp_all add: flag_set_def flag_defs) (simp_all add: and.assoc)
  have step: "c \<noteq> CHR ''b'' \<and> (flag_set (flags s2) DUPLEX \<longleftrightarrow> flag_set (flags s1) DUPLEX)"
    if "pw_receptor_option env c a s1 = Some (Inr s2)" for c a s1 s2
  proof (cases "c \<in> set ''dajf''")
    case True
    then show ?thesis
      using that by (auto simp: pw_receptor_option_def pw_device_option_def receptor_option_def bind_eq_Some_conv apart
        split: if_splits sum.split_asm)
  next
    case False
    have usage: "receptor_option env (CHR ''h'') a x = Some (Inl ())" for x by (simp add: receptor_option_def)
    have b: "c \<noteq> CHR ''b''"
    proof
      assume "c = CHR ''b''"
      then show False
        using that by (cases "receptor_option env c a s1") (auto simp: pw_receptor_option_def usage split: sum.split_asm)
    qed
    then have "receptor_option env c a s1 = Some (Inr s2)" using False that by (simp add: pw_receptor_option_def)
    then show ?thesis
      using False b by (auto simp: receptor_option_def bind_eq_Some_conv apart split: if_splits)
  qed
  have "CHR ''b'' \<notin> fst ` set os \<and> (flag_set (flags s) DUPLEX \<longleftrightarrow> flag_set (flags stream) DUPLEX)"
    if "option_loop (pw_receptor_option env) os stream = Some (Inr s)" for stream
    using that
  proof (induction os arbitrary: stream)
    case (Cons o1 os)
    obtain c a where o1: "o1 = (c, a)" by (cases o1)
    then obtain r where r: "pw_receptor_option env c a stream = Some r"
        "(case r of Inl _ \<Rightarrow> Some (Inl ()) | Inr s1 \<Rightarrow> option_loop (pw_receptor_option env) os s1) = Some (Inr s)"
      using Cons.prems by (auto simp: bind_eq_Some_conv)
    then obtain s1 where s1: "pw_receptor_option env c a stream = Some (Inr s1)" "option_loop (pw_receptor_option env) os s1 = Some (Inr s)"
      by (cases r) auto
    show ?case using Cons.IH [OF s1(2)] step [OF s1(1)] o1 by auto
  qed simp
  then show ?thesis using assms by (simp add: pw_receptor_options_def split: if_splits)
qed

theorem pw_receptor_no_duplex_witness:
  "let env = \<lparr>oe_addr = \<lambda>_. 0, oe_scan = \<lambda>_. (0, None, None), oe_pton = \<lambda>_. None, oe_malloc = \<lambda>_. True\<rparr>;
       os = [(CHR ''d'', bytes_of ''y''), (CHR ''m'', bytes_of ''1'')]; s = receptor_defaults\<lparr>flags := (CORRECTION_ON OR DEVICE_MODE) OR MULTISTREAM\<rparr> in
   pw_receptor_options env os receptor_defaults = Some (Inr s) \<and>
   CHR ''b'' \<notin> fst ` set os \<and> (flag_set (flags s) DUPLEX \<longleftrightarrow> flag_set (flags receptor_defaults) DUPLEX)"
proof -
  let ?env = "\<lparr>oe_addr = \<lambda>_. 0, oe_scan = \<lambda>_. (0, None, None), oe_pton = \<lambda>_. None, oe_malloc = \<lambda>_. True\<rparr> :: option_env"
  have run: "pw_receptor_options ?env [(CHR ''d'', bytes_of ''y''), (CHR ''m'', bytes_of ''1'')] receptor_defaults =
      Some (Inr (receptor_defaults\<lparr>flags := (CORRECTION_ON OR DEVICE_MODE) OR MULTISTREAM\<rparr>))"
    by (simp add: pw_receptor_options_def pw_receptor_option_def pw_device_option_def receptor_option_def receptor_defaults_def
        says_yes_def opt0_def bytes_of_def)
  then show ?thesis using run pw_receptor_no_duplex [OF run] by (simp only: Let_def simp_thms)
qed

end
