(* ===== verification/Receptor_Start.thy ===== *)
theory Receptor_Start
  imports Multistream_Run Options
begin

text \<open>
  The start of the JACK receptor up to its two branches (\<open>vban_receptor_jack/main.cpp\<close>): the options, the
  socket or the pipe, the flags, and what the multistream branch sets up before its loop. The last part
  joins the command line to the runs of the packet loop.
\<close>

section \<open>The start\<close>

text \<open>What the system answers: the functions behind the options, the socket and \<open>open\<close>.\<close>

record receptor_env =
  re_options :: option_env
  re_socket :: init_answers
  re_open :: int

text \<open>The source of the packets; \<^term>\<open>Inl ()\<close> when there is no socket, which ends the program.\<close>

definition open_socket :: "receptor_env \<Rightarrow> stream_context \<Rightarrow> udpc option \<times> io list" where
  "open_socket env stream = udp_init (\<lambda>a. oe_addr (re_options env) (bytes_of a)) (re_socket env) (rxport stream) 0
     (Some ''0.0.0.0'') None 0 6 1"

definition open_pipe :: "receptor_env \<Rightarrow> stream_context \<Rightarrow> stream_context" where
  "open_pipe env stream =
     stream\<lparr>stream_pipedesc := (if cstr (stream_pipename stream) = bytes_of ''stdin'' then 0 else re_open env)\<rparr>"

definition receptor_open :: "receptor_env \<Rightarrow> stream_context \<Rightarrow> (unit + stream_context \<times> io list) option" where
  "receptor_open env stream =
     (if rxport stream \<noteq> 0 then
        case open_socket env stream of
          (None, _) \<Rightarrow> Some (Inl ())
        | (Some k, tr) \<Rightarrow> Some (Inr (stream\<lparr>rxsock := k\<rparr>, tr @ [Setsockopt (fd k) ''SO_TIMESTAMPING'']))
      else Some (Inr (open_pipe env stream, [])))"

text \<open>
  From the command line to the branches: the stream, the maximum of clients and the calls. In
  multistream mode the number of channels is the maximum, kept in eight bits, and is cleared.
\<close>

definition receptor_prepare :: "receptor_env \<Rightarrow> (char \<times> byte list) list \<Rightarrow> (unit + stream_context \<times> nat \<times> io list) option" where
  "receptor_prepare env os = do {
     r \<leftarrow> get_receptor_options (re_options env) os receptor_defaults;
     case r of
       Inl e \<Rightarrow> Some (Inl e)
     | Inr stream \<Rightarrow> do {
         stream \<leftarrow> vban_fill_receptor_info stream;
         let (stream, clients_max) = (if flag_set (flags stream) MULTISTREAM
           then (stream\<lparr>nboutputs := 0\<rparr>, to_u8 (int (nboutputs stream))) else (stream, 1));
         r \<leftarrow> receptor_open env stream;
         case r of
           Inl e \<Rightarrow> Some (Inl e)
         | Inr (stream, tr) \<Rightarrow> Some (Inr (stream\<lparr>flags := flags stream OR RECEIVING\<rparr>, clients_max, tr)) } }"

text \<open>
  The multistream branch before its loop. The variables \<open>ip_in\<close> and \<open>port_in\<close> have no first value:
  they are arguments here.
\<close>

definition ms_start :: "byte list \<Rightarrow> u32 \<Rightarrow> u16 \<Rightarrow> stream_context \<Rightarrow> nat \<Rightarrow> ms option" where
  "ms_start argv0 ip_in port_in stream clients_max = do {
     cmd \<leftarrow> child_command argv0 stream;
     Some \<lparr>ms_heap = Map.empty, ms_clients = None, ms_num = 0, ms_max = clients_max, ms_stream = stream,
       ms_packet = zero_packet, ms_ip = ip_in, ms_port = port_in, ms_cmd = cmd\<rparr> }"

text \<open>The branch the program takes: its one stream, or the state in which the packet loop begins.\<close>

definition receptor_branch :: "receptor_env \<Rightarrow> byte list \<Rightarrow> u32 \<Rightarrow> u16 \<Rightarrow> (char \<times> byte list) list \<Rightarrow>
    (unit + stream_context + ms) option" where
  "receptor_branch env argv0 ip_in port_in os = do {
     r \<leftarrow> receptor_prepare env os;
     case r of
       Inl e \<Rightarrow> Some (Inl e)
     | Inr (stream, clients_max, _) \<Rightarrow>
         if flag_set (flags stream) MULTISTREAM
         then map_option (\<lambda>m. Inr (Inr m)) (ms_start argv0 ip_in port_in stream clients_max)
         else Some (Inr (Inl stream)) }"


section \<open>The state after the start\<close>

lemma empty_list: "list_repr Map.empty None []"
  unfolding list_repr_def by (intro exI [of _ "[]"]) simp

lemma receiving_self [simp]: "flag_set RECEIVING RECEIVING"
  by (simp add: flag_set_def RECEIVING_def)

text \<open>A started multistream branch has no clients and the invariant of the loop.\<close>

lemma empty_ms_ok:
  assumes "stream_fine stream" and "holds CMDLEN_MAX t cmd" and "m < 256"
  shows "ms_ok \<lparr>ms_heap = Map.empty, ms_clients = None, ms_num = 0, ms_max = m, ms_stream = stream,
       ms_packet = zero_packet, ms_ip = ip, ms_port = port, ms_cmd = cmd\<rparr> []"
  using assms empty_list by (simp add: ms_ok_def clients_fine_def holds_def)

lemma options_fields:
  assumes "get_receptor_options env os receptor_defaults = Some (Inr s)"
  shows "fields_ok s"
  using receptor_table.run_options [OF defaults_fields(2), of os env] assms
  by (simp add: get_receptor_options_def split: if_splits)

lemma start_multistream:
  assumes "get_receptor_options (re_options env) os receptor_defaults = Some (Inr s)"
    and "flag_set (flags s) MULTISTREAM" and "rxport s \<noteq> 0" and "0 \<in> set (rx_streamname s)"
    and "\<bar>samplerate s\<bar> < 2 ^ 31" and "vban_output_format s < 2 ^ 8"
    and "open_socket env s = (Some k, tr)" and "0 \<notin> set argv0" and "length argv0 \<le> 500" and "good_alloc alloc"
  shows "\<exists>m. receptor_branch env argv0 ip port os = Some (Inr (Inr m)) \<and> ms_receptor alloc m [] \<and> ms_max m = nboutputs s mod 256 \<and>
    nboutputs (ms_stream m) = 0"
proof -
  have f: "fields_ok s" by (rule options_fields [OF assms(1)])
  have fine: "stream_fine s" using f assms(4-6) by (simp add: stream_fine_def fields_ok_def)
  obtain c where c: "vban_fill_receptor_info s = Some c" "c = s\<lparr>info := info c\<rparr>"
    using fill_info_short [OF fine] by blast
  obtain i where i: "c = s\<lparr>info := i\<rparr>" using c(2) by blast
  let ?st = "s\<lparr>info := i, nboutputs := 0, rxsock := k, flags := flags s OR RECEIVING\<rparr>"
  have small: "nframes ?st < 2 ^ 16" "redundancy ?st < 2 ^ 8" using f by (simp_all add: fields_ok_def)
  obtain b where b: "child_command argv0 ?st = Some b" "holds CMDLEN_MAX (argv0 @ options_text (child_options ?st)) b"
    using child_command_text [OF assms(8,9) small] by blast
  let ?m = "\<lparr>ms_heap = Map.empty, ms_clients = None, ms_num = 0, ms_max = to_u8 (int (nboutputs s)), ms_stream = ?st,
       ms_packet = zero_packet, ms_ip = ip, ms_port = port, ms_cmd = b\<rparr>"
  have sock: "open_socket env (s\<lparr>info := i, nboutputs := 0\<rparr>) = (Some k, tr)"
    using assms(7) by (simp add: open_socket_def)
  have "receptor_prepare env os = Some (Inr (?st, to_u8 (int (nboutputs s)), tr @ [Setsockopt (fd k) ''SO_TIMESTAMPING'']))"
    using assms(1-3) c(1) sock by (simp add: receptor_prepare_def receptor_open_def i)
  then have "receptor_branch env argv0 ip port os = Some (Inr (Inr ?m))"
    using b(1) assms(2) by (simp add: receptor_branch_def ms_start_def)
  moreover have "stream_fine ?st" using fine by (simp add: stream_fine_def)
  then have "ms_receptor alloc ?m []"
    using empty_ms_ok [of ?st _ b "to_u8 (int (nboutputs s))"] b(2) assms(3,10) to_u8_less [of "int (nboutputs s)"]
    by (simp add: ms_receptor_def)
  moreover have "to_u8 (int (nboutputs s)) = nboutputs s mod 256" by (simp add: to_u8_def zmod_int nat_mod_distrib)
  ultimately show ?thesis by auto
qed


section \<open>Properties\<close>

text \<open>
  From the command line to the streams. A JACK receptor whose options ask for many streams on a
  port starts, when its socket can be opened, without clients, and then over any datagrams and ticks of
  the timer no access is undefined and its clients are what the abstract receptor gives, with the number
  of channels, modulo 256, as the maximum of clients.
\<close>

theorem receptor_serves_streams:
  assumes "get_receptor_options (re_options env) os receptor_defaults = Some (Inr s)"
    and "flag_set (flags s) MULTISTREAM" and "rxport s \<noteq> 0" and "0 \<in> set (rx_streamname s)"
    and "\<bar>samplerate s\<bar> < 2 ^ 31" and "vban_output_format s < 2 ^ 8"
    and "open_socket env s = (Some k, tr)" and "0 \<notin> set argv0" and "length argv0 \<le> 500" and "good_alloc alloc"
    and "\<forall>e \<in> set es. event_ok e"
  shows "\<exists>m m' evs cs. receptor_branch env argv0 ip port os = Some (Inr (Inr m)) \<and> ms_run alloc es m = Some (m', evs) \<and>
    abs_run (nboutputs s mod 256) es [] cs \<and> list_repr (ms_heap m') (ms_clients m') cs"
proof -
  obtain m where m: "receptor_branch env argv0 ip port os = Some (Inr (Inr m))" "ms_receptor alloc m []" "ms_max m = nboutputs s mod 256"
    using start_multistream [OF assms(1-10)] by blast
  obtain m' evs cs where "ms_run alloc es m = Some (m', evs)" "ms_receptor alloc m' cs" "abs_run (ms_max m) es [] cs"
    using run_refines [OF m(2) assms(11)] by blast
  then show ?thesis using m(1,3) by (auto simp: ms_receptor_def ms_ok_def)
qed

definition example_receptor_env :: receptor_env where
  "example_receptor_env = \<lparr>re_options = plain_env, re_socket = \<lparr>a_malloc = True, a_socket = 3, a_bcast = 0, a_bind = 0\<rparr>, re_open = 4\<rparr>"

lemma example_socket: "rxport s \<noteq> 0 \<Longrightarrow> \<exists>k tr. open_socket example_receptor_env s = (Some k, tr)"
  by (simp add: open_socket_def udp_init_def example_receptor_env_def Let_def)

theorem receptor_serves_streams_witness:
  "let es = [Incoming no_pipes (Udp_packet (Inr (ms_datagram, 8, 9))), Tick] in
   \<exists>m m' evs cs. receptor_branch example_receptor_env (bytes_of ''vban_receptor_jack'') 0 0
        [(CHR ''p'', bytes_of ''6980''), (CHR ''m'', bytes_of ''1''), (CHR ''c'', bytes_of ''4'')] = Some (Inr (Inr m)) \<and>
    ms_run next_free es m = Some (m', evs) \<and> abs_run (4 mod 256) es [] cs \<and> list_repr (ms_heap m') (ms_clients m') cs"
proof -
  let ?s = "receptor_defaults\<lparr>rxport := 6980, flags := CORRECTION_ON OR MULTISTREAM, nboutputs := 4\<rparr>"
  let ?os = "[(CHR ''p'', bytes_of ''6980''), (CHR ''m'', bytes_of ''1''), (CHR ''c'', bytes_of ''4'')]"
  have at: "atoi (bytes_of ''6980'') = Some 6980" "atoi (bytes_of ''4'') = Some 4"
    by (simp_all add: atoi_def bytes_of_def is_space_def is_digit_def c_int_def)
  note at' = this [unfolded bytes_of_def, simplified]
  have run: "get_receptor_options (re_options example_receptor_env) ?os receptor_defaults = Some (Inr ?s)"
    by (simp add: get_receptor_options_def receptor_option_def at' says_yes_def opt0_def bytes_of_def to_u16_def receptor_defaults_def)
  obtain k tr where k: "open_socket example_receptor_env ?s = (Some k, tr)" using example_socket [of ?s] by auto
  have "0 \<notin> set (bytes_of ''vban_receptor_jack'')" "length (bytes_of ''vban_receptor_jack'') \<le> 500"
    by (simp_all add: bytes_of_def)
  from receptor_serves_streams [OF run _ _ _ _ _ k this next_free_good,
      of "[Incoming no_pipes (Udp_packet (Inr (ms_datagram, 8, 9))), Tick]" 0 0]
  show ?thesis
    by (simp add: ms_datagram_facts vban_sizes receptor_defaults_def zero_context_def)
qed

end
