(* ===== verification/Pw_Receptor.thy ===== *)
theory Pw_Receptor
  imports Pipewire Receptor_Start
begin

text \<open>
  The multistream receptor on PipeWire (\<open>vban_receptor_pw/main.cpp\<close>): its start and its packet loop, an
  older copy of the JACK receptor's. The limit is the number of channels of the stream, no port is kept,
  the length of a packet is not compared with what its header announces, and messages read the address
  of the socket also when there is none. The state is that of the JACK receptor, with \<^const>\<open>ms_max\<close>
  and \<^const>\<open>ms_port\<close> as they are at the start; the timer thread is the same function.
\<close>

section \<open>New clients\<close>

text \<open>The command of a child: nothing of the devices, the connections or the rate correction.\<close>

definition pw_child_command :: "byte list \<Rightarrow> stream_context \<Rightarrow> byte list option" where
  "pw_child_command argv0 stream = do {
     let cmd = replicate CMDLEN_MAX 0;
     let cmdlen = to_u16 (int (length argv0));
     cmd \<leftarrow> mem_store cmd 0 (take cmdlen argv0);
     c_append cmd (bytes_of '' -m0 -p0 -istdin -q'' @ dec_nat (nframes stream) @ bytes_of '' -n'' @
       dec_nat (redundancy stream)) }"

text \<open>The command for the way back; the program is another one for the first client.\<close>

definition pw_tx_command :: "byte list \<Rightarrow> stream_context \<Rightarrow> client_node \<Rightarrow> byte list option" where
  "pw_tx_command emitter stream c = do {
     let txcmd = replicate 256 0;
     name \<leftarrow> c_string (drop 8 (header_bytes (cl_header c)));
     txcmd \<leftarrow> put_string txcmd 0 (emitter @ bytes_of '' -i127.0.0.1 -p'' @ dec_nat (unat (rxport stream)) @
       bytes_of '' -s'' @ [chr_sq] @ name @ [chr_sq] @ bytes_of '' -c'' @ dec_nat (unat (format_nbc (cl_header c)) + 1));
     txcmd \<leftarrow> (if flag_set (flags stream) AUTOCONNECT then c_append txcmd (bytes_of '' -ay'')
       else if flag_set (flags stream) DEVICE_MODE then c_append txcmd (bytes_of ''-dy'') else Some txcmd);
     c_append txcmd (bytes_of '' -x'' @ inet_ntoa (cl_ip c) @ bytes_of '':'' @ dec_nat (cl_port c)) }"

text \<open>
  The processes of a new client. The message after the first reads the port of the sender through
  \<open>rxsock\<close>, which is null on a pipe.
\<close>

definition pw_start_client :: "byte list \<Rightarrow> ms_answers \<Rightarrow> byte list \<Rightarrow> stream_context \<Rightarrow> client_node \<Rightarrow>
    (client_node \<times> io list) option" where
  "pw_start_client emitter ans cmd stream c = do {
     cmdline \<leftarrow> c_string cmd;
     let (p, infd, _, evs) = popen2 cmdline True False (a_rx ans);
     let c = c\<lparr>pipedesc := (case infd of None \<Rightarrow> pipedesc c | Some f \<Rightarrow> f), pid := p\<rparr>;
     if rxport stream = 0 then None
     else if flag_set (flags stream) DUPLEX then do {
       txcmd \<leftarrow> pw_tx_command emitter stream c;
       cmdline \<leftarrow> c_string txcmd;
       let (q, _, outfd, evs') = popen2 cmdline False True (a_tx ans);
       Some (c\<lparr>txpipedesc := (case outfd of None \<Rightarrow> txpipedesc c | Some f \<Rightarrow> f), txpid := q\<rparr>, evs @ evs') }
     else Some (c, evs) }"

definition pw_fresh_client :: "ms \<Rightarrow> client_node" where
  "pw_fresh_client s = zero_node\<lparr>cl_ip := ms_ip s, cl_header := (header (ms_packet s))\<lparr>nuFrame := 0\<rparr>\<rparr>"

definition pw_new_client :: "(heap \<Rightarrow> ptr) \<Rightarrow> ms_answers \<Rightarrow> ms \<Rightarrow> (ms \<times> io list) option" where
  "pw_new_client alloc ans s =
     (case ms_clients s of
        None \<Rightarrow> do {
          a \<leftarrow> alloc (ms_heap s);
          (c, evs) \<leftarrow> pw_start_client (bytes_of ''vban_emitter_pw'') ans (ms_cmd s) (ms_stream s) (pw_fresh_client s);
          Some (s\<lparr>ms_heap := (ms_heap s)(a \<mapsto> c), ms_clients := Some a, ms_num := to_u8 (int (ms_num s) + 1)\<rparr>, evs) }
      | Some p \<Rightarrow>
          if ms_num s < nboutputs (ms_stream s) then do {
            l \<leftarrow> last_node (ms_heap s) p;
            d \<leftarrow> ms_heap s l;
            a \<leftarrow> alloc (ms_heap s);
            (c, evs) \<leftarrow> pw_start_client (bytes_of ''vban_emitter_jack'') ans (ms_cmd s) (ms_stream s) (pw_fresh_client s);
            Some (s\<lparr>ms_heap := (ms_heap s)(l \<mapsto> d\<lparr>nxt := Some a\<rparr>, a \<mapsto> c), ms_num := to_u8 (int (ms_num s) + 1)\<rparr>, evs) }
          else Some (s, []))"


section \<open>The loop\<close>

text \<open>
  A packet is written to its client with the length that was read; a negative one becomes a size no
  object has.
\<close>

definition pw_deliver :: "nat \<Rightarrow> int \<Rightarrow> ms \<Rightarrow> (ms \<times> io list) option" where
  "pw_deliver a packetlen s = (if packetlen < 0 then None else ms_deliver a packetlen s)"

definition pw_route :: "(heap \<Rightarrow> ptr) \<Rightarrow> ms_answers \<Rightarrow> int \<Rightarrow> ms \<Rightarrow> (ms \<times> io list) option" where
  "pw_route alloc ans packetlen s = do {
     r \<leftarrow> find_client (ms_heap s) (ms_ip s) (streamname (header (ms_packet s))) (ms_num s) (ms_clients s);
     case r of Some a \<Rightarrow> pw_deliver a packetlen s | None \<Rightarrow> pw_new_client alloc ans s }"

definition pw_info :: "ms \<Rightarrow> (ms \<times> io list) option" where
  "pw_info s = do {
     let p = ms_packet s;
     upper \<leftarrow> strn_eq 4 (streamname (header p)) (bytes_of ''INFO'' @ [0]);
     lower \<leftarrow> strn_eq 4 (streamname (header p)) (bytes_of ''info'' @ [0]);
     asks \<leftarrow> strn_eq 5 (pdata p) (bytes_of ''/info'' @ [0]);
     Asks \<leftarrow> strn_eq 5 (pdata p) (bytes_of ''/INFO'' @ [0]);
     if (upper \<or> lower) \<and> (asks \<or> Asks) then do {
       stream \<leftarrow> vban_fill_receptor_info (ms_stream s);
       data \<leftarrow> c_append (pdata (info stream)) (bytes_of '' max_clients='' @ dec_int (int (nboutputs stream)) @
         bytes_of '' free_clients='' @ dec_int (int (nboutputs stream) - int (ms_num s)));
       let stream = stream\<lparr>info := (info stream)\<lparr>pdata := data\<rparr>\<rparr>;
       if rxport stream = 0 then None
       else do {
         t \<leftarrow> c_string data;
         (sock, ev, _) \<leftarrow> udp_send (rxsock stream) (ansport stream) (packet_bytes (info stream))
           (VBAN_HEADER_SIZE + length t) 0 0;
         Some (s\<lparr>ms_stream := stream\<lparr>rxsock := sock\<rparr>\<rparr>, [ev]) } }
     else Some (s, []) }"

definition pw_handle :: "(heap \<Rightarrow> ptr) \<Rightarrow> ms_answers \<Rightarrow> int \<Rightarrow> ms \<Rightarrow> (ms \<times> io list) option" where
  "pw_handle alloc ans packetlen s =
     (let h = header (ms_packet s) in
      if packetlen \<noteq> 0 \<and> vban h = VBAN_HEADER_FOURC then
        if is_protocol VBAN_PROTOCOL_AUDIO (format_SR h) then pw_route alloc ans packetlen s
        else if is_protocol VBAN_PROTOCOL_TXT (format_SR h) then pw_info s
        else Some (s, [])
      else Some (s, []))"

text \<open>
  Reading a packet. On a pipe the header comes first; the data are read into the packet whatever their
  announced length is, and count only when all of them have come.
\<close>

definition pw_read_udp :: "int + byte list \<times> u32 \<times> u16 \<Rightarrow> ms \<Rightarrow> ms \<times> int" where
  "pw_read_udp answer s =
     (let (sock, p, packetlen) = udp_recv (rxsock (ms_stream s)) (ms_packet s) answer in
      (s\<lparr>ms_stream := (ms_stream s)\<lparr>rxsock := sock\<rparr>, ms_packet := p, ms_ip := sin_addr sock\<rparr>, packetlen))"

definition pw_read_pipe :: "byte list option \<Rightarrow> byte list option \<Rightarrow> ms \<Rightarrow> (ms \<times> int) option" where
  "pw_read_pipe head body s = do {
     let p = (case head of None \<Rightarrow> ms_packet s | Some bs \<Rightarrow> packet_store (ms_packet s) bs);
     let sr = format_SR (header p);
     if is_protocol VBAN_PROTOCOL_AUDIO sr \<or> is_protocol VBAN_PROTOCOL_TXT sr then do {
       datalen \<leftarrow> announced (header p);
       data \<leftarrow> mem_store (pdata p) 0 (case body of None \<Rightarrow> [] | Some bs \<Rightarrow> bs);
       Some (s\<lparr>ms_packet := p\<lparr>pdata := data\<rparr>\<rparr>, read_len head + (if datalen = read_len body then datalen else 0)) }
     else Some (s\<lparr>ms_packet := p\<rparr>, read_len head) }"

definition pw_incoming :: "(heap \<Rightarrow> ptr) \<Rightarrow> ms_answers \<Rightarrow> ms_input \<Rightarrow> ms \<Rightarrow> (ms \<times> io list) option" where
  "pw_incoming alloc ans inp s = do {
     (s, packetlen) \<leftarrow>
       (if rxport (ms_stream s) \<noteq> 0
        then (case inp of Udp_packet answer \<Rightarrow> Some (pw_read_udp answer s) | Pipe_packet _ _ \<Rightarrow> None)
        else (case inp of Pipe_packet head body \<Rightarrow> pw_read_pipe head body s | Udp_packet _ \<Rightarrow> None));
     pw_handle alloc ans packetlen s }"

definition pw_step :: "(heap \<Rightarrow> ptr) \<Rightarrow> ms_event \<Rightarrow> ms \<Rightarrow> (ms \<times> io list) option" where
  "pw_step alloc e s = (case e of Incoming ans inp \<Rightarrow> pw_incoming alloc ans inp s | Tick \<Rightarrow> timer_tick s)"

fun pw_steps :: "(heap \<Rightarrow> ptr) \<Rightarrow> ms_event list \<Rightarrow> ms \<Rightarrow> (ms \<times> io list) option" where
  "pw_steps alloc [] s = Some (s, [])"
| "pw_steps alloc (e # es) s = do {
     (s, evs) \<leftarrow> pw_step alloc e s;
     (s, evs') \<leftarrow> pw_steps alloc es s;
     Some (s, evs @ evs') }"


section \<open>The start\<close>

definition pw_receptor_prepare :: "receptor_env \<Rightarrow> (char \<times> byte list) list \<Rightarrow> (unit + stream_context \<times> io list) option" where
  "pw_receptor_prepare env os = do {
     r \<leftarrow> pw_receptor_options (re_options env) os receptor_defaults;
     case r of
       Inl e \<Rightarrow> Some (Inl e)
     | Inr stream \<Rightarrow> do {
         stream \<leftarrow> vban_fill_receptor_info stream;
         map_option (map_sum id (\<lambda>(stream, tr). (stream\<lparr>flags := flags stream OR RECEIVING\<rparr>, tr)))
           (if rxport stream \<noteq> 0 then
              case open_socket env stream of (None, _) \<Rightarrow> Some (Inl ()) | (Some k, tr) \<Rightarrow> Some (Inr (stream\<lparr>rxsock := k\<rparr>, tr))
            else Some (Inr (open_pipe env stream, []))) } }"

definition pw_receptor_branch :: "receptor_env \<Rightarrow> byte list \<Rightarrow> u32 \<Rightarrow> (char \<times> byte list) list \<Rightarrow>
    (unit + stream_context + ms) option" where
  "pw_receptor_branch env argv0 ip_in os = do {
     r \<leftarrow> pw_receptor_prepare env os;
     case r of
       Inl e \<Rightarrow> Some (Inl e)
     | Inr (stream, _) \<Rightarrow>
         if flag_set (flags stream) MULTISTREAM then do {
           cmd \<leftarrow> pw_child_command argv0 stream;
           Some (Inr (Inr \<lparr>ms_heap = Map.empty, ms_clients = None, ms_num = 0, ms_max = 0, ms_stream = stream,
             ms_packet = zero_packet, ms_ip = ip_in, ms_port = 0, ms_cmd = cmd\<rparr>)) }
         else Some (Inr (Inl stream)) }"


section \<open>The invariant\<close>

text \<open>
  Seen as a JACK receptor whose maximum is the number of channels and whose senders have no port. The
  counter of clients has eight bits: the number of channels must fit.
\<close>

definition as_jack :: "ms \<Rightarrow> ms" where
  "as_jack s = s\<lparr>ms_max := nboutputs (ms_stream s), ms_port := 0\<rparr>"

definition as_pw :: "ms \<Rightarrow> ms \<times> io list \<Rightarrow> ms \<times> io list" where
  "as_pw s = (\<lambda>(t, evs). (t\<lparr>ms_max := ms_max s, ms_port := ms_port s\<rparr>, evs))"

definition pw_ok :: "ms \<Rightarrow> client list \<Rightarrow> bool" where
  "pw_ok s cs \<longleftrightarrow> ms_ok (as_jack s) cs"

definition pw_receptor :: "(heap \<Rightarrow> ptr) \<Rightarrow> ms \<Rightarrow> client list \<Rightarrow> bool" where
  "pw_receptor alloc s cs \<longleftrightarrow> pw_ok s cs \<and> good_alloc alloc \<and> rxport (ms_stream s) \<noteq> 0 \<and>
     flag_set (flags (ms_stream s)) RECEIVING \<and> \<not> flag_set (flags (ms_stream s)) DUPLEX"

lemma as_jack_fields [simp]:
  "ms_heap (as_jack s) = ms_heap s" "ms_clients (as_jack s) = ms_clients s" "ms_num (as_jack s) = ms_num s"
  "ms_max (as_jack s) = nboutputs (ms_stream s)" "ms_stream (as_jack s) = ms_stream s" "ms_packet (as_jack s) = ms_packet s"
  "ms_ip (as_jack s) = ms_ip s" "ms_port (as_jack s) = 0" "ms_cmd (as_jack s) = ms_cmd s"
  by (simp_all add: as_jack_def)

lemma as_jack_list [simp]:
  "as_jack (s\<lparr>ms_heap := h, ms_clients := p, ms_num := n\<rparr>) = as_jack s\<lparr>ms_heap := h, ms_clients := p, ms_num := n\<rparr>"
  by (simp add: as_jack_def)

lemma as_pw_list [simp]:
  "as_pw s (as_jack s\<lparr>ms_heap := h, ms_clients := p, ms_num := n\<rparr>, evs) = (s\<lparr>ms_heap := h, ms_clients := p, ms_num := n\<rparr>, evs)"
  by (cases s) (simp add: as_jack_def as_pw_def)

text \<open>On a socket and without duplex mode the loop's handling of a stream is the JACK receptor's.\<close>

lemma pw_start_client_jack:
  "rxport stream \<noteq> 0 \<Longrightarrow> \<not> flag_set (flags stream) DUPLEX \<Longrightarrow> pw_start_client emitter ans cmd stream c = start_client ans cmd stream c"
  by (simp add: pw_start_client_def start_client_def)

lemma pw_fresh_client_jack: "pw_fresh_client s = fresh_client (as_jack s)"
  by (simp add: pw_fresh_client_def fresh_client_def zero_node_def)

lemma pw_route_jack:
  assumes "rxport (ms_stream s) \<noteq> 0" and "\<not> flag_set (flags (ms_stream s)) DUPLEX" and "0 \<le> n"
  shows "pw_route alloc ans n s = map_option (as_pw s) (ms_route alloc ans n (as_jack s))"
proof -
  have new: "pw_new_client alloc ans s = map_option (as_pw s) (new_client alloc ans (as_jack s))"
    unfolding pw_new_client_def new_client_def pw_start_client_jack [OF assms(1,2)] pw_fresh_client_jack
    by (cases s) (auto simp: as_jack_def as_pw_def map_option_bind comp_def intro!: Option.bind_cong split: option.split prod.split)
  have deliver: "pw_deliver a n s = map_option (as_pw s) (ms_deliver a n (as_jack s))" for a
    using assms(3) unfolding pw_deliver_def ms_deliver_def
    by (cases s) (auto simp: as_jack_def as_pw_def map_option_bind comp_def intro!: Option.bind_cong)
  show ?thesis unfolding pw_route_def ms_route_def
    by (auto simp: map_option_bind comp_def new deliver intro!: Option.bind_cong split: option.split)
qed

lemma timer_loop_jack:
  "timer_loop (s\<lparr>ms_max := m, ms_port := q\<rparr>) client i n =
     map_option (\<lambda>(t, evs). (t\<lparr>ms_max := m, ms_port := q\<rparr>, evs)) (timer_loop s client i n)"
proof (induction n arbitrary: s client i)
  case (Suc n)
  have upd: "s\<lparr>ms_max := m, ms_port := q, ms_heap := h\<rparr> = s\<lparr>ms_heap := h\<rparr>\<lparr>ms_max := m, ms_port := q\<rparr>" for h by simp
  show ?case unfolding timer_loop.simps upd
    by (auto simp: map_option_bind comp_def Suc.IH intro!: Option.bind_cong split: prod.split)
qed simp

lemma fill_info_port: "vban_fill_receptor_info c = Some c' \<Longrightarrow> rxport c' = rxport c"
  unfolding vban_fill_receptor_info_def Let_def bind_eq_Some_conv by (elim exE conjE) (drule sym, simp)

lemma pw_info_jack: "rxport (ms_stream s) \<noteq> 0 \<Longrightarrow> pw_info s = ms_info s"
  unfolding pw_info_def ms_info_def Let_def
  by (auto simp: fill_info_port intro!: Option.bind_cong)

text \<open>The stream whose packet a datagram is, as the loop sees it: by the header that is in the buffer.\<close>

fun pw_key :: "ms \<Rightarrow> ms_event \<Rightarrow> (u32 \<times> byte list) option" where
  "pw_key s (Incoming _ (Udp_packet answer)) =
     (let (t, n) = pw_read_udp answer s; h = header (ms_packet t) in
      if n \<noteq> 0 \<and> vban h = VBAN_HEADER_FOURC \<and> is_protocol VBAN_PROTOCOL_AUDIO (format_SR h)
      then Some (ms_ip t, streamname h) else None)"
| "pw_key s _ = None"

lemma timer_tick_jack: "timer_tick s = map_option (as_pw s) (timer_tick (as_jack s))"
proof -
  have same: "as_jack s\<lparr>ms_max := ms_max s, ms_port := ms_port s\<rparr> = s" by (simp add: as_jack_def)
  show ?thesis
    using timer_loop_jack [where s = "as_jack s" and m = "ms_max s" and q = "ms_port s", unfolded same]
    by (simp add: timer_tick_def as_pw_def)
qed

text \<open>What a step does with the clients and outside.\<close>

definition pw_effect :: "ms \<Rightarrow> ms_event \<Rightarrow> client list \<Rightarrow> client list \<Rightarrow> io list \<Rightarrow> bool" where
  "pw_effect s e cs cs' evs \<longleftrightarrow>
     (if e = Tick then cs' = fst (abs_tick cs) \<and> evs = tick_io (snd (abs_tick cs))
      else case pw_key s e of
        None \<Rightarrow> cs' = cs
      | Some k \<Rightarrow> (\<exists>new. client_key new = k \<and> timer new = 0 \<and> cs' = abs_route k (nboutputs (ms_stream s)) new cs) \<and>
          (\<forall>i. pos k cs = Some i \<longrightarrow> evs = [Write (pipedesc (cs ! i)) (datagram_of e)]))"

lemma pw_tick_ok:
  assumes "pw_receptor alloc s cs"
  shows "\<exists>s' evs. timer_tick s = Some (s', evs) \<and> pw_receptor alloc s' (fst (abs_tick cs)) \<and> ms_stream s' = ms_stream s \<and>
    evs = tick_io (snd (abs_tick cs))"
proof -
  have a: "ms_ok (as_jack s) cs" "flag_set (flags (ms_stream (as_jack s))) RECEIVING"
    using assms by (simp_all add: pw_receptor_def pw_ok_def)
  let ?u = "\<lambda>s h p. s\<lparr>ms_heap := h, ms_clients := p, ms_num := length (fst (abs_tick cs))\<rparr>"
  obtain h p where "timer_tick (as_jack s) = Some (?u (as_jack s) h p, tick_io (snd (abs_tick cs)))"
      "ms_ok (?u (as_jack s) h p) (fst (abs_tick cs))"
    using tick_ok [OF a] by blast
  then show ?thesis using assms
    by (intro exI [of _ "?u s h p"] exI [of _ "tick_io (snd (abs_tick cs))"])
      (simp add: timer_tick_jack [of s] pw_receptor_def pw_ok_def)
qed

lemma pw_packet_ok:
  assumes "pw_receptor alloc s cs" and "event_ok (Incoming ans (Udp_packet answer))"
  shows "\<exists>s' evs cs'. pw_incoming alloc ans (Udp_packet answer) s = Some (s', evs) \<and> pw_receptor alloc s' cs' \<and>
    nboutputs (ms_stream s') = nboutputs (ms_stream s) \<and> pw_effect s (Incoming ans (Udp_packet answer)) cs cs' evs"
proof -
  have r: "pw_ok s cs" "good_alloc alloc" "rxport (ms_stream s) \<noteq> 0" "\<not> flag_set (flags (ms_stream s)) DUPLEX"
    using assms(1) by (simp_all add: pw_receptor_def)
  obtain sock p n where u: "udp_recv (rxsock (ms_stream s)) (ms_packet s) answer = (sock, p, n)" by (metis surj_pair)
  let ?t = "s\<lparr>ms_stream := (ms_stream s)\<lparr>rxsock := sock\<rparr>, ms_packet := p, ms_ip := sin_addr sock\<rparr>" and ?h = "header p"
  have read: "pw_read_udp answer s = (?t, n)" using u by (simp add: pw_read_udp_def)
  have p: "packet_ok p" "n \<le> int VBAN_PROTOCOL_MAX_SIZE" "0 \<le> n"
    using u r(1) assms(2) by (cases answer; auto simp: udp_recv_def pw_ok_def ms_ok_def packet_store_ok)+
  have ok: "ms_ok (as_jack ?t) cs"
    using r(1) p(1) by (simp add: pw_ok_def ms_ok_def stream_fine_def)
  have t: "pw_receptor alloc ?t cs" using ok assms(1) by (simp add: pw_receptor_def pw_ok_def)
  have run: "pw_incoming alloc ans (Udp_packet answer) s = pw_handle alloc ans n ?t"
    using r(3) read by (simp add: pw_incoming_def)
  have other: ?thesis if "pw_key s (Incoming ans (Udp_packet answer)) = None" "pw_handle alloc ans n ?t = Some (s', evs)"
      "ms_ok (as_jack s') cs" "ms_stream s' = (ms_stream s)\<lparr>info := i, rxsock := k\<rparr>" for s' evs i k
    using that assms(1) unfolding run
    by (intro exI [of _ s'] exI [of _ evs] exI [of _ cs]) (simp add: pw_receptor_def pw_ok_def pw_effect_def)
  show ?thesis
  proof (cases "n \<noteq> 0 \<and> vban ?h = VBAN_HEADER_FOURC")
    case False
    then show ?thesis using other [where s' = ?t and evs = "[]" and i = "info (ms_stream s)" and k = sock] ok by (auto simp: read pw_handle_def)
  next
    case proto: True
    consider (audio) "is_protocol VBAN_PROTOCOL_AUDIO (format_SR ?h)"
      | (asked) "\<not> is_protocol VBAN_PROTOCOL_AUDIO (format_SR ?h)" "is_protocol VBAN_PROTOCOL_TXT (format_SR ?h)"
      | (foreign) "\<not> is_protocol VBAN_PROTOCOL_AUDIO (format_SR ?h)" "\<not> is_protocol VBAN_PROTOCOL_TXT (format_SR ?h)" by blast
    then show ?thesis
    proof cases
      case foreign
      then show ?thesis using other [where s' = ?t and evs = "[]" and i = "info (ms_stream s)" and k = sock] ok by (simp add: read pw_handle_def Let_def)
    next
      case asked
      have num: "ms_num ?t < 256" using ok by (auto simp: ms_ok_def clients_fine_def)
      obtain i k evs where i: "ms_info ?t = Some (?t\<lparr>ms_stream := (ms_stream ?t)\<lparr>info := i, rxsock := k\<rparr>\<rparr>, evs)"
        using ms_info_ok [of ?t] ok num by (auto simp: ms_ok_def)
      have handle: "pw_handle alloc ans n ?t = ms_info ?t"
        using asked proto pw_info_jack [of ?t] r(3) by (simp add: pw_handle_def Let_def)
      show ?thesis
        by (rule other [where s' = "?t\<lparr>ms_stream := (ms_stream ?t)\<lparr>info := i, rxsock := k\<rparr>\<rparr>" and evs = evs and i = i and k = k])
          (use ok asked i in \<open>simp_all add: read handle ms_ok_def stream_fine_def\<close>)
    next
      case audio
      let ?k = "(ms_ip ?t, streamname ?h)" and ?a = "admitted ans (as_jack ?t)"
      let ?cs = "abs_route ?k (nboutputs (ms_stream s)) ?a cs"
      have key: "pw_key s (Incoming ans (Udp_packet answer)) = Some ?k" using audio proto by (simp add: read Let_def)
      have new: "client_key ?a = ?k \<and> timer ?a = 0"
        using start_client_ok [of "as_jack ?t" ans] ok by (auto simp: ms_ok_def admitted_def)
      obtain h q evs where route: "ms_route alloc ans n (as_jack ?t) = Some (as_jack ?t\<lparr>ms_heap := h, ms_clients := q, ms_num := length ?cs\<rparr>, evs)"
          "ms_ok (as_jack ?t\<lparr>ms_heap := h, ms_clients := q, ms_num := length ?cs\<rparr>) ?cs"
          "\<forall>i. pos ?k cs = Some i \<longrightarrow> evs = [Write (pipedesc (cs ! i)) (take (nat n) (packet_bytes p))]"
        using route_ok [OF ok r(2) p(3,2), of ?k ?cs ans] by auto
      have step: "pw_handle alloc ans n ?t = Some (?t\<lparr>ms_heap := h, ms_clients := q, ms_num := length ?cs\<rparr>, evs)"
        using pw_route_jack [of ?t n alloc ans] r(3,4) p(3) route(1) audio proto
        by (simp add: pw_handle_def Let_def del: ms.update_convs)
      have bytes: "take (nat n) (packet_bytes p) = datagram_of (Incoming ans (Udp_packet answer))"
        using u proto assms(2) r(1) stored_datagram(1) [of "ms_packet s"]
        by (cases answer) (auto simp: udp_recv_def pw_ok_def ms_ok_def)
      have "pw_receptor alloc (?t\<lparr>ms_heap := h, ms_clients := q, ms_num := length ?cs\<rparr>) ?cs"
        using t route(2) by (simp add: pw_receptor_def pw_ok_def del: ms.update_convs)
      moreover have "pw_effect s (Incoming ans (Udp_packet answer)) cs ?cs evs"
        using key new route(3) bytes by (auto simp: pw_effect_def)
      ultimately show ?thesis unfolding run step
        by (intro exI [of _ "?t\<lparr>ms_heap := h, ms_clients := q, ms_num := length ?cs\<rparr>"] exI [of _ evs] exI [of _ ?cs]) simp
    qed
  qed
qed

lemma pw_step_ok:
  assumes "pw_receptor alloc s cs" and "event_ok e"
  shows "\<exists>s' evs cs'. pw_step alloc e s = Some (s', evs) \<and> pw_receptor alloc s' cs' \<and>
    nboutputs (ms_stream s') = nboutputs (ms_stream s) \<and> pw_effect s e cs cs' evs"
proof (cases e)
  case Tick
  then show ?thesis using pw_tick_ok [OF assms(1)] by (auto simp: pw_step_def pw_effect_def)
next
  case (Incoming ans inp)
  then obtain answer where "inp = Udp_packet answer" using assms(2) by (cases inp) auto
  then show ?thesis using pw_packet_ok [OF assms(1)] assms(2) Incoming by (simp add: pw_step_def)
qed

lemma pw_steps_ok:
  assumes "pw_receptor alloc s cs" and "\<forall>e \<in> set es. event_ok e"
  shows "\<exists>s' evs cs'. pw_steps alloc es s = Some (s', evs) \<and> pw_receptor alloc s' cs' \<and>
    nboutputs (ms_stream s') = nboutputs (ms_stream s)"
  using assms
proof (induction es arbitrary: s cs)
  case (Cons e es)
  obtain s1 evs cs1 where 1: "pw_step alloc e s = Some (s1, evs)" "pw_receptor alloc s1 cs1"
      "nboutputs (ms_stream s1) = nboutputs (ms_stream s)"
    using pw_step_ok [OF Cons.prems(1), of e] Cons.prems(2) by auto
  then show ?case using Cons.IH [OF 1(2)] Cons.prems(2) by auto
qed auto


section \<open>From the command line\<close>

lemma pw_option_law:
  assumes "fields_ok s \<and> \<not> flag_set (flags s) AUTOCONNECT"
  shows "case pw_receptor_option env c a s of None \<Rightarrow> bad_option env (c, a) | Some (Inl _) \<Rightarrow> True
    | Some (Inr s') \<Rightarrow> fields_ok s' \<and> \<not> flag_set (flags s') AUTOCONNECT"
proof -
  have law: "case receptor_option env c a s of None \<Rightarrow> bad_option env (c, a) | Some (Inl _) \<Rightarrow> True | Some (Inr s') \<Rightarrow> fields_ok s'"
    by (rule receptor_option_fields) (simp add: assms)
  have usage: "receptor_option env (CHR ''h'') a x = Some (Inl ())" for x by (simp add: receptor_option_def)
  consider "c = CHR ''d''" | "c \<in> set ''ajf''" | "c = CHR ''b''" | "c \<notin> set ''dajfb''" by auto
  then show ?thesis
  proof cases
    case 3
    then show ?thesis using law by (auto simp: pw_receptor_option_def usage split: option.splits sum.splits)
  next
    case 4
    then have "\<not> flag_set (flags s') AUTOCONNECT" if "receptor_option env c a s = Some (Inr s')" for s'
      using that assms by (auto simp: receptor_option_def bind_eq_Some_conv split: if_splits)
    then show ?thesis using law 4 by (auto simp: pw_receptor_option_def split: option.splits sum.splits)
  qed (use assms in \<open>auto simp: pw_receptor_option_def pw_device_option_def fields_ok_def\<close>)
qed

interpretation pw_receptor_table: option_table "pw_receptor_option env" "\<lambda>s. fields_ok s \<and> \<not> flag_set (flags s) AUTOCONNECT"
    "bad_option env" for env
  by unfold_locales (rule pw_option_law)

lemma pw_options_fields:
  assumes "pw_receptor_options env os receptor_defaults = Some (Inr s)"
  shows "fields_ok s \<and> \<not> flag_set (flags s) AUTOCONNECT"
proof -
  have "fields_ok receptor_defaults \<and> \<not> flag_set (flags receptor_defaults) AUTOCONNECT"
    using defaults_fields(2) by (simp add: receptor_defaults_def)
  from pw_receptor_table.run_options [OF this, where env = env and os = os] show ?thesis
    using assms by (simp add: pw_receptor_options_def split: if_splits)
qed

lemma pw_child_command_text:
  assumes "0 \<notin> set argv0" and "length argv0 \<le> 500" and "nframes s < 2 ^ 16" and "redundancy s < 2 ^ 8"
  shows "\<exists>b. pw_child_command argv0 s = Some b \<and> holds CMDLEN_MAX (argv0 @ bytes_of '' -m0 -p0 -istdin -q'' @
    dec_nat (nframes s) @ bytes_of '' -n'' @ dec_nat (redundancy s)) b"
proof -
  let ?q = "bytes_of '' -m0 -p0 -istdin -q'' @ dec_nat (nframes s) @ bytes_of '' -n'' @ dec_nat (redundancy s)"
  let ?s = "s\<lparr>flags := 0\<rparr>"
  have q: "options_text (child_options ?s) = ?q"
    by (simp add: child_options_def options_text_def bytes_of_def flag_set_def)
  have "pw_child_command argv0 s = child_command argv0 ?s"
    by (simp add: pw_child_command_def child_command_def flag_set_def Let_def)
  then show ?thesis using child_command_text [of argv0 ?s] assms unfolding q by simp
qed

lemma pw_starts:
  assumes "pw_receptor_options (re_options env) os receptor_defaults = Some (Inr s)"
    and "flag_set (flags s) MULTISTREAM" and "rxport s \<noteq> 0" and "nboutputs s < 256" and "0 \<in> set (rx_streamname s)"
    and "\<bar>samplerate s\<bar> < 2 ^ 31" and "vban_output_format s < 2 ^ 8"
    and "open_socket env s = (Some k, tr)" and "0 \<notin> set argv0" and "length argv0 \<le> 500" and "good_alloc alloc"
  shows "\<exists>m. pw_receptor_branch env argv0 ip os = Some (Inr (Inr m)) \<and> pw_receptor alloc m [] \<and>
    nboutputs (ms_stream m) = nboutputs s"
proof -
  have f: "fields_ok s" using pw_options_fields [OF assms(1)] by blast
  have dup: "\<not> flag_set (flags s) DUPLEX"
    using pw_receptor_no_duplex [OF assms(1)] by (simp add: receptor_defaults_def flag_set_def flag_defs)
  have fine: "stream_fine s" using f assms(5-7) by (simp add: stream_fine_def fields_ok_def)
  obtain i where i: "vban_fill_receptor_info s = Some (s\<lparr>info := i\<rparr>)"
    using fill_info_short [OF fine] by (metis (no_types))
  let ?st = "s\<lparr>info := i, rxsock := k, flags := flags s OR RECEIVING\<rparr>"
  have small: "nframes ?st < 2 ^ 16" "redundancy ?st < 2 ^ 8" using f by (simp_all add: fields_ok_def)
  obtain t b where b: "pw_child_command argv0 ?st = Some b" "holds CMDLEN_MAX t b"
    using pw_child_command_text [OF assms(9,10) small] by blast
  let ?m = "\<lparr>ms_heap = Map.empty, ms_clients = None, ms_num = 0, ms_max = 0, ms_stream = ?st,
       ms_packet = zero_packet, ms_ip = ip, ms_port = 0, ms_cmd = b\<rparr>"
  have sock: "open_socket env (s\<lparr>info := i\<rparr>) = (Some k, tr)" using assms(8) by (simp add: open_socket_def)
  have "pw_receptor_prepare env os = Some (Inr (?st, tr))"
    using assms(1,3) i sock by (simp add: pw_receptor_prepare_def)
  then have "pw_receptor_branch env argv0 ip os = Some (Inr (Inr ?m))"
    using b(1) assms(2) by (simp add: pw_receptor_branch_def)
  moreover have "stream_fine ?st" using fine by (simp add: stream_fine_def)
  then have "pw_receptor alloc ?m []"
    using empty_ms_ok [of ?st t b "nboutputs s"] b(2) assms(3,4,11) dup
    by (simp add: pw_receptor_def pw_ok_def as_jack_def) (simp add: flag_set_def flag_defs RECEIVING_def)
  ultimately show ?thesis by auto
qed


section \<open>Properties\<close>

text \<open>
  C39: The PipeWire receptor's multistream mode, from the command line. When its options ask for many
  streams on a port, and for fewer than 256 channels, it starts without clients once its socket is open,
  and over any datagrams and ticks of the timer no access is undefined: the linked list holds distinct
  streams, at most one for each channel (or one), none silent for longer than four ticks, and the counter
  is their number.
\<close>

theorem pw_receptor_serves_streams:
  assumes "pw_receptor_options (re_options env) os receptor_defaults = Some (Inr s)"
    and "flag_set (flags s) MULTISTREAM" and "rxport s \<noteq> 0" and "nboutputs s < 256" and "0 \<in> set (rx_streamname s)"
    and "\<bar>samplerate s\<bar> < 2 ^ 31" and "vban_output_format s < 2 ^ 8"
    and "open_socket env s = (Some k, tr)" and "0 \<notin> set argv0" and "length argv0 \<le> 500" and "good_alloc alloc"
    and "\<forall>e \<in> set es. event_ok e"
  shows "\<exists>m m' evs cs. pw_receptor_branch env argv0 ip os = Some (Inr (Inr m)) \<and> pw_steps alloc es m = Some (m', evs) \<and>
    list_repr (ms_heap m') (ms_clients m') cs \<and> ms_num m' = length cs \<and> length cs \<le> max 1 (nboutputs s) \<and>
    distinct (map client_key cs) \<and> (\<forall>c \<in> set cs. timer c \<le> 4)"
proof -
  obtain m where m: "pw_receptor_branch env argv0 ip os = Some (Inr (Inr m))" "pw_receptor alloc m []"
      "nboutputs (ms_stream m) = nboutputs s"
    using pw_starts [OF assms(1-11)] by blast
  obtain m' evs cs where "pw_steps alloc es m = Some (m', evs)" "pw_receptor alloc m' cs"
      "nboutputs (ms_stream m') = nboutputs (ms_stream m)"
    using pw_steps_ok [OF m(2) assms(12)] by blast
  then show ?thesis using m(1,3)
    by (intro exI [of _ m] exI [of _ m'] exI [of _ evs] exI [of _ cs])
      (simp add: pw_receptor_def pw_ok_def ms_ok_def clients_fine_def)
qed

theorem pw_receptor_serves_streams_witness:
  "let es = [Incoming no_pipes (Udp_packet (Inr (ms_datagram, 8, 9))), Tick] in
   \<exists>m m' evs cs. pw_receptor_branch example_receptor_env (bytes_of ''vban_receptor_pw'') 0
        [(CHR ''p'', bytes_of ''6980''), (CHR ''m'', bytes_of ''1''), (CHR ''c'', bytes_of ''4'')] = Some (Inr (Inr m)) \<and>
    pw_steps next_free es m = Some (m', evs) \<and> list_repr (ms_heap m') (ms_clients m') cs \<and> ms_num m' = length cs \<and>
    length cs \<le> max 1 4 \<and> distinct (map client_key cs) \<and> (\<forall>c \<in> set cs. timer c \<le> 4)"
proof -
  let ?s = "receptor_defaults\<lparr>rxport := 6980, flags := CORRECTION_ON OR MULTISTREAM, nboutputs := 4\<rparr>"
  let ?os = "[(CHR ''p'', bytes_of ''6980''), (CHR ''m'', bytes_of ''1''), (CHR ''c'', bytes_of ''4'')]"
  have "atoi (bytes_of ''6980'') = Some 6980" "atoi (bytes_of ''4'') = Some 4"
    by (simp_all add: atoi_def bytes_of_def is_space_def is_digit_def c_int_def)
  note at = this [unfolded bytes_of_def, simplified]
  have run: "pw_receptor_options (re_options example_receptor_env) ?os receptor_defaults = Some (Inr ?s)"
    by (simp add: pw_receptor_options_def pw_receptor_option_def receptor_option_def at says_yes_def opt0_def bytes_of_def
        to_u16_def receptor_defaults_def)
  obtain k tr where k: "open_socket example_receptor_env ?s = (Some k, tr)" using example_socket [of ?s] by auto
  have "0 \<notin> set (bytes_of ''vban_receptor_pw'')" "length (bytes_of ''vban_receptor_pw'') \<le> 500"
    by (simp_all add: bytes_of_def)
  from pw_receptor_serves_streams [OF run _ _ _ _ _ _ k this next_free_good,
      of "[Incoming no_pipes (Udp_packet (Inr (ms_datagram, 8, 9))), Tick]" 0]
  show ?thesis
    by (simp add: ms_datagram_facts vban_sizes receptor_defaults_def zero_context_def)
qed

text \<open>
  C40: A fragment is handed on. The PipeWire receptor does not compare the length of a datagram with
  its header: one that holds only the first bytes of the last packet, a single byte is enough, is taken
  by the header still in the buffer for a packet of the same stream and written to its child, which then
  reads headers and data at the wrong places. The JACK receptor drops it.
\<close>

theorem fragment_handed_on:
  assumes "pw_receptor alloc s cs" and "i < length cs" and "vban (header (ms_packet s)) = VBAN_HEADER_FOURC"
    and "is_protocol VBAN_PROTOCOL_AUDIO (format_SR (header (ms_packet s)))"
    and "client_key (cs ! i) = (ip, streamname (header (ms_packet s)))" and "0 < n" and "n < VBAN_HEADER_SIZE"
    and "bs = take n (packet_bytes (ms_packet s))"
  shows "(\<exists>s'. pw_step alloc (Incoming ans (Udp_packet (Inr (bs, ip, port)))) s = Some (s', [Write (pipedesc (cs ! i)) bs])) \<and>
    (\<exists>s'. ms_step alloc (Incoming ans (Udp_packet (Inr (bs, ip, port)))) (as_jack s) = Some (s', []))"
proof -
  let ?e = "Incoming ans (Udp_packet (Inr (bs, ip, port)))" and ?p = "ms_packet s"
  have ok: "packet_ok ?p" "distinct (map client_key cs)" "rxport (ms_stream s) \<noteq> 0" "\<not> flag_set (flags (ms_stream s)) DUPLEX"
    using assms(1) by (simp_all add: pw_receptor_def pw_ok_def ms_ok_def clients_fine_def)
  have len: "length bs = n" "length bs \<le> VBAN_PROTOCOL_MAX_SIZE"
    using assms(7,8) ok(1) by (simp_all add: length_packet_bytes vban_sizes)
  have same: "packet_store ?p bs = ?p"
    using ok(1) assms(8) len by (simp add: packet_store_def blit_0 packet_of_bytes_packet_bytes)
  have key: "pw_key s ?e = Some (client_key (cs ! i))"
    using assms(3-6) len(1) same by (simp add: pw_read_udp_def udp_recv_def Let_def)
  have pos: "pos (client_key (cs ! i)) cs = Some i" by (rule pos_nth [OF ok(2) assms(2)])
  obtain s' evs cs' where s': "pw_step alloc ?e s = Some (s', evs)" "pw_effect s ?e cs cs' evs"
    using pw_step_ok [OF assms(1), of ?e] len(2) by auto
  have "evs = [Write (pipedesc (cs ! i)) bs]" using s'(2) key pos by (simp add: pw_effect_def)
  moreover obtain m where m: "announced (header ?p) = Some (int m)" using announced_Some by blast
  have "\<exists>t. ms_step alloc ?e (as_jack s) = Some (t, [])"
    using m ok(3,4) len(1) assms(7) same
    by (auto simp: ms_step_def ms_incoming_def ms_read_udp_def udp_recv_def ms_handle_def Let_def)
  ultimately show ?thesis using s'(1) by blast
qed

definition example_pw_ms :: ms where
  "example_pw_ms = example_ms\<lparr>ms_max := 0, ms_stream := zero_context\<lparr>rxport := 6980, flags := RECEIVING, nboutputs := 2\<rparr>,
     ms_packet := \<lparr>header = example_stream_header, pdata = replicate VBAN_DATA_MAX_SIZE 0\<rparr>\<rparr>"

lemma example_pw_ok: "pw_receptor next_free example_pw_ms example_clients"
proof -
  have "packet_ok \<lparr>header = example_stream_header, pdata = replicate VBAN_DATA_MAX_SIZE 0\<rparr>"
    using ms_datagram_facts(1) by (simp add: packet_ok_def)
  then show ?thesis
    using example_ms_ok
    by (simp add: pw_receptor_def pw_ok_def ms_receptor_def ms_ok_def example_pw_ms_def)
      (simp add: example_ms_def zero_context_def stream_fine_def flag_set_def RECEIVING_def DUPLEX_def)
qed

theorem fragment_handed_on_witness:
  "let bs = take 1 (packet_bytes (ms_packet example_pw_ms)) in
   (\<exists>s'. pw_step next_free (Incoming no_pipes (Udp_packet (Inr (bs, 7, 9)))) example_pw_ms =
      Some (s', [Write (pipedesc (example_clients ! 0)) bs])) \<and>
   (\<exists>s'. ms_step next_free (Incoming no_pipes (Udp_packet (Inr (bs, 7, 9)))) (as_jack example_pw_ms) = Some (s', []))"
  unfolding Let_def
proof (rule fragment_handed_on [OF example_pw_ok, of 0])
  show "is_protocol VBAN_PROTOCOL_AUDIO (format_SR (header (ms_packet example_pw_ms)))"
    by (simp add: example_pw_ms_def example_stream_header_def zero_header_def is_protocol_def)
  show "client_key (example_clients ! 0) = (7, streamname (header (ms_packet example_pw_ms)))"
    by (simp add: example_pw_ms_def example_clients_def client_key_def example_client_def)
qed (simp_all add: example_pw_ms_def example_clients_def vban_sizes example_stream_header_def)

text \<open>
  On a pipe the first stream ends the receptor: the message about it reads the port of the sender
  through the socket that was never opened. Whatever data follow the header, no step is defined.
\<close>

theorem pipe_stream_crashes:
  assumes "rxport (ms_stream s) = 0" and "ms_clients s = None" and "ms_num s = 0" and "length head = VBAN_HEADER_SIZE"
    and "vban (header_of_bytes head) = VBAN_HEADER_FOURC" and "is_protocol VBAN_PROTOCOL_AUDIO (format_SR (header_of_bytes head))"
    and "packet_ok (ms_packet s)"
  shows "pw_step alloc (Incoming ans (Pipe_packet (Some head) body)) s = None"
proof -
  have hdr: "header (packet_store (ms_packet s) head) = header_of_bytes head"
    using stored_datagram(2) [OF assms(7), of head] assms(4) by (simp add: vban_sizes)
  obtain m where m: "announced (header_of_bytes head) = Some (int m)" using announced_Some by blast
  have new: "pw_start_client em ans cmd (ms_stream t) c = None" if "ms_stream t = ms_stream s" for em cmd t c
    using that assms(1) by (simp add: pw_start_client_def split: option.split prod.split bind_splits)
  show ?thesis
    using assms m new
    by (auto simp: pw_step_def pw_incoming_def pw_read_pipe_def hdr pw_handle_def Let_def pw_route_def pw_new_client_def read_len_def
        vban_sizes bind_eq_None_conv split: option.split bind_splits)
qed

theorem pipe_stream_crashes_witness:
  "pw_step next_free (Incoming no_pipes (Pipe_packet (Some (header_bytes example_stream_header)) None))
     (example_pw_ms\<lparr>ms_clients := None, ms_num := 0, ms_stream := zero_context\<rparr>) = None"
proof (rule pipe_stream_crashes)
  have hdr: "header_of_bytes (header_bytes example_stream_header) = example_stream_header"
    using header_of_bytes_header_bytes [OF ms_datagram_facts(1), of "[]"] by simp
  show "vban (header_of_bytes (header_bytes example_stream_header)) = VBAN_HEADER_FOURC"
    "is_protocol VBAN_PROTOCOL_AUDIO (format_SR (header_of_bytes (header_bytes example_stream_header)))"
    unfolding hdr by (simp_all add: example_stream_header_def zero_header_def is_protocol_def)
  show "length (header_bytes example_stream_header) = VBAN_HEADER_SIZE"
    using length_header_bytes [OF ms_datagram_facts(1)] by (simp add: vban_sizes)
qed (use example_pw_ok in \<open>simp_all add: pw_receptor_def pw_ok_def ms_ok_def zero_context_def\<close>)

end
