(* ===== verification/Median_Filter.thy ===== *)
theory Median_Filter
  imports Prelude "HOL-Library.Multiset"
begin

text \<open>
  The sliding median of \<open>vban_alsa_util/MedianFilterInt.h\<close>: the last values in a circular list, and
  the same values in a second list that every step keeps in order by moving one element.
\<close>

section \<open>The filter\<close>

record median_filter =
  mf_size :: nat
  mf_head :: nat
  mf_history :: "int list"
  mf_sorted :: "int list"

definition mf_new :: "nat \<Rightarrow> median_filter" where
  "mf_new window_size =
     (let n = (if window_size mod 2 = 0 then window_size + 1 else window_size) in
      \<lparr>mf_size = n, mf_head = 0, mf_history = replicate n 0, mf_sorted = replicate n 0\<rparr>)"

definition mf_reset :: "int \<Rightarrow> median_filter \<Rightarrow> median_filter" where
  "mf_reset v f = f\<lparr>mf_history := replicate (length (mf_history f)) v, mf_sorted := replicate (length (mf_sorted f)) v, mf_head := 0\<rparr>"

text \<open>The loops; \<open>xs\<close> has \<open>size\<close> elements.\<close>

function mf_find :: "int \<Rightarrow> int list \<Rightarrow> nat \<Rightarrow> nat" where
  "mf_find oldest xs i = (if i < length xs \<and> xs ! i \<noteq> oldest then mf_find oldest xs (i + 1) else i)"
  by pat_completeness auto
termination
  by (relation "measure (\<lambda>(oldest, xs, i). length xs - i)") auto

definition swap_at :: "nat \<Rightarrow> nat \<Rightarrow> int list \<Rightarrow> int list" where
  "swap_at i j xs = xs[i := xs ! j, j := xs ! i]"

fun mf_down :: "int list \<Rightarrow> nat \<Rightarrow> int list \<times> nat" where
  "mf_down xs 0 = (xs, 0)"
| "mf_down xs (Suc i) = (if xs ! Suc i < xs ! i then mf_down (swap_at (Suc i) i xs) i else (xs, Suc i))"

function mf_up :: "int list \<Rightarrow> nat \<Rightarrow> int list" where
  "mf_up xs i = (if i < length xs - 1 \<and> xs ! i > xs ! (i + 1) then mf_up (swap_at i (i + 1) xs) (i + 1) else xs)"
  by pat_completeness auto
termination
  by (relation "measure (\<lambda>(xs, i). length xs - i)") (auto simp: swap_at_def)

declare mf_find.simps [simp del] mf_up.simps [simp del]

text \<open>One value more; an index outside the vectors is undefined.\<close>

definition mf_process :: "int \<Rightarrow> median_filter \<Rightarrow> (median_filter \<times> int) option" where
  "mf_process current f =
     (if mf_head f < length (mf_history f) \<and> length (mf_sorted f) = mf_size f \<and> 0 < mf_size f then
        let oldest = mf_history f ! mf_head f;
            i = mf_find oldest (mf_sorted f) 0;
            i = (if i = mf_size f then 0 else i);
            (xs, i) = mf_down ((mf_sorted f)[i := current]) i;
            xs = mf_up xs i in
        Some (f\<lparr>mf_history := (mf_history f)[mf_head f := current], mf_head := (mf_head f + 1) mod mf_size f, mf_sorted := xs\<rparr>,
          xs ! (mf_size f div 2))
      else None)"


section \<open>Moving one element to its place\<close>

lemma mf_find_ok: "v \<in> set (drop i xs) \<Longrightarrow> mf_find v xs i < length xs \<and> xs ! mf_find v xs i = v"
proof (induction v xs i rule: mf_find.induct)
  case (1 v xs i)
  have i: "i < length xs" using 1(2) by (cases "i < length xs") auto
  show ?case
  proof (cases "xs ! i = v")
    case True
    then show ?thesis using i by (simp add: mf_find.simps [of v xs i])
  next
    case False
    then have "v \<in> set (drop (i + 1) xs)" using 1(2) i Cons_nth_drop_Suc [OF i] by (metis Suc_eq_plus1 set_ConsD)
    then show ?thesis using 1(1) i False by (simp add: mf_find.simps [of v xs i])
  qed
qed

lemma swap_middle: "swap_at (Suc (length as)) (length as) (as @ a # b # bs) = as @ b # a # bs"
  "swap_at (length as) (Suc (length as)) (as @ a # b # bs) = as @ b # a # bs"
  by (simp_all add: swap_at_def nth_append list_update_append)

lemma mf_down_ok:
  "\<exists>as' bs'. mf_down (as @ v # bs) (length as) = (as' @ v # bs', length as') \<and> as' @ bs' = as @ bs \<and> (as' = [] \<or> last as' \<le> v) \<and>
     (bs' = bs \<or> v < hd bs')"
proof (induction as arbitrary: bs rule: rev_induct)
  case (snoc x as)
  show ?case
  proof (cases "v < x")
    case True
    have "mf_down ((as @ [x]) @ v # bs) (length (as @ [x])) = mf_down (as @ v # x # bs) (length as)"
      using True swap_middle(1) [of as x v bs] by (simp add: nth_append)
    moreover obtain as' bs' where "mf_down (as @ v # x # bs) (length as) = (as' @ v # bs', length as')" "as' @ bs' = as @ x # bs"
        "as' = [] \<or> last as' \<le> v" "bs' = x # bs \<or> v < hd bs'"
      using snoc [of "x # bs"] by blast
    ultimately show ?thesis using True by (intro exI [of _ as'] exI [of _ bs']) auto
  next
    case False
    then have "mf_down ((as @ [x]) @ v # bs) (length (as @ [x])) = ((as @ [x]) @ v # bs, length (as @ [x]))"
      by (simp add: nth_append)
    then show ?thesis using False by (intro exI [of _ "as @ [x]"] exI [of _ bs]) simp
  qed
qed simp

lemma mf_up_ok:
  "as = [] \<or> last as \<le> v \<Longrightarrow> \<exists>as' bs'. mf_up (as @ v # bs) (length as) = as' @ v # bs' \<and> as' @ bs' = as @ bs \<and>
     (as' = [] \<or> last as' \<le> v) \<and> (bs' = [] \<or> v \<le> hd bs')"
proof (induction bs arbitrary: as)
  case Nil
  have "mf_up (as @ [v]) (length as) = as @ [v]" by (subst mf_up.simps) simp
  then show ?case using Nil by (intro exI [of _ as] exI [of _ "[]"]) simp
next
  case (Cons b bs)
  show ?case
  proof (cases "b < v")
    case True
    have "mf_up (as @ v # b # bs) (length as) = mf_up ((as @ [b]) @ v # bs) (length (as @ [b]))"
      using True swap_middle(2) [of as v b bs] by (subst mf_up.simps) (simp add: nth_append)
    then show ?thesis using Cons.IH [of "as @ [b]"] True by auto
  next
    case False
    have "mf_up (as @ v # b # bs) (length as) = as @ v # b # bs" using False by (subst mf_up.simps) (simp add: nth_append)
    then show ?thesis using False Cons.prems by (intro exI [of _ as] exI [of _ "b # bs"]) simp
  qed
qed

lemma sorted_insert:
  assumes "sorted (as @ bs)" and "as = [] \<or> last as \<le> v" and "bs = [] \<or> v \<le> hd bs"
  shows "sorted (as @ v # bs)"
proof -
  have "x \<le> v" if "x \<in> set as" for x
  proof -
    have "as \<noteq> []" "sorted as" using that assms(1) by (auto simp: sorted_append)
    then obtain bs' where "as = bs' @ [last as]" by (metis append_butlast_last_id)
    then have "x \<in> set (bs' @ [last as])" "sorted (bs' @ [last as])" using that \<open>sorted as\<close> by simp_all
    then have "x \<le> last as" unfolding sorted_append by auto
    then show ?thesis using assms(2) \<open>as \<noteq> []\<close> by auto
  qed
  moreover have "v \<le> y" if "y \<in> set bs" for y
    using that assms(1,3) by (cases bs) (auto simp: sorted_append)
  ultimately show ?thesis using assms(1) by (auto simp: sorted_append)
qed

text \<open>A sorted list in which one element is replaced and moved is sorted again.\<close>

lemma resorted:
  assumes "sorted xs" and "i < length xs" and "mf_down (xs[i := v]) i = (ys, j)"
  shows "sorted (mf_up ys j) \<and> mset (mf_up ys j) = mset xs - {# xs ! i #} + {# v #} \<and> length (mf_up ys j) = length xs"
proof -
  let ?as = "take i xs" and ?bs = "drop (Suc i) xs"
  have xs: "xs = ?as @ xs ! i # ?bs" using assms(2) by (rule id_take_nth_drop)
  have upd: "xs[i := v] = ?as @ v # ?bs" using assms(2) by (simp add: upd_conv_take_nth_drop)
  have len: "length ?as = i" using assms(2) by simp
  obtain as1 bs1 where d: "mf_down (?as @ v # ?bs) (length ?as) = (as1 @ v # bs1, length as1)" "as1 @ bs1 = ?as @ ?bs"
      "as1 = [] \<or> last as1 \<le> v"
    using mf_down_ok by blast
  have ys: "ys = as1 @ v # bs1" "j = length as1" using assms(3) d(1) upd len by simp_all
  obtain as2 bs2 where u: "mf_up (as1 @ v # bs1) (length as1) = as2 @ v # bs2" "as2 @ bs2 = as1 @ bs1"
      "as2 = [] \<or> last as2 \<le> v" "bs2 = [] \<or> v \<le> hd bs2"
    using mf_up_ok [OF d(3)] by blast
  have "sorted (?as @ ?bs)" using assms(1) xs by (metis sorted_append sorted_wrt.simps(2) Un_iff insert_iff list.set(2) set_append)
  then have "sorted (as2 @ v # bs2)" using u(2-4) d(2) by (intro sorted_insert) simp_all
  moreover have "mset (as2 @ v # bs2) = mset (?as @ ?bs) + {# v #}" using arg_cong [OF u(2), of mset] arg_cong [OF d(2), of mset] by simp
  moreover have "mset xs = mset (?as @ ?bs) + {# xs ! i #}" by (subst xs) simp
  moreover have "length (as2 @ v # bs2) = Suc (length (as2 @ bs2))" by simp
  then have "length (as2 @ v # bs2) = length xs" using u(2) d(2) assms(2) by simp
  ultimately show ?thesis unfolding ys u(1) by simp
qed


section \<open>The window\<close>

definition mf_ok :: "median_filter \<Rightarrow> bool" where
  "mf_ok f \<longleftrightarrow> odd (mf_size f) \<and> length (mf_history f) = mf_size f \<and> mf_head f < mf_size f \<and> sorted (mf_sorted f) \<and>
     mset (mf_sorted f) = mset (mf_history f)"

text \<open>The last values, the oldest first.\<close>

definition mf_window :: "median_filter \<Rightarrow> int list" where
  "mf_window f = drop (mf_head f) (mf_history f) @ take (mf_head f) (mf_history f)"

definition median :: "int list \<Rightarrow> int" where
  "median xs = sort xs ! (length xs div 2)"

lemma mf_new_ok: "mf_ok (mf_new n) \<and> mf_window (mf_new n) = replicate (mf_size (mf_new n)) 0"
  by (auto simp: mf_ok_def mf_new_def mf_window_def Let_def sorted_replicate odd_iff_mod_2_eq_one)

lemma mset_rotated: "mset (drop k xs) + mset (take k xs) = mset xs"
  by (metis append_take_drop_id mset_append union_commute)

lemma mf_process_ok:
  assumes "mf_ok f"
  shows "\<exists>f'. mf_process v f = Some (f', median (tl (mf_window f) @ [v])) \<and> mf_ok f' \<and> mf_size f' = mf_size f \<and>
    mf_window f' = tl (mf_window f) @ [v]"
proof -
  let ?h = "mf_head f" and ?xs = "mf_history f" and ?n = "mf_size f"
  note ok = assms [unfolded mf_ok_def]
  have h: "?h < length ?xs" using ok by simp
  have pos: "0 < ?n" using ok by simp
  have len: "length (mf_sorted f) = ?n" using ok by (metis size_mset)
  let ?i = "mf_find (?xs ! ?h) (mf_sorted f) 0"
  have "?xs ! ?h \<in> set (mf_sorted f)" using ok h by (metis nth_mem set_mset_mset)
  then have i: "?i < ?n" "mf_sorted f ! ?i = ?xs ! ?h" using mf_find_ok [of "?xs ! ?h" 0 "mf_sorted f"] len by simp_all
  obtain ys j where down: "mf_down ((mf_sorted f)[?i := v]) ?i = (ys, j)" by force
  have re: "sorted (mf_up ys j)" "mset (mf_up ys j) = mset ?xs - {# ?xs ! ?h #} + {# v #}" "length (mf_up ys j) = ?n"
    using resorted [OF _ _ down] ok i len by simp_all
  let ?f = "f\<lparr>mf_history := ?xs[?h := v], mf_head := (?h + 1) mod ?n, mf_sorted := mf_up ys j\<rparr>"
  have run: "mf_process v f = Some (?f, mf_up ys j ! (?n div 2))"
    using h len pos i down by (simp add: mf_process_def Let_def)
  have ms: "mset (mf_up ys j) = mset (?xs[?h := v])" using re(2) h by (simp add: mset_update)
  have fok: "mf_ok ?f" using ok re(1) ms by (simp add: mf_ok_def)
  have win: "mf_window ?f = tl (mf_window f) @ [v]"
  proof (cases "?h + 1 = ?n")
    case True
    then have "?xs[?h := v] = take ?h ?xs @ [v]" using h ok by (simp add: upd_conv_take_nth_drop)
    then show ?thesis using True h ok by (simp add: mf_window_def Cons_nth_drop_Suc [symmetric] drop_Suc)
  next
    case False
    then have "(?h + 1) mod ?n = ?h + 1" using ok by simp
    moreover have "drop ?h ?xs = ?xs ! ?h # drop (Suc ?h) ?xs" using h by (simp add: Cons_nth_drop_Suc)
    moreover have "take (Suc ?h) (?xs[?h := v]) = take ?h ?xs @ [v]" using h by (simp add: take_Suc_conv_app_nth)
    ultimately show ?thesis by (simp add: mf_window_def)
  qed
  have "mset (mf_window ?f) = mset (?xs[?h := v])"
    by (simp add: mf_window_def mset_rotated)
  then have "mset (tl (mf_window f) @ [v]) = mset (mf_up ys j)" unfolding win ms .
  then have "sort (tl (mf_window f) @ [v]) = mf_up ys j" using re(1) by (intro properties_for_sort) simp_all
  moreover have "length (tl (mf_window f) @ [v]) = ?n" using ok pos by (simp add: mf_window_def)
  ultimately have "median (tl (mf_window f) @ [v]) = mf_up ys j ! (?n div 2)" by (simp add: median_def)
  then show ?thesis using run fok win by simp
qed

fun mf_run :: "int list \<Rightarrow> median_filter \<Rightarrow> (median_filter \<times> int list) option" where
  "mf_run [] f = Some (f, [])"
| "mf_run (v # vs) f = do { (f, m) \<leftarrow> mf_process v f; (f, ms) \<leftarrow> mf_run vs f; Some (f, m # ms) }"

lemma length_window: "mf_ok f \<Longrightarrow> length (mf_window f) = mf_size f"
  by (simp add: mf_ok_def mf_window_def)

lemma mf_run_ok:
  assumes "mf_ok f"
  shows "\<exists>f' ms. mf_run vs f = Some (f', ms) \<and> mf_ok f' \<and> mf_size f' = mf_size f \<and> length ms = length vs \<and>
    (\<forall>k < length vs. ms ! k = median (drop (Suc k) (mf_window f @ take (Suc k) vs)))"
  using assms
proof (induction vs arbitrary: f)
  case (Cons v vs)
  obtain f1 where f1: "mf_process v f = Some (f1, median (tl (mf_window f) @ [v]))" "mf_ok f1" "mf_size f1 = mf_size f" "mf_window f1 = tl (mf_window f) @ [v]"
    using mf_process_ok [OF Cons.prems] by blast
  obtain f' ms where r: "mf_run vs f1 = Some (f', ms)" "mf_ok f'" "mf_size f' = mf_size f1" "length ms = length vs"
      "\<forall>k < length vs. ms ! k = median (drop (Suc k) (mf_window f1 @ take (Suc k) vs))"
    using Cons.IH [OF f1(2)] by blast
  have ne: "mf_window f \<noteq> []" using length_window [OF Cons.prems] Cons.prems by (auto simp: mf_ok_def)
  have shift: "drop (Suc (Suc k)) (mf_window f @ take (Suc (Suc k)) (v # vs)) = drop (Suc k) (mf_window f1 @ take (Suc k) vs)" for k
    using ne by (cases "mf_window f") (simp_all add: f1(4))
  have "(median (tl (mf_window f) @ [v]) # ms) ! k = median (drop (Suc k) (mf_window f @ take (Suc k) (v # vs)))" if "k < Suc (length vs)" for k
  proof (cases k)
    case 0
    then show ?thesis using ne by (cases "mf_window f") simp_all
  next
    case (Suc j)
    then show ?thesis using r(5) that shift [of j] by simp
  qed
  then show ?case using f1(1,3) r(1-4) by auto
qed simp


section \<open>Properties\<close>

text \<open>
  C30: A sliding median. From a new filter, every value is answered with the median of the last
  \<open>size\<close> values, where zeros stand for what came before the first; the two vectors always hold the
  same values, the second in order.
\<close>

theorem median_of_last_values:
  "\<exists>f'. mf_run vs (mf_new n) =
      Some (f', map (\<lambda>k. median (drop (Suc k) (replicate (if even n then n + 1 else n) 0 @ take (Suc k) vs))) [0..<length vs]) \<and>
    mf_ok f' \<and> mf_size f' = (if even n then n + 1 else n)"
proof -
  have s: "mf_size (mf_new n) = (if even n then n + 1 else n)" by (simp add: mf_new_def Let_def even_iff_mod_2_eq_zero)
  obtain f' ms where r: "mf_run vs (mf_new n) = Some (f', ms)" "mf_ok f'" "mf_size f' = mf_size (mf_new n)" "length ms = length vs"
      "\<forall>k < length vs. ms ! k = median (drop (Suc k) (mf_window (mf_new n) @ take (Suc k) vs))"
    using mf_run_ok [of "mf_new n" vs] mf_new_ok by blast
  have "ms = map (\<lambda>k. median (drop (Suc k) (mf_window (mf_new n) @ take (Suc k) vs))) [0..<length vs]"
    using r(4,5) by (intro nth_equalityI) auto
  then show ?thesis using r(1-3) s mf_new_ok [of n] by simp
qed

end
