(* ===== verification/Alsa_Wire.thy ===== *)
theory Alsa_Wire
  imports Rate Sample_Convert Key_Value
begin

text \<open>
  The functions in front of the main program of the ALSA utility (\<open>vban_alsa_util/main.cpp\<close>): its own
  conversions between floats and the samples of a packet, the lookup of a value in a text, the search
  of local addresses, and its controller of the resampling ratio.
\<close>

section \<open>Samples\<close>

text \<open>\<open>std::min\<close> and \<open>std::max\<close> return the first argument when the second is not smaller or larger.\<close>

definition std_min :: "fl \<Rightarrow> fl \<Rightarrow> fl" where
  "std_min a b = (if flt b a then b else a)"

definition std_max :: "fl \<Rightarrow> fl \<Rightarrow> fl" where
  "std_max a b = (if flt a b then b else a)"

text \<open>One sample: \<open>mx\<close> is the largest sample, \<open>w\<close> the width of the integer it is cast to.\<close>

definition clip_sample :: "rat \<Rightarrow> nat \<Rightarrow> fl \<Rightarrow> int option" where
  "clip_sample mx w x =
     (let scaled = fmul f32 x (FNum False mx);
          clamped = std_max (FNum True (mx + 1)) (std_min (FNum False mx) scaled) in
      fl_to_int w (fround clamped))"

definition convertFloatToVban :: "byte list \<Rightarrow> byte list \<Rightarrow> nat \<Rightarrow> nat \<Rightarrow> byte list option" where
  "convertFloatToVban src dest n format =
     (if format = 1 then
        for_loop 0 n (\<lambda>i d. do {
          x \<leftarrow> load_f32 src i;
          v \<leftarrow> clip_sample 32767 16 x;
          mem_store d (i * 2) (le_bytes 2 v) }) dest
      else if format = 2 then
        for_loop 0 n (\<lambda>i d. do {
          x \<leftarrow> load_f32 src i;
          v \<leftarrow> clip_sample 8388607 32 x;
          mem_store d (u32_mod (i * 3)) (le_bytes 3 v) }) dest
      else Some dest)"

text \<open>The three parts of a 24-bit sample have no bits in common: their disjunction is their sum.\<close>

definition convertVbanToFloat :: "byte list \<Rightarrow> byte list \<Rightarrow> nat \<Rightarrow> nat \<Rightarrow> byte list option" where
  "convertVbanToFloat src dest n format =
     (if format = 1 then
        for_loop 0 n (\<lambda>i d. do {
          v \<leftarrow> mem_load src (2 * i) 2;
          store_f32 d i (fdiv f32 (of_int_fl f32 (sle v)) f_15) }) dest
      else if format = 2 then
        for_loop 0 n (\<lambda>i d. do {
          a \<leftarrow> pick src (u32_mod (i * 3));
          b \<leftarrow> pick src (u32_mod (i * 3) + 1);
          c \<leftarrow> pick src (u32_mod (i * 3) + 2);
          store_f32 d i (fdiv f32 (of_int_fl f32 (uint a + uint b * 2 ^ 8 + sint c * 2 ^ 16)) f_23) }) dest
      else Some dest)"


section \<open>Texts and addresses\<close>

definition is_blank :: "byte \<Rightarrow> bool" where
  "is_blank c \<longleftrightarrow> c \<in> {chr_sp, 0x09, 0x0D, 0x0A, chr_semi}"

definition getVal :: "byte list \<Rightarrow> byte list \<Rightarrow> byte list" where
  "getVal input key =
     (let search_key = key @ [chr_eq] in
      case strstr search_key input of
        None \<Rightarrow> []
      | Some pos \<Rightarrow>
          let val_start = pos + length search_key in
          if length input \<le> val_start then []
          else if input ! val_start = chr_dq then
            let rest = drop (val_start + 1) input in
            if chr_dq \<in> set rest then takeWhile (\<lambda>c. c \<noteq> chr_dq) rest else []
          else takeWhile (\<lambda>c. \<not> is_blank c) (drop val_start input))"

text \<open>
  The interfaces \<open>getifaddrs\<close> lists, with a name and, for the family \<open>AF_INET\<close>, an address;
  \<^const>\<open>None\<close> when the call fails.
\<close>

fun ip_scan :: "byte list \<Rightarrow> (byte list \<times> u32 option) list \<Rightarrow> u32 list \<Rightarrow> u32 list" where
  "ip_scan ifname [] addresses = addresses"
| "ip_scan ifname ((name, None) # ifs) addresses = ip_scan ifname ifs addresses"
| "ip_scan ifname ((name, Some ip) # ifs) addresses =
     (if ifname \<noteq> [] \<and> name = ifname then [ip]
      else ip_scan ifname ifs (if ifname = [] then addresses @ [ip] else addresses))"

definition getIPAddresses :: "(byte list \<times> u32 option) list option \<Rightarrow> byte list \<Rightarrow> u32 list" where
  "getIPAddresses ifaddr ifname = (case ifaddr of None \<Rightarrow> [] | Some ifs \<Rightarrow> ip_scan ifname ifs [])"

definition ipIsLocal :: "u32 \<Rightarrow> u32 list \<Rightarrow> bool" where
  "ipIsLocal ip ips \<longleftrightarrow> ip \<in> set ips"


section \<open>The controller\<close>

text \<open>\<open>rratio\<close> is a double, \<open>integral\<close> and \<open>error\<close> are floats; the gains are the default arguments.\<close>

record controller =
  au_rratio :: fl
  au_integral :: fl
  au_error :: fl

definition calculateRRatio :: "int \<Rightarrow> int \<Rightarrow> controller \<Rightarrow> controller" where
  "calculateRRatio needed current k =
     (let error = to_fmt f32 (fadd f64 (fmul f64 (lit f64 (9 / 10)) (to_fmt f64 (au_error k)))
            (fmul f64 (lit f64 (1 / 10)) (fsub f64 (d_int current) (d_int needed))));
          integral = fadd f32 (au_integral k) error;
          max_integral = lit f64 (3 / 1000);
          integral = (if flt max_integral (to_fmt f64 integral) then to_fmt f32 max_integral else integral);
          integral = (if flt (to_fmt f64 integral) (fneg max_integral) then to_fmt f32 (fneg max_integral) else integral);
          pi = fadd f64 (fmul f64 (lit f64 (2 / 100000)) (to_fmt f64 error))
            (fmul f64 (lit f64 (5 / 10000000)) (to_fmt f64 integral));
          r = fadd f64 (fmul f64 (au_rratio k) (lit f64 (9 / 10))) (fmul f64 (lit f64 (1 / 10)) (fsub f64 d_one pi));
          r = (if flt (lit f64 (1003 / 1000)) r then lit f64 (1003 / 1000) else r);
          r = (if flt r (lit f64 (997 / 1000)) then lit f64 (997 / 1000) else r) in
      \<lparr>au_rratio = r, au_integral = integral, au_error = error\<rparr>)"


section \<open>Rounding to single precision\<close>

lemma powi_nat: "(2 :: rat) powi int k = 2 ^ k"
  by simp

lemma rnd_f32_ulp:
  assumes "0 \<le> r" and "r < 2 ^ k" and "k \<le> 24"
  shows "\<exists>v. rnd f32 s r = FNum s v \<and> 0 \<le> v \<and> \<bar>v - r\<bar> \<le> 2 ^ k / 2 ^ 25"
proof (cases "r = 0")
  case True
  then show ?thesis by (simp add: rnd_def)
next
  case False
  then have r: "0 < r" using assms(1) by simp
  let ?e = "ulp_exp f32 r"
  let ?u = "(2::rat) powi ?e"
  let ?v = "of_int (rne (r / ?u)) * ?u"
  have u: "0 < ?u" by simp
  have "2 powi flog2 r \<le> r" by (rule flog2_bounds(1) [OF r])
  then have "2 powi flog2 r < (2 :: rat) powi int k" using assms(2) by simp
  then have "flog2 r < int k" by (simp only: powi_less_iff)
  then have "?e \<le> int k - 24" by (simp add: ulp_exp_def f32_def)
  then have "?u \<le> 2 powi (int k - 24)" by (simp only: powi_mono_iff)
  also have "\<dots> = 2 ^ k / 2 ^ 24" by (simp only: powi_diff) simp
  finally have ub: "?u \<le> 2 ^ k / 2 ^ 24" .
  have "\<bar>of_int (rne (r / ?u)) - r / ?u\<bar> * ?u \<le> 1 / 2 * ?u"
    by (rule mult_right_mono [OF rne_error]) simp
  moreover have "\<bar>of_int (rne (r / ?u)) - r / ?u\<bar> * ?u = \<bar>?v - r\<bar>"
  proof -
    have "(of_int (rne (r / ?u)) - r / ?u) * ?u = ?v - r" by (simp add: left_diff_distrib)
    then show ?thesis by (metis abs_mult abs_of_pos u)
  qed
  ultimately have err: "\<bar>?v - r\<bar> \<le> 2 ^ k / 2 ^ 25" using ub by simp
  have nn: "0 \<le> rne (r / ?u)" using r u by (intro rne_ge) simp
  have "(2 :: rat) ^ k \<le> 2 ^ 24" using assms(3) by (intro power_increasing) auto
  then have "(2 :: rat) ^ k / 2 ^ 25 \<le> 1" "(2 :: rat) ^ k \<le> 2 ^ 24" by simp_all
  then have "?v \<le> 2 ^ 24 + 1" using absD [OF err] assms(2) by linarith
  also have "\<dots> \<le> max_fin f32" by (simp add: max_fin_def f32_def)
  finally show ?thesis using False err nn by (auto simp: rnd_def Let_def)
qed

lemma rnd_f32_large:
  assumes "2 ^ k \<le> r"
  shows "rnd f32 s r = FInf s \<or> (\<exists>v. rnd f32 s r = FNum s v \<and> 2 ^ k \<le> v)"
proof -
  have r: "0 < r" using assms by (rule order_less_le_trans [rotated]) simp
  let ?e = "ulp_exp f32 r"
  let ?u = "(2::rat) powi ?e"
  have "(2 :: rat) powi int k < 2 powi (flog2 r + 1)"
    using assms flog2_bounds(2) [OF r] by simp
  then have k: "int k \<le> flog2 r" by (simp only: powi_less_iff)
  then have e: "?e = flog2 r - 23" by (simp add: ulp_exp_def f32_def)
  have "(2 :: rat) powi int 23 * ?u = 2 powi flog2 r" unfolding e by (simp only: powi_add [symmetric]) simp
  then have p: "of_int (2 ^ 23) * ?u = (2 :: rat) powi flog2 r" by simp
  have "of_int (2 ^ 23) \<le> r / ?u"
    using flog2_bounds(1) [OF r] p by (simp add: le_divide_eq)
  then have "2 ^ 23 \<le> rne (r / ?u)" by (rule rne_ge)
  then have "of_int (2 ^ 23) * ?u \<le> of_int (rne (r / ?u)) * ?u" by (intro mult_right_mono) (simp_all only: of_int_le_iff, simp)
  then have "2 powi flog2 r \<le> of_int (rne (r / ?u)) * ?u" unfolding p .
  moreover have "(2 :: rat) ^ k \<le> 2 powi flog2 r" using k by (metis powi_mono_iff powi_nat)
  ultimately have "2 ^ k \<le> of_int (rne (r / ?u)) * ?u" by linarith
  then show ?thesis using r by (auto simp: rnd_def Let_def)
qed


section \<open>Clipping\<close>

text \<open>The ideal sample of \<open>k + 1\<close> bits.\<close>

definition clip_ideal :: "nat \<Rightarrow> rat \<Rightarrow> rat" where
  "clip_ideal k x = max (- (2 ^ k)) (min (2 ^ k - 1) (x * (2 ^ k - 1)))"

lemma fround_to_int:
  assumes "0 \<le> m" and "- (2 ^ k) \<le> fl_val (FNum s m)" and "fl_val (FNum s m) \<le> 2 ^ k - 1" and "k < w"
  shows "\<exists>i. fl_to_int w (fround (FNum s m)) = Some i \<and> - (2 ^ k) \<le> i \<and> i < 2 ^ k \<and> \<bar>of_int i - fl_val (FNum s m)\<bar> \<le> 1 / 2"
proof -
  let ?i = "if s then - \<lfloor>m + 1 / 2\<rfloor> else \<lfloor>m + 1 / 2\<rfloor>"
  have f: "\<bar>of_int \<lfloor>m + 1 / 2\<rfloor> - m\<bar> \<le> 1 / 2" by (intro absI) linarith+
  have nn: "0 \<le> \<lfloor>m + 1 / 2\<rfloor>" using assms(1) by simp
  have up: "\<lfloor>m + 1 / 2\<rfloor> \<le> j" if "m \<le> of_int j" for j using that by (simp add: floor_le_iff)
  have "- (2 ^ k) \<le> ?i \<and> ?i < 2 ^ k"
  proof (cases s)
    case True
    then have "m \<le> of_int (2 ^ k)" using assms(2) by simp
    then have "\<lfloor>m + 1 / 2\<rfloor> \<le> 2 ^ k" by (rule up)
    moreover have "(0 :: int) < 2 ^ k" by simp
    ultimately show ?thesis unfolding if_P [OF True] using nn by linarith
  next
    case False
    then have "m \<le> of_int (2 ^ k - 1)" using assms(3) by simp
    then have "\<lfloor>m + 1 / 2\<rfloor> \<le> 2 ^ k - 1" by (rule up)
    moreover have "(0 :: int) < 2 ^ k" by simp
    ultimately show ?thesis unfolding if_not_P [OF False] using nn by linarith
  qed
  moreover have "(2 :: int) ^ k \<le> 2 ^ (w - 1)" using assms(4) by (intro power_increasing) auto
  ultimately have rng: "- (2 ^ k) \<le> ?i \<and> ?i < 2 ^ k" "- (2 ^ (w - 1)) \<le> ?i \<and> ?i < 2 ^ (w - 1)" by linarith+
  moreover have "\<bar>of_int ?i - fl_val (FNum s m)\<bar> \<le> 1 / 2" using f by (cases s) (auto simp: abs_minus_commute)
  moreover have "fl_to_int w (fround (FNum s m)) = (if - (2 ^ (w - 1)) \<le> ?i \<and> ?i < 2 ^ (w - 1) then Some ?i else None)"
    by (cases s) (simp_all add: Let_def)
  ultimately show ?thesis using rng unfolding if_P [OF rng(2)] by blast
qed

lemma clamp_range: "- (2 ^ k) \<le> max (- (2 ^ k)) (min (2 ^ k - 1) v) \<and> max (- (2 ^ k)) (min (2 ^ k - 1) v) \<le> 2 ^ k - 1" for v :: rat
proof -
  have "(1 :: rat) \<le> 2 ^ k" by simp
  then have "- (2 ^ k) \<le> 2 ^ k - (1 :: rat)" by linarith
  then show ?thesis by (simp add: le_max_iff_disj)
qed

lemma clamp_between:
  assumes "mx = 2 ^ k - 1" and "y = FNum s v" and "0 \<le> v"
  shows "\<exists>t m. std_max (FNum True (mx + 1)) (std_min (FNum False mx) y) = FNum t m \<and> 0 \<le> m \<and>
    fl_val (FNum t m) = max (- (2 ^ k)) (min (2 ^ k - 1) (fl_val y))"
proof -
  have "(1 :: rat) \<le> 2 ^ k" by simp
  then show ?thesis using assms by (auto simp: std_min_def std_max_def max_def min_def)
qed

lemma clip_near: "\<bar>x - y\<bar> \<le> e \<Longrightarrow> \<bar>max a (min b x) - max a (min b y)\<bar> \<le> e" for a b e :: rat
  by (auto simp: max_def min_def abs_le_iff)

lemma clip_sample_ok:
  assumes x: "x = FNum s m" "0 \<le> m" and k: "0 < k" "k \<le> 23" "k < w"
  shows "\<exists>i. clip_sample (2 ^ k - 1) w x = Some i \<and> - (2 ^ k) \<le> i \<and> i < 2 ^ k \<and> \<bar>of_int i - clip_ideal k (fl_val x)\<bar> \<le> 3 / 4"
proof -
  let ?mx = "2 ^ k - 1 :: rat" and ?r = "m * (2 ^ k - 1)"
  have one: "(1 :: rat) \<le> 2 ^ k" by simp
  have r0: "0 \<le> ?r" using x(2) one by simp
  have "fmul f32 x (FNum False ?mx) = rnd f32 s ?r" using x(1) by simp
  have val: "fl_val x * (2 ^ k - 1) = (if s then - ?r else ?r)" using x(1) by simp
  have "\<exists>t n. std_max (FNum True (?mx + 1)) (std_min (FNum False ?mx) (rnd f32 s ?r)) = FNum t n \<and> 0 \<le> n \<and>
      - (2 ^ k) \<le> fl_val (FNum t n) \<and> fl_val (FNum t n) \<le> 2 ^ k - 1 \<and> \<bar>fl_val (FNum t n) - clip_ideal k (fl_val x)\<bar> \<le> 1 / 4"
  proof (cases "?r < 2 ^ k")
    case True
    obtain v where v: "rnd f32 s ?r = FNum s v" "0 \<le> v" "\<bar>v - ?r\<bar> \<le> 2 ^ k / 2 ^ 25"
      using rnd_f32_ulp [OF r0 True] k(2) by auto
    have "(2 :: rat) ^ k \<le> 2 ^ 23" using k(2) by (intro power_increasing) auto
    then have "\<bar>v - ?r\<bar> \<le> 1 / 4" using v(3) by simp
    then have "\<bar>fl_val (FNum s v) - fl_val x * (2 ^ k - 1)\<bar> \<le> 1 / 4" unfolding val by (cases s) (auto simp: abs_minus_commute)
    then have near: "\<bar>max (- (2 ^ k)) (min (2 ^ k - 1) (fl_val (FNum s v))) - clip_ideal k (fl_val x)\<bar> \<le> 1 / 4"
      unfolding clip_ideal_def by (rule clip_near)
    obtain t n where "std_max (FNum True (?mx + 1)) (std_min (FNum False ?mx) (FNum s v)) = FNum t n" "0 \<le> n"
        "fl_val (FNum t n) = max (- (2 ^ k)) (min (2 ^ k - 1) (fl_val (FNum s v)))"
      using clamp_between [OF refl refl v(2), of k s] by blast
    then show ?thesis using near clamp_range [of k "fl_val (FNum s v)"] unfolding v(1) by (intro exI [of _ t] exI [of _ n]) (simp del: fl_val.simps)
  next
    case False
    then have big: "2 ^ k \<le> ?r" by simp
    have ideal: "clip_ideal k (fl_val x) = (if s then - (2 ^ k) else 2 ^ k - 1)"
      unfolding clip_ideal_def val using big by (simp add: max_def min_def) (insert one, linarith)
    show ?thesis
    proof (cases s)
      case True
      have "std_max (FNum True (?mx + 1)) (std_min (FNum False ?mx) (rnd f32 s ?r)) = FNum True (2 ^ k)"
        using rnd_f32_large [OF big, of s] True one by (auto simp: std_min_def std_max_def)
      then show ?thesis using ideal True by (intro exI [of _ True] exI [of _ "2 ^ k"]) (simp, insert one, linarith)
    next
      case False
      have "std_max (FNum True (?mx + 1)) (std_min (FNum False ?mx) (rnd f32 s ?r)) = FNum False ?mx"
        using rnd_f32_large [OF big, of s] False by (auto simp: std_min_def std_max_def) (insert one, linarith+)
      then show ?thesis using ideal False by (intro exI [of _ False] exI [of _ ?mx]) (simp, insert one, linarith)
    qed
  qed
  then obtain t n where tn: "std_max (FNum True (?mx + 1)) (std_min (FNum False ?mx) (rnd f32 s ?r)) = FNum t n" "0 \<le> n"
      "- (2 ^ k) \<le> fl_val (FNum t n)" "fl_val (FNum t n) \<le> 2 ^ k - 1" "\<bar>fl_val (FNum t n) - clip_ideal k (fl_val x)\<bar> \<le> 1 / 4"
    by blast
  obtain i where i: "fl_to_int w (fround (FNum t n)) = Some i" "- (2 ^ k) \<le> i" "i < 2 ^ k" "\<bar>of_int i - fl_val (FNum t n)\<bar> \<le> 1 / 2"
    using fround_to_int [OF tn(2-4) k(3)] by blast
  have "\<bar>of_int i - clip_ideal k (fl_val x)\<bar> \<le> 3 / 4" using absD [OF i(4)] absD [OF tn(5)] by (intro absI) linarith+
  moreover have "clip_sample ?mx w x = Some i" using i(1) tn(1) x(1) by (simp add: clip_sample_def Let_def)
  ultimately show ?thesis using i(2,3) by blast
qed

lemma clip_sample_special:
  assumes "0 < k" and "k < w" and "x = FNaN \<or> x = FInf s"
  shows "clip_sample (2 ^ k - 1) w x = Some (if x = FInf True then - (2 ^ k) else 2 ^ k - 1)"
proof -
  have one: "(1 :: rat) < 2 ^ k" using assms(1) by simp
  have r: "\<lfloor>(2 :: rat) ^ k - 1 / 2\<rfloor> = 2 ^ k - 1" "\<lfloor>(2 :: rat) ^ k + 1 / 2\<rfloor> = 2 ^ k"
    by (simp_all add: floor_eq_iff)
  have p: "(2 :: int) ^ k \<le> 2 ^ (w - 1)" "(0 :: int) < 2 ^ k" using assms(2) by (auto intro: power_increasing)
  then have q: "- (2 ^ (w - 1)) \<le> (2 :: int) ^ k - 1" "(2 :: int) ^ k - 1 < 2 ^ (w - 1)" by linarith+
  show ?thesis
    using assms(3) one p q by (cases s) (auto simp: clip_sample_def std_min_def std_max_def Let_def r)
qed


text \<open>What a sample of \<open>k + 1\<close> bits may be for a float.\<close>

fun clipped :: "nat \<Rightarrow> fl \<Rightarrow> int \<Rightarrow> bool" where
  "clipped k (FNum s m) i \<longleftrightarrow> \<bar>of_int i - clip_ideal k (fl_val (FNum s m))\<bar> \<le> 3 / 4"
| "clipped k (FInf s) i \<longleftrightarrow> i = (if s then - (2 ^ k) else 2 ^ k - 1)"
| "clipped k FNaN i \<longleftrightarrow> i = 2 ^ k - 1"

lemma clip_sample_total:
  assumes "exact f32 x" and "0 < k" and "k \<le> 23" and "k < w"
  shows "\<exists>i. clip_sample (2 ^ k - 1) w x = Some i \<and> - (2 ^ k) \<le> i \<and> i < 2 ^ k \<and> clipped k x i"
proof (cases x)
  case (FNum s m)
  then show ?thesis using clip_sample_ok [OF FNum _ assms(2-4)] assms(1) exact_mag_nonneg by auto
qed (use clip_sample_special [OF assms(2,4)] in auto)

definition sample_of :: "byte list \<Rightarrow> nat \<Rightarrow> fl" where
  "sample_of src i = f32_of (take 4 (drop (4 * i) src))"

lemma convert_blocks:
  assumes "w = 2 \<or> w = 3" and "4 * n \<le> length src" and "n * w \<le> length dest" and "n * w < 2 ^ 32"
  shows "\<exists>vs. length vs = n \<and> convertFloatToVban src dest n (w - 1) = Some (blit dest 0 (int_block w vs)) \<and>
    (\<forall>i < n. - (2 ^ (8 * w - 1)) \<le> vs ! i \<and> vs ! i < 2 ^ (8 * w - 1) \<and> clipped (8 * w - 1) (sample_of src i) (vs ! i))"
proof -
  let ?k = "8 * w - 1"
  have "\<exists>v. clip_sample (2 ^ ?k - 1) (if w = 2 then 16 else 32) (sample_of src i) = Some v \<and> - (2 ^ ?k) \<le> v \<and> v < 2 ^ ?k \<and>
      clipped ?k (sample_of src i) v" for i
    unfolding sample_of_def using assms(1) by (intro clip_sample_total exact_f32_of) auto
  then obtain v where v: "\<And>i. clip_sample (2 ^ ?k - 1) (if w = 2 then 16 else 32) (sample_of src i) = Some (v i)"
      "\<And>i. - (2 ^ ?k) \<le> v i" "\<And>i. v i < 2 ^ ?k" "\<And>i. clipped ?k (sample_of src i) (v i)"
    by metis
  let ?f = "\<lambda>i d. mem_store d (i * w) (le_bytes w (v i))"
  have x: "load_f32 src i = Some (sample_of src i)" if "i < n" for i
    using assms(2) that by (simp add: sample_of_def mem)
  have "convertFloatToVban src dest n (w - 1) = for_loop 0 n ?f dest"
  proof (cases "w = 2")
    case True
    have "clip_sample 32767 16 (sample_of src i) = Some (v i)" for i using v(1) [of i] True by simp
    then show ?thesis unfolding convertFloatToVban_def using True x by (simp cong: for_loop_cong)
  next
    case False
    then have w: "w = 3" using assms(1) by simp
    have "clip_sample 8388607 32 (sample_of src i) = Some (v i)" for i using v(1) [of i] w by simp
    moreover have "u32_mod (i * 3) = i * 3" if "i < n" for i using that assms(4) w by (simp add: u32_mod_def)
    ultimately show ?thesis unfolding convertFloatToVban_def using w x by simp (intro for_loop_cong, simp)
  qed
  also have "\<dots> = Some (blit dest 0 (concat (map (\<lambda>i. le_bytes w (v i)) [0..<n])))"
    using assms(3) by (intro for_loop_blocks) auto
  finally have "convertFloatToVban src dest n (w - 1) = Some (blit dest 0 (int_block w (map v [0..<n])))"
    by (simp add: int_block_def comp_def)
  then show ?thesis using v(2-4) by (intro exI [of _ "map v [0..<n]"]) simp
qed



section \<open>The law of the controller\<close>

text \<open>The state stays in these bounds; the ideal step is in exact arithmetic.\<close>

definition ctl_ok :: "controller \<Rightarrow> bool" where
  "ctl_ok k \<longleftrightarrow> is_num (au_rratio k) \<and> mag_ok (au_rratio k) \<and> 9 / 10 \<le> fl_val (au_rratio k) \<and> fl_val (au_rratio k) \<le> 11 / 10 \<and>
     is_num (au_integral k) \<and> mag_ok (au_integral k) \<and> \<bar>fl_val (au_integral k)\<bar> \<le> 4 / 1000 \<and>
     is_num (au_error k) \<and> mag_ok (au_error k) \<and> \<bar>fl_val (au_error k)\<bar> \<le> 2000000"

definition au_ideal :: "rat \<Rightarrow> rat \<Rightarrow> rat \<Rightarrow> rat" where
  "au_ideal r e i = max (997 / 1000) (min (1003 / 1000) (r * (9 / 10) + 1 / 10 * (1 - (2 / 100000 * e + 5 / 10000000 * i))))"

text \<open>Rounding to single and to double precision.\<close>

lemma rnd_f32_rel:
  assumes "0 \<le> r" and "r < 2 ^ 23"
  shows "\<exists>v. rnd f32 s r = FNum s v \<and> 0 \<le> v \<and> \<bar>v - r\<bar> \<le> (r + 1) / 2 ^ 24"
proof (cases "r < 1")
  case True
  then have "r < 2 ^ 0" by simp
  then obtain v where v: "rnd f32 s r = FNum s v" "0 \<le> v" "\<bar>v - r\<bar> \<le> 2 ^ 0 / 2 ^ 25"
    using rnd_f32_ulp [OF assms(1)] by blast
  have "(2 :: rat) ^ 0 / 2 ^ 25 \<le> (r + 1) / 2 ^ 24" using assms(1) by simp
  then show ?thesis using v by (meson order_trans)
next
  case False
  let ?n = "nat \<lfloor>r\<rfloor>"
  let ?k = "Suc (nlog2 ?n)"
  have n: "0 < ?n" "of_nat ?n \<le> r" "r < of_nat ?n + 1" using False floor_correct [of r] by (auto simp: le_floor_iff)
  have b: "2 ^ nlog2 ?n \<le> ?n" "?n + 1 \<le> 2 ^ ?k" using nlog2_bounds [OF n(1)] by auto
  then have "(of_nat (2 ^ nlog2 ?n) :: rat) \<le> of_nat ?n" "(of_nat (?n + 1) :: rat) \<le> of_nat (2 ^ ?k)"
    by (simp_all only: of_nat_le_iff)
  then have p: "(2 :: rat) ^ nlog2 ?n \<le> of_nat ?n" "of_nat ?n + 1 \<le> (2 :: rat) ^ ?k"
    by (simp_all only: of_nat_power of_nat_numeral of_nat_add of_nat_1)
  have lt: "r < 2 ^ ?k" using p(2) n(3) by linarith
  have "(2 :: rat) ^ nlog2 ?n < 2 ^ 23" using p(1) n(2) assms(2) by linarith
  then have "nlog2 ?n < 23" by (rule power_less_imp_less_exp [rotated]) simp
  then have k: "?k \<le> 24" by simp
  obtain v where v: "rnd f32 s r = FNum s v" "0 \<le> v" "\<bar>v - r\<bar> \<le> 2 ^ ?k / 2 ^ 25"
    using rnd_f32_ulp [OF assms(1) lt k] by blast
  have "(2 :: rat) ^ nlog2 ?n \<le> r" using p(1) n(2) by (rule order_trans)
  then have "(2 :: rat) ^ ?k / 2 ^ 25 \<le> (r + 1) / 2 ^ 24" by simp
  then show ?thesis using v by (meson order_trans)
qed

lemma near_f32:
  assumes "is_num x" and "mag_ok x" and "\<bar>fl_val x\<bar> < 2 ^ 23"
  shows "is_num (to_fmt f32 x) \<and> mag_ok (to_fmt f32 x) \<and> \<bar>fl_val (to_fmt f32 x) - fl_val x\<bar> \<le> (\<bar>fl_val x\<bar> + 1) / 2 ^ 24"
proof -
  obtain s m where x: "x = FNum s m" "0 \<le> m" using assms(1,2) by (cases x) auto
  have m: "m < 2 ^ 23" "\<bar>fl_val x\<bar> = m" using assms(3) x by (cases s; auto)+
  obtain v where "rnd f32 s m = FNum s v" "0 \<le> v" "\<bar>v - m\<bar> \<le> (m + 1) / 2 ^ 24"
    using rnd_f32_rel [OF x(2) m(1)] by blast
  then show ?thesis using x(1) unfolding m(2) by (cases s) (auto simp: abs_minus_commute)
qed

lemma add_f32:
  assumes "is_num x" and "is_num y" and "\<bar>fl_val x + fl_val y\<bar> < 2 ^ 23"
  shows "is_num (fadd f32 x y) \<and> mag_ok (fadd f32 x y) \<and>
    \<bar>fl_val (fadd f32 x y) - (fl_val x + fl_val y)\<bar> \<le> (\<bar>fl_val x + fl_val y\<bar> + 1) / 2 ^ 24"
proof -
  let ?v = "fl_val x + fl_val y"
  obtain s m t n where xy: "x = FNum s m" "y = FNum t n" using assms(1,2) by (cases x; cases y) auto
  have eq: "fadd f32 x y = (if ?v = 0 then FNum (s \<and> t) 0 else rnd f32 (?v < 0) \<bar>?v\<bar>)"
    unfolding xy by (simp only: fadd.simps Let_def)
  obtain w where w: "rnd f32 (?v < 0) \<bar>?v\<bar> = FNum (?v < 0) w" "0 \<le> w" "\<bar>w - \<bar>?v\<bar>\<bar> \<le> (\<bar>?v\<bar> + 1) / 2 ^ 24"
    using rnd_f32_rel [OF abs_ge_zero assms(3)] by auto
  have "\<bar>fl_val (FNum (?v < 0) w) - ?v\<bar> = \<bar>w - \<bar>?v\<bar>\<bar>" by (auto simp: abs_if)
  then show ?thesis using w unfolding eq by (cases "?v = 0") simp_all
qed

lemma near_f64:
  assumes "is_num x" and "mag_ok x" and "\<bar>fl_val x\<bar> \<le> B" and B: "B \<le> 2 ^ 100"
  shows "is_num (to_fmt f64 x) \<and> mag_ok (to_fmt f64 x) \<and> \<bar>fl_val (to_fmt f64 x) - fl_val x\<bar> \<le> (B + 1) / 2 ^ 53"
proof -
  obtain s m where x: "x = FNum s m" "0 \<le> m" using assms(1,2) by (cases x) auto
  let ?v = "fl_val x"
  have v: "\<bar>?v\<bar> = m" "?v \<noteq> 0 \<Longrightarrow> s = (?v < 0)" using x by (auto split: if_splits)
  have big: "\<bar>?v\<bar> \<le> 2 ^ 500" using assms(3) B by (auto elim!: order_trans)
  have n: "near (to_fmt f64 x) ?v" "mag_ok (to_fmt f64 x)" using near_rnd [OF big v(2)] unfolding v(1) by (simp_all add: x(1))
  then show ?thesis using near_by [OF n(1) assms(3)] near_is_num [OF n(1)] by blast
qed

lemma fmul_commute: "fmul f x y = fmul f y x"
  by (cases x; cases y) (simp_all add: mult.commute eq_commute)

text \<open>The low-pass filter of the error.\<close>

lemma rounding_sum:
  "A \<le> w + 5 / 1000000000 \<Longrightarrow> 0 \<le> w \<Longrightarrow> (A + 1) / 2 ^ 24 + 5 / 1000000000 \<le> (w + 1) / (2 ^ 23 :: rat)"
  by (simp add: field_simps)

lemma error_step:
  assumes "ctl_ok k" and "\<bar>cur\<bar> \<le> 1000000" and "\<bar>need\<bar> \<le> 1000000" and "\<bar>cur - need\<bar> \<le> 1000000"
    and e: "e = to_fmt f32 (fadd f64 (fmul f64 (lit f64 (9 / 10)) (to_fmt f64 (au_error k)))
            (fmul f64 (lit f64 (1 / 10)) (fsub f64 (d_int cur) (d_int need))))"
    and v: "v = 9 / 10 * fl_val (au_error k) + 1 / 10 * of_int (cur - need)"
  shows "is_num e \<and> mag_ok e \<and> \<bar>fl_val e\<bar> \<le> 1900001 \<and> \<bar>fl_val e - v\<bar> \<le> (\<bar>v\<bar> + 1) / 2 ^ 23"
proof -
  let ?E = "fl_val (au_error k)"
  obtain D :: rat where DD: "D = of_int (cur - need)" by blast
  have E: "is_num (au_error k)" "mag_ok (au_error k)" "\<bar>?E\<bar> \<le> 2000000" using assms(1) by (simp_all add: ctl_ok_def)
  have D: "\<bar>D\<bar> \<le> 1000000" using assms(4) of_int_le_iff [of "\<bar>cur - need\<bar>" 1000000, where ?'a = rat] unfolding DD by simp
  let ?x = "to_fmt f64 (au_error k)"
  have x: "is_num ?x" "mag_ok ?x" "\<bar>fl_val ?x - ?E\<bar> \<le> 1 / 1000000000" using near_f64 [OF E(1-3)] by auto
  have x7: "\<bar>fl_val ?x\<bar> \<le> 2000001" using absD [OF x(3)] abs_leD [OF E(3)] by (intro absI) linarith+
  let ?a = "fmul f64 (lit f64 (9 / 10)) ?x"
  have a: "is_num ?a" "\<bar>fl_val ?a - 9 / 10 * fl_val ?x\<bar> \<le> 1 / 1000000000" using lit_times_by [OF _ x(1,2) x7, of "9 / 10"] by auto
  have ci: "is_num (d_int cur)" "fl_val (d_int cur) = of_int cur" "is_num (d_int need)" "fl_val (d_int need) = of_int need"
    using d_int_num [of cur] d_int_num [of need] assms(2,3) by auto
  let ?y = "fsub f64 (d_int cur) (d_int need)"
  have yv: "fl_val (d_int cur) - fl_val (d_int need) = D" using ci unfolding DD by simp
  have ybig: "\<bar>fl_val (d_int cur) - fl_val (d_int need)\<bar> \<le> 2 ^ 500" unfolding yv using D by (rule order_trans) simp
  have yn: "near ?y D" "mag_ok ?y" using near_fsub [OF ci(1,3) ybig] unfolding yv .
  have y: "\<bar>fl_val ?y - D\<bar> \<le> 1 / 1000000000" using near_by [OF yn(1) D] by simp
  have y7: "\<bar>fl_val ?y\<bar> \<le> 1000001" using absD [OF y] abs_leD [OF D] by (intro absI) linarith+
  let ?b = "fmul f64 (lit f64 (1 / 10)) ?y"
  have b: "is_num ?b" "\<bar>fl_val ?b - 1 / 10 * fl_val ?y\<bar> \<le> 1 / 1000000000"
    using lit_times_by [OF _ near_is_num [OF yn(1)] yn(2) y7, of "1 / 10"] by auto
  have ab: "\<bar>fl_val ?a + fl_val ?b - (9 / 10 * ?E + 1 / 10 * D)\<bar> \<le> 4 / 1000000000"
    using absD [OF x(3)] absD [OF a(2)] absD [OF y] absD [OF b(2)] by (intro absI) linarith+
  have ab8: "\<bar>fl_val ?a + fl_val ?b\<bar> \<le> 1900001" using absD [OF ab] abs_leD [OF E(3)] abs_leD [OF D] by (intro absI) linarith+
  let ?s = "fadd f64 ?a ?b"
  have s: "is_num ?s" "mag_ok ?s" "\<bar>fl_val ?s - (fl_val ?a + fl_val ?b)\<bar> \<le> 1 / 1000000000" using add_by [OF a(1) b(1) ab8] by auto
  have sv: "\<bar>fl_val ?s - v\<bar> \<le> 5 / 1000000000" using absD [OF s(3)] absD [OF ab] unfolding v DD [symmetric] by (intro absI) linarith+
  have vb: "\<bar>v\<bar> \<le> 1900000" using abs_leD [OF E(3)] abs_leD [OF D] unfolding v DD [symmetric] by (intro absI) linarith+
  have s21: "\<bar>fl_val ?s\<bar> < 2 ^ 23" using absD [OF sv] abs_leD [OF vb] by (simp add: abs_less_iff)
  have f: "is_num e" "mag_ok e" "\<bar>fl_val e - fl_val ?s\<bar> \<le> (\<bar>fl_val ?s\<bar> + 1) / 2 ^ 24" using near_f32 [OF s(1,2) s21] unfolding e by auto
  have "\<bar>fl_val ?s\<bar> \<le> \<bar>v\<bar> + 5 / 1000000000" using sv by linarith
  then have "(\<bar>fl_val ?s\<bar> + 1) / 2 ^ 24 + 5 / 1000000000 \<le> (\<bar>v\<bar> + 1) / 2 ^ 23"
    by (rule rounding_sum) simp
  then have ev: "\<bar>fl_val e - v\<bar> \<le> (\<bar>v\<bar> + 1) / 2 ^ 23" using f(3) sv by linarith
  have "(\<bar>v\<bar> + 1) / 2 ^ 23 \<le> 1" using vb by simp
  then have "\<bar>fl_val e\<bar> \<le> 1900001" using ev vb by linarith
  then show ?thesis using f(1,2) ev by blast
qed

lemma const_f64:
  assumes "\<bar>c\<bar> \<le> 2"
  shows "is_num (lit f64 c) \<and> mag_ok (lit f64 c) \<and> \<bar>fl_val (lit f64 c) - c\<bar> \<le> 3 / 2 ^ 53"
proof -
  have big: "\<bar>c\<bar> \<le> 2 ^ 500" using assms by (rule order_trans) simp
  show ?thesis
    using near_by [OF near_lit [OF big] assms] near_is_num [OF near_lit [OF big]] mag_ok_lit [OF big] by simp
qed

text \<open>The proportional gain is a small constant: its rounding error is relative to its size.\<close>

lemma lit_gain:
  "is_num (lit f64 (2 / 100000)) \<and> mag_ok (lit f64 (2 / 100000)) \<and> \<bar>fl_val (lit f64 (2 / 100000)) - 2 / 100000\<bar> \<le> 1 / 2 ^ 68"
proof -
  have "flog2 (1 / 50000) = - 16" by (rule flog2_unique) (simp_all add: power_int_minus)
  then have u: "ulp_exp f64 (1 / 50000) = - 68" by (simp add: ulp_exp_def f64_def)
  have p: "(2 :: rat) powi - 68 = 1 / 2 ^ 68" by (simp add: power_int_minus)
  have n: "0 \<le> rne (2 ^ 68 / 50000)" by (rule rne_ge) simp
  let ?v = "of_int (rne (2 ^ 68 / 50000)) / 2 ^ 68 :: rat"
  have e: "\<bar>?v - 1 / 50000\<bar> \<le> 1 / 2 ^ 68"
    using absD [OF rne_error [of "2 ^ 68 / 50000"]] by (intro absI) (simp_all add: field_simps)
  have "(1 :: rat) / 2 ^ 68 \<le> 1 / 2" by simp
  then have "?v \<le> 1" using absD [OF e] by linarith
  also have "\<dots> \<le> max_fin f64" by (simp add: max_fin_def f64_def)
  finally have "\<not> max_fin f64 < ?v" by simp
  then have "lit f64 (2 / 100000) = FNum False ?v" by (simp add: lit_def rnd_def Let_def u p)
  then show ?thesis using e n by simp
qed

lemma gain_times:
  assumes "is_num x" and "mag_ok x" and "\<bar>fl_val x\<bar> \<le> 2000001"
  shows "is_num (fmul f64 (lit f64 (2 / 100000)) x) \<and>
    \<bar>fl_val (fmul f64 (lit f64 (2 / 100000)) x) - 2 / 100000 * fl_val x\<bar> \<le> 2 / 10 ^ 14"
proof -
  let ?l = "lit f64 (2 / 100000)"
  have e1: "\<bar>fl_val ?l * fl_val x - 2 / 100000 * fl_val x\<bar> \<le> 1 / 2 ^ 68 * 2000001"
    unfolding left_diff_distrib [symmetric] abs_mult using lit_gain assms(3) by (intro mult_mono) auto
  have "\<bar>fl_val ?l * fl_val x - 2 / 100000 * fl_val x\<bar> \<le> 1 / 10" by (rule order_trans [OF e1]) simp
  from absD [OF this] have b: "\<bar>fl_val ?l * fl_val x\<bar> \<le> 41" using abs_leD [OF assms(3)] by (intro absI) linarith+
  have m: "near (fmul f64 ?l x) (fl_val ?l * fl_val x)"
    using near_fmul [of ?l x] lit_gain assms order_trans [OF b, of "2 ^ 500"] by auto
  have "\<bar>fl_val (fmul f64 ?l x) - 2 / 100000 * fl_val x\<bar> \<le> (41 + 1) / 2 ^ 53 + 1 / 2 ^ 68 * 2000001"
    using absD [OF near_by [OF m b]] absD [OF e1] by (intro absI) linarith+
  also have "\<dots> \<le> (2 / 10 ^ 14 :: rat)" by simp
  finally show ?thesis using near_is_num [OF m] by blast
qed

lemma mag_ok_fneg [simp]: "mag_ok (fneg x) = mag_ok x"
  by (cases x) auto

text \<open>The integral is held within the limits, up to rounding.\<close>

lemma integral_step:
  assumes i: "is_num i" "mag_ok i" "\<bar>fl_val i\<bar> \<le> 2000000"
    and j: "j = (if flt (lit f64 (3 / 1000)) (to_fmt f64 i) then to_fmt f32 (lit f64 (3 / 1000)) else i)"
    and k: "k = (if flt (to_fmt f64 j) (fneg (lit f64 (3 / 1000))) then to_fmt f32 (fneg (lit f64 (3 / 1000))) else j)"
  shows "is_num k \<and> mag_ok k \<and> \<bar>fl_val k - max (- (3 / 1000)) (min (3 / 1000) (fl_val i))\<bar> \<le> 2 / 10000000"
proof -
  let ?c = "lit f64 (3 / 1000)"
  have c: "is_num ?c" "mag_ok ?c" "\<bar>fl_val ?c - 3 / 1000\<bar> \<le> 3 / 2 ^ 53" using const_f64 [of "3 / 1000"] by auto
  have cb: "3 / 1000 - 1 / 1000000000 \<le> fl_val ?c" "fl_val ?c \<le> 3 / 1000 + 1 / 1000000000" using absD [OF c(3)] by auto
  have c1: "\<bar>fl_val ?c\<bar> < 2 ^ 23" "\<bar>fl_val (fneg ?c)\<bar> < 2 ^ 23" "\<bar>fl_val ?c\<bar> \<le> 1" using cb by (simp_all add: abs_less_iff abs_le_iff)
  have tiny: "(\<bar>fl_val ?c\<bar> + 1) / 2 ^ 24 \<le> 65 / 1000000000" using cb by (simp add: abs_if)
  have f: "is_num (to_fmt f32 ?c)" "mag_ok (to_fmt f32 ?c)" "\<bar>fl_val (to_fmt f32 ?c) - fl_val ?c\<bar> \<le> 65 / 1000000000"
    using near_f32 [OF c(1,2) c1(1)] tiny by auto
  have g: "is_num (to_fmt f32 (fneg ?c))" "mag_ok (to_fmt f32 (fneg ?c))" "\<bar>fl_val (to_fmt f32 (fneg ?c)) - fl_val (fneg ?c)\<bar> \<le> 65 / 1000000000"
    using near_f32 [OF _ _ c1(2)] c(1,2) tiny by auto
  have i64: "is_num (to_fmt f64 i)" "\<bar>fl_val (to_fmt f64 i) - fl_val i\<bar> \<le> 1 / 1000000000" using near_f64 [OF i] by auto
  have j1: "is_num j" "mag_ok j" "\<bar>fl_val j - min (3 / 1000) (fl_val i)\<bar> \<le> 7 / 100000000"
  proof -
    show "is_num j" "mag_ok j" using i f j by simp_all
    show "\<bar>fl_val j - min (3 / 1000) (fl_val i)\<bar> \<le> 7 / 100000000"
    proof (cases "flt ?c (to_fmt f64 i)")
      case True
      then have "fl_val ?c < fl_val (to_fmt f64 i)" using c(1) i64(1) by simp
      then show ?thesis using absD [OF f(3)] absD [OF i64(2)] cb j True by (intro absI) (simp_all add: min_def)
    next
      case False
      then have "fl_val (to_fmt f64 i) \<le> fl_val ?c" using c(1) i64(1) by simp
      then show ?thesis using absD [OF i64(2)] cb j False by (intro absI) (simp_all add: min_def)
    qed
  qed
  have jb: "\<bar>fl_val j\<bar> \<le> 2000001" using absD [OF j1(3)] abs_leD [OF i(3)] by (intro absI) (simp_all add: min_def split: if_splits)
  have j64: "is_num (to_fmt f64 j)" "\<bar>fl_val (to_fmt f64 j) - fl_val j\<bar> \<le> 1 / 1000000000" using near_f64 [OF j1(1,2) jb] by auto
  have k1: "is_num k \<and> mag_ok k \<and> \<bar>fl_val k - max (- (3 / 1000)) (fl_val j)\<bar> \<le> 7 / 100000000"
  proof (cases "flt (to_fmt f64 j) (fneg ?c)")
    case True
    then have "fl_val (to_fmt f64 j) < - fl_val ?c" using c(1) j64(1) by simp
    then have "\<bar>fl_val k - max (- (3 / 1000)) (fl_val j)\<bar> \<le> 7 / 100000000"
      using absD [OF g(3)] absD [OF j64(2)] cb k True by (intro absI) (simp_all add: max_def)
    then show ?thesis using True g k by simp
  next
    case False
    then have "- fl_val ?c \<le> fl_val (to_fmt f64 j)" using c(1) j64(1) by simp
    then have "\<bar>fl_val k - max (- (3 / 1000)) (fl_val j)\<bar> \<le> 7 / 100000000"
      using absD [OF j64(2)] cb k False by (intro absI) (simp_all add: max_def)
    then show ?thesis using False j1 k by simp
  qed
  have "\<bar>max (- (3 / 1000)) (fl_val j) - max (- (3 / 1000)) (min (3 / 1000) (fl_val i))\<bar> \<le> 7 / 100000000"
    using absD [OF j1(3)] by (intro absI) (auto simp: max_def)
  then have "\<bar>fl_val k - max (- (3 / 1000)) (min (3 / 1000) (fl_val i))\<bar> \<le> 2 / 10000000" using k1 by linarith
  then show ?thesis using k1 by blast
qed

text \<open>A rounded sum, held within the limits: far from them the rounding does not matter.\<close>

lemma clamp_sum:
  assumes "\<bar>w - v\<bar> \<le> (\<bar>v\<bar> + 1) / 2 ^ 24"
  shows "\<bar>max (- (3 / 1000)) (min (3 / 1000) w) - max (- (3 / 1000)) (min (3 / 1000) v)\<bar> \<le> (2 / 10000000 :: rat)"
proof -
  have w: "w \<le> v + (\<bar>v\<bar> + 1) / 2 ^ 24" "v - (\<bar>v\<bar> + 1) / 2 ^ 24 \<le> w" using absD [OF assms] by blast+
  consider "\<bar>v\<bar> \<le> 1" | "1 < v" | "v < - 1" by linarith
  then show ?thesis
  proof cases
    case 1
    then have "(\<bar>v\<bar> + 1) / 2 ^ 24 \<le> 2 / 10000000" by simp
    then have "\<bar>w - v\<bar> \<le> 2 / 10000000" using assms by linarith
    from absD [OF this] show ?thesis by (intro absI) (auto simp: max_def min_def)
  next
    case 2
    then have "1 / 2 \<le> w" using w(2) by (simp add: field_simps)
    then show ?thesis using 2 by (simp add: min_def max_def)
  next
    case 3
    then have "w \<le> - (1 / 2)" using w(1) by (simp add: field_simps)
    then show ?thesis using 3 by (simp add: min_def max_def)
  qed
qed

lemma clamp_close:
  assumes "is_num z" and "is_num lo" and "is_num hi" and "\<bar>fl_val z - v\<bar> \<le> e" and "\<bar>fl_val lo - a\<bar> \<le> e" and "\<bar>fl_val hi - b\<bar> \<le> e"
    and "fl_val lo \<le> fl_val hi" and "a \<le> b"
    and "y = (let r = (if flt hi z then hi else z) in if flt r lo then lo else r)"
  shows "\<bar>fl_val y - max a (min b v)\<bar> \<le> e"
proof -
  have y: "fl_val y = max (fl_val lo) (min (fl_val hi) (fl_val z))" using assms by (auto simp: max_def min_def)
  have "max a (min b v) - e \<le> max (fl_val lo) (min (fl_val hi) (fl_val z)) \<and>
      max (fl_val lo) (min (fl_val hi) (fl_val z)) \<le> max a (min b v) + e"
    using absD [OF assms(4)] absD [OF assms(5)] absD [OF assms(6)] assms(7,8) by (simp add: max_def min_def)
  then show ?thesis unfolding y by (intro absI) linarith+
qed

lemma ratio_step:
  assumes "is_num rr" "mag_ok rr" "9 / 10 \<le> fl_val rr" "fl_val rr \<le> 11 / 10"
    and "is_num e" "mag_ok e" "\<bar>fl_val e\<bar> \<le> 2000000" and "is_num i" "mag_ok i" "\<bar>fl_val i\<bar> \<le> 4 / 1000"
    and r: "r = (let pi = fadd f64 (fmul f64 (lit f64 (2 / 100000)) (to_fmt f64 e)) (fmul f64 (lit f64 (5 / 10000000)) (to_fmt f64 i));
            r = fadd f64 (fmul f64 rr (lit f64 (9 / 10))) (fmul f64 (lit f64 (1 / 10)) (fsub f64 d_one pi));
            r = (if flt (lit f64 (1003 / 1000)) r then lit f64 (1003 / 1000) else r) in
          if flt r (lit f64 (997 / 1000)) then lit f64 (997 / 1000) else r)"
  shows "is_num r \<and> mag_ok r \<and> fl_val (lit f64 (997 / 1000)) \<le> fl_val r \<and> fl_val r \<le> fl_val (lit f64 (1003 / 1000)) \<and>
    \<bar>fl_val r - au_ideal (fl_val rr) (fl_val e) (fl_val i)\<bar> \<le> 1 / 10000000000000"
proof -
  have e64: "is_num (to_fmt f64 e)" "mag_ok (to_fmt f64 e)" "\<bar>fl_val (to_fmt f64 e) - fl_val e\<bar> \<le> 1 / 1000000000"
    using near_f64 [OF assms(5,6,7)] by auto
  have i64: "is_num (to_fmt f64 i)" "mag_ok (to_fmt f64 i)" "\<bar>fl_val (to_fmt f64 i) - fl_val i\<bar> \<le> 1 / 1000000000"
    using near_f64 [OF assms(8,9), of 1] assms(10) by auto
  have e7: "\<bar>fl_val (to_fmt f64 e)\<bar> \<le> 2000001" using absD [OF e64(3)] abs_leD [OF assms(7)] by (intro absI) linarith+
  have i7: "\<bar>fl_val (to_fmt f64 i)\<bar> \<le> 1" using absD [OF i64(3)] abs_leD [OF assms(10)] by (intro absI) linarith+
  let ?p = "fmul f64 (lit f64 (2 / 100000)) (to_fmt f64 e)" and ?q = "fmul f64 (lit f64 (5 / 10000000)) (to_fmt f64 i)"
  have p: "is_num ?p" "\<bar>fl_val ?p - 2 / 100000 * fl_val (to_fmt f64 e)\<bar> \<le> 2 / 100000000000000" using gain_times [OF e64(1,2) e7] by auto
  have q: "is_num ?q" "\<bar>fl_val ?q - 5 / 10000000 * fl_val (to_fmt f64 i)\<bar> \<le> 1 / 100000000000000"
    using lit_times_by [OF _ i64(1,2) i7, of "5 / 10000000"] by auto
  have e65: "\<bar>fl_val (to_fmt f64 e) - fl_val e\<bar> \<le> 1 / 4000000000" using near_f64 [OF assms(5,6,7)] by auto
  have i65: "\<bar>fl_val (to_fmt f64 i) - fl_val i\<bar> \<le> 1 / 4000000000" using near_f64 [OF assms(8,9), of 1] assms(10) by auto
  let ?pi = "fadd f64 ?p ?q"
  obtain P where PP: "P = 2 / 100000 * fl_val e + 5 / 10000000 * fl_val i" by blast
  have pq: "\<bar>fl_val ?p + fl_val ?q - P\<bar> \<le> 4 / 100000000000000"
    using absD [OF p(2)] absD [OF q(2)] absD [OF e65] absD [OF i65] unfolding PP by (intro absI) linarith+
  have P: "\<bar>P\<bar> \<le> 41" using abs_leD [OF assms(7)] abs_leD [OF assms(10)] unfolding PP by (intro absI) linarith+
  have pq8: "\<bar>fl_val ?p + fl_val ?q\<bar> \<le> 42" using absD [OF pq] abs_leD [OF P] by (intro absI) linarith+
  have pi: "is_num ?pi" "mag_ok ?pi" "\<bar>fl_val ?pi - (fl_val ?p + fl_val ?q)\<bar> \<le> 1 / 100000000000000" using add_by [OF p(1) q(1) pq8] by auto
  have one: "is_num (fneg ?pi)" "is_num d_one" "fl_val d_one = 1" using pi(1) by (simp_all add: d_one_def)
  have s8: "\<bar>fl_val d_one + fl_val (fneg ?pi)\<bar> \<le> 44"
    using absD [OF pi(3)] absD [OF pq] abs_leD [OF P] unfolding fl_val_fneg one(3) by (intro absI) linarith+
  let ?s = "fsub f64 d_one ?pi"
  have s: "is_num ?s" "mag_ok ?s" "\<bar>fl_val ?s - (1 - fl_val ?pi)\<bar> \<le> 1 / 100000000000000"
    using add_by [OF one(2,1) s8] one(3) by (auto simp: fsub_def)
  have s7: "\<bar>fl_val ?s\<bar> \<le> 45" using absD [OF s(3)] absD [OF pi(3)] absD [OF pq] abs_leD [OF P] by (intro absI) linarith+
  let ?t = "fmul f64 (lit f64 (1 / 10)) ?s" and ?u = "fmul f64 rr (lit f64 (9 / 10))"
  have t: "is_num ?t" "\<bar>fl_val ?t - 1 / 10 * fl_val ?s\<bar> \<le> 3 / 100000000000000" using lit_times_by [OF _ s(1,2) s7, of "1 / 10"] by auto
  have rr7: "\<bar>fl_val rr\<bar> \<le> 2" using assms(3,4) by (intro absI) linarith+
  have u: "is_num ?u" "\<bar>fl_val ?u - 9 / 10 * fl_val rr\<bar> \<le> 1 / 100000000000000"
    using lit_times_by [OF _ assms(1,2) rr7, of "9 / 10"] unfolding fmul_commute [of f64 rr] by auto
  let ?R = "fl_val rr * (9 / 10) + (1 / 10 - P / 10)"
  have ut: "\<bar>fl_val ?u + fl_val ?t - ?R\<bar> \<le> 5 / 100000000000000"
    using absD [OF u(2)] absD [OF t(2)] absD [OF s(3)] absD [OF pi(3)] absD [OF pq] by (intro absI) linarith+
  have ut8: "\<bar>fl_val ?u + fl_val ?t\<bar> \<le> 7" using absD [OF ut] abs_leD [OF P] assms(3,4) by (intro absI) linarith+
  let ?z = "fadd f64 ?u ?t"
  have z: "is_num ?z" "mag_ok ?z" "\<bar>fl_val ?z - (fl_val ?u + fl_val ?t)\<bar> \<le> 1 / 100000000000000" using add_by [OF u(1) t(1) ut8] by auto
  have zR: "\<bar>fl_val ?z - ?R\<bar> \<le> 1 / 10000000000000" using absD [OF z(3)] absD [OF ut] by (intro absI) linarith+
  have hi: "is_num (lit f64 (1003 / 1000))" "mag_ok (lit f64 (1003 / 1000))" "\<bar>fl_val (lit f64 (1003 / 1000)) - 1003 / 1000\<bar> \<le> 1 / 10000000000000"
    using const_f64 [of "1003 / 1000"] by auto
  have lo: "is_num (lit f64 (997 / 1000))" "mag_ok (lit f64 (997 / 1000))" "\<bar>fl_val (lit f64 (997 / 1000)) - 997 / 1000\<bar> \<le> 1 / 10000000000000"
    using const_f64 [of "997 / 1000"] by auto
  have lh: "fl_val (lit f64 (997 / 1000)) \<le> fl_val (lit f64 (1003 / 1000))" using absD [OF hi(3)] absD [OF lo(3)] by simp
  have ry: "r = (let r = (if flt (lit f64 (1003 / 1000)) ?z then lit f64 (1003 / 1000) else ?z) in
      if flt r (lit f64 (997 / 1000)) then lit f64 (997 / 1000) else r)"
    unfolding r Let_def ..
  have "\<bar>fl_val r - max (997 / 1000) (min (1003 / 1000) ?R)\<bar> \<le> 1 / 10000000000000"
    by (rule clamp_close [OF z(1) lo(1) hi(1) zR _ _ lh _ ry]) (use lo(3) hi(3) in auto)
  moreover have ideal: "au_ideal (fl_val rr) (fl_val e) (fl_val i) = max (997 / 1000) (min (1003 / 1000) ?R)"
    unfolding au_ideal_def PP [symmetric] by (simp add: right_diff_distrib)
  moreover have "?z \<noteq> FNaN" using z(1) by auto
  ultimately show ?thesis using clamp_ok [OF _ z(2) lo(1,2) hi(1,2) lh ry] ideal by simp
qed

lemma controller_step:
  assumes "ctl_ok k" and "\<bar>cur\<bar> \<le> 1000000" and "\<bar>need\<bar> \<le> 1000000" and "\<bar>cur - need\<bar> \<le> 1000000"
    and "k' = calculateRRatio need cur k" and v: "v = 9 / 10 * fl_val (au_error k) + 1 / 10 * of_int (cur - need)"
  shows "ctl_ok k' \<and> fl_val (lit f64 (997 / 1000)) \<le> fl_val (au_rratio k') \<and> fl_val (au_rratio k') \<le> fl_val (lit f64 (1003 / 1000)) \<and>
    \<bar>fl_val (au_error k') - v\<bar> \<le> (\<bar>v\<bar> + 1) / 2 ^ 23 \<and>
    \<bar>fl_val (au_integral k') - max (- (3 / 1000)) (min (3 / 1000) (fl_val (au_integral k) + fl_val (au_error k')))\<bar> \<le> 1 / 10 ^ 6 \<and>
    \<bar>fl_val (au_rratio k') - au_ideal (fl_val (au_rratio k)) (fl_val (au_error k')) (fl_val (au_integral k'))\<bar> \<le> 1 / 10 ^ 13"
proof -
  note k = assms(1) [unfolded ctl_ok_def]
  let ?e = "au_error k'"
  have e: "is_num ?e" "mag_ok ?e" "\<bar>fl_val ?e\<bar> \<le> 1900001"
      "\<bar>fl_val ?e - v\<bar> \<le> (\<bar>v\<bar> + 1) / 2 ^ 23"
    using error_step [OF assms(1-4) _ v] unfolding assms(5) calculateRRatio_def Let_def controller.simps by blast+
  have ie: "\<bar>fl_val (au_integral k) + fl_val ?e\<bar> \<le> 1900002" using abs_leD [OF e(3)] k by (auto intro!: absI dest!: abs_leD)
  then have ie21: "\<bar>fl_val (au_integral k) + fl_val ?e\<bar> < 2 ^ 23" by simp
  have i0: "is_num (fadd f32 (au_integral k) ?e)" "mag_ok (fadd f32 (au_integral k) ?e)"
      "\<bar>fl_val (fadd f32 (au_integral k) ?e) - (fl_val (au_integral k) + fl_val ?e)\<bar> \<le>
        (\<bar>fl_val (au_integral k) + fl_val ?e\<bar> + 1) / 2 ^ 24"
    using add_f32 [OF _ e(1) ie21] k by auto
  have "(\<bar>fl_val (au_integral k) + fl_val ?e\<bar> + 1) / 2 ^ 24 \<le> 1" using ie by simp
  then have i2: "\<bar>fl_val (fadd f32 (au_integral k) ?e)\<bar> \<le> 2000000" using i0(3) ie by linarith
  have i: "is_num (au_integral k')" "mag_ok (au_integral k')"
      "\<bar>fl_val (au_integral k') - max (- (3 / 1000)) (min (3 / 1000) (fl_val (fadd f32 (au_integral k) ?e)))\<bar> \<le> 2 / 10000000"
    using integral_step [OF i0(1,2) i2 refl refl] unfolding assms(5) calculateRRatio_def Let_def controller.simps by blast+
  have il: "\<bar>fl_val (au_integral k') - max (- (3 / 1000)) (min (3 / 1000) (fl_val (au_integral k) + fl_val ?e))\<bar> \<le> 1 / 10 ^ 6"
  proof -
    have "\<bar>fl_val (au_integral k') - max (- (3 / 1000)) (min (3 / 1000) (fl_val (au_integral k) + fl_val ?e))\<bar> \<le> 4 / 10000000"
      using i(3) clamp_sum [OF i0(3)] by linarith
    then show ?thesis by simp
  qed
  have i4: "\<bar>fl_val (au_integral k')\<bar> \<le> 4 / 1000" using absD [OF il] by (intro absI) (simp_all add: max_def min_def split: if_splits)
  have e2: "\<bar>fl_val ?e\<bar> \<le> 2000000" using e(3) by simp
  have rd: "au_rratio k' = (let pi = fadd f64 (fmul f64 (lit f64 (2 / 100000)) (to_fmt f64 ?e)) (fmul f64 (lit f64 (5 / 10000000)) (to_fmt f64 (au_integral k')));
            r = fadd f64 (fmul f64 (au_rratio k) (lit f64 (9 / 10))) (fmul f64 (lit f64 (1 / 10)) (fsub f64 d_one pi));
            r = (if flt (lit f64 (1003 / 1000)) r then lit f64 (1003 / 1000) else r) in
          if flt r (lit f64 (997 / 1000)) then lit f64 (997 / 1000) else r)"
    unfolding assms(5) calculateRRatio_def Let_def controller.simps ..
  have r: "is_num (au_rratio k')" "mag_ok (au_rratio k')" "fl_val (lit f64 (997 / 1000)) \<le> fl_val (au_rratio k')"
      "fl_val (au_rratio k') \<le> fl_val (lit f64 (1003 / 1000))"
      "\<bar>fl_val (au_rratio k') - au_ideal (fl_val (au_rratio k)) (fl_val ?e) (fl_val (au_integral k'))\<bar> \<le> 1 / 10000000000000"
    using ratio_step [OF _ _ _ _ e(1,2) e2 i(1,2) i4 rd] k by blast+
  have h: "\<bar>fl_val (lit f64 (1003 / 1000)) - 1003 / 1000\<bar> \<le> 3 / 2 ^ 53" and l: "\<bar>fl_val (lit f64 (997 / 1000)) - 997 / 1000\<bar> \<le> 3 / 2 ^ 53"
    using const_f64 [of "1003 / 1000"] const_f64 [of "997 / 1000"] by auto
  have "9 / 10 \<le> fl_val (lit f64 (997 / 1000)) \<and> fl_val (lit f64 (1003 / 1000)) \<le> 11 / 10"
    using absD [OF h] absD [OF l] by simp
  then have "9 / 10 \<le> fl_val (au_rratio k')" "fl_val (au_rratio k') \<le> 11 / 10" using r(3,4) by linarith+
  moreover have "(1 / 10000000000000 :: rat) = 1 / 10 ^ 13" by simp
  ultimately show ?thesis using r(1-4) r(5) [unfolded \<open>1 / 10000000000000 = 1 / 10 ^ 13\<close>] e i(1,2) i4 il e2 unfolding ctl_ok_def by blast
qed


section \<open>Properties\<close>

text \<open>
  C31: The samples of the ALSA utility. For every block of floats, NaN and infinities included,
  \<open>convertFloatToVban\<close> is defined and writes exactly the first \<open>n\<close> samples: each is the float on the
  scale of the largest sample, held between the smallest and the largest one, to within three
  quarters of a unit (half of it the rounding to an integer, the rest the product in single
  precision); an infinity gives an end of the range and a NaN the largest sample.
\<close>

theorem samples_clipped:
  assumes "w = 2 \<or> w = 3" and "4 * n \<le> length src" and "n * w \<le> length dest" and "n * w < 2 ^ 32"
  shows "\<exists>vs. length vs = n \<and> convertFloatToVban src dest n (w - 1) = Some (blit dest 0 (int_block w vs)) \<and>
    (\<forall>i < n. - (2 ^ (8 * w - 1)) \<le> vs ! i \<and> vs ! i < 2 ^ (8 * w - 1) \<and> clipped (8 * w - 1) (sample_of src i) (vs ! i))"
  using assms by (rule convert_blocks)

theorem samples_clipped_witness:
  "\<exists>vs. length vs = 1 \<and> convertFloatToVban [0, 0, 0xC0, 0x7F] [7, 7, 7] 1 (2 - 1) = Some (blit [7, 7, 7] 0 (int_block 2 vs)) \<and>
    (\<forall>i < 1. - (2 ^ (8 * 2 - 1)) \<le> vs ! i \<and> vs ! i < 2 ^ (8 * 2 - 1) \<and>
      clipped (8 * 2 - 1) (sample_of [0, 0, 0xC0, 0x7F] i) (vs ! i))"
  by (rule samples_clipped) simp_all

text \<open>
  C32: The ratio of the ALSA utility is held and follows its law. From a good state and for any fill
  of the ring below a million frames one step of the controller leaves a good state. The new error is
  the low-pass filtered difference (nine tenths of the old error and a tenth of the surplus of
  frames) up to its single-precision rounding; the new integral is the old one and the new error
  added up and held between -0.003 and 0.003, to within a millionth; and the new ratio is the law of
  both in exact arithmetic, held between 0.997 and 1.003, to within \<open>10 ^ - 13\<close>, a thousandth of what
  the integral can contribute.
\<close>

theorem ratio_held:
  assumes "ctl_ok k" and "\<bar>cur\<bar> \<le> 1000000" and "\<bar>need\<bar> \<le> 1000000" and "\<bar>cur - need\<bar> \<le> 1000000"
    and "v = 9 / 10 * fl_val (au_error k) + 1 / 10 * of_int (cur - need)"
  shows "let k' = calculateRRatio need cur k in ctl_ok k' \<and> fl_val (lit f64 (997 / 1000)) \<le> fl_val (au_rratio k') \<and>
    fl_val (au_rratio k') \<le> fl_val (lit f64 (1003 / 1000)) \<and>
    \<bar>fl_val (au_error k') - v\<bar> \<le> (\<bar>v\<bar> + 1) / 2 ^ 23 \<and>
    \<bar>fl_val (au_integral k') - max (- (3 / 1000)) (min (3 / 1000) (fl_val (au_integral k) + fl_val (au_error k')))\<bar> \<le> 1 / 10 ^ 6 \<and>
    \<bar>fl_val (au_rratio k') - au_ideal (fl_val (au_rratio k)) (fl_val (au_error k')) (fl_val (au_integral k'))\<bar> \<le> 1 / 10 ^ 13"
  unfolding Let_def using controller_step [OF assms(1-4) refl assms(5)] .

theorem ratio_held_witness:
  "let k = \<lparr>au_rratio = d_one, au_integral = d_zero, au_error = d_zero\<rparr>; k' = calculateRRatio 195 300 k in ctl_ok k' \<and>
    fl_val (lit f64 (997 / 1000)) \<le> fl_val (au_rratio k') \<and> fl_val (au_rratio k') \<le> fl_val (lit f64 (1003 / 1000)) \<and>
    \<bar>fl_val (au_error k') - 105 / 10\<bar> \<le> (105 / 10 + 1) / 2 ^ 23 \<and>
    \<bar>fl_val (au_integral k') - max (- (3 / 1000)) (min (3 / 1000) (0 + fl_val (au_error k')))\<bar> \<le> 1 / 10 ^ 6 \<and>
    \<bar>fl_val (au_rratio k') - au_ideal 1 (fl_val (au_error k')) (fl_val (au_integral k'))\<bar> \<le> 1 / 10 ^ 13"
proof -
  have "ctl_ok \<lparr>au_rratio = d_one, au_integral = d_zero, au_error = d_zero\<rparr>"
    by (simp add: ctl_ok_def d_one_def d_zero_def)
  then show ?thesis using ratio_held [of "\<lparr>au_rratio = d_one, au_integral = d_zero, au_error = d_zero\<rparr>" 300 195 "105 / 10"]
    unfolding Let_def by (simp add: d_one_def d_zero_def)
qed

end
