(* ===== verification/Alsa_Util.thy ===== *)
theory Alsa_Util
  imports Alsa_Wire Rx_Packet Median_Filter Receptor_Jack
begin

text \<open>
  The ALSA utility (\<open>vban_alsa_util/main.cpp\<close>): its options and start, the network thread, and one
  cycle of the main loop. The device, the interfaces of the host, the memory of the ring and of the
  resampler and the answers of the socket calls are arguments. A packet and a cycle are one step
  each; the code has no lock around what the two threads share.
\<close>

section \<open>The state\<close>

text \<open>The variables of \<open>main\<close> and the local ones of the network thread.\<close>

record alsa_util =
  au_samplerate :: nat
  au_nframes :: nat
  au_format :: nat
  au_nbinputs :: nat
  au_nboutputs :: nat
  au_offset :: nat
  au_txip :: u32
  au_rxip :: u32
  au_txport :: u16
  au_rxport :: u16
  au_name_tx :: "byte list"
  au_name_rx :: "byte list"
  au_server :: "byte list"
  au_ips :: "u32 list"
  au_flags :: u32
  au_fd :: int
  au_target :: "u32 \<times> u16"
  au_capt :: "byte list"
  au_tx :: "byte list option"
  au_datalen :: nat
  au_npackets :: nat
  au_pacframes :: nat
  au_packet :: vban_packet
  au_srch :: nat
  au_srch_max :: nat
  au_ring :: "ringbuffer option"
  au_resampler :: "vresampler option"
  au_frame :: "byte list"
  au_out :: "byte list list"
  au_cycle :: nat
  au_rbfill :: int
  au_median :: median_filter
  au_control :: controller
  au_reset :: nat
  au_reset_max :: nat
  au_ts_old :: timespec
  au_in_len :: nat
  au_out_len :: nat
  au_in_buf :: "byte list"
  au_out_buf :: "byte list"
  au_nu :: u32

text \<open>The initial values; \<open>rxResetTimer\<close> has none, \<open>junk\<close> is what its memory holds.\<close>

definition au_start :: "nat \<Rightarrow> alsa_util" where
  "au_start junk =
     \<lparr>au_samplerate = 48000, au_nframes = 128, au_format = 4, au_nbinputs = 2, au_nboutputs = 2, au_offset = 0,
      au_txip = 0, au_rxip = 0, au_txport = htons 6980, au_rxport = htons 6980, au_name_tx = [], au_name_rx = [],
      au_server = [], au_ips = [], au_flags = 0, au_fd = - 1, au_target = (0, 0), au_capt = [], au_tx = None,
      au_datalen = 0, au_npackets = 1, au_pacframes = 128, au_packet = zero_packet, au_srch = 0, au_srch_max = 0,
      au_ring = None, au_resampler = None, au_frame = [], au_out = [], au_cycle = 0, au_rbfill = 0,
      au_median = mf_new 11, au_control = \<lparr>au_rratio = d_one, au_integral = d_zero, au_error = d_zero\<rparr>,
      au_reset = junk, au_reset_max = 0, au_ts_old = (0, 0), au_in_len = 0, au_out_len = 0,
      au_in_buf = replicate 4 0, au_out_buf = replicate 4 0, au_nu = 0\<rparr>"


section \<open>Options\<close>

text \<open>\<open>inet\<close> is \<open>inet_addr\<close>; \<open>args\<close> are the arguments with blanks between them.\<close>

definition au_number :: "byte list \<Rightarrow> (int \<Rightarrow> alsa_util \<Rightarrow> alsa_util) \<Rightarrow> alsa_util \<Rightarrow> alsa_util option" where
  "au_number v upd s = (if v = [] then Some s else do { i \<leftarrow> atoi v; Some (upd i s) })"

definition au_short_address :: "u32 \<Rightarrow> u32" where
  "au_short_address ip = (if ip AND 0xFFFFFF = 0 \<and> ip AND 0xFF000000 \<noteq> 0 then drop_bit 24 ip else ip)"

definition au_options :: "(byte list \<Rightarrow> u32) \<Rightarrow> byte list \<Rightarrow> alsa_util \<Rightarrow> alsa_util option" where
  "au_options inet args s =
     (if args = [] then Some s
      else do {
        let v = (\<lambda>k. getVal args (bytes_of k));
        let s = (if v ''iptx'' \<noteq> [] then s\<lparr>au_txip := au_short_address (inet (v ''iptx''))\<rparr> else s);
        let s = (if v ''iprx'' \<noteq> [] then s\<lparr>au_rxip := inet (v ''iprx'')\<rparr> else s);
        s \<leftarrow> au_number (v ''porttx'') (\<lambda>i s. s\<lparr>au_txport := htons (word_of_int i)\<rparr>) s;
        s \<leftarrow> au_number (v ''portrx'') (\<lambda>i s. s\<lparr>au_rxport := htons (word_of_int i)\<rparr>) s;
        let s = s\<lparr>au_name_tx := v ''streamnametx'', au_name_rx := v ''streamnamerx'', au_server := v ''servername''\<rparr>;
        let s = (if strstr (bytes_of ''16'') (v ''format'') \<noteq> None then s\<lparr>au_format := 1\<rparr> else s);
        let s = (if strstr (bytes_of ''24'') (v ''format'') \<noteq> None then s\<lparr>au_format := 2\<rparr> else s);
        s \<leftarrow> au_number (v ''nbinputs'') (\<lambda>i s. s\<lparr>au_nbinputs := to_u16 i\<rparr>) s;
        s \<leftarrow> au_number (v ''nboutputs'') (\<lambda>i s. s\<lparr>au_nboutputs := to_u16 i\<rparr>) s;
        au_number (v ''offset'') (\<lambda>i s. s\<lparr>au_offset := to_u16 i\<rparr>) s })"

text \<open>A short address is completed with the network of the interface; every other one is dropped.\<close>

definition au_address :: "(byte list \<times> u32 option) list option \<Rightarrow> byte list \<Rightarrow> alsa_util \<Rightarrow> alsa_util" where
  "au_address ifaddr netDev s =
     (if netDev \<noteq> [] \<and> 0 < au_txip s \<and> au_txip s < 256 then
        let ips = getIPAddresses ifaddr netDev; s = s\<lparr>au_ips := ips\<rparr> in
        if ips \<noteq> [] then s\<lparr>au_txip := (ips ! 0 AND 0xFFFFFF) OR push_bit 24 (au_txip s)\<rparr> else s\<lparr>au_txip := 0\<rparr>
      else s\<lparr>au_txip := 0\<rparr>)"


section \<open>The socket\<close>

definition au_set_target :: "u32 \<Rightarrow> u16 \<Rightarrow> alsa_util \<Rightarrow> alsa_util" where
  "au_set_target ip port s = s\<lparr>au_target := (ip, port)\<rparr>"

text \<open>\<open>sendto\<close> reads the header and \<open>dataSize\<close> bytes more.\<close>

definition au_send :: "vban_packet \<Rightarrow> nat \<Rightarrow> alsa_util \<Rightarrow> io list option" where
  "au_send p dataSize s =
     (if au_fd s < 0 then Some []
      else do {
        bs \<leftarrow> mem_load (packet_bytes p) 0 (VBAN_HEADER_SIZE + dataSize);
        Some [Sendto (au_fd s) bs (fst (au_target s)) (snd (au_target s))] })"

definition au_socket :: "init_answers \<Rightarrow> int \<Rightarrow> alsa_util \<Rightarrow> alsa_util \<times> bool \<times> io list" where
  "au_socket a priority s =
     (let fd = a_socket a; s = s\<lparr>au_fd := fd\<rparr> in
      if fd < 0 then (s, False, [Socket fd])
      else if a_bcast a < 0 then (s, False, [Socket fd, Setsockopt fd ''SO_BROADCAST''])
      else
        let evs = [Socket fd, Setsockopt fd ''SO_BROADCAST'', Setsockopt fd ''SO_REUSEADDR'', Setsockopt fd ''IP_TOS'',
              Bind fd (au_rxport s) (au_rxip s)] in
        if a_bind a < 0 then (s\<lparr>au_fd := - 1\<rparr>, False, evs @ [Close fd])
        else (au_set_target (au_txip s) (au_txport s) s, True, evs))"


section \<open>Sending\<close>

text \<open>A period is halved until it fits a packet; the three numbers are 16 bits wide.\<close>

function au_cut :: "nat \<Rightarrow> nat \<Rightarrow> nat \<Rightarrow> nat \<times> nat \<times> nat" where
  "au_cut datalen pacframes npackets =
     (if datalen > VBAN_DATA_MAX_SIZE \<or> pacframes > VBAN_SAMPLES_MAX_NB
      then au_cut (datalen div 2) (pacframes div 2) (to_u16 (int npackets * 2))
      else (datalen, pacframes, npackets))"
  by pat_completeness auto
termination
  by (relation "measure (\<lambda>(d, f, n). d + f)") (auto simp: vban_sizes)

declare au_cut.simps [simp del]

text \<open>The result \<open>Inl ()\<close> is the end of the program with an error.\<close>

definition au_tx_setup :: "alsa_util \<Rightarrow> (unit + alsa_util) option" where
  "au_tx_setup s = do {
     n \<leftarrow> c_int (int (au_nbinputs s) * int (au_nframes s));
     let n = nat n;
     size \<leftarrow> bit_size (au_format s);
     let s = s\<lparr>au_capt := replicate (4 * n) 0, au_tx := (if au_format s \<noteq> 4 then Some (replicate (n * size) 0) else None)\<rparr>;
     let (datalen, pacframes, npackets) =
       au_cut (to_u16 (int (n * (if au_format s \<noteq> 4 then size else 4)))) (au_nframes s) 1;
     let s = s\<lparr>au_datalen := datalen, au_pacframes := pacframes, au_npackets := npackets\<rparr>;
     let sr = find_SR (int (au_samplerate s)) VBanSRList 0;
     if sr < 0 then Some (Inl ())
     else do {
       name \<leftarrow> mem_store (streamname (header (au_packet s))) 0 (au_name_tx s);
       let h = (header (au_packet s))\<lparr>vban := VBAN_HEADER_FOURC, format_SR := word_of_int sr,
         format_bit := word_of_nat (au_format s), format_nbs := word_of_int (int pacframes - 1),
         format_nbc := word_of_int (int (au_nbinputs s) - 1), streamname := name\<rparr>;
       Some (Inr (s\<lparr>au_packet := (au_packet s)\<lparr>header := h\<rparr>, au_flags := au_flags s OR ucast TRANSMITTER\<rparr>)) } }"

text \<open>The channels of the device are interleaved.\<close>

definition au_capture :: "byte list list \<Rightarrow> alsa_util \<Rightarrow> byte list option" where
  "au_capture ins s =
     for_loop 0 (au_nframes s) (\<lambda>frame b.
       for_loop 0 (au_nbinputs s) (\<lambda>channel b. do {
         c \<leftarrow> (if channel < length ins then Some (ins ! channel) else None);
         x \<leftarrow> mem_load c (4 * frame) 4;
         mem_store b (4 * (frame * au_nbinputs s + channel)) x }) b) (au_capt s)"

definition au_send_packet :: "byte list \<Rightarrow> nat \<Rightarrow> alsa_util \<times> io list \<Rightarrow> (alsa_util \<times> io list) option" where
  "au_send_packet tx k t = do {
     let (s, evs) = t;
     d \<leftarrow> mem_load tx (k * au_datalen s) (au_datalen s);
     data \<leftarrow> mem_store (pdata (au_packet s)) 0 d;
     let p = (au_packet s)\<lparr>pdata := data\<rparr>;
     ev \<leftarrow> au_send p (au_datalen s) s;
     Some (s\<lparr>au_packet := p\<lparr>header := vban_inc_nuFrame (header p)\<rparr>\<rparr>, evs @ ev) }"

text \<open>Without a target the network is asked once per \<open>srchTimerMax + 1\<close> cycles.\<close>

definition au_request :: vban_packet where
  "au_request = zero_packet\<lparr>header := zero_header\<lparr>vban := VBAN_HEADER_FOURC, format_SR := protocol_val VBAN_PROTOCOL_TXT,
     streamname := blit (replicate VBAN_STREAM_NAME_SIZE 0) 0 (bytes_of ''INFO'')\<rparr>,
     pdata := blit (replicate VBAN_DATA_MAX_SIZE 0) 0 (bytes_of ''/info'')\<rparr>"

definition au_ask :: "u32 \<Rightarrow> alsa_util \<times> io list \<Rightarrow> (alsa_util \<times> io list) option" where
  "au_ask ip t = do {
     let (s, evs) = t;
     let s = au_set_target (ip OR 0xFF000000) (au_txport s) s;
     ev \<leftarrow> au_send au_request 5 s;
     Some (s, evs @ ev) }"

fun au_ask_all :: "u32 list \<Rightarrow> alsa_util \<times> io list \<Rightarrow> (alsa_util \<times> io list) option" where
  "au_ask_all [] t = Some t"
| "au_ask_all (ip # ips) t = Option.bind (au_ask ip t) (au_ask_all ips)"

definition au_search :: "(byte list \<times> u32 option) list option \<Rightarrow> alsa_util \<Rightarrow> (alsa_util \<times> io list) option" where
  "au_search ifaddr s =
     (if au_srch s = au_srch_max s then do {
        (s, evs) \<leftarrow> (if au_name_tx s \<noteq> [] then
            let ips = getIPAddresses ifaddr [] in au_ask_all ips (s\<lparr>au_ips := ips\<rparr>, [])
          else Some (s, []));
        Some (s\<lparr>au_srch := 0\<rparr>, evs) }
      else Some (s\<lparr>au_srch := to_u16 (int (au_srch s) + 1)\<rparr>, []))"

definition au_tx_cycle :: "(byte list \<times> u32 option) list option \<Rightarrow> byte list list \<Rightarrow> alsa_util \<Rightarrow> (alsa_util \<times> io list) option" where
  "au_tx_cycle ifaddr ins s = do {
     capt \<leftarrow> au_capture ins s;
     let s = s\<lparr>au_capt := capt\<rparr>;
     (s, tx) \<leftarrow> (case au_tx s of
         None \<Rightarrow> Some (s, capt)
       | Some tx \<Rightarrow> do {
           tx \<leftarrow> convertFloatToVban capt tx (au_nframes s) (au_format s);
           Some (s\<lparr>au_tx := Some tx\<rparr>, tx) });
     if au_txip s \<noteq> 0 \<and> au_name_tx s \<noteq> [] then for_loop 0 (au_npackets s) (au_send_packet tx) (s, [])
     else au_search ifaddr s }"


section \<open>Receiving audio\<close>

definition au_resize :: "nat \<Rightarrow> byte list \<Rightarrow> byte list" where
  "au_resize n b = take (4 * n) b @ replicate (4 * n - length b) 0"

definition au_outlen :: "nat \<Rightarrow> nat \<Rightarrow> u8 \<Rightarrow> nat option" where
  "au_outlen rate inlen sr = do {
     r \<leftarrow> sr_at (unat (sr AND 0x1F));
     d_uint (fadd f64 (fdiv f64 (fmul f64 (d_nat inlen) (d_nat rate)) (d_int r)) (d_nat 2)) }"

text \<open>Longer packets make the buffers longer; shorter ones only change the two lengths.\<close>

definition au_buffers :: "vban_header \<Rightarrow> alsa_util \<Rightarrow> alsa_util option" where
  "au_buffers h s =
     (let n = unat (format_nbs h) + 1 in
      if au_in_len s < n then do {
        outlen \<leftarrow> au_outlen (au_samplerate s) n (format_SR h);
        Some (s\<lparr>au_in_len := n, au_in_buf := au_resize (u32_mod (n * au_nboutputs s)) (au_in_buf s),
          au_out_len := outlen, au_out_buf := au_resize (u32_mod (outlen * au_nboutputs s)) (au_out_buf s)\<rparr>) }
      else if au_in_len s > n then do {
        outlen \<leftarrow> au_outlen (au_samplerate s) n (format_SR h);
        Some (s\<lparr>au_in_len := n, au_out_len := outlen\<rparr>) }
      else Some s)"

definition au_frame_in :: "nat \<Rightarrow> nat \<Rightarrow> nat \<Rightarrow> nat \<Rightarrow> nat \<Rightarrow> byte list \<Rightarrow> nat \<Rightarrow> byte list \<Rightarrow> byte list option" where
  "au_frame_in nb nbc framesize offsetsize bitfmt data frame inbuf =
     (if 4 * (frame * nb) \<le> length inbuf \<and> frame * framesize + offsetsize \<le> length data then do {
        let dst = drop (4 * (frame * nb)) inbuf;
        let src = drop (frame * framesize + offsetsize) data;
        d \<leftarrow> (if bitfmt = 4 then do { xs \<leftarrow> mem_load src 0 (4 * nbc); mem_store dst 0 xs }
          else convertVbanToFloat src dst nbc bitfmt);
        Some (take (4 * (frame * nb)) inbuf @ d) }
      else None)"

text \<open>The measurement after a packet; \<open>deltaT\<close> is unsigned, \<open>cycleFrames\<close> has 16 bits.\<close>

definition au_fill :: "alsa_util \<Rightarrow> alsa_util option" where
  "au_fill s = do {
     rb \<leftarrow> au_ring s;
     n \<leftarrow> ringbuffer_read_space rb;
     q \<leftarrow> udiv n (4 * au_nboutputs s);
     (m, v) \<leftarrow> mf_process (to_i32 (int q)) (au_median s);
     Some (s\<lparr>au_median := m, au_rbfill := v\<rparr>) }"

definition au_measure :: "timespec \<Rightarrow> vban_header \<Rightarrow> alsa_util \<Rightarrow> alsa_util option" where
  "au_measure ts h s =
     (if snd (au_ts_old s) \<noteq> 0 \<and> fst (au_ts_old s) \<noteq> 0 then do {
        d \<leftarrow> ts_diff ts (au_ts_old s);
        let n = unat (format_nbs h) + 1;
        if to_size d > 100000 then do {
          s \<leftarrow> (if au_cycle s > au_nframes s then au_fill s else Some s);
          Some (s\<lparr>au_cycle := n\<rparr>) }
        else Some (s\<lparr>au_cycle := to_u16 (int (au_cycle s + n))\<rparr>) }
      else Some s)"

definition au_audio :: "timespec \<Rightarrow> vban_packet \<Rightarrow> alsa_util \<Rightarrow> alsa_util option" where
  "au_audio ts p s = do {
     let h = header p;
     s \<leftarrow> au_buffers h s;
     let nb = au_nboutputs s;
     let nboutputsIn = unat (format_nbc h) + 1;
     size \<leftarrow> bit_size (unat (format_bit h));
     let offsetsize = (if au_offset s > nboutputsIn then 0 else size * au_offset s);
     inbuf \<leftarrow> for_loop 0 (unat (format_nbs h) + 1)
       (au_frame_in nb (min nboutputsIn nb) (size * nboutputsIn) offsetsize (unat (format_bit h)) (pdata p)) (au_in_buf s);
     r \<leftarrow> au_resampler s;
     (r, _) \<leftarrow> vr_process (r\<lparr>inp_count := au_in_len s, inp_data := Some (inbuf, 0), out_count := au_out_len s,
       out_data := Some (au_out_buf s, 0)\<rparr>);
     (outbuf, _) \<leftarrow> out_data r;
     rb \<leftarrow> au_ring s;
     rb \<leftarrow> for_loop 0 (nat ((int (au_out_len s) - int (out_count r)) mod 2 ^ 32)) (rx_write (Some outbuf) nb (4 * nb)) rb;
     s \<leftarrow> au_measure ts h (s\<lparr>au_in_buf := inbuf, au_out_buf := outbuf, au_resampler := Some r, au_ring := Some rb\<rparr>);
     Some (s\<lparr>au_reset := 0, au_nu := nuFrame h\<rparr>) }"

text \<open>The first packet of the named stream: a new resampler, and the sender is kept.\<close>

record au_env =
  ae_sin :: "fl \<Rightarrow> fl"
  ae_cos :: "fl \<Rightarrow> fl"
  ae_float :: "nat \<Rightarrow> fl list"

definition au_new_stream :: "au_env \<Rightarrow> vban_header \<Rightarrow> u32 \<Rightarrow> alsa_util \<Rightarrow> (unit + alsa_util) option" where
  "au_new_stream env h ip s = do {
     sr \<leftarrow> sr_at (unat (format_SR h AND 0x1F));
     (r, e) \<leftarrow> vr_setup (new_table (ae_sin env) (ae_cos env)) (ae_float env) vr_new
       (fdiv f64 (d_nat (au_samplerate s)) (d_int sr)) (au_nboutputs s) 64;
     if e \<noteq> 0 then Some (Inl ())
     else do {
       (r, _) \<leftarrow> vr_process (r\<lparr>inp_count := vr_inpsize r - 1, inp_data := None, out_count := 999999, out_data := None\<rparr>);
       Some (Inr (s\<lparr>au_resampler := Some r, au_rxip := ip, au_nu := nuFrame h, au_flags := au_flags s OR ucast RECEIVING\<rparr>)) } }"

text \<open>\<open>from\<close> is \<^const>\<open>None\<close> when the datagram is shorter than a header: the code leaves it unset.\<close>

definition au_named :: "vban_packet \<Rightarrow> alsa_util \<Rightarrow> bool option" where
  "au_named p s = str_eq (streamname (header p)) (au_name_rx s @ [0])"

definition au_audio_packet :: "au_env \<Rightarrow> timespec \<Rightarrow> vban_packet \<Rightarrow> u32 option \<Rightarrow> alsa_util \<Rightarrow> (unit + alsa_util) option" where
  "au_audio_packet env ts p from_ip s = do {
     ip \<leftarrow> from_ip;
     mine \<leftarrow> (if au_rxip s = ip then do { named \<leftarrow> au_named p s; Some (named \<and> au_nu s \<noteq> nuFrame (header p)) } else Some False);
     if mine then do { s \<leftarrow> au_audio ts p s; Some (Inr s) }
     else if au_nboutputs s \<noteq> 0 \<and> au_rxip s = 0 then do {
       named \<leftarrow> au_named p s;
       if named then au_new_stream env (header p) ip s else Some (Inr s) }
     else Some (Inr s) }"


section \<open>Receiving text\<close>

definition au_info_text :: "alsa_util \<Rightarrow> byte list" where
  "au_info_text s = bytes_of ''streamnamerx='' @ au_name_rx s @ bytes_of '' streamnametx='' @ au_name_tx s @
     bytes_of '' samplerate='' @ dec_nat (au_samplerate s) @ bytes_of '' format='' @ dec_nat (au_format s) @
     bytes_of '' nbinputs='' @ dec_nat (au_nbinputs s) @ bytes_of '' nboutputs='' @ dec_nat (au_nboutputs s)"

definition au_info :: "alsa_util \<Rightarrow> vban_packet option" where
  "au_info s = do {
     data \<leftarrow> put_string (pdata zero_packet) 0 (au_info_text s);
     Some (au_request\<lparr>pdata := data\<rparr>) }"

text \<open>The answer is sent with the size of the header counted twice.\<close>

definition au_text_packet :: "vban_packet \<Rightarrow> u32 option \<Rightarrow> u16 option \<Rightarrow> alsa_util \<Rightarrow> (alsa_util \<times> io list) option" where
  "au_text_packet p from_ip from_port s = do {
     tagged \<leftarrow> strn_eq 4 (streamname (header p)) (bytes_of ''INFO'' @ [0]);
     if \<not> tagged then Some (s, [])
     else do {
       asks \<leftarrow> strn_eq 5 (pdata p) (bytes_of ''/info'' @ [0]);
       asks \<leftarrow> (if asks then do { ip \<leftarrow> from_ip; Some (\<not> ipIsLocal ip (au_ips s)) } else Some False);
       if asks then do {
         ip \<leftarrow> from_ip;
         port \<leftarrow> from_port;
         info \<leftarrow> au_info s;
         ev \<leftarrow> au_send info (VBAN_HEADER_SIZE + length (au_info_text s)) (au_set_target ip port s);
         Some (au_set_target (au_txip s) (au_txport s) s, ev) }
       else if au_txip s = 0 \<and> au_name_tx s \<noteq> [] then do {
         text \<leftarrow> c_string (pdata p);
         let found = (if au_server s \<noteq> [] then au_server s = getVal text (bytes_of ''servername'')
           else au_name_tx s = getVal text (bytes_of ''streamnamerx''));
         if found then do {
           ip \<leftarrow> from_ip;
           if ip AND 0xFF \<noteq> 127 then
             Some (au_set_target ip (au_txport s) (s\<lparr>au_txip := ip, au_flags := au_flags s OR ucast SENDING\<rparr>), [])
           else Some (s, []) }
         else Some (s, []) }
       else Some (s, []) } }"

text \<open>One datagram of the network thread, and the time of its arrival.\<close>

definition au_datagram :: "au_env \<Rightarrow> timespec \<Rightarrow> byte list \<Rightarrow> u32 \<Rightarrow> u16 \<Rightarrow> alsa_util \<Rightarrow> ((unit + alsa_util) \<times> io list) option" where
  "au_datagram env ts bs ip port s =
     (if bs = [] then Some (Inr s, [])
      else do {
        let p = packet_store zero_packet bs;
        let whole = VBAN_HEADER_SIZE \<le> length bs;
        let from_ip = (if whole then Some ip else None);
        let sr = format_SR (header p);
        (res, evs) \<leftarrow> (if vban (header p) \<noteq> VBAN_HEADER_FOURC then Some (Inr s, [])
          else if is_protocol VBAN_PROTOCOL_AUDIO sr then do {
            res \<leftarrow> au_audio_packet env ts p from_ip s;
            Some (res, []) }
          else if is_protocol VBAN_PROTOCOL_TXT sr then do {
            (s, evs) \<leftarrow> au_text_packet p from_ip (if whole then Some port else None) s;
            Some (Inr s, evs) }
          else Some (Inr s, []));
        Some (map_sum (\<lambda>u. u) (\<lambda>s. s\<lparr>au_ts_old := ts\<rparr>) res, evs) })"


section \<open>Playing\<close>

text \<open>A frame that is not there is played as the one before.\<close>

definition au_play_frame :: "nat \<Rightarrow> nat \<Rightarrow> ringbuffer \<times> byte list \<times> byte list list \<Rightarrow> (ringbuffer \<times> byte list \<times> byte list list) option" where
  "au_play_frame nb f t = do {
     let (rb, fb, outs) = t;
     n \<leftarrow> ringbuffer_read_space rb;
     (rb, fb) \<leftarrow> (if 4 * nb \<le> n then do { (rb, fb, _) \<leftarrow> ringbuffer_read rb fb (4 * nb); Some (rb, fb) } else Some (rb, fb));
     outs \<leftarrow> for_loop 0 nb (\<lambda>channel outs. do {
       x \<leftarrow> mem_load fb (4 * channel) 4;
       b \<leftarrow> (if channel < length outs then Some (outs ! channel) else None);
       b \<leftarrow> mem_store b (4 * f) x;
       Some (outs[channel := b]) }) outs;
     Some (rb, fb, outs) }"

text \<open>A stream that has been silent for \<open>rxResetTimerMax + 1\<close> cycles ends.\<close>

definition au_receiving :: "alsa_util \<Rightarrow> bool" where
  "au_receiving s \<longleftrightarrow> au_rxip s \<noteq> 0 \<and> au_flags s AND ucast RECEIVING \<noteq> 0"

definition au_watch :: "alsa_util \<Rightarrow> alsa_util option" where
  "au_watch s =
     (if au_receiving s then
        if au_reset s < au_reset_max s then Some (s\<lparr>au_reset := au_reset s + 1\<rparr>)
        else if au_reset s = au_reset_max s then do {
          let s = s\<lparr>au_rxip := 0, au_reset := 0, au_resampler := None\<rparr>;
          case au_ring s of
            None \<Rightarrow> Some s
          | Some rb \<Rightarrow> do {
              left \<leftarrow> ringbuffer_read_space rb;
              rb \<leftarrow> (if 0 < left then do { (rb, _, _) \<leftarrow> ringbuffer_read rb (replicate left 0) left; Some rb } else Some rb);
              Some (s\<lparr>au_ring := Some rb\<rparr>) } }
        else Some s
      else Some s)"

definition au_rx_cycle :: "alsa_util \<Rightarrow> alsa_util option" where
  "au_rx_cycle s = do {
     s \<leftarrow> (if au_cycle s \<le> au_nframes s then au_fill s else Some s);
     rb \<leftarrow> au_ring s;
     (rb, fb, outs) \<leftarrow> for_loop 0 (au_nframes s) (au_play_frame (au_nboutputs s)) (rb, au_frame s, au_out s);
     s \<leftarrow> au_watch (s\<lparr>au_ring := Some rb, au_frame := fb, au_out := outs\<rparr>);
     let k = calculateRRatio (int (au_nframes s + au_nframes s div 2 + 3)) (au_rbfill s) (au_control s);
     Some (s\<lparr>au_control := k, au_resampler := map_option (\<lambda>r. vr_set_rratio r (au_rratio k)) (au_resampler s)\<rparr>) }"

definition au_cycle_step :: "(byte list \<times> u32 option) list option \<Rightarrow> byte list list \<Rightarrow> alsa_util \<Rightarrow> (alsa_util \<times> io list) option" where
  "au_cycle_step ifaddr ins s = do {
     (s, evs) \<leftarrow> (if 0 < au_nbinputs s then au_tx_cycle ifaddr ins s else Some (s, []));
     s \<leftarrow> (if 0 < au_nboutputs s then au_rx_cycle s else Some s);
     Some (s, evs) }"


section \<open>The start\<close>

definition au_rx_setup :: "bool \<Rightarrow> (nat \<Rightarrow> byte list option) \<Rightarrow> alsa_util \<Rightarrow> alsa_util option" where
  "au_rx_setup rb_mem malloc s = do {
     let n = au_nboutputs s * au_nframes s;
     rb \<leftarrow> ringbuffer_create rb_mem (malloc (umul (umul 8 n) 4)) (umul (umul 8 n) 4);
     (rb, _) \<leftarrow> ringbuffer_write rb (replicate (umul (umul 4 n) 4) 0) (umul (umul 4 n) 4);
     Some (s\<lparr>au_ring := Some rb, au_flags := au_flags s OR ucast RECEIVER\<rparr>) }"

definition au_timer :: "fl \<Rightarrow> nat option" where
  "au_timer x = do {
     i \<leftarrow> fl_to_int 32 (fsub f32 (fround x) (FNum False 1));
     if 0 \<le> i \<and> i < 2 ^ 16 then Some (nat i) else None }"

text \<open>\<open>dev\<close> are the channels of the opened device for capture and playback.\<close>

definition au_open :: "bool \<Rightarrow> (nat \<Rightarrow> byte list option) \<Rightarrow> nat \<times> nat \<Rightarrow> alsa_util \<Rightarrow> (unit + alsa_util) option" where
  "au_open rb_mem malloc dev s = do {
     let s = s\<lparr>au_nbinputs := min (au_nbinputs s) (to_u16 (int (fst dev))), au_nboutputs := min (au_nboutputs s) (to_u16 (int (snd dev)))\<rparr>;
     let s = s\<lparr>au_out := replicate (au_nboutputs s) (replicate (4 * au_nframes s) 0), au_frame := replicate (4 * au_nboutputs s) 0\<rparr>;
     let sr = of_int_fl f32 (int (au_samplerate s));
     let nf = of_int_fl f32 (int (au_nframes s));
     srch \<leftarrow> au_timer (fdiv f32 sr nf);
     reset \<leftarrow> au_timer (fdiv f32 sr (fmul f32 (FNum False 10) nf));
     let s = s\<lparr>au_srch_max := srch, au_reset_max := reset\<rparr>;
     r \<leftarrow> (if 0 < au_nbinputs s then au_tx_setup s else Some (Inr s));
     case r of
       Inl e \<Rightarrow> Some (Inl e)
     | Inr s \<Rightarrow> do {
         s \<leftarrow> (if 0 < au_nboutputs s then au_rx_setup rb_mem malloc s else Some s);
         Some (Inr s) } }"

definition au_main :: "(byte list \<Rightarrow> u32) \<Rightarrow> (byte list \<times> u32 option) list option \<Rightarrow> init_answers \<Rightarrow> bool \<Rightarrow>
    (nat \<Rightarrow> byte list option) \<Rightarrow> (nat \<times> nat) option \<Rightarrow> nat \<Rightarrow> byte list \<Rightarrow> ((unit + alsa_util) \<times> io list) option" where
  "au_main inet ifaddr a rb_mem malloc dev junk args = do {
     s \<leftarrow> au_options inet args (au_start junk);
     let s = au_address ifaddr (getVal args (bytes_of ''netdev'')) s;
     let (s, open_ok, evs) = au_socket a 6 s;
     if \<not> open_ok then Some (Inl (), evs)
     else case dev of
         None \<Rightarrow> Some (Inl (), evs)
       | Some d \<Rightarrow> do {
           r \<leftarrow> au_open rb_mem malloc d s;
           Some (r, evs) } }"


section \<open>Runs\<close>

datatype au_event = Packet timespec "byte list" u32 u16 | Period "(byte list \<times> u32 option) list option" "byte list list"

fun au_step :: "au_env \<Rightarrow> au_event \<Rightarrow> alsa_util \<Rightarrow> ((unit + alsa_util) \<times> io list) option" where
  "au_step env (Packet ts bs ip port) s = au_datagram env ts bs ip port s"
| "au_step env (Period ifaddr ins) s = do { (s, evs) \<leftarrow> au_cycle_step ifaddr ins s; Some (Inr s, evs) }"

fun au_run :: "au_env \<Rightarrow> au_event list \<Rightarrow> alsa_util \<Rightarrow> ((unit + alsa_util) \<times> io list) option" where
  "au_run env [] s = Some (Inr s, [])"
| "au_run env (e # es) s = do {
     (r, evs) \<leftarrow> au_step env e s;
     case r of
       Inl u \<Rightarrow> Some (Inl u, evs)
     | Inr s \<Rightarrow> do { (r, evs') \<leftarrow> au_run env es s; Some (r, evs @ evs') } }"

end
