(* ===== verification/Alsa_Send.thy ===== *)
theory Alsa_Send
  imports Alsa_Util
begin

text \<open>
  The sending side of the ALSA utility: how the period is cut, what the capture buffer holds, and what
  one cycle sends.
\<close>

section \<open>The cut\<close>

lemma au_cut_power:
  "x \<le> VBAN_DATA_MAX_SIZE \<Longrightarrow> m * 2 ^ j < 2 ^ 16 \<Longrightarrow>
   \<exists>i \<le> j. au_cut (2 ^ j * x) (2 ^ j) m = (2 ^ i * x, 2 ^ i, m * 2 ^ (j - i)) \<and> 2 ^ i * x \<le> VBAN_DATA_MAX_SIZE \<and>
     2 ^ i \<le> VBAN_SAMPLES_MAX_NB"
proof (induction j arbitrary: m)
  case 0
  then show ?case by (subst au_cut.simps) (simp add: vban_sizes)
next
  case (Suc j)
  show ?case
  proof (cases "2 ^ Suc j * x > VBAN_DATA_MAX_SIZE \<or> (2 :: nat) ^ Suc j > VBAN_SAMPLES_MAX_NB")
    case True
    have half: "(2 ^ Suc j * x) div 2 = 2 ^ j * x" "(2 :: nat) ^ Suc j div 2 = 2 ^ j" by simp_all
    have "m \<le> m * 2 ^ j" by simp
    moreover have "m * 2 ^ Suc j = 2 * (m * 2 ^ j)" by simp
    ultimately have "m * 2 < 2 ^ 16" using Suc.prems(2) by linarith
    then have "to_u16 (int m * 2) = m * 2" using to_u16_nat [of "m * 2"] by simp
    then have "au_cut (2 ^ Suc j * x) (2 ^ Suc j) m = au_cut (2 ^ j * x) (2 ^ j) (m * 2)"
      using True half by (subst au_cut.simps) (simp only: if_True)
    moreover obtain i where "i \<le> j" "au_cut (2 ^ j * x) (2 ^ j) (m * 2) = (2 ^ i * x, 2 ^ i, m * 2 * 2 ^ (j - i))"
        "2 ^ i * x \<le> VBAN_DATA_MAX_SIZE" "2 ^ i \<le> VBAN_SAMPLES_MAX_NB"
      using Suc.IH [OF Suc.prems(1), of "m * 2"] Suc.prems(2) by (auto simp: mult.assoc)
    ultimately show ?thesis by (intro exI [of _ i]) (simp add: Suc_diff_le mult.assoc)
  next
    case False
    then show ?thesis by (intro exI [of _ "Suc j"]) (subst au_cut.simps, simp)
  qed
qed


section \<open>Good states\<close>

definition au_width :: "nat \<Rightarrow> nat" where
  "au_width format = (if format = 4 then 4 else format + 1)"

text \<open>A state the start leaves when there are inputs: the packets together are the period.\<close>

definition au_tx_ok :: "alsa_util \<Rightarrow> bool" where
  "au_tx_ok s \<longleftrightarrow> au_nframes s = 128 \<and> 0 < au_nbinputs s \<and> au_nbinputs s < 128 \<and> au_format s \<in> {1, 2, 4} \<and> 0 \<le> au_fd s \<and>
     length (au_capt s) = 4 * (128 * au_nbinputs s) \<and> packet_ok (au_packet s) \<and> au_datalen s \<le> VBAN_DATA_MAX_SIZE \<and>
     au_npackets s * au_datalen s = 128 * au_nbinputs s * au_width (au_format s) \<and>
     (if au_format s = 4 then au_tx s = None
      else \<exists>tx. au_tx s = Some tx \<and> length tx = 128 * au_nbinputs s * au_width (au_format s) \<and>
        (\<forall>i. 128 * au_width (au_format s) \<le> i \<longrightarrow> i < length tx \<longrightarrow> tx ! i = 0))"

lemma au_tx_setup_ok:
  assumes nf: "au_nframes s = 128" and sr: "au_samplerate s = 48000" and nb: "0 < au_nbinputs s" "au_nbinputs s < 128"
    and fmt: "au_format s \<in> {1, 2, 4}" and fd: "0 \<le> au_fd s" and p: "packet_ok (au_packet s)"
    and name: "length (au_name_tx s) \<le> VBAN_STREAM_NAME_SIZE"
  shows "\<exists>s'. au_tx_setup s = Some (Inr s') \<and> au_tx_ok s' \<and> au_npackets s' * au_pacframes s' = 128 \<and>
    au_datalen s' = au_pacframes s' * au_nbinputs s' * au_width (au_format s') \<and> au_pacframes s' \<le> VBAN_SAMPLES_MAX_NB \<and> 0 < au_pacframes s' \<and>
    format_nbs (header (au_packet s')) = word_of_nat (au_pacframes s' - 1) \<and>
    format_nbc (header (au_packet s')) = word_of_nat (au_nbinputs s - 1) \<and>
    format_bit (header (au_packet s')) = word_of_nat (au_format s) \<and>
    (\<exists>c t d f n k. s' = s\<lparr>au_capt := c, au_tx := t, au_datalen := d, au_pacframes := f, au_npackets := n, au_packet := k,
      au_flags := au_flags s OR ucast TRANSMITTER\<rparr>)"
proof -
  let ?nb = "au_nbinputs s" and ?w = "au_width (au_format s)"
  have w: "1 \<le> ?w" "?w \<le> 4" using fmt by (auto simp: au_width_def)
  have sz: "bit_size (au_format s) = Some ?w" using fmt by (auto simp: au_width_def bit_size_def VBanBitResolutionSize_def)
  have bw: "?nb * ?w \<le> 127 * 4" using nb w by (intro mult_le_mono) auto
  have x: "?nb * ?w \<le> VBAN_DATA_MAX_SIZE" using bw by (simp add: vban_sizes)
  obtain i where i: "i \<le> 7" "au_cut (2 ^ 7 * (?nb * ?w)) (2 ^ 7) 1 = (2 ^ i * (?nb * ?w), 2 ^ i, 1 * 2 ^ (7 - i))"
      "2 ^ i * (?nb * ?w) \<le> VBAN_DATA_MAX_SIZE" "2 ^ i \<le> VBAN_SAMPLES_MAX_NB"
    using au_cut_power [OF x, of 1 7] by auto
  have u16: "to_u16 (int (128 * ?nb * ?w)) = 128 * ?nb * ?w" using bw by (intro to_u16_nat) (simp add: mult.commute)
  have ci: "c_int (int ?nb * int 128) = Some (int (128 * ?nb))" using nb by (simp add: c_int_def)
  have pow: "(2 :: nat) ^ (7 - i) * 2 ^ i = 128" using i(1) by (simp add: power_add [symmetric])
  have fsr: "find_SR 48000 VBanSRList 0 = 3" by (simp add: VBanSRList_def)
  have nm: "mem_store (streamname (header (au_packet s))) 0 (au_name_tx s) = Some (blit (streamname (header (au_packet s))) 0 (au_name_tx s))"
    using p name by (intro mem_store_Some) (simp add: packet_ok_def header_ok_def)
  let ?h = "(header (au_packet s))\<lparr>vban := VBAN_HEADER_FOURC, format_SR := word_of_int 3, format_bit := word_of_nat (au_format s),
      format_nbs := word_of_int (int (2 ^ i) - 1), format_nbc := word_of_int (int ?nb - 1),
      streamname := blit (streamname (header (au_packet s))) 0 (au_name_tx s)\<rparr>"
  let ?s = "s\<lparr>au_capt := replicate (4 * (128 * ?nb)) 0, au_tx := (if au_format s \<noteq> 4 then Some (replicate (128 * ?nb * ?w) 0) else None),
      au_datalen := 2 ^ i * (?nb * ?w), au_pacframes := 2 ^ i, au_npackets := 2 ^ (7 - i),
      au_packet := (au_packet s)\<lparr>header := ?h\<rparr>, au_flags := au_flags s OR ucast TRANSMITTER\<rparr>"
  have wf: "(if au_format s \<noteq> 4 then ?w else 4) = ?w" by (simp add: au_width_def)
  have cut: "au_cut (to_u16 (int (128 * ?nb * ?w))) 128 1 = (2 ^ i * (?nb * ?w), 2 ^ i, 2 ^ (7 - i))"
    unfolding u16 using i(2) by (simp add: mult.assoc)
  have nn: "nat (128 * int ?nb) = 128 * ?nb" by (simp add: nat_mult_distrib)
  have run: "au_tx_setup s = Some (Inr ?s)"
  proof (cases "au_format s = 4")
    case True
    then have w4: "?w = 4" by (simp add: au_width_def)
    then have "au_cut (to_u16 (512 * int ?nb)) 128 (Suc 0) = (2 ^ i * (?nb * 4), 2 ^ i, 2 ^ (7 - i))" using cut by simp
    then show ?thesis unfolding au_tx_setup_def Let_def using ci sz nf sr fsr nm True w4 by simp
  next
    case False
    have "au_cut (to_u16 (128 * int ?nb * int ?w)) 128 (Suc 0) = (2 ^ i * (?nb * ?w), 2 ^ i, 2 ^ (7 - i))" using cut by simp
    then show ?thesis unfolding au_tx_setup_def Let_def using ci sz nf sr fsr nm False nn by simp
  qed
  have "packet_ok ((au_packet s)\<lparr>header := ?h\<rparr>)" using p name by (simp add: packet_ok_def header_ok_def)
  moreover have "2 ^ (7 - i) * (2 ^ i * (?nb * ?w)) = 128 * ?nb * ?w" using pow by (metis mult.assoc)
  ultimately have ok: "au_tx_ok ?s" using nf nb fmt fd i(3) unfolding au_tx_ok_def by simp
  have one: "(1 :: nat) \<le> 2 ^ i" by simp
  have "int (2 ^ i) - 1 = int (2 ^ i - 1)" using one by (simp only: of_nat_diff of_nat_1)
  moreover have "int ?nb - 1 = int (?nb - 1)" using nb by simp
  ultimately have "word_of_int (int (2 ^ i) - 1) = (word_of_nat (2 ^ i - 1) :: u8)" "word_of_int (int ?nb - 1) = (word_of_nat (?nb - 1) :: u8)"
    by (simp_all only: of_int_of_nat_eq)
  then have nbs: "format_nbs (header (au_packet ?s)) = word_of_nat (2 ^ i - 1)" "format_nbc (header (au_packet ?s)) = word_of_nat (?nb - 1)"
    by simp_all
  have "2 ^ i * (?nb * ?w) = 2 ^ i * ?nb * ?w" by (simp only: mult.assoc)
  then have dl: "au_datalen ?s = au_pacframes ?s * au_nbinputs ?s * au_width (au_format ?s)" by simp
  show ?thesis
  proof (rule exI [of _ ?s], intro conjI)
    show "au_tx_setup s = Some (Inr ?s)" by (rule run)
    show "au_tx_ok ?s" by (rule ok)
    show "au_npackets ?s * au_pacframes ?s = 128" using pow by simp
    show "au_datalen ?s = au_pacframes ?s * au_nbinputs ?s * au_width (au_format ?s)" by (rule dl)
    show "au_pacframes ?s \<le> VBAN_SAMPLES_MAX_NB" using i(4) by simp
    show "format_nbs (header (au_packet ?s)) = word_of_nat (au_pacframes ?s - 1)" using nbs(1) by simp
    show "format_nbc (header (au_packet ?s)) = word_of_nat (?nb - 1)" by (rule nbs(2))
    show "\<exists>c t d f n k. ?s = s\<lparr>au_capt := c, au_tx := t, au_datalen := d, au_pacframes := f, au_npackets := n, au_packet := k,
        au_flags := au_flags s OR ucast TRANSMITTER\<rparr>"
      by (intro exI) (rule refl)
  qed simp_all
qed



section \<open>The capture buffer\<close>

text \<open>The samples of all channels, frame by frame.\<close>

definition captured :: "byte list list \<Rightarrow> nat \<Rightarrow> nat \<Rightarrow> byte list" where
  "captured ins nb n = interleaved_period (\<lambda>frame channel. take 4 (drop (4 * frame) (ins ! channel))) nb n"

definition capt_far :: "byte list list \<Rightarrow> nat \<Rightarrow> nat \<Rightarrow> nat \<Rightarrow> nat \<Rightarrow> byte list \<Rightarrow> bool" where
  "capt_far ins nb len frame channel b \<longleftrightarrow> length b = len \<and>
     take (4 * (frame * nb + channel)) b =
       captured ins nb frame @ concat (map (\<lambda>c. take 4 (drop (4 * frame) (ins ! c))) [0..<channel])"

lemma au_capture_ok:
  assumes ins: "au_nbinputs s \<le> length ins" "\<forall>c < au_nbinputs s. 4 * au_nframes s \<le> length (ins ! c)"
    and len: "length (au_capt s) = 4 * (au_nframes s * au_nbinputs s)"
  shows "au_capture ins s = Some (captured ins (au_nbinputs s) (au_nframes s)) \<and>
    length (captured ins (au_nbinputs s) (au_nframes s)) = 4 * (au_nframes s * au_nbinputs s)"
proof -
  let ?nb = "au_nbinputs s" and ?n = "au_nframes s" and ?L = "length (au_capt s)"
  let ?step = "\<lambda>frame channel b. do {
         c \<leftarrow> (if channel < length ins then Some (ins ! channel) else None);
         x \<leftarrow> mem_load c (4 * frame) 4;
         mem_store b (4 * (frame * ?nb + channel)) x }"
  have one: "\<exists>b'. ?step f c b = Some b' \<and> capt_far ins ?nb ?L f (Suc c) b'"
    if "capt_far ins ?nb ?L f c b" "f < ?n" "c < ?nb" for f c b
  proof -
    have b: "length b = ?L" "take (4 * (f * ?nb + c)) b = captured ins ?nb f @ concat (map (\<lambda>c. take 4 (drop (4 * f) (ins ! c))) [0..<c])"
      using that(1) by (simp_all add: capt_far_def)
    have src: "4 * f + 4 \<le> length (ins ! c)" using ins(2) that(2,3) by fastforce
    have "Suc (f * ?nb + c) \<le> Suc f * ?nb" using that(3) by simp
    also have "\<dots> \<le> ?n * ?nb" using that(2) by (intro mult_le_mono1) simp
    finally have "4 * Suc (f * ?nb + c) \<le> 4 * (?n * ?nb)" by (rule mult_le_mono2)
    then have place: "4 * (f * ?nb + c) + 4 \<le> length b" using b(1) len by simp
    let ?x = "take 4 (drop (4 * f) (ins ! c))"
    have x: "length ?x = 4" using src by simp
    have "?step f c b = Some (blit b (4 * (f * ?nb + c)) ?x)" using that(3) ins(1) src place x by (simp add: mem)
    moreover have "take (4 * (f * ?nb + c) + 4) (blit b (4 * (f * ?nb + c)) ?x) = take (4 * (f * ?nb + c)) b @ ?x"
      using place x by (simp add: blit_def)
    then have "capt_far ins ?nb ?L f (Suc c) (blit b (4 * (f * ?nb + c)) ?x)"
      using b place x by (simp add: capt_far_def algebra_simps)
    ultimately show ?thesis by blast
  qed
  have frame: "\<exists>b'. for_loop 0 ?nb (?step f) b = Some b' \<and> capt_far ins ?nb ?L (Suc f) 0 b'"
    if st: "capt_far ins ?nb ?L f 0 b" and f: "f < ?n" for f b
  proof -
    have "\<exists>b'. for_loop 0 ?nb (?step f) b = Some b' \<and> capt_far ins ?nb ?L f (0 + ?nb) b'"
      by (rule for_loop_inv [where P = "capt_far ins ?nb ?L f", OF st]) (use one f in auto)
    then show ?thesis by (auto simp: capt_far_def captured_def interleaved_Suc add.commute)
  qed
  have "\<exists>b. for_loop 0 ?n (\<lambda>f. for_loop 0 ?nb (?step f)) (au_capt s) = Some b \<and> capt_far ins ?nb ?L (0 + ?n) 0 b"
    by (rule for_loop_inv [where P = "\<lambda>f. capt_far ins ?nb ?L f 0"]) (use frame in \<open>auto simp: capt_far_def captured_def interleaved_period_def\<close>)
  then obtain b where "au_capture ins s = Some b" "capt_far ins ?nb ?L ?n 0 b" by (auto simp: au_capture_def)
  then show ?thesis using len by (auto simp: capt_far_def)
qed


section \<open>The packets of a cycle\<close>

definition au_dgram :: "alsa_util \<Rightarrow> byte list \<Rightarrow> nat \<Rightarrow> io" where
  "au_dgram s tx k = Sendto (au_fd s)
     (header_bytes ((header (au_packet s))\<lparr>nuFrame := nuFrame (header (au_packet s)) + word_of_nat k\<rparr>) @
       take (au_datalen s) (drop (k * au_datalen s) tx)) (fst (au_target s)) (snd (au_target s))"

lemma au_send_ok:
  assumes "packet_ok p" and "0 \<le> au_fd s" and "length d \<le> VBAN_DATA_MAX_SIZE" and "pdata p = blit x 0 d" "length d \<le> length x"
  shows "au_send p (length d) s = Some [Sendto (au_fd s) (header_bytes (header p) @ d) (fst (au_target s)) (snd (au_target s))]"
proof -
  have h: "length (header_bytes (header p)) = VBAN_HEADER_SIZE" using assms(1) by (intro length_header_bytes) (simp add: packet_ok_def)
  have "take (VBAN_HEADER_SIZE + length d) (packet_bytes p) = header_bytes (header p) @ d"
    using h assms(4) by (simp add: packet_bytes_def blit_0)
  moreover have "VBAN_HEADER_SIZE + length d \<le> length (packet_bytes p)"
    using assms(1,3) length_packet_bytes [OF assms(1)] by (simp add: vban_sizes)
  ultimately show ?thesis using assms(2) by (simp add: au_send_def mem)
qed

lemma send_packets:
  assumes p: "packet_ok (au_packet s)" and fd: "0 \<le> au_fd s" and dl: "au_datalen s \<le> VBAN_DATA_MAX_SIZE"
  shows "n * au_datalen s \<le> length tx \<Longrightarrow> \<exists>q. for_loop 0 n (au_send_packet tx) (s, []) = Some (s\<lparr>au_packet := q\<rparr>, map (au_dgram s tx) [0..<n]) \<and>
    packet_ok q \<and> header q = (header (au_packet s))\<lparr>nuFrame := nuFrame (header (au_packet s)) + word_of_nat n\<rparr>"
proof (induction n)
  case 0
  show ?case using p by (intro exI [of _ "au_packet s"]) simp
next
  case (Suc n)
  obtain q where q: "for_loop 0 n (au_send_packet tx) (s, []) = Some (s\<lparr>au_packet := q\<rparr>, map (au_dgram s tx) [0..<n])" "packet_ok q"
      "header q = (header (au_packet s))\<lparr>nuFrame := nuFrame (header (au_packet s)) + word_of_nat n\<rparr>"
    using Suc by auto
  let ?d = "take (au_datalen s) (drop (n * au_datalen s) tx)" and ?s = "s\<lparr>au_packet := q\<rparr>"
  have d: "mem_load tx (n * au_datalen s) (au_datalen s) = Some ?d" "length ?d = au_datalen s" using Suc.prems by (simp_all add: mem)
  have pd: "length (pdata q) = VBAN_DATA_MAX_SIZE" using q(2) by (simp add: packet_ok_def)
  let ?p = "q\<lparr>pdata := blit (pdata q) 0 ?d\<rparr>"
  have pok: "packet_ok ?p" using q(2) d(2) dl pd by (simp add: packet_ok_def)
  have "au_send ?p (length ?d) ?s = Some [Sendto (au_fd ?s) (header_bytes (header ?p) @ ?d) (fst (au_target ?s)) (snd (au_target ?s))]"
    by (rule au_send_ok [OF pok, where x = "pdata q"]) (use d(2) dl pd fd in simp_all)
  then have sd: "au_send ?p (au_datalen s) ?s = Some [au_dgram s tx n]" using d(2) q(3) by (simp add: au_dgram_def)
  have st: "mem_store (pdata q) 0 ?d = Some (blit (pdata q) 0 ?d)" using d(2) dl pd by (intro mem_store_Some) simp
  let ?q = "?p\<lparr>header := vban_inc_nuFrame (header ?p)\<rparr>"
  have "au_send_packet tx n (?s, map (au_dgram s tx) [0..<n]) = Some (s\<lparr>au_packet := ?q\<rparr>, map (au_dgram s tx) [0..<Suc n])"
    using d(1) st sd by (simp add: au_send_packet_def Let_def)
  moreover have "packet_ok ?q" using pok by (simp add: packet_ok_def header_ok_def vban_inc_nuFrame_def)
  moreover have "header ?q = (header (au_packet s))\<lparr>nuFrame := nuFrame (header (au_packet s)) + word_of_nat (Suc n)\<rparr>"
    using q(3) by (simp add: vban_inc_nuFrame_def)
  ultimately show ?case using q(1) unfolding for_loop_Suc_right by (intro exI [of _ ?q]) simp
qed

fun sent_bytes :: "io \<Rightarrow> byte list" where
  "sent_bytes (Sendto _ bs _ _) = bs"
| "sent_bytes _ = []"

lemma payload_whole:
  assumes "packet_ok (au_packet s)" and "au_npackets s * au_datalen s = length tx"
  shows "concat (map (drop VBAN_HEADER_SIZE \<circ> sent_bytes \<circ> au_dgram s tx) [0..<au_npackets s]) = tx"
proof -
  have "length (header_bytes ((header (au_packet s))\<lparr>nuFrame := x\<rparr>)) = VBAN_HEADER_SIZE" for x
    using assms(1) by (intro length_header_bytes) (simp add: packet_ok_def header_ok_def)
  then have "drop VBAN_HEADER_SIZE \<circ> sent_bytes \<circ> au_dgram s tx = (\<lambda>k. take (au_datalen s) (drop (k * au_datalen s) tx))"
    by (intro ext) (simp add: au_dgram_def)
  then show ?thesis using concat_slices [of "au_datalen s" tx "au_npackets s"] assms(2) by simp
qed

text \<open>The integer formats: \<open>nframes\<close> samples are converted, whatever the number of channels.\<close>

lemma convert_period:
  assumes ok: "au_tx_ok s" and fmt: "au_format s \<noteq> 4" and tx: "au_tx s = Some tx" and capt: "length capt = 4 * (128 * au_nbinputs s)"
  shows "\<exists>vs. length vs = 128 \<and> (\<forall>i < 128. clipped (8 * au_width (au_format s) - 1) (sample_of capt i) (vs ! i)) \<and>
    convertFloatToVban capt tx 128 (au_format s) =
      Some (int_block (au_width (au_format s)) vs @ replicate (128 * (au_nbinputs s - 1) * au_width (au_format s)) 0)"
proof -
  let ?w = "au_width (au_format s)" and ?nb = "au_nbinputs s"
  have nb: "0 < ?nb" and w: "?w = 2 \<or> ?w = 3" "?w - 1 = au_format s" and lt: "length tx = 128 * ?nb * ?w"
    and zero: "\<forall>i. 128 * ?w \<le> i \<longrightarrow> i < length tx \<longrightarrow> tx ! i = 0"
    using ok fmt tx by (auto simp: au_tx_ok_def au_width_def)
  obtain m where m: "?nb = Suc m" using nb by (cases ?nb) auto
  have lens: "4 * 128 \<le> length capt" "128 * ?w \<le> length tx" "128 * ?w < 2 ^ 32"
    using capt lt m w(1) by auto
  obtain vs where vs: "length vs = 128" "convertFloatToVban capt tx 128 (au_format s) = Some (blit tx 0 (int_block ?w vs))"
      "\<forall>i < 128. clipped (8 * ?w - 1) (sample_of capt i) (vs ! i)"
    using convert_blocks [OF w(1) lens] unfolding w(2) by auto
  have "drop (128 * ?w) tx = replicate (128 * m * ?w) 0"
    by (rule nth_equalityI) (use lt m zero in \<open>simp_all add: algebra_simps\<close>)
  then have "blit tx 0 (int_block ?w vs) = int_block ?w vs @ replicate (128 * (?nb - 1) * ?w) 0"
    using vs(1) m by (simp add: blit_0)
  then show ?thesis using vs by auto
qed

lemma au_tx_ok_tx:
  assumes ok: "au_tx_ok s" and fmt: "au_format s \<noteq> 4" and len: "length vs = 128" and capt: "length capt = 4 * (128 * au_nbinputs s)" and q: "packet_ok q"
  shows "au_tx_ok (s\<lparr>au_capt := capt, au_tx := Some (int_block (au_width (au_format s)) vs @
    replicate (128 * (au_nbinputs s - 1) * au_width (au_format s)) 0), au_packet := q\<rparr>)"
proof -
  let ?w = "au_width (au_format s)" and ?nb = "au_nbinputs s"
  obtain m where m: "?nb = Suc m" using ok by (cases ?nb) (auto simp: au_tx_ok_def)
  have "length (int_block ?w vs @ replicate (128 * (?nb - 1) * ?w) 0) = 128 * ?nb * ?w" using len m by (simp add: algebra_simps)
  then show ?thesis using ok fmt capt q len by (auto simp: au_tx_ok_def nth_append)
qed

lemma au_tx_cycle_ok:
  assumes ok: "au_tx_ok s" and ins: "au_nbinputs s \<le> length ins" "\<forall>c < au_nbinputs s. 4 * 128 \<le> length (ins ! c)"
    and on: "au_txip s \<noteq> 0" "au_name_tx s \<noteq> []"
  shows "\<exists>s' tx. au_tx_cycle ifaddr ins s = Some (s', map (au_dgram s tx) [0..<au_npackets s]) \<and> au_tx_ok s' \<and>
    concat (map (drop VBAN_HEADER_SIZE \<circ> sent_bytes \<circ> au_dgram s tx) [0..<au_npackets s]) = tx \<and>
    (let capt = captured ins (au_nbinputs s) 128 in
     if au_format s = 4 then tx = capt
     else \<exists>vs. length vs = 128 \<and> (\<forall>i < 128. clipped (8 * au_width (au_format s) - 1) (sample_of capt i) (vs ! i)) \<and>
       tx = int_block (au_width (au_format s)) vs @ replicate (128 * (au_nbinputs s - 1) * au_width (au_format s)) 0)"
proof -
  let ?w = "au_width (au_format s)" and ?nb = "au_nbinputs s" and ?capt = "captured ins (au_nbinputs s) 128"
  note k = ok [unfolded au_tx_ok_def]
  have cap: "au_capture ins s = Some ?capt" "length ?capt = 4 * (128 * ?nb)" using au_capture_ok [of s ins] ins k by auto
  have send: "\<exists>q. for_loop 0 (au_npackets t) (au_send_packet tx) (t, []) = Some (t\<lparr>au_packet := q\<rparr>, map (au_dgram s tx) [0..<au_npackets s]) \<and> packet_ok q"
    if "t = s\<lparr>au_capt := c, au_tx := x\<rparr>" "length tx = 128 * ?nb * ?w" for t c x tx
  proof -
    have "au_dgram t tx = au_dgram s tx" unfolding that(1) by (intro ext) (simp add: au_dgram_def)
    then show ?thesis using send_packets [of t "au_npackets t" tx] that k by auto
  qed
  show ?thesis
  proof (cases "au_format s = 4")
    case True
    then have none: "au_tx s = None" and w: "?w = 4" using k by (auto simp: au_width_def)
    have len: "length ?capt = 128 * ?nb * ?w" using cap(2) w by simp
    let ?t = "s\<lparr>au_capt := ?capt, au_tx := None\<rparr>"
    have t: "s\<lparr>au_capt := ?capt\<rparr> = ?t" using none by simp
    obtain q where q: "for_loop 0 (au_npackets s) (au_send_packet ?capt) (?t, []) = Some (?t\<lparr>au_packet := q\<rparr>, map (au_dgram s ?capt) [0..<au_npackets s])"
        "packet_ok q"
      using send [OF refl len] by auto
    have "au_tx_cycle ifaddr ins s = Some (?t\<lparr>au_packet := q\<rparr>, map (au_dgram s ?capt) [0..<au_npackets s])"
      using cap(1) none on q(1) t by (simp add: au_tx_cycle_def Let_def)
    moreover have "au_tx_ok (?t\<lparr>au_packet := q\<rparr>)" using k q(2) cap(2) True by (simp add: au_tx_ok_def)
    moreover have "concat (map (drop VBAN_HEADER_SIZE \<circ> sent_bytes \<circ> au_dgram s ?capt) [0..<au_npackets s]) = ?capt"
      using payload_whole [of s ?capt] k len by simp
    ultimately show ?thesis using True by (simp add: Let_def)
  next
    case False
    then obtain tx0 where tx0: "au_tx s = Some tx0" using k by auto
    obtain vs where vs: "length vs = 128" "\<forall>i < 128. clipped (8 * ?w - 1) (sample_of ?capt i) (vs ! i)"
        "convertFloatToVban ?capt tx0 128 (au_format s) = Some (int_block ?w vs @ replicate (128 * (?nb - 1) * ?w) 0)"
      using convert_period [OF ok False tx0 cap(2)] by blast
    define tx where "tx = int_block ?w vs @ replicate (128 * (?nb - 1) * ?w) (0 :: byte)"
    obtain m where m: "?nb = Suc m" using k by (cases ?nb) auto
    have len: "length tx = 128 * ?nb * ?w" using vs(1) m by (simp add: tx_def algebra_simps)
    let ?t = "s\<lparr>au_capt := ?capt, au_tx := Some tx\<rparr>"
    obtain q where q: "for_loop 0 (au_npackets s) (au_send_packet tx) (?t, []) = Some (?t\<lparr>au_packet := q\<rparr>, map (au_dgram s tx) [0..<au_npackets s])"
        "packet_ok q"
      using send [OF refl len] by auto
    have "au_tx_cycle ifaddr ins s = Some (?t\<lparr>au_packet := q\<rparr>, map (au_dgram s tx) [0..<au_npackets s])"
      using cap(1) tx0 on q(1) vs(3) k by (simp add: au_tx_cycle_def Let_def tx_def)
    moreover have "au_tx_ok (?t\<lparr>au_packet := q\<rparr>)" using au_tx_ok_tx [OF ok False vs(1) cap(2) q(2)] by (simp add: tx_def)
    moreover have "concat (map (drop VBAN_HEADER_SIZE \<circ> sent_bytes \<circ> au_dgram s tx) [0..<au_npackets s]) = tx"
      using payload_whole [of s tx] k len by simp
    ultimately show ?thesis using False vs(1,2) tx_def by (intro exI [of _ "?t\<lparr>au_packet := q\<rparr>"] exI [of _ tx]) (auto simp: Let_def)
  qed
qed


section \<open>Properties\<close>

text \<open>
  C33: The ALSA utility sends the period it captured. With the float format, up to 127 inputs and a
  name that fits, the set-up cuts the 128 frames into equal packets of whole frames within both
  limits of the protocol and announces them; then a cycle with a target sends these packets once
  each, with consecutive numbers, and their data together are the samples of all channels frame by
  frame.
\<close>

theorem utility_sends_period:
  assumes "au_nframes s = 128" and "au_samplerate s = 48000" and "0 < au_nbinputs s" and "au_nbinputs s < 128"
    and "au_format s = 4" and "0 \<le> au_fd s" and "packet_ok (au_packet s)" and "length (au_name_tx s) \<le> VBAN_STREAM_NAME_SIZE"
    and "au_txip s \<noteq> 0" and "au_name_tx s \<noteq> []"
    and "au_nbinputs s \<le> length ins" and "\<forall>c < au_nbinputs s. 4 * 128 \<le> length (ins ! c)"
  shows "\<exists>s1 s2 tx. au_tx_setup s = Some (Inr s1) \<and> au_npackets s1 * au_pacframes s1 = 128 \<and>
    au_datalen s1 = au_pacframes s1 * au_nbinputs s * 4 \<and> au_datalen s1 \<le> VBAN_DATA_MAX_SIZE \<and>
    au_pacframes s1 \<le> VBAN_SAMPLES_MAX_NB \<and>
    format_nbs (header (au_packet s1)) = word_of_nat (au_pacframes s1 - 1) \<and>
    format_nbc (header (au_packet s1)) = word_of_nat (au_nbinputs s - 1) \<and>
    au_tx_cycle ifaddr ins s1 = Some (s2, map (au_dgram s1 tx) [0..<au_npackets s1]) \<and>
    concat (map (drop VBAN_HEADER_SIZE \<circ> sent_bytes \<circ> au_dgram s1 tx) [0..<au_npackets s1]) = captured ins (au_nbinputs s) 128"
proof -
  have f: "au_format s \<in> {1, 2, 4}" using assms(5) by simp
  obtain s1 where s1: "au_tx_setup s = Some (Inr s1)" "au_tx_ok s1" "au_npackets s1 * au_pacframes s1 = 128"
      "au_datalen s1 = au_pacframes s1 * au_nbinputs s1 * au_width (au_format s1)" "au_pacframes s1 \<le> VBAN_SAMPLES_MAX_NB"
      "format_nbs (header (au_packet s1)) = word_of_nat (au_pacframes s1 - 1)"
      "format_nbc (header (au_packet s1)) = word_of_nat (au_nbinputs s - 1)"
      "\<exists>c t d f n k. s1 = s\<lparr>au_capt := c, au_tx := t, au_datalen := d, au_pacframes := f, au_npackets := n, au_packet := k,
        au_flags := au_flags s OR ucast TRANSMITTER\<rparr>"
    using au_tx_setup_ok [OF assms(1-4) f assms(6-8)] by blast
  have same: "au_nbinputs s1 = au_nbinputs s" "au_format s1 = 4" "au_txip s1 = au_txip s" "au_name_tx s1 = au_name_tx s"
    using s1(8) assms(5) by auto
  have "au_datalen s1 \<le> VBAN_DATA_MAX_SIZE" using s1(2) by (simp add: au_tx_ok_def)
  then show ?thesis using au_tx_cycle_ok [OF s1(2), of ins ifaddr] s1(1,3-7) same assms(9-12)
    by (auto simp: Let_def au_width_def)
qed

definition example_sender :: alsa_util where
  "example_sender = (au_start 0)\<lparr>au_txip := 7, au_fd := 3, au_name_tx := [65]\<rparr>"

lemma example_sender_facts:
  "au_nframes example_sender = 128" "au_samplerate example_sender = 48000" "au_nbinputs example_sender = 2"
  "au_format example_sender = 4" "au_fd example_sender = 3" "packet_ok (au_packet example_sender)"
  "au_name_tx example_sender = [65]" "au_txip example_sender = 7"
  by (simp_all add: example_sender_def au_start_def)

theorem utility_sends_period_witness:
  "\<exists>s1 s2 tx. au_tx_setup example_sender = Some (Inr s1) \<and> au_npackets s1 * au_pacframes s1 = 128 \<and>
    au_datalen s1 = au_pacframes s1 * au_nbinputs example_sender * 4 \<and> au_datalen s1 \<le> VBAN_DATA_MAX_SIZE \<and>
    au_pacframes s1 \<le> VBAN_SAMPLES_MAX_NB \<and>
    format_nbs (header (au_packet s1)) = word_of_nat (au_pacframes s1 - 1) \<and>
    format_nbc (header (au_packet s1)) = word_of_nat (au_nbinputs example_sender - 1) \<and>
    au_tx_cycle None (replicate 2 (replicate 512 0)) s1 = Some (s2, map (au_dgram s1 tx) [0..<au_npackets s1]) \<and>
    concat (map (drop VBAN_HEADER_SIZE \<circ> sent_bytes \<circ> au_dgram s1 tx) [0..<au_npackets s1]) =
      captured (replicate 2 (replicate 512 0)) (au_nbinputs example_sender) 128"
  by (rule utility_sends_period) (simp_all add: example_sender_facts vban_sizes)

text \<open>
  C34: With an integer format only the first 128 samples of a period are sent. The conversion of the
  main loop is called with the number of frames instead of the number of samples: whatever the
  device captured, the packets of a cycle hold 128 converted samples (the first 64 frames of two
  channels) and zeros for the rest of the period.
\<close>

theorem integer_formats_silent:
  assumes "au_tx_ok s" and "au_format s \<noteq> 4" and "au_nbinputs s \<le> length ins"
    and "\<forall>c < au_nbinputs s. 4 * 128 \<le> length (ins ! c)" and "au_txip s \<noteq> 0" and "au_name_tx s \<noteq> []"
  shows "\<exists>s' tx vs. au_tx_cycle ifaddr ins s = Some (s', map (au_dgram s tx) [0..<au_npackets s]) \<and> au_tx_ok s' \<and>
    concat (map (drop VBAN_HEADER_SIZE \<circ> sent_bytes \<circ> au_dgram s tx) [0..<au_npackets s]) = tx \<and> length vs = 128 \<and>
    (\<forall>i < 128. clipped (8 * au_width (au_format s) - 1) (sample_of (captured ins (au_nbinputs s) 128) i) (vs ! i)) \<and>
    tx = int_block (au_width (au_format s)) vs @ replicate (128 * (au_nbinputs s - 1) * au_width (au_format s)) 0"
  using au_tx_cycle_ok [OF assms(1,3-6), of ifaddr] assms(2) by (simp add: Let_def)

theorem integer_formats_silent_witness:
  "\<exists>s. au_tx_setup (example_sender\<lparr>au_format := 1\<rparr>) = Some (Inr s) \<and>
    (\<exists>s' tx vs. au_tx_cycle None (replicate 2 (replicate 512 0)) s = Some (s', map (au_dgram s tx) [0..<au_npackets s]) \<and> au_tx_ok s' \<and>
    concat (map (drop VBAN_HEADER_SIZE \<circ> sent_bytes \<circ> au_dgram s tx) [0..<au_npackets s]) = tx \<and> length vs = 128 \<and>
    (\<forall>i < 128. clipped (8 * au_width (au_format s) - 1) (sample_of (captured (replicate 2 (replicate 512 0)) (au_nbinputs s) 128) i) (vs ! i)) \<and>
    tx = int_block (au_width (au_format s)) vs @ replicate (128 * (au_nbinputs s - 1) * au_width (au_format s)) 0)"
proof -
  obtain s where s: "au_tx_setup (example_sender\<lparr>au_format := 1\<rparr>) = Some (Inr s)" "au_tx_ok s"
      "\<exists>c t d f n k. s = (example_sender\<lparr>au_format := 1\<rparr>)\<lparr>au_capt := c, au_tx := t, au_datalen := d, au_pacframes := f,
        au_npackets := n, au_packet := k, au_flags := au_flags (example_sender\<lparr>au_format := 1\<rparr>) OR ucast TRANSMITTER\<rparr>"
  proof -
    let ?e = "example_sender\<lparr>au_format := 1\<rparr>"
    have e: "au_nframes ?e = 128" "au_samplerate ?e = 48000" "0 < au_nbinputs ?e" "au_nbinputs ?e < 128" "au_format ?e \<in> {1, 2, 4}"
        "0 \<le> au_fd ?e" "packet_ok (au_packet ?e)" "length (au_name_tx ?e) \<le> VBAN_STREAM_NAME_SIZE"
      by (simp_all add: example_sender_facts vban_sizes)
    show thesis using au_tx_setup_ok [OF e] by (elim exE conjE) (rule that, assumption, assumption, blast)
  qed
  have same: "au_nbinputs s = 2" "au_format s = 1" "au_txip s = 7" "au_name_tx s = [65]"
    using s(3) by (elim exE, simp add: example_sender_facts)+
  have "\<exists>s' tx vs. au_tx_cycle None (replicate 2 (replicate 512 0)) s = Some (s', map (au_dgram s tx) [0..<au_npackets s]) \<and> au_tx_ok s' \<and>
    concat (map (drop VBAN_HEADER_SIZE \<circ> sent_bytes \<circ> au_dgram s tx) [0..<au_npackets s]) = tx \<and> length vs = 128 \<and>
    (\<forall>i < 128. clipped (8 * au_width (au_format s) - 1) (sample_of (captured (replicate 2 (replicate 512 0)) (au_nbinputs s) 128) i) (vs ! i)) \<and>
    tx = int_block (au_width (au_format s)) vs @ replicate (128 * (au_nbinputs s - 1) * au_width (au_format s)) 0"
    by (rule integer_formats_silent [OF s(2)]) (simp_all add: same)
  then show ?thesis using s(1) by blast
qed

end
