(* ===== verification/Alsa_Receive.thy ===== *)
theory Alsa_Receive
  imports Alsa_Send
begin

text \<open>
  The receiving side of the ALSA utility: the invariant of its state, a packet of the stream, the first
  packet, a period, and the end of a silent stream.
\<close>

section \<open>Room for the output\<close>

lemma floor_between: "0 < r \<Longrightarrow> of_nat (a div r) \<le> (of_nat a / of_nat r :: rat) \<and> (of_nat a / of_nat r :: rat) < of_nat (a div r) + 1"
proof -
  assume r: "0 < r"
  have "a div r * r \<le> a" by simp
  moreover have "a < (a div r + 1) * r" using dividend_less_div_times [OF r, of a] by simp
  ultimately have b: "a div r * r \<le> a" "a < (a div r + 1) * r" by blast+
  then have "(of_nat (a div r * r) :: rat) \<le> of_nat a" "(of_nat a :: rat) < of_nat ((a div r + 1) * r)"
    using b by (simp_all only: of_nat_le_iff of_nat_less_iff)
  then show ?thesis using r by (simp add: le_divide_eq divide_less_eq distrib_right add.commute)
qed

text \<open>The quotient in doubles, with 2 added, truncates to the exact one.\<close>

lemma au_outlen_ok:
  assumes sr: "sr_at (unat (sr AND 0x1F)) = Some (int r)" and r: "6000 \<le> r" "r \<le> 200000"
    and n: "n \<le> 256" and rate: "rate \<le> 200000"
  shows "au_outlen rate n sr = Some (n * rate div r + 2)"
proof -
  let ?a = "n * rate" and ?k = "n * rate div r"
  have a: "?a \<le> 256 * 200000" using n rate by (rule mult_le_mono)
  have nums: "d_nat n = FNum False (of_nat n)" "d_nat rate = FNum False (of_nat rate)" "d_nat 2 = FNum False 2"
      "d_int (int r) = FNum False (of_nat r)" "d_nat ?a = FNum False (of_nat ?a)"
    using d_nat_exact [of n] d_nat_exact [of rate] d_nat_exact [of 2] d_int_exact [of "int r"] d_nat_exact [of ?a] n rate r a by auto
  have "d_nat ?a = rnd f64 False (of_nat n * of_nat rate)" by (simp add: d_nat_def of_int_fl_def not_less [THEN iffD2])
  then have mul: "fmul f64 (d_nat n) (d_nat rate) = FNum False (of_nat ?a)" using nums by simp
  define v :: rat where "v = of_nat ?a / of_nat r"
  have ks: "?k \<le> 8534"
  proof -
    have "?k \<le> 256 * 200000 div 6000" using a r by (intro div_le_mono2 [THEN order_trans, OF _ _ div_le_mono]) auto
    then show ?thesis by simp
  qed
  have v: "of_nat ?k \<le> v" "v < of_nat ?k + 1" using floor_between [of r ?a] r by (simp_all add: v_def)
  have "(of_nat ?k :: rat) \<le> of_nat 8534" using ks by (simp only: of_nat_le_iff)
  then have v8: "0 \<le> v" "v < 8536" using v by (simp add: v_def, simp)
  have div_eq: "fdiv f64 (fmul f64 (d_nat n) (d_nat rate)) (d_int (int r)) = rnd f64 False v"
    unfolding mul nums(4) using r by (simp add: v_def)
  have b53: "(8536 :: rat) < 2 ^ 53" "(8536 :: rat) \<le> 2 ^ 500" by simp_all
  have close: "\<bar>y - x\<bar> \<le> 1 / 1000000000 \<and> rnd f64 False x = FNum False y" if "rnd f64 False x = FNum False y" "0 \<le> x" "x \<le> 10000" for x y
  proof -
    have "\<bar>y - x\<bar> \<le> (x + 1) / 2 ^ 53" using rnd_f64 [of x False] that by auto
    also have "\<dots> \<le> 10001 / 2 ^ 53" using that(3) by (intro divide_right_mono) auto
    also have "\<dots> \<le> 1 / 1000000000" by simp
    finally show ?thesis using that(1) by blast
  qed
  obtain z where z: "rnd f64 False v = FNum False z" using rnd_f64 [of v False] v8 b53 by auto
  have zc: "\<bar>z - v\<bar> \<le> 1 / 1000000000" using close [OF z] v8 by simp
  have zk: "of_nat ?k \<le> z" using rnd_f64_int(1) [OF z, of "int ?k"] v8 v(1) b53 by simp
  obtain w where w: "rnd f64 False (z + 2) = FNum False w" using rnd_f64 [of "z + 2" False] zk zc v8 by force
  have z2: "0 \<le> z + 2" "z + 2 \<le> 10000" using zk zc v8 by linarith+
  have wc: "\<bar>w - (z + 2)\<bar> \<le> 1 / 1000000000" using close [OF w z2] by simp
  have wk: "of_nat (?k + 2) \<le> w" using rnd_f64_int(1) [OF w z2(1), of "int (?k + 2)"] zk z2 by simp
  have gap: "v \<le> of_nat ?k + 1 - 1 / 200000"
  proof -
    have "?a + 1 \<le> (?k + 1) * r" using dividend_less_div_times [of r ?a] r by simp
    then have "(of_nat (?a + 1) :: rat) \<le> of_nat ((?k + 1) * r)" by (simp only: of_nat_le_iff)
    then have "v + 1 / of_nat r \<le> of_nat ?k + 1" using r by (simp add: v_def field_simps)
    moreover have "(1 :: rat) / 200000 \<le> 1 / of_nat r" using r by (intro divide_left_mono) auto
    ultimately show ?thesis by linarith
  qed
  have "w < of_nat (?k + 2) + 1" using gap absD [OF zc] absD [OF wc] unfolding of_nat_add of_nat_numeral by linarith
  then have fl: "\<lfloor>w\<rfloor> = int (?k + 2)" using wk by (intro floor_unique) simp_all
  have "w < 2 ^ 32" using absD [OF wc] z2 by simp
  moreover have "fadd f64 (FNum False z) (FNum False 2) = rnd f64 False (z + 2)" using zk by simp
  ultimately have "d_uint (fadd f64 (fdiv f64 (fmul f64 (d_nat n) (d_nat rate)) (d_int (int r))) (d_nat 2)) = Some (?k + 2)"
    unfolding div_eq z nums(3) w using fl by (simp add: w)
  then show ?thesis using sr by (simp add: au_outlen_def)
qed


section \<open>The frames of a packet\<close>

lemma convert_to_floats:
  assumes sz: "bit_size f = Some sz" and src: "n * sz \<le> length src" and dst: "4 * n \<le> length dst" and n: "n \<le> 65536"
  shows "\<exists>d. convertVbanToFloat src dst n f = Some d \<and> length d = length dst"
proof -
  have store: "\<exists>d'. store_f32 d k x = Some d' \<and> length d' = length dst" if "length d = length dst" "k < n" for d k x
    using that dst by (simp add: mem)
  consider "f = 1" | "f = 2" | "f \<noteq> 1" "f \<noteq> 2" by blast
  then show ?thesis
  proof cases
    case 1
    then have s2: "sz = 2" using sz by (simp add: bit_size_def VBanBitResolutionSize_def)
    have "\<exists>d. for_loop 0 n (\<lambda>i d. do {
          v \<leftarrow> mem_load src (2 * i) 2;
          store_f32 d i (fdiv f32 (of_int_fl f32 (sle v)) f_15) }) dst = Some d \<and> length d = length dst"
      by (rule for_loop_inv [where P = "\<lambda>_ d. length d = length dst", OF refl]) (use store src s2 in \<open>auto simp: mem_load_Some\<close>)
    then show ?thesis using 1 by (simp add: convertVbanToFloat_def)
  next
    case 2
    then have s3: "sz = 3" using sz by (simp add: bit_size_def VBanBitResolutionSize_def)
    have at: "u32_mod (i * 3) = i * 3" "pick src (i * 3) = Some (src ! (i * 3))" "pick src (i * 3 + 1) = Some (src ! (i * 3 + 1))"
      "pick src (i * 3 + 2) = Some (src ! (i * 3 + 2))" if "i < n" for i
      using that src s3 n by (auto simp: u32_mod_def pick_def)
    have "\<exists>d. for_loop 0 n (\<lambda>i d. do {
          a \<leftarrow> pick src (u32_mod (i * 3));
          b \<leftarrow> pick src (u32_mod (i * 3) + 1);
          c \<leftarrow> pick src (u32_mod (i * 3) + 2);
          store_f32 d i (fdiv f32 (of_int_fl f32 (uint a + uint b * 2 ^ 8 + sint c * 2 ^ 16)) f_23) }) dst = Some d \<and> length d = length dst"
      by (rule for_loop_inv [where P = "\<lambda>_ d. length d = length dst", OF refl]) (use store in \<open>auto simp only: at Option.bind.bind_lunit add_0\<close>)
    then show ?thesis using 2 by (simp add: convertVbanToFloat_def)
  qed (simp add: convertVbanToFloat_def)
qed

text \<open>The bytes a packet is read to, from the last frame's place and the offset on.\<close>

definition au_reach :: "nat \<Rightarrow> nat \<Rightarrow> nat \<Rightarrow> vban_header \<Rightarrow> nat" where
  "au_reach nb offset sz h =
     (let nbc = unat (format_nbc h) + 1 in
      unat (format_nbs h) * (sz * nbc) + (if offset > nbc then 0 else sz * offset) + min nbc nb * sz)"

definition au_fits :: "nat \<Rightarrow> nat \<Rightarrow> vban_packet \<Rightarrow> bool" where
  "au_fits nb offset p \<longleftrightarrow>
     (case bit_size (unat (format_bit (header p))) of None \<Rightarrow> False | Some sz \<Rightarrow> au_reach nb offset sz (header p) \<le> length (pdata p))"

lemma au_frames_ok:
  assumes sz: "bit_size f = Some sz" and room: "n * fsz + off + nbc * sz \<le> length data" and nbc: "nbc \<le> nb" "nb \<le> 65536"
    and len: "4 * (Suc n * nb) \<le> length ib"
  shows "\<exists>ib'. for_loop 0 (Suc n) (au_frame_in nb nbc fsz off f data) ib = Some ib' \<and> length ib' = length ib"
proof (rule for_loop_inv [where P = "\<lambda>_ b. length b = length ib", OF refl])
  fix k b
  assume k: "0 \<le> k" "k < 0 + Suc n" and b: "length (b :: byte list) = length ib"
  have "k * fsz \<le> n * fsz" using k by (intro mult_le_mono1) simp
  then have reach: "k * fsz + off + nbc * sz \<le> length data" using room by linarith
  have "Suc k * nb \<le> Suc n * nb" using k by (intro mult_le_mono1) simp
  then have "4 * (Suc k * nb) \<le> length ib" using len by (meson mult_le_mono2 order_trans)
  then have place: "4 * (k * nb) + 4 * nb \<le> length b" using b by simp
  let ?dst = "drop (4 * (k * nb)) b" and ?src = "drop (k * fsz + off) data"
  have lens: "nbc * sz \<le> length ?src" "4 * nbc \<le> length ?dst" using reach place nbc by simp_all
  have "\<exists>d. (if f = 4 then do { xs \<leftarrow> mem_load ?src 0 (4 * nbc); mem_store ?dst 0 xs } else convertVbanToFloat ?src ?dst nbc f) = Some d \<and>
      length d = length ?dst"
  proof (cases "f = 4")
    case True
    then have "sz = 4" using sz by (simp add: bit_size_def VBanBitResolutionSize_def)
    then show ?thesis using True lens by (simp add: mem mult.commute)
  next
    case False
    then show ?thesis using convert_to_floats [OF sz lens] nbc by simp
  qed
  then obtain d where d: "(if f = 4 then do { xs \<leftarrow> mem_load ?src 0 (4 * nbc); mem_store ?dst 0 xs } else convertVbanToFloat ?src ?dst nbc f) = Some d"
      "length d = length ?dst"
    by blast
  have "length (take (4 * (k * nb)) b @ d) = length ib" using d(2) place b by simp
  then show "\<exists>s'. au_frame_in nb nbc fsz off f data k b = Some s' \<and> length s' = length ib"
    using d(1) reach place by (simp add: au_frame_in_def)
qed


section \<open>The buffers\<close>

definition au_room :: "nat \<Rightarrow> nat \<Rightarrow> nat" where
  "au_room r n = n * 48000 div r + 2"

lemma au_room_mono: "m \<le> n \<Longrightarrow> au_room r m \<le> au_room r n"
  by (simp add: au_room_def div_le_mono mult_le_mono1)

lemma au_room_bound: "6000 \<le> r \<Longrightarrow> n \<le> 256 \<Longrightarrow> au_room r n \<le> 2050"
proof -
  assume a: "6000 \<le> r" "n \<le> 256"
  have "n * 48000 div r \<le> 256 * 48000 div 6000" using a by (intro div_le_mono2 [THEN order_trans, OF _ _ div_le_mono]) auto
  then show ?thesis by (simp add: au_room_def)
qed

text \<open>The two blocks hold what their lengths say for the rate \<open>r\<close> of the stream.\<close>

definition au_bufs_ok :: "nat \<Rightarrow> alsa_util \<Rightarrow> bool" where
  "au_bufs_ok r s \<longleftrightarrow> au_in_len s = 0 \<or>
     au_in_len s \<le> 256 \<and> au_out_len s = au_room r (au_in_len s) \<and> 4 * (au_in_len s * au_nboutputs s) \<le> length (au_in_buf s) \<and>
     4 * (au_room r (au_in_len s) * au_nboutputs s) \<le> length (au_out_buf s)"

lemma length_au_resize: "4 * n \<le> length (au_resize n b)"
  by (simp add: au_resize_def)

lemma au_buffers_ok:
  assumes ok: "au_bufs_ok r s" and rate: "au_samplerate s = 48000" and nb: "au_nboutputs s \<le> 65536"
    and sr: "sr_at (unat (format_SR h AND 0x1F)) = Some (int r)" and r: "6000 \<le> r" "r \<le> 200000"
    and n: "n = unat (format_nbs h) + 1"
  shows "\<exists>ib ob. au_buffers h s = Some (s\<lparr>au_in_len := n, au_in_buf := ib, au_out_len := au_room r n, au_out_buf := ob\<rparr>) \<and>
    4 * (n * au_nboutputs s) \<le> length ib \<and> 4 * (au_room r n * au_nboutputs s) \<le> length ob"
proof -
  let ?nb = "au_nboutputs s"
  have "unat (format_nbs h) < 256" using unsigned_less [of "format_nbs h"] by simp
  then have n256: "n \<le> 256" using n by simp
  have out: "au_outlen (au_samplerate s) n (format_SR h) = Some (au_room r n)"
    using au_outlen_ok [OF sr r n256, of 48000] rate by (simp add: au_room_def)
  have small: "u32_mod (n * ?nb) = n * ?nb" "u32_mod (au_room r n * ?nb) = au_room r n * ?nb"
  proof -
    have "n * ?nb \<le> 256 * 65536" "au_room r n * ?nb \<le> 2050 * 65536"
      using n256 nb au_room_bound [OF r(1) n256] by (intro mult_le_mono; simp)+
    then show "u32_mod (n * ?nb) = n * ?nb" "u32_mod (au_room r n * ?nb) = au_room r n * ?nb" by (simp_all add: u32_mod_def)
  qed
  consider "au_in_len s < n" | "n < au_in_len s" | "au_in_len s = n" by linarith
  then show ?thesis
  proof cases
    case 1
    show ?thesis
      by (rule exI [of _ "au_resize (n * ?nb) (au_in_buf s)"], rule exI [of _ "au_resize (au_room r n * ?nb) (au_out_buf s)"])
        (use 1 out small in \<open>simp only: au_buffers_def Let_def n [symmetric] if_True Option.bind.bind_lunit length_au_resize simp_thms\<close>)
  next
    case 2
    then have b: "4 * (au_in_len s * ?nb) \<le> length (au_in_buf s)" "4 * (au_room r (au_in_len s) * ?nb) \<le> length (au_out_buf s)"
      using ok by (simp_all add: au_bufs_ok_def)
    have "n * ?nb \<le> au_in_len s * ?nb" "au_room r n * ?nb \<le> au_room r (au_in_len s) * ?nb"
      using 2 au_room_mono [of n "au_in_len s" r] by (intro mult_le_mono1; simp)+
    then have len: "4 * (n * ?nb) \<le> length (au_in_buf s)" "4 * (au_room r n * ?nb) \<le> length (au_out_buf s)" using b by linarith+
    have "au_buffers h s = Some (s\<lparr>au_in_len := n, au_out_len := au_room r n\<rparr>)" using 2 out by (simp add: au_buffers_def Let_def n)
    also have "s\<lparr>au_in_len := n, au_out_len := au_room r n\<rparr> =
        s\<lparr>au_in_len := n, au_in_buf := au_in_buf s, au_out_len := au_room r n, au_out_buf := au_out_buf s\<rparr>" by simp
    finally show ?thesis using len by blast
  next
    case 3
    then have b: "au_out_len s = au_room r n" "4 * (n * ?nb) \<le> length (au_in_buf s)" "4 * (au_room r n * ?nb) \<le> length (au_out_buf s)"
      using ok n by (auto simp: au_bufs_ok_def)
    have same: "s\<lparr>au_in_len := n, au_in_buf := au_in_buf s, au_out_len := au_room r n, au_out_buf := au_out_buf s\<rparr> = s" using 3 b(1) by simp
    have run: "au_buffers h s = Some s" using 3 by (simp add: au_buffers_def Let_def n)
    show ?thesis
      by (rule exI [of _ "au_in_buf s"], rule exI [of _ "au_out_buf s"]) (use run b(2,3) in \<open>simp only: same simp_thms\<close>)
  qed
qed


section \<open>The invariant\<close>

text \<open>The fill is counted in frames; the ring has room for 1024 of them.\<close>

definition au_ring_ok :: "nat \<Rightarrow> ringbuffer \<Rightarrow> bool" where
  "au_ring_ok nb rb \<longleftrightarrow> rb_ok rb \<and> rb_size rb = 4096 * nb"

definition au_fill_ok :: "median_filter \<Rightarrow> int \<Rightarrow> bool" where
  "au_fill_ok m v \<longleftrightarrow> mf_ok m \<and> (\<forall>x \<in> set (mf_window m). 0 \<le> x \<and> x \<le> 1024) \<and> 0 \<le> v \<and> v \<le> 1024"

definition au_res_ok :: "nat \<Rightarrow> vresampler option \<Rightarrow> bool" where
  "au_res_ok nb res \<longleftrightarrow> (\<forall>r. res = Some r \<longrightarrow> (\<exists>t. vr_ok t r \<and> v_nchan r = nb))"

definition au_play_ok :: "nat \<Rightarrow> byte list \<Rightarrow> byte list list \<Rightarrow> bool" where
  "au_play_ok nb fb outs \<longleftrightarrow> length fb = 4 * nb \<and> length outs = nb \<and> (\<forall>b \<in> set outs. length b = 4 * 128)"

text \<open>\<open>r\<close> is the rate of the sender.\<close>

definition au_rx_ok :: "nat \<Rightarrow> alsa_util \<Rightarrow> bool" where
  "au_rx_ok r s \<longleftrightarrow> au_nframes s = 128 \<and> au_samplerate s = 48000 \<and> 0 < au_nboutputs s \<and> au_nboutputs s < 65536 \<and>
     length (au_name_rx s) < VBAN_STREAM_NAME_SIZE \<and> ts_ok (au_ts_old s) \<and> au_bufs_ok r s \<and>
     (\<exists>rb. au_ring s = Some rb \<and> au_ring_ok (au_nboutputs s) rb) \<and> au_fill_ok (au_median s) (au_rbfill s) \<and> ctl_ok (au_control s) \<and>
     au_res_ok (au_nboutputs s) (au_resampler s) \<and> (au_rxip s \<noteq> 0 \<longrightarrow> au_resampler s \<noteq> None) \<and>
     au_play_ok (au_nboutputs s) (au_frame s) (au_out s)"

text \<open>What neither a packet of audio nor a period changes.\<close>

definition au_kept :: "alsa_util \<Rightarrow> alsa_util \<Rightarrow> bool" where
  "au_kept s s' \<longleftrightarrow> au_nframes s' = au_nframes s \<and> au_nbinputs s' = au_nbinputs s \<and> au_nboutputs s' = au_nboutputs s \<and>
     au_offset s' = au_offset s \<and> au_format s' = au_format s \<and> au_name_rx s' = au_name_rx s \<and> au_name_tx s' = au_name_tx s \<and>
     au_reset_max s' = au_reset_max s \<and> au_fd s' = au_fd s \<and> au_capt s' = au_capt s \<and> au_tx s' = au_tx s \<and>
     au_packet s' = au_packet s \<and> au_datalen s' = au_datalen s \<and> au_npackets s' = au_npackets s"

lemma au_kept_refl [simp]: "au_kept s s"
  by (simp add: au_kept_def)

lemma au_kept_trans: "au_kept s t \<Longrightarrow> au_kept t u \<Longrightarrow> au_kept s u"
  by (simp add: au_kept_def)


section \<open>The measurement\<close>

lemma median_in: "xs \<noteq> [] \<Longrightarrow> median xs \<in> set xs"
  unfolding median_def by (metis div_less_dividend length_greater_0_conv length_sort nth_mem one_less_numeral_iff semiring_norm(76) set_sort)

lemma fill_step:
  assumes rb: "au_ring s = Some rb" "au_ring_ok (au_nboutputs s) rb" and nb: "0 < au_nboutputs s" "au_nboutputs s < 65536"
    and m: "au_fill_ok (au_median s) (au_rbfill s)"
  shows "\<exists>m v. au_fill s = Some (s\<lparr>au_median := m, au_rbfill := v\<rparr>) \<and> au_fill_ok m v"
proof -
  let ?q = "rb_fill rb div (4 * au_nboutputs s)"
  have "rb_fill rb < 4096 * au_nboutputs s" using rb(2) rb_fill_less [of rb] by (simp add: au_ring_ok_def)
  then have "rb_fill rb < 1024 * (4 * au_nboutputs s)" by simp
  then have q: "?q < 1024" using nb(1) by (intro less_mult_imp_div_less)
  then have qi: "to_i32 (int ?q) = int ?q" by (intro to_i32_nat) simp
  have mok: "mf_ok (au_median s)" using m by (simp add: au_fill_ok_def)
  let ?w = "tl (mf_window (au_median s)) @ [int ?q]"
  obtain m' where m': "mf_process (int ?q) (au_median s) = Some (m', median ?w)" "mf_ok m'" "mf_window m' = ?w"
    using mf_process_ok [OF mok] by blast
  have inside: "\<forall>x \<in> set ?w. 0 \<le> x \<and> x \<le> 1024"
    using m q by (auto simp: au_fill_ok_def dest: list.set_sel(2) [rotated]) (metis list.sel(2) list.set_sel(2))+
  moreover have "median ?w \<in> set ?w" by (rule median_in) simp
  ultimately have "au_fill_ok m' (median ?w)" using m'(2,3) unfolding au_fill_ok_def by metis
  moreover have "au_fill s = Some (s\<lparr>au_median := m', au_rbfill := median ?w\<rparr>)"
    using rb nb m'(1) qi by (simp add: au_fill_def au_ring_ok_def read_space_ok udiv_def)
  ultimately show ?thesis by blast
qed

lemma au_measure_ok:
  assumes rb: "au_ring s = Some rb" "au_ring_ok (au_nboutputs s) rb" and nb: "0 < au_nboutputs s" "au_nboutputs s < 65536"
    and m: "au_fill_ok (au_median s) (au_rbfill s)" and ts: "ts_ok ts" "ts_ok (au_ts_old s)"
  shows "\<exists>m v c. au_measure ts h s = Some (s\<lparr>au_median := m, au_rbfill := v, au_cycle := c\<rparr>) \<and> au_fill_ok m v"
proof -
  obtain m' v where f: "au_fill s = Some (s\<lparr>au_median := m', au_rbfill := v\<rparr>)" "au_fill_ok m' v" using fill_step [OF rb nb m] by blast
  have d: "ts_diff ts (au_ts_old s) = Some (nanos ts - nanos (au_ts_old s))" by (rule ts_diff_ok [OF ts])
  have same: "t = t\<lparr>au_median := au_median t, au_rbfill := au_rbfill t, au_cycle := au_cycle t\<rparr>" for t :: alsa_util by simp
  have cyc: "t\<lparr>au_cycle := c\<rparr> = t\<lparr>au_median := au_median t, au_rbfill := au_rbfill t, au_cycle := c\<rparr>" for t :: alsa_util and c by simp
  let ?n = "unat (format_nbs h) + 1"
  consider "\<not> (snd (au_ts_old s) \<noteq> 0 \<and> fst (au_ts_old s) \<noteq> 0)"
    | "snd (au_ts_old s) \<noteq> 0 \<and> fst (au_ts_old s) \<noteq> 0" "\<not> to_size (nanos ts - nanos (au_ts_old s)) > 100000"
    | "snd (au_ts_old s) \<noteq> 0 \<and> fst (au_ts_old s) \<noteq> 0" "to_size (nanos ts - nanos (au_ts_old s)) > 100000" "au_cycle s > au_nframes s"
    | "snd (au_ts_old s) \<noteq> 0 \<and> fst (au_ts_old s) \<noteq> 0" "to_size (nanos ts - nanos (au_ts_old s)) > 100000" "\<not> au_cycle s > au_nframes s"
    by blast
  then show ?thesis
  proof cases
    case 1
    then have "au_measure ts h s = Some s" by (simp only: au_measure_def if_False)
    then show ?thesis using m same by metis
  next
    case 2
    then have "au_measure ts h s = Some (s\<lparr>au_cycle := to_u16 (int (au_cycle s + ?n))\<rparr>)"
      by (simp only: au_measure_def if_True if_False not_False_eq_True simp_thms d Option.bind.bind_lunit Let_def)
    then show ?thesis using m cyc by metis
  next
    case 3
    then have "au_measure ts h s = Some (s\<lparr>au_median := m', au_rbfill := v, au_cycle := ?n\<rparr>)"
      by (simp only: au_measure_def if_True not_False_eq_True simp_thms d Option.bind.bind_lunit Let_def f(1))
    then show ?thesis using f(2) by blast
  next
    case 4
    then have "au_measure ts h s = Some (s\<lparr>au_cycle := ?n\<rparr>)"
      by (simp only: au_measure_def if_True if_False not_False_eq_True simp_thms d Option.bind.bind_lunit Let_def)
    then show ?thesis using m cyc by metis
  qed
qed


section \<open>A packet of the stream\<close>

lemma process_block:
  assumes r: "vr_ok t r" "v_nchan r = nb" and ib: "4 * (n * nb) \<le> length ib" and ob: "4 * (m * nb) \<le> length ob" and m: "m < 2 ^ 32"
  shows "\<exists>r' ob' pos. vr_process (r\<lparr>inp_count := n, inp_data := Some (ib, 0), out_count := m, out_data := Some (ob, 0)\<rparr>) = Some (r', 0) \<and>
    vr_ok t r' \<and> v_nchan r' = nb \<and> out_data r' = Some (ob', pos) \<and> length ob' = length ob \<and> out_count r' \<le> m \<and>
    nat ((int m - int (out_count r')) mod 2 ^ 32) = m - out_count r' \<and> (inp_count r' = 0 \<or> out_count r' = 0)"
proof -
  let ?r = "r\<lparr>inp_count := n, inp_data := Some (ib, 0), out_count := m, out_data := Some (ob, 0)\<rparr>"
  have rok: "vr_ok t ?r" using r(1) by (simp add: vr_ok_def vr_wf_def)
  have rooms: "room (inp_data ?r) (v_nchan ?r * inp_count ?r)" "room (out_data ?r) (v_nchan ?r * out_count ?r)"
    using ib ob r(2) by (simp_all add: room_def mult.commute)
  obtain r' where r': "vr_process ?r = Some (r', 0)" "vr_ok t r'" "v_nchan r' = v_nchan ?r" "out_count r' \<le> out_count ?r"
      "moved (out_data ?r) (v_nchan ?r * (out_count ?r - out_count r')) (out_data r')" "inp_count r' = 0 \<or> out_count r' = 0"
    using process_ok [OF rok rooms] by blast
  obtain ob' pos where ob': "out_data r' = Some (ob', pos)" "length ob' = length ob" using r'(5) by auto
  have le: "out_count r' \<le> m" using r'(4) by simp
  then have "int m - int (out_count r') = int (m - out_count r')" by (simp add: of_nat_diff)
  moreover have "int (m - out_count r') mod 2 ^ 32 = int (m - out_count r')"
    by (rule mod_pos_pos_trivial) (use m in simp_all)
  ultimately have "nat ((int m - int (out_count r')) mod 2 ^ 32) = m - out_count r'" by (simp only: nat_int)
  then show ?thesis using r' ob' le r(2) by simp
qed

lemma au_audio_ok:
  assumes ok: "au_rx_ok r s" and res: "au_resampler s \<noteq> None" and rb: "au_ring s = Some rb"
    and fit: "au_fits (au_nboutputs s) (au_offset s) p" and ts: "ts_ok ts"
    and sr: "sr_at (unat (format_SR (header p) AND 0x1F)) = Some (int r)" and r: "6000 \<le> r" "r \<le> 200000"
  shows "\<exists>s' rb' ob k. au_audio ts p s = Some s' \<and> au_rx_ok r (s'\<lparr>au_ts_old := ts\<rparr>) \<and> au_kept s s' \<and> au_rxip s' = au_rxip s \<and>
    au_flags s' = au_flags s \<and> au_reset s' = 0 \<and> au_nu s' = nuFrame (header p) \<and> au_resampler s' \<noteq> None \<and> au_ring s' = Some rb' \<and>
    k \<le> au_room r (unat (format_nbs (header p)) + 1) \<and> length ob \<ge> 4 * (k * au_nboutputs s) \<and>
    rb_abs rb' = rb_abs rb @ take (4 * au_nboutputs s * min k (rb_free rb div (4 * au_nboutputs s))) ob"
proof -
  let ?h = "header p" and ?nb = "au_nboutputs s" and ?nbc = "unat (format_nbc (header p)) + 1" and ?n = "unat (format_nbs (header p)) + 1"
  note k = ok [unfolded au_rx_ok_def]
  have nb: "0 < ?nb" "?nb < 65536" and rate: "au_samplerate s = 48000" and ring: "au_ring_ok ?nb rb" using k rb by auto
  have rbok: "rb_ok rb" using ring by (simp add: au_ring_ok_def)
  obtain res0 t where res0: "au_resampler s = Some res0" "vr_ok t res0" "v_nchan res0 = ?nb"
    using k res by (auto simp: au_res_ok_def)
  obtain sz where sz: "bit_size (unat (format_bit ?h)) = Some sz" "au_reach ?nb (au_offset s) sz ?h \<le> length (pdata p)"
    using fit by (auto simp: au_fits_def split: option.splits)
  define off where "off = (if au_offset s > ?nbc then 0 else sz * au_offset s)"
  obtain ib ob where b: "au_buffers ?h s = Some (s\<lparr>au_in_len := ?n, au_in_buf := ib, au_out_len := au_room r ?n, au_out_buf := ob\<rparr>)"
      "4 * (?n * ?nb) \<le> length ib" "4 * (au_room r ?n * ?nb) \<le> length ob"
    using au_buffers_ok [OF _ rate _ sr r refl] k by auto
  have reach: "unat (format_nbs ?h) * (sz * ?nbc) + off + min ?nbc ?nb * sz \<le> length (pdata p)"
    using sz(2) by (simp add: au_reach_def off_def Let_def)
  have ibl: "4 * (Suc (unat (format_nbs ?h)) * ?nb) \<le> length ib" using b(2) by simp
  have nb6: "?nb \<le> 65536" using nb by simp
  obtain ib' where ib': "for_loop 0 ?n (au_frame_in ?nb (min ?nbc ?nb) (sz * ?nbc) off (unat (format_bit ?h)) (pdata p)) ib = Some ib'"
      "length ib' = length ib"
    using au_frames_ok [OF sz(1) reach min.cobounded2 nb6 ibl] unfolding Suc_eq_plus1 by blast
  have "unat (format_nbs ?h) < 256" using unsigned_less [of "format_nbs ?h"] by simp
  then have n256: "?n \<le> 256" by simp
  have small: "au_room r ?n < 2 ^ 32" using au_room_bound [OF r(1) n256] by simp
  have ibl': "4 * (?n * ?nb) \<le> length ib'" using b(2) ib'(2) by simp
  obtain r' ob' pos where r': "vr_process (res0\<lparr>inp_count := ?n, inp_data := Some (ib', 0), out_count := au_room r ?n, out_data := Some (ob, 0)\<rparr>) = Some (r', 0)"
      "vr_ok t r'" "v_nchan r' = ?nb" "out_data r' = Some (ob', pos)" "length ob' = length ob" "out_count r' \<le> au_room r ?n"
      "nat ((int (au_room r ?n) - int (out_count r')) mod 2 ^ 32) = au_room r ?n - out_count r'"
    using process_block [OF res0(2,3) ibl' b(3) small] by blast
  let ?f = "au_room r ?n - out_count r'"
  have "?f * ?nb \<le> au_room r ?n * ?nb" by (rule mult_le_mono1) simp
  then have len: "4 * (?f * ?nb) \<le> length ob'" using b(3) r'(5) by linarith
  let ?m = "min ?f (rb_free rb div (4 * ?nb))"
  obtain rb' where rb': "for_loop 0 ?f (rx_write (Some ob') ?nb (4 * ?nb)) rb = Some rb'" "rb_ok rb'" "rb_size rb' = rb_size rb"
      "rb_abs rb' = rb_abs rb @ concat (map (\<lambda>k. take (4 * ?nb) (drop (4 * (k * ?nb)) ob')) [0..<?m])"
    using rx_writes_ok [OF rbok nb(1) order.refl len] by blast
  have app: "rb_abs rb' = rb_abs rb @ take (4 * ?nb * ?m) ob'"
    using concat_slices [where l = "4 * ?nb" and b = ob' and n = ?m] unfolding rb'(4) by (simp add: ac_simps)
  let ?s = "s\<lparr>au_in_len := ?n, au_out_len := au_room r ?n, au_in_buf := ib', au_out_buf := ob', au_resampler := Some r', au_ring := Some rb'\<rparr>"
  have ring': "au_ring_ok ?nb rb'" using ring rb'(2,3) by (simp add: au_ring_ok_def)
  obtain m' v c where me: "au_measure ts ?h ?s = Some (?s\<lparr>au_median := m', au_rbfill := v, au_cycle := c\<rparr>)" "au_fill_ok m' v"
    using au_measure_ok [of ?s rb' ts ?h] ring' nb ts k by auto
  let ?s' = "?s\<lparr>au_median := m', au_rbfill := v, au_cycle := c, au_reset := 0, au_nu := nuFrame ?h\<rparr>"
  have run: "au_audio ts p s = Some ?s'"
    unfolding au_audio_def Let_def b(1) Option.bind.bind_lunit sz(1)
    using ib'(1) res0(1) r'(1,4,7) rb rb'(1) me(1)
    by (cases "au_offset s > ?nbc") (simp_all add: off_def del: for_loop.simps)
  have "au_rx_ok r (?s'\<lparr>au_ts_old := ts\<rparr>)"
    using k me(2) ring' r'(2,3) ts n256 ibl' b(3) r'(5) by (auto simp: au_rx_ok_def au_bufs_ok_def au_res_ok_def)
  then show ?thesis using run app len
    by (intro exI [of _ ?s'] exI [of _ rb'] exI [of _ ob'] exI [of _ ?f]) (simp add: au_kept_def)
qed


section \<open>The first packet\<close>

lemma au_new_stream_ok:
  assumes ok: "au_rx_ok r s" and sr: "sr_at (unat (format_SR h AND 0x1F)) = Some (int r)" and r: "8000 \<le> r" "r \<le> 200000"
    and al: "\<And>k. length (ae_float env k) = k" and ip: "ip \<noteq> 0"
  shows "\<exists>s'. au_new_stream env h ip s = Some (Inr s') \<and> au_rx_ok r s' \<and> au_kept s s' \<and> au_rxip s' = ip \<and> au_receiving s' \<and>
    au_reset s' = au_reset s \<and> au_ring s' = au_ring s \<and> au_nu s' = nuFrame h"
proof -
  note k = ok [unfolded au_rx_ok_def]
  have nb: "0 < au_nboutputs s" "au_nboutputs s \<le> 65536" and rate: "au_samplerate s = 48000" using k by auto
  obtain x where x: "fdiv f64 (d_int 48000) (d_int (int r)) = FNum False x" "1 / 64 \<le> x" "x \<le> 256"
    using rates_ratio [of 48000 "int r"] r by auto
  have dn: "d_nat (au_samplerate s) = d_int 48000" using rate by (simp add: d_nat_def d_int_def)
  obtain res t where res: "vr_setup (new_table (ae_sin env) (ae_cos env)) (ae_float env) vr_new (FNum False x) (au_nboutputs s) 64 = Some (res, 0)"
      "vr_ok t res" "v_nchan res = au_nboutputs s"
    using fresh.setup_frel_ok [of "au_nboutputs s" 64 "FNum False x" x "ae_float env" "ae_sin env" "ae_cos env"] nb x(2,3) al
    unfolding vr_setup_def by force
  let ?r = "res\<lparr>inp_count := vr_inpsize res - 1, inp_data := None, out_count := 999999, out_data := None\<rparr>"
  have "vr_ok t ?r" using res(2) by (simp add: vr_ok_def vr_wf_def)
  then obtain r' where r': "vr_process ?r = Some (r', 0)" "vr_ok t r'" "v_nchan r' = au_nboutputs s"
    using process_ok [of t ?r] res(3) by (auto simp: room_def)
  let ?s = "s\<lparr>au_resampler := Some r', au_rxip := ip, au_nu := nuFrame h, au_flags := au_flags s OR ucast RECEIVING\<rparr>"
  have "au_new_stream env h ip s = Some (Inr ?s)"
    unfolding au_new_stream_def sr Option.bind.bind_lunit dn x(1) using res(1) r'(1) by simp
  moreover have "au_rx_ok r ?s" using k r' by (auto simp: au_rx_ok_def au_res_ok_def au_bufs_ok_def)
  moreover have "(au_flags s OR ucast RECEIVING) AND ucast RECEIVING \<noteq> (0 :: u32)"
  proof -
    have "(au_flags s OR ucast RECEIVING) AND ucast RECEIVING = (ucast RECEIVING :: u32)" by (simp add: bit_eq_iff bit_simps)
    then show ?thesis by (simp add: flag_defs)
  qed
  ultimately show ?thesis using ip by (intro exI [of _ ?s]) (simp add: au_kept_def au_receiving_def)
qed


section \<open>A period\<close>

text \<open>The frames of the ring, and its last one again and again; without any frame the last one played before.\<close>

definition au_frame_at :: "nat \<Rightarrow> byte list \<Rightarrow> byte list \<Rightarrow> nat \<Rightarrow> byte list" where
  "au_frame_at nb q fb k =
     (let m = length q div (4 * nb) in if m = 0 then fb else take (4 * nb) (drop (min k (m - 1) * (4 * nb)) q))"

definition channel_far :: "nat \<Rightarrow> nat \<Rightarrow> byte list \<Rightarrow> byte list list \<Rightarrow> nat \<Rightarrow> byte list list \<Rightarrow> bool" where
  "channel_far nb f fb old c outs \<longleftrightarrow> length outs = nb \<and>
     (\<forall>j < nb. outs ! j = (if j < c then blit (old ! j) (4 * f) (take 4 (drop (4 * j) fb)) else old ! j))"

lemma play_channels:
  assumes len: "length old = nb" and fb: "length fb = 4 * nb" and size: "\<forall>b \<in> set old. 4 * f + 4 \<le> length b"
  shows "\<exists>outs. for_loop 0 nb (\<lambda>channel outs. do {
       x \<leftarrow> mem_load fb (4 * channel) 4;
       b \<leftarrow> (if channel < length outs then Some (outs ! channel) else None);
       b \<leftarrow> mem_store b (4 * f) x;
       Some (outs[channel := b]) }) old = Some outs \<and> channel_far nb f fb old nb outs"
    (is "\<exists>outs. for_loop 0 nb ?body old = Some outs \<and> _")
proof -
  have "\<exists>outs. for_loop 0 nb ?body old = Some outs \<and> channel_far nb f fb old (0 + nb) outs"
  proof (rule for_loop_inv)
    show "channel_far nb f fb old 0 old" using len by (simp add: channel_far_def)
    fix c outs
    assume c: "0 \<le> c" "c < 0 + nb" and st: "channel_far nb f fb old c outs"
    then have o: "length outs = nb" "outs ! c = old ! c" by (simp_all add: channel_far_def)
    have x: "mem_load fb (4 * c) 4 = Some (take 4 (drop (4 * c) fb))" "length (take 4 (drop (4 * c) fb)) = 4"
      using c fb by (simp_all add: mem)
    have "4 * f + 4 \<le> length (old ! c)" using size c len by simp
    then have "mem_store (outs ! c) (4 * f) (take 4 (drop (4 * c) fb)) = Some (blit (old ! c) (4 * f) (take 4 (drop (4 * c) fb)))"
      using o x(2) by (simp only: mem)
    then have "?body c outs = Some (outs[c := blit (old ! c) (4 * f) (take 4 (drop (4 * c) fb))])"
      using c o(1) x(1) by simp
    moreover have "channel_far nb f fb old (Suc c) (outs[c := blit (old ! c) (4 * f) (take 4 (drop (4 * c) fb))])"
      using st c by (auto simp: channel_far_def nth_list_update less_Suc_eq)
    ultimately show "\<exists>s'. ?body c outs = Some s' \<and> channel_far nb f fb old (Suc c) s'" by blast
  qed
  then show ?thesis by simp
qed

definition play_far :: "nat \<Rightarrow> byte list \<Rightarrow> byte list \<Rightarrow> nat \<Rightarrow> ringbuffer \<times> byte list \<times> byte list list \<Rightarrow> bool" where
  "play_far nb q fb0 f t \<longleftrightarrow> (case t of (rb, fb, outs) \<Rightarrow>
     au_ring_ok nb rb \<and> rb_abs rb = drop (min f (length q div (4 * nb)) * (4 * nb)) q \<and> au_play_ok nb fb outs \<and>
     fb = (if f = 0 then fb0 else au_frame_at nb q fb0 (f - 1)) \<and>
     (\<forall>g < f. \<forall>c < nb. take 4 (drop (4 * g) (outs ! c)) = take 4 (drop (4 * c) (au_frame_at nb q fb0 g))))"

lemma slice_blit:
  assumes "4 * f + 4 \<le> length b" and "length x = 4"
  shows "take 4 (drop (4 * f) (blit b (4 * f) x)) = x" and "g < f \<Longrightarrow> take 4 (drop (4 * g) (blit b (4 * f) x)) = take 4 (drop (4 * g) b)"
proof -
  show "take 4 (drop (4 * f) (blit b (4 * f) x)) = x" using assms by (simp add: blit_def)
  assume g: "g < f"
  then have "4 * g + 4 \<le> 4 * f" by simp
  moreover from this have "take (4 * g + 4) (blit b (4 * f) x) = take (4 * g + 4) b"
    using assms by (simp add: blit_def)
  then have "drop (4 * g) (take (4 * g + 4) (blit b (4 * f) x)) = drop (4 * g) (take (4 * g + 4) b)" by simp
  ultimately show "take 4 (drop (4 * g) (blit b (4 * f) x)) = take 4 (drop (4 * g) b)" by (simp add: drop_take)
qed

lemma play_take:
  assumes rb: "au_ring_ok nb rb" "rb_abs rb = drop (min f (length q div (4 * nb)) * (4 * nb)) q" and nb: "0 < nb"
    and fb: "fb = (if f = 0 then fb0 else au_frame_at nb q fb0 (f - 1))" "length fb = 4 * nb"
  shows "\<exists>rb'. (do { n \<leftarrow> ringbuffer_read_space rb;
       if 4 * nb \<le> n then do { (rb, fb, _) \<leftarrow> ringbuffer_read rb fb (4 * nb); Some (rb, fb) } else Some (rb, fb) }) =
       Some (rb', au_frame_at nb q fb0 f) \<and> au_ring_ok nb rb' \<and>
     rb_abs rb' = drop (min (Suc f) (length q div (4 * nb)) * (4 * nb)) q \<and> length (au_frame_at nb q fb0 f) = 4 * nb"
proof -
  let ?fs = "4 * nb" and ?m = "length q div (4 * nb)"
  have rbok: "rb_ok rb" using rb(1) by (simp add: au_ring_ok_def)
  obtain j where j: "?fs = Suc j" using nb by (cases ?fs) auto
  have fill: "rb_fill rb = length q - min f ?m * ?fs" using rb(2) length_rb_abs [of rb] by simp
  note space = read_space_ok [OF rbok]
  show ?thesis
  proof (cases "f < ?m")
    case True
    then have "Suc f * ?fs \<le> ?m * ?fs" by (intro mult_le_mono1) simp
    also have "\<dots> \<le> length q" by (rule div_times_less_eq_dividend)
    finally have room: "f * ?fs + ?fs \<le> length q" by simp
    then have there: "?fs \<le> length (rb_abs rb)" "?fs \<le> rb_fill rb" using fill True by simp_all
    obtain rb' where rb': "ringbuffer_read rb fb ?fs = Some (rb', blit fb 0 (take ?fs (rb_abs rb)), ?fs)" "rb_ok rb'" "rb_cap rb' = rb_cap rb"
        "rb_abs rb' = drop ?fs (rb_abs rb)"
      using ring_frames.take_frame [OF rbok, of j fb] there(1) fb(2) unfolding j by auto
    have size: "rb_size rb' = rb_size rb" using rb'(2,3) rbok by (simp add: rb_cap_def rb_ok_def, linarith)
    have m0: "?m \<noteq> 0" "min f (?m - 1) = f" using True by auto
    have here: "rb_abs rb = drop (f * ?fs) q" using rb(2) True by simp
    have frame: "au_frame_at nb q fb0 f = take ?fs (drop (f * ?fs) q)" using m0 by (simp add: au_frame_at_def Let_def)
    have "blit fb 0 (take ?fs (rb_abs rb)) = take ?fs (drop (f * ?fs) q)" using fb(2) room here by (simp add: blit_0)
    moreover have "rb_abs rb' = drop (min (Suc f) ?m * ?fs) q" using rb'(4) here True by (simp add: add.commute)
    moreover have "length (take ?fs (drop (f * ?fs) q)) = ?fs" using room by simp
    ultimately show ?thesis using space there(2) rb'(1,2) size rb(1) frame by (simp add: au_ring_ok_def)
  next
    case False
    then have mn: "min f ?m = ?m" "min (Suc f) ?m = ?m" by simp_all
    have "length q < ?fs + ?m * ?fs" using dividend_less_div_times [of ?fs "length q"] nb by simp
    then have "\<not> ?fs \<le> rb_fill rb" using fill nb unfolding mn by simp
    moreover have same: "au_frame_at nb q fb0 f = fb"
    proof (cases "?m = 0 \<or> f = 0")
      case True
      then show ?thesis using fb(1) False by (auto simp: au_frame_at_def Let_def)
    next
      case nz: False
      then have "min f (?m - 1) = min (f - 1) (?m - 1)" using False by simp
      then show ?thesis using fb(1) nz by (simp add: au_frame_at_def Let_def)
    qed
    ultimately show ?thesis using space rb mn fb(2) by simp
  qed
qed

lemma play_frame_step:
  assumes st: "play_far nb q fb0 f (rb, fb, outs)" and nb: "0 < nb" and f: "f < 128"
  shows "\<exists>t. au_play_frame nb f (rb, fb, outs) = Some t \<and> play_far nb q fb0 (Suc f) t"
proof -
  note k = st [unfolded play_far_def prod.case]
  let ?fr = "au_frame_at nb q fb0 f"
  have p: "length fb = 4 * nb" "length outs = nb" "\<forall>b \<in> set outs. length b = 4 * 128"
    using k unfolding au_play_ok_def by blast+
  obtain rb' where rb': "(do { n \<leftarrow> ringbuffer_read_space rb;
       if 4 * nb \<le> n then do { (rb, fb, _) \<leftarrow> ringbuffer_read rb fb (4 * nb); Some (rb, fb) } else Some (rb, fb) }) = Some (rb', ?fr)"
      "au_ring_ok nb rb'" "rb_abs rb' = drop (min (Suc f) (length q div (4 * nb)) * (4 * nb)) q" "length ?fr = 4 * nb"
    using play_take [of nb rb f q fb fb0] k nb p(1) by blast
  have size: "\<forall>b \<in> set outs. 4 * f + 4 \<le> length b" using p(3) f by auto
  obtain outs' where o: "for_loop 0 nb (\<lambda>channel outs. do {
       x \<leftarrow> mem_load ?fr (4 * channel) 4;
       b \<leftarrow> (if channel < length outs then Some (outs ! channel) else None);
       b \<leftarrow> mem_store b (4 * f) x;
       Some (outs[channel := b]) }) outs = Some outs'" "channel_far nb f ?fr outs nb outs'"
    using play_channels [OF p(2) rb'(4) size] by blast
  have o': "length outs' = nb" "\<And>c. c < nb \<Longrightarrow> outs' ! c = blit (outs ! c) (4 * f) (take 4 (drop (4 * c) ?fr))"
    using o(2) by (simp_all add: channel_far_def)
  have x: "length (take 4 (drop (4 * c) ?fr)) = 4" if "c < nb" for c using that rb'(4) by simp
  have b: "length (outs ! c) = 4 * 128" if "c < nb" for c using that p by simp
  have "au_play_frame nb f (rb, fb, outs) = Some (rb', ?fr, outs')"
  proof -
    obtain n where n: "ringbuffer_read_space rb = Some n" using rb'(1) by (cases "ringbuffer_read_space rb") auto
    then have "(if 4 * nb \<le> n then do { (rb, fb, _) \<leftarrow> ringbuffer_read rb fb (4 * nb); Some (rb, fb) } else Some (rb, fb)) = Some (rb', ?fr)"
      using rb'(1) by simp
    then show ?thesis using n o(1) by (simp only: au_play_frame_def Let_def prod.case Option.bind.bind_lunit)
  qed
  moreover have "play_far nb q fb0 (Suc f) (rb', ?fr, outs')"
  proof -
    have "length d = 4 * 128" if d: "d \<in> set outs'" for d
    proof -
      obtain c where "c < length outs'" "outs' ! c = d" using d unfolding in_set_conv_nth by blast
      then have c: "c < nb" "d = outs' ! c" using o'(1) by auto
      have "4 * f + length (take 4 (drop (4 * c) ?fr)) \<le> length (outs ! c)" using b [OF c(1)] x [OF c(1)] f by simp
      then show ?thesis unfolding c(2) o'(2) [OF c(1)] using b [OF c(1)] by (simp only: length_blit)
    qed
    then have pk: "au_play_ok nb ?fr outs'" using rb'(4) o'(1) by (simp add: au_play_ok_def)
    have "take 4 (drop (4 * g) (outs' ! c)) = take 4 (drop (4 * c) (au_frame_at nb q fb0 g))" if g: "g < Suc f" and c: "c < nb" for g c
    proof -
      have room: "4 * f + 4 \<le> length (outs ! c)" using b [OF c] f by simp
      show ?thesis
      proof (cases "g = f")
        case True
        then show ?thesis unfolding o'(2) [OF c] by (simp only: slice_blit(1) [OF room x [OF c]])
      next
        case False
        then have "g < f" using g by simp
        moreover from this have "take 4 (drop (4 * g) (outs' ! c)) = take 4 (drop (4 * g) (outs ! c))"
          unfolding o'(2) [OF c] by (rule slice_blit(2) [OF room x [OF c]])
        ultimately show ?thesis using k c by metis
      qed
    qed
    then show ?thesis using rb'(2,3) pk by (simp add: play_far_def)
  qed
  ultimately show ?thesis by blast
qed

lemma play_period:
  assumes rb: "au_ring_ok nb rb" and p: "au_play_ok nb fb outs" and nb: "0 < nb"
  shows "\<exists>rb' fb' outs'. for_loop 0 128 (au_play_frame nb) (rb, fb, outs) = Some (rb', fb', outs') \<and> au_ring_ok nb rb' \<and>
    au_play_ok nb fb' outs' \<and> rb_abs rb' = drop (min 128 (length (rb_abs rb) div (4 * nb)) * (4 * nb)) (rb_abs rb) \<and>
    fb' = au_frame_at nb (rb_abs rb) fb 127 \<and>
    (\<forall>g < 128. \<forall>c < nb. take 4 (drop (4 * g) (outs' ! c)) = take 4 (drop (4 * c) (au_frame_at nb (rb_abs rb) fb g)))"
proof -
  have "\<exists>t. for_loop 0 128 (au_play_frame nb) (rb, fb, outs) = Some t \<and> play_far nb (rb_abs rb) fb (0 + 128) t"
  proof (rule for_loop_inv)
    show "play_far nb (rb_abs rb) fb 0 (rb, fb, outs)" using rb p by (simp add: play_far_def)
    show "\<exists>t'. au_play_frame nb f t = Some t' \<and> play_far nb (rb_abs rb) fb (Suc f) t'"
      if "f < 0 + 128" "play_far nb (rb_abs rb) fb f t" for f t
      using play_frame_step [OF _ nb, of "rb_abs rb" fb f] that by (cases t) auto
  qed
  then show ?thesis by (auto simp: play_far_def simp del: for_loop.simps)
qed

lemma calculate_ratio_ok:
  assumes "ctl_ok k" and "0 \<le> v" and "v \<le> 1024"
  shows "ctl_ok (calculateRRatio 195 v k) \<and> au_rratio (calculateRRatio 195 v k) \<noteq> FNaN \<and> mag_ok (au_rratio (calculateRRatio 195 v k))"
proof -
  have "ctl_ok (calculateRRatio 195 v k)"
    using controller_step [where need = 195 and cur = v, OF assms(1) _ _ _ refl refl] assms(2,3) by (auto simp: abs_le_iff)
  then show ?thesis unfolding ctl_ok_def by (metis is_num.simps(3))
qed

text \<open>The end of the stream: what is left in the ring is dropped.\<close>

definition au_ends :: "alsa_util \<Rightarrow> bool" where
  "au_ends s \<longleftrightarrow> au_receiving s \<and> au_reset s = au_reset_max s"

lemma ring_emptied:
  assumes "au_ring_ok nb rb"
  shows "\<exists>rb'. (do { left \<leftarrow> ringbuffer_read_space rb;
     if 0 < left then do { (rb, _, _) \<leftarrow> ringbuffer_read rb (replicate left 0) left; Some rb } else Some rb }) = Some rb' \<and>
     au_ring_ok nb rb' \<and> rb_abs rb' = []"
proof -
  have ok: "rb_ok rb" using assms by (simp add: au_ring_ok_def)
  note space = read_space_ok [OF ok]
  show ?thesis
  proof (cases "rb_fill rb")
    case 0
    then have "length (rb_abs rb) = 0" by simp
    then have "rb_abs rb = []" by (simp only: length_0_conv)
    then show ?thesis using space 0 assms by simp
  next
    case (Suc j)
    have len: "length (rb_abs rb) = Suc j" using Suc by simp
    obtain rb' where rb': "ringbuffer_read rb (replicate (Suc j) 0) (Suc j) = Some (rb', blit (replicate (Suc j) 0) 0 (take (Suc j) (rb_abs rb)), Suc j)"
        "rb_ok rb'" "rb_cap rb' = rb_cap rb" "rb_abs rb' = drop (Suc j) (rb_abs rb)"
      using ring_frames.take_frame [OF ok, of j "replicate (Suc j) 0"] len by auto
    have "rb_size rb' = rb_size rb" using rb'(2,3) ok by (simp add: rb_cap_def rb_ok_def, linarith)
    then show ?thesis using space Suc rb' len assms by (simp add: au_ring_ok_def)
  qed
qed

lemma au_watch_ok:
  assumes ok: "au_rx_ok r s" and rb: "au_ring s = Some rb"
  shows "\<exists>s'. au_watch s = Some s' \<and> au_rx_ok r s' \<and> au_kept s s' \<and> au_out s' = au_out s \<and> au_rbfill s' = au_rbfill s \<and>
    au_control s' = au_control s \<and> au_flags s' = au_flags s \<and>
    (if au_ends s then au_rxip s' = 0 \<and> au_reset s' = 0 \<and> au_resampler s' = None \<and> (\<exists>rb'. au_ring s' = Some rb' \<and> rb_abs rb' = [])
     else au_rxip s' = au_rxip s \<and> au_ring s' = Some rb \<and>
       au_reset s' = (if au_receiving s \<and> au_reset s < au_reset_max s then au_reset s + 1 else au_reset s))"
proof -
  note k = ok [unfolded au_rx_ok_def]
  consider "au_ends s" | "au_receiving s" "au_reset s < au_reset_max s" | "\<not> au_ends s" "\<not> (au_receiving s \<and> au_reset s < au_reset_max s)" by blast
  then show ?thesis
  proof cases
    case 1
    then have e: "au_receiving s" "\<not> au_reset s < au_reset_max s" "au_reset s = au_reset_max s" by (simp_all add: au_ends_def)
    obtain rb' where rb': "(do { left \<leftarrow> ringbuffer_read_space rb;
         if 0 < left then do { (rb, _, _) \<leftarrow> ringbuffer_read rb (replicate left 0) left; Some rb } else Some rb }) = Some rb'"
        "au_ring_ok (au_nboutputs s) rb'" "rb_abs rb' = []"
      using ring_emptied [of "au_nboutputs s" rb] k rb by auto
    let ?s = "s\<lparr>au_rxip := 0, au_reset := 0, au_resampler := None\<rparr>"
    obtain left where left: "ringbuffer_read_space rb = Some left" using rb'(1) by (cases "ringbuffer_read_space rb") auto
    have "au_watch s = Some (?s\<lparr>au_ring := Some rb'\<rparr>)"
      using e rb rb'(1) left by (simp add: au_watch_def)
    moreover have "au_rx_ok r (?s\<lparr>au_ring := Some rb'\<rparr>)" using k rb'(2) by (simp add: au_rx_ok_def au_res_ok_def au_bufs_ok_def)
    ultimately show ?thesis using 1 rb'(3) by (simp add: au_kept_def)
  next
    case 2
    then have "\<not> au_ends s" by (simp add: au_ends_def)
    moreover have "au_watch s = Some (s\<lparr>au_reset := au_reset s + 1\<rparr>)" using 2 by (simp add: au_watch_def)
    moreover have "au_rx_ok r (s\<lparr>au_reset := au_reset s + 1\<rparr>)" using k by (simp add: au_rx_ok_def au_bufs_ok_def)
    ultimately show ?thesis using 2 rb by (simp add: au_kept_def)
  next
    case 3
    then have "au_watch s = Some s" by (auto simp: au_watch_def au_ends_def)
    moreover have "(if au_receiving s \<and> au_reset s < au_reset_max s then au_reset s + 1 else au_reset s) = au_reset s" using 3(2) by (simp only: if_False)
    ultimately show ?thesis using 3(1) rb ok by simp
  qed
qed

lemma au_rx_cycle_ok:
  assumes ok: "au_rx_ok r s" and rb: "au_ring s = Some rb" and nb: "nb = au_nboutputs s"
  shows "\<exists>s' rb'. au_rx_cycle s = Some s' \<and> au_rx_ok r s' \<and> au_kept s s' \<and> au_flags s' = au_flags s \<and> au_ring s' = Some rb' \<and>
    (\<forall>g < 128. \<forall>c < nb. take 4 (drop (4 * g) (au_out s' ! c)) = take 4 (drop (4 * c) (au_frame_at nb (rb_abs rb) (au_frame s) g))) \<and>
    (if au_ends s then au_rxip s' = 0 \<and> au_reset s' = 0 \<and> au_resampler s' = None \<and> rb_abs rb' = []
     else au_rxip s' = au_rxip s \<and> rb_abs rb' = drop (min 128 (length (rb_abs rb) div (4 * nb)) * (4 * nb)) (rb_abs rb) \<and>
       au_reset s' = (if au_receiving s \<and> au_reset s < au_reset_max s then au_reset s + 1 else au_reset s))"
proof -
  note k = ok [unfolded au_rx_ok_def]
  have n: "0 < nb" "au_nboutputs s < 65536" "au_nframes s = 128" using k nb by auto
  have ring: "au_ring_ok nb rb" using k rb nb by auto
  have "\<exists>m v. (if au_cycle s \<le> au_nframes s then au_fill s else Some s) = Some (s\<lparr>au_median := m, au_rbfill := v\<rparr>) \<and> au_fill_ok m v"
  proof (cases "au_cycle s \<le> au_nframes s")
    case True
    then show ?thesis using fill_step [OF rb] ring nb n k by simp
  next
    case False
    have "s\<lparr>au_median := au_median s, au_rbfill := au_rbfill s\<rparr> = s" by simp
    then show ?thesis using False k by (intro exI [of _ "au_median s"], intro exI [of _ "au_rbfill s"]) (simp only: if_False simp_thms)
  qed
  then obtain m v where f: "(if au_cycle s \<le> au_nframes s then au_fill s else Some s) = Some (s\<lparr>au_median := m, au_rbfill := v\<rparr>)" "au_fill_ok m v" by blast
  have pl: "au_play_ok nb (au_frame s) (au_out s)" using k nb by simp
  obtain rb' fb' outs' where p: "for_loop 0 128 (au_play_frame nb) (rb, au_frame s, au_out s) = Some (rb', fb', outs')" "au_ring_ok nb rb'"
      "au_play_ok nb fb' outs'" "rb_abs rb' = drop (min 128 (length (rb_abs rb) div (4 * nb)) * (4 * nb)) (rb_abs rb)"
      "\<forall>g < 128. \<forall>c < nb. take 4 (drop (4 * g) (outs' ! c)) = take 4 (drop (4 * c) (au_frame_at nb (rb_abs rb) (au_frame s) g))"
    using play_period [OF ring pl n(1)] by blast
  let ?s = "s\<lparr>au_median := m, au_rbfill := v, au_ring := Some rb', au_frame := fb', au_out := outs'\<rparr>"
  have sok: "au_rx_ok r ?s" using k f(2) p(2,3) nb by (simp add: au_rx_ok_def au_bufs_ok_def)
  have same: "au_ends ?s = au_ends s" "au_receiving ?s = au_receiving s" by (simp_all add: au_ends_def au_receiving_def)
  have w: "au_ring ?s = Some rb'" by simp
  obtain s2 where s2: "au_watch ?s = Some s2" "au_rx_ok r s2" "au_kept ?s s2" "au_out s2 = au_out ?s" "au_rbfill s2 = au_rbfill ?s"
      "au_control s2 = au_control ?s" "au_flags s2 = au_flags ?s"
      "if au_ends ?s then au_rxip s2 = 0 \<and> au_reset s2 = 0 \<and> au_resampler s2 = None \<and> (\<exists>rb'. au_ring s2 = Some rb' \<and> rb_abs rb' = [])
       else au_rxip s2 = au_rxip ?s \<and> au_ring s2 = Some rb' \<and>
         au_reset s2 = (if au_receiving ?s \<and> au_reset ?s < au_reset_max ?s then au_reset ?s + 1 else au_reset ?s)"
    using au_watch_ok [OF sok w] by blast
  have end2: "if au_ends s then au_rxip s2 = 0 \<and> au_reset s2 = 0 \<and> au_resampler s2 = None \<and> (\<exists>rb'. au_ring s2 = Some rb' \<and> rb_abs rb' = [])
       else au_rxip s2 = au_rxip s \<and> au_ring s2 = Some rb' \<and>
         au_reset s2 = (if au_receiving s \<and> au_reset s < au_reset_max s then au_reset s + 1 else au_reset s)"
    using s2(8) unfolding same by simp
  have f2: "au_out s2 = outs'" "au_rbfill s2 = v" "au_control s2 = au_control s" "au_flags s2 = au_flags s" using s2(4-7) by simp_all
  note k2 = s2(2) [unfolded au_rx_ok_def]
  let ?k = "calculateRRatio 195 v (au_control s)"
  have c: "ctl_ok ?k" "au_rratio ?k \<noteq> FNaN" "mag_ok (au_rratio ?k)" using calculate_ratio_ok [of "au_control s" v] k f(2) by (auto simp: au_fill_ok_def)
  let ?s3 = "s2\<lparr>au_control := ?k, au_resampler := map_option (\<lambda>r. vr_set_rratio r (au_rratio ?k)) (au_resampler s2)\<rparr>"
  have nf2: "au_nframes s2 = 128" using k2 by simp
  have run: "au_rx_cycle s = Some ?s3"
    unfolding au_rx_cycle_def f(1) Option.bind.bind_lunit
    using rb p(1) s2(1) f2 n(3) nb nf2 by (simp add: Let_def del: for_loop.simps)
  have res: "au_res_ok (au_nboutputs s2) (map_option (\<lambda>r. vr_set_rratio r (au_rratio ?k)) (au_resampler s2))"
  proof -
    have old: "au_res_ok (au_nboutputs s2) (au_resampler s2)" using k2 by blast
    show ?thesis unfolding au_res_ok_def
    proof (intro allI impI)
      fix q assume "map_option (\<lambda>r. vr_set_rratio r (au_rratio ?k)) (au_resampler s2) = Some q"
      then obtain z where z: "au_resampler s2 = Some z" "q = vr_set_rratio z (au_rratio ?k)" by auto
      then obtain t where t: "vr_ok t z" "v_nchan z = au_nboutputs s2" using old by (auto simp: au_res_ok_def)
      show "\<exists>t. vr_ok t q \<and> v_nchan q = au_nboutputs s2"
        using set_rratio_ok [OF t(1) c(2,3)] t(2) z(2) by (intro exI [of _ t]) simp
    qed
  qed
  have "au_rx_ok r ?s3" using k2 c(1) res by (simp add: au_rx_ok_def au_bufs_ok_def)
  moreover have "au_kept s ?s3" using s2(3) by (simp add: au_kept_def)
  moreover have "\<exists>rb2. au_ring s2 = Some rb2 \<and> (if au_ends s then au_rxip s2 = 0 \<and> au_reset s2 = 0 \<and> au_resampler s2 = None \<and> rb_abs rb2 = []
     else au_rxip s2 = au_rxip s \<and> rb_abs rb2 = rb_abs rb' \<and>
       au_reset s2 = (if au_receiving s \<and> au_reset s < au_reset_max s then au_reset s + 1 else au_reset s))"
    using end2 by (cases "au_ends s") auto
  ultimately show ?thesis using run f2 p(4,5)
    by (intro exI [of _ ?s3]) (auto split: if_splits)
qed

end
