(* ===== verification/Alsa_Session.thy ===== *)
theory Alsa_Session
  imports Alsa_Receive Multistream
begin

text \<open>
  Runs of the ALSA utility: what its start leaves, that every sequence of datagrams and periods keeps
  it, and how a stream ends.
\<close>

section \<open>The sending half keeps the receiving one\<close>

definition au_rx_part :: "alsa_util \<Rightarrow> alsa_util" where
  "au_rx_part s = s\<lparr>au_capt := [], au_tx := None, au_packet := zero_packet, au_srch := 0, au_ips := [], au_target := (0, 0)\<rparr>"

lemma rx_part_ok: "au_rx_part s' = au_rx_part s \<Longrightarrow> au_rx_ok r s \<Longrightarrow> au_rx_ok r s'"
proof -
  assume same: "au_rx_part s' = au_rx_part s" and ok: "au_rx_ok r s"
  have "au_rx_ok r t = au_rx_ok r (au_rx_part t)" for t by (simp add: au_rx_ok_def au_bufs_ok_def au_rx_part_def)
  then show ?thesis using same ok by metis
qed

lemma request_ok: "packet_ok au_request"
  using zero_packet_ok by (simp add: au_request_def packet_ok_def header_ok_def zero_packet_def zero_header_def vban_sizes bytes_of_def)

lemma send_defined: "packet_ok p \<Longrightarrow> n \<le> VBAN_DATA_MAX_SIZE \<Longrightarrow> \<exists>evs. au_send p n s = Some evs"
  by (simp add: au_send_def mem length_packet_bytes vban_sizes)

lemma ask_all_ok: "\<exists>g evs'. au_ask_all ips (s, evs) = Some (s\<lparr>au_target := g\<rparr>, evs')"
proof (induction ips arbitrary: s evs)
  case Nil
  have "s\<lparr>au_target := au_target s\<rparr> = s" by simp
  then show ?case by (intro exI [of _ "au_target s"]) simp
next
  case (Cons ip ips)
  let ?s = "au_set_target (ip OR 0xFF000000) (au_txport s) s"
  obtain ev where ev: "au_send au_request 5 ?s = Some ev" using send_defined [OF request_ok, of 5 ?s] by (auto simp: vban_sizes)
  obtain g evs' where "au_ask_all ips (?s, evs @ ev) = Some (?s\<lparr>au_target := g\<rparr>, evs')" using Cons.IH by blast
  then show ?case using ev by (intro exI [of _ g]) (simp add: au_ask_def Let_def au_set_target_def)
qed

lemma au_search_ok: "\<exists>a b g evs. au_search ifaddr s = Some (s\<lparr>au_srch := a, au_ips := b, au_target := g\<rparr>, evs)"
proof -
  have same: "s\<lparr>au_srch := a\<rparr> = s\<lparr>au_srch := a, au_ips := au_ips s, au_target := au_target s\<rparr>" for a by simp
  consider "au_srch s = au_srch_max s" "au_name_tx s \<noteq> []" | "au_srch s = au_srch_max s" "au_name_tx s = []" | "au_srch s \<noteq> au_srch_max s" by blast
  then show ?thesis
  proof cases
    case 1
    let ?ips = "getIPAddresses ifaddr []"
    obtain g evs where "au_ask_all ?ips (s\<lparr>au_ips := ?ips\<rparr>, []) = Some (s\<lparr>au_ips := ?ips\<rparr>\<lparr>au_target := g\<rparr>, evs)"
      using ask_all_ok [of ?ips "s\<lparr>au_ips := ?ips\<rparr>" "[]"] by auto
    then show ?thesis using 1 by (intro exI [of _ 0], intro exI [of _ ?ips], intro exI [of _ g]) (simp add: au_search_def Let_def)
  next
    case 2
    then have "au_search ifaddr s = Some (s\<lparr>au_srch := 0\<rparr>, [])" by (simp add: au_search_def)
    then show ?thesis using same [of 0] by metis
  next
    case 3
    then have "au_search ifaddr s = Some (s\<lparr>au_srch := to_u16 (int (au_srch s) + 1)\<rparr>, [])" by (simp add: au_search_def)
    then show ?thesis using same by metis
  qed
qed

text \<open>One cycle of the sending half, with a target or without one.\<close>

lemma converted_ok:
  assumes ok: "au_tx_ok s" and capt: "length capt = 4 * (128 * au_nbinputs s)"
  shows "\<exists>t tx. (case au_tx s of None \<Rightarrow> Some (s\<lparr>au_capt := capt\<rparr>, capt)
       | Some tx \<Rightarrow> do { tx \<leftarrow> convertFloatToVban capt tx 128 (au_format s); Some (s\<lparr>au_capt := capt, au_tx := Some tx\<rparr>, tx) }) =
      Some (s\<lparr>au_capt := capt, au_tx := t\<rparr>, tx) \<and> au_tx_ok (s\<lparr>au_capt := capt, au_tx := t\<rparr>) \<and> length tx = au_npackets s * au_datalen s"
proof (cases "au_format s = 4")
  case True
  then have none: "au_tx s = None" and len: "length capt = au_npackets s * au_datalen s"
    using ok capt by (auto simp: au_tx_ok_def au_width_def)
  have same: "s\<lparr>au_capt := capt, au_tx := None\<rparr> = s\<lparr>au_capt := capt\<rparr>" using none by simp
  have "au_tx_ok (s\<lparr>au_capt := capt, au_tx := None\<rparr>)" using ok capt True by (simp add: au_tx_ok_def)
  then show ?thesis using none len by (intro exI [of _ None], intro exI [of _ capt]) (simp add: same)
next
  case False
  then obtain tx0 where tx0: "au_tx s = Some tx0" using ok by (auto simp: au_tx_ok_def)
  let ?w = "au_width (au_format s)"
  obtain vs where vs: "length vs = 128"
      "convertFloatToVban capt tx0 128 (au_format s) = Some (int_block ?w vs @ replicate (128 * (au_nbinputs s - 1) * ?w) 0)"
    using convert_period [OF ok False tx0 capt] by blast
  let ?tx = "int_block ?w vs @ replicate (128 * (au_nbinputs s - 1) * ?w) 0"
  have p: "packet_ok (au_packet s)" using ok by (simp add: au_tx_ok_def)
  have tok: "au_tx_ok (s\<lparr>au_capt := capt, au_tx := Some ?tx\<rparr>)" using au_tx_ok_tx [OF ok False vs(1) capt p] by simp
  then have "length ?tx = au_npackets s * au_datalen s" using False by (auto simp: au_tx_ok_def)
  then show ?thesis using tx0 vs(2) tok by (intro exI [of _ "Some ?tx"], intro exI [of _ ?tx]) simp
qed

lemma tx_half_ok:
  assumes ok: "au_tx_ok s" and ins: "au_nbinputs s \<le> length ins" "\<forall>c < au_nbinputs s. 4 * 128 \<le> length (ins ! c)"
  shows "\<exists>s' evs. au_tx_cycle ifaddr ins s = Some (s', evs) \<and> au_tx_ok s' \<and> au_rx_part s' = au_rx_part s"
proof -
  note k = ok [unfolded au_tx_ok_def]
  let ?capt = "captured ins (au_nbinputs s) 128"
  have cap: "au_capture ins s = Some ?capt" "length ?capt = 4 * (128 * au_nbinputs s)" using au_capture_ok [of s ins] ins k by auto
  obtain t tx where c: "(case au_tx s of None \<Rightarrow> Some (s\<lparr>au_capt := ?capt\<rparr>, ?capt)
       | Some tx \<Rightarrow> do { tx \<leftarrow> convertFloatToVban ?capt tx 128 (au_format s); Some (s\<lparr>au_capt := ?capt, au_tx := Some tx\<rparr>, tx) }) =
      Some (s\<lparr>au_capt := ?capt, au_tx := t\<rparr>, tx)" "au_tx_ok (s\<lparr>au_capt := ?capt, au_tx := t\<rparr>)" "length tx = au_npackets s * au_datalen s"
    using converted_ok [OF ok cap(2)] by blast
  let ?s = "s\<lparr>au_capt := ?capt, au_tx := t\<rparr>"
  have run: "au_tx_cycle ifaddr ins s =
      (if au_txip s \<noteq> 0 \<and> au_name_tx s \<noteq> [] then for_loop 0 (au_npackets s) (au_send_packet tx) (?s, []) else au_search ifaddr ?s)"
  proof -
    have "au_nframes s = 128" using k by blast
    then have "(case au_tx (s\<lparr>au_capt := ?capt\<rparr>) of None \<Rightarrow> Some (s\<lparr>au_capt := ?capt\<rparr>, ?capt)
       | Some tx \<Rightarrow> do { tx \<leftarrow> convertFloatToVban ?capt tx (au_nframes (s\<lparr>au_capt := ?capt\<rparr>)) (au_format (s\<lparr>au_capt := ?capt\<rparr>));
           Some (s\<lparr>au_capt := ?capt\<rparr>\<lparr>au_tx := Some tx\<rparr>, tx) }) = Some (?s, tx)"
      using c(1) by (cases "au_tx s") auto
    then show ?thesis unfolding au_tx_cycle_def cap(1) Option.bind.bind_lunit Let_def by simp
  qed
  show ?thesis
  proof (cases "au_txip s \<noteq> 0 \<and> au_name_tx s \<noteq> []")
    case True
    obtain q where q: "for_loop 0 (au_npackets s) (au_send_packet tx) (?s, []) = Some (?s\<lparr>au_packet := q\<rparr>, map (au_dgram ?s tx) [0..<au_npackets s])"
        "packet_ok q"
      using send_packets [of ?s "au_npackets s" tx] c(3) k by auto
    have "au_tx_ok (?s\<lparr>au_packet := q\<rparr>)" using c(2) q(2) by (simp add: au_tx_ok_def cong: if_cong)
    then show ?thesis using run True q(1) by (simp add: au_rx_part_def)
  next
    case False
    obtain a b g evs where a: "au_search ifaddr ?s = Some (?s\<lparr>au_srch := a, au_ips := b, au_target := g\<rparr>, evs)" using au_search_ok by blast
    have "au_tx_ok (?s\<lparr>au_srch := a, au_ips := b, au_target := g\<rparr>)" using c(2) by (simp add: au_tx_ok_def cong: if_cong)
    then show ?thesis using run False a by (simp add: au_rx_part_def)
  qed
qed

lemma kept_tx_ok: "au_tx_ok s \<Longrightarrow> au_kept s s' \<Longrightarrow> au_tx_ok s'"
  by (simp add: au_tx_ok_def au_kept_def cong: if_cong)


section \<open>Datagrams\<close>

definition au_ok :: "nat \<Rightarrow> alsa_util \<Rightarrow> bool" where
  "au_ok r s \<longleftrightarrow> au_rx_ok r s \<and> (au_nbinputs s = 0 \<or> au_tx_ok s) \<and> length (au_name_tx s) \<le> VBAN_STREAM_NAME_SIZE \<and>
     au_format s < 10 \<and> au_nbinputs s < 65536"

definition au_setup_of :: "alsa_util \<Rightarrow> nat \<times> nat \<times> nat" where
  "au_setup_of s = (au_nbinputs s, au_nboutputs s, au_offset s)"

lemma kept_ok: "au_ok r s \<Longrightarrow> au_kept s s' \<Longrightarrow> au_rx_ok r s' \<Longrightarrow> au_ok r s' \<and> au_setup_of s' = au_setup_of s"
  using kept_tx_ok [of s s'] by (auto simp: au_ok_def au_setup_of_def au_kept_def)

text \<open>A datagram that arrives whole, fits the memory it is read to and has the rate of the stream.\<close>

fun au_fine :: "nat \<Rightarrow> nat \<times> nat \<times> nat \<Rightarrow> au_event \<Rightarrow> bool" where
  "au_fine r (nbi, nbo, offset) (Packet ts bs ip port) \<longleftrightarrow>
     ts_ok ts \<and> VBAN_HEADER_SIZE \<le> length bs \<and> length bs \<le> VBAN_PROTOCOL_MAX_SIZE \<and> ip \<noteq> 0 \<and>
     (let p = packet_store zero_packet bs; sr = format_SR (header p) in
      (is_protocol VBAN_PROTOCOL_AUDIO sr \<longrightarrow> au_fits nbo offset p \<and> sr_at (unat (sr AND 0x1F)) = Some (int r)) \<and>
      (is_protocol VBAN_PROTOCOL_TXT sr \<longrightarrow> 0 \<in> set (pdata p)))"
| "au_fine r (nbi, nbo, offset) (Period ifaddr ins) \<longleftrightarrow> nbi \<le> length ins \<and> (\<forall>c < nbi. 4 * 128 \<le> length (ins ! c))"

lemma str_eq_total: "length b \<le> length a \<Longrightarrow> 0 \<in> set b \<Longrightarrow> \<exists>e. str_eq a b = Some e"
  by (induction a b rule: str_eq.induct) auto

lemma au_named_ok: "packet_ok p \<Longrightarrow> length (au_name_rx s) < VBAN_STREAM_NAME_SIZE \<Longrightarrow> \<exists>b. au_named p s = Some b"
  unfolding au_named_def by (rule str_eq_total) (simp_all add: packet_ok_def header_ok_def)

lemma au_audio_packet_ok:
  assumes ok: "au_rx_ok r s" and p: "packet_ok p" and ip: "ip \<noteq> 0" and ts: "ts_ok ts"
    and fit: "au_fits (au_nboutputs s) (au_offset s) p" and sr: "sr_at (unat (format_SR (header p) AND 0x1F)) = Some (int r)"
    and r: "8000 \<le> r" "r \<le> 200000" and al: "\<And>k. length (ae_float env k) = k"
  shows "\<exists>s'. au_audio_packet env ts p (Some ip) s = Some (Inr s') \<and> au_rx_ok r (s'\<lparr>au_ts_old := ts\<rparr>) \<and> au_kept s s'"
proof -
  note k = ok [unfolded au_rx_ok_def]
  obtain b where b: "au_named p s = Some b" using au_named_ok [OF p] k by blast
  obtain rb where rb: "au_ring s = Some rb" using k by blast
  have ts': "au_rx_ok r (u\<lparr>au_ts_old := ts\<rparr>)" if "au_rx_ok r u" for u using that ts by (simp add: au_rx_ok_def au_bufs_ok_def)
  have r6: "6000 \<le> r" using r(1) by simp
  consider "au_rxip s = ip" "b" "au_nu s \<noteq> nuFrame (header p)" | "au_rxip s = ip" "\<not> (b \<and> au_nu s \<noteq> nuFrame (header p))"
    | "au_rxip s \<noteq> ip" "au_rxip s = 0" "b" | "au_rxip s \<noteq> ip" "\<not> (au_rxip s = 0 \<and> b)" by blast
  then show ?thesis
  proof cases
    case 1
    then have "au_resampler s \<noteq> None" using k ip by blast
    then obtain s' where "au_audio ts p s = Some s'" "au_rx_ok r (s'\<lparr>au_ts_old := ts\<rparr>)" "au_kept s s'"
      using au_audio_ok [OF ok _ rb fit ts sr r6 r(2)] by blast
    then show ?thesis using 1 b by (simp add: au_audio_packet_def)
  next
    case 2
    then show ?thesis using b ip ts' [OF ok] by (auto simp: au_audio_packet_def)
  next
    case 3
    obtain s' where "au_new_stream env (header p) ip s = Some (Inr s')" "au_rx_ok r s'" "au_kept s s'"
      using au_new_stream_ok [OF ok sr r al ip] by blast
    then show ?thesis using 3 b k ts' by (simp add: au_audio_packet_def)
  next
    case 4
    then show ?thesis using b ts' [OF ok] by (auto simp: au_audio_packet_def)
  qed
qed

lemma info_ok:
  assumes "au_ok r s"
  shows "\<exists>info. au_info s = Some info \<and> packet_ok info \<and> VBAN_HEADER_SIZE + length (au_info_text s) \<le> VBAN_DATA_MAX_SIZE"
proof -
  note k = assms [unfolded au_ok_def au_rx_ok_def]
  have d: "length (dec_nat (au_samplerate s)) \<le> 5" "length (dec_nat (au_format s)) \<le> 1" "length (dec_nat (au_nbinputs s)) \<le> 5"
      "length (dec_nat (au_nboutputs s)) \<le> 5"
    using k by (intro length_dec_nat; simp)+
  have len: "length (au_info_text s) \<le> 200" using d k unfolding au_info_text_def by (simp add: bytes_of_def vban_sizes)
  have pd: "length (pdata zero_packet) = VBAN_DATA_MAX_SIZE" using zero_packet_ok by (simp add: packet_ok_def)
  have "put_string (pdata zero_packet) 0 (au_info_text s) = Some (blit (pdata zero_packet) 0 (au_info_text s @ [0]))"
    unfolding put_string_def using len pd by (intro mem_store_Some) (simp add: vban_sizes)
  moreover have "length (blit (pdata zero_packet) 0 (au_info_text s @ [0])) = VBAN_DATA_MAX_SIZE"
    using len pd by (simp add: length_blit vban_sizes)
  ultimately show ?thesis using request_ok len by (simp add: au_info_def packet_ok_def vban_sizes)
qed

lemma au_text_packet_ok:
  assumes ok: "au_ok r s" and p: "packet_ok p" and zero: "0 \<in> set (pdata p)"
  shows "\<exists>g i f evs. au_text_packet p (Some ip) (Some port) s = Some (s\<lparr>au_target := g, au_txip := i, au_flags := f\<rparr>, evs)"
proof -
  have sizes: "length (streamname (header p)) = VBAN_STREAM_NAME_SIZE" "length (pdata p) = VBAN_DATA_MAX_SIZE"
    using p by (simp_all add: packet_ok_def header_ok_def)
  obtain tagged where tagged: "strn_eq 4 (streamname (header p)) (bytes_of ''INFO'' @ [0]) = Some tagged"
    using strn_eq_short [of 4 "bytes_of ''INFO'' @ [0]" "streamname (header p)"] sizes by (auto simp: vban_sizes bytes_of_def)
  obtain asks where asks: "strn_eq 5 (pdata p) (bytes_of ''/info'' @ [0]) = Some asks"
    using strn_eq_short [of 5 "bytes_of ''/info'' @ [0]" "pdata p"] sizes by (auto simp: vban_sizes bytes_of_def)
  obtain info where info: "au_info s = Some info" "packet_ok info" "VBAN_HEADER_SIZE + length (au_info_text s) \<le> VBAN_DATA_MAX_SIZE"
    using info_ok [OF ok] by blast
  obtain ev where ev: "au_send info (VBAN_HEADER_SIZE + length (au_info_text s)) (au_set_target ip port s) = Some ev"
    using send_defined [OF info(2,3)] by blast
  have body: "c_string (pdata p) = Some (cstr (pdata p))" using zero by (simp add: c_string_def)
  have same: "s = s\<lparr>au_target := au_target s, au_txip := au_txip s, au_flags := au_flags s\<rparr>" by simp
  have reset: "au_set_target i j (au_set_target ip port s) = s\<lparr>au_target := (i, j), au_txip := au_txip s, au_flags := au_flags s\<rparr>" for i j
    by (simp add: au_set_target_def)
  define found where "found = (if au_server s \<noteq> [] then au_server s = getVal (cstr (pdata p)) (bytes_of ''servername'')
           else au_name_tx s = getVal (cstr (pdata p)) (bytes_of ''streamnamerx''))"
  consider "\<not> tagged" | "tagged" "asks \<and> \<not> ipIsLocal ip (au_ips s)"
    | "tagged" "\<not> (asks \<and> \<not> ipIsLocal ip (au_ips s))" "au_txip s = 0 \<and> au_name_tx s \<noteq> []" "found \<and> ip AND 0xFF \<noteq> 127"
    | "tagged" "\<not> (asks \<and> \<not> ipIsLocal ip (au_ips s))" "\<not> (au_txip s = 0 \<and> au_name_tx s \<noteq> [] \<and> found \<and> ip AND 0xFF \<noteq> 127)"
    by blast
  then show ?thesis
  proof cases
    case 1
    then have "au_text_packet p (Some ip) (Some port) s = Some (s, [])" using tagged by (simp add: au_text_packet_def)
    then show ?thesis using same by metis
  next
    case 2
    then have "au_text_packet p (Some ip) (Some port) s =
        Some (au_set_target (au_txip (au_set_target ip port s)) (au_txport s) (au_set_target ip port s), ev)"
      using tagged asks info(1) ev by (simp add: au_text_packet_def Let_def au_set_target_def)
    then show ?thesis unfolding reset by blast
  next
    case 3
    then have "au_text_packet p (Some ip) (Some port) s =
        Some (au_set_target ip (au_txport s) (s\<lparr>au_txip := ip, au_flags := au_flags s OR ucast SENDING\<rparr>), [])"
      using tagged asks body by (simp add: au_text_packet_def Let_def found_def)
    moreover have "au_set_target ip (au_txport s) (s\<lparr>au_txip := ip, au_flags := au_flags s OR ucast SENDING\<rparr>) =
        s\<lparr>au_target := (ip, au_txport s), au_txip := ip, au_flags := au_flags s OR ucast SENDING\<rparr>"
      by (simp add: au_set_target_def)
    ultimately show ?thesis by metis
  next
    case 4
    then have "au_text_packet p (Some ip) (Some port) s = Some (s, [])"
      using tagged asks body by (auto simp: au_text_packet_def Let_def found_def)
    then show ?thesis using same by metis
  qed
qed

lemma au_datagram_ok:
  assumes ok: "au_ok r s" and fine: "au_fine r (au_setup_of s) (Packet ts bs ip port)"
    and r: "8000 \<le> r" "r \<le> 200000" and al: "\<And>k. length (ae_float env k) = k"
  shows "\<exists>s' evs. au_datagram env ts bs ip port s = Some (Inr s', evs) \<and> au_ok r s' \<and> au_setup_of s' = au_setup_of s"
proof -
  let ?p = "packet_store zero_packet bs"
  let ?sr = "format_SR (header ?p)"
  note f = fine [unfolded au_setup_of_def au_fine.simps Let_def]
  have p: "packet_ok ?p" using f by (intro packet_store_ok zero_packet_ok) simp
  have bs: "bs \<noteq> []" "VBAN_HEADER_SIZE \<le> length bs" using f by (auto simp: vban_sizes)
  have rx: "au_rx_ok r s" using ok by (simp add: au_ok_def)
  have stamp: "au_ok r (u\<lparr>au_ts_old := ts\<rparr>) \<and> au_setup_of (u\<lparr>au_ts_old := ts\<rparr>) = au_setup_of s"
    if "au_kept s u" "au_rx_ok r (u\<lparr>au_ts_old := ts\<rparr>)" for u
    by (rule kept_ok [OF ok _ that(2)]) (use that(1) in \<open>simp add: au_kept_def\<close>)
  have same: "au_rx_ok r (s\<lparr>au_target := g, au_txip := i, au_flags := f, au_ts_old := ts\<rparr>)" for g i f
    using rx fine by (simp add: au_rx_ok_def au_bufs_ok_def au_setup_of_def)
  have idle: "au_rx_ok r (s\<lparr>au_ts_old := ts\<rparr>)" using rx fine by (simp add: au_rx_ok_def au_bufs_ok_def au_setup_of_def)
  have split: "\<not> (is_protocol VBAN_PROTOCOL_AUDIO ?sr \<and> is_protocol VBAN_PROTOCOL_TXT ?sr)" using is_protocol_unique [of ?sr] by blast
  consider "vban (header ?p) = VBAN_HEADER_FOURC" "is_protocol VBAN_PROTOCOL_AUDIO ?sr"
    | "vban (header ?p) = VBAN_HEADER_FOURC" "\<not> is_protocol VBAN_PROTOCOL_AUDIO ?sr" "is_protocol VBAN_PROTOCOL_TXT ?sr"
    | "\<not> (vban (header ?p) = VBAN_HEADER_FOURC \<and> (is_protocol VBAN_PROTOCOL_AUDIO ?sr \<or> is_protocol VBAN_PROTOCOL_TXT ?sr))" by blast
  then show ?thesis
  proof cases
    case 1
    have fit: "au_fits (au_nboutputs s) (au_offset s) ?p" "sr_at (unat (?sr AND 0x1F)) = Some (int r)" "ip \<noteq> 0" "ts_ok ts"
      using f 1(2) by blast+
    obtain s' where s': "au_audio_packet env ts ?p (Some ip) s = Some (Inr s')" "au_rx_ok r (s'\<lparr>au_ts_old := ts\<rparr>)" "au_kept s s'"
      using au_audio_packet_ok [OF rx p fit(3,4,1,2) r al] by blast
    have "au_datagram env ts bs ip port s = Some (Inr (s'\<lparr>au_ts_old := ts\<rparr>), [])"
      using s'(1) 1 bs by (simp add: au_datagram_def Let_def)
    then show ?thesis using stamp [OF s'(3,2)] by blast
  next
    case 2
    have "0 \<in> set (pdata ?p)" using f 2(3) by blast
    then obtain g i fl evs where t: "au_text_packet ?p (Some ip) (Some port) s = Some (s\<lparr>au_target := g, au_txip := i, au_flags := fl\<rparr>, evs)"
      using au_text_packet_ok [OF ok p] by blast
    have "au_datagram env ts bs ip port s = Some (Inr (s\<lparr>au_target := g, au_txip := i, au_flags := fl\<rparr>\<lparr>au_ts_old := ts\<rparr>), evs)"
      using t 2 bs by (simp add: au_datagram_def Let_def)
    then show ?thesis using stamp [of "s\<lparr>au_target := g, au_txip := i, au_flags := fl\<rparr>"] same by (simp add: au_kept_def)
  next
    case 3
    then have "au_datagram env ts bs ip port s = Some (Inr (s\<lparr>au_ts_old := ts\<rparr>), [])"
      using bs by (auto simp: au_datagram_def Let_def)
    then show ?thesis using stamp [of s] idle by simp
  qed
qed


section \<open>Periods\<close>

lemma rx_part_same:
  assumes "au_rx_part s' = au_rx_part s"
  shows "au_ring s' = au_ring s" "au_frame s' = au_frame s" "au_reset s' = au_reset s" "au_reset_max s' = au_reset_max s"
    "au_rxip s' = au_rxip s" "au_flags s' = au_flags s" "au_setup_of s' = au_setup_of s" "au_name_tx s' = au_name_tx s"
    "au_format s' = au_format s" "au_nbinputs s' = au_nbinputs s" "au_nboutputs s' = au_nboutputs s"
proof -
  have "f (au_rx_part s') = f (au_rx_part s)" for f :: "alsa_util \<Rightarrow> 'a" using assms by simp
  note this [of au_ring] this [of au_frame] this [of au_reset] this [of au_reset_max] this [of au_rxip] this [of au_flags] this [of au_setup_of]
    this [of au_name_tx] this [of au_format] this [of au_nbinputs] this [of au_nboutputs]
  then show "au_ring s' = au_ring s" "au_frame s' = au_frame s" "au_reset s' = au_reset s" "au_reset_max s' = au_reset_max s"
    "au_rxip s' = au_rxip s" "au_flags s' = au_flags s" "au_setup_of s' = au_setup_of s" "au_name_tx s' = au_name_tx s"
    "au_format s' = au_format s" "au_nbinputs s' = au_nbinputs s" "au_nboutputs s' = au_nboutputs s"
    by (simp_all add: au_rx_part_def au_setup_of_def)
qed

text \<open>What a period plays, and what it leaves.\<close>

definition au_played :: "alsa_util \<Rightarrow> alsa_util \<Rightarrow> byte list \<Rightarrow> bool" where
  "au_played s s' q \<longleftrightarrow> (\<forall>g < 128. \<forall>c < au_nboutputs s.
     take 4 (drop (4 * g) (au_out s' ! c)) = take 4 (drop (4 * c) (au_frame_at (au_nboutputs s) q (au_frame s) g)))"

definition au_left :: "alsa_util \<Rightarrow> alsa_util \<Rightarrow> byte list \<Rightarrow> bool" where
  "au_left s s' q \<longleftrightarrow> au_flags s' = au_flags s \<and> au_reset_max s' = au_reset_max s \<and> (\<exists>rb'. au_ring s' = Some rb' \<and>
     (if au_ends s then au_rxip s' = 0 \<and> au_reset s' = 0 \<and> au_resampler s' = None \<and> rb_abs rb' = []
      else au_rxip s' = au_rxip s \<and>
        rb_abs rb' = drop (min 128 (length q div (4 * au_nboutputs s)) * (4 * au_nboutputs s)) q \<and>
        au_reset s' = (if au_receiving s \<and> au_reset s < au_reset_max s then au_reset s + 1 else au_reset s)))"

lemma au_period_ok:
  assumes ok: "au_ok r s" and fine: "au_fine r (au_setup_of s) (Period ifaddr ins)" and rb: "au_ring s = Some rb"
  shows "\<exists>s' evs. au_cycle_step ifaddr ins s = Some (s', evs) \<and> au_ok r s' \<and> au_setup_of s' = au_setup_of s \<and>
    au_played s s' (rb_abs rb) \<and> au_left s s' (rb_abs rb)"
proof -
  have rx: "au_rx_ok r s" using ok by (simp add: au_ok_def)
  have nb: "0 < au_nboutputs s" using rx by (simp add: au_rx_ok_def)
  have "\<exists>s1 evs. (if 0 < au_nbinputs s then au_tx_cycle ifaddr ins s else Some (s, [])) = Some (s1, evs) \<and>
      (au_nbinputs s = 0 \<or> au_tx_ok s1) \<and> au_rx_part s1 = au_rx_part s"
  proof (cases "au_nbinputs s = 0")
    case False
    then have "au_tx_ok s" using ok by (simp add: au_ok_def)
    then show ?thesis using tx_half_ok [of s ins ifaddr] fine False by (simp add: au_setup_of_def)
  qed simp
  then obtain s1 evs where s1: "(if 0 < au_nbinputs s then au_tx_cycle ifaddr ins s else Some (s, [])) = Some (s1, evs)"
      "au_nbinputs s = 0 \<or> au_tx_ok s1" "au_rx_part s1 = au_rx_part s" by blast
  note same = rx_part_same [OF s1(3)]
  have rx1: "au_rx_ok r s1" by (rule rx_part_ok [OF s1(3) rx])
  have ok1: "au_ok r s1" using ok s1(2) rx1 same by (simp add: au_ok_def)
  have rb1: "au_ring s1 = Some rb" using same rb by simp
  have e: "au_ends s1 = au_ends s" "au_receiving s1 = au_receiving s" using same by (simp_all add: au_ends_def au_receiving_def)
  obtain s' rb' where s': "au_rx_cycle s1 = Some s'" "au_rx_ok r s'" "au_kept s1 s'" "au_flags s' = au_flags s1" "au_ring s' = Some rb'"
      "\<forall>g < 128. \<forall>c < au_nboutputs s1. take 4 (drop (4 * g) (au_out s' ! c)) =
        take 4 (drop (4 * c) (au_frame_at (au_nboutputs s1) (rb_abs rb) (au_frame s1) g))"
      "if au_ends s1 then au_rxip s' = 0 \<and> au_reset s' = 0 \<and> au_resampler s' = None \<and> rb_abs rb' = []
       else au_rxip s' = au_rxip s1 \<and> rb_abs rb' = drop (min 128 (length (rb_abs rb) div (4 * au_nboutputs s1)) * (4 * au_nboutputs s1)) (rb_abs rb) \<and>
         au_reset s' = (if au_receiving s1 \<and> au_reset s1 < au_reset_max s1 then au_reset s1 + 1 else au_reset s1)"
    using au_rx_cycle_ok [OF rx1 rb1 refl] by blast
  have run: "au_cycle_step ifaddr ins s = Some (s', evs)"
    unfolding au_cycle_step_def s1(1) using s'(1) nb same by simp
  have "au_played s s' (rb_abs rb)" using s'(6) unfolding au_played_def same .
  moreover have "au_left s s' (rb_abs rb)"
    using s'(4,5,7) s'(3) unfolding au_left_def au_kept_def same e by (intro conjI exI [of _ rb']) simp_all
  moreover have "au_ok r s' \<and> au_setup_of s' = au_setup_of s1" by (rule kept_ok [OF ok1 s'(3,2)])
  ultimately show ?thesis using run same(7) by auto
qed

lemma au_step_ok:
  assumes ok: "au_ok r s" and fine: "au_fine r (au_setup_of s) e"
    and r: "8000 \<le> r" "r \<le> 200000" and al: "\<And>k. length (ae_float env k) = k"
  shows "\<exists>s' evs. au_step env e s = Some (Inr s', evs) \<and> au_ok r s' \<and> au_setup_of s' = au_setup_of s"
proof (cases e)
  case (Packet ts bs ip port)
  have "au_fine r (au_setup_of s) (Packet ts bs ip port)" using fine Packet by simp
  then show ?thesis using au_datagram_ok [OF ok _ r al] Packet by simp
next
  case (Period ifaddr ins)
  obtain rb where "au_ring s = Some rb" using ok by (auto simp: au_ok_def au_rx_ok_def)
  then show ?thesis using au_period_ok [OF ok, of ifaddr ins rb] fine Period by auto
qed

lemma au_run_ok:
  assumes r: "8000 \<le> r" "r \<le> 200000" and al: "\<And>k. length (ae_float env k) = k"
  shows "au_ok r s \<Longrightarrow> \<forall>e \<in> set es. au_fine r (au_setup_of s) e \<Longrightarrow>
    \<exists>s' evs. au_run env es s = Some (Inr s', evs) \<and> au_ok r s' \<and> au_setup_of s' = au_setup_of s"
proof (induction es arbitrary: s)
  case (Cons e es)
  have "au_fine r (au_setup_of s) e" using Cons.prems(2) by simp
  then obtain s1 evs where s1: "au_step env e s = Some (Inr s1, evs)" "au_ok r s1" "au_setup_of s1 = au_setup_of s"
    using au_step_ok [OF Cons.prems(1) _ r al] by blast
  obtain s2 evs' where "au_run env es s1 = Some (Inr s2, evs')" "au_ok r s2" "au_setup_of s2 = au_setup_of s1"
    using Cons.IH [OF s1(2)] Cons.prems(2) s1(3) by auto
  then show ?case using s1 by simp
qed simp


section \<open>The start\<close>

lemma timers:
  "au_timer (fdiv f32 (of_int_fl f32 48000) (of_int_fl f32 128)) = Some 374"
  "au_timer (fdiv f32 (of_int_fl f32 48000) (fmul f32 (FNum False 10) (of_int_fl f32 128))) = Some 37"
proof -
  have ints: "of_int_fl f32 48000 = FNum False 48000" "of_int_fl f32 128 = FNum False 128"
    by (subst of_int_fl_exact; simp add: f32_def)+
  have mag: "exact_mag f32 (of_nat n)" if "n < 2 ^ 24" for n
    unfolding exact_mag_def by (intro exI [of _ n], intro exI [of _ 0]) (use that in \<open>simp add: f32_def\<close>)
  have half: "exact_mag f32 (75 / 2)"
    unfolding exact_mag_def by (rule exI [of _ 75], rule exI [of _ "- 1"]) (simp add: f32_def)
  have p: "0 < prec f32" by (simp add: f32_def)
  have r: "rnd f32 False 375 = FNum False 375" "rnd f32 False 1280 = FNum False 1280" "rnd f32 False (75 / 2) = FNum False (75 / 2)"
      "rnd f32 False 374 = FNum False 374" "rnd f32 False 37 = FNum False 37"
    using rnd_exact [OF mag [of 375] p] rnd_exact [OF mag [of 1280] p] rnd_exact [OF half p] rnd_exact [OF mag [of 374] p] rnd_exact [OF mag [of 37] p]
    by simp_all
  have "\<lfloor>751 / 2 :: rat\<rfloor> = 375" by (rule floor_unique) simp_all
  then have "fround (FNum False 375) = FNum False 375" "fround (FNum False (75 / 2)) = FNum False 38" by simp_all
  then show "au_timer (fdiv f32 (of_int_fl f32 48000) (of_int_fl f32 128)) = Some 374"
      "au_timer (fdiv f32 (of_int_fl f32 48000) (fmul f32 (FNum False 10) (of_int_fl f32 128))) = Some 37"
    unfolding ints by (simp_all add: r au_timer_def fsub_def Let_def)
qed

text \<open>The state before the device is opened, for at most 127 inputs and no address in \<open>iprx\<close>.\<close>

definition au_fresh :: "alsa_util \<Rightarrow> bool" where
  "au_fresh s \<longleftrightarrow> au_nframes s = 128 \<and> au_samplerate s = 48000 \<and> au_nbinputs s < 128 \<and> 0 < au_nboutputs s \<and> au_nboutputs s < 65536 \<and>
     au_format s \<in> {1, 2, 4} \<and> 0 \<le> au_fd s \<and> packet_ok (au_packet s) \<and> au_in_len s = 0 \<and> au_ts_old s = (0, 0) \<and>
     au_median s = mf_new 11 \<and> au_rbfill s = 0 \<and> au_control s = \<lparr>au_rratio = d_one, au_integral = d_zero, au_error = d_zero\<rparr> \<and>
     au_resampler s = None \<and> au_rxip s = 0 \<and> length (au_name_rx s) < VBAN_STREAM_NAME_SIZE \<and> length (au_name_tx s) \<le> VBAN_STREAM_NAME_SIZE"

lemma au_ring_created:
  assumes nb: "0 < nb" "nb < 65536" and al: "\<And>k. \<exists>b. malloc k = Some b \<and> length b = k"
  shows "\<exists>rb. (do { rb \<leftarrow> ringbuffer_create True (malloc (umul (umul 8 (nb * 128)) 4)) (umul (umul 8 (nb * 128)) 4);
     (rb, _) \<leftarrow> ringbuffer_write rb (replicate (umul (umul 4 (nb * 128)) 4) 0) (umul (umul 4 (nb * 128)) 4);
     Some rb }) = Some rb \<and> au_ring_ok nb rb \<and> rb_abs rb = replicate (2048 * nb) 0"
proof -
  have sizes: "umul (umul 8 (nb * 128)) 4 = 4096 * nb" "umul (umul 4 (nb * 128)) 4 = 2048 * nb"
    using nb by (simp_all add: umul_small)
  obtain b where b: "malloc (4096 * nb) = Some b" "length b = 4096 * nb" using al by blast
  let ?rb = "\<lparr>rb_buf = b, write_ptr = 0, read_ptr = 0, rb_size = 4096 * nb, mlocked = 0\<rparr>"
  have ok: "rb_ok ?rb" "rb_abs ?rb = []" using b nb by (simp_all add: rb_ok_def rb_abs_def rb_fill_def)
  have "length (replicate (2048 * nb) (0 :: byte)) \<le> rb_cap ?rb - length (rb_abs ?rb)" using ok(2) nb by (simp add: rb_cap_def)
  then obtain rb where rb: "ringbuffer_write ?rb (replicate (2048 * nb) 0) (2048 * nb) = Some (rb, 2048 * nb)" "rb_ok rb" "rb_cap rb = rb_cap ?rb"
      "rb_abs rb = replicate (2048 * nb) 0"
    using ring.push_whole [OF ok(1), of "replicate (2048 * nb) 0"] ok(2) by auto
  have "rb_size rb = rb_size ?rb" using rb(2,3) ok(1) by (simp add: rb_cap_def rb_ok_def, linarith)
  then show ?thesis unfolding sizes using b rb by (simp add: ringbuffer_create_def au_ring_ok_def)
qed

lemma fresh_facts:
  "au_fill_ok (mf_new 11) 0" "ctl_ok \<lparr>au_rratio = d_one, au_integral = d_zero, au_error = d_zero\<rparr>" "ts_ok (0, 0)"
proof -
  show "au_fill_ok (mf_new 11) 0" using mf_new_ok [of 11] by (simp add: au_fill_ok_def)
  show "ctl_ok \<lparr>au_rratio = d_one, au_integral = d_zero, au_error = d_zero\<rparr>" by (simp add: ctl_ok_def d_one_def d_zero_def)
  show "ts_ok (0, 0)" by (simp add: ts_ok_def)
qed

lemma au_open_ok:
  assumes f: "au_fresh s" and dev: "ci < 65536" "0 < co" "co < 65536" and al: "\<And>k. \<exists>b. malloc k = Some b \<and> length b = k"
  shows "\<exists>s'. au_open True malloc (ci, co) s = Some (Inr s') \<and> au_ok r s' \<and> au_reset_max s' = 37 \<and>
    au_setup_of s' = (min (au_nbinputs s) ci, min (au_nboutputs s) co, au_offset s) \<and>
    (\<exists>rb. au_ring s' = Some rb \<and> rb_abs rb = replicate (2048 * au_nboutputs s') 0)"
proof -
  note k = f [unfolded au_fresh_def]
  let ?ni = "min (au_nbinputs s) ci" and ?no = "min (au_nboutputs s) co"
  have u16: "to_u16 (int ci) = ci" "to_u16 (int co) = co" using dev by (simp_all add: to_u16_nat)
  have no: "0 < ?no" "?no < 65536" using k dev by auto
  let ?s = "s\<lparr>au_nbinputs := ?ni, au_nboutputs := ?no, au_out := replicate ?no (replicate (4 * 128) 0), au_frame := replicate (4 * ?no) 0,
    au_srch_max := 374, au_reset_max := 37\<rparr>"
  obtain rb where rb: "(do { rb \<leftarrow> ringbuffer_create True (malloc (umul (umul 8 (?no * 128)) 4)) (umul (umul 8 (?no * 128)) 4);
     (rb, _) \<leftarrow> ringbuffer_write rb (replicate (umul (umul 4 (?no * 128)) 4) 0) (umul (umul 4 (?no * 128)) 4);
     Some rb }) = Some rb" "au_ring_ok ?no rb" "rb_abs rb = replicate (2048 * ?no) 0"
    using au_ring_created [OF no al] by blast
  have ringed: "au_rx_setup True malloc t = Some (t\<lparr>au_ring := Some rb, au_flags := au_flags t OR ucast RECEIVER\<rparr>)"
    if "au_nboutputs t = ?no" "au_nframes t = 128" for t
    using rb(1) unfolding au_rx_setup_def that Let_def by (auto simp: bind_eq_Some_conv)
  have play: "au_play_ok ?no (replicate (4 * ?no) 0) (replicate ?no (replicate (4 * 128) 0))" by (simp add: au_play_ok_def)
  have "\<exists>t. (if 0 < ?ni then au_tx_setup ?s else Some (Inr ?s)) = Some (Inr t) \<and> (?ni = 0 \<or> au_tx_ok t) \<and>
      (\<exists>c x d f n p fl. t = ?s\<lparr>au_capt := c, au_tx := x, au_datalen := d, au_pacframes := f, au_npackets := n, au_packet := p, au_flags := fl\<rparr>)"
  proof (cases "?ni = 0")
    case True
    have "?s = ?s\<lparr>au_capt := au_capt ?s, au_tx := au_tx ?s, au_datalen := au_datalen ?s, au_pacframes := au_pacframes ?s,
        au_npackets := au_npackets ?s, au_packet := au_packet ?s, au_flags := au_flags ?s\<rparr>" by simp
    then show ?thesis using True by (intro exI [of _ ?s] conjI) (simp, simp, blast)
  next
    case False
    have pre: "au_nframes ?s = 128" "au_samplerate ?s = 48000" "0 < au_nbinputs ?s" "au_nbinputs ?s < 128" "au_format ?s \<in> {1, 2, 4}" "0 \<le> au_fd ?s"
        "packet_ok (au_packet ?s)" "length (au_name_tx ?s) \<le> VBAN_STREAM_NAME_SIZE"
      using k False by (simp_all add: min_less_iff_disj)
    obtain t where "au_tx_setup ?s = Some (Inr t)" "au_tx_ok t"
        "\<exists>c x d f n p. t = ?s\<lparr>au_capt := c, au_tx := x, au_datalen := d, au_pacframes := f, au_npackets := n, au_packet := p,
          au_flags := au_flags ?s OR ucast TRANSMITTER\<rparr>"
      using au_tx_setup_ok [OF pre] by blast
    then show ?thesis using False by (intro exI [of _ t]) (simp, blast)
  qed
  then obtain t where t: "(if 0 < ?ni then au_tx_setup ?s else Some (Inr ?s)) = Some (Inr t)" "?ni = 0 \<or> au_tx_ok t"
      "\<exists>c x d f n p fl. t = ?s\<lparr>au_capt := c, au_tx := x, au_datalen := d, au_pacframes := f, au_npackets := n, au_packet := p, au_flags := fl\<rparr>"
    by blast
  obtain c x d f n p fl where teq: "t = ?s\<lparr>au_capt := c, au_tx := x, au_datalen := d, au_pacframes := f, au_npackets := n, au_packet := p, au_flags := fl\<rparr>"
    using t(3) by (elim exE)
  have same: "au_nframes t = 128" "au_samplerate t = 48000" "au_nbinputs t = ?ni" "au_nboutputs t = ?no" "au_offset t = au_offset s"
      "au_format t = au_format s" "au_name_rx t = au_name_rx s" "au_name_tx t = au_name_tx s" "au_in_len t = 0" "au_ts_old t = (0, 0)"
      "au_median t = mf_new 11" "au_rbfill t = 0" "au_control t = \<lparr>au_rratio = d_one, au_integral = d_zero, au_error = d_zero\<rparr>"
      "au_resampler t = None" "au_rxip t = 0" "au_reset_max t = 37" "au_frame t = replicate (4 * ?no) 0"
      "au_out t = replicate ?no (replicate (4 * 128) 0)"
    unfolding teq using k by simp_all
  let ?t = "t\<lparr>au_ring := Some rb, au_flags := au_flags t OR ucast RECEIVER\<rparr>"
  have run: "au_open True malloc (ci, co) s = Some (Inr ?t)"
  proof -
    have step: "(case (Inr t :: unit + alsa_util) of Inl e \<Rightarrow> Some (Inl ())
       | Inr s \<Rightarrow> do { s \<leftarrow> (if 0 < au_nboutputs s then au_rx_setup True malloc s else Some s); Some (Inr s) }) = Some (Inr ?t)"
      using ringed [OF same(4,1)] same(4) no by simp
    have sr: "int (au_samplerate s) = 48000" "int (au_nframes s) = 128" "au_nframes s = 128" using k by simp_all
    have "au_open True malloc (ci, co) s = Option.bind (if 0 < ?ni then au_tx_setup ?s else Some (Inr ?s)) (\<lambda>r. case r of Inl e \<Rightarrow> Some (Inl ())
       | Inr s \<Rightarrow> do { s \<leftarrow> (if 0 < au_nboutputs s then au_rx_setup True malloc s else Some s); Some (Inr s) })"
      by (simp add: au_open_def Let_def u16 sr timers)
    then show ?thesis unfolding t(1) Option.bind.bind_lunit step .
  qed
  have "au_rx_ok r ?t" using same no rb(2) k fresh_facts play by (simp add: au_rx_ok_def au_bufs_ok_def au_res_ok_def)
  moreover have "?ni = 0 \<or> au_tx_ok ?t" using t(2) by (simp add: au_tx_ok_def cong: if_cong)
  ultimately have "au_ok r ?t" using same k by (auto simp: au_ok_def)
  then show ?thesis using run same rb(3) by (intro exI [of _ ?t]) (simp add: au_setup_of_def)
qed


section \<open>Silence\<close>

definition period_only :: "nat \<Rightarrow> nat \<times> nat \<times> nat \<Rightarrow> au_event \<Rightarrow> bool" where
  "period_only r u e \<longleftrightarrow> au_fine r u e \<and> (case e of Packet _ _ _ _ \<Rightarrow> False | Period _ _ \<Rightarrow> True)"

lemma silent_step:
  assumes ok: "au_ok r s" and fine: "period_only r (au_setup_of s) e"
  shows "\<exists>s' evs rb. au_step env e s = Some (Inr s', evs) \<and> au_ok r s' \<and> au_setup_of s' = au_setup_of s \<and> au_left s s' (rb_abs rb)"
proof -
  obtain ifaddr ins where e: "e = Period ifaddr ins" "au_fine r (au_setup_of s) (Period ifaddr ins)"
    using fine by (cases e) (auto simp: period_only_def)
  obtain rb where rb: "au_ring s = Some rb" using ok by (auto simp: au_ok_def au_rx_ok_def)
  show ?thesis using au_period_ok [OF ok e(2) rb] e(1) by auto
qed

lemma silent_run:
  "au_ok r s \<Longrightarrow> au_receiving s \<Longrightarrow> \<forall>e \<in> set es. period_only r (au_setup_of s) e \<Longrightarrow> au_reset s + length es \<le> au_reset_max s \<Longrightarrow>
   \<exists>s' evs. au_run env es s = Some (Inr s', evs) \<and> au_ok r s' \<and> au_setup_of s' = au_setup_of s \<and> au_receiving s' \<and>
     au_rxip s' = au_rxip s \<and> au_reset_max s' = au_reset_max s \<and> au_reset s' = au_reset s + length es"
proof (induction es arbitrary: s)
  case (Cons e es)
  have "period_only r (au_setup_of s) e" using Cons.prems(3) by simp
  then obtain s1 evs rb where s1: "au_step env e s = Some (Inr s1, evs)" "au_ok r s1" "au_setup_of s1 = au_setup_of s" "au_left s s1 (rb_abs rb)"
    using silent_step [OF Cons.prems(1)] by blast
  have "\<not> au_ends s" "au_reset s < au_reset_max s" using Cons.prems(4) by (simp_all add: au_ends_def)
  then have l: "au_rxip s1 = au_rxip s" "au_reset s1 = au_reset s + 1" "au_flags s1 = au_flags s" "au_reset_max s1 = au_reset_max s"
    using s1(4) Cons.prems(2) by (auto simp: au_left_def)
  have "au_receiving s1" using Cons.prems(2) l by (simp add: au_receiving_def)
  then obtain s2 evs' where "au_run env es s1 = Some (Inr s2, evs')" "au_ok r s2" "au_setup_of s2 = au_setup_of s1" "au_receiving s2"
      "au_rxip s2 = au_rxip s1" "au_reset_max s2 = au_reset_max s1" "au_reset s2 = au_reset s1 + length es"
    using Cons.IH [OF s1(2)] Cons.prems(3,4) s1(3) l by auto
  then show ?case using s1 l by simp
qed simp

lemma au_run_append:
  "au_run env es s = Some (Inr s1, evs) \<Longrightarrow> au_run env (es @ [e]) s =
     (do { (r, evs') \<leftarrow> au_step env e s1; Some (r, evs @ evs') })"
proof (induction es arbitrary: s evs)
  case Nil
  then show ?case by (cases "au_step env e s") (auto split: sum.splits)
next
  case (Cons x es)
  obtain q evs0 where q: "au_step env x s = Some (q, evs0)" using Cons.prems by (cases "au_step env x s") auto
  show ?case
  proof (cases q)
    case (Inl u)
    then show ?thesis using Cons.prems q by simp
  next
    case (Inr s0)
    then obtain evs2 where a: "au_run env es s0 = Some (Inr s1, evs2)" "evs = evs0 @ evs2"
      using Cons.prems q by (auto simp: bind_eq_Some_conv)
    show ?thesis using a q Inr Cons.IH [OF a(1)] by (cases "au_step env e s1") auto
  qed
qed


section \<open>Properties\<close>

text \<open>
  C35: The ALSA utility runs without an undefined access. From the state before the device is opened,
  with at least one output and no address in \<open>iprx\<close>, the start succeeds; then for every sequence
  of datagrams and periods in any order - audio of any sender whose frames and offset stay inside
  the packet and whose rate is the one of the stream, requests and answers in text, anything else -
  no step of the two threads reads or writes outside a packet, a buffer, the ring or the resampler,
  the process does not exit, and the state stays good.
\<close>

theorem utility_runs_safely:
  assumes "au_fresh s" and "ci < 65536" and "0 < co" and "co < 65536" and "\<And>k. \<exists>b. malloc k = Some b \<and> length b = k"
    and "8000 \<le> r" and "r \<le> 200000" and "\<And>k. length (ae_float env k) = k"
    and "\<forall>e \<in> set es. au_fine r (min (au_nbinputs s) ci, min (au_nboutputs s) co, au_offset s) e"
  shows "\<exists>s1 s2 evs. au_open True malloc (ci, co) s = Some (Inr s1) \<and> au_run env es s1 = Some (Inr s2, evs) \<and> au_ok r s2"
proof -
  obtain s1 where s1: "au_open True malloc (ci, co) s = Some (Inr s1)" "au_ok r s1"
      "au_setup_of s1 = (min (au_nbinputs s) ci, min (au_nboutputs s) co, au_offset s)"
    using au_open_ok [OF assms(1-5), of r] by blast
  then show ?thesis using au_run_ok [OF assms(6-8) s1(2), of es] assms(9) by auto
qed

definition example_utility :: alsa_util where
  "example_utility = (au_start 5)\<lparr>au_fd := 3, au_name_rx := [0x53]\<rparr>"

definition example_env :: au_env where
  "example_env = \<lparr>ae_sin = (\<lambda>x. x), ae_cos = (\<lambda>x. x), ae_float = (\<lambda>k. replicate k d_zero)\<rparr>"

lemma example_utility_fresh: "au_fresh example_utility"
  by (simp add: au_fresh_def example_utility_def au_start_def vban_sizes)

lemma example_events_fine:
  "au_fine 48000 (2, 2, 0) (Packet (1, 1) (packet_bytes example_audio) 7 0)"
  "au_fine 48000 (2, 2, 0) (Period None (replicate 2 (replicate 512 0)))"
proof -
  have p: "packet_store zero_packet (packet_bytes example_audio) = example_audio"
    by (rule packet_store_whole [OF example_audio_facts(1) zero_packet_ok])
  have l: "length (packet_bytes example_audio) = VBAN_PROTOCOL_MAX_SIZE" by (rule length_packet_bytes [OF example_audio_facts(1)])
  show "au_fine 48000 (2, 2, 0) (Packet (1, 1) (packet_bytes example_audio) 7 0)"
    unfolding au_fine.simps p l Let_def
    by (simp add: vban_sizes ts_ok_def au_fits_def au_reach_def example_audio_def zero_header_def bit_size_def VBanBitResolutionSize_def
        sr_at_def VBanSRList_def)
  show "au_fine 48000 (2, 2, 0) (Period None (replicate 2 (replicate 512 0)))" by simp
qed

theorem utility_runs_safely_witness:
  "\<exists>s1 s2 evs. au_open True (\<lambda>k. Some (replicate k 0)) (2, 2) example_utility = Some (Inr s1) \<and>
    au_run example_env [Packet (1, 1) (packet_bytes example_audio) 7 0, Period None (replicate 2 (replicate 512 0))] s1 = Some (Inr s2, evs) \<and>
    au_ok 48000 s2"
proof (rule utility_runs_safely [OF example_utility_fresh])
  have "au_nbinputs example_utility = 2" "au_nboutputs example_utility = 2" "au_offset example_utility = 0"
    by (simp_all add: example_utility_def au_start_def)
  then show "\<forall>e \<in> set [Packet (1, 1) (packet_bytes example_audio) 7 0, Period None (replicate 2 (replicate 512 0))].
      au_fine 48000 (min (au_nbinputs example_utility) 2, min (au_nboutputs example_utility) 2, au_offset example_utility) e"
    using example_events_fine by (simp del: au_fine.simps)
  show "length (ae_float example_env k) = k" for k by (simp add: example_env_def)
  show "\<exists>b. Some (replicate k 0) = Some b \<and> length b = k" for k by simp
qed simp_all

text \<open>
  C36: A silent stream of the ALSA utility ends, and not earlier. While the utility receives and no
  datagram arrives, the stream stays for as many periods as the timer has left; with the next period
  the sender is forgotten, the resampler is deleted and the ring is empty.
\<close>

theorem silent_stream_ends:
  assumes "au_ok r s" and "au_receiving s" and "au_reset s + length es = au_reset_max s" and "\<forall>e \<in> set (es @ [e]). period_only r (au_setup_of s) e"
  shows "\<exists>s1 s2 evs1 evs2. au_run env es s = Some (Inr s1, evs1) \<and> au_rxip s1 = au_rxip s \<and> au_receiving s1 \<and>
    au_run env (es @ [e]) s = Some (Inr s2, evs2) \<and> au_rxip s2 = 0 \<and> au_resampler s2 = None \<and>
    (\<exists>rb. au_ring s2 = Some rb \<and> ringbuffer_read_space rb = Some 0)"
proof -
  have es: "\<forall>e \<in> set es. period_only r (au_setup_of s) e" "period_only r (au_setup_of s) e" using assms(4) by simp_all
  have "au_reset s + length es \<le> au_reset_max s" using assms(3) by simp
  then obtain s1 evs1 where s1: "au_run env es s = Some (Inr s1, evs1)" "au_ok r s1" "au_setup_of s1 = au_setup_of s" "au_receiving s1"
      "au_rxip s1 = au_rxip s" "au_reset_max s1 = au_reset_max s" "au_reset s1 = au_reset s + length es"
    using silent_run [OF assms(1,2) es(1)] by blast
  obtain s2 evs rb where s2: "au_step env e s1 = Some (Inr s2, evs)" "au_ok r s2" "au_left s1 s2 (rb_abs rb)"
    using silent_step [OF s1(2)] es(2) s1(3) by metis
  have "au_ends s1" using s1(4,6,7) assms(3) by (simp add: au_ends_def)
  then obtain rb' where r: "au_rxip s2 = 0" "au_resampler s2 = None" "au_ring s2 = Some rb'" "rb_abs rb' = []" using s2(3) by (auto simp: au_left_def)
  have "rb_ok rb'" using s2(2) r(3) by (auto simp: au_ok_def au_rx_ok_def au_ring_ok_def)
  then have "ringbuffer_read_space rb' = Some 0" using read_space_ok [of rb'] length_rb_abs [of rb'] r(4) by simp
  then show ?thesis using s1(1,4,5) r au_run_append [OF s1(1), of e] s2(1) by simp
qed

definition example_silent :: alsa_util where
  "example_silent = example_utility\<lparr>au_nbinputs := 0, au_nboutputs := 1, au_rxip := 7, au_flags := ucast RECEIVING,
     au_resampler := Some example_resampler, au_frame := [1, 2, 3, 4], au_out := [replicate 512 0], au_reset := 1, au_reset_max := 2,
     au_ring := Some \<lparr>rb_buf = replicate 4096 0, write_ptr = 4, read_ptr = 0, rb_size = 4096, mlocked = 0\<rparr>\<rparr>"

lemma example_silent_ok: "au_ok 48000 example_silent" "au_receiving example_silent" "au_setup_of example_silent = (0, 1, 0)"
proof -
  have "au_res_ok 1 (Some example_resampler)"
    using example_resampler_ok by (auto simp: au_res_ok_def example_resampler_def intro!: exI [of _ example_table])
  then show "au_ok 48000 example_silent" using fresh_facts
    by (simp add: au_ok_def au_rx_ok_def au_bufs_ok_def example_silent_def example_utility_def au_start_def vban_sizes au_ring_ok_def rb_ok_def au_play_ok_def)
  show "au_receiving example_silent" by (simp add: au_receiving_def example_silent_def flag_defs)
  show "au_setup_of example_silent = (0, 1, 0)" by (simp add: au_setup_of_def example_silent_def example_utility_def au_start_def)
qed

theorem silent_stream_ends_witness:
  "\<exists>s1 s2 evs1 evs2. au_run example_env [Period None []] example_silent = Some (Inr s1, evs1) \<and> au_rxip s1 = au_rxip example_silent \<and>
    au_receiving s1 \<and> au_run example_env ([Period None []] @ [Period None []]) example_silent = Some (Inr s2, evs2) \<and> au_rxip s2 = 0 \<and>
    au_resampler s2 = None \<and> (\<exists>rb. au_ring s2 = Some rb \<and> ringbuffer_read_space rb = Some 0)"
proof (rule silent_stream_ends [OF example_silent_ok(1,2)])
  show "au_reset example_silent + length [Period None []] = au_reset_max example_silent" by (simp add: example_silent_def)
  show "\<forall>e \<in> set ([Period None []] @ [Period None []]). period_only 48000 (au_setup_of example_silent) e"
    by (simp add: period_only_def example_silent_ok(3))
qed

text \<open>
  C37: A period of the ALSA utility plays the ring. Every frame of the period is, on each channel, the
  next frame of the ring; when the ring runs out, its last frame is played again to the end of the
  period, and from an empty ring the last frame of the period before. The ring loses exactly the
  whole frames that were played, at most 128.
\<close>

theorem period_plays_ring:
  assumes "au_ok r s" and "au_fine r (au_setup_of s) (Period ifaddr ins)" and "au_ring s = Some rb"
  shows "\<exists>s' evs. au_step env (Period ifaddr ins) s = Some (Inr s', evs) \<and> au_ok r s' \<and> au_played s s' (rb_abs rb) \<and> au_left s s' (rb_abs rb)"
  using au_period_ok [OF assms] by auto

theorem period_plays_ring_witness:
  "\<exists>s' evs. au_step example_env (Period None []) example_silent = Some (Inr s', evs) \<and> au_ok 48000 s' \<and>
    au_played example_silent s' (rb_abs (the (au_ring example_silent))) \<and> au_left example_silent s' (rb_abs (the (au_ring example_silent)))"
proof (rule period_plays_ring [OF example_silent_ok(1)])
  show "au_fine 48000 (au_setup_of example_silent) (Period None [])" by (simp add: example_silent_ok(3))
  show "au_ring example_silent = Some (the (au_ring example_silent))" by (simp add: example_silent_def)
qed



text \<open>With an offset, or more announced frames than data, the packet is read past its end.\<close>

theorem offset_overreads:
  assumes "unat (format_bit (header p)) = 4" and "au_reach (au_nboutputs s) (au_offset s) 4 (header p) > length (pdata p)"
  shows "au_audio ts p s = None"
proof (cases "au_buffers (header p) s")
  case None
  then show ?thesis by (simp add: au_audio_def Let_def)
next
  case (Some t)
  let ?h = "header p" and ?n = "unat (format_nbs (header p))" and ?nbc = "unat (format_nbc (header p)) + 1"
  have keep: "au_nboutputs t = au_nboutputs s" "au_offset t = au_offset s"
    using Some by (auto simp: au_buffers_def Let_def bind_eq_Some_conv split: if_splits)
  define off where "off = (if au_offset s > ?nbc then 0 else 4 * au_offset s)"
  have reach: "length (pdata p) < ?n * (4 * ?nbc) + off + min ?nbc (au_nboutputs s) * 4"
    using assms(2) by (simp add: au_reach_def off_def Let_def)
  have "au_frame_in (au_nboutputs s) (min ?nbc (au_nboutputs s)) (4 * ?nbc) off 4 (pdata p) ?n b = None" for b
  proof (cases "?n * (4 * ?nbc) + off \<le> length (pdata p)")
    case True
    then have "length (drop (?n * (4 * ?nbc) + off) (pdata p)) < 4 * min ?nbc (au_nboutputs s)" using reach by (simp only: length_drop)
    then have "mem_load (drop (?n * (4 * ?nbc) + off) (pdata p)) 0 (4 * min ?nbc (au_nboutputs s)) = None" by (simp add: mem_load_def)
    then show ?thesis by (simp add: au_frame_in_def)
  next
    case False
    then show ?thesis by (simp only: au_frame_in_def simp_thms if_False)
  qed
  then have "for_loop 0 (?n + 1) (au_frame_in (au_nboutputs s) (min ?nbc (au_nboutputs s)) (4 * ?nbc) off 4 (pdata p)) b = None" for b
    by (rule for_loop_last)
  moreover have "bit_size 4 = Some 4" by (simp add: bit_size_def VBanBitResolutionSize_def)
  ultimately show ?thesis unfolding au_audio_def Let_def Some Option.bind.bind_lunit assms(1) keep
    by (cases "au_offset s > ?nbc") (simp_all add: off_def del: for_loop.simps)
qed

end
