(* ===== verification/Spec2Isabelle.thy ===== *)
theory Spec2Isabelle
  imports Ringbuffer_Spsc Packets Client_List Sample_Convert Key_Value Resampler_Table Rate Transmit Player Pw_Receptor
    Median_Filter Alsa_Session
begin

text \<open>
  Verification of the VBAN utilities: programs that send and receive audio over UDP in the VBAN
  format, on JACK, PipeWire and ALSA.

  \<^bold>\<open>The programs.\<close> An emitter takes a period of samples from the audio server, converts it, cuts it
  into packets and sends them, whole or in slices from a timer thread; before that it may search its
  receptor in the network. A receptor takes packets from a socket or a pipe, converts them to
  floats, resamples them with a ratio that a controller derives from the fill of its ring buffer, and
  puts the frames into the ring; the callback of the audio server takes a period of frames from the
  ring and conceals what is missing. A multistream receptor gives every stream it hears to a child
  process, through a pipe, and ends the processes of silent streams. The ALSA utility is both at once,
  on a device it owns, with a network thread and a main loop that share their state without a lock.

  \<^bold>\<open>How the model reads.\<close> An operation of the code is a function of the same name from the state it
  reads to the state it leaves. \<^const>\<open>None\<close> is an execution without a defined result (an access
  outside an object, a division by zero, a signed overflow, a float that does not fit the integer
  type, a loop that does not return); error codes are values. Bit fields are words, values of type
  \<open>size_t\<close> are natural numbers with the wrap at \<open>2 ^ 64\<close> written out, values of type \<open>int\<close> are
  checked at 32 bits, floats are IEEE numbers rounded after every operation. What the environment
  answers (kernel, clock, audio server, allocator, \<open>sin\<close> and \<open>cos\<close>) is an argument; what the code
  asks of it (datagrams, calls into a server, signals) is a list of events in the result.

  \<^bold>\<open>Basis.\<close>
  \<^item> \<open>Prelude\<close>: checked and wrapping integers, blocks of memory, counting loops, C strings.
  \<^item> \<open>Floats\<close>, \<open>Float_Bounds\<close>, \<open>Bytes\<close>: executable IEEE arithmetic, its error bounds, values in bytes.

  \<^bold>\<open>Components\<close> (all sources below \<open>src/vban_common\<close> unless a directory is given).
  \<^item> \<open>Ringbuffer\<close> (\<open>ringbuffer.h\<close>): the byte ring, every operation; it refines a bounded queue
    (\<open>ring_fifo\<close>), and the vector interface agrees with the copying one. \<open>Byte_Fifo\<close> is that contract
    as a locale, interpreted on the ring as \<open>ring\<close>; \<open>Frame_Fifo\<close> extends it to transfers of whole
    frames, interpreted as \<open>ring_frames\<close>. \<open>Ringbuffer_Spsc\<close> splits reader and writer into single
    accesses and shows that no interleaving races and that the reader gets a prefix of what was
    written.
  \<^item> \<open>Vban\<close> (\<open>vban.h\<close>): packet structures, their bytes on the wire and the tables.
  \<^item> \<open>Sample_Convert\<close>, \<open>Packets\<close> (\<open>vban_functions.h\<close>): the conversions between sample formats with
    their values, round trips and order, and the sizes of packets and buffers.
  \<^item> \<open>Client_List\<close> (\<open>vban_client_list.cpp\<close>): a linked list on an explicit heap, which refines a list;
    the locale \<open>registry\<close> is what its client may use, interpreted as \<open>client_list\<close>.
  \<^item> \<open>Udp\<close> (\<open>udp.h\<close>, \<open>udp.cpp\<close>), \<open>Context\<close> (the state of a stream and its flags, \<open>vban_functions.h\<close>).
  \<^item> \<open>Key_Value\<close>, \<open>Discovery\<close> (\<open>vban_functions.cpp\<close>, \<open>udp.cpp\<close>): the text messages, the lookup of a
    value by key, and the search of an emitter for its receptor.
  \<^item> \<open>Vresampler\<close>, \<open>Vresampler_Safety\<close>, \<open>Resampler_Table\<close> (\<open>zita-resampler\<close>): the resampler of
    variable ratio with its shared, counted filter tables. The locale \<open>table_source\<close> is what the
    resampler needs of a table, interpreted on the code's table as \<open>fresh\<close>; the safety theorem holds
    for every sequence of calls and every rounded ratio.
  \<^item> \<open>Rate\<close> (\<open>vban_functions.h\<close>): measurement of the input cycles and the controller of the ratio.
  \<^item> \<open>Transmit\<close> (\<open>vban_functions.h\<close>, \<open>vban_functions.cpp\<close>): the cut of a period into packets, copies,
    resends and slices.
  \<^item> \<open>Receive\<close>, \<open>Rx_Packet\<close>: how a callback reads its period from the ring (the locale
    \<open>period_reader\<close>, interpreted for both layouts as \<open>planar\<close> and \<open>interleaved\<close>), what one packet does,
    and the receiver thread.
  \<^item> \<open>Player\<close>: receiver and callback together, over any sequence of packets and periods.
  \<^item> \<open>Multistream\<close>, \<open>Multistream_Run\<close> (\<open>src/vban_receptor_jack/main.cpp\<close>, \<open>popen2.h\<close>): packet loop,
    child processes and timer of the multistream receptor; they refine an abstract list of clients.
  \<^item> \<open>Options\<close> (\<open>jack_backend.cpp\<close>): the command lines. The locale \<open>option_table\<close> folds one option
    after the other, interpreted as \<open>emitter_table\<close> and \<open>receptor_table\<close>.
  \<^item> \<open>Jack_Client\<close>, \<open>Emitter\<close>, \<open>Receptor_Jack\<close> (\<open>jack_backend.cpp\<close>, the main files): ports and
    connections, the emitter from its options to its datagrams, the start and the callback of the
    player.
  \<^item> \<open>Receptor_Start\<close> (\<open>src/vban_receptor_jack/main.cpp\<close>): from the options to the branches of the
    receptor, joined with the runs of \<open>Multistream_Run\<close>.
  \<^item> \<open>Pipewire\<close> (\<open>pipewire_backend.cpp\<close> and the main files): the same programs on PipeWire, with the
    life of the blocks the program frees. \<open>Pw_Receptor\<close> (\<open>src/vban_receptor_pw/main.cpp\<close>): its
    multistream receptor, whose handling of a packet is shown to be that of the JACK receptor seen
    through \<open>as_jack\<close> where the two agree; its options are the interpretation \<open>pw_receptor_table\<close>.
  \<^item> \<open>Median_Filter\<close> (\<open>src/vban_alsa_util/MedianFilterInt.h\<close>): the sliding median of the ALSA utility.
  \<^item> \<open>Alsa_Wire\<close> (\<open>src/vban_alsa_util/main.cpp\<close>): its conversions, the lookup of an option, the list of
    interfaces and its controller; samples are clipped and the ratio is held between its limits for
    every input.
  \<^item> \<open>Alsa_Util\<close> (same file): its state, options, start, network thread, main loop, and runs of both.
    \<open>Alsa_Send\<close> shows what one cycle sends, \<open>Alsa_Receive\<close> the invariant of the receiving half (ring,
    buffers, resampler, median, controller) and what a packet and a period do to it. \<open>Alsa_Session\<close>
    puts both halves together: the start gives a good state, every sequence of fitting datagrams and
    periods keeps it, and a silent stream ends. The size of the output buffer, a quotient of doubles
    that is truncated, is shown to be the exact quotient for rates up to 200000.

  \<^bold>\<open>Loops.\<close> Loops with a bound are structural or have a measure. \<open>midi_events\<close> may spin for ever and is
  a partial function, so that spinning is \<^const>\<open>None\<close>; no theorem rests on fuel.

  \<^bold>\<open>Not modelled.\<close> The SSE2 and NEON paths of the resampler; the fixed-ratio resampler, \<open>cresampler\<close>
  and \<open>lfqueue\<close>, which no program calls; the Windows branches of the socket code; help texts and
  messages on the terminal; \<open>alsa_backend.cpp\<close>, which no program includes; the wrapper
  \<open>zita-alsa-pcmi\<close> around the ALSA library.
\<close>

end
